(* ===== verification/Minix_Prelude.thy ===== *)
theory Minix_Prelude
  imports Main "HOL-Library.Word"
begin

unbundle bit_operations_syntax

section \<open>Prelude: machine types, outcomes and linked chains\<close>

text \<open>
  What every component theory shares.

  \<^item> The integer types of the 68000 port (\<^verbatim>\<open>src/src/include/minix/type.h\<close>,
    \<^verbatim>\<open>src/src/include/sys/types.h\<close>): the compiler runs with 16-bit \<open>int\<close> and 32-bit \<open>long\<close>,
    so \<open>unsigned\<close> and \<open>unsigned short\<close> are 16-bit words.
  \<^item> The \<open>outcome\<close> of a routine: it returns, it panics, or it is stuck (it follows a nil or
    uninitialised pointer, or loops for ever on a cyclic list).
  \<^item> Linked chains. Kernel, MM and FS thread their tables with next-pointers; a pointer into a
    table is the index of the slot. \<open>chain nx p xs\<close> says that following \<open>nx\<close> from \<open>p\<close> visits exactly
    the slots \<open>xs\<close> and then the nil pointer, and \<open>chain_find\<close> is the search loop
    \<open>while (p != NIL && !found) { prev = p; p = p->next; }\<close> that the sources write out each time.
\<close>

subsection \<open>Machine types\<close>

type_synonym u8 = "8 word"
type_synonym u16 = "16 word"
type_synonym u32 = "32 word"

type_synonym phys_clicks = u16
type_synonym vir_clicks = u16

named_theorems chain_simps \<open>rewriting of chains under pointer updates\<close>
named_theorems outcome_simps \<open>sequencing of outcomes\<close>

subsection \<open>Bits of words\<close>

lemma bit_unat_iff: "bit (unat (x :: 'a::len word)) n = bit x n"
  by (auto simp: bit_unsigned_iff dest: bit_imp_le_length)

lemma bit_zero_iff_odd: "bit (x :: 'a::len word) 0 = odd (unat x)"
  using bit_unat_iff [of x 0] by (simp add: bit_0)

lemma unat_clear_low_bit: "unat ((x :: 'a::len word) AND NOT 1) = 2 * (unat x div 2)"
proof (rule bit_eqI)
  fix n
  show "bit (unat (x AND NOT 1)) n = bit (2 * (unat x div 2)) n"
  proof (cases n)
    case 0
    then show ?thesis by (simp add: bit_unat_iff bit_simps)
  next
    case (Suc k)
    then show ?thesis
      by (auto simp add: bit_unat_iff bit_double_iff bit_Suc [symmetric] bit_and_iff bit_not_iff
          bit_1_iff simp del: not_one_eq dest: bit_imp_le_length)
  qed
qed

lemma unat_add_below: "unat a + unat b < 2 ^ LENGTH('a) \<Longrightarrow> unat (a + b :: 'a::len word) = unat a + unat b"
  by (simp add: unat_word_ariths)

subsection \<open>Outcomes\<close>

datatype 'a outcome = Done 'a | Panic string | Stuck

primrec and_then :: "'a outcome \<Rightarrow> ('a \<Rightarrow> 'b outcome) \<Rightarrow> 'b outcome" where
  "and_then (Done x) f = f x"
| "and_then (Panic s) f = Panic s"
| "and_then Stuck f = Stuck"

lemma and_then_Done_iff [outcome_simps]:
  "and_then m f = Done y \<longleftrightarrow> (\<exists>x. m = Done x \<and> f x = Done y)"
  by (cases m) auto

lemma and_then_assoc: "and_then (and_then m f) g = and_then m (\<lambda>x. and_then (f x) g)"
  by (cases m) auto

lemma and_then_cong [fundef_cong]:
  "m = m' \<Longrightarrow> (\<And>x. m' = Done x \<Longrightarrow> f x = f' x) \<Longrightarrow> and_then m f = and_then m' f'"
  by (cases m') auto

subsection \<open>Fields of table slots\<close>

lemma comp_upd_self [simp]: "(F \<circ> g)(i := F (g i)) = F \<circ> g"
  by auto

lemma comp_fun_upd [simp]: "F \<circ> (g(i := r)) = (F \<circ> g)(i := F r)"
  by (auto simp: fun_eq_iff)

subsection \<open>Chains\<close>

primrec lseg :: "('a \<Rightarrow> 'a option) \<Rightarrow> 'a option \<Rightarrow> 'a list \<Rightarrow> 'a option \<Rightarrow> bool" where
  "lseg nx p [] q \<longleftrightarrow> p = q"
| "lseg nx p (x # xs) q \<longleftrightarrow> p = Some x \<and> lseg nx (nx x) xs q"

definition chain :: "('a \<Rightarrow> 'a option) \<Rightarrow> 'a option \<Rightarrow> 'a list \<Rightarrow> bool" where
  "chain nx p xs = lseg nx p xs None"

lemma chain_Nil [simp]: "chain nx p [] \<longleftrightarrow> p = None"
  and chain_Cons [simp]: "chain nx p (x # xs) \<longleftrightarrow> p = Some x \<and> chain nx (nx x) xs"
  by (auto simp: chain_def)

lemma lseg_append: "lseg nx p (xs @ ys) q \<longleftrightarrow> (\<exists>r. lseg nx p xs r \<and> lseg nx r ys q)"
  by (induction xs arbitrary: p) auto

lemma chain_append: "chain nx p (xs @ ys) \<longleftrightarrow> (\<exists>r. lseg nx p xs r \<and> chain nx r ys)"
  by (simp add: chain_def lseg_append)

lemma lseg_cong: "(\<And>x. x \<in> set xs \<Longrightarrow> nx x = nx' x) \<Longrightarrow> lseg nx p xs q = lseg nx' p xs q"
proof (induction xs arbitrary: p)
  case Nil
  then show ?case by simp
next
  case (Cons x xs)
  have "lseg nx r xs q = lseg nx' r xs q" for r by (rule Cons.IH) (simp add: Cons.prems)
  moreover have "nx x = nx' x" by (rule Cons.prems) simp
  ultimately show ?case by simp
qed

lemma chain_cong: "(\<And>x. x \<in> set xs \<Longrightarrow> nx x = nx' x) \<Longrightarrow> chain nx p xs = chain nx' p xs"
  unfolding chain_def by (rule lseg_cong)

lemma lseg_upd_other [simp, chain_simps]:
  "a \<notin> set xs \<Longrightarrow> lseg (nx(a := v)) p xs q = lseg nx p xs q"
  by (rule lseg_cong) auto

lemma chain_upd_other [simp, chain_simps]:
  "a \<notin> set xs \<Longrightarrow> chain (nx(a := v)) p xs = chain nx p xs"
  by (rule chain_cong) auto

lemma chain_unique: "chain nx p xs \<Longrightarrow> chain nx p ys \<Longrightarrow> xs = ys"
proof (induction xs arbitrary: p ys)
  case Nil
  then show ?case by (cases ys) auto
next
  case (Cons x xs)
  then show ?case by (cases ys) auto
qed

lemma chain_tail_notin: "chain nx (nx a) xs \<Longrightarrow> a \<notin> set xs"
proof
  assume c: "chain nx (nx a) xs" and "a \<in> set xs"
  then obtain us vs where xs: "xs = us @ a # vs" by (meson split_list)
  with c have "chain nx (nx a) vs" by (auto simp: chain_append)
  with c have "xs = vs" by (rule chain_unique)
  with xs show False by simp
qed

lemma chain_distinct: "chain nx p xs \<Longrightarrow> distinct xs"
  by (induction xs arbitrary: p) (auto dest: chain_tail_notin)

lemma chain_None_iff [simp]: "chain nx None xs \<longleftrightarrow> xs = []"
  by (cases xs) auto

lemma chain_Some_iff: "chain nx (Some a) xs \<longleftrightarrow> (\<exists>ys. xs = a # ys \<and> chain nx (nx a) ys)"
  by (cases xs) auto

lemma lseg_last: "lseg nx p xs q \<Longrightarrow> xs \<noteq> [] \<Longrightarrow> nx (last xs) = q"
  by (induction xs arbitrary: p) (auto split: if_splits)

lemma chain_last: "chain nx p xs \<Longrightarrow> xs \<noteq> [] \<Longrightarrow> nx (last xs) = None"
  by (simp add: chain_def lseg_last)

text \<open>Pointer surgery: push on the front, append at the tail, unlink, insert after a node.\<close>

lemma chain_push:
  "chain nx p xs \<Longrightarrow> a \<notin> set xs \<Longrightarrow> chain (nx(a := p)) (Some a) (a # xs)"
  by simp

lemma lseg_redirect:
  "lseg nx p (xs @ [u]) q \<Longrightarrow> u \<notin> set xs \<Longrightarrow> lseg (nx(u := r)) p (xs @ [u]) r"
  by (auto simp: lseg_append)

lemma chain_snoc:
  assumes "chain nx p xs" and "xs \<noteq> []" and "a \<notin> set xs"
  shows "chain (nx(last xs := Some a, a := None)) p (xs @ [a])"
proof -
  obtain us u where xs: "xs = us @ [u]" using \<open>xs \<noteq> []\<close> by (meson rev_exhaust)
  from assms(1) have d: "distinct (us @ [u])" by (auto simp: xs dest: chain_distinct)
  have "lseg nx p (us @ [u]) None" using assms(1) by (simp add: xs chain_def)
  then have "lseg (nx(u := Some a)) p (us @ [u]) (Some a)" by (rule lseg_redirect) (use d in auto)
  then have "lseg (nx(u := Some a, a := None)) p (us @ [u]) (Some a)" using assms(3) by (simp add: xs)
  then show ?thesis by (simp only: chain_append xs last_snoc) auto
qed

lemma chain_unlink:
  assumes "chain nx p (us @ u # v # vs)"
  shows "chain (nx(u := nx v)) p (us @ u # vs)"
proof -
  have d: "distinct (us @ u # v # vs)" using assms by (rule chain_distinct)
  with assms show ?thesis by (auto simp: chain_append)
qed

lemma chain_insert_after:
  assumes "chain nx p (us @ u # vs)" and "a \<notin> set (us @ u # vs)"
  shows "chain (nx(a := nx u, u := Some a)) p (us @ u # a # vs)"
proof -
  have d: "distinct (us @ u # vs)" using assms(1) by (rule chain_distinct)
  with assms show ?thesis by (auto simp: chain_append)
qed

lemma chain_length_le:
  assumes "chain nx p xs" and "set xs \<subseteq> A" and "finite A"
  shows "length xs \<le> card A"
proof -
  have "card (set xs) = length xs" using assms(1) by (simp add: chain_distinct distinct_card)
  then show ?thesis using card_mono [OF assms(3,2)] by simp
qed

subsection \<open>The search loop\<close>

text \<open>
  One iteration costs one unit of fuel; \<open>None\<close> is a loop that did not end. The first component of
  the result is the node before the one found (\<open>None\<close> when the loop body never ran, where the
  source's \<open>prev_ptr\<close> is uninitialised).
\<close>

fun chain_find :: "('a \<Rightarrow> 'a option) \<Rightarrow> ('a \<Rightarrow> bool) \<Rightarrow> nat \<Rightarrow> 'a option \<Rightarrow> 'a option \<Rightarrow>
    ('a option \<times> 'a option) option" where
  "chain_find nx P n prev None = Some (prev, None)"
| "chain_find nx P 0 prev (Some x) = (if P x then Some (prev, Some x) else None)"
| "chain_find nx P (Suc n) prev (Some x) =
     (if P x then Some (prev, Some x) else chain_find nx P n (Some x) (nx x))"

definition last_opt :: "'a option \<Rightarrow> 'a list \<Rightarrow> 'a option" where
  "last_opt d xs = (if xs = [] then d else Some (last xs))"

lemma last_opt_simps [simp]:
  "last_opt d [] = d" "last_opt d (x # xs) = last_opt (Some x) xs"
  by (auto simp: last_opt_def)

lemma last_opt_snoc [simp]: "last_opt d (xs @ [x]) = Some x"
  by (simp add: last_opt_def)

lemma chain_find_none:
  "chain nx p xs \<Longrightarrow> \<forall>x \<in> set xs. \<not> P x \<Longrightarrow> length xs \<le> n \<Longrightarrow>
   chain_find nx P n prev p = Some (last_opt prev xs, None)"
proof (induction xs arbitrary: p n prev)
  case Nil
  then show ?case by simp
next
  case (Cons x xs)
  then show ?case by (cases n) auto
qed

lemma chain_find_some:
  "chain nx p (us @ x # vs) \<Longrightarrow> \<forall>u \<in> set us. \<not> P u \<Longrightarrow> P x \<Longrightarrow> length us \<le> n \<Longrightarrow>
   chain_find nx P n prev p = Some (last_opt prev us, Some x)"
proof (induction us arbitrary: p n prev)
  case Nil
  then show ?case by (cases n) auto
next
  case (Cons u us)
  then show ?case by (cases n) auto
qed

lemma split_first:
  assumes "\<exists>x \<in> set xs. P x"
  obtains us x vs where "xs = us @ x # vs" "\<forall>u \<in> set us. \<not> P u" "P x"
  using split_list_first_prop [OF assms] by blast

lemma chain_find_cases:
  assumes "chain nx p xs" and "length xs \<le> n"
  obtains (none) "\<forall>x \<in> set xs. \<not> P x" "chain_find nx P n prev p = Some (last_opt prev xs, None)"
    | (some) us x vs where "xs = us @ x # vs" "\<forall>u \<in> set us. \<not> P u" "P x"
        "chain_find nx P n prev p = Some (last_opt prev us, Some x)"
proof (cases "\<exists>x \<in> set xs. P x")
  case True
  then obtain us x vs where s: "xs = us @ x # vs" "\<forall>u \<in> set us. \<not> P u" "P x" by (rule split_first)
  then have "chain_find nx P n prev p = Some (last_opt prev us, Some x)"
    using assms by (intro chain_find_some) auto
  with s show ?thesis by (rule some)
next
  case False
  then show ?thesis using assms none by (simp add: chain_find_none)
qed

text \<open>Predecessors, successors and the end of a chain.\<close>

lemma chain_pred:
  assumes "chain nx (Some h) xs" and "p \<in> set xs" and "p \<noteq> h"
  shows "\<exists>y \<in> set xs. nx y = Some p"
proof -
  obtain us vs where xs: "xs = us @ p # vs" using assms(2) by (meson split_list)
  have "us \<noteq> []" using assms xs by (auto simp: chain_Some_iff)
  then obtain us' y where us: "us = us' @ [y]" by (meson rev_exhaust)
  have "nx y = Some p" using assms(1) by (auto simp: xs us chain_append lseg_append)
  then show ?thesis using xs us by auto
qed

lemma chain_succ:
  assumes "chain nx h (us @ y # vs)" and "nx y = Some p"
  obtains ws where "vs = p # ws"
  using assms by (auto simp: chain_append chain_Some_iff)

lemma chain_find_end:
  assumes "chain nx p xs" and "xs \<noteq> []" and "length xs \<le> n"
  obtains pv where "chain_find nx (\<lambda>y. nx y = None) n prev p = Some (pv, Some (last xs))"
proof -
  have l: "nx (last xs) = None" using assms(1,2) by (rule chain_last)
  from assms(1,3) show ?thesis
  proof (cases rule: chain_find_cases [where P = "\<lambda>y. nx y = None" and prev = prev])
    case none
    then show ?thesis using l assms(2) by (meson last_in_set)
  next
    case (some us x vs)
    then have "vs = []" using assms(1) by (auto simp: chain_append)
    then show ?thesis using some that by simp
  qed
qed

lemma find_skip: "find P xs = None \<Longrightarrow> P x \<Longrightarrow> find P (xs @ x # ys) = Some x"
  by (induction xs) (auto split: if_splits)

subsection \<open>Walks over a whole chain\<close>

text \<open>
  \<open>chain_fold\<close> is the loop \<open>for (p = head; p != NIL; p = p->next) acc = f acc p\<close>, with one unit of
  fuel per node; \<open>chain_list\<close> reads the slots of a chain back as a list.
\<close>

fun chain_fold :: "('a \<Rightarrow> 'a option) \<Rightarrow> ('b \<Rightarrow> 'a \<Rightarrow> 'b) \<Rightarrow> nat \<Rightarrow> 'b \<Rightarrow> 'a option \<Rightarrow> 'b outcome" where
  "chain_fold nx f n acc None = Done acc"
| "chain_fold nx f 0 acc (Some x) = Stuck"
| "chain_fold nx f (Suc n) acc (Some x) = chain_fold nx f n (f acc x) (nx x)"

fun chain_list :: "('a \<Rightarrow> 'a option) \<Rightarrow> nat \<Rightarrow> 'a option \<Rightarrow> 'a list" where
  "chain_list nx n None = []"
| "chain_list nx 0 (Some x) = []"
| "chain_list nx (Suc n) (Some x) = x # chain_list nx n (nx x)"

lemma chain_list_eq: "chain nx p xs \<Longrightarrow> length xs \<le> n \<Longrightarrow> chain_list nx n p = xs"
proof (induction xs arbitrary: p n)
  case (Cons x xs)
  then show ?case by (cases n) auto
qed simp

lemma chain_fold_eq: "chain nx p xs \<Longrightarrow> length xs \<le> n \<Longrightarrow> chain_fold nx f n acc p = Done (fold (\<lambda>x a. f a x) xs acc)"
proof (induction xs arbitrary: p n acc)
  case (Cons x xs)
  then show ?case by (cases n) auto
qed simp

text \<open>Unfolding the loops when the fuel is a numeral.\<close>

lemma chain_numeral [simp]:
  "chain_find nx P (numeral k) prev (Some x) =
     (if P x then Some (prev, Some x) else chain_find nx P (pred_numeral k) (Some x) (nx x))"
  "chain_fold nx f (numeral k) acc (Some x) = chain_fold nx f (pred_numeral k) (f acc x) (nx x)"
  "chain_list nx (numeral k) (Some x) = x # chain_list nx (pred_numeral k) (nx x)"
  by (simp_all add: numeral_eq_Suc)

subsection \<open>Repeating an operation over a list\<close>

fun seq_all :: "('a \<Rightarrow> 's \<Rightarrow> 's outcome) \<Rightarrow> 'a list \<Rightarrow> 's \<Rightarrow> 's outcome" where
  "seq_all f [] s = Done s"
| "seq_all f (x # xs) s = and_then (f x s) (seq_all f xs)"

lemma seq_all_append: "seq_all f (xs @ ys) s = and_then (seq_all f xs s) (seq_all f ys)"
  by (induction xs arbitrary: s) (auto simp: and_then_assoc fun_eq_iff intro: and_then_cong)

end
