(* ===== verification/MM_Alloc.thy ===== *)
theory MM_Alloc
  imports Minix_Prelude
begin

section \<open>MM: the hole table (src/src/mm/alloc.c)\<close>

text \<open>
  The memory manager keeps free physical memory in the table \<open>hole[NR_HOLES]\<close>. Two chains are
  threaded through its slots: the hole list (\<open>hole_head\<close>, by increasing address) and the unused
  slots (\<open>free_slots\<close>). The model keeps the table, both list heads and the \<open>h_next\<close> pointers as the
  code has them, with the LISA branches (even clicks) compiled in. Sizes and addresses are 16-bit
  words and wrap.

  \<open>holes_inv\<close> is the invariant; the lemmas show that every operation keeps it and does, on the
  set of free clicks, exactly what its comment promises.
\<close>

subsection \<open>The table\<close>

abbreviation (input) NR_HOLES :: nat where "NR_HOLES \<equiv> 128"
abbreviation (input) NO_MEM :: phys_clicks where "NO_MEM \<equiv> 0"

record hole =
  h_base :: phys_clicks
  h_len :: phys_clicks
  h_next :: "nat option"

record mem_table =
  hole_tab :: "nat \<Rightarrow> hole"
  hole_head :: "nat option"
  free_slots :: "nat option"

abbreviation nexts :: "mem_table \<Rightarrow> nat \<Rightarrow> nat option" where
  "nexts m \<equiv> h_next \<circ> hole_tab m"

definition set_hole :: "nat \<Rightarrow> hole \<Rightarrow> mem_table \<Rightarrow> mem_table" where
  "set_hole i h m = m\<lparr>hole_tab := (hole_tab m)(i := h)\<rparr>"

lemma set_hole_simps [simp]:
  "hole_tab (set_hole i h m) = (hole_tab m)(i := h)"
  "hole_head (set_hole i h m) = hole_head m"
  "free_slots (set_hole i h m) = free_slots m"
  "set_hole i h (m\<lparr>free_slots := f\<rparr>) = (set_hole i h m)\<lparr>free_slots := f\<rparr>"
  "set_hole i h (set_hole i h' m) = set_hole i h m"
  by (simp_all add: set_hole_def)

text \<open>\<open>clicks = (clicks + 1) & ~1\<close>: the LISA rounding to 512-byte pages.\<close>

definition round_even :: "phys_clicks \<Rightarrow> phys_clicks" where
  "round_even clicks = (clicks + 1) AND NOT 1"

subsection \<open>Operations\<close>

definition del_slot :: "nat option \<Rightarrow> nat \<Rightarrow> mem_table \<Rightarrow> mem_table outcome" where
  "del_slot prev_ptr hp m =
     and_then
       (if hole_head m = Some hp then Done (m\<lparr>hole_head := h_next (hole_tab m hp)\<rparr>)
        else (case prev_ptr of
                None \<Rightarrow> Stuck
              | Some pp \<Rightarrow> Done (set_hole pp ((hole_tab m pp)\<lparr>h_next := h_next (hole_tab m hp)\<rparr>) m)))
       (\<lambda>m1. Done ((set_hole hp ((hole_tab m1 hp)\<lparr>h_next := free_slots m1\<rparr>) m1)\<lparr>free_slots := Some hp\<rparr>))"

text \<open>\<open>hp->h_base += clicks; hp->h_len -= clicks\<close>.\<close>

definition bite :: "nat \<Rightarrow> phys_clicks \<Rightarrow> mem_table \<Rightarrow> mem_table" where
  "bite hp clicks m =
     set_hole hp ((hole_tab m hp)\<lparr>h_base := h_base (hole_tab m hp) + clicks,
                                  h_len := h_len (hole_tab m hp) - clicks\<rparr>) m"

definition alloc_mem :: "phys_clicks \<Rightarrow> mem_table \<Rightarrow> (phys_clicks \<times> mem_table) outcome" where
  "alloc_mem clicks0 m =
     (let clicks = round_even clicks0 in
      case chain_find (nexts m)
             (\<lambda>i. \<not> bit (h_base (hole_tab m i)) 0 \<and> clicks \<le> h_len (hole_tab m i))
             NR_HOLES None (hole_head m) of
        None \<Rightarrow> Stuck
      | Some (_, None) \<Rightarrow> Done (NO_MEM, m)
      | Some (prev_ptr, Some hp) \<Rightarrow>
          let old_base = h_base (hole_tab m hp);
              m1 = bite hp clicks m
          in if h_len (hole_tab m1 hp) \<noteq> 0 then Done (old_base, m1)
             else and_then (del_slot prev_ptr hp m1) (\<lambda>m2. Done (old_base, m2)))"

text \<open>
  \<open>merge\<close> absorbs the successor of a hole into it when the two are adjacent, and then tries once
  more, from the same hole if it grew and from the successor otherwise.
\<close>

definition absorb :: "nat \<Rightarrow> nat \<Rightarrow> mem_table \<Rightarrow> mem_table outcome" where
  "absorb hp next_ptr m =
     del_slot (Some hp) next_ptr
       (set_hole hp ((hole_tab m hp)\<lparr>h_len := h_len (hole_tab m hp) + h_len (hole_tab m next_ptr)\<rparr>) m)"

definition adjacent :: "nat \<Rightarrow> nat \<Rightarrow> mem_table \<Rightarrow> bool" where
  "adjacent hp next_ptr m \<longleftrightarrow>
     h_base (hole_tab m hp) + h_len (hole_tab m hp) = h_base (hole_tab m next_ptr)"

definition merge_second :: "nat \<Rightarrow> mem_table \<Rightarrow> mem_table outcome" where
  "merge_second hp m =
     (case h_next (hole_tab m hp) of
        None \<Rightarrow> Done m
      | Some next_ptr \<Rightarrow> if adjacent hp next_ptr m then absorb hp next_ptr m else Done m)"

definition merge :: "nat \<Rightarrow> mem_table \<Rightarrow> mem_table outcome" where
  "merge hp m =
     (case h_next (hole_tab m hp) of
        None \<Rightarrow> Done m
      | Some next_ptr \<Rightarrow>
          if adjacent hp next_ptr m then and_then (absorb hp next_ptr m) (merge_second hp)
          else merge_second next_ptr m)"

definition free_mem :: "phys_clicks \<Rightarrow> phys_clicks \<Rightarrow> mem_table \<Rightarrow> mem_table outcome" where
  "free_mem base clicks0 m =
     (let clicks = round_even clicks0 in
      case free_slots m of
        None \<Rightarrow> Panic ''Hole table full''
      | Some new_ptr \<Rightarrow>
          let m1 = (set_hole new_ptr ((hole_tab m new_ptr)\<lparr>h_base := base, h_len := clicks\<rparr>) m)
                     \<lparr>free_slots := h_next (hole_tab m new_ptr)\<rparr>;
              hp = hole_head m1
          in if (case hp of None \<Rightarrow> True | Some h \<Rightarrow> base \<le> h_base (hole_tab m1 h))
             then merge new_ptr
                    ((set_hole new_ptr ((hole_tab m1 new_ptr)\<lparr>h_next := hp\<rparr>) m1)\<lparr>hole_head := Some new_ptr\<rparr>)
             else (case chain_find (nexts m1) (\<lambda>i. \<not> h_base (hole_tab m1 i) < base) NR_HOLES None hp of
                     Some (Some prev_ptr, _) \<Rightarrow>
                       let m2 = set_hole new_ptr ((hole_tab m1 new_ptr)
                                  \<lparr>h_next := h_next (hole_tab m1 prev_ptr)\<rparr>) m1
                       in merge prev_ptr
                            (set_hole prev_ptr ((hole_tab m2 prev_ptr)\<lparr>h_next := Some new_ptr\<rparr>) m2)
                   | _ \<Rightarrow> Stuck))"

text \<open>\<open>max_hole\<close> and \<open>mem_left\<close> walk the whole hole list; the fold is their loop.\<close>

definition max_hole :: "mem_table \<Rightarrow> phys_clicks outcome" where
  "max_hole m =
     chain_fold (nexts m)
       (\<lambda>mx hp. if h_len (hole_tab m hp) > mx then h_len (hole_tab m hp) else mx)
       NR_HOLES 0 (hole_head m)"

definition mem_left :: "mem_table \<Rightarrow> phys_clicks outcome" where
  "mem_left m =
     chain_fold (nexts m) (\<lambda>tot hp. tot + h_len (hole_tab m hp)) NR_HOLES 0 (hole_head m)"

text \<open>
  \<open>mem_init\<close> links all slots into the free list and then frees every chunk that \<open>get_mem\<close>
  reports; the argument is the sequence of \<open>(base, size)\<close> answers, which ends at size 0.
\<close>

fun mem_init_loop :: "(phys_clicks \<times> phys_clicks) list \<Rightarrow> mem_table \<Rightarrow> mem_table outcome" where
  "mem_init_loop [] m = Done m"
| "mem_init_loop ((base, sz) # chunks) m =
     (if sz = 0 then Done m
      else and_then (free_mem base sz m) (mem_init_loop chunks))"

definition all_slots_free :: "mem_table \<Rightarrow> mem_table" where
  "all_slots_free m =
     \<lparr>hole_tab = (\<lambda>i. (hole_tab m i)\<lparr>h_next := (if i < NR_HOLES - 1 then Some (i + 1) else None)\<rparr>),
      hole_head = None, free_slots = Some 0\<rparr>"

definition mem_init :: "(phys_clicks \<times> phys_clicks) list \<Rightarrow> mem_table \<Rightarrow> mem_table outcome" where
  "mem_init chunks m = mem_init_loop chunks (all_slots_free m)"

subsection \<open>Invariant and abstraction\<close>

text \<open>
  A hole as \<open>(base, length)\<close> in natural numbers, the clicks a list of holes covers, and the shape
  of a well-formed hole list: every hole is non-empty, starts and ends on an even click below
  65536, and a gap separates it from the next one (adjacent holes have been merged).
\<close>

definition hole_pair :: "mem_table \<Rightarrow> nat \<Rightarrow> nat \<times> nat" where
  "hole_pair m i = (unat (h_base (hole_tab m i)), unat (h_len (hole_tab m i)))"

definition clicks_of :: "(nat \<times> nat) list \<Rightarrow> nat set" where
  "clicks_of hs = (\<Union>h \<in> set hs. {fst h..<fst h + snd h})"

definition hole_ok :: "nat \<times> nat \<Rightarrow> bool" where
  "hole_ok h \<longleftrightarrow> 0 < snd h \<and> fst h + snd h < 65536 \<and> even (fst h) \<and> even (snd h)"

definition gap_before :: "nat \<times> nat \<Rightarrow> nat \<times> nat \<Rightarrow> bool" where
  "gap_before h h' \<longleftrightarrow> fst h + snd h < fst h'"

definition canonical :: "(nat \<times> nat) list \<Rightarrow> bool" where
  "canonical hs \<longleftrightarrow> list_all hole_ok hs \<and> sorted_wrt gap_before hs"

text \<open>The two chains \<open>xs\<close> (holes) and \<open>ys\<close> (unused slots) partition the table.\<close>

definition slots_inv :: "mem_table \<Rightarrow> nat list \<Rightarrow> nat list \<Rightarrow> bool" where
  "slots_inv m xs ys \<longleftrightarrow>
     chain (nexts m) (hole_head m) xs \<and> chain (nexts m) (free_slots m) ys \<and>
     set xs \<inter> set ys = {} \<and> set xs \<union> set ys = {..<NR_HOLES}"

definition holes_inv :: "mem_table \<Rightarrow> (nat \<times> nat) list \<Rightarrow> bool" where
  "holes_inv m hs \<longleftrightarrow> (\<exists>xs ys. slots_inv m xs ys \<and> hs = map (hole_pair m) xs \<and> canonical hs)"

subsection \<open>Rounding, unlinking and merging\<close>

lemma round_even_unat: "unat (round_even c) = (if c = 65535 then 0 else 2 * ((unat c + 1) div 2))"
proof (cases "c = 65535")
  case True
  then show ?thesis by (simp add: round_even_def)
next
  case False
  then have "unat c \<noteq> unat (65535 :: u16)" by (metis word_unat_eq_iff)
  moreover have "unat c < 2 ^ 16" using unsigned_less[of c] by simp
  ultimately have "unat c + unat (1::u16) < 2 ^ LENGTH(16)" by simp
  then have "unat (c + 1) = unat c + 1" using unat_add_below [of c 1] by simp
  then show ?thesis using False unfolding round_even_def unat_clear_low_bit by simp
qed

lemma round_even_even: "even (unat (round_even c))"
  by (simp add: round_even_unat)

lemma slots_length: "slots_inv m xs ys \<Longrightarrow> length xs \<le> NR_HOLES"
  using chain_length_le [of "nexts m" "hole_head m" xs "{..<NR_HOLES}"]
  by (auto simp: slots_inv_def)

lemma slots_distinct: "slots_inv m xs ys \<Longrightarrow> distinct xs \<and> distinct ys"
  by (auto simp: slots_inv_def dest: chain_distinct)

text \<open>Unlinking a slot moves it to the unused slots and changes no base or length.\<close>

lemma del_slot_slots:
  assumes inv: "slots_inv m (us @ hp # vs) ys" and prev: "us \<noteq> [] \<Longrightarrow> prev = Some (last us)"
  shows "\<exists>m'. del_slot prev hp m = Done m' \<and> slots_inv m' (us @ vs) (hp # ys) \<and> hole_pair m' = hole_pair m"
proof -
  have d: "distinct (us @ hp # vs)" using slots_distinct [OF inv] by simp
  have f: "chain (nexts m) (free_slots m) ys" "hp \<notin> set ys" "set us \<inter> set ys = {}"
    using inv by (auto simp: slots_inv_def)
  show ?thesis
  proof (cases us rule: rev_cases)
    case Nil
    with inv d f show ?thesis by (auto simp: del_slot_def slots_inv_def hole_pair_def fun_eq_iff)
  next
    case (snoc us' u)
    then have h: "hole_head m \<noteq> Some hp"
      using inv d by (cases us') (auto simp: slots_inv_def)
    have c: "chain ((nexts m)(u := nexts m hp)) (hole_head m) (us' @ u # vs)"
      using inv snoc by (intro chain_unlink) (simp add: slots_inv_def)
    show ?thesis using inv snoc h c f prev d
      by (auto simp: del_slot_def slots_inv_def hole_pair_def fun_eq_iff)
  qed
qed

lemma set_len_slots:
  "slots_inv (set_hole i ((hole_tab m i)\<lparr>h_len := l\<rparr>) m) xs ys = slots_inv m xs ys"
  "slots_inv (set_hole i ((hole_tab m i)\<lparr>h_base := b, h_len := l\<rparr>) m) xs ys = slots_inv m xs ys"
  by (simp_all add: slots_inv_def)

lemma hole_pair_set [simp]:
  "hole_pair (set_hole i h m) = (hole_pair m)(i := (unat (h_base h), unat (h_len h)))"
  "hole_pair (m\<lparr>free_slots := f\<rparr>) = hole_pair m"
  "hole_pair (m\<lparr>hole_head := f\<rparr>) = hole_pair m"
  by (auto simp: hole_pair_def fun_eq_iff)

lemma adjacent_iff:
  "hole_ok (hole_pair m a) \<Longrightarrow>
   adjacent a b m \<longleftrightarrow> fst (hole_pair m a) + snd (hole_pair m a) = fst (hole_pair m b)"
  by (simp add: adjacent_def hole_ok_def hole_pair_def word_unat_eq_iff unat_add_below)

lemma absorb_slots:
  assumes inv: "slots_inv m (us @ a # b # vs) ys"
    and ok: "hole_ok (hole_pair m a)" "hole_ok (hole_pair m b)" and adj: "adjacent a b m"
  shows "\<exists>m'. absorb a b m = Done m' \<and> slots_inv m' (us @ a # vs) (b # ys) \<and>
           hole_pair m' = (hole_pair m)(a := (fst (hole_pair m a), snd (hole_pair m a) + snd (hole_pair m b)))"
proof -
  let ?h = "(hole_tab m a)\<lparr>h_len := h_len (hole_tab m a) + h_len (hole_tab m b)\<rparr>"
  have "slots_inv (set_hole a ?h m) ((us @ [a]) @ b # vs) ys" using inv by (simp add: set_len_slots)
  from del_slot_slots [OF this, of "Some a"] obtain m' where m':
    "absorb a b m = Done m'" "slots_inv m' (us @ a # vs) (b # ys)" "hole_pair m' = hole_pair (set_hole a ?h m)"
    by (auto simp: absorb_def)
  have "unat (h_len (hole_tab m a) + h_len (hole_tab m b)) = snd (hole_pair m a) + snd (hole_pair m b)"
    using ok adj by (subst unat_add_below) (auto simp: hole_pair_def hole_ok_def adjacent_iff)
  with m' show ?thesis by auto (simp add: hole_pair_def)
qed

text \<open>What one and two merging attempts do to the list of holes.\<close>

fun join2 :: "(nat \<times> nat) list \<Rightarrow> (nat \<times> nat) list" where
  "join2 (h1 # h2 # hs) = (if fst h1 + snd h1 = fst h2 then (fst h1, snd h1 + snd h2) # hs else h1 # h2 # hs)"
| "join2 hs = hs"

fun join3 :: "(nat \<times> nat) list \<Rightarrow> (nat \<times> nat) list" where
  "join3 (h1 # h2 # hs) =
     (if fst h1 + snd h1 = fst h2 then join2 ((fst h1, snd h1 + snd h2) # hs) else h1 # join2 (h2 # hs))"
| "join3 hs = hs"

lemma merge_second_join:
  assumes inv: "slots_inv m (us @ a # vs) ys" and ok: "list_all hole_ok (map (hole_pair m) (a # vs))"
  shows "\<exists>m' zs ys'. merge_second a m = Done m' \<and> slots_inv m' (us @ zs) ys' \<and>
     map (hole_pair m') (us @ zs) = map (hole_pair m) us @ join2 (map (hole_pair m) (a # vs))"
proof (cases vs)
  case Nil
  then have "h_next (hole_tab m a) = None" using inv by (auto simp: slots_inv_def chain_append)
  with Nil inv show ?thesis by (force simp: merge_second_def)
next
  case (Cons b vs')
  then have n: "h_next (hole_tab m a) = Some b" using inv by (auto simp: slots_inv_def chain_append)
  have d: "distinct (us @ a # b # vs')" using slots_distinct [OF inv] Cons by simp
  show ?thesis
  proof (cases "adjacent a b m")
    case True
    from absorb_slots [of m us a b vs' ys] inv ok True Cons obtain m' where
      "absorb a b m = Done m'" "slots_inv m' (us @ a # vs') (b # ys)"
      "hole_pair m' = (hole_pair m)(a := (fst (hole_pair m a), snd (hole_pair m a) + snd (hole_pair m b)))"
      by auto
    then show ?thesis using n True Cons d ok
      by (intro exI [of _ m'] exI [of _ "a # vs'"] exI [of _ "b # ys"]) (auto simp: merge_second_def adjacent_iff)
  next
    case False
    then show ?thesis using n inv Cons ok
      by (intro exI [of _ m] exI [of _ "a # vs"] exI [of _ ys]) (auto simp: merge_second_def adjacent_iff)
  qed
qed

lemma merge_join:
  assumes inv: "slots_inv m (us @ a # vs) ys" and ok: "list_all hole_ok (map (hole_pair m) (a # vs))"
  shows "\<exists>m' zs ys'. merge a m = Done m' \<and> slots_inv m' (us @ zs) ys' \<and>
     map (hole_pair m') (us @ zs) = map (hole_pair m) us @ join3 (map (hole_pair m) (a # vs))"
proof (cases vs)
  case Nil
  then have "h_next (hole_tab m a) = None" using inv by (auto simp: slots_inv_def chain_append)
  with Nil inv show ?thesis by (force simp: merge_def)
next
  case (Cons b vs')
  then have n: "h_next (hole_tab m a) = Some b" using inv by (auto simp: slots_inv_def chain_append)
  have d: "distinct (us @ a # b # vs')" using slots_distinct [OF inv] Cons by simp
  show ?thesis
  proof (cases "adjacent a b m")
    case True
    from absorb_slots [of m us a b vs' ys] inv ok True Cons obtain m1 where m1:
      "absorb a b m = Done m1" "slots_inv m1 (us @ a # vs') (b # ys)"
      "hole_pair m1 = (hole_pair m)(a := (fst (hole_pair m a), snd (hole_pair m a) + snd (hole_pair m b)))"
      by auto
    have "list_all hole_ok (map (hole_pair m1) (a # vs'))"
      using m1(3) ok Cons d True by (auto simp: hole_ok_def adjacent_iff list_all_iff)
    from merge_second_join [OF m1(2) this] obtain m' zs ys' where
      "merge_second a m1 = Done m'" "slots_inv m' (us @ zs) ys'"
      "map (hole_pair m') (us @ zs) = map (hole_pair m1) us @ join2 (map (hole_pair m1) (a # vs'))" by auto
    then show ?thesis using m1(1,3) n True Cons d ok
      by (intro exI [of _ m'] exI [of _ zs] exI [of _ ys']) (auto simp: merge_def adjacent_iff)
  next
    case False
    have "slots_inv m ((us @ [a]) @ b # vs') ys" using inv Cons by simp
    from merge_second_join [OF this] ok Cons obtain m' zs ys' where
      "merge_second b m = Done m'" "slots_inv m' (us @ a # zs) ys'"
      "map (hole_pair m') (us @ a # zs) = map (hole_pair m) (us @ [a]) @ join2 (map (hole_pair m) (b # vs'))" by auto
    then show ?thesis using n False Cons ok
      by (intro exI [of _ m'] exI [of _ "a # zs"] exI [of _ ys']) (auto simp: merge_def adjacent_iff)
  qed
qed

subsection \<open>Allocation: first fit\<close>

fun alloc_list :: "nat \<Rightarrow> (nat \<times> nat) list \<Rightarrow> (nat \<times> (nat \<times> nat) list) option" where
  "alloc_list n [] = None"
| "alloc_list n (h # hs) =
     (if n \<le> snd h then Some (fst h, if snd h = n then hs else (fst h + n, snd h - n) # hs)
      else map_option (\<lambda>(b, hs'). (b, h # hs')) (alloc_list n hs))"

lemma alloc_list_none: "\<forall>h \<in> set hs. \<not> n \<le> snd h \<Longrightarrow> alloc_list n hs = None"
  by (induction hs) auto

lemma alloc_list_some:
  "\<forall>h \<in> set us. \<not> n \<le> snd h \<Longrightarrow> n \<le> snd h \<Longrightarrow>
   alloc_list n (us @ h # vs) = Some (fst h, us @ (if snd h = n then vs else (fst h + n, snd h - n) # vs))"
  by (induction us) auto

lemma alloc_list_None_iff: "alloc_list n hs = None \<longleftrightarrow> (\<forall>h \<in> set hs. snd h < n)"
  by (induction hs) (auto split: option.splits prod.splits)

lemma alloc_list_split:
  "alloc_list n hs = Some (b, hs') \<Longrightarrow>
   \<exists>us l vs. hs = us @ (b, l) # vs \<and> n \<le> l \<and> (\<forall>h \<in> set us. snd h < n) \<and>
     hs' = us @ (if l = n then vs else (b + n, l - n) # vs)"
proof (induction hs arbitrary: b hs')
  case Nil
  then show ?case by simp
next
  case (Cons h hs)
  show ?case
  proof (cases "n \<le> snd h")
    case True
    with Cons.prems show ?thesis by (intro exI [of _ "[]"]) (cases h, auto)
  next
    case False
    with Cons.prems obtain t where "alloc_list n hs = Some (b, t)" "hs' = h # t" by auto
    with Cons.IH False show ?thesis by (metis append_Cons linorder_not_less set_ConsD)
  qed
qed

lemma hole_ok_bite: "hole_ok (b, l) \<Longrightarrow> n < l \<Longrightarrow> even n \<Longrightarrow> hole_ok (b + n, l - n)"
  by (auto simp: hole_ok_def)

lemma alloc_list_canonical:
  assumes "canonical hs" and "alloc_list n hs = Some (b, hs')" and "even n"
  shows "canonical hs'"
proof -
  obtain us l vs where s: "hs = us @ (b, l) # vs" "n \<le> l"
    "hs' = us @ (if l = n then vs else (b + n, l - n) # vs)"
    using alloc_list_split [OF assms(2)] by blast
  have "hole_ok (b + n, l - n)" if "l \<noteq> n"
    using assms(1,3) s(1,2) that by (intro hole_ok_bite) (auto simp: canonical_def)
  moreover have "gap_before h (b + n, l - n)" if "h \<in> set us" for h
    using assms(1) that by (simp add: s(1) canonical_def sorted_wrt_append gap_before_def trans_less_add1)
  moreover have "gap_before (b + n, l - n) h" if "h \<in> set vs" for h
    using assms(1) s(2) that by (simp add: s(1) canonical_def sorted_wrt_append gap_before_def)
  ultimately show ?thesis using assms(1)
    by (simp add: s(1,3) canonical_def sorted_wrt_append list_all_append)
qed

lemma clicks_of_simps [simp]:
  "clicks_of [] = {}" "clicks_of (h # hs) = {fst h..<fst h + snd h} \<union> clicks_of hs"
  "clicks_of (us @ vs) = clicks_of us \<union> clicks_of vs"
  by (auto simp: clicks_of_def)

lemma canonical_gap: "canonical (h # hs) \<Longrightarrow> x \<in> clicks_of hs \<Longrightarrow> fst h + snd h < x"
  by (fastforce simp: canonical_def clicks_of_def gap_before_def)

lemma canonical_appendD: "canonical (us @ vs) \<Longrightarrow> canonical us \<and> canonical vs"
  by (auto simp: canonical_def sorted_wrt_append)

lemma canonical_before:
  "canonical (us @ h # vs) \<Longrightarrow> {fst h..} \<inter> clicks_of us = {}"
  by (fastforce simp: canonical_def clicks_of_def gap_before_def list_all_iff sorted_wrt_append)

lemma alloc_list_clicks:
  assumes "canonical hs" and "alloc_list n hs = Some (b, hs')"
  shows "{b..<b + n} \<subseteq> clicks_of hs" "clicks_of hs' = clicks_of hs - {b..<b + n}"
proof -
  obtain us l vs where s: "hs = us @ (b, l) # vs" "n \<le> l"
    "hs' = us @ (if l = n then vs else (b + n, l - n) # vs)"
    using alloc_list_split [OF assms(2)] by blast
  from s(2) show "{b..<b + n} \<subseteq> clicks_of hs" by (auto simp: s(1))
  have "b + l < x" if "x \<in> clicks_of vs" for x
    using canonical_gap [of "(b, l)" vs x] assms(1) that by (auto simp: s(1) dest: canonical_appendD)
  then have v: "{b..<b + n} \<inter> clicks_of vs = {}" using s(2) by (force simp: disjoint_iff)
  have "{b..} \<inter> clicks_of us = {}"
    using canonical_before [of us "(b, l)" vs] assms(1) by (simp add: s(1))
  then have u: "{b..<b + n} \<inter> clicks_of us = {}" by fastforce
  have "{b..<b + l} - {b..<b + n} = {b + n..<b + l}" by auto
  with u v show "clicks_of hs' = clicks_of hs - {b..<b + n}"
    using s(2) by (auto simp: s(1,3))
qed

lemma holes_invI: "slots_inv m xs ys \<Longrightarrow> hs = map (hole_pair m) xs \<Longrightarrow> canonical hs \<Longrightarrow> holes_inv m hs"
  by (auto simp: holes_inv_def)

lemma bite_slots: "slots_inv (bite hp n m) xs ys = slots_inv m xs ys"
  by (simp add: bite_def set_len_slots)

lemma bite_pair:
  assumes "hole_ok (hole_pair m hp)" and "unat n \<le> snd (hole_pair m hp)"
  shows "hole_pair (bite hp n m) =
     (hole_pair m)(hp := (fst (hole_pair m hp) + unat n, snd (hole_pair m hp) - unat n))"
  using assms unfolding bite_def hole_pair_set
  by (auto simp: hole_pair_def hole_ok_def unat_add_below unat_sub word_le_nat_alt)

lemma bite_empty: "h_len (hole_tab (bite hp n m) hp) = 0 \<longleftrightarrow> snd (hole_pair m hp) = unat n"
  by (simp add: bite_def hole_pair_def word_unat_eq_iff [symmetric])

lemma alloc_found:
  assumes inv: "slots_inv m (us @ hp # vs) ys" and can: "canonical (map (hole_pair m) (us @ hp # vs))"
    and le: "unat (round_even c) \<le> snd (hole_pair m hp)"
    and us: "\<forall>u \<in> set us. \<not> unat (round_even c) \<le> snd (hole_pair m u)"
    and find: "alloc_mem c m = (let m1 = bite hp (round_even c) m in
       if h_len (hole_tab m1 hp) \<noteq> 0 then Done (h_base (hole_tab m hp), m1)
       else and_then (del_slot (last_opt None us) hp m1) (\<lambda>m2. Done (h_base (hole_tab m hp), m2)))"
  shows "\<exists>r m' hs'. alloc_mem c m = Done (r, m') \<and> holes_inv m' hs' \<and>
     alloc_list (unat (round_even c)) (map (hole_pair m) (us @ hp # vs)) = Some (unat r, hs')"
proof -
  let ?n = "round_even c" and ?m1 = "bite hp (round_even c) m" and ?p = "hole_pair m hp"
  let ?hs = "map (hole_pair m) us @
    (if snd ?p = unat ?n then map (hole_pair m) vs else (fst ?p + unat ?n, snd ?p - unat ?n) # map (hole_pair m) vs)"
  have al: "alloc_list (unat ?n) (map (hole_pair m) (us @ hp # vs)) = Some (fst ?p, ?hs)"
    unfolding list.map map_append by (rule alloc_list_some) (use us le in auto)
  have can': "canonical ?hs" using alloc_list_canonical [OF can al] round_even_even by simp
  have d: "distinct (us @ hp # vs)" using slots_distinct [OF inv] by simp
  have pr: "hole_pair ?m1 = (hole_pair m)(hp := (fst ?p + unat ?n, snd ?p - unat ?n))"
    by (rule bite_pair) (use can le in \<open>auto simp: canonical_def\<close>)
  have inv1: "slots_inv ?m1 (us @ hp # vs) ys" using inv by (simp add: bite_slots)
  show ?thesis
  proof (cases "snd ?p = unat ?n")
    case False
    then have "alloc_mem c m = Done (h_base (hole_tab m hp), ?m1)" by (simp add: find bite_empty)
    moreover have "holes_inv ?m1 ?hs"
      by (rule holes_invI [OF inv1]) (use can' d False in \<open>auto simp: pr\<close>)
    ultimately show ?thesis using al by (auto simp: hole_pair_def)
  next
    case True
    obtain m2 where m2: "del_slot (last_opt None us) hp ?m1 = Done m2" "slots_inv m2 (us @ vs) (hp # ys)"
      "hole_pair m2 = hole_pair ?m1"
      using del_slot_slots [OF inv1, of "last_opt None us"] by (auto simp: last_opt_def)
    then have "alloc_mem c m = Done (h_base (hole_tab m hp), m2)" using True by (simp add: find bite_empty)
    moreover have "holes_inv m2 ?hs"
      by (rule holes_invI [OF m2(2)]) (use can' d True m2(3) in \<open>auto simp: pr\<close>)
    ultimately show ?thesis using al by (auto simp: hole_pair_def)
  qed
qed

text \<open>The code's search on the table is first fit on the list of holes.\<close>

lemma alloc_mem_refines:
  assumes "holes_inv m hs"
  shows "(alloc_mem c m = Done (NO_MEM, m) \<and> alloc_list (unat (round_even c)) hs = None) \<or>
     (\<exists>r m' hs'. alloc_mem c m = Done (r, m') \<and> holes_inv m' hs' \<and>
        alloc_list (unat (round_even c)) hs = Some (unat r, hs'))"
proof -
  obtain xs ys where inv: "slots_inv m xs ys" and hs: "hs = map (hole_pair m) xs" and can: "canonical hs"
    using assms by (auto simp: holes_inv_def)
  let ?n = "round_even c"
  let ?P = "\<lambda>i. \<not> bit (h_base (hole_tab m i)) 0 \<and> ?n \<le> h_len (hole_tab m i)"
  have P: "?P i \<longleftrightarrow> unat ?n \<le> snd (hole_pair m i)" if "i \<in> set xs" for i
    using can that by (auto simp: hs canonical_def list_all_iff hole_ok_def hole_pair_def
        bit_zero_iff_odd word_le_nat_alt)
  have "chain (nexts m) (hole_head m) xs" using inv by (simp add: slots_inv_def)
  from this slots_length [OF inv] show ?thesis
  proof (cases rule: chain_find_cases [where P = ?P and prev = None])
    case none
    then have "alloc_list (unat ?n) hs = None" using P by (intro alloc_list_none) (simp add: hs)
    then show ?thesis using none(2) by (simp add: alloc_mem_def)
  next
    case (some us hp vs)
    have "alloc_mem c m = (let m1 = bite hp ?n m in
       if h_len (hole_tab m1 hp) \<noteq> 0 then Done (h_base (hole_tab m hp), m1)
       else and_then (del_slot (last_opt None us) hp m1) (\<lambda>m2. Done (h_base (hole_tab m hp), m2)))"
      using some(4) by (simp add: alloc_mem_def Let_def)
    then show ?thesis using alloc_found [of m us hp vs ys c] inv can some(1-3) P by (auto simp: hs)
  qed
qed

subsection \<open>Release: insertion and merging\<close>

lemma canonical_Cons_iff:
  "canonical (h # hs) \<longleftrightarrow> hole_ok h \<and> canonical hs \<and> (\<forall>k \<in> set hs. gap_before h k)"
  by (auto simp: canonical_def)

lemma join2_props:
  assumes "hole_ok h" and "canonical hs" and "\<forall>k \<in> set hs. fst h + snd h \<le> fst k"
  shows "canonical (join2 (h # hs))" "clicks_of (join2 (h # hs)) = clicks_of (h # hs)"
    "\<forall>k \<in> set (join2 (h # hs)). fst h \<le> fst k"
proof -
  have "canonical (join2 (h # hs)) \<and> clicks_of (join2 (h # hs)) = clicks_of (h # hs) \<and>
    (\<forall>k \<in> set (join2 (h # hs)). fst h \<le> fst k)"
  proof (cases hs)
    case Nil
    then show ?thesis using assms(1) by (simp add: canonical_def)
  next
    case (Cons k ks)
    then have k: "hole_ok k" "canonical ks" "\<forall>y \<in> set ks. gap_before k y" "fst h + snd h \<le> fst k"
      using assms(2,3) by (auto simp: canonical_Cons_iff)
    show ?thesis
    proof (cases "fst h + snd h = fst k")
      case True
      have "hole_ok (fst h, snd h + snd k)" using assms(1) k(1) True by (auto simp: hole_ok_def)
      moreover have "\<forall>y \<in> set ks. gap_before (fst h, snd h + snd k) y"
        using k(3) True by (simp add: gap_before_def add.assoc [symmetric])
      moreover have "{fst h..<fst h + (snd h + snd k)} = {fst h..<fst h + snd h} \<union> {fst k..<fst k + snd k}"
        using True by auto
      ultimately show ?thesis using k True Cons
        by (auto simp: canonical_Cons_iff gap_before_def) 
    next
      case False
      then have "gap_before h k" using k(4) by (simp add: gap_before_def)
      moreover have "\<forall>y \<in> set ks. gap_before h y" using k False by (fastforce simp: gap_before_def)
      ultimately show ?thesis using k assms Cons False by (simp add: canonical_Cons_iff gap_before_def) (meson le_add1 le_trans less_imp_le)
    qed
  qed
  then show "canonical (join2 (h # hs))" "clicks_of (join2 (h # hs)) = clicks_of (h # hs)"
    "\<forall>k \<in> set (join2 (h # hs)). fst h \<le> fst k" by auto
qed

lemma join3_props:
  assumes "hole_ok h" and "hole_ok k" and "canonical hs" and le: "fst h + snd h \<le> fst k"
    and "\<forall>y \<in> set hs. fst k + snd k \<le> fst y"
  shows "canonical (join3 (h # k # hs)) \<and> clicks_of (join3 (h # k # hs)) = clicks_of (h # k # hs) \<and>
    (\<forall>y \<in> set (join3 (h # k # hs)). fst h \<le> fst y)"
proof (cases "fst h + snd h = fst k")
  case True
  let ?h = "(fst h, snd h + snd k)"
  have "hole_ok ?h" using assms(1,2) True by (auto simp: hole_ok_def)
  moreover have "\<forall>y \<in> set hs. fst ?h + snd ?h \<le> fst y" using assms(5) True by (simp add: add.assoc [symmetric])
  moreover have "{fst h..<fst h + (snd h + snd k)} = {fst h..<fst h + snd h} \<union> {fst k..<fst k + snd k}"
    using True by auto
  ultimately show ?thesis using join2_props [of ?h hs] assms(3) True by (simp add: Un_assoc)
next
  case False
  note j = join2_props [OF assms(2,3,5)]
  have "\<forall>y \<in> set (join2 (k # hs)). fst h + snd h < fst y" using j(3) le False by fastforce
  then show ?thesis using j(1,2) assms(1) False
    by (simp add: canonical_Cons_iff gap_before_def) (meson le_add1 le_trans less_imp_le)
qed

definition free_list :: "nat \<times> nat \<Rightarrow> (nat \<times> nat) list \<Rightarrow> (nat \<times> nat) list \<Rightarrow> (nat \<times> nat) list" where
  "free_list h lo hi = (if lo = [] then join3 (h # hi) else butlast lo @ join3 (last lo # h # hi))"

lemma free_list_props:
  assumes can: "canonical (lo @ hi)" and h: "hole_ok h"
    and lo: "\<forall>k \<in> set lo. fst k + snd k \<le> fst h" and hi: "\<forall>k \<in> set hi. fst h + snd h \<le> fst k"
  shows "canonical (free_list h lo hi)"
    "clicks_of (free_list h lo hi) = clicks_of (lo @ hi) \<union> {fst h..<fst h + snd h}"
proof -
  have "canonical (free_list h lo hi) \<and>
    clicks_of (free_list h lo hi) = clicks_of (lo @ hi) \<union> {fst h..<fst h + snd h}"
  proof (cases lo rule: rev_cases)
    case Nil
    show ?thesis
    proof (cases hi)
      case Nil
      then show ?thesis using \<open>lo = []\<close> h by (simp add: free_list_def canonical_def)
    next
      case (Cons k ks)
      have "\<forall>y \<in> set ks. fst k + snd k \<le> fst y" "hole_ok k" "canonical ks"
        using can \<open>lo = []\<close> Cons by (auto simp: canonical_Cons_iff gap_before_def)
      then show ?thesis using join3_props [of h k ks] h hi \<open>lo = []\<close> Cons by (auto simp: free_list_def)
    qed
  next
    case (snoc us p)
    have p: "hole_ok p" "canonical us" "canonical hi" "\<forall>u \<in> set us. gap_before u p"
      using can snoc by (auto simp: canonical_def sorted_wrt_append)
    have j: "canonical (join3 (p # h # hi))" "clicks_of (join3 (p # h # hi)) = clicks_of (p # h # hi)"
      "\<forall>y \<in> set (join3 (p # h # hi)). fst p \<le> fst y"
      using join3_props [OF p(1) h p(3)] lo hi snoc by auto
    have "\<forall>u \<in> set us. \<forall>y \<in> set (join3 (p # h # hi)). gap_before u y"
      using p(4) j(3) by (fastforce simp: gap_before_def)
    then have "canonical (us @ join3 (p # h # hi))"
      using p(2) j(1) by (auto simp: canonical_def sorted_wrt_append)
    then show ?thesis using j(2) snoc by (auto simp: free_list_def)
  qed
  then show "canonical (free_list h lo hi)"
    "clicks_of (free_list h lo hi) = clicks_of (lo @ hi) \<union> {fst h..<fst h + snd h}" by auto
qed

lemma push_hole_slots:
  assumes "slots_inv m xs (new # ys)" and "h_next h = hole_head m"
  shows "slots_inv ((set_hole new h m)\<lparr>free_slots := nexts m new, hole_head := Some new\<rparr>) (new # xs) ys"
  using assms slots_distinct [OF assms(1)] by (auto simp: slots_inv_def)

lemma insert_hole_slots:
  assumes inv: "slots_inv m (us @ prev # vs) (new # ys)" and "h_next h = nexts m prev"
    and "h_next h' = Some new"
  shows "slots_inv (set_hole prev h' ((set_hole new h m)\<lparr>free_slots := nexts m new\<rparr>)) (us @ prev # new # vs) ys"
proof -
  have "chain ((nexts m)(new := nexts m prev, prev := Some new)) (hole_head m) (us @ prev # new # vs)"
    by (rule chain_insert_after) (use inv in \<open>auto simp: slots_inv_def\<close>)
  then show ?thesis using assms slots_distinct [OF inv] by (auto simp: slots_inv_def)
qed


lemma disjoint_below:
  fixes b n :: nat
  assumes "{b'..<b' + l} \<inter> {b..<b + n} = {}" and "0 < n" and "b' < b"
  shows "b' + l \<le> b"
proof (rule ccontr)
  assume "\<not> b' + l \<le> b"
  then have "b \<in> {b'..<b' + l} \<inter> {b..<b + n}" using assms(2,3) by auto
  with assms(1) show False by blast
qed

lemma disjoint_above:
  fixes b n :: nat
  assumes "{b'..<b' + l} \<inter> {b..<b + n} = {}" and "0 < l" and "b \<le> b'"
  shows "b + n \<le> b'"
proof (rule ccontr)
  assume "\<not> b + n \<le> b'"
  then have "b' \<in> {b'..<b' + l} \<inter> {b..<b + n}" using assms(2,3) by auto
  with assms(1) show False by blast
qed

lemma clicks_of_disjointD: "clicks_of hs \<inter> A = {} \<Longrightarrow> h \<in> set hs \<Longrightarrow> {fst h..<fst h + snd h} \<inter> A = {}"
  by (auto simp: clicks_of_def)

lemma free_list_canonical:
  assumes "canonical (lo @ hi)" and "hole_ok h" and "clicks_of (lo @ hi) \<inter> {fst h..<fst h + snd h} = {}"
    and "\<forall>k \<in> set lo. fst k < fst h" and "\<forall>k \<in> set hi. fst h \<le> fst k"
  shows "canonical (free_list h lo hi)"
    "clicks_of (free_list h lo hi) = clicks_of (lo @ hi) \<union> {fst h..<fst h + snd h}"
proof -
  have ok: "\<forall>k \<in> set (lo @ hi). 0 < snd k" "0 < snd h"
    using assms(1,2) by (auto simp: canonical_def list_all_iff hole_ok_def)
  have "fst k + snd k \<le> fst h" if "k \<in> set lo" for k
    using disjoint_below [OF clicks_of_disjointD [OF assms(3), of k]] that assms(4) ok by simp
  moreover have "fst h + snd h \<le> fst k" if "k \<in> set hi" for k
    using disjoint_above [OF clicks_of_disjointD [OF assms(3), of k]] that assms(5) ok by simp
  ultimately show "canonical (free_list h lo hi)"
    "clicks_of (free_list h lo hi) = clicks_of (lo @ hi) \<union> {fst h..<fst h + snd h}"
    using free_list_props [OF assms(1,2)] by auto
qed

lemma sorted_bases:
  "canonical (us @ h # vs) \<Longrightarrow> k \<in> set vs \<Longrightarrow> fst h \<le> fst k"
  by (fastforce simp: canonical_def sorted_wrt_append gap_before_def)

text \<open>
  The two places where \<open>free_mem\<close> links the new hole: at the front, and behind the last hole with
  a smaller base. Either way the hole list splits into \<open>lo\<close> (smaller bases) and \<open>hi\<close>.
\<close>

lemma free_mem_front:
  assumes inv: "slots_inv m xs (new # ys)" and ok: "list_all hole_ok (map (hole_pair m) xs)"
    and b: "hole_ok (unat base, unat (round_even c))"
    and front: "case hole_head m of None \<Rightarrow> True | Some h \<Rightarrow> base \<le> h_base (hole_tab m h)"
  shows "\<exists>m' xs' ys'. free_mem base c m = Done m' \<and> slots_inv m' xs' ys' \<and>
     map (hole_pair m') xs' = free_list (unat base, unat (round_even c)) [] (map (hole_pair m) xs)"
proof -
  let ?h = "(hole_tab m new)\<lparr>h_base := base, h_len := round_even c, h_next := hole_head m\<rparr>"
  let ?m2 = "(set_hole new ?h m)\<lparr>free_slots := nexts m new, hole_head := Some new\<rparr>"
  have new: "new \<notin> set xs" "free_slots m = Some new" "hole_head m \<noteq> Some new"
    using inv by (cases xs; auto simp: slots_inv_def)+
  have fm: "free_mem base c m = merge new ?m2"
    using new front by (auto simp: free_mem_def split: option.splits)
  have inv2: "slots_inv ?m2 ([] @ new # xs) ys" using push_hole_slots [OF inv] by simp
  have mp: "map (hole_pair ?m2) (new # xs) = (unat base, unat (round_even c)) # map (hole_pair m) xs"
    using new by simp
  have "list_all hole_ok (map (hole_pair ?m2) (new # xs))" unfolding mp using ok b by simp
  from merge_join [OF inv2 this] show ?thesis unfolding fm mp by (force simp: free_list_def)
qed

lemma free_mem_middle:
  assumes inv: "slots_inv m (lo @ hi) (new # ys)" and ok: "list_all hole_ok (map (hole_pair m) (lo @ hi))"
    and b: "hole_ok (unat base, unat (round_even c))" and "lo \<noteq> []"
    and lo: "\<forall>i \<in> set lo. h_base (hole_tab m i) < base" and hi: "\<forall>i \<in> set hi. base \<le> h_base (hole_tab m i)"
  shows "\<exists>m' xs' ys'. free_mem base c m = Done m' \<and> slots_inv m' xs' ys' \<and>
     map (hole_pair m') xs' =
       free_list (unat base, unat (round_even c)) (map (hole_pair m) lo) (map (hole_pair m) hi)"
proof -
  obtain us prev where us: "lo = us @ [prev]" using \<open>lo \<noteq> []\<close> by (meson rev_exhaust)
  let ?h = "(hole_tab m new)\<lparr>h_base := base, h_len := round_even c\<rparr>"
  let ?m1 = "(set_hole new ?h m)\<lparr>free_slots := nexts m new\<rparr>"
  let ?m3 = "set_hole prev ((hole_tab m prev)\<lparr>h_next := Some new\<rparr>)
    ((set_hole new (?h\<lparr>h_next := nexts m prev\<rparr>) m)\<lparr>free_slots := nexts m new\<rparr>)"
  let ?P = "\<lambda>i. \<not> h_base (hole_tab ?m1 i) < base"
  have new: "new \<notin> set (lo @ hi)" "free_slots m = Some new" "new \<noteq> prev"
    using inv us by (auto simp: slots_inv_def)
  have ch: "chain (nexts ?m1) (hole_head m) (lo @ hi)" using inv by (simp add: slots_inv_def)
  have P: "\<forall>i \<in> set lo. \<not> ?P i" "\<forall>i \<in> set hi. ?P i" using lo hi new by (auto simp: not_less)
  have "\<exists>r. chain_find (nexts ?m1) ?P NR_HOLES None (hole_head m) = Some (last_opt None lo, r)"
  proof (cases hi)
    case Nil
    then have "chain (nexts ?m1) (hole_head m) lo" "length lo \<le> NR_HOLES"
      using ch slots_length [OF inv] by simp_all
    from chain_find_none [OF this(1) P(1) this(2)] show ?thesis by (rule exI)
  next
    case (Cons k ks)
    then have "chain (nexts ?m1) (hole_head m) (lo @ k # ks)" "length lo \<le> NR_HOLES" "?P k"
      using ch slots_length [OF inv] P(2) by simp_all
    from chain_find_some [OF this(1) P(1) this(3,2)] show ?thesis by (rule exI)
  qed
  moreover have "\<exists>h. hole_head m = Some h \<and> \<not> base \<le> h_base (hole_tab m h) \<and> h \<noteq> new"
    using inv lo new us by (cases us) (auto simp: slots_inv_def not_le)
  ultimately have fm: "free_mem base c m = merge prev ?m3"
    using new us by (auto simp: free_mem_def split: option.splits)
  have inv3: "slots_inv ?m3 (us @ prev # new # hi) ys"
    using insert_hole_slots [of m us prev hi new ys] inv us by simp
  have pr: "hole_pair ?m3 = (hole_pair m)(new := (unat base, unat (round_even c)))"
    using new by (auto simp: fun_eq_iff hole_pair_def)
  have mp: "map (hole_pair ?m3) (prev # new # hi) =
      hole_pair m prev # (unat base, unat (round_even c)) # map (hole_pair m) hi"
    and mu: "map (hole_pair ?m3) us = map (hole_pair m) us"
    using new us unfolding pr by auto
  have "list_all hole_ok (map (hole_pair ?m3) (prev # new # hi))" unfolding mp using ok b us by simp
  from merge_join [OF inv3 this] show ?thesis unfolding fm mp mu using us by (force simp: free_list_def)
qed

lemma join2_length: "length (join2 hs) \<le> length hs"
  by (cases hs rule: join2.cases) auto

lemma join3_length: "length (join3 hs) \<le> length hs"
proof (cases hs rule: join3.cases)
  case (1 h1 h2 hs')
  then show ?thesis using join2_length [of "(fst h1, snd h1 + snd h2) # hs'"] join2_length [of "h2 # hs'"] by auto
qed auto

lemma free_list_length: "length (free_list h lo hi) \<le> Suc (length (lo @ hi))"
  using join3_length [of "h # hi"] join3_length [of "last lo # h # hi"]
  by (cases lo rule: rev_cases) (auto simp: free_list_def)

lemma free_mem_refines:
  assumes inv: "holes_inv m hs" and free: "free_slots m \<noteq> None"
    and ok: "hole_ok (unat base, unat (round_even c))"
    and dis: "clicks_of hs \<inter> {unat base..<unat base + unat (round_even c)} = {}"
  shows "\<exists>m' hs'. free_mem base c m = Done m' \<and> holes_inv m' hs' \<and>
     clicks_of hs' = clicks_of hs \<union> {unat base..<unat base + unat (round_even c)} \<and>
     length hs' \<le> Suc (length hs)"
proof -
  let ?h = "(unat base, unat (round_even c))" and ?Q = "\<lambda>i. fst (hole_pair m i) < unat base"
  obtain xs ys0 where s: "slots_inv m xs ys0" and hs: "hs = map (hole_pair m) xs" and can: "canonical hs"
    using inv by (auto simp: holes_inv_def)
  with free obtain new ys where ys: "ys0 = new # ys" by (cases ys0) (auto simp: slots_inv_def)
  let ?lo = "takeWhile ?Q xs" and ?hi = "dropWhile ?Q xs"
  have lo: "\<forall>i \<in> set ?lo. ?Q i" by (auto dest: set_takeWhileD)
  have hi: "\<forall>i \<in> set ?hi. unat base \<le> fst (hole_pair m i)"
  proof (cases ?hi)
    case (Cons x vs)
    then have "\<not> ?Q x" by (simp add: dropWhile_eq_Cons_conv)
    moreover have "canonical (map (hole_pair m) (?lo @ ?hi))" using can by (simp add: hs)
    ultimately show ?thesis using Cons sorted_bases [of "map (hole_pair m) ?lo" "hole_pair m x" "map (hole_pair m) vs"]
      by (fastforce simp: not_less)
  next
    case Nil
    show ?thesis unfolding Nil by simp
  qed
  have "\<exists>m' xs' ys'. free_mem base c m = Done m' \<and> slots_inv m' xs' ys' \<and>
     map (hole_pair m') xs' = free_list ?h (map (hole_pair m) ?lo) (map (hole_pair m) ?hi)"
  proof (cases "?lo = []")
    case True
    then have eq: "?hi = xs" by (metis takeWhile_dropWhile_id self_append_conv2)
    have "case hole_head m of None \<Rightarrow> True | Some h \<Rightarrow> base \<le> h_base (hole_tab m h)"
      using s hi unfolding eq by (cases xs) (auto simp: slots_inv_def hole_pair_def word_le_nat_alt)
    then show ?thesis unfolding eq True list.map
      by (intro free_mem_front [of m xs new ys]) (use s can ok in \<open>auto simp: ys hs canonical_def\<close>)
  next
    case False
    show ?thesis by (rule free_mem_middle [of m ?lo ?hi new ys])
      (use s can lo hi ok False in \<open>auto simp: ys hs canonical_def hole_pair_def word_le_nat_alt word_less_nat_alt\<close>)
  qed
  then obtain m' xs' ys' where m': "free_mem base c m = Done m'" "slots_inv m' xs' ys'"
     "map (hole_pair m') xs' = free_list ?h (map (hole_pair m) ?lo) (map (hole_pair m) ?hi)" by blast
  have eq: "map (hole_pair m) ?lo @ map (hole_pair m) ?hi = hs" by (simp add: hs flip: map_append)
  then have "canonical (map (hole_pair m') xs')"
    "clicks_of (map (hole_pair m') xs') = clicks_of hs \<union> {unat base..<unat base + unat (round_even c)}"
    using free_list_canonical [of "map (hole_pair m) ?lo" "map (hole_pair m) ?hi" ?h] can ok dis lo hi
    by (auto simp: m'(3))
  moreover have "length (map (hole_pair m') xs') \<le> Suc (length hs)"
    unfolding m'(3) eq [symmetric] by (rule free_list_length)
  ultimately show ?thesis using m' holes_invI by blast
qed

lemma canonical_unique:
  "canonical hs \<Longrightarrow> canonical hs' \<Longrightarrow> clicks_of hs = clicks_of hs' \<Longrightarrow> hs = hs'"
proof (induction hs arbitrary: hs')
  case Nil
  then show ?case by (cases hs') (auto simp: canonical_Cons_iff hole_ok_def)
next
  case (Cons h hs)
  have pos: "0 < snd h" using Cons.prems(1) by (simp add: canonical_Cons_iff hole_ok_def)
  then obtain h' t where hs': "hs' = h' # t"
    using Cons.prems(3) by (cases hs') auto
  have pos': "0 < snd h'" using Cons.prems(2) by (simp add: hs' canonical_Cons_iff hole_ok_def)
  have d: "fst h + snd h < x" if "x \<in> clicks_of hs" for x
    using canonical_gap [OF Cons.prems(1)] that .
  have d': "fst h' + snd h' < x" if "x \<in> clicks_of t" for x
    using canonical_gap [of h' t] Cons.prems(2) that by (simp add: hs')
  have eq: "{fst h..<fst h + snd h} \<union> clicks_of hs = {fst h'..<fst h' + snd h'} \<union> clicks_of t"
    using Cons.prems(3) by (simp add: hs')
  have "fst h \<in> {fst h'..<fst h' + snd h'} \<union> clicks_of t" "fst h' \<in> {fst h..<fst h + snd h} \<union> clicks_of hs"
    using eq pos pos' by auto
  then have f: "fst h = fst h'" using d [of "fst h'"] d' [of "fst h"] by auto
  have s: "snd h = snd h'"
  proof (rule linorder_cases [of "snd h" "snd h'"])
    assume "snd h < snd h'"
    then have "fst h + snd h \<in> {fst h..<fst h + snd h} \<union> clicks_of hs" unfolding eq using f by auto
    then show ?thesis using d [of "fst h + snd h"] by auto
  next
    assume "snd h' < snd h"
    then have "fst h + snd h' \<in> {fst h'..<fst h' + snd h'} \<union> clicks_of t" unfolding eq [symmetric] by auto
    then show ?thesis using d' [of "fst h + snd h'"] f by auto
  qed auto
  have "clicks_of hs = ({fst h..<fst h + snd h} \<union> clicks_of hs) - {..fst h + snd h}" using d by force
  also have "\<dots> = ({fst h'..<fst h' + snd h'} \<union> clicks_of t) - {..fst h + snd h}" by (simp only: eq)
  also have "\<dots> = clicks_of t" using d' f s by force
  finally have "clicks_of hs = clicks_of t" .
  then have "hs = t" using Cons.IH Cons.prems(1,2) by (simp add: hs' canonical_Cons_iff)
  then show ?case using f s by (simp add: hs' prod_eq_iff)
qed

subsection \<open>Executable views of the table\<close>

definition hole_slots :: "mem_table \<Rightarrow> nat list" where
  "hole_slots m = chain_list (nexts m) NR_HOLES (hole_head m)"

definition hole_list :: "mem_table \<Rightarrow> (nat \<times> nat) list" where
  "hole_list m = map (hole_pair m) (hole_slots m)"

definition mem_ok :: "mem_table \<Rightarrow> bool" where
  "mem_ok m \<longleftrightarrow>
     slots_inv m (hole_slots m) (chain_list (nexts m) NR_HOLES (free_slots m)) \<and> canonical (hole_list m)"

definition free_clicks :: "mem_table \<Rightarrow> nat set" where
  "free_clicks m = clicks_of (hole_list m)"

definition block :: "phys_clicks \<Rightarrow> phys_clicks \<Rightarrow> nat set" where
  "block base c = {unat base..<unat base + unat (round_even c)}"

lemma slots_inv_swap: "slots_inv m xs ys \<Longrightarrow> length ys \<le> NR_HOLES"
  using chain_length_le [of "nexts m" "free_slots m" ys "{..<NR_HOLES}"]
  by (auto simp: slots_inv_def)

lemma holes_inv_iff: "holes_inv m hs \<longleftrightarrow> mem_ok m \<and> hs = hole_list m"
proof
  assume "holes_inv m hs"
  then obtain xs ys where s: "slots_inv m xs ys" "hs = map (hole_pair m) xs" "canonical hs"
    by (auto simp: holes_inv_def)
  then have "hole_slots m = xs" "chain_list (nexts m) NR_HOLES (free_slots m) = ys"
    using chain_list_eq slots_length [OF s(1)] slots_inv_swap [OF s(1)] by (auto simp: slots_inv_def hole_slots_def)
  with s show "mem_ok m \<and> hs = hole_list m" by (simp add: mem_ok_def hole_list_def)
next
  assume "mem_ok m \<and> hs = hole_list m"
  then show "holes_inv m hs" unfolding mem_ok_def hole_list_def by (auto intro: holes_invI)
qed

lemma alloc_mem_cases:
  assumes "mem_ok m"
  obtains (none) "alloc_mem c m = Done (NO_MEM, m)" "\<forall>h \<in> set (hole_list m). snd h < unat (round_even c)"
    | (fit) r m' us l vs where "alloc_mem c m = Done (r, m')" "mem_ok m'"
        "hole_list m = us @ (unat r, l) # vs" "\<forall>h \<in> set us. snd h < unat (round_even c)" "unat (round_even c) \<le> l"
        "block r c \<subseteq> free_clicks m" "free_clicks m' = free_clicks m - block r c"
proof -
  have inv: "holes_inv m (hole_list m)" using assms by (simp add: holes_inv_iff)
  then have can: "canonical (hole_list m)" by (auto simp: holes_inv_def)
  from alloc_mem_refines [OF inv, of c] show ?thesis
  proof (elim disjE exE conjE)
    assume "alloc_mem c m = Done (NO_MEM, m)" "alloc_list (unat (round_even c)) (hole_list m) = None"
    then show ?thesis using none by (simp add: alloc_list_None_iff)
  next
    fix r m' hs'
    assume a: "alloc_mem c m = Done (r, m')" "holes_inv m' hs'"
      "alloc_list (unat (round_even c)) (hole_list m) = Some (unat r, hs')"
    show ?thesis using fit a alloc_list_clicks [OF can a(3)] alloc_list_split [OF a(3)]
      by (auto simp: free_clicks_def block_def holes_inv_iff)
  qed
qed

lemma free_mem_cases:
  assumes "mem_ok m" and "hole_ok (unat base, unat (round_even c))" and "free_clicks m \<inter> block base c = {}"
  obtains (full) "free_slots m = None" "free_mem base c m = Panic ''Hole table full''"
    | (ok) m' where "free_mem base c m = Done m'" "mem_ok m'" "free_clicks m' = free_clicks m \<union> block base c"
        "length (hole_list m') \<le> Suc (length (hole_list m))"
proof (cases "free_slots m = None")
  case True
  then show ?thesis using full by (simp add: free_mem_def)
next
  case False
  with free_mem_refines [of m "hole_list m" base c] assms show ?thesis
    using ok by (auto simp: free_clicks_def block_def holes_inv_iff)
qed

lemma mem_ok_unique:
  assumes "mem_ok m" and "mem_ok m'" and "free_clicks m = free_clicks m'"
  shows "hole_list m = hole_list m'"
  using assms canonical_unique by (auto simp: mem_ok_def free_clicks_def)
subsection \<open>The allocator as an interface\<close>

text \<open>
  What a client of the allocator relies on: the set \<open>avail\<close> of clicks it may still get, and that
  a successful request takes a whole block out of it and a release puts one back. A ledger lists
  the blocks handed out and not yet returned.
\<close>

definition ledger :: "nat set \<Rightarrow> nat set \<Rightarrow> nat set list \<Rightarrow> bool" where
  "ledger tot F bs \<longleftrightarrow>
     F \<union> \<Union> (set bs) = tot \<and> F \<inter> \<Union> (set bs) = {} \<and> sorted_wrt (\<lambda>a b. a \<inter> b = {}) bs"

locale click_allocator =
  fixes ok :: "'s \<Rightarrow> bool" and avail :: "'s \<Rightarrow> nat set" and nomem :: 'b
    and alloc :: "'r \<Rightarrow> 's \<Rightarrow> ('b \<times> 's) outcome" and release :: "'b \<Rightarrow> 'r \<Rightarrow> 's \<Rightarrow> 's outcome"
    and request :: "'r \<Rightarrow> bool" and valid :: "'b \<Rightarrow> 'r \<Rightarrow> bool" and blk :: "'b \<Rightarrow> 'r \<Rightarrow> nat set"
  assumes alloc_takes: "ok s \<Longrightarrow> request c \<Longrightarrow> alloc c s = Done (r, s') \<Longrightarrow> r \<noteq> nomem \<Longrightarrow>
      ok s' \<and> valid r c \<and> blk r c \<subseteq> avail s \<and> avail s' = avail s - blk r c"
    and alloc_refuses: "ok s \<Longrightarrow> alloc c s = Done (nomem, s') \<Longrightarrow> request c \<Longrightarrow> s' = s"
    and release_gives: "ok s \<Longrightarrow> valid r c \<Longrightarrow> request c \<Longrightarrow> avail s \<inter> blk r c = {} \<Longrightarrow> release r c s = Done s' \<Longrightarrow>
      avail s' = avail s \<union> blk r c \<and> (r \<noteq> nomem \<longrightarrow> ok s')"
begin

lemma ledger_alloc:
  assumes "ok s" "request c" "alloc c s = Done (r, s')" "r \<noteq> nomem" "ledger tot (avail s) bs"
  shows "ok s' \<and> valid r c \<and> ledger tot (avail s') (blk r c # bs)"
  using alloc_takes [OF assms(1-4)] assms(5) by (auto simp: ledger_def)

lemma ledger_release:
  assumes "ok s" "valid r c" "request c" "r \<noteq> nomem" "release r c s = Done s'"
    "ledger tot (avail s) (us @ blk r c # vs)"
  shows "ok s' \<and> ledger tot (avail s') (us @ vs)"
proof -
  have "avail s \<inter> blk r c = {}" using assms(6) by (auto simp: ledger_def)
  from release_gives [OF assms(1-3) this assms(5)] assms(4,6) show ?thesis
    by (auto simp: ledger_def sorted_wrt_append)
qed

end

text \<open>The hole table, once MINIX itself has been taken off the bottom of memory (click 0 is not free).\<close>

definition booted :: "mem_table \<Rightarrow> bool" where
  "booted m \<longleftrightarrow> mem_ok m \<and> 0 \<notin> free_clicks m"

definition sane_request :: "phys_clicks \<Rightarrow> bool" where
  "sane_request c \<longleftrightarrow> c \<noteq> 0 \<and> c \<noteq> 65535"

definition valid_block :: "phys_clicks \<Rightarrow> phys_clicks \<Rightarrow> bool" where
  "valid_block base c \<longleftrightarrow> hole_ok (unat base, unat (round_even c))"

lemma round_even_pos: "sane_request c \<Longrightarrow> 0 < unat (round_even c)"
  by (auto simp: sane_request_def round_even_unat word_unat_eq_iff)

lemma hole_list_ok: "mem_ok m \<Longrightarrow> h \<in> set (hole_list m) \<Longrightarrow> hole_ok h"
  by (auto simp: mem_ok_def canonical_def list_all_iff)

lemma fit_valid:
  assumes "hole_ok (unat r, l)" and "unat (round_even c) \<le> l" and "sane_request c"
  shows "valid_block r c"
  using assms round_even_pos [OF assms(3)] round_even_even [of c] by (auto simp: valid_block_def hole_ok_def)

lemma alloc_nomem:
  assumes "booted m" and "sane_request c" and "alloc_mem c m = Done (NO_MEM, m')"
  shows "m' = m"
proof -
  have ok: "mem_ok m" using assms(1) by (simp add: booted_def)
  then show ?thesis
  proof (cases rule: alloc_mem_cases [where c = c])
    case none
    then show ?thesis using assms(3) by simp
  next
    case (fit r m'' us l vs)
    then have "0 \<in> free_clicks m" using assms(3) round_even_pos [OF assms(2)] by (auto simp: block_def)
    then show ?thesis using assms(1) by (simp add: booted_def)
  qed
qed

interpretation hole_alloc: click_allocator booted free_clicks NO_MEM alloc_mem free_mem sane_request valid_block block
proof
  fix m c r m'
  assume a: "booted m" "sane_request c" "alloc_mem c m = Done (r, m')" "r \<noteq> NO_MEM"
  then have "mem_ok m" by (simp add: booted_def)
  then show "booted m' \<and> valid_block r c \<and> block r c \<subseteq> free_clicks m \<and> free_clicks m' = free_clicks m - block r c"
  proof (cases rule: alloc_mem_cases [where c = c])
    case none
    then show ?thesis using a by simp
  next
    case (fit r' m'' us l vs)
    moreover have "hole_ok (unat r', l)" using fit \<open>mem_ok m\<close> by (auto intro: hole_list_ok)
    ultimately show ?thesis using a fit_valid [of r' l c] by (auto simp: booted_def)
  qed
next
  fix m c m'
  assume "booted m" "alloc_mem c m = Done (NO_MEM, m')" "sane_request c"
  then show "m' = m" using alloc_nomem by blast
next
  fix m r c m'
  assume a: "booted m" "valid_block r c" "sane_request c" "free_clicks m \<inter> block r c = {}" "free_mem r c m = Done m'"
  then have "mem_ok m" "hole_ok (unat r, unat (round_even c))" by (auto simp: booted_def valid_block_def)
  from this a(4) show "free_clicks m' = free_clicks m \<union> block r c \<and> (r \<noteq> NO_MEM \<longrightarrow> booted m')"
    by (cases rule: free_mem_cases) (use a in \<open>auto simp: booted_def block_def unat_eq_0\<close>)
qed

text \<open>A request for 0 or 65535 clicks, both of which are rounded to 0, takes no memory.\<close>

lemma alloc_empty:
  assumes "booted m" and "\<not> sane_request c" and "alloc_mem c m = Done (r, m')"
  shows "booted m' \<and> free_clicks m' = free_clicks m"
proof -
  have b: "block r' c = {}" for r' using assms(2) by (auto simp: block_def round_even_unat sane_request_def)
  have "mem_ok m" using assms(1) by (simp add: booted_def)
  then show ?thesis by (cases rule: alloc_mem_cases [where c = c]) (use assms b in \<open>auto simp: booted_def\<close>)
qed

text \<open>
  Any sequence of allocations and releases, with the blocks that are outstanding. The block of a request that is
  rounded to 0 has no clicks and is not one of them.
\<close>

inductive mem_run :: "mem_table \<Rightarrow> mem_table \<Rightarrow> (phys_clicks \<times> phys_clicks) list \<Rightarrow> bool" for m0 where
  start: "mem_run m0 m0 []"
| alloc: "mem_run m0 m bs \<Longrightarrow> sane_request c \<Longrightarrow> alloc_mem c m = Done (r, m') \<Longrightarrow> r \<noteq> NO_MEM \<Longrightarrow>
     mem_run m0 m' ((r, c) # bs)"
| refuse: "mem_run m0 m bs \<Longrightarrow> sane_request c \<Longrightarrow> alloc_mem c m = Done (NO_MEM, m') \<Longrightarrow> mem_run m0 m' bs"
| empty: "mem_run m0 m bs \<Longrightarrow> \<not> sane_request c \<Longrightarrow> alloc_mem c m = Done (r, m') \<Longrightarrow> mem_run m0 m' bs"
| free: "mem_run m0 m (us @ (r, c) # vs) \<Longrightarrow> free_mem r c m = Done m' \<Longrightarrow> mem_run m0 m' (us @ vs)"

lemma mem_run_ledger:
  assumes "booted m0" and "mem_run m0 m bs"
  shows "booted m \<and> ledger (free_clicks m0) (free_clicks m) (map (\<lambda>(r, c). block r c) bs) \<and>
    (\<forall>(r, c) \<in> set bs. valid_block r c \<and> sane_request c \<and> r \<noteq> NO_MEM)"
  using assms(2)
proof (induction rule: mem_run.induct)
  case start
  then show ?case using assms(1) by (simp add: ledger_def)
next
  case (alloc m bs c r m')
  then show ?case using hole_alloc.ledger_alloc [of m c r m'] by auto
next
  case (refuse m bs c m')
  then show ?case using alloc_nomem by blast
next
  case (empty m bs c r m')
  then show ?case using alloc_empty [of m c r m'] by simp
next
  case (free m us r c vs m')
  then show ?case
    using hole_alloc.ledger_release [of m r c m' "free_clicks m0" "map (\<lambda>(r, c). block r c) us" "map (\<lambda>(r, c). block r c) vs"]
    by auto
qed

lemma slots_count:
  assumes "slots_inv m xs ys"
  shows "length xs + length ys = NR_HOLES"
proof -
  have "length xs + length ys = card (set xs) + card (set ys)"
    using slots_distinct [OF assms] by (simp add: distinct_card)
  also have "\<dots> = card (set xs \<union> set ys)"
    using assms by (intro card_Un_disjoint [symmetric]) (auto simp: slots_inv_def)
  also have "\<dots> = NR_HOLES" using assms by (simp add: slots_inv_def)
  finally show ?thesis .
qed

lemma free_slots_None:
  assumes "mem_ok m"
  shows "free_slots m = None \<longleftrightarrow> length (hole_list m) = NR_HOLES"
proof -
  let ?ys = "chain_list (nexts m) NR_HOLES (free_slots m)"
  have s: "slots_inv m (hole_slots m) ?ys" using assms by (simp add: mem_ok_def)
  have "free_slots m = None \<longleftrightarrow> ?ys = []"
    using s by (cases ?ys) (auto simp: slots_inv_def)
  then show ?thesis using slots_count [OF s] unfolding hole_list_def length_map
    by (metis add_cancel_right_right length_0_conv)
qed

lemma upt_chain:
  assumes nx: "\<And>k. nx k = (if k < n - 1 then Some (k + 1) else None)"
  shows "i \<le> n \<Longrightarrow> chain nx (if i < n then Some i else None) [i..<n]"
proof (induction rule: inc_induct)
  case base
  show ?case by simp
next
  case (step i)
  have "nx i = (if Suc i < n then Some (Suc i) else None)" using nx [of i] step.hyps by auto
  with step show ?case by (simp add: upt_conv_Cons)
qed

lemma all_slots_free_ok: "mem_ok (all_slots_free m) \<and> hole_list (all_slots_free m) = []"
proof -
  have "chain (nexts (all_slots_free m)) (if 0 < NR_HOLES then Some 0 else None) [0..<NR_HOLES]"
    by (rule upt_chain) (simp_all add: all_slots_free_def)
  then have "slots_inv (all_slots_free m) [] [0..<NR_HOLES]"
    by (auto simp: slots_inv_def all_slots_free_def)
  then show ?thesis using holes_invI [of _ "[]" _ "[]"] by (auto simp: canonical_def holes_inv_iff)
qed

lemma mem_init_loop_ok:
  assumes "mem_ok m" and "length (hole_list m) + length chunks \<le> NR_HOLES"
    and "\<forall>(b, c) \<in> set chunks. valid_block b c \<and> sane_request c"
    and "sorted_wrt (\<lambda>x y. x \<inter> y = {}) (free_clicks m # map (\<lambda>(b, c). block b c) chunks)"
  shows "\<exists>m'. mem_init_loop chunks m = Done m' \<and> mem_ok m' \<and>
    free_clicks m' = free_clicks m \<union> \<Union> (set (map (\<lambda>(b, c). block b c) chunks))"
  using assms
proof (induction chunks arbitrary: m)
  case Nil
  then show ?case by simp
next
  case (Cons bc chunks)
  obtain b c where bc: "bc = (b, c)" by fastforce
  have v: "hole_ok (unat b, unat (round_even c))" "c \<noteq> 0" "free_clicks m \<inter> block b c = {}"
    using Cons.prems(3,4) by (auto simp: bc valid_block_def sane_request_def)
  from Cons.prems(1) v(1,3) show ?case
  proof (cases rule: free_mem_cases)
    case full
    then show ?thesis using Cons.prems(1,2) free_slots_None by auto
  next
    case (ok m1)
    have "\<exists>m'. mem_init_loop chunks m1 = Done m' \<and> mem_ok m' \<and>
      free_clicks m' = free_clicks m1 \<union> \<Union> (set (map (\<lambda>(b, c). block b c) chunks))"
      by (rule Cons.IH) (use ok Cons.prems in \<open>auto simp: bc\<close>)
    then show ?thesis using ok v(2) by (auto simp: bc)
  qed
qed

lemma card_clicks: "canonical hs \<Longrightarrow> card (clicks_of hs) = sum_list (map snd hs)"
proof (induction hs)
  case Nil
  then show ?case by simp
next
  case (Cons h hs)
  have "{fst h..<fst h + snd h} \<inter> clicks_of hs = {}" by (auto dest: canonical_gap [OF Cons.prems])
  then have "card ({fst h..<fst h + snd h} \<union> clicks_of hs) = card {fst h..<fst h + snd h} + card (clicks_of hs)"
    by (intro card_Un_disjoint) (simp_all add: clicks_of_def)
  then show ?case using Cons by (simp add: canonical_Cons_iff)
qed

lemma clicks_below: "canonical hs \<Longrightarrow> clicks_of hs \<subseteq> {..<65535}"
  by (fastforce simp: clicks_of_def canonical_def list_all_iff hole_ok_def)

lemma fold_len_of_nat:
  "fold (\<lambda>i tot. tot + h_len (hole_tab m i)) xs (of_nat a) = of_nat (a + sum_list (map (snd \<circ> hole_pair m) xs))"
proof (induction xs arbitrary: a)
  case (Cons x xs)
  have "of_nat a + h_len (hole_tab m x) = of_nat (a + snd (hole_pair m x))" by (simp add: hole_pair_def)
  then show ?case using Cons.IH [of "a + snd (hole_pair m x)"] by (simp add: add.assoc)
qed simp

lemma fold_max_len:
  "unat (fold (\<lambda>i mx. if h_len (hole_tab m i) > mx then h_len (hole_tab m i) else mx) xs a) =
     Max (insert (unat a) (snd ` set (map (hole_pair m) xs)))"
proof (induction xs arbitrary: a)
  case Nil
  then show ?case by simp
next
  case (Cons x xs)
  have "unat (if h_len (hole_tab m x) > a then h_len (hole_tab m x) else a) = max (snd (hole_pair m x)) (unat a)"
    by (auto simp: hole_pair_def word_less_nat_alt)
  moreover have "Max (insert (max u v) A) = Max (insert v (insert u A))" if "finite A" for u v :: nat and A
    using that by (cases "A = {}") (auto simp: max.assoc max.commute max.left_commute)
  ultimately show ?case using Cons.IH by simp
qed

lemma hole_chain:
  assumes "mem_ok m"
  shows "chain (nexts m) (hole_head m) (hole_slots m)" "length (hole_slots m) \<le> NR_HOLES"
  using assms slots_length by (auto simp: mem_ok_def slots_inv_def)

subsection \<open>Properties of the allocator\<close>

text \<open>
  C7. \<open>alloc_mem\<close> on a well-formed hole table always returns and keeps the table well formed. If no hole
  has the (rounded) size it returns \<open>NO_MEM\<close> and changes nothing. Otherwise it takes the first
  hole that fits, at an even click: the block it returns was free and is the only memory that stops being free.
\<close>

theorem alloc_mem_first_fit:
  assumes "mem_ok m"
  shows "\<exists>r m'. alloc_mem c m = Done (r, m') \<and> mem_ok m' \<and>
    (if \<forall>h \<in> set (hole_list m). snd h < unat (round_even c)
     then r = NO_MEM \<and> m' = m
     else (\<exists>us l vs. hole_list m = us @ (unat r, l) # vs \<and> unat (round_even c) \<le> l \<and>
             (\<forall>h \<in> set us. snd h < unat (round_even c))) \<and> even (unat r) \<and>
          block r c \<subseteq> free_clicks m \<and> free_clicks m' = free_clicks m - block r c)"
  using assms
proof (cases rule: alloc_mem_cases [where c = c])
  case none
  then show ?thesis using assms by simp
next
  case (fit r m' us l vs)
  have "even (unat r)" using hole_list_ok [OF assms, of "(unat r, l)"] fit(3) by (simp add: hole_ok_def)
  moreover have "\<not> (\<forall>h \<in> set (hole_list m). snd h < unat (round_even c))" using fit(3,5) by auto
  ultimately show ?thesis using fit by auto
qed

text \<open>
  C8. \<open>free_mem\<close> of a block of non-free, even-aligned memory panics exactly when all 128 table slots
  describe holes; otherwise the table stays well formed (sorted, no two adjacent holes, the slots
  partitioned) and exactly the clicks of the block become free.
\<close>

theorem free_mem_returns_block:
  assumes "mem_ok m" and "valid_block base c" and "free_clicks m \<inter> block base c = {}"
  shows "if length (hole_list m) = NR_HOLES then free_mem base c m = Panic ''Hole table full''
    else \<exists>m'. free_mem base c m = Done m' \<and> mem_ok m' \<and> free_clicks m' = free_clicks m \<union> block base c"
  using assms(1) assms(2) [unfolded valid_block_def] assms(3)
  by (cases rule: free_mem_cases) (use free_slots_None [OF assms(1)] in \<open>auto simp: free_mem_def\<close>)

text \<open>
  Releasing a block just allocated restores the list of holes exactly, merges included.
\<close>

theorem alloc_free_restores:
  assumes "booted m" and "sane_request c" and "alloc_mem c m = Done (r, m1)" and "r \<noteq> NO_MEM"
    and "length (hole_list m1) < NR_HOLES"
  shows "\<exists>m2. free_mem r c m1 = Done m2 \<and> booted m2 \<and> hole_list m2 = hole_list m"
proof -
  note t = hole_alloc.alloc_takes [OF assms(1-4)]
  have dis: "free_clicks m1 \<inter> block r c = {}" using t by auto
  have ok1: "mem_ok m1" "hole_ok (unat r, unat (round_even c))" using t by (auto simp: booted_def valid_block_def)
  from ok1 dis obtain m2 where m2: "free_mem r c m1 = Done m2" "mem_ok m2" "free_clicks m2 = free_clicks m1 \<union> block r c"
    by (cases rule: free_mem_cases) (use free_slots_None [OF ok1(1)] assms(5) in auto)
  then have "free_clicks m2 = free_clicks m" using t by auto
  then show ?thesis using m2 assms(1) mem_ok_unique [of m2 m] by (auto simp: booted_def)
qed

text \<open>
  C34. Over any sequence of requests, of any size, and releases of outstanding blocks, from a well-formed hole table that does not have
  click 0 free, outstanding blocks never overlap each other or free memory, and no click is lost: free memory and the outstanding blocks always add
  up to the memory that was free at the start. (A block counts with its rounded size. A request for 0 or for 65535 clicks, which the rounding wraps
  to 0, takes no memory, and what it returns is no block to be released.)
\<close>

theorem mem_run_conserves:
  assumes "booted m0" and "mem_run m0 m bs"
  shows "mem_ok m \<and> free_clicks m \<union> (\<Union>(r, c) \<in> set bs. block r c) = free_clicks m0 \<and>
    free_clicks m \<inter> (\<Union>(r, c) \<in> set bs. block r c) = {} \<and>
    sorted_wrt (\<lambda>(r, c) (r', c'). block r c \<inter> block r' c' = {}) bs"
  using mem_run_ledger [OF assms]
  by (auto simp: ledger_def booted_def sorted_wrt_map case_prod_unfold)

text \<open>
  \<open>mem_left\<close> is the number of free clicks, \<open>max_hole\<close> the length of the largest hole, and a sane request
  can be met exactly when its rounded size is at most \<open>max_hole\<close>.
\<close>

theorem mem_left_max_hole:
  assumes "mem_ok m"
  shows "\<exists>tot mx. mem_left m = Done tot \<and> unat tot = card (free_clicks m) \<and> max_hole m = Done mx \<and>
    ((\<exists>h \<in> set (hole_list m). unat (round_even c) \<le> snd h) \<longleftrightarrow> 0 < length (hole_list m) \<and> round_even c \<le> mx)"
proof -
  have can: "canonical (hole_list m)" using assms by (simp add: mem_ok_def)
  have "card (free_clicks m) \<le> card {..<65535::nat}"
    unfolding free_clicks_def by (rule card_mono) (use clicks_below [OF can] in auto)
  then have lt: "sum_list (map snd (hole_list m)) < 65536"
    using card_clicks [OF can] by (simp add: free_clicks_def)
  let ?mx = "fold (\<lambda>i mx. if h_len (hole_tab m i) > mx then h_len (hole_tab m i) else mx) (hole_slots m) 0"
  have left: "mem_left m = Done (of_nat (sum_list (map snd (hole_list m))))"
    using chain_fold_eq [OF hole_chain [OF assms], of "\<lambda>tot hp. tot + h_len (hole_tab m hp)" 0]
      fold_len_of_nat [of m "hole_slots m" 0]
    by (simp add: mem_left_def hole_list_def)
  have mx: "max_hole m = Done ?mx" "unat ?mx = Max (insert 0 (snd ` set (hole_list m)))"
    using chain_fold_eq [OF hole_chain [OF assms],
        of "\<lambda>mx hp. if h_len (hole_tab m hp) > mx then h_len (hole_tab m hp) else mx" 0]
      fold_max_len [of m "hole_slots m" 0]
    by (simp_all add: max_hole_def hole_list_def)
  have "(\<exists>h \<in> set (hole_list m). unat (round_even c) \<le> snd h) \<longleftrightarrow> 0 < length (hole_list m) \<and> round_even c \<le> ?mx"
    by (cases "hole_list m") (auto simp: word_le_nat_alt mx(2) Max_ge_iff)
  then show ?thesis using left mx lt card_clicks [OF can]
    by (intro exI [of _ "of_nat (sum_list (map snd (hole_list m)))"] exI [of _ ?mx])
      (simp add: free_clicks_def unat_of_nat)
qed

text \<open>
  \<open>mem_init\<close> turns any sequence of at most 128 disjoint, even-aligned chunks reported by the kernel into a
  well-formed hole table whose free clicks are exactly those chunks.
\<close>

theorem mem_init_holes:
  assumes "length chunks \<le> NR_HOLES" and "\<forall>(b, c) \<in> set chunks. valid_block b c \<and> sane_request c"
    and "sorted_wrt (\<lambda>(b, c) (b', c'). block b c \<inter> block b' c' = {}) chunks"
  shows "\<exists>m'. mem_init chunks m = Done m' \<and> mem_ok m' \<and> free_clicks m' = (\<Union>(b, c) \<in> set chunks. block b c)"
  using mem_init_loop_ok [of "all_slots_free m" chunks] all_slots_free_ok [of m] assms
  by (auto simp: mem_init_def free_clicks_def sorted_wrt_map case_prod_unfold)

text \<open>
  The LISA rounding wraps: a request for 65535 clicks is rounded to 0 and, whenever there is any
  hole at all, \<open>alloc_mem\<close> reports success (the base of the first hole) without taking any memory.
\<close>

theorem alloc_mem_round_wraps:
  assumes "mem_ok m" and "hole_list m = (b, l) # hs"
  shows "\<exists>r m'. alloc_mem 65535 m = Done (r, m') \<and> unat r = b \<and> free_clicks m' = free_clicks m"
proof -
  have z: "unat (round_even 65535) = 0" by (simp add: round_even_unat)
  from assms(1) show ?thesis
  proof (cases rule: alloc_mem_cases [where c = 65535])
    case none
    then show ?thesis using assms(2) z by auto
  next
    case (fit r m' us l' vs)
    then have "us = []" using z by (cases us) auto
    then show ?thesis using fit assms(2) z by (auto simp: block_def)
  qed
qed

subsection \<open>Witnesses\<close>

text \<open>A table with one hole of 128 clicks at click 64; the other 127 slots are unused.\<close>

definition demo_mem :: mem_table where
  "demo_mem = \<lparr>hole_tab = (\<lambda>i. if i = 0 then \<lparr>h_base = 64, h_len = 128, h_next = None\<rparr>
       else \<lparr>h_base = 0, h_len = 0, h_next = (if i < NR_HOLES - 1 then Some (i + 1) else None)\<rparr>),
     hole_head = Some 0, free_slots = Some 1\<rparr>"

lemma demo_mem_ok: "mem_ok demo_mem" "hole_list demo_mem = [(64, 128)]"
proof -
  have "chain (\<lambda>i. if i < NR_HOLES - 1 then Some (i + 1) else None) (if 1 < NR_HOLES then Some 1 else None) [1..<NR_HOLES]"
    by (rule upt_chain) simp_all
  then have "chain (nexts demo_mem) (free_slots demo_mem) [1..<NR_HOLES]"
    unfolding demo_mem_def by (subst chain_cong [where nx' = "\<lambda>i. if i < NR_HOLES - 1 then Some (i + 1) else None"]) auto
  then have "slots_inv demo_mem [0] [1..<NR_HOLES]" by (auto simp: slots_inv_def demo_mem_def)
  then have "holes_inv demo_mem [(64, 128)]"
    by (rule holes_invI) (auto simp: hole_pair_def demo_mem_def canonical_def hole_ok_def)
  then show "mem_ok demo_mem" "hole_list demo_mem = [(64, 128)]" by (auto simp: holes_inv_iff)
qed

lemma demo_booted: "booted demo_mem"
  by (simp add: booted_def demo_mem_ok free_clicks_def)

lemma demo_alloc: "alloc_mem 3 demo_mem = Done (64, bite 0 4 demo_mem)" "round_even 3 = 4"
proof -
  show r: "round_even 3 = 4" by (simp add: round_even_def)
  show "alloc_mem 3 demo_mem = Done (64, bite 0 4 demo_mem)"
    by (simp add: alloc_mem_def r demo_mem_def bite_def)
qed

theorem alloc_mem_first_fit_witness:
  "\<exists>r m'. alloc_mem 3 demo_mem = Done (r, m') \<and> mem_ok m' \<and> unat r = 64 \<and>
    free_clicks m' = free_clicks demo_mem - block r 3"
  using alloc_mem_first_fit [OF demo_mem_ok(1), of 3]
  by (auto simp: demo_mem_ok(2) demo_alloc Cons_eq_append_conv)

theorem free_mem_returns_block_witness:
  "\<exists>m'. free_mem 16 3 demo_mem = Done m' \<and> mem_ok m' \<and> free_clicks m' = free_clicks demo_mem \<union> block 16 3"
proof -
  have "valid_block 16 3" "free_clicks demo_mem \<inter> block 16 3 = {}"
    by (auto simp: valid_block_def hole_ok_def demo_alloc free_clicks_def demo_mem_ok(2) block_def)
  from free_mem_returns_block [OF demo_mem_ok(1) this] show ?thesis by (simp add: demo_mem_ok(2))
qed

lemma demo_alloc_holes: "hole_list (bite 0 4 demo_mem) = [(68, 124)]"
  by (simp add: hole_list_def hole_slots_def hole_pair_def bite_def demo_mem_def)

theorem alloc_free_restores_witness:
  "\<exists>m1 m2. alloc_mem 3 demo_mem = Done (64, m1) \<and> free_mem 64 3 m1 = Done m2 \<and> hole_list m2 = [(64, 128)]"
proof -
  have "sane_request 3" "length (hole_list (bite 0 4 demo_mem)) < NR_HOLES"
    by (simp_all add: sane_request_def demo_alloc_holes)
  from alloc_free_restores [OF demo_booted this(1) demo_alloc(1) _ this(2)] show ?thesis
    using demo_alloc(1) by (auto simp: demo_mem_ok(2))
qed

theorem mem_run_conserves_witness:
  "mem_run demo_mem (bite 0 4 demo_mem) [(64, 3)] \<and>
   free_clicks (bite 0 4 demo_mem) \<union> block 64 3 = free_clicks demo_mem"
proof -
  have "mem_run demo_mem (bite 0 4 demo_mem) [(64, 3)]"
    by (rule mem_run.alloc [OF mem_run.start _ demo_alloc(1)]) (simp_all add: sane_request_def)
  with mem_run_conserves [OF demo_booted this] show ?thesis by simp
qed

theorem mem_left_max_hole_witness:
  "\<exists>tot mx. mem_left demo_mem = Done tot \<and> unat tot = card (free_clicks demo_mem) \<and>
    max_hole demo_mem = Done mx \<and> round_even 3 \<le> mx"
  using mem_left_max_hole [OF demo_mem_ok(1), of 3] by (auto simp: demo_mem_ok(2) demo_alloc(2))

theorem mem_init_holes_witness:
  "\<exists>m'. mem_init [(0, 2048), (4096, 512)] demo_mem = Done m' \<and> mem_ok m' \<and>
     free_clicks m' = block 0 2048 \<union> block 4096 512"
  using mem_init_holes [of "[(0, 2048), (4096, 512)]" demo_mem]
  by (simp add: valid_block_def hole_ok_def sane_request_def round_even_unat block_def)

theorem alloc_mem_round_wraps_witness:
  "\<exists>r m'. alloc_mem 65535 demo_mem = Done (r, m') \<and> unat r = 64 \<and> free_clicks m' = free_clicks demo_mem"
  using alloc_mem_round_wraps [OF demo_mem_ok] by simp

end
