(* ===== verification/Kernel_Proc.thy ===== *)
theory Kernel_Proc
  imports Minix_Prelude
begin

section \<open>Kernel: processes and messages (src/src/kernel/proc.c)\<close>

text \<open>
  The process table, the four ready queues, the rendezvous message passing of \<open>sys_call\<close>, the held
  interrupts and the two signal entry points of \<open>system.c\<close> that message passing calls
  (\<open>cause_sig\<close>, \<open>inform\<close>).

  \<^item> A pointer to a process slot is the process number \<open>p_nr\<close> (\<open>-NR_TASKS .. NR_PROCS - 1\<close>); the nil
    pointer is \<open>None\<close>.
  \<^item> \<open>p_flags\<close> is the set of the flag bits that are on, so \<open>p_flags == 0\<close> is \<open>p_flags = {}\<close>.
  \<^item> The memory is an array of bytes at 32-bit physical addresses. A message occupies
    \<open>MESS_SIZE = 26\<close> bytes: \<open>m_source\<close> at offset 0, \<open>m_type\<close> at 2 (16-bit big-endian) and the union
    of 22 bytes at 4.
  \<^item> The pointer walks run under a fuel of \<open>NR_TASKS + NR_PROCS\<close> nodes, more than any chain of
    distinct slots can have; a walk that does not end, a nil dereference and an access outside the
    table are \<open>Stuck\<close>.
\<close>

subsection \<open>Constants and data\<close>

abbreviation (input) NR_TASKS :: int where "NR_TASKS \<equiv> 9"
abbreviation (input) NR_PROCS :: int where "NR_PROCS \<equiv> 32"
abbreviation (input) LOW_USER :: int where "LOW_USER \<equiv> 2"
abbreviation (input) MM_PROC_NR :: int where "MM_PROC_NR \<equiv> 0"
abbreviation (input) FS_PROC_NR :: int where "FS_PROC_NR \<equiv> 1"
abbreviation (input) IDLE :: int where "IDLE \<equiv> -8"
abbreviation (input) CLOCK :: int where "CLOCK \<equiv> -3"
abbreviation (input) SYSTASK :: int where "SYSTASK \<equiv> -2"
abbreviation (input) HARDWARE :: int where "HARDWARE \<equiv> -1"
abbreviation (input) ANY :: int where "ANY \<equiv> 132"
abbreviation (input) MESS_SIZE :: nat where "MESS_SIZE \<equiv> 26"
abbreviation (input) ALL_SLOTS :: nat where "ALL_SLOTS \<equiv> 41"

abbreviation (input) OK :: int where "OK \<equiv> 0"
abbreviation (input) E_BAD_DEST :: int where "E_BAD_DEST \<equiv> -1"
abbreviation (input) E_BAD_SRC :: int where "E_BAD_SRC \<equiv> -2"
abbreviation (input) E_NO_PERM :: int where "E_NO_PERM \<equiv> -8"
abbreviation (input) E_BAD_ADDR :: int where "E_BAD_ADDR \<equiv> -10"
abbreviation (input) ELOCKED :: int where "ELOCKED \<equiv> -101"

abbreviation (input) HARD_INT :: int where "HARD_INT \<equiv> 2"
abbreviation (input) KSIG :: int where "KSIG \<equiv> 64"
abbreviation (input) SIGSTKFLT :: nat where "SIGSTKFLT \<equiv> 16"

datatype pflag = P_SLOT_FREE | NO_MAP | SENDING | RECEIVING | PENDING | SIG_PENDING | P_STOP

datatype ready_q = TASK_Q | SERVER_Q | USER_Q | SHADOW_Q

datatype segment = Seg_T | Seg_D | Seg_S

record mem_map =
  mem_vir :: vir_clicks
  mem_phys :: phys_clicks
  mem_len :: vir_clicks

text \<open>\<open>sf_reg\<close> holds the longwords of the frame in order: \<open>retreg\<close> (0), \<open>d1-d7\<close>, \<open>a0-a6\<close>, \<open>sp\<close> (15), \<open>pc\<close> (16).\<close>

record stackframe_s =
  sf_reg :: "nat \<Rightarrow> u32"
  sf_psw :: u16
  sf_dummy :: u16

abbreviation (input) REG_RET :: nat where "REG_RET \<equiv> 0"
abbreviation (input) REG_SP :: nat where "REG_SP \<equiv> 15"
abbreviation (input) REG_PC :: nat where "REG_PC \<equiv> 16"

record proc =
  p_reg :: stackframe_s
  p_splow :: u32
  p_trap :: int
  p_shadow :: phys_clicks
  p_nflips :: int
  p_physio :: bool
  p_nr :: int
  p_int_blocked :: bool
  p_int_held :: bool
  p_nextheld :: "int option"
  p_flags :: "pflag set"
  p_map :: "segment \<Rightarrow> mem_map"
  p_pid :: int
  user_time :: int
  sys_time :: int
  child_utime :: int
  child_stime :: int
  p_alarm :: int
  p_callerq :: "int option"
  p_sendlink :: "int option"
  p_messbuf :: u32
  p_getfrom :: int
  p_nextready :: "int option"
  p_pending :: u16
  p_pendcount :: u16

text \<open>
  \<open>sys_mess\<close> is the address of the message buffer \<open>m\<close> of \<open>system.c\<close>, a static variable the linker
  places.
\<close>

record kernel =
  proc_tab :: "int \<Rightarrow> proc"
  rdy_head :: "ready_q \<Rightarrow> int option"
  rdy_tail :: "ready_q \<Rightarrow> int option"
  proc_ptr :: int
  bill_ptr :: int
  held_head :: "int option"
  held_tail :: "int option"
  k_reenter :: u8
  switching :: bool
  sig_procs :: int
  sys_mess :: u32
  ram :: "u32 \<Rightarrow> u8"

definition upd_proc :: "int \<Rightarrow> (proc \<Rightarrow> proc) \<Rightarrow> kernel \<Rightarrow> kernel" where
  "upd_proc p f s = s\<lparr>proc_tab := (proc_tab s)(p := f (proc_tab s p))\<rparr>"

lemma upd_proc_simps [simp]:
  "proc_tab (upd_proc p f s) = (proc_tab s)(p := f (proc_tab s p))"
  "rdy_head (upd_proc p f s) = rdy_head s" "rdy_tail (upd_proc p f s) = rdy_tail s"
  "proc_ptr (upd_proc p f s) = proc_ptr s" "bill_ptr (upd_proc p f s) = bill_ptr s"
  "held_head (upd_proc p f s) = held_head s" "held_tail (upd_proc p f s) = held_tail s"
  "k_reenter (upd_proc p f s) = k_reenter s" "switching (upd_proc p f s) = switching s"
  "sig_procs (upd_proc p f s) = sig_procs s" "sys_mess (upd_proc p f s) = sys_mess s"
  "ram (upd_proc p f s) = ram s"
  by (simp_all add: upd_proc_def)

definition isidlehardware :: "int \<Rightarrow> bool" where "isidlehardware n \<longleftrightarrow> n = IDLE \<or> n = HARDWARE"
definition isokprocn :: "int \<Rightarrow> bool" where
  "isokprocn n \<longleftrightarrow> 0 \<le> n + NR_TASKS \<and> n + NR_TASKS < NR_PROCS + NR_TASKS"
definition isoksrc_dest :: "int \<Rightarrow> bool" where "isoksrc_dest n \<longleftrightarrow> isokprocn n \<or> n = ANY"
definition isoksusern :: "int \<Rightarrow> bool" where "isoksusern n \<longleftrightarrow> 0 \<le> n \<and> n < NR_PROCS"
definition isokusern :: "int \<Rightarrow> bool" where
  "isokusern n \<longleftrightarrow> 0 \<le> n - LOW_USER \<and> n - LOW_USER < NR_PROCS - LOW_USER"
definition isrxhardware :: "int \<Rightarrow> bool" where "isrxhardware n \<longleftrightarrow> n = ANY \<or> n = HARDWARE"
definition isservn :: "int \<Rightarrow> bool" where "isservn n \<longleftrightarrow> 0 \<le> n \<and> n < LOW_USER"
definition istaskp :: "int \<Rightarrow> bool" where "istaskp p \<longleftrightarrow> p < 0 \<and> p \<noteq> IDLE"
definition isuserp :: "int \<Rightarrow> bool" where "isuserp p \<longleftrightarrow> LOW_USER \<le> p"
definition isshadowp :: "proc \<Rightarrow> bool" where "isshadowp r \<longleftrightarrow> p_shadow r \<noteq> 0"

lemmas proc_class_defs = isidlehardware_def isokprocn_def isoksrc_dest_def isoksusern_def
  isokusern_def isrxhardware_def isservn_def istaskp_def isuserp_def isshadowp_def

subsection \<open>Memory and messages\<close>

definition put16 :: "u32 \<Rightarrow> int \<Rightarrow> (u32 \<Rightarrow> u8) \<Rightarrow> (u32 \<Rightarrow> u8)" where
  "put16 a v m = m(a := word_of_int (v div 256), a + 1 := word_of_int v)"

definition get16 :: "(u32 \<Rightarrow> u8) \<Rightarrow> u32 \<Rightarrow> int" where
  "get16 m a = (let v = uint (m a) * 256 + uint (m (a + 1)) in if v < 32768 then v else v - 65536)"

definition copy_bytes :: "u32 \<Rightarrow> u32 \<Rightarrow> nat \<Rightarrow> (u32 \<Rightarrow> u8) \<Rightarrow> (u32 \<Rightarrow> u8)" where
  "copy_bytes src dst n m = (\<lambda>a. if unat (a - dst) < n then m (src + (a - dst)) else m a)"

definition clicks_bytes :: "u16 \<Rightarrow> u32" where
  "clicks_bytes c = push_bit 8 (ucast c)"

text \<open>The address translation of \<open>cp_mess\<close>, the same for the sender's and the receiver's pointer.\<close>

definition mess_phys :: "proc \<Rightarrow> u32 \<Rightarrow> u32" where
  "mess_phys r m =
     (let d = p_map r Seg_D;
          m1 = m + (clicks_bytes (mem_phys d) - clicks_bytes (mem_vir d))
      in if p_shadow r \<noteq> 0 then m1 + clicks_bytes (p_shadow r - mem_phys d) else m1)"

definition cp_mess :: "int \<Rightarrow> int \<Rightarrow> u32 \<Rightarrow> int \<Rightarrow> u32 \<Rightarrow> kernel \<Rightarrow> kernel" where
  "cp_mess src src_p src_m dst_p dst_m s =
     (let a = mess_phys (proc_tab s src_p) src_m; b = mess_phys (proc_tab s dst_p) dst_m
      in s\<lparr>ram := put16 b src (copy_bytes a b MESS_SIZE (ram s))\<rparr>)"

subsection \<open>Scheduling\<close>

definition pick_proc :: "kernel \<Rightarrow> kernel" where
  "pick_proc s =
     (case rdy_head s TASK_Q of
        Some rp \<Rightarrow> s\<lparr>proc_ptr := rp\<rparr>
      | None \<Rightarrow>
     (case rdy_head s SERVER_Q of
        Some rp \<Rightarrow> s\<lparr>proc_ptr := rp\<rparr>
      | None \<Rightarrow>
     (case rdy_head s USER_Q of
        Some rp \<Rightarrow> s\<lparr>proc_ptr := rp, bill_ptr := rp\<rparr>
      | None \<Rightarrow> s\<lparr>proc_ptr := IDLE, bill_ptr := IDLE\<rparr>)))"

text \<open>The queue a process belongs on: the case distinction that \<open>ready\<close> and \<open>unready\<close> share.\<close>

definition queue_of :: "kernel \<Rightarrow> int \<Rightarrow> ready_q" where
  "queue_of s rp =
     (if istaskp rp then TASK_Q
      else if \<not> isuserp rp then SERVER_Q
      else if isshadowp (proc_tab s rp) then SHADOW_Q
      else USER_Q)"

definition enqueue :: "ready_q \<Rightarrow> int \<Rightarrow> kernel \<Rightarrow> kernel outcome" where
  "enqueue q rp s =
     and_then
       (case rdy_head s q of
          Some _ \<Rightarrow>
            (case rdy_tail s q of
               Some t \<Rightarrow> Done (upd_proc t (\<lambda>r. r\<lparr>p_nextready := Some rp\<rparr>) s)
             | None \<Rightarrow> Stuck)
        | None \<Rightarrow> Done (s\<lparr>rdy_head := (rdy_head s)(q := Some rp)\<rparr>))
       (\<lambda>s1. Done (upd_proc rp (\<lambda>r. r\<lparr>p_nextready := None\<rparr>)
                     (s1\<lparr>rdy_tail := (rdy_tail s1)(q := Some rp)\<rparr>)))"

definition ready :: "int \<Rightarrow> kernel \<Rightarrow> kernel outcome" where
  "ready rp s = enqueue (queue_of s rp) rp s"

abbreviation nextready :: "kernel \<Rightarrow> int \<Rightarrow> int option" where
  "nextready s \<equiv> p_nextready \<circ> proc_tab s"

definition unready :: "int \<Rightarrow> kernel \<Rightarrow> kernel outcome" where
  "unready rp s =
     (let q = queue_of s rp in
      case rdy_head s q of
        None \<Rightarrow> Done s
      | Some xp \<Rightarrow>
          if xp = rp
          then let s1 = s\<lparr>rdy_head := (rdy_head s)(q := p_nextready (proc_tab s xp))\<rparr>
               in Done (if rp = proc_ptr s then pick_proc s1 else s1)
          else (case chain_find (nextready s) (\<lambda>x. p_nextready (proc_tab s x) = Some rp)
                       ALL_SLOTS None (Some xp) of
                  None \<Rightarrow> Stuck
                | Some (_, None) \<Rightarrow> Done s
                | Some (_, Some x) \<Rightarrow>
                    let s1 = upd_proc x (\<lambda>r. r\<lparr>p_nextready := p_nextready (proc_tab s rp)\<rparr>) s in
                    (case chain_find (nextready s1) (\<lambda>y. p_nextready (proc_tab s1 y) = None)
                            ALL_SLOTS None (Some x) of
                       Some (_, Some y) \<Rightarrow> Done (s1\<lparr>rdy_tail := (rdy_tail s1)(q := Some y)\<rparr>)
                     | _ \<Rightarrow> Stuck)))"

definition sched :: "kernel \<Rightarrow> kernel outcome" where
  "sched s =
     (case rdy_head s USER_Q of
        None \<Rightarrow> Done s
      | Some h \<Rightarrow>
          (case rdy_tail s USER_Q of
             None \<Rightarrow> Stuck
           | Some t \<Rightarrow>
               let s1 = upd_proc t (\<lambda>r. r\<lparr>p_nextready := Some h\<rparr>) s;
                   s2 = s1\<lparr>rdy_tail := (rdy_tail s1)(USER_Q := Some h)\<rparr>;
                   s3 = s2\<lparr>rdy_head := (rdy_head s2)(USER_Q := p_nextready (proc_tab s2 h))\<rparr>;
                   s4 = upd_proc h (\<lambda>r. r\<lparr>p_nextready := None\<rparr>) s3
               in Done (pick_proc s4)))"

text \<open>The gateways for tasks set \<open>switching\<close> around the call, so that \<open>interrupt\<close> holds off.\<close>

definition lock_pick_proc :: "kernel \<Rightarrow> kernel" where
  "lock_pick_proc s = (pick_proc (s\<lparr>switching := True\<rparr>))\<lparr>switching := False\<rparr>"

definition lock_ready :: "int \<Rightarrow> kernel \<Rightarrow> kernel outcome" where
  "lock_ready rp s =
     and_then (ready rp (s\<lparr>switching := True\<rparr>)) (\<lambda>s1. Done (s1\<lparr>switching := False\<rparr>))"

definition lock_unready :: "int \<Rightarrow> kernel \<Rightarrow> kernel outcome" where
  "lock_unready rp s =
     and_then (unready rp (s\<lparr>switching := True\<rparr>)) (\<lambda>s1. Done (s1\<lparr>switching := False\<rparr>))"

definition lock_sched :: "kernel \<Rightarrow> kernel outcome" where
  "lock_sched s =
     and_then (sched (s\<lparr>switching := True\<rparr>)) (\<lambda>s1. Done (s1\<lparr>switching := False\<rparr>))"

subsection \<open>Sending\<close>

abbreviation sendlink :: "kernel \<Rightarrow> int \<Rightarrow> int option" where
  "sendlink s \<equiv> p_sendlink \<circ> proc_tab s"

text \<open>
  The bounds check on a message buffer: the click of its last byte must lie in the data segment,
  and the message must not wrap around the top of memory. The click numbers are 16 bits wide.
\<close>

definition bad_mess_addr :: "proc \<Rightarrow> u32 \<Rightarrow> bool" where
  "bad_mess_addr r m_ptr =
     (let vlo = (ucast (drop_bit 8 m_ptr) :: u16);
          vhi = (ucast (drop_bit 8 (m_ptr + of_nat MESS_SIZE - 1)) :: u16)
      in vhi < vlo \<or> mem_len (p_map r Seg_D) \<le> vhi - mem_vir (p_map r Seg_D))"

text \<open>Is \<open>r\<close> waiting for a message from \<open>caller\<close>?\<close>

definition waits_for :: "proc \<Rightarrow> int \<Rightarrow> bool" where
  "waits_for r caller \<longleftrightarrow>
     RECEIVING \<in> p_flags r \<and> SENDING \<notin> p_flags r \<and> (p_getfrom r = ANY \<or> p_getfrom r = caller)"

text \<open>Put the blocked caller on the tail of the destination's caller queue.\<close>

definition queue_caller :: "int \<Rightarrow> int \<Rightarrow> kernel \<Rightarrow> kernel outcome" where
  "queue_caller caller dest s =
     and_then
       (case p_callerq (proc_tab s dest) of
          None \<Rightarrow> Done (upd_proc dest (\<lambda>r. r\<lparr>p_callerq := Some caller\<rparr>) s)
        | Some x \<Rightarrow>
            (case chain_find (sendlink s) (\<lambda>y. p_sendlink (proc_tab s y) = None) ALL_SLOTS None (Some x) of
               Some (_, Some y) \<Rightarrow> Done (upd_proc y (\<lambda>r. r\<lparr>p_sendlink := Some caller\<rparr>) s)
             | _ \<Rightarrow> Stuck))
       (\<lambda>s1. Done (upd_proc caller (\<lambda>r. r\<lparr>p_sendlink := None\<rparr>) s1))"

definition mini_send :: "int \<Rightarrow> int \<Rightarrow> u32 \<Rightarrow> kernel \<Rightarrow> (int \<times> kernel) outcome" where
  "mini_send caller dest m_ptr s =
     (if isuserp caller \<and> \<not> isservn dest then Done (E_BAD_DEST, s)
      else if \<not> isokprocn dest then Stuck
      else if P_SLOT_FREE \<in> p_flags (proc_tab s dest) then Done (E_BAD_DEST, s)
      else if bad_mess_addr (proc_tab s caller) m_ptr then Done (E_BAD_ADDR, s)
      else
        (case (if SENDING \<in> p_flags (proc_tab s dest)
               then chain_find (sendlink s) (\<lambda>x. x = dest) ALL_SLOTS None (p_callerq (proc_tab s caller))
               else Some (None, None)) of
           None \<Rightarrow> Stuck
         | Some (_, Some _) \<Rightarrow> Done (ELOCKED, s)
         | Some (_, None) \<Rightarrow>
             if waits_for (proc_tab s dest) (p_nr (proc_tab s caller))
             then let s1 = cp_mess (p_nr (proc_tab s caller)) caller m_ptr dest (p_messbuf (proc_tab s dest)) s;
                      s2 = upd_proc dest (\<lambda>r. r\<lparr>p_flags := p_flags r - {RECEIVING}\<rparr>) s1
                  in and_then (if p_flags (proc_tab s2 dest) = {} then ready dest s2 else Done s2)
                       (\<lambda>s3. Done (OK, s3))
             else let s1 = upd_proc caller (\<lambda>r. r\<lparr>p_messbuf := m_ptr\<rparr>) s in
                  and_then (if p_flags (proc_tab s1 caller) = {} then unready caller s1 else Done s1)
                    (\<lambda>s2. and_then
                       (queue_caller caller dest
                          (upd_proc caller (\<lambda>r. r\<lparr>p_flags := insert SENDING (p_flags r)\<rparr>) s2))
                       (\<lambda>s3. Done (OK, s3)))))"

definition lock_mini_send :: "int \<Rightarrow> int \<Rightarrow> u32 \<Rightarrow> kernel \<Rightarrow> (int \<times> kernel) outcome" where
  "lock_mini_send caller dest m_ptr s =
     and_then (mini_send caller dest m_ptr (s\<lparr>switching := True\<rparr>))
       (\<lambda>(r, s1). Done (r, s1\<lparr>switching := False\<rparr>))"

subsection \<open>Signals: \<open>cause_sig\<close> and \<open>inform\<close> (src/src/kernel/system.c)\<close>

text \<open>
  \<open>inform\<close> builds a \<open>KSIG\<close> message in the buffer \<open>m\<close> (\<open>m_type\<close>, \<open>PROC1\<close> and \<open>SIG_MAP\<close> at offsets 2, 4
  and 6) for the first process with a pending signal and sends it to MM in the name of \<open>HARDWARE\<close>.
  When the only signal was a stack fault the process is let go at once, provided no other is
  unfinished.
\<close>

definition done_one_sig :: "int \<Rightarrow> kernel \<Rightarrow> kernel outcome" where
  "done_one_sig rp s =
     (if p_pendcount (proc_tab s rp) \<noteq> 0
      then let s1 = upd_proc rp (\<lambda>r. r\<lparr>p_pendcount := p_pendcount r - 1\<rparr>) s in
           if p_pendcount (proc_tab s1 rp) = 0
           then let s2 = upd_proc rp (\<lambda>r. r\<lparr>p_flags := p_flags r - {SIG_PENDING}\<rparr>) s1 in
                if p_flags (proc_tab s2 rp) = {} then lock_ready rp s2 else Done s2
           else Done s1
      else Done s)"

definition inform :: "kernel \<Rightarrow> kernel outcome" where
  "inform s =
     (case find (\<lambda>p. PENDING \<in> p_flags (proc_tab s p)) [0..NR_PROCS - 1] of
        None \<Rightarrow> Done s
      | Some rp \<Rightarrow>
          let s1 = s\<lparr>ram := put16 (sys_mess s + 6) (uint (p_pending (proc_tab s rp)))
                              (put16 (sys_mess s + 4) (p_nr (proc_tab s rp))
                                (put16 (sys_mess s + 2) KSIG (ram s))),
                     sig_procs := sig_procs s - 1\<rparr>
          in and_then (lock_mini_send HARDWARE MM_PROC_NR (sys_mess s1) s1)
               (\<lambda>(r, s2).
                  if r \<noteq> OK then Panic ''can't inform MM''
                  else let s3 = upd_proc rp (\<lambda>r. r\<lparr>p_pending := 0, p_flags := p_flags r - {PENDING}\<rparr>) s2
                       in and_then
                            (if get16 (ram s3) (sys_mess s3 + 6) = - (2 ^ (SIGSTKFLT - 1))
                             then done_one_sig rp s3 else Done s3)
                            (\<lambda>s4. Done (lock_pick_proc s4))))"

definition cause_sig :: "int \<Rightarrow> int \<Rightarrow> kernel \<Rightarrow> kernel outcome" where
  "cause_sig proc_nr sig_nr s =
     (let b = nat (sig_nr - 1); rp = proc_tab s proc_nr in
      if bit (p_pending rp) b then Done s
      else
        let s1 = upd_proc proc_nr (\<lambda>r. r\<lparr>p_pending := set_bit b (p_pending r),
                                       p_pendcount := p_pendcount r + 1\<rparr>) s
        in if PENDING \<in> p_flags rp then Done s1
           else and_then (if p_flags rp = {} then lock_unready proc_nr s1 else Done s1)
                  (\<lambda>s2. let s3 = (upd_proc proc_nr
                                   (\<lambda>r. r\<lparr>p_flags := insert PENDING (insert SIG_PENDING (p_flags r))\<rparr>) s2)
                                 \<lparr>sig_procs := sig_procs s2 + 1\<rparr>;
                             mmp = proc_tab s3 MM_PROC_NR
                         in if RECEIVING \<notin> p_flags mmp \<or> p_getfrom mmp \<noteq> ANY then Done s3
                            else inform s3))"

subsection \<open>Receiving and the system call\<close>

definition hard_int_mess :: "u32 \<Rightarrow> kernel \<Rightarrow> kernel" where
  "hard_int_mess m_ptr s = s\<lparr>ram := put16 (m_ptr + 2) HARD_INT (put16 m_ptr HARDWARE (ram s))\<rparr>"

text \<open>Take the message of a queued sender and unlink the sender from the caller queue.\<close>

definition accept_mess :: "int \<Rightarrow> u32 \<Rightarrow> int option \<Rightarrow> int \<Rightarrow> kernel \<Rightarrow> kernel outcome" where
  "accept_mess caller m_ptr previous sender s =
     (let s1 = cp_mess (p_nr (proc_tab s sender)) sender (p_messbuf (proc_tab s sender)) caller m_ptr s;
          nxt = p_sendlink (proc_tab s1 sender)
      in and_then
           (if p_callerq (proc_tab s1 caller) = Some sender
            then Done (upd_proc caller (\<lambda>r. r\<lparr>p_callerq := nxt\<rparr>) s1)
            else (case previous of
                    Some pp \<Rightarrow> Done (upd_proc pp (\<lambda>r. r\<lparr>p_sendlink := nxt\<rparr>) s1)
                  | None \<Rightarrow> Stuck))
           (\<lambda>s2. let s3 = upd_proc sender (\<lambda>r. r\<lparr>p_flags := p_flags r - {SENDING}\<rparr>) s2 in
                 if p_flags (proc_tab s3 sender) = {} then ready sender s3 else Done s3))"

definition block_receive :: "int \<Rightarrow> int \<Rightarrow> u32 \<Rightarrow> kernel \<Rightarrow> kernel outcome" where
  "block_receive caller src m_ptr s =
     (let s1 = upd_proc caller (\<lambda>r. r\<lparr>p_getfrom := src, p_messbuf := m_ptr\<rparr>) s in
      and_then (if p_flags (proc_tab s1 caller) = {} then unready caller s1 else Done s1)
        (\<lambda>s2. let s3 = upd_proc caller (\<lambda>r. r\<lparr>p_flags := insert RECEIVING (p_flags r)\<rparr>) s2 in
              if 0 < sig_procs s3 \<and> p_nr (proc_tab s3 caller) = MM_PROC_NR \<and> src = ANY then inform s3
              else Done s3))"

definition mini_rec :: "int \<Rightarrow> int \<Rightarrow> u32 \<Rightarrow> kernel \<Rightarrow> (int \<times> kernel) outcome" where
  "mini_rec caller src m_ptr s =
     (let blocked = and_then (block_receive caller src m_ptr s) (\<lambda>s1. Done (OK, s1)) in
      if SENDING \<in> p_flags (proc_tab s caller) then blocked
      else (case chain_find (sendlink s) (\<lambda>x. src = ANY \<or> src = p_nr (proc_tab s x)) ALL_SLOTS None
                   (p_callerq (proc_tab s caller)) of
              None \<Rightarrow> Stuck
            | Some (previous, Some sender) \<Rightarrow>
                and_then (accept_mess caller m_ptr previous sender s) (\<lambda>s1. Done (OK, s1))
            | Some (_, None) \<Rightarrow>
                if p_int_blocked (proc_tab s caller) \<and> isrxhardware src
                then Done (OK, upd_proc caller (\<lambda>r. r\<lparr>p_int_blocked := False\<rparr>) (hard_int_mess m_ptr s))
                else blocked))"

text \<open>\<open>function & SEND\<close> is the low bit of the function code: \<open>SEND\<close> 1, \<open>RECEIVE\<close> 2, \<open>BOTH\<close> 3.\<close>

definition sys_call :: "int \<Rightarrow> int \<Rightarrow> u32 \<Rightarrow> kernel \<Rightarrow> (int \<times> kernel) outcome" where
  "sys_call function src_dest m_ptr s =
     (let rp = proc_ptr s in
      if \<not> isoksrc_dest src_dest then Done (E_BAD_SRC, s)
      else if function \<noteq> 3 \<and> isuserp rp then Done (E_NO_PERM, s)
      else if odd function
      then and_then (mini_send rp src_dest m_ptr s)
             (\<lambda>(n, s1). if function = 1 \<or> n \<noteq> OK then Done (n, s1)
                        else mini_rec rp src_dest m_ptr s1)
      else mini_rec rp src_dest m_ptr s)"

subsection \<open>Interrupts\<close>

definition hold_int :: "int \<Rightarrow> kernel \<Rightarrow> kernel outcome" where
  "hold_int rp s =
     (if p_int_held (proc_tab s rp) then Done s
      else let s1 = upd_proc rp (\<lambda>r. r\<lparr>p_int_held := True\<rparr>) s in
        and_then
          (case held_head s1 of
             Some _ \<Rightarrow> (case held_tail s1 of
                          Some t \<Rightarrow> Done (upd_proc t (\<lambda>r. r\<lparr>p_nextheld := Some rp\<rparr>) s1)
                        | None \<Rightarrow> Stuck)
           | None \<Rightarrow> Done (s1\<lparr>held_head := Some rp\<rparr>))
          (\<lambda>s2. Done (upd_proc rp (\<lambda>r. r\<lparr>p_nextheld := None\<rparr>) (s2\<lparr>held_tail := Some rp\<rparr>))))"

definition interrupt :: "int \<Rightarrow> kernel \<Rightarrow> kernel outcome" where
  "interrupt task s =
     (if k_reenter s \<noteq> 0 \<or> switching s then hold_int task s
      else
        let rp = proc_tab s task in
        if \<not> (RECEIVING \<in> p_flags rp \<and> SENDING \<notin> p_flags rp) \<or> \<not> isrxhardware (p_getfrom rp)
        then Done (upd_proc task (\<lambda>r. r\<lparr>p_int_blocked := True\<rparr>) s)
        else enqueue TASK_Q task
               (upd_proc task (\<lambda>r. r\<lparr>p_flags := p_flags r - {RECEIVING}, p_int_blocked := False\<rparr>)
                  (hard_int_mess (p_messbuf rp) s)))"

text \<open>
  \<open>unhold\<close> runs with \<open>k_reenter = 0\<close>. While it has interrupts enabled other handlers may run, nested:
  their calls of \<open>interrupt\<close> see \<open>k_reenter = 1\<close> and land on the held queue. The parameter \<open>arrivals\<close>
  lists, per turn of the loop, the tasks whose interrupts arrive in that window; after the listed
  turns nothing more arrives and one unit of fuel is spent per turn.
\<close>

fun nested_ints :: "int list \<Rightarrow> kernel \<Rightarrow> kernel outcome" where
  "nested_ints [] s = Done s"
| "nested_ints (t # ts) s =
     and_then (interrupt t (s\<lparr>k_reenter := k_reenter s + 1\<rparr>))
       (\<lambda>s1. nested_ints ts (s1\<lparr>k_reenter := k_reenter s1 - 1\<rparr>))"

definition unhold_one :: "int list \<Rightarrow> int \<Rightarrow> kernel \<Rightarrow> kernel outcome" where
  "unhold_one ts rp s =
     (let h = p_nextheld (proc_tab s rp);
          s1 = s\<lparr>held_head := h, held_tail := (if h = None then None else held_tail s)\<rparr>;
          s2 = upd_proc rp (\<lambda>r. r\<lparr>p_int_held := False\<rparr>) s1
      in and_then (nested_ints ts s2) (\<lambda>s3. interrupt (p_nr (proc_tab s3 rp)) s3))"

fun unhold_loop :: "nat \<Rightarrow> int list list \<Rightarrow> kernel \<Rightarrow> kernel outcome" where
  "unhold_loop 0 arrivals s = Stuck"
| "unhold_loop (Suc n) arrivals s =
     (case held_head s of
        None \<Rightarrow> Stuck
      | Some rp \<Rightarrow>
          and_then (unhold_one (case arrivals of [] \<Rightarrow> [] | ts # _ \<Rightarrow> ts) rp s)
            (\<lambda>s1. if held_head s1 = None then Done s1
                  else unhold_loop n (case arrivals of [] \<Rightarrow> [] | _ # r \<Rightarrow> r) s1))"

definition unhold :: "int list list \<Rightarrow> kernel \<Rightarrow> kernel outcome" where
  "unhold arrivals s =
     (if switching s then Done s else unhold_loop (length arrivals + ALL_SLOTS) arrivals s)"

subsection \<open>The ready queues as lists\<close>

definition ready_list :: "kernel \<Rightarrow> ready_q \<Rightarrow> int list" where
  "ready_list s q = chain_list (nextready s) ALL_SLOTS (rdy_head s q)"

text \<open>
  \<open>rq_rep s rq\<close>: the queue \<open>q\<close> is a chain of the processes \<open>rq q\<close>, its tail pointer is right when it is
  not empty, and every process on it belongs there.
\<close>

definition rq_rep :: "kernel \<Rightarrow> (ready_q \<Rightarrow> int list) \<Rightarrow> bool" where
  "rq_rep s rq \<longleftrightarrow>
     (\<forall>q. chain (nextready s) (rdy_head s q) (rq q) \<and>
          (rq q \<noteq> [] \<longrightarrow> rdy_tail s q = Some (last (rq q)))) \<and>
     (\<forall>q. \<forall>p \<in> set (rq q). isokprocn p \<and> queue_of s p = q)"

definition queues_ok :: "kernel \<Rightarrow> bool" where
  "queues_ok s \<longleftrightarrow> rq_rep s (ready_list s)"

lemma rq_repD:
  assumes "rq_rep s rq"
  shows "chain (nextready s) (rdy_head s q) (rq q)"
    and "rq q \<noteq> [] \<Longrightarrow> rdy_tail s q = Some (last (rq q))"
    and "p \<in> set (rq q) \<Longrightarrow> isokprocn p"
    and "p \<in> set (rq q) \<Longrightarrow> queue_of s p = q"
  using assms by (auto simp: rq_rep_def)

lemma rq_repI:
  assumes "\<And>q. chain (nextready s) (rdy_head s q) (rq q)"
    and "\<And>q. rq q \<noteq> [] \<Longrightarrow> rdy_tail s q = Some (last (rq q))"
    and "\<And>q p. p \<in> set (rq q) \<Longrightarrow> isokprocn p \<and> queue_of s p = q"
  shows "rq_rep s rq"
  using assms by (auto simp: rq_rep_def)

lemma card_slots: "finite {p. isokprocn p}" "card {p. isokprocn p} = ALL_SLOTS"
proof -
  have "{p. isokprocn p} = {-9..<32}" by (auto simp: isokprocn_def)
  then show "finite {p. isokprocn p}" "card {p. isokprocn p} = ALL_SLOTS" by simp_all
qed

lemma proc_chain_length:
  assumes "chain nx h xs" and "\<And>p. p \<in> set xs \<Longrightarrow> isokprocn p"
  shows "length xs \<le> ALL_SLOTS"
  using chain_length_le [OF assms(1), of "{p. isokprocn p}"] assms(2) card_slots by auto

lemma rq_length: "rq_rep s rq \<Longrightarrow> length (rq q) \<le> ALL_SLOTS"
  by (rule proc_chain_length) (auto dest: rq_repD)

lemma ready_list_eq:
  assumes "rq_rep s rq"
  shows "ready_list s = rq"
proof
  fix q
  show "ready_list s q = rq q"
    unfolding ready_list_def by (rule chain_list_eq) (use assms in \<open>auto intro: rq_repD rq_length\<close>)
qed

lemma rq_rep_queues_ok: "rq_rep s rq \<Longrightarrow> queues_ok s"
  by (simp add: queues_ok_def ready_list_eq)

lemma rq_disjoint: "rq_rep s rq \<Longrightarrow> p \<in> set (rq q) \<Longrightarrow> p \<in> set (rq q') \<Longrightarrow> q = q'"
  by (auto dest: rq_repD(4))

subsection \<open>What the scheduler leaves alone\<close>

text \<open>\<open>sched_frame s s'\<close>: only the ready queues and the choice of the running process differ.\<close>

definition sched_frame :: "kernel \<Rightarrow> kernel \<Rightarrow> bool" where
  "sched_frame s s' \<longleftrightarrow>
     (\<exists>nx h t pp bp. s' = s\<lparr>proc_tab := (\<lambda>p. (proc_tab s p)\<lparr>p_nextready := nx p\<rparr>),
        rdy_head := h, rdy_tail := t, proc_ptr := pp, bill_ptr := bp\<rparr>)"

lemma sched_frameI:
  "s' = s\<lparr>proc_tab := (\<lambda>p. (proc_tab s p)\<lparr>p_nextready := nx p\<rparr>),
        rdy_head := h, rdy_tail := t, proc_ptr := pp, bill_ptr := bp\<rparr> \<Longrightarrow> sched_frame s s'"
  unfolding sched_frame_def by blast

lemma sched_frame_proc:
  assumes "sched_frame s s'"
  shows "p_reg (proc_tab s' p) = p_reg (proc_tab s p)"
    and "p_splow (proc_tab s' p) = p_splow (proc_tab s p)"
    and "p_trap (proc_tab s' p) = p_trap (proc_tab s p)"
    and "p_shadow (proc_tab s' p) = p_shadow (proc_tab s p)"
    and "p_nr (proc_tab s' p) = p_nr (proc_tab s p)"
    and "p_int_blocked (proc_tab s' p) = p_int_blocked (proc_tab s p)"
    and "p_int_held (proc_tab s' p) = p_int_held (proc_tab s p)"
    and "p_nextheld (proc_tab s' p) = p_nextheld (proc_tab s p)"
    and "p_flags (proc_tab s' p) = p_flags (proc_tab s p)"
    and "p_map (proc_tab s' p) = p_map (proc_tab s p)"
    and "p_callerq (proc_tab s' p) = p_callerq (proc_tab s p)"
    and "p_sendlink (proc_tab s' p) = p_sendlink (proc_tab s p)"
    and "p_messbuf (proc_tab s' p) = p_messbuf (proc_tab s p)"
    and "p_getfrom (proc_tab s' p) = p_getfrom (proc_tab s p)"
    and "p_pending (proc_tab s' p) = p_pending (proc_tab s p)"
    and "p_pendcount (proc_tab s' p) = p_pendcount (proc_tab s p)"
    and "p_alarm (proc_tab s' p) = p_alarm (proc_tab s p)"
  using assms by (auto simp: sched_frame_def)

lemma sched_frame_glob:
  assumes "sched_frame s s'"
  shows "held_head s' = held_head s" "held_tail s' = held_tail s" "k_reenter s' = k_reenter s"
    "switching s' = switching s" "sig_procs s' = sig_procs s" "sys_mess s' = sys_mess s" "ram s' = ram s"
    "queue_of s' p = queue_of s p" "sendlink s' = sendlink s"
  using assms by (auto simp: sched_frame_def queue_of_def isshadowp_def fun_eq_iff)

lemmas sched_frameD = sched_frame_proc sched_frame_glob

lemma queue_of_upd [simp]:
  "(\<And>r. p_shadow (f r) = p_shadow r) \<Longrightarrow> queue_of (upd_proc d f s) p = queue_of s p"
  by (simp add: queue_of_def isshadowp_def)

lemma queue_of_more [simp]:
  "queue_of (s\<lparr>rdy_head := h\<rparr>) p = queue_of s p" "queue_of (s\<lparr>rdy_tail := h\<rparr>) p = queue_of s p"
  "queue_of (s\<lparr>proc_ptr := q\<rparr>) p = queue_of s p" "queue_of (s\<lparr>bill_ptr := q\<rparr>) p = queue_of s p"
  "queue_of (s\<lparr>ram := m\<rparr>) p = queue_of s p" "queue_of (s\<lparr>switching := b\<rparr>) p = queue_of s p"
  "queue_of (s\<lparr>sig_procs := n\<rparr>) p = queue_of s p"
  by (simp_all add: queue_of_def)

lemma sched_frame_refl [simp]: "sched_frame s s"
  by (rule sched_frameI [where nx = "nextready s" and h = "rdy_head s" and t = "rdy_tail s"
        and pp = "proc_ptr s" and bp = "bill_ptr s"]) simp

lemma sched_frame_trans: "sched_frame s t \<Longrightarrow> sched_frame t u \<Longrightarrow> sched_frame s u"
  unfolding sched_frame_def by fastforce

lemma sched_frame_next: "sched_frame s (upd_proc p (\<lambda>r. r\<lparr>p_nextready := x\<rparr>) s)"
  by (rule sched_frameI [where nx = "(nextready s)(p := x)" and h = "rdy_head s" and t = "rdy_tail s"
        and pp = "proc_ptr s" and bp = "bill_ptr s"]) (simp add: upd_proc_def fun_eq_iff)

lemma sched_frame_ptrs:
  "sched_frame s (s\<lparr>rdy_head := h\<rparr>)" "sched_frame s (s\<lparr>rdy_tail := t\<rparr>)"
  "sched_frame s (s\<lparr>proc_ptr := pp\<rparr>)" "sched_frame s (s\<lparr>bill_ptr := bp\<rparr>)"
proof -
  note I = sched_frameI [where nx = "nextready s"]
  show "sched_frame s (s\<lparr>rdy_head := h\<rparr>)"
    by (rule I [where h = h and t = "rdy_tail s" and pp = "proc_ptr s" and bp = "bill_ptr s"]) simp
  show "sched_frame s (s\<lparr>rdy_tail := t\<rparr>)"
    by (rule I [where h = "rdy_head s" and t = t and pp = "proc_ptr s" and bp = "bill_ptr s"]) simp
  show "sched_frame s (s\<lparr>proc_ptr := pp\<rparr>)"
    by (rule I [where h = "rdy_head s" and t = "rdy_tail s" and pp = pp and bp = "bill_ptr s"]) simp
  show "sched_frame s (s\<lparr>bill_ptr := bp\<rparr>)"
    by (rule I [where h = "rdy_head s" and t = "rdy_tail s" and pp = "proc_ptr s" and bp = bp]) simp
qed

lemma pick_proc_frame: "sched_frame s (pick_proc s)"
  unfolding pick_proc_def
  by (auto split: option.splits intro: sched_frame_ptrs sched_frame_trans [OF sched_frame_ptrs(3) sched_frame_ptrs(4)])

lemma pick_proc_keeps [simp]:
  "proc_tab (pick_proc s) = proc_tab s" "rdy_head (pick_proc s) = rdy_head s"
  "rdy_tail (pick_proc s) = rdy_tail s"
  by (simp_all add: pick_proc_def split: option.splits)

lemma rq_rep_pick_proc [simp]: "rq_rep (pick_proc s) rq = rq_rep s rq"
  by (simp add: rq_rep_def queue_of_def)

subsection \<open>\<open>ready\<close> appends, \<open>unready\<close> removes, \<open>sched\<close> rotates\<close>

lemma enqueue_rep:
  assumes r: "rq_rep s rq" and p: "isokprocn p" "queue_of s p = q" "p \<notin> set (rq q)"
  obtains s' where "enqueue q p s = Done s'" "rq_rep s' (rq(q := rq q @ [p]))" "sched_frame s s'"
    "proc_ptr s' = proc_ptr s" "bill_ptr s' = bill_ptr s"
proof (cases "rq q")
  case Nil
  let ?s' = "upd_proc p (\<lambda>r. r\<lparr>p_nextready := None\<rparr>)
     ((s\<lparr>rdy_head := (rdy_head s)(q := Some p)\<rparr>)\<lparr>rdy_tail := (rdy_tail s)(q := Some p)\<rparr>)"
  have "rdy_head s q = None" using rq_repD(1) [OF r, of q] Nil by simp
  then have e: "enqueue q p s = Done ?s'" by (simp add: enqueue_def)
  have f: "sched_frame s ?s'"
    by (rule sched_frame_trans [OF sched_frame_trans [OF sched_frame_ptrs(1) sched_frame_ptrs(2)] sched_frame_next])
  have "rq_rep ?s' (rq(q := rq q @ [p]))"
  proof (rule rq_repI)
    fix q'
    have "q' \<noteq> q \<Longrightarrow> p \<notin> set (rq q')" using p(2) rq_repD(4) [OF r] by auto
    then show "chain (nextready ?s') (rdy_head ?s' q') ((rq(q := rq q @ [p])) q')"
      using Nil rq_repD(1) [OF r, of q'] by simp
    show "(rq(q := rq q @ [p])) q' \<noteq> [] \<Longrightarrow> rdy_tail ?s' q' = Some (last ((rq(q := rq q @ [p])) q'))"
      using Nil rq_repD(2) [OF r, of q'] by (simp split: if_splits)
    show "x \<in> set ((rq(q := rq q @ [p])) q') \<Longrightarrow> isokprocn x \<and> queue_of ?s' x = q'" for x
      using Nil p rq_repD(3,4) [OF r, of x q'] by (simp split: if_splits)
  qed
  from that [OF e this f] show ?thesis by simp
next
  case (Cons h ts)
  let ?l = "last (rq q)"
  let ?s' = "upd_proc p (\<lambda>r. r\<lparr>p_nextready := None\<rparr>)
     ((upd_proc ?l (\<lambda>r. r\<lparr>p_nextready := Some p\<rparr>) s)\<lparr>rdy_tail := (rdy_tail s)(q := Some p)\<rparr>)"
  have "rdy_head s q = Some h" using rq_repD(1) [OF r, of q] Cons by simp
  moreover have "rdy_tail s q = Some ?l" using rq_repD(2) [OF r, of q] Cons by simp
  ultimately have e: "enqueue q p s = Done ?s'" by (simp add: enqueue_def)
  have f: "sched_frame s ?s'"
    by (rule sched_frame_trans [OF sched_frame_trans [OF sched_frame_next sched_frame_ptrs(2)] sched_frame_next])
  have lq: "?l \<in> set (rq q)" using Cons by simp
  have "rq_rep ?s' (rq(q := rq q @ [p]))"
  proof (rule rq_repI)
    fix q'
    have n: "q' \<noteq> q \<Longrightarrow> p \<notin> set (rq q')" using p(2) rq_repD(4) [OF r] by auto
    have m: "q' \<noteq> q \<Longrightarrow> ?l \<notin> set (rq q')" using lq rq_disjoint [OF r] by blast
    have "rq q \<noteq> []" using Cons by simp
    from chain_snoc [OF rq_repD(1) [OF r] this p(3)]
    have "chain ((nextready s)(?l := Some p, p := None)) (rdy_head s q) (rq q @ [p])" .
    then show "chain (nextready ?s') (rdy_head ?s' q') ((rq(q := rq q @ [p])) q')"
      using n m rq_repD(1) [OF r, of q'] by simp
    show "(rq(q := rq q @ [p])) q' \<noteq> [] \<Longrightarrow> rdy_tail ?s' q' = Some (last ((rq(q := rq q @ [p])) q'))"
      using rq_repD(2) [OF r, of q'] by (simp split: if_splits)
    show "x \<in> set ((rq(q := rq q @ [p])) q') \<Longrightarrow> isokprocn x \<and> queue_of ?s' x = q'" for x
      using p rq_repD(3,4) [OF r, of x q'] by (auto split: if_splits)
  qed
  from that [OF e this f] show ?thesis by simp
qed

lemma ready_rep:
  assumes "rq_rep s rq" and "isokprocn p" and "p \<notin> set (rq (queue_of s p))"
  obtains s' where "ready p s = Done s'"
    "rq_rep s' (rq(queue_of s p := rq (queue_of s p) @ [p]))" "sched_frame s s'"
    "proc_ptr s' = proc_ptr s" "bill_ptr s' = bill_ptr s"
  using enqueue_rep [OF assms(1,2) refl assms(3)] unfolding ready_def by blast

definition next_run :: "(ready_q \<Rightarrow> int list) \<Rightarrow> int" where
  "next_run rq =
     (if rq TASK_Q \<noteq> [] then hd (rq TASK_Q)
      else if rq SERVER_Q \<noteq> [] then hd (rq SERVER_Q)
      else if rq USER_Q \<noteq> [] then hd (rq USER_Q)
      else IDLE)"

definition next_bill :: "(ready_q \<Rightarrow> int list) \<Rightarrow> int \<Rightarrow> int" where
  "next_bill rq b = (if rq TASK_Q \<noteq> [] \<or> rq SERVER_Q \<noteq> [] then b else next_run rq)"

lemma rq_head: "rq_rep s rq \<Longrightarrow> rdy_head s q = (if rq q = [] then None else Some (hd (rq q)))"
  using rq_repD(1) [of s rq q] by (cases "rq q") auto

lemma pick_proc_choice:
  assumes "rq_rep s rq"
  shows "proc_ptr (pick_proc s) = next_run rq" "bill_ptr (pick_proc s) = next_bill rq (bill_ptr s)"
  by (simp_all add: pick_proc_def rq_head [OF assms] next_run_def next_bill_def)

lemma rq_rep_drop:
  assumes r: "rq_rep s rq"
    and same: "\<And>q'. q' \<noteq> q \<Longrightarrow> rdy_head s' q' = rdy_head s q' \<and> rdy_tail s' q' = rdy_tail s q'"
    and qs: "\<And>p. queue_of s' p = queue_of s p"
    and nx: "\<And>q' x. q' \<noteq> q \<Longrightarrow> x \<in> set (rq q') \<Longrightarrow> nextready s' x = nextready s x"
    and ch: "chain (nextready s') (rdy_head s' q) xs" "set xs \<subseteq> set (rq q)"
    and tl: "xs \<noteq> [] \<Longrightarrow> rdy_tail s' q = Some (last xs)"
  shows "rq_rep s' (rq(q := xs))"
proof (rule rq_repI)
  fix q'
  show "chain (nextready s') (rdy_head s' q') ((rq(q := xs)) q')"
  proof (cases "q' = q")
    case False
    then have "chain (nextready s') (rdy_head s q') (rq q') = chain (nextready s) (rdy_head s q') (rq q')"
      by (intro chain_cong nx) auto
    then show ?thesis using False same [OF False] rq_repD(1) [OF r, of q'] by simp
  qed (use ch in simp)
  show "(rq(q := xs)) q' \<noteq> [] \<Longrightarrow> rdy_tail s' q' = Some (last ((rq(q := xs)) q'))"
    using same [of q'] tl rq_repD(2) [OF r, of q'] by (auto split: if_splits)
  show "x \<in> set ((rq(q := xs)) q') \<Longrightarrow> isokprocn x \<and> queue_of s' x = q'" for x
    using ch(2) qs rq_repD(3,4) [OF r, of x] by (auto split: if_splits)
qed

lemma unready_absent:
  assumes r: "rq_rep s rq" and n: "p \<notin> set (rq (queue_of s p))"
  shows "unready p s = Done s"
proof (cases "rdy_head s (queue_of s p)")
  case (Some h)
  let ?q = "queue_of s p"
  have ch: "chain (nextready s) (Some h) (rq ?q)" using rq_repD(1) [OF r, of ?q] Some by simp
  then have h: "h \<noteq> p" using n by (auto simp: chain_Some_iff)
  from ch rq_length [OF r] show ?thesis
  proof (cases rule: chain_find_cases [where P = "\<lambda>x. p_nextready (proc_tab s x) = Some p" and prev = None])
    case none
    then show ?thesis using Some h by (simp add: unready_def Let_def)
  next
    case (some us y vs)
    then obtain ws where "vs = p # ws" using chain_succ [of "nextready s" "Some h" us y vs p] ch by auto
    then show ?thesis using some n by simp
  qed
qed (simp add: unready_def)

lemma unready_head:
  assumes r: "rq_rep s rq" and q: "rq (queue_of s p) = p # vs"
  obtains s1 where "unready p s = Done (if p = proc_ptr s then pick_proc s1 else s1)"
    "rq_rep s1 (rq(queue_of s p := vs))" "sched_frame s s1"
    "proc_ptr s1 = proc_ptr s" "bill_ptr s1 = bill_ptr s"
proof -
  let ?q = "queue_of s p"
  let ?s1 = "s\<lparr>rdy_head := (rdy_head s)(?q := p_nextready (proc_tab s p))\<rparr>"
  have c: "chain (nextready s) (rdy_head s ?q) (p # vs)" using rq_repD(1) [OF r, of ?q] q by simp
  then have "rdy_head s ?q = Some p" by simp
  then have u: "unready p s = Done (if p = proc_ptr s then pick_proc ?s1 else ?s1)"
    by (simp add: unready_def Let_def)
  have "rq_rep ?s1 (rq(?q := vs))"
    by (rule rq_rep_drop [OF r]) (use c q rq_repD(2) [OF r, of ?q] in auto)
  from that [OF u this sched_frame_ptrs(1)] show ?thesis by simp
qed

lemma unready_inner:
  assumes r: "rq_rep s rq" and p: "p \<in> set (rq (queue_of s p))" and h: "hd (rq (queue_of s p)) \<noteq> p"
  obtains s1 where "unready p s = Done s1" "rq_rep s1 (rq(queue_of s p := remove1 p (rq (queue_of s p))))"
    "sched_frame s s1" "proc_ptr s1 = proc_ptr s" "bill_ptr s1 = bill_ptr s"
proof -
  let ?q = "queue_of s p"
  define a where "a = hd (rq ?q)"
  have hd: "rdy_head s ?q = Some a" using rq_head [OF r, of ?q] p by (auto simp: a_def)
  then have ch: "chain (nextready s) (Some a) (rq ?q)" using rq_repD(1) [OF r, of ?q] by simp
  from ch rq_length [OF r] show ?thesis
  proof (cases rule: chain_find_cases [where P = "\<lambda>x. p_nextready (proc_tab s x) = Some p" and prev = None])
    case none
    then show ?thesis using chain_pred [OF ch p] h by (auto simp: a_def)
  next
    case (some us y vs)
    obtain ws where vs: "vs = p # ws" using chain_succ [of "nextready s" "Some a" us y vs p] ch some by auto
    let ?s1 = "upd_proc y (\<lambda>r. r\<lparr>p_nextready := p_nextready (proc_tab s p)\<rparr>) s"
    let ?s2 = "?s1\<lparr>rdy_tail := (rdy_tail s)(?q := Some (last (y # ws)))\<rparr>"
    have rq: "rq ?q = us @ y # p # ws" using some vs by simp
    then have d: "distinct (us @ y # p # ws)" using chain_distinct [OF ch] by simp
    have ch2: "chain ((nextready s)(y := nextready s p)) (Some a) (us @ y # ws)"
      using chain_unlink ch rq by fastforce
    then have nx1: "chain (nextready ?s1) (Some a) (us @ y # ws)" by simp
    then have cy: "chain (nextready ?s1) (Some y) (y # ws)" using d by (auto simp: chain_append)
    have "length (y # ws) \<le> ALL_SLOTS" using rq_length [OF r, of ?q] rq by simp
    from chain_find_end [OF cy _ this, of None] obtain pv where
      f: "chain_find (nextready ?s1) (\<lambda>z. p_nextready (proc_tab ?s1 z) = None) ALL_SLOTS None (Some y)
        = Some (pv, Some (last (y # ws)))"
      by (auto simp only: comp_apply)
    have "a \<noteq> p" using h by (simp add: a_def)
    then have e: "unready p s = Done ?s2"
      unfolding unready_def Let_def hd option.case if_False some(4) prod.case f by simp
    have y: "y \<in> set (rq ?q)" using rq by simp
    have rm: "remove1 p (rq ?q) = us @ y # ws" using d by (simp add: rq remove1_append)
    have "rq_rep ?s2 (rq(?q := us @ y # ws))"
    proof (rule rq_rep_drop [OF r])
      show "nextready ?s2 x = nextready s x" if "q' \<noteq> ?q" "x \<in> set (rq q')" for q' x
        using that y rq_disjoint [OF r, of x q' ?q] by auto
      show "chain (nextready ?s2) (rdy_head ?s2 ?q) (us @ y # ws)" using nx1 hd by simp
      show "set (us @ y # ws) \<subseteq> set (rq ?q)" using rq by auto
    qed (auto simp: rq)
    moreover have "sched_frame s ?s2" by (rule sched_frame_trans [OF sched_frame_next sched_frame_ptrs(2)])
    ultimately show ?thesis using that [OF e] rm by simp
  qed
qed

lemma unready_rep:
  assumes r: "rq_rep s rq"
  obtains s' where "unready p s = Done s'" "rq_rep s' (rq(queue_of s p := remove1 p (rq (queue_of s p))))"
    "sched_frame s s'"
    "rdy_head s (queue_of s p) = Some p \<and> p = proc_ptr s \<Longrightarrow>
       proc_ptr s' = next_run (ready_list s') \<and> bill_ptr s' = next_bill (ready_list s') (bill_ptr s)"
    "\<not> (rdy_head s (queue_of s p) = Some p \<and> p = proc_ptr s) \<Longrightarrow> proc_ptr s' = proc_ptr s \<and> bill_ptr s' = bill_ptr s"
proof -
  let ?q = "queue_of s p"
  consider (absent) "p \<notin> set (rq ?q)" | (head) vs where "rq ?q = p # vs"
    | (inner) "p \<in> set (rq ?q)" "hd (rq ?q) \<noteq> p"
    by (cases "rq ?q") auto
  then show ?thesis
  proof cases
    case absent
    have "rdy_head s ?q \<noteq> Some p" using absent rq_head [OF r, of ?q] by (cases "rq ?q") auto
    then show ?thesis using that [OF unready_absent [OF r absent]] r absent by (simp add: remove1_idem)
  next
    case (head vs)
    obtain s1 where s1: "unready p s = Done (if p = proc_ptr s then pick_proc s1 else s1)"
      "rq_rep s1 (rq(?q := vs))" "sched_frame s s1" "proc_ptr s1 = proc_ptr s" "bill_ptr s1 = bill_ptr s"
      by (rule unready_head [OF r head])
    have "rdy_head s ?q = Some p" using rq_head [OF r, of ?q] head by simp
    then show ?thesis
    proof (cases "p = proc_ptr s")
      case True
      have e: "unready p s = Done (pick_proc s1)" using s1 True by simp
      have r2: "rq_rep (pick_proc s1) (rq(?q := vs))" using s1 by simp
      show ?thesis
        by (rule that [OF e]) (use head r2 True \<open>rdy_head s ?q = Some p\<close> in
            \<open>simp_all add: ready_list_eq [OF r2] pick_proc_choice [OF s1(2)] s1(5)
               sched_frame_trans [OF s1(3) pick_proc_frame]\<close>)
    next
      case False
      show ?thesis by (rule that [of s1]) (use s1 False head in simp_all)
    qed
  next
    case inner
    obtain s1 where s1: "unready p s = Done s1" "rq_rep s1 (rq(?q := remove1 p (rq ?q)))"
      "sched_frame s s1" "proc_ptr s1 = proc_ptr s" "bill_ptr s1 = bill_ptr s"
      by (rule unready_inner [OF r inner])
    have "rdy_head s ?q \<noteq> Some p" using rq_head [OF r, of ?q] inner by auto
    with s1 show ?thesis by (intro that [OF s1(1)]) auto
  qed
qed

lemma sched_rep:
  assumes r: "rq_rep s rq" and ne: "rq USER_Q \<noteq> []"
  obtains s' where "sched s = Done s'" "rq_rep s' (rq(USER_Q := rotate1 (rq USER_Q)))" "sched_frame s s'"
    "proc_ptr s' = next_run (rq(USER_Q := rotate1 (rq USER_Q)))"
    "bill_ptr s' = next_bill (rq(USER_Q := rotate1 (rq USER_Q))) (bill_ptr s)"
proof -
  obtain h ts where q: "rq USER_Q = h # ts" using ne by (cases "rq USER_Q") auto
  define l where "l = last (h # ts)"
  have hd: "rdy_head s USER_Q = Some h" using rq_head [OF r, of USER_Q] q by simp
  have tl: "rdy_tail s USER_Q = Some l" using rq_repD(2) [OF r ne] q by (simp add: l_def)
  have ch: "chain (nextready s) (Some h) (h # ts)" using rq_repD(1) [OF r, of USER_Q] q hd by simp
  then have dd: "distinct (h # ts)" by (rule chain_distinct)
  let ?s1 = "upd_proc l (\<lambda>r. r\<lparr>p_nextready := Some h\<rparr>) s"
  let ?s3 = "(?s1\<lparr>rdy_tail := (rdy_tail s)(USER_Q := Some h)\<rparr>)
               \<lparr>rdy_head := (rdy_head s)(USER_Q := p_nextready (proc_tab ?s1 h))\<rparr>"
  let ?s4 = "upd_proc h (\<lambda>r. r\<lparr>p_nextready := None\<rparr>) ?s3"
  have e: "sched s = Done (pick_proc ?s4)" by (simp add: sched_def hd tl Let_def)
  have lq: "l \<in> set (rq USER_Q)" "h \<in> set (rq USER_Q)" by (simp_all add: q l_def)
  have "rq_rep ?s4 (rq(USER_Q := ts @ [h]))"
  proof (rule rq_rep_drop [OF r])
    show "nextready ?s4 x = nextready s x" if "q' \<noteq> USER_Q" "x \<in> set (rq q')" for q' x
      using that lq rq_disjoint [OF r, of x q' USER_Q] by auto
    show "chain (nextready ?s4) (rdy_head ?s4 USER_Q) (ts @ [h])"
    proof (cases ts)
      case Nil
      then show ?thesis by (simp add: l_def)
    next
      case (Cons u us)
      have lt: "l = last ts" "h \<noteq> l" "h \<notin> set ts" using Cons dd by (auto simp: l_def)
      have "chain (nextready s) (nextready s h) ts" using ch by simp
      from chain_snoc [OF this _ lt(3)] Cons
      have "chain ((nextready s)(l := Some h, h := None)) (nextready s h) (ts @ [h])" by (simp add: lt)
      then show ?thesis using lt(2) by simp
    qed
  qed (use q in auto)
  then have r4: "rq_rep ?s4 (rq(USER_Q := rotate1 (rq USER_Q)))" by (simp add: q)
  have f: "sched_frame s ?s4"
    by (rule sched_frame_trans [OF sched_frame_trans [OF sched_frame_trans [OF sched_frame_next
          sched_frame_ptrs(2)] sched_frame_ptrs(1)] sched_frame_next])
  have "bill_ptr ?s4 = bill_ptr s" by simp
  with pick_proc_choice [OF r4] show ?thesis
    by (intro that [OF e]) (simp_all only: rq_rep_pick_proc r4 sched_frame_trans [OF f pick_proc_frame])
qed

subsection \<open>Queues by class: the contract\<close>

text \<open>
  What the rest of the kernel relies on: a process that is put goes to the tail of the queue of its
  class, a process that is taken leaves it and the order of the others is kept.
\<close>

locale class_queues =
  fixes inv :: "'s \<Rightarrow> bool" and valid :: "'a \<Rightarrow> bool" and class_of :: "'s \<Rightarrow> 'a \<Rightarrow> 'k"
    and queue :: "'s \<Rightarrow> 'k \<Rightarrow> 'a list" and put :: "'a \<Rightarrow> 's \<Rightarrow> 's outcome" and take :: "'a \<Rightarrow> 's \<Rightarrow> 's outcome"
  assumes put_law: "inv s \<Longrightarrow> valid a \<Longrightarrow> a \<notin> set (queue s (class_of s a)) \<Longrightarrow>
      \<exists>s'. put a s = Done s' \<and> inv s' \<and> class_of s' = class_of s \<and>
           queue s' = (queue s)(class_of s a := queue s (class_of s a) @ [a])"
    and take_law: "inv s \<Longrightarrow> valid a \<Longrightarrow>
      \<exists>s'. take a s = Done s' \<and> inv s' \<and> class_of s' = class_of s \<and>
           queue s' = (queue s)(class_of s a := remove1 a (queue s (class_of s a)))"
begin

lemma put_take:
  assumes "inv s" "valid a" "a \<notin> set (queue s (class_of s a))"
  shows "\<exists>s'. and_then (put a s) (take a) = Done s' \<and> inv s' \<and> queue s' = queue s"
proof -
  obtain s1 where s1: "put a s = Done s1" "inv s1" "class_of s1 = class_of s"
    "queue s1 = (queue s)(class_of s a := queue s (class_of s a) @ [a])" using put_law [OF assms] by blast
  obtain s2 where "take a s1 = Done s2" "inv s2"
    "queue s2 = (queue s1)(class_of s1 a := remove1 a (queue s1 (class_of s1 a)))"
    using take_law [OF s1(2) assms(2)] by blast
  with s1 assms(3) show ?thesis by (intro exI [of _ s2]) (simp add: remove1_append)
qed

lemma take_put:
  assumes "inv s" "valid a" "distinct (queue s (class_of s a))"
  shows "\<exists>s'. and_then (take a s) (put a) = Done s' \<and> inv s' \<and>
    queue s' = (queue s)(class_of s a := remove1 a (queue s (class_of s a)) @ [a])"
proof -
  obtain s1 where s1: "take a s = Done s1" "inv s1" "class_of s1 = class_of s"
    "queue s1 = (queue s)(class_of s a := remove1 a (queue s (class_of s a)))" using take_law [OF assms(1,2)] by blast
  have "a \<notin> set (queue s1 (class_of s1 a))" using assms(3) by (simp add: s1 set_remove1_eq)
  from put_law [OF s1(2) assms(2) this] obtain s2 where "put a s1 = Done s2" "inv s2"
    "queue s2 = (queue s1)(class_of s1 a := queue s1 (class_of s1 a) @ [a])" by blast
  with s1 show ?thesis by (intro exI [of _ s2]) simp
qed

lemma put_all_in_order:
  assumes "inv s" "\<forall>a \<in> set xs. valid a \<and> class_of s a = k" "distinct xs" "set xs \<inter> set (queue s k) = {}"
  shows "\<exists>s'. seq_all put xs s = Done s' \<and> inv s' \<and> queue s' = (queue s)(k := queue s k @ xs)"
  using assms
proof (induction xs arbitrary: s)
  case Nil
  then show ?case by simp
next
  case (Cons x xs)
  have "valid x" "class_of s x = k" "x \<notin> set (queue s (class_of s x))" using Cons.prems by auto
  then obtain s1 where s1: "put x s = Done s1" "inv s1" "class_of s1 = class_of s"
    "queue s1 = (queue s)(k := queue s k @ [x])" using put_law [OF Cons.prems(1), of x] by auto
  have "\<exists>s'. seq_all put xs s1 = Done s' \<and> inv s' \<and> queue s' = (queue s1)(k := queue s1 k @ xs)"
    by (rule Cons.IH) (use Cons.prems s1 in auto)
  with s1 show ?case by auto
qed

end

lemma frame_queue_of: "sched_frame s s' \<Longrightarrow> queue_of s' = queue_of s"
  by (simp add: fun_eq_iff sched_frameD)

interpretation rdy: class_queues queues_ok isokprocn queue_of ready_list ready unready
proof
  fix s p
  assume ok: "queues_ok s" and p: "isokprocn p"
  have r: "rq_rep s (ready_list s)" using ok by (simp add: queues_ok_def)
  show "\<exists>s'. ready p s = Done s' \<and> queues_ok s' \<and> queue_of s' = queue_of s \<and>
      ready_list s' = (ready_list s)(queue_of s p := ready_list s (queue_of s p) @ [p])"
    if n: "p \<notin> set (ready_list s (queue_of s p))"
    by (rule ready_rep [OF r p n]) (auto simp: rq_rep_queues_ok ready_list_eq frame_queue_of)
  show "\<exists>s'. unready p s = Done s' \<and> queues_ok s' \<and> queue_of s' = queue_of s \<and>
      ready_list s' = (ready_list s)(queue_of s p := remove1 p (ready_list s (queue_of s p)))"
    by (rule unready_rep [OF r, of p]) (auto simp: rq_rep_queues_ok ready_list_eq frame_queue_of)
qed

end
