(* ===== verification/Kernel_IPC.thy ===== *)
theory Kernel_IPC
  imports Kernel_Proc
begin

section \<open>Kernel: the invariant of message passing, signals and interrupts\<close>

text \<open>
  The proofs about \<open>mini_send\<close>, \<open>mini_rec\<close>, \<open>sys_call\<close>, \<open>cause_sig\<close>, \<open>inform\<close>, \<open>interrupt\<close> and
  \<open>unhold\<close>. The caller queues and the held queue are abstracted to lists as the ready queues are in
  the theory before; \<open>ipc_ok\<close> ties queues and flags together (runnable iff on a ready queue,
  \<open>SENDING\<close> iff on one caller queue), and \<open>machine_ok\<close> adds the running process and the held queue.
\<close>

subsection \<open>The caller queues as lists\<close>

definition caller_list :: "kernel \<Rightarrow> int \<Rightarrow> int list" where
  "caller_list s p = chain_list (sendlink s) ALL_SLOTS (p_callerq (proc_tab s p))"

text \<open>
  \<open>cq_rep s cq\<close>: the caller queue of every process \<open>p\<close> is a chain of the processes \<open>cq p\<close>, no process is
  on two of them, and the processes on them are exactly those with the flag \<open>SENDING\<close>.
\<close>

definition cq_rep :: "kernel \<Rightarrow> (int \<Rightarrow> int list) \<Rightarrow> bool" where
  "cq_rep s cq \<longleftrightarrow>
     (\<forall>p. isokprocn p \<longrightarrow> chain (sendlink s) (p_callerq (proc_tab s p)) (cq p)) \<and>
     (\<forall>p x. isokprocn p \<longrightarrow> x \<in> set (cq p) \<longrightarrow> isokprocn x \<and> SENDING \<in> p_flags (proc_tab s x)) \<and>
     (\<forall>p p' x. isokprocn p \<longrightarrow> isokprocn p' \<longrightarrow> x \<in> set (cq p) \<longrightarrow> x \<in> set (cq p') \<longrightarrow> p = p') \<and>
     (\<forall>x. isokprocn x \<longrightarrow> SENDING \<in> p_flags (proc_tab s x) \<longrightarrow> (\<exists>p. isokprocn p \<and> x \<in> set (cq p)))"

lemma cq_repD:
  assumes "cq_rep s cq" and "isokprocn p"
  shows "chain (sendlink s) (p_callerq (proc_tab s p)) (cq p)"
    and "x \<in> set (cq p) \<Longrightarrow> isokprocn x"
    and "x \<in> set (cq p) \<Longrightarrow> SENDING \<in> p_flags (proc_tab s x)"
    and "isokprocn p' \<Longrightarrow> x \<in> set (cq p) \<Longrightarrow> x \<in> set (cq p') \<Longrightarrow> p = p'"
    and "SENDING \<in> p_flags (proc_tab s p) \<Longrightarrow> \<exists>d. isokprocn d \<and> p \<in> set (cq d)"
  using assms unfolding cq_rep_def by blast+

lemma cq_repI:
  assumes "\<And>p. isokprocn p \<Longrightarrow> chain (sendlink s) (p_callerq (proc_tab s p)) (cq p)"
    and "\<And>p x. isokprocn p \<Longrightarrow> x \<in> set (cq p) \<Longrightarrow> isokprocn x \<and> SENDING \<in> p_flags (proc_tab s x)"
    and "\<And>p p' x. isokprocn p \<Longrightarrow> isokprocn p' \<Longrightarrow> x \<in> set (cq p) \<Longrightarrow> x \<in> set (cq p') \<Longrightarrow> p = p'"
    and "\<And>x. isokprocn x \<Longrightarrow> SENDING \<in> p_flags (proc_tab s x) \<Longrightarrow> \<exists>p. isokprocn p \<and> x \<in> set (cq p)"
  shows "cq_rep s cq"
  unfolding cq_rep_def using assms by blast

lemma cq_length: "cq_rep s cq \<Longrightarrow> isokprocn p \<Longrightarrow> length (cq p) \<le> ALL_SLOTS"
  by (rule proc_chain_length) (auto dest: cq_repD)

lemma caller_list_eq: "cq_rep s cq \<Longrightarrow> isokprocn p \<Longrightarrow> caller_list s p = cq p"
  unfolding caller_list_def by (rule chain_list_eq) (auto intro: cq_repD cq_length)

lemma cq_rep_cong:
  assumes "\<And>p. p_callerq (proc_tab s' p) = p_callerq (proc_tab s p)"
    and "\<And>p. p_sendlink (proc_tab s' p) = p_sendlink (proc_tab s p)"
    and "\<And>p. SENDING \<in> p_flags (proc_tab s' p) \<longleftrightarrow> SENDING \<in> p_flags (proc_tab s p)"
  shows "cq_rep s' cq = cq_rep s cq"
proof -
  have "sendlink s' = sendlink s" using assms(2) by (auto simp: fun_eq_iff)
  then show ?thesis by (simp add: cq_rep_def assms(1,3))
qed

lemma rq_rep_cong:
  assumes "\<And>p. p_nextready (proc_tab s' p) = p_nextready (proc_tab s p)"
    and "\<And>p. p_shadow (proc_tab s' p) = p_shadow (proc_tab s p)"
    and "rdy_head s' = rdy_head s" "rdy_tail s' = rdy_tail s"
  shows "rq_rep s' rq = rq_rep s rq"
proof -
  have "nextready s' = nextready s" using assms(1) by (auto simp: fun_eq_iff)
  moreover have "queue_of s' p = queue_of s p" for p by (simp add: queue_of_def isshadowp_def assms(2))
  ultimately show ?thesis by (simp add: rq_rep_def assms(3,4))
qed

lemma cq_rep_frame: "sched_frame s s' \<Longrightarrow> cq_rep s' cq = cq_rep s cq"
  by (rule cq_rep_cong) (simp_all add: sched_frameD)

text \<open>\<open>link_frame s s'\<close>: only the links of the caller queues differ.\<close>

definition link_frame :: "kernel \<Rightarrow> kernel \<Rightarrow> bool" where
  "link_frame s s' \<longleftrightarrow>
     (\<exists>cq sl. s' = s\<lparr>proc_tab := (\<lambda>p. (proc_tab s p)\<lparr>p_callerq := cq p, p_sendlink := sl p\<rparr>)\<rparr>)"

lemma link_frameI:
  "s' = s\<lparr>proc_tab := (\<lambda>p. (proc_tab s p)\<lparr>p_callerq := cq p, p_sendlink := sl p\<rparr>)\<rparr> \<Longrightarrow> link_frame s s'"
  unfolding link_frame_def by blast

lemma link_frameD:
  assumes "link_frame s s'"
  shows "p_reg (proc_tab s' p) = p_reg (proc_tab s p)"
    and "p_shadow (proc_tab s' p) = p_shadow (proc_tab s p)"
    and "p_nr (proc_tab s' p) = p_nr (proc_tab s p)"
    and "p_int_blocked (proc_tab s' p) = p_int_blocked (proc_tab s p)"
    and "p_int_held (proc_tab s' p) = p_int_held (proc_tab s p)"
    and "p_nextheld (proc_tab s' p) = p_nextheld (proc_tab s p)"
    and "p_flags (proc_tab s' p) = p_flags (proc_tab s p)"
    and "p_map (proc_tab s' p) = p_map (proc_tab s p)"
    and "p_nextready (proc_tab s' p) = p_nextready (proc_tab s p)"
    and "p_messbuf (proc_tab s' p) = p_messbuf (proc_tab s p)"
    and "p_getfrom (proc_tab s' p) = p_getfrom (proc_tab s p)"
    and "p_pending (proc_tab s' p) = p_pending (proc_tab s p)"
    and "p_pendcount (proc_tab s' p) = p_pendcount (proc_tab s p)"
    and "rdy_head s' = rdy_head s" "rdy_tail s' = rdy_tail s" "proc_ptr s' = proc_ptr s" "bill_ptr s' = bill_ptr s"
    and "held_head s' = held_head s" "held_tail s' = held_tail s" "k_reenter s' = k_reenter s"
    and "switching s' = switching s" "sig_procs s' = sig_procs s" "sys_mess s' = sys_mess s" "ram s' = ram s"
    and "queue_of s' p = queue_of s p"
  using assms by (auto simp: link_frame_def queue_of_def isshadowp_def fun_eq_iff)

lemma link_frame_trans: "link_frame s t \<Longrightarrow> link_frame t u \<Longrightarrow> link_frame s u"
  unfolding link_frame_def by fastforce

lemma link_frame_sendlink: "link_frame s (upd_proc p (\<lambda>r. r\<lparr>p_sendlink := x\<rparr>) s)"
  by (rule link_frameI [where cq = "p_callerq \<circ> proc_tab s" and sl = "(sendlink s)(p := x)"])
    (simp add: upd_proc_def fun_eq_iff)

lemma link_frame_callerq: "link_frame s (upd_proc p (\<lambda>r. r\<lparr>p_callerq := x\<rparr>) s)"
  by (rule link_frameI [where cq = "(p_callerq \<circ> proc_tab s)(p := x)" and sl = "sendlink s"])
    (simp add: upd_proc_def fun_eq_iff)

lemma rq_rep_link: "link_frame s s' \<Longrightarrow> rq_rep s' rq = rq_rep s rq"
  by (rule rq_rep_cong) (simp_all add: link_frameD)

lemma cq_rep_append:
  assumes c: "cq_rep s cq" and ok: "isokprocn caller" "isokprocn dest"
    and n: "SENDING \<notin> p_flags (proc_tab s caller)"
    and fl: "\<And>x. SENDING \<in> p_flags (proc_tab s' x) \<longleftrightarrow> x = caller \<or> SENDING \<in> p_flags (proc_tab s x)"
    and ch: "\<And>p. isokprocn p \<Longrightarrow> chain (sendlink s') (p_callerq (proc_tab s' p)) ((cq(dest := cq dest @ [caller])) p)"
  shows "cq_rep s' (cq(dest := cq dest @ [caller]))" (is "cq_rep s' ?cq")
proof (rule cq_repI)
  have off: "caller \<notin> set (cq p)" if "isokprocn p" for p using cq_repD(3) [OF c that, of caller] n by auto
  fix p assume p: "isokprocn p"
  show "chain (sendlink s') (p_callerq (proc_tab s' p)) (?cq p)" using p by (rule ch)
  show "isokprocn x \<and> SENDING \<in> p_flags (proc_tab s' x)" if "x \<in> set (?cq p)" for x
    using that cq_repD(2,3) [OF c p, of x] ok by (auto simp: fl split: if_splits)
  show "p = p'" if "isokprocn p'" "x \<in> set (?cq p)" "x \<in> set (?cq p')" for p' x
    using that cq_repD(4) [OF c p, of p' x] off p by (auto split: if_splits)
  show "\<exists>d. isokprocn d \<and> p \<in> set (?cq d)" if "SENDING \<in> p_flags (proc_tab s' p)"
  proof (cases "p = caller")
    case True
    then show ?thesis using ok(2) by (intro exI [of _ dest]) simp
  next
    case False
    then have "SENDING \<in> p_flags (proc_tab s p)" using that by (simp add: fl)
    then obtain d where "isokprocn d" "p \<in> set (cq d)" using cq_repD(5) [OF c p] by blast
    then show ?thesis by (intro exI [of _ d]) auto
  qed
qed

text \<open>A process that has just got the flag \<open>SENDING\<close> is put on the tail of the queue of \<open>dest\<close>.\<close>

lemma queue_caller_rep:
  assumes c: "cq_rep s cq" and ok: "isokprocn caller" "isokprocn dest"
    and n: "SENDING \<notin> p_flags (proc_tab s caller)"
    and s0: "s0 = upd_proc caller (\<lambda>r. r\<lparr>p_flags := insert SENDING (p_flags r)\<rparr>) s"
  obtains s' where "queue_caller caller dest s0 = Done s'" "cq_rep s' (cq(dest := cq dest @ [caller]))"
    "link_frame s0 s'"
proof -
  have off: "caller \<notin> set (cq p)" if "isokprocn p" for p using cq_repD(3) [OF c that, of caller] n by auto
  have lk: "sendlink s0 = sendlink s" "\<And>p. p_callerq (proc_tab s0 p) = p_callerq (proc_tab s p)" by (simp_all add: s0)
  have ch: "chain (sendlink s0) (p_callerq (proc_tab s0 p)) (cq p)" if "isokprocn p" for p
    using cq_repD(1) [OF c that] by (simp only: lk)
  have fl: "SENDING \<in> p_flags (proc_tab s0 x) \<longleftrightarrow> x = caller \<or> SENDING \<in> p_flags (proc_tab s x)" for x by (simp add: s0)
  let ?cq = "cq(dest := cq dest @ [caller])"
  show ?thesis
  proof (cases "cq dest")
    case Nil
    let ?s' = "upd_proc caller (\<lambda>r. r\<lparr>p_sendlink := None\<rparr>) (upd_proc dest (\<lambda>r. r\<lparr>p_callerq := Some caller\<rparr>) s0)"
    have "p_callerq (proc_tab s0 dest) = None" using ch [OF ok(2)] Nil by simp
    then have e: "queue_caller caller dest s0 = Done ?s'" by (simp add: queue_caller_def)
    have "cq_rep ?s' ?cq"
    proof (rule cq_rep_append [OF c ok n])
      show "SENDING \<in> p_flags (proc_tab ?s' x) \<longleftrightarrow> x = caller \<or> SENDING \<in> p_flags (proc_tab s x)" for x
        by (simp add: fl)
      show "chain (sendlink ?s') (p_callerq (proc_tab ?s' p)) (?cq p)" if p: "isokprocn p" for p
        using ch [OF p] off [OF p] Nil by (cases "p = caller") simp_all
    qed
    from that [OF e this link_frame_trans [OF link_frame_callerq link_frame_sendlink]] show ?thesis .
  next
    case (Cons h ts)
    define l where "l = last (cq dest)"
    have ne: "cq dest \<noteq> []" using Cons by simp
    have lin: "l \<in> set (cq dest)" by (simp add: l_def ne)
    then have lc: "l \<noteq> caller" using off ok(2) by auto
    let ?s' = "upd_proc caller (\<lambda>r. r\<lparr>p_sendlink := None\<rparr>) (upd_proc l (\<lambda>r. r\<lparr>p_sendlink := Some caller\<rparr>) s0)"
    have h: "p_callerq (proc_tab s0 dest) = Some h" using ch [OF ok(2)] Cons by simp
    obtain pv where f: "chain_find (sendlink s0) (\<lambda>y. p_sendlink (proc_tab s0 y) = None) ALL_SLOTS None (Some h) = Some (pv, Some l)"
      using chain_find_end [OF ch [OF ok(2)] ne cq_length [OF c ok(2)], of None] unfolding h l_def comp_apply by blast
    have e: "queue_caller caller dest s0 = Done ?s'"
      unfolding queue_caller_def h option.case f prod.case and_then.simps by simp
    have "cq_rep ?s' ?cq"
    proof (rule cq_rep_append [OF c ok n])
      show "SENDING \<in> p_flags (proc_tab ?s' x) \<longleftrightarrow> x = caller \<or> SENDING \<in> p_flags (proc_tab s x)" for x
        by (simp add: fl)
      fix p assume p: "isokprocn p"
      have lp: "l \<notin> set (cq p)" if "p \<noteq> dest" using that lin cq_repD(4) [OF c ok(2) p, of l] by auto
      have cd: "chain ((sendlink s0)(l := Some caller, caller := None)) (p_callerq (proc_tab s0 dest)) (cq dest @ [caller])"
        using chain_snoc [OF ch [OF ok(2)] ne] off [OF ok(2)] by (simp add: l_def)
      have "sendlink ?s' = (sendlink s0)(l := Some caller, caller := None)"
        "p_callerq (proc_tab ?s' p) = p_callerq (proc_tab s0 p)" by simp_all
      then show "chain (sendlink ?s') (p_callerq (proc_tab ?s' p)) (?cq p)"
        using ch [OF p] cd off [OF p] lp by (cases "p = dest") (simp_all del: upd_proc_simps comp_fun_upd)
    qed
    from that [OF e this link_frame_trans [OF link_frame_sendlink link_frame_sendlink]] show ?thesis .
  qed
qed

subsection \<open>The invariant of message passing\<close>

text \<open>
  A process is on the ready queue of its class exactly when it is runnable (\<open>p_flags == 0\<close>);
  \<open>IDLE\<close> and \<open>HARDWARE\<close> never are.
\<close>

definition live_at :: "kernel \<Rightarrow> (ready_q \<Rightarrow> int list) \<Rightarrow> int \<Rightarrow> bool" where
  "live_at s rq p \<longleftrightarrow>
     (p \<in> set (rq (queue_of s p)) \<longleftrightarrow> p_flags (proc_tab s p) = {} \<and> \<not> isidlehardware p)"

text \<open>
  What the slots themselves must satisfy: numbers, no process that waits for anybody while it is
  still sending, signals pending are also unfinished, tasks are never stopped by anything but
  messages, MM is alive, and the kernel's own message to MM is inside
  the data segment given to \<open>HARDWARE\<close> (\<open>main\<close> makes it all of memory). \<open>sig_procs\<close> counts the
  processes with pending signals; while \<open>inform\<close> and \<open>cause_sig\<close> run it is off by \<open>e0\<close>, which is 0
  between operations.
\<close>

definition pend_set :: "kernel \<Rightarrow> int set" where
  "pend_set s = {p. isoksusern p \<and> PENDING \<in> p_flags (proc_tab s p)}"

definition slots_ok :: "int \<Rightarrow> kernel \<Rightarrow> bool" where
  "slots_ok e0 s \<longleftrightarrow>
     (\<forall>p. isokprocn p \<longrightarrow> p_nr (proc_tab s p) = p \<and>
        (RECEIVING \<in> p_flags (proc_tab s p) \<longrightarrow> p_getfrom (proc_tab s p) = ANY \<longrightarrow> SENDING \<notin> p_flags (proc_tab s p)) \<and>
        (PENDING \<in> p_flags (proc_tab s p) \<or> p_pendcount (proc_tab s p) \<noteq> 0 \<longrightarrow>
           SIG_PENDING \<in> p_flags (proc_tab s p)) \<and>
        (p < 0 \<longrightarrow> p_flags (proc_tab s p) \<subseteq> {SENDING, RECEIVING})) \<and>
     p_flags (proc_tab s IDLE) = {} \<and> p_flags (proc_tab s HARDWARE) = {} \<and>
     \<not> bad_mess_addr (proc_tab s HARDWARE) (sys_mess s) \<and>
     P_SLOT_FREE \<notin> p_flags (proc_tab s MM_PROC_NR) \<and>
     sig_procs s + e0 = int (card (pend_set s))"

definition kinv :: "int \<Rightarrow> kernel \<Rightarrow> (ready_q \<Rightarrow> int list) \<Rightarrow> (int \<Rightarrow> int list) \<Rightarrow> bool" where
  "kinv e0 s rq cq \<longleftrightarrow>
     rq_rep s rq \<and> cq_rep s cq \<and> (\<forall>p. isokprocn p \<longrightarrow> live_at s rq p) \<and> slots_ok e0 s"

definition ipc_ok :: "kernel \<Rightarrow> bool" where
  "ipc_ok s \<longleftrightarrow> kinv 0 s (ready_list s) (caller_list s)"

lemma kinvD:
  assumes "kinv e0 s rq cq"
  shows "rq_rep s rq" "cq_rep s cq" "isokprocn p \<Longrightarrow> live_at s rq p" "slots_ok e0 s"
    "isokprocn p \<Longrightarrow> p_nr (proc_tab s p) = p"
    "isidlehardware p \<Longrightarrow> p_flags (proc_tab s p) = {}"
    "isokprocn p \<Longrightarrow> p \<in> set (rq (queue_of s p)) \<longleftrightarrow> p_flags (proc_tab s p) = {} \<and> \<not> isidlehardware p"
  using assms by (auto simp: kinv_def slots_ok_def isidlehardware_def live_at_def)

lemma cq_rep_fun_cong:
  assumes "cq_rep s cq" and "\<And>p. isokprocn p \<Longrightarrow> cq' p = cq p"
  shows "cq_rep s cq'"
proof (rule cq_repI)
  note c = cq_repD [OF assms(1)]
  show "chain (sendlink s) (p_callerq (proc_tab s p)) (cq' p)" if "isokprocn p" for p
    using c(1) [OF that] assms(2) [OF that] by simp
  show "isokprocn x \<and> SENDING \<in> p_flags (proc_tab s x)" if "isokprocn p" "x \<in> set (cq' p)" for p x
    using c(2,3) [OF that(1)] that assms(2) [OF that(1)] by simp
  show "p = p'" if "isokprocn p" "isokprocn p'" "x \<in> set (cq' p)" "x \<in> set (cq' p')" for p p' x
    using c(4) [OF that(1,2)] that assms(2) [OF that(1)] assms(2) [OF that(2)] by simp
  show "\<exists>p. isokprocn p \<and> x \<in> set (cq' p)" if "isokprocn x" "SENDING \<in> p_flags (proc_tab s x)" for x
    using c(5) [OF that] assms(2) by auto
qed

lemma kinv_ipc_ok:
  assumes "kinv 0 s rq cq"
  shows "ipc_ok s"
proof -
  have "cq_rep s (caller_list s)"
    by (rule cq_rep_fun_cong [OF kinvD(2) [OF assms]]) (rule caller_list_eq [OF kinvD(2) [OF assms]])
  then show ?thesis using assms by (simp add: ipc_ok_def kinv_def ready_list_eq [of s rq])
qed

lemma slots_okD:
  assumes "slots_ok e0 s"
  shows "isokprocn p \<Longrightarrow> p_nr (proc_tab s p) = p"
    and "isokprocn p \<Longrightarrow> RECEIVING \<in> p_flags (proc_tab s p) \<Longrightarrow> p_getfrom (proc_tab s p) = ANY \<Longrightarrow>
           SENDING \<notin> p_flags (proc_tab s p)"
    and "isokprocn p \<Longrightarrow> PENDING \<in> p_flags (proc_tab s p) \<Longrightarrow> SIG_PENDING \<in> p_flags (proc_tab s p)"
    and "isokprocn p \<Longrightarrow> p_pendcount (proc_tab s p) \<noteq> 0 \<Longrightarrow> SIG_PENDING \<in> p_flags (proc_tab s p)"
    and "isidlehardware p \<Longrightarrow> p_flags (proc_tab s p) = {}"
    and "\<not> bad_mess_addr (proc_tab s HARDWARE) (sys_mess s)"
    and "sig_procs s + e0 = int (card (pend_set s))"
    and "isokprocn p \<Longrightarrow> p < 0 \<Longrightarrow> p_flags (proc_tab s p) \<subseteq> {SENDING, RECEIVING}"
    and "P_SLOT_FREE \<notin> p_flags (proc_tab s MM_PROC_NR)"
  using assms unfolding slots_ok_def isidlehardware_def by blast+

lemma slots_ok_cong:
  assumes "\<And>p. p_nr (proc_tab s' p) = p_nr (proc_tab s p)"
    and "\<And>p. p_flags (proc_tab s' p) = p_flags (proc_tab s p)"
    and "\<And>p. p_getfrom (proc_tab s' p) = p_getfrom (proc_tab s p)"
    and "\<And>p. p_pendcount (proc_tab s' p) = p_pendcount (proc_tab s p)"
    and "p_map (proc_tab s' HARDWARE) = p_map (proc_tab s HARDWARE)"
    and "sys_mess s' = sys_mess s" "sig_procs s' = sig_procs s"
  shows "slots_ok e0 s' = slots_ok e0 s"
  by (simp add: slots_ok_def assms bad_mess_addr_def pend_set_def)

lemma slots_ok_frames:
  "sched_frame s s' \<Longrightarrow> slots_ok e0 s' = slots_ok e0 s" "link_frame s s' \<Longrightarrow> slots_ok e0 s' = slots_ok e0 s"
  by (rule slots_ok_cong; simp add: sched_frameD link_frameD)+

text \<open>Changing the flags of one process, other than by \<open>PENDING\<close>.\<close>

lemma slots_ok_flags:
  assumes s: "slots_ok e0 s" and p: "\<not> isidlehardware p"
    and other: "\<And>x. x \<noteq> p \<Longrightarrow> p_flags (proc_tab s' x) = p_flags (proc_tab s x) \<and>
                   p_getfrom (proc_tab s' x) = p_getfrom (proc_tab s x) \<and>
                   p_pendcount (proc_tab s' x) = p_pendcount (proc_tab s x)"
    and nr: "\<And>x. p_nr (proc_tab s' x) = p_nr (proc_tab s x)"
    and hw: "p_map (proc_tab s' HARDWARE) = p_map (proc_tab s HARDWARE)"
    and gl: "sys_mess s' = sys_mess s" "sig_procs s' = sig_procs s"
    and rcv: "RECEIVING \<in> p_flags (proc_tab s' p) \<Longrightarrow> p_getfrom (proc_tab s' p) = ANY \<Longrightarrow> SENDING \<notin> p_flags (proc_tab s' p)"
    and pend: "PENDING \<in> p_flags (proc_tab s' p) \<longleftrightarrow> PENDING \<in> p_flags (proc_tab s p)"
    and sig: "PENDING \<in> p_flags (proc_tab s' p) \<or> p_pendcount (proc_tab s' p) \<noteq> 0 \<Longrightarrow> SIG_PENDING \<in> p_flags (proc_tab s' p)"
    and tk: "p < 0 \<Longrightarrow> p_flags (proc_tab s' p) \<subseteq> {SENDING, RECEIVING}"
    and mm: "p = MM_PROC_NR \<Longrightarrow> P_SLOT_FREE \<notin> p_flags (proc_tab s' p)"
  shows "slots_ok e0 s'"
proof -
  have ih: "IDLE \<noteq> p" "HARDWARE \<noteq> p" using p by (auto simp: isidlehardware_def)
  have "PENDING \<in> p_flags (proc_tab s' x) \<longleftrightarrow> PENDING \<in> p_flags (proc_tab s x)" for x
    using other [of x] pend by (cases "x = p") auto
  then have ps: "pend_set s' = pend_set s" by (simp add: pend_set_def)
  have "p_nr (proc_tab s' x) = x \<and>
      (RECEIVING \<in> p_flags (proc_tab s' x) \<longrightarrow> p_getfrom (proc_tab s' x) = ANY \<longrightarrow> SENDING \<notin> p_flags (proc_tab s' x)) \<and>
      (PENDING \<in> p_flags (proc_tab s' x) \<or> p_pendcount (proc_tab s' x) \<noteq> 0 \<longrightarrow>
         SIG_PENDING \<in> p_flags (proc_tab s' x)) \<and>
      (x < 0 \<longrightarrow> p_flags (proc_tab s' x) \<subseteq> {SENDING, RECEIVING})" if "isokprocn x" for x
    using slots_okD(1,2,3,4,8) [OF s that] other [of x] nr [of x] rcv sig tk by (cases "x = p") auto
  moreover have "p_flags (proc_tab s' IDLE) = {}" "p_flags (proc_tab s' HARDWARE) = {}"
    using other [OF ih(1)] other [OF ih(2)] s by (auto simp: slots_ok_def)
  moreover have "P_SLOT_FREE \<notin> p_flags (proc_tab s' MM_PROC_NR)"
    using other [of MM_PROC_NR] mm slots_okD(9) [OF s] by (cases "p = MM_PROC_NR") auto
  ultimately show ?thesis
    using s by (simp add: slots_ok_def ps gl bad_mess_addr_def hw)
qed

lemma live_at_frames:
  "sched_frame s s' \<Longrightarrow> live_at s' rq p = live_at s rq p" "link_frame s s' \<Longrightarrow> live_at s' rq p = live_at s rq p"
  by (simp_all add: live_at_def sched_frameD link_frameD)

text \<open>Waking up: the idiom \<open>if (rp->p_flags == 0) ready(rp)\<close>.\<close>

definition woken :: "kernel \<Rightarrow> int \<Rightarrow> (ready_q \<Rightarrow> int list) \<Rightarrow> ready_q \<Rightarrow> int list" where
  "woken s p rq =
     (if p_flags (proc_tab s p) = {} then rq(queue_of s p := rq (queue_of s p) @ [p]) else rq)"

lemma wake_rep:
  assumes r: "rq_rep s rq" and p: "isokprocn p" "\<not> isidlehardware p" "p \<notin> set (rq (queue_of s p))"
    and l: "\<And>x. isokprocn x \<Longrightarrow> x \<noteq> p \<Longrightarrow> live_at s rq x"
  obtains s' where "(if p_flags (proc_tab s p) = {} then ready p s else Done s) = Done s'"
    "rq_rep s' (woken s p rq)" "\<And>x. isokprocn x \<Longrightarrow> live_at s' (woken s p rq) x" "sched_frame s s'"
    "proc_ptr s' = proc_ptr s" "bill_ptr s' = bill_ptr s"
proof (cases "p_flags (proc_tab s p) = {}")
  case True
  obtain s' where s': "ready p s = Done s'" "rq_rep s' (rq(queue_of s p := rq (queue_of s p) @ [p]))"
    "sched_frame s s'" "proc_ptr s' = proc_ptr s" "bill_ptr s' = bill_ptr s"
    by (rule ready_rep [OF r p(1,3)])
  have "live_at s' (woken s p rq) x" if "isokprocn x" for x
    using l [OF that] p True by (cases "x = p") (auto simp: live_at_def woken_def sched_frameD [OF s'(3)])
  with s' True show ?thesis by (intro that [of s']) (auto simp: woken_def)
next
  case False
  have "live_at s (woken s p rq) x" if "isokprocn x" for x
    using l [OF that] p False by (cases "x = p") (auto simp: live_at_def woken_def)
  with r False show ?thesis by (intro that [of s]) (auto simp: woken_def)
qed

text \<open>Going to sleep: the idiom \<open>if (rp->p_flags == 0) unready(rp)\<close>.\<close>

definition asleep :: "kernel \<Rightarrow> int \<Rightarrow> (ready_q \<Rightarrow> int list) \<Rightarrow> ready_q \<Rightarrow> int list" where
  "asleep s p rq = rq(queue_of s p := remove1 p (rq (queue_of s p)))"

lemma asleep_sets:
  assumes "rq_rep s rq"
  shows "x \<in> set (asleep s p rq q) \<longleftrightarrow> x \<in> set (rq q) \<and> x \<noteq> p"
proof -
  have "distinct (rq (queue_of s p))" using chain_distinct [OF rq_repD(1) [OF assms]] .
  then show ?thesis using rq_repD(4) [OF assms] by (auto simp: asleep_def set_remove1_eq split: if_splits)
qed

lemma sleep_rep:
  assumes r: "rq_rep s rq" and l: "live_at s rq p"
  obtains s' where "(if p_flags (proc_tab s p) = {} then unready p s else Done s) = Done s'"
    "rq_rep s' (asleep s p rq)" "sched_frame s s'"
    "proc_ptr s' = proc_ptr s \<or> proc_ptr s' = next_run (asleep s p rq)"
    "rdy_head s (queue_of s p) = Some p \<and> p = proc_ptr s \<Longrightarrow> p_flags (proc_tab s p) = {} \<Longrightarrow>
       proc_ptr s' = next_run (asleep s p rq)"
proof (cases "p_flags (proc_tab s p) = {}")
  case True
  obtain s' where s': "unready p s = Done s'" "rq_rep s' (asleep s p rq)" "sched_frame s s'"
    "rdy_head s (queue_of s p) = Some p \<and> p = proc_ptr s \<Longrightarrow>
       proc_ptr s' = next_run (ready_list s') \<and> bill_ptr s' = next_bill (ready_list s') (bill_ptr s)"
    "\<not> (rdy_head s (queue_of s p) = Some p \<and> p = proc_ptr s) \<Longrightarrow> proc_ptr s' = proc_ptr s \<and> bill_ptr s' = bill_ptr s"
    using unready_rep [OF r, of p] unfolding asleep_def by blast
  have e: "ready_list s' = asleep s p rq" by (rule ready_list_eq [OF s'(2)])
  show ?thesis by (rule that [of s']) (use s' e True in auto)
next
  case False
  then have "asleep s p rq = rq" using l by (simp add: live_at_def asleep_def remove1_idem)
  with r False show ?thesis by (intro that [of s]) auto
qed

lemma cp_mess_keeps [simp]:
  "proc_tab (cp_mess n a x b y s) = proc_tab s" "rdy_head (cp_mess n a x b y s) = rdy_head s"
  "rdy_tail (cp_mess n a x b y s) = rdy_tail s" "proc_ptr (cp_mess n a x b y s) = proc_ptr s"
  "bill_ptr (cp_mess n a x b y s) = bill_ptr s" "sig_procs (cp_mess n a x b y s) = sig_procs s"
  "sys_mess (cp_mess n a x b y s) = sys_mess s" "held_head (cp_mess n a x b y s) = held_head s"
  "held_tail (cp_mess n a x b y s) = held_tail s" "k_reenter (cp_mess n a x b y s) = k_reenter s"
  "switching (cp_mess n a x b y s) = switching s"
  by (simp_all add: cp_mess_def Let_def)

lemma queue_of_proc_tab: "proc_tab s' = proc_tab s \<Longrightarrow> queue_of s' p = queue_of s p"
  by (simp add: queue_of_def)

lemma kinvI:
  assumes "rq_rep s rq" "cq_rep s cq" "\<And>p. isokprocn p \<Longrightarrow> live_at s rq p" "slots_ok e0 s"
  shows "kinv e0 s rq cq"
  using assms by (auto simp: kinv_def)

lemma kinv_glob:
  assumes "proc_tab s' = proc_tab s" "rdy_head s' = rdy_head s" "rdy_tail s' = rdy_tail s"
    "sys_mess s' = sys_mess s" "sig_procs s' = sig_procs s"
  shows "kinv e0 s' rq cq = kinv e0 s rq cq"
proof -
  have "rq_rep s' rq = rq_rep s rq" by (rule rq_rep_cong) (simp_all add: assms)
  moreover have "cq_rep s' cq = cq_rep s cq" by (rule cq_rep_cong) (simp_all add: assms)
  moreover have "slots_ok e0 s' = slots_ok e0 s" by (rule slots_ok_cong) (simp_all add: assms)
  moreover have "live_at s' rq p = live_at s rq p" for p
    by (simp add: live_at_def assms queue_of_proc_tab [OF assms(1)])
  ultimately show ?thesis by (simp add: kinv_def)
qed

text \<open>
  Dropping a blocking flag other than \<open>SENDING\<close> and making the process ready if it was the last one.
\<close>

lemma deblock_rep:
  assumes k: "kinv e0 s rq cq" and p: "isokprocn p" and f: "f \<in> p_flags (proc_tab s p)"
    and fx: "f \<noteq> SENDING" "f \<noteq> PENDING" "f = SIG_PENDING \<Longrightarrow> PENDING \<notin> p_flags (proc_tab s p) \<and> p_pendcount (proc_tab s p) = 0"
    and s1: "s1 = upd_proc p (\<lambda>r. r\<lparr>p_flags := p_flags r - {f}\<rparr>) s"
  obtains s' where "(if p_flags (proc_tab s1 p) = {} then ready p s1 else Done s1) = Done s'"
    "kinv e0 s' (woken s1 p rq) cq" "sched_frame s1 s'" "proc_ptr s' = proc_ptr s" "bill_ptr s' = bill_ptr s"
proof -
  have ih: "\<not> isidlehardware p" using kinvD(6) [OF k] f by auto
  have r1: "rq_rep s1 rq" using kinvD(1) [OF k] by (subst rq_rep_cong [of s1 s]) (simp_all add: s1)
  have q1: "queue_of s1 x = queue_of s x" for x by (simp add: s1)
  have off: "p \<notin> set (rq (queue_of s1 p))" using kinvD(7) [OF k p] f q1 by auto
  have l1: "live_at s1 rq x" if "isokprocn x" "x \<noteq> p" for x
    using kinvD(3) [OF k that(1)] that(2) by (simp add: live_at_def q1) (simp add: s1)
  obtain s' where s': "(if p_flags (proc_tab s1 p) = {} then ready p s1 else Done s1) = Done s'"
    "rq_rep s' (woken s1 p rq)" "\<And>x. isokprocn x \<Longrightarrow> live_at s' (woken s1 p rq) x" "sched_frame s1 s'"
    "proc_ptr s' = proc_ptr s1" "bill_ptr s' = bill_ptr s1"
    by (rule wake_rep [OF r1 p ih off l1]) auto
  have "cq_rep s1 cq" using kinvD(2) [OF k] fx(1) by (subst cq_rep_cong [of s1 s]) (simp_all add: s1)
  then have c': "cq_rep s' cq" using cq_rep_frame [OF s'(4)] by simp
  have "slots_ok e0 s1"
    by (rule slots_ok_flags [OF kinvD(4) [OF k] ih])
      (use fx slots_okD(2,3,4,8) [OF kinvD(4) [OF k] p] slots_okD(9) [OF kinvD(4) [OF k]] in \<open>auto simp: s1\<close>)
  then have "slots_ok e0 s'" using slots_ok_frames(1) [OF s'(4)] by simp
  with s' c' have "kinv e0 s' (woken s1 p rq) cq" by (intro kinvI) auto
  with s' show ?thesis by (intro that [of s']) (simp_all add: s1)
qed

text \<open>The rendezvous case of \<open>mini_send\<close>: the destination waits for this message.\<close>

lemma mini_send_deliver:
  assumes k: "kinv e0 s rq cq" and ok: "isokprocn caller" "isokprocn dest"
    and perm: "\<not> (isuserp caller \<and> \<not> isservn dest)" and live: "P_SLOT_FREE \<notin> p_flags (proc_tab s dest)"
    and addr: "\<not> bad_mess_addr (proc_tab s caller) m" and w: "waits_for (proc_tab s dest) caller"
  defines "s1 \<equiv> upd_proc dest (\<lambda>r. r\<lparr>p_flags := p_flags r - {RECEIVING}\<rparr>)
                  (cp_mess caller caller m dest (p_messbuf (proc_tab s dest)) s)"
  obtains s' where "mini_send caller dest m s = Done (OK, s')" "kinv e0 s' (woken s1 dest rq) cq"
    "sched_frame s1 s'" "proc_ptr s' = proc_ptr s" "bill_ptr s' = bill_ptr s"
proof -
  let ?s0 = "cp_mess caller caller m dest (p_messbuf (proc_tab s dest)) s"
  have k0: "kinv e0 ?s0 rq cq" using k by (subst kinv_glob [of ?s0 s]) simp_all
  have rc: "RECEIVING \<in> p_flags (proc_tab ?s0 dest)" and ns: "SENDING \<notin> p_flags (proc_tab s dest)"
    using w by (simp_all add: waits_for_def)
  obtain s' where s': "(if p_flags (proc_tab s1 dest) = {} then ready dest s1 else Done s1) = Done s'"
    "kinv e0 s' (woken s1 dest rq) cq" "sched_frame s1 s'" "proc_ptr s' = proc_ptr ?s0" "bill_ptr s' = bill_ptr ?s0"
    by (rule deblock_rep [OF k0 ok(2) rc _ _ _ s1_def [THEN meta_eq_to_obj_eq]]) auto
  have nr: "p_nr (proc_tab s caller) = caller" by (rule kinvD(5) [OF k ok(1)])
  have "mini_send caller dest m s =
      and_then (if p_flags (proc_tab s1 dest) = {} then ready dest s1 else Done s1) (\<lambda>s3. Done (OK, s3))"
    using perm ok(2) live addr ns w unfolding mini_send_def nr Let_def s1_def by auto
  then have "mini_send caller dest m s = Done (OK, s')" using s'(1) by simp
  with s' show ?thesis by (intro that [of s']) simp_all
qed

text \<open>The blocking case: the caller goes to the tail of the destination's caller queue.\<close>

lemma block_frame_kinv:
  assumes k: "kinv e0 s rq cq" and p: "isokprocn p" "\<not> isidlehardware p"
    and s1: "s1 = upd_proc p g s" and g: "\<And>r. p_flags (g r) = p_flags r" "\<And>r. p_nr (g r) = p_nr r"
      "\<And>r. p_nextready (g r) = p_nextready r" "\<And>r. p_shadow (g r) = p_shadow r"
      "\<And>r. p_callerq (g r) = p_callerq r" "\<And>r. p_sendlink (g r) = p_sendlink r" "\<And>r. p_map (g r) = p_map r"
  obtains s2 where "(if p_flags (proc_tab s1 p) = {} then unready p s1 else Done s1) = Done s2"
    "rq_rep s2 (asleep s p rq)" "cq_rep s2 cq" "sched_frame s1 s2"
    "\<And>x. isokprocn x \<Longrightarrow> x \<noteq> p \<Longrightarrow> live_at s2 (asleep s p rq) x" "p \<notin> set (asleep s p rq (queue_of s p))"
    "proc_ptr s = p \<and> rdy_head s (queue_of s p) = Some p \<Longrightarrow> p_flags (proc_tab s p) = {} \<Longrightarrow>
       proc_ptr s2 = next_run (asleep s p rq)"
    "proc_ptr s2 = proc_ptr s \<or> proc_ptr s2 = next_run (asleep s p rq)"
proof -
  have r1: "rq_rep s1 rq" using kinvD(1) [OF k] g by (subst rq_rep_cong [of s1 s]) (simp_all add: s1)
  have q1: "queue_of s1 x = queue_of s x" for x using g by (simp add: s1)
  have l1: "live_at s1 rq p" using kinvD(3) [OF k p(1)] by (simp add: live_at_def q1) (simp add: s1 g)
  have as: "asleep s1 p rq = asleep s p rq" by (simp add: asleep_def q1)
  obtain s2 where s2: "(if p_flags (proc_tab s1 p) = {} then unready p s1 else Done s1) = Done s2"
    "rq_rep s2 (asleep s p rq)" "sched_frame s1 s2"
    "rdy_head s1 (queue_of s1 p) = Some p \<and> p = proc_ptr s1 \<Longrightarrow> p_flags (proc_tab s1 p) = {} \<Longrightarrow>
       proc_ptr s2 = next_run (asleep s p rq)" "proc_ptr s2 = proc_ptr s1 \<or> proc_ptr s2 = next_run (asleep s p rq)"
    using sleep_rep [OF r1 l1] unfolding as by blast
  have "cq_rep s1 cq" using kinvD(2) [OF k] g by (subst cq_rep_cong [of s1 s]) (simp_all add: s1)
  then have c2: "cq_rep s2 cq" using cq_rep_frame [OF s2(3)] by simp
  have "live_at s2 (asleep s p rq) x" if "isokprocn x" "x \<noteq> p" for x
  proof -
    have "p_flags (proc_tab s2 x) = p_flags (proc_tab s x)" "queue_of s2 x = queue_of s x"
      using that(2) by (simp_all add: sched_frameD [OF s2(3)] q1) (simp add: s1)
    then show ?thesis using kinvD(7) [OF k that(1)] that(2) asleep_sets [OF kinvD(1) [OF k]]
      by (simp add: live_at_def)
  qed
  moreover have "p \<notin> set (asleep s p rq (queue_of s p))" using asleep_sets [OF kinvD(1) [OF k]] by simp
  ultimately show ?thesis using s2 c2 by (intro that [of s2]) (auto simp: q1, simp_all add: s1 g)
qed

lemma mini_send_block:
  assumes k: "kinv e0 s rq cq" and ok: "isokprocn caller" "isokprocn dest" and ih: "\<not> isidlehardware caller"
    and perm: "\<not> (isuserp caller \<and> \<not> isservn dest)" and live: "P_SLOT_FREE \<notin> p_flags (proc_tab s dest)"
    and addr: "\<not> bad_mess_addr (proc_tab s caller) m" and w: "\<not> waits_for (proc_tab s dest) caller"
    and dl: "dest \<notin> set (cq caller)" and run: "p_flags (proc_tab s caller) = {}"
  obtains s' where "mini_send caller dest m s = Done (OK, s')"
    "kinv e0 s' (asleep s caller rq) (cq(dest := cq dest @ [caller]))"
    "p_flags (proc_tab s' caller) = {SENDING}" "p_messbuf (proc_tab s' caller) = m" "ram s' = ram s"
    "\<And>x. x \<noteq> caller \<Longrightarrow> p_flags (proc_tab s' x) = p_flags (proc_tab s x)"
    "\<And>x. p_getfrom (proc_tab s' x) = p_getfrom (proc_tab s x)"
    "proc_ptr s = caller \<and> rdy_head s (queue_of s caller) = Some caller \<Longrightarrow>
       proc_ptr s' = next_run (asleep s caller rq)"
proof -
  let ?s1 = "upd_proc caller (\<lambda>r. r\<lparr>p_messbuf := m\<rparr>) s"
  obtain s2 where s2: "(if p_flags (proc_tab ?s1 caller) = {} then unready caller ?s1 else Done ?s1) = Done s2"
    "rq_rep s2 (asleep s caller rq)" "cq_rep s2 cq" "sched_frame ?s1 s2"
    "\<And>x. isokprocn x \<Longrightarrow> x \<noteq> caller \<Longrightarrow> live_at s2 (asleep s caller rq) x"
    "caller \<notin> set (asleep s caller rq (queue_of s caller))"
    "proc_ptr s = caller \<and> rdy_head s (queue_of s caller) = Some caller \<Longrightarrow> p_flags (proc_tab s caller) = {} \<Longrightarrow>
       proc_ptr s2 = next_run (asleep s caller rq)"
    by (rule block_frame_kinv [OF k ok(1) ih, where g = "\<lambda>r. r\<lparr>p_messbuf := m\<rparr>", OF refl]) auto
  let ?s3 = "upd_proc caller (\<lambda>r. r\<lparr>p_flags := insert SENDING (p_flags r)\<rparr>) s2"
  note F = sched_frameD [OF s2(4)]
  have f2: "p_flags (proc_tab s2 x) = p_flags (proc_tab s x)" "p_nr (proc_tab s2 x) = p_nr (proc_tab s x)"
    "p_getfrom (proc_tab s2 x) = p_getfrom (proc_tab s x)" "p_map (proc_tab s2 x) = p_map (proc_tab s x)"
    "queue_of s2 x = queue_of s x" "p_pendcount (proc_tab s2 x) = p_pendcount (proc_tab s x)" for x by (simp_all add: F)
  have ns: "SENDING \<notin> p_flags (proc_tab s2 caller)" by (simp add: f2 run)
  obtain s4 where s4: "queue_caller caller dest ?s3 = Done s4"
    "cq_rep s4 (cq(dest := cq dest @ [caller]))" "link_frame ?s3 s4"
    by (rule queue_caller_rep [OF s2(3) ok ns refl])
  note L = link_frameD [OF s4(3)]
  have nr: "p_nr (proc_tab s caller) = caller" by (rule kinvD(5) [OF k ok(1)])
  have e: "mini_send caller dest m s = Done (OK, s4)"
  proof -
    have "(if SENDING \<in> p_flags (proc_tab s dest)
        then chain_find (sendlink s) (\<lambda>x. x = dest) ALL_SLOTS None (p_callerq (proc_tab s caller))
        else Some (None, None)) \<in> range (\<lambda>v. Some (v, None))"
      using chain_find_none [OF cq_repD(1) [OF kinvD(2) [OF k] ok(1)] _ cq_length [OF kinvD(2) [OF k] ok(1)],
          of "\<lambda>x. x = dest" None] dl by auto
    then obtain v where v: "(if SENDING \<in> p_flags (proc_tab s dest)
        then chain_find (sendlink s) (\<lambda>x. x = dest) ALL_SLOTS None (p_callerq (proc_tab s caller))
        else Some (None, None)) = Some (v, None)" by blast
    show ?thesis
      unfolding mini_send_def v nr Let_def s2(1) option.case prod.case and_then.simps s4(1)
      using perm ok live addr w by auto
  qed
  have r4: "rq_rep s4 (asleep s caller rq)"
  proof -
    have "rq_rep ?s3 (asleep s caller rq)" using s2(2) by (subst rq_rep_cong [of ?s3 s2]) simp_all
    then show ?thesis using rq_rep_link [OF s4(3)] by simp
  qed
  have l4: "live_at s4 (asleep s caller rq) x" if "isokprocn x" for x
    using s2(5) [OF that] s2(6) by (cases "x = caller") (simp_all add: live_at_def L f2 run)
  have "slots_ok e0 s2"
    using kinvD(4) [OF k] by (subst slots_ok_cong [of s2 s]) (simp_all add: F)
  then have "slots_ok e0 ?s3"
    by (rule slots_ok_flags [OF _ ih])
      (use run slots_okD(4) [OF kinvD(4) [OF k] ok(1)] in \<open>auto simp: f2 run\<close>)
  then have "slots_ok e0 s4" using slots_ok_frames(2) [OF s4(3)] by simp
  with r4 s4(2) l4 have "kinv e0 s4 (asleep s caller rq) (cq(dest := cq dest @ [caller]))" by (intro kinvI) auto
  then show ?thesis
    by (intro that [OF e]) (auto simp: L F run s2(7))
qed

lemma mini_send_locked:
  assumes k: "kinv e0 s rq cq" and ok: "isokprocn caller" "isokprocn dest"
    and perm: "\<not> (isuserp caller \<and> \<not> isservn dest)" and live: "P_SLOT_FREE \<notin> p_flags (proc_tab s dest)"
    and addr: "\<not> bad_mess_addr (proc_tab s caller) m" and dl: "dest \<in> set (cq caller)"
  shows "mini_send caller dest m s = Done (ELOCKED, s)"
proof -
  note c = cq_repD [OF kinvD(2) [OF k] ok(1)]
  have sd: "SENDING \<in> p_flags (proc_tab s dest)" using c(3) dl .
  obtain us vs where "cq caller = us @ dest # vs" "dest \<notin> set us" using dl by (meson split_list_first)
  then have "chain_find (sendlink s) (\<lambda>x. x = dest) ALL_SLOTS None (p_callerq (proc_tab s caller)) =
      Some (last_opt None us, Some dest)"
    using c(1) cq_length [OF kinvD(2) [OF k] ok(1)] by (intro chain_find_some) auto
  then show ?thesis using perm ok live addr sd unfolding mini_send_def by auto
qed

text \<open>All outcomes of a send by a running process.\<close>

lemma mini_send_outcomes:
  assumes k: "kinv e0 s rq cq" and ok: "isokprocn caller" "isokprocn dest" and ih: "\<not> isidlehardware caller"
    and run: "p_flags (proc_tab s caller) = {}"
  obtains (error) n where "mini_send caller dest m s = Done (n, s)" "n \<in> {E_BAD_DEST, E_BAD_ADDR, ELOCKED}"
  | (delivered) s' rq' where "mini_send caller dest m s = Done (OK, s')" "kinv e0 s' rq' cq"
      "p_flags (proc_tab s' caller) = {}" "waits_for (proc_tab s dest) caller"
      "proc_ptr s' = proc_ptr s" "\<exists>t. rq' = woken t dest rq"
  | (blocked) s' where "mini_send caller dest m s = Done (OK, s')"
      "kinv e0 s' (asleep s caller rq) (cq(dest := cq dest @ [caller]))" "p_flags (proc_tab s' caller) = {SENDING}"
      "proc_ptr s = caller \<and> rdy_head s (queue_of s caller) = Some caller \<Longrightarrow>
         proc_ptr s' = next_run (asleep s caller rq)"
proof -
  consider (e1) "isuserp caller \<and> \<not> isservn dest" | (e2) "P_SLOT_FREE \<in> p_flags (proc_tab s dest)"
    | (e3) "bad_mess_addr (proc_tab s caller) m"
    | (ok) "\<not> (isuserp caller \<and> \<not> isservn dest)" "P_SLOT_FREE \<notin> p_flags (proc_tab s dest)"
        "\<not> bad_mess_addr (proc_tab s caller) m" by blast
  then show ?thesis
  proof cases
    case e1
    then show ?thesis by (intro error [of E_BAD_DEST]) (simp_all add: mini_send_def)
  next
    case e2
    then show ?thesis using ok by (intro error [of E_BAD_DEST]) (simp_all add: mini_send_def)
  next
    case e3
    show ?thesis
    proof (cases "isuserp caller \<and> \<not> isservn dest \<or> P_SLOT_FREE \<in> p_flags (proc_tab s dest)")
      case True
      then show ?thesis using ok by (intro error [of E_BAD_DEST]) (auto simp: mini_send_def)
    next
      case False
      then show ?thesis using ok e3 by (intro error [of E_BAD_ADDR]) (auto simp: mini_send_def)
    qed
  next
    case ok': ok
    show ?thesis
    proof (cases "waits_for (proc_tab s dest) caller")
      case True
      then have "dest \<noteq> caller" using run by (auto simp: waits_for_def)
      then show ?thesis
        using mini_send_deliver [OF k ok ok' True] delivered run True
        by (metis (no_types, lifting) cp_mess_keeps(1) fun_upd_apply sched_frame_proc(9) upd_proc_simps(1))
    next
      case False
      show ?thesis
      proof (cases "dest \<in> set (cq caller)")
        case True
        then show ?thesis using mini_send_locked [OF k ok ok' True] by (intro error) auto
      next
        case n: False
        from mini_send_block [OF k ok ih ok' False n run] blocked show ?thesis by blast
      qed
    qed
  qed
qed

lemma cq_rep_remove:
  assumes c: "cq_rep s cq" and ok: "isokprocn caller" and x: "sender \<in> set (cq caller)"
    and fl: "\<And>x. SENDING \<in> p_flags (proc_tab s' x) \<longleftrightarrow> x \<noteq> sender \<and> SENDING \<in> p_flags (proc_tab s x)"
    and ch: "\<And>p. isokprocn p \<Longrightarrow>
       chain (sendlink s') (p_callerq (proc_tab s' p)) ((cq(caller := remove1 sender (cq caller))) p)"
  shows "cq_rep s' (cq(caller := remove1 sender (cq caller)))" (is "cq_rep s' ?cq")
proof (rule cq_repI)
  have d: "distinct (cq caller)" using chain_distinct [OF cq_repD(1) [OF c ok]] .
  have off: "sender \<notin> set (?cq p)" if "isokprocn p" for p
    using d x cq_repD(4) [OF c ok that, of sender] by (cases "p = caller") (simp_all add: set_remove1_eq, blast)
  have sub: "set (?cq p) \<subseteq> set (cq p)" for p by (simp add: set_remove1_subset)
  fix p assume p: "isokprocn p"
  show "chain (sendlink s') (p_callerq (proc_tab s' p)) (?cq p)" using p by (rule ch)
  show "isokprocn y \<and> SENDING \<in> p_flags (proc_tab s' y)" if "y \<in> set (?cq p)" for y
    using that off [OF p] sub [of p] cq_repD(2,3) [OF c p, of y] by (auto simp only: fl)
  show "p = p'" if "isokprocn p'" "y \<in> set (?cq p)" "y \<in> set (?cq p')" for p' y
    using that cq_repD(4) [OF c p that(1), of y] sub [of p] sub [of p'] by blast
  show "\<exists>d. isokprocn d \<and> p \<in> set (?cq d)" if "SENDING \<in> p_flags (proc_tab s' p)"
  proof -
    have q: "p \<noteq> sender" "SENDING \<in> p_flags (proc_tab s p)" using that fl by auto
    then obtain e where "isokprocn e" "p \<in> set (cq e)" using cq_repD(5) [OF c p] by blast
    then show ?thesis using q(1) by (intro exI [of _ e]) (auto simp: in_set_remove1)
  qed
qed

lemma unlink_sender:
  assumes c: "cq_rep s cq" and ok: "isokprocn caller" and cq: "cq caller = us @ sender # vs"
    and s2: "s2 = (if us = [] then upd_proc caller (\<lambda>r. r\<lparr>p_callerq := p_sendlink (proc_tab s sender)\<rparr>) s
                   else upd_proc (last us) (\<lambda>r. r\<lparr>p_sendlink := p_sendlink (proc_tab s sender)\<rparr>) s)"
    and s3: "s3 = upd_proc sender (\<lambda>r. r\<lparr>p_flags := p_flags r - {SENDING}\<rparr>) s2"
  shows "cq_rep s3 (cq(caller := us @ vs))" and "link_frame s s2"
proof -
  note ch = cq_repD(1) [OF c]
  have d: "distinct (us @ sender # vs)" using chain_distinct [OF ch [OF ok]] cq by simp
  then have rm: "remove1 sender (cq caller) = us @ vs" by (simp add: cq remove1_append)
  show lf: "link_frame s s2" by (simp add: s2 link_frame_callerq link_frame_sendlink)
  have lk: "sendlink s3 = sendlink s2" "p_callerq (proc_tab s3 p) = p_callerq (proc_tab s2 p)" for p
    by (simp_all add: s3)
  have "cq_rep s3 (cq(caller := remove1 sender (cq caller)))"
  proof (rule cq_rep_remove [OF c ok])
    show "sender \<in> set (cq caller)" by (simp add: cq)
    show "SENDING \<in> p_flags (proc_tab s3 x) \<longleftrightarrow> x \<noteq> sender \<and> SENDING \<in> p_flags (proc_tab s x)" for x
      by (simp add: s3 link_frameD [OF lf])
    fix p assume p: "isokprocn p"
    show "chain (sendlink s3) (p_callerq (proc_tab s3 p)) ((cq(caller := remove1 sender (cq caller))) p)"
      unfolding lk rm
    proof (cases "us = []")
      case True
      then show "chain (sendlink s2) (p_callerq (proc_tab s2 p)) ((cq(caller := us @ vs)) p)"
        using ch [OF p] ch [OF ok] cq by (cases "p = caller") (auto simp: s2)
    next
      case False
      then obtain ws u where us: "us = ws @ [u]" by (meson rev_exhaust)
      have u: "u \<notin> set (cq p)" if "p \<noteq> caller" using that cq_repD(4) [OF c ok p, of u] cq us by auto
      have "chain (sendlink s) (p_callerq (proc_tab s caller)) (ws @ u # sender # vs)"
        using ch [OF ok] cq us by simp
      from chain_unlink [OF this]
      have "chain ((sendlink s)(u := sendlink s sender)) (p_callerq (proc_tab s caller)) (us @ vs)"
        by (simp add: us)
      then show "chain (sendlink s2) (p_callerq (proc_tab s2 p)) ((cq(caller := us @ vs)) p)"
        using u ch [OF p] False us by (cases "p = caller") (auto simp: s2)
    qed
  qed
  then show "cq_rep s3 (cq(caller := us @ vs))" by (simp add: rm)
qed

lemma accept_mess_rep:
  fixes m :: u32
  assumes k: "kinv e0 s rq cq" and ok: "isokprocn caller" and cq: "cq caller = us @ sender # vs"
  defines "s1 \<equiv> cp_mess sender sender (p_messbuf (proc_tab s sender)) caller m s"
  obtains s' rq' where "accept_mess caller m (last_opt None us) sender s = Done s'"
    "kinv e0 s' rq' (cq(caller := us @ vs))" "ram s' = ram s1"
    "p_flags (proc_tab s' sender) = p_flags (proc_tab s sender) - {SENDING}"
    "\<And>x. x \<noteq> sender \<Longrightarrow> p_flags (proc_tab s' x) = p_flags (proc_tab s x)"
    "rq' = (if p_flags (proc_tab s sender) = {SENDING} then rq(queue_of s sender := rq (queue_of s sender) @ [sender]) else rq)"
    "proc_ptr s' = proc_ptr s"
proof -
  have sn: "isokprocn sender" "SENDING \<in> p_flags (proc_tab s sender)"
    using cq_repD(2,3) [OF kinvD(2) [OF k] ok, of sender] by (simp_all add: cq)
  have ih: "\<not> isidlehardware sender" using kinvD(6) [OF k] sn(2) by auto
  have k1: "kinv e0 s1 rq cq" unfolding s1_def using k by (subst kinv_glob [of _ s]) simp_all
  define s2 where "s2 = (if us = [] then upd_proc caller (\<lambda>r. r\<lparr>p_callerq := p_sendlink (proc_tab s1 sender)\<rparr>) s1
                   else upd_proc (last us) (\<lambda>r. r\<lparr>p_sendlink := p_sendlink (proc_tab s1 sender)\<rparr>) s1)"
  define s3 where "s3 = upd_proc sender (\<lambda>r. r\<lparr>p_flags := p_flags r - {SENDING}\<rparr>) s2"
  note ul = unlink_sender [OF kinvD(2) [OF k1] ok cq s2_def s3_def]
  have t1: "proc_tab s1 = proc_tab s" by (simp add: s1_def)
  note L = link_frameD [OF ul(2)]
  have q3: "queue_of s3 x = queue_of s x" for x by (simp add: s3_def L queue_of_proc_tab [OF t1])
  have f3: "p_flags (proc_tab s3 x) = (if x = sender then p_flags (proc_tab s x) - {SENDING} else p_flags (proc_tab s x))" for x
    by (simp add: s3_def L t1)
  have r3: "rq_rep s3 rq"
  proof -
    have "rq_rep s2 rq" using kinvD(1) [OF k1] rq_rep_link [OF ul(2)] by simp
    then show ?thesis by (subst rq_rep_cong [of s3 s2]) (simp_all add: s3_def)
  qed
  have off: "sender \<notin> set (rq (queue_of s3 sender))" using kinvD(7) [OF k sn(1)] sn(2) q3 by auto
  have l3: "live_at s3 rq x" if "isokprocn x" "x \<noteq> sender" for x
    using kinvD(3) [OF k that(1)] that(2) by (simp add: live_at_def q3 f3)
  obtain s' where s': "(if p_flags (proc_tab s3 sender) = {} then ready sender s3 else Done s3) = Done s'"
    "rq_rep s' (woken s3 sender rq)" "\<And>x. isokprocn x \<Longrightarrow> live_at s' (woken s3 sender rq) x" "sched_frame s3 s'"
    "proc_ptr s' = proc_ptr s3"
    by (rule wake_rep [OF r3 sn(1) ih off l3]) auto
  have "p_callerq (proc_tab s1 caller) = Some (hd (cq caller))"
    using cq_repD(1) [OF kinvD(2) [OF k1] ok] by (cases us) (auto simp: cq)
  moreover have "us \<noteq> [] \<Longrightarrow> hd us \<noteq> sender"
    using chain_distinct [OF cq_repD(1) [OF kinvD(2) [OF k1] ok]] by (cases us) (auto simp: cq)
  ultimately have h: "p_callerq (proc_tab s1 caller) = Some sender \<longleftrightarrow> us = []"
    by (cases "us = []") (simp_all add: cq)
  have "accept_mess caller m (last_opt None us) sender s =
      (if p_flags (proc_tab s3 sender) = {} then ready sender s3 else Done s3)"
    unfolding accept_mess_def kinvD(5) [OF k sn(1)] s1_def [symmetric] Let_def h
    by (cases "us = []") (simp_all add: s2_def s3_def last_opt_def)
  then have e: "accept_mess caller m (last_opt None us) sender s = Done s'" using s'(1) by simp
  have "slots_ok e0 s2" using kinvD(4) [OF k1] slots_ok_frames(2) [OF ul(2)] by simp
  then have "slots_ok e0 s3"
    by (rule slots_ok_flags [OF _ ih])
      (use slots_okD(3,4,8) [OF kinvD(4) [OF k] sn(1)] slots_okD(9) [OF kinvD(4) [OF k]] in \<open>auto simp: s3_def L t1\<close>)
  then have "slots_ok e0 s'" using slots_ok_frames(1) [OF s'(4)] by simp
  moreover have "cq_rep s' (cq(caller := us @ vs))" using ul(1) cq_rep_frame [OF s'(4)] by simp
  ultimately have kk: "kinv e0 s' (woken s3 sender rq) (cq(caller := us @ vs))" using s' by (intro kinvI) auto
  have wk: "woken s3 sender rq =
      (if p_flags (proc_tab s sender) = {SENDING} then rq(queue_of s sender := rq (queue_of s sender) @ [sender]) else rq)"
    using sn(2) by (auto simp: woken_def q3 f3)
  show ?thesis
    by (rule that [OF e kk])
      (simp_all add: sched_frameD [OF s'(4)] f3 wk s'(5), simp_all add: s3_def L s1_def)
qed

text \<open>The gateways differ from the plain routines by \<open>switching\<close> only.\<close>

lemma kinv_switching [simp]: "kinv e0 (s\<lparr>switching := b\<rparr>) rq cq = kinv e0 s rq cq"
  by (rule kinv_glob) simp_all

lemma kinv_ram [simp]: "kinv e0 (s\<lparr>ram := m\<rparr>) rq cq = kinv e0 s rq cq"
  by (rule kinv_glob) simp_all

lemma kinv_pick_proc [simp]: "kinv e0 (pick_proc s) rq cq = kinv e0 s rq cq"
  by (rule kinv_glob) (simp_all add: sched_frameD [OF pick_proc_frame])

lemma kinv_lock_pick_proc [simp]: "kinv e0 (lock_pick_proc s) rq cq = kinv e0 s rq cq"
  by (simp add: lock_pick_proc_def)

lemma upd_proc_switching: "upd_proc p f (s\<lparr>switching := b\<rparr>) = (upd_proc p f s)\<lparr>switching := b\<rparr>"
  by (simp add: upd_proc_def)

lemma deblock_lock_rep:
  assumes k: "kinv e0 s rq cq" and p: "isokprocn p" and f: "f \<in> p_flags (proc_tab s p)"
    and fx: "f \<noteq> SENDING" "f \<noteq> PENDING" "f = SIG_PENDING \<Longrightarrow> PENDING \<notin> p_flags (proc_tab s p) \<and> p_pendcount (proc_tab s p) = 0"
    and s1: "s1 = upd_proc p (\<lambda>r. r\<lparr>p_flags := p_flags r - {f}\<rparr>) s"
  obtains s' where "(if p_flags (proc_tab s1 p) = {} then lock_ready p s1 else Done s1) = Done s'"
    "kinv e0 s' (woken s1 p rq) cq"
    "\<And>x. p_flags (proc_tab s' x) = p_flags (proc_tab s1 x)"
    "\<And>x. p_pendcount (proc_tab s' x) = p_pendcount (proc_tab s1 x)" "sig_procs s' = sig_procs s"
proof -
  let ?t = "s\<lparr>switching := True\<rparr>" and ?t1 = "s1\<lparr>switching := True\<rparr>"
  have t1: "?t1 = upd_proc p (\<lambda>r. r\<lparr>p_flags := p_flags r - {f}\<rparr>) ?t" by (simp add: s1 upd_proc_switching)
  obtain s' where s': "(if p_flags (proc_tab ?t1 p) = {} then ready p ?t1 else Done ?t1) = Done s'"
    "kinv e0 s' (woken ?t1 p rq) cq" "sched_frame ?t1 s'"
    by (rule deblock_rep [OF _ p _ fx(1,2) _ t1]) (use k f fx(3) in auto)
  have w: "woken ?t1 p rq = woken s1 p rq" by (simp add: woken_def)
  show ?thesis
  proof (cases "p_flags (proc_tab s1 p) = {}")
    case True
    then have "lock_ready p s1 = Done (s'\<lparr>switching := False\<rparr>)" using s'(1) by (simp add: lock_ready_def)
    then show ?thesis using s' True w
      by (intro that [of "s'\<lparr>switching := False\<rparr>"]) (simp_all add: sched_frameD [OF s'(3)], simp add: s1)
  next
    case False
    then have "kinv e0 s1 (woken s1 p rq) cq" using s' w by auto
    with False show ?thesis by (intro that [of s1]) (simp_all add: s1)
  qed
qed

lemma done_one_sig_rep:
  assumes k: "kinv e0 s rq cq" and p: "isokprocn p" and np: "PENDING \<notin> p_flags (proc_tab s p)"
  obtains s' rq' where "done_one_sig p s = Done s'" "kinv e0 s' rq' cq"
    "\<And>x. x \<noteq> p \<Longrightarrow> p_flags (proc_tab s' x) = p_flags (proc_tab s x)"
    "p_flags (proc_tab s' p) = (if p_pendcount (proc_tab s p) = 1 then p_flags (proc_tab s p) - {SIG_PENDING} else p_flags (proc_tab s p))"
    "sig_procs s' = sig_procs s"
proof (cases "p_pendcount (proc_tab s p) = 0")
  case True
  then show ?thesis using that [of s] k by (simp add: done_one_sig_def)
next
  case False
  let ?s1 = "upd_proc p (\<lambda>r. r\<lparr>p_pendcount := p_pendcount r - 1\<rparr>) s"
  have sp: "SIG_PENDING \<in> p_flags (proc_tab s p)" using slots_okD(4) [OF kinvD(4) [OF k] p] False .
  have ih: "\<not> isidlehardware p" using kinvD(6) [OF k] sp by auto
  have "rq_rep ?s1 rq" using kinvD(1) [OF k] by (subst rq_rep_cong [of ?s1 s]) simp_all
  moreover have "cq_rep ?s1 cq" using kinvD(2) [OF k] by (subst cq_rep_cong [of ?s1 s]) simp_all
  moreover have "live_at ?s1 rq x" if "isokprocn x" for x using kinvD(3) [OF k that] by (simp add: live_at_def)
  moreover have "slots_ok e0 ?s1"
    by (rule slots_ok_flags [OF kinvD(4) [OF k] ih]) (use sp slots_okD(2,8) [OF kinvD(4) [OF k] p] slots_okD(9) [OF kinvD(4) [OF k]] in auto)
  ultimately have k1: "kinv e0 ?s1 rq cq" by (intro kinvI) auto
  show ?thesis
  proof (cases "p_pendcount (proc_tab s p) = 1")
    case one: True
    let ?s2 = "upd_proc p (\<lambda>r. r\<lparr>p_flags := p_flags r - {SIG_PENDING}\<rparr>) ?s1"
    obtain s' where s': "(if p_flags (proc_tab ?s2 p) = {} then lock_ready p ?s2 else Done ?s2) = Done s'"
      "kinv e0 s' (woken ?s2 p rq) cq" "\<And>x. p_flags (proc_tab s' x) = p_flags (proc_tab ?s2 x)" "sig_procs s' = sig_procs ?s1"
      by (rule deblock_lock_rep [OF k1 p, of SIG_PENDING, OF _ _ _ _ refl]) (use sp np one in auto)
    have "done_one_sig p s = Done s'"
      using s'(1) one by (simp add: done_one_sig_def Let_def del: Diff_eq_empty_iff)
    then show ?thesis using s' one by (intro that [of s']) auto
  next
    case two: False
    then have n1: "p_pendcount (proc_tab s p) - 1 \<noteq> 0" by simp
    have "done_one_sig p s = Done ?s1" using False n1 by (simp add: done_one_sig_def)
    then show ?thesis using k1 two by (intro that [of ?s1]) auto
  qed
qed

lemma pend_set_susern: "finite (pend_set s)" "pend_set s \<subseteq> {0..NR_PROCS - 1}"
proof -
  show "pend_set s \<subseteq> {0..NR_PROCS - 1}" by (auto simp: pend_set_def isoksusern_def)
  then show "finite (pend_set s)" by (rule finite_subset) simp
qed

lemma inform_finds:
  "find (\<lambda>p. PENDING \<in> p_flags (proc_tab s p)) [0..NR_PROCS - 1] =
     (if pend_set s = {} then None else Some (Min (pend_set s)))"
proof (cases "pend_set s = {}")
  case True
  then show ?thesis by (auto simp: find_None_iff pend_set_def isoksusern_def)
next
  case False
  let ?m = "Min (pend_set s)"
  have m: "?m \<in> pend_set s" using False pend_set_susern by simp
  have le: "?m \<le> x" if "x \<in> pend_set s" for x using that pend_set_susern by simp
  have mr: "0 \<le> ?m" "?m \<le> NR_PROCS - 1" "PENDING \<in> p_flags (proc_tab s ?m)"
    using m by (auto simp: pend_set_def isoksusern_def)
  have "[0..NR_PROCS - 1] = [0..?m - 1] @ ?m # [?m + 1..NR_PROCS - 1]"
    using mr upto_split2 [of 0 ?m "NR_PROCS - 1"] upto_rec1 [of ?m "NR_PROCS - 1"]
      upto_split1 [of 0 ?m "NR_PROCS - 1"] by simp
  moreover have "find (\<lambda>p. PENDING \<in> p_flags (proc_tab s p)) [0..?m - 1] = None"
    using le mr by (fastforce simp: find_None_iff pend_set_def isoksusern_def)
  ultimately show ?thesis using mr(3) False by (simp add: find_skip)
qed


text \<open>
  \<open>inform\<close> while MM waits for any message: the first process with a pending signal is reported and
  loses \<open>PENDING\<close>, and MM is unblocked.
\<close>

lemma inform_rep:
  assumes k: "kinv 0 s rq cq" and mm: "RECEIVING \<in> p_flags (proc_tab s MM_PROC_NR)" "p_getfrom (proc_tab s MM_PROC_NR) = ANY"
    "P_SLOT_FREE \<notin> p_flags (proc_tab s MM_PROC_NR)"
  obtains (none) "pend_set s = {}" "inform s = Done s"
  | (some) s' rq' where "pend_set s \<noteq> {}" "inform s = Done s'" "kinv 0 s' rq' cq"
      "RECEIVING \<notin> p_flags (proc_tab s' MM_PROC_NR)"
      "pend_set s' = pend_set s - {Min (pend_set s)}"
proof (cases "pend_set s = {}")
  case True
  moreover have "inform s = Done s" unfolding inform_def inform_finds by (simp add: True)
  ultimately show ?thesis by (rule none)
next
  case False
  define rp where "rp = Min (pend_set s)"
  have "rp \<in> pend_set s" using False pend_set_susern by (simp add: rp_def)
  then have rp: "isokprocn rp" "PENDING \<in> p_flags (proc_tab s rp)" "isoksusern rp"
    by (auto simp: pend_set_def isoksusern_def isokprocn_def)
  have ih: "\<not> isidlehardware rp" using kinvD(6) [OF k] rp by auto
  have sigp: "SIG_PENDING \<in> p_flags (proc_tab s rp)" using slots_okD(3) [OF kinvD(4) [OF k] rp(1,2)] .
  define s1 where "s1 = s\<lparr>ram := put16 (sys_mess s + 6) (uint (p_pending (proc_tab s rp)))
                              (put16 (sys_mess s + 4) (p_nr (proc_tab s rp))
                                (put16 (sys_mess s + 2) KSIG (ram s))),
                     sig_procs := sig_procs s - 1, switching := True\<rparr>"
  have t1: "proc_tab s1 = proc_tab s" "sys_mess s1 = sys_mess s" "sig_procs s1 = sig_procs s - 1" by (simp_all add: s1_def)
  have ps1: "pend_set s1 = pend_set s" by (simp add: pend_set_def t1)
  have k1: "kinv 1 s1 rq cq"
  proof (rule kinvI)
    show "rq_rep s1 rq" using kinvD(1) [OF k] by (subst rq_rep_cong [of s1 s]) (simp_all add: s1_def)
    show "cq_rep s1 cq" using kinvD(2) [OF k] by (subst cq_rep_cong [of s1 s]) (simp_all add: s1_def)
    show "live_at s1 rq x" if "isokprocn x" for x
      using kinvD(3) [OF k that] by (simp add: live_at_def queue_of_proc_tab [OF t1(1)] t1)
    show "slots_ok 1 s1" using kinvD(4) [OF k] by (simp add: slots_ok_def ps1 t1)
  qed
  have hw: "isokprocn HARDWARE" "isokprocn MM_PROC_NR" "\<not> isuserp HARDWARE" by (simp_all add: proc_class_defs)
  have w: "waits_for (proc_tab s1 MM_PROC_NR) HARDWARE"
    using mm slots_okD(2) [OF kinvD(4) [OF k] hw(2)] by (simp add: waits_for_def t1)
  have addr: "\<not> bad_mess_addr (proc_tab s1 HARDWARE) (sys_mess s1)"
    using slots_okD(6) [OF kinvD(4) [OF k]] by (simp add: t1)
  define s1b where "s1b = upd_proc MM_PROC_NR (\<lambda>r. r\<lparr>p_flags := p_flags r - {RECEIVING}\<rparr>)
                  (cp_mess HARDWARE HARDWARE (sys_mess s1) MM_PROC_NR (p_messbuf (proc_tab s1 MM_PROC_NR)) s1)"
  obtain s2 where s2: "mini_send HARDWARE MM_PROC_NR (sys_mess s1) s1 = Done (OK, s2)"
    "kinv 1 s2 (woken s1b MM_PROC_NR rq) cq" "sched_frame s1b s2"
    by (rule mini_send_deliver [OF k1 hw(1,2) _ _ addr w]) (use hw mm t1 in \<open>auto simp: s1b_def\<close>)
  have f2: "p_flags (proc_tab s2 x) = (if x = MM_PROC_NR then p_flags (proc_tab s x) - {RECEIVING} else p_flags (proc_tab s x))"
    for x by (simp add: sched_frameD [OF s2(3)]) (simp add: s1b_def t1)
  define s3 where "s3 = upd_proc rp (\<lambda>r. r\<lparr>p_pending := 0, p_flags := p_flags r - {PENDING}\<rparr>) (s2\<lparr>switching := False\<rparr>)"
  have f3: "p_flags (proc_tab s3 x) = (if x = rp then p_flags (proc_tab s2 x) - {PENDING} else p_flags (proc_tab s2 x))"
    for x by (simp add: s3_def)
  have pend2: "pend_set s2 = pend_set s" using f2 by (auto simp: pend_set_def)
  have pend3: "pend_set s3 = pend_set s - {rp}" unfolding pend2 [symmetric] by (auto simp: pend_set_def f3)
  have k3: "kinv 0 s3 (woken s1b MM_PROC_NR rq) cq"
  proof (rule kinvI)
    show "rq_rep s3 (woken s1b MM_PROC_NR rq)" using kinvD(1) [OF s2(2)] by (subst rq_rep_cong [of s3 s2]) (simp_all add: s3_def)
    show "cq_rep s3 cq" using kinvD(2) [OF s2(2)] by (subst cq_rep_cong [of s3 s2]) (simp_all add: s3_def)
    have sg: "SIG_PENDING \<in> p_flags (proc_tab s2 rp)" using sigp by (auto simp: f2)
    have q3: "queue_of s3 x = queue_of s2 x" for x by (simp add: s3_def)
    show "live_at s3 (woken s1b MM_PROC_NR rq) x" if "isokprocn x" for x
      using kinvD(3) [OF s2(2) that] sg by (auto simp: live_at_def q3 f3)
    have sl: "slots_ok 1 s2" by (rule kinvD(4) [OF s2(2)])
    have nr: "p_nr (proc_tab s3 x) = p_nr (proc_tab s2 x)" "p_getfrom (proc_tab s3 x) = p_getfrom (proc_tab s2 x)"
      "p_pendcount (proc_tab s3 x) = p_pendcount (proc_tab s2 x)" "p_map (proc_tab s3 x) = p_map (proc_tab s2 x)" for x
      by (simp_all add: s3_def)
    have "card (pend_set s2) = Suc (card (pend_set s3))"
      using card_Suc_Diff1 [OF pend_set_susern(1) \<open>rp \<in> pend_set s\<close>] by (simp only: pend2 pend3)
    then show "slots_ok 0 s3"
      using sl sg by (simp add: slots_ok_def f3 nr bad_mess_addr_def) (auto simp: s3_def isidlehardware_def)
  qed
  have np3: "PENDING \<notin> p_flags (proc_tab s3 rp)" by (simp add: f3)
  obtain s4 rq' where s4: "(if get16 (ram s3) (sys_mess s3 + 6) = - (2 ^ (SIGSTKFLT - 1)) then done_one_sig rp s3 else Done s3) = Done s4"
    "kinv 0 s4 rq' cq" "pend_set s4 = pend_set s3" "\<And>x. p_flags (proc_tab s4 x) \<subseteq> p_flags (proc_tab s3 x)"
  proof (cases "get16 (ram s3) (sys_mess s3 + 6) = - (2 ^ (SIGSTKFLT - 1))")
    case True
    obtain s4 rq' where d: "done_one_sig rp s3 = Done s4" "kinv 0 s4 rq' cq"
      "\<And>x. x \<noteq> rp \<Longrightarrow> p_flags (proc_tab s4 x) = p_flags (proc_tab s3 x)"
      "p_flags (proc_tab s4 rp) = (if p_pendcount (proc_tab s3 rp) = 1 then p_flags (proc_tab s3 rp) - {SIG_PENDING} else p_flags (proc_tab s3 rp))"
      by (rule done_one_sig_rep [OF k3 rp(1) np3]) metis
    have fx: "p_flags (proc_tab s4 x) \<subseteq> p_flags (proc_tab s3 x) \<and>
        (PENDING \<in> p_flags (proc_tab s4 x) \<longleftrightarrow> PENDING \<in> p_flags (proc_tab s3 x))" for x
      using d(3) [of x] d(4) by (cases "x = rp") auto
    then show ?thesis using True d by (intro that [of s4 rq']) (auto simp: pend_set_def)
  next
    case False
    then show ?thesis using k3 by (intro that [of s3]) auto
  qed
  have "inform s = Done (lock_pick_proc s4)"
  proof -
    have fr: "find (\<lambda>p. PENDING \<in> p_flags (proc_tab s p)) [0..NR_PROCS - 1] = Some rp"
      unfolding inform_finds using False by (simp add: rp_def)
    have m: "lock_mini_send HARDWARE MM_PROC_NR (sys_mess s)
        (s\<lparr>ram := put16 (sys_mess s + 6) (uint (p_pending (proc_tab s rp)))
                              (put16 (sys_mess s + 4) (p_nr (proc_tab s rp))
                                (put16 (sys_mess s + 2) KSIG (ram s))),
                     sig_procs := sig_procs s - 1\<rparr>) = Done (OK, s2\<lparr>switching := False\<rparr>)"
      using s2(1) by (simp add: lock_mini_send_def s1_def)
    have g: "get16 (ram s3) (sys_mess s3 + 6) = get16 (ram s2) (sys_mess s2 + 6)" by (simp add: s3_def)
    show ?thesis
      unfolding inform_def fr option.case Let_def
      using m s4(1) unfolding g by (simp flip: s3_def split: if_splits)
  qed
  moreover have "p_flags (proc_tab (lock_pick_proc s4) x) = p_flags (proc_tab s4 x)" for x by (simp add: lock_pick_proc_def)
  moreover have "RECEIVING \<notin> p_flags (proc_tab s4 MM_PROC_NR)" using s4(4) [of MM_PROC_NR] by (auto simp: f3 f2 split: if_splits)
  ultimately show ?thesis
    using s4 False pend3 by (intro some [of "lock_pick_proc s4" rq']) (auto simp: pend_set_def rp_def)
qed

subsection \<open>The running process\<close>

text \<open>The processor runs the head of some ready queue, or \<open>IDLE\<close>.\<close>

definition cpu_ok :: "kernel \<Rightarrow> (ready_q \<Rightarrow> int list) \<Rightarrow> bool" where
  "cpu_ok s rq \<longleftrightarrow> proc_ptr s = IDLE \<or> (\<exists>q. rq q \<noteq> [] \<and> hd (rq q) = proc_ptr s)"

lemma cpu_ok_next_run: "proc_ptr s = next_run rq \<Longrightarrow> cpu_ok s rq"
  unfolding cpu_ok_def next_run_def by (metis (full_types))

lemma cpu_ok_append:
  assumes "cpu_ok s rq" and "proc_ptr s' = proc_ptr s"
  shows "cpu_ok s' (rq(q := rq q @ xs))"
proof (cases "proc_ptr s = IDLE")
  case False
  then obtain q' where "rq q' \<noteq> []" "hd (rq q') = proc_ptr s" using assms by (auto simp: cpu_ok_def)
  then have "(rq(q := rq q @ xs)) q' \<noteq> []" "hd ((rq(q := rq q @ xs)) q') = proc_ptr s'" using assms(2) by auto
  then show ?thesis unfolding cpu_ok_def by blast
qed (use assms in \<open>simp add: cpu_ok_def\<close>)

lemma cpu_ok_same: "cpu_ok s rq \<Longrightarrow> proc_ptr s' = proc_ptr s \<Longrightarrow> cpu_ok s' rq"
  by (simp add: cpu_ok_def)

lemma cpu_ok_woken: "cpu_ok s rq \<Longrightarrow> proc_ptr s' = proc_ptr s \<Longrightarrow> cpu_ok s' (woken t p rq)"
  by (simp add: woken_def cpu_ok_append cpu_ok_same)

lemma cpu_ok_head:
  assumes "rq_rep s rq" "cpu_ok s rq" "proc_ptr s = p" "p \<noteq> IDLE"
  shows "rdy_head s (queue_of s p) = Some p"
proof -
  obtain q where q: "rq q \<noteq> []" "hd (rq q) = p" using assms by (auto simp: cpu_ok_def)
  then have "queue_of s p = q" using rq_repD(4) [OF assms(1), of p q] by (metis hd_in_set)
  then show ?thesis using rq_head [OF assms(1), of q] q by simp
qed

lemma idle_idlehardware: "\<not> isidlehardware p \<Longrightarrow> p \<noteq> IDLE"
  by (simp add: isidlehardware_def)

lemma cpu_ok_pick_proc: "rq_rep s rq \<Longrightarrow> cpu_ok (lock_pick_proc s) rq"
  using pick_proc_choice(1) [of "s\<lparr>switching := True\<rparr>" rq] rq_rep_cong [of "s\<lparr>switching := True\<rparr>" s rq]
  by (intro cpu_ok_next_run) (simp add: lock_pick_proc_def)

lemma block_receive_rep:
  assumes k: "kinv 0 s rq cq" and p: "isokprocn p" "\<not> isidlehardware p"
    and f: "p_flags (proc_tab s p) = {} \<or> p_flags (proc_tab s p) = {SENDING} \<and> src \<noteq> ANY"
  obtains s' rq' where "block_receive p src m s = Done s'" "kinv 0 s' rq' cq"
    "cpu_ok s rq \<Longrightarrow> proc_ptr s = p \<or> p_flags (proc_tab s p) \<noteq> {} \<Longrightarrow> cpu_ok s' rq'"
proof -
  let ?s1 = "upd_proc p (\<lambda>r. r\<lparr>p_getfrom := src, p_messbuf := m\<rparr>) s"
  obtain s2 where s2: "(if p_flags (proc_tab ?s1 p) = {} then unready p ?s1 else Done ?s1) = Done s2"
    "rq_rep s2 (asleep s p rq)" "cq_rep s2 cq" "sched_frame ?s1 s2"
    "\<And>x. isokprocn x \<Longrightarrow> x \<noteq> p \<Longrightarrow> live_at s2 (asleep s p rq) x"
    "p \<notin> set (asleep s p rq (queue_of s p))"
    "proc_ptr s = p \<and> rdy_head s (queue_of s p) = Some p \<Longrightarrow> p_flags (proc_tab s p) = {} \<Longrightarrow>
       proc_ptr s2 = next_run (asleep s p rq)"
    by (rule block_frame_kinv [OF k p, where g = "\<lambda>r. r\<lparr>p_getfrom := src, p_messbuf := m\<rparr>", OF refl]) auto
  define s3 where "s3 = upd_proc p (\<lambda>r. r\<lparr>p_flags := insert RECEIVING (p_flags r)\<rparr>) s2"
  note F = sched_frameD [OF s2(4)]
  have f3: "p_flags (proc_tab s3 x) = (if x = p then insert RECEIVING (p_flags (proc_tab s x)) else p_flags (proc_tab s x))"
    "p_nr (proc_tab s3 x) = p_nr (proc_tab s x)" "queue_of s3 x = queue_of s x"
    "p_getfrom (proc_tab s3 x) = (if x = p then src else p_getfrom (proc_tab s x))"
    "p_pendcount (proc_tab s3 x) = p_pendcount (proc_tab s x)" "p_map (proc_tab s3 x) = p_map (proc_tab s x)" for x
    by (simp_all add: s3_def F)
  have g3: "sig_procs s3 = sig_procs s" "sys_mess s3 = sys_mess s" by (simp_all add: s3_def F)
  have q2: "queue_of s2 x = queue_of s x" for x by (simp add: F)
  have k3: "kinv 0 s3 (asleep s p rq) cq"
  proof (rule kinvI)
    show "rq_rep s3 (asleep s p rq)" using s2(2) by (subst rq_rep_cong [of s3 s2]) (simp_all add: s3_def)
    show "cq_rep s3 cq" using s2(3) by (subst cq_rep_cong [of s3 s2]) (simp_all add: s3_def)
    show "live_at s3 (asleep s p rq) x" if "isokprocn x" for x
      using s2(5) [OF that] s2(6) by (cases "x = p") (simp_all add: live_at_def f3 q2 F)
    show "slots_ok 0 s3"
      by (rule slots_ok_flags [OF kinvD(4) [OF k] p(2)])
        (use f slots_okD(4) [OF kinvD(4) [OF k] p(1)] in \<open>auto simp: f3 g3\<close>)
  qed
  have e: "block_receive p src m s =
      (if 0 < sig_procs s3 \<and> p_nr (proc_tab s3 p) = MM_PROC_NR \<and> src = ANY then inform s3 else Done s3)"
    unfolding block_receive_def Let_def s2(1) by (simp add: s3_def)
  have c3: "cpu_ok s3 (asleep s p rq)" if "cpu_ok s rq" "proc_ptr s = p \<or> p_flags (proc_tab s p) \<noteq> {}"
  proof (cases "p_flags (proc_tab s p) = {}")
    case True
    then have "proc_ptr s2 = next_run (asleep s p rq)"
      using s2(7) cpu_ok_head [OF kinvD(1) [OF k] that(1) _ idle_idlehardware [OF p(2)]] that(2) by blast
    then show ?thesis by (intro cpu_ok_next_run) (simp add: s3_def)
  next
    case False
    then have "asleep s p rq = rq" using kinvD(7) [OF k p(1)] by (simp add: asleep_def remove1_idem)
    moreover have "s2 = ?s1" using s2(1) False by simp
    ultimately show ?thesis using that(1) by (simp add: cpu_ok_def s3_def)
  qed
  show ?thesis
  proof (cases "0 < sig_procs s3 \<and> p_nr (proc_tab s3 p) = MM_PROC_NR \<and> src = ANY")
    case True
    then have pm: "p = MM_PROC_NR" using kinvD(5) [OF k p(1)] by (simp add: f3)
    have fe: "p_flags (proc_tab s p) = {}" using f True by auto
    have mm: "RECEIVING \<in> p_flags (proc_tab s3 MM_PROC_NR)" "p_getfrom (proc_tab s3 MM_PROC_NR) = ANY"
      "P_SLOT_FREE \<notin> p_flags (proc_tab s3 MM_PROC_NR)" using pm fe True by (simp_all add: f3)
    from k3 mm show ?thesis
    proof (cases rule: inform_rep)
      case none
      then show ?thesis using that [OF _ k3 c3] True e none by simp
    next
      case (some s' rq')
      have "cpu_ok s' rq'"
      proof -
        obtain t where "s' = lock_pick_proc t"
          using some(2) some(1) unfolding inform_def inform_finds
          by (auto simp: outcome_simps Let_def split: if_splits)
        then show ?thesis using some(3) cpu_ok_pick_proc kinvD(1) [of 0 t rq' cq] by auto
      qed
      then show ?thesis using that [OF _ some(3)] some True e by simp
    qed
  next
    case False
    then have "block_receive p src m s = Done s3" unfolding e by (rule if_not_P)
    then show ?thesis using that [OF _ k3 c3] by simp
  qed
qed

lemma mini_rec_rep:
  assumes k: "kinv 0 s rq cq" and p: "isokprocn p" "\<not> isidlehardware p"
    and f: "p_flags (proc_tab s p) = {} \<or> p_flags (proc_tab s p) = {SENDING} \<and> src \<noteq> ANY"
  obtains s' rq' cq' where "mini_rec p src m s = Done (OK, s')" "kinv 0 s' rq' cq'"
    "cpu_ok s rq \<Longrightarrow> proc_ptr s = p \<or> p_flags (proc_tab s p) \<noteq> {} \<Longrightarrow> cpu_ok s' rq'"
proof -
  obtain sb rqb where b: "block_receive p src m s = Done sb" "kinv 0 sb rqb cq"
    "cpu_ok s rq \<Longrightarrow> proc_ptr s = p \<or> p_flags (proc_tab s p) \<noteq> {} \<Longrightarrow> cpu_ok sb rqb"
    using block_receive_rep [OF k p f] by metis
  show ?thesis
  proof (cases "SENDING \<in> p_flags (proc_tab s p)")
    case True
    then show ?thesis using b that by (simp add: mini_rec_def)
  next
    case ns: False
    have ch: "chain (sendlink s) (p_callerq (proc_tab s p)) (cq p)" by (rule cq_repD(1) [OF kinvD(2) [OF k] p(1)])
    from ch cq_length [OF kinvD(2) [OF k] p(1)] show ?thesis
    proof (cases rule: chain_find_cases [where P = "\<lambda>x. src = ANY \<or> src = p_nr (proc_tab s x)" and prev = None])
      case none
      show ?thesis
      proof (cases "p_int_blocked (proc_tab s p) \<and> isrxhardware src")
        case True
        let ?s' = "upd_proc p (\<lambda>r. r\<lparr>p_int_blocked := False\<rparr>) (hard_int_mess m s)"
        have t: "proc_tab (hard_int_mess m s) = proc_tab s" "rdy_head (hard_int_mess m s) = rdy_head s"
          "rdy_tail (hard_int_mess m s) = rdy_tail s" "proc_ptr (hard_int_mess m s) = proc_ptr s"
          "sig_procs (hard_int_mess m s) = sig_procs s" "sys_mess (hard_int_mess m s) = sys_mess s"
          by (simp_all add: hard_int_mess_def)
        have "kinv 0 ?s' rq cq"
        proof (rule kinvI)
          show "rq_rep ?s' rq" using kinvD(1) [OF k] by (subst rq_rep_cong [of ?s' s]) (simp_all add: t)
          show "cq_rep ?s' cq" using kinvD(2) [OF k] by (subst cq_rep_cong [of ?s' s]) (simp_all add: t)
          show "slots_ok 0 ?s'" using kinvD(4) [OF k] by (subst slots_ok_cong [of ?s' s]) (simp_all add: t)
          show "live_at ?s' rq x" if "isokprocn x" for x
            using kinvD(3) [OF k that] by (simp add: live_at_def t queue_of_proc_tab [OF t(1)])
        qed
        moreover have "mini_rec p src m s = Done (OK, ?s')"
          using ns True none(2) unfolding mini_rec_def by simp
        ultimately show ?thesis by (intro that [of ?s' rq cq]) (simp_all add: cpu_ok_def t)
      next
        case False
        then have "mini_rec p src m s = Done (OK, sb)"
          using ns none(2) b(1) unfolding mini_rec_def by auto
        then show ?thesis using b that by blast
      qed
    next
      case (some us x vs)
      obtain s' rq' where a: "accept_mess p m (last_opt None us) x s = Done s'"
        "kinv 0 s' rq' (cq(p := us @ vs))"
        "rq' = (if p_flags (proc_tab s x) = {SENDING} then rq(queue_of s x := rq (queue_of s x) @ [x]) else rq)"
        "proc_ptr s' = proc_ptr s"
        using accept_mess_rep [OF k p(1) some(1), of m] by metis
      have "mini_rec p src m s = Done (OK, s')"
        using ns some(4) a(1) unfolding mini_rec_def by simp
      moreover have "cpu_ok s' rq'" if "cpu_ok s rq"
        using that a(3,4) by (simp add: cpu_ok_append cpu_ok_same)
      ultimately show ?thesis using a(2) by (intro that) auto
    qed
  qed
qed

lemma running_ok:
  assumes "kinv e0 s rq cq" "cpu_ok s rq" "proc_ptr s \<noteq> IDLE"
  shows "isokprocn (proc_ptr s)" "p_flags (proc_tab s (proc_ptr s)) = {}" "\<not> isidlehardware (proc_ptr s)"
proof -
  obtain q where q: "rq q \<noteq> []" "hd (rq q) = proc_ptr s" using assms(2,3) by (auto simp: cpu_ok_def)
  then have m: "proc_ptr s \<in> set (rq q)" by (metis hd_in_set)
  note r = rq_repD(3,4) [OF kinvD(1) [OF assms(1)] m]
  show "isokprocn (proc_ptr s)" by (rule r)
  show "p_flags (proc_tab s (proc_ptr s)) = {}" "\<not> isidlehardware (proc_ptr s)"
    using kinvD(7) [OF assms(1) r(1)] r m by auto
qed

lemma sys_call_rep:
  assumes k: "kinv 0 s rq cq" and c: "cpu_ok s rq" and run: "proc_ptr s \<noteq> IDLE"
    and dst: "odd f \<Longrightarrow> isuserp (proc_ptr s) \<or> src_dest \<noteq> ANY"
  obtains n s' rq' cq' where "sys_call f src_dest m s = Done (n, s')" "kinv 0 s' rq' cq'" "cpu_ok s' rq'"
proof -
  let ?p = "proc_ptr s"
  note res = that
  note p = running_ok [OF k c run]
  consider (bad) "\<not> isoksrc_dest src_dest" | (perm) "isoksrc_dest src_dest" "f \<noteq> 3 \<and> isuserp ?p"
    | (any) "isoksrc_dest src_dest" "\<not> (f \<noteq> 3 \<and> isuserp ?p)" "odd f" "src_dest = ANY"
    | (send) "isokprocn src_dest" "src_dest \<noteq> ANY" "\<not> (f \<noteq> 3 \<and> isuserp ?p)" "odd f"
    | (rec) "isoksrc_dest src_dest" "\<not> (f \<noteq> 3 \<and> isuserp ?p)" "even f"
    by (auto simp: isoksrc_dest_def)
  then show ?thesis
  proof cases
    case bad
    then have "sys_call f src_dest m s = Done (E_BAD_SRC, s)" by (simp add: sys_call_def)
    then show ?thesis using that k c by blast
  next
    case perm
    then have "sys_call f src_dest m s = Done (E_NO_PERM, s)" by (simp add: sys_call_def)
    then show ?thesis using that k c by blast
  next
    case any
    then have "mini_send ?p src_dest m s = Done (E_BAD_DEST, s)"
      using dst by (simp add: mini_send_def isservn_def)
    then have "sys_call f src_dest m s = Done (E_BAD_DEST, s)"
      using any by (auto simp: sys_call_def)
    then show ?thesis using that k c by blast
  next
    case send
    have e: "sys_call f src_dest m s = and_then (mini_send ?p src_dest m s)
             (\<lambda>(n, s1). if f = 1 \<or> n \<noteq> OK then Done (n, s1) else mini_rec ?p src_dest m s1)"
      using send unfolding sys_call_def isoksrc_dest_def Let_def by auto
    have fin: thesis if ms: "mini_send ?p src_dest m s = Done (OK, s1)" and k1: "kinv 0 s1 rq1 cq1"
        and f1: "p_flags (proc_tab s1 ?p) = {} \<or> p_flags (proc_tab s1 ?p) = {SENDING}"
        and c1: "cpu_ok s1 rq1" and pp: "p_flags (proc_tab s1 ?p) = {} \<Longrightarrow> proc_ptr s1 = ?p" for s1 rq1 cq1
    proof (cases "f = 1")
      case True
      then show ?thesis using e ms res [of OK s1 rq1 cq1] k1 c1 by simp
    next
      case False
      obtain s2 rq2 cq2 where r: "mini_rec ?p src_dest m s1 = Done (OK, s2)" "kinv 0 s2 rq2 cq2"
        "cpu_ok s1 rq1 \<Longrightarrow> proc_ptr s1 = ?p \<or> p_flags (proc_tab s1 ?p) \<noteq> {} \<Longrightarrow> cpu_ok s2 rq2"
        by (rule mini_rec_rep [OF k1 p(1,3), of src_dest m]) (use f1 send in auto)
      then show ?thesis using e ms False pp c1 res [of OK s2 rq2 cq2] by auto
    qed
    from k p(1) send(1) p(3,2) show ?thesis
    proof (cases rule: mini_send_outcomes [where m = m])
      case (error n)
      then show ?thesis using e that [of n s rq cq] k c by auto
    next
      case (delivered s' rq')
      then show ?thesis using fin [OF delivered(1,2)] cpu_ok_woken [OF c delivered(5)] by auto
    next
      case (blocked s')
      have "proc_ptr s' = next_run (asleep s ?p rq)"
        using blocked(4) cpu_ok_head [OF kinvD(1) [OF k] c refl run] by simp
      then show ?thesis using fin [OF blocked(1,2)] blocked(3) cpu_ok_next_run by auto
    qed
  next
    case rec
    have e: "sys_call f src_dest m s = mini_rec ?p src_dest m s"
      using rec unfolding sys_call_def Let_def by auto
    obtain s2 rq2 cq2 where r: "mini_rec ?p src_dest m s = Done (OK, s2)" "kinv 0 s2 rq2 cq2"
      "cpu_ok s rq \<Longrightarrow> proc_ptr s = ?p \<or> p_flags (proc_tab s ?p) \<noteq> {} \<Longrightarrow> cpu_ok s2 rq2"
      by (rule mini_rec_rep [OF k p(1,3), of src_dest m]) (use p in auto)
    then show ?thesis using e c that [of OK s2 rq2 cq2] by simp
  qed
qed

subsection \<open>Interrupts\<close>

lemma kinv_proc_upd:
  assumes k: "kinv e0 s rq cq"
    and g: "\<And>r. p_flags (g r) = p_flags r" "\<And>r. p_nr (g r) = p_nr r"
      "\<And>r. p_nextready (g r) = p_nextready r" "\<And>r. p_shadow (g r) = p_shadow r"
      "\<And>r. p_callerq (g r) = p_callerq r" "\<And>r. p_sendlink (g r) = p_sendlink r" "\<And>r. p_map (g r) = p_map r"
      "\<And>r. p_getfrom (g r) = p_getfrom r" "\<And>r. p_pendcount (g r) = p_pendcount r"
  shows "kinv e0 (upd_proc p g s) rq cq"
proof (rule kinvI)
  let ?s' = "upd_proc p g s"
  show "rq_rep ?s' rq" using kinvD(1) [OF k] g by (subst rq_rep_cong [of ?s' s]) simp_all
  show "cq_rep ?s' cq" using kinvD(2) [OF k] g by (subst cq_rep_cong [of ?s' s]) simp_all
  show "slots_ok e0 ?s'" using kinvD(4) [OF k] g by (subst slots_ok_cong [of ?s' s]) simp_all
  show "live_at ?s' rq x" if "isokprocn x" for x using kinvD(3) [OF k that] g by (simp add: live_at_def)
qed

lemma hold_int_rep:
  assumes k: "kinv e0 s rq cq" and h: "held_head s \<noteq> None \<Longrightarrow> held_tail s \<noteq> None"
  obtains s' where "hold_int p s = Done s'" "kinv e0 s' rq cq" "proc_ptr s' = proc_ptr s"
proof (cases "p_int_held (proc_tab s p)")
  case True
  then show ?thesis using that [of s] k by (simp add: hold_int_def)
next
  case False
  let ?s1 = "upd_proc p (\<lambda>r. r\<lparr>p_int_held := True\<rparr>) s"
  have k1: "kinv e0 ?s1 rq cq" by (rule kinv_proc_upd [OF k]) auto
  define s2 where "s2 = (case held_head s of
       Some _ \<Rightarrow> upd_proc (the (held_tail s)) (\<lambda>r. r\<lparr>p_nextheld := Some p\<rparr>) ?s1
     | None \<Rightarrow> ?s1\<lparr>held_head := Some p\<rparr>)"
  let ?s' = "upd_proc p (\<lambda>r. r\<lparr>p_nextheld := None\<rparr>) (s2\<lparr>held_tail := Some p\<rparr>)"
  have "hold_int p s = Done ?s'" using h False
    by (cases "held_head s"; cases "held_tail s") (auto simp: hold_int_def s2_def Let_def)
  moreover have "kinv e0 s2 rq cq"
  proof (cases "held_head s")
    case None
    then show ?thesis using k1 by (simp add: s2_def) (subst kinv_glob [of _ ?s1]; simp)
  next
    case (Some a)
    then show ?thesis unfolding s2_def by (simp) (rule kinv_proc_upd [OF k1]; simp)
  qed
  then have "kinv e0 (s2\<lparr>held_tail := Some p\<rparr>) rq cq" by (subst kinv_glob [of _ s2]) simp_all
  then have "kinv e0 ?s' rq cq" by (rule kinv_proc_upd) auto
  moreover have "proc_ptr ?s' = proc_ptr s" by (simp add: s2_def split: option.splits)
  ultimately show ?thesis using that by blast
qed

lemma flags_int_commute: "r\<lparr>p_int_blocked := a, p_flags := b\<rparr> = (r :: proc)\<lparr>p_flags := b, p_int_blocked := a\<rparr>"
  by (cases r) simp

lemma interrupt_rep:
  assumes k: "kinv e0 s rq cq" and t: "isokprocn t" "istaskp t" and h: "held_head s \<noteq> None \<Longrightarrow> held_tail s \<noteq> None"
  obtains s' rq' where "interrupt t s = Done s'" "kinv e0 s' rq' cq" "cpu_ok s rq \<Longrightarrow> cpu_ok s' rq'"
proof (cases "k_reenter s \<noteq> 0 \<or> switching s")
  case True
  obtain s' where "hold_int t s = Done s'" "kinv e0 s' rq cq" "proc_ptr s' = proc_ptr s"
    using hold_int_rep [OF k h] by blast
  then show ?thesis using True by (intro that [of s' rq]) (auto simp: interrupt_def cpu_ok_same)
next
  case free: False
  let ?r = "proc_tab s t"
  show ?thesis
  proof (cases "RECEIVING \<in> p_flags ?r \<and> SENDING \<notin> p_flags ?r \<and> isrxhardware (p_getfrom ?r)")
    case False
    have "kinv e0 (upd_proc t (\<lambda>r. r\<lparr>p_int_blocked := True\<rparr>) s) rq cq" by (rule kinv_proc_upd [OF k]) auto
    then show ?thesis
      using False free by (intro that [of "upd_proc t (\<lambda>r. r\<lparr>p_int_blocked := True\<rparr>) s" rq]) (auto simp: interrupt_def cpu_ok_same)
  next
    case True
    have f: "p_flags ?r = {RECEIVING}" using True slots_okD(8) [OF kinvD(4) [OF k] t(1)] t(2) by (auto simp: istaskp_def)
    define s0 where "s0 = upd_proc t (\<lambda>r. r\<lparr>p_int_blocked := False\<rparr>) (hard_int_mess (p_messbuf ?r) s)"
    have "kinv e0 (hard_int_mess (p_messbuf ?r) s) rq cq" using k by (simp add: hard_int_mess_def)
    then have k0: "kinv e0 s0 rq cq" unfolding s0_def by (rule kinv_proc_upd) auto
    define s1 where "s1 = upd_proc t (\<lambda>r. r\<lparr>p_flags := p_flags r - {RECEIVING}\<rparr>) s0"
    have f0: "p_flags (proc_tab s0 t) = {RECEIVING}" by (simp add: s0_def hard_int_mess_def f)
    obtain s' where s': "(if p_flags (proc_tab s1 t) = {} then ready t s1 else Done s1) = Done s'"
      "kinv e0 s' (woken s1 t rq) cq" "proc_ptr s' = proc_ptr s0"
      by (rule deblock_rep [OF k0 t(1) _ _ _ _ s1_def]) (use f0 in auto)
    have q: "queue_of s1 t = TASK_Q" using t(2) by (simp add: queue_of_def)
    have s1': "s1 = upd_proc t (\<lambda>r. r\<lparr>p_flags := p_flags r - {RECEIVING}, p_int_blocked := False\<rparr>)
                  (hard_int_mess (p_messbuf ?r) s)"
      by (simp add: s1_def s0_def upd_proc_def flags_int_commute)
    have "interrupt t s = enqueue TASK_Q t s1" using free True by (simp add: interrupt_def s1' Let_def)
    moreover have "p_flags (proc_tab s1 t) = {}" by (simp add: s1_def f0)
    ultimately have "interrupt t s = Done s'" using s'(1) by (simp add: ready_def q)
    moreover have "proc_ptr s' = proc_ptr s" using s'(3) by (simp add: s0_def hard_int_mess_def)
    ultimately show ?thesis using s'(2) by (intro that [of s' "woken s1 t rq"]) (auto intro: cpu_ok_woken)
  qed
qed

lemma cpu_ok_asleep:
  assumes r: "rq_rep s rq" and c: "cpu_ok s rq" and p: "p \<noteq> proc_ptr s"
  shows "cpu_ok s (asleep s p rq)"
proof (cases "proc_ptr s = IDLE")
  case False
  then obtain q where q: "rq q \<noteq> []" "hd (rq q) = proc_ptr s" using c by (auto simp: cpu_ok_def)
  then obtain ts where ts: "rq q = proc_ptr s # ts" by (cases "rq q") auto
  then have "asleep s p rq q \<noteq> []" "hd (asleep s p rq q) = proc_ptr s" using p by (auto simp: asleep_def)
  then show ?thesis by (auto simp: cpu_ok_def)
qed (simp add: cpu_ok_def)

lemma inform_cpu:
  assumes "inform s = Done s'" "kinv 0 s' rq' cq" "pend_set s \<noteq> {}"
  shows "cpu_ok s' rq'"
proof -
  obtain t where "s' = lock_pick_proc t"
    using assms(1,3) unfolding inform_def inform_finds
    by (auto simp: outcome_simps Let_def split: if_splits)
  then show ?thesis using assms(2) cpu_ok_pick_proc kinvD(1) [of 0 t rq' cq] by auto
qed

lemma cause_sig_rep:
  assumes k: "kinv 0 s rq cq" and p: "isoksusern p"
  obtains s' rq' where "cause_sig p sig s = Done s'" "kinv 0 s' rq' cq" "cpu_ok s rq \<Longrightarrow> cpu_ok s' rq'"
proof -
  let ?b = "nat (sig - 1)"
  define g where "g r = r\<lparr>p_pending := set_bit ?b (p_pending r), p_pendcount := p_pendcount r + 1\<rparr>" for r :: proc
  have g: "p_flags (g r) = p_flags r" "p_nr (g r) = p_nr r" "p_nextready (g r) = p_nextready r"
    "p_shadow (g r) = p_shadow r" "p_callerq (g r) = p_callerq r" "p_sendlink (g r) = p_sendlink r"
    "p_map (g r) = p_map r" "p_getfrom (g r) = p_getfrom r" for r by (simp_all add: g_def)
  have ok: "isokprocn p" "\<not> isidlehardware p" "0 \<le> p" using p by (auto simp: proc_class_defs)
  let ?s1 = "upd_proc p g s"
  consider (dup) "bit (p_pending (proc_tab s p)) ?b"
    | (more) "\<not> bit (p_pending (proc_tab s p)) ?b" "PENDING \<in> p_flags (proc_tab s p)"
    | (first) "\<not> bit (p_pending (proc_tab s p)) ?b" "PENDING \<notin> p_flags (proc_tab s p)" by blast
  then show ?thesis
  proof cases
    case dup
    then show ?thesis using that [of s rq] k by (simp add: cause_sig_def)
  next
    case more
    have "kinv 0 ?s1 rq cq"
    proof (rule kinvI)
      show "rq_rep ?s1 rq" using kinvD(1) [OF k] g by (subst rq_rep_cong [of ?s1 s]) simp_all
      show "cq_rep ?s1 cq" using kinvD(2) [OF k] g by (subst cq_rep_cong [of ?s1 s]) simp_all
      show "live_at ?s1 rq x" if "isokprocn x" for x using kinvD(3) [OF k that] g by (simp add: live_at_def)
      show "slots_ok 0 ?s1"
        by (rule slots_ok_flags [OF kinvD(4) [OF k] ok(2)])
          (use more slots_okD(2,3) [OF kinvD(4) [OF k] ok(1)] slots_okD(9) [OF kinvD(4) [OF k]] ok g in auto)
    qed
    moreover have "cause_sig p sig s = Done ?s1" using more by (simp add: cause_sig_def g_def Let_def)
    ultimately show ?thesis using that [of ?s1 rq] by (simp add: cpu_ok_def)
  next
    case first
    let ?t = "s\<lparr>switching := True\<rparr>" and ?t1 = "?s1\<lparr>switching := True\<rparr>"
    have kt: "kinv 0 ?t rq cq" using k by simp
    have t1: "?t1 = upd_proc p g ?t" by (simp add: upd_proc_switching)
    obtain s2 where s2: "(if p_flags (proc_tab ?t1 p) = {} then unready p ?t1 else Done ?t1) = Done s2"
      "rq_rep s2 (asleep ?t p rq)" "cq_rep s2 cq" "sched_frame ?t1 s2"
      "\<And>x. isokprocn x \<Longrightarrow> x \<noteq> p \<Longrightarrow> live_at s2 (asleep ?t p rq) x" "p \<notin> set (asleep ?t p rq (queue_of ?t p))"
      "proc_ptr ?t = p \<and> rdy_head ?t (queue_of ?t p) = Some p \<Longrightarrow> p_flags (proc_tab ?t p) = {} \<Longrightarrow>
         proc_ptr s2 = next_run (asleep ?t p rq)"
      "proc_ptr s2 = proc_ptr ?t \<or> proc_ptr s2 = next_run (asleep ?t p rq)"
      by (rule block_frame_kinv [OF kt ok(1,2) t1]) (auto simp: g)
    have as: "asleep ?t p rq = asleep s p rq" by (simp add: asleep_def)
    define u where "u = s2\<lparr>switching := (if p_flags (proc_tab s p) = {} then False else switching s)\<rparr>"
    have lu: "(if p_flags (proc_tab s p) = {} then lock_unready p ?s1 else Done ?s1) = Done u"
    proof (cases "p_flags (proc_tab s p) = {}")
      case True
      then show ?thesis using s2(1) by (simp add: lock_unready_def u_def g)
    next
      case False
      then have "s2 = ?t1" using s2(1) by (simp add: g)
      then show ?thesis using False by (simp add: u_def upd_proc_def)
    qed
    define s3 where "s3 = (upd_proc p (\<lambda>r. r\<lparr>p_flags := insert PENDING (insert SIG_PENDING (p_flags r))\<rparr>) u)
                            \<lparr>sig_procs := sig_procs u + 1\<rparr>"
    note F = sched_frameD [OF s2(4)]
    have f3: "p_flags (proc_tab s3 x) = (if x = p then insert PENDING (insert SIG_PENDING (p_flags (proc_tab s x))) else p_flags (proc_tab s x))"
      "p_nr (proc_tab s3 x) = p_nr (proc_tab s x)" "queue_of s3 x = queue_of s x"
      "p_getfrom (proc_tab s3 x) = p_getfrom (proc_tab s x)" "p_map (proc_tab s3 x) = p_map (proc_tab s x)" for x
      by (simp_all add: s3_def u_def F g)
    have pc: "x \<noteq> p \<Longrightarrow> p_pendcount (proc_tab s3 x) = p_pendcount (proc_tab s x)" for x by (simp add: s3_def u_def F)
    have g3: "sig_procs s3 = sig_procs s + 1" "sys_mess s3 = sys_mess s" by (simp_all add: s3_def u_def F)
    have q2: "queue_of s2 x = queue_of s x" "p_flags (proc_tab s2 x) = p_flags (proc_tab s x)" for x by (simp_all add: F g)
    have pend: "pend_set s3 = insert p (pend_set s)" using p by (auto simp: pend_set_def f3 split: if_splits)
    have k3: "kinv 0 s3 (asleep s p rq) cq"
    proof (rule kinvI)
      show "rq_rep s3 (asleep s p rq)" using s2(2) unfolding as by (subst rq_rep_cong [of s3 s2]) (simp_all add: s3_def u_def)
      show "cq_rep s3 cq" using s2(3) by (subst cq_rep_cong [of s3 s2]) (simp_all add: s3_def u_def)
      show "live_at s3 (asleep s p rq) x" if "isokprocn x" for x
        using s2(5) [OF that] s2(6) unfolding as by (cases "x = p") (simp_all add: live_at_def f3 q2)
      have "p \<notin> pend_set s" using first by (simp add: pend_set_def)
      then have "int (card (pend_set s3)) = sig_procs s3"
        using slots_okD(7) [OF kinvD(4) [OF k]] pend_set_susern(1) by (simp add: pend g3)
      then show "slots_ok 0 s3"
        using kinvD(4) [OF k] ok pc unfolding slots_ok_def f3 g3 bad_mess_addr_def
        by (auto simp: isidlehardware_def)
    qed
    have c3: "cpu_ok s3 (asleep s p rq)" if c: "cpu_ok s rq"
    proof (cases "p = proc_ptr s")
      case True
      have ne: "proc_ptr s \<noteq> IDLE" using ok(2) True by (simp add: isidlehardware_def)
      from running_ok(2) [OF k c ne] True have fe: "p_flags (proc_tab s p) = {}" by simp
      have "rdy_head s (queue_of s p) = Some p"
        using cpu_ok_head [OF kinvD(1) [OF k] c] True ne by simp
      then have "proc_ptr s2 = next_run (asleep s p rq)" using s2(7) True fe by (simp add: asleep_def)
      then show ?thesis by (intro cpu_ok_next_run) (simp add: s3_def u_def)
    next
      case False
      from s2(8) show ?thesis
      proof
        assume "proc_ptr s2 = proc_ptr ?t"
        then show ?thesis
          by (intro cpu_ok_same [OF cpu_ok_asleep [OF kinvD(1) [OF k] c False]]) (simp add: s3_def u_def)
      next
        assume "proc_ptr s2 = next_run (asleep ?t p rq)"
        then show ?thesis by (intro cpu_ok_next_run) (simp add: s3_def u_def as)
      qed
    qed
    have e: "cause_sig p sig s =
       (if RECEIVING \<notin> p_flags (proc_tab s3 MM_PROC_NR) \<or> p_getfrom (proc_tab s3 MM_PROC_NR) \<noteq> ANY
        then Done s3 else inform s3)"
      using first lu unfolding cause_sig_def g_def s3_def Let_def by simp
    show ?thesis
    proof (cases "RECEIVING \<in> p_flags (proc_tab s3 MM_PROC_NR) \<and> p_getfrom (proc_tab s3 MM_PROC_NR) = ANY")
      case True
      then have mm: "RECEIVING \<in> p_flags (proc_tab s3 MM_PROC_NR)" "p_getfrom (proc_tab s3 MM_PROC_NR) = ANY"
        "P_SLOT_FREE \<notin> p_flags (proc_tab s3 MM_PROC_NR)" using slots_okD(9) [OF kinvD(4) [OF k3]] by auto
      from k3 mm show ?thesis
      proof (cases rule: inform_rep)
        case none
        then show ?thesis using pend by simp
      next
        case (some s' rq')
        then show ?thesis using e True that [of s' rq'] inform_cpu by auto
      qed
    next
      case False
      then have "cause_sig p sig s = Done s3" unfolding e by auto
      then show ?thesis using that [of s3 "asleep s p rq"] k3 c3 by blast
    qed
  qed
qed

lemma lock_sched_rep:
  assumes k: "kinv e0 s rq cq"
  obtains s' rq' where "lock_sched s = Done s'" "kinv e0 s' rq' cq" "cpu_ok s rq \<Longrightarrow> cpu_ok s' rq'"
proof (cases "rq USER_Q = []")
  case True
  then have "rdy_head s USER_Q = None" using rq_head [OF kinvD(1) [OF k], of USER_Q] by simp
  then have "lock_sched s = Done (s\<lparr>switching := False\<rparr>)" by (simp add: lock_sched_def sched_def)
  then show ?thesis using that k by (simp add: cpu_ok_def)
next
  case False
  let ?t = "s\<lparr>switching := True\<rparr>" and ?rq = "rq(USER_Q := rotate1 (rq USER_Q))"
  have kt: "kinv e0 ?t rq cq" using k by simp
  obtain s' where s': "sched ?t = Done s'" "rq_rep s' ?rq" "sched_frame ?t s'" "proc_ptr s' = next_run ?rq"
    using sched_rep [OF kinvD(1) [OF kt] False] by metis
  have "kinv e0 s' ?rq cq"
  proof (rule kinvI)
    show "rq_rep s' ?rq" by (rule s')
    show "cq_rep s' cq" using kinvD(2) [OF kt] cq_rep_frame [OF s'(3)] by simp
    show "slots_ok e0 s'" using kinvD(4) [OF kt] slots_ok_frames(1) [OF s'(3)] by simp
    show "live_at s' ?rq x" if "isokprocn x" for x
      using kinvD(3) [OF kt that] by (auto simp: live_at_def sched_frameD [OF s'(3)])
  qed
  moreover have "lock_sched s = Done (s'\<lparr>switching := False\<rparr>)" using s'(1) by (simp add: lock_sched_def)
  moreover have "cpu_ok s' ?rq" using s'(4) by (rule cpu_ok_next_run)
  ultimately show ?thesis using that [of "s'\<lparr>switching := False\<rparr>" ?rq] by (simp add: cpu_ok_def)
qed

subsection \<open>The held interrupts\<close>

abbreviation nextheld :: "kernel \<Rightarrow> int \<Rightarrow> int option" where
  "nextheld s \<equiv> p_nextheld \<circ> proc_tab s"

definition held_list :: "kernel \<Rightarrow> int list" where
  "held_list s = chain_list (nextheld s) ALL_SLOTS (held_head s)"

definition held_rep :: "kernel \<Rightarrow> int list \<Rightarrow> bool" where
  "held_rep s hl \<longleftrightarrow>
     chain (nextheld s) (held_head s) hl \<and> (hl \<noteq> [] \<longrightarrow> held_tail s = Some (last hl)) \<and>
     (\<forall>p. isokprocn p \<longrightarrow> (p_int_held (proc_tab s p) \<longleftrightarrow> p \<in> set hl)) \<and>
     (\<forall>p \<in> set hl. isokprocn p \<and> istaskp p)"

definition held_ok :: "kernel \<Rightarrow> bool" where
  "held_ok s \<longleftrightarrow> held_rep s (held_list s)"

lemma held_list_eq: "held_rep s hl \<Longrightarrow> held_list s = hl"
  unfolding held_list_def held_rep_def by (intro chain_list_eq proc_chain_length) auto

lemma held_rep_ok: "held_rep s hl \<Longrightarrow> held_ok s"
  by (simp add: held_ok_def held_list_eq)

text \<open>Message passing and scheduling leave the held queue alone.\<close>

definition held_view :: "kernel \<Rightarrow> int option \<times> int option \<times> (int \<Rightarrow> int option) \<times> (int \<Rightarrow> bool)" where
  "held_view s = (held_head s, held_tail s, nextheld s, p_int_held \<circ> proc_tab s)"

lemma held_rep_view: "held_view s' = held_view s \<Longrightarrow> held_rep s' hl = held_rep s hl"
proof -
  assume v: "held_view s' = held_view s"
  have "nextheld s' = nextheld s" "held_head s' = held_head s" "held_tail s' = held_tail s" using v by (auto simp: held_view_def)
  moreover have "p_int_held (proc_tab s' p) = p_int_held (proc_tab s p)" for p
    using v by (simp add: held_view_def fun_eq_iff)
  ultimately show ?thesis by (simp add: held_rep_def)
qed

lemma held_view_upd [simp]:
  "(\<And>r. p_nextheld (f r) = p_nextheld r) \<Longrightarrow> (\<And>r. p_int_held (f r) = p_int_held r) \<Longrightarrow>
   held_view (upd_proc p f s) = held_view s"
  by (simp add: held_view_def fun_eq_iff)

lemma held_view_glob [simp]:
  "held_view (s\<lparr>rdy_head := h\<rparr>) = held_view s" "held_view (s\<lparr>rdy_tail := h\<rparr>) = held_view s"
  "held_view (s\<lparr>proc_ptr := q\<rparr>) = held_view s" "held_view (s\<lparr>bill_ptr := q\<rparr>) = held_view s"
  "held_view (s\<lparr>ram := m\<rparr>) = held_view s" "held_view (s\<lparr>switching := b\<rparr>) = held_view s"
  "held_view (s\<lparr>sig_procs := n\<rparr>) = held_view s" "held_view (s\<lparr>k_reenter := kr\<rparr>) = held_view s"
  by (simp_all add: held_view_def)

lemma held_view_pick_proc [simp]: "held_view (pick_proc s) = held_view s" "held_view (lock_pick_proc s) = held_view s"
  by (simp_all add: pick_proc_def lock_pick_proc_def split: option.splits)

lemma held_view_cp_mess [simp]: "held_view (cp_mess n a x b y s) = held_view s" "held_view (hard_int_mess m s) = held_view s"
  by (simp_all add: cp_mess_def hard_int_mess_def Let_def)

lemma held_view_sched:
  "enqueue q p s = Done s' \<Longrightarrow> held_view s' = held_view s"
  "ready p s = Done s' \<Longrightarrow> held_view s' = held_view s"
  "unready p s = Done s' \<Longrightarrow> held_view s' = held_view s"
  "sched s = Done s' \<Longrightarrow> held_view s' = held_view s"
proof -
  show e: "enqueue q p s = Done s' \<Longrightarrow> held_view s' = held_view s" for q p s s'
    by (auto simp: enqueue_def outcome_simps split: option.splits)
  show "ready p s = Done s' \<Longrightarrow> held_view s' = held_view s" by (simp add: ready_def e)
  show "unready p s = Done s' \<Longrightarrow> held_view s' = held_view s"
    by (auto simp: unready_def Let_def outcome_simps split: option.splits if_splits prod.splits)
  show "sched s = Done s' \<Longrightarrow> held_view s' = held_view s"
    by (auto simp: sched_def Let_def split: option.splits)
qed

lemma held_view_locked:
  "lock_ready p s = Done s' \<Longrightarrow> held_view s' = held_view s"
  "lock_unready p s = Done s' \<Longrightarrow> held_view s' = held_view s"
  "lock_sched s = Done s' \<Longrightarrow> held_view s' = held_view s"
  by (auto simp: lock_ready_def lock_unready_def lock_sched_def outcome_simps dest!: held_view_sched)

lemma held_view_queue_caller: "queue_caller c d s = Done s' \<Longrightarrow> held_view s' = held_view s"
  by (auto simp: queue_caller_def outcome_simps split: option.splits prod.splits)

lemma held_view_mini_send: "mini_send c d m s = Done (n, s') \<Longrightarrow> held_view s' = held_view s"
  by (auto simp: mini_send_def Let_def outcome_simps split: if_splits option.splits prod.splits
      dest!: held_view_sched held_view_queue_caller simp del: chain_numeral)

lemma held_view_lock_mini_send: "lock_mini_send c d m s = Done (n, s') \<Longrightarrow> held_view s' = held_view s"
  by (auto simp: lock_mini_send_def outcome_simps dest!: held_view_mini_send)

lemma held_view_done_one_sig: "done_one_sig p s = Done s' \<Longrightarrow> held_view s' = held_view s"
  by (auto simp: done_one_sig_def Let_def split: if_splits dest!: held_view_locked)

lemma held_view_inform: "inform s = Done s' \<Longrightarrow> held_view s' = held_view s"
  unfolding inform_def inform_finds
  by (auto simp: Let_def outcome_simps split: if_splits dest!: held_view_lock_mini_send held_view_done_one_sig)

lemma held_view_cause_sig: "cause_sig p n s = Done s' \<Longrightarrow> held_view s' = held_view s"
  by (auto simp: cause_sig_def Let_def outcome_simps split: if_splits dest!: held_view_inform held_view_locked)

lemma held_view_accept: "accept_mess c m pv sn s = Done s' \<Longrightarrow> held_view s' = held_view s"
  by (auto simp: accept_mess_def Let_def outcome_simps split: if_splits option.splits dest!: held_view_sched)

lemma held_view_block: "block_receive c src m s = Done s' \<Longrightarrow> held_view s' = held_view s"
  by (auto simp: block_receive_def Let_def outcome_simps split: if_splits dest!: held_view_sched held_view_inform)

lemma held_view_mini_rec: "mini_rec c src m s = Done (n, s') \<Longrightarrow> held_view s' = held_view s"
  by (auto simp: mini_rec_def Let_def outcome_simps split: if_splits option.splits prod.splits
      dest!: held_view_accept held_view_block simp del: chain_numeral)

lemma held_view_sys_call: "sys_call f d m s = Done (n, s') \<Longrightarrow> held_view s' = held_view s"
  by (auto simp: sys_call_def Let_def outcome_simps split: if_splits dest!: held_view_mini_send held_view_mini_rec)

lemma held_repD:
  assumes "held_rep s hl"
  shows "chain (nextheld s) (held_head s) hl" "hl \<noteq> [] \<Longrightarrow> held_tail s = Some (last hl)"
    "isokprocn p \<Longrightarrow> p_int_held (proc_tab s p) \<longleftrightarrow> p \<in> set hl"
    "p \<in> set hl \<Longrightarrow> isokprocn p" "p \<in> set hl \<Longrightarrow> istaskp p" "length hl \<le> ALL_SLOTS"
proof -
  show "chain (nextheld s) (held_head s) hl" "hl \<noteq> [] \<Longrightarrow> held_tail s = Some (last hl)"
    "isokprocn p \<Longrightarrow> p_int_held (proc_tab s p) \<longleftrightarrow> p \<in> set hl"
    "p \<in> set hl \<Longrightarrow> isokprocn p" "p \<in> set hl \<Longrightarrow> istaskp p"
    using assms by (simp_all add: held_rep_def)
  show "length hl \<le> ALL_SLOTS"
    by (rule proc_chain_length [of "nextheld s" "held_head s"]) (use assms in \<open>auto simp: held_rep_def\<close>)
qed

lemma held_tail_some: "held_rep s hl \<Longrightarrow> held_head s \<noteq> None \<Longrightarrow> held_tail s \<noteq> None"
  using held_repD(1,2) [of s hl] by (cases hl) auto

text \<open>\<open>hold_int\<close> appends the task unless it is already held.\<close>

lemma hold_int_held:
  assumes h: "held_rep s hl" and t: "isokprocn t" "istaskp t" and d: "hold_int t s = Done s'"
  shows "held_rep s' (if t \<in> set hl then hl else hl @ [t])"
proof (cases "t \<in> set hl")
  case True
  then show ?thesis using d h held_repD(3) [OF h t(1)] by (simp add: hold_int_def)
next
  case False
  then have n: "\<not> p_int_held (proc_tab s t)" using held_repD(3) [OF h t(1)] by simp
  show ?thesis
  proof (cases hl)
    case Nil
    then have "held_head s = None" using held_repD(1) [OF h] by simp
    then show ?thesis using d n h t Nil by (auto simp: hold_int_def Let_def held_rep_def split: if_splits)
  next
    case (Cons a as)
    let ?l = "last hl"
    have l: "?l \<in> set hl" "?l \<noteq> t" using Cons False by auto
    have hd: "held_head s = Some a" "held_tail s = Some ?l" using held_repD(1,2) [OF h] Cons by simp_all
    have s': "s' = upd_proc t (\<lambda>r. r\<lparr>p_nextheld := None\<rparr>)
       ((upd_proc ?l (\<lambda>r. r\<lparr>p_nextheld := Some t\<rparr>) (upd_proc t (\<lambda>r. r\<lparr>p_int_held := True\<rparr>) s))\<lparr>held_tail := Some t\<rparr>)"
      using d n by (simp add: hold_int_def Let_def hd)
    have nx: "nextheld s' = (nextheld s)(?l := Some t, t := None)" using l(2) by (auto simp: s' fun_eq_iff)
    have "chain (nextheld s') (held_head s') (hl @ [t])"
      unfolding nx using chain_snoc [OF held_repD(1) [OF h] _ False] Cons by (simp add: s')
    moreover have "p_int_held (proc_tab s' p) \<longleftrightarrow> p \<in> set (hl @ [t])" if "isokprocn p" for p
      using held_repD(3) [OF h that] l by (auto simp: s')
    moreover have "\<forall>p \<in> set (hl @ [t]). isokprocn p \<and> istaskp p" using h t by (simp add: held_rep_def)
    ultimately show ?thesis using False by (simp add: held_rep_def) (simp add: s')
  qed
qed

lemma interrupt_held:
  assumes h: "held_rep s hl" and t: "isokprocn t" "istaskp t" and d: "interrupt t s = Done s'"
  shows "held_rep s' (if (k_reenter s \<noteq> 0 \<or> switching s) \<and> t \<notin> set hl then hl @ [t] else hl)"
proof (cases "k_reenter s \<noteq> 0 \<or> switching s")
  case True
  then have "hold_int t s = Done s'" using d by (simp add: interrupt_def)
  from hold_int_held [OF h t this] show ?thesis using True by (auto split: if_splits)
next
  case False
  then have "held_view s' = held_view s"
    using d by (auto simp: interrupt_def Let_def split: if_splits dest!: held_view_sched(1))
  then show ?thesis using held_rep_view [of s' s hl] h False by auto
qed

text \<open>The invariant of a machine with held interrupts.\<close>

definition machine_ok :: "kernel \<Rightarrow> bool" where
  "machine_ok s \<longleftrightarrow> ipc_ok s \<and> cpu_ok s (ready_list s) \<and> held_ok s"

lemma machine_okI: "kinv 0 s rq cq \<Longrightarrow> cpu_ok s rq \<Longrightarrow> held_rep s hl \<Longrightarrow> machine_ok s"
  by (simp add: machine_ok_def kinv_ipc_ok held_rep_ok ready_list_eq [OF kinvD(1)])

lemma machine_okE:
  assumes "machine_ok s"
  obtains "kinv 0 s (ready_list s) (caller_list s)" "cpu_ok s (ready_list s)" "held_rep s (held_list s)"
  using assms by (auto simp: machine_ok_def ipc_ok_def held_ok_def)

lemma interrupt_machine:
  assumes m: "machine_ok s" and t: "isokprocn t" "istaskp t"
  obtains s' where "interrupt t s = Done s'" "machine_ok s'"
    "held_list s' = (if (k_reenter s \<noteq> 0 \<or> switching s) \<and> t \<notin> set (held_list s) then held_list s @ [t] else held_list s)"
proof -
  from m obtain k: "kinv 0 s (ready_list s) (caller_list s)" and c: "cpu_ok s (ready_list s)" and h: "held_rep s (held_list s)"
    by (rule machine_okE)
  obtain s' rq' where i: "interrupt t s = Done s'" "kinv 0 s' rq' (caller_list s)" "cpu_ok s' rq'"
    using interrupt_rep [OF k t held_tail_some [OF h]] c by metis
  note hh = interrupt_held [OF h t i(1)]
  show ?thesis using that [OF i(1) machine_okI [OF i(2,3) hh]] held_list_eq [OF hh] by simp
qed

lemma kinv_reenter [simp]: "kinv e0 (s\<lparr>k_reenter := b\<rparr>) rq cq = kinv e0 s rq cq"
  by (rule kinv_glob) simp_all

lemma machine_reenter [simp]: "machine_ok (s\<lparr>k_reenter := b\<rparr>) = machine_ok s"
proof -
  let ?t = "s\<lparr>k_reenter := b\<rparr>"
  have r: "ready_list ?t = ready_list s" "caller_list ?t = caller_list s" "held_list ?t = held_list s"
    by (simp_all add: ready_list_def caller_list_def held_list_def fun_eq_iff)
  show ?thesis
    by (simp add: machine_ok_def ipc_ok_def held_ok_def r cpu_ok_def held_rep_view [of ?t s])
qed

lemma held_list_reenter [simp]: "held_list (s\<lparr>k_reenter := b\<rparr>) = held_list s"
  by (simp add: held_list_def)

lemma interrupt_glob: "interrupt t s = Done s' \<Longrightarrow> k_reenter s' = k_reenter s \<and> switching s' = switching s"
  by (auto simp: interrupt_def hold_int_def enqueue_def hard_int_mess_def Let_def outcome_simps
      split: if_splits option.splits)

text \<open>A task has noticed an interrupt when it is runnable or has the interrupt recorded as blocked.\<close>

definition noticed :: "kernel \<Rightarrow> int \<Rightarrow> bool" where
  "noticed s t \<longleftrightarrow> p_int_blocked (proc_tab s t) \<or> p_flags (proc_tab s t) = {}"

lemma interrupt_noticed_keep:
  assumes "interrupt t s = Done s'" "noticed s u" "p_flags (proc_tab s t) \<subseteq> {SENDING, RECEIVING}"
  shows "noticed s' u"
  using assms
  by (auto simp: interrupt_def hold_int_def enqueue_def hard_int_mess_def Let_def outcome_simps noticed_def
      split: if_splits option.splits)

lemma interrupt_noticed:
  assumes k: "kinv 0 s rq cq" and t: "isokprocn t" "istaskp t" and free: "k_reenter s = 0" "\<not> switching s"
    and i: "interrupt t s = Done s'"
  shows "noticed s' t"
proof -
  have "p_flags (proc_tab s t) \<subseteq> {SENDING, RECEIVING}" using slots_okD(8) [OF kinvD(4) [OF k] t(1)] t(2) by (simp add: istaskp_def)
  then show ?thesis using i free
    by (auto simp: interrupt_def enqueue_def hard_int_mess_def Let_def outcome_simps noticed_def
        split: if_splits option.splits)
qed

lemma noticed_reenter [simp]: "noticed (s\<lparr>k_reenter := b\<rparr>) u = noticed s u"
  by (simp add: noticed_def)


lemma task_flags:
  assumes "machine_ok s" "isokprocn t" "istaskp t"
  shows "p_flags (proc_tab s t) \<subseteq> {SENDING, RECEIVING}"
proof -
  from assms(1) have "kinv 0 s (ready_list s) (caller_list s)" by (rule machine_okE)
  from slots_okD(8) [OF kinvD(4) [OF this] assms(2)] show ?thesis using assms(3) by (simp add: istaskp_def)
qed

lemma nested_ints_machine:
  assumes "machine_ok s" "k_reenter s = 0" "\<not> switching s" "\<forall>t \<in> set ts. isokprocn t \<and> istaskp t"
  obtains s' where "nested_ints ts s = Done s'" "machine_ok s'" "k_reenter s' = 0" "\<not> switching s'"
    "\<exists>as. held_list s' = held_list s @ as" "\<And>u. noticed s u \<Longrightarrow> noticed s' u"
  using assms
proof (induction ts arbitrary: s thesis)
  case Nil
  then show ?case by simp
next
  case (Cons t ts)
  let ?s1 = "s\<lparr>k_reenter := k_reenter s + 1\<rparr>"
  have t: "isokprocn t" "istaskp t" using Cons.prems by auto
  obtain s2 where s2: "interrupt t ?s1 = Done s2" "machine_ok s2"
    "held_list s2 = (if (k_reenter ?s1 \<noteq> 0 \<or> switching ?s1) \<and> t \<notin> set (held_list ?s1) then held_list ?s1 @ [t] else held_list ?s1)"
    using interrupt_machine [of ?s1 t] Cons.prems(2) t by (metis machine_reenter)
  have g: "k_reenter s2 = 1" "\<not> switching s2" using interrupt_glob [OF s2(1)] Cons.prems by simp_all
  let ?s3 = "s2\<lparr>k_reenter := k_reenter s2 - 1\<rparr>"
  have m3: "machine_ok ?s3" "k_reenter ?s3 = 0" "\<not> switching ?s3" using s2(2) g by simp_all
  obtain s' where s': "nested_ints ts ?s3 = Done s'" "machine_ok s'" "k_reenter s' = 0" "\<not> switching s'"
    "\<exists>as. held_list s' = held_list ?s3 @ as" "\<And>u. noticed ?s3 u \<Longrightarrow> noticed s' u"
    using Cons.IH [OF _ m3] Cons.prems(5) by auto
  have "noticed s2 u" if "noticed s u" for u
    using interrupt_noticed_keep [OF s2(1), of u] task_flags [OF Cons.prems(2) t] that by simp
  moreover have "\<exists>as. held_list s' = held_list s @ as" using s'(5) s2(3) by auto
  ultimately show ?case using s' s2(1) by (intro Cons.prems(1) [of s']) auto
qed

text \<open>One turn of the loop takes the head of the held queue and re-issues its interrupt.\<close>

lemma unhold_one_machine:
  assumes m: "machine_ok s" and hl: "held_list s = rp # hl" and free: "k_reenter s = 0" "\<not> switching s"
    and ts: "\<forall>t \<in> set ts. isokprocn t \<and> istaskp t"
  obtains s' as where "unhold_one ts rp s = Done s'" "machine_ok s'" "k_reenter s' = 0" "\<not> switching s'"
    "held_list s' = hl @ as" "ts = [] \<Longrightarrow> as = []" "noticed s' rp" "\<And>u. noticed s u \<Longrightarrow> noticed s' u"
proof -
  from m obtain k: "kinv 0 s (ready_list s) (caller_list s)" and c: "cpu_ok s (ready_list s)" and h0: "held_rep s (held_list s)"
    by (rule machine_okE)
  note h = h0 [unfolded hl]
  have rp: "isokprocn rp" "istaskp rp" using held_repD(4,5) [OF h, of rp] by simp_all
  have nh: "p_nextheld (proc_tab s rp) = None \<longleftrightarrow> hl = []"
    using held_repD(1) [OF h] by (cases hl) auto
  define s1 where "s1 = s\<lparr>held_head := p_nextheld (proc_tab s rp),
     held_tail := (if p_nextheld (proc_tab s rp) = None then None else held_tail s)\<rparr>"
  define s2 where "s2 = upd_proc rp (\<lambda>r. r\<lparr>p_int_held := False\<rparr>) s1"
  have nx: "nextheld s2 = nextheld s" by (simp add: s2_def s1_def)
  have d: "rp \<notin> set hl" using chain_distinct [OF held_repD(1) [OF h]] by simp
  have h2: "held_rep s2 hl"
    unfolding held_rep_def nx
  proof (intro conjI allI impI ballI)
    show "chain (nextheld s) (held_head s2) hl" using held_repD(1) [OF h] by (simp add: s2_def s1_def)
    show "held_tail s2 = Some (last hl)" if "hl \<noteq> []" using that held_repD(2) [OF h] nh by (simp add: s2_def s1_def)
    show "p_int_held (proc_tab s2 p) = (p \<in> set hl)" if "isokprocn p" for p
      using held_repD(3) [OF h that] d by (auto simp: s2_def s1_def)
    show "isokprocn p" "istaskp p" if "p \<in> set hl" for p using held_repD(4,5) [OF h, of p] that by simp_all
  qed
  have "kinv 0 s1 (ready_list s) (caller_list s)" using k unfolding s1_def by (subst kinv_glob [of _ s]) simp_all
  then have "kinv 0 s2 (ready_list s) (caller_list s)" unfolding s2_def by (rule kinv_proc_upd) auto
  then have m2: "machine_ok s2" by (rule machine_okI [OF _ _ h2]) (use c in \<open>simp add: cpu_ok_def s2_def s1_def\<close>)
  have g2: "k_reenter s2 = 0" "\<not> switching s2" using free by (simp_all add: s2_def s1_def)
  have n2: "noticed s u \<Longrightarrow> noticed s2 u" for u by (auto simp: noticed_def s2_def s1_def)
  obtain s3 where s3: "nested_ints ts s2 = Done s3" "machine_ok s3" "k_reenter s3 = 0" "\<not> switching s3"
    "\<exists>as. held_list s3 = held_list s2 @ as" "\<And>u. noticed s2 u \<Longrightarrow> noticed s3 u"
    using nested_ints_machine [OF m2 g2 ts] by blast
  obtain s' where s': "interrupt rp s3 = Done s'" "machine_ok s'"
    "held_list s' = (if (k_reenter s3 \<noteq> 0 \<or> switching s3) \<and> rp \<notin> set (held_list s3) then held_list s3 @ [rp] else held_list s3)"
    by (rule interrupt_machine [OF s3(2) rp])
  from s3(2) obtain k3: "kinv 0 s3 (ready_list s3) (caller_list s3)" by (rule machine_okE)
  have nr: "p_nr (proc_tab s3 rp) = rp" using kinvD(5) [OF k3 rp(1)] .
  obtain as where as: "held_list s3 = hl @ as" using s3(5) held_list_eq [OF h2] by auto
  have e: "unhold_one ts rp s = Done s'"
    unfolding unhold_one_def Let_def s1_def [symmetric] s2_def [symmetric] using s3(1) s'(1) nr by simp
  have "noticed s' rp" by (rule interrupt_noticed [OF k3 rp s3(3,4) s'(1)])
  moreover have "noticed s' u" if "noticed s u" for u
    using interrupt_noticed_keep [OF s'(1) s3(6) [OF n2 [OF that]] task_flags [OF s3(2) rp]] .
  moreover have "as = []" if "ts = []" using that s3(1) as held_list_eq [OF h2] by simp
  ultimately show ?thesis
    using that [OF e s'(2)] interrupt_glob [OF s'(1)] s'(3) s3(3,4) as by simp
qed

lemma unhold_loop_flushes:
  assumes "machine_ok s" "held_list s \<noteq> []" "k_reenter s = 0" "\<not> switching s"
    "\<forall>ts \<in> set arr. \<forall>t \<in> set ts. isokprocn t \<and> istaskp t"
    "length arr + (if arr = [] then length (held_list s) else ALL_SLOTS) \<le> n"
  obtains s' where "unhold_loop n arr s = Done s'" "machine_ok s'" "held_list s' = []"
    "\<And>t. t \<in> set (held_list s) \<or> noticed s t \<Longrightarrow> noticed s' t"
  using assms
proof (induction n arbitrary: arr s thesis)
  case 0
  then show ?case by (auto split: if_splits)
next
  case (Suc n)
  obtain rp hl where hl: "held_list s = rp # hl" using Suc.prems(3) by (cases "held_list s") auto
  from Suc.prems(2) have h: "held_rep s (held_list s)" by (rule machine_okE)
  then have hd: "held_head s = Some rp" using held_repD(1) [OF h] hl by simp
  define ts where "ts = (case arr of [] \<Rightarrow> [] | ts # _ \<Rightarrow> ts)"
  define rest where "rest = (case arr of [] \<Rightarrow> [] | _ # r \<Rightarrow> r)"
  have tsok: "\<forall>t \<in> set ts. isokprocn t \<and> istaskp t" using Suc.prems(6) by (auto simp: ts_def split: list.splits)
  obtain s1 as where s1: "unhold_one ts rp s = Done s1" "machine_ok s1" "k_reenter s1 = 0" "\<not> switching s1"
    "held_list s1 = hl @ as" "ts = [] \<Longrightarrow> as = []" "noticed s1 rp" "\<And>u. noticed s u \<Longrightarrow> noticed s1 u"
    using unhold_one_machine [OF Suc.prems(2) hl Suc.prems(4,5) tsok] by blast
  from s1(2) have h1: "held_rep s1 (held_list s1)" by (rule machine_okE)
  have e: "unhold_loop (Suc n) arr s = (if held_head s1 = None then Done s1 else unhold_loop n rest s1)"
    using s1(1) hd by (simp add: ts_def rest_def)
  show ?case
  proof (cases "held_list s1 = []")
    case True
    then have "held_head s1 = None" using held_repD(1) [OF h1] by simp
    moreover have "hl = []" using True s1(5) by simp
    ultimately show ?thesis using Suc.prems(1) [of s1] e s1 True hl by auto
  next
    case False
    then have hn: "held_head s1 \<noteq> None" using held_repD(1) [OF h1] by (cases "held_list s1") auto
    have len: "length rest + (if rest = [] then length (held_list s1) else ALL_SLOTS) \<le> n"
    proof (cases arr)
      case Nil
      then show ?thesis using Suc.prems(7) s1(5,6) hl by (simp add: rest_def ts_def)
    next
      case (Cons a r)
      then show ?thesis using Suc.prems(7) held_repD(6) [OF h1] by (simp add: rest_def split: if_splits)
    qed
    have rok: "\<forall>ts \<in> set rest. \<forall>t \<in> set ts. isokprocn t \<and> istaskp t"
      using Suc.prems(6) by (auto simp: rest_def split: list.splits)
    obtain s' where s': "unhold_loop n rest s1 = Done s'" "machine_ok s'" "held_list s' = []"
      "\<And>t. t \<in> set (held_list s1) \<or> noticed s1 t \<Longrightarrow> noticed s' t"
      using Suc.IH [OF _ s1(2) False s1(3,4) rok len] by blast
    then show ?thesis using Suc.prems(1) [of s'] e hn s1(5,7,8) hl by auto
  qed
qed

subsection \<open>Message contents\<close>

lemma get16_put16:
  assumes "- 32768 \<le> v" "v < 32768"
  shows "get16 (put16 a v m) a = v"
proof -
  have "a + 1 \<noteq> a" by simp
  then have e: "get16 (put16 a v m) a = (let w = (v div 256) mod 256 * 256 + v mod 256 in if w < 32768 then w else w - 65536)"
    by (simp add: get16_def put16_def uint_word_of_int)
  have "(v div 256) mod 256 * 256 + v mod 256 = v mod 65536"
    using zmod_zmult2_eq [of 256 v 256] by simp
  moreover have "v mod 65536 = (if 0 \<le> v then v else v + 65536)"
    using assms mod_pos_pos_trivial [of v 65536] mod_pos_pos_trivial [of "v + 65536" 65536] mod_add_self2 [of v 65536]
    by auto
  ultimately show ?thesis using assms by (simp add: e Let_def)
qed

lemma put16_other: "x \<noteq> a \<Longrightarrow> x \<noteq> a + 1 \<Longrightarrow> put16 a v m x = m x"
  by (simp add: put16_def)

lemma u32_offset_neq:
  assumes "i < 2 ^ 32" "j < 2 ^ 32" "i \<noteq> j"
  shows "(b :: u32) + of_nat i \<noteq> b + of_nat j"
proof
  assume "b + of_nat i = b + of_nat j"
  then have "unat (of_nat i :: u32) = unat (of_nat j :: u32)" by simp
  then show False using assms by (simp add: unat_of_nat take_bit_nat_eq_self)
qed

lemma cp_mess_contents:
  fixes s :: kernel and sm dm :: u32 and sp dp :: int
  assumes "- 32768 \<le> src" "src < 32768"
  defines "a \<equiv> mess_phys (proc_tab s sp) sm" and "b \<equiv> mess_phys (proc_tab s dp) dm"
  shows "get16 (ram (cp_mess src sp sm dp dm s)) b = src"
    and "2 \<le> i \<Longrightarrow> i < MESS_SIZE \<Longrightarrow> ram (cp_mess src sp sm dp dm s) (b + of_nat i) = ram s (a + of_nat i)"
proof -
  show "get16 (ram (cp_mess src sp sm dp dm s)) b = src"
    by (simp add: cp_mess_def Let_def b_def get16_put16 assms(1,2))
  assume i: "2 \<le> i" "i < MESS_SIZE"
  have "b + of_nat i \<noteq> b + of_nat 0" "b + of_nat i \<noteq> b + of_nat 1" using i by (intro u32_offset_neq; simp)+
  moreover have "unat (of_nat i :: u32) = i" using i by (simp add: unat_of_nat take_bit_nat_eq_self)
  ultimately show "ram (cp_mess src sp sm dp dm s) (b + of_nat i) = ram s (a + of_nat i)"
    using i by (simp add: cp_mess_def Let_def put16_other copy_bytes_def a_def [symmetric] b_def [symmetric])
qed

lemma okproc_range: "isokprocn p \<Longrightarrow> - 32768 \<le> p \<and> p < 32768"
  by (simp add: isokprocn_def)

subsection \<open>A small machine for the witnesses\<close>

text \<open>
  FS (running) and INIT are ready, MM and the tasks wait for any message, all other slots are free;
  every data segment is all of memory.
\<close>

definition demo_proc :: "int \<Rightarrow> proc" where
  "demo_proc p =
     \<lparr>p_reg = \<lparr>sf_reg = (\<lambda>_. 0), sf_psw = 0, sf_dummy = 0\<rparr>, p_splow = 0, p_trap = 0, p_shadow = 0, p_nflips = 0,
      p_physio = False, p_nr = p, p_int_blocked = False, p_int_held = False, p_nextheld = None,
      p_flags = (if p = IDLE \<or> p = HARDWARE \<or> p = 1 \<or> p = 2 then {} else if p < 1 then {RECEIVING} else {P_SLOT_FREE}),
      p_map = (\<lambda>_. \<lparr>mem_vir = 0, mem_phys = 0, mem_len = 65535\<rparr>), p_pid = 0, user_time = 0, sys_time = 0,
      child_utime = 0, child_stime = 0, p_alarm = 0, p_callerq = None, p_sendlink = None, p_messbuf = 4096,
      p_getfrom = ANY, p_nextready = None, p_pending = 0, p_pendcount = 0\<rparr>"

definition demo_kernel :: kernel where
  "demo_kernel =
     \<lparr>proc_tab = demo_proc,
      rdy_head = (\<lambda>q. if q = SERVER_Q then Some 1 else if q = USER_Q then Some 2 else None),
      rdy_tail = (\<lambda>q. if q = SERVER_Q then Some 1 else if q = USER_Q then Some 2 else None),
      proc_ptr = 1, bill_ptr = 1, held_head = None, held_tail = None, k_reenter = 0, switching = False,
      sig_procs = 0, sys_mess = 8192, ram = (\<lambda>_. 7)\<rparr>"

lemma demo_kernel_simps [simp]:
  "proc_tab demo_kernel = demo_proc" "proc_ptr demo_kernel = 1" "held_head demo_kernel = None"
  "sig_procs demo_kernel = 0" "sys_mess demo_kernel = 8192" "k_reenter demo_kernel = 0" "switching demo_kernel = False"
  "p_nr (demo_proc p) = p" "p_callerq (demo_proc p) = None" "p_sendlink (demo_proc p) = None"
  "p_nextready (demo_proc p) = None" "p_nextheld (demo_proc p) = None" "p_int_held (demo_proc p) = False"
  "p_getfrom (demo_proc p) = ANY" "p_pendcount (demo_proc p) = 0" "p_shadow (demo_proc p) = 0"
  "p_messbuf (demo_proc p) = 4096"
  "p_flags (demo_proc p) = (if p = IDLE \<or> p = HARDWARE \<or> p = 1 \<or> p = 2 then {} else if p < 1 then {RECEIVING} else {P_SLOT_FREE})"
  "p_map (demo_proc p) g = \<lparr>mem_vir = 0, mem_phys = 0, mem_len = 65535\<rparr>"
  by (simp_all add: demo_kernel_def demo_proc_def)

lemma demo_lists: "rq_rep demo_kernel (\<lambda>q. if q = SERVER_Q then [1] else if q = USER_Q then [2] else [])"
  by (rule rq_repI) (auto simp: demo_kernel_def demo_proc_def proc_class_defs queue_of_def split: if_splits)

lemma demo_kinv: "kinv 0 demo_kernel (\<lambda>q. if q = SERVER_Q then [1] else if q = USER_Q then [2] else []) (\<lambda>_. [])"
proof (rule kinvI)
  show "cq_rep demo_kernel (\<lambda>_. [])" by (rule cq_repI) (auto split: if_splits)
  show "live_at demo_kernel (\<lambda>q. if q = SERVER_Q then [1] else if q = USER_Q then [2] else []) p" if "isokprocn p" for p
    by (auto simp: live_at_def proc_class_defs queue_of_def)
  have "pend_set demo_kernel = {}" by (auto simp: pend_set_def split: if_splits)
  moreover have "\<not> bad_mess_addr (demo_proc HARDWARE) 8192" by (simp add: bad_mess_addr_def)
  ultimately show "slots_ok 0 demo_kernel" by (simp add: slots_ok_def)
qed (rule demo_lists)

lemma demo_ok: "ipc_ok demo_kernel" by (rule kinv_ipc_ok [OF demo_kinv])

lemma demo_ready_list: "ready_list demo_kernel = (\<lambda>q. if q = SERVER_Q then [1] else if q = USER_Q then [2] else [])"
  by (rule ready_list_eq [OF demo_lists])

lemma demo_machine: "machine_ok demo_kernel"
proof (rule machine_okI [OF demo_kinv])
  show "cpu_ok demo_kernel (\<lambda>q. if q = SERVER_Q then [1] else if q = USER_Q then [2] else [])"
    by (auto simp: cpu_ok_def intro!: exI [of _ SERVER_Q])
  show "held_rep demo_kernel []" by (simp add: held_rep_def)
qed

subsection \<open>Properties: scheduling\<close>

text \<open>
  C36. On well-formed ready queues \<open>ready\<close> appends the process to the queue of its class and \<open>unready\<close>
  removes it from there (head, middle or tail, the tail pointer included); no other queue and no
  other field of a process changes, and if the process removed was the running head a new process is
  picked by priority: tasks, then servers, then users, then \<open>IDLE\<close>.
\<close>

theorem ready_unready_refine_lists:
  assumes "queues_ok s" and "isokprocn p"
  shows "(p \<notin> set (ready_list s (queue_of s p)) \<longrightarrow>
      (\<exists>s'. ready p s = Done s' \<and> queues_ok s' \<and> sched_frame s s' \<and> proc_ptr s' = proc_ptr s \<and>
            ready_list s' = (ready_list s)(queue_of s p := ready_list s (queue_of s p) @ [p]))) \<and>
    (\<exists>s'. unready p s = Done s' \<and> queues_ok s' \<and> sched_frame s s' \<and>
          ready_list s' = (ready_list s)(queue_of s p := remove1 p (ready_list s (queue_of s p))) \<and>
          proc_ptr s' = (if rdy_head s (queue_of s p) = Some p \<and> p = proc_ptr s
                         then next_run (ready_list s') else proc_ptr s))"
proof (intro conjI impI)
  have r: "rq_rep s (ready_list s)" using assms(1) by (simp add: queues_ok_def)
  show "\<exists>s'. ready p s = Done s' \<and> queues_ok s' \<and> sched_frame s s' \<and> proc_ptr s' = proc_ptr s \<and>
      ready_list s' = (ready_list s)(queue_of s p := ready_list s (queue_of s p) @ [p])"
    if "p \<notin> set (ready_list s (queue_of s p))"
    by (rule ready_rep [OF r assms(2) that]) (auto simp: rq_rep_queues_ok ready_list_eq)
  show "\<exists>s'. unready p s = Done s' \<and> queues_ok s' \<and> sched_frame s s' \<and>
          ready_list s' = (ready_list s)(queue_of s p := remove1 p (ready_list s (queue_of s p))) \<and>
          proc_ptr s' = (if rdy_head s (queue_of s p) = Some p \<and> p = proc_ptr s
                         then next_run (ready_list s') else proc_ptr s)"
  proof (rule unready_rep [OF r, of p])
    fix s'
    assume u: "unready p s = Done s'" "rq_rep s' ((ready_list s)(queue_of s p := remove1 p (ready_list s (queue_of s p))))"
      "sched_frame s s'"
      and a: "rdy_head s (queue_of s p) = Some p \<and> p = proc_ptr s \<Longrightarrow>
       proc_ptr s' = next_run (ready_list s') \<and> bill_ptr s' = next_bill (ready_list s') (bill_ptr s)"
      and b: "\<not> (rdy_head s (queue_of s p) = Some p \<and> p = proc_ptr s) \<Longrightarrow> proc_ptr s' = proc_ptr s \<and> bill_ptr s' = bill_ptr s"
    have "proc_ptr s' = (if rdy_head s (queue_of s p) = Some p \<and> p = proc_ptr s then next_run (ready_list s') else proc_ptr s)"
      using a b by (simp only: split: if_split) blast
    then show ?thesis using u rq_rep_queues_ok ready_list_eq by blast
  qed
qed

theorem ready_unready_refine_lists_witness:
  "\<exists>s'. unready 1 demo_kernel = Done s' \<and> proc_ptr s' = 2"
proof -
  have "queues_ok demo_kernel" "isokprocn 1" by (simp_all add: rq_rep_queues_ok [OF demo_lists] isokprocn_def)
  note t = ready_unready_refine_lists [OF this]
  have q: "queue_of demo_kernel 1 = SERVER_Q" "rdy_head demo_kernel SERVER_Q = Some 1"
    by (simp add: queue_of_def proc_class_defs, simp add: demo_kernel_def)
  show ?thesis using t unfolding q by (auto simp: demo_ready_list next_run_def)
qed

text \<open>
  Round robin: when a user process is ready, \<open>sched\<close> moves the head of the user queue to its tail,
  leaves the other queues as they are and runs the process that priority then selects; with no
  user ready it does nothing.
\<close>

theorem sched_round_robin:
  assumes "queues_ok s"
  shows "(ready_list s USER_Q = [] \<longrightarrow> sched s = Done s) \<and>
    (ready_list s USER_Q \<noteq> [] \<longrightarrow>
      (\<exists>s'. sched s = Done s' \<and> queues_ok s' \<and> sched_frame s s' \<and>
            ready_list s' = (ready_list s)(USER_Q := rotate1 (ready_list s USER_Q)) \<and>
            proc_ptr s' = next_run (ready_list s')))"
proof (intro conjI impI)
  have r: "rq_rep s (ready_list s)" using assms by (simp add: queues_ok_def)
  show "sched s = Done s" if "ready_list s USER_Q = []"
    using rq_head [OF r, of USER_Q] that by (simp add: sched_def)
  show "\<exists>s'. sched s = Done s' \<and> queues_ok s' \<and> sched_frame s s' \<and>
            ready_list s' = (ready_list s)(USER_Q := rotate1 (ready_list s USER_Q)) \<and>
            proc_ptr s' = next_run (ready_list s')" if "ready_list s USER_Q \<noteq> []"
    by (rule sched_rep [OF r that]) (auto simp: rq_rep_queues_ok ready_list_eq)
qed

theorem sched_round_robin_witness: "\<exists>s'. sched demo_kernel = Done s' \<and> ready_list s' USER_Q = [2] \<and> proc_ptr s' = 1"
  using sched_round_robin [OF rq_rep_queues_ok [OF demo_lists]] by (auto simp: demo_ready_list next_run_def)

text \<open>
  Making processes of one class ready one after the other, as \<open>main\<close> does at boot, queues them in
  that order, and a process taken off its queue and made ready again is last.
\<close>

theorem ready_first_in_first_out:
  assumes "queues_ok s"
  shows "(\<forall>xs q. (\<forall>p \<in> set xs. isokprocn p \<and> queue_of s p = q) \<and> distinct xs \<and> set xs \<inter> set (ready_list s q) = {} \<longrightarrow>
       (\<exists>s'. seq_all ready xs s = Done s' \<and> queues_ok s' \<and> ready_list s' = (ready_list s)(q := ready_list s q @ xs))) \<and>
    (\<forall>p. isokprocn p \<longrightarrow>
       (\<exists>s'. and_then (unready p s) (ready p) = Done s' \<and> queues_ok s' \<and>
             ready_list s' = (ready_list s)(queue_of s p := remove1 p (ready_list s (queue_of s p)) @ [p])))"
proof (intro conjI allI impI)
  show "\<exists>s'. seq_all ready xs s = Done s' \<and> queues_ok s' \<and> ready_list s' = (ready_list s)(q := ready_list s q @ xs)"
    if "(\<forall>p \<in> set xs. isokprocn p \<and> queue_of s p = q) \<and> distinct xs \<and> set xs \<inter> set (ready_list s q) = {}" for xs q
    using rdy.put_all_in_order [OF assms, of xs q] that by blast
  have "distinct (ready_list s (queue_of s p))" for p
    using assms chain_distinct [OF rq_repD(1)] by (auto simp: queues_ok_def)
  then show "\<exists>s'. and_then (unready p s) (ready p) = Done s' \<and> queues_ok s' \<and>
      ready_list s' = (ready_list s)(queue_of s p := remove1 p (ready_list s (queue_of s p)) @ [p])" if "isokprocn p" for p
    using rdy.take_put [OF assms that] by blast
qed

theorem ready_first_in_first_out_witness:
  "\<exists>s'. seq_all ready [-3, -2] demo_kernel = Done s' \<and> ready_list s' TASK_Q = [-3, -2]"
proof -
  have "queue_of demo_kernel (-3) = TASK_Q" "queue_of demo_kernel (-2) = TASK_Q" by (simp_all add: queue_of_def istaskp_def)
  then show ?thesis
    using ready_first_in_first_out [OF rq_rep_queues_ok [OF demo_lists], THEN conjunct1, rule_format, of "[-3, -2]" TASK_Q]
    by (auto simp: demo_ready_list isokprocn_def)
qed

subsection \<open>Properties: message passing\<close>

text \<open>
  C6. Rendezvous: a legal send to a process that waits for it succeeds at once. The destination's
  buffer gets the sender's number as \<open>m_source\<close> and the other 24 bytes of the sender's message, the
  destination stops waiting, and it is appended to its ready queue exactly if nothing else blocks
  it. No caller queue changes.
\<close>

theorem mini_send_rendezvous:
  assumes "ipc_ok s" "isokprocn caller" "isokprocn dest" "\<not> (isuserp caller \<and> \<not> isservn dest)"
    "P_SLOT_FREE \<notin> p_flags (proc_tab s dest)" "\<not> bad_mess_addr (proc_tab s caller) m"
    "waits_for (proc_tab s dest) caller"
  shows "\<exists>s'. mini_send caller dest m s = Done (OK, s') \<and> ipc_ok s' \<and>
     (let a = mess_phys (proc_tab s caller) m; b = mess_phys (proc_tab s dest) (p_messbuf (proc_tab s dest)) in
        get16 (ram s') b = caller \<and>
        (\<forall>i. 2 \<le> i \<and> i < MESS_SIZE \<longrightarrow> ram s' (b + of_nat i) = ram s (a + of_nat i))) \<and>
     p_flags (proc_tab s' dest) = p_flags (proc_tab s dest) - {RECEIVING} \<and>
     ready_list s' = (if p_flags (proc_tab s dest) = {RECEIVING}
                      then (ready_list s)(queue_of s dest := ready_list s (queue_of s dest) @ [dest])
                      else ready_list s) \<and>
     (\<forall>p. isokprocn p \<longrightarrow> caller_list s' p = caller_list s p)"
proof -
  let ?c = "cp_mess caller caller m dest (p_messbuf (proc_tab s dest)) s"
  define s1 where "s1 = upd_proc dest (\<lambda>r. r\<lparr>p_flags := p_flags r - {RECEIVING}\<rparr>) ?c"
  have k: "kinv 0 s (ready_list s) (caller_list s)" using assms(1) by (simp add: ipc_ok_def)
  obtain s' where s': "mini_send caller dest m s = Done (OK, s')" "kinv 0 s' (woken s1 dest (ready_list s)) (caller_list s)"
    "sched_frame s1 s'"
    using mini_send_deliver [OF k assms(2-7)] unfolding s1_def by blast
  have rm: "ram s' = ram ?c" by (simp add: sched_frameD [OF s'(3)]) (simp add: s1_def)
  have fl: "p_flags (proc_tab s1 dest) = p_flags (proc_tab s dest) - {RECEIVING}" by (simp add: s1_def)
  have rl: "ready_list s' = (if p_flags (proc_tab s dest) = {RECEIVING}
                      then (ready_list s)(queue_of s dest := ready_list s (queue_of s dest) @ [dest]) else ready_list s)"
  proof -
    have "p_flags (proc_tab s dest) - {RECEIVING} = {} \<longleftrightarrow> p_flags (proc_tab s dest) = {RECEIVING}"
      using assms(7) by (auto simp: waits_for_def)
    moreover have "queue_of s1 dest = queue_of s dest" by (simp add: s1_def queue_of_def isshadowp_def)
    ultimately show ?thesis using ready_list_eq [OF kinvD(1) [OF s'(2)]] by (simp only: woken_def fl)
  qed
  have cl: "caller_list s' p = caller_list s p" if "isokprocn p" for p by (rule caller_list_eq [OF kinvD(2) [OF s'(2)] that])
  show ?thesis
    using s'(1) kinv_ipc_ok [OF s'(2)] rl cl fl cp_mess_contents okproc_range [OF assms(2)]
    by (intro exI [of _ s']) (simp add: rm sched_frameD [OF s'(3)] Let_def)
qed

theorem mini_send_rendezvous_witness:
  "\<exists>s'. mini_send 1 0 512 demo_kernel = Done (OK, s') \<and> get16 (ram s') 4096 = 1 \<and> ready_list s' SERVER_Q = [1, 0]"
proof -
  have h: "isokprocn 1" "isokprocn 0" "\<not> (isuserp 1 \<and> \<not> isservn 0)" "P_SLOT_FREE \<notin> p_flags (proc_tab demo_kernel 0)"
    "\<not> bad_mess_addr (proc_tab demo_kernel 1) 512" "waits_for (proc_tab demo_kernel 0) 1" "queue_of demo_kernel 0 = SERVER_Q"
    by (simp_all add: proc_class_defs bad_mess_addr_def waits_for_def queue_of_def)
  from mini_send_rendezvous [OF demo_ok h(1-6)] show ?thesis
    by (auto simp: Let_def mess_phys_def demo_ready_list h(7) clicks_bytes_def)
qed

text \<open>
  When the destination is not waiting for the caller, a legal send by a running process blocks the
  caller: it is taken off the ready queues, marked \<open>SENDING\<close>, and goes to the tail of the
  destination's caller queue with its message left in place; unless the destination is itself
  queued on the caller, the mutual wait that is reported as \<open>ELOCKED\<close> with no change of state.
\<close>

theorem mini_send_blocks_or_locks:
  assumes "ipc_ok s" "isokprocn caller" "isokprocn dest" "\<not> isidlehardware caller"
    "\<not> (isuserp caller \<and> \<not> isservn dest)" "P_SLOT_FREE \<notin> p_flags (proc_tab s dest)"
    "\<not> bad_mess_addr (proc_tab s caller) m" "\<not> waits_for (proc_tab s dest) caller"
    "p_flags (proc_tab s caller) = {}"
  shows "if dest \<in> set (caller_list s caller) then mini_send caller dest m s = Done (ELOCKED, s)
     else (\<exists>s'. mini_send caller dest m s = Done (OK, s') \<and> ipc_ok s' \<and> ram s' = ram s \<and>
        p_flags (proc_tab s' caller) = {SENDING} \<and> p_messbuf (proc_tab s' caller) = m \<and>
        caller_list s' dest = caller_list s dest @ [caller] \<and>
        (\<forall>p. isokprocn p \<and> p \<noteq> dest \<longrightarrow> caller_list s' p = caller_list s p) \<and>
        ready_list s' = (ready_list s)(queue_of s caller := remove1 caller (ready_list s (queue_of s caller))))"
proof -
  have k: "kinv 0 s (ready_list s) (caller_list s)" using assms(1) by (simp add: ipc_ok_def)
  show ?thesis
  proof (cases "dest \<in> set (caller_list s caller)")
    case True
    then show ?thesis using mini_send_locked [OF k assms(2,3,5-7) True] by simp
  next
    case False
    obtain s' where s': "mini_send caller dest m s = Done (OK, s')"
      "kinv 0 s' (asleep s caller (ready_list s)) ((caller_list s)(dest := caller_list s dest @ [caller]))"
      "p_flags (proc_tab s' caller) = {SENDING}" "p_messbuf (proc_tab s' caller) = m" "ram s' = ram s"
      using mini_send_block [OF k assms(2-8) False assms(9)] by metis
    note r = ready_list_eq [OF kinvD(1) [OF s'(2)]] and c = caller_list_eq [OF kinvD(2) [OF s'(2)]]
    show ?thesis
      using False s' kinv_ipc_ok [OF s'(2)] r c [OF assms(3)] c by (auto simp: asleep_def)
  qed
qed

theorem mini_send_blocks_or_locks_witness:
  "\<exists>s'. mini_send 2 1 512 demo_kernel = Done (OK, s') \<and> caller_list s' 1 = [2] \<and> ready_list s' USER_Q = []"
proof -
  have c: "caller_list demo_kernel p = []" for p by (simp add: caller_list_def)
  have h: "isokprocn 2" "isokprocn 1" "\<not> isidlehardware 2" "\<not> (isuserp 2 \<and> \<not> isservn 1)"
    "P_SLOT_FREE \<notin> p_flags (proc_tab demo_kernel 1)" "\<not> bad_mess_addr (proc_tab demo_kernel 2) 512"
    "\<not> waits_for (proc_tab demo_kernel 1) 2" "p_flags (proc_tab demo_kernel 2) = {}" "queue_of demo_kernel 2 = USER_Q"
    by (simp_all add: proc_class_defs bad_mess_addr_def waits_for_def queue_of_def)
  from mini_send_blocks_or_locks [OF demo_ok h(1-8)] show ?thesis
    by (auto simp: c demo_ready_list h(9))
qed

text \<open>
  C33. Receiving takes the first acceptable message in the order of arrival: when the caller queue is
  \<open>us @ x # vs\<close> and no sender in \<open>us\<close> is wanted but \<open>x\<close> is, the message of \<open>x\<close> is copied with \<open>x\<close> as its source,
  exactly \<open>x\<close> leaves the queue and stops sending, and it becomes ready if that was all it waited for.
\<close>

theorem mini_rec_takes_first:
  assumes "ipc_ok s" "isokprocn caller" "SENDING \<notin> p_flags (proc_tab s caller)"
    "caller_list s caller = us @ x # vs" "src = ANY \<or> src = x" "\<forall>u \<in> set us. \<not> (src = ANY \<or> src = u)"
  shows "\<exists>s'. mini_rec caller src m s = Done (OK, s') \<and> ipc_ok s' \<and> caller_list s' caller = us @ vs \<and>
     (let a = mess_phys (proc_tab s x) (p_messbuf (proc_tab s x)); b = mess_phys (proc_tab s caller) m in
        get16 (ram s') b = x \<and> (\<forall>i. 2 \<le> i \<and> i < MESS_SIZE \<longrightarrow> ram s' (b + of_nat i) = ram s (a + of_nat i))) \<and>
     p_flags (proc_tab s' x) = p_flags (proc_tab s x) - {SENDING} \<and>
     ready_list s' = (if p_flags (proc_tab s x) = {SENDING}
                      then (ready_list s)(queue_of s x := ready_list s (queue_of s x) @ [x]) else ready_list s)"
proof -
  have k: "kinv 0 s (ready_list s) (caller_list s)" using assms(1) by (simp add: ipc_ok_def)
  note c = cq_repD [OF kinvD(2) [OF k] assms(2)]
  have on: "isokprocn u" if "u \<in> set (us @ x # vs)" for u using c(2) [of u] that by (simp add: assms(4))
  have nr: "p_nr (proc_tab s u) = u" if "u \<in> set (us @ x # vs)" for u using kinvD(5) [OF k on [OF that]] .
  have "chain_find (sendlink s) (\<lambda>u. src = ANY \<or> src = p_nr (proc_tab s u)) ALL_SLOTS None (p_callerq (proc_tab s caller)) =
      Some (last_opt None us, Some x)"
    using c(1) cq_length [OF kinvD(2) [OF k] assms(2)] assms(5,6) nr
    by (intro chain_find_some) (auto simp: assms(4))
  moreover obtain s' rq' where s': "accept_mess caller m (last_opt None us) x s = Done s'"
    "kinv 0 s' rq' ((caller_list s)(caller := us @ vs))"
    "ram s' = ram (cp_mess x x (p_messbuf (proc_tab s x)) caller m s)"
    "p_flags (proc_tab s' x) = p_flags (proc_tab s x) - {SENDING}"
    "rq' = (if p_flags (proc_tab s x) = {SENDING} then (ready_list s)(queue_of s x := ready_list s (queue_of s x) @ [x]) else ready_list s)"
    using accept_mess_rep [OF k assms(2,4), of m] by metis
  ultimately have "mini_rec caller src m s = Done (OK, s')" using assms(3) unfolding mini_rec_def by simp
  then show ?thesis
    using s' kinv_ipc_ok [OF s'(2)] ready_list_eq [OF kinvD(1) [OF s'(2)]] caller_list_eq [OF kinvD(2) [OF s'(2)] assms(2)]
      cp_mess_contents okproc_range [OF on, of x]
    by (intro exI [of _ s']) (simp add: Let_def)
qed

text \<open>
  C40. User processes are confined: whatever a user process passes to the system call trap, unless it asks
  for \<open>BOTH\<close> with MM or FS it gets an error code and the kernel's state, memory included, is unchanged.
\<close>

theorem sys_call_confines_users:
  assumes "isuserp (proc_ptr s)" and "function \<noteq> 3 \<or> \<not> isservn src_dest"
  shows "\<exists>e \<in> {E_BAD_SRC, E_NO_PERM, E_BAD_DEST}. sys_call function src_dest m s = Done (e, s)"
  using assms by (auto simp: sys_call_def mini_send_def Let_def)

theorem sys_call_confines_users_witness: "sys_call 3 (-2) 0 (demo_kernel\<lparr>proc_ptr := 2\<rparr>) = Done (E_BAD_DEST, demo_kernel\<lparr>proc_ptr := 2\<rparr>)"
  using sys_call_confines_users [of "demo_kernel\<lparr>proc_ptr := 2\<rparr>" 3 "-2" 0]
  by (auto simp: proc_class_defs sys_call_def mini_send_def)

text \<open>The same machine with INIT blocked sending to FS.\<close>

definition demo_queued :: kernel where
  "demo_queued = demo_kernel
     \<lparr>proc_tab := demo_proc(1 := (demo_proc 1)\<lparr>p_callerq := Some 2\<rparr>, 2 := (demo_proc 2)\<lparr>p_flags := {SENDING}\<rparr>),
      rdy_head := (\<lambda>q. if q = SERVER_Q then Some 1 else None)\<rparr>"

lemma demo_queued_kinv: "kinv 0 demo_queued (\<lambda>q. if q = SERVER_Q then [1] else []) (\<lambda>p. if p = 1 then [2] else [])"
proof (rule kinvI)
  show "rq_rep demo_queued (\<lambda>q. if q = SERVER_Q then [1] else [])"
    by (rule rq_repI) (auto simp: demo_queued_def demo_kernel_def demo_proc_def proc_class_defs queue_of_def split: if_splits)
  show "cq_rep demo_queued (\<lambda>p. if p = 1 then [2] else [])"
    by (rule cq_repI) (auto simp: demo_queued_def isokprocn_def split: if_splits)
  show "live_at demo_queued (\<lambda>q. if q = SERVER_Q then [1] else []) p" if "isokprocn p" for p
    by (auto simp: live_at_def proc_class_defs queue_of_def demo_queued_def)
  have "pend_set demo_queued = {}" by (auto simp: pend_set_def demo_queued_def split: if_splits)
  moreover have "\<not> bad_mess_addr (demo_proc HARDWARE) 8192" by (simp add: bad_mess_addr_def)
  ultimately show "slots_ok 0 demo_queued" by (auto simp: slots_ok_def demo_queued_def isokprocn_def)
qed

theorem mini_rec_takes_first_witness:
  "\<exists>s'. mini_rec 1 ANY 512 demo_queued = Done (OK, s') \<and> caller_list s' 1 = [] \<and> get16 (ram s') 512 = 2 \<and>
        ready_list s' USER_Q = [2]"
proof -
  have c: "caller_list demo_queued 1 = [] @ 2 # []"
    using caller_list_eq [OF kinvD(2) [OF demo_queued_kinv], of 1] by (simp add: isokprocn_def)
  have r: "ready_list demo_queued = (\<lambda>q. if q = SERVER_Q then [1] else [])"
    by (rule ready_list_eq [OF kinvD(1) [OF demo_queued_kinv]])
  have h: "isokprocn 1" "SENDING \<notin> p_flags (proc_tab demo_queued 1)" "ANY = ANY \<or> ANY = 2" "p_flags (proc_tab demo_queued 2) = {SENDING}"
    "queue_of demo_queued 2 = USER_Q" "mess_phys (proc_tab demo_queued 1) 512 = 512"
    by (simp_all add: demo_queued_def proc_class_defs queue_of_def mess_phys_def)
  from mini_rec_takes_first [OF kinv_ipc_ok [OF demo_queued_kinv] h(1,2) c h(3), of 512] show ?thesis
    by (auto simp: r h(4-6) Let_def)
qed

subsection \<open>Properties: the kernel as a whole\<close>

text \<open>
  The moves of the kernel between two instructions of the running process: a system call of the
  running process, a device interrupt, the end of a quantum, a signal to a process, and the choice of
  a process at \<open>restart\<close>.
\<close>

datatype kernel_event =
  Call int int u32
| Device int
| Quantum
| Signal int int
| Restart

definition legal_event :: "kernel \<Rightarrow> kernel_event \<Rightarrow> bool" where
  "legal_event s e =
     (case e of
        Call f d m \<Rightarrow> proc_ptr s \<noteq> IDLE \<and> (odd f \<longrightarrow> isuserp (proc_ptr s) \<or> d \<noteq> ANY)
      | Device t \<Rightarrow> isokprocn t \<and> istaskp t
      | Quantum \<Rightarrow> True
      | Signal p n \<Rightarrow> isoksusern p
      | Restart \<Rightarrow> True)"

definition kernel_do :: "kernel_event \<Rightarrow> kernel \<Rightarrow> kernel outcome" where
  "kernel_do e s =
     (case e of
        Call f d m \<Rightarrow> and_then (sys_call f d m s) (\<lambda>(n, s1). Done s1)
      | Device t \<Rightarrow> interrupt t s
      | Quantum \<Rightarrow> lock_sched s
      | Signal p n \<Rightarrow> cause_sig p n s
      | Restart \<Rightarrow> Done (lock_pick_proc s))"

inductive kernel_run :: "kernel \<Rightarrow> kernel \<Rightarrow> bool" where
  run_refl: "kernel_run s s"
| run_step: "kernel_run s s1 \<Longrightarrow> legal_event s1 e \<Longrightarrow> kernel_do e s1 = Done s2 \<Longrightarrow> kernel_run s s2"

lemma kernel_do_ok:
  assumes m: "machine_ok s" and l: "legal_event s e"
  shows "\<exists>s'. kernel_do e s = Done s' \<and> machine_ok s'"
proof -
  from m obtain k: "kinv 0 s (ready_list s) (caller_list s)" and c: "cpu_ok s (ready_list s)" and h: "held_rep s (held_list s)"
    by (rule machine_okE)
  note keep = held_rep_view [THEN iffD2, OF _ h]
  show ?thesis
  proof (cases e)
    case (Call f d msg)
    then have ne: "proc_ptr s \<noteq> IDLE" and dst: "odd f \<Longrightarrow> isuserp (proc_ptr s) \<or> d \<noteq> ANY"
      using l by (auto simp: legal_event_def)
    obtain n s' rq' cq' where s': "sys_call f d msg s = Done (n, s')" "kinv 0 s' rq' cq'" "cpu_ok s' rq'"
      by (rule sys_call_rep [OF k c ne dst])
    then have "machine_ok s'" using keep [OF held_view_sys_call] by (blast intro: machine_okI)
    then show ?thesis using s'(1) Call by (simp add: kernel_do_def)
  next
    case (Device t)
    then show ?thesis using interrupt_machine [OF m, of t] l by (auto simp: legal_event_def kernel_do_def)
  next
    case Quantum
    obtain s' rq' where s': "lock_sched s = Done s'" "kinv 0 s' rq' (caller_list s)" "cpu_ok s' rq'"
      by (rule lock_sched_rep [OF k]) (use c in auto)
    then have "machine_ok s'" using keep [OF held_view_locked(3)] by (blast intro: machine_okI)
    then show ?thesis using s'(1) Quantum by (simp add: kernel_do_def)
  next
    case (Signal p n)
    obtain s' rq' where s': "cause_sig p n s = Done s'" "kinv 0 s' rq' (caller_list s)" "cpu_ok s' rq'"
      using cause_sig_rep [OF k, of p n] l Signal c by (auto simp: legal_event_def)
    then have "machine_ok s'" using keep [OF held_view_cause_sig] by (blast intro: machine_okI)
    then show ?thesis using s'(1) Signal by (simp add: kernel_do_def)
  next
    case Restart
    have "kinv 0 (lock_pick_proc s) (ready_list s) (caller_list s)" using k by simp
    moreover have "cpu_ok (lock_pick_proc s) (ready_list s)" using cpu_ok_pick_proc [OF kinvD(1) [OF k]] .
    ultimately have "machine_ok (lock_pick_proc s)" using keep [of "lock_pick_proc s"] by (auto intro: machine_okI)
    then show ?thesis using Restart by (simp add: kernel_do_def)
  qed
qed

text \<open>
  C5. From a well-formed kernel every sequence of system calls (with any function code, destination and
  buffer a process may pass, \<open>ANY\<close> as the target of a server's or task's send excepted), device
  interrupts, signals and quantum ends stays well formed: runnable processes are exactly those on
  the ready queue of their class, senders are on exactly one caller queue, \<open>sig_procs\<close> counts the
  processes with pending signals, and the processor runs the head of a ready queue or \<open>IDLE\<close>. In
  each such state every next move returns: no panic, no nil pointer, no endless walk of a queue.
\<close>

theorem kernel_run_safe:
  assumes "machine_ok s" and "kernel_run s s'"
  shows "machine_ok s' \<and> (\<forall>e. legal_event s' e \<longrightarrow> (\<exists>s2. kernel_do e s' = Done s2))"
proof -
  from assms(2,1) have "machine_ok s'"
  proof (induction rule: kernel_run.induct)
    case (run_step s s1 e s2)
    then show ?case using kernel_do_ok [of s1 e] by auto
  qed
  then show ?thesis using kernel_do_ok by blast
qed

theorem kernel_run_safe_witness:
  "machine_ok demo_kernel \<and> kernel_run demo_kernel (lock_pick_proc demo_kernel) \<and>
   (\<exists>s2. kernel_do (Call 2 ANY 512) (lock_pick_proc demo_kernel) = Done s2)"
proof -
  have r: "kernel_run demo_kernel (lock_pick_proc demo_kernel)"
    by (rule run_step [OF run_refl, where e = Restart]) (simp_all add: legal_event_def kernel_do_def)
  have "proc_ptr (lock_pick_proc demo_kernel) = 1" by (simp add: lock_pick_proc_def pick_proc_def demo_kernel_def)
  then have "legal_event (lock_pick_proc demo_kernel) (Call 2 ANY 512)" by (simp add: legal_event_def)
  then show ?thesis using kernel_run_safe [OF demo_machine r] demo_machine r by blast
qed

text \<open>
  C35. \<open>unhold\<close> flushes the held interrupts, however many nested interrupts of tasks arrive while it has
  interrupts enabled: it returns with an empty held queue and a well-formed kernel, and every task
  whose interrupt was held is runnable or has its interrupt recorded as blocked, so none is lost.
\<close>

theorem unhold_flushes_held:
  assumes "machine_ok s" "held_list s \<noteq> []" "k_reenter s = 0" "\<not> switching s"
    "\<forall>ts \<in> set arrivals. \<forall>t \<in> set ts. isokprocn t \<and> istaskp t"
  shows "\<exists>s'. unhold arrivals s = Done s' \<and> machine_ok s' \<and> held_list s' = [] \<and>
    (\<forall>t \<in> set (held_list s). p_int_blocked (proc_tab s' t) \<or> p_flags (proc_tab s' t) = {})"
proof -
  from assms(1) have "held_rep s (held_list s)" by (rule machine_okE)
  then have "length (held_list s) \<le> ALL_SLOTS" by (rule held_repD(6))
  then have "length arrivals + (if arrivals = [] then length (held_list s) else ALL_SLOTS) \<le> length arrivals + ALL_SLOTS"
    by simp
  from unhold_loop_flushes [OF assms this] obtain s' where
    "unhold_loop (length arrivals + ALL_SLOTS) arrivals s = Done s'" "machine_ok s'" "held_list s' = []"
    "\<And>t. t \<in> set (held_list s) \<or> noticed s t \<Longrightarrow> noticed s' t" by blast
  then show ?thesis using assms(4) unfolding unhold_def noticed_def by auto
qed

definition demo_held :: kernel where
  "demo_held = demo_kernel
     \<lparr>proc_tab := demo_proc(-3 := (demo_proc (-3))\<lparr>p_int_held := True\<rparr>), held_head := Some (-3), held_tail := Some (-3)\<rparr>"

lemma demo_held_machine: "machine_ok demo_held" "held_list demo_held = [-3]"
proof -
  let ?rq = "\<lambda>q. if q = SERVER_Q then [1] else if q = USER_Q then [2] else []"
  have "kinv 0 (upd_proc (-3) (\<lambda>r. r\<lparr>p_int_held := True\<rparr>) demo_kernel) ?rq (\<lambda>_. [])"
    by (rule kinv_proc_upd [OF demo_kinv]) auto
  then have k: "kinv 0 demo_held ?rq (\<lambda>_. [])"
    by (subst kinv_glob [of _ "upd_proc (-3) (\<lambda>r. r\<lparr>p_int_held := True\<rparr>) demo_kernel"]) (simp_all add: demo_held_def)
  have h: "held_rep demo_held [-3]" by (auto simp: held_rep_def demo_held_def proc_class_defs)
  show "machine_ok demo_held"
    by (rule machine_okI [OF k _ h]) (auto simp: cpu_ok_def demo_held_def intro!: exI [of _ SERVER_Q])
  show "held_list demo_held = [-3]" by (rule held_list_eq [OF h])
qed

theorem unhold_flushes_held_witness: "\<exists>s'. unhold [[-4], [-3, -5]] demo_held = Done s' \<and> held_list s' = []"
proof -
  have "k_reenter demo_held = 0" "\<not> switching demo_held" by (simp_all add: demo_held_def)
  with unhold_flushes_held [OF demo_held_machine(1), of "[[-4], [-3, -5]]"] demo_held_machine(2) show ?thesis
    by (auto simp: proc_class_defs)
qed

lemma click_number: "unat (ucast (drop_bit 8 (x :: u32)) :: u16) = (unat x div 256) mod 65536"
proof -
  have "unat (ucast (drop_bit 8 x) :: u16) = take_bit 16 (drop_bit 8 (unat x))"
    unfolding unsigned_ucast_eq unat_drop_bit_eq by simp
  then show ?thesis by (simp add: drop_bit_eq_div take_bit_eq_mod)
qed

text \<open>
  The check in \<open>mini_send\<close> that a message lies inside the caller's data segment looks at its last
  byte only: a message that starts on the last byte before the segment is accepted, for every
  non-empty segment that does not start at address 0.
\<close>

theorem mini_send_accepts_message_below_segment:
  assumes "mem_vir (p_map r Seg_D) \<noteq> 0" and "mem_len (p_map r Seg_D) \<noteq> 0"
  shows "\<not> bad_mess_addr r (clicks_bytes (mem_vir (p_map r Seg_D)) - 1)"
proof -
  define v where "v = mem_vir (p_map r Seg_D)"
  have v0: "0 < unat v" using assms(1) by (simp add: v_def unat_gt_0)
  have vb: "unat v < 65536" using unsigned_less [of v, where ?'a = nat] by simp
  have cb: "unat (clicks_bytes v) = unat v * 256"
    unfolding clicks_bytes_def unsigned_push_bit_eq unsigned_ucast_eq
    using vb by (simp add: push_bit_eq_mult take_bit_eq_mod)
  have lo: "unat (clicks_bytes v - 1) = unat v * 256 - 1" using v0 cb by (simp add: unat_sub_if_size)
  have sum: "clicks_bytes v - 1 + of_nat MESS_SIZE - 1 = clicks_bytes v + 24" by simp
  have hi: "unat (clicks_bytes v + 24) = unat v * 256 + 24" using vb cb by (simp add: unat_word_ariths)
  have "unat (ucast (drop_bit 8 (clicks_bytes v - 1)) :: u16) = unat v - 1"
    unfolding click_number lo using v0 vb by simp
  moreover have h: "(ucast (drop_bit 8 (clicks_bytes v + 24)) :: u16) = v"
  proof -
    have "unat (ucast (drop_bit 8 (clicks_bytes v + 24)) :: u16) = unat v"
      unfolding click_number hi using vb by simp
    then show ?thesis by (rule injD [OF inj_unsigned])
  qed
  ultimately have "\<not> (ucast (drop_bit 8 (clicks_bytes v + 24)) :: u16) < ucast (drop_bit 8 (clicks_bytes v - 1))"
    by (simp add: word_less_nat_alt)
  then show ?thesis
    unfolding bad_mess_addr_def v_def [symmetric] sum using h assms(2) by (simp add: Let_def)
qed


theorem mini_send_accepts_message_below_segment_witness:
  "\<not> bad_mess_addr ((demo_proc 2)\<lparr>p_map := (\<lambda>_. \<lparr>mem_vir = 16, mem_phys = 64, mem_len = 4\<rparr>)\<rparr>) (clicks_bytes 16 - 1)"
  using mini_send_accepts_message_below_segment
    [of "(demo_proc 2)\<lparr>p_map := (\<lambda>_. \<lparr>mem_vir = 16, mem_phys = 64, mem_len = 4\<rparr>)\<rparr>"] by simp

end
