(* ===== verification/Kernel_System.thy ===== *)
theory Kernel_System
  imports Kernel_IPC
begin

section \<open>Kernel: the system task (src/src/kernel/system.c, stshadow.c)\<close>

text \<open>
  The handlers of the system task, with the LISA branches compiled in, and the shadow routines of
  \<open>stshadow.c\<close> they still call. A handler takes the fields of the request message it reads and
  returns the reply code, the fields of the reply it sets, and the new state of the kernel.

  \<^item> Virtual addresses and byte counts are \<open>long\<close>: 32-bit words read signed where the C code compares
    them signed.
  \<^item> \<open>phys_copy\<close>, \<open>copyclicks\<close> and \<open>zeroclicks\<close> (\<open>copy68k.s\<close>) act on the byte memory; a copy reads
    all its source before it writes, which is what the assembly does for areas that do not overlap.
  \<^item> Accounting times are unbounded integers.
  \<^item> The addresses of kernel variables (\<open>&proc[k].p_map\<close>, \<open>sig_stuff\<close>, \<open>boot_parameters\<close>) are chosen by the
    linker and the layout of \<open>struct proc\<close> by the compiler: they are parameters.
  \<^item> \<open>set_name\<close> (the F1 process display of \<open>stdmp.c\<close>) has no effect on this state.
\<close>

subsection \<open>Constants\<close>

abbreviation (input) E_BAD_PROC :: int where "E_BAD_PROC \<equiv> -11"
abbreviation (input) E_BAD_FCN :: int where "E_BAD_FCN \<equiv> -9"
abbreviation (input) EIO :: int where "EIO \<equiv> -5"
abbreviation (input) EFAULT :: int where "EFAULT \<equiv> -14"
abbreviation (input) SIGTRAP :: int where "SIGTRAP \<equiv> 5"
abbreviation (input) TRACEBIT :: u16 where "TRACEBIT \<equiv> 0x8000"
abbreviation (input) SIG_PUSH_BYTES :: nat where "SIG_PUSH_BYTES \<equiv> 8"

subsection \<open>Addresses\<close>

text \<open>\<open>T\<close>, \<open>D\<close> and \<open>S\<close> as numbers; \<open>umap\<close> takes any number other than \<open>T\<close> to mean data or stack.\<close>

definition seg_of :: "int \<Rightarrow> segment" where
  "seg_of n = (if n = 0 then Seg_T else if n = 1 then Seg_D else Seg_S)"

definition seg_end :: "mem_map \<Rightarrow> u16" where
  "seg_end mp = mem_vir mp + mem_len mp"

definition umap :: "proc \<Rightarrow> segment \<Rightarrow> u32 \<Rightarrow> u32 \<Rightarrow> u32" where
  "umap rp seg0 vir_addr bytes =
     (if sint bytes \<le> 0 then 0
      else
        let vc = (ucast (drop_bit 8 (vir_addr + bytes - 1)) :: u16);
            seg = (if seg0 \<noteq> Seg_T
                   then (if vc < seg_end (p_map rp Seg_D) then Seg_D else Seg_S) else Seg_T)
        in if uint (seg_end (p_map rp seg)) \<le> sint (signed_drop_bit 8 vir_addr) then 0
           else clicks_bytes (mem_phys (p_map rp seg)) +
                (vir_addr - clicks_bytes (mem_vir (p_map rp seg))))"

definition numap :: "int \<Rightarrow> u32 \<Rightarrow> u32 \<Rightarrow> kernel \<Rightarrow> u32" where
  "numap proc_nr vir_addr bytes s = umap (proc_tab s proc_nr) Seg_D vir_addr bytes"

definition phys_copy :: "u32 \<Rightarrow> u32 \<Rightarrow> nat \<Rightarrow> kernel \<Rightarrow> kernel" where
  "phys_copy src dst n s = s\<lparr>ram := copy_bytes src dst n (ram s)\<rparr>"

definition copyclicks :: "u16 \<Rightarrow> u16 \<Rightarrow> u16 \<Rightarrow> kernel \<Rightarrow> kernel" where
  "copyclicks c1 c2 nc s = phys_copy (clicks_bytes c1) (clicks_bytes c2) (unat nc * 256) s"

definition zeroclicks :: "u16 \<Rightarrow> u16 \<Rightarrow> kernel \<Rightarrow> kernel" where
  "zeroclicks c nc s =
     s\<lparr>ram := (\<lambda>a. if unat (a - clicks_bytes c) < unat nc * 256 then 0 else ram s a)\<rparr>"

definition put32 :: "u32 \<Rightarrow> u32 \<Rightarrow> (u32 \<Rightarrow> u8) \<Rightarrow> (u32 \<Rightarrow> u8)" where
  "put32 a v m = m(a := ucast (drop_bit 24 v), a + 1 := ucast (drop_bit 16 v),
                   a + 2 := ucast (drop_bit 8 v), a + 3 := ucast v)"

definition get32 :: "(u32 \<Rightarrow> u8) \<Rightarrow> u32 \<Rightarrow> u32" where
  "get32 m a = push_bit 24 (ucast (m a)) OR push_bit 16 (ucast (m (a + 1))) OR
               push_bit 8 (ucast (m (a + 2))) OR ucast (m (a + 3))"

definition get_u16 :: "(u32 \<Rightarrow> u8) \<Rightarrow> u32 \<Rightarrow> u16" where
  "get_u16 m a = word_of_int (get16 m a)"

subsection \<open>Shadows (\<open>stshadow.c\<close>)\<close>

definition data_clicks :: "proc \<Rightarrow> u16" where
  "data_clicks r = mem_phys (p_map r Seg_S) - mem_phys (p_map r Seg_D) + mem_len (p_map r Seg_S)"

definition mkshadow :: "int \<Rightarrow> u16 \<Rightarrow> kernel \<Rightarrow> kernel" where
  "mkshadow p c2 s =
     (let r = proc_tab s p;
          c1 = (if p_shadow r \<noteq> 0 then p_shadow r else mem_phys (p_map r Seg_D))
      in copyclicks c1 c2 (data_clicks r) (upd_proc p (\<lambda>r. r\<lparr>p_shadow := c2\<rparr>) s))"

definition user_slots :: "int list" where
  "user_slots = [LOW_USER..NR_PROCS - 1]"

definition shares_image :: "kernel \<Rightarrow> int \<Rightarrow> int \<Rightarrow> bool" where
  "shares_image s p q \<longleftrightarrow>
     P_SLOT_FREE \<notin> p_flags (proc_tab s q) \<and> q \<noteq> p \<and>
     mem_phys (p_map (proc_tab s q) Seg_D) = mem_phys (p_map (proc_tab s p) Seg_D)"

definition rmshadow :: "int \<Rightarrow> kernel \<Rightarrow> ((u16 \<times> u16) \<times> kernel) outcome" where
  "rmshadow p s =
     (let r = proc_tab s p; nc = data_clicks r in
      if p_shadow r \<noteq> 0
      then Done ((p_shadow r, nc), upd_proc p (\<lambda>r. r\<lparr>p_shadow := 0\<rparr>) s)
      else
        (case find (shares_image s p) user_slots of
           None \<Rightarrow> Done ((mem_phys (p_map r Seg_T), nc + mem_len (p_map r Seg_T)), s)
         | Some q \<Rightarrow>
             if p_shadow (proc_tab s q) = 0 then Panic ''no shadow?''
             else if p_physio (proc_tab s q) then Panic ''rmshadow: cannot handle physio shadows''
             else let sh = p_shadow (proc_tab s q);
                      s1 = copyclicks sh (mem_phys (p_map r Seg_D)) nc s
                  in and_then (if p_flags (proc_tab s1 q) = {} then lock_unready q s1 else Done s1)
                       (\<lambda>s2. let s3 = upd_proc q (\<lambda>r. r\<lparr>p_shadow := 0\<rparr>) s2 in
                         and_then (if p_flags (proc_tab s3 q) = {} then lock_ready q s3 else Done s3)
                           (\<lambda>s4. Done ((sh, nc), s4)))))"

subsection \<open>Processes come and go\<close>

definition shift_map :: "proc \<Rightarrow> u16 \<Rightarrow> segment \<Rightarrow> mem_map" where
  "shift_map r base =
     (\<lambda>g. (p_map r g)\<lparr>mem_phys := base + (mem_phys (p_map r g) - mem_phys (p_map r Seg_T))\<rparr>)"

definition do_fork :: "int \<Rightarrow> int \<Rightarrow> int \<Rightarrow> u16 \<Rightarrow> kernel \<Rightarrow> int \<times> kernel" where
  "do_fork proc1 proc2 pid child_base s =
     (if \<not> isoksusern proc1 \<or> \<not> isoksusern proc2 then (E_BAD_PROC, s)
      else
        let rpp = proc_tab s proc1;
            s1 = s\<lparr>proc_tab := (proc_tab s)(proc2 := rpp)\<rparr>;
            s2 = upd_proc proc2
                   (\<lambda>r. r\<lparr>p_nr := proc2, p_flags := p_flags r - {PENDING, SIG_PENDING, P_STOP},
                          p_pending := 0, p_pendcount := 0, p_pid := pid,
                          p_reg := (p_reg r)\<lparr>sf_reg := (sf_reg (p_reg r))(REG_RET := 0)\<rparr>,
                          user_time := 0, sys_time := 0, child_utime := 0, child_stime := 0\<rparr>) s1;
            nc = mem_phys (p_map rpp Seg_S) - mem_phys (p_map rpp Seg_T) + mem_len (p_map rpp Seg_S);
            s3 = copyclicks (mem_phys (p_map rpp Seg_T)) child_base nc s2
        in (OK, upd_proc proc2 (\<lambda>r. r\<lparr>p_map := shift_map rpp child_base, p_nflips := 0\<rparr>) s3))"

text \<open>The memory map is three triples of 16-bit words in the caller's memory.\<close>

definition read_map :: "(u32 \<Rightarrow> u8) \<Rightarrow> u32 \<Rightarrow> segment \<Rightarrow> mem_map" where
  "read_map m a g =
     (let o' = a + (case g of Seg_T \<Rightarrow> 0 | Seg_D \<Rightarrow> 6 | Seg_S \<Rightarrow> 12)
      in \<lparr>mem_vir = get_u16 m o', mem_phys = get_u16 m (o' + 2), mem_len = get_u16 m (o' + 4)\<rparr>)"

definition do_newmap :: "u32 \<Rightarrow> int \<Rightarrow> int \<Rightarrow> u32 \<Rightarrow> kernel \<Rightarrow> (int \<times> kernel) outcome" where
  "do_newmap vsys caller k map_ptr s =
     (if \<not> isokprocn k then Done (E_BAD_PROC, s)
      else
        let src_phys = umap (proc_tab s caller) Seg_D map_ptr 18;
            dst_phys = umap (proc_tab s (proc_ptr s)) Seg_D vsys 18
        in if src_phys = 0 then Panic ''bad call to sys_newmap (src)''
           else if dst_phys = 0 then Panic ''bad call to sys_newmap (dst)''
           else Done (OK, upd_proc k (\<lambda>r. r\<lparr>p_map := read_map (ram s) src_phys\<rparr>) s))"

definition set_reg :: "nat \<Rightarrow> u32 \<Rightarrow> proc \<Rightarrow> proc" where
  "set_reg i v r = r\<lparr>p_reg := (p_reg r)\<lparr>sf_reg := (sf_reg (p_reg r))(i := v)\<rparr>\<rparr>"

definition do_exec :: "int \<Rightarrow> int \<Rightarrow> u32 \<Rightarrow> kernel \<Rightarrow> (int \<times> kernel) outcome" where
  "do_exec proc1 proc2 sp s =
     (if \<not> isoksusern proc1 then Done (E_BAD_PROC, s)
      else and_then (if proc2 \<noteq> 0 then cause_sig proc1 SIGTRAP s else Done s)
        (\<lambda>s1. let s2 = upd_proc proc1
                   (\<lambda>r. (set_reg REG_PC (clicks_bytes (mem_vir (p_map r Seg_T))) (set_reg REG_SP sp r))
                          \<lparr>p_splow := sp, p_alarm := 0, p_flags := p_flags r - {RECEIVING}\<rparr>) s1
               in and_then (if p_flags (proc_tab s2 proc1) = {} then lock_ready proc1 s2 else Done s2)
                    (\<lambda>s3. Done (OK, s3))))"

text \<open>The exiting process is unlinked from whatever caller queue it is on: the loop over all slots.\<close>

fun unqueue :: "int \<Rightarrow> int list \<Rightarrow> kernel \<Rightarrow> kernel outcome" where
  "unqueue rc [] s = Done s"
| "unqueue rc (p # ps) s =
     (case p_callerq (proc_tab s p) of
        None \<Rightarrow> unqueue rc ps s
      | Some x \<Rightarrow>
          if x = rc
          then Done (upd_proc p (\<lambda>r. r\<lparr>p_callerq := p_sendlink (proc_tab s rc)\<rparr>) s)
          else (case chain_find (sendlink s) (\<lambda>y. p_sendlink (proc_tab s y) = Some rc) ALL_SLOTS None (Some x) of
                  None \<Rightarrow> Stuck
                | Some (_, None) \<Rightarrow> unqueue rc ps s
                | Some (_, Some y) \<Rightarrow>
                    unqueue rc ps (upd_proc y (\<lambda>r. r\<lparr>p_sendlink := p_sendlink (proc_tab s rc)\<rparr>) s)))"

definition all_slots :: "int list" where
  "all_slots = [- NR_TASKS..NR_PROCS - 1]"

definition do_xit :: "int \<Rightarrow> int \<Rightarrow> kernel \<Rightarrow> (int \<times> (u16 \<times> u16) \<times> kernel) outcome" where
  "do_xit parent proc_nr s =
     (if \<not> isoksusern parent \<or> \<not> isoksusern proc_nr then Done (E_BAD_PROC, (0, 0), s)
      else
        let rc = proc_tab s proc_nr;
            s1 = upd_proc parent (\<lambda>r. r\<lparr>child_utime := child_utime r + (user_time rc + child_utime rc),
                                      child_stime := child_stime r + (sys_time rc + child_stime rc)\<rparr>) s;
            s2 = upd_proc proc_nr (\<lambda>r. r\<lparr>p_alarm := 0\<rparr>) s1
        in and_then (if p_flags (proc_tab s2 proc_nr) = {} then lock_unready proc_nr s2 else Done s2)
          (\<lambda>s3. and_then (rmshadow proc_nr s3)
          (\<lambda>(area, s4). and_then
             (if SENDING \<in> p_flags (proc_tab s4 proc_nr) then unqueue proc_nr all_slots s4 else Done s4)
          (\<lambda>s5. let s6 = (if PENDING \<in> p_flags (proc_tab s5 proc_nr)
                          then s5\<lparr>sig_procs := sig_procs s5 - 1\<rparr> else s5)
                in Done (OK, area, upd_proc proc_nr
                     (\<lambda>r. r\<lparr>p_pending := 0, p_pendcount := 0, p_flags := {P_SLOT_FREE}\<rparr>) s6)))))"

subsection \<open>Small requests\<close>

definition do_getsp :: "int \<Rightarrow> kernel \<Rightarrow> int \<times> u32" where
  "do_getsp proc1 s =
     (if \<not> isoksusern proc1 then (E_BAD_PROC, 0) else (OK, sf_reg (p_reg (proc_tab s proc1)) REG_SP))"

definition do_times :: "int \<Rightarrow> kernel \<Rightarrow> int \<times> int list" where
  "do_times proc1 s =
     (if \<not> isoksusern proc1 then (E_BAD_PROC, [])
      else let r = proc_tab s proc1 in (OK, [user_time r, sys_time r, child_utime r, child_stime r]))"

definition do_abort :: "kernel \<Rightarrow> (int \<times> kernel) outcome" where
  "do_abort s = Panic ''''"

definition do_fresh :: "u32 \<Rightarrow> int \<Rightarrow> int \<Rightarrow> u16 \<Rightarrow> u32 \<Rightarrow> kernel \<Rightarrow> (int \<times> (u16 \<times> u16) \<times> kernel) outcome" where
  "do_fresh vsys caller proc_nr skip map_ptr s =
     (if proc_nr < 0 \<or> NR_PROCS \<le> proc_nr then Done (E_BAD_PROC, (0, 0), s)
      else and_then (rmshadow proc_nr s)
        (\<lambda>(area, s1). and_then (do_newmap vsys caller proc_nr map_ptr s1)
          (\<lambda>(_, s2). let r = proc_tab s2 proc_nr;
                         c1 = mem_phys (p_map r Seg_D) + skip;
                         nc = data_clicks r - skip
                     in Done (OK, area, zeroclicks c1 nc s2))))"

text \<open>\<open>build_sig\<close> lays out the signal frame: signal number, status word, program counter.\<close>

definition build_sig :: "u32 \<Rightarrow> proc \<Rightarrow> int \<Rightarrow> kernel \<Rightarrow> kernel" where
  "build_sig stuff r sig s =
     s\<lparr>ram := put32 (stuff + 4) (sf_reg (p_reg r) REG_PC)
               (put16 (stuff + 2) (uint (sf_psw (p_reg r))) (put16 stuff sig (ram s)))\<rparr>"

definition do_sig :: "u32 \<Rightarrow> int \<Rightarrow> int \<Rightarrow> u32 \<Rightarrow> kernel \<Rightarrow> (int \<times> kernel) outcome" where
  "do_sig sig_stuff proc_nr sig sig_handler s =
     (if \<not> isokusern proc_nr then Done (E_BAD_PROC, s)
      else if sig = -1
      then and_then (done_one_sig proc_nr s) (\<lambda>s1. Done (OK, s1))
      else
        let rp = proc_tab s proc_nr;
            s1 = build_sig sig_stuff rp sig s;
            new_sp = sf_reg (p_reg rp) REG_SP - of_nat SIG_PUSH_BYTES;
            src_phys = umap (proc_tab s1 (proc_ptr s1)) Seg_D sig_stuff (of_nat SIG_PUSH_BYTES);
            dst_phys = umap (proc_tab s1 proc_nr) Seg_S new_sp (of_nat SIG_PUSH_BYTES)
        in if dst_phys = 0 then Panic ''do_sig can't signal; SP bad''
           else Done (OK, upd_proc proc_nr (\<lambda>r. set_reg REG_PC sig_handler (set_reg REG_SP new_sp r))
                            (phys_copy src_phys dst_phys SIG_PUSH_BYTES s1)))"

definition do_kill :: "int \<Rightarrow> int \<Rightarrow> kernel \<Rightarrow> (int \<times> kernel) outcome" where
  "do_kill proc_nr sig s =
     (if \<not> isokusern proc_nr then Done (E_BAD_PROC, s)
      else and_then (cause_sig proc_nr sig s) (\<lambda>s1. Done (OK, s1)))"

definition do_copy :: "int \<Rightarrow> segment \<Rightarrow> u32 \<Rightarrow> int \<Rightarrow> segment \<Rightarrow> u32 \<Rightarrow> u32 \<Rightarrow> kernel \<Rightarrow> int \<times> kernel" where
  "do_copy src_proc src_space src_vir dst_proc dst_space dst_vir bytes s =
     (let src_phys = umap (proc_tab s src_proc) src_space src_vir bytes;
          dst_phys = umap (proc_tab s dst_proc) dst_space dst_vir bytes
      in if src_phys = 0 \<or> dst_phys = 0 then (EFAULT, s)
         else (OK, phys_copy src_phys dst_phys (unat bytes) s))"

definition do_umap :: "int \<Rightarrow> segment \<Rightarrow> u32 \<Rightarrow> u32 \<Rightarrow> kernel \<Rightarrow> int \<times> u32" where
  "do_umap proc_nr seg vir bytes s = (OK, umap (proc_tab s proc_nr) seg vir bytes)"

definition do_gboot :: "u32 \<Rightarrow> nat \<Rightarrow> int \<Rightarrow> u32 \<Rightarrow> kernel \<Rightarrow> (int \<times> kernel) outcome" where
  "do_gboot boot_addr boot_size proc1 mem_ptr s =
     (let src_phys = umap (proc_tab s (proc_ptr s)) Seg_D boot_addr (of_nat boot_size);
          dst_phys = umap (proc_tab s proc1) Seg_D mem_ptr (of_nat boot_size)
      in if dst_phys = 0 then Panic ''bad call to SYS_GBOOT''
         else Done (OK, phys_copy src_phys dst_phys boot_size s))"

text \<open>\<open>do_mem\<close> hands out all of memory on the first call; \<open>beenhere\<close> is its static variable.\<close>

definition do_mem :: "u32 \<Rightarrow> int \<Rightarrow> (int \<times> u16 \<times> u32) \<times> int" where
  "do_mem user_mem_end beenhere =
     (if beenhere \<noteq> 0 then ((OK, 0, 0), beenhere)
      else ((OK, ucast (drop_bit 8 user_mem_end), 0), beenhere + 1))"

subsection \<open>Tracing\<close>

text \<open>
  \<open>do_trace\<close> returns the reply code, the new value of \<open>DATA\<close> and the state. \<open>data_addr\<close> is the address
  of the message's data field in the kernel, \<open>slot_long r i\<close> the longword at offset \<open>i\<close> of the process
  slot and \<open>slot_size\<close> the size of a slot.
\<close>

definition trace_get :: "int \<Rightarrow> segment \<Rightarrow> u32 \<Rightarrow> int \<Rightarrow> kernel \<Rightarrow> int \<times> int \<times> kernel" where
  "trace_get p seg addr dat s =
     (let src = umap (proc_tab s p) seg addr 4
      in if src = 0 then (EIO, dat, s) else (OK, sint (get32 (ram s) src), s))"

definition trace_set :: "int \<Rightarrow> segment \<Rightarrow> u32 \<Rightarrow> int \<Rightarrow> kernel \<Rightarrow> int \<times> int \<times> kernel" where
  "trace_set p seg addr dat s =
     (let dst = umap (proc_tab s p) seg addr 4
      in if dst = 0 then (EIO, dat, s) else (OK, 0, s\<lparr>ram := put32 dst (word_of_int dat) (ram s)\<rparr>))"

definition trace_seg :: "int \<Rightarrow> kernel \<Rightarrow> segment" where
  "trace_seg p s = (if mem_len (p_map (proc_tab s p) Seg_T) \<noteq> 0 then Seg_T else Seg_D)"

text \<open>\<open>SETBITS\<close>: only the low byte of the status word may be changed.\<close>

definition setbits :: "int \<Rightarrow> u16 \<Rightarrow> u16" where
  "setbits new psw = (psw AND NOT 0xFF) OR (word_of_int new AND 0xFF)"

definition trace_reg :: "int \<Rightarrow> u32 \<Rightarrow> int \<Rightarrow> kernel \<Rightarrow> kernel" where
  "trace_reg p addr dat s =
     (if addr = 68
      then upd_proc p (\<lambda>r. r\<lparr>p_reg := (p_reg r)\<lparr>sf_psw := setbits dat (sf_psw (p_reg r))\<rparr>\<rparr>) s
      else upd_proc p (set_reg (unat addr div 4) (word_of_int dat)) s)"

definition trace_resume :: "int \<Rightarrow> kernel \<Rightarrow> (int \<times> int \<times> kernel) outcome" where
  "trace_resume p s =
     (let s1 = upd_proc p (\<lambda>r. r\<lparr>p_flags := p_flags r - {P_STOP}\<rparr>) s in
      and_then (if p_flags (proc_tab s1 p) = {} then lock_ready p s1 else Done s1)
        (\<lambda>s2. Done (OK, 0, s2)))"

definition set_psw :: "(u16 \<Rightarrow> u16) \<Rightarrow> proc \<Rightarrow> proc" where
  "set_psw f r = r\<lparr>p_reg := (p_reg r)\<lparr>sf_psw := f (sf_psw (p_reg r))\<rparr>\<rparr>"

text \<open>
  The address is a \<open>long\<close> for the tests of requests 3 and 6 and is then cut to an \<open>int\<close>: a negative one passes the tests and
  may name memory outside of the slot or its registers, where the model is \<open>Stuck\<close>.
\<close>

definition do_trace :: "(proc \<Rightarrow> nat \<Rightarrow> int) \<Rightarrow> int \<Rightarrow> int \<Rightarrow> int \<Rightarrow> u32 \<Rightarrow> int \<Rightarrow> kernel \<Rightarrow> (int \<times> int \<times> kernel) outcome" where
  "do_trace slot_long slot_size p request addr dat s =
     (if P_SLOT_FREE \<in> p_flags (proc_tab s p) then Done (EIO, dat, s)
      else if request = -1
      then and_then (lock_unready p s)
             (\<lambda>s1. Done (OK, dat, upd_proc p (\<lambda>r. set_psw (\<lambda>w. w AND NOT TRACEBIT)
                                               (r\<lparr>p_flags := insert P_STOP (p_flags r)\<rparr>)) s1))
      else if request = 1 then Done (trace_get p (trace_seg p s) addr dat s)
      else if request = 2 then Done (trace_get p Seg_D addr dat s)
      else if request = 3
      then (if addr AND 3 \<noteq> 0 \<or> slot_size - 4 < sint addr then Done (EIO, dat, s)
            else let i = sint (ucast addr :: u16)
                 in if 0 \<le> i \<and> i \<le> slot_size - 4 then Done (OK, slot_long (proc_tab s p) (nat i), s) else Stuck)
      else if request = 4 then Done (trace_set p (trace_seg p s) addr dat s)
      else if request = 5 then Done (trace_set p Seg_D addr dat s)
      else if request = 6
      then (if addr AND 3 \<noteq> 0 \<or> 72 - 4 < sint addr then Done (EIO, dat, s)
            else let i = sint (ucast addr :: u16)
                 in if 0 \<le> i \<and> i \<le> 72 - 4 then Done (OK, 0, trace_reg p (word_of_int i) dat s) else Stuck)
      else if request = 7 then trace_resume p s
      else if request = 9
      then trace_resume p (upd_proc p (set_psw (\<lambda>w. w OR TRACEBIT)) s)
      else Done (EIO, dat, s))"

subsection \<open>Exit\<close>

lemma unqueue_skip:
  assumes "\<And>p. p \<in> set ps \<Longrightarrow> chain (sendlink s) (p_callerq (proc_tab s p)) (cq p) \<and>
             length (cq p) \<le> ALL_SLOTS \<and> rc \<notin> set (cq p)"
  shows "unqueue rc (ps @ qs) s = unqueue rc qs s"
  using assms
proof (induction ps)
  case (Cons p ps)
  then have IH: "unqueue rc (ps @ qs) s = unqueue rc qs s" by simp
  have c: "chain (sendlink s) (p_callerq (proc_tab s p)) (cq p)" "length (cq p) \<le> ALL_SLOTS" "rc \<notin> set (cq p)"
    using Cons.prems [OF list.set_intros(1)] by blast+
  show ?case
  proof (cases "p_callerq (proc_tab s p)")
    case (Some x)
    with c(1) have ch: "chain (sendlink s) (Some x) (cq p)" by simp
    then have x: "x \<noteq> rc" using c(3) by (auto simp: chain_Some_iff)
    from ch c(2) show ?thesis
    proof (cases rule: chain_find_cases [where P = "\<lambda>y. p_sendlink (proc_tab s y) = Some rc" and prev = None])
      case none
      then show ?thesis using x IH by (simp add: Some del: chain_numeral)
    next
      case (some us y vs)
      then obtain ws where "vs = rc # ws" using chain_succ [of "sendlink s" "Some x" us y vs rc] ch by auto
      then show ?thesis using some(1) c(3) by simp
    qed
  qed (use IH in simp)
qed simp

text \<open>The state after the exiting process \<open>rc\<close>, after \<open>us\<close> on the queue of \<open>d\<close>, has been unlinked.\<close>

definition unlinked :: "int \<Rightarrow> int list \<Rightarrow> int \<Rightarrow> kernel \<Rightarrow> kernel" where
  "unlinked d us rc s =
     (if us = [] then upd_proc d (\<lambda>r. r\<lparr>p_callerq := p_sendlink (proc_tab s rc)\<rparr>) s
      else upd_proc (last us) (\<lambda>r. r\<lparr>p_sendlink := p_sendlink (proc_tab s rc)\<rparr>) s)"

lemma unqueue_at:
  assumes c: "chain (sendlink s) (p_callerq (proc_tab s d)) (us @ rc # vs)" and l: "length (us @ rc # vs) \<le> ALL_SLOTS"
    and rest: "us \<noteq> [] \<Longrightarrow> unqueue rc ps (unlinked d us rc s) = Done (unlinked d us rc s)"
  shows "unqueue rc (d # ps) s = Done (unlinked d us rc s)"
proof (cases us)
  case Nil
  then show ?thesis using c by (auto simp: unlinked_def)
next
  case (Cons a as)
  then have h: "p_callerq (proc_tab s d) = Some a" using c by (simp add: chain_Some_iff)
  have dist: "distinct (us @ rc # vs)" using chain_distinct [OF c] .
  then have a: "a \<noteq> rc" using Cons by auto
  have c1: "chain (sendlink s) (Some a) (us @ rc # vs)" using c h by simp
  then show ?thesis using l
  proof (cases rule: chain_find_cases [where P = "\<lambda>y. p_sendlink (proc_tab s y) = Some rc" and prev = None])
    case none
    then show ?thesis using chain_pred [OF c1, of rc] a by auto
  next
    case (some xs y zs)
    then obtain ws where zs: "zs = rc # ws" using chain_succ [of "sendlink s" "Some a" xs y zs rc] c1 by auto
    then have "us = xs @ [y]" using some(1) dist by (auto simp: append_eq_append_conv2 append_eq_Cons_conv Cons_eq_append_conv)
    then have u: "unlinked d us rc s = upd_proc y (\<lambda>r. r\<lparr>p_sendlink := p_sendlink (proc_tab s rc)\<rparr>) s"
      by (simp add: unlinked_def)
    have "us \<noteq> []" using Cons by simp
    from rest [OF this] show ?thesis using a some(4) by (simp add: h u del: chain_numeral)
  qed
qed

lemma lock_sleep_rep:
  assumes r: "rq_rep s rq" and l: "live_at s rq p"
  obtains s' b where "(if p_flags (proc_tab s p) = {} then lock_unready p s else Done s) = Done s'"
    "rq_rep s' (asleep s p rq)" "sched_frame (s\<lparr>switching := b\<rparr>) s'"
proof -
  let ?t = "s\<lparr>switching := True\<rparr>"
  have rt: "rq_rep ?t rq" "live_at ?t rq p" using r l by (simp_all add: rq_rep_cong [of ?t s] live_at_def)
  obtain t' where t': "(if p_flags (proc_tab ?t p) = {} then unready p ?t else Done ?t) = Done t'"
    "rq_rep t' (asleep ?t p rq)" "sched_frame ?t t'"
    by (rule sleep_rep [OF rt]) auto
  have a: "asleep ?t p rq = asleep s p rq" by (simp add: asleep_def)
  show ?thesis
  proof (cases "p_flags (proc_tab s p) = {}")
    case True
    obtain nx h tl pp bp where "t' = ?t\<lparr>proc_tab := (\<lambda>p. (proc_tab s p)\<lparr>p_nextready := nx p\<rparr>),
        rdy_head := h, rdy_tail := tl, proc_ptr := pp, bill_ptr := bp\<rparr>" using t'(3) by (auto simp: sched_frame_def)
    then have "sched_frame (?t\<lparr>switching := False\<rparr>) (t'\<lparr>switching := False\<rparr>)"
      by (intro sched_frameI [where nx = nx and h = h and t = tl and pp = pp and bp = bp]) simp
    moreover have "rq_rep (t'\<lparr>switching := False\<rparr>) (asleep s p rq)"
      using t'(2) a by (simp add: rq_rep_cong [of "t'\<lparr>switching := False\<rparr>" t'])
    ultimately show ?thesis
      using that [of "t'\<lparr>switching := False\<rparr>" False] t'(1) True by (simp add: lock_unready_def)
  next
    case False
    then have "rq_rep s (asleep s p rq)" using r l by (simp add: asleep_def live_at_def remove1_idem)
    then show ?thesis using that [of s "switching s"] False by simp
  qed
qed

lemma rmshadow_plain:
  assumes "p_shadow (proc_tab s p) = 0" and "\<And>q. isokusern q \<Longrightarrow> \<not> shares_image s p q"
  shows "rmshadow p s = Done ((mem_phys (p_map (proc_tab s p) Seg_T),
           data_clicks (proc_tab s p) + mem_len (p_map (proc_tab s p) Seg_T)), s)"
proof -
  have "find (shares_image s p) user_slots = None"
    using assms(2) by (auto simp: find_None_iff user_slots_def isokusern_def)
  then show ?thesis using assms(1) by (simp add: rmshadow_def Let_def)
qed

lemma pend_set_drop:
  assumes "\<And>x. x \<noteq> p \<Longrightarrow> p_flags (proc_tab s' x) = p_flags (proc_tab s x)" and "PENDING \<notin> p_flags (proc_tab s' p)"
    and "isoksusern p"
  shows "int (card (pend_set s')) = int (card (pend_set s)) - (if PENDING \<in> p_flags (proc_tab s p) then 1 else 0)"
proof -
  have "pend_set s' = pend_set s - {p}"
  proof (rule set_eqI)
    fix x show "x \<in> pend_set s' \<longleftrightarrow> x \<in> pend_set s - {p}"
      using assms(1) [of x] assms(2) by (cases "x = p") (auto simp: pend_set_def)
  qed
  moreover have "p \<in> pend_set s \<longleftrightarrow> PENDING \<in> p_flags (proc_tab s p)" using assms(3) by (simp add: pend_set_def)
  moreover have "0 < card (pend_set s)" if "p \<in> pend_set s"
    using that pend_set_susern(1) [of s] by (metis card_gt_0_iff empty_iff)
  ultimately show ?thesis using pend_set_susern(1) [of s]
    by (cases "p \<in> pend_set s") (simp_all add: card_Diff_singleton_if of_nat_diff)
qed

text \<open>The last assignments of \<open>do_xit\<close>, after the process has left the ready queues and, if it was sending, its caller queue.\<close>

lemma free_slot_kinv:
  assumes k: "kinv 0 s rq cq" and p: "isokusern p"
    and rq: "rq_rep t rq'" and rs: "\<And>x q. x \<in> set (rq' q) \<longleftrightarrow> x \<in> set (rq q) \<and> x \<noteq> p"
    and fr: "\<And>x. p_flags (proc_tab t x) = p_flags (proc_tab s x)" "\<And>x. p_nr (proc_tab t x) = p_nr (proc_tab s x)"
      "\<And>x. p_getfrom (proc_tab t x) = p_getfrom (proc_tab s x)" "\<And>x. p_pendcount (proc_tab t x) = p_pendcount (proc_tab s x)"
      "p_map (proc_tab t HARDWARE) = p_map (proc_tab s HARDWARE)" "sys_mess t = sys_mess s" "sig_procs t = sig_procs s"
      "\<And>x. queue_of t x = queue_of s x"
    and cq: "cq_rep (upd_proc p (\<lambda>r. r\<lparr>p_flags := p_flags r - {SENDING}\<rparr>) t) cq'"
    and s': "s' = upd_proc p (\<lambda>r. r\<lparr>p_pending := 0, p_pendcount := 0, p_flags := {P_SLOT_FREE}\<rparr>)
               (if PENDING \<in> p_flags (proc_tab t p) then t\<lparr>sig_procs := sig_procs t - 1\<rparr> else t)"
  shows "kinv 0 s' rq' cq'"
proof (rule kinvI)
  have ok: "isokprocn p" "isoksusern p" "p \<noteq> IDLE" "p \<noteq> HARDWARE" "0 \<le> p" "p \<noteq> MM_PROC_NR" using p by (auto simp: proc_class_defs)
  have f': "p_flags (proc_tab s' x) = (if x = p then {P_SLOT_FREE} else p_flags (proc_tab s x))"
    "p_nr (proc_tab s' x) = p_nr (proc_tab s x)" "p_getfrom (proc_tab s' x) = p_getfrom (proc_tab s x)"
    "p_pendcount (proc_tab s' x) = (if x = p then 0 else p_pendcount (proc_tab s x))"
    "queue_of s' x = queue_of s x" for x
    by (simp_all add: s' fr)
  show "rq_rep s' rq'" using rq by (subst rq_rep_cong [of s' t]) (simp_all add: s')
  let ?u = "upd_proc p (\<lambda>r. r\<lparr>p_flags := p_flags r - {SENDING}\<rparr>) t"
  show "cq_rep s' cq'" using cq by (subst cq_rep_cong [of s' ?u]) (simp_all add: s')
  show "live_at s' rq' x" if x: "isokprocn x" for x
    using kinvD(7) [OF k x] rs [of x "queue_of s x"] by (simp add: live_at_def f')
  have "int (card (pend_set s')) = int (card (pend_set s)) - (if PENDING \<in> p_flags (proc_tab s p) then 1 else 0)"
    by (rule pend_set_drop) (simp_all add: f' ok)
  moreover have "sig_procs s' = sig_procs s - (if PENDING \<in> p_flags (proc_tab s p) then 1 else 0)" by (simp add: s' fr)
  ultimately have c: "sig_procs s' + 0 = int (card (pend_set s'))" using slots_okD(7) [OF kinvD(4) [OF k]] by simp
  have hw: "p_map (proc_tab s' HARDWARE) = p_map (proc_tab s HARDWARE)" "sys_mess s' = sys_mess s"
    using ok fr by (simp_all add: s')
  note S = slots_okD [OF kinvD(4) [OF k]]
  show "slots_ok 0 s'" unfolding slots_ok_def f' c
    using S ok hw by (auto simp: isidlehardware_def bad_mess_addr_def)
qed

lemma unqueue_all:
  assumes c: "cq_rep s cq" and d: "isokprocn d" and cq: "cq d = us @ p # vs"
  shows "unqueue p all_slots s = Done (unlinked d us p s)"
proof -
  have "d \<in> set all_slots" "distinct all_slots" using d by (auto simp: all_slots_def isokprocn_def)
  then obtain as bs where as: "all_slots = as @ d # bs" and nd: "d \<notin> set as" "d \<notin> set bs"
    by (metis split_list distinct.simps(2) distinct_append not_distinct_conv_prefix)
  have ok: "isokprocn x" if "x \<in> set as \<union> set bs" for x
  proof -
    have "x \<in> set all_slots" unfolding as using that by auto
    then show ?thesis by (auto simp: all_slots_def isokprocn_def)
  qed
  have off: "p \<notin> set (cq x)" if "isokprocn x" "x \<noteq> d" for x using cq_repD(4) [OF c d that(1), of p] cq that(2) by auto
  have skip: "unqueue p (as @ xs) s = unqueue p xs s" for xs
  proof (rule unqueue_skip [where cq = cq])
    fix x assume "x \<in> set as"
    then have x: "isokprocn x" "x \<noteq> d" using ok nd(1) by auto
    then show "chain (sendlink s) (p_callerq (proc_tab s x)) (cq x) \<and> length (cq x) \<le> ALL_SLOTS \<and> p \<notin> set (cq x)"
      by (intro conjI cq_repD(1) [OF c] cq_length [OF c] off)
  qed
  let ?t = "unlinked d us p s" and ?w = "upd_proc p (\<lambda>r. r\<lparr>p_flags := p_flags r - {SENDING}\<rparr>) (unlinked d us p s)"
  have ct: "cq_rep ?w (cq(d := us @ vs))" by (rule unlink_sender(1) [OF c d cq unlinked_def refl])
  have "unqueue p (bs @ []) ?t = unqueue p [] ?t"
  proof (rule unqueue_skip [where cq = cq])
    fix x assume "x \<in> set bs"
    then have x: "isokprocn x" "x \<noteq> d" using ok nd(2) by auto
    have "chain (sendlink ?w) (p_callerq (proc_tab ?w x)) (cq x)" using cq_repD(1) [OF ct x(1)] x(2) by simp
    moreover have "sendlink ?w = sendlink ?t" "p_callerq (proc_tab ?w x) = p_callerq (proc_tab ?t x)" by simp_all
    ultimately show "chain (sendlink ?t) (p_callerq (proc_tab ?t x)) (cq x) \<and> length (cq x) \<le> ALL_SLOTS \<and> p \<notin> set (cq x)"
      using cq_length [OF c x(1)] off [OF x] by (simp only:) simp
  qed
  moreover have "chain (sendlink s) (p_callerq (proc_tab s d)) (us @ p # vs)" "length (us @ p # vs) \<le> ALL_SLOTS"
    using cq_repD(1) [OF c d] cq_length [OF c d] cq by auto
  ultimately have "unqueue p (d # bs) s = Done ?t" by (intro unqueue_at) auto
  then show ?thesis using skip [of "d # bs"] by (simp add: as)
qed

lemma do_xit_rep:
  assumes k: "kinv 0 s rq cq" and p: "isokusern p" and par: "isoksusern parent"
    and sh: "p_shadow (proc_tab s p) = 0" and im: "\<And>q. isokusern q \<Longrightarrow> \<not> shares_image s p q"
  obtains s' where "do_xit parent p s = Done (OK, (mem_phys (p_map (proc_tab s p) Seg_T),
        data_clicks (proc_tab s p) + mem_len (p_map (proc_tab s p) Seg_T)), s')"
    "kinv 0 s' (asleep s p rq) (\<lambda>d. remove1 p (cq d))"
    "\<And>x. p_flags (proc_tab s' x) = (if x = p then {P_SLOT_FREE} else p_flags (proc_tab s x))"
    "ram s' = ram s"
proof -
  have ok: "isokprocn p" "isoksusern p" using p by (auto simp: proc_class_defs)
  define s1 where "s1 = upd_proc parent (\<lambda>r. r\<lparr>child_utime := child_utime r + (user_time (proc_tab s p) + child_utime (proc_tab s p)),
     child_stime := child_stime r + (sys_time (proc_tab s p) + child_stime (proc_tab s p))\<rparr>) s"
  define s2 where "s2 = upd_proc p (\<lambda>r. r\<lparr>p_alarm := 0\<rparr>) s1"
  have k2: "kinv 0 s2 rq cq" unfolding s2_def s1_def by (intro kinv_proc_upd k) simp_all
  have f2: "p_flags (proc_tab s2 x) = p_flags (proc_tab s x)" "p_map (proc_tab s2 x) = p_map (proc_tab s x)"
    "p_shadow (proc_tab s2 x) = p_shadow (proc_tab s x)" "queue_of s2 x = queue_of s x" for x
    by (simp_all add: s2_def s1_def)
  obtain s3 b where s3: "(if p_flags (proc_tab s2 p) = {} then lock_unready p s2 else Done s2) = Done s3"
    "rq_rep s3 (asleep s2 p rq)" "sched_frame (s2\<lparr>switching := b\<rparr>) s3"
    by (rule lock_sleep_rep [OF kinvD(1) [OF k2] kinvD(3) [OF k2 ok(1)]])
  note F = sched_frameD [OF s3(3), simplified]
  have as: "asleep s2 p rq = asleep s p rq" by (simp add: asleep_def f2)
  have rm: "rmshadow p s3 = Done ((mem_phys (p_map (proc_tab s p) Seg_T),
        data_clicks (proc_tab s p) + mem_len (p_map (proc_tab s p) Seg_T)), s3)"
    using sh im by (subst rmshadow_plain) (simp_all add: F f2 shares_image_def data_clicks_def)
  have c3: "cq_rep s3 cq" using kinvD(2) [OF k2] by (subst cq_rep_cong [of s3 s2]) (simp_all add: F)
  obtain t where t: "(if SENDING \<in> p_flags (proc_tab s3 p) then unqueue p all_slots s3 else Done s3) = Done t"
    "link_frame s3 t" "cq_rep (upd_proc p (\<lambda>r. r\<lparr>p_flags := p_flags r - {SENDING}\<rparr>) t) (\<lambda>d. remove1 p (cq d))"
  proof (cases "SENDING \<in> p_flags (proc_tab s3 p)")
    case True
    then obtain d us vs where d: "isokprocn d" "cq d = us @ p # vs"
      using cq_repD(5) [OF c3 ok(1)] by (metis split_list)
    have dist: "distinct (us @ p # vs)" using chain_distinct [OF cq_repD(1) [OF c3 d(1)]] d(2) by simp
    have u: "unqueue p all_slots s3 = Done (unlinked d us p s3)" by (rule unqueue_all [OF c3 d])
    have l: "cq_rep (upd_proc p (\<lambda>r. r\<lparr>p_flags := p_flags r - {SENDING}\<rparr>) (unlinked d us p s3)) (cq(d := us @ vs))"
      "link_frame s3 (unlinked d us p s3)"
      using unlink_sender [OF c3 d refl refl] by (simp_all add: unlinked_def)
    have "cq_rep (upd_proc p (\<lambda>r. r\<lparr>p_flags := p_flags r - {SENDING}\<rparr>) (unlinked d us p s3)) (\<lambda>d. remove1 p (cq d))"
    proof (rule cq_rep_fun_cong [OF l(1)])
      show "remove1 p (cq x) = (cq(d := us @ vs)) x" if "isokprocn x" for x
        using cq_repD(4) [OF c3 d(1) that, of p] d(2) dist remove1_idem [of p "cq x"]
        by (cases "x = d") (auto simp: remove1_append)
    qed
    then show ?thesis using True u l that by simp
  next
    case False
    then have "p \<notin> set (cq d)" if "isokprocn d" for d using cq_repD(3) [OF c3 that] by blast
    then have "cq_rep s3 (\<lambda>d. remove1 p (cq d))"
      using c3 by (intro cq_rep_fun_cong [OF c3]) (simp add: remove1_idem)
    then have "cq_rep (upd_proc p (\<lambda>r. r\<lparr>p_flags := p_flags r - {SENDING}\<rparr>) s3) (\<lambda>d. remove1 p (cq d))"
      using False by (subst cq_rep_cong [of _ s3]) auto
    moreover have "link_frame s3 s3"
      by (rule link_frameI [where cq = "p_callerq \<circ> proc_tab s3" and sl = "sendlink s3"]) simp
    ultimately show ?thesis using False that [of s3] by simp
  qed
  note G = link_frameD [OF t(2)]
  define s' where "s' = upd_proc p (\<lambda>r. r\<lparr>p_pending := 0, p_pendcount := 0, p_flags := {P_SLOT_FREE}\<rparr>)
               (if PENDING \<in> p_flags (proc_tab t p) then t\<lparr>sig_procs := sig_procs t - 1\<rparr> else t)"
  have "do_xit parent p s = Done (OK, (mem_phys (p_map (proc_tab s p) Seg_T),
        data_clicks (proc_tab s p) + mem_len (p_map (proc_tab s p) Seg_T)), s')"
    using ok(2) par unfolding do_xit_def Let_def s1_def [symmetric] s2_def [symmetric] s'_def
    by (simp only: s3(1) and_then.simps rm prod.case t(1) simp_thms if_False)
  moreover have "kinv 0 s' (asleep s p rq) (\<lambda>d. remove1 p (cq d))"
  proof (rule free_slot_kinv [OF k2 p _ _ _ _ _ _ _ _ _ _ t(3) s'_def])
    show "rq_rep t (asleep s p rq)" using s3(2) rq_rep_link [OF t(2)] as by simp
    show "x \<in> set (asleep s p rq q) \<longleftrightarrow> x \<in> set (rq q) \<and> x \<noteq> p" for x q by (rule asleep_sets [OF kinvD(1) [OF k]])
  qed (simp_all add: G F)
  moreover have "p_flags (proc_tab s' x) = (if x = p then {P_SLOT_FREE} else p_flags (proc_tab s x))" for x
    by (simp add: s'_def G F f2)
  moreover have "ram s' = ram s" by (simp add: s'_def G F s2_def s1_def)
  ultimately show ?thesis by (rule that)
qed

subsection \<open>Memory\<close>

lemma unat_clicks_bytes: "unat (clicks_bytes c) = 256 * unat c"
proof -
  have h: "unat c < 2 ^ 16" using unsigned_less [of c] by simp
  have "unat (ucast c :: u32) = unat c"
    using h by (simp add: unsigned_ucast_eq take_bit_nat_eq_self_iff)
  moreover have "256 * unat c < 2 ^ 32" using h by simp
  ultimately show ?thesis unfolding clicks_bytes_def unsigned_push_bit_eq
    by (simp add: push_bit_eq_mult take_bit_nat_eq_self_iff mult.commute)
qed

lemma clicks_bytes_add: "unat a + unat b < 65536 \<Longrightarrow> clicks_bytes (a + b) = clicks_bytes a + clicks_bytes b"
proof -
  assume h: "unat a + unat b < 65536"
  have "unat (clicks_bytes (a + b)) = unat (clicks_bytes a + clicks_bytes b)"
    using h by (subst unat_add_below) (simp_all add: unat_clicks_bytes unat_add_below)
  then show ?thesis by (simp add: word_unat_eq_iff)
qed

lemma copy_bytes_other: "\<not> unat (a - dst) < n \<Longrightarrow> copy_bytes src dst n m a = m a"
  by (simp add: copy_bytes_def)

lemma do_fork_eq:
  assumes "isoksusern p" "isoksusern c"
  shows "do_fork p c pid base s = (OK, snd (do_fork p c pid base s))"
    "proc_tab (snd (do_fork p c pid base s)) = (proc_tab s)(c := (proc_tab s p)\<lparr>p_nr := c,
       p_flags := p_flags (proc_tab s p) - {PENDING, SIG_PENDING, P_STOP}, p_pending := 0, p_pendcount := 0, p_pid := pid,
       p_reg := (p_reg (proc_tab s p))\<lparr>sf_reg := (sf_reg (p_reg (proc_tab s p)))(REG_RET := 0)\<rparr>,
       user_time := 0, sys_time := 0, child_utime := 0, child_stime := 0,
       p_map := shift_map (proc_tab s p) base, p_nflips := 0\<rparr>)"
    "rdy_head (snd (do_fork p c pid base s)) = rdy_head s" "rdy_tail (snd (do_fork p c pid base s)) = rdy_tail s"
    "sys_mess (snd (do_fork p c pid base s)) = sys_mess s" "sig_procs (snd (do_fork p c pid base s)) = sig_procs s"
    "ram (snd (do_fork p c pid base s)) = copy_bytes (clicks_bytes (mem_phys (p_map (proc_tab s p) Seg_T))) (clicks_bytes base)
       (unat (mem_phys (p_map (proc_tab s p) Seg_S) - mem_phys (p_map (proc_tab s p) Seg_T) + mem_len (p_map (proc_tab s p) Seg_S)) * 256) (ram s)"
  using assms by (simp_all add: do_fork_def Let_def copyclicks_def phys_copy_def)

lemma do_fork_kinv:
  assumes k: "kinv 0 s rq cq" and p: "isokusern p" and c: "isokusern c" "c \<noteq> p"
    and par: "RECEIVING \<in> p_flags (proc_tab s p)" "SENDING \<notin> p_flags (proc_tab s p)" "cq p = []"
    and chl: "p_flags (proc_tab s c) = {P_SLOT_FREE}" "cq c = []" "p_shadow (proc_tab s p) = p_shadow (proc_tab s c)"
  shows "kinv 0 (snd (do_fork p c pid base s)) rq cq" (is "kinv 0 ?s' rq cq")
proof (rule kinvI)
  have ok: "isokprocn p" "isoksusern p" "isokprocn c" "isoksusern c" "c \<noteq> IDLE" "c \<noteq> HARDWARE" "c \<noteq> MM_PROC_NR" "0 \<le> c"
    "\<not> isidlehardware c" using p c(1) by (simp_all add: proc_class_defs)
  note E = do_fork_eq(2-7) [OF ok(2,4), of pid base s]
  note R = kinvD(1) [OF k] and Cq = kinvD(2) [OF k]
  have q: "queue_of ?s' x = queue_of s x" for x using chl(3) by (simp add: queue_of_def isshadowp_def E)
  have offr: "c \<notin> set (rq q)" for q
    using kinvD(7) [OF k ok(3)] chl(1) rq_repD(4) [OF R, of c q] by auto
  have offc: "c \<notin> set (cq d)" if "isokprocn d" for d using cq_repD(3) [OF Cq that, of c] chl(1) by auto
  show "rq_rep ?s' rq"
  proof (rule rq_repI)
    fix q
    have "chain (nextready ?s') (rdy_head s q) (rq q) = chain (nextready s) (rdy_head s q) (rq q)"
      using offr by (intro chain_cong) (auto simp: E)
    then show "chain (nextready ?s') (rdy_head ?s' q) (rq q)" using rq_repD(1) [OF R] by (simp only: E)
    show "rdy_tail ?s' q = Some (last (rq q))" if "rq q \<noteq> []" using rq_repD(2) [OF R that] by (simp only: E)
    show "isokprocn x \<and> queue_of ?s' x = q" if "x \<in> set (rq q)" for x using rq_repD(3,4) [OF R that] q by simp
  qed
  have fl: "p_flags (proc_tab ?s' x) = (if x = c then p_flags (proc_tab s p) - {PENDING, SIG_PENDING, P_STOP} else p_flags (proc_tab s x))" for x
    by (simp add: E)
  have cp: "p_callerq (proc_tab s p) = None" "p_callerq (proc_tab s c) = None"
    using cq_repD(1) [OF Cq ok(1)] cq_repD(1) [OF Cq ok(3)] par(3) chl(2) by simp_all
  show "cq_rep ?s' cq"
  proof (rule cq_repI)
    fix d assume d: "isokprocn d"
    have "chain (sendlink ?s') (p_callerq (proc_tab s d)) (cq d) = chain (sendlink s) (p_callerq (proc_tab s d)) (cq d)"
      using offc [OF d] by (intro chain_cong) (auto simp: E)
    moreover have "p_callerq (proc_tab ?s' d) = p_callerq (proc_tab s d)" using cp by (simp add: E)
    ultimately show "chain (sendlink ?s') (p_callerq (proc_tab ?s' d)) (cq d)" using cq_repD(1) [OF Cq d] by simp
    show "isokprocn x \<and> SENDING \<in> p_flags (proc_tab ?s' x)" if "x \<in> set (cq d)" for x
      using cq_repD(2,3) [OF Cq d that] offc [OF d] that by (auto simp: fl)
    show "d = d'" if "isokprocn d'" "x \<in> set (cq d)" "x \<in> set (cq d')" for d' x using cq_repD(4) [OF Cq d that] .
    show "\<exists>e. isokprocn e \<and> d \<in> set (cq e)" if "SENDING \<in> p_flags (proc_tab ?s' d)"
      using that cq_repD(5) [OF Cq d] par(2) by (auto simp: fl split: if_splits)
  qed
  show "live_at ?s' rq x" if x: "isokprocn x" for x
    using kinvD(7) [OF k x] offr par(1) by (auto simp: live_at_def q fl)
  have "pend_set ?s' = pend_set s" using chl(1) by (auto simp: pend_set_def fl split: if_splits)
  then show "slots_ok 0 ?s'"
    using slots_okD [OF kinvD(4) [OF k]] ok par(2) unfolding slots_ok_def fl
    by (auto simp: E isidlehardware_def bad_mess_addr_def)
qed

lemma unat_diff_le: "unat b \<le> unat a \<Longrightarrow> unat (a - b :: 'a::len word) = unat a - unat b"
  by (simp add: unat_sub_if_size word_less_nat_alt)

definition seg_phys :: "proc \<Rightarrow> segment \<Rightarrow> u32 \<Rightarrow> u32" where
  "seg_phys r g v = clicks_bytes (mem_phys (p_map r g)) + (v - clicks_bytes (mem_vir (p_map r g)))"

definition in_seg :: "proc \<Rightarrow> segment \<Rightarrow> u32 \<Rightarrow> bool" where
  "in_seg r g v \<longleftrightarrow> unat (v - clicks_bytes (mem_vir (p_map r g))) < 256 * unat (mem_len (p_map r g))"

text \<open>The image of a process: text, data, gap and stack, one block of physical memory.\<close>

definition image_clicks :: "proc \<Rightarrow> nat" where
  "image_clicks r = unat (mem_phys (p_map r Seg_S)) + unat (mem_len (p_map r Seg_S)) - unat (mem_phys (p_map r Seg_T))"

definition image_ok :: "proc \<Rightarrow> bool" where
  "image_ok r \<longleftrightarrow>
     unat (mem_phys (p_map r Seg_S)) + unat (mem_len (p_map r Seg_S)) < 65536 \<and>
     (\<forall>g \<in> {Seg_T, Seg_D, Seg_S}. unat (mem_phys (p_map r Seg_T)) \<le> unat (mem_phys (p_map r g)) \<and>
        unat (mem_phys (p_map r g)) + unat (mem_len (p_map r g))
          \<le> unat (mem_phys (p_map r Seg_S)) + unat (mem_len (p_map r Seg_S)))"

lemma image_okD:
  assumes "image_ok r"
  shows "unat (mem_phys (p_map r Seg_T)) \<le> unat (mem_phys (p_map r g))"
    "unat (mem_phys (p_map r g)) + unat (mem_len (p_map r g)) \<le> unat (mem_phys (p_map r Seg_T)) + image_clicks r"
    "unat (mem_phys (p_map r Seg_S) - mem_phys (p_map r Seg_T) + mem_len (p_map r Seg_S)) = image_clicks r"
    "image_clicks r < 65536"
proof -
  have S: "unat (mem_phys (p_map r Seg_T)) \<le> unat (mem_phys (p_map r Seg_S))"
    "unat (mem_phys (p_map r Seg_S)) + unat (mem_len (p_map r Seg_S)) < 65536" using assms by (auto simp: image_ok_def)
  show "unat (mem_phys (p_map r Seg_T)) \<le> unat (mem_phys (p_map r g))"
    "unat (mem_phys (p_map r g)) + unat (mem_len (p_map r g)) \<le> unat (mem_phys (p_map r Seg_T)) + image_clicks r"
    using assms S by (cases g; auto simp: image_ok_def image_clicks_def)+
  show "unat (mem_phys (p_map r Seg_S) - mem_phys (p_map r Seg_T) + mem_len (p_map r Seg_S)) = image_clicks r"
    using S by (subst unat_add_below) (auto simp: unat_diff_le image_clicks_def)
  show "image_clicks r < 65536" using S by (simp add: image_clicks_def)
qed

lemma do_fork_image:
  assumes p: "isoksusern p" "isoksusern c" and im: "image_ok (proc_tab s p)"
    and base: "unat base + image_clicks (proc_tab s p) \<le> 65536" and v: "in_seg (proc_tab s p) g v"
  shows "ram (snd (do_fork p c pid base s)) (seg_phys (proc_tab (snd (do_fork p c pid base s)) c) g v)
       = ram s (seg_phys (proc_tab s p) g v)"
proof -
  let ?m = "p_map (proc_tab s p)" and ?off = "v - clicks_bytes (mem_vir (p_map (proc_tab s p) g))"
  define d where "d = mem_phys (?m g) - mem_phys (?m Seg_T)"
  note E = do_fork_eq(2-7) [OF p, of pid base s] and I = image_okD [OF im]
  have d: "unat d = unat (mem_phys (?m g)) - unat (mem_phys (?m Seg_T))" by (simp add: d_def unat_diff_le I(1))
  have off: "unat ?off < 256 * unat (mem_len (?m g))" using v by (simp add: in_seg_def)
  then have len: "0 < unat (mem_len (?m g))" by (cases "unat (mem_len (?m g))") auto
  have lt: "unat d + unat (mem_len (?m g)) \<le> image_clicks (proc_tab s p)" using I(1,2) [of g] d by simp
  then have "unat base + unat d < 65536" using base len by simp
  then have a: "seg_phys (proc_tab (snd (do_fork p c pid base s)) c) g v - clicks_bytes base = clicks_bytes d + ?off"
    by (simp add: seg_phys_def E shift_map_def d_def [symmetric] clicks_bytes_add)
  have "clicks_bytes (mem_phys (?m Seg_T)) + clicks_bytes d = clicks_bytes (mem_phys (?m g))"
    using d I(1) [of g] unsigned_less [of "mem_phys (?m g)", where ?'a = nat]
    by (subst clicks_bytes_add [symmetric]) (auto simp: d_def)
  then have b: "clicks_bytes (mem_phys (?m Seg_T)) + (clicks_bytes d + ?off) = seg_phys (proc_tab s p) g v"
    by (simp add: seg_phys_def add.assoc [symmetric])
  have "unat (clicks_bytes d + ?off) = 256 * unat d + unat ?off"
    using off lt I(4) by (subst unat_add_below) (auto simp: unat_clicks_bytes)
  then have "unat (clicks_bytes d + ?off) < image_clicks (proc_tab s p) * 256" using off lt by simp
  then show ?thesis unfolding E(6) copy_bytes_def a I(3) b by simp
qed

lemma do_fork_outside:
  assumes p: "isoksusern p" "isoksusern c" and im: "image_ok (proc_tab s p)"
    and out: "256 * image_clicks (proc_tab s p) \<le> unat (a - clicks_bytes base)"
  shows "ram (snd (do_fork p c pid base s)) a = ram s a"
  using out unfolding do_fork_eq(7) [OF p] image_okD(3) [OF im] by (simp add: copy_bytes_def)

lemma in_seg_bounds:
  assumes "in_seg r g v" and "unat (mem_vir (p_map r g)) + unat (mem_len (p_map r g)) < 65536"
  shows "unat (seg_end (p_map r g)) = unat (mem_vir (p_map r g)) + unat (mem_len (p_map r g))"
    "unat (mem_vir (p_map r g)) \<le> unat v div 256" "unat v div 256 < unat (seg_end (p_map r g))" "unat v < 2 ^ 24"
proof -
  let ?b = "clicks_bytes (mem_vir (p_map r g))"
  have "unat v = unat (?b + (v - ?b))" by simp
  also have "\<dots> = 256 * unat (mem_vir (p_map r g)) + unat (v - ?b)"
    using assms by (subst unat_add_below) (auto simp: unat_clicks_bytes in_seg_def)
  finally have u: "unat v = 256 * unat (mem_vir (p_map r g)) + unat (v - ?b)" .
  show e: "unat (seg_end (p_map r g)) = unat (mem_vir (p_map r g)) + unat (mem_len (p_map r g))"
    using assms(2) by (simp add: seg_end_def unat_add_below)
  show "unat (mem_vir (p_map r g)) \<le> unat v div 256" "unat v div 256 < unat (seg_end (p_map r g))" "unat v < 2 ^ 24"
    using u assms by (auto simp: e in_seg_def)
qed

lemma sint_small: "unat (v :: u32) < 2 ^ 31 \<Longrightarrow> sint v = int (unat v)"
proof -
  assume "unat v < 2 ^ 31"
  then have "int (unat v) < int (2 ^ 31)" by (simp only: of_nat_less_iff)
  then have "uint v < 2 ^ 31" by simp
  moreover have "(- 2147483648 :: int) \<le> uint v" by (rule order_trans [of _ 0]) simp_all
  ultimately have "sint v = uint v" by (simp add: sint_uint signed_take_bit_int_eq_self_iff)
  then show ?thesis by simp
qed

lemma sint_click:
  assumes "unat (v :: u32) < 2 ^ 31"
  shows "sint (signed_drop_bit 8 v) = int (unat v div 256)"
  unfolding sint_signed_drop_bit_eq sint_small [OF assms] by (simp add: drop_bit_eq_div zdiv_int)

lemma unat_of_small: "n < 2 ^ 32 \<Longrightarrow> unat (of_nat n :: u32) = n"
  by (simp add: unsigned_of_nat take_bit_nat_eq_self_iff)

lemma sint_pos: "0 < n \<Longrightarrow> n < 2 ^ 31 \<Longrightarrow> 0 < sint (of_nat n :: u32)"
  by (subst sint_small) (simp_all add: unat_of_small)

lemma unat_click: "unat (x :: u32) < 2 ^ 24 \<Longrightarrow> unat (ucast (drop_bit 8 x) :: u16) = unat x div 256"
  unfolding click_number by simp

lemma umap_data:
  assumes n: "0 < n" "n < 2 ^ 31" and g: "g \<noteq> Seg_T"
    and D: "unat (mem_vir (p_map r Seg_D)) + unat (mem_len (p_map r Seg_D)) < 65536"
    and v: "in_seg r Seg_D v" "in_seg r Seg_D (v + of_nat n - 1)"
  shows "umap r g v (of_nat n) = seg_phys r Seg_D v"
proof -
  note V = in_seg_bounds [OF v(1) D] and L = in_seg_bounds [OF v(2) D]
  have "unat (ucast (drop_bit 8 (v + of_nat n - 1)) :: u16) < unat (seg_end (p_map r Seg_D))"
    using L(3,4) by (simp add: unat_click)
  then have c: "(ucast (drop_bit 8 (v + of_nat n - 1)) :: u16) < seg_end (p_map r Seg_D)" by (simp add: word_less_nat_alt)
  have "sint (signed_drop_bit 8 v) = int (unat v div 256)" using V(4) by (intro sint_click) simp
  then have "sint (signed_drop_bit 8 v) < int (unat (seg_end (p_map r Seg_D)))" using V(3) by linarith
  then have "sint (signed_drop_bit 8 v) < uint (seg_end (p_map r Seg_D))" by simp
  then show ?thesis using sint_pos [OF n] g c
    by (simp add: umap_def Let_def seg_phys_def not_le)
qed

lemma umap_stack:
  assumes "0 < sint n" and "g \<noteq> Seg_T"
    and "seg_end (p_map r Seg_D) \<le> ucast (drop_bit 8 (v + n - 1))"
    and "sint (signed_drop_bit 8 v) < uint (seg_end (p_map r Seg_S))"
  shows "umap r g v n = seg_phys r Seg_S v"
proof -
  have "\<not> ucast (drop_bit 8 (v + n - 1)) < seg_end (p_map r Seg_D)" using assms(3) by (rule leD)
  then show ?thesis using assms(1,2,4) by (simp add: umap_def Let_def seg_phys_def not_le)
qed

lemma in_seg_between:
  assumes v: "in_seg r g v" "in_seg r g (v + of_nat n - 1)" and n: "n \<le> 256 * unat (mem_len (p_map r g))" "i < n"
  shows "in_seg r g (v + of_nat i)" "unat (seg_phys r g (v + of_nat i) - seg_phys r g v) = i"
proof -
  let ?o = "v - clicks_bytes (mem_vir (p_map r g))"
  have l: "256 * unat (mem_len (p_map r g)) < 2 ^ 24" using unsigned_less [of "mem_len (p_map r g)", where ?'a = nat] by simp
  have i: "unat (of_nat i :: u32) = i" using n l by (simp add: unat_of_small)
  have "v + of_nat n - 1 = v + of_nat (n - 1)" using n(2) by (simp add: of_nat_diff)
  then have e: "unat (?o + of_nat (n - 1)) < 256 * unat (mem_len (p_map r g))"
    using v(2) by (simp add: in_seg_def algebra_simps)
  have o: "unat ?o < 256 * unat (mem_len (p_map r g))" using v(1) by (simp add: in_seg_def)
  have s: "unat (?o + of_nat k) = unat ?o + k" if "k \<le> n - 1" for k
    using that n o l by (subst unat_add_below) (simp_all add: unat_of_small)
  have "unat (?o + of_nat i) < 256 * unat (mem_len (p_map r g))" using s [of i] s [of "n - 1"] e n(2) by simp
  then show "in_seg r g (v + of_nat i)" by (simp add: in_seg_def algebra_simps)
  show "unat (seg_phys r g (v + of_nat i) - seg_phys r g v) = i" using i by (simp add: seg_phys_def)
qed

lemma do_copy_data:
  assumes n: "0 < n" "n \<le> 256 * unat (mem_len (p_map (proc_tab s a) Seg_D))" and g: "ga \<noteq> Seg_T" "gb \<noteq> Seg_T"
    and A: "unat (mem_vir (p_map (proc_tab s a) Seg_D)) + unat (mem_len (p_map (proc_tab s a) Seg_D)) < 65536"
      "in_seg (proc_tab s a) Seg_D v" "in_seg (proc_tab s a) Seg_D (v + of_nat n - 1)" "seg_phys (proc_tab s a) Seg_D v \<noteq> 0"
    and B: "unat (mem_vir (p_map (proc_tab s b) Seg_D)) + unat (mem_len (p_map (proc_tab s b) Seg_D)) < 65536"
      "in_seg (proc_tab s b) Seg_D w" "in_seg (proc_tab s b) Seg_D (w + of_nat n - 1)" "seg_phys (proc_tab s b) Seg_D w \<noteq> 0"
  shows "do_copy a ga v b gb w (of_nat n) s =
     (OK, s\<lparr>ram := copy_bytes (seg_phys (proc_tab s a) Seg_D v) (seg_phys (proc_tab s b) Seg_D w) n (ram s)\<rparr>)"
proof -
  have "256 * unat (mem_len (p_map (proc_tab s a) Seg_D)) < 2 ^ 24"
    using unsigned_less [of "mem_len (p_map (proc_tab s a) Seg_D)", where ?'a = nat] by simp
  then have "n < 2 ^ 31" and u: "unat (of_nat n :: u32) = n"
    using n by (simp_all add: unat_of_small)
  then show ?thesis using umap_data [OF n(1) _ g(1) A(1-3)] umap_data [OF n(1) _ g(2) B(1-3)] A(4) B(4)
    by (simp add: do_copy_def Let_def phys_copy_def)
qed

subsection \<open>Properties\<close>

text \<open>
  C38. \<open>do_fork\<close>: given a parent that waits for MM's reply, a free slot and the memory MM allocated,
  the child gets a copy of the parent's whole image: every virtual address of the text, data or
  stack segment holds in the child what it held in the parent, no byte outside the new block
  changes, the child sees 0 as the result of the call, and the queues of the kernel stay
  consistent with the child blocked like its parent but for signals.
\<close>

theorem do_fork_duplicates_process:
  assumes "ipc_ok s" "isokusern p" "isokusern c" "c \<noteq> p"
    and "RECEIVING \<in> p_flags (proc_tab s p)" "SENDING \<notin> p_flags (proc_tab s p)" "caller_list s p = []"
    and "p_flags (proc_tab s c) = {P_SLOT_FREE}" "caller_list s c = []" "p_shadow (proc_tab s p) = p_shadow (proc_tab s c)"
    and "image_ok (proc_tab s p)" "unat base + image_clicks (proc_tab s p) \<le> 65536"
  shows "\<exists>s'. do_fork p c pid base s = (OK, s') \<and> ipc_ok s' \<and> ready_list s' = ready_list s \<and>
     (\<forall>x. x \<noteq> c \<longrightarrow> proc_tab s' x = proc_tab s x) \<and>
     p_nr (proc_tab s' c) = c \<and> p_pid (proc_tab s' c) = pid \<and> sf_reg (p_reg (proc_tab s' c)) REG_RET = 0 \<and>
     p_flags (proc_tab s' c) = p_flags (proc_tab s p) - {PENDING, SIG_PENDING, P_STOP} \<and>
     (\<forall>g v. in_seg (proc_tab s p) g v \<longrightarrow>
        ram s' (seg_phys (proc_tab s' c) g v) = ram s (seg_phys (proc_tab s p) g v)) \<and>
     (\<forall>a. 256 * image_clicks (proc_tab s p) \<le> unat (a - clicks_bytes base) \<longrightarrow> ram s' a = ram s a)"
proof -
  have ok: "isoksusern p" "isoksusern c" using assms(2,3) by (simp_all add: proc_class_defs)
  have k: "kinv 0 s (ready_list s) (caller_list s)" using assms(1) by (simp add: ipc_ok_def)
  have k': "kinv 0 (snd (do_fork p c pid base s)) (ready_list s) (caller_list s)"
    by (rule do_fork_kinv [OF k]) (use assms in simp_all)
  show ?thesis
  proof (intro exI [of _ "snd (do_fork p c pid base s)"] conjI allI impI)
    show "do_fork p c pid base s = (OK, snd (do_fork p c pid base s))" by (rule do_fork_eq(1) [OF ok])
    show "ipc_ok (snd (do_fork p c pid base s))" by (rule kinv_ipc_ok [OF k'])
    show "ready_list (snd (do_fork p c pid base s)) = ready_list s" by (rule ready_list_eq [OF kinvD(1) [OF k']])
    show "ram (snd (do_fork p c pid base s)) (seg_phys (proc_tab (snd (do_fork p c pid base s)) c) g v)
        = ram s (seg_phys (proc_tab s p) g v)" if "in_seg (proc_tab s p) g v" for g v
      by (rule do_fork_image [OF ok assms(11,12) that])
    show "ram (snd (do_fork p c pid base s)) a = ram s a"
      if "256 * image_clicks (proc_tab s p) \<le> unat (a - clicks_bytes base)" for a
      by (rule do_fork_outside [OF ok assms(11) that])
  qed (simp_all add: do_fork_eq(2-7) [OF ok])
qed

text \<open>INIT waits for MM's reply; its image is four clicks at click 16.\<close>

definition demo_fork :: kernel where
  "demo_fork = demo_kernel
     \<lparr>proc_tab := demo_proc(2 := (demo_proc 2)\<lparr>p_flags := {RECEIVING}, p_getfrom := 0,
        p_map := (\<lambda>g. case g of Seg_T \<Rightarrow> \<lparr>mem_vir = 0, mem_phys = 16, mem_len = 1\<rparr> | Seg_D \<Rightarrow> \<lparr>mem_vir = 1, mem_phys = 17, mem_len = 1\<rparr>
                  | Seg_S \<Rightarrow> \<lparr>mem_vir = 3, mem_phys = 19, mem_len = 1\<rparr>)\<rparr>),
      rdy_head := (\<lambda>q. if q = SERVER_Q then Some 1 else None)\<rparr>"

lemma demo_fork_kinv: "kinv 0 demo_fork (\<lambda>q. if q = SERVER_Q then [1] else []) (\<lambda>p. [])"
proof (rule kinvI)
  show "rq_rep demo_fork (\<lambda>q. if q = SERVER_Q then [1] else [])"
    by (rule rq_repI) (auto simp: demo_fork_def demo_kernel_def demo_proc_def proc_class_defs queue_of_def split: if_splits)
  show "cq_rep demo_fork (\<lambda>p. [])" by (rule cq_repI) (auto simp: demo_fork_def isokprocn_def split: if_splits)
  show "live_at demo_fork (\<lambda>q. if q = SERVER_Q then [1] else []) p" if "isokprocn p" for p
    by (auto simp: live_at_def proc_class_defs queue_of_def demo_fork_def)
  have "pend_set demo_fork = {}" by (auto simp: pend_set_def demo_fork_def split: if_splits)
  moreover have "\<not> bad_mess_addr (demo_proc HARDWARE) 8192" by (simp add: bad_mess_addr_def)
  ultimately show "slots_ok 0 demo_fork" by (auto simp: slots_ok_def demo_fork_def isokprocn_def)
qed

theorem do_fork_duplicates_process_witness:
  "\<exists>s'. do_fork 2 3 77 64 demo_fork = (OK, s') \<and> ipc_ok s' \<and> p_pid (proc_tab s' 3) = 77 \<and> ram s' 16744 = ram demo_fork 4456"
proof -
  have r: "proc_tab demo_fork 2 = (demo_proc 2)\<lparr>p_flags := {RECEIVING}, p_getfrom := 0,
        p_map := (\<lambda>g. case g of Seg_T \<Rightarrow> \<lparr>mem_vir = 0, mem_phys = 16, mem_len = 1\<rparr> | Seg_D \<Rightarrow> \<lparr>mem_vir = 1, mem_phys = 17, mem_len = 1\<rparr>
                  | Seg_S \<Rightarrow> \<lparr>mem_vir = 3, mem_phys = 19, mem_len = 1\<rparr>)\<rparr>" by (simp add: demo_fork_def)
  have c: "caller_list demo_fork p = []" if "isokprocn p" for p
    using caller_list_eq [OF kinvD(2) [OF demo_fork_kinv] that] .
  have "\<exists>s'. do_fork 2 3 77 64 demo_fork = (OK, s') \<and> ipc_ok s' \<and> ready_list s' = ready_list demo_fork \<and>
     (\<forall>x. x \<noteq> 3 \<longrightarrow> proc_tab s' x = proc_tab demo_fork x) \<and>
     p_nr (proc_tab s' 3) = 3 \<and> p_pid (proc_tab s' 3) = 77 \<and> sf_reg (p_reg (proc_tab s' 3)) REG_RET = 0 \<and>
     p_flags (proc_tab s' 3) = p_flags (proc_tab demo_fork 2) - {PENDING, SIG_PENDING, P_STOP} \<and>
     (\<forall>g v. in_seg (proc_tab demo_fork 2) g v \<longrightarrow>
        ram s' (seg_phys (proc_tab s' 3) g v) = ram demo_fork (seg_phys (proc_tab demo_fork 2) g v)) \<and>
     (\<forall>a. 256 * image_clicks (proc_tab demo_fork 2) \<le> unat (a - clicks_bytes 64) \<longrightarrow> ram s' a = ram demo_fork a)"
    by (rule do_fork_duplicates_process [OF kinv_ipc_ok [OF demo_fork_kinv]])
      (simp_all add: c r proc_class_defs image_ok_def image_clicks_def, simp_all add: demo_fork_def)
  then obtain s' where s': "do_fork 2 3 77 64 demo_fork = (OK, s')" "ipc_ok s'" "p_pid (proc_tab s' 3) = 77"
    "\<And>g v. in_seg (proc_tab demo_fork 2) g v \<Longrightarrow>
        ram s' (seg_phys (proc_tab s' 3) g v) = ram demo_fork (seg_phys (proc_tab demo_fork 2) g v)" by blast
  have m: "p_map (proc_tab s' 3) = shift_map (proc_tab demo_fork 2) 64"
    using s'(1) by (auto simp: do_fork_def Let_def proc_class_defs copyclicks_def phys_copy_def)
  have "in_seg (proc_tab demo_fork 2) Seg_D 0x168" by (simp add: in_seg_def r clicks_bytes_def)
  from s'(4) [OF this] have "ram s' 16744 = ram demo_fork 4456" by (simp add: seg_phys_def m r shift_map_def clicks_bytes_def)
  then show ?thesis using s'(1-3) by blast
qed

text \<open>
  \<open>do_xit\<close>: an exiting user process leaves its ready queue and whatever caller queue it is
  blocked on (wherever it stands in it), its slot becomes free, its pending signals are forgotten
  in \<open>sig_procs\<close> too, no other process is touched but for the parent's times, all queues stay
  consistent, and the memory reported to MM is the whole image.
\<close>

theorem do_xit_removes_process:
  assumes "ipc_ok s" "isokusern p" "isoksusern parent" "p_shadow (proc_tab s p) = 0"
    and "\<forall>q. isokusern q \<longrightarrow> \<not> shares_image s p q"
  shows "\<exists>s'. do_xit parent p s = Done (OK, (mem_phys (p_map (proc_tab s p) Seg_T),
        data_clicks (proc_tab s p) + mem_len (p_map (proc_tab s p) Seg_T)), s') \<and> ipc_ok s' \<and>
     (\<forall>x. p_flags (proc_tab s' x) = (if x = p then {P_SLOT_FREE} else p_flags (proc_tab s x))) \<and>
     (\<forall>q. ready_list s' q = remove1 p (ready_list s q)) \<and>
     (\<forall>d. isokprocn d \<longrightarrow> caller_list s' d = remove1 p (caller_list s d)) \<and> ram s' = ram s"
proof -
  have k: "kinv 0 s (ready_list s) (caller_list s)" using assms(1) by (simp add: ipc_ok_def)
  obtain s' where s': "do_xit parent p s = Done (OK, (mem_phys (p_map (proc_tab s p) Seg_T),
        data_clicks (proc_tab s p) + mem_len (p_map (proc_tab s p) Seg_T)), s')"
    "kinv 0 s' (asleep s p (ready_list s)) (\<lambda>d. remove1 p (caller_list s d))"
    "\<And>x. p_flags (proc_tab s' x) = (if x = p then {P_SLOT_FREE} else p_flags (proc_tab s x))" "ram s' = ram s"
    using do_xit_rep [OF k assms(2-4)] assms(5) by metis
  have "asleep s p (ready_list s) q = remove1 p (ready_list s q)" for q
    using rq_repD(4) [OF kinvD(1) [OF k], of p q] remove1_idem [of p "ready_list s q"]
    by (cases "q = queue_of s p") (simp_all add: asleep_def, metis)
  then have r: "ready_list s' q = remove1 p (ready_list s q)" for q
    using ready_list_eq [OF kinvD(1) [OF s'(2)]] by simp
  have "caller_list s' d = remove1 p (caller_list s d)" if "isokprocn d" for d
    by (rule caller_list_eq [OF kinvD(2) [OF s'(2)] that])
  then show ?thesis using s' r kinv_ipc_ok [OF s'(2)] by blast
qed

text \<open>INIT is killed while it is queued on FS.\<close>

definition demo_killed :: kernel where
  "demo_killed = demo_queued\<lparr>proc_tab := (proc_tab demo_queued)(2 := (proc_tab demo_queued 2)
     \<lparr>p_map := (\<lambda>g. \<lparr>mem_vir = 0, mem_phys = 16, mem_len = 1\<rparr>)\<rparr>)\<rparr>"

lemma demo_killed_kinv: "kinv 0 demo_killed (\<lambda>q. if q = SERVER_Q then [1] else []) (\<lambda>p. if p = 1 then [2] else [])"
proof (rule kinvI)
  note k = demo_queued_kinv
  show "rq_rep demo_killed (\<lambda>q. if q = SERVER_Q then [1] else [])"
    using kinvD(1) [OF k] by (subst rq_rep_cong [of demo_killed demo_queued]) (simp_all add: demo_killed_def)
  show "cq_rep demo_killed (\<lambda>p. if p = 1 then [2] else [])"
    using kinvD(2) [OF k] by (subst cq_rep_cong [of demo_killed demo_queued]) (simp_all add: demo_killed_def)
  show "live_at demo_killed (\<lambda>q. if q = SERVER_Q then [1] else []) p" if "isokprocn p" for p
    by (auto simp: live_at_def proc_class_defs queue_of_def demo_killed_def demo_queued_def)
  show "slots_ok 0 demo_killed"
    using kinvD(4) [OF k] by (subst slots_ok_cong [of demo_killed demo_queued]) (simp_all add: demo_killed_def)
qed

theorem do_xit_removes_process_witness:
  "\<exists>s'. do_xit 0 2 demo_killed = Done (OK, (16, 2), s') \<and> ipc_ok s' \<and> caller_list s' 1 = [] \<and>
        p_flags (proc_tab s' 2) = {P_SLOT_FREE}"
proof -
  have c: "caller_list demo_killed 1 = [2]"
    using caller_list_eq [OF kinvD(2) [OF demo_killed_kinv], of 1] by (simp add: isokprocn_def)
  have h: "isokusern 2" "isoksusern 0" "isokprocn 1" "p_shadow (proc_tab demo_killed 2) = 0"
    "\<forall>q. isokusern q \<longrightarrow> \<not> shares_image demo_killed 2 q"
    by (auto simp: proc_class_defs shares_image_def demo_killed_def demo_queued_def)
  have m: "p_map (proc_tab demo_killed 2) = (\<lambda>g. \<lparr>mem_vir = 0, mem_phys = 16, mem_len = 1\<rparr>)" by (simp add: demo_killed_def)
  show ?thesis
    using do_xit_removes_process [OF kinv_ipc_ok [OF demo_killed_kinv] h(1,2,4,5)] h(3) c
    by (force simp: m data_clicks_def)
qed

text \<open>
  \<open>do_copy\<close> between two data segments: when both buffers lie inside their segments the request
  succeeds, byte \<open>i\<close> of the source buffer arrives at byte \<open>i\<close> of the destination buffer, and no other
  byte of memory changes.
\<close>

theorem do_copy_moves_buffer:
  assumes "0 < n" "n \<le> 256 * unat (mem_len (p_map (proc_tab s a) Seg_D))" "n \<le> 256 * unat (mem_len (p_map (proc_tab s b) Seg_D))"
    and "unat (mem_vir (p_map (proc_tab s a) Seg_D)) + unat (mem_len (p_map (proc_tab s a) Seg_D)) < 65536"
      "in_seg (proc_tab s a) Seg_D v" "in_seg (proc_tab s a) Seg_D (v + of_nat n - 1)" "seg_phys (proc_tab s a) Seg_D v \<noteq> 0"
    and "unat (mem_vir (p_map (proc_tab s b) Seg_D)) + unat (mem_len (p_map (proc_tab s b) Seg_D)) < 65536"
      "in_seg (proc_tab s b) Seg_D w" "in_seg (proc_tab s b) Seg_D (w + of_nat n - 1)" "seg_phys (proc_tab s b) Seg_D w \<noteq> 0"
  shows "\<exists>m. do_copy a Seg_D v b Seg_D w (of_nat n) s = (OK, s\<lparr>ram := m\<rparr>) \<and>
     (\<forall>i < n. m (seg_phys (proc_tab s b) Seg_D (w + of_nat i)) = ram s (seg_phys (proc_tab s a) Seg_D (v + of_nat i))) \<and>
     (\<forall>x. (\<forall>i < n. x \<noteq> seg_phys (proc_tab s b) Seg_D (w + of_nat i)) \<longrightarrow> m x = ram s x)"
proof -
  let ?a = "seg_phys (proc_tab s a) Seg_D" and ?b = "seg_phys (proc_tab s b) Seg_D"
  have e: "do_copy a Seg_D v b Seg_D w (of_nat n) s = (OK, s\<lparr>ram := copy_bytes (?a v) (?b w) n (ram s)\<rparr>)"
    by (rule do_copy_data) (use assms in simp_all)
  have i: "copy_bytes (?a v) (?b w) n (ram s) (?b (w + of_nat i)) = ram s (?a (v + of_nat i))" if "i < n" for i
  proof -
    have "unat (?b (w + of_nat i) - ?b w) = i" by (rule in_seg_between(2) [OF assms(9,10,3) that])
    then show ?thesis using that by (simp add: copy_bytes_def seg_phys_def algebra_simps)
  qed
  have "unat (x - ?b w) \<ge> n" if "\<forall>i < n. x \<noteq> ?b (w + of_nat i)" for x
  proof (rule ccontr)
    assume "\<not> n \<le> unat (x - ?b w)"
    then have "unat (x - ?b w) < n" by simp
    with that have "x \<noteq> ?b (w + of_nat (unat (x - ?b w)))" by blast
    then show False by (simp add: seg_phys_def)
  qed
  then have "\<forall>x. (\<forall>i < n. x \<noteq> ?b (w + of_nat i)) \<longrightarrow> copy_bytes (?a v) (?b w) n (ram s) x = ram s x"
    unfolding copy_bytes_def by (metis not_less)
  with e i show ?thesis by blast
qed

theorem do_copy_moves_buffer_witness:
  "\<exists>m. do_copy 2 Seg_D 300 2 Seg_D 400 50 demo_fork = (OK, demo_fork\<lparr>ram := m\<rparr>) \<and> m (4497 :: u32) = ram demo_fork 4397"
proof -
  have m: "p_map (proc_tab demo_fork 2) Seg_D = \<lparr>mem_vir = 1, mem_phys = 17, mem_len = 1\<rparr>" by (simp add: demo_fork_def)
  have "\<exists>m. do_copy 2 Seg_D 300 2 Seg_D 400 (of_nat 50) demo_fork = (OK, demo_fork\<lparr>ram := m\<rparr>) \<and>
     (\<forall>i < 50. m (seg_phys (proc_tab demo_fork 2) Seg_D (400 + of_nat i)) = ram demo_fork (seg_phys (proc_tab demo_fork 2) Seg_D (300 + of_nat i))) \<and>
     (\<forall>x. (\<forall>i < 50. x \<noteq> seg_phys (proc_tab demo_fork 2) Seg_D (400 + of_nat i)) \<longrightarrow> m x = ram demo_fork x)"
    by (rule do_copy_moves_buffer) (simp_all add: in_seg_def seg_phys_def m clicks_bytes_def)
  then obtain m where "do_copy 2 Seg_D 300 2 Seg_D 400 (of_nat 50) demo_fork = (OK, demo_fork\<lparr>ram := m\<rparr>)"
    "m (seg_phys (proc_tab demo_fork 2) Seg_D (400 + of_nat 1)) = ram demo_fork (seg_phys (proc_tab demo_fork 2) Seg_D (300 + of_nat 1))"
    by (metis one_less_numeral_iff semiring_norm(76))
  then show ?thesis by (auto simp: seg_phys_def m clicks_bytes_def)
qed

text \<open>
  \<open>umap\<close> checks less than the segment. A text address below the segment (negative as a \<open>long\<close>) is
  translated all the same, and a data or stack buffer that ends beyond the data segment is
  translated relative to the stack segment wherever it ends, as long as its first click is below
  the end of the stack. So \<open>do_trace\<close> (request 4) stores a longword below the text segment.
\<close>

theorem umap_accepts_outside_segments:
  "(sint v < 0 \<longrightarrow> umap r Seg_T v 4 = seg_phys r Seg_T v) \<and>
   (0 < sint n \<and> seg_end (p_map r Seg_D) \<le> ucast (drop_bit 8 (v + n - 1)) \<and>
      sint (signed_drop_bit 8 v) < uint (seg_end (p_map r Seg_S)) \<longrightarrow> umap r Seg_S v n = seg_phys r Seg_S v) \<and>
   (P_SLOT_FREE \<notin> p_flags (proc_tab s p) \<and> mem_len (p_map (proc_tab s p) Seg_T) \<noteq> 0 \<and> sint v < 0 \<and>
      seg_phys (proc_tab s p) Seg_T v \<noteq> 0 \<longrightarrow>
      do_trace sl sz p 4 v dat s = Done (OK, 0, s\<lparr>ram := put32 (seg_phys (proc_tab s p) Seg_T v) (word_of_int dat) (ram s)\<rparr>))"
proof -
  have T: "umap r Seg_T v 4 = seg_phys r Seg_T v" if "sint v < 0" for r and v :: u32
  proof -
    have "sint (signed_drop_bit 8 v) < 0" using that by (simp add: sint_signed_drop_bit_eq drop_bit_eq_div)
    then have "\<not> uint (seg_end (p_map r Seg_T)) \<le> sint (signed_drop_bit 8 v)"
      using order_less_le_trans [of "sint (signed_drop_bit 8 v)" 0 "uint (seg_end (p_map r Seg_T))"] by simp
    then show ?thesis by (simp add: umap_def seg_phys_def Let_def)
  qed
  have S: "umap r Seg_S v n = seg_phys r Seg_S v" if "0 < sint n \<and> seg_end (p_map r Seg_D) \<le> ucast (drop_bit 8 (v + n - 1)) \<and>
    sint (signed_drop_bit 8 v) < uint (seg_end (p_map r Seg_S))" using that by (intro umap_stack) simp_all
  have "do_trace sl sz p 4 v dat s = Done (OK, 0, s\<lparr>ram := put32 (seg_phys (proc_tab s p) Seg_T v) (word_of_int dat) (ram s)\<rparr>)"
    if "P_SLOT_FREE \<notin> p_flags (proc_tab s p) \<and> mem_len (p_map (proc_tab s p) Seg_T) \<noteq> 0 \<and> sint v < 0 \<and>
      seg_phys (proc_tab s p) Seg_T v \<noteq> 0"
    using that T [of v "proc_tab s p"] by (simp add: do_trace_def trace_set_def trace_seg_def Let_def)
  with T S show ?thesis by blast
qed

theorem umap_accepts_outside_segments_witness:
  "umap (proc_tab demo_fork 2) Seg_T (- 4096) 4 = 0 \<and> umap (proc_tab demo_fork 2) Seg_S 1000 100000 = 5096 \<and>
   do_trace (\<lambda>_ _. 0) 0 2 4 (- 4092) 7 demo_fork = Done (OK, 0, demo_fork\<lparr>ram := put32 4 7 (ram demo_fork)\<rparr>)"
proof -
  have m: "p_map (proc_tab demo_fork 2) Seg_T = \<lparr>mem_vir = 0, mem_phys = 16, mem_len = 1\<rparr>"
    "p_map (proc_tab demo_fork 2) Seg_D = \<lparr>mem_vir = 1, mem_phys = 17, mem_len = 1\<rparr>"
    "p_map (proc_tab demo_fork 2) Seg_S = \<lparr>mem_vir = 3, mem_phys = 19, mem_len = 1\<rparr>"
    "P_SLOT_FREE \<notin> p_flags (proc_tab demo_fork 2)" by (simp_all add: demo_fork_def)
  show ?thesis
    using umap_accepts_outside_segments [of "- 4096" "proc_tab demo_fork 2"]
      umap_accepts_outside_segments [of 1000 "proc_tab demo_fork 2" 100000]
      umap_accepts_outside_segments [of "- 4092" _ _ demo_fork 2 "\<lambda>_ _. 0" 0 7] m
    by (simp add: seg_phys_def clicks_bytes_def seg_end_def)
qed

lemma reg_sched:
  "enqueue q p s = Done s' \<Longrightarrow> p_reg \<circ> proc_tab s' = p_reg \<circ> proc_tab s"
  "unready p s = Done s' \<Longrightarrow> p_reg \<circ> proc_tab s' = p_reg \<circ> proc_tab s"
  by (auto simp: enqueue_def unready_def Let_def outcome_simps split: option.splits if_splits prod.splits)

lemma reg_locked:
  "lock_ready p s = Done s' \<Longrightarrow> p_reg (proc_tab s' q) = p_reg (proc_tab s q)"
  "lock_unready p s = Done s' \<Longrightarrow> p_reg (proc_tab s' q) = p_reg (proc_tab s q)"
  by (auto simp: lock_ready_def lock_unready_def ready_def outcome_simps dest!: reg_sched fun_cong [of _ _ q])

lemma setbits_high: "setbits new psw AND 0x7F00 = psw AND 0x7F00"
  by (simp add: setbits_def bit.conj_disj_distrib2 and.assoc)
text \<open>
  Whatever the request, \<open>do_trace\<close> leaves the privileged half of the status word of every process
  as it was, but for the trace bit: the supervisor bit and the interrupt mask cannot be changed from
  user level, and no register of another process changes.
\<close>

theorem do_trace_keeps_privilege:
  assumes "do_trace slot_long slot_size p request addr dat s = Done (r, d, s')"
  shows "sf_psw (p_reg (proc_tab s' q)) AND 0x7F00 = sf_psw (p_reg (proc_tab s q)) AND 0x7F00 \<and>
         (q \<noteq> p \<longrightarrow> p_reg (proc_tab s' q) = p_reg (proc_tab s q))"
proof -
  have resume: "p_reg (proc_tab s2 q) = p_reg (proc_tab t q)" if "trace_resume p t = Done (r, d, s2)" for t s2
    using that by (auto simp: trace_resume_def Let_def outcome_simps split: if_splits dest!: reg_locked [where q = q])
  show ?thesis
    using assms
    by (auto simp: do_trace_def bit.conj_disj_distrib2 and.assoc outcome_simps Let_def trace_get_def trace_set_def trace_reg_def set_psw_def set_reg_def setbits_high
      split: if_splits dest!: reg_locked [where q = q] resume)
qed

theorem do_trace_keeps_privilege_witness:
  "do_trace (\<lambda>_ _. 0) 0 2 6 68 (- 1) demo_fork = Done (OK, 0, trace_reg 2 68 (- 1) demo_fork) \<and>
   sf_psw (p_reg (proc_tab (trace_reg 2 68 (- 1) demo_fork) 2)) AND 0x7F00 = 0"
proof -
  have e: "do_trace (\<lambda>_ _. 0) 0 2 6 68 (- 1) demo_fork = Done (OK, 0, trace_reg 2 68 (- 1) demo_fork)"
    by (simp add: do_trace_def demo_fork_def)
  have "sf_psw (p_reg (proc_tab demo_fork 2)) = 0" by (simp add: demo_fork_def demo_proc_def)
  then show ?thesis using do_trace_keeps_privilege [OF e, of 2] e by simp
qed

end
