(* ===== verification/Kernel_Clock.thy ===== *)
theory Kernel_Clock
  imports Kernel_System "HOL-Library.Signed_Division"
begin

section \<open>Kernel: the clock task (src/src/kernel/clock.c, stshadow.c)\<close>

text \<open>
  The clock interrupt handler, the four requests of the clock task and \<open>unshadow\<close>, which the tick
  calls when a shadowed process is ready.

  \<^item> Times are integers, where the source has \<open>long\<close>s that wrap after \<open>2 ^ 31\<close> ticks (414 days); \<open>sdiv\<close> is C's division, which truncates.
  \<^item> A watchdog is a function of a driver. The table holds its address; \<open>call_fn\<close>, what the function
    at an address does, is a parameter, and so are the driver routines that \<open>clock_handler\<close> calls.
  \<^item> \<open>flipclicks\<close> (assembly) exchanges two blocks of memory.
\<close>

abbreviation (input) HZ :: int where "HZ \<equiv> 60"
abbreviation (input) SCHED_RATE :: int where "SCHED_RATE \<equiv> 6"
abbreviation (input) SIGALRM :: int where "SIGALRM \<equiv> 14"
abbreviation (input) MAX_P_LONG :: int where "MAX_P_LONG \<equiv> 0x7FFFFFFF"
abbreviation (input) FLIPWAIT :: int where "FLIPWAIT \<equiv> 5"

record clock =
  boot_time :: int
  next_alarm :: int
  pending_ticks :: int
  realtime :: int
  sched_ticks :: int
  prev_ptr :: "int option"
  watch_dog :: "int \<Rightarrow> u32"
  flipwait :: int

subsection \<open>Requests\<close>

definition soonest :: "kernel \<Rightarrow> int \<Rightarrow> int \<Rightarrow> int" where
  "soonest s rp next = (if p_alarm (proc_tab s rp) \<noteq> 0 \<and> p_alarm (proc_tab s rp) < next then p_alarm (proc_tab s rp) else next)"

definition do_setalarm :: "int \<Rightarrow> int \<Rightarrow> u32 \<Rightarrow> kernel \<Rightarrow> clock \<Rightarrow> int \<times> kernel \<times> clock" where
  "do_setalarm proc_nr delta_ticks func s c =
     (let a = p_alarm (proc_tab s proc_nr);
          seconds_left = (if a = 0 then 0 else (a - realtime c) sdiv HZ);
          s1 = upd_proc proc_nr (\<lambda>r. r\<lparr>p_alarm := (if delta_ticks = 0 then 0 else realtime c + delta_ticks)\<rparr>) s;
          c1 = (if istaskp proc_nr then c\<lparr>watch_dog := (watch_dog c)(- proc_nr := func)\<rparr> else c)
      in (seconds_left, s1, c1\<lparr>next_alarm := fold (soonest s1) all_slots MAX_P_LONG\<rparr>))"

definition do_get_time :: "clock \<Rightarrow> int" where
  "do_get_time c = boot_time c + realtime c sdiv HZ"

definition do_set_time :: "int \<Rightarrow> clock \<Rightarrow> clock" where
  "do_set_time new_time c = c\<lparr>boot_time := new_time - realtime c sdiv HZ\<rparr>"

definition clock_set_boot_time :: "int \<Rightarrow> clock \<Rightarrow> clock" where
  "clock_set_boot_time t c = c\<lparr>boot_time := t - realtime c sdiv HZ\<rparr>"

subsection \<open>Shadows\<close>

definition flipclicks :: "u16 \<Rightarrow> u16 \<Rightarrow> u16 \<Rightarrow> kernel \<Rightarrow> kernel" where
  "flipclicks c1 c2 nc s =
     (let a = clicks_bytes c1; b = clicks_bytes c2; n = unat nc * 256; m = ram s
      in s\<lparr>ram := (\<lambda>x. if unat (x - a) < n then m (b + (x - a)) else if unat (x - b) < n then m (a + (x - b)) else m x)\<rparr>)"

definition owns_image :: "kernel \<Rightarrow> int \<Rightarrow> int \<Rightarrow> bool" where
  "owns_image s p q \<longleftrightarrow> shares_image s p q \<and> p_shadow (proc_tab s q) = 0"

definition unshadow :: "int \<Rightarrow> kernel \<Rightarrow> clock \<Rightarrow> (kernel \<times> clock) outcome" where
  "unshadow p s c =
     (if flipwait c \<noteq> 0 then Done (s, c\<lparr>flipwait := flipwait c - 1\<rparr>)
      else if p_physio (proc_tab s p) then Done (s, c)
      else
        (case find (owns_image s p) user_slots of
           None \<Rightarrow> Panic ''only shadow(s)''
         | Some q \<Rightarrow>
             if p_physio (proc_tab s q) then Done (s, c)
             else
               let s1 = flipclicks (p_shadow (proc_tab s p)) (mem_phys (p_map (proc_tab s q) Seg_D)) (data_clicks (proc_tab s q)) s;
                   c1 = c\<lparr>flipwait := FLIPWAIT\<rparr>
               in and_then (lock_unready p s1)
                 (\<lambda>s2. and_then (if p_flags (proc_tab s2 q) = {} then lock_unready q s2 else Done s2)
                 (\<lambda>s3. let sh = p_shadow (proc_tab s3 p);
                           s4 = upd_proc p (\<lambda>r. r\<lparr>p_shadow := 0\<rparr>) (upd_proc q (\<lambda>r. r\<lparr>p_shadow := sh\<rparr>) s3)
                       in and_then (lock_ready p s4)
                 (\<lambda>s5. and_then (if p_flags (proc_tab s5 q) = {} then lock_ready q s5 else Done s5)
                 (\<lambda>s6. Done (upd_proc q (\<lambda>r. r\<lparr>p_nflips := p_nflips r + 1\<rparr>)
                               (upd_proc p (\<lambda>r. r\<lparr>p_nflips := p_nflips r + 1\<rparr>) s6), c1)))))))"

subsection \<open>Ticks\<close>

text \<open>The loop over the process table when an alarm may be due, with \<open>next\<close> being computed.\<close>

fun ring_alarms :: "(u32 \<Rightarrow> kernel \<Rightarrow> kernel outcome) \<Rightarrow> clock \<Rightarrow> int list \<Rightarrow> int \<Rightarrow> kernel \<Rightarrow> (int \<times> kernel) outcome" where
  "ring_alarms call_fn c [] next s = Done (next, s)"
| "ring_alarms call_fn c (rp # rps) next s =
     (if p_alarm (proc_tab s rp) = 0 then ring_alarms call_fn c rps next s
      else and_then
        (if p_alarm (proc_tab s rp) \<le> realtime c
         then and_then (if 0 \<le> rp then cause_sig rp SIGALRM s else call_fn (watch_dog c (- rp)) s)
                (\<lambda>s1. Done (upd_proc rp (\<lambda>r. r\<lparr>p_alarm := 0\<rparr>) s1))
         else Done s)
        (\<lambda>s2. ring_alarms call_fn c rps (soonest s2 rp next) s2))"

definition end_quantum :: "kernel \<Rightarrow> clock \<Rightarrow> (kernel \<times> clock) outcome" where
  "end_quantum s c =
     (let c1 = c\<lparr>sched_ticks := sched_ticks c - 1\<rparr>
      in if sched_ticks c1 = 0
         then and_then (if Some (bill_ptr s) = prev_ptr c1 then lock_sched s else Done s)
                (\<lambda>s1. Done (s1, c1\<lparr>sched_ticks := SCHED_RATE, prev_ptr := Some (bill_ptr s1)\<rparr>))
         else Done (s, c1))"

definition do_clocktick :: "(u32 \<Rightarrow> kernel \<Rightarrow> kernel outcome) \<Rightarrow> kernel \<Rightarrow> clock \<Rightarrow> (kernel \<times> clock) outcome" where
  "do_clocktick call_fn s c =
     and_then
       (if next_alarm c \<le> realtime c
        then and_then (ring_alarms call_fn c all_slots MAX_P_LONG s)
               (\<lambda>(next, s1). Done (s1, c\<lparr>next_alarm := next\<rparr>))
        else Done (s, c))
       (\<lambda>(s1, c1). and_then (end_quantum s1 c1)
         (\<lambda>(s2, c2). case rdy_head s2 SHADOW_Q of None \<Rightarrow> Done (s2, c2) | Some p \<Rightarrow> unshadow p s2 c2))"

text \<open>One turn of the task's loop after \<open>receive\<close>: the messages with their fields, and the answer.\<close>

datatype clock_msg =
  Set_alarm int int u32
| Get_time
| Set_time int
| Hard_int
| Other_msg

definition clock_task :: "(u32 \<Rightarrow> kernel \<Rightarrow> kernel outcome) \<Rightarrow> clock_msg \<Rightarrow> kernel \<Rightarrow> clock \<Rightarrow> (int option \<times> kernel \<times> clock) outcome" where
  "clock_task call_fn msg s c0 =
     (let c = c0\<lparr>realtime := realtime c0 + pending_ticks c0, pending_ticks := 0\<rparr> in
      case msg of
        Set_alarm p d f \<Rightarrow> (let (r, s1, c1) = do_setalarm p d f s c in Done (Some r, s1, c1))
      | Get_time \<Rightarrow> Done (Some (do_get_time c), s, c)
      | Set_time t \<Rightarrow> Done (Some OK, s, do_set_time t c)
      | Hard_int \<Rightarrow> and_then (do_clocktick call_fn s c) (\<lambda>(s1, c1). Done (None, s1, c1))
      | Other_msg \<Rightarrow> Panic ''clock task got bad message'')"

text \<open>The interrupt handler, at interrupt level; \<open>drivers\<close> stands for \<open>kb_timer\<close>, \<open>fd_timer\<close> and \<open>rs_flush\<close>.\<close>

definition charge_tick :: "kernel \<Rightarrow> kernel" where
  "charge_tick s =
     (let rp = (if k_reenter s \<noteq> 0 then HARDWARE else proc_ptr s);
          s1 = upd_proc rp (\<lambda>r. r\<lparr>user_time := user_time r + 1\<rparr>) s
      in if rp \<noteq> bill_ptr s1 then upd_proc (bill_ptr s1) (\<lambda>r. r\<lparr>sys_time := sys_time r + 1\<rparr>) s1 else s1)"

definition clock_handler :: "(kernel \<Rightarrow> clock \<Rightarrow> kernel outcome) \<Rightarrow> kernel \<Rightarrow> clock \<Rightarrow> (kernel \<times> clock) outcome" where
  "clock_handler drivers s c =
     (let s1 = charge_tick s; c1 = c\<lparr>pending_ticks := pending_ticks c + 1\<rparr>
      in and_then (drivers s1 c1)
        (\<lambda>s2. if next_alarm c1 \<le> realtime c1 + pending_ticks c1 \<or>
                 sched_ticks c1 = 1 \<and> Some (bill_ptr s2) = prev_ptr c1 \<and>
                 (rdy_head s2 USER_Q \<noteq> None \<or> rdy_head s2 SHADOW_Q \<noteq> None)
              then and_then (interrupt CLOCK s2) (\<lambda>s3. Done (s3, c1))
              else let c2 = c1\<lparr>sched_ticks := sched_ticks c1 - 1\<rparr>
                   in Done (s2, if sched_ticks c2 = 0 then c2\<lparr>sched_ticks := SCHED_RATE, prev_ptr := Some (bill_ptr s2)\<rparr> else c2)))"

subsection \<open>What signals leave alone\<close>

definition clock_view :: "kernel \<Rightarrow> int \<Rightarrow> int \<times> phys_clicks" where
  "clock_view s p = (p_alarm (proc_tab s p), p_shadow (proc_tab s p))"

lemma clock_view_upd [simp]:
  "(\<And>r. p_alarm (f r) = p_alarm r \<and> p_shadow (f r) = p_shadow r) \<Longrightarrow> clock_view (upd_proc p f s) = clock_view s"
  by (auto simp: clock_view_def fun_eq_iff)

lemma clock_view_glob [simp]:
  "clock_view (s\<lparr>rdy_head := h\<rparr>) = clock_view s" "clock_view (s\<lparr>rdy_tail := h\<rparr>) = clock_view s"
  "clock_view (s\<lparr>proc_ptr := q\<rparr>) = clock_view s" "clock_view (s\<lparr>bill_ptr := q\<rparr>) = clock_view s"
  "clock_view (s\<lparr>switching := b\<rparr>) = clock_view s" "clock_view (s\<lparr>ram := m\<rparr>) = clock_view s"
  "clock_view (s\<lparr>sig_procs := n\<rparr>) = clock_view s"
  by (simp_all add: clock_view_def fun_eq_iff)

lemma clock_view_pick [simp]: "clock_view (pick_proc s) = clock_view s" "clock_view (lock_pick_proc s) = clock_view s"
  by (simp_all add: pick_proc_def lock_pick_proc_def split: option.splits)

lemma clock_view_mess [simp]: "clock_view (cp_mess n a x b y s) = clock_view s"
  by (simp add: cp_mess_def Let_def)

lemma clock_view_sched:
  "enqueue q p s = Done s' \<Longrightarrow> clock_view s' = clock_view s"
  "unready p s = Done s' \<Longrightarrow> clock_view s' = clock_view s"
  "sched s = Done s' \<Longrightarrow> clock_view s' = clock_view s"
  by (auto simp: enqueue_def unready_def sched_def Let_def outcome_simps split: option.splits if_splits prod.splits)

lemma clock_view_locked:
  "ready p s = Done s' \<Longrightarrow> clock_view s' = clock_view s"
  "lock_ready p s = Done s' \<Longrightarrow> clock_view s' = clock_view s"
  "lock_unready p s = Done s' \<Longrightarrow> clock_view s' = clock_view s"
  "lock_sched s = Done s' \<Longrightarrow> clock_view s' = clock_view s"
  by (auto simp: lock_ready_def lock_unready_def lock_sched_def ready_def outcome_simps dest!: clock_view_sched)

lemma clock_view_mini_send: "mini_send c d m s = Done (n, s') \<Longrightarrow> clock_view s' = clock_view s"
  by (auto simp: mini_send_def queue_caller_def Let_def outcome_simps split: if_splits option.splits prod.splits
      dest!: clock_view_sched clock_view_locked simp del: chain_numeral)

lemma clock_view_signals:
  "done_one_sig p s = Done s' \<Longrightarrow> clock_view s' = clock_view s"
  "inform s = Done s' \<Longrightarrow> clock_view s' = clock_view s"
  "cause_sig p n s = Done s' \<Longrightarrow> clock_view s' = clock_view s"
proof -
  show d: "done_one_sig p s = Done s' \<Longrightarrow> clock_view s' = clock_view s" for p s s'
    by (auto simp: done_one_sig_def Let_def split: if_splits dest!: clock_view_locked)
  show i: "inform s = Done s' \<Longrightarrow> clock_view s' = clock_view s" for s s'
    by (auto simp: inform_def Let_def lock_mini_send_def outcome_simps split: if_splits option.splits dest!: d clock_view_mini_send)
  show "cause_sig p n s = Done s' \<Longrightarrow> clock_view s' = clock_view s"
    by (auto simp: cause_sig_def Let_def outcome_simps split: if_splits dest!: i clock_view_locked)
qed

subsection \<open>The next alarm\<close>

definition alarm :: "kernel \<Rightarrow> int \<Rightarrow> int" where
  "alarm s p = p_alarm (proc_tab s p)"

text \<open>\<open>next_alarm\<close> is never later than a pending alarm.\<close>

definition alarms_ok :: "kernel \<Rightarrow> clock \<Rightarrow> bool" where
  "alarms_ok s c \<longleftrightarrow> (\<forall>p. isokprocn p \<longrightarrow> alarm s p \<noteq> 0 \<longrightarrow> next_alarm c \<le> alarm s p)"

lemma soonest_le: "soonest s p n \<le> n" "alarm s p \<noteq> 0 \<Longrightarrow> soonest s p n \<le> alarm s p"
  by (auto simp: soonest_def alarm_def)

lemma fold_soonest: "fold (soonest s) ps n \<le> n \<and> (\<forall>p \<in> set ps. alarm s p \<noteq> 0 \<longrightarrow> fold (soonest s) ps n \<le> alarm s p)"
proof (induction ps arbitrary: n)
  case (Cons p ps)
  then show ?case using Cons [of "soonest s p n"] soonest_le [of s p n] by fastforce
qed simp

lemma fold_soonest_attained:
  "fold (soonest s) ps n = n \<or> (\<exists>p \<in> set ps. alarm s p \<noteq> 0 \<and> fold (soonest s) ps n = alarm s p)"
proof (induction ps arbitrary: n)
  case (Cons p ps)
  then show ?case using Cons [of "soonest s p n"] by (auto simp: soonest_def alarm_def)
qed simp

lemma all_slots_set: "set all_slots = {p. isokprocn p}" "distinct all_slots"
  by (auto simp: all_slots_def isokprocn_def)

text \<open>The contract of a watchdog: it keeps the kernel consistent and sets no alarm.\<close>

definition watchdogs_ok :: "(u32 \<Rightarrow> kernel \<Rightarrow> kernel outcome) \<Rightarrow> bool" where
  "watchdogs_ok call_fn \<longleftrightarrow>
     (\<forall>f s. ipc_ok s \<longrightarrow> (\<exists>s'. call_fn f s = Done s' \<and> ipc_ok s' \<and> clock_view s' = clock_view s))"

lemma cause_sig_ipc:
  assumes "ipc_ok s" "isoksusern p"
  shows "\<exists>s'. cause_sig p n s = Done s' \<and> ipc_ok s' \<and> clock_view s' = clock_view s"
proof -
  have k: "kinv 0 s (ready_list s) (caller_list s)" using assms(1) by (simp add: ipc_ok_def)
  obtain s' rq' where s': "cause_sig p n s = Done s'" "kinv 0 s' rq' (caller_list s)"
    by (rule cause_sig_rep [OF k assms(2)]) auto
  then show ?thesis using kinv_ipc_ok [OF s'(2)] clock_view_signals(3) [OF s'(1)] by blast
qed

lemma ipc_ok_alarm: "ipc_ok s \<Longrightarrow> ipc_ok (upd_proc p (\<lambda>r. r\<lparr>p_alarm := a\<rparr>) s)"
  unfolding ipc_ok_def [of s] by (rule kinv_ipc_ok, rule kinv_proc_upd) simp_all

lemma alarm_view: "clock_view s' = clock_view s \<Longrightarrow> alarm s' = alarm s"
  by (auto simp: clock_view_def alarm_def fun_eq_iff)

text \<open>What the tick does for one process whose alarm is due.\<close>

abbreviation (input) ring_one :: "(u32 \<Rightarrow> kernel \<Rightarrow> kernel outcome) \<Rightarrow> clock \<Rightarrow> int \<Rightarrow> kernel \<Rightarrow> kernel outcome" where
  "ring_one call_fn c p s \<equiv> and_then (if 0 \<le> p then cause_sig p SIGALRM s else call_fn (watch_dog c (- p)) s)
     (\<lambda>s1. Done (upd_proc p (\<lambda>r. r\<lparr>p_alarm := 0\<rparr>) s1))"

definition due :: "clock \<Rightarrow> kernel \<Rightarrow> int \<Rightarrow> bool" where
  "due c s p \<longleftrightarrow> alarm s p \<noteq> 0 \<and> alarm s p \<le> realtime c"

lemma ring_alarms_ok:
  assumes "ipc_ok s" "watchdogs_ok call_fn" "distinct ps" "\<And>p. p \<in> set ps \<Longrightarrow> isokprocn p"
  shows "\<exists>n' s'. ring_alarms call_fn c ps n s = Done (n', s') \<and> seq_all (ring_one call_fn c) (filter (due c s) ps) s = Done s' \<and> ipc_ok s' \<and> n' \<le> n \<and>
     (\<forall>p. p_shadow (proc_tab s' p) = p_shadow (proc_tab s p)) \<and>
     (\<forall>p. alarm s' p = (if p \<in> set ps \<and> alarm s p \<le> realtime c then 0 else alarm s p)) \<and>
     (\<forall>p \<in> set ps. alarm s' p \<noteq> 0 \<longrightarrow> n' \<le> alarm s' p)"
  using assms
proof (induction ps arbitrary: n s)
  case (Cons q ps)
  show ?case
  proof (cases "alarm s q = 0")
    case True
    have "ring_alarms call_fn c (q # ps) n s = ring_alarms call_fn c ps n s" "filter (due c s) (q # ps) = filter (due c s) ps"
      using True by (simp_all add: alarm_def due_def)
    then show ?thesis using Cons.IH [OF Cons.prems(1,2), of n] Cons.prems(3,4) True by auto
  next
    case False
    obtain s2 where s2: "(if p_alarm (proc_tab s q) \<le> realtime c
         then and_then (if 0 \<le> q then cause_sig q SIGALRM s else call_fn (watch_dog c (- q)) s)
                (\<lambda>s1. Done (upd_proc q (\<lambda>r. r\<lparr>p_alarm := 0\<rparr>) s1))
         else Done s) = Done s2" "ipc_ok s2" "\<And>p. p_shadow (proc_tab s2 p) = p_shadow (proc_tab s p)"
      "alarm s2 = (if alarm s q \<le> realtime c then (alarm s)(q := 0) else alarm s)"
    proof (cases "alarm s q \<le> realtime c")
      case True
      have "isokprocn q" using Cons.prems(4) by simp
      then have "0 \<le> q \<Longrightarrow> isoksusern q" by (auto simp: proc_class_defs)
      then obtain s1 where s1: "(if 0 \<le> q then cause_sig q SIGALRM s else call_fn (watch_dog c (- q)) s) = Done s1"
        "ipc_ok s1" "clock_view s1 = clock_view s"
        using cause_sig_ipc [OF Cons.prems(1), of q SIGALRM] Cons.prems(1,2) unfolding watchdogs_ok_def by (cases "0 \<le> q") auto
      have sh: "p_shadow (proc_tab s1 p) = p_shadow (proc_tab s p)" for p using fun_cong [OF s1(3), of p] by (simp add: clock_view_def)
      have al: "alarm (upd_proc q (\<lambda>r. r\<lparr>p_alarm := 0\<rparr>) s1) = (alarm s)(q := 0)"
        using alarm_view [OF s1(3)] by (auto simp: alarm_def fun_eq_iff)
      show ?thesis
        by (rule that [of "upd_proc q (\<lambda>r. r\<lparr>p_alarm := 0\<rparr>) s1"])
          (use True s1 sh al ipc_ok_alarm [OF s1(2)] in \<open>auto simp: alarm_def\<close>)
    qed (use that [of s] Cons.prems(1) in \<open>auto simp: alarm_def\<close>)
    obtain n' s' where s': "ring_alarms call_fn c ps (soonest s2 q n) s2 = Done (n', s')" "ipc_ok s'" "n' \<le> soonest s2 q n"
      "\<forall>p. p_shadow (proc_tab s' p) = p_shadow (proc_tab s2 p)"
      "\<forall>p. alarm s' p = (if p \<in> set ps \<and> alarm s2 p \<le> realtime c then 0 else alarm s2 p)"
      "\<forall>p \<in> set ps. alarm s' p \<noteq> 0 \<longrightarrow> n' \<le> alarm s' p" and tl: "seq_all (ring_one call_fn c) (filter (due c s2) ps) s2 = Done s'"
      using Cons.IH [OF s2(2) Cons.prems(2), of "soonest s2 q n"] Cons.prems(3,4) by auto
    have e: "ring_alarms call_fn c (q # ps) n s = Done (n', s')"
      using False s'(1) by (simp only: ring_alarms.simps alarm_def [symmetric] s2(1) [folded alarm_def] and_then.simps if_False)
    have nq: "q \<notin> set ps" using Cons.prems(3) by simp
    have "due c s2 p = due c s p" if "p \<in> set ps" for p using that nq s2(4) by (auto simp: due_def)
    then have fl: "filter (due c s2) ps = filter (due c s) ps" by (rule filter_cong [OF refl])
    have sq: "seq_all (ring_one call_fn c) (filter (due c s) (q # ps)) s = Done s'"
    proof (cases "alarm s q \<le> realtime c")
      case True
      then have "ring_one call_fn c q s = Done s2" using s2(1) by (simp add: alarm_def)
      then show ?thesis using tl True False by (simp add: fl due_def)
    next
      case notdue: False
      then have "s2 = s" using s2(1) by (simp add: alarm_def)
      then show ?thesis using tl notdue by (simp add: due_def)
    qed
    have "alarm s' p = (if p \<in> set (q # ps) \<and> alarm s p \<le> realtime c then 0 else alarm s p)" for p
      using s'(5) s2(4) nq by auto
    moreover have "n' \<le> alarm s' p" if "p \<in> set (q # ps)" "alarm s' p \<noteq> 0" for p
    proof (cases "p = q")
      case True
      then have "alarm s' p = alarm s2 q" using s'(5) nq by simp
      then show ?thesis using s'(3) soonest_le(2) [of s2 q n] that(2) by simp
    qed (use that s'(6) in auto)
    moreover have "n' \<le> n" using s'(3) soonest_le(1) [of s2 q n] by simp
    ultimately show ?thesis using e sq s'(2,4) s2(3) by auto
  qed
qed simp

text \<open>On the Lisa no process is shadowed, so the shadow queue is empty.\<close>

lemma no_shadow_queue:
  assumes "ipc_ok s" "\<forall>p. p_shadow (proc_tab s p) = 0"
  shows "rdy_head s SHADOW_Q = None"
proof -
  have r: "rq_rep s (ready_list s)" using assms(1) kinvD(1) by (auto simp: ipc_ok_def)
  have "p \<notin> set (ready_list s SHADOW_Q)" for p
    using rq_repD(4) [OF r, of p SHADOW_Q] assms(2) by (auto simp: queue_of_def isshadowp_def split: if_splits)
  then have "ready_list s SHADOW_Q = []" by (cases "ready_list s SHADOW_Q") auto
  then show ?thesis using rq_head [OF r, of SHADOW_Q] by simp
qed

lemma end_quantum_ok:
  assumes "ipc_ok s"
  shows "\<exists>s' c'. end_quantum s c = Done (s', c') \<and> ipc_ok s' \<and> clock_view s' = clock_view s \<and> next_alarm c' = next_alarm c \<and>
     realtime c' = realtime c"
proof -
  have k: "kinv 0 s (ready_list s) (caller_list s)" using assms by (simp add: ipc_ok_def)
  obtain s' rq' where s': "lock_sched s = Done s'" "kinv 0 s' rq' (caller_list s)" by (rule lock_sched_rep [OF k]) auto
  show ?thesis using s'(1) kinv_ipc_ok [OF s'(2)] clock_view_locked(4) [OF s'(1)] assms by (simp add: end_quantum_def Let_def)
qed

subsection \<open>Properties\<close>

text \<open>
  C39. The tick of the clock task rings every alarm that is due and no other: with consistent queues,
  no shadowed process and \<open>next_alarm\<close> not later than any alarm, \<open>do_clocktick\<close> completes. What it does is to go through the processes whose
  alarm was set and reached, in the order of the table, and for each of them to cause \<open>SIGALRM\<close> (a process or server) or to call the watchdog it gave (a task) and to clear the
  alarm, and then to charge the quantum. It leaves every other alarm, keeps the queues consistent and leaves \<open>next_alarm\<close> right
  again, whether or not it looked at the table. The watchdogs, which are parameters, are supposed to return, to keep the queues
  consistent and to set no alarm (\<open>watchdogs_ok\<close>).
\<close>

theorem do_clocktick_rings_due_alarms:
  assumes "ipc_ok s" "alarms_ok s c" "watchdogs_ok call_fn" "\<forall>p. p_shadow (proc_tab s p) = 0"
  shows "\<exists>s1 n s' c'. do_clocktick call_fn s c = Done (s', c') \<and>
     seq_all (\<lambda>p s. and_then (if 0 \<le> p then cause_sig p SIGALRM s else call_fn (watch_dog c (- p)) s) (\<lambda>s. Done (upd_proc p (\<lambda>r. r\<lparr>p_alarm := 0\<rparr>) s)))
       (filter (\<lambda>p. p_alarm (proc_tab s p) \<noteq> 0 \<and> p_alarm (proc_tab s p) \<le> realtime c) all_slots) s = Done s1 \<and>
     end_quantum s1 (c\<lparr>next_alarm := n\<rparr>) = Done (s', c') \<and>
     ipc_ok s' \<and> alarms_ok s' c' \<and> realtime c' = realtime c \<and>
     (\<forall>p. isokprocn p \<longrightarrow> p_alarm (proc_tab s' p) =
        (if p_alarm (proc_tab s p) \<le> realtime c then 0 else p_alarm (proc_tab s p)))"
proof -
  obtain s1 n where s1: "(if next_alarm c \<le> realtime c
        then and_then (ring_alarms call_fn c all_slots MAX_P_LONG s)
               (\<lambda>(next, s1). Done (s1, c\<lparr>next_alarm := next\<rparr>))
        else Done (s, c)) = Done (s1, c\<lparr>next_alarm := n\<rparr>)" "ipc_ok s1" "\<forall>p. p_shadow (proc_tab s1 p) = 0"
      "\<forall>p. isokprocn p \<longrightarrow> alarm s1 p = (if alarm s p \<le> realtime c then 0 else alarm s p)" "alarms_ok s1 (c\<lparr>next_alarm := n\<rparr>)"
      "seq_all (ring_one call_fn c) (filter (due c s) all_slots) s = Done s1"
  proof (cases "next_alarm c \<le> realtime c")
    case True
    obtain n' s' where r: "ring_alarms call_fn c all_slots MAX_P_LONG s = Done (n', s')" "ipc_ok s'" "\<forall>p. p_shadow (proc_tab s' p) = p_shadow (proc_tab s p)"
      "\<forall>p. alarm s' p = (if p \<in> set all_slots \<and> alarm s p \<le> realtime c then 0 else alarm s p)"
      "\<forall>p \<in> set all_slots. alarm s' p \<noteq> 0 \<longrightarrow> n' \<le> alarm s' p" "seq_all (ring_one call_fn c) (filter (due c s) all_slots) s = Done s'"
      using ring_alarms_ok [OF assms(1,3) all_slots_set(2), of c MAX_P_LONG] all_slots_set(1) by auto
    show ?thesis
      by (rule that [of s' n'])
        (use True r assms(4) in \<open>simp_all add: alarms_ok_def all_slots_set(1)\<close>)
  next
    case False
    then have late: "alarm s p = 0 \<or> realtime c < alarm s p" if "isokprocn p" for p using assms(2) that by (fastforce simp: alarms_ok_def)
    then have "filter (due c s) all_slots = []" by (fastforce simp: filter_empty_conv all_slots_set(1) due_def)
    then show ?thesis using False assms late by (intro that [of s "next_alarm c"]) fastforce+
  qed
  obtain s2 c2 where s2: "end_quantum s1 (c\<lparr>next_alarm := n\<rparr>) = Done (s2, c2)" "ipc_ok s2" "clock_view s2 = clock_view s1"
    "next_alarm c2 = n" "realtime c2 = realtime c" using end_quantum_ok [OF s1(2), of "c\<lparr>next_alarm := n\<rparr>"] by auto
  have a: "alarm s2 = alarm s1" by (rule alarm_view [OF s2(3)])
  have "\<forall>p. p_shadow (proc_tab s2 p) = 0"
    using s1(3) s2(3) by (auto simp: clock_view_def fun_eq_iff)
  then have "rdy_head s2 SHADOW_Q = None" by (rule no_shadow_queue [OF s2(2)])
  then have "do_clocktick call_fn s c = Done (s2, c2)"
    by (simp only: do_clocktick_def s1(1) and_then.simps prod.case s2(1) option.case)
  moreover have "alarms_ok s2 c2" using s1(5) by (simp add: alarms_ok_def a s2(4))
  moreover have "\<forall>p. isokprocn p \<longrightarrow> p_alarm (proc_tab s2 p) = (if p_alarm (proc_tab s p) \<le> realtime c then 0 else p_alarm (proc_tab s p))"
    using s1(4) unfolding a [symmetric] alarm_def .
  ultimately show ?thesis using s2 s1(6) unfolding due_def alarm_def
    by (intro exI [of _ s1] exI [of _ n] exI [of _ s2] exI [of _ c2] conjI)
qed

text \<open>An alarm of INIT is due at tick 100; the one of process 1 is set for tick 500.\<close>

definition demo_clock :: clock where
  "demo_clock = \<lparr>boot_time = 0, next_alarm = 100, pending_ticks = 0, realtime = 120, sched_ticks = 4, prev_ptr = None,
     watch_dog = (\<lambda>_. 0), flipwait = 0\<rparr>"

definition demo_alarm :: kernel where
  "demo_alarm = upd_proc 1 (\<lambda>r. r\<lparr>p_alarm := 500\<rparr>) (upd_proc 2 (\<lambda>r. r\<lparr>p_alarm := 100\<rparr>) demo_kernel)"

theorem do_clocktick_rings_due_alarms_witness:
  "\<exists>s1 n s' c'. do_clocktick (\<lambda>_. Done) demo_alarm demo_clock = Done (s', c') \<and> cause_sig 2 SIGALRM demo_alarm = Done s1 \<and>
     end_quantum (upd_proc 2 (\<lambda>r. r\<lparr>p_alarm := 0\<rparr>) s1) (demo_clock\<lparr>next_alarm := n\<rparr>) = Done (s', c') \<and>
     p_alarm (proc_tab s' 2) = 0 \<and> p_alarm (proc_tab s' 1) = 500"
proof -
  have ok: "ipc_ok demo_alarm" unfolding demo_alarm_def by (intro ipc_ok_alarm demo_ok)
  have al: "p_alarm (proc_tab demo_alarm p) = (if p = 1 then 500 else if p = 2 then 100 else 0)" for p
    by (simp add: demo_alarm_def demo_proc_def)
  have h: "alarms_ok demo_alarm demo_clock" "watchdogs_ok (\<lambda>_. Done)" "\<forall>p. p_shadow (proc_tab demo_alarm p) = 0"
    by (simp_all add: alarms_ok_def alarm_def al demo_clock_def watchdogs_ok_def) (simp add: demo_alarm_def)
  have "isokprocn 1" "isokprocn 2" by (simp_all add: isokprocn_def)
  moreover have "filter (\<lambda>p. p_alarm (proc_tab demo_alarm p) \<noteq> 0 \<and> p_alarm (proc_tab demo_alarm p) \<le> realtime demo_clock) all_slots = [2]"
    by (simp add: al demo_clock_def all_slots_def upto_rec1)
  ultimately show ?thesis using do_clocktick_rings_due_alarms [OF ok h] by (fastforce simp: al demo_clock_def and_then_Done_iff)
qed

text \<open>
  \<open>do_setalarm\<close> replaces the alarm of one process (or turns it off for 0 ticks), answers with the
  whole seconds that were left, and makes \<open>next_alarm\<close> the earliest alarm of all processes, or the
  largest \<open>long\<close> when there is none.
\<close>

theorem do_setalarm_sets_next:
  assumes "isokprocn p" "\<forall>q. isokprocn q \<longrightarrow> p_alarm (proc_tab s q) \<le> MAX_P_LONG" "realtime c + delta \<le> MAX_P_LONG"
    "do_setalarm p delta f s c = (left, s', c')"
  shows "proc_tab s' = (proc_tab s)(p := (proc_tab s p)\<lparr>p_alarm := (if delta = 0 then 0 else realtime c + delta)\<rparr>) \<and>
     left = (if p_alarm (proc_tab s p) = 0 then 0 else (p_alarm (proc_tab s p) - realtime c) sdiv HZ) \<and> alarms_ok s' c' \<and>
     next_alarm c' = Min (insert MAX_P_LONG {p_alarm (proc_tab s' q) |q. isokprocn q \<and> p_alarm (proc_tab s' q) \<noteq> 0})"
proof -
  define s1 where "s1 = upd_proc p (\<lambda>r. r\<lparr>p_alarm := (if delta = 0 then 0 else realtime c + delta)\<rparr>) s"
  have e: "s' = s1" "left = (if p_alarm (proc_tab s p) = 0 then 0 else (p_alarm (proc_tab s p) - realtime c) sdiv HZ)"
    "next_alarm c' = fold (soonest s1) all_slots MAX_P_LONG"
    using assms(4) by (auto simp: do_setalarm_def Let_def s1_def)
  let ?A = "insert MAX_P_LONG {p_alarm (proc_tab s1 q) |q. isokprocn q \<and> p_alarm (proc_tab s1 q) \<noteq> 0}"
  have "?A \<subseteq> insert MAX_P_LONG ((\<lambda>q. p_alarm (proc_tab s1 q)) ` {q. isokprocn q})" by auto
  then have fin: "finite ?A" using card_slots(1) by (simp add: finite_subset)
  have "fold (soonest s1) all_slots MAX_P_LONG \<in> ?A"
    using fold_soonest_attained [of s1 all_slots MAX_P_LONG] by (auto simp: all_slots_set(1) alarm_def)
  moreover have "fold (soonest s1) all_slots MAX_P_LONG \<le> x" if "x \<in> ?A" for x
    using that fold_soonest [of s1 all_slots MAX_P_LONG] by (auto simp: all_slots_set(1) alarm_def)
  ultimately have m: "Min ?A = fold (soonest s1) all_slots MAX_P_LONG" by (rule Min_eqI [OF fin, rotated])
  have "alarms_ok s1 c'" using fold_soonest [of s1 all_slots MAX_P_LONG] by (simp add: alarms_ok_def e(3) all_slots_set(1))
  then show ?thesis using e m by (simp add: s1_def)
qed

theorem do_setalarm_sets_next_witness:
  "fst (do_setalarm 2 600 0 demo_alarm demo_clock) = 0 \<and> alarms_ok (fst (snd (do_setalarm 2 600 0 demo_alarm demo_clock))) (snd (snd (do_setalarm 2 600 0 demo_alarm demo_clock)))"
proof -
  have al: "p_alarm (proc_tab demo_alarm p) = (if p = 1 then 500 else if p = 2 then 100 else 0)" for p
    by (simp add: demo_alarm_def demo_proc_def)
  have "isokprocn 2" "\<forall>q. isokprocn q \<longrightarrow> p_alarm (proc_tab demo_alarm q) \<le> MAX_P_LONG" "realtime demo_clock + 600 \<le> MAX_P_LONG"
    "do_setalarm 2 600 0 demo_alarm demo_clock = (fst (do_setalarm 2 600 0 demo_alarm demo_clock),
       fst (snd (do_setalarm 2 600 0 demo_alarm demo_clock)), snd (snd (do_setalarm 2 600 0 demo_alarm demo_clock)))"
    by (simp_all add: isokprocn_def al demo_clock_def)
  from do_setalarm_sets_next [OF this] show ?thesis by (simp add: al demo_clock_def signed_divide_int_def)
qed

text \<open>
  A clock interrupt charges one tick of user time to the running process (to \<open>HARDWARE\<close> when the
  kernel itself was interrupted), one tick of system time to the billed process when that is another
  one, and nothing else; one tick is added to the pending time.
\<close>

theorem clock_handler_charges_one_tick:
  assumes "clock_handler (\<lambda>s c. Done s) s c = Done (s', c')"
  shows "let rp = (if k_reenter s \<noteq> 0 then HARDWARE else proc_ptr s) in
     (\<forall>p. user_time (proc_tab s' p) = user_time (proc_tab s p) + (if p = rp then 1 else 0) \<and>
          sys_time (proc_tab s' p) = sys_time (proc_tab s p) + (if p = bill_ptr s \<and> p \<noteq> rp then 1 else 0)) \<and>
     realtime c' + pending_ticks c' = realtime c + pending_ticks c + 1"
proof -
  have i: "user_time \<circ> proc_tab t' = user_time \<circ> proc_tab t \<and> sys_time \<circ> proc_tab t' = sys_time \<circ> proc_tab t"
    if "interrupt CLOCK t = Done t'" for t t'
    using that by (auto simp: interrupt_def hold_int_def enqueue_def hard_int_mess_def Let_def outcome_simps split: if_splits option.splits)
  define t where "t = charge_tick s"
  have u: "user_time \<circ> proc_tab s' = user_time \<circ> proc_tab t" "sys_time \<circ> proc_tab s' = sys_time \<circ> proc_tab t"
    and c: "realtime c' + pending_ticks c' = realtime c + pending_ticks c + 1"
    using assms i by (auto simp: clock_handler_def Let_def outcome_simps t_def split: if_splits)
  have "user_time (proc_tab s' p) = user_time (proc_tab t p)" "sys_time (proc_tab s' p) = sys_time (proc_tab t p)" for p
    using fun_cong [OF u(1), of p] fun_cong [OF u(2), of p] by simp_all
  then show ?thesis using c by (simp add: t_def charge_tick_def Let_def)
qed

theorem clock_handler_charges_one_tick_witness:
  "\<exists>s' c'. clock_handler (\<lambda>s c. Done s) demo_kernel (demo_clock\<lparr>next_alarm := 900\<rparr>) = Done (s', c') \<and> user_time (proc_tab s' 1) = 1"
proof -
  obtain s' c' where d: "clock_handler (\<lambda>s c. Done s) demo_kernel (demo_clock\<lparr>next_alarm := 900\<rparr>) = Done (s', c')"
    by (simp add: clock_handler_def Let_def demo_clock_def)
  with clock_handler_charges_one_tick [OF d] show ?thesis by (auto simp: Let_def demo_proc_def)
qed

end
