(* ===== verification/Lisa_MMU.thy ===== *)
theory Lisa_MMU
  imports Kernel_Proc
begin

section \<open>Kernel: the memory management unit (src/src/kernel/lisa/lisammu.c)\<close>

text \<open>
  User processes run in three contexts of the Lisa's MMU: MM and FS in one each, everything else in
  the first. \<open>lisa_mmu_switch\<close> selects the context of the process that is about to run and loads the
  process's memory map into it unless it is there already.

  \<^item> The hardware is the two \<open>SEG\<close> latches and, for every context and segment, a limit and an origin
    register of 12 bits; \<open>hw_map\<close> is the translation the file's comment documents.
  \<^item> \<open>long\<close> values are integers: addresses and offsets stay far below \<open>2 ^ 31\<close>.
  \<^item> \<open>lisa_membase\<close>, the physical start of memory, is a parameter (the boot block finds it).
\<close>

subsection \<open>Hardware\<close>

abbreviation (input) NSEGS :: nat where "NSEGS \<equiv> 128"
abbreviation (input) MMU_SLR :: int where "MMU_SLR \<equiv> 0x8000"
abbreviation (input) MMU_SOR :: int where "MMU_SOR \<equiv> 0x8008"
abbreviation (input) MMU_ACC_RW :: int where "MMU_ACC_RW \<equiv> 0x700"
abbreviation (input) MMU_ACC_INVAL :: int where "MMU_ACC_INVAL \<equiv> 0xC00"
abbreviation (input) MAX_WRITES :: nat where "MAX_WRITES \<equiv> 256"
abbreviation (input) NCTX :: nat where "NCTX \<equiv> 3"

record uctx =
  seg_valid :: "nat \<Rightarrow> bool"
  u_proc :: "int option"
  u_map :: "segment \<Rightarrow> mem_map"

record mmu =
  seg1 :: bool
  seg2 :: bool
  slr :: "nat \<Rightarrow> nat \<Rightarrow> int"
  sor :: "nat \<Rightarrow> nat \<Rightarrow> int"
  uctx_tab :: "nat \<Rightarrow> uctx"
  cur_ctx :: int
  mmu_table :: "(int \<times> int) list"

text \<open>The context the latches select, and a store to a register in setup mode.\<close>

definition hw_ctx :: "mmu \<Rightarrow> nat" where
  "hw_ctx m = (if seg1 m then (if seg2 m then 3 else 1) else if seg2 m then 2 else 0)"

definition mmu_store :: "int \<times> int \<Rightarrow> mmu \<Rightarrow> mmu" where
  "mmu_store w m =
     (let s = nat (fst w div 0x20000); r = fst w mod 0x20000; v = snd w mod 0x1000; c = hw_ctx m
      in if r = MMU_SLR then m\<lparr>slr := (slr m)(c := (slr m c)(s := v))\<rparr>
         else if r = MMU_SOR then m\<lparr>sor := (sor m)(c := (sor m c)(s := v))\<rparr>
         else m)"

text \<open>
  What an access to virtual address \<open>v\<close> in a context reaches: a segment whose access type is read-write
  with limit \<open>256 - n\<close> maps its first \<open>n\<close> pages of 512 bytes (256 pages when the low byte is 0); any
  other access is a bus error. Physical addresses have 21 bits.
\<close>

definition hw_pages :: "int \<Rightarrow> int" where
  "hw_pages limit = 256 - limit mod 0x100"

definition hw_map :: "mmu \<Rightarrow> nat \<Rightarrow> int \<Rightarrow> int option" where
  "hw_map m c v =
     (let s = nat (v div 0x20000); off = v mod 0x20000; lim = slr m c s
      in if lim div 0x100 = 7 \<and> off div 0x200 < hw_pages lim
         then Some ((sor m c s * 0x200 + off) mod 0x200000) else None)"

subsection \<open>Register writes\<close>

definition flush_writes :: "mmu \<Rightarrow> mmu" where
  "flush_writes m = (if mmu_table m = [] then m else (fold mmu_store (mmu_table m) m)\<lparr>mmu_table := []\<rparr>)"

definition add_write :: "int \<Rightarrow> int \<Rightarrow> mmu \<Rightarrow> mmu" where
  "add_write addr v m =
     (let m1 = (if length (mmu_table m) = MAX_WRITES then flush_writes m else m)
      in m1\<lparr>mmu_table := mmu_table m1 @ [(addr, v)]\<rparr>)"

definition select_ctx :: "nat \<Rightarrow> mmu \<Rightarrow> mmu" where
  "select_ctx c m =
     (if int c = cur_ctx m then m
      else m\<lparr>seg1 := c \<noteq> 1, seg2 := c \<noteq> 0, cur_ctx := int c\<rparr>)"

definition upd_uctx :: "nat \<Rightarrow> (uctx \<Rightarrow> uctx) \<Rightarrow> mmu \<Rightarrow> mmu" where
  "upd_uctx c f m = m\<lparr>uctx_tab := (uctx_tab m)(c := f (uctx_tab m c))\<rparr>"

subsection \<open>Initialisation\<close>

definition inval_seg :: "nat \<Rightarrow> nat \<Rightarrow> mmu \<Rightarrow> mmu" where
  "inval_seg c s m =
     upd_uctx c (\<lambda>u. u\<lparr>seg_valid := (seg_valid u)(s := False)\<rparr>)
       (add_write (int s * 0x20000 + MMU_SLR) MMU_ACC_INVAL m)"

definition init_ctx :: "nat \<Rightarrow> mmu \<Rightarrow> mmu" where
  "init_ctx c m =
     upd_uctx c (\<lambda>u. u\<lparr>u_proc := None\<rparr>)
       (flush_writes (fold (inval_seg c) [0..<NSEGS] ((select_ctx c m)\<lparr>mmu_table := []\<rparr>)))"

definition lisa_mmu_init :: "mmu \<Rightarrow> mmu" where
  "lisa_mmu_init m = fold init_ctx (rev [0..<NCTX]) m"

subsection \<open>Switching\<close>

definition same_map :: "uctx \<Rightarrow> (segment \<Rightarrow> mem_map) \<Rightarrow> bool" where
  "same_map u mp \<longleftrightarrow> (\<forall>g \<in> {Seg_T, Seg_D, Seg_S}.
     mem_vir (mp g) = mem_vir (u_map u g) \<and> mem_phys (mp g) = mem_phys (u_map u g) \<and> mem_len (mp g) = mem_len (u_map u g))"

text \<open>The extent of the image: lowest and highest address, offset, and whether no segment was seen yet.\<close>

fun image_scan :: "(segment \<Rightarrow> mem_map) \<Rightarrow> segment list \<Rightarrow> int \<times> int \<times> int \<times> bool \<Rightarrow> (int \<times> int \<times> int \<times> bool) outcome" where
  "image_scan mp [] acc = Done acc"
| "image_scan mp (g # gs) (lo, hi, delta, first) =
     (if mem_len (mp g) = 0 then image_scan mp gs (lo, hi, delta, first)
      else
        let vir = uint (mem_vir (mp g)); d = (uint (mem_phys (mp g)) - vir) * 256
        in if \<not> first \<and> d \<noteq> delta then Panic ''MMU: segments with different offsets, proc''
           else image_scan mp gs
                  (if vir * 256 < lo then vir * 256 else lo,
                   (let end = (vir + uint (mem_len (mp g))) * 256 in if hi < end then end else hi), d, False))"

definition seg_pages :: "int \<Rightarrow> nat \<Rightarrow> int" where
  "seg_pages hi s =
     (let end = hi - int s * 0x20000; end' = (if 0x20000 < end then 0x20000 else end) in (end' + 0x1FF) div 0x200)"

definition load_mmu_seg :: "int \<Rightarrow> int \<Rightarrow> int \<Rightarrow> nat \<Rightarrow> mmu \<Rightarrow> mmu" where
  "load_mmu_seg membase hi delta s m =
     (let seg_base = int s * 0x20000;
          origin = (seg_base + delta + membase) div 0x200
      in add_write (seg_base + MMU_SLR) (MMU_ACC_RW + (256 - seg_pages hi s) mod 0x100)
           (add_write (seg_base + MMU_SOR) (origin mod 0x1000) m))"

definition mmu_segs :: "int \<Rightarrow> int \<Rightarrow> nat list" where
  "mmu_segs lo hi = (if lo < hi then [nat (lo div 0x20000)..<Suc (nat ((hi - 1) div 0x20000))] else [])"

definition drop_seg :: "nat \<Rightarrow> nat list \<Rightarrow> nat \<Rightarrow> mmu \<Rightarrow> mmu" where
  "drop_seg c want s m =
     upd_uctx c (\<lambda>u. u\<lparr>seg_valid := (seg_valid u)(s := s \<in> set want)\<rparr>)
       (if seg_valid (uctx_tab m c) s \<and> s \<notin> set want
        then add_write (int s * 0x20000 + MMU_SLR) MMU_ACC_INVAL m else m)"

definition ctx_of :: "int \<Rightarrow> nat" where
  "ctx_of nr = (if nr = MM_PROC_NR then 1 else if nr = FS_PROC_NR then 2 else 0)"

definition load_ctx :: "int \<Rightarrow> nat \<Rightarrow> int \<Rightarrow> (segment \<Rightarrow> mem_map) \<Rightarrow> int \<Rightarrow> int \<Rightarrow> int \<Rightarrow> mmu \<Rightarrow> mmu" where
  "load_ctx membase c p mp lo hi delta m =
     (let want = mmu_segs lo hi;
          m1 = fold (load_mmu_seg membase hi delta) want (m\<lparr>mmu_table := []\<rparr>);
          m2 = fold (drop_seg c want) [0..<NSEGS] m1
      in upd_uctx c (\<lambda>u. u\<lparr>u_proc := Some p, u_map := mp\<rparr>) (flush_writes m2))"

definition lisa_mmu_switch :: "int \<Rightarrow> int \<Rightarrow> proc \<Rightarrow> mmu \<Rightarrow> mmu outcome" where
  "lisa_mmu_switch membase p rp m =
     (let c = ctx_of (p_nr rp); m1 = select_ctx c m; u = uctx_tab m1 c; mp = p_map rp
      in if u_proc u = Some p \<and> same_map u mp then Done m1
         else and_then (image_scan mp [Seg_T, Seg_D, Seg_S] (0x7FFFFFFF, 0, 0, True))
           (\<lambda>(lo, hi, delta, first).
              if delta mod 0x200 \<noteq> 0 then Panic ''MMU: memory map not on a page boundary, proc''
              else if 126 * 0x20000 < hi then Panic ''MMU: process image too high, proc''
              else Done (load_ctx membase c p mp lo hi delta m1)))"

subsection \<open>The registers after the pending writes\<close>

definition settled :: "mmu \<Rightarrow> mmu" where
  "settled m = (fold mmu_store (mmu_table m) m)\<lparr>mmu_table := []\<rparr>"

lemma mmu_store_keeps [simp]:
  "uctx_tab (mmu_store w m) = uctx_tab m" "cur_ctx (mmu_store w m) = cur_ctx m" "seg1 (mmu_store w m) = seg1 m"
  "seg2 (mmu_store w m) = seg2 m" "mmu_table (mmu_store w m) = mmu_table m" "hw_ctx (mmu_store w m) = hw_ctx m"
  by (simp_all add: mmu_store_def Let_def hw_ctx_def)

lemma mmu_store_table: "mmu_store w (m\<lparr>mmu_table := t\<rparr>) = (mmu_store w m)\<lparr>mmu_table := t\<rparr>"
  by (simp add: mmu_store_def Let_def hw_ctx_def)

lemma stores_keep [simp]:
  "uctx_tab (fold mmu_store ws m) = uctx_tab m" "cur_ctx (fold mmu_store ws m) = cur_ctx m"
  "hw_ctx (fold mmu_store ws m) = hw_ctx m" "mmu_table (fold mmu_store ws m) = mmu_table m"
  by (induction ws arbitrary: m) simp_all

lemma stores_table: "fold mmu_store ws (m\<lparr>mmu_table := t\<rparr>) = (fold mmu_store ws m)\<lparr>mmu_table := t\<rparr>"
  by (induction ws arbitrary: m) (simp_all add: mmu_store_table)

lemma hw_ctx_simps [simp]:
  "hw_ctx (m\<lparr>mmu_table := t\<rparr>) = hw_ctx m" "hw_ctx (upd_uctx c f m) = hw_ctx m"
  by (simp_all add: hw_ctx_def upd_uctx_def)

lemma settled_keeps [simp]:
  "uctx_tab (settled m) = uctx_tab m" "cur_ctx (settled m) = cur_ctx m" "hw_ctx (settled m) = hw_ctx m" "mmu_table (settled m) = []"
  by (simp_all add: settled_def)

lemma settled_empty: "mmu_table m = [] \<Longrightarrow> settled m = m"
  by (simp add: settled_def)

lemma flush_settled: "flush_writes m = settled m"
  by (simp add: flush_writes_def settled_def)

lemma settled_flush [simp]: "settled (settled m) = settled m" by (simp add: settled_empty)

lemma settled_add_write: "settled (add_write a v m) = mmu_store (a, v) (settled m)"
proof -
  have "settled (k\<lparr>mmu_table := mmu_table k @ [(a, v)]\<rparr>) = mmu_store (a, v) (settled k)" for k
    by (simp add: settled_def stores_table mmu_store_table)
  then show ?thesis by (simp add: add_write_def Let_def flush_settled)
qed

lemma add_write_keeps [simp]:
  "uctx_tab (add_write a v m) = uctx_tab m" "cur_ctx (add_write a v m) = cur_ctx m" "hw_ctx (add_write a v m) = hw_ctx m"
  by (simp_all add: add_write_def Let_def flush_settled)

lemma upd_uctx_keeps [simp]:
  "uctx_tab (upd_uctx c f m) = (uctx_tab m)(c := f (uctx_tab m c))" "cur_ctx (upd_uctx c f m) = cur_ctx m"
  "slr (upd_uctx c f m) = slr m" "sor (upd_uctx c f m) = sor m" "mmu_table (upd_uctx c f m) = mmu_table m"
  by (simp_all add: upd_uctx_def)

lemma stores_uctx: "fold mmu_store ws (upd_uctx c f m) = upd_uctx c f (fold mmu_store ws m)"
proof (induction ws arbitrary: m)
  case (Cons w ws)
  have "mmu_store w (upd_uctx c f m) = upd_uctx c f (mmu_store w m)"
    by (simp add: mmu_store_def Let_def hw_ctx_def upd_uctx_def)
  then show ?case using Cons by simp
qed simp

lemma settled_uctx [simp]: "settled (upd_uctx c f m) = upd_uctx c f (settled m)"
  by (simp add: settled_def stores_uctx) (simp add: upd_uctx_def)

text \<open>The two kinds of register.\<close>

lemma seg_addr: "(int s * 0x20000 + 0x8000) div 0x20000 = int s" "(int s * 0x20000 + 0x8000) mod 0x20000 = 0x8000"
  "(int s * 0x20000 + 0x8008) div 0x20000 = int s" "(int s * 0x20000 + 0x8008) mod 0x20000 = 0x8008"
  by (simp_all add: div_mult_self3 mod_mult_self3)

lemma store_slr [simp]:
  "slr (mmu_store (int s * 0x20000 + MMU_SLR, v) m) = (slr m)(hw_ctx m := (slr m (hw_ctx m))(s := v mod 0x1000))"
  "sor (mmu_store (int s * 0x20000 + MMU_SLR, v) m) = sor m"
  by (simp_all add: mmu_store_def Let_def seg_addr)

lemma store_sor [simp]:
  "sor (mmu_store (int s * 0x20000 + MMU_SOR, v) m) = (sor m)(hw_ctx m := (sor m (hw_ctx m))(s := v mod 0x1000))"
  "slr (mmu_store (int s * 0x20000 + MMU_SOR, v) m) = slr m"
  by (simp_all add: mmu_store_def Let_def seg_addr)

subsection \<open>Loading a context\<close>

definition seg_limit :: "int \<Rightarrow> nat \<Rightarrow> int" where
  "seg_limit hi s = MMU_ACC_RW + (256 - seg_pages hi s) mod 0x100"

definition seg_origin :: "int \<Rightarrow> int \<Rightarrow> nat \<Rightarrow> int" where
  "seg_origin membase delta s = ((int s * 0x20000 + delta + membase) div 0x200) mod 0x1000"

lemma seg_limit_range: "seg_limit hi s mod 0x1000 = seg_limit hi s"
proof -
  have "0 \<le> (256 - seg_pages hi s) mod 0x100" "(256 - seg_pages hi s) mod 0x100 < 0x100" by simp_all
  then show ?thesis unfolding seg_limit_def by (intro mod_pos_pos_trivial) linarith+
qed

lemma load_fold:
  "uctx_tab (fold (load_mmu_seg membase hi delta) ws m) = uctx_tab m \<and>
   cur_ctx (fold (load_mmu_seg membase hi delta) ws m) = cur_ctx m \<and>
   hw_ctx (fold (load_mmu_seg membase hi delta) ws m) = hw_ctx m \<and>
   slr (settled (fold (load_mmu_seg membase hi delta) ws m)) c s =
     (if c = hw_ctx m \<and> s \<in> set ws then seg_limit hi s else slr (settled m) c s) \<and>
   sor (settled (fold (load_mmu_seg membase hi delta) ws m)) c s =
     (if c = hw_ctx m \<and> s \<in> set ws then seg_origin membase delta s else sor (settled m) c s)"
proof (induction ws arbitrary: m)
  case (Cons w ws)
  let ?m = "load_mmu_seg membase hi delta w m"
  have k: "uctx_tab ?m = uctx_tab m" "cur_ctx ?m = cur_ctx m" "hw_ctx ?m = hw_ctx m"
    by (simp_all add: load_mmu_seg_def Let_def)
  have r: "slr (settled ?m) = (slr (settled m))(hw_ctx m := (slr (settled m) (hw_ctx m))(w := seg_limit hi w))"
    "sor (settled ?m) = (sor (settled m))(hw_ctx m := (sor (settled m) (hw_ctx m))(w := seg_origin membase delta w))"
    using seg_limit_range [of hi w]
    by (simp_all add: load_mmu_seg_def Let_def settled_add_write seg_limit_def seg_origin_def)
  show ?case using Cons [of ?m] k r by simp
qed simp

lemma drop_fold:
  "uctx_tab (fold (drop_seg k want) ss m) = (uctx_tab m)(k := (uctx_tab m k)
     \<lparr>seg_valid := (\<lambda>s. if s \<in> set ss then s \<in> set want else seg_valid (uctx_tab m k) s)\<rparr>) \<and>
   cur_ctx (fold (drop_seg k want) ss m) = cur_ctx m \<and> hw_ctx (fold (drop_seg k want) ss m) = hw_ctx m \<and>
   sor (settled (fold (drop_seg k want) ss m)) c s = sor (settled m) c s \<and>
   (distinct ss \<longrightarrow> slr (settled (fold (drop_seg k want) ss m)) c s =
     (if c = hw_ctx m \<and> s \<in> set ss \<and> seg_valid (uctx_tab m k) s \<and> s \<notin> set want then MMU_ACC_INVAL else slr (settled m) c s))"
proof (induction ss arbitrary: m)
  case (Cons w ws)
  let ?m = "drop_seg k want w m"
  have e: "uctx_tab ?m = (uctx_tab m)(k := (uctx_tab m k)\<lparr>seg_valid := (seg_valid (uctx_tab m k))(w := w \<in> set want)\<rparr>)"
    "cur_ctx ?m = cur_ctx m" "hw_ctx ?m = hw_ctx m"
    by (simp_all add: drop_seg_def)
  have r: "slr (settled ?m) = (if seg_valid (uctx_tab m k) w \<and> w \<notin> set want
      then (slr (settled m))(hw_ctx m := (slr (settled m) (hw_ctx m))(w := MMU_ACC_INVAL)) else slr (settled m))"
    "sor (settled ?m) = sor (settled m)"
    by (simp_all add: drop_seg_def settled_add_write)
  have "(\<lambda>s. if s \<in> set ws then s \<in> set want else seg_valid (uctx_tab ?m k) s) =
     (\<lambda>s. if s \<in> set (w # ws) then s \<in> set want else seg_valid (uctx_tab m k) s)" by (rule ext) (simp add: e)
  then have v: "(uctx_tab ?m k)\<lparr>seg_valid := \<lambda>s. if s \<in> set ws then s \<in> set want else seg_valid (uctx_tab ?m k) s\<rparr> =
     (uctx_tab m k)\<lparr>seg_valid := \<lambda>s. if s \<in> set (w # ws) then s \<in> set want else seg_valid (uctx_tab m k) s\<rparr>"
    by (simp only:) (simp add: e)
  show ?case using Cons [of ?m] by (simp only: fold.simps comp_apply v) (auto simp: e r)
qed simp

subsection \<open>The extent of an image\<close>

abbreviation scan :: "(segment \<Rightarrow> mem_map) \<Rightarrow> (int \<times> int \<times> int \<times> bool) outcome" where
  "scan mp \<equiv> image_scan mp [Seg_T, Seg_D, Seg_S] (0x7FFFFFFF, 0, 0, True)"

definition seg_lo :: "mem_map \<Rightarrow> int" where "seg_lo e = uint (mem_vir e) * 256"
definition seg_hi :: "mem_map \<Rightarrow> int" where "seg_hi e = (uint (mem_vir e) + uint (mem_len e)) * 256"
definition seg_delta :: "mem_map \<Rightarrow> int" where "seg_delta e = (uint (mem_phys e) - uint (mem_vir e)) * 256"

lemma image_scan_bounds:
  "image_scan mp gs (lo, hi, delta, first) = Done (lo', hi', delta', first') \<Longrightarrow>
   lo' \<le> lo \<and> hi \<le> hi' \<and> (0 \<le> lo \<longrightarrow> 0 \<le> lo') \<and> (\<not> first \<longrightarrow> delta' = delta) \<and>
   (\<forall>g \<in> set gs. mem_len (mp g) \<noteq> 0 \<longrightarrow> lo' \<le> seg_lo (mp g) \<and> seg_hi (mp g) \<le> hi' \<and> seg_delta (mp g) = delta')"
proof (induction gs arbitrary: lo hi delta first)
  case (Cons g gs)
  show ?case
  proof (cases "mem_len (mp g) = 0")
    case True
    then show ?thesis using Cons by simp
  next
    case False
    have p: "0 \<le> uint (mem_vir (mp g))" by simp
    have nd: "\<not> (\<not> first \<and> seg_delta (mp g) \<noteq> delta)"
      and sc: "image_scan mp gs (if seg_lo (mp g) < lo then seg_lo (mp g) else lo, if hi < seg_hi (mp g) then seg_hi (mp g) else hi,
         seg_delta (mp g), False) = Done (lo', hi', delta', first')"
      using Cons.prems False by (auto simp: seg_lo_def seg_hi_def seg_delta_def Let_def split: if_splits)
    show ?thesis using Cons.IH [OF sc] nd p by (auto simp: seg_lo_def split: if_splits)
  qed
qed simp

lemma image_scan_done:
  "\<lbrakk>\<forall>g \<in> set gs. mem_len (mp g) \<noteq> 0 \<longrightarrow> seg_delta (mp g) = d; first \<or> delta = d\<rbrakk> \<Longrightarrow>
   \<exists>r. image_scan mp gs (lo, hi, delta, first) = Done r"
  by (induction gs arbitrary: lo hi delta first) (auto simp: seg_delta_def Let_def)

lemma mmu_segs_iff:
  assumes "0 \<le> lo"
  shows "s \<in> set (mmu_segs lo hi) \<longleftrightarrow> lo < hi \<and> lo div 0x20000 \<le> int s \<and> int s \<le> (hi - 1) div 0x20000"
proof (cases "lo < hi")
  case True
  have "0 \<le> lo div 0x20000" "0 \<le> (hi - 1) div 0x20000" using assms True by simp_all
  then show ?thesis using True by (auto simp: mmu_segs_def nat_le_iff le_nat_iff)
qed (simp add: mmu_segs_def)

subsection \<open>The invariant\<close>

definition ctx_loaded :: "int \<Rightarrow> mmu \<Rightarrow> nat \<Rightarrow> (segment \<Rightarrow> mem_map) \<Rightarrow> bool" where
  "ctx_loaded membase m c mp \<longleftrightarrow>
     (\<exists>lo hi delta first. scan mp = Done (lo, hi, delta, first) \<and> delta mod 0x200 = 0 \<and> hi \<le> 126 * 0x20000 \<and>
        (\<forall>s < NSEGS. seg_valid (uctx_tab m c) s \<longleftrightarrow> s \<in> set (mmu_segs lo hi)) \<and>
        (\<forall>s \<in> set (mmu_segs lo hi). slr m (Suc c) s = seg_limit hi s \<and> sor m (Suc c) s = seg_origin membase delta s))"

definition mmu_ok :: "int \<Rightarrow> mmu \<Rightarrow> bool" where
  "mmu_ok membase m \<longleftrightarrow>
     mmu_table m = [] \<and> (\<exists>c < NCTX. cur_ctx m = int c \<and> hw_ctx m = Suc c) \<and>
     (\<forall>c < NCTX. \<forall>s < NSEGS. \<not> seg_valid (uctx_tab m c) s \<longrightarrow> slr m (Suc c) s = MMU_ACC_INVAL) \<and>
     (\<forall>c < NCTX. \<forall>p. u_proc (uctx_tab m c) = Some p \<longrightarrow> ctx_loaded membase m c (u_map (uctx_tab m c)))"

lemma same_map_eq: "same_map u mp \<longleftrightarrow> u_map u = mp"
proof
  assume h: "same_map u mp"
  show "u_map u = mp"
  proof
    fix g show "u_map u g = mp g" using h by (cases g) (auto simp: same_map_def intro: mem_map.equality)
  qed
qed (simp add: same_map_def)

lemma ctx_loaded_cong:
  assumes "seg_valid (uctx_tab m' c) = seg_valid (uctx_tab m c)" "slr m' (Suc c) = slr m (Suc c)" "sor m' (Suc c) = sor m (Suc c)"
  shows "ctx_loaded membase m' c mp = ctx_loaded membase m c mp"
  by (simp add: ctx_loaded_def assms)

lemma select_ctx_ok:
  assumes "mmu_ok membase m" "c < NCTX"
  shows "mmu_ok membase (select_ctx c m)" "hw_ctx (select_ctx c m) = Suc c" "uctx_tab (select_ctx c m) = uctx_tab m"
    "slr (select_ctx c m) = slr m" "sor (select_ctx c m) = sor m" "mmu_table (select_ctx c m) = []"
    "cur_ctx (select_ctx c m) = int c"
proof -
  show t: "uctx_tab (select_ctx c m) = uctx_tab m" "slr (select_ctx c m) = slr m" "sor (select_ctx c m) = sor m"
    "mmu_table (select_ctx c m) = []" "cur_ctx (select_ctx c m) = int c"
    using assms by (auto simp: select_ctx_def mmu_ok_def)
  have "c = 0 \<or> c = 1 \<or> c = 2" using assms(2) by auto
  then show h: "hw_ctx (select_ctx c m) = Suc c"
    using assms(1) by (auto simp: select_ctx_def hw_ctx_def mmu_ok_def split: if_splits)
  show "mmu_ok membase (select_ctx c m)"
    using assms t h unfolding mmu_ok_def ctx_loaded_def by auto
qed

lemma load_ctx_ok:
  assumes ok: "mmu_ok membase m" and c: "c < NCTX" "hw_ctx m = Suc c" "cur_ctx m = int c"
    and sc: "scan mp = Done (lo, hi, delta, first)" "delta mod 0x200 = 0" "hi \<le> 126 * 0x20000"
  shows "mmu_ok membase (load_ctx membase c p mp lo hi delta m)"
    "u_proc (uctx_tab (load_ctx membase c p mp lo hi delta m) c) = Some p"
    "u_map (uctx_tab (load_ctx membase c p mp lo hi delta m) c) = mp"
    "hw_ctx (load_ctx membase c p mp lo hi delta m) = Suc c"
proof -
  let ?w = "mmu_segs lo hi" and ?m' = "load_ctx membase c p mp lo hi delta m"
  define m0 where "m0 = m\<lparr>mmu_table := []\<rparr>"
  define m1 where "m1 = fold (load_mmu_seg membase hi delta) ?w m0"
  define m2 where "m2 = fold (drop_seg c ?w) [0..<NSEGS] m1"
  have t: "mmu_table m = []" using ok by (simp add: mmu_ok_def)
  then have m0: "m0 = m" by (simp add: m0_def)
  note L = load_fold [of membase hi delta ?w m0, folded m1_def, unfolded m0 settled_empty [OF t]]
  note D = drop_fold [of c ?w "[0..<NSEGS]" m1, folded m2_def]
  have e: "?m' = upd_uctx c (\<lambda>u. u\<lparr>u_proc := Some p, u_map := mp\<rparr>) (settled m2)"
    by (simp add: load_ctx_def Let_def flush_settled m0_def [symmetric] m1_def [symmetric] m2_def [symmetric])
  have lu: "uctx_tab m1 = uctx_tab m" using L by blast
  have hw: "hw_ctx m1 = Suc c" "hw_ctx m2 = Suc c" using L D c by auto
  show "hw_ctx ?m' = Suc c" by (simp add: e hw)
  have u: "uctx_tab ?m' = (uctx_tab m)(c := (uctx_tab m c)\<lparr>seg_valid := (\<lambda>s. if s < NSEGS then s \<in> set ?w else seg_valid (uctx_tab m c) s),
      u_proc := Some p, u_map := mp\<rparr>)"
    using L D by (simp add: e)
  show "u_proc (uctx_tab ?m' c) = Some p" "u_map (uctx_tab ?m' c) = mp" by (simp_all add: u)
  have slr: "slr ?m' k s = (if k = Suc c \<and> s < NSEGS \<and> seg_valid (uctx_tab m c) s \<and> s \<notin> set ?w then MMU_ACC_INVAL
      else if k = Suc c \<and> s \<in> set ?w then seg_limit hi s else slr m k s)" for k s
  proof -
    have "slr (settled m1) k s = (if k = Suc c \<and> s \<in> set ?w then seg_limit hi s else slr m k s)" using L c(2) by simp
    moreover have "slr (settled m2) k s = (if k = Suc c \<and> s < NSEGS \<and> seg_valid (uctx_tab m1 c) s \<and> s \<notin> set ?w
        then MMU_ACC_INVAL else slr (settled m1) k s)" using D hw by simp
    ultimately show ?thesis unfolding e upd_uctx_keeps lu by presburger
  qed
  have sor: "sor ?m' k s = (if k = Suc c \<and> s \<in> set ?w then seg_origin membase delta s else sor m k s)" for k s
  proof -
    have "sor (settled m1) k s = (if k = Suc c \<and> s \<in> set ?w then seg_origin membase delta s else sor m k s)" using L c(2) by simp
    moreover have "sor (settled m2) k s = sor (settled m1) k s" using D by blast
    ultimately show ?thesis by (simp add: e)
  qed
  have ld: "ctx_loaded membase ?m' c mp"
    unfolding ctx_loaded_def
    by (rule exI [of _ lo], rule exI [of _ hi], rule exI [of _ delta], rule exI [of _ first]) (use sc in \<open>auto simp: u slr sor\<close>)
  have other: "ctx_loaded membase ?m' k mq = ctx_loaded membase m k mq" if "k \<noteq> c" for k mq
    by (rule ctx_loaded_cong) (use that in \<open>auto simp: u slr sor fun_eq_iff\<close>)
  show "mmu_ok membase ?m'"
    unfolding mmu_ok_def
  proof (intro conjI allI impI)
    show "mmu_table ?m' = []" by (simp add: e)
    show "\<exists>k < NCTX. cur_ctx ?m' = int k \<and> hw_ctx ?m' = Suc k" using c L D hw by (intro exI [of _ c]) (simp add: e)
    show "slr ?m' (Suc k) s = MMU_ACC_INVAL" if "k < NCTX" "s < NSEGS" "\<not> seg_valid (uctx_tab ?m' k) s" for k s
      using that ok by (cases "k = c") (auto simp: slr u mmu_ok_def)
    show "ctx_loaded membase ?m' k (u_map (uctx_tab ?m' k))" if "k < NCTX" "u_proc (uctx_tab ?m' k) = Some q" for k q
    proof (cases "k = c")
      case True
      then show ?thesis using ld by (simp only: u) simp
    next
      case False
      then show ?thesis using that ok other by (auto simp: u mmu_ok_def)
    qed
  qed
qed

lemma lisa_mmu_switch_ok:
  assumes ok: "mmu_ok membase m" and d: "lisa_mmu_switch membase p rp m = Done m'"
  shows "mmu_ok membase m' \<and> hw_ctx m' = Suc (ctx_of (p_nr rp)) \<and> ctx_loaded membase m' (ctx_of (p_nr rp)) (p_map rp)"
proof -
  let ?c = "ctx_of (p_nr rp)" and ?m1 = "select_ctx (ctx_of (p_nr rp)) m"
  have c: "?c < NCTX" by (simp add: ctx_of_def)
  note S = select_ctx_ok [OF ok c]
  show ?thesis
  proof (cases "u_proc (uctx_tab ?m1 ?c) = Some p \<and> same_map (uctx_tab ?m1 ?c) (p_map rp)")
    case True
    then have "m' = ?m1" using d by (simp add: lisa_mmu_switch_def Let_def)
    moreover have "ctx_loaded membase ?m1 ?c (p_map rp)" using S(1) True c by (auto simp: mmu_ok_def same_map_eq)
    ultimately show ?thesis using S by simp
  next
    case False
    then obtain lo hi delta first where sc: "scan (p_map rp) = Done (lo, hi, delta, first)" "delta mod 0x200 = 0" "hi \<le> 126 * 0x20000"
      and m': "m' = load_ctx membase ?c p (p_map rp) lo hi delta ?m1"
      using d unfolding lisa_mmu_switch_def Let_def if_not_P [OF False]
      by (auto simp only: outcome_simps prod.case split: if_splits) auto
    note L = load_ctx_ok [OF S(1) c S(2,7) sc, of p]
    have "ctx_loaded membase m' ?c (u_map (uctx_tab m' ?c))" using L(1,2) c unfolding m' mmu_ok_def by blast
    then show ?thesis using L by (simp add: m')
  qed
qed

subsection \<open>What a loaded context maps\<close>

lemma seg_pages_range:
  assumes "int s * 0x20000 < hi"
  shows "1 \<le> seg_pages hi s" "seg_pages hi s \<le> 256"
  using assms by (auto simp: seg_pages_def Let_def)

lemma hw_pages_limit:
  assumes "int s * 0x20000 < hi"
  shows "hw_pages (seg_limit hi s) = seg_pages hi s" "seg_limit hi s div 0x100 = 7"
proof -
  have r: "0 \<le> (256 - seg_pages hi s) mod 0x100" "(256 - seg_pages hi s) mod 0x100 < 0x100" by simp_all
  then show "seg_limit hi s div 0x100 = 7" by (simp add: seg_limit_def)
  have "(256 - seg_pages hi s) mod 0x100 = 256 - seg_pages hi s"
    using seg_pages_range [OF assms] by (intro mod_pos_pos_trivial) auto
  moreover have "seg_limit hi s mod 0x100 = (256 - seg_pages hi s) mod 0x100" 
    using mod_mult_self3 [of 7 "0x100 :: int" "(256 - seg_pages hi s) mod 0x100"] by (simp add: seg_limit_def)
  ultimately show "hw_pages (seg_limit hi s) = seg_pages hi s" by (simp only: hw_pages_def)
qed

lemma page_of: "(int s * 0x20000 + x) div 0x200 = int s * 0x100 + x div 0x200"
  using div_mult_self3 [of "0x200 :: int" "int s * 0x100" x] by simp

lemma seg_split: "v div 0x20000 = int s \<Longrightarrow> v = int s * 0x20000 + v mod (0x20000 :: int)"
  using mult_div_mod_eq [of "0x20000 :: int" v] by simp

lemma div_lower: "(a :: int) \<le> v div b \<Longrightarrow> 0 < b \<Longrightarrow> a * b \<le> v"
  by (metis div_mult_mod_eq add_increasing2 mult_right_mono order_less_imp_le pos_mod_sign)

lemma div_upper: "0 < (b :: int) \<Longrightarrow> v < (v div b + 1) * b"
  by (metis add.commute div_mult_mod_eq add_strict_left_mono distrib_right mult_1 pos_mod_bound)

lemma page_in_seg:
  assumes "v div 0x20000 = int s" "int s * 0x20000 < hi"
  shows "v mod 0x20000 div 0x200 < seg_pages hi s \<longleftrightarrow> v div 0x200 < (hi + 0x1FF) div 0x200"
proof -
  define x e where "x = v mod 0x20000" and "e = hi - int s * 0x20000"
  have x: "0 \<le> x" "x < 0x20000" by (simp_all add: x_def)
  have v: "v div 0x200 = int s * 0x100 + x div 0x200"
    using seg_split [OF assms(1)] page_of [of s x] by (simp only: x_def [symmetric])
  have h: "(hi + 0x1FF) div 0x200 = int s * 0x100 + (e + 0x1FF) div 0x200"
    using page_of [of s "e + 0x1FF"] by (simp add: e_def)
  have "x div 0x200 < (0x20000 + 0x1FF) div 0x200" using x by simp
  moreover have "(0x20000 + 0x1FF) div 0x200 \<le> (e + 0x1FF) div 0x200" if "0x20000 < e" using that by (intro zdiv_mono1) auto
  ultimately show ?thesis unfolding v h x_def [symmetric] seg_pages_def Let_def e_def [symmetric] by auto
qed

lemma ctx_loaded_map:
  assumes ld: "ctx_loaded membase m c mp" and inv: "\<forall>s < NSEGS. \<not> seg_valid (uctx_tab m c) s \<longrightarrow> slr m (Suc c) s = MMU_ACC_INVAL"
    and mb: "membase mod 0x200 = 0" and v: "0 \<le> v" "v < 0x1000000"
    and sc: "scan mp = Done (lo, hi, delta, first)"
  shows "hw_map m (Suc c) v =
     (if lo < hi \<and> lo div 0x20000 \<le> v div 0x20000 \<and> v div 0x200 < (hi + 0x1FF) div 0x200
      then Some ((v + delta + membase) mod 0x200000) else None)"
proof -
  define s where "s = nat (v div 0x20000)"
  have dl: "delta mod 0x200 = 0" and hi: "hi \<le> 126 * 0x20000"
    and val: "\<And>s. s < NSEGS \<Longrightarrow> seg_valid (uctx_tab m c) s \<longleftrightarrow> s \<in> set (mmu_segs lo hi)"
    and reg: "\<And>s. s \<in> set (mmu_segs lo hi) \<Longrightarrow> slr m (Suc c) s = seg_limit hi s \<and> sor m (Suc c) s = seg_origin membase delta s"
    using ld sc unfolding ctx_loaded_def by auto
  have lo: "0 \<le> lo" using image_scan_bounds [OF sc] by simp
  have s: "int s = v div 0x20000" "s < NSEGS" using v by (simp_all add: s_def)
  have inr: "s \<in> set (mmu_segs lo hi) \<longleftrightarrow> lo < hi \<and> lo div 0x20000 \<le> v div 0x20000 \<and> v div 0x20000 \<le> (hi - 1) div 0x20000"
    by (simp only: mmu_segs_iff [OF lo] s(1))
  show ?thesis
  proof (cases "s \<in> set (mmu_segs lo hi)")
    case True
    then have h: "int s * 0x20000 < hi" using inr s(1) by linarith
    have "sor m (Suc c) s * 0x200 = (int s * 0x20000 + delta + membase) mod 0x200000"
    proof -
      define x where "x = int s * 0x20000 + delta + membase"
      have "0x200 dvd int s * 0x20000" by (rule dvd_mult) simp
      then have "0x200 dvd x" using dl mb unfolding x_def by (intro dvd_add) (simp_all add: mod_eq_0_iff_dvd)
      then obtain y where y: "x = y * 0x200" by (metis dvdE mult.commute)
      have "(x div 0x200) mod 0x1000 * 0x200 = x mod 0x200000"
        using mod_mult_mult2 [of y "0x200 :: int" "0x1000"] by (simp add: y)
      then show ?thesis using reg [OF True] by (simp add: seg_origin_def x_def)
    qed
    moreover have "v = int s * 0x20000 + v mod 0x20000" by (rule seg_split [OF s(1) [symmetric]])
    ultimately have "(sor m (Suc c) s * 0x200 + v mod 0x20000) mod 0x200000 = (v + delta + membase) mod 0x200000"
      by (simp only:) (simp add: mod_simps algebra_simps)
    then show ?thesis using True inr hw_pages_limit [OF h] page_in_seg [OF s(1) [symmetric] h] reg [OF True]
      by (simp add: hw_map_def Let_def s_def [symmetric])
  next
    case False
    then have "slr m (Suc c) s = MMU_ACC_INVAL" using inv val s(2) by blast
    then have "hw_map m (Suc c) v = None" by (simp add: hw_map_def Let_def s_def [symmetric])
    moreover have "\<not> (v div 0x200 < (hi + 0x1FF) div 0x200)" if "lo < hi" "lo div 0x20000 \<le> v div 0x20000"
    proof -
      define q where "q = (hi - 1) div 0x20000"
      have "q + 1 \<le> v div 0x20000" using False inr that by (auto simp: q_def)
      then have "(q + 1) * 0x20000 \<le> v" by (rule div_lower) simp
      then have "(q + 1) * 0x20000 div 0x200 \<le> v div 0x200" by (rule zdiv_mono1) simp
      moreover have "hi \<le> (q + 1) * 0x20000" using div_upper [of "0x20000" "hi - 1"] by (simp add: q_def)
      then have "(hi + 0x1FF) div 0x200 \<le> ((q + 1) * 0x20000 + 0x1FF) div 0x200" by (intro zdiv_mono1) simp_all
      moreover have "((q + 1) * 0x20000 + 0x1FF) div 0x200 = (q + 1) * 0x100" "(q + 1) * 0x20000 div 0x200 = (q + 1) * 0x100"
        using div_mult_self3 [of "0x200 :: int" "(q + 1) * 0x100" "0x1FF"] div_mult_self3 [of "0x200 :: int" "(q + 1) * 0x100" 0] by simp_all
      ultimately show ?thesis by linarith
    qed
    ultimately show ?thesis by auto
  qed
qed

subsection \<open>Initialisation\<close>

lemma inval_fold:
  "uctx_tab (fold (inval_seg k) ss m) = (uctx_tab m)(k := (uctx_tab m k)
     \<lparr>seg_valid := (\<lambda>s. s \<notin> set ss \<and> seg_valid (uctx_tab m k) s)\<rparr>) \<and>
   cur_ctx (fold (inval_seg k) ss m) = cur_ctx m \<and> hw_ctx (fold (inval_seg k) ss m) = hw_ctx m \<and>
   slr (settled (fold (inval_seg k) ss m)) c s =
     (if c = hw_ctx m \<and> s \<in> set ss then MMU_ACC_INVAL else slr (settled m) c s)"
proof (induction ss arbitrary: m)
  case (Cons w ws)
  let ?m = "inval_seg k w m"
  have e: "uctx_tab ?m = (uctx_tab m)(k := (uctx_tab m k)\<lparr>seg_valid := (seg_valid (uctx_tab m k))(w := False)\<rparr>)"
    "cur_ctx ?m = cur_ctx m" "hw_ctx ?m = hw_ctx m"
    "slr (settled ?m) = (slr (settled m))(hw_ctx m := (slr (settled m) (hw_ctx m))(w := MMU_ACC_INVAL))"
    by (simp_all add: inval_seg_def settled_add_write)
  have "(\<lambda>s. s \<notin> set ws \<and> seg_valid (uctx_tab ?m k) s) = (\<lambda>s. s \<notin> set (w # ws) \<and> seg_valid (uctx_tab m k) s)"
    by (rule ext) (simp add: e)
  then have v: "(uctx_tab ?m k)\<lparr>seg_valid := \<lambda>s. s \<notin> set ws \<and> seg_valid (uctx_tab ?m k) s\<rparr> =
     (uctx_tab m k)\<lparr>seg_valid := \<lambda>s. s \<notin> set (w # ws) \<and> seg_valid (uctx_tab m k) s\<rparr>"
    by (simp only:) (simp add: e)
  show ?case using Cons [of ?m] by (simp only: fold.simps comp_apply v) (auto simp: e)
qed simp

definition ctx_empty :: "mmu \<Rightarrow> nat \<Rightarrow> bool" where
  "ctx_empty m c \<longleftrightarrow> u_proc (uctx_tab m c) = None \<and> (\<forall>s < NSEGS. \<not> seg_valid (uctx_tab m c) s \<and> slr m (Suc c) s = MMU_ACC_INVAL)"

lemma init_ctx_empty:
  assumes c: "c < NCTX" and l: "cur_ctx m = int c \<Longrightarrow> hw_ctx m = Suc c"
  shows "ctx_empty (init_ctx c m) c" "k \<noteq> c \<Longrightarrow> ctx_empty (init_ctx c m) k = ctx_empty m k"
    "cur_ctx (init_ctx c m) = int c" "hw_ctx (init_ctx c m) = Suc c" "mmu_table (init_ctx c m) = []"
proof -
  define m1 where "m1 = (select_ctx c m)\<lparr>mmu_table := []\<rparr>"
  define m2 where "m2 = fold (inval_seg c) [0..<NSEGS] m1"
  have "c = 0 \<or> c = 1 \<or> c = 2" using c by auto
  then have m1: "cur_ctx m1 = int c" "hw_ctx m1 = Suc c" "uctx_tab m1 = uctx_tab m" "slr m1 = slr m" "mmu_table m1 = []"
    using l by (auto simp: m1_def select_ctx_def hw_ctx_def split: if_splits)
  have e: "init_ctx c m = upd_uctx c (\<lambda>u. u\<lparr>u_proc := None\<rparr>) (settled m2)"
    by (simp add: init_ctx_def flush_settled m1_def m2_def)
  note F = inval_fold [of c "[0..<NSEGS]" m1, folded m2_def, unfolded settled_empty [OF m1(5)]]
  have u: "uctx_tab m2 = (uctx_tab m)(c := (uctx_tab m c)\<lparr>seg_valid := (\<lambda>s. s \<notin> set [0..<NSEGS] \<and> seg_valid (uctx_tab m c) s)\<rparr>)"
    using F m1(3) by metis
  have r: "slr (settled m2) k s = (if k = Suc c \<and> s < NSEGS then MMU_ACC_INVAL else slr m k s)" for k s
    using F [of k s] m1 by simp
  show "ctx_empty (init_ctx c m) c" by (simp add: ctx_empty_def e u r)
  show "ctx_empty (init_ctx c m) k = ctx_empty m k" if "k \<noteq> c" using that by (simp add: ctx_empty_def e u r)
  show "cur_ctx (init_ctx c m) = int c" "hw_ctx (init_ctx c m) = Suc c" "mmu_table (init_ctx c m) = []"
    using F m1 by (auto simp: e)
qed

lemma ctx_empty_ok:
  assumes "\<And>c. c < NCTX \<Longrightarrow> ctx_empty m c" "mmu_table m = []" "cur_ctx m = 0" "hw_ctx m = 1"
  shows "mmu_ok membase m"
  using assms unfolding mmu_ok_def ctx_empty_def by auto

lemma lisa_mmu_init_empty:
  assumes "cur_ctx m = -1"
  shows "k < NCTX \<Longrightarrow> ctx_empty (lisa_mmu_init m) k" "mmu_ok membase (lisa_mmu_init m)"
proof -
  define a b c where "a = init_ctx 2 m" and "b = init_ctx 1 a" and "c = init_ctx 0 b"
  have i: "lisa_mmu_init m = c" by (simp add: lisa_mmu_init_def a_def b_def c_def eval_nat_numeral)
  note A = init_ctx_empty [of 2 m, folded a_def] and B = init_ctx_empty [of 1 a, folded b_def]
    and C = init_ctx_empty [of 0 b, folded c_def]
  have h: "cur_ctx a = 2" "cur_ctx b = 1" using A(3) B(3) assms by simp_all
  have e: "ctx_empty c k" if "k < NCTX" for k
  proof -
    have "k = 0 \<or> k = 1 \<or> k = 2" using that by auto
    then show ?thesis using A(1) B(1) B(2) [of 2] C(1) C(2) [of 1] C(2) [of 2] assms h by auto
  qed
  then show "k < NCTX \<Longrightarrow> ctx_empty (lisa_mmu_init m) k" by (simp add: i)
  show "mmu_ok membase (lisa_mmu_init m)" unfolding i by (rule ctx_empty_ok [OF e]) (use C(3-5) h in auto)
qed

lemma image_scan_hi:
  "image_scan mp gs (lo, hi, delta, first) = Done (lo', hi', delta', first') \<Longrightarrow>
   (hi' = hi \<or> (\<exists>g \<in> set gs. mem_len (mp g) \<noteq> 0 \<and> hi' = seg_hi (mp g))) \<and>
   (delta' = delta \<or> (\<exists>g \<in> set gs. mem_len (mp g) \<noteq> 0 \<and> delta' = seg_delta (mp g)))"
proof (induction gs arbitrary: lo hi delta first)
  case (Cons g gs)
  show ?case
  proof (cases "mem_len (mp g) = 0")
    case True
    then show ?thesis using Cons by simp
  next
    case False
    have sc: "image_scan mp gs (if seg_lo (mp g) < lo then seg_lo (mp g) else lo, if hi < seg_hi (mp g) then seg_hi (mp g) else hi,
         seg_delta (mp g), False) = Done (lo', hi', delta', first')"
      using Cons.prems False by (auto simp: seg_lo_def seg_hi_def seg_delta_def Let_def split: if_splits)
    show ?thesis using Cons.IH [OF sc] False by (auto split: if_splits)
  qed
qed simp

lemma lisa_mmu_switch_done:
  assumes "scan (p_map rp) = Done (lo, hi, delta, first)" "delta mod 0x200 = 0" "hi \<le> 126 * 0x20000"
  shows "\<exists>m'. lisa_mmu_switch membase p rp m = Done m'"
  using assms by (simp add: lisa_mmu_switch_def Let_def)

subsection \<open>Properties\<close>

text \<open>
  \<open>lisa_mmu_init\<close> leaves the three user contexts without a valid segment: whatever was in the
  registers, no user access reaches memory before a process has been switched to, and the unit is in
  the state the switches keep.
\<close>

theorem lisa_mmu_init_invalidates:
  assumes "cur_ctx m = -1"
  shows "mmu_ok membase (lisa_mmu_init m) \<and>
         (\<forall>c \<in> {1, 2, 3}. \<forall>v. 0 \<le> v \<and> v < 0x1000000 \<longrightarrow> hw_map (lisa_mmu_init m) c v = None)"
proof -
  have "hw_map (lisa_mmu_init m) (Suc k) v = None" if k: "k < NCTX" and v: "0 \<le> v" "v < 0x1000000" for k v
  proof -
    have "nat (v div 0x20000) < NSEGS" using v by simp
    then have "slr (lisa_mmu_init m) (Suc k) (nat (v div 0x20000)) = MMU_ACC_INVAL"
      using lisa_mmu_init_empty(1) [OF assms k] by (simp add: ctx_empty_def)
    then show ?thesis by (simp add: hw_map_def Let_def)
  qed
  from this [of 0] this [of 1] this [of 2] lisa_mmu_init_empty(2) [OF assms]
  show ?thesis by (auto simp: numeral_2_eq_2 numeral_3_eq_3)
qed

definition demo_mmu :: mmu where
  "demo_mmu = \<lparr>seg1 = True, seg2 = False, slr = (\<lambda>_ _. 0x700), sor = (\<lambda>_ _. 0),
     uctx_tab = (\<lambda>_. \<lparr>seg_valid = (\<lambda>_. True), u_proc = Some 5, u_map = (\<lambda>_. \<lparr>mem_vir = 0, mem_phys = 0, mem_len = 0\<rparr>)\<rparr>),
     cur_ctx = -1, mmu_table = []\<rparr>"

theorem lisa_mmu_init_invalidates_witness:
  "hw_map demo_mmu 1 0x1234 = Some 0x1234 \<and> hw_map (lisa_mmu_init demo_mmu) 1 0x1234 = None"
proof -
  have "cur_ctx demo_mmu = -1" by (simp add: demo_mmu_def)
  from lisa_mmu_init_invalidates [OF this, of 0] have "hw_map (lisa_mmu_init demo_mmu) 1 0x1234 = None" by simp
  then show ?thesis by (simp add: hw_map_def demo_mmu_def hw_pages_def)
qed

text \<open>
  C37. \<open>lisa_mmu_switch\<close>: whatever processes ran before, with whatever maps, after the switch the
  latches select the process's own context and that context holds exactly its memory map. Every
  virtual address of a segment reaches the physical address the map gives it, and an access that is
  not trapped lies below the end of the image (rounded up to a page), not below the 128 KB segment the
  image starts in, and has the same offset, so it reaches no other memory.
\<close>

theorem lisa_mmu_switch_maps_image:
  assumes "mmu_ok membase m" "membase mod 0x200 = 0" "lisa_mmu_switch membase p rp m = Done m'"
  shows "mmu_ok membase m' \<and> hw_ctx m' = Suc (ctx_of (p_nr rp)) \<and>
     (\<forall>g v. seg_lo (p_map rp g) \<le> v \<and> v < seg_hi (p_map rp g) \<longrightarrow>
        hw_map m' (hw_ctx m') v = Some ((v + seg_delta (p_map rp g) + membase) mod 0x200000)) \<and>
     (\<exists>lo hi delta first. scan (p_map rp) = Done (lo, hi, delta, first) \<and>
        (\<forall>v x. 0 \<le> v \<and> v < 0x1000000 \<and> hw_map m' (hw_ctx m') v = Some x \<longrightarrow>
           lo div 0x20000 \<le> v div 0x20000 \<and> v div 0x200 < (hi + 0x1FF) div 0x200 \<and> x = (v + delta + membase) mod 0x200000))"
proof -
  let ?c = "ctx_of (p_nr rp)"
  have K: "mmu_ok membase m'" "hw_ctx m' = Suc ?c" "ctx_loaded membase m' ?c (p_map rp)"
    using lisa_mmu_switch_ok [OF assms(1,3)] by simp_all
  have c: "?c < NCTX" by (simp add: ctx_of_def)
  have inv: "\<forall>s < NSEGS. \<not> seg_valid (uctx_tab m' ?c) s \<longrightarrow> slr m' (Suc ?c) s = MMU_ACC_INVAL"
    using K(1) c by (auto simp: mmu_ok_def)
  obtain lo hi delta first where sc: "scan (p_map rp) = Done (lo, hi, delta, first)" and hi: "hi \<le> 126 * 0x20000"
    using K(3) unfolding ctx_loaded_def by auto
  note M = ctx_loaded_map [OF K(3) inv assms(2) _ _ sc]
  note B = image_scan_bounds [OF sc]
  have seg: "hw_map m' (hw_ctx m') v = Some ((v + seg_delta (p_map rp g) + membase) mod 0x200000)"
    if v: "seg_lo (p_map rp g) \<le> v" "v < seg_hi (p_map rp g)" for g v
  proof -
    have "mem_len (p_map rp g) \<noteq> 0" using v by (auto simp: seg_lo_def seg_hi_def)
    moreover have "g \<in> set [Seg_T, Seg_D, Seg_S]" by (cases g) simp_all
    ultimately have b: "lo \<le> seg_lo (p_map rp g)" "seg_hi (p_map rp g) \<le> hi" "seg_delta (p_map rp g) = delta" using B by blast+
    have "0 \<le> lo" using B by simp
    then have r: "0 \<le> v" "v < 0x1000000" "lo < hi" "lo \<le> v" "v < hi" using b v hi by auto
    have "lo div 0x20000 \<le> v div 0x20000" using r by (intro zdiv_mono1) auto
    moreover have "v div 0x200 < (hi + 0x1FF) div 0x200"
    proof -
      have "(v + 0x200) div 0x200 \<le> (hi + 0x1FF) div 0x200" using r by (intro zdiv_mono1) auto
      then show ?thesis by simp
    qed
    ultimately show ?thesis using M [OF r(1,2)] r K(2) b(3) by simp
  qed
  have "lo div 0x20000 \<le> v div 0x20000 \<and> v div 0x200 < (hi + 0x1FF) div 0x200 \<and> x = (v + delta + membase) mod 0x200000"
    if "0 \<le> v \<and> v < 0x1000000 \<and> hw_map m' (hw_ctx m') v = Some x" for v x
    using that M [of v] K(2) by (auto split: if_splits)
  with K seg sc show ?thesis by blast
qed

text \<open>A user process at virtual address 0: two clicks of text, two of data, four of gap, four of stack at click 0x300.\<close>

definition demo_user :: proc where
  "demo_user = \<lparr>p_reg = \<lparr>sf_reg = (\<lambda>_. 0), sf_psw = 0, sf_dummy = 0\<rparr>, p_splow = 0, p_trap = 0, p_shadow = 0, p_nflips = 0,
      p_physio = False, p_nr = 7, p_int_blocked = False, p_int_held = False, p_nextheld = None, p_flags = {},
      p_map = (\<lambda>g. case g of Seg_T \<Rightarrow> \<lparr>mem_vir = 0, mem_phys = 0x300, mem_len = 2\<rparr> | Seg_D \<Rightarrow> \<lparr>mem_vir = 2, mem_phys = 0x302, mem_len = 2\<rparr>
                  | Seg_S \<Rightarrow> \<lparr>mem_vir = 8, mem_phys = 0x308, mem_len = 4\<rparr>),
      p_pid = 0, user_time = 0, sys_time = 0,
      child_utime = 0, child_stime = 0, p_alarm = 0, p_callerq = None, p_sendlink = None, p_messbuf = 4096,
      p_getfrom = 0, p_nextready = None, p_pending = 0, p_pendcount = 0\<rparr>"

theorem lisa_mmu_switch_maps_image_witness:
  "\<exists>m'. lisa_mmu_switch 0x80000 7 demo_user (lisa_mmu_init demo_mmu) = Done m' \<and>
        hw_map m' 1 0x250 = Some 0xB0250 \<and> hw_map m' 1 0xC00 = None"
proof -
  have ok: "mmu_ok 0x80000 (lisa_mmu_init demo_mmu)" by (rule lisa_mmu_init_empty(2)) (simp add: demo_mmu_def)
  have m: "p_map demo_user Seg_T = \<lparr>mem_vir = 0, mem_phys = 0x300, mem_len = 2\<rparr>" "p_map demo_user Seg_D = \<lparr>mem_vir = 2, mem_phys = 0x302, mem_len = 2\<rparr>"
    "p_map demo_user Seg_S = \<lparr>mem_vir = 8, mem_phys = 0x308, mem_len = 4\<rparr>" "p_nr demo_user = 7" by (simp_all add: demo_user_def)
  have sc: "scan (p_map demo_user) = Done (0, 0xC00, 0x30000, False)" by (simp add: m Let_def)
  obtain m' where d: "lisa_mmu_switch 0x80000 7 demo_user (lisa_mmu_init demo_mmu) = Done m'"
    using lisa_mmu_switch_done [OF sc, of "0x80000" 7 "lisa_mmu_init demo_mmu"] by auto
  have "(0x80000 :: int) mod 0x200 = 0" by simp
  note T = lisa_mmu_switch_maps_image [OF ok this d]
  have c: "hw_ctx m' = 1" using T by (simp add: m ctx_of_def)
  have "hw_map m' 1 0x250 = Some 0xB0250"
  proof -
    have "seg_lo (p_map demo_user Seg_D) \<le> 0x250" "0x250 < seg_hi (p_map demo_user Seg_D)" by (simp_all add: m seg_lo_def seg_hi_def)
    then have "hw_map m' 1 0x250 = Some ((0x250 + seg_delta (p_map demo_user Seg_D) + 0x80000) mod 0x200000)" using T c by simp
    then show ?thesis by (simp add: m seg_delta_def)
  qed
  moreover have "hw_map m' 1 0xC00 = None"
  proof (rule ccontr)
    assume "hw_map m' 1 0xC00 \<noteq> None"
    then obtain x where x: "hw_map m' 1 0xC00 = Some x" by auto
    obtain lo hi delta first where s: "scan (p_map demo_user) = Done (lo, hi, delta, first)"
      and i: "\<forall>v x. 0 \<le> v \<and> v < 0x1000000 \<and> hw_map m' (hw_ctx m') v = Some x \<longrightarrow>
           lo div 0x20000 \<le> v div 0x20000 \<and> v div 0x200 < (hi + 0x1FF) div 0x200 \<and> x = (v + delta + 0x80000) mod 0x200000"
      using T by blast
    have "hi = 0xC00" using s unfolding sc by simp
    moreover have "(0xC00 :: int) div 0x200 < (hi + 0x1FF) div 0x200"
      using spec [OF spec [OF i, of "0xC00"], of x] x by (simp add: c)
    ultimately show False by simp
  qed
  ultimately show ?thesis using d by blast
qed

text \<open>
  \<open>lisa_mmu_switch\<close> does not panic on the maps MM builds: when the non-empty segments share one
  offset that is a multiple of 512 and end below the I/O segments, the switch goes through from every
  state of the unit.
\<close>

theorem lisa_mmu_switch_accepts:
  assumes "\<forall>g. mem_len (p_map rp g) \<noteq> 0 \<longrightarrow> seg_delta (p_map rp g) = d \<and> seg_hi (p_map rp g) \<le> 126 * 0x20000"
    and "d mod 0x200 = 0"
  shows "\<exists>m'. lisa_mmu_switch membase p rp m = Done m'"
proof -
  obtain lo hi delta first where sc: "scan (p_map rp) = Done (lo, hi, delta, first)"
    using image_scan_done [of "[Seg_T, Seg_D, Seg_S]" "p_map rp" d True 0 "0x7FFFFFFF" 0] assms(1) by auto
  then show ?thesis
    by (rule lisa_mmu_switch_done) (use image_scan_hi [OF sc] assms in auto)
qed

theorem lisa_mmu_switch_accepts_witness: "\<exists>m'. lisa_mmu_switch 0x80000 7 demo_user demo_mmu = Done m'"
proof (rule lisa_mmu_switch_accepts)
  show "\<forall>g. mem_len (p_map demo_user g) \<noteq> 0 \<longrightarrow> seg_delta (p_map demo_user g) = 0x30000 \<and> seg_hi (p_map demo_user g) \<le> 126 * 0x20000"
    by (auto simp: demo_user_def seg_delta_def seg_hi_def split: segment.splits)
qed simp

end
