(* ===== verification/Lisa_Font.thy ===== *)
theory Lisa_Font
  imports Minix_Prelude
begin

section \<open>Kernel: the font (src/src/kernel/stfnt.c)\<close>

text \<open>The 8 by 8 font, eight scan lines for each of the 128 characters, a row of the list for each row of the source.\<close>

definition font8 :: "u8 list" where
  "font8 = [
     0x00, 0x00, 0x00, 0x00, 0x00, 0x00, 0x00, 0x00,
     0x18, 0x3C, 0x66, 0xC3, 0xE7, 0x24, 0x24, 0x3C,
     0x3C, 0x24, 0x24, 0xE7, 0xC3, 0x66, 0x3C, 0x18,
     0x18, 0x1C, 0xF6, 0x83, 0x83, 0xF6, 0x1C, 0x18,
     0x18, 0x38, 0x6F, 0xC1, 0xC1, 0x6F, 0x38, 0x18,
     0x3C, 0x99, 0xC3, 0xE7, 0xC3, 0x99, 0x3C, 0x00,
     0xFF, 0xFF, 0xFE, 0xFC, 0xF9, 0xF3, 0xE7, 0x00,
     0xE7, 0xC3, 0x99, 0x3C, 0x99, 0xC3, 0xE7, 0x00,
     0x01, 0x03, 0x06, 0x8C, 0xD8, 0x70, 0x20, 0x00,
     0x7E, 0xC3, 0xD3, 0xD3, 0xDB, 0xC3, 0xC3, 0x7E,
     0x18, 0x3C, 0x3C, 0x3C, 0x7E, 0x10, 0x38, 0x10,
     0x18, 0x1C, 0x16, 0x10, 0x10, 0x70, 0xF0, 0x60,
     0xF0, 0xC0, 0xFE, 0xD8, 0xDE, 0x18, 0x18, 0x00,
     0xF0, 0xC0, 0xDF, 0xDB, 0xFF, 0x1E, 0x1B, 0x00,
     0x05, 0x05, 0x05, 0x0D, 0x0D, 0x19, 0x79, 0x71,
     0xA0, 0xA0, 0xA0, 0xB0, 0xB0, 0x98, 0x9E, 0x8E,
     0x7C, 0xC6, 0xC6, 0x00, 0xC6, 0xC6, 0x7C, 0x00,
     0x06, 0x06, 0x06, 0x00, 0x06, 0x06, 0x06, 0x00,
     0x7C, 0x06, 0x06, 0x7C, 0xC0, 0xC0, 0x7C, 0x00,
     0x7C, 0x06, 0x06, 0x7C, 0x06, 0x06, 0x7C, 0x00,
     0xC6, 0xC6, 0xC6, 0x7C, 0x06, 0x06, 0x06, 0x00,
     0x7C, 0xC0, 0xC0, 0x7C, 0x06, 0x06, 0x7C, 0x00,
     0x7C, 0xC0, 0xC0, 0x7C, 0xC6, 0xC6, 0x7C, 0x00,
     0x7C, 0x06, 0x06, 0x00, 0x06, 0x06, 0x06, 0x00,
     0x7C, 0xC6, 0xC6, 0x7C, 0xC6, 0xC6, 0x7C, 0x00,
     0x7C, 0xC6, 0xC6, 0x7C, 0x06, 0x06, 0x7C, 0x00,
     0x00, 0x00, 0x3C, 0x06, 0x7E, 0x66, 0x3C, 0x00,
     0x78, 0x60, 0x78, 0x60, 0x7E, 0x18, 0x1E, 0x00,
     0x07, 0x0F, 0x1F, 0x18, 0x18, 0x10, 0x1E, 0x17,
     0xF0, 0xF8, 0xEC, 0x04, 0x04, 0x04, 0x3C, 0x54,
     0x11, 0x0B, 0x0D, 0x06, 0x07, 0x2E, 0x39, 0x38,
     0x04, 0x28, 0xD8, 0x28, 0xD0, 0x10, 0xE0, 0x00,
     0x00, 0x00, 0x00, 0x00, 0x00, 0x00, 0x00, 0x00,
     0x18, 0x18, 0x18, 0x18, 0x18, 0x00, 0x18, 0x00,
     0x66, 0x66, 0x66, 0x00, 0x00, 0x00, 0x00, 0x00,
     0x00, 0x6C, 0xFE, 0x6C, 0x6C, 0xFE, 0x6C, 0x00,
     0x18, 0x3E, 0x60, 0x3C, 0x06, 0x7C, 0x18, 0x00,
     0x00, 0x66, 0x6C, 0x18, 0x30, 0x66, 0x46, 0x00,
     0x38, 0x6C, 0x38, 0x70, 0xDE, 0xCC, 0x76, 0x00,
     0x18, 0x18, 0x18, 0x00, 0x00, 0x00, 0x00, 0x00,
     0x0E, 0x1C, 0x18, 0x18, 0x18, 0x1C, 0x0E, 0x00,
     0x70, 0x38, 0x18, 0x18, 0x18, 0x38, 0x70, 0x00,
     0x00, 0x66, 0x3C, 0xFF, 0x3C, 0x66, 0x00, 0x00,
     0x00, 0x18, 0x18, 0x7E, 0x18, 0x18, 0x00, 0x00,
     0x00, 0x00, 0x00, 0x00, 0x00, 0x30, 0x30, 0x60,
     0x00, 0x00, 0x00, 0x7E, 0x00, 0x00, 0x00, 0x00,
     0x00, 0x00, 0x00, 0x00, 0x00, 0x18, 0x18, 0x00,
     0x02, 0x06, 0x0C, 0x18, 0x30, 0x60, 0x40, 0x00,
     0x3C, 0x66, 0x6E, 0x76, 0x66, 0x66, 0x3C, 0x00,
     0x18, 0x38, 0x18, 0x18, 0x18, 0x18, 0x7E, 0x00,
     0x3C, 0x66, 0x06, 0x0C, 0x18, 0x30, 0x7E, 0x00,
     0x7E, 0x0C, 0x18, 0x0C, 0x06, 0x66, 0x3C, 0x00,
     0x0C, 0x1C, 0x3C, 0x6C, 0x7E, 0x0C, 0x0C, 0x00,
     0x7E, 0x60, 0x7C, 0x06, 0x06, 0x66, 0x3C, 0x00,
     0x3C, 0x60, 0x60, 0x7C, 0x66, 0x66, 0x3C, 0x00,
     0x7E, 0x06, 0x0C, 0x18, 0x30, 0x30, 0x30, 0x00,
     0x3C, 0x66, 0x66, 0x3C, 0x66, 0x66, 0x3C, 0x00,
     0x3C, 0x66, 0x66, 0x3E, 0x06, 0x0C, 0x38, 0x00,
     0x00, 0x18, 0x18, 0x00, 0x18, 0x18, 0x00, 0x00,
     0x00, 0x18, 0x18, 0x00, 0x18, 0x18, 0x30, 0x00,
     0x06, 0x0C, 0x18, 0x30, 0x18, 0x0C, 0x06, 0x00,
     0x00, 0x00, 0x7E, 0x00, 0x00, 0x7E, 0x00, 0x00,
     0x60, 0x30, 0x18, 0x0C, 0x18, 0x30, 0x60, 0x00,
     0x3C, 0x66, 0x06, 0x0C, 0x18, 0x00, 0x18, 0x00,
     0x3C, 0x66, 0x6E, 0x6A, 0x6E, 0x60, 0x3E, 0x00,
     0x18, 0x3C, 0x66, 0x66, 0x7E, 0x66, 0x66, 0x00,
     0x7C, 0x66, 0x66, 0x7C, 0x66, 0x66, 0x7C, 0x00,
     0x3C, 0x66, 0x60, 0x60, 0x60, 0x66, 0x3C, 0x00,
     0x78, 0x6C, 0x66, 0x66, 0x66, 0x6C, 0x78, 0x00,
     0x7E, 0x60, 0x60, 0x7C, 0x60, 0x60, 0x7E, 0x00,
     0x7E, 0x60, 0x60, 0x7C, 0x60, 0x60, 0x60, 0x00,
     0x3E, 0x60, 0x60, 0x6E, 0x66, 0x66, 0x3E, 0x00,
     0x66, 0x66, 0x66, 0x7E, 0x66, 0x66, 0x66, 0x00,
     0x3C, 0x18, 0x18, 0x18, 0x18, 0x18, 0x3C, 0x00,
     0x06, 0x06, 0x06, 0x06, 0x06, 0x66, 0x3C, 0x00,
     0x66, 0x6C, 0x78, 0x70, 0x78, 0x6C, 0x66, 0x00,
     0x60, 0x60, 0x60, 0x60, 0x60, 0x60, 0x7E, 0x00,
     0xC6, 0xEE, 0xFE, 0xD6, 0xC6, 0xC6, 0xC6, 0x00,
     0x66, 0x76, 0x7E, 0x7E, 0x6E, 0x66, 0x66, 0x00,
     0x3C, 0x66, 0x66, 0x66, 0x66, 0x66, 0x3C, 0x00,
     0x7C, 0x66, 0x66, 0x7C, 0x60, 0x60, 0x60, 0x00,
     0x3C, 0x66, 0x66, 0x66, 0x76, 0x6C, 0x36, 0x00,
     0x7C, 0x66, 0x66, 0x7C, 0x6C, 0x66, 0x66, 0x00,
     0x3C, 0x66, 0x60, 0x3C, 0x06, 0x66, 0x3C, 0x00,
     0x7E, 0x18, 0x18, 0x18, 0x18, 0x18, 0x18, 0x00,
     0x66, 0x66, 0x66, 0x66, 0x66, 0x66, 0x3E, 0x00,
     0x66, 0x66, 0x66, 0x66, 0x66, 0x3C, 0x18, 0x00,
     0xC6, 0xC6, 0xC6, 0xD6, 0xFE, 0xEE, 0xC6, 0x00,
     0x66, 0x66, 0x3C, 0x18, 0x3C, 0x66, 0x66, 0x00,
     0x66, 0x66, 0x66, 0x3C, 0x18, 0x18, 0x18, 0x00,
     0x7E, 0x06, 0x0C, 0x18, 0x30, 0x60, 0x7E, 0x00,
     0x1E, 0x18, 0x18, 0x18, 0x18, 0x18, 0x1E, 0x00,
     0x40, 0x60, 0x30, 0x18, 0x0C, 0x06, 0x02, 0x00,
     0x78, 0x18, 0x18, 0x18, 0x18, 0x18, 0x78, 0x00,
     0x10, 0x38, 0x6C, 0xC6, 0x00, 0x00, 0x00, 0x00,
     0x00, 0x00, 0x00, 0x00, 0x00, 0x00, 0xFE, 0x00,
     0x00, 0xC0, 0x60, 0x30, 0x00, 0x00, 0x00, 0x00,
     0x00, 0x00, 0x3C, 0x06, 0x3E, 0x66, 0x3E, 0x00,
     0x60, 0x60, 0x7C, 0x66, 0x66, 0x66, 0x7C, 0x00,
     0x00, 0x00, 0x3C, 0x60, 0x60, 0x60, 0x3C, 0x00,
     0x06, 0x06, 0x3E, 0x66, 0x66, 0x66, 0x3E, 0x00,
     0x00, 0x00, 0x3C, 0x66, 0x7E, 0x60, 0x3C, 0x00,
     0x1C, 0x30, 0x7C, 0x30, 0x30, 0x30, 0x30, 0x00,
     0x00, 0x00, 0x3E, 0x66, 0x66, 0x3E, 0x06, 0x7C,
     0x60, 0x60, 0x7C, 0x66, 0x66, 0x66, 0x66, 0x00,
     0x18, 0x00, 0x38, 0x18, 0x18, 0x18, 0x3C, 0x00,
     0x18, 0x00, 0x18, 0x18, 0x18, 0x18, 0x18, 0x70,
     0x60, 0x60, 0x66, 0x6C, 0x78, 0x6C, 0x66, 0x00,
     0x38, 0x18, 0x18, 0x18, 0x18, 0x18, 0x3C, 0x00,
     0x00, 0x00, 0xEC, 0xFE, 0xD6, 0xC6, 0xC6, 0x00,
     0x00, 0x00, 0x7C, 0x66, 0x66, 0x66, 0x66, 0x00,
     0x00, 0x00, 0x3C, 0x66, 0x66, 0x66, 0x3C, 0x00,
     0x00, 0x00, 0x7C, 0x66, 0x66, 0x66, 0x7C, 0x60,
     0x00, 0x00, 0x3E, 0x66, 0x66, 0x66, 0x3E, 0x06,
     0x00, 0x00, 0x7C, 0x66, 0x60, 0x60, 0x60, 0x00,
     0x00, 0x00, 0x3E, 0x60, 0x3C, 0x06, 0x7C, 0x00,
     0x00, 0x18, 0x7E, 0x18, 0x18, 0x18, 0x0E, 0x00,
     0x00, 0x00, 0x66, 0x66, 0x66, 0x66, 0x3E, 0x00,
     0x00, 0x00, 0x66, 0x66, 0x66, 0x3C, 0x18, 0x00,
     0x00, 0x00, 0xC6, 0xC6, 0xD6, 0x7C, 0x6C, 0x00,
     0x00, 0x00, 0x66, 0x3C, 0x18, 0x3C, 0x66, 0x00,
     0x00, 0x00, 0x66, 0x66, 0x66, 0x3E, 0x06, 0x7C,
     0x00, 0x00, 0x7E, 0x0C, 0x18, 0x30, 0x7E, 0x00,
     0x0E, 0x18, 0x18, 0x30, 0x18, 0x18, 0x0E, 0x00,
     0x18, 0x18, 0x18, 0x18, 0x18, 0x18, 0x18, 0x18,
     0x70, 0x18, 0x18, 0x0C, 0x18, 0x18, 0x70, 0x00,
     0x00, 0x60, 0xF2, 0x9E, 0x0C, 0x00, 0x00, 0x00,
     0x00, 0x18, 0x18, 0x34, 0x34, 0x62, 0x7E, 0x00]"

lemma length_font8: "length font8 = 1024"
  by (simp add: font8_def)

end
