(* ===== verification/Lisa_Vdu.thy ===== *)
theory Lisa_Vdu
  imports Lisa_Font
begin

unbundle bit_operations_syntax

section \<open>Kernel: the screen of the console (src/src/kernel/lisa/lisavdu.c)\<close>

text \<open>
  The bit-mapped screen as an ANSI terminal: the characters painted into video memory, scrolling, and the escape
  sequences.

  \<^item> \<open>vram\<close> is the video memory, by the offset from the base of the page; \<open>curs\<close> is such an offset. A row of characters takes
    \<open>BYTR\<close> = 810 bytes, nine scan lines of 90 bytes.
  \<^item> \<open>next\<close>, a pointer into \<open>vbuf\<close>, is an index (\<open>vnext\<close>); \<open>None\<close> is the null pointer. Storing at index 20 is outside of the
    array: \<open>Stuck\<close>. The test in the source lets \<open>next\<close> reach it.
  \<^item> \<open>int\<close> has 16 bits; \<open>int16\<close> wraps a sum or product that may leave the range.
  \<^item> \<open>mode\<close> is \<open>tty_mode\<close> of the console. \<open>keypad\<close> and \<open>app_mode\<close> are globals of \<open>lisakbd.c\<close> that only the escape sequences set.
  \<^item> \<open>vductrl\<close> calls \<open>vdu_out\<close> for a tab and \<open>vdu_out\<close> calls \<open>vductrl\<close>; a tab calls it with a space, which is no control
    character, so the definitions are in layers. The loop of a tab has fuel; it may run for ever, which is \<open>Stuck\<close>.
\<close>

subsection \<open>Definitions\<close>

abbreviation (input) NCOL :: int where "NCOL \<equiv> 90"
abbreviation (input) NROW :: int where "NROW \<equiv> 40"
abbreviation (input) BYT_LIN :: int where "BYT_LIN \<equiv> 90"
abbreviation (input) LINC :: int where "LINC \<equiv> 9"
abbreviation (input) BYTR :: int where "BYTR \<equiv> 810"
abbreviation (input) VIDEO_PAGE :: int where "VIDEO_PAGE \<equiv> 0x8000"
abbreviation (input) XTABS :: u16 where "XTABS \<equiv> 0xC00"
abbreviation (input) CRMOD :: u16 where "CRMOD \<equiv> 0x10"

definition int16 :: "int \<Rightarrow> int" where
  "int16 i = sint (word_of_int i :: u16)"

record vduinfo =
  vram :: "int \<Rightarrow> u8"
  curs :: int
  attr :: bool
  ccol :: int
  crow :: int
  savattr :: bool
  savccol :: int
  savcrow :: int
  vbuf :: "u8 list"
  vnext :: "nat option"
  vdu_ready :: bool
  cursor_shown :: bool
  keypad :: bool
  app_mode :: bool

text \<open>The loops over video memory go byte by byte; \<open>cpyline\<close> and \<open>clrline\<close> of the source take four at a time.\<close>

definition poke :: "int \<Rightarrow> u8 \<Rightarrow> vduinfo \<Rightarrow> vduinfo" where
  "poke k b v = v\<lparr>vram := (vram v)(k := b)\<rparr>"

definition cpyline :: "int \<Rightarrow> int \<Rightarrow> vduinfo \<Rightarrow> vduinfo" where
  "cpyline r1 r2 v = fold (\<lambda>i w. poke (r2 * BYTR + i) (vram w (r1 * BYTR + i)) w) [0..BYTR - 1] v"

definition cpychar :: "int \<Rightarrow> int \<Rightarrow> int \<Rightarrow> int \<Rightarrow> vduinfo \<Rightarrow> vduinfo" where
  "cpychar r1 c1 r2 c2 v =
     fold (\<lambda>l w. poke (r2 * BYTR + c2 + l * BYT_LIN) (vram w (r1 * BYTR + c1 + l * BYT_LIN)) w) [0..LINC - 1] v"

definition clrline :: "int \<Rightarrow> vduinfo \<Rightarrow> vduinfo" where
  "clrline r v = fold (\<lambda>i. poke (r * BYTR + i) 0) [0..BYTR - 1] v"

definition clrchar :: "int \<Rightarrow> int \<Rightarrow> vduinfo \<Rightarrow> vduinfo" where
  "clrchar r c v = fold (\<lambda>l. poke (r * BYTR + c + l * BYT_LIN) 0) [0..LINC - 1] v"

definition clrarea :: "int \<Rightarrow> int \<Rightarrow> int \<Rightarrow> int \<Rightarrow> vduinfo \<Rightarrow> vduinfo" where
  "clrarea r1 c1 r2 c2 v =
     (let (c2', r2') = (if c2 + 1 = NCOL then (0, r2 + 1) else (c2 + 1, r2));
          (c1', r1', v1) = (if c1 > 0 \<and> r1 < r2' then (0, r1 + 1, fold (clrchar r1) (c1 # [c1 + 1..NCOL - 1]) v) else (c1, r1, v));
          v2 = fold clrline [r1'..r2' - 1] v1
      in fold (clrchar (max r1' r2')) [c1'..c2' - 1] v2)"

definition moveto :: "int \<Rightarrow> int \<Rightarrow> vduinfo \<Rightarrow> vduinfo" where
  "moveto r c v =
     (if r < 0 \<or> r \<ge> NROW \<or> c < 0 \<or> c > NCOL then v
      else v\<lparr>crow := r, ccol := c, curs := r * BYTR + (if c = NCOL then c - 1 else c)\<rparr>)"

definition paint :: "u8 \<Rightarrow> vduinfo \<Rightarrow> vduinfo" where
  "paint c v =
     (let f = (\<lambda>l. font8 ! (unat (c AND 0x7F) * 8 + nat l))
      in if \<not> attr v then poke (curs v + 8 * BYT_LIN) 0 (fold (\<lambda>l. poke (curs v + l * BYT_LIN) (f l)) [0..7] v)
         else poke (curs v + 8 * BYT_LIN) 0xFF (fold (\<lambda>l. poke (curs v + l * BYT_LIN) (NOT (f l))) [0..7] v))"

definition vducursor :: "bool \<Rightarrow> vduinfo \<Rightarrow> vduinfo" where
  "vducursor onoff v =
     (if \<not> vdu_ready v \<or> onoff = cursor_shown v then v
      else fold (\<lambda>l w. poke (curs v + l * BYT_LIN) (NOT (vram w (curs v + l * BYT_LIN))) w) [0..LINC - 1] (v\<lparr>cursor_shown := onoff\<rparr>))"

text \<open>The control characters other than the tab.\<close>

definition line_feed :: "vduinfo \<Rightarrow> vduinfo" where
  "line_feed v =
     (if crow v = NROW - 1 then clrline (NROW - 1) (fold (\<lambda>i. cpyline (i + 1) i) [0..NROW - 2] v)
      else moveto (crow v + 1) (ccol v) v)"

definition vductrl0 :: "u16 \<Rightarrow> u8 \<Rightarrow> vduinfo \<Rightarrow> vduinfo" where
  "vductrl0 mode c v =
     (if c = 7 then v
      else if c = 8 then moveto (crow v) (ccol v - 1) v
      else if c = 10 then line_feed (if mode AND CRMOD \<noteq> 0 then moveto (crow v) 0 v else v)
      else if c = 11 \<or> c = 12 then line_feed v
      else if c = 13 then moveto (crow v) 0 v
      else if c = 24 \<or> c = 26 then v\<lparr>vnext := None\<rparr>
      else if c = 27 then v\<lparr>vnext := Some 0\<rparr>
      else v)"

definition digit :: "u8 \<Rightarrow> bool" where
  "digit c \<longleftrightarrow> 48 \<le> c \<and> c \<le> 57"

text \<open>\<open>scan_num\<close>: the value, the character after the digits and how many characters were read.\<close>

fun scan_num :: "u8 list \<Rightarrow> int \<Rightarrow> (int \<times> u8 \<times> nat) outcome" where
  "scan_num [] i = Stuck"
| "scan_num (c # cs) i =
     (if digit c then and_then (scan_num cs (int16 (i * 10 + (uint c - 48)))) (\<lambda>(j, e, n). Done (j, e, Suc n))
      else Done (i, c, 1))"

definition vduparam :: "vduinfo \<Rightarrow> (int \<times> vduinfo) outcome" where
  "vduparam v =
     (case vnext v of
        None \<Rightarrow> Stuck
      | Some k \<Rightarrow> and_then (scan_num (drop k (vbuf v)) 0) (\<lambda>(i, c, n).
          Done (if n = 1 then -1 else i, v\<lparr>vnext := Some (if c = 59 then k + n else k + n - 1)\<rparr>)))"

fun rendition :: "nat \<Rightarrow> int \<Rightarrow> vduinfo \<Rightarrow> vduinfo outcome" where
  "rendition 0 j v = Stuck"
| "rendition (Suc fuel) j v =
     (let v1 = (if j \<le> 0 then v\<lparr>attr := False\<rparr> else if j = 4 \<or> j = 7 then v\<lparr>attr := True\<rparr> else v)
      in and_then (vduparam v1) (\<lambda>(j', v2). if j' \<ge> 0 then rendition fuel j' v2 else Done v2))"

definition insert_lines :: "int \<Rightarrow> vduinfo \<Rightarrow> vduinfo" where
  "insert_lines n v =
     (let i = min n (NROW - crow v)
      in fold clrline (rev [crow v..crow v + i - 1]) (fold (\<lambda>j. cpyline (j - i) j) (rev [crow v + i..NROW - 1]) v))"

definition delete_lines :: "int \<Rightarrow> vduinfo \<Rightarrow> vduinfo" where
  "delete_lines n v =
     (let i = min n (NROW - crow v)
      in fold clrline [NROW - i..NROW - 1] (fold (\<lambda>j. cpyline (j + i) j) [crow v..NROW - i - 1] v))"

definition insert_chars :: "int \<Rightarrow> vduinfo \<Rightarrow> vduinfo" where
  "insert_chars n v =
     (let i = min n (NCOL - ccol v)
      in clrarea (crow v) (ccol v) (crow v) (ccol v + i - 1)
           (fold (\<lambda>j. cpychar (crow v) (ccol v + j) (crow v) (ccol v + j + i)) (rev [0..NCOL - ccol v - i - 1]) v))"

definition delete_chars :: "int \<Rightarrow> vduinfo \<Rightarrow> vduinfo" where
  "delete_chars n v =
     (let i = min n (NCOL - ccol v)
      in clrarea (crow v) (NCOL - i) (crow v) (NCOL - 1)
           (fold (\<lambda>j. cpychar (crow v) (NCOL - 1 - j) (crow v) (NCOL - 1 - j - i)) (rev [0..NCOL - ccol v - i - 1]) v))"

text \<open>What a sequence does, with \<open>j\<close> its first parameter; \<open>vduansi\<close> finds that and ends the parameters with a 0.\<close>

definition ansi_act :: "u8 \<Rightarrow> int \<Rightarrow> vduinfo \<Rightarrow> vduinfo outcome" where
  "ansi_act c j v =
     (let i = (if j \<le> 0 then 1 else j)
     in if c = 65 then Done (moveto (max 0 (crow v - i)) (ccol v) v)
        else if c = 66 then (let r = int16 (i + crow v) in Done (moveto (if r \<ge> NROW then NROW - 1 else r) (ccol v) v))
        else if c = 67 then (let q = int16 (i + ccol v) in Done (moveto (crow v) (if q \<ge> NCOL then NCOL - 1 else q) v))
        else if c = 68 then Done (moveto (crow v) (max 0 (ccol v - i)) v)
        else if c = 72 \<or> c = 102 then and_then (vduparam v) (\<lambda>(j2, v2).
          let q = (if j2 \<le> 0 then 1 else j2) in Done (moveto (min i NROW - 1) (min q NCOL - 1) v2))
        else if c = 74 then Done
          (if j \<le> 0 then clrarea (crow v) (ccol v) (NROW - 1) (NCOL - 1) v
           else if j = 1 then clrarea 0 0 (crow v) (ccol v) v
           else if j = 2 then clrarea 0 0 (NROW - 1) (NCOL - 1) v else v)
        else if c = 75 then Done
          (if j \<le> 0 then clrarea (crow v) (ccol v) (crow v) (NCOL - 1) v
           else if j = 1 then clrarea (crow v) 0 (crow v) (ccol v) v
           else if j = 2 then clrarea (crow v) 0 (crow v) (NCOL - 1) v else v)
        else if c = 109 then rendition 21 j v
        else if c = 76 then Done (insert_lines i v)
        else if c = 77 then Done (delete_lines i v)
        else if c = 64 then Done (insert_chars i v)
        else if c = 80 then Done (delete_chars i v)
        else if c = 108 \<or> c = 104
        then (case vnext v of
                None \<Rightarrow> Stuck
              | Some q \<Rightarrow>
                  if q \<ge> 20 then Stuck
                  else if vbuf v ! q \<noteq> 63 then Done v
                  else if q + 1 \<ge> 20 then Stuck
                  else Done (if vbuf v ! (q + 1) = 49 then v\<lparr>app_mode := (c = 108)\<rparr> else v))
        else Done v)"

definition vduansi :: "u8 \<Rightarrow> vduinfo \<Rightarrow> vduinfo outcome" where
  "vduansi c v =
     (case vnext v of
        None \<Rightarrow> Stuck
      | Some k \<Rightarrow>
          if k \<ge> 20 then Done v
          else and_then (vduparam (v\<lparr>vbuf := (vbuf v)[k := 0], vnext := Some 1\<rparr>)) (\<lambda>(j, w). ansi_act c j w))"

definition vduesc :: "u16 \<Rightarrow> u8 \<Rightarrow> vduinfo \<Rightarrow> vduinfo outcome" where
  "vduesc mode c v0 =
     (case vnext v0 of
        None \<Rightarrow> Stuck
      | Some k \<Rightarrow>
          if k \<ge> 19 then Done v0
          else let v = v0\<lparr>vbuf := (vbuf v0)[k := c]\<rparr>; d = vbuf v ! 0
            in Done
              (if d = 56 then moveto (savcrow v) (savccol v) (v\<lparr>ccol := savccol v, crow := savcrow v, attr := savattr v\<rparr>)
               else if d = 55 then v\<lparr>savccol := ccol v, savcrow := crow v, savattr := attr v\<rparr>
               else if d = 61 then v\<lparr>keypad := True\<rparr>
               else if d = 62 then v\<lparr>keypad := False\<rparr>
               else if d = 69 then vductrl0 mode 10 (vductrl0 mode 13 v)
               else if d = 68 then vductrl0 mode 10 v
               else if d = 77
               then (if crow v = 0 then clrline 0 (fold (\<lambda>i. cpyline (i - 1) i) (rev [1..NROW - 1]) v)
                     else moveto (crow v - 1) (ccol v) v)
               else if d = 99
               then (clrarea 0 0 (NROW - 1) (NCOL - 1) (moveto 0 0 (v\<lparr>attr := False\<rparr>)))\<lparr>keypad := False, app_mode := False\<rparr>
               else v))"

text \<open>\<open>vdu_out\<close> behind the test for control characters.\<close>

definition vdu_text :: "u16 \<Rightarrow> u8 \<Rightarrow> vduinfo \<Rightarrow> vduinfo outcome" where
  "vdu_text mode c0 v =
     (let c = (if c0 AND 0x80 \<noteq> 0 then c0 AND 0x1F else c0)
      in case vnext v of
           None \<Rightarrow> (let v1 = paint c v in Done (moveto (crow v1) (ccol v1 + 1) v1))
         | Some k \<Rightarrow>
             if k = 0 \<and> c = 91 then Done (v\<lparr>vbuf := (vbuf v)[0 := c], vnext := Some 1\<rparr>)
             else if c \<ge> 48 \<and> (k = 0 \<or> vbuf v ! 0 \<noteq> 91) then and_then (vduesc mode c v) (\<lambda>v1. Done (v1\<lparr>vnext := None\<rparr>))
             else if c \<ge> 64 then and_then (vduansi c v) (\<lambda>v1. Done (v1\<lparr>vnext := None\<rparr>))
             else if k < 20 then Done (v\<lparr>vbuf := (vbuf v)[k := c], vnext := Some (k + 1)\<rparr>)
             else Stuck)"

definition tab_turn :: "u16 \<Rightarrow> vduinfo \<Rightarrow> vduinfo outcome" where
  "tab_turn mode v = (if mode AND XTABS = XTABS then vdu_text mode 32 (vducursor False v) else Done (moveto (crow v) (ccol v + 1) v))"

fun tab_loop :: "nat \<Rightarrow> u16 \<Rightarrow> vduinfo \<Rightarrow> vduinfo outcome" where
  "tab_loop 0 mode v = Stuck"
| "tab_loop (Suc fuel) mode v =
     and_then (tab_turn mode v) (\<lambda>v1. if ccol v1 mod 8 \<noteq> 0 then tab_loop fuel mode v1 else Done v1)"

definition vductrl :: "u16 \<Rightarrow> u8 \<Rightarrow> vduinfo \<Rightarrow> vduinfo outcome" where
  "vductrl mode c v = (if c = 9 then tab_loop 30 mode v else Done (vductrl0 mode c v))"

definition vdu_out :: "u16 \<Rightarrow> u8 \<Rightarrow> vduinfo \<Rightarrow> vduinfo outcome" where
  "vdu_out mode c v =
     (if \<not> vdu_ready v then Done v
      else let v1 = vducursor False v
           in if c = 0x7F then Done v1
              else if c AND 0x60 = 0 then vductrl mode c v1
              else vdu_text mode c v1)"

text \<open>The value for the video latch, and the screen at the start.\<close>

definition vdu_init :: "u32 \<Rightarrow> u32 \<Rightarrow> vduinfo \<Rightarrow> u8 \<times> vduinfo" where
  "vdu_init memend membase v =
     (ucast (drop_bit 15 (memend - 0x8000 + membase)),
      let v1 = fold (\<lambda>p. poke p 0xFF) [NROW * BYTR..VIDEO_PAGE - 1] v;
          v2 = clrarea 0 0 (NROW - 1) (NCOL - 1) (moveto 0 0 (v1\<lparr>attr := False, vnext := None\<rparr>))
      in vducursor True (v2\<lparr>vdu_ready := True\<rparr>))"

declare upto_rec_numeral [simp del]

subsection \<open>Where the screen is written\<close>

text \<open>
  \<open>draws A v t\<close>: only video memory has changed, and only at the offsets \<open>A\<close>. \<open>text_area\<close> is the part of the page with the
  characters and the one byte behind it.
\<close>

definition draws :: "int set \<Rightarrow> vduinfo \<Rightarrow> vduinfo \<Rightarrow> bool" where
  "draws A v t \<longleftrightarrow> (\<exists>m. t = v\<lparr>vram := m\<rparr> \<and> (\<forall>k. k \<notin> A \<longrightarrow> m k = vram v k))"

definition text_area :: "int set" where
  "text_area = {0..NROW * BYTR}"

lemma draws_refl [simp, intro]: "draws A v v"
  by (auto simp: draws_def intro!: exI [of _ "vram v"])

lemma draws_trans: "draws A v w \<Longrightarrow> draws A w t \<Longrightarrow> draws A v t"
  by (auto simp: draws_def)

lemma draws_poke: "k \<in> A \<Longrightarrow> draws A v (poke k b v)"
  by (auto simp: draws_def poke_def)

lemma draws_fold: "(\<And>x w. x \<in> set xs \<Longrightarrow> draws A w (f x w)) \<Longrightarrow> draws A v (fold f xs v)"
proof (induction xs arbitrary: v)
  case (Cons x xs)
  then show ?case using draws_trans [of A v "f x v"] by auto
qed simp

lemma draws_fields:
  assumes "draws A v t"
  shows "curs t = curs v" "attr t = attr v" "ccol t = ccol v" "crow t = crow v" "savattr t = savattr v" "savccol t = savccol v"
    "savcrow t = savcrow v" "vbuf t = vbuf v" "vnext t = vnext v" "vdu_ready t = vdu_ready v" "cursor_shown t = cursor_shown v"
    "keypad t = keypad v" "app_mode t = app_mode v"
  using assms by (auto simp: draws_def)

lemma in_text_area: "0 \<le> r \<Longrightarrow> r < NROW \<Longrightarrow> 0 \<le> k \<Longrightarrow> k \<le> BYTR \<Longrightarrow> r * BYTR + k \<in> text_area"
  by (auto simp: text_area_def)

lemma cpyline_draws: "0 \<le> r2 \<Longrightarrow> r2 < NROW \<Longrightarrow> draws text_area v (cpyline r1 r2 v)"
  unfolding cpyline_def by (intro draws_fold draws_poke in_text_area) auto

lemma clrline_draws: "0 \<le> r \<Longrightarrow> r < NROW \<Longrightarrow> draws text_area v (clrline r v)"
  unfolding clrline_def by (intro draws_fold draws_poke in_text_area) auto

lemma in_cell: "0 \<le> r \<Longrightarrow> r < NROW \<Longrightarrow> 0 \<le> c \<Longrightarrow> c \<le> NCOL \<Longrightarrow> 0 \<le> l \<Longrightarrow> l < LINC \<Longrightarrow> r * BYTR + c + l * BYT_LIN \<in> text_area"
  by (auto simp: text_area_def)

lemma cpychar_draws: "0 \<le> r2 \<Longrightarrow> r2 < NROW \<Longrightarrow> 0 \<le> c2 \<Longrightarrow> c2 \<le> NCOL \<Longrightarrow> draws text_area v (cpychar r1 c1 r2 c2 v)"
  unfolding cpychar_def by (intro draws_fold draws_poke in_cell) auto

lemma clrchar_draws: "0 \<le> r \<Longrightarrow> r < NROW \<Longrightarrow> 0 \<le> c \<Longrightarrow> c \<le> NCOL \<Longrightarrow> draws text_area v (clrchar r c v)"
  unfolding clrchar_def by (intro draws_fold draws_poke in_cell) auto

lemma clrarea_draws:
  assumes "0 \<le> r1" "r1 < NROW" "0 \<le> c1" "c1 \<le> NCOL" "r2 < NROW" "c2 \<le> NCOL"
  shows "draws text_area v (clrarea r1 c1 r2 c2 v)"
proof -
  define q where "q = (if c2 + 1 = NCOL then (0, r2 + 1) else (c2 + 1, r2))"
  have q: "snd q \<le> NROW" "fst q - 1 \<le> NCOL" "fst q - 1 \<ge> 0 \<Longrightarrow> snd q < NROW" using assms by (auto simp: q_def split: if_splits)
  define w where "w = (if c1 > 0 \<and> r1 < snd q then (0, r1 + 1, fold (clrchar r1) (c1 # [c1 + 1..NCOL - 1]) v) else (c1, r1, v))"
  have "draws text_area v (fold (clrchar r1) (c1 # [c1 + 1..NCOL - 1]) v)" if "c1 > 0"
    using that assms by (intro draws_fold clrchar_draws) auto
  then have w: "draws text_area v (snd (snd w))" "0 \<le> fst w" "0 \<le> fst (snd w)" "fst (snd w) \<le> max (snd q) r1"
    using assms by (auto simp: w_def)
  have l: "draws text_area (snd (snd w)) (fold clrline [fst (snd w)..snd q - 1] (snd (snd w)))"
    using w(3) q(1) by (intro draws_fold clrline_draws) auto
  have "draws text_area x (fold (clrchar (max (fst (snd w)) (snd q))) [fst w..fst q - 1] x)" for x
  proof (cases "fst q - 1 \<ge> fst w")
    case True
    then have "max (fst (snd w)) (snd q) < NROW" using w(2,4) q(3) assms(2) by auto
    then show ?thesis using w(2,3) q(2) by (intro draws_fold clrchar_draws) auto
  qed simp
  moreover have "clrarea r1 c1 r2 c2 v = fold (clrchar (max (fst (snd w)) (snd q))) [fst w..fst q - 1] (fold clrline [fst (snd w)..snd q - 1] (snd (snd w)))"
    unfolding clrarea_def Let_def q_def [symmetric] by (auto simp: w_def split: prod.splits)
  ultimately show ?thesis using draws_trans [OF w(1) draws_trans [OF l]] by metis
qed

subsection \<open>The invariant of the screen\<close>

definition vdu_ok :: "vduinfo \<Rightarrow> bool" where
  "vdu_ok v \<longleftrightarrow> 0 \<le> crow v \<and> crow v < NROW \<and> 0 \<le> ccol v \<and> ccol v \<le> NCOL \<and> curs v = crow v * BYTR + min (ccol v) (NCOL - 1) \<and>
     0 \<le> savcrow v \<and> savcrow v < NROW \<and> 0 \<le> savccol v \<and> savccol v \<le> NCOL \<and> length (vbuf v) = 20 \<and> (\<forall>k. vnext v = Some k \<longrightarrow> k \<le> 20)"

text \<open>\<open>tidy v t\<close>: the screen is as it should be, and nothing outside of the text area has been written.\<close>

definition tidy :: "vduinfo \<Rightarrow> vduinfo \<Rightarrow> bool" where
  "tidy v t \<longleftrightarrow> vdu_ok t \<and> vdu_ready t = vdu_ready v \<and> (\<forall>k. k \<notin> text_area \<longrightarrow> vram t k = vram v k)"

lemma tidy_refl: "vdu_ok v \<Longrightarrow> tidy v v"
  by (simp add: tidy_def)

lemma tidy_trans: "tidy v w \<Longrightarrow> tidy w t \<Longrightarrow> tidy v t"
  by (simp add: tidy_def)

lemma draws_tidy: "vdu_ok v \<Longrightarrow> draws text_area v t \<Longrightarrow> tidy v t"
  by (auto simp: tidy_def vdu_ok_def draws_def)

lemma moveto_tidy: "vdu_ok v \<Longrightarrow> tidy v (moveto r c v)"
  by (auto simp: tidy_def vdu_ok_def moveto_def)

lemma moveto_ok:
  "0 \<le> savcrow v \<Longrightarrow> savcrow v < NROW \<Longrightarrow> 0 \<le> savccol v \<Longrightarrow> savccol v \<le> NCOL \<Longrightarrow> length (vbuf v) = 20 \<Longrightarrow> \<forall>k. vnext v = Some k \<longrightarrow> k \<le> 20 \<Longrightarrow>
   0 \<le> r \<Longrightarrow> r < NROW \<Longrightarrow> 0 \<le> c \<Longrightarrow> c \<le> NCOL \<Longrightarrow> vdu_ok (moveto r c v)"
  by (auto simp: vdu_ok_def moveto_def)

lemma line_feed_tidy: "vdu_ok v \<Longrightarrow> tidy v (line_feed v)"
  unfolding line_feed_def
  by (auto intro!: moveto_tidy draws_tidy draws_trans [OF draws_fold clrline_draws] cpyline_draws)

lemma vductrl0_tidy: "vdu_ok v \<Longrightarrow> tidy v (vductrl0 mode c v)"
proof -
  assume v: "vdu_ok v"
  note m = moveto_tidy [OF v, of "crow v" 0]
  then have "tidy v (line_feed (moveto (crow v) 0 v))" using tidy_trans [OF m line_feed_tidy] by (simp add: tidy_def)
  moreover have "tidy v (v\<lparr>vnext := None\<rparr>)" "tidy v (v\<lparr>vnext := Some 0\<rparr>)" using v by (simp_all add: tidy_def vdu_ok_def)
  ultimately show ?thesis using v moveto_tidy line_feed_tidy tidy_refl by (simp add: vductrl0_def)
qed

lemma cursor_cell: "vdu_ok v \<Longrightarrow> 0 \<le> l \<Longrightarrow> l < LINC \<Longrightarrow> curs v + l * BYT_LIN \<in> text_area"
  using in_cell [of "crow v" "min (ccol v) (NCOL - 1)" l] by (auto simp: vdu_ok_def)

lemma paint_tidy: "vdu_ok v \<Longrightarrow> draws text_area v (paint c v)"
  using cursor_cell [of v 8] cursor_cell [of v]
  by (auto simp: paint_def Let_def simp del: fold_simps intro!: draws_trans [OF draws_fold draws_poke] draws_poke)

lemma vducursor_tidy: "vdu_ok v \<Longrightarrow> tidy v (vducursor b v)"
proof -
  assume v: "vdu_ok v"
  let ?w = "v\<lparr>cursor_shown := b\<rparr>"
  have w: "vdu_ok ?w" "tidy v ?w" using v by (simp_all add: vdu_ok_def tidy_def)
  have "draws text_area ?w (fold (\<lambda>l w. poke (curs v + l * BYT_LIN) (NOT (vram w (curs v + l * BYT_LIN))) w) [0..LINC - 1] ?w)"
    using cursor_cell [OF v] by (intro draws_fold draws_poke) auto
  from tidy_trans [OF w(2) draws_tidy [OF w(1) this]] show ?thesis using tidy_refl [OF v] unfolding vducursor_def by (simp only: split: if_split) simp
qed

subsection \<open>Escape sequences\<close>

text \<open>\<open>reads_at z k v\<close>: the parameters in \<open>vbuf\<close> end with the 0 at index \<open>z\<close>, and reading is at index \<open>k\<close>.\<close>

definition reads_at :: "nat \<Rightarrow> nat \<Rightarrow> vduinfo \<Rightarrow> bool" where
  "reads_at z k v \<longleftrightarrow> z < length (vbuf v) \<and> vbuf v ! z = 0 \<and> vnext v = Some k \<and> k \<le> z"

lemma scan_num_stops:
  assumes "z < length cs" and "cs ! z = 0"
  shows "\<exists>j n. scan_num cs i = Done (j, cs ! n, Suc n) \<and> n \<le> z"
  using assms
proof (induction cs arbitrary: i z)
  case (Cons c cs)
  show ?case
  proof (cases "digit c")
    case True
    then obtain y where y: "z = Suc y" using Cons.prems(2) by (cases z) (auto simp: digit_def)
    then show ?thesis using Cons.IH [of y "int16 (i * 10 + (uint c - 48))"] Cons.prems True by auto
  qed (auto intro: exI [of _ 0])
qed simp

lemma vduparam_reads:
  assumes "reads_at z k v"
  shows "\<exists>j k'. vduparam v = Done (j, v\<lparr>vnext := Some k'\<rparr>) \<and> reads_at z k' (v\<lparr>vnext := Some k'\<rparr>) \<and> k \<le> k' \<and> (0 \<le> j \<longrightarrow> k < k')"
proof -
  have k: "k \<le> z" "z < length (vbuf v)" "vbuf v ! z = 0" "vnext v = Some k" using assms by (auto simp: reads_at_def)
  then obtain j n where n: "scan_num (drop k (vbuf v)) 0 = Done (j, vbuf v ! (k + n), Suc n)" "n \<le> z - k"
    using scan_num_stops [of "z - k" "drop k (vbuf v)" 0] diff_less_mono [of z "length (vbuf v)" k] by auto
  let ?k = "if vbuf v ! (k + n) = 59 then k + Suc n else k + n"
  have "vbuf v ! (k + n) = 59 \<Longrightarrow> k + n \<noteq> z" using k(3) by auto
  moreover have "k + n \<le> z" using n(2) k(1) by linarith
  ultimately have "?k \<le> z" by (cases "vbuf v ! (k + n) = 59") simp_all
  moreover have "vduparam v = Done (if n = 0 then -1 else j, v\<lparr>vnext := Some ?k\<rparr>)" using n(1) k(4) by (simp add: vduparam_def)
  ultimately show ?thesis using k(2,3)
    by (intro exI [of _ "if n = 0 then -1 else j"] exI [of _ ?k]) (simp add: reads_at_def)
qed

lemma rendition_ends:
  "reads_at z k v \<Longrightarrow> z < k + fuel \<Longrightarrow> \<exists>b k'. rendition fuel j v = Done (v\<lparr>attr := b, vnext := Some k'\<rparr>) \<and> k' \<le> z"
proof (induction fuel arbitrary: j k v)
  case (Suc fuel)
  define b where "b = (if j \<le> 0 then False else if j = 4 \<or> j = 7 then True else attr v)"
  let ?v = "v\<lparr>attr := b\<rparr>"
  have v1: "(if j \<le> 0 then v\<lparr>attr := False\<rparr> else if j = 4 \<or> j = 7 then v\<lparr>attr := True\<rparr> else v) = ?v" by (simp add: b_def)
  have "reads_at z k ?v" using Suc.prems(1) by (simp add: reads_at_def)
  then obtain j' k' where p: "vduparam ?v = Done (j', ?v\<lparr>vnext := Some k'\<rparr>)" "reads_at z k' (?v\<lparr>vnext := Some k'\<rparr>)" "k \<le> k'" "0 \<le> j' \<longrightarrow> k < k'"
    using vduparam_reads by blast
  show ?case
  proof (cases "0 \<le> j'")
    case True
    then have "z < k' + fuel" using Suc.prems(2) p(4) by simp
    from Suc.IH [OF p(2) this, of j'] show ?thesis using p(1) True v1 by auto
  next
    case False
    then show ?thesis using p v1 by (auto simp: reads_at_def)
  qed
qed (auto simp: reads_at_def)

text \<open>\<open>fine v x\<close>: the computation \<open>x\<close> returns, and leaves the screen tidy.\<close>

definition fine :: "vduinfo \<Rightarrow> vduinfo outcome \<Rightarrow> bool" where
  "fine v x \<longleftrightarrow> (\<exists>t. x = Done t \<and> tidy v t)"

lemma fine_Done: "tidy v t \<Longrightarrow> fine v (Done t)"
  by (simp add: fine_def)

lemma fine_if: "(P \<Longrightarrow> fine v x) \<Longrightarrow> (\<not> P \<Longrightarrow> fine v y) \<Longrightarrow> fine v (if P then x else y)"
  by simp

lemma tidy_if: "(P \<Longrightarrow> tidy v s) \<Longrightarrow> (\<not> P \<Longrightarrow> tidy v t) \<Longrightarrow> tidy v (if P then s else t)"
  by simp

lemma vduansi_tidy:
  assumes v: "vdu_ok v" and k: "vnext v = Some k" "0 < k"
  shows "fine v (vduansi c v)"
proof (cases "k < 20")
  case False
  then show ?thesis using v k tidy_refl by (simp add: vduansi_def fine_def)
next
  case True
  let ?w = "v\<lparr>vbuf := (vbuf v)[k := 0], vnext := Some 1\<rparr>"
  have w: "vdu_ok ?w" "tidy v ?w" "reads_at k 1 ?w" using v k True by (auto simp: vdu_ok_def tidy_def reads_at_def)
  obtain j k1 where p: "vduparam ?w = Done (j, ?w\<lparr>vnext := Some k1\<rparr>)" "reads_at k k1 (?w\<lparr>vnext := Some k1\<rparr>)"
    using vduparam_reads [OF w(3)] by blast
  define u where "u = ?w\<lparr>vnext := Some k1\<rparr>"
  have k1: "k1 \<le> k" "vnext u = Some k1" "vbuf u ! k = 0" using p(2) by (auto simp: reads_at_def u_def)
  have u: "vdu_ok u" "tidy v u" using w(1) k1(1) True by (auto simp: vdu_ok_def tidy_def u_def)
  obtain j2 k2 where q: "vduparam u = Done (j2, u\<lparr>vnext := Some k2\<rparr>)" "reads_at k k2 (u\<lparr>vnext := Some k2\<rparr>)"
    using vduparam_reads [OF p(2) [folded u_def]] by blast
  have k2: "vdu_ok (u\<lparr>vnext := Some k2\<rparr>)" "tidy v (u\<lparr>vnext := Some k2\<rparr>)" using u q(2) True by (auto simp: vdu_ok_def tidy_def reads_at_def)
  note m = tidy_trans [OF u(2) moveto_tidy [OF u(1)]] tidy_trans [OF k2(2) moveto_tidy [OF k2(1)]]
  note d = tidy_trans [OF u(2) draws_tidy [OF u(1)]]
  have b: "0 \<le> crow u" "crow u < NROW" "0 \<le> ccol u" "ccol u \<le> NCOL" using u(1) by (auto simp: vdu_ok_def)
  define i where "i = (if j \<le> 0 then 1 else j)"
  have i: "1 \<le> i" by (simp add: i_def)
  have lines: "draws text_area u (insert_lines i u)" "draws text_area u (delete_lines i u)"
    unfolding insert_lines_def delete_lines_def Let_def using b i
    by (auto intro!: draws_trans [OF draws_fold draws_fold] cpyline_draws clrline_draws)
  have chars: "draws text_area u (insert_chars i u)" "draws text_area u (delete_chars i u)"
    unfolding insert_chars_def delete_chars_def Let_def using b i
    by (auto intro!: draws_trans [OF draws_fold clrarea_draws] cpychar_draws)
  have areas: "draws text_area u (clrarea (crow u) (ccol u) (NROW - 1) (NCOL - 1) u)" "draws text_area u (clrarea 0 0 (crow u) (ccol u) u)"
    "draws text_area u (clrarea 0 0 (NROW - 1) (NCOL - 1) u)" "draws text_area u (clrarea (crow u) (ccol u) (crow u) (NCOL - 1) u)"
    "draws text_area u (clrarea (crow u) 0 (crow u) (ccol u) u)" "draws text_area u (clrarea (crow u) 0 (crow u) (NCOL - 1) u)"
    using b by (auto intro!: clrarea_draws)
  obtain b' k3 where r: "rendition 21 j u = Done (u\<lparr>attr := b', vnext := Some k3\<rparr>)" "k3 \<le> k"
    using rendition_ends [OF p(2) [folded u_def], of 21 j] True by auto
  have r': "tidy v (u\<lparr>attr := b', vnext := Some k3\<rparr>)" using u r(2) True by (auto simp: vdu_ok_def tidy_def)
  have rend: "fine v (rendition 21 j u)" using r(1) r' by (simp add: fine_def)
  have a: "tidy v (u\<lparr>app_mode := x\<rparr>)" for x using u by (auto simp: vdu_ok_def tidy_def)
  have h: "vbuf u ! k1 = 63 \<Longrightarrow> k1 + 1 < 20" using k1 True by (cases "k1 = k") auto
  have pos: "fine v (and_then (vduparam u) (\<lambda>(j2, v2). let q = (if j2 \<le> 0 then 1 else j2) in Done (moveto (min i NROW - 1) (min q NCOL - 1) v2)))"
    unfolding q(1) using m(2) by (simp add: fine_Done Let_def)
  have mode: "fine v (case vnext u of None \<Rightarrow> Stuck | Some q \<Rightarrow> if q \<ge> 20 then Stuck else if vbuf u ! q \<noteq> 63 then Done u
      else if q + 1 \<ge> 20 then Stuck else Done (if vbuf u ! (q + 1) = 49 then u\<lparr>app_mode := x\<rparr> else u))" for x
    using k1 h a u(2) True by (auto simp: fine_def)
  have "fine v (ansi_act c j u)"
    unfolding ansi_act_def i_def [symmetric] Let_def using pos
    by (intro fine_if fine_Done tidy_if mode rend u(2) m(1) d lines chars areas) (simp_all add: Let_def)
  then show ?thesis using p(1) True k by (simp add: vduansi_def u_def)
qed

lemma vduesc_tidy:
  assumes v: "vdu_ok v" and k: "vnext v = Some k"
  shows "fine v (vduesc mode c v)"
proof (cases "k < 19")
  case False
  then show ?thesis using v k tidy_refl by (simp add: vduesc_def fine_def)
next
  case True
  define u where "u = v\<lparr>vbuf := (vbuf v)[k := c]\<rparr>"
  have u: "vdu_ok u" "tidy v u" using v by (auto simp: vdu_ok_def tidy_def u_def)
  note m = tidy_trans [OF u(2) moveto_tidy [OF u(1)]]
  note d = tidy_trans [OF u(2) draws_tidy [OF u(1)]]
  note e = vductrl0_tidy [OF u(1)]
  have restore: "tidy v (moveto (savcrow u) (savccol u) (u\<lparr>ccol := savccol u, crow := savcrow u, attr := savattr u\<rparr>))"
    using u by (auto simp: tidy_def vdu_ok_def moveto_def)
  have save: "tidy v (u\<lparr>savccol := ccol u, savcrow := crow u, savattr := attr u\<rparr>)" "tidy v (u\<lparr>keypad := True\<rparr>)" "tidy v (u\<lparr>keypad := False\<rparr>)"
    using u by (auto simp: tidy_def vdu_ok_def)
  have ctrl: "tidy v (vductrl0 mode 10 u)" "tidy v (vductrl0 mode 10 (vductrl0 mode 13 u))"
    using e [of mode] vductrl0_tidy [of "vductrl0 mode 13 u" mode 10] tidy_trans u(2) by (auto simp: tidy_def)
  have index: "tidy v (clrline 0 (fold (\<lambda>i. cpyline (i - 1) i) (rev [1..NROW - 1]) u))"
    by (rule d) (auto intro!: draws_trans [OF draws_fold clrline_draws] cpyline_draws)
  let ?w = "moveto 0 0 (u\<lparr>attr := False\<rparr>)"
  have w: "vdu_ok ?w" "tidy v ?w" using u by (auto simp: tidy_def vdu_ok_def moveto_def)
  have "tidy v (clrarea 0 0 (NROW - 1) (NCOL - 1) ?w)" by (rule tidy_trans [OF w(2) draws_tidy [OF w(1) clrarea_draws]]) simp_all
  then have ris: "tidy v ((clrarea 0 0 (NROW - 1) (NCOL - 1) ?w)\<lparr>keypad := False, app_mode := False\<rparr>)" by (auto simp: tidy_def vdu_ok_def)
  show ?thesis using True m(1) [of "crow u - 1" "ccol u"] u(2) restore save ctrl index ris
    unfolding vduesc_def k option.case Let_def u_def [symmetric]
    by (intro fine_if fine_Done tidy_if) simp_all
qed

lemma put_tidy: "vdu_ok v \<Longrightarrow> tidy v (moveto (crow (paint c v)) (ccol (paint c v) + 1) (paint c v))"
  using draws_tidy [OF _ paint_tidy, of v c] moveto_tidy tidy_trans by (simp add: tidy_def)

text \<open>A byte that \<open>vdu_out\<close> does not come back from: a store behind \<open>vbuf\<close>.\<close>

definition overruns :: "u8 \<Rightarrow> vduinfo \<Rightarrow> bool" where
  "overruns c0 v \<longleftrightarrow> vnext v = Some 20 \<and>
     (let c = (if c0 AND 0x80 \<noteq> 0 then c0 AND 0x1F else c0) in c < 48 \<or> c < 64 \<and> vbuf v ! 0 = 91)"

lemma vdu_text_cases:
  assumes v: "vdu_ok v"
  shows "overruns c v \<and> vdu_text mode c v = Stuck \<or> \<not> overruns c v \<and> fine v (vdu_text mode c v)"
proof (cases "vnext v")
  case None
  then show ?thesis using put_tidy [OF v] by (simp add: vdu_text_def Let_def fine_def overruns_def)
next
  case (Some k)
  define d where "d = (if c AND 0x80 \<noteq> 0 then c AND 0x1F else c)"
  have k: "k \<le> 20" using v Some by (simp add: vdu_ok_def)
  have null: "fine v (and_then x (\<lambda>v1. Done (v1\<lparr>vnext := None\<rparr>)))" if "fine v x" for x
    using that by (auto simp: fine_def tidy_def vdu_ok_def)
  have "tidy v (v\<lparr>vbuf := (vbuf v)[k := d], vnext := Some (k + 1)\<rparr>)" if "k < 20" using that v by (auto simp: tidy_def vdu_ok_def)
  then have store: "fine v (if k < 20 then Done (v\<lparr>vbuf := (vbuf v)[k := d], vnext := Some (k + 1)\<rparr>) else Stuck)" if "k < 20"
    using that by (simp add: fine_Done)
  have ansi: "fine v (and_then (vduansi d v) (\<lambda>v1. Done (v1\<lparr>vnext := None\<rparr>)))" if "\<not> k = 0"
    using null vduansi_tidy [OF v Some] that by blast
  have esc: "fine v (and_then (vduesc mode d v) (\<lambda>v1. Done (v1\<lparr>vnext := None\<rparr>)))" using null vduesc_tidy [OF v Some] by blast
  have "tidy v (v\<lparr>vbuf := (vbuf v)[0 := d], vnext := Some 1\<rparr>)" using v by (auto simp: tidy_def vdu_ok_def)
  note all = this store ansi esc
  show ?thesis
  proof (cases "overruns c v")
    case True
    then have k20: "k = 20" "d < 48 \<or> d < 64 \<and> vbuf v ! 0 = 91" using Some by (auto simp: overruns_def d_def Let_def)
    have "\<not> 64 \<le> d" using k20(2) by (auto simp: not_le dest: less_trans [of d 48 64])
    then show ?thesis using True Some k20 unfolding vdu_text_def Let_def d_def [symmetric] by (auto simp: not_le [symmetric])
  next
    case False
    have o: "overruns c v \<longleftrightarrow> k = 20 \<and> (d < 48 \<or> d < 64 \<and> vbuf v ! 0 = 91)" using Some by (simp add: overruns_def Let_def d_def)
    have "fine v (vdu_text mode c v)"
      unfolding vdu_text_def Let_def d_def [symmetric] Some option.case
    proof (intro fine_if)
      assume "\<not> (k = 0 \<and> d = 91)" "\<not> (48 \<le> d \<and> (k = 0 \<or> vbuf v ! 0 \<noteq> 91))" "\<not> 64 \<le> d" "\<not> k < 20"
      then have "k = 20" "d < 48 \<or> d < 64 \<and> vbuf v ! 0 = 91" using k by (auto simp: not_le)
      then show "fine v Stuck" using o False by blast
    next
      assume "\<not> (48 \<le> d \<and> (k = 0 \<or> vbuf v ! 0 \<noteq> 91))" "64 \<le> d"
      moreover have "48 \<le> d" using \<open>64 \<le> d\<close> by (rule order_trans [rotated]) simp
      ultimately show "fine v (and_then (vduansi d v) (\<lambda>v1. Done (v1\<lparr>vnext := None\<rparr>)))" using all(3) by blast
    qed (use all in \<open>auto intro: fine_Done\<close>)
    then show ?thesis using False by simp
  qed
qed

lemma vducursor_fields:
  "crow (vducursor b v) = crow v" "ccol (vducursor b v) = ccol v" "vnext (vducursor b v) = vnext v" "vbuf (vducursor b v) = vbuf v"
  "vdu_ready (vducursor b v) = vdu_ready v" "attr (vducursor b v) = attr v" "curs (vducursor b v) = curs v"
  "vdu_ready v \<Longrightarrow> cursor_shown (vducursor b v) = b"
  "savattr (vducursor b v) = savattr v" "savccol (vducursor b v) = savccol v" "savcrow (vducursor b v) = savcrow v"
  "keypad (vducursor b v) = keypad v" "app_mode (vducursor b v) = app_mode v"
proof -
  define f where "f = fold (\<lambda>l w. poke (curs v + l * BYT_LIN) (NOT (vram w (curs v + l * BYT_LIN))) w) [0..LINC - 1] (v\<lparr>cursor_shown := b\<rparr>)"
  have "draws UNIV (v\<lparr>cursor_shown := b\<rparr>) f" unfolding f_def by (intro draws_fold draws_poke) simp
  note d = draws_fields [OF this]
  have e: "vducursor b v = (if \<not> vdu_ready v \<or> b = cursor_shown v then v else f)" by (simp only: vducursor_def f_def)
  show "crow (vducursor b v) = crow v" "ccol (vducursor b v) = ccol v" "vnext (vducursor b v) = vnext v" "vbuf (vducursor b v) = vbuf v"
    "vdu_ready (vducursor b v) = vdu_ready v" "attr (vducursor b v) = attr v" "curs (vducursor b v) = curs v"
    "savattr (vducursor b v) = savattr v" "savccol (vducursor b v) = savccol v" "savcrow (vducursor b v) = savcrow v"
    "keypad (vducursor b v) = keypad v" "app_mode (vducursor b v) = app_mode v"
    using d by (simp_all add: e)
  show "cursor_shown (vducursor b v) = b" if "vdu_ready v" using d that by (simp add: e)
qed

subsection \<open>Tabs\<close>

text \<open>Outside of an escape sequence, or when tabs are not expanded, each turn of the loop moves the cursor on, up to the last column.\<close>

lemma tab_turn_moves:
  assumes v: "vdu_ok v" and x: "mode AND XTABS = XTABS \<longrightarrow> vnext v = None"
  shows "\<exists>t. tab_turn mode v = Done t \<and> tidy v t \<and> vnext t = vnext v \<and> ccol t = min (ccol v + 1) NCOL \<and> crow t = crow v"
proof -
  have b: "0 \<le> crow v" "crow v < NROW" "0 \<le> ccol v" "ccol v \<le> NCOL" using v by (auto simp: vdu_ok_def)
  show ?thesis
  proof (cases "mode AND XTABS = XTABS")
    case True
    let ?w = "vducursor False v"
    have w: "vdu_ok ?w" "tidy v ?w" using vducursor_tidy [OF v] by (auto simp: tidy_def)
    have f: "crow ?w = crow v" "ccol ?w = ccol v" "vnext ?w = None" using x True by (simp_all add: vducursor_fields)
    note p = draws_fields [OF paint_tidy [OF w(1), of 32]]
    have "vdu_text mode 32 ?w = Done (moveto (crow ?w) (ccol ?w + 1) (paint 32 ?w))" using f(3) p by (simp add: vdu_text_def Let_def)
    moreover have "tidy v (moveto (crow ?w) (ccol ?w + 1) (paint 32 ?w))" using tidy_trans [OF w(2) put_tidy [OF w(1), of 32]] p by simp
    ultimately show ?thesis using True x b f p by (simp add: tab_turn_def moveto_def)
  next
    case False
    then show ?thesis using b moveto_tidy [OF v, of "crow v" "ccol v + 1"] by (simp add: tab_turn_def moveto_def)
  qed
qed

lemma mod_8_succ: "(a + 1 :: int) mod 8 = (if a mod 8 = 7 then 0 else a mod 8 + 1)"
proof -
  have e: "(a + 1) mod 8 = (a mod 8 + 1) mod 8" by (simp add: mod_add_left_eq)
  have "a mod 8 < 8" "0 \<le> a mod 8" by simp_all
  then have "(a mod 8 + 1) mod 8 = a mod 8 + 1" if "a mod 8 \<noteq> 7" using that by (intro mod_pos_pos_trivial) linarith+
  then show ?thesis unfolding e by simp
qed

lemma tab_moves:
  assumes "vdu_ok v" and "mode AND XTABS = XTABS \<longrightarrow> vnext v = None" and "ccol v < 88" and "8 \<le> ccol v mod 8 + int fuel"
  shows "\<exists>t. tab_loop fuel mode v = Done t \<and> tidy v t \<and> vnext t = vnext v \<and> crow t = crow v \<and> ccol t = ccol v - ccol v mod 8 + 8"
  using assms
proof (induction fuel arbitrary: v)
  case (Suc fuel)
  obtain u where u: "tab_turn mode v = Done u" "tidy v u" "vnext u = vnext v" "ccol u = min (ccol v + 1) NCOL" "crow u = crow v" using tab_turn_moves [OF Suc.prems(1,2)] by blast
  have c: "ccol u = ccol v + 1" "0 \<le> ccol v" using u(4) Suc.prems by (auto simp: vdu_ok_def)
  show ?case
  proof (cases "ccol u mod 8 = 0")
    case True
    then have "ccol v mod 8 = 7" using mod_8_succ [of "ccol v"] c(1) pos_mod_sign [of 8 "ccol v"] by (simp split: if_splits)
    then show ?thesis using u True c by auto
  next
    case False
    then have m: "ccol u mod 8 = ccol v mod 8 + 1" using mod_8_succ [of "ccol v"] c(1) by (simp split: if_splits)
    have "ccol v \<noteq> 87" using False c(1) by auto
    then have "ccol u < 88" using Suc.prems(3) c(1) by linarith
    then obtain t where "tab_loop fuel mode u = Done t" "tidy u t" "vnext t = vnext u" "crow t = crow u" "ccol t = ccol u - ccol u mod 8 + 8"
      using Suc.IH [of u] u Suc.prems m by (auto simp: tidy_def)
    then show ?thesis using u False m c tidy_trans [OF u(2)] by auto
  qed
qed (use pos_mod_bound [of 8 "ccol v"] in auto)

text \<open>From column 88 on the cursor comes to the last column, 90, which is no tab stop, and stays there.\<close>

lemma tab_hangs:
  "vdu_ok v \<Longrightarrow> (mode AND XTABS = XTABS \<longrightarrow> vnext v = None) \<Longrightarrow> 88 \<le> ccol v \<Longrightarrow> tab_loop fuel mode v = Stuck"
proof (induction fuel arbitrary: v)
  case (Suc fuel)
  obtain u where u: "tab_turn mode v = Done u" "tidy v u" "vnext u = vnext v" "ccol u = min (ccol v + 1) NCOL" using tab_turn_moves [OF Suc.prems(1,2)] by blast
  have "ccol v \<le> 90" using Suc.prems(1) by (simp add: vdu_ok_def)
  then have "ccol u = 89 \<or> ccol u = 90" using u(4) Suc.prems(3) by auto
  then have "ccol u mod 8 \<noteq> 0" "88 \<le> ccol u" by auto
  then show ?case using u Suc.IH [of u] Suc.prems by (auto simp: tidy_def)
qed simp

text \<open>Inside of an escape sequence the spaces of an expanded tab go to \<open>vbuf\<close> and the cursor does not move.\<close>

lemma tab_in_sequence:
  assumes "vdu_ok v" and "mode AND XTABS = XTABS" and "vnext v = Some k" and "\<not> cursor_shown v"
  shows "tab_loop (Suc fuel) mode v =
    (if k = 20 then Stuck
     else let t = v\<lparr>vbuf := (vbuf v)[k := 32], vnext := Some (k + 1)\<rparr> in if ccol v mod 8 \<noteq> 0 then tab_loop fuel mode t else Done t)"
proof -
  have "vducursor False v = v" using assms(4) by (simp add: vducursor_def)
  moreover have "k \<le> 20" using assms(1,3) by (simp add: vdu_ok_def)
  ultimately show ?thesis using assms(2,3) by (simp add: tab_turn_def vdu_text_def Let_def)
qed

lemma tab_in_sequence_hangs:
  "vdu_ok v \<Longrightarrow> mode AND XTABS = XTABS \<Longrightarrow> vnext v = Some k \<Longrightarrow> \<not> cursor_shown v \<Longrightarrow> ccol v mod 8 \<noteq> 0 \<Longrightarrow> tab_loop fuel mode v = Stuck"
proof (induction fuel arbitrary: v k)
  case (Suc fuel)
  have "k \<noteq> 20 \<Longrightarrow> vdu_ok (v\<lparr>vbuf := (vbuf v)[k := 32], vnext := Some (k + 1)\<rparr>)" using Suc.prems(1,3) by (auto simp: vdu_ok_def)
  then show ?case using Suc.prems Suc.IH by (simp add: tab_in_sequence Let_def del: tab_loop.simps)
qed simp

subsection \<open>A byte is sent to the screen\<close>

definition vdu_hangs :: "u16 \<Rightarrow> u8 \<Rightarrow> vduinfo \<Rightarrow> bool" where
  "vdu_hangs mode c v \<longleftrightarrow> vdu_ready v \<and>
     (if c = 9 then if mode AND XTABS = XTABS \<and> vnext v \<noteq> None then ccol v mod 8 \<noteq> 0 \<or> vnext v = Some 20 else 88 \<le> ccol v
      else c \<noteq> 0x7F \<and> c AND 0x60 \<noteq> 0 \<and> overruns c v)"

lemma vdu_out_cases:
  assumes "vdu_ok v"
  shows "vdu_out mode c v = Stuck \<and> vdu_hangs mode c v \<or>
    \<not> vdu_hangs mode c v \<and> (\<exists>t. vdu_out mode c v = Done t \<and> vdu_ok t \<and> vdu_ready t = vdu_ready v \<and> (\<forall>k. k \<notin> {0..NROW * BYTR} \<longrightarrow> vram t k = vram v k))"
proof (cases "vdu_ready v")
  case False
  then show ?thesis using assms by (simp add: vdu_out_def vdu_hangs_def)
next
  case True
  let ?w = "vducursor False v"
  note f = vducursor_fields [where b = False and v = v]
  have w: "vdu_ok ?w" "tidy v ?w" using vducursor_tidy [OF assms] by (auto simp: tidy_def)
  have tid: "\<exists>t. x = Done t \<and> vdu_ok t \<and> vdu_ready t = vdu_ready v \<and> (\<forall>k. k \<notin> {0..NROW * BYTR} \<longrightarrow> vram t k = vram v k)" if "fine ?w x" for x
    using that w(2) by (auto simp: fine_def tidy_def text_area_def)
  have tab: "tab_loop 30 mode ?w = Stuck \<and> vdu_hangs mode 9 v \<or> \<not> vdu_hangs mode 9 v \<and> fine ?w (tab_loop 30 mode ?w)"
  proof (cases "mode AND XTABS = XTABS \<and> vnext v \<noteq> None")
    case x: True
    then obtain k where k: "vnext ?w = Some k" using f(3) by auto
    have k20: "k \<le> 20" using w(1) k by (simp add: vdu_ok_def)
    have t: "tidy ?w (?w\<lparr>vbuf := (vbuf ?w)[k := 32], vnext := Some (k + 1)\<rparr>)" if "k \<noteq> 20" using that w(1) k20 by (auto simp: tidy_def vdu_ok_def)
    have e: "tab_loop 30 mode ?w = tab_loop (Suc 29) mode ?w" by simp
    show ?thesis
    proof (cases "ccol v mod 8 = 0")
      case True
      then show ?thesis using tab_in_sequence [OF w(1) _ k, of mode 29] x f k t \<open>vdu_ready v\<close> unfolding e
        by (auto simp: vdu_hangs_def fine_def Let_def simp del: tab_loop.simps)
    next
      case False
      then show ?thesis using tab_in_sequence_hangs [OF w(1) _ k, of mode 30] x f True by (simp add: vdu_hangs_def)
    qed
  next
    case x: False
    show ?thesis
    proof (cases "ccol v < 88")
      case c: True
      have "8 \<le> ccol ?w mod 8 + int 30" using pos_mod_sign [of 8 "ccol ?w"] by simp
      then show ?thesis using tab_moves [OF w(1), of mode 30] x c f True by (auto simp: vdu_hangs_def fine_def)
    next
      case False
      then show ?thesis using tab_hangs [OF w(1), of mode 30] x f True by (auto simp: vdu_hangs_def)
    qed
  qed
  have ctrl: "fine ?w (Done (vductrl0 mode c ?w))" using vductrl0_tidy [OF w(1)] by (rule fine_Done)
  have ov: "overruns c ?w = overruns c v" by (simp add: overruns_def f)
  show ?thesis
    using tab tid ctrl vdu_text_cases [OF w(1), of c mode] ov w(1) tid [OF fine_Done [OF tidy_refl [OF w(1)]]] True
    by (cases "c = 9") (auto simp: vdu_out_def vductrl_def Let_def vdu_hangs_def)
qed

text \<open>
  C20. The screen driver under any byte: when the cursor is on the screen, it stays there, every byte that is written to
  video memory is in the text area or the byte behind it, and \<open>vdu_out\<close> comes back, except for the two cases of
  \<open>vdu_hangs\<close>: a tab at column 88 or later loops for ever, and the 21st byte of an escape sequence is stored behind
  \<open>vbuf\<close> (one of the spaces of a tab in the middle of the sequence also, when tabs are expanded and the column is no tab stop: they do not
  move the cursor, and the loop fills \<open>vbuf\<close>).
\<close>

theorem vdu_out_keeps_screen:
  assumes "vdu_ok v"
  shows "vdu_out mode c v = Stuck \<and> vdu_hangs mode c v \<or>
    \<not> vdu_hangs mode c v \<and> (\<exists>t. vdu_out mode c v = Done t \<and> vdu_ok t \<and> vdu_ready t = vdu_ready v \<and> (\<forall>k. k \<notin> {0..NROW * BYTR} \<longrightarrow> vram t k = vram v k))"
  using assms by (rule vdu_out_cases)

subsection \<open>The characters on the screen\<close>

text \<open>\<open>cell v r c\<close> are the nine scan lines of the character in row \<open>r\<close> and column \<open>c\<close>.\<close>

definition scan_byte :: "int \<Rightarrow> int \<Rightarrow> int \<Rightarrow> int" where
  "scan_byte r c l = r * BYTR + c + l * BYT_LIN"

definition cell :: "vduinfo \<Rightarrow> int \<Rightarrow> int \<Rightarrow> u8 list" where
  "cell v r c = map (\<lambda>l. vram v (scan_byte r c l)) [0..LINC - 1]"

definition glyph :: "bool \<Rightarrow> u8 \<Rightarrow> u8 list" where
  "glyph a c = (let f = (\<lambda>l. font8 ! (unat (c AND 0x7F) * 8 + nat l))
     in if \<not> a then map f [0..7] @ [0] else map (\<lambda>l. NOT (f l)) [0..7] @ [0xFF])"

definition blank :: "u8 list" where
  "blank = replicate 9 0"

lemma scan_byte_inj:
  assumes "0 \<le> c" "c < NCOL" "0 \<le> d" "d < NCOL" "0 \<le> l" "l < LINC" "0 \<le> m" "m < LINC"
  shows "scan_byte r c l = scan_byte q d m \<longleftrightarrow> r = q \<and> c = d \<and> l = m"
proof
  assume e: "scan_byte r c l = scan_byte q d m"
  have s: "scan_byte r c l div 90 = r * 9 + l" "scan_byte r c l mod 90 = c" if "0 \<le> c" "c < NCOL" for r c l :: int
  proof -
    have "scan_byte r c l = c + 90 * (r * 9 + l)" by (simp add: scan_byte_def)
    then show "scan_byte r c l div 90 = r * 9 + l" "scan_byte r c l mod 90 = c" using that by (simp_all del: distrib_left_numeral)
  qed
  have "r * 9 + l = q * 9 + m" "c = d" using s e assms by metis+
  moreover from this(1) have "r = q" using assms(5-8) by presburger
  ultimately show "r = q \<and> c = d \<and> l = m" by simp
qed simp

text \<open>A loop that stores bytes made from others, none of which it has stored before.\<close>

lemma fold_store_other:
  "k \<notin> d ` set xs \<Longrightarrow> vram (fold (\<lambda>i w. poke (d i) (h i (vram w (s i))) w) xs v) k = vram v k"
  by (induction xs arbitrary: v) (auto simp: poke_def)

lemma fold_store:
  assumes "distinct xs" and "inj_on d (set xs)" and "\<forall>i \<in> set xs. \<forall>j \<in> set xs. i \<noteq> j \<longrightarrow> d i \<noteq> s j" and "i \<in> set xs"
  shows "vram (fold (\<lambda>i w. poke (d i) (h i (vram w (s i))) w) xs v) (d i) = h i (vram v (s i))"
  using assms
proof (induction xs arbitrary: v)
  case (Cons x xs)
  let ?v = "poke (d x) (h x (vram v (s x))) v"
  have n: "x \<notin> set xs" "distinct xs" "inj_on d (set xs)" using Cons.prems by auto
  show ?case
  proof (cases "i = x")
    case True
    then have "d i \<notin> d ` set xs" using Cons.prems n by (auto simp: inj_on_def)
    then show ?thesis using fold_store_other [of "d i" d xs h s ?v] True by (simp add: poke_def)
  next
    case False
    then have "i \<in> set xs" "d x \<noteq> s i" using Cons.prems by auto
    then show ?thesis using Cons.IH [of ?v] n Cons.prems(3) by (simp add: poke_def)
  qed
qed simp

lemma cell_eqI: "(\<And>l. 0 \<le> l \<Longrightarrow> l < LINC \<Longrightarrow> vram v (scan_byte r c l) = vram w (scan_byte q d l)) \<Longrightarrow> cell v r c = cell w q d"
  by (simp add: cell_def)

lemma cell_blankI: "(\<And>l. 0 \<le> l \<Longrightarrow> l < LINC \<Longrightarrow> vram v (scan_byte r c l) = 0) \<Longrightarrow> cell v r c = blank"
proof -
  assume a: "\<And>l. 0 \<le> l \<Longrightarrow> l < LINC \<Longrightarrow> vram v (scan_byte r c l) = 0"
  have "cell v r c = map (\<lambda>_. 0) [0..LINC - 1]" unfolding cell_def using a by (intro map_cong) auto
  then show ?thesis by (simp add: blank_def map_replicate_const)
qed

lemma row_byte: "0 \<le> c \<Longrightarrow> c < NCOL \<Longrightarrow> 0 \<le> l \<Longrightarrow> l < LINC \<Longrightarrow> \<exists>i \<in> {0..BYTR - 1}. \<forall>r. scan_byte r c l = r * BYTR + i"
  by (intro bexI [of _ "c + l * 90"]) (auto simp: scan_byte_def)

lemma cell_cpyline:
  assumes "r1 \<noteq> r2" and "0 \<le> c" "c < NCOL"
  shows "cell (cpyline r1 r2 v) r c = (if r = r2 then cell v r1 c else cell v r c)"
proof -
  note st = fold_store [of "[0..BYTR - 1]" "\<lambda>i. r2 * BYTR + i" "\<lambda>i. r1 * BYTR + i" _ "\<lambda>_ b. b" v, folded cpyline_def]
    fold_store_other [of _ "\<lambda>i. r2 * BYTR + i" "[0..BYTR - 1]" "\<lambda>_ b. b" "\<lambda>i. r1 * BYTR + i" v, folded cpyline_def]
  have dis: "\<forall>i \<in> set [0..BYTR - 1]. \<forall>j \<in> set [0..BYTR - 1]. i \<noteq> j \<longrightarrow> r2 * BYTR + i \<noteq> r1 * BYTR + j"
  proof (intro ballI impI)
    fix i j :: int assume "i \<in> set [0..BYTR - 1]" "j \<in> set [0..BYTR - 1]"
    then have "0 \<le> i" "i < 810" "0 \<le> j" "j < 810" by auto
    then show "r2 * BYTR + i \<noteq> r1 * BYTR + j" using assms(1) by linarith
  qed
  have "vram (cpyline r1 r2 v) (scan_byte r c l) = (if r = r2 then vram v (scan_byte r1 c l) else vram v (scan_byte r c l))"
    if l: "0 \<le> l" "l < LINC" for l
  proof -
    obtain i where i: "i \<in> {0..BYTR - 1}" "\<forall>r. scan_byte r c l = r * BYTR + i" using row_byte [OF assms(2,3) l] by blast
    have "r * BYTR + i \<notin> (\<lambda>i. r2 * BYTR + i) ` set [0..BYTR - 1]" if "r \<noteq> r2" using that i(1) by auto
    then show ?thesis using st(1) [OF _ _ dis, of i] st(2) [of "r * BYTR + i"] i by (auto simp: inj_on_def)
  qed
  then show ?thesis by (auto intro!: cell_eqI)
qed

lemma cell_clrline:
  assumes "0 \<le> c" "c < NCOL"
  shows "cell (clrline r2 v) r c = (if r = r2 then blank else cell v r c)"
proof -
  note st = fold_store [of "[0..BYTR - 1]" "\<lambda>i. r2 * BYTR + i" "\<lambda>i. r2 * BYTR + i" _ "\<lambda>_ _. 0" v, folded clrline_def]
    fold_store_other [of _ "\<lambda>i. r2 * BYTR + i" "[0..BYTR - 1]" "\<lambda>_ _. 0" "\<lambda>i. r2 * BYTR + i" v, folded clrline_def]
  have "vram (clrline r2 v) (scan_byte r c l) = (if r = r2 then 0 else vram v (scan_byte r c l))" if l: "0 \<le> l" "l < LINC" for l
  proof -
    obtain i where i: "i \<in> {0..BYTR - 1}" "\<forall>r. scan_byte r c l = r * BYTR + i" using row_byte [OF assms l] by blast
    have "r * BYTR + i \<notin> (\<lambda>i. r2 * BYTR + i) ` set [0..BYTR - 1]" if "r \<noteq> r2" using that i(1) by auto
    then show ?thesis using st(1) [of i] st(2) [of "r * BYTR + i"] i by (auto simp: inj_on_def)
  qed
  then show ?thesis by (auto intro!: cell_eqI cell_blankI)
qed

lemma cell_paint:
  assumes v: "vdu_ok v" and "0 \<le> c" "c < NCOL"
  shows "cell (paint ch v) r c = (if r = crow v \<and> c = min (ccol v) (NCOL - 1) then glyph (attr v) ch else cell v r c)"
proof -
  let ?c = "min (ccol v) (NCOL - 1)"
  have k: "curs v = scan_byte (crow v) ?c 0" "\<And>l. curs v + l * BYT_LIN = scan_byte (crow v) ?c l" using v by (auto simp: vdu_ok_def scan_byte_def)
  have cb: "0 \<le> ?c" "?c < NCOL" using v by (auto simp: vdu_ok_def)
  define f where "f = (\<lambda>l. font8 ! (unat (ch AND 0x7F) * 8 + nat l))"
  define g where "g = (\<lambda>l. if attr v then NOT (f l) else f l)"
  define e :: u8 where "e = (if attr v then 0xFF else 0)"
  define w where "w = fold (\<lambda>l. poke (scan_byte (crow v) ?c l) (g l)) [0..7] v"
  have p: "paint ch v = poke (scan_byte (crow v) ?c 8) e w" unfolding paint_def Let_def w_def g_def e_def k(2) f_def by (simp only: split: if_split) simp
  have inj: "inj_on (scan_byte (crow v) ?c) (set [0..7])" by (auto simp: inj_on_def scan_byte_def)
  note st = fold_store [of "[0..7]" "scan_byte (crow v) ?c" "scan_byte (crow v) ?c" _ "\<lambda>l _. g l" v, folded w_def]
    fold_store_other [of _ "scan_byte (crow v) ?c" "[0..7]" "\<lambda>l _. g l" "scan_byte (crow v) ?c" v, folded w_def]
  have here: "vram (paint ch v) (scan_byte (crow v) ?c l) = (if l = 8 then e else g l)" if "0 \<le> l" "l < LINC" for l
    using st(1) [of l] inj that by (auto simp: p poke_def scan_byte_def inj_on_def)
  have there: "vram (paint ch v) (scan_byte r c l) = vram v (scan_byte r c l)" if "0 \<le> l" "l < LINC" "\<not> (r = crow v \<and> c = ?c)" for l
  proof -
    have "scan_byte r c l \<noteq> scan_byte (crow v) ?c m" if "0 \<le> m" "m < LINC" for m
      using scan_byte_inj [OF assms(2,3) cb] \<open>0 \<le> l\<close> \<open>l < LINC\<close> that \<open>\<not> (r = crow v \<and> c = ?c)\<close> by blast
    note ne = this
    have "scan_byte r c l \<notin> scan_byte (crow v) ?c ` set [0..7]" using ne by (auto simp: image_iff)
    then show ?thesis using st(2) [of "scan_byte r c l"] ne [of 8] by (simp add: p poke_def)
  qed
  have "cell (paint ch v) (crow v) ?c = map (\<lambda>l. if l = 8 then e else g l) [0..LINC - 1]" unfolding cell_def using here by (intro map_cong) auto
  also have "[0..LINC - 1] = [0..7] @ [8 :: int]" by (simp add: upto_rec2)
  also have "map (\<lambda>l. if l = 8 then e else g l) ([0..7] @ [8]) = glyph (attr v) ch"
    by (auto simp: glyph_def Let_def g_def e_def f_def)
  finally show ?thesis using there by (auto intro!: cell_eqI)
qed

subsection \<open>The screen as a text terminal\<close>

text \<open>
  The abstract terminal: a grid of characters (as their scan lines) and a cursor. Its column may be 90, behind the last
  one; characters then overwrite the last column, since there is no wrap to the next line.
\<close>

record text_term =
  grid :: "int \<Rightarrow> int \<Rightarrow> u8 list"
  trow :: int
  tcol :: int
  treverse :: bool

definition term_feed :: "text_term \<Rightarrow> text_term" where
  "term_feed T = (if trow T = NROW - 1 then T\<lparr>grid := (\<lambda>r c. if r = NROW - 1 then blank else grid T (r + 1) c)\<rparr> else T\<lparr>trow := trow T + 1\<rparr>)"

definition term_out :: "bool \<Rightarrow> u8 \<Rightarrow> text_term \<Rightarrow> text_term" where
  "term_out crmod c T =
     (if c = 8 then T\<lparr>tcol := max 0 (tcol T - 1)\<rparr>
      else if c = 10 then term_feed (if crmod then T\<lparr>tcol := 0\<rparr> else T)
      else if c = 13 then T\<lparr>tcol := 0\<rparr>
      else T\<lparr>grid := (grid T)(trow T := (grid T (trow T))(min (tcol T) (NCOL - 1) := glyph (treverse T) c)), tcol := min (tcol T + 1) NCOL\<rparr>)"

text \<open>What the screen shows, the cursor apart.\<close>

definition displays :: "vduinfo \<Rightarrow> text_term \<Rightarrow> bool" where
  "displays v T \<longleftrightarrow> vdu_ok v \<and> vdu_ready v \<and> vnext v = None \<and> crow v = trow T \<and> ccol v = tcol T \<and> attr v = treverse T \<and>
     (\<forall>r c. 0 \<le> r \<longrightarrow> r < NROW \<longrightarrow> 0 \<le> c \<longrightarrow> c < NCOL \<longrightarrow> cell (vducursor False v) r c = grid T r c)"

definition text_byte :: "u8 \<Rightarrow> bool" where
  "text_byte c \<longleftrightarrow> c = 8 \<or> c = 10 \<or> c = 13 \<or> 32 \<le> c \<and> c < 127"

lemma moveto_fields:
  "vram (moveto r c v) = vram v" "cursor_shown (moveto r c v) = cursor_shown v" "attr (moveto r c v) = attr v"
  "vnext (moveto r c v) = vnext v" "vdu_ready (moveto r c v) = vdu_ready v"
  by (simp_all add: moveto_def)

lemma cell_moveto: "cell (moveto r c v) i j = cell v i j"
  by (simp add: cell_def moveto_fields)

lemma cell_scroll:
  assumes "0 \<le> c" "c < NCOL" and "0 \<le> n"
  shows "cell (fold (\<lambda>i. cpyline (i + 1) i) [0..n - 1] v) r c = (if 0 \<le> r \<and> r < n then cell v (r + 1) c else cell v r c)"
  using assms(3)
proof (induction n arbitrary: r rule: int_ge_induct)
  case (step n)
  have u: "[0..n + 1 - 1] = [0..n - 1] @ [n]" using step.hyps by (simp add: upto_rec2)
  show ?case unfolding u using step.hyps by (auto simp: cell_cpyline [OF _ assms(1,2)] step.IH)
qed auto

lemma displays_hidden: "displays v T \<Longrightarrow> displays (vducursor False v) T \<and> \<not> cursor_shown (vducursor False v)"
proof -
  assume d: "displays v T"
  have "vducursor False (vducursor False v) = vducursor False v"
    using vducursor_fields(8) [of v False] d by (simp add: displays_def vducursor_def [of False "vducursor False v"])
  moreover have "vdu_ok (vducursor False v)" using d vducursor_tidy by (simp add: displays_def tidy_def)
  ultimately show ?thesis using d vducursor_fields(8) [of v False] by (simp add: displays_def vducursor_fields)
qed

lemma displays_moveto:
  assumes "displays v T" and "\<not> cursor_shown v" and "0 \<le> r" "r < NROW" "0 \<le> c" "c \<le> NCOL"
  shows "displays (moveto r c v) (T\<lparr>trow := r, tcol := c\<rparr>)" and "\<not> cursor_shown (moveto r c v)"
proof -
  have "vdu_ok (moveto r c v)" using moveto_tidy [of v r c] assms(1) by (simp add: displays_def tidy_def)
  then show "displays (moveto r c v) (T\<lparr>trow := r, tcol := c\<rparr>)"
    using assms by (auto simp: displays_def vducursor_def moveto_fields cell_moveto) (auto simp: moveto_def)
  show "\<not> cursor_shown (moveto r c v)" using assms(2) by (simp add: moveto_fields)
qed

lemma displays_feed:
  assumes "displays v T" and "\<not> cursor_shown v"
  shows "displays (line_feed v) (term_feed T) \<and> \<not> cursor_shown (line_feed v)"
proof (cases "trow T = NROW - 1")
  case False
  then show ?thesis using displays_moveto [OF assms, of "crow v + 1" "ccol v"] assms(1)
    by (auto simp: line_feed_def term_feed_def displays_def vdu_ok_def)
next
  case True
  let ?t = "clrline (NROW - 1) (fold (\<lambda>i. cpyline (i + 1) i) [0..NROW - 2] v)"
  have d: "draws text_area v ?t" by (auto intro!: draws_trans [OF draws_fold clrline_draws] cpyline_draws)
  note f = draws_fields [OF d]
  have "vdu_ok ?t" using draws_tidy [OF _ d] assms(1) by (simp add: displays_def tidy_def)
  moreover have "cell ?t r c = grid (term_feed T) r c" if "0 \<le> r" "r < NROW" "0 \<le> c" "c < NCOL" for r c
  proof -
    have "vducursor False v = v" using assms(2) by (simp add: vducursor_def)
    then show ?thesis using cell_scroll [OF that(3,4), of "NROW - 1" v r] that assms(1) True by (simp add: cell_clrline term_feed_def displays_def)
  qed
  moreover have "vducursor False ?t = ?t" using assms(2) f by (simp add: vducursor_def)
  moreover have "line_feed v = ?t" using assms(1) True by (simp add: line_feed_def displays_def)
  moreover have "trow (term_feed T) = trow T" "tcol (term_feed T) = tcol T" "treverse (term_feed T) = treverse T"
    using True by (simp_all add: term_feed_def)
  ultimately show ?thesis using assms f by (simp add: displays_def)
qed

lemma displays_paint:
  assumes "displays v T" and "\<not> cursor_shown v"
  shows "displays (paint c v) (T\<lparr>grid := (grid T)(trow T := (grid T (trow T))(min (tcol T) (NCOL - 1) := glyph (treverse T) c))\<rparr>) \<and> \<not> cursor_shown (paint c v)"
proof -
  have v: "vdu_ok v" using assms(1) by (simp add: displays_def)
  note f = draws_fields [OF paint_tidy [OF v, of c]]
  have "vdu_ok (paint c v)" using draws_tidy [OF v paint_tidy [OF v]] by (simp add: tidy_def)
  moreover have "vducursor False (paint c v) = paint c v" "vducursor False v = v" using assms(2) f by (simp_all add: vducursor_def)
  ultimately show ?thesis using assms f by (auto simp: displays_def cell_paint)
qed

lemma printable_bits:
  assumes "32 \<le> (c :: u8)" and "c < 127"
  shows "c AND 0x80 = 0" and "c AND 0x60 \<noteq> 0" and "c \<noteq> 8" "c \<noteq> 9" "c \<noteq> 10" "c \<noteq> 13" "c \<noteq> 127"
proof -
  have "unat c < 128" using assms(2) by (simp add: word_less_nat_alt)
  then have "\<not> bit c 7" using bit_unat_iff [of c 7] by (simp add: bit_iff_odd)
  then show h: "c AND 0x80 = 0" using and_exp_eq_0_iff_not_bit [of c 7] by simp
  show "c AND 0x60 \<noteq> 0"
  proof
    assume "c AND 0x60 = 0"
    moreover have "(0x80 OR 0x60 OR 0x1F :: u8) = - 1" by simp
    then have "c = c AND (0x80 OR 0x60 OR 0x1F)" by (simp only: bit.conj_one_right)
    ultimately have "c = c AND 0x1F" using h by (simp only: bit.conj_disj_distrib) simp
    then have "c \<le> 0x1F" using word_and_le1 [of c "0x1F"] by metis
    then show False using assms(1) by (auto simp: word_le_nat_alt)
  qed
qed (use assms in auto)

lemma vdu_out_text:
  assumes "displays v T" and "text_byte c"
  shows "\<exists>t. vdu_out mode c v = Done t \<and> displays t (term_out (mode AND CRMOD \<noteq> 0) c T)"
proof -
  let ?w = "vducursor False v"
  have w: "displays ?w T" "\<not> cursor_shown ?w" using displays_hidden [OF assms(1)] by simp_all
  have b: "0 \<le> crow ?w" "crow ?w < NROW" "0 \<le> ccol ?w" "ccol ?w \<le> NCOL" "crow ?w = trow T" "ccol ?w = tcol T" "vnext ?w = None"
    using w(1) by (auto simp: displays_def vdu_ok_def)
  have r: "vdu_ready v" using assms(1) by (simp add: displays_def)
  note mv = displays_moveto(1) [OF w, of "crow ?w"]
  show ?thesis
  proof (cases "32 \<le> c \<and> c < 127")
    case True
    note p = printable_bits [of c] True
    note d = displays_paint [OF w, of c]
    have f: "crow (paint c ?w) = crow ?w" "ccol (paint c ?w) = ccol ?w" using draws_fields [OF paint_tidy, of ?w c] w(1) by (auto simp: displays_def)
    have "vdu_out mode c v = Done (moveto (crow ?w) (ccol ?w + 1) (paint c ?w))" using r p b f by (simp add: vdu_out_def vdu_text_def Let_def)
    moreover have "displays (moveto (crow ?w) (ccol ?w + 1) (paint c ?w)) (term_out x c T)" for x
    proof (cases "ccol ?w < NCOL")
      case True
      then show ?thesis using displays_moveto(1) [OF conjunct1 [OF d] conjunct2 [OF d], of "crow ?w" "ccol ?w + 1"] b p by (simp add: term_out_def)
    next
      case False
      then have "moveto (crow ?w) (ccol ?w + 1) (paint c ?w) = paint c ?w" "tcol T = NCOL" using b by (auto simp: moveto_def)
      then show ?thesis using d b p by (simp add: term_out_def displays_def)
    qed
    ultimately show ?thesis by blast
  next
    case False
    then consider "c = 8" | "c = 10" | "c = 13" using assms(2) by (auto simp: text_byte_def)
    then show ?thesis
    proof cases
      case 1
      have "displays (moveto (crow ?w) (ccol ?w - 1) ?w) (T\<lparr>tcol := max 0 (tcol T - 1)\<rparr>)"
        using mv [of "ccol ?w - 1"] b w(1) by (cases "ccol ?w = 0") (auto simp: moveto_def displays_def)
      then show ?thesis using 1 r by (simp add: vdu_out_def vductrl_def vductrl0_def Let_def term_out_def)
    next
      case 2
      have m0: "displays (moveto (crow ?w) 0 ?w) (T\<lparr>tcol := 0\<rparr>)" "\<not> cursor_shown (moveto (crow ?w) 0 ?w)"
        using displays_moveto [OF w, of "crow ?w" 0] b by auto
      show ?thesis using 2 r displays_feed [OF w] displays_feed [OF m0] by (auto simp: vdu_out_def vductrl_def vductrl0_def Let_def term_out_def)
    next
      case 3
      then show ?thesis using r mv [of 0] b by (simp add: vdu_out_def vductrl_def vductrl0_def Let_def term_out_def)
    qed
  qed
qed

text \<open>
  C19. The screen shows what is written to it: for any text of printable characters, backspaces, newlines and returns the
  driver comes back and leaves the grid of characters and the cursor as the abstract terminal has them. A character
  appears as its glyph of the font at the cursor (in the last column when the line is full), a newline in the last row
  scrolls every row up by one and blanks the last, and no other character on the screen changes.
\<close>

theorem vdu_out_refines_terminal:
  assumes "displays v T" and "\<forall>c \<in> set cs. text_byte c"
  shows "\<exists>t. seq_all (vdu_out mode) cs v = Done t \<and> displays t (fold (term_out (mode AND CRMOD \<noteq> 0)) cs T)"
  using assms
proof (induction cs arbitrary: v T)
  case (Cons c cs)
  obtain u where u: "vdu_out mode c v = Done u" "displays u (term_out (mode AND CRMOD \<noteq> 0) c T)"
    using vdu_out_text [OF Cons.prems(1), of c mode] Cons.prems(2) by auto
  then show ?case using Cons.IH [OF u(2)] Cons.prems(2) by simp
qed simp

subsection \<open>The cursor on the screen\<close>

lemma vducursor_toggle:
  assumes "vdu_ready v" and "cursor_shown v \<noteq> b"
  shows "vram (vducursor b v) k = (if k \<in> (\<lambda>l. curs v + l * BYT_LIN) ` {0..LINC - 1} then NOT (vram v k) else vram v k)"
proof -
  let ?d = "\<lambda>l. curs v + l * BYT_LIN" let ?v = "v\<lparr>cursor_shown := b\<rparr>"
  have e: "vducursor b v = fold (\<lambda>l w. poke (?d l) (NOT (vram w (?d l))) w) [0..LINC - 1] ?v" using assms by (simp add: vducursor_def)
  show ?thesis
  proof (cases "k \<in> ?d ` set [0..LINC - 1]")
    case True
    then obtain l where l: "l \<in> set [0..LINC - 1]" "k = ?d l" by blast
    have "inj_on ?d (set [0..LINC - 1])" by (auto simp: inj_on_def)
    then show ?thesis using fold_store [of "[0..LINC - 1]" ?d ?d l "\<lambda>_ b. NOT b" ?v] l True unfolding e by auto
  next
    case False
    then show ?thesis using fold_store_other [of k ?d "[0..LINC - 1]" "\<lambda>_ b. NOT b" ?d ?v] unfolding e by auto
  qed
qed

lemma vducursor_hide_shown:
  assumes "vdu_ready v" and "\<not> cursor_shown v"
  shows "vducursor False (vducursor True v) = v"
proof -
  let ?u = "vducursor True v" let ?t = "vducursor False ?u"
  have u: "vdu_ready ?u" "cursor_shown ?u" "curs ?u = curs v" "\<not> cursor_shown ?t"
    using assms by (simp_all add: vducursor_fields)
  have "vram ?t = vram v" using vducursor_toggle [of v True] vducursor_toggle [of ?u False] u assms by (auto simp: fun_eq_iff)
  then show ?thesis using u(4) assms(2) by (intro vduinfo.equality) (simp_all add: vducursor_fields)
qed

lemma displays_cursor: "displays v T \<Longrightarrow> displays (vducursor b v) T"
proof -
  assume d: "displays v T"
  have "vducursor False (vducursor b v) = vducursor False v"
  proof (cases "b = cursor_shown v")
    case True
    then have "vducursor b v = v" by (simp add: vducursor_def)
    then show ?thesis by simp
  next
    case False
    then consider "b" "\<not> cursor_shown v" | "\<not> b" "cursor_shown v" by auto
    then show ?thesis
    proof cases
      case 1
      then show ?thesis using vducursor_hide_shown [of v] d by (simp add: displays_def vducursor_def [of False v])
    next
      case 2
      then have "\<not> cursor_shown (vducursor b v)" using displays_hidden [OF d] by simp
      then show ?thesis using 2 by (simp add: vducursor_def [of False "vducursor False v"])
    qed
  qed
  moreover have "vdu_ok (vducursor b v)" using d vducursor_tidy by (simp add: displays_def tidy_def)
  ultimately show ?thesis using d by (simp add: displays_def vducursor_fields)
qed

text \<open>The screen after \<open>vdu_init\<close>, from the zeroed variables of the driver.\<close>

definition blank_term :: text_term where
  "blank_term = \<lparr>grid = (\<lambda>_ _. blank), trow = 0, tcol = 0, treverse = False\<rparr>"

definition zero_vdu :: vduinfo where
  "zero_vdu = \<lparr>vram = (\<lambda>_. 0), curs = 0, attr = False, ccol = 0, crow = 0, savattr = False, savccol = 0, savcrow = 0,
     vbuf = replicate 20 0, vnext = None, vdu_ready = False, cursor_shown = False, keypad = False, app_mode = False\<rparr>"

lemma cell_clrlines:
  "0 \<le> c \<Longrightarrow> c < NCOL \<Longrightarrow> cell (fold clrline xs v) r c = (if r \<in> set xs then blank else cell v r c)"
  by (induction xs arbitrary: v) (auto simp: cell_clrline)

lemma vdu_init_displays: "displays (snd (vdu_init memend membase zero_vdu)) blank_term"
proof -
  define u where "u = moveto 0 0 (fold (\<lambda>p. poke p 0xFF) [NROW * BYTR..VIDEO_PAGE - 1] zero_vdu)"
  have d: "draws UNIV zero_vdu (fold (\<lambda>p. poke p 0xFF) [NROW * BYTR..VIDEO_PAGE - 1] zero_vdu)" by (intro draws_fold draws_poke) simp
  have u: "vdu_ok u" "vnext u = None" "attr u = False" "crow u = 0" "ccol u = 0" "\<not> cursor_shown u" "\<not> vdu_ready u"
    using draws_fields [OF d] by (simp_all add: u_def moveto_def vdu_ok_def zero_vdu_def)
  let ?c = "clrarea 0 0 (NROW - 1) (NCOL - 1) u"
  have dc: "draws text_area u ?c" by (rule clrarea_draws) simp_all
  note f = draws_fields [OF dc]
  have c: "?c = fold clrline [0..NROW - 1] u" by (simp add: clrarea_def)
  let ?t = "?c\<lparr>vdu_ready := True\<rparr>"
  have "vdu_ok ?t" using draws_tidy [OF u(1) dc] by (simp add: tidy_def vdu_ok_def)
  moreover have "vducursor False ?t = ?t" using f u by (simp add: vducursor_def)
  moreover have "cell ?t i j = cell ?c i j" for i j by (simp add: cell_def)
  moreover have "cell ?c i j = blank" if "0 \<le> i" "i < NROW" "0 \<le> j" "j < NCOL" for i j using cell_clrlines [OF that(3,4), of "[0..NROW - 1]"] that c by simp
  ultimately have "displays ?t blank_term" using f u by (simp add: displays_def blank_term_def)
  moreover have "moveto 0 0 ((fold (\<lambda>p. poke p 0xFF) [NROW * BYTR..VIDEO_PAGE - 1] zero_vdu)\<lparr>attr := False, vnext := None\<rparr>) = u"
    using draws_fields [OF d] by (simp add: u_def moveto_def zero_vdu_def)
  ultimately show ?thesis using displays_cursor [of ?t blank_term True] by (simp add: vdu_init_def Let_def)
qed

subsection \<open>Cursor positioning\<close>

definition dec_value :: "u8 list \<Rightarrow> int" where
  "dec_value ds = foldl (\<lambda>i d. i * 10 + (uint d - 48)) 0 ds"

lemma digit_value: "digit d \<Longrightarrow> 0 \<le> uint d - 48 \<and> uint d - 48 \<le> 9"
  by (auto simp: digit_def word_le_def)

lemma digit_range: "digit d \<Longrightarrow> 48 \<le> d \<and> d < 64"
  by (auto simp: digit_def intro: order.strict_trans1)

lemma int16_id: "- 32768 \<le> i \<Longrightarrow> i \<le> 32767 \<Longrightarrow> int16 i = i"
  by (simp add: int16_def sint_uint uint_word_of_int_eq signed_take_bit_take_bit signed_take_bit_int_eq_self)

lemma dec_mono: "0 \<le> i \<Longrightarrow> \<forall>d \<in> set ds. digit d \<Longrightarrow> i \<le> foldl (\<lambda>i d. i * 10 + (uint d - 48)) i ds"
proof (induction ds arbitrary: i)
  case (Cons d ds)
  then have "0 \<le> i * 10 + (uint d - 48)" "i \<le> i * 10 + (uint d - 48)" using digit_value [of d] by auto
  then show ?case using Cons.IH [of "i * 10 + (uint d - 48)"] Cons.prems(2) by auto
qed simp

lemma scan_digits:
  assumes "\<forall>d \<in> set ds. digit d" and "\<not> digit e" and "0 \<le> i" and "foldl (\<lambda>i d. i * 10 + (uint d - 48)) i ds \<le> 32767"
  shows "scan_num (ds @ e # rs) i = Done (foldl (\<lambda>i d. i * 10 + (uint d - 48)) i ds, e, length ds + 1)"
  using assms
proof (induction ds arbitrary: i)
  case (Cons d ds)
  let ?j = "i * 10 + (uint d - 48)"
  have j: "0 \<le> ?j" "?j \<le> 32767" using Cons.prems digit_value [of d] dec_mono [of ?j ds] by auto
  then have "int16 ?j = ?j" by (simp add: int16_id)
  then show ?case using Cons.IH [of ?j] Cons.prems j by simp
qed simp

lemma vduparam_digits:
  assumes "vnext v = Some k" and "drop k (vbuf v) = ds @ e # rs" and "ds \<noteq> []" and "\<forall>d \<in> set ds. digit d" and "\<not> digit e" and "dec_value ds \<le> 32767"
  shows "vduparam v = Done (dec_value ds, v\<lparr>vnext := Some (if e = 59 then k + length ds + 1 else k + length ds)\<rparr>)"
  using scan_digits [of ds e 0 rs] assms by (simp add: vduparam_def dec_value_def)

text \<open>The bytes of a sequence are collected in \<open>vbuf\<close>.\<close>

lemma collect_params:
  assumes "vnext v = Some k" and "0 < k" and "vbuf v ! 0 = 91" and "k + length ps \<le> length (vbuf v)" and "length (vbuf v) = 20"
    and "\<forall>c \<in> set ps. 48 \<le> c \<and> c < 64" and "vdu_ready v" and "\<not> cursor_shown v"
  shows "seq_all (vdu_out mode) ps v = Done (v\<lparr>vbuf := take k (vbuf v) @ ps @ drop (k + length ps) (vbuf v), vnext := Some (k + length ps)\<rparr>)"
  using assms
proof (induction ps arbitrary: v k)
  case Nil
  then show ?case by simp
next
  case (Cons c ps)
  have c: "48 \<le> c" "c < 64" "32 \<le> c" "c < 127" using Cons.prems(6) by (auto simp: word_le_nat_alt word_less_nat_alt)
  note b = printable_bits [OF c(3,4)]
  let ?u = "v\<lparr>vbuf := (vbuf v)[k := c], vnext := Some (k + 1)\<rparr>"
  have "vducursor False v = v" using Cons.prems(8) by (simp add: vducursor_def)
  then have "vdu_out mode c v = Done ?u" using Cons.prems c b by (auto simp: vdu_out_def vdu_text_def Let_def not_le)
  moreover have "seq_all (vdu_out mode) ps ?u =
      Done (?u\<lparr>vbuf := take (k + 1) (vbuf ?u) @ ps @ drop (k + 1 + length ps) (vbuf ?u), vnext := Some (k + 1 + length ps)\<rparr>)"
    using Cons.IH [of ?u "k + 1"] Cons.prems by auto
  moreover have "take (k + 1) ((vbuf v)[k := c]) @ ps @ drop (k + 1 + length ps) ((vbuf v)[k := c]) = take k (vbuf v) @ (c # ps) @ drop (k + length (c # ps)) (vbuf v)"
    using Cons.prems(4) by (simp add: take_Suc_conv_app_nth)
  ultimately show ?case by simp
qed

text \<open>
  C21. The sequence ESC [ \<open>row\<close> ; \<open>column\<close> H with two decimal numbers of at most 17 digits in all, leading zeros included, and of
  a value of at most 32767 each puts the cursor at that place, counted from 1 and limited to the screen, and leaves the characters alone. (Longer
  sequences are stored behind \<open>vbuf\<close>, and larger numbers wrap in the 16-bit \<open>int\<close> of \<open>vduparam\<close>.)
\<close>

theorem cursor_position:
  assumes "displays v T" and "ds \<noteq> []" and "es \<noteq> []" and "\<forall>d \<in> set ds \<union> set es. digit d" and "length ds + length es \<le> 17"
    and "dec_value ds \<le> 32767" and "dec_value es \<le> 32767"
  shows "\<exists>t. seq_all (vdu_out mode) ([27, 91] @ ds @ [59] @ es @ [72]) v = Done t \<and>
    displays t (T\<lparr>trow := min (max 1 (dec_value ds)) NROW - 1, tcol := min (max 1 (dec_value es)) NCOL - 1\<rparr>)"
proof -
  let ?w = "vducursor False v" let ?r = "min (max 1 (dec_value ds)) NROW - 1" let ?c = "min (max 1 (dec_value es)) NCOL - 1"
  have w: "displays ?w T" "\<not> cursor_shown ?w" using displays_hidden [OF assms(1)] by simp_all
  have l: "length (vbuf ?w) = 20" "vdu_ready ?w" "vnext ?w = None" "vdu_ready v" using w(1) assms(1) by (auto simp: displays_def vdu_ok_def)
  define u where "u = ?w\<lparr>vbuf := (vbuf ?w)[0 := 91], vnext := Some 1\<rparr>"
  have h: "vducursor False (?w\<lparr>vnext := Some 0\<rparr>) = ?w\<lparr>vnext := Some 0\<rparr>" using w(2) by (simp add: vducursor_def)
  have start: "seq_all (vdu_out mode) [27, 91] v = Done u"
    using l h by (simp add: vdu_out_def vductrl_def vductrl0_def vdu_text_def Let_def u_def)
  let ?k = "2 + length ds + length es" let ?ps = "ds @ [59] @ es"
  have "\<forall>c \<in> set ?ps. 48 \<le> c \<and> c < 64" using assms(4) digit_range by auto
  moreover have t1: "take (Suc 0) ((vbuf ?w)[0 := 91]) = [91]" using l(1) by (cases "vbuf ?w") simp_all
  ultimately have params: "seq_all (vdu_out mode) ?ps u = Done (u\<lparr>vbuf := 91 # ?ps @ drop ?k (vbuf u), vnext := Some ?k\<rparr>)"
    using collect_params [of u 1 ?ps mode] t1 l w(2) assms(5) by (simp add: u_def)
  define x where "x = u\<lparr>vbuf := 91 # ?ps @ drop ?k (vbuf u), vnext := Some ?k\<rparr>"
  obtain y ys where y: "drop ?k (vbuf u) = y # ys" using assms(5) l(1) by (cases "drop ?k (vbuf u)") (auto simp: u_def)
  define z where "z = x\<lparr>vbuf := 91 # ?ps @ 0 # ys, vnext := Some 1\<rparr>"
  have vb: "(vbuf x)[?k := 0] = 91 # ?ps @ 0 # ys" using y by (simp add: x_def list_update_append)
  have p1: "vduparam z = Done (dec_value ds, z\<lparr>vnext := Some (2 + length ds)\<rparr>)"
    using vduparam_digits [of z 1 ds 59 "es @ 0 # ys"] assms by (auto simp: z_def digit_def)
  have p2: "vduparam (z\<lparr>vnext := Some (2 + length ds)\<rparr>) = Done (dec_value es, z\<lparr>vnext := Some ?k\<rparr>)"
    using vduparam_digits [of "z\<lparr>vnext := Some (2 + length ds)\<rparr>" "2 + length ds" es 0 ys] assms by (auto simp: z_def digit_def)
  have ansi: "vduansi 72 x = Done (moveto ?r ?c (z\<lparr>vnext := Some ?k\<rparr>))"
    using p1 p2 vb assms(5) by (simp add: vduansi_def ansi_act_def x_def z_def Let_def max_def)
  have hx: "vducursor False x = x" using w(2) by (simp add: vducursor_def x_def u_def)
  have "vbuf x ! 0 = 91" "vnext x = Some ?k" "vdu_ready x" using l by (simp_all add: x_def u_def)
  then have fin: "vdu_out mode 72 x = Done ((moveto ?r ?c (z\<lparr>vnext := Some ?k\<rparr>))\<lparr>vnext := None\<rparr>)"
    using ansi hx by (simp add: vdu_out_def vdu_text_def Let_def)
  have "displays (z\<lparr>vnext := None\<rparr>) T"
  proof -
    have "length ys = 20 - (?k + 1)" using arg_cong [OF y, of length] l(1) by (simp add: u_def)
    then have "length (91 # ?ps @ 0 # ys) = 20" using assms(5) by simp
    then show ?thesis using w by (auto simp: displays_def vdu_ok_def z_def x_def u_def vducursor_def cell_def)
  qed
  then have "displays (moveto ?r ?c (z\<lparr>vnext := None\<rparr>)) (T\<lparr>trow := ?r, tcol := ?c\<rparr>)"
    using w(2) by (intro displays_moveto) (auto simp: z_def x_def u_def)
  moreover have "(moveto ?r ?c (z\<lparr>vnext := Some ?k\<rparr>))\<lparr>vnext := None\<rparr> = moveto ?r ?c (z\<lparr>vnext := None\<rparr>)" by (simp add: moveto_def)
  moreover have "seq_all (vdu_out mode) ([27, 91] @ ds @ [59] @ es @ [72]) v = Done ((moveto ?r ?c (z\<lparr>vnext := Some ?k\<rparr>))\<lparr>vnext := None\<rparr>)"
    using start params [folded x_def] fin by (simp add: seq_all_append [of _ "[27, 91]" "ds @ 59 # es @ [72]", simplified] seq_all_append [of _ "ds @ 59 # es" "[72]", simplified])
  ultimately show ?thesis by simp
qed

subsection \<open>Witnesses\<close>

abbreviation (input) demo_screen :: vduinfo where
  "demo_screen \<equiv> snd (vdu_init 0x100000 0 zero_vdu)"

theorem vdu_out_keeps_screen_witness:
  "vdu_ok demo_screen \<and> (\<exists>t. vdu_out 0 65 demo_screen = Done t \<and> vdu_ok t \<and> (\<forall>k. k \<notin> {0..NROW * BYTR} \<longrightarrow> vram t k = vram demo_screen k))"
proof -
  have d: "vdu_ok demo_screen" "vnext demo_screen = None" using vdu_init_displays [where memend = "0x100000" and membase = 0] by (simp_all add: displays_def)
  then have "\<not> vdu_hangs 0 65 demo_screen" by (simp add: vdu_hangs_def overruns_def)
  then show ?thesis using vdu_out_keeps_screen [where mode = 0 and c = 65, OF d(1)] d(1) by blast
qed

theorem vdu_out_refines_terminal_witness:
  "\<exists>t. seq_all (vdu_out 0x10) [72, 105, 10] demo_screen = Done t \<and> displays t (fold (term_out True) [72, 105, 10] blank_term)"
  using vdu_out_refines_terminal [where cs = "[72, 105, 10]" and mode = "0x10", OF vdu_init_displays [where memend = "0x100000" and membase = 0]] by (simp add: text_byte_def)

theorem cursor_position_witness:
  "\<exists>t. seq_all (vdu_out 0) [27, 91, 49, 50, 59, 48, 53, 72] demo_screen = Done t \<and> displays t (blank_term\<lparr>trow := 11, tcol := 4\<rparr>)"
  using cursor_position [where ds = "[49, 50]" and es = "[48, 53]" and mode = 0, OF vdu_init_displays [where memend = "0x100000" and membase = 0]] by (simp add: digit_def dec_value_def)

end
