(* ===== verification/Kernel_TTY.thy ===== *)
theory Kernel_TTY
  imports Kernel_Clock Lisa_Vdu
begin

unbundle bit_operations_syntax

section \<open>Kernel: the terminal task (src/src/kernel/tty.c, lisa/lisacons.c)\<close>

text \<open>
  The terminal task with the Lisa console behind it: the input queue and its line editing, reads and writes, the
  parameters, signals from the keyboard, and the console output, which goes to the screen and to the serial line.

  \<^item> The Lisa has one line, the console (\<open>NR_CONS\<close> = 1, \<open>NR_RS_LINES\<close> = 0), so \<open>tty_struct\<close> is one record, \<open>con\<close>. Another
    line number is outside of the array: \<open>Stuck\<close>. The entry points for RS232 lines are empty.
  \<^item> \<open>tty_driver_buf\<close> is the list of the characters collected, with their lines, and its limit; the count at its front is
    the length of the list.
  \<^item> \<open>send\<close> appends to \<open>sent_replies\<close>: the task waits until the message has been taken and does nothing else meanwhile.
  \<^item> \<open>serial\<close> are the bytes given to the serial chip; it takes every byte. \<open>tty_buf\<close>, through which a line goes on its way to the
    reader, is a list; its place in the memory of the kernel is nobody else's.
  \<^item> \<open>kern\<close> is the kernel: the memory of the reader and the writer, \<open>umap\<close> and \<open>cause_sig\<close>.
\<close>

subsection \<open>State\<close>

abbreviation (input) TTY_IN_BYTES :: nat where "TTY_IN_BYTES \<equiv> 1000"
abbreviation (input) TTY_BUF_SIZE :: nat where "TTY_BUF_SIZE \<equiv> 256"
abbreviation (input) MAX_OVERRUN :: nat where "MAX_OVERRUN \<equiv> 500"
abbreviation (input) THRESHOLD :: nat where "THRESHOLD \<equiv> 20"
abbreviation (input) RAW :: u16 where "RAW \<equiv> 0x20"
abbreviation (input) ECHO :: u16 where "ECHO \<equiv> 8"
abbreviation (input) CBREAK :: u16 where "CBREAK \<equiv> 2"
abbreviation (input) MARKER :: u8 where "MARKER \<equiv> 0x80"
abbreviation (input) BACKSLASH :: u8 where "BACKSLASH \<equiv> 92"
abbreviation (input) TTY_SUSPEND :: int where "TTY_SUSPEND \<equiv> -998"
abbreviation (input) TTY_BAD_ADDR :: int where "TTY_BAD_ADDR \<equiv> -10"
abbreviation (input) TTY_EINTR :: int where "TTY_EINTR \<equiv> -4"
abbreviation (input) TTY_EINVAL :: int where "TTY_EINVAL \<equiv> -22"
abbreviation (input) REVIVE :: int where "REVIVE \<equiv> 67"
abbreviation (input) TASK_REPLY :: int where "TASK_REPLY \<equiv> 68"
abbreviation (input) TTY_TASK :: int where "TTY_TASK \<equiv> -9"

datatype waiting = NOT_WAITING | WAITING | COMPLETED

record tty_struct =
  tty_inqueue :: "nat \<Rightarrow> u8"
  tty_inhead :: nat
  tty_intail :: nat
  tty_incount :: int
  tty_lfct :: int
  tty_ramqueue :: "nat \<Rightarrow> u8"
  tty_rwords :: u16
  tty_mode :: u16
  tty_speed :: u16
  tty_escaped :: bool
  tty_inhibited :: bool
  tty_waiting :: waiting
  tty_erase :: u8
  tty_kill :: u8
  tty_intr :: u8
  tty_quit :: u8
  tty_xon :: u8
  tty_xoff :: u8
  tty_eof :: u8
  tty_incaller :: int
  tty_inproc :: int
  tty_in_vir :: u32
  tty_inleft :: int
  tty_otcaller :: int
  tty_outproc :: int
  tty_out_vir :: u32
  tty_phys :: u32
  tty_outleft :: int
  tty_cum :: int
  tty_pgrp :: int

record tty_mess =
  r_dest :: int
  r_type :: int
  r_proc :: int
  r_status :: int
  r_flags :: u32
  r_spek :: u32

record tty_request =
  t_source :: int
  t_type :: int
  t_line :: int
  t_proc :: int
  t_count :: int
  t_spek :: u32
  t_flags :: u32
  t_addr :: u32

record terminal =
  con :: tty_struct
  drv_buf :: "(u8 \<times> int) list"
  drv_max :: nat
  flush_flag :: int
  output_done :: int
  vdu :: vduinfo
  serial :: "u8 list"
  sent_replies :: "tty_mess list"
  kern :: kernel

definition upd_con :: "(tty_struct \<Rightarrow> tty_struct) \<Rightarrow> terminal \<Rightarrow> terminal" where
  "upd_con f s = s\<lparr>con := f (con s)\<rparr>"

subsection \<open>The console (lisacons.c)\<close>

definition tty_reply :: "int \<Rightarrow> int \<Rightarrow> int \<Rightarrow> int \<Rightarrow> u32 \<Rightarrow> u32 \<Rightarrow> terminal \<Rightarrow> terminal" where
  "tty_reply code replyee proc_nr status extra other s =
     s\<lparr>sent_replies := sent_replies s @ [\<lparr>r_dest = replyee, r_type = code, r_proc = proc_nr, r_status = status, r_flags = extra, r_spek = other\<rparr>]\<rparr>"

definition finish :: "int \<Rightarrow> terminal \<Rightarrow> terminal" where
  "finish code s =
     (let p = tty_outproc (con s);
          s1 = (upd_con (\<lambda>x. x\<lparr>tty_rwords := 0, tty_outleft := 0\<rparr>) s)\<lparr>kern := upd_proc p (\<lambda>r. r\<lparr>p_physio := False\<rparr>) (kern s)\<rparr>
      in if tty_waiting (con s) = NOT_WAITING then s1
         else upd_con (\<lambda>x. x\<lparr>tty_waiting := NOT_WAITING\<rparr>) (tty_reply TASK_REPLY (tty_otcaller (con s)) p code 0 0 s1))"

definition out_char :: "u8 \<Rightarrow> terminal \<Rightarrow> terminal outcome" where
  "out_char c s =
     and_then (vdu_out (tty_mode (con s)) c (vdu s)) (\<lambda>v.
       Done (s\<lparr>vdu := v, serial := serial s @ (if c = 10 \<and> tty_mode (con s) AND CRMOD \<noteq> 0 then [13, c] else [c])\<rparr>))"

definition show_cursor :: "bool \<Rightarrow> terminal \<Rightarrow> terminal" where
  "show_cursor b s = s\<lparr>vdu := vducursor b (vdu s)\<rparr>"

fun flush_loop :: "nat \<Rightarrow> nat \<Rightarrow> terminal \<Rightarrow> terminal outcome" where
  "flush_loop 0 i s = Done s"
| "flush_loop (Suc n) i s =
     (if tty_inhibited (con s) then Done s
      else and_then (out_char (tty_ramqueue (con s) i) s) (\<lambda>s1.
        flush_loop n (Suc i) (upd_con (\<lambda>x. x\<lparr>tty_phys := tty_phys x + 1, tty_cum := tty_cum x + 1, tty_rwords := tty_rwords x - 1\<rparr>) s1)))"

definition flush :: "terminal \<Rightarrow> terminal outcome" where
  "flush s =
     (if tty_rwords (con s) = 0 then Done s
      else and_then (flush_loop (unat (tty_rwords (con s))) 0 s) (\<lambda>s1. Done (show_cursor True s1)))"

fun print_loop :: "nat \<Rightarrow> u32 \<Rightarrow> terminal \<Rightarrow> terminal outcome" where
  "print_loop 0 p s = Done s"
| "print_loop (Suc n) p s =
     (if tty_inhibited (con s) then Done s
      else and_then (out_char (ram (kern s) p) s) (\<lambda>s1. print_loop n (p + 1) (upd_con (\<lambda>x. x\<lparr>tty_outleft := tty_outleft x - 1\<rparr>) s1)))"

definition console :: "terminal \<Rightarrow> terminal outcome" where
  "console s =
     (let left = tty_outleft (con s)
      in and_then (print_loop (nat left) (tty_phys (con s)) (show_cursor False s)) (\<lambda>s1.
         and_then (flush (show_cursor True s1)) (\<lambda>s2.
           let count = left - tty_outleft (con s2);
               s3 = upd_con (\<lambda>x. x\<lparr>tty_phys := tty_phys x + word_of_int count, tty_cum := tty_cum x + count\<rparr>) s2
           in Done (if tty_outleft (con s3) = 0 then finish (tty_cum (con s3)) s3 else s3))))"

definition rs_flush :: "terminal \<Rightarrow> terminal outcome" where
  "rs_flush s =
     (let s1 = s\<lparr>flush_flag := 0\<rparr>
      in if drv_buf s1 = [] \<and> output_done s1 = 0 then Done s1
         else and_then (interrupt TTY_TASK (kern s1)) (\<lambda>k. Done (s1\<lparr>kern := k\<rparr>)))"

text \<open>\<open>dmp\<close> stands for the two debugging dumps, which print the process table on the console.\<close>

definition kbdput :: "(terminal \<Rightarrow> terminal outcome) \<Rightarrow> u8 \<Rightarrow> int \<Rightarrow> terminal \<Rightarrow> terminal outcome" where
  "kbdput dmp c line s =
     (if c = 0x14 then dmp s
      else if length (drv_buf s) \<ge> drv_max s then Done s
      else Done (s\<lparr>drv_buf := drv_buf s @ [(c, line)]\<rparr>))"

definition flush_input :: "terminal \<Rightarrow> terminal outcome" where
  "flush_input s = (if length (drv_buf s) < THRESHOLD then Done (s\<lparr>flush_flag := flush_flag s + 1\<rparr>) else rs_flush s)"

definition lisa_scc_int :: "(terminal \<Rightarrow> terminal outcome) \<Rightarrow> u8 list \<Rightarrow> terminal \<Rightarrow> terminal outcome" where
  "lisa_scc_int dmp received s = and_then (seq_all (\<lambda>c. kbdput dmp c 0) received s) flush_input"

definition tty_init :: "terminal \<Rightarrow> terminal" where
  "tty_init s =
     (upd_con (\<lambda>x. x\<lparr>tty_inhead := 0, tty_intail := 0, tty_mode := CRMOD OR XTABS OR ECHO, tty_erase := 8, tty_kill := 64, tty_intr := 0x7F,
        tty_quit := 0x1C, tty_xon := 0x11, tty_xoff := 0x13, tty_eof := 4\<rparr>) s)\<lparr>drv_max := MAX_OVERRUN, drv_buf := []\<rparr>"

subsection \<open>Input\<close>

definition echo :: "u8 \<Rightarrow> terminal \<Rightarrow> terminal outcome" where
  "echo c s =
     (if tty_mode (con s) AND ECHO = 0 then Done s
      else and_then
        (if c \<noteq> MARKER \<or> tty_mode (con s) AND (CBREAK OR RAW) \<noteq> 0
         then and_then (out_char c (show_cursor False s)) (\<lambda>s1. Done (show_cursor True s1)) else Done s)
        flush)"

definition wrap_in :: "nat \<Rightarrow> nat" where
  "wrap_in i = (if i = TTY_IN_BYTES then 0 else i)"

definition put_in :: "u8 \<Rightarrow> tty_struct \<Rightarrow> tty_struct" where
  "put_in ch x = x\<lparr>tty_inqueue := (tty_inqueue x)(tty_inhead x := ch), tty_inhead := wrap_in (tty_inhead x + 1), tty_incount := tty_incount x + 1\<rparr>"

definition chuck :: "tty_struct \<Rightarrow> tty_struct option" where
  "chuck x =
     (if tty_incount x = 0 then None
      else let prev = (if tty_inhead x \<noteq> 0 then tty_inhead x - 1 else TTY_IN_BYTES - 1)
           in if tty_inqueue x prev = 10 \<or> tty_inqueue x prev = 13 then None
              else Some (x\<lparr>tty_inhead := prev, tty_incount := tty_incount x - 1\<rparr>))"

fun chuck_all :: "nat \<Rightarrow> tty_struct \<Rightarrow> tty_struct outcome" where
  "chuck_all fuel x = (case chuck x of None \<Rightarrow> Done x | Some y \<Rightarrow> (case fuel of 0 \<Rightarrow> Stuck | Suc n \<Rightarrow> chuck_all n y))"

definition sigchar :: "int \<Rightarrow> terminal \<Rightarrow> terminal outcome" where
  "sigchar sig s =
     (let s1 = finish TTY_EINTR (upd_con (\<lambda>x. x\<lparr>tty_inhibited := False\<rparr>) s);
          s2 = upd_con (\<lambda>x. x\<lparr>tty_inhead := 0, tty_intail := 0, tty_incount := 0, tty_lfct := 0\<rparr>) s1
      in if tty_pgrp (con s2) \<noteq> 0 then and_then (cause_sig (tty_pgrp (con s2)) sig (kern s2)) (\<lambda>k. Done (s2\<lparr>kern := k\<rparr>)) else Done s2)"

text \<open>The end of \<open>in_char\<close>, common to all modes.\<close>

definition store_char :: "u8 \<Rightarrow> terminal \<Rightarrow> terminal outcome" where
  "store_char ch s =
     (let s1 = (if ch = 10 then upd_con (\<lambda>x. x\<lparr>tty_lfct := tty_lfct x + 1\<rparr>) s else s)
      in echo ch (upd_con (put_in ch) s1))"

text \<open>What \<open>COOKED\<close> and \<open>CBREAK\<close> mode do before: carriage returns, signals, stop and start.\<close>

definition check_char :: "u8 \<Rightarrow> terminal \<Rightarrow> terminal outcome" where
  "check_char ch0 s =
     (let x = con s; ch = (if ch0 = 13 \<and> tty_mode x AND CRMOD \<noteq> 0 then 10 else ch0)
      in if ch = tty_intr x \<or> ch = tty_quit x then sigchar (if ch = tty_intr x then 2 else 3) s
         else if ch = tty_xoff x then Done (upd_con (\<lambda>x. x\<lparr>tty_inhibited := True\<rparr>) s)
         else if tty_inhibited x then console (upd_con (\<lambda>x. x\<lparr>tty_inhibited := False\<rparr>) s)
         else store_char ch s)"

text \<open>Line editing: erase, kill, the escape symbol and the end of file.\<close>

definition edit_char :: "u8 \<Rightarrow> terminal \<Rightarrow> terminal outcome" where
  "edit_char ch s =
     (let x = con s
      in if ch = tty_erase x \<and> \<not> tty_escaped x
         then (case chuck x of
                 None \<Rightarrow> Done s
               | Some y \<Rightarrow> and_then (echo 8 (s\<lparr>con := y\<rparr>)) (\<lambda>s1. and_then (echo 32 s1) (echo 8)))
         else if ch = tty_kill x \<and> \<not> tty_escaped x
         then and_then (chuck_all (nat (tty_incount x)) x) (\<lambda>y. and_then (echo (tty_kill x) (s\<lparr>con := y\<rparr>)) (echo 10))
         else if \<not> tty_escaped x
         then if ch = BACKSLASH then echo ch (upd_con (\<lambda>x. x\<lparr>tty_escaped := True\<rparr>) s)
              else if ch = tty_eof x then check_char MARKER (upd_con (\<lambda>x. x\<lparr>tty_lfct := tty_lfct x + 1\<rparr>) s)
              else check_char ch s
         else let s1 = upd_con (\<lambda>x. x\<lparr>tty_escaped := False\<rparr>) s
              in check_char ch (if ch \<noteq> tty_erase x \<and> ch \<noteq> tty_kill x \<and> ch \<noteq> tty_eof x then upd_con (put_in BACKSLASH) s1 else s1))"

definition in_char :: "int \<Rightarrow> u8 \<Rightarrow> terminal \<Rightarrow> terminal outcome" where
  "in_char line ch0 s =
     (if line = -1 \<and> 1 \<le> ch0 \<and> ch0 \<le> 10 then Done s
      else if line \<noteq> 0 then Stuck
      else if tty_incount (con s) \<ge> int TTY_IN_BYTES then Done s
      else let mode = tty_mode (con s) AND (RAW OR CBREAK);
               ch = (if mode \<noteq> RAW then ch0 AND 0x7F else ch0)
           in if mode = 0 then edit_char ch s else if mode = CBREAK then check_char ch s else store_char ch s)"

subsection \<open>Reading\<close>

text \<open>The inner loop of \<open>rd_chars\<close>: at most \<open>n\<close> characters, in cooked mode to the end of a line.\<close>

fun fill_buf :: "nat \<Rightarrow> bool \<Rightarrow> tty_struct \<Rightarrow> u8 list \<times> bool \<times> bool \<times> tty_struct" where
  "fill_buf 0 cooked x = ([], False, False, x)"
| "fill_buf (Suc n) cooked x =
     (let ch = tty_inqueue x (tty_intail x); x1 = x\<lparr>tty_intail := wrap_in (tty_intail x + 1)\<rparr>
      in if ch = 10 \<or> ch = MARKER \<and> cooked
         then let x2 = x1\<lparr>tty_lfct := tty_lfct x1 - 1\<rparr>
              in if cooked then ([ch], True, ch = MARKER, x2)
                 else let (cs, e, m, y) = fill_buf n cooked x2 in (ch # cs, True, ch = MARKER \<or> m, y)
         else let (cs, e, m, y) = fill_buf n cooked x1 in (ch # cs, e, m, y))"

definition store_bytes :: "u32 \<Rightarrow> u8 list \<Rightarrow> (u32 \<Rightarrow> u8) \<Rightarrow> u32 \<Rightarrow> u8" where
  "store_bytes a bs m = (\<lambda>k. if unat (k - a) < length bs then bs ! unat (k - a) else m k)"

fun rd_loop :: "nat \<Rightarrow> bool \<Rightarrow> u32 \<Rightarrow> int \<Rightarrow> terminal \<Rightarrow> (int \<times> terminal) outcome" where
  "rd_loop fuel cooked user_phys cum s =
     (if tty_inleft (con s) \<le> 0 then Done (cum, s)
      else case fuel of
        0 \<Rightarrow> Stuck
      | Suc n \<Rightarrow>
          let buf_ct = min (min (tty_inleft (con s)) (tty_incount (con s))) (int TTY_BUF_SIZE);
              (tty_buf, enough, eot_seen, x) = fill_buf (nat buf_ct) cooked (con s);
              ct = int (length tty_buf);
              user = (if eot_seen then take (length tty_buf - 1) tty_buf else tty_buf);
              s1 = s\<lparr>con := x\<lparr>tty_inleft := tty_inleft x - ct, tty_incount := tty_incount x - ct\<rparr>,
                     kern := (kern s)\<lparr>ram := store_bytes user_phys user (ram (kern s))\<rparr>\<rparr>
          in if tty_incount (con s1) = 0 \<or> enough then Done (cum + int (length user), s1)
             else rd_loop n cooked (user_phys + of_nat (length user)) (cum + int (length user)) s1)"

definition rd_chars :: "terminal \<Rightarrow> (int \<times> terminal) outcome" where
  "rd_chars s =
     (let x = con s; cooked = (tty_mode x AND (RAW OR CBREAK) = 0)
      in if tty_incount x = 0 \<or> cooked \<and> tty_lfct x = 0 then Done (TTY_SUSPEND, s)
         else let user_phys = umap (proc_tab (kern s) (tty_inproc x)) Seg_D (tty_in_vir x) (word_of_int (tty_inleft x))
              in if user_phys = 0 then Done (TTY_BAD_ADDR, s)
                 else and_then (rd_loop (nat (tty_inleft x)) cooked user_phys 0 s) (\<lambda>(cum, s1).
                   Done (cum, upd_con (\<lambda>x. x\<lparr>tty_inleft := 0\<rparr>) s1)))"

definition serve_reader :: "terminal \<Rightarrow> terminal outcome" where
  "serve_reader s =
     (let x = con s
      in if tty_inleft x > 0 \<and> (tty_lfct x > 0 \<or> tty_mode x AND (CBREAK OR RAW) \<noteq> 0 \<and> tty_incount x > 0)
         then and_then (rd_chars s) (\<lambda>(m, s1). Done (tty_reply REVIVE (tty_incaller (con s1)) (tty_inproc (con s1)) m 0 0 s1))
         else Done s)"

definition charint :: "terminal \<Rightarrow> terminal outcome" where
  "charint s = seq_all (\<lambda>(ch, n) s. and_then (in_char n ch s) (\<lambda>s1. if n \<noteq> 0 then Stuck else serve_reader s1)) (drv_buf s) (s\<lparr>drv_buf := []\<rparr>)"

text \<open>No RS232 line ever completes on the Lisa (\<open>tty_o_done\<close> returns 0), so an interrupt means characters.\<close>

definition do_int :: "terminal \<Rightarrow> terminal outcome" where
  "do_int s = charint s"

definition tty_do_read :: "tty_request \<Rightarrow> terminal \<Rightarrow> terminal outcome" where
  "tty_do_read m s =
     (if tty_inleft (con s) > 0 then Done (tty_reply TASK_REPLY (t_source m) (t_proc m) EIO 0 0 s)
      else and_then
        (rd_chars (upd_con (\<lambda>x. x\<lparr>tty_incaller := t_source m, tty_inproc := t_proc m, tty_in_vir := t_addr m, tty_inleft := t_count m\<rparr>) s))
        (\<lambda>(code, s1). Done (tty_reply TASK_REPLY (t_source m) (tty_inproc (con s1)) code 0 0 s1)))"

subsection \<open>Writing, parameters, cancelling\<close>

definition tty_do_write :: "tty_request \<Rightarrow> terminal \<Rightarrow> terminal outcome" where
  "tty_do_write m s =
     (if tty_outleft (con s) > 0 then Done (tty_reply TASK_REPLY (t_source m) (t_proc m) EIO 0 0 s)
      else
        let phys = umap (proc_tab (kern s) (t_proc m)) Seg_D (t_addr m) (word_of_int (t_count m));
            s1 = upd_con (\<lambda>x. x\<lparr>tty_otcaller := t_source m, tty_outproc := t_proc m, tty_out_vir := t_addr m,
                   tty_outleft := (if phys = 0 then 0 else t_count m), tty_waiting := WAITING,
                   tty_cum := (if phys = 0 then TTY_BAD_ADDR else 0), tty_phys := phys\<rparr>) s;
            s2 = s1\<lparr>kern := upd_proc (t_proc m) (\<lambda>r. r\<lparr>p_physio := True\<rparr>) (kern s1)\<rparr>
        in and_then (console s2) (\<lambda>s3.
             Done (if t_line m \<noteq> 0 then tty_reply TASK_REPLY (tty_otcaller (con s3)) (tty_outproc (con s3)) TTY_SUSPEND 0 0 s3 else s3)))"

definition byte_of :: "nat \<Rightarrow> u32 \<Rightarrow> u8" where
  "byte_of n w = ucast (drop_bit n w)"

definition tty_do_ioctl :: "tty_request \<Rightarrow> terminal \<Rightarrow> terminal" where
  "tty_do_ioctl m s =
     (let x = con s; answer = (\<lambda>r flags erki. tty_reply TASK_REPLY (t_source m) (t_proc m) r flags erki)
      in if t_count m = 0x7409 then
           let speed = (ucast (drop_bit 16 (t_spek m)) :: u16)
           in answer OK 0 0 (upd_con (\<lambda>x. x\<lparr>tty_erase := byte_of 8 (t_spek m), tty_kill := byte_of 0 (t_spek m), tty_mode := ucast (t_flags m),
                tty_speed := (if speed \<noteq> 0 then speed else tty_speed x)\<rparr>) s)
         else if t_count m = 0x7411 then
           answer OK 0 0 (upd_con (\<lambda>x. x\<lparr>tty_intr := byte_of 24 (t_spek m), tty_quit := byte_of 16 (t_spek m), tty_xon := byte_of 8 (t_spek m),
             tty_xoff := byte_of 0 (t_spek m), tty_eof := byte_of 8 (t_flags m)\<rparr>) s)
         else if t_count m = 0x7408 then
           answer OK (scast (tty_mode x)) (push_bit 16 (scast (tty_speed x)) OR push_bit 8 (ucast (tty_erase x)) OR ucast (tty_kill x)) s
         else if t_count m = 0x7412 then
           answer OK (push_bit 8 (ucast (tty_eof x)))
             (push_bit 24 (ucast (tty_intr x)) OR push_bit 16 (ucast (tty_quit x)) OR push_bit 8 (ucast (tty_xon x)) OR ucast (tty_xoff x)) s
         else if t_count m = 0x7410 then answer OK 0 0 (s\<lparr>drv_buf := []\<rparr>)
         else answer TTY_EINVAL 0 0 s)"

definition tty_do_setpgrp :: "tty_request \<Rightarrow> terminal \<Rightarrow> terminal" where
  "tty_do_setpgrp m s = tty_reply TASK_REPLY (t_source m) (t_proc m) OK 0 0 (upd_con (\<lambda>x. x\<lparr>tty_pgrp := t_count m\<rparr>) s)"

definition do_cancel :: "tty_request \<Rightarrow> terminal \<Rightarrow> terminal" where
  "do_cancel m s =
     (if tty_inleft (con s) = 0 \<and> tty_outleft (con s) = 0 then s
      else let mode = (word_of_int (t_count m) :: u16);
               s1 = (if mode AND 4 \<noteq> 0 then upd_con (\<lambda>x. x\<lparr>tty_inhead := 0, tty_intail := 0, tty_incount := 0, tty_lfct := 0, tty_inleft := 0, tty_inhibited := False\<rparr>) s else s);
               s2 = (if mode AND 2 \<noteq> 0 then upd_con (\<lambda>x. x\<lparr>tty_outleft := 0, tty_waiting := NOT_WAITING\<rparr>) s1 else s1)
           in tty_reply TASK_REPLY (t_source m) (t_proc m) TTY_EINTR 0 0 s2)"

text \<open>One turn of the main loop; only an interrupt does not look at the line.\<close>

definition tty_turn :: "tty_request \<Rightarrow> terminal \<Rightarrow> terminal outcome" where
  "tty_turn m s =
     (if t_type m = 2 then do_int s
      else if t_type m \<notin> {3, 4, 5, 6, 0} then Done (tty_reply TASK_REPLY (t_source m) (t_proc m) TTY_EINVAL 0 0 s)
      else if t_line m \<noteq> 0 then Stuck
      else if t_type m = 3 then tty_do_read m s
      else if t_type m = 4 then tty_do_write m s
      else if t_type m = 5 then Done (tty_do_ioctl m s)
      else if t_type m = 6 then Done (tty_do_setpgrp m s)
      else Done (do_cancel m s))"

declare chuck_all.simps [simp del] rd_loop.simps [simp del]

subsection \<open>The input queue\<close>

text \<open>
  \<open>inq\<close> is the list of the characters in the ring. The count may be 1001, one more than the ring holds: \<open>in_char\<close> looks for room
  for one character, but stores two when the first is a backslash that it had held back.
\<close>

definition ring_ok :: "tty_struct \<Rightarrow> bool" where
  "ring_ok x \<longleftrightarrow> tty_intail x < TTY_IN_BYTES \<and> 0 \<le> tty_incount x \<and> tty_incount x \<le> 1001 \<and>
     tty_inhead x = (tty_intail x + nat (tty_incount x)) mod TTY_IN_BYTES"

definition inq :: "tty_struct \<Rightarrow> u8 list" where
  "inq x = map (\<lambda>i. tty_inqueue x ((tty_intail x + i) mod TTY_IN_BYTES)) [0..<nat (tty_incount x)]"

definition in_frame :: "tty_struct \<Rightarrow> tty_struct" where
  "in_frame x = x\<lparr>tty_inqueue := (\<lambda>_. 0), tty_inhead := 0, tty_intail := 0, tty_incount := 0\<rparr>"

lemma length_inq [simp]: "length (inq x) = nat (tty_incount x)"
  by (simp add: inq_def)

lemma wrap_in_mod: "i < TTY_IN_BYTES \<Longrightarrow> wrap_in (i + 1) = (i + 1) mod TTY_IN_BYTES"
  by (simp add: wrap_in_def mod_Suc)

lemma put_in_appends:
  assumes "ring_ok x" and "tty_incount x < int TTY_IN_BYTES"
  shows "ring_ok (put_in c x)" and "inq (put_in c x) = inq x @ [c]" and "in_frame (put_in c x) = in_frame x"
proof -
  obtain n where n: "tty_incount x = int n" "n < TTY_IN_BYTES" using assms by (metis ring_ok_def nonneg_int_cases of_nat_less_iff)
  have h: "tty_inhead x = (tty_intail x + n) mod TTY_IN_BYTES" "tty_intail x < TTY_IN_BYTES" using assms(1) n by (simp_all add: ring_ok_def)
  have w: "wrap_in (tty_inhead x + 1) = (tty_intail x + (n + 1)) mod TTY_IN_BYTES" using wrap_in_mod [of "tty_inhead x"] h(1) by (simp add: mod_Suc_eq)
  have s: "nat (int n + 1) = Suc n" by simp
  show "ring_ok (put_in c x)" using w h n by (simp add: ring_ok_def put_in_def s)
  have "(tty_intail x + i) mod TTY_IN_BYTES \<noteq> tty_inhead x" if "i < n" for i
  proof
    assume "(tty_intail x + i) mod TTY_IN_BYTES = tty_inhead x"
    then have "(tty_intail x + n) mod TTY_IN_BYTES = (tty_intail x + i) mod TTY_IN_BYTES" using h(1) by simp
    then have "TTY_IN_BYTES dvd (tty_intail x + n) - (tty_intail x + i)" using that by (simp add: mod_eq_dvd_iff_nat)
    then have "TTY_IN_BYTES dvd n - i" by simp
    then show False using that n(2) by (auto dest: dvd_imp_le)
  qed
  then show "inq (put_in c x) = inq x @ [c]" using n h by (simp add: inq_def put_in_def s)
  show "in_frame (put_in c x) = in_frame x" by (simp add: in_frame_def put_in_def)
qed

lemma chuck_last:
  assumes "ring_ok x"
  shows "inq x \<noteq> [] \<Longrightarrow> \<not> (last (inq x) = 10 \<or> last (inq x) = 13) \<Longrightarrow> \<exists>y. chuck x = Some y \<and> ring_ok y \<and> inq y = butlast (inq x) \<and> in_frame y = in_frame x"
    and "inq x = [] \<or> last (inq x) = 10 \<or> last (inq x) = 13 \<Longrightarrow> chuck x = None"
proof -
  obtain n where n: "tty_incount x = int n" "n \<le> 1001" using assms by (metis ring_ok_def nonneg_int_cases of_nat_le_iff of_nat_numeral)
  have h: "tty_inhead x = (tty_intail x + n) mod TTY_IN_BYTES" "tty_intail x < TTY_IN_BYTES" using assms(1) n by (simp_all add: ring_ok_def)
  have e: "inq x = [] \<longleftrightarrow> n = 0" using length_inq [of x] n by (cases "inq x") auto
  define prev where "prev = (if tty_inhead x \<noteq> 0 then tty_inhead x - 1 else TTY_IN_BYTES - 1)"
  have p: "prev = (tty_intail x + (n - 1)) mod TTY_IN_BYTES" if "n \<noteq> 0"
  proof -
    have "(tty_intail x + (n - 1) + 1) mod TTY_IN_BYTES = tty_inhead x" using h(1) that by simp
    then have "tty_inhead x = (if (tty_intail x + (n - 1)) mod TTY_IN_BYTES = 999 then 0 else (tty_intail x + (n - 1)) mod TTY_IN_BYTES + 1)"
      by (auto simp: mod_Suc)
    then show ?thesis by (auto simp: prev_def split: if_splits)
  qed
  have l: "last (inq x) = tty_inqueue x prev" if "n \<noteq> 0" using that p n by (simp add: inq_def last_conv_nth)
  have c: "chuck x = (if n = 0 then None else if tty_inqueue x prev = 10 \<or> tty_inqueue x prev = 13 then None
      else Some (x\<lparr>tty_inhead := prev, tty_incount := int n - 1\<rparr>))" using n by (simp add: chuck_def Let_def prev_def)
  show "chuck x = None" if "inq x = [] \<or> last (inq x) = 10 \<or> last (inq x) = 13" using that c e l by auto
  assume a: "inq x \<noteq> []" "\<not> (last (inq x) = 10 \<or> last (inq x) = 13)"
  then obtain m where m: "n = Suc m" using e by (cases n) auto
  let ?y = "x\<lparr>tty_inhead := prev, tty_incount := int n - 1\<rparr>"
  have "ring_ok ?y" using p h n m by (simp add: ring_ok_def)
  moreover have "inq ?y = butlast (inq x)" using n(1) m by (simp add: inq_def butlast_append nat_add_distrib)
  ultimately show "\<exists>y. chuck x = Some y \<and> ring_ok y \<and> inq y = butlast (inq x) \<and> in_frame y = in_frame x"
    using c e l a by (simp add: in_frame_def)
qed

text \<open>
  What the line editing needs of the queue: characters go in at its end and come out again there, but not beyond the end
  of a line. \<open>unfinished\<close> is what a kill character removes.
\<close>

definition finished :: "('a \<Rightarrow> bool) \<Rightarrow> 'a list \<Rightarrow> 'a list" where
  "finished ends xs = rev (dropWhile (\<lambda>a. \<not> ends a) (rev xs))"

locale line_queue =
  fixes ok :: "'q \<Rightarrow> bool" and contents :: "'q \<Rightarrow> 'a list" and frame :: "'q \<Rightarrow> 'f" and ends :: "'a \<Rightarrow> bool"
    and put :: "'a \<Rightarrow> 'q \<Rightarrow> 'q" and room :: "'q \<Rightarrow> bool" and unput :: "'q \<Rightarrow> 'q option" and unput_all :: "nat \<Rightarrow> 'q \<Rightarrow> 'q outcome"
  assumes put_end: "ok q \<Longrightarrow> room q \<Longrightarrow> ok (put a q) \<and> contents (put a q) = contents q @ [a] \<and> frame (put a q) = frame q"
    and unput_end: "ok q \<Longrightarrow> contents q \<noteq> [] \<Longrightarrow> \<not> ends (last (contents q)) \<Longrightarrow>
      \<exists>r. unput q = Some r \<and> ok r \<and> contents r = butlast (contents q) \<and> frame r = frame q"
    and unput_stops: "ok q \<Longrightarrow> contents q = [] \<or> ends (last (contents q)) \<Longrightarrow> unput q = None"
    and unput_all_rec: "unput_all n q = (case unput q of None \<Rightarrow> Done q | Some r \<Rightarrow> (case n of 0 \<Rightarrow> Stuck | Suc m \<Rightarrow> unput_all m r))"
begin

lemma put_unput: "ok q \<Longrightarrow> room q \<Longrightarrow> \<not> ends a \<Longrightarrow> \<exists>r. unput (put a q) = Some r \<and> ok r \<and> contents r = contents q \<and> frame r = frame q"
  using put_end [of q a] unput_end [of "put a q"] by auto

lemma kill_line: "ok q \<Longrightarrow> length (contents q) \<le> n \<Longrightarrow> \<exists>r. unput_all n q = Done r \<and> ok r \<and> contents r = finished ends (contents q) \<and> frame r = frame q"
proof (induction n arbitrary: q)
  case 0
  then show ?case using unput_stops [of q] unput_all_rec [of 0 q] by (simp add: finished_def)
next
  case (Suc n)
  show ?case
  proof (cases "contents q = [] \<or> ends (last (contents q))")
    case True
    then have "finished ends (contents q) = contents q" by (cases "contents q" rule: rev_cases) (auto simp: finished_def)
    then show ?thesis using True Suc.prems unput_stops [of q] unput_all_rec [of "Suc n" q] by simp
  next
    case False
    then obtain r where r: "unput q = Some r" "ok r" "contents r = butlast (contents q)" "frame r = frame q" using unput_end [of q] Suc.prems by blast
    have "finished ends (butlast (contents q)) = finished ends (contents q)"
      using False by (cases "contents q" rule: rev_cases) (auto simp: finished_def)
    then show ?thesis using Suc.IH [of r] Suc.prems r unput_all_rec [of "Suc n" q] by auto
  qed
qed

end

interpretation line: line_queue ring_ok inq in_frame "\<lambda>c. c = 10 \<or> c = 13" put_in "\<lambda>x. tty_incount x < int TTY_IN_BYTES" chuck chuck_all
proof
  show "chuck_all n q = (case chuck q of None \<Rightarrow> Done q | Some r \<Rightarrow> (case n of 0 \<Rightarrow> Stuck | Suc m \<Rightarrow> chuck_all m r))" for n q
    by (rule chuck_all.simps)
qed (use put_in_appends chuck_last in auto)

subsection \<open>Taking characters out\<close>

definition line_end :: "u8 \<Rightarrow> bool" where
  "line_end c \<longleftrightarrow> c = 10 \<or> c = MARKER"

text \<open>The queue with its first \<open>n\<close> characters taken out, \<open>k\<close> of them ends of lines.\<close>

definition advance_in :: "nat \<Rightarrow> int \<Rightarrow> tty_struct \<Rightarrow> tty_struct" where
  "advance_in n k x = x\<lparr>tty_intail := (tty_intail x + n) mod TTY_IN_BYTES, tty_lfct := tty_lfct x - k\<rparr>"

lemma fill_buf_line:
  assumes "tty_intail x < TTY_IN_BYTES" and "\<forall>i < n. i < length l \<longrightarrow> tty_inqueue x ((tty_intail x + i) mod TTY_IN_BYTES) = l ! i"
    and "\<forall>c \<in> set l. \<not> line_end c" and "n > length l \<Longrightarrow> tty_inqueue x ((tty_intail x + length l) mod TTY_IN_BYTES) = e \<and> line_end e"
  shows "fill_buf n True x = (if n \<le> length l then (take n l, False, False, advance_in n 0 x)
    else (l @ [e], True, e = MARKER, advance_in (length l + 1) 1 x))"
  using assms
proof (induction n arbitrary: x l)
  case 0
  then show ?case by (simp add: advance_in_def)
next
  case (Suc n)
  let ?x = "x\<lparr>tty_intail := wrap_in (tty_intail x + 1)\<rparr>"
  have w: "wrap_in (tty_intail x + 1) = (tty_intail x + 1) mod TTY_IN_BYTES" using Suc.prems(1) by (rule wrap_in_mod)
  have t: "tty_intail x mod TTY_IN_BYTES = tty_intail x" using Suc.prems(1) by simp
  show ?case
  proof (cases l)
    case Nil
    then have e: "tty_inqueue x (tty_intail x) = e" "e = 10 \<or> e = MARKER" using Suc.prems(4) t by (auto simp: line_end_def)
    then show ?thesis using Nil w by (auto simp: advance_in_def Let_def)
  next
    case (Cons c l')
    have c: "tty_inqueue x (tty_intail x) = c" "\<not> (c = 10 \<or> c = MARKER)" using Suc.prems(2) [rule_format, of 0] Suc.prems(3) t Cons by (auto simp: line_end_def)
    have i: "(tty_intail ?x + i) mod TTY_IN_BYTES = (tty_intail x + Suc i) mod TTY_IN_BYTES" for i using w by (simp add: mod_simps)
    have "fill_buf n True ?x = (if n \<le> length l' then (take n l', False, False, advance_in n 0 ?x)
        else (l' @ [e], True, e = MARKER, advance_in (length l' + 1) 1 ?x))"
    proof (rule Suc.IH)
      show "tty_intail ?x < TTY_IN_BYTES" using w by simp
      show "\<forall>i < n. i < length l' \<longrightarrow> tty_inqueue ?x ((tty_intail ?x + i) mod TTY_IN_BYTES) = l' ! i"
        using Suc.prems(2) Cons unfolding i by (auto dest: spec [of _ "Suc _"])
      show "\<forall>c \<in> set l'. \<not> line_end c" using Suc.prems(3) Cons by simp
      show "tty_inqueue ?x ((tty_intail ?x + length l') mod TTY_IN_BYTES) = e \<and> line_end e" if "length l' < n" using that Suc.prems(4) Cons unfolding i by simp
    qed
    moreover have "advance_in m k ?x = advance_in (Suc m) k x" for m k using i [of m] by (simp add: advance_in_def)
    ultimately show ?thesis using c Cons by (simp add: Let_def)
  qed
qed

lemma store_bytes_append:
  assumes "length xs + length ys < 2 ^ 32"
  shows "store_bytes (a + of_nat (length xs)) ys (store_bytes a xs m) = store_bytes a (xs @ ys) m"
proof
  fix k :: u32
  define d where "d = k - a"
  have k: "k - (a + of_nat (length xs)) = d - of_nat (length xs)" by (simp add: d_def)
  have x: "unat (of_nat (length xs) :: u32) = length xs" using assms by (simp add: unat_of_nat)
  show "store_bytes (a + of_nat (length xs)) ys (store_bytes a xs m) k = store_bytes a (xs @ ys) m k"
  proof (cases "unat d < length xs")
    case True
    then have "d < of_nat (length xs)" using x by (simp add: word_less_nat_alt)
    then have "unat (d - of_nat (length xs)) = 2 ^ 32 - length xs + unat d" using x unat_sub_if' [of d "of_nat (length xs)"] True assms by simp
    then have "\<not> unat (d - of_nat (length xs)) < length ys" using assms by simp
    then show ?thesis using True by (simp add: store_bytes_def k d_def [symmetric] nth_append)
  next
    case False
    then have "unat (d - of_nat (length xs)) = unat d - length xs" using x by (simp add: unat_sub word_le_nat_alt)
    then show ?thesis using False by (auto simp: store_bytes_def k d_def [symmetric] nth_append)
  qed
qed

lemma store_bytes_Nil [simp]: "store_bytes a [] m = m"
  by (simp add: store_bytes_def)

text \<open>\<open>taken n k a U s\<close>: \<open>n\<close> characters are out of the queue, \<open>k\<close> of them ends of lines, and the bytes \<open>U\<close> are in memory at \<open>a\<close>.\<close>

definition taken :: "nat \<Rightarrow> int \<Rightarrow> u32 \<Rightarrow> u8 list \<Rightarrow> terminal \<Rightarrow> terminal" where
  "taken n k a U s = s\<lparr>con := (advance_in n k (con s))\<lparr>tty_inleft := tty_inleft (con s) - int n, tty_incount := tty_incount (con s) - int n\<rparr>,
     kern := (kern s)\<lparr>ram := store_bytes a U (ram (kern s))\<rparr>\<rparr>"

lemma taken_queue:
  assumes "ring_ok (con s)" and "int n \<le> tty_incount (con s)"
  shows "ring_ok (con (taken n k a U s))" and "inq (con (taken n k a U s)) = drop n (inq (con s))"
    and "tty_inleft (con (taken n k a U s)) = tty_inleft (con s) - int n" and "tty_incount (con (taken n k a U s)) = tty_incount (con s) - int n"
proof -
  obtain m where m: "tty_incount (con s) = int m" "n \<le> m" "m \<le> 1001" using assms by (metis ring_ok_def nonneg_int_cases of_nat_le_iff of_nat_numeral)
  have i: "((tty_intail (con s) + n) mod TTY_IN_BYTES + i) mod TTY_IN_BYTES = (tty_intail (con s) + (n + i)) mod TTY_IN_BYTES" for i by (simp add: mod_simps add.assoc)
  show "ring_ok (con (taken n k a U s))" using assms m i [of "m - n"] by (simp add: ring_ok_def taken_def advance_in_def nat_diff_distrib')
  show "inq (con (taken n k a U s)) = drop n (inq (con s))"
    using m by (intro nth_equalityI) (auto simp: inq_def taken_def advance_in_def i nat_diff_distrib')
qed (simp_all add: taken_def advance_in_def)

lemma taken_taken:
  assumes "length U + length V < 2 ^ 32"
  shows "taken n k (a + of_nat (length U)) V (taken m j a U s) = taken (m + n) (j + k) a (U @ V) s"
  using store_bytes_append [OF assms] by (simp add: taken_def advance_in_def mod_simps add.assoc diff_diff_eq)

lemma taken_0 [simp]: "ring_ok (con s) \<Longrightarrow> taken 0 0 a [] s = s"
  by (simp add: taken_def advance_in_def ring_ok_def)

lemma inq_nth: "i < nat (tty_incount x) \<Longrightarrow> tty_inqueue x ((tty_intail x + i) mod TTY_IN_BYTES) = inq x ! i"
  by (simp add: inq_def)

lemma rd_loop_line:
  assumes "ring_ok (con s)" and "inq (con s) = l @ e # r" and "\<forall>c \<in> set l. \<not> line_end c" and "line_end e"
    and "tty_inleft (con s) = int n" and "n \<le> fuel"
  shows "rd_loop fuel True a cum s =
    (if n \<le> length l then Done (cum + int n, taken n 0 a (take n l) s)
     else let U = (if e = MARKER then l else l @ [e]) in Done (cum + int (length U), taken (length l + 1) 1 a U s))"
  using assms
proof (induction fuel arbitrary: s l n a cum)
  case 0
  then show ?case by (simp add: rd_loop.simps [of 0])
next
  case (Suc fuel)
  note unfold = rd_loop.simps [of "Suc fuel"]
  have c: "tty_incount (con s) = int (length l + 1 + length r)" using Suc.prems(1,2) length_inq [of "con s"] by (simp add: ring_ok_def)
  have t: "tty_intail (con s) < TTY_IN_BYTES" using Suc.prems(1) by (simp add: ring_ok_def)
  show ?case
  proof (cases "n = 0")
    case True
    then show ?thesis using Suc.prems by (simp add: unfold)
  next
    case n: False
    define b where "b = min (min n (length l + 1 + length r)) TTY_BUF_SIZE"
    have ct: "nat (min (min (tty_inleft (con s)) (tty_incount (con s))) (int TTY_BUF_SIZE)) = b" using Suc.prems(5) c by (simp add: b_def)
    have b0: "0 < b" "b \<le> n" using n by (auto simp: b_def)
    have fb: "fill_buf b True (con s) = (if b \<le> length l then (take b l, False, False, advance_in b 0 (con s))
        else (l @ [e], True, e = MARKER, advance_in (length l + 1) 1 (con s)))"
      using t Suc.prems(3,4) inq_nth [of _ "con s"] c Suc.prems(2) by (intro fill_buf_line) (auto simp: nth_append)
    show ?thesis
    proof (cases "b \<le> length l")
      case True
      let ?s = "taken b 0 a (take b l) s"
      have bl: "int b \<le> tty_incount (con s)" using True c by simp
      note q = taken_queue [OF Suc.prems(1) bl, of 0 a "take b l"]
      have len: "length (take b l) = b" "length l \<le> 1001" using True c Suc.prems(1) by (simp_all add: ring_ok_def)
      have "rd_loop (Suc fuel) True a cum s = rd_loop fuel True (a + of_nat b) (cum + int b) ?s"
        using ct fb True Suc.prems(5) n c len by (simp add: unfold Let_def taken_def advance_in_def)
      also have "\<dots> = (if n - b \<le> length (drop b l) then Done (cum + int b + int (n - b), taken (n - b) 0 (a + of_nat b) (take (n - b) (drop b l)) ?s)
          else let U = (if e = MARKER then drop b l else drop b l @ [e])
            in Done (cum + int b + int (length U), taken (length (drop b l) + 1) 1 (a + of_nat b) U ?s))"
        using q Suc.prems True b0 by (intro Suc.IH) (auto dest: in_set_dropD)
      finally show ?thesis
        using taken_taken [of "take b l" "take (n - b) (drop b l)" "n - b" 0 a b 0 s] taken_taken [of "take b l" "drop b l" "length l - b + 1" 1 a b 0 s]
          taken_taken [of "take b l" "drop b l @ [e]" "length l - b + 1" 1 a b 0 s] len True b0
        by (auto simp: Let_def min_def take_add [symmetric] le_diff_conv2 simp flip: append_assoc)
    next
      case False
      then have "n > length l" using b0 by simp
      then show ?thesis using ct fb False Suc.prems(5) n c by (simp add: unfold Let_def taken_def advance_in_def)
    qed
  qed
qed

lemma rd_chars_line:
  assumes "ring_ok (con s)" and "inq (con s) = l @ e # r" and "\<forall>c \<in> set l. \<not> line_end c" and "line_end e"
    and "tty_mode (con s) AND (RAW OR CBREAK) = 0" and "tty_lfct (con s) \<noteq> 0" and "tty_inleft (con s) = int n"
    and "a = umap (proc_tab (kern s) (tty_inproc (con s))) Seg_D (tty_in_vir (con s)) (word_of_int (int n))" and "a \<noteq> 0"
  shows "rd_chars s = (let U = (if n \<le> length l then take n l else if e = MARKER then l else l @ [e])
    in Done (int (length U), upd_con (\<lambda>x. x\<lparr>tty_inleft := 0\<rparr>) (taken (min n (length l + 1)) (if n \<le> length l then 0 else 1) a U s)))"
proof -
  have "tty_incount (con s) \<noteq> 0" using assms(2) length_inq [of "con s"] by auto
  moreover have "min n (length l + 1) = (if n \<le> length l then n else length l + 1)" by simp
  ultimately show ?thesis using rd_loop_line [OF assms(1-4,7) order_refl, of a 0] assms by (auto simp: rd_chars_def Let_def)
qed

subsection \<open>Typing a line\<close>

text \<open>The screen is in order and nothing is left in the output queue.\<close>

definition shown :: "terminal \<Rightarrow> bool" where
  "shown s \<longleftrightarrow> (\<exists>T. displays (vdu s) T) \<and> tty_rwords (con s) = 0"

lemma echo_text:
  assumes "shown s" and "text_byte c"
  shows "\<exists>v b T. echo c s = Done (s\<lparr>vdu := v, serial := b\<rparr>) \<and> displays v T"
proof -
  obtain T where T: "displays (vdu s) T" "tty_rwords (con s) = 0" using assms(1) by (auto simp: shown_def)
  have m: "c \<noteq> MARKER" using assms(2) by (auto simp: text_byte_def)
  have "displays (vducursor False (vdu s)) T" using displays_hidden [OF T(1)] by simp
  then obtain v where v: "vdu_out (tty_mode (con s)) c (vducursor False (vdu s)) = Done v" "displays v (term_out (tty_mode (con s) AND CRMOD \<noteq> 0) c T)"
    using vdu_out_text [of _ T c "tty_mode (con s)"] assms(2) by blast
  show ?thesis
  proof (cases "tty_mode (con s) AND ECHO = 0")
    case True
    then have "echo c s = Done (s\<lparr>vdu := vdu s, serial := serial s\<rparr>)" by (simp add: echo_def)
    then show ?thesis using T(1) by blast
  next
    case False
    let ?b = "serial s @ (if c = 10 \<and> tty_mode (con s) AND CRMOD \<noteq> 0 then [13, c] else [c])"
    have "echo c s = Done (s\<lparr>vdu := vducursor True v, serial := ?b\<rparr>)"
      using False v m T(2) by (simp add: echo_def out_char_def show_cursor_def flush_def)
    then show ?thesis using displays_cursor [OF v(2), of True] by blast
  qed
qed

definition plain :: "tty_struct \<Rightarrow> u8 \<Rightarrow> bool" where
  "plain x c \<longleftrightarrow> 32 \<le> c \<and> c < 127 \<and> c \<noteq> tty_intr x \<and> c \<noteq> tty_quit x \<and> c \<noteq> tty_xoff x \<and> c \<noteq> tty_eof x \<and> c \<noteq> BACKSLASH"

definition editable :: "tty_struct \<Rightarrow> u8 \<Rightarrow> bool" where
  "editable x c \<longleftrightarrow> c = tty_erase x \<or> c = tty_kill x \<or> plain x c"

text \<open>The terminal is in cooked mode, its special characters are sensible, and output is not stopped.\<close>

definition cooked_console :: "tty_struct \<Rightarrow> bool" where
  "cooked_console x \<longleftrightarrow> tty_mode x AND (RAW OR CBREAK) = 0 \<and> \<not> tty_escaped x \<and> \<not> tty_inhibited x \<and> tty_erase x < 0x80 \<and>
     text_byte (tty_kill x) \<and> 10 \<notin> {tty_erase x, tty_kill x, tty_intr x, tty_quit x, tty_xoff x, tty_eof x}"

text \<open>The reference: what a typed character does to the line.\<close>

definition edit :: "tty_struct \<Rightarrow> u8 list \<Rightarrow> u8 \<Rightarrow> u8 list" where
  "edit x q c =
     (if c = tty_erase x then (if q = [] \<or> last q = 10 \<or> last q = 13 then q else butlast q)
      else if c = tty_kill x then finished (\<lambda>c. c = 10 \<or> c = 13) q
      else q @ [c])"

lemma seven_bits: "(c :: u8) < 0x80 \<Longrightarrow> c AND 0x7F = c"
proof -
  assume "c < 0x80"
  then have "unat c < 2 ^ 7" by (simp add: word_less_nat_alt)
  then have "take_bit 7 c = c" by (simp add: word_unat_eq_iff unsigned_take_bit_eq take_bit_nat_eq_self)
  then show ?thesis by (simp add: take_bit_eq_mask mask_eq_exp_minus_1)
qed

lemma text_byte_small: "text_byte c \<Longrightarrow> c < 0x80"
  by (auto simp: text_byte_def intro: less_trans)

lemma in_frame_eqD:
  assumes "in_frame y = in_frame x"
  shows "tty_erase y = tty_erase x" "tty_kill y = tty_kill x" "tty_intr y = tty_intr x" "tty_quit y = tty_quit x" "tty_xoff y = tty_xoff x"
    "tty_eof y = tty_eof x" "tty_mode y = tty_mode x" "tty_escaped y = tty_escaped x" "tty_inhibited y = tty_inhibited x" "tty_lfct y = tty_lfct x"
    "tty_rwords y = tty_rwords x" "tty_inleft y = tty_inleft x" "tty_inproc y = tty_inproc x" "tty_in_vir y = tty_in_vir x" "tty_incaller y = tty_incaller x"
  using assms by (cases x; cases y; simp add: in_frame_def)+

lemma in_char_edits:
  assumes r: "ring_ok (con s)" and room: "length (inq (con s)) < TTY_IN_BYTES" and k: "cooked_console (con s)" and sh: "shown s" and c: "editable (con s) c"
  shows "\<exists>x v b T. in_char 0 c s = Done (s\<lparr>con := x, vdu := v, serial := b\<rparr>) \<and> displays v T \<and> ring_ok x \<and>
    inq x = edit (con s) (inq (con s)) c \<and> in_frame x = in_frame (con s)"
proof -
  let ?x = "con s"
  have cnt: "tty_incount ?x < int TTY_IN_BYTES" using room r by (simp add: ring_ok_def)
  have kl: "tty_kill ?x < 0x80" using k by (auto simp: cooked_console_def intro: text_byte_small)
  have "c < 0x80" using c k kl by (auto simp: editable_def plain_def cooked_console_def intro: less_trans)
  then have e: "in_char 0 c s = edit_char c s" using cnt k by (simp add: in_char_def cooked_console_def seven_bits)
  have tb: "text_byte 8" "text_byte 32" "text_byte 10" by (simp_all add: text_byte_def)
  have keep: "shown (s\<lparr>con := x, vdu := v, serial := b\<rparr>)" if "in_frame x = in_frame ?x" "displays v T" for x v b T
    using that sh in_frame_eqD(11) [OF that(1)] by (auto simp: shown_def)
  obtain T where T: "displays (vdu s) T" using sh by (auto simp: shown_def)
  consider "c = tty_erase ?x" | "c \<noteq> tty_erase ?x" "c = tty_kill ?x" | "c \<noteq> tty_erase ?x" "c \<noteq> tty_kill ?x" "plain ?x c" using c by (auto simp: editable_def)
  then show ?thesis
  proof cases
    case 1
    show ?thesis
    proof (cases "inq ?x = [] \<or> last (inq ?x) = 10 \<or> last (inq ?x) = 13")
      case True
      then have "in_char 0 c s = Done (s\<lparr>con := ?x, vdu := vdu s, serial := serial s\<rparr>)"
        using e 1 k line.unput_stops [OF r] by (simp add: edit_char_def cooked_console_def)
      then show ?thesis using T r 1 True by (intro exI [of _ ?x] exI [of _ "vdu s"] exI [of _ "serial s"] exI [of _ T]) (simp add: edit_def)
    next
      case False
      then obtain y where y: "chuck ?x = Some y" "ring_ok y" "inq y = butlast (inq ?x)" "in_frame y = in_frame ?x" using line.unput_end [OF r] by blast
      have sy: "shown (s\<lparr>con := y\<rparr>)" using keep [OF y(4) T, of "serial s"] by simp
      obtain v1 b1 T1 where e1: "echo 8 (s\<lparr>con := y\<rparr>) = Done (s\<lparr>con := y, vdu := v1, serial := b1\<rparr>)" "displays v1 T1" using echo_text [OF sy tb(1)] by auto
      obtain v2 b2 T2 where e2: "echo 32 (s\<lparr>con := y, vdu := v1, serial := b1\<rparr>) = Done (s\<lparr>con := y, vdu := v2, serial := b2\<rparr>)" "displays v2 T2"
        using echo_text [OF keep [OF y(4) e1(2), of b1] tb(2)] by auto
      obtain v3 b3 T3 where e3: "echo 8 (s\<lparr>con := y, vdu := v2, serial := b2\<rparr>) = Done (s\<lparr>con := y, vdu := v3, serial := b3\<rparr>)" "displays v3 T3"
        using echo_text [OF keep [OF y(4) e2(2), of b2] tb(1)] by auto
      have "in_char 0 c s = Done (s\<lparr>con := y, vdu := v3, serial := b3\<rparr>)"
        using e 1 k y(1) e1(1) e2(1) e3(1) by (simp add: edit_char_def cooked_console_def)
      then show ?thesis using y e3(2) False 1 by (auto simp: edit_def)
    qed
  next
    case 2
    obtain y where y: "chuck_all (nat (tty_incount ?x)) ?x = Done y" "ring_ok y" "inq y = finished (\<lambda>c. c = 10 \<or> c = 13) (inq ?x)" "in_frame y = in_frame ?x"
      using line.kill_line [OF r, of "nat (tty_incount ?x)"] by auto
    have sy: "shown (s\<lparr>con := y\<rparr>)" using keep [OF y(4) T, of "serial s"] by simp
    have tk: "text_byte (tty_kill ?x)" using k by (simp add: cooked_console_def)
    obtain v1 b1 T1 where e1: "echo (tty_kill ?x) (s\<lparr>con := y\<rparr>) = Done (s\<lparr>con := y, vdu := v1, serial := b1\<rparr>)" "displays v1 T1" using echo_text [OF sy tk] by auto
    obtain v2 b2 T2 where e2: "echo 10 (s\<lparr>con := y, vdu := v1, serial := b1\<rparr>) = Done (s\<lparr>con := y, vdu := v2, serial := b2\<rparr>)" "displays v2 T2"
      using echo_text [OF keep [OF y(4) e1(2), of b1] tb(3)] by auto
    have "in_char 0 c s = Done (s\<lparr>con := y, vdu := v2, serial := b2\<rparr>)"
      using e 2 k y(1) e1(1) e2(1) by (simp add: edit_char_def cooked_console_def Let_def)
    then show ?thesis using y e2(2) 2 by (auto simp: edit_def)
  next
    case 3
    have p: "text_byte c" "c \<noteq> 10" "c \<noteq> 13" using 3(3) printable_bits [of c] by (auto simp: plain_def text_byte_def)
    note pi = put_in_appends [OF r cnt, of c]
    have sy: "shown (s\<lparr>con := put_in c ?x\<rparr>)" using keep [OF pi(3) T, of "serial s"] by simp
    obtain v b T1 where e1: "echo c (s\<lparr>con := put_in c ?x\<rparr>) = Done (s\<lparr>con := put_in c ?x, vdu := v, serial := b\<rparr>)" "displays v T1" using echo_text [OF sy p(1)] by auto
    have "in_char 0 c s = Done (s\<lparr>con := put_in c ?x, vdu := v, serial := b\<rparr>)"
      using e 3 k p e1(1) by (simp add: edit_char_def check_char_def store_char_def plain_def cooked_console_def upd_con_def Let_def)
    then show ?thesis using pi e1(2) 3 by (auto simp: edit_def)
  qed
qed

lemma tty_reply_fields:
  "con (tty_reply c d p r f e s) = con s" "kern (tty_reply c d p r f e s) = kern s" "drv_buf (tty_reply c d p r f e s) = drv_buf s"
  "vdu (tty_reply c d p r f e s) = vdu s" "drv_max (tty_reply c d p r f e s) = drv_max s" "shown (tty_reply c d p r f e s) = shown s"
  "sent_replies (tty_reply c d p r f e s) = sent_replies s @ [\<lparr>r_dest = d, r_type = c, r_proc = p, r_status = r, r_flags = f, r_spek = e\<rparr>]"
  by (simp_all add: tty_reply_def shown_def)

definition type_char :: "u8 \<times> int \<Rightarrow> terminal \<Rightarrow> terminal outcome" where
  "type_char = (\<lambda>(ch, n) s. and_then (in_char n ch s) (\<lambda>s1. if n \<noteq> 0 then Stuck else serve_reader s1))"

lemma edit_contents: "set (edit x q c) \<subseteq> set q \<union> (if c = tty_erase x \<or> c = tty_kill x then {} else {c})" "length (edit x q c) \<le> Suc (length q)"
proof -
  have d: "set (dropWhile P xs) \<subseteq> set xs" "length (dropWhile P xs) \<le> length xs" for P and xs :: "u8 list"
    by (auto dest: set_dropWhileD intro: length_dropWhile_le)
  show "set (edit x q c) \<subseteq> set q \<union> (if c = tty_erase x \<or> c = tty_kill x then {} else {c})" using d(1) [of _ "rev q"] by (auto simp: edit_def finished_def dest: in_set_butlastD)
  show "length (edit x q c) \<le> Suc (length q)" using d(2) [of _ "rev q"] by (auto simp: edit_def finished_def intro: le_SucI)
qed

lemma edits_contents: "length (foldl (edit x) q cs) \<le> length q + length cs" "c \<in> set (foldl (edit x) q cs) \<Longrightarrow> c \<in> set q \<or> c \<in> set cs \<and> c \<noteq> tty_erase x \<and> c \<noteq> tty_kill x"
proof (induction cs arbitrary: q)
  case (Cons d cs)
  {
    case 1
    show ?case using Cons.IH(1) [of "edit x q d"] edit_contents(2) [of x q d] by simp
  next
    case 2
    then have "c \<in> set (edit x q d) \<or> c \<in> set cs \<and> c \<noteq> tty_erase x \<and> c \<noteq> tty_kill x" using Cons.IH(2) [of "edit x q d"] by simp
    moreover have "c \<in> set q \<or> c = d \<and> d \<noteq> tty_erase x \<and> d \<noteq> tty_kill x" if "c \<in> set (edit x q d)"
      using that edit_contents(1) [of x q d] by (auto split: if_splits)
    ultimately show ?case by auto
  }
qed simp_all

lemma cooked_console_frame:
  assumes "in_frame y = in_frame x"
  shows "cooked_console y = cooked_console x" "editable y = editable x" "edit y = edit x"
  using in_frame_eqD [OF assms] by (auto simp: cooked_console_def editable_def plain_def edit_def fun_eq_iff)

lemma type_chars_edit:
  assumes "ring_ok (con s)" and "length (inq (con s)) + length cs \<le> TTY_IN_BYTES" and "cooked_console (con s)" and "shown s"
    and "tty_lfct (con s) = 0" and "\<forall>c \<in> set cs. editable (con s) c"
  shows "\<exists>x v b T. seq_all type_char (map (\<lambda>c. (c, 0)) cs) s = Done (s\<lparr>con := x, vdu := v, serial := b\<rparr>) \<and> displays v T \<and> ring_ok x \<and>
    inq x = foldl (edit (con s)) (inq (con s)) cs \<and> in_frame x = in_frame (con s)"
  using assms
proof (induction cs arbitrary: s)
  case Nil
  then obtain T where "displays (vdu s) T" by (auto simp: shown_def)
  then show ?case using Nil by (intro exI [of _ "con s"] exI [of _ "vdu s"] exI [of _ "serial s"] exI [of _ T]) simp
next
  case (Cons c cs)
  obtain x v b T where x: "in_char 0 c s = Done (s\<lparr>con := x, vdu := v, serial := b\<rparr>)" "displays v T" "ring_ok x"
    "inq x = edit (con s) (inq (con s)) c" "in_frame x = in_frame (con s)"
    using in_char_edits [of s c] Cons.prems by auto
  let ?s = "s\<lparr>con := x, vdu := v, serial := b\<rparr>"
  note f = cooked_console_frame [OF x(5)] in_frame_eqD [OF x(5)]
  have "serve_reader ?s = Done ?s" using f Cons.prems(3,5) by (simp add: serve_reader_def cooked_console_def Let_def or.commute)
  then have "type_char (c, 0) s = Done ?s" using x(1) by (simp add: type_char_def)
  moreover have "length (inq x) + length cs \<le> TTY_IN_BYTES" using edit_contents(2) [of "con s" "inq (con s)" c] Cons.prems(2) x(4) by simp
  then have "\<exists>y v b T. seq_all type_char (map (\<lambda>c. (c, 0)) cs) ?s = Done (?s\<lparr>con := y, vdu := v, serial := b\<rparr>) \<and> displays v T \<and> ring_ok y \<and>
      inq y = foldl (edit (con ?s)) (inq (con ?s)) cs \<and> in_frame y = in_frame (con ?s)"
    using Cons.prems f x(2,3) by (intro Cons.IH) (auto simp: shown_def)
  ultimately show ?case using x f by simp
qed

lemma type_newline:
  assumes "ring_ok (con s)" and "length (inq (con s)) < TTY_IN_BYTES" and "cooked_console (con s)" and "shown s"
  shows "\<exists>v b T. in_char 0 10 s = Done (s\<lparr>con := put_in 10 ((con s)\<lparr>tty_lfct := tty_lfct (con s) + 1\<rparr>), vdu := v, serial := b\<rparr>) \<and> displays v T"
proof -
  let ?x = "put_in 10 ((con s)\<lparr>tty_lfct := tty_lfct (con s) + 1\<rparr>)"
  have "shown (s\<lparr>con := ?x\<rparr>)" using assms(4) by (simp add: shown_def put_in_def)
  then obtain v b T where e: "echo 10 (s\<lparr>con := ?x\<rparr>) = Done (s\<lparr>con := ?x, vdu := v, serial := b\<rparr>)" "displays v T"
    using echo_text [of "s\<lparr>con := ?x\<rparr>" 10] by (auto simp: text_byte_def)
  have "tty_incount (con s) < 1000" using assms(1,2) by (simp add: ring_ok_def)
  then have "in_char 0 10 s = Done (s\<lparr>con := ?x, vdu := v, serial := b\<rparr>)"
    using e(1) assms(3) by (simp add: in_char_def edit_char_def check_char_def store_char_def cooked_console_def upd_con_def Let_def)
  then show ?thesis using e(2) by blast
qed

text \<open>
  C17. A process that waits for a line gets the line as it was edited. Characters typed up to a newline, with erase and
  kill characters among them, arrive by one interrupt; the terminal task stores exactly the edited line with its
  newline in the buffer of the waiting reader, or as much of it as the reader asked for, wakes the reader with that
  count, and keeps the rest of the line for the next read. The screen and the echo are in order afterwards. (The reference
  \<open>edit\<close>: erase removes the last character of the unfinished line, kill all of it.)
\<close>

theorem reader_gets_edited_line:
  assumes "ring_ok (con s)" and "inq (con s) = []" and "cooked_console (con s)" and "shown s" and "tty_lfct (con s) = 0"
    and "drv_buf s = map (\<lambda>c. (c, 0)) (cs @ [10])" and "\<forall>c \<in> set cs. editable (con s) c" and "length cs < TTY_IN_BYTES"
    and "tty_inleft (con s) = int n" and "0 < n"
    and "a = umap (proc_tab (kern s) (tty_inproc (con s))) Seg_D (tty_in_vir (con s)) (word_of_int (int n))" and "a \<noteq> 0"
  shows "let typed = foldl (edit (con s)) [] cs @ [10] in
    \<exists>t. do_int s = Done t \<and> ram (kern t) = store_bytes a (take n typed) (ram (kern s)) \<and>
      sent_replies t = sent_replies s @ [\<lparr>r_dest = tty_incaller (con s), r_type = REVIVE, r_proc = tty_inproc (con s),
        r_status = int (min n (length typed)), r_flags = 0, r_spek = 0\<rparr>] \<and>
      inq (con t) = drop n typed \<and> ring_ok (con t) \<and> shown t \<and> tty_inleft (con t) = 0 \<and> tty_lfct (con t) = (if n < length typed then 1 else 0) \<and> drv_buf t = []"
proof -
  let ?s0 = "s\<lparr>drv_buf := []\<rparr>" let ?l = "foldl (edit (con s)) [] cs"
  have s0: "shown ?s0" using assms(4) by (simp add: shown_def)
  obtain x v b T where x: "seq_all type_char (map (\<lambda>c. (c, 0)) cs) ?s0 = Done (?s0\<lparr>con := x, vdu := v, serial := b\<rparr>)" "displays v T" "ring_ok x"
    "inq x = ?l" "in_frame x = in_frame (con s)"
    using type_chars_edit [of ?s0 cs] assms(1-5,7,8) s0 by auto
  let ?s1 = "?s0\<lparr>con := x, vdu := v, serial := b\<rparr>"
  note f = in_frame_eqD [OF x(5)] cooked_console_frame [OF x(5)]
  have l: "length (inq x) < TTY_IN_BYTES" using edits_contents(1) [of "con s" "[]" cs] x(4) assms(8) by simp
  have sh1: "shown ?s1" using f(11) x(2) assms(4) by (auto simp: shown_def)
  let ?y = "put_in 10 (x\<lparr>tty_lfct := 1\<rparr>)"
  obtain v2 b2 T2 where nl: "in_char 0 10 ?s1 = Done (?s0\<lparr>con := ?y, vdu := v2, serial := b2\<rparr>)" "displays v2 T2"
    using type_newline [of ?s1] x(3) l f assms(3,5) sh1 by auto
  let ?s2 = "?s0\<lparr>con := ?y, vdu := v2, serial := b2\<rparr>"
  have "ring_ok (x\<lparr>tty_lfct := 1\<rparr>)" "tty_incount (x\<lparr>tty_lfct := 1\<rparr>) < int TTY_IN_BYTES" using x(3) l by (simp_all add: ring_ok_def)
  note y = put_in_appends [OF this, of 10]
  have "inq (x\<lparr>tty_lfct := 1\<rparr>) = ?l" using x(4) by (simp add: inq_def)
  then have qy: "inq ?y = ?l @ 10 # []" using y(2) by simp
  have fy: "tty_lfct ?y = 1" "tty_mode ?y = tty_mode (con s)" "tty_inleft ?y = int n" "tty_inproc ?y = tty_inproc (con s)"
    "tty_in_vir ?y = tty_in_vir (con s)" "tty_incaller ?y = tty_incaller (con s)" "tty_rwords ?y = tty_rwords (con s)"
    using f assms(9) by (simp_all add: put_in_def)
  have pl: "\<forall>c \<in> set ?l. \<not> line_end c"
  proof
    fix c assume "c \<in> set ?l"
    then have "plain (con s) c" using edits_contents(2) [of c "con s" "[]" cs] assms(7) by (auto simp: editable_def)
    then show "\<not> line_end c" using printable_bits [of c] by (auto simp: plain_def line_end_def)
  qed
  have mode: "tty_mode (con s) AND (RAW OR CBREAK) = 0" using assms(3) by (simp add: cooked_console_def)
  let ?U = "take n (?l @ [10])" let ?m = "min n (length ?l + 1)"
  let ?t = "upd_con (\<lambda>x. x\<lparr>tty_inleft := 0\<rparr>) (taken ?m (if n \<le> length ?l then 0 else 1) a ?U ?s2)"
  have rd: "rd_chars ?s2 = Done (int (length ?U), ?t)"
    using rd_chars_line [of ?s2 ?l 10 "[]" n a] y(1) qy pl mode fy assms(11,12) by (auto simp: line_end_def Let_def take_Cons')
  have sr: "serve_reader ?s2 = Done (tty_reply REVIVE (tty_incaller (con ?t)) (tty_inproc (con ?t)) (int (length ?U)) 0 0 ?t)"
    using rd fy assms(10) by (simp add: serve_reader_def Let_def)
  have int: "do_int s = Done (tty_reply REVIVE (tty_incaller (con ?t)) (tty_inproc (con ?t)) (int (length ?U)) 0 0 ?t)"
    using x(1) nl(1) sr assms(6) by (simp add: do_int_def charint_def type_char_def [symmetric] seq_all_append) (simp add: type_char_def)
  have m: "int ?m \<le> tty_incount (con ?s2)" using y(1) length_inq [of ?y] qy by (simp add: ring_ok_def)
  note tq = taken_queue [of ?s2, OF _ m, of "if n \<le> length ?l then 0 else 1" a ?U]
  define R where "R = tty_reply REVIVE (tty_incaller (con ?t)) (tty_inproc (con ?t)) (int (length ?U)) 0 0 ?t"
  have fields: "inq (con R) = drop n (?l @ [10])" "ring_ok (con R)" "shown R"
    using tq(1,2) y(1) qy nl(2) fy(7) assms(4) unfolding R_def tty_reply_fields
    by (auto simp: upd_con_def taken_def advance_in_def inq_def ring_ok_def min_def shown_def)
  have "ram (kern R) = store_bytes a ?U (ram (kern s))" "drv_buf R = []" "tty_inleft (con R) = 0" "tty_lfct (con R) = (if n < length (?l @ [10]) then 1 else 0)"
    "sent_replies R = sent_replies s @ [\<lparr>r_dest = tty_incaller (con s), r_type = REVIVE, r_proc = tty_inproc (con s), r_status = int (min n (length (?l @ [10]))), r_flags = 0, r_spek = 0\<rparr>]"
    using fy unfolding R_def tty_reply_fields by (simp_all add: upd_con_def taken_def advance_in_def min.commute)
  then show ?thesis using int [folded R_def] fields by (auto simp: Let_def)
qed

subsection \<open>What every request keeps\<close>

definition tty_ok :: "terminal \<Rightarrow> bool" where
  "tty_ok s \<longleftrightarrow> ring_ok (con s) \<and> length (drv_buf s) \<le> drv_max s \<and> vdu_ok (vdu s)"

text \<open>\<open>tty_room n s\<close>: moreover there are at most \<open>n\<close> characters in the queue.\<close>

definition tty_room :: "int \<Rightarrow> terminal \<Rightarrow> bool" where
  "tty_room n s \<longleftrightarrow> tty_ok s \<and> tty_incount (con s) \<le> n"

lemma tty_room_ok: "tty_room n s \<Longrightarrow> tty_ok s"
  by (simp add: tty_room_def)

lemma tty_room_upd:
  "\<lbrakk>\<And>x. tty_inqueue (f x) = tty_inqueue x \<and> tty_inhead (f x) = tty_inhead x \<and> tty_intail (f x) = tty_intail x \<and> tty_incount (f x) = tty_incount x\<rbrakk> \<Longrightarrow>
   tty_room n (upd_con f s) = tty_room n s"
  by (simp add: tty_room_def tty_ok_def ring_ok_def upd_con_def)

lemma tty_room_kern [simp]:
  "tty_room n (s\<lparr>kern := k\<rparr>) = tty_room n s" "tty_room n (s\<lparr>flush_flag := i\<rparr>) = tty_room n s" "tty_room n (tty_reply c d p r f e s) = tty_room n s"
  by (simp_all add: tty_room_def tty_ok_def tty_reply_def)

lemma tty_room_cursor: "tty_room n s \<Longrightarrow> tty_room n (show_cursor b s)"
  using vducursor_tidy [of "vdu s" b] by (simp add: tty_room_def tty_ok_def show_cursor_def tidy_def)

lemma out_char_room: "tty_room n s \<Longrightarrow> out_char c s = Done t \<Longrightarrow> tty_room n t"
  using vdu_out_cases [of "vdu s" "tty_mode (con s)" c] by (auto simp: out_char_def outcome_simps tty_room_def tty_ok_def)

lemma flush_loop_room: "tty_room n s \<Longrightarrow> flush_loop k i s = Done t \<Longrightarrow> tty_room n t"
proof (induction k i s rule: flush_loop.induct)
  case (2 k i s)
  show ?case
  proof (cases "tty_inhibited (con s)")
    case False
    then obtain u where u: "out_char (tty_ramqueue (con s) i) s = Done u"
      "flush_loop k (Suc i) (upd_con (\<lambda>x. x\<lparr>tty_phys := tty_phys x + 1, tty_cum := tty_cum x + 1, tty_rwords := tty_rwords x - 1\<rparr>) u) = Done t"
      using "2.prems"(2) by (auto simp: outcome_simps)
    then show ?thesis using "2.IH" [OF False u(1) _ u(2)] out_char_room [OF "2.prems"(1) u(1)] by (simp add: tty_room_upd)
  qed (use 2 in simp)
qed simp

lemma flush_room: "tty_room n s \<Longrightarrow> flush s = Done t \<Longrightarrow> tty_room n t"
  by (auto simp: flush_def outcome_simps split: if_splits intro: tty_room_cursor flush_loop_room)

lemma print_loop_room: "tty_room n s \<Longrightarrow> print_loop k p s = Done t \<Longrightarrow> tty_room n t"
proof (induction k p s rule: print_loop.induct)
  case (2 k p s)
  show ?case
  proof (cases "tty_inhibited (con s)")
    case False
    then obtain u where u: "out_char (ram (kern s) p) s = Done u" "print_loop k (p + 1) (upd_con (\<lambda>x. x\<lparr>tty_outleft := tty_outleft x - 1\<rparr>) u) = Done t"
      using "2.prems"(2) by (auto simp: outcome_simps)
    then show ?thesis using "2.IH" [OF False u(1) _ u(2)] out_char_room [OF "2.prems"(1) u(1)] by (simp add: tty_room_upd)
  qed (use 2 in simp)
qed simp

lemma finish_room: "tty_room n s \<Longrightarrow> tty_room n (finish code s)"
  by (simp add: finish_def Let_def tty_room_upd)

lemma console_room: "tty_room n s \<Longrightarrow> console s = Done t \<Longrightarrow> tty_room n t"
proof -
  assume s: "tty_room n s" and t: "console s = Done t"
  obtain u w where u: "print_loop (nat (tty_outleft (con s))) (tty_phys (con s)) (show_cursor False s) = Done u" "flush (show_cursor True u) = Done w"
    and e: "t = (let count = tty_outleft (con s) - tty_outleft (con w);
               s3 = upd_con (\<lambda>x. x\<lparr>tty_phys := tty_phys x + word_of_int count, tty_cum := tty_cum x + count\<rparr>) w
           in if tty_outleft (con s3) = 0 then finish (tty_cum (con s3)) s3 else s3)"
    using t by (auto simp: console_def Let_def outcome_simps)
  have "tty_room n w" using flush_room [OF tty_room_cursor [OF print_loop_room [OF tty_room_cursor [OF s] u(1)]] u(2)] .
  then show ?thesis unfolding e by (auto simp: Let_def tty_room_upd intro: finish_room)
qed

lemma echo_room: "tty_room n s \<Longrightarrow> echo c s = Done t \<Longrightarrow> tty_room n t"
  by (auto simp: echo_def outcome_simps split: if_splits intro: flush_room tty_room_cursor dest!: out_char_room [rotated])

lemma put_in_room: "tty_room n s \<Longrightarrow> n \<le> 1000 \<Longrightarrow> tty_room (n + 1) (upd_con (put_in c) s)"
proof -
  assume s: "tty_room n s" and n: "n \<le> 1000"
  have h: "tty_inhead (con s) < TTY_IN_BYTES" using s by (simp add: tty_room_def tty_ok_def ring_ok_def)
  have r: "ring_ok (con s)" "tty_incount (con s) \<le> 1000" using s n by (auto simp: tty_room_def tty_ok_def)
  have "nat (tty_incount (con s) + 1) = Suc (nat (tty_incount (con s)))" using r by (simp add: ring_ok_def nat_add_distrib)
  then show ?thesis using s r wrap_in_mod [OF h] by (simp add: tty_room_def tty_ok_def ring_ok_def put_in_def upd_con_def mod_Suc_eq)
qed

lemma tty_room_mono: "tty_room n s \<Longrightarrow> n \<le> m \<Longrightarrow> tty_room m s"
  by (simp add: tty_room_def)

lemma tty_ok_room: "tty_ok s \<longleftrightarrow> tty_room 1001 s"
  by (auto simp: tty_room_def tty_ok_def ring_ok_def)

lemma tty_room_empty:
  "tty_room n s \<Longrightarrow> 0 \<le> n \<Longrightarrow> (\<And>x. tty_inhead (f x) = 0 \<and> tty_intail (f x) = 0 \<and> tty_incount (f x) = 0) \<Longrightarrow> tty_room n (upd_con f s)"
  by (simp add: tty_room_def tty_ok_def ring_ok_def upd_con_def)

lemma sigchar_room: "tty_room n s \<Longrightarrow> 0 \<le> n \<Longrightarrow> sigchar sig s = Done t \<Longrightarrow> tty_room n t"
proof -
  assume s: "tty_room n s" "0 \<le> n" and t: "sigchar sig s = Done t"
  have "tty_room n (finish TTY_EINTR (upd_con (\<lambda>x. x\<lparr>tty_inhibited := False\<rparr>) s))" using s by (simp add: finish_room tty_room_upd)
  then have "tty_room n (upd_con (\<lambda>x. x\<lparr>tty_inhead := 0, tty_intail := 0, tty_incount := 0, tty_lfct := 0\<rparr>) (finish TTY_EINTR (upd_con (\<lambda>x. x\<lparr>tty_inhibited := False\<rparr>) s)))"
    by (rule tty_room_empty) (simp_all add: s)
  then show ?thesis using t by (auto simp: sigchar_def Let_def outcome_simps split: if_splits)
qed

lemma store_char_room: "tty_room n s \<Longrightarrow> n \<le> 1000 \<Longrightarrow> store_char c s = Done t \<Longrightarrow> tty_room (n + 1) t"
proof -
  assume s: "tty_room n s" "n \<le> 1000" and t: "store_char c s = Done t"
  have "tty_room n (if c = 10 then upd_con (\<lambda>x. x\<lparr>tty_lfct := tty_lfct x + 1\<rparr>) s else s)" using s(1) by (simp add: tty_room_upd)
  then show ?thesis using echo_room [OF put_in_room [OF _ s(2)]] t by (simp add: store_char_def Let_def)
qed

lemma check_char_room: "tty_room n s \<Longrightarrow> 0 \<le> n \<Longrightarrow> n \<le> 1000 \<Longrightarrow> check_char c s = Done t \<Longrightarrow> tty_room (n + 1) t"
proof -
  assume s: "tty_room n s" "0 \<le> n" "n \<le> 1000" and t: "check_char c s = Done t"
  have "tty_room n (upd_con (\<lambda>x. x\<lparr>tty_inhibited := b\<rparr>) s)" for b using s(1) by (simp add: tty_room_upd)
  note c = this [of True] console_room [OF this [of False]]
  have mono: "tty_room n u \<Longrightarrow> tty_room (n + 1) u" for u by (simp add: tty_room_def)
  have g: "sigchar x s = Done t \<Longrightarrow> tty_room (n + 1) t" "store_char x' s = Done t \<Longrightarrow> tty_room (n + 1) t"
    "console (upd_con (\<lambda>x. x\<lparr>tty_inhibited := False\<rparr>) s) = Done t \<Longrightarrow> tty_room (n + 1) t" "tty_room (n + 1) (upd_con (\<lambda>x. x\<lparr>tty_inhibited := True\<rparr>) s)" for x x'
    using sigchar_room [OF s(1,2)] store_char_room [OF s(1,3)] c mono by blast+
  show ?thesis using t g by (auto simp: check_char_def Let_def split: if_splits)
qed

lemma chuck_room: "ring_ok x \<Longrightarrow> chuck x = Some y \<Longrightarrow> ring_ok y \<and> tty_incount y \<le> tty_incount x"
proof -
  assume x: "ring_ok x" and c: "chuck x = Some y"
  then have "tty_incount y \<le> tty_incount x" by (auto simp: chuck_def Let_def split: if_splits)
  moreover have "ring_ok y" using chuck_last [OF x] c by fastforce
  ultimately show ?thesis by simp
qed

lemma chuck_all_room: "ring_ok x \<Longrightarrow> chuck_all n x = Done y \<Longrightarrow> ring_ok y \<and> tty_incount y \<le> tty_incount x"
proof (induction n arbitrary: x)
  case 0
  then show ?case by (simp add: chuck_all.simps [of 0] split: option.splits)
next
  case (Suc n)
  show ?case
  proof (cases "chuck x")
    case None
    then show ?thesis using Suc.prems by (simp add: chuck_all.simps [of "Suc n"])
  next
    case (Some z)
    then show ?thesis using Suc.IH [of z] Suc.prems chuck_room [of x z] by (auto simp: chuck_all.simps [of "Suc n"])
  qed
qed

lemma tty_room_con: "tty_room n s \<Longrightarrow> ring_ok y \<Longrightarrow> tty_incount y \<le> tty_incount (con s) \<Longrightarrow> tty_room n (s\<lparr>con := y\<rparr>)"
  by (simp add: tty_room_def tty_ok_def)

lemma edit_char_room:
  assumes s: "tty_room 999 s" and t: "edit_char c s = Done t"
  shows "tty_room 1001 t"
proof -
  let ?x = "con s"
  have r: "ring_ok ?x" using s by (simp add: tty_room_def tty_ok_def)
  have e: "tty_room 999 u \<Longrightarrow> echo d u = Done w \<Longrightarrow> tty_room 1001 w" for u d w using echo_room [of 999 u d w] by (simp add: tty_room_def)
  have k: "tty_room 999 u \<Longrightarrow> check_char d u = Done w \<Longrightarrow> tty_room 1001 w" for u d w using check_char_room [of 999 u d w] by (simp add: tty_room_def)
  consider "c = tty_erase ?x" "\<not> tty_escaped ?x" | "c \<noteq> tty_erase ?x" "c = tty_kill ?x" "\<not> tty_escaped ?x"
    | "c \<noteq> tty_erase ?x" "c \<noteq> tty_kill ?x" "\<not> tty_escaped ?x" | "tty_escaped ?x" by blast
  then show ?thesis
  proof cases
    case 1
    show ?thesis
    proof (cases "chuck ?x")
      case None
      then show ?thesis using t 1 s by (simp add: edit_char_def tty_room_def)
    next
      case (Some y)
      have y: "tty_room 999 (s\<lparr>con := y\<rparr>)" using tty_room_con [OF s] chuck_room [OF r Some] by simp
      obtain s1 s2 where u: "echo 8 (s\<lparr>con := y\<rparr>) = Done s1" "echo 32 s1 = Done s2" "echo 8 s2 = Done t" using t 1 Some by (auto simp: edit_char_def outcome_simps)
      show ?thesis using e [OF echo_room [OF echo_room [OF y u(1)] u(2)] u(3)] .
    qed
  next
    case 2
    then obtain y s1 where u: "chuck_all (nat (tty_incount ?x)) ?x = Done y" "echo (tty_kill ?x) (s\<lparr>con := y\<rparr>) = Done s1" "echo 10 s1 = Done t"
      using t by (auto simp: edit_char_def Let_def outcome_simps)
    have y: "tty_room 999 (s\<lparr>con := y\<rparr>)" using tty_room_con [OF s] chuck_all_room [OF r u(1)] by simp
    show ?thesis using e [OF echo_room [OF y u(2)] u(3)] .
  next
    case 3
    have "tty_room 999 (upd_con (\<lambda>x. x\<lparr>tty_escaped := True\<rparr>) s)" "tty_room 999 (upd_con (\<lambda>x. x\<lparr>tty_lfct := tty_lfct x + 1\<rparr>) s)"
      using s by (simp_all add: tty_room_upd)
    then show ?thesis using t 3 s e k by (auto simp: edit_char_def Let_def split: if_splits)
  next
    case 4
    have z: "tty_room 999 (upd_con (\<lambda>x. x\<lparr>tty_escaped := False\<rparr>) s)" using s by (simp add: tty_room_upd)
    then have "tty_room 1000 (upd_con (put_in BACKSLASH) (upd_con (\<lambda>x. x\<lparr>tty_escaped := False\<rparr>) s))" using put_in_room by force
    from check_char_room [OF this] k [OF z] show ?thesis using t 4 by (auto simp: edit_char_def Let_def split: if_splits)
  qed
qed

lemma in_char_room:
  assumes s: "tty_ok s" and t: "in_char n c s = Done t"
  shows "tty_ok t"
proof (cases "tty_incount (con s) < 1000 \<and> n = 0")
  case True
  then have r: "tty_room 999 s" using s by (simp add: tty_room_def)
  have "t = s \<or> (\<exists>c. edit_char c s = Done t \<or> check_char c s = Done t \<or> store_char c s = Done t)"
    using t True by (auto simp: in_char_def Let_def split: if_splits)
  then show ?thesis using s edit_char_room [OF r, THEN tty_room_ok] check_char_room [OF r, THEN tty_room_ok] store_char_room [OF r, THEN tty_room_ok] by auto
next
  case False
  then have "t = s" using t by (auto simp: in_char_def split: if_splits)
  then show ?thesis using s by simp
qed

lemma fill_buf_takes:
  "tty_intail x < TTY_IN_BYTES \<Longrightarrow> \<exists>k m. fill_buf n cooked x = (fst (fill_buf n cooked x), m, k) \<and> length (fst (fill_buf n cooked x)) \<le> n \<and>
     (0 < n \<longrightarrow> fst (fill_buf n cooked x) \<noteq> []) \<and>
     (\<exists>l. snd k = x\<lparr>tty_intail := (tty_intail x + length (fst (fill_buf n cooked x))) mod TTY_IN_BYTES, tty_lfct := l\<rparr>)"
proof (induction n arbitrary: x)
  case 0
  then show ?case by (auto intro!: exI [of _ "tty_lfct x"])
next
  case (Suc n)
  let ?ch = "tty_inqueue x (tty_intail x)"
  define z where "z = x\<lparr>tty_intail := wrap_in (tty_intail x + 1), tty_lfct := tty_lfct x - (if ?ch = 10 \<or> ?ch = MARKER \<and> cooked then 1 else 0)\<rparr>"
  have w: "wrap_in (tty_intail x + 1) = (tty_intail x + 1) mod TTY_IN_BYTES" using Suc.prems by (rule wrap_in_mod)
  have z: "tty_intail z < TTY_IN_BYTES" "(tty_intail z + i) mod TTY_IN_BYTES = (tty_intail x + Suc i) mod TTY_IN_BYTES" for i using w by (simp_all add: z_def mod_simps)
  obtain m k l where i: "fill_buf n cooked z = (fst (fill_buf n cooked z), m, k)" "length (fst (fill_buf n cooked z)) \<le> n"
    "snd k = z\<lparr>tty_intail := (tty_intail z + length (fst (fill_buf n cooked z))) mod TTY_IN_BYTES, tty_lfct := l\<rparr>"
    using Suc.IH [OF z(1)] by blast
  have step: "fill_buf (Suc n) cooked x = (if (?ch = 10 \<or> ?ch = MARKER) \<and> cooked then ([?ch], True, ?ch = MARKER, z)
      else case fill_buf n cooked z of (cs, e, m, y) \<Rightarrow> (?ch # cs, ?ch = 10 \<or> e, ?ch = 10 \<and> ?ch = MARKER \<or> m, y))"
    by (auto simp: z_def Let_def split: prod.splits)
  show ?case
  proof (cases "(?ch = 10 \<or> ?ch = MARKER) \<and> cooked")
    case True
    then show ?thesis unfolding step using w by (auto simp: z_def intro!: exI [of _ "tty_lfct x - 1"])
  next
    case False
    obtain cs e b y where f: "fill_buf n cooked z = (cs, e, b, y)" by (cases "fill_buf n cooked z") auto
    have "y = x\<lparr>tty_intail := (tty_intail x + Suc (length cs)) mod TTY_IN_BYTES, tty_lfct := l\<rparr>" "length cs \<le> n"
      using i f z(2) by (auto simp: z_def)
    then show ?thesis unfolding step using False f by auto
  qed
qed

lemma rd_loop_room:
  assumes "tty_ok s" and "0 < tty_incount (con s)" and "nat (tty_inleft (con s)) \<le> fuel"
  shows "\<exists>r t. rd_loop fuel cooked a cum s = Done (r, t) \<and> tty_ok t"
  using assms
proof (induction fuel arbitrary: s a cum)
  case 0
  then show ?case by (simp add: rd_loop.simps [of 0])
next
  case (Suc fuel)
  show ?case
  proof (cases "tty_inleft (con s) \<le> 0")
    case True
    then show ?thesis using Suc.prems by (simp add: rd_loop.simps [of "Suc fuel"])
  next
    case False
    define n where "n = nat (min (min (tty_inleft (con s)) (tty_incount (con s))) (int TTY_BUF_SIZE))"
    have n: "0 < n" "int n \<le> tty_incount (con s)" "int n \<le> tty_inleft (con s)" using False Suc.prems(2) by (auto simp: n_def)
    have rg: "ring_ok (con s)" using Suc.prems(1) by (simp add: tty_ok_def)
    then have t: "tty_intail (con s) < TTY_IN_BYTES" by (simp add: ring_ok_def)
    obtain cs e b l where f: "fill_buf n cooked (con s) = (cs, e, b, (con s)\<lparr>tty_intail := (tty_intail (con s) + length cs) mod TTY_IN_BYTES, tty_lfct := l\<rparr>)"
      "length cs \<le> n" "cs \<noteq> []"
      using fill_buf_takes [OF t, of n cooked] n(1) by (cases "fill_buf n cooked (con s)") auto
    let ?U = "if b then take (length cs - 1) cs else cs"
    define s' where "s' = s\<lparr>con := (con s)\<lparr>tty_intail := (tty_intail (con s) + length cs) mod TTY_IN_BYTES, tty_lfct := l,
        tty_inleft := tty_inleft (con s) - int (length cs), tty_incount := tty_incount (con s) - int (length cs)\<rparr>,
      kern := (kern s)\<lparr>ram := store_bytes a ?U (ram (kern s))\<rparr>\<rparr>"
    have ok: "tty_ok s'"
    proof -
      have c: "int (length cs) \<le> tty_incount (con s)" using f(2) n(2) by linarith
      have "ring_ok (con (taken (length cs) 0 0 [] s))" using taken_queue(1) [OF rg c] .
      then show ?thesis using Suc.prems(1) by (simp add: tty_ok_def ring_ok_def taken_def advance_in_def s'_def)
    qed
    have step: "rd_loop (Suc fuel) cooked a cum s = (if tty_incount (con s') = 0 \<or> e then Done (cum + int (length ?U), s')
        else rd_loop fuel cooked (a + of_nat (length ?U)) (cum + int (length ?U)) s')"
      using False unfolding rd_loop.simps [of "Suc fuel" cooked a cum s] nat.case Let_def n_def [symmetric] f(1) prod.case by (simp add: s'_def)
    show ?thesis
    proof (cases "tty_incount (con s') = 0 \<or> e")
      case True
      then show ?thesis using step ok by simp
    next
      case False
      have "0 < tty_incount (con s')" using False f(2) n(2) by (simp add: s'_def)
      moreover have "nat (tty_inleft (con s')) \<le> fuel" using Suc.prems(3) f(3) by (cases cs) (simp_all add: s'_def)
      ultimately show ?thesis using Suc.IH [OF ok] False step by simp
    qed
  qed
qed

lemma rd_chars_room: "tty_ok s \<Longrightarrow> \<exists>r t. rd_chars s = Done (r, t) \<and> tty_ok t"
proof -
  assume s: "tty_ok s"
  have "0 < tty_incount (con s)" if "tty_incount (con s) \<noteq> 0" using s that by (auto simp: tty_ok_def ring_ok_def)
  then have "\<exists>r t. rd_loop (nat (tty_inleft (con s))) c a 0 s = Done (r, t) \<and> tty_ok t" if "tty_incount (con s) \<noteq> 0" for c a using rd_loop_room [OF s] that by blast
  then obtain r t where "tty_incount (con s) \<noteq> 0 \<longrightarrow> rd_loop (nat (tty_inleft (con s))) (tty_mode (con s) AND (RAW OR CBREAK) = 0)
      (umap (proc_tab (kern s) (tty_inproc (con s))) Seg_D (tty_in_vir (con s)) (word_of_int (tty_inleft (con s)))) 0 s = Done (r, t) \<and> tty_ok t" by blast
  moreover have "tty_ok t \<Longrightarrow> tty_ok (upd_con (\<lambda>x. x\<lparr>tty_inleft := 0\<rparr>) t)" by (simp add: tty_ok_room tty_room_upd)
  ultimately show ?thesis using s by (auto simp: rd_chars_def Let_def)
qed

lemma serve_reader_ok: "tty_ok s \<Longrightarrow> \<exists>t. serve_reader s = Done t \<and> tty_ok t"
  using rd_chars_room [of s] by (auto simp: serve_reader_def Let_def tty_ok_room)

lemma type_char_ok: "tty_ok s \<Longrightarrow> type_char c s = Done t \<Longrightarrow> tty_ok t"
  using in_char_room [of s "snd c" "fst c"] serve_reader_ok by (cases c) (force simp: type_char_def outcome_simps split: if_splits)

lemma seq_all_ok: "(\<And>x s t. P s \<Longrightarrow> f x s = Done t \<Longrightarrow> P t) \<Longrightarrow> P s \<Longrightarrow> seq_all f xs s = Done t \<Longrightarrow> P t"
  by (induction xs arbitrary: s) (auto simp: outcome_simps)

lemma charint_type: "charint s = seq_all type_char (drv_buf s) (s\<lparr>drv_buf := []\<rparr>)"
proof -
  have "(\<lambda>(ch, n) s. and_then (in_char n ch s) (\<lambda>s1. if n \<noteq> 0 then Stuck else serve_reader s1)) = type_char"
    by (rule ext) (rule ext, simp add: type_char_def split: prod.split)
  then show ?thesis by (simp only: charint_def)
qed

lemma charint_ok: "tty_ok s \<Longrightarrow> charint s = Done t \<Longrightarrow> tty_ok t"
proof -
  assume s: "tty_ok s" and t: "charint s = Done t"
  have "tty_ok (s\<lparr>drv_buf := []\<rparr>)" using s by (simp add: tty_ok_def)
  then show ?thesis by (rule seq_all_ok [where P = tty_ok and f = type_char, rotated]) (rule t [unfolded charint_type], rule type_char_ok)
qed

lemma tty_do_read_ok: "tty_ok s \<Longrightarrow> \<exists>t. tty_do_read m s = Done t \<and> tty_ok t"
proof -
  assume "tty_ok s"
  then have "tty_ok (upd_con (\<lambda>x. x\<lparr>tty_incaller := t_source m, tty_inproc := t_proc m, tty_in_vir := t_addr m, tty_inleft := t_count m\<rparr>) s)"
    by (simp add: tty_ok_room tty_room_upd)
  from rd_chars_room [OF this] \<open>tty_ok s\<close> show ?thesis by (auto simp: tty_do_read_def tty_ok_room)
qed

lemma tty_do_write_ok: "tty_ok s \<Longrightarrow> tty_do_write m s = Done t \<Longrightarrow> tty_ok t"
proof -
  assume s: "tty_ok s" and t: "tty_do_write m s = Done t"
  define phys where "phys = umap (proc_tab (kern s) (t_proc m)) Seg_D (t_addr m) (word_of_int (t_count m))"
  define s1 where "s1 = upd_con (\<lambda>x. x\<lparr>tty_otcaller := t_source m, tty_outproc := t_proc m, tty_out_vir := t_addr m,
                   tty_outleft := (if phys = 0 then 0 else t_count m), tty_waiting := WAITING,
                   tty_cum := (if phys = 0 then TTY_BAD_ADDR else 0), tty_phys := phys\<rparr>) s"
  define s2 where "s2 = s1\<lparr>kern := upd_proc (t_proc m) (\<lambda>r. r\<lparr>p_physio := True\<rparr>) (kern s1)\<rparr>"
  have r: "tty_room 1001 s2" using s by (simp add: s2_def s1_def tty_ok_room tty_room_upd)
  show ?thesis
  proof (cases "tty_outleft (con s) > 0")
    case True
    then have "t = tty_reply TASK_REPLY (t_source m) (t_proc m) EIO 0 0 s" using t by (simp add: tty_do_write_def)
    then show ?thesis using s by (simp add: tty_ok_room)
  next
    case False
    then have "and_then (console s2) (\<lambda>s3. Done (if t_line m \<noteq> 0 then tty_reply TASK_REPLY (tty_otcaller (con s3)) (tty_outproc (con s3)) TTY_SUSPEND 0 0 s3 else s3)) = Done t"
      using t by (simp add: tty_do_write_def Let_def s2_def s1_def phys_def)
    then obtain s3 where c: "console s2 = Done s3"
      and e: "t = (if t_line m \<noteq> 0 then tty_reply TASK_REPLY (tty_otcaller (con s3)) (tty_outproc (con s3)) TTY_SUSPEND 0 0 s3 else s3)"
      by (cases "console s2") auto
    show ?thesis using console_room [OF r c] unfolding e by (simp add: tty_ok_room)
  qed
qed

lemma tty_do_ioctl_ok: "tty_ok s \<Longrightarrow> tty_ok (tty_do_ioctl m s)"
  by (auto simp: tty_do_ioctl_def Let_def tty_ok_room tty_room_upd) (auto simp: tty_room_def tty_ok_def)

lemma tty_do_setpgrp_ok: "tty_ok s \<Longrightarrow> tty_ok (tty_do_setpgrp m s)"
  by (simp add: tty_do_setpgrp_def tty_ok_room tty_room_upd)

lemma do_cancel_ok: "tty_ok s \<Longrightarrow> tty_ok (do_cancel m s)"
proof -
  assume s: "tty_ok s"
  have e: "tty_room 1001 (upd_con (\<lambda>x. x\<lparr>tty_inhead := 0, tty_intail := 0, tty_incount := 0, tty_lfct := 0, tty_inleft := 0, tty_inhibited := False\<rparr>) s)"
    using s by (intro tty_room_empty) (simp_all add: tty_ok_room)
  then show ?thesis using s by (simp add: do_cancel_def Let_def tty_ok_room tty_room_upd)
qed

text \<open>The task in its main loop and the serial line that interrupts it.\<close>

inductive tty_step :: "(terminal \<Rightarrow> terminal outcome) \<Rightarrow> terminal \<Rightarrow> terminal \<Rightarrow> bool" for dmp where
  turn: "tty_turn m s = Done t \<Longrightarrow> tty_step dmp s t"
| received: "lisa_scc_int dmp cs s = Done t \<Longrightarrow> tty_step dmp s t"
| flushed: "rs_flush s = Done t \<Longrightarrow> tty_step dmp s t"

lemma tty_turn_ok: "tty_ok s \<Longrightarrow> tty_turn m s = Done t \<Longrightarrow> tty_ok t"
proof -
  assume s: "tty_ok s" and t: "tty_turn m s = Done t"
  consider "charint s = Done t" | "t = tty_reply TASK_REPLY (t_source m) (t_proc m) TTY_EINVAL 0 0 s" | "tty_do_read m s = Done t"
    | "tty_do_write m s = Done t" | "t = tty_do_ioctl m s" | "t = tty_do_setpgrp m s" | "t = do_cancel m s"
    using t unfolding tty_turn_def do_int_def by (fastforce split: if_split_asm)
  then show ?thesis
  proof cases
    case 1 then show ?thesis by (rule charint_ok [OF s])
  next
    case 2 then show ?thesis using s by (simp add: tty_ok_room)
  next
    case 3 then show ?thesis using tty_do_read_ok [OF s, of m] by auto
  next
    case 4 then show ?thesis by (rule tty_do_write_ok [OF s])
  qed (simp_all add: tty_do_ioctl_ok [OF s] tty_do_setpgrp_ok [OF s] do_cancel_ok [OF s])
qed

lemma kbdput_ok: "(\<And>s t. tty_ok s \<Longrightarrow> dmp s = Done t \<Longrightarrow> tty_ok t) \<Longrightarrow> tty_ok s \<Longrightarrow> kbdput dmp c n s = Done t \<Longrightarrow> tty_ok t"
proof -
  assume d: "\<And>s t. tty_ok s \<Longrightarrow> dmp s = Done t \<Longrightarrow> tty_ok t" and s: "tty_ok s" and t: "kbdput dmp c n s = Done t"
  show ?thesis
  proof (cases "c = 0x14")
    case True
    then show ?thesis using d [OF s] t by (simp add: kbdput_def)
  next
    case False
    then have "t = s \<or> length (drv_buf s) < drv_max s \<and> t = s\<lparr>drv_buf := drv_buf s @ [(c, n)]\<rparr>" using t by (auto simp: kbdput_def split: if_splits)
    then show ?thesis using s by (auto simp: tty_ok_def)
  qed
qed

lemma rs_flush_ok: "tty_ok s \<Longrightarrow> rs_flush s = Done t \<Longrightarrow> tty_ok t"
  by (auto simp: rs_flush_def Let_def outcome_simps tty_ok_def split: if_splits)

lemma flush_input_ok: "tty_ok s \<Longrightarrow> flush_input s = Done t \<Longrightarrow> tty_ok t"
  using rs_flush_ok [of s t] by (cases "length (drv_buf s) < THRESHOLD") (auto simp: flush_input_def tty_ok_def)

lemma tty_step_keeps:
  assumes "tty_step dmp s t" and "tty_ok s" and "\<And>s t. tty_ok s \<Longrightarrow> dmp s = Done t \<Longrightarrow> tty_ok t"
  shows "tty_ok t"
  using assms(1)
proof cases
  case (turn m)
  then show ?thesis by (rule tty_turn_ok [OF assms(2)])
next
  case (received cs)
  then obtain v where v: "seq_all (\<lambda>c. kbdput dmp c 0) cs s = Done v" "flush_input v = Done t" by (auto simp: lisa_scc_int_def outcome_simps)
  have "tty_ok v" by (rule seq_all_ok [where P = tty_ok and f = "\<lambda>c. kbdput dmp c 0", OF kbdput_ok [OF assms(3)] assms(2) v(1)])
  then show ?thesis using flush_input_ok v(2) by blast
next
  case flushed
  then show ?thesis by (rule rs_flush_ok [OF assms(2)])
qed

text \<open>
  C18. The state of the terminal stays well-formed in any run of the terminal task, whatever it is asked, whatever is typed
  and in whatever mode: head, tail and count of the input queue belong together and the indices are inside of it, the
  buffer of the driver does not overflow, the cursor is on the screen. The count is 1001 at most, one more than the
  queue holds. \<open>dmp\<close>, the debugging dumps, is supposed to keep this, too.
\<close>

theorem tty_run_well_formed:
  assumes "(tty_step dmp)\<^sup>*\<^sup>* s t" and "tty_ok s" and "\<forall>s t. tty_ok s \<longrightarrow> dmp s = Done t \<longrightarrow> tty_ok t"
  shows "tty_ok t"
  using assms(1,2)
proof (induction rule: rtranclp_induct)
  case (step t u)
  show ?case by (rule tty_step_keeps [OF step.hyps(2) step.IH [OF step.prems]]) (use assms(3) in blast)
qed

subsection \<open>Setting and getting the parameters\<close>

lemma low_bits_eqI: "(\<And>n. n < 32 \<Longrightarrow> bit a n = bit b n) \<Longrightarrow> a = (b :: u32)"
  by (rule bit_word_eqI) simp

lemma bit_byte_of: "bit (push_bit k (ucast (byte_of j w) :: u32)) n \<longleftrightarrow> k \<le> n \<and> n < 32 \<and> n - k < 8 \<and> bit w (j + (n - k))"
  by (auto simp: byte_of_def bit_push_bit_iff bit_unsigned_iff bit_drop_bit_eq dest: bit_imp_le_length)

lemma join_bytes:
  "push_bit 24 (ucast (byte_of 24 w)) OR push_bit 16 (ucast (byte_of 16 w)) OR push_bit 8 (ucast (byte_of 8 w)) OR ucast (byte_of 0 w) = (w :: u32)"
proof (rule low_bits_eqI)
  fix n :: nat assume "n < 32"
  then have "n < 8 \<or> 8 \<le> n \<and> n < 16 \<or> 16 \<le> n \<and> n < 24 \<or> 24 \<le> n \<and> n < 32" by arith
  then show "bit (push_bit 24 (ucast (byte_of 24 w)) OR push_bit 16 (ucast (byte_of 16 w)) OR push_bit 8 (ucast (byte_of 8 w)) OR ucast (byte_of 0 w) :: u32) n = bit w n"
    using bit_byte_of [of 0 0 w n] by (auto simp: bit_or_iff bit_byte_of)
qed

lemma join_speed:
  "push_bit 16 (scast (ucast (drop_bit 16 w) :: u16)) OR push_bit 8 (ucast (byte_of 8 w)) OR ucast (byte_of 0 w) = (w :: u32)"
proof (rule low_bits_eqI)
  fix n :: nat assume n: "n < 32"
  have h: "bit (push_bit 16 (scast (ucast (drop_bit 16 w) :: u16)) :: u32) n \<longleftrightarrow> 16 \<le> n \<and> bit w n"
  proof (cases "n = 31")
    case False
    then show ?thesis using n by (auto simp: bit_push_bit_iff bit_signed_iff bit_unsigned_iff bit_drop_bit_eq min_def)
  qed (simp add: bit_push_bit_iff bit_signed_iff bit_unsigned_iff bit_drop_bit_eq)
  have "n < 8 \<or> 8 \<le> n \<and> n < 16 \<or> 16 \<le> n" by arith
  then show "bit (push_bit 16 (scast (ucast (drop_bit 16 w) :: u16)) OR push_bit 8 (ucast (byte_of 8 w)) OR ucast (byte_of 0 w) :: u32) n = bit w n"
    using bit_byte_of [of 0 0 w n] n by (auto simp: bit_or_iff bit_byte_of h)
qed

lemma join_eof: "push_bit 8 (ucast (byte_of 8 w)) = (w :: u32) AND 0xFF00"
proof (rule low_bits_eqI)
  fix n :: nat assume "n < 32"
  have "bit (0xFF00 :: u32) n \<longleftrightarrow> bit (push_bit 8 (mask 8) :: u32) n" by (simp add: mask_eq_decr_exp push_bit_eq_mult)
  then have "bit (0xFF00 :: u32) n \<longleftrightarrow> 8 \<le> n \<and> n < 16" using \<open>n < 32\<close> by (auto simp: bit_push_bit_iff bit_mask_iff)
  then show "bit (push_bit 8 (ucast (byte_of 8 w)) :: u32) n = bit (w AND 0xFF00) n" using \<open>n < 32\<close> by (auto simp: bit_and_iff bit_byte_of)
qed

lemma high_half: "(ucast (drop_bit 16 w) :: u16) = 0 \<longleftrightarrow> drop_bit 16 (w :: u32) = 0"
proof
  assume z: "(ucast (drop_bit 16 w) :: u16) = 0"
  have "\<not> bit w (16 + n)" for n
    using z bit_imp_le_length [of w "16 + n"] by (cases "n < 16") (auto simp: bit_eq_iff bit_unsigned_iff bit_drop_bit_eq)
  then show "drop_bit 16 w = 0" by (simp add: bit_eq_iff bit_drop_bit_eq)
qed simp

text \<open>
  What \<open>ioctl\<close> has set, \<open>ioctl\<close> gets: after a \<open>TIOCSETP\<close> the reply to a \<open>TIOCGETP\<close> has the same erase and kill characters and
  speed (when the speed given was not 0) and the low 16 bits of the flags, with their sign; after a \<open>TIOCSETC\<close> the reply to a
  \<open>TIOCGETC\<close> has the same special characters.
\<close>

theorem ioctl_round_trip:
  assumes "t_count m = 0x7409" and "t_count g = 0x7408" and "t_count n = 0x7411" and "t_count h = 0x7412" and "drop_bit 16 (t_spek m) \<noteq> 0"
  shows "(let r = last (sent_replies (tty_do_ioctl g (tty_do_ioctl m s))) in r_spek r = t_spek m \<and> r_flags r = scast (ucast (t_flags m) :: u16)) \<and>
    (let r = last (sent_replies (tty_do_ioctl h (tty_do_ioctl n s))) in r_spek r = t_spek n \<and> r_flags r = t_flags n AND 0xFF00)"
proof -
  have "(ucast (drop_bit 16 (t_spek m)) :: u16) \<noteq> 0"
  proof
    assume "(ucast (drop_bit 16 (t_spek m)) :: u16) = 0"
    then have "drop_bit 16 (t_spek m) = 0" by (simp add: high_half)
    then show False using assms(5) by simp
  qed
  then show ?thesis using assms(1-4)
    by (simp add: tty_do_ioctl_def tty_reply_def upd_con_def Let_def join_speed join_bytes) (simp add: join_eof)
qed

subsection \<open>Witnesses\<close>

text \<open>The terminal after the start, with process 2 waiting for a line of 80 characters, and \<open>lx\<close>, erase, \<open>s\<close> and newline typed.\<close>

definition zero_tty :: tty_struct where
  "zero_tty = \<lparr>tty_inqueue = (\<lambda>_. 0), tty_inhead = 0, tty_intail = 0, tty_incount = 0, tty_lfct = 0, tty_ramqueue = (\<lambda>_. 0), tty_rwords = 0,
     tty_mode = 0, tty_speed = 0, tty_escaped = False, tty_inhibited = False, tty_waiting = NOT_WAITING, tty_erase = 0, tty_kill = 0, tty_intr = 0,
     tty_quit = 0, tty_xon = 0, tty_xoff = 0, tty_eof = 0, tty_incaller = 0, tty_inproc = 0, tty_in_vir = 0, tty_inleft = 0, tty_otcaller = 0,
     tty_outproc = 0, tty_out_vir = 0, tty_phys = 0, tty_outleft = 0, tty_cum = 0, tty_pgrp = 0\<rparr>"

definition demo_terminal :: terminal where
  "demo_terminal = tty_init \<lparr>con = zero_tty, drv_buf = [], drv_max = 0, flush_flag = 0, output_done = 0,
     vdu = snd (vdu_init 0x100000 0 zero_vdu), serial = [], sent_replies = [], kern = demo_kernel\<rparr>"

definition demo_reader :: terminal where
  "demo_reader = (upd_con (\<lambda>x. x\<lparr>tty_incaller := 1, tty_inproc := 2, tty_in_vir := 100, tty_inleft := 80\<rparr>) demo_terminal)
     \<lparr>drv_buf := [(108, 0), (120, 0), (8, 0), (115, 0), (10, 0)]\<rparr>"

definition demo_request :: tty_request where
  "demo_request = \<lparr>t_source = 1, t_type = 5, t_line = 0, t_proc = 2, t_count = 0x7409, t_spek = 0x00090840, t_flags = 0xFFFF8018, t_addr = 0\<rparr>"

lemma demo_terminal_simps [simp]:
  "con demo_terminal = zero_tty\<lparr>tty_mode := 0x0C18, tty_erase := 8, tty_kill := 64, tty_intr := 0x7F, tty_quit := 0x1C, tty_xon := 0x11, tty_xoff := 0x13, tty_eof := 4\<rparr>"
  "drv_buf demo_terminal = []" "vdu demo_terminal = snd (vdu_init 0x100000 0 zero_vdu)" "kern demo_terminal = demo_kernel" "sent_replies demo_terminal = []"
  "drv_max demo_terminal = 500"
  by (simp_all add: demo_terminal_def tty_init_def upd_con_def zero_tty_def)

theorem reader_gets_edited_line_witness:
  "\<exists>t. do_int demo_reader = Done t \<and> ram (kern t) = store_bytes 100 [108, 115, 10] (ram demo_kernel) \<and> inq (con t) = [] \<and>
     sent_replies t = [\<lparr>r_dest = 1, r_type = REVIVE, r_proc = 2, r_status = 3, r_flags = 0, r_spek = 0\<rparr>]"
proof -
  have c: "con demo_reader = (con demo_terminal)\<lparr>tty_incaller := 1, tty_inproc := 2, tty_in_vir := 100, tty_inleft := 80\<rparr>"
    "kern demo_reader = demo_kernel" "sent_replies demo_reader = []" "vdu demo_reader = snd (vdu_init 0x100000 0 zero_vdu)"
    by (simp_all add: demo_reader_def upd_con_def)
  note z = c zero_tty_def
  have "ring_ok (con demo_reader)" "inq (con demo_reader) = []" "cooked_console (con demo_reader)"
    by (simp_all add: z ring_ok_def inq_def cooked_console_def text_byte_def)
  moreover have "shown demo_reader" using vdu_init_displays [where memend = "0x100000" and membase = 0] by (auto simp: z shown_def)
  moreover have "tty_lfct (con demo_reader) = 0" by (simp add: z)
  moreover have "drv_buf demo_reader = map (\<lambda>c. (c, 0)) ([108, 120, 8, 115] @ [10])" by (simp add: demo_reader_def)
  moreover have "\<forall>c \<in> set [108, 120, 8, 115]. editable (con demo_reader) c" by (simp add: z editable_def plain_def)
  moreover have "length [108, 120, 8, 115 :: u8] < TTY_IN_BYTES" by simp
  moreover have "tty_inleft (con demo_reader) = int 80" "(0 :: nat) < 80" by (simp_all add: z)
  moreover have "100 = umap (proc_tab (kern demo_reader) (tty_inproc (con demo_reader))) Seg_D (tty_in_vir (con demo_reader)) (word_of_int (int 80))"
    by (simp add: z umap_def Let_def seg_end_def clicks_bytes_def)
  moreover have "(100 :: u32) \<noteq> 0" by simp
  ultimately have "let typed = foldl (edit (con demo_reader)) [] [108, 120, 8, 115] @ [10] in
    \<exists>t. do_int demo_reader = Done t \<and> ram (kern t) = store_bytes 100 (take 80 typed) (ram (kern demo_reader)) \<and>
      sent_replies t = sent_replies demo_reader @ [\<lparr>r_dest = tty_incaller (con demo_reader), r_type = REVIVE, r_proc = tty_inproc (con demo_reader),
        r_status = int (min 80 (length typed)), r_flags = 0, r_spek = 0\<rparr>] \<and>
      inq (con t) = drop 80 typed \<and> ring_ok (con t) \<and> shown t \<and> tty_inleft (con t) = 0 \<and> tty_lfct (con t) = (if 80 < length typed then 1 else 0) \<and> drv_buf t = []"
    by (rule reader_gets_edited_line)
  moreover have "foldl (edit (con demo_reader)) [] [108, 120, 8, 115] = [108, 115]" by (simp add: z edit_def)
  ultimately show ?thesis by (auto simp: z Let_def)
qed

theorem tty_run_well_formed_witness: "tty_ok (tty_do_ioctl demo_request demo_terminal)"
proof (rule tty_run_well_formed [where dmp = Done])
  show "(tty_step Done)\<^sup>*\<^sup>* demo_terminal (tty_do_ioctl demo_request demo_terminal)"
    by (rule r_into_rtranclp, rule turn [where m = demo_request]) (simp add: tty_turn_def demo_request_def)
  show "tty_ok demo_terminal"
    using vdu_init_displays [where memend = "0x100000" and membase = 0] by (auto simp: tty_ok_def ring_ok_def zero_tty_def displays_def)
qed simp

theorem ioctl_round_trip_witness:
  "r_spek (last (sent_replies (tty_do_ioctl (demo_request\<lparr>t_count := 0x7408\<rparr>) (tty_do_ioctl demo_request demo_terminal)))) = 0x00090840"
  using ioctl_round_trip [where m = demo_request and g = "demo_request\<lparr>t_count := 0x7408\<rparr>" and n = "demo_request\<lparr>t_count := 0x7411\<rparr>"
      and h = "demo_request\<lparr>t_count := 0x7412\<rparr>" and s = demo_terminal]
  by (simp add: demo_request_def Let_def)

end
