(* ===== verification/Lib_Number.thy ===== *)
theory Lib_Number
  imports Minix_Prelude "HOL-Library.Signed_Division"
begin

unbundle bit_operations_syntax

section \<open>Library: numbers and text (src/src/lib/ansi, src/src/lib/other)\<close>

text \<open>
  The character classes of \<open>ctype.c\<close>, the conversion of text to numbers (\<open>strtol\<close>, \<open>strtoul\<close>, \<open>atol\<close>, \<open>atoi\<close>), of numbers to text
  (\<open>itoa\<close>), and \<open>printk\<close>, the formatted output of the kernel.

  \<^item> A string is the list of its bytes in front of the NUL. A pointer into a string is the rest of the string from there.
  \<^item> \<open>char\<close> is signed: for a byte from 128 on the macros of \<open>ctype.h\<close> index the table below its start, but for 255, which is the
    entry of \<open>EOF\<close>. Such an access is \<open>Stuck\<close>.
  \<^item> The result of \<open>strtol\<close> is the number, whether \<open>errno\<close> was set to \<open>ERANGE\<close>, and what \<open>*endptr\<close> points to.
  \<^item> The arguments of \<open>printk\<close> are a list; an argument of another type than the conversion wants, or none, is \<open>Stuck\<close>, as is a format
    that ends inside a conversion, where \<open>printk\<close> reads on behind the NUL. What \<open>printk\<close> gives to \<open>putc\<close> is a list.
\<close>

abbreviation (input) LONG_MAX :: int where "LONG_MAX \<equiv> 0x7FFFFFFF"
abbreviation (input) LONG_MIN :: int where "LONG_MIN \<equiv> - 0x80000000"
abbreviation (input) ULONG_MAX :: int where "ULONG_MAX \<equiv> 0xFFFFFFFF"

subsection \<open>Character classes (ctype.c, ctype.h)\<close>

definition ctype_tab :: "u8 list" where
  "ctype_tab =
     [0] @
     replicate 8 0x20 @
     [0x20, 0x28, 0x28, 0x28, 0x28, 0x28, 0x20, 0x20] @
     replicate 16 0x20 @
     0x88 # replicate 15 0x10 @
     replicate 10 4 @ replicate 6 0x10 @
     0x10 # replicate 6 0x41 @ replicate 20 1 @ replicate 5 0x10 @
     0x10 # replicate 6 0x42 @ replicate 20 2 @ replicate 4 0x10 @ [0x20] @
     replicate 128 0"

definition ctype :: "u8 \<Rightarrow> u8 outcome" where
  "ctype c = (if c < 0x80 then Done (ctype_tab ! (unat c + 1)) else if c = 0xFF then Done (ctype_tab ! 0) else Stuck)"

subsection \<open>Text to number\<close>

fun skip_space :: "u8 list \<Rightarrow> u8 list outcome" where
  "skip_space [] = Done []"
| "skip_space (c # s) = and_then (ctype c) (\<lambda>t. if t AND 8 \<noteq> 0 then skip_space s else Done (c # s))"

definition peek :: "u8 list \<Rightarrow> u8" where
  "peek s = (case s of [] \<Rightarrow> 0 | c # _ \<Rightarrow> c)"

definition take_sign :: "u8 list \<Rightarrow> bool \<times> u8 list" where
  "take_sign s = (if peek s = 43 \<or> peek s = 45 then (peek s = 45, tl s) else (False, s))"

text \<open>In the second case \<open>c\<close> is the result of the comparison, so \<open>0X\<close> is not skipped.\<close>

definition take_base :: "int \<Rightarrow> u8 list \<Rightarrow> int \<times> u8 list" where
  "take_base base s =
     (if base = 0
      then if peek s = 48
           then let s1 = tl s in if peek s1 = 120 \<or> peek s1 = 88 then (16, tl s1) else (8, s1)
           else (10, s)
      else if base = 16 \<and> peek s = 48
      then let s1 = tl s; c = (if peek s1 = 120 then 1 else 0 :: int) in (base, if c \<noteq> 0 \<or> c = 88 then tl s1 else s1)
      else (base, s))"

fun digit_loop :: "int \<Rightarrow> int \<Rightarrow> u8 list \<Rightarrow> int \<Rightarrow> bool \<Rightarrow> bool \<Rightarrow> (int \<times> bool \<times> bool \<times> u8 list) outcome" where
  "digit_loop limit_max base [] result overflow saw = Done (result, overflow, saw, [])"
| "digit_loop limit_max base (c # s) result overflow saw =
     and_then (ctype c) (\<lambda>t.
       let d = (if t AND 4 \<noteq> 0 then sint c - 48 else if t AND 1 \<noteq> 0 then sint c - 55 else sint c - 87)
       in if d < 0 \<or> d \<ge> base then Done (result, overflow, saw, c # s)
          else if overflow \<or> result > limit_max div base then digit_loop limit_max base s result True True
          else let r = result * base
               in if d > limit_max - r then digit_loop limit_max base s r True True
                  else digit_loop limit_max base s (r + d) False True)"

text \<open>The common part of \<open>strtol\<close> and \<open>strtoul\<close>, which differ in the limit and at the end.\<close>

definition convert :: "int \<Rightarrow> u8 list \<Rightarrow> int \<Rightarrow> (bool \<times> int \<times> bool \<times> bool \<times> u8 list) outcome" where
  "convert limit_max nptr base0 =
     and_then (skip_space nptr) (\<lambda>s.
       let (negative, s1) = take_sign s; (base, s2) = take_base base0 s1
       in and_then (digit_loop limit_max base s2 0 False False) (\<lambda>(result, overflow, saw, rest).
            Done (negative, result, overflow, saw, rest)))"

definition strtol :: "u8 list \<Rightarrow> int \<Rightarrow> (int \<times> bool \<times> u8 list) outcome" where
  "strtol nptr base =
     and_then (convert LONG_MAX nptr base) (\<lambda>(negative, result, overflow, saw, rest).
       if \<not> saw then Done (0, False, nptr)
       else if overflow then Done (if negative then LONG_MIN else LONG_MAX, True, rest)
       else Done (if negative then - result else result, False, rest))"

definition strtoul :: "u8 list \<Rightarrow> int \<Rightarrow> (u32 \<times> bool \<times> u8 list) outcome" where
  "strtoul nptr base =
     and_then (convert ULONG_MAX nptr base) (\<lambda>(negative, result, overflow, saw, rest).
       if \<not> saw then Done (0, False, nptr)
       else if overflow then Done (word_of_int ULONG_MAX, True, rest)
       else Done (if negative then - word_of_int result else word_of_int result, False, rest))"

text \<open>\<open>atol\<close> and \<open>atoi\<close>: ten times the result by shifts, which wrap around in 32 and in 16 bits.\<close>

fun atol_loop :: "u8 list \<Rightarrow> 'w::len word \<Rightarrow> 'w word" where
  "atol_loop [] result = result"
| "atol_loop (ch # s) result =
     (let c = sint ch - 48
      in if c \<ge> 0 \<and> c < 10 then atol_loop s (push_bit 1 result + push_bit 3 result + word_of_int c) else result)"

definition atol :: "u8 list \<Rightarrow> u32 outcome" where
  "atol nptr = and_then (skip_space nptr) (\<lambda>s.
     let (negative, s1) = take_sign s; result = atol_loop s1 0 in Done (if negative then 0 - result else result))"

definition atoi :: "u8 list \<Rightarrow> u16 outcome" where
  "atoi nptr = and_then (skip_space nptr) (\<lambda>s.
     let (negative, s1) = take_sign s; result = atol_loop s1 0 in Done (if negative then 0 - result else result))"

subsection \<open>Number to text\<close>

text \<open>\<open>itoa\<close> of \<open>itoa.c\<close>: division by the powers of ten. The negative of the smallest \<open>int\<close> is itself.\<close>

fun itoa_loop :: "int list \<Rightarrow> int \<Rightarrow> bool \<Rightarrow> u8 list" where
  "itoa_loop [] n flag = []"
| "itoa_loop (k # ks) n flag =
     (let r = n sdiv k; rest = itoa_loop ks (n - r * k) (flag \<or> r > 0)
      in if flag \<or> r > 0 then word_of_int (48 + r) # rest else rest)"

definition itoa :: "u16 \<Rightarrow> u8 list" where
  "itoa w =
     (let n = (if sint w < 0 then sint (- w) else sint w)
      in (if sint w < 0 then [45] else []) @ (if n = 0 then [48] else itoa_loop [10000, 1000, 100, 10, 1] n False))"

text \<open>
  \<open>_itoa\<close> and \<open>ltoa\<close> of \<open>printk.c\<close> write the digits backwards, from the end of \<open>room\<close> = \<open>MAXDIG\<close> bytes, and move them to the front.
\<close>

abbreviation (input) MAXDIG :: nat where "MAXDIG \<equiv> 11"

definition digit_char :: "nat \<Rightarrow> u8" where
  "digit_char i = (if i + 48 > 57 then of_nat (i + 48 + (65 - 48 - 10)) else of_nat (i + 48))"

fun radix_loop :: "nat \<Rightarrow> nat \<Rightarrow> nat \<Rightarrow> u8 list \<Rightarrow> u8 list outcome" where
  "radix_loop 0 num radix q = Stuck"
| "radix_loop (Suc room) num radix q =
     (let q1 = digit_char (num mod radix) # q; num1 = num div radix
      in if num1 \<noteq> 0 then radix_loop room num1 radix q1 else Done q1)"

definition ltoa :: "nat \<Rightarrow> nat \<Rightarrow> u8 list outcome" where
  "ltoa num radix = radix_loop MAXDIG num radix []"

subsection \<open>printk\<close>

datatype arg = Int_arg u16 | Long_arg u32 | Str_arg "u8 list option"

fun arg_int :: "arg list \<Rightarrow> (u16 \<times> arg list) outcome" where
  "arg_int (Int_arg i # as) = Done (i, as)"
| "arg_int _ = Stuck"

fun arg_long :: "arg list \<Rightarrow> (u32 \<times> arg list) outcome" where
  "arg_long (Long_arg l # as) = Done (l, as)"
| "arg_long _ = Stuck"

fun arg_str :: "arg list \<Rightarrow> (u8 list option \<times> arg list) outcome" where
  "arg_str (Str_arg s # as) = Done (s, as)"
| "arg_str _ = Stuck"

text \<open>A width or a precision: digits and \<open>*\<close>, in \<open>short\<close> arithmetic, to the first other character, which is taken, too.\<close>

fun scan_width :: "u8 list \<Rightarrow> arg list \<Rightarrow> u16 \<Rightarrow> (u8 \<times> u8 list \<times> arg list \<times> u16) outcome" where
  "scan_width [] as width = Stuck"
| "scan_width (c # fmt) as width =
     (if 48 \<le> c \<and> c \<le> 57 then scan_width fmt as (width * 10 + (ucast c - 48))
      else if c = 42 then and_then (arg_int as) (\<lambda>(i, as1). scan_width fmt as1 (width * 10 + i))
      else Done (c, fmt, as, width))"

text \<open>\<open>for (p = s; *p && --ndigit >= 0; p++);\<close>\<close>

fun str_prefix :: "u16 \<Rightarrow> u8 list \<Rightarrow> u8 list" where
  "str_prefix ndigit [] = []"
| "str_prefix ndigit (c # s) = (if sint (ndigit - 1) \<ge> 0 then c # str_prefix (ndigit - 1) s else [])"

text \<open>One conversion: what is to be printed, and with which filler.\<close>

definition number :: "bool \<Rightarrow> nat \<Rightarrow> arg list \<Rightarrow> (u8 list \<times> arg list) outcome" where
  "number lflag radix as =
     (if lflag then and_then (arg_long as) (\<lambda>(l, as1). and_then (ltoa (unat l) radix) (\<lambda>ds. Done (ds, as1)))
      else and_then (arg_int as) (\<lambda>(i, as1). and_then (ltoa (unat i) radix) (\<lambda>ds. Done (ds, as1))))"

definition signed_number :: "bool \<Rightarrow> arg list \<Rightarrow> (u8 list \<times> arg list) outcome" where
  "signed_number lflag as =
     (if lflag
      then and_then (arg_long as) (\<lambda>(l, as1).
             if sint l < 0 then and_then (ltoa (unat (- l)) 10) (\<lambda>ds. Done (45 # ds, as1))
             else and_then (ltoa (unat l) 10) (\<lambda>ds. Done (ds, as1)))
      else and_then (arg_int as) (\<lambda>(i, as1).
             if sint i < 0 then and_then (ltoa (unat (- i)) 10) (\<lambda>ds. Done (45 # ds, as1))
             else and_then (ltoa (unat i) 10) (\<lambda>ds. Done (ds, as1))))"

definition conversion :: "u8 \<Rightarrow> bool \<Rightarrow> u8 \<Rightarrow> u16 \<Rightarrow> arg list \<Rightarrow> (u8 \<times> u8 list \<times> arg list) outcome" where
  "conversion c lflag zfill ndigit as =
     (let filled = (\<lambda>z. \<lambda>(ds, as1). Done (z, ds, as1))
      in if c = 88 then and_then (number True 16 as) (filled zfill)
         else if c = 120 then and_then (number lflag 16 as) (filled zfill)
         else if c = 85 then and_then (number True 10 as) (filled zfill)
         else if c = 117 then and_then (number lflag 10 as) (filled zfill)
         else if c = 79 then and_then (number True 8 as) (filled zfill)
         else if c = 111 then and_then (number lflag 8 as) (filled zfill)
         else if c = 68 then and_then (signed_number True as) (filled zfill)
         else if c = 100 then and_then (signed_number lflag as) (filled zfill)
         else if c = 101 \<or> c = 102 \<or> c = 103 then Done (32, [63], as)
         else if c = 99 then and_then (arg_int as) (\<lambda>(i, as1). Done (32, [ucast i], as1))
         else if c = 115 then and_then (arg_str as) (\<lambda>(so, as1).
                let s = (case so of None \<Rightarrow> [40, 110, 117, 108, 108, 41] | Some s \<Rightarrow> s);
                    n = (if ndigit = 0 then 32767 else ndigit)
                in Done (32, str_prefix n s, as1))
         else Done (zfill, [c], as))"

text \<open>
  The filler goes to the left, behind the sign when it is 0, or to the right. The width is a \<open>short\<close>; what is left of it after
  the text has been taken off is not negative.
\<close>

definition pad :: "bool \<Rightarrow> u8 \<Rightarrow> u16 \<Rightarrow> u8 list \<Rightarrow> u8 list" where
  "pad ljust zfill width text =
     (let w = sint (width - of_nat (length text)); n = nat w; fill = replicate n zfill
      in if n = 0 then text
         else if ljust then text @ fill
         else if text \<noteq> [] \<and> hd text = 45 \<and> zfill = 48 then 45 # fill @ tl text
         else fill @ text)"

definition directive :: "u8 list \<Rightarrow> arg list \<Rightarrow> (u8 list \<times> u8 list \<times> arg list) outcome" where
  "directive fmt as =
     (let ljust = (peek fmt = 45); f1 = (if ljust then tl fmt else fmt);
          zfill = (if peek f1 = 48 then 48 else 32); f2 = (if peek f1 = 48 then tl f1 else f1)
      in and_then (scan_width f2 as 0) (\<lambda>(c, f3, as1, width).
         and_then (if c = 46 then scan_width f3 as1 0 else Done (c, f3, as1, 0)) (\<lambda>(c1, f4, as2, ndigit).
         let lflag = (c1 = 108 \<or> c1 = 76);
             (c2, f5) = (if lflag \<and> f4 \<noteq> [] then (hd f4, tl f4) else (c1, f4))
         in and_then (conversion c2 lflag zfill ndigit as2) (\<lambda>(z, text, as3). Done (pad ljust z width text, f5, as3)))))"

lemma scan_width_shrinks: "scan_width fmt as w = Done (c, fmt1, as1, w1) \<Longrightarrow> length fmt1 < length fmt"
  by (induction fmt as w rule: scan_width.induct) (auto simp: outcome_simps less_Suc_eq split: if_splits)

lemma directive_shrinks: "directive fmt as = Done (text, fmt1, as1) \<Longrightarrow> length fmt1 \<le> length fmt"
proof -
  assume d: "directive fmt as = Done (text, fmt1, as1)"
  define f2 where "f2 = (let f1 = (if peek fmt = 45 then tl fmt else fmt) in if peek f1 = 48 then tl f1 else f1)"
  have f2: "length f2 \<le> length fmt" by (auto simp: f2_def Let_def)
  obtain c f3 as2 width where w: "scan_width f2 as 0 = Done (c, f3, as2, width)"
    using d by (auto simp: directive_def f2_def Let_def outcome_simps)
  obtain c1 f4 as3 nd where n: "(if c = 46 then scan_width f3 as2 0 else Done (c, f3, as2, 0)) = Done (c1, f4, as3, nd)"
    and e: "fmt1 = (if (c1 = 108 \<or> c1 = 76) \<and> f4 \<noteq> [] then tl f4 else f4)"
    using d w by (auto simp: directive_def f2_def Let_def outcome_simps split: if_splits prod.splits)
  have "length f4 \<le> length f3" using n scan_width_shrinks [of f3 as2 0 c1 f4 as3 nd] by (auto split: if_splits)
  then show ?thesis using scan_width_shrinks [OF w] f2 unfolding e by auto
qed

function printk :: "u8 list \<Rightarrow> arg list \<Rightarrow> u8 list outcome" where
  "printk [] as = Done []"
| "printk (c # fmt) as =
     (if c \<noteq> 37 then and_then (printk fmt as) (\<lambda>out. Done (c # out))
      else case directive fmt as of
             Done (text, fmt1, as1) \<Rightarrow> and_then (printk fmt1 as1) (\<lambda>out. Done (text @ out))
           | Panic x \<Rightarrow> Panic x
           | Stuck \<Rightarrow> Stuck)"
  by pat_completeness auto
termination by (relation "measure (\<lambda>(fmt, as). length fmt)") (auto dest: directive_shrinks)

subsection \<open>The table of character classes\<close>

lemma ctype_table:
  "\<forall>n \<in> {0..<128}. (ctype_tab ! Suc n AND 8 \<noteq> 0) = (n = 32 \<or> 9 \<le> n \<and> n \<le> 13)"
  "\<forall>n \<in> {0..<128}. (ctype_tab ! Suc n AND 4 \<noteq> 0) = (48 \<le> n \<and> n \<le> 57)"
  "\<forall>n \<in> {0..<128}. (ctype_tab ! Suc n AND 1 \<noteq> 0) = (65 \<le> n \<and> n \<le> 90)"
  by code_simp+

lemma ctype_ascii:
  assumes "c < 0x80"
  obtains t where "ctype c = Done t" "t AND 8 \<noteq> 0 \<longleftrightarrow> c = 32 \<or> 9 \<le> c \<and> c \<le> 13" "t AND 4 \<noteq> 0 \<longleftrightarrow> 48 \<le> c \<and> c \<le> 57"
    "t AND 1 \<noteq> 0 \<longleftrightarrow> 65 \<le> c \<and> c \<le> 90"
proof
  have n: "unat c \<in> {0..<128}" using assms by (simp add: word_less_nat_alt)
  show "ctype c = Done (ctype_tab ! Suc (unat c))" using assms by (simp add: ctype_def)
  have le: "(k \<le> c) = (unat k \<le> unat c)" "(c \<le> k) = (unat c \<le> unat k)" "(c = k) = (unat c = unat k)" for k
    by (simp_all add: word_le_nat_alt word_unat_eq_iff)
  show "ctype_tab ! Suc (unat c) AND 8 \<noteq> 0 \<longleftrightarrow> c = 32 \<or> 9 \<le> c \<and> c \<le> 13" using bspec [OF ctype_table(1) n] by (simp add: le)
  show "ctype_tab ! Suc (unat c) AND 4 \<noteq> 0 \<longleftrightarrow> 48 \<le> c \<and> c \<le> 57" using bspec [OF ctype_table(2) n] by (simp add: le)
  show "ctype_tab ! Suc (unat c) AND 1 \<noteq> 0 \<longleftrightarrow> 65 \<le> c \<and> c \<le> 90" using bspec [OF ctype_table(3) n] by (simp add: le)
qed

subsection \<open>Reference: the value of a numeral\<close>

definition space :: "u8 \<Rightarrow> bool" where
  "space c \<longleftrightarrow> c = 32 \<or> 9 \<le> c \<and> c \<le> 13"

definition digit_value :: "u8 \<Rightarrow> int" where
  "digit_value c =
     (if 48 \<le> c \<and> c \<le> 57 then uint c - 48 else if 65 \<le> c \<and> c \<le> 90 then uint c - 55 else if 97 \<le> c \<and> c \<le> 122 then uint c - 87 else 99)"

definition value_of :: "int \<Rightarrow> int \<Rightarrow> u8 list \<Rightarrow> int" where
  "value_of base = foldl (\<lambda>r c. r * base + digit_value c)"

text \<open>What \<open>strtol\<close> promises: skip spaces, take a sign, then the digits of the base; a value that is too large is cut off.\<close>

definition numeral_of :: "int \<Rightarrow> u8 list \<Rightarrow> bool \<times> int \<times> u8 list \<times> u8 list" where
  "numeral_of base nptr =
     (let (negative, s) = take_sign (dropWhile space nptr); ds = takeWhile (\<lambda>c. digit_value c < base) s
      in (negative, value_of base 0 ds, ds, dropWhile (\<lambda>c. digit_value c < base) s))"

definition strtol_spec :: "u8 list \<Rightarrow> int \<Rightarrow> int \<times> bool \<times> u8 list" where
  "strtol_spec nptr base =
     (case numeral_of base nptr of (negative, v, ds, rest) \<Rightarrow>
        if ds = [] then (0, False, nptr)
        else if v > LONG_MAX then (if negative then LONG_MIN else LONG_MAX, True, rest)
        else (if negative then - v else v, False, rest))"

text \<open>Seven bits, and none of \<^verbatim>\<open>[ \ ] ^ _ `\<close>, which the code takes for the digits 4 to 9.\<close>

definition regular :: "u8 \<Rightarrow> bool" where
  "regular c \<longleftrightarrow> c < 0x80 \<and> \<not> (91 \<le> c \<and> c \<le> 96)"

lemma skip_space_drops: "\<forall>c \<in> set s. regular c \<Longrightarrow> skip_space s = Done (dropWhile space s)"
proof (induction s)
  case (Cons c s)
  then have "c < 0x80" by (simp add: regular_def)
  then show ?case by (rule ctype_ascii) (use Cons in \<open>simp add: space_def\<close>)
qed simp

lemma uint_sint_ascii: "c < (0x80 :: u8) \<Longrightarrow> sint c = uint c"
proof -
  assume "c < 0x80"
  then have "uint c < 2 ^ 7" by (simp add: word_less_def)
  moreover have "- (2 ^ 7) \<le> uint c" by (rule order_trans [of _ 0]) simp_all
  ultimately show ?thesis using signed_take_bit_int_eq_self [of 7 "uint c"] by (simp add: sint_uint)
qed

lemma overflow_step:
  assumes "0 \<le> r" and "0 < base" and "0 \<le> (d :: int)"
  shows "r > mx div base \<or> d > mx - r * base \<longleftrightarrow> r * base + d > mx"
proof
  assume "r > mx div base \<or> d > mx - r * base"
  then show "r * base + d > mx"
  proof
    assume "r > mx div base"
    then have "(mx div base + 1) * base \<le> r * base" using assms(2) by (intro mult_right_mono) simp_all
    moreover have "mx < (mx div base + 1) * base" using assms(2) by (metis add.commute div_mult_mod_eq distrib_right mult_1 pos_mod_bound add_strict_left_mono)
    ultimately show ?thesis using assms(3) by simp
  qed simp
qed linarith

lemma value_of_mono: "0 \<le> r \<Longrightarrow> 2 \<le> base \<Longrightarrow> \<forall>c \<in> set ds. 0 \<le> digit_value c \<Longrightarrow> r \<le> value_of base r ds"
proof (induction ds arbitrary: r)
  case (Cons c ds)
  have "r * 1 \<le> r * base" using Cons.prems(1,2) by (intro mult_left_mono) simp_all
  then have "r \<le> r * base + digit_value c" using Cons.prems(3) by simp
  moreover from this have "r * base + digit_value c \<le> value_of base (r * base + digit_value c) ds" using Cons by simp
  ultimately show ?case by (simp add: value_of_def)
qed (simp add: value_of_def)

lemma digit_value_nonneg: "0 \<le> digit_value c"
  by (auto simp: digit_value_def word_le_def)

lemma digit_code:
  assumes "regular c" and "base \<le> 36" and "ctype c = Done t" and "t AND 4 \<noteq> 0 \<longleftrightarrow> 48 \<le> c \<and> c \<le> 57" and "t AND 1 \<noteq> 0 \<longleftrightarrow> 65 \<le> c \<and> c \<le> 90"
  shows "let d = (if t AND 4 \<noteq> 0 then sint c - 48 else if t AND 1 \<noteq> 0 then sint c - 55 else sint c - 87)
    in (d < 0 \<or> base \<le> d) = (base \<le> digit_value c) \<and> (digit_value c < base \<longrightarrow> d = digit_value c)"
proof -
  have c: "sint c = uint c" using assms(1) by (intro uint_sint_ascii) (simp add: regular_def)
  have b: "uint c < 128" "\<not> (91 \<le> uint c \<and> uint c \<le> 96)" using assms(1) by (auto simp: regular_def word_less_def word_le_def)
  have "0 \<le> uint c" by simp
  then show ?thesis using b assms(2) unfolding assms(4,5) Let_def c digit_value_def word_le_def by (auto simp: not_le)
qed

lemma digit_loop_value:
  assumes "\<forall>c \<in> set s. regular c" and "2 \<le> base" and "base \<le> 36" and "0 \<le> r" and "ov \<or> r \<le> mx"
  defines "ds \<equiv> takeWhile (\<lambda>c. digit_value c < base) s"
  shows "\<exists>x. digit_loop mx base s r ov saw = Done (x, ov \<or> value_of base r ds > mx, saw \<or> ds \<noteq> [], dropWhile (\<lambda>c. digit_value c < base) s) \<and>
    (\<not> (ov \<or> value_of base r ds > mx) \<longrightarrow> x = value_of base r ds)"
  using assms(1,4,5) unfolding ds_def
proof (induction s arbitrary: r ov saw)
  case Nil
  then show ?case by (auto simp: value_of_def)
next
  case (Cons c s)
  have c: "regular c" and s: "\<forall>c \<in> set s. regular c" using Cons.prems(1) by simp_all
  obtain t where t: "ctype c = Done t" "t AND 4 \<noteq> 0 \<longleftrightarrow> 48 \<le> c \<and> c \<le> 57" "t AND 1 \<noteq> 0 \<longleftrightarrow> 65 \<le> c \<and> c \<le> 90"
    using c ctype_ascii [of c] unfolding regular_def by blast
  define d where "d = (if t AND 4 \<noteq> 0 then sint c - 48 else if t AND 1 \<noteq> 0 then sint c - 55 else sint c - 87)"
  note dc = digit_code [OF c assms(3) t, folded d_def, unfolded Let_def, folded d_def]
  show ?case
  proof (cases "digit_value c < base")
    case False
    then show ?thesis using dc t(1) Cons.prems(3) by (auto simp: Let_def d_def [symmetric] value_of_def)
  next
    case True
    then have d: "d = digit_value c" "0 \<le> d" "d < base" using dc digit_value_nonneg [of c] by auto
    let ?r = "r * base + digit_value c" let ?ds = "takeWhile (\<lambda>c. digit_value c < base) s"
    have r: "0 \<le> ?r" "value_of base r (c # ?ds) = value_of base ?r ?ds" "?r \<le> value_of base ?r ?ds"
      using Cons.prems(2) assms(2) d by (simp_all add: value_of_def value_of_mono [unfolded value_of_def] digit_value_nonneg)
    have o: "r > mx div base \<or> d > mx - r * base \<longleftrightarrow> ?r > mx" using overflow_step [of r base d mx] Cons.prems(2) assms(2) d by simp
    have step: "digit_loop mx base (c # s) r ov saw = (if ov \<or> r > mx div base then digit_loop mx base s r True True
         else if d > mx - r * base then digit_loop mx base s (r * base) True True else digit_loop mx base s ?r False True)"
      using t(1) d by (simp add: Let_def d_def [symmetric])
    show ?thesis
    proof (cases "ov \<or> ?r > mx")
      case True
      then have v: "ov \<or> value_of base r (c # ?ds) > mx" using r by auto
      obtain q where q: "0 \<le> q" "digit_loop mx base (c # s) r ov saw = digit_loop mx base s q True True"
      proof (cases "ov \<or> r > mx div base")
        case True
        then show thesis using that [of r] Cons.prems(2) unfolding step by simp
      next
        case False
        then show thesis using that [of "r * base"] \<open>ov \<or> ?r > mx\<close> o Cons.prems(2) assms(2) unfolding step by simp
      qed
      show ?thesis using Cons.IH [OF s q(1), of True True] v \<open>digit_value c < base\<close> unfolding q(2) by auto
    next
      case False
      then have e: "digit_loop mx base (c # s) r ov saw = digit_loop mx base s ?r False True" using o unfolding step by auto
      show ?thesis using Cons.IH [OF s r(1), of False True] False \<open>digit_value c < base\<close> r(2) unfolding e by auto
    qed
  qed
qed

lemma take_sign_regular: "\<forall>c \<in> set s. regular c \<Longrightarrow> take_sign s = (n, s1) \<Longrightarrow> \<forall>c \<in> set s1. regular c"
  by (cases s) (auto simp: take_sign_def peek_def split: if_splits)

lemma convert_numeral:
  assumes "\<forall>c \<in> set s. regular c" and "2 \<le> base" and "base \<le> 36" and "base \<noteq> 16" and "0 \<le> mx" and "numeral_of base s = (n, v, ds, rest)"
  shows "\<exists>x. convert mx s base = Done (n, x, v > mx, ds \<noteq> [], rest) \<and> (v \<le> mx \<longrightarrow> x = v)"
proof -
  obtain s1 where s1: "take_sign (dropWhile space s) = (n, s1)" "ds = takeWhile (\<lambda>c. digit_value c < base) s1" "v = value_of base 0 ds"
    "rest = dropWhile (\<lambda>c. digit_value c < base) s1"
    using assms(6) by (auto simp: numeral_of_def Let_def split: prod.splits)
  have r: "\<forall>c \<in> set s1. regular c" using take_sign_regular [OF _ s1(1)] assms(1) by (meson set_dropWhileD)
  obtain x where x: "digit_loop mx base s1 0 False False = Done (x, v > mx, ds \<noteq> [], rest)" "v \<le> mx \<longrightarrow> x = v"
    using digit_loop_value [OF r assms(2,3), of 0 False mx False] assms(5) s1 by auto
  have "take_base base s1 = (base, s1)" using assms(2,4) by (simp add: take_base_def)
  then show ?thesis using x s1(1) by (simp add: convert_def skip_space_drops [OF assms(1)])
qed

lemma strtol_meets_spec:
  assumes "\<forall>c \<in> set s. regular c" and "2 \<le> base" and "base \<le> 36" and "base \<noteq> 16"
  shows "strtol s base = Done (strtol_spec s base)"
proof -
  obtain n v ds rest where p: "numeral_of base s = (n, v, ds, rest)" by (cases "numeral_of base s") auto
  obtain x where "convert LONG_MAX s base = Done (n, x, v > LONG_MAX, ds \<noteq> [], rest)" "v \<le> LONG_MAX \<longrightarrow> x = v"
    using convert_numeral [OF assms, of LONG_MAX n v ds rest] p by auto
  then show ?thesis by (auto simp: strtol_def strtol_spec_def p)
qed

text \<open>
  C24. \<open>strtol\<close> returns the number that the text denotes, for every text of seven bit characters other than \<^verbatim>\<open>[ \ ] ^ _ `\<close> and every base
  from 2 to 36 but 16: leading spaces, a sign, as many digits of the base as there are; a value outside of the 32 bit range
  becomes its end, with \<open>ERANGE\<close> (the least value, -2147483648, counts as outside: the code compares the absolute value with \<open>LONG_MAX\<close>); the end pointer is behind the last digit, or at the start when there was none.
\<close>

theorem strtol_reference:
  assumes "\<forall>c \<in> set s. regular c" and "2 \<le> base" and "base \<le> 36" and "base \<noteq> 16"
  shows "strtol s base = Done (strtol_spec s base)"
  using assms by (rule strtol_meets_spec)

theorem strtol_reference_witness: "strtol [32, 45, 49, 50, 120] 10 = Done (- 12, False, [120])"
  using strtol_reference [of "[32, 45, 49, 50, 120]" 10]
  by (simp add: regular_def strtol_spec_def numeral_of_def take_sign_def peek_def space_def digit_value_def value_of_def)

text \<open>The characters between the upper and the lower case letters count as digits, \<open>0\<close> alone as no number when the base is 0 or 16.\<close>

theorem strtol_irregular: "strtol [91] 10 = Done (4, False, [])" "strtol [48] 0 = Done (0, False, [48])" "strtol [48, 88, 49] 16 = Done (0, False, [48, 88, 49])"
  by code_simp+

subsection \<open>Digits\<close>

fun decimals :: "nat \<Rightarrow> nat list" where
  "decimals n = (if 10 \<le> n then decimals (n div 10) @ [n mod 10] else [n])"

declare decimals.simps [simp del]

lemma decimals_below: "d \<in> set (decimals n) \<Longrightarrow> d < 10"
  by (induction n rule: decimals.induct) (subst (asm) (2) decimals.simps, auto split: if_splits)

lemma radix_loop_digits: "n < 10 ^ room \<Longrightarrow> 0 < room \<Longrightarrow> radix_loop room n 10 q = Done (map digit_char (decimals n) @ q)"
proof (induction room arbitrary: n q)
  case (Suc room)
  show ?case
  proof (cases "n < 10")
    case True
    then show ?thesis by (simp add: decimals.simps [of n])
  next
    case False
    then have "n div 10 < 10 ^ room" "0 < room" using Suc.prems(1) by (auto simp: less_mult_imp_div_less mult.commute) (cases room, auto)
    moreover have "n div 10 \<noteq> 0" using False by simp
    ultimately show ?thesis using Suc.IH [of "n div 10"] False by (simp add: decimals.simps [of n] Let_def)
  qed
qed simp

lemma length_digits: "n < 10 ^ k \<Longrightarrow> 0 < k \<Longrightarrow> length (decimals n) \<le> k"
proof (induction k arbitrary: n)
  case (Suc k)
  show ?case
  proof (cases "n < 10")
    case False
    then have "n div 10 < 10 ^ k" "0 < k" using Suc.prems(1) by (auto simp: less_mult_imp_div_less mult.commute) (cases k, auto)
    then show ?thesis using Suc.IH [of "n div 10"] False by (simp add: decimals.simps [of n])
  qed (simp add: decimals.simps [of n])
qed simp

lemma pad_none: "length t < 2 ^ 15 \<Longrightarrow> pad ljust zfill 0 t = t"
proof -
  assume l: "length t < 2 ^ 15"
  have "sint (- (of_nat (length t) :: u16)) = sint (word_of_int (- int (length t)) :: u16)" by simp
  also have "\<dots> = - int (length t)" using l signed_take_bit_int_eq_self [of 15 "- int (length t)"] by (simp add: sint_sbintrunc' del: of_int_minus)
  finally show ?thesis by (simp add: pad_def)
qed

lemma digit_char_value: "d < 10 \<Longrightarrow> digit_value (digit_char d) = int d \<and> regular (digit_char d) \<and> 48 \<le> digit_char d \<and> digit_char d \<le> 57"
proof -
  assume d: "d < 10"
  have "unat (of_nat (d + 48) :: u8) = d + 48" using d by (subst unat_of_nat) simp
  then have "uint (digit_char d) = int d + 48" using d by (simp add: digit_char_def uint_nat del: of_nat_add)
  then show ?thesis using d by (simp add: digit_value_def regular_def word_le_def word_less_def)
qed

lemma value_of_digits: "value_of 10 0 (map digit_char (decimals n)) = int n"
proof (induction n rule: decimals.induct)
  case (1 n)
  show ?case
  proof (cases "n < 10")
    case True
    then show ?thesis using digit_char_value [of n] by (simp add: decimals.simps [of n] value_of_def)
  next
    case False
    have "int (n div 10) * 10 + int (n mod 10) = int n" by presburger
    then show ?thesis using "1.IH" False digit_char_value [of "n mod 10"] by (simp add: decimals.simps [of n] value_of_def)
  qed
qed

lemma decimals_nonempty [simp]: "decimals n \<noteq> []"
  by (subst decimals.simps) simp

text \<open>
  C27. What \<open>printk\<close> prints for a \<open>long\<close> under \<^verbatim>\<open>%ld\<close>, \<open>strtol\<close> reads back as the same number, to the last character, for all 32 bit
  values. For the smallest one it also reports \<open>ERANGE\<close>, although the number fits.
\<close>

theorem printk_strtol_round_trip:
  "\<exists>out. printk [37, 108, 100] [Long_arg l] = Done out \<and> strtol out 10 = Done (sint l, sint l = LONG_MIN, [])"
proof -
  define m where "m = (if sint l < 0 then unat (- l) else unat l)"
  define ds where "ds = map digit_char (decimals m)"
  define out where "out = (if sint l < 0 then [45] else []) @ ds"
  have sl: "- (2 ^ 31) \<le> sint l" "sint l < 2 ^ 31" using sint_greater_eq [of l] sint_lt [of l] by simp_all
  have v: "int m = \<bar>sint l\<bar>"
  proof (cases "sint l < 0")
    case True
    have "uint (- l) = (- sint l) mod 2 ^ 32" by (simp add: uint_word_ariths(4) uint_sint [of l] take_bit_eq_mod mod_minus_eq)
    then show ?thesis using True sl by (simp add: m_def uint_nat [symmetric] mod_pos_pos_trivial)
  next
    case False
    have "uint l = sint l mod 2 ^ 32" by (simp add: uint_sint [of l] take_bit_eq_mod)
    then show ?thesis using False sl by (simp add: m_def uint_nat [symmetric] mod_pos_pos_trivial)
  qed
  then have "int m \<le> 2 ^ 31" using sl by linarith
  then have "m < 10 ^ 11" by simp
  then have "length out < 2 ^ 15" using length_digits [of m 11] by (simp add: out_def ds_def)
  then have pad_out: "sint l < 0 \<Longrightarrow> pad False 32 0 (45 # ds) = 45 # ds" "\<not> sint l < 0 \<Longrightarrow> pad False 32 0 ds = ds"
    by (simp_all add: out_def pad_none)
  have "ltoa m 10 = Done ds" using \<open>m < 10 ^ 11\<close> radix_loop_digits [of m 11 "[]"] by (simp add: ltoa_def ds_def)
  then have p: "printk [37, 108, 100] [Long_arg l] = Done out"
    by (auto simp: directive_def peek_def conversion_def signed_number_def pad_out Let_def out_def m_def)
  have d: "digit_value c < 10 \<and> regular c \<and> 48 \<le> c" if "c \<in> set ds" for c
    using that decimals_below [of _ m] digit_char_value by (fastforce simp: ds_def)
  obtain c cs where cs: "ds = c # cs" by (cases ds) (simp_all add: ds_def)
  have c: "48 \<le> c" "c \<noteq> 45" "c \<noteq> 43" "\<not> space c" using d [of c] by (auto simp: cs space_def word_le_def)
  have t: "takeWhile (\<lambda>c. digit_value c < 10) ds = ds" "dropWhile (\<lambda>c. digit_value c < 10) ds = []" using d by (auto intro!: takeWhile_eq_all_conv [THEN iffD2])
  have minus: "\<not> space 45" by (simp add: space_def)
  have "take_sign (dropWhile space out) = (sint l < 0, ds)" using c minus by (simp add: out_def cs take_sign_def peek_def)
  then have n: "numeral_of 10 out = (sint l < 0, int m, ds, [])"
    using value_of_digits [of m] by (simp add: numeral_of_def Let_def t ds_def [symmetric])
  have "\<forall>c \<in> set out. regular c" using d by (auto simp: out_def regular_def)
  from strtol_meets_spec [OF this] have "strtol out 10 = Done (strtol_spec out 10)" by simp
  then show ?thesis using p v sl by (auto simp: strtol_spec_def n cs)
qed

end
