(* ===== verification/Lib_Time.thy ===== *)
theory Lib_Time
  imports Lib_Number
begin

unbundle bit_operations_syntax

section \<open>Library: calendar time (src/src/lib/ansi/ctime.c)\<close>

text \<open>
  \<open>gmtime\<close>, \<open>localtime\<close>, \<open>mktime\<close> and the time zone. \<open>time_t\<close> is a 32 bit \<open>long\<close>; sums are taken exactly and reduced to 32 bits in the end,
  which is the same. The two globals of the time zone are arguments: \<open>tz\<close>, seconds west of GMT, and \<open>dst\<close>; \<open>tzset\<close> gives their values from
  the variable \<open>TZ\<close>. \<open>days_per_mth\<close> is set for the year before each use, so it is a function of the year. \<open>asctime\<close> and \<open>ctime\<close>, which print
  a time, are not modelled.
\<close>

abbreviation (input) SECS_PER_MIN :: int where "SECS_PER_MIN \<equiv> 60"
abbreviation (input) SECS_PER_HOUR :: int where "SECS_PER_HOUR \<equiv> 3600"
abbreviation (input) SECS_PER_DAY :: int where "SECS_PER_DAY \<equiv> 86400"
abbreviation (input) SECS_PER_YEAR :: int where "SECS_PER_YEAR \<equiv> 31536000"
abbreviation (input) SECS_PER_LEAPYEAR :: int where "SECS_PER_LEAPYEAR \<equiv> 31622400"

record tm =
  tm_sec :: int
  tm_min :: int
  tm_hour :: int
  tm_mday :: int
  tm_mon :: int
  tm_year :: int
  tm_wday :: int
  tm_yday :: int
  tm_isdst :: int

definition long :: "int \<Rightarrow> int" where
  "long x = signed_take_bit 31 x"

definition days_per_mth :: "bool \<Rightarrow> int list" where
  "days_per_mth leap = [31, if leap then 29 else 28, 31, 30, 31, 30, 31, 31, 30, 31, 30, 31]"

subsection \<open>Daylight saving time\<close>

definition indst :: "tm \<Rightarrow> bool" where
  "indst t =
     (if tm_mon t = 3
      then if tm_year t < 87 \<and> tm_wday t + 30 - tm_mday t < 7 then True else tm_wday t - tm_mday t < 0
      else if tm_mon t = 9 then \<not> (tm_wday t + 31 - tm_mday t < 7)
      else tm_mon t > 3 \<and> tm_mon t < 9)"

subsection \<open>mktime\<close>

fun add_months :: "nat \<Rightarrow> int list \<Rightarrow> int outcome" where
  "add_months 0 ds = Done 0"
| "add_months (Suc n) [] = Stuck"
| "add_months (Suc n) (d # ds) = and_then (add_months n ds) (\<lambda>s. Done (SECS_PER_DAY * d + s))"

definition mktime :: "int \<Rightarrow> int \<Rightarrow> tm \<Rightarrow> int outcome" where
  "mktime tz dst t =
     (let y = tm_year t - 70
      in if y < 0 then Done (-1)
         else and_then (add_months (nat (tm_mon t)) (days_per_mth ((y + 2) mod 4 = 0))) (\<lambda>ms.
           let s = SECS_PER_YEAR * y + ((y + 1) div 4) * SECS_PER_DAY + ms + (tm_mday t - 1) * SECS_PER_DAY + tm_hour t * SECS_PER_HOUR +
                 tm_min t * SECS_PER_MIN + tm_sec t + tz
           in Done (long (if dst = 1 \<and> indst t then s - SECS_PER_HOUR else s))))"

subsection \<open>gmtime, localtime\<close>

function year_loop :: "int \<Rightarrow> int \<Rightarrow> int \<times> int" where
  "year_loop time year =
     (if time < SECS_PER_YEAR then (time, year)
      else if year mod 4 = 0
      then if time < SECS_PER_LEAPYEAR then (time, year) else year_loop (time - SECS_PER_LEAPYEAR) (year + 1)
      else year_loop (time - SECS_PER_YEAR) (year + 1))"
  by pat_completeness auto
termination by (relation "measure (\<lambda>(time, year). nat time)") auto

declare year_loop.simps [simp del]

fun month_loop :: "int \<Rightarrow> int \<Rightarrow> int list \<Rightarrow> (int \<times> int) outcome" where
  "month_loop i mday [] = Stuck"
| "month_loop i mday (d # ds) = (if mday \<ge> d then month_loop (i + 1) (mday - d) ds else Done (i, mday))"

definition gmtime :: "int \<Rightarrow> tm option outcome" where
  "gmtime time =
     (if time < 0 then Done None
      else let wday = (time div SECS_PER_DAY + 4) mod 7; (rest, year) = year_loop time 70; yday = rest div SECS_PER_DAY
           in and_then (month_loop 0 yday (days_per_mth (year mod 4 = 0))) (\<lambda>(mon, mday).
                let sod = rest mod SECS_PER_DAY
                in Done (Some \<lparr>tm_sec = sod mod SECS_PER_HOUR mod SECS_PER_MIN, tm_min = sod mod SECS_PER_HOUR div SECS_PER_MIN,
                     tm_hour = sod div SECS_PER_HOUR, tm_mday = mday + 1, tm_mon = mon, tm_year = year, tm_wday = wday, tm_yday = yday, tm_isdst = 0\<rparr>)))"

definition localtime :: "int \<Rightarrow> int \<Rightarrow> int \<Rightarrow> tm option outcome" where
  "localtime tz dst t =
     and_then (gmtime (long (t - tz))) (\<lambda>so.
       case so of
         None \<Rightarrow> Done None
       | Some stm \<Rightarrow>
           let s1 = stm\<lparr>tm_isdst := (if dst = -1 then -1 else 0)\<rparr>
           in Done (Some (if dst = 1 \<and> indst s1
             then let s2 = s1\<lparr>tm_isdst := 1, tm_hour := tm_hour s1 + 1\<rparr>
                  in if tm_hour s2 > 23
                     then let s3 = s2\<lparr>tm_hour := tm_hour s2 - 24, tm_wday := (tm_wday s2 + 1) mod 7, tm_yday := tm_yday s2 + 1, tm_mday := tm_mday s2 + 1\<rparr>
                          in if tm_mday s3 > days_per_mth (tm_year s3 mod 4 = 0) ! nat (tm_mon s3)
                             then s3\<lparr>tm_mday := 1, tm_mon := tm_mon s3 + 1\<rparr> else s3
                     else s2
             else s1)))"

subsection \<open>The time zone\<close>

fun skip_alpha :: "u8 list \<Rightarrow> u8 list outcome" where
  "skip_alpha [] = Done []"
| "skip_alpha (c # s) = and_then (ctype c) (\<lambda>t. if t AND 3 \<noteq> 0 then skip_alpha s else Done (c # s))"

fun take_number :: "u8 list \<Rightarrow> u16 \<Rightarrow> (u16 \<times> u8 list) outcome" where
  "take_number [] x = Done (x, [])"
| "take_number (c # s) x = and_then (ctype c) (\<lambda>t. if t AND 4 \<noteq> 0 then take_number s (10 * x + (ucast c - 48)) else Done (x, c # s))"

definition tzoffset :: "u8 list option \<Rightarrow> (int \<times> int) outcome" where
  "tzoffset so =
     (case so of None \<Rightarrow> Done (0, -1) | Some s \<Rightarrow>
        if s = [] then Done (0, -1)
        else and_then (skip_alpha s) (\<lambda>s1.
          let sgn = (if peek s1 = 45 then -1 else 1); s2 = (if peek s1 = 45 then tl s1 else s1)
          in and_then (take_number s2 0) (\<lambda>(x, s3).
             and_then (if peek s3 = 58 then and_then (take_number (tl s3) 0) (\<lambda>(m, s4). Done (sint x * SECS_PER_HOUR + sint m * SECS_PER_MIN, s4))
                       else Done (sint x * SECS_PER_HOUR, s3)) (\<lambda>(off, s5).
             and_then (ctype (peek s5)) (\<lambda>t. Done (sgn * off, if t AND 3 \<noteq> 0 then 1 else 0))))))"

text \<open>\<open>tzset\<close> sets \<open>timezone\<close> and \<open>dst\<close>; \<open>mktime\<close> and \<open>localtime\<close> call it when \<open>timezone\<close> is still \<open>-1\<close>.\<close>

definition tzset :: "u8 list option \<Rightarrow> int \<times> int \<Rightarrow> (int \<times> int) outcome" where
  "tzset env z = (if fst z = -1 then tzoffset env else Done z)"

subsection \<open>Days since 1970\<close>

text \<open>The number of days from the start of 1970 to the start of the year \<open>1900 + y\<close>, with a leap year every four years.\<close>

definition days_to :: "int \<Rightarrow> int" where
  "days_to y = 365 * (y - 70) + (y - 69) div 4"

definition year_days :: "int \<Rightarrow> int" where
  "year_days y = (if y mod 4 = 0 then 366 else 365)"

lemma days_to_next: "days_to (y + 1) = days_to y + year_days y"
proof -
  have "(y + 1 - 69) div 4 = (y - 69) div 4 + (if y mod 4 = 0 then 1 else 0)" by presburger
  then show ?thesis by (simp add: days_to_def year_days_def)
qed

lemma year_loop_days:
  "0 \<le> time \<Longrightarrow> year_loop time year = (r, y) \<Longrightarrow>
   year \<le> y \<and> 0 \<le> r \<and> r < SECS_PER_DAY * year_days y \<and> time + SECS_PER_DAY * days_to year = r + SECS_PER_DAY * days_to y"
proof (induction time year rule: year_loop.induct)
  case (1 time year)
  have d: "SECS_PER_DAY * days_to (year + 1) = SECS_PER_DAY * days_to year + SECS_PER_DAY * year_days year" by (simp add: days_to_next distrib_left)
  consider "time < SECS_PER_DAY * year_days year"
    | "time \<ge> SECS_PER_DAY * year_days year" "year mod 4 = 0" | "time \<ge> SECS_PER_DAY * year_days year" "year mod 4 \<noteq> 0" by linarith
  then show ?case
  proof cases
    case 1
    then have "r = time" "y = year" using "1.prems" by (auto simp: year_loop.simps [of time year] year_days_def split: if_splits)
    then show ?thesis using 1 "1.prems"(1) by simp
  next
    case 2
    then have "year_loop (time - SECS_PER_LEAPYEAR) (year + 1) = (r, y)" using "1.prems" by (auto simp: year_loop.simps [of time year] year_days_def)
    moreover have "\<not> time < SECS_PER_YEAR" "\<not> time < SECS_PER_LEAPYEAR" using 2 by (auto simp: year_days_def)
    ultimately show ?thesis using "1.IH"(1) 2 d by (simp add: year_days_def)
  next
    case 3
    then have "year_loop (time - SECS_PER_YEAR) (year + 1) = (r, y)" using "1.prems" by (auto simp: year_loop.simps [of time year] year_days_def)
    moreover have "\<not> time < SECS_PER_YEAR" using 3 by (auto simp: year_days_def)
    ultimately show ?thesis using "1.IH"(2) 3 d by (simp add: year_days_def)
  qed
qed

lemma month_loop_finds:
  "0 \<le> mday \<Longrightarrow> mday < sum_list ds \<Longrightarrow>
   \<exists>k m. month_loop i mday ds = Done (i + int k, m) \<and> k < length ds \<and> 0 \<le> m \<and> m < ds ! k \<and> mday = sum_list (take k ds) + m"
proof (induction ds arbitrary: i mday)
  case (Cons d ds)
  show ?case
  proof (cases "mday \<ge> d")
    case True
    then obtain k m where "month_loop (i + 1) (mday - d) ds = Done (i + 1 + int k, m)" "k < length ds" "0 \<le> m" "m < ds ! k" "mday - d = sum_list (take k ds) + m"
      using Cons.IH [of "mday - d" "i + 1"] Cons.prems by auto
    then show ?thesis using True by (intro exI [of _ "Suc k"] exI [of _ m]) auto
  next
    case False
    then show ?thesis using Cons.prems by (intro exI [of _ 0] exI [of _ mday]) auto
  qed
qed simp

lemma add_months_sum: "k \<le> length ds \<Longrightarrow> add_months k ds = Done (SECS_PER_DAY * sum_list (take k ds))"
  by (induction k ds rule: add_months.induct) (auto simp: distrib_left)

lemma days_per_mth_sum: "sum_list (days_per_mth b) = (if b then 366 else 365)" "length (days_per_mth b) = 12"
  by (simp_all add: days_per_mth_def)

text \<open>What the fields of a \<open>tm\<close> say, as seconds since 1970, and when they are those of a date.\<close>

definition seconds :: "tm \<Rightarrow> int" where
  "seconds t = SECS_PER_DAY * (days_to (tm_year t) + sum_list (take (nat (tm_mon t)) (days_per_mth (tm_year t mod 4 = 0))) + tm_mday t - 1) +
     SECS_PER_HOUR * tm_hour t + SECS_PER_MIN * tm_min t + tm_sec t"

definition tm_ok :: "tm \<Rightarrow> bool" where
  "tm_ok t \<longleftrightarrow> 0 \<le> tm_sec t \<and> tm_sec t < 60 \<and> 0 \<le> tm_min t \<and> tm_min t < 60 \<and> 0 \<le> tm_hour t \<and> tm_hour t < 24 \<and> 70 \<le> tm_year t \<and>
     0 \<le> tm_mon t \<and> tm_mon t < 12 \<and> 1 \<le> tm_mday t \<and> tm_mday t \<le> days_per_mth (tm_year t mod 4 = 0) ! nat (tm_mon t) \<and>
     tm_yday t = sum_list (take (nat (tm_mon t)) (days_per_mth (tm_year t mod 4 = 0))) + tm_mday t - 1"

lemma gmtime_seconds:
  assumes "0 \<le> time"
  obtains t where "gmtime time = Done (Some t)" "tm_ok t" "seconds t = time" "tm_wday t = (time div SECS_PER_DAY + 4) mod 7" "tm_isdst t = 0"
    "tm_yday t < year_days (tm_year t)"
proof -
  obtain r y where l: "year_loop time 70 = (r, y)" by (cases "year_loop time 70") auto
  note f = year_loop_days [OF assms l]
  define yday where "yday = r div SECS_PER_DAY"
  define sod where "sod = r mod SECS_PER_DAY"
  have r: "r = SECS_PER_DAY * yday + sod" "0 \<le> sod" "sod < SECS_PER_DAY" by (simp_all add: yday_def sod_def)
  have "0 \<le> yday" using f by (simp add: yday_def pos_imp_zdiv_nonneg_iff)
  moreover have "SECS_PER_DAY * yday + sod < SECS_PER_DAY * year_days y" using f unfolding r(1) [symmetric] by blast
  then have "yday < year_days y" using r(2) by linarith
  ultimately obtain k m where k: "month_loop 0 yday (days_per_mth (y mod 4 = 0)) = Done (int k, m)" "k < 12" "0 \<le> m" "m < days_per_mth (y mod 4 = 0) ! k"
    "yday = sum_list (take k (days_per_mth (y mod 4 = 0))) + m"
    using month_loop_finds [of yday "days_per_mth (y mod 4 = 0)" 0] by (auto simp: days_per_mth_sum year_days_def)
  define x where "x = sod mod 3600"
  define t where "t = \<lparr>tm_sec = x mod 60, tm_min = x div 60, tm_hour = sod div 3600, tm_mday = m + 1, tm_mon = int k, tm_year = y,
    tm_wday = (time div SECS_PER_DAY + 4) mod 7, tm_yday = yday, tm_isdst = 0\<rparr>"
  have "60 * (x div 60) + x mod 60 = x" "3600 * (sod div 3600) + x = sod" by (simp_all add: x_def)
  then have s: "3600 * (sod div 3600) + 60 * (x div 60) + x mod 60 = sod" by linarith
  have "0 \<le> x" "x < 3600" by (simp_all add: x_def)
  then have b: "0 \<le> x div 60" "x div 60 < 60" "0 \<le> sod div 3600" "sod div 3600 < 24" using r(2,3) by linarith+
  have "gmtime time = Done (Some t)" using assms l k(1) by (simp add: gmtime_def Let_def yday_def sod_def x_def t_def)
  moreover have "tm_ok t" using f k b by (auto simp: tm_ok_def t_def)
  moreover have "seconds t = time" using f k r s by (simp add: seconds_def t_def days_to_def) 
  ultimately show thesis using that [of t] \<open>yday < year_days y\<close> by (simp add: t_def)
qed

lemma mktime_seconds:
  assumes "tm_ok t" and "dst \<noteq> 1"
  shows "mktime tz dst t = Done (long (seconds t + tz))"
proof -
  have m: "nat (tm_mon t) \<le> 12" "\<not> tm_year t - 70 < 0" using assms(1) unfolding tm_ok_def by linarith+
  have l: "((tm_year t - 70 + 2) mod 4 = 0) = (tm_year t mod 4 = 0)" by presburger
  have a: "add_months (nat (tm_mon t)) (days_per_mth (tm_year t mod 4 = 0)) = Done (SECS_PER_DAY * sum_list (take (nat (tm_mon t)) (days_per_mth (tm_year t mod 4 = 0))))"
    using m(1) by (intro add_months_sum) (simp add: days_per_mth_sum)
  have y: "tm_year t - 70 + 1 = tm_year t - 69" by simp
  show ?thesis unfolding mktime_def Let_def l a y using m(2) assms(2) by (simp add: seconds_def days_to_def algebra_simps)
qed

lemma long_id: "- (2 ^ 31) \<le> x \<Longrightarrow> x < 2 ^ 31 \<Longrightarrow> long x = x"
  by (simp add: long_def signed_take_bit_int_eq_self)

text \<open>
  C25. \<open>localtime\<close> and \<open>mktime\<close> are inverse: for every 32-bit time that is not before 1970 in the time zone and, shifted by the zone, still
  fits in 32 bits (\<open>ctime.c\<close> subtracts in a \<open>long\<close>), when the zone has no daylight saving time, \<open>localtime\<close> returns a date, all fields in range and the day of the year that of month and day, and \<open>mktime\<close> of it is the time.
\<close>

theorem mktime_localtime:
  assumes "0 \<le> t - tz" and "t - tz < 2 ^ 31" and "- (2 ^ 31) \<le> t" and "t < 2 ^ 31" and "dst \<noteq> 1"
  shows "\<exists>d. localtime tz dst t = Done (Some d) \<and> tm_ok d \<and> tm_wday d = ((t - tz) div SECS_PER_DAY + 4) mod 7 \<and> mktime tz dst d = Done t"
proof -
  obtain g where g: "gmtime (t - tz) = Done (Some g)" "tm_ok g" "seconds g = t - tz" "tm_wday g = ((t - tz) div SECS_PER_DAY + 4) mod 7"
    using gmtime_seconds [OF assms(1)] by metis
  let ?d = "g\<lparr>tm_isdst := (if dst = -1 then -1 else 0)\<rparr>"
  have d: "tm_ok ?d" "seconds ?d = t - tz" using g by (simp_all add: tm_ok_def seconds_def)
  have "localtime tz dst t = Done (Some ?d)" using g(1) assms by (simp add: localtime_def long_id)
  moreover have "mktime tz dst ?d = Done t" using mktime_seconds [OF d(1) assms(5), of tz] d(2) assms(3,4) by (simp add: long_id)
  ultimately show ?thesis using d(1) g(4) by auto
qed

theorem mktime_localtime_witness: "\<exists>d. localtime 18000 0 500000000 = Done (Some d) \<and> mktime 18000 0 d = Done 500000000"
  using mktime_localtime [of 500000000 18000 0] by auto

text \<open>The zone of the comment in the source: five hours west of Greenwich, with daylight saving time.\<close>

lemma tzoffset_EST: "tzoffset (Some [69, 83, 84, 53, 69, 68, 84]) = Done (18000, 1)"
  by code_simp

end
