(* ===== verification/Lisa_Kbd.thy ===== *)
theory Lisa_Kbd
  imports Kernel_TTY Lib_Time
begin

unbundle bit_operations_syntax

section \<open>Kernel: the keyboard and the clock of the Lisa (src/src/kernel/lisa/lisakbd.c)\<close>

text \<open>
  The COPS sends bytes: keys that go down and up, movements of the mouse, and reset codes, one of which starts a reading of the real-time
  clock. \<open>cops_byte\<close> is the state machine that takes them apart; characters go to the terminal (\<open>kbdput\<close>), a clock reading
  sets the time of day (\<open>clock_set_boot_time\<close>). A key held down repeats by the clock interrupt (\<open>kb_timer\<close>).

  \<^item> The state is \<open>keyboard\<close>: the variables of \<open>lisakbd.c\<close>, the terminal \<open>tt\<close> and the clock task's \<open>clk\<close>. \<open>app_mode\<close> is in the state of the screen.
  \<^item> \<open>rtc_bytes\<close> has five elements; an index outside of it is \<open>Stuck\<close>.
  \<^item> \<open>dmp\<close> stands for the two debugging dumps, as in \<open>Kernel_TTY\<close>. \<open>lisa_kbd_init\<close> and \<open>lisa_read_rtc\<close> only write to the registers of the VIA and
    are not modelled; the byte that \<open>lisa_cops_int\<close> reads, if there is one, is its argument.
\<close>

datatype kb_phase = S_KEY | S_RESET | S_MOUSE_X | S_MOUSE_Y | S_CLOCK

record keyboard =
  kb_state :: kb_phase
  kb_count :: int
  rtc_year :: int
  rtc_bytes :: "int \<Rightarrow> u8"
  kb_shift :: bool
  kb_lock :: bool
  kb_command :: bool
  repeat_code :: u8
  repeat_tics :: int
  tt :: terminal
  clk :: clock

abbreviation (input) REPEAT_DELAY :: int where "REPEAT_DELAY \<equiv> 24"
abbreviation (input) REPEAT_RATE :: int where "REPEAT_RATE \<equiv> 4"

definition chars :: "string \<Rightarrow> u8 list" where
  "chars s = map of_char s"

definition kb_normal :: "u8 list" where
  "kb_normal =
     [27, 45, 0, 0, 55, 56, 57, 0, 52, 53, 54, 0, 46, 50, 51, 10] @
     [0, 0, 0, 0, 0, 0, 0, 0, 0, 0, 0, 0, 0, 0, 0, 0] @
     [45, 61, 92, 0, 112, 8, 10, 0, 13, 48, 0, 0, 47, 49, 27, 0] @
     chars ''90uijk[]'' @ [109, 108, 59, 39, 32, 44, 46, 111] @
     chars ''e6785rty'' @ [96, 102, 103, 104, 118, 99, 98, 110] @
     chars ''a2341qsw'' @ [9, 122, 120, 100, 27, 0, 0, 0]"

definition kb_shifted :: "u8 list" where
  "kb_shifted =
     [0x7F, 45, 43, 42, 55, 56, 57, 47, 52, 53, 54, 44, 46, 50, 51, 10] @
     [0, 0, 0, 0, 0, 0, 0, 0, 0, 0, 0, 0, 0, 0, 0, 0] @
     [95, 43, 124, 0, 80, 8, 10, 0, 13, 48, 0, 0, 63, 49, 27, 0] @
     chars ''()UIJK{}'' @ [77, 76, 58, 34, 32, 60, 62, 79] @
     chars ''E^&*%RTY'' @ [126, 70, 71, 72, 86, 67, 66, 78] @
     chars ''A@#$!QSW'' @ [9, 90, 88, 68, 27, 0, 0, 0]"

subsection \<open>Keys\<close>

definition put_key :: "(terminal \<Rightarrow> terminal outcome) \<Rightarrow> u8 \<Rightarrow> keyboard \<Rightarrow> keyboard outcome" where
  "put_key dmp c k = and_then (kbdput dmp c 0 (tt k)) (\<lambda>t. Done (k\<lparr>tt := t\<rparr>))"

definition arrow :: "u8 \<Rightarrow> u8" where
  "arrow code = (if code = 0x27 then 65 else if code = 0x2B then 66 else if code = 0x23 then 67 else if code = 0x22 then 68 else 0)"

definition key_char :: "keyboard \<Rightarrow> u8 \<Rightarrow> u8" where
  "key_char k code =
     (let c = (if kb_shift k then kb_shifted else kb_normal) ! unat (code - 0x20);
          c1 = (if kb_lock k \<and> 97 \<le> c \<and> c \<le> 122 then c - 32 else c)
      in if c = 0 then 0 else if kb_command k then c1 AND 0x1F else c1)"

text \<open>A key without a character gives nothing; \<open>key_char\<close> can also be 0 because of the Command key, and then 0 is stored.\<close>

definition key_down :: "(terminal \<Rightarrow> terminal outcome) \<Rightarrow> u8 \<Rightarrow> keyboard \<Rightarrow> keyboard outcome" where
  "key_down dmp code k =
     (if code < 0x20 then Done k
      else if \<not> kb_shift k \<and> arrow code \<noteq> 0
      then seq_all (put_key dmp) [27, if app_mode (vdu (tt k)) then 79 else 91, arrow code] k
      else if (if kb_shift k then kb_shifted else kb_normal) ! unat (code - 0x20) = 0 then Done k
      else put_key dmp (key_char k code) k)"

definition kbd_flush :: "keyboard \<Rightarrow> keyboard outcome" where
  "kbd_flush k = and_then (flush_input (tt k)) (\<lambda>t. Done (k\<lparr>tt := t\<rparr>))"

definition kb_timer :: "(terminal \<Rightarrow> terminal outcome) \<Rightarrow> keyboard \<Rightarrow> keyboard outcome" where
  "kb_timer dmp k =
     (if repeat_code k \<noteq> 0
      then let k1 = k\<lparr>repeat_tics := repeat_tics k - 1\<rparr>
           in if repeat_tics k1 = 0
              then and_then (key_down dmp (repeat_code k1) k1) (\<lambda>k2. kbd_flush (k2\<lparr>repeat_tics := REPEAT_RATE\<rparr>))
              else Done k1
      else Done k)"

subsection \<open>The real-time clock\<close>

definition putc :: "u8 \<Rightarrow> terminal \<Rightarrow> terminal outcome" where
  "putc c s = and_then (out_char c s) (\<lambda>s1. Done (show_cursor True s1))"

definition printf :: "u8 list \<Rightarrow> arg list \<Rightarrow> terminal \<Rightarrow> terminal outcome" where
  "printf fmt args s = and_then (printk fmt args) (\<lambda>out. seq_all putc out s)"

definition hi :: "u8 \<Rightarrow> int" where
  "hi b = uint (drop_bit 4 b AND 0x0F)"

definition lo :: "u8 \<Rightarrow> int" where
  "lo b = uint (b AND 0x0F)"

fun add_years :: "nat \<Rightarrow> int \<Rightarrow> int \<Rightarrow> int" where
  "add_years 0 y t = t"
| "add_years (Suc n) y t = add_years n (y + 1) (t + (if y mod 4 = 0 then 366 else 365))"

definition rtc_reading :: "keyboard \<Rightarrow> keyboard outcome" where
  "rtc_reading k =
     (let p = rtc_bytes k; year = 1980 + rtc_year k; day = hi (p 0) * 100 + lo (p 0) * 10 + hi (p 1); hour = lo (p 1) * 10 + hi (p 2);
          mnt = lo (p 2) * 10 + hi (p 3); sec = lo (p 3) * 10 + hi (p 4)
      in if day < 1 \<or> day > 366 \<or> hour > 23 \<or> mnt > 59 \<or> sec > 59
         then and_then (printf (chars ''Lisa clock: bad reading %d day %d %d:%d:%d'' @ [10])
                (map (\<lambda>i. Int_arg (word_of_int i)) [year, day, hour, mnt, sec]) (tt k)) (\<lambda>t. Done (k\<lparr>tt := t\<rparr>))
         else let days = add_years (nat (year - 1970)) 1970 0 + (day - 1);
                  t = ((days * 24 + hour) * 60 + mnt) * 60 + sec
              in Done (k\<lparr>clk := clock_set_boot_time t (clk k)\<rparr>))"

subsection \<open>The byte stream\<close>

definition cops_byte :: "(terminal \<Rightarrow> terminal outcome) \<Rightarrow> u8 \<Rightarrow> keyboard \<Rightarrow> keyboard outcome" where
  "cops_byte dmp b k =
     (let code = b AND 0x7F; down = (b AND 0x80 \<noteq> 0)
      in case kb_state k of
           S_RESET \<Rightarrow>
             let k1 = (if 0xE0 \<le> b \<and> b \<le> 0xEF then k\<lparr>kb_state := S_CLOCK, kb_count := 5, rtc_year := uint (b AND 0x0F)\<rparr> else k\<lparr>kb_state := S_KEY\<rparr>)
             in Done (k1\<lparr>kb_shift := False, kb_command := False, repeat_code := 0\<rparr>)
         | S_MOUSE_X \<Rightarrow> Done (k\<lparr>kb_state := S_MOUSE_Y\<rparr>)
         | S_MOUSE_Y \<Rightarrow> Done (k\<lparr>kb_state := S_KEY\<rparr>)
         | S_CLOCK \<Rightarrow>
             let i = 5 - kb_count k
             in if i < 0 \<or> i \<ge> 5 then Stuck
                else let k1 = k\<lparr>rtc_bytes := (rtc_bytes k)(i := b), kb_count := kb_count k - 1\<rparr>
                     in if kb_count k1 = 0 then rtc_reading (k1\<lparr>kb_state := S_KEY\<rparr>) else Done k1
         | S_KEY \<Rightarrow>
             if code = 0 then Done (k\<lparr>kb_state := (if down then S_RESET else S_MOUSE_X)\<rparr>)
             else if code = 0x7E then Done (k\<lparr>kb_shift := down\<rparr>)
             else if code = 0x7D then Done (k\<lparr>kb_lock := down\<rparr>)
             else if code = 0x7F then Done (k\<lparr>kb_command := down\<rparr>)
             else if down then and_then (key_down dmp code k) (\<lambda>k1.
                    Done (if code \<ge> 0x20 then k1\<lparr>repeat_code := code, repeat_tics := REPEAT_DELAY\<rparr> else k1))
             else Done (if code = repeat_code k then k\<lparr>repeat_code := 0\<rparr> else k))"

definition lisa_cops_int :: "(terminal \<Rightarrow> terminal outcome) \<Rightarrow> u8 option \<Rightarrow> keyboard \<Rightarrow> keyboard outcome" where
  "lisa_cops_int dmp bo k = and_then (case bo of None \<Rightarrow> Done k | Some b \<Rightarrow> cops_byte dmp b k) kbd_flush"

subsection \<open>The tables\<close>

text \<open>The Shift and the Caps Lock key make the same capitals.\<close>

lemma shift_is_lock: "\<forall>i \<in> {0..<96}. 97 \<le> kb_normal ! i \<and> kb_normal ! i \<le> 122 \<longrightarrow> kb_shifted ! i = kb_normal ! i - 32"
  by code_simp

subsection \<open>What every byte and every tick keep\<close>

definition kbd_ok :: "keyboard \<Rightarrow> bool" where
  "kbd_ok k \<longleftrightarrow> tty_ok (tt k) \<and> (kb_state k = S_CLOCK \<longrightarrow> 1 \<le> kb_count k \<and> kb_count k \<le> 5) \<and>
     (repeat_code k \<noteq> 0 \<longrightarrow> 0x20 \<le> repeat_code k \<and> repeat_code k < 0x80 \<and> 1 \<le> repeat_tics k \<and> repeat_tics k \<le> REPEAT_DELAY)"

text \<open>\<open>key_only k j\<close>: at most the terminal has changed.\<close>

definition key_only :: "keyboard \<Rightarrow> keyboard \<Rightarrow> bool" where
  "key_only k j \<longleftrightarrow> (\<exists>t. tty_ok t \<and> j = k\<lparr>tt := t\<rparr>)"

definition dumps_ok :: "(terminal \<Rightarrow> terminal outcome) \<Rightarrow> bool" where
  "dumps_ok dmp \<longleftrightarrow> (\<forall>s t. tty_ok s \<longrightarrow> dmp s = Done t \<longrightarrow> tty_ok t)"

lemma put_key_only: "dumps_ok dmp \<Longrightarrow> tty_ok (tt k) \<Longrightarrow> put_key dmp c k = Done j \<Longrightarrow> key_only k j"
proof -
  assume d: "dumps_ok dmp" and k: "tty_ok (tt k)" and j: "put_key dmp c k = Done j"
  obtain t where t: "kbdput dmp c 0 (tt k) = Done t" "j = k\<lparr>tt := t\<rparr>" using j by (auto simp: put_key_def outcome_simps)
  have "tty_ok t" by (rule kbdput_ok [OF _ k t(1)]) (use d in \<open>auto simp: dumps_ok_def\<close>)
  then show ?thesis using t(2) by (auto simp: key_only_def)
qed

lemma key_only_refl: "tty_ok (tt k) \<Longrightarrow> key_only k k"
  unfolding key_only_def by (intro exI [of _ "tt k"]) simp

lemma key_only_trans: "key_only k j \<Longrightarrow> key_only j i \<Longrightarrow> key_only k i"
  by (auto simp: key_only_def)

lemma put_keys_only: "dumps_ok dmp \<Longrightarrow> tty_ok (tt k) \<Longrightarrow> seq_all (put_key dmp) cs k = Done j \<Longrightarrow> key_only k j"
proof (induction cs arbitrary: k)
  case Nil
  then show ?case by (simp add: key_only_refl)
next
  case (Cons c cs)
  then obtain i where i: "put_key dmp c k = Done i" "seq_all (put_key dmp) cs i = Done j" by (auto simp: outcome_simps)
  have o: "key_only k i" using put_key_only [OF Cons.prems(1,2) i(1)] .
  then have "tty_ok (tt i)" by (auto simp: key_only_def)
  from key_only_trans [OF o Cons.IH [OF Cons.prems(1) this i(2)]] show ?case .
qed

lemma key_down_only: "dumps_ok dmp \<Longrightarrow> tty_ok (tt k) \<Longrightarrow> key_down dmp code k = Done j \<Longrightarrow> key_only k j"
proof -
  assume d: "dumps_ok dmp" "tty_ok (tt k)" and j: "key_down dmp code k = Done j"
  show ?thesis
  proof (cases "code < 0x20 \<or> (\<not> kb_shift k \<and> arrow code \<noteq> 0)")
    case True
    then show ?thesis using j d put_keys_only [of dmp k] key_only_refl [of k] unfolding key_down_def by (auto split: if_splits simp del: seq_all.simps)
  next
    case False
    then show ?thesis using j d put_key_only [of dmp k] key_only_refl [of k] unfolding key_down_def by (auto split: if_splits)
  qed
qed

lemma kbd_flush_only: "tty_ok (tt k) \<Longrightarrow> kbd_flush k = Done j \<Longrightarrow> key_only k j"
  using flush_input_ok by (auto simp: kbd_flush_def outcome_simps key_only_def)

lemma putc_ok: "tty_ok s \<Longrightarrow> putc c s = Done t \<Longrightarrow> tty_ok t"
  using out_char_room [of 1001 s c] tty_room_cursor [of 1001 _ True] by (auto simp: putc_def outcome_simps tty_ok_room)

lemma rtc_reading_only:
  assumes "tty_ok (tt k)" and "rtc_reading k = Done j"
  shows "\<exists>t c. tty_ok t \<and> j = k\<lparr>tt := t, clk := c\<rparr>"
proof -
  consider t where "j = k\<lparr>clk := t\<rparr>" | out t where "seq_all putc out (tt k) = Done t" "j = k\<lparr>tt := t\<rparr>"
    using assms(2) by (auto simp: rtc_reading_def printf_def Let_def outcome_simps split: if_splits)
  then show ?thesis
  proof cases
    case 2
    have "tty_ok t" by (rule seq_all_ok [where P = tty_ok and f = putc, OF putc_ok assms(1) 2(1)])
    then show ?thesis using 2(2) by (intro exI [of _ t] exI [of _ "clk k"]) simp
  next
    case (1 c)
    then show ?thesis using assms(1) by (intro exI [of _ "tt k"] exI [of _ c]) simp
  qed
qed

lemma kbd_ok_key: "kbd_ok k \<Longrightarrow> key_only k j \<Longrightarrow> kbd_ok j"
  by (auto simp: key_only_def kbd_ok_def)

lemma cops_byte_ok:
  assumes d: "dumps_ok dmp" and k: "kbd_ok k" and j: "cops_byte dmp b k = Done j"
  shows "kbd_ok j"
proof (cases "kb_state k")
  case S_KEY
  let ?code = "b AND 0x7F"
  have c: "?code < 0x80" by (rule le_less_trans [of _ "0x7F"]) (auto intro: word_and_le1)
  have t: "tty_ok (tt k)" using k by (simp add: kbd_ok_def)
  note e = j [unfolded cops_byte_def Let_def S_KEY kb_phase.simps]
  consider "?code = 0" | "?code \<noteq> 0" "?code = 0x7E \<or> ?code = 0x7D \<or> ?code = 0x7F"
    | "?code \<notin> {0, 0x7E, 0x7D, 0x7F}" "b AND 0x80 \<noteq> 0" | "?code \<notin> {0, 0x7E, 0x7D, 0x7F}" "b AND 0x80 = 0" by blast
  then show ?thesis
  proof cases
    case 1
    then have "j = k\<lparr>kb_state := (if b AND 0x80 \<noteq> 0 then S_RESET else S_MOUSE_X)\<rparr>" using e by simp
    then show ?thesis using k by (simp add: kbd_ok_def)
  next
    case 2
    then have "j = k\<lparr>kb_shift := b AND 0x80 \<noteq> 0\<rparr> \<or> j = k\<lparr>kb_lock := b AND 0x80 \<noteq> 0\<rparr> \<or> j = k\<lparr>kb_command := b AND 0x80 \<noteq> 0\<rparr>" using e by auto
    then show ?thesis using k by (auto simp: kbd_ok_def)
  next
    case 3
    then obtain i where i: "key_down dmp ?code k = Done i" "j = (if ?code \<ge> 0x20 then i\<lparr>repeat_code := ?code, repeat_tics := REPEAT_DELAY\<rparr> else i)"
      using e by (cases "key_down dmp ?code k") simp_all
    have "kbd_ok i" using kbd_ok_key [OF k key_down_only [OF d t i(1)]] .
    then show ?thesis unfolding i(2) using c by (simp add: kbd_ok_def)
  next
    case 4
    then have "j = (if ?code = repeat_code k then k\<lparr>repeat_code := 0\<rparr> else k)" using e by simp
    then show ?thesis using k by (simp add: kbd_ok_def)
  qed
next
  case S_CLOCK
  define k1 where "k1 = k\<lparr>rtc_bytes := (rtc_bytes k)(5 - kb_count k := b), kb_count := kb_count k - 1\<rparr>"
  have n: "1 \<le> kb_count k" "kb_count k \<le> 5" using k S_CLOCK by (simp_all add: kbd_ok_def)
  then have e: "(if kb_count k1 = 0 then rtc_reading (k1\<lparr>kb_state := S_KEY\<rparr>) else Done k1) = Done j"
    using j S_CLOCK by (auto simp: cops_byte_def Let_def k1_def)
  show ?thesis
  proof (cases "kb_count k1 = 0")
    case True
    obtain t c where "tty_ok t" "j = k1\<lparr>kb_state := S_KEY, tt := t, clk := c\<rparr>"
      using rtc_reading_only [of "k1\<lparr>kb_state := S_KEY\<rparr>" j] e True k by (auto simp: k1_def kbd_ok_def)
    then show ?thesis using k by (simp add: kbd_ok_def k1_def)
  next
    case False
    then have "j = k1" "kb_count k - 1 \<noteq> 0" using e by (simp_all add: k1_def)
    then show ?thesis using k n by (auto simp: kbd_ok_def k1_def)
  qed
qed (use k j in \<open>auto simp: cops_byte_def Let_def kbd_ok_def split: if_splits\<close>)

lemma kb_timer_ok:
  assumes d: "dumps_ok dmp" and k: "kbd_ok k" and j: "kb_timer dmp k = Done j"
  shows "kbd_ok j"
proof (cases "repeat_code k \<noteq> 0 \<and> repeat_tics k = 1")
  case True
  let ?k = "k\<lparr>repeat_tics := 0\<rparr>"
  have t: "tty_ok (tt ?k)" using k by (simp add: kbd_ok_def)
  obtain i where i: "key_down dmp (repeat_code k) ?k = Done i" "kbd_flush (i\<lparr>repeat_tics := REPEAT_RATE\<rparr>) = Done j"
    using j True by (auto simp: kb_timer_def Let_def outcome_simps)
  have "kbd_ok (i\<lparr>repeat_tics := REPEAT_RATE\<rparr>)" using key_down_only [OF d t i(1)] k by (auto simp: key_only_def kbd_ok_def)
  then show ?thesis using kbd_ok_key [OF _ kbd_flush_only [OF _ i(2)]] by (simp add: kbd_ok_def)
next
  case False
  then have "j = k\<lparr>repeat_tics := repeat_tics k - 1\<rparr> \<and> repeat_code k \<noteq> 0 \<or> j = k" using j by (auto simp: kb_timer_def Let_def split: if_splits)
  then show ?thesis using k False by (auto simp: kbd_ok_def)
qed

inductive kbd_step :: "(terminal \<Rightarrow> terminal outcome) \<Rightarrow> keyboard \<Rightarrow> keyboard \<Rightarrow> bool" for dmp where
  byte: "lisa_cops_int dmp bo k = Done j \<Longrightarrow> kbd_step dmp k j"
| tick: "kb_timer dmp k = Done j \<Longrightarrow> kbd_step dmp k j"
| task: "tty_step dmp (tt k) t \<Longrightarrow> kbd_step dmp k (k\<lparr>tt := t\<rparr>)"

text \<open>
  C26. However bytes of the COPS, ticks of the clock, characters on the serial line and requests to the terminal task are interleaved, the
  keyboard stays in order: the index into the five bytes of a clock reading is inside of them, a key that repeats is a key of
  the tables with a tick count from 1 to 24, and the terminal stays well-formed. The debugging dumps are supposed to keep this.
\<close>

theorem keyboard_run_ok:
  assumes "(kbd_step dmp)\<^sup>*\<^sup>* k j" and "kbd_ok k" and "dumps_ok dmp"
  shows "kbd_ok j"
  using assms(1)
proof (induction rule: rtranclp_induct)
  case base
  show ?case by (rule assms(2))
next
  case (step j i)
  from step.hyps(2) show ?case
  proof cases
    case (byte bo)
    obtain h where h: "(case bo of None \<Rightarrow> Done j | Some b \<Rightarrow> cops_byte dmp b j) = Done h" "kbd_flush h = Done i"
      using byte by (auto simp: lisa_cops_int_def outcome_simps)
    have "kbd_ok h" using h(1) step.IH cops_byte_ok [OF assms(3) step.IH] by (auto split: option.splits)
    then show ?thesis using kbd_ok_key [OF _ kbd_flush_only [OF _ h(2)]] by (simp add: kbd_ok_def)
  next
    case tick
    then show ?thesis by (rule kb_timer_ok [OF assms(3) step.IH])
  next
    case (task t)
    have "tty_ok t" by (rule tty_step_keeps [OF task(2)]) (use assms(3) step.IH in \<open>auto simp: kbd_ok_def dumps_ok_def\<close>)
    then show ?thesis using step.IH unfolding task(1) by (simp add: kbd_ok_def)
  qed
qed

subsection \<open>The clock of the Lisa\<close>

definition bcd :: "int \<Rightarrow> int \<Rightarrow> u8" where
  "bcd a b = word_of_int (16 * a + b)"

text \<open>The seven bytes of a clock reading: the year from 1980, the day of the year, hour, minute, second and tenth.\<close>

definition clock_report :: "int \<Rightarrow> int \<Rightarrow> int \<Rightarrow> int \<Rightarrow> int \<Rightarrow> int \<Rightarrow> u8 list" where
  "clock_report year day hour mnt sec tenth =
     [0x80, word_of_int (0xE0 + year), bcd (day div 100) (day div 10 mod 10), bcd (day mod 10) (hour div 10), bcd (hour mod 10) (mnt div 10),
      bcd (mnt mod 10) (sec div 10), bcd (sec mod 10) tenth]"

lemma low_nibble: "uint (w AND 0x0F) = uint (w :: u8) mod 16"
proof -
  have "(0x0F :: int) = mask 4" by (simp add: mask_eq_exp_minus_1)
  then have "uint w AND 0x0F = uint w mod 2 ^ 4" by (simp only: take_bit_eq_mask [symmetric] take_bit_eq_mod)
  then show ?thesis by (simp add: unsigned_and_eq)
qed

lemma nibbles: "lo w = uint w mod 16" "hi w = uint w div 16 mod 16"
  by (simp_all add: lo_def hi_def low_nibble drop_bit_eq_div uint_div)

lemma bcd_nibbles:
  assumes "0 \<le> a" "a < 16" "0 \<le> b" "b < 16"
  shows "hi (bcd a b) = a \<and> lo (bcd a b) = b"
proof -
  have "uint (bcd a b) = (16 * a + b) mod 256" unfolding bcd_def by (subst uint_word_of_int) simp
  also have "\<dots> = 16 * a + b" using assms by (intro mod_pos_pos_trivial) linarith+
  finally show ?thesis using assms by (simp add: nibbles)
qed

lemma add_years_days: "add_years n (1900 + y) t = t + days_to (y + int n) - days_to y"
proof (induction n arbitrary: y t)
  case (Suc n)
  have "((1900 + y) mod 4 = 0) = (y mod 4 = 0)" by presburger
  then have "add_years (Suc n) (1900 + y) t = add_years n (1900 + (y + 1)) (t + year_days y)" by (simp add: year_days_def add.commute add.left_commute)
  then show ?case using Suc.IH [of "y + 1" "t + year_days y"] days_to_next [of y] by (simp add: algebra_simps)
qed simp

lemma years_1970: "0 \<le> n \<Longrightarrow> add_years (nat n) 1970 0 = days_to (70 + n)"
  using add_years_days [of "nat n" 70 0] by (simp add: days_to_def)

text \<open>Year and day of the year are determined by the number of days.\<close>

lemma days_to_mono: "days_to y + year_days y \<le> days_to (y + 1 + int n)"
proof (induction n)
  case (Suc n)
  have "days_to (y + 1 + int (Suc n)) = days_to (y + 1 + int n) + year_days (y + 1 + int n)" using days_to_next [of "y + 1 + int n"] by (simp add: algebra_simps)
  then show ?case using Suc by (simp add: year_days_def)
qed (simp add: days_to_next)

lemma year_unique:
  assumes "days_to y + d = days_to y' + d'" and "0 \<le> d" "d < year_days y" "0 \<le> d'" "d' < year_days y'"
  shows "y = y' \<and> d = d'"
proof -
  have "\<not> y < y'" using days_to_mono [of y "nat (y' - y - 1)"] assms by auto
  moreover have "\<not> y' < y" using days_to_mono [of y' "nat (y - y' - 1)"] assms by auto
  ultimately show ?thesis using assms(1) by simp
qed

lemma day_unique:
  assumes "86400 * D + 3600 * h + 60 * m + s = 86400 * D' + 3600 * h' + 60 * m' + (s' :: int)"
    and "0 \<le> h" "h < 24" "0 \<le> m" "m < 60" "0 \<le> s" "s < 60" "0 \<le> h'" "h' < 24" "0 \<le> m'" "m' < 60" "0 \<le> s'" "s' < 60"
  shows "D = D' \<and> h = h' \<and> m = m' \<and> s = s'"
proof -
  have "D = D'" using assms by linarith
  moreover from this have "h = h'" using assms by linarith
  moreover from this have "m = m'" using assms \<open>D = D'\<close> by linarith
  ultimately show ?thesis using assms(1) by simp
qed

lemma date_unique:
  assumes "tm_ok t" and "seconds t = 86400 * (days_to y + d) + 3600 * h + 60 * m + s" and "tm_yday t < year_days (tm_year t)"
    and "0 \<le> d" "d < year_days y" "0 \<le> h" "h < 24" "0 \<le> m" "m < 60" "0 \<le> s" "s < 60"
  shows "tm_year t = y \<and> tm_yday t = d \<and> tm_hour t = h \<and> tm_min t = m \<and> tm_sec t = s"
proof -
  have n: "0 \<le> sum_list (take k (days_per_mth b))" for k b by (rule sum_list_nonneg) (auto simp: days_per_mth_def dest!: in_set_takeD split: if_splits)
  have y: "0 \<le> tm_yday t" using assms(1) n [of "nat (tm_mon t)" "tm_year t mod 4 = 0"] by (simp add: tm_ok_def)
  have "seconds t = 86400 * (days_to (tm_year t) + tm_yday t) + 3600 * tm_hour t + 60 * tm_min t + tm_sec t" using assms(1) by (simp add: seconds_def tm_ok_def)
  then have u: "days_to (tm_year t) + tm_yday t = days_to y + d \<and> tm_hour t = h \<and> tm_min t = m \<and> tm_sec t = s"
    using assms by (intro day_unique) (simp_all add: tm_ok_def)
  then show ?thesis using year_unique [of "tm_year t" "tm_yday t" y d] y assms by simp
qed

definition report_ok :: "int \<Rightarrow> int \<Rightarrow> int \<Rightarrow> int \<Rightarrow> int \<Rightarrow> int \<Rightarrow> bool" where
  "report_ok year day hour mnt sec tenth \<longleftrightarrow> 0 \<le> year \<and> year \<le> 15 \<and> 1 \<le> day \<and> day \<le> year_days (80 + year) \<and> 0 \<le> hour \<and> hour \<le> 23 \<and>
     0 \<le> mnt \<and> mnt \<le> 59 \<and> 0 \<le> sec \<and> sec \<le> 59 \<and> 0 \<le> tenth \<and> tenth \<le> 9"

lemma rtc_reading_sets:
  assumes "report_ok year day hour mnt sec tenth" and "rtc_year k = year"
    and "rtc_bytes k 0 = bcd (day div 100) (day div 10 mod 10)" "rtc_bytes k 1 = bcd (day mod 10) (hour div 10)" "rtc_bytes k 2 = bcd (hour mod 10) (mnt div 10)"
    "rtc_bytes k 3 = bcd (mnt mod 10) (sec div 10)" "rtc_bytes k 4 = bcd (sec mod 10) tenth"
  shows "rtc_reading k = Done (k\<lparr>clk := clock_set_boot_time (86400 * (days_to (80 + year) + day - 1) + 3600 * hour + 60 * mnt + sec) (clk k)\<rparr>)"
proof -
  have r: "0 \<le> year" "1 \<le> day" "day \<le> 366" "0 \<le> hour" "hour \<le> 23" "0 \<le> mnt" "mnt \<le> 59" "0 \<le> sec" "sec \<le> 59" "0 \<le> tenth" "tenth \<le> 9"
    using assms(1) by (simp_all add: report_ok_def year_days_def split: if_splits)
  have d: "day div 100 < 16" "hour div 10 < 16" "mnt div 10 < 16" "sec div 10 < 16" "0 \<le> day div 100" "0 \<le> hour div 10" "0 \<le> mnt div 10" "0 \<le> sec div 10"
    using r by linarith+
  have m: "0 \<le> x mod 10" "x mod 10 < 16" for x :: int by (simp, rule less_trans [of _ 10]) simp_all
  have n: "hi (rtc_bytes k 0) = day div 100" "lo (rtc_bytes k 0) = day div 10 mod 10" "hi (rtc_bytes k 1) = day mod 10" "lo (rtc_bytes k 1) = hour div 10"
    "hi (rtc_bytes k 2) = hour mod 10" "lo (rtc_bytes k 2) = mnt div 10" "hi (rtc_bytes k 3) = mnt mod 10" "lo (rtc_bytes k 3) = sec div 10" "hi (rtc_bytes k 4) = sec mod 10"
    unfolding assms(3-7)
    using bcd_nibbles [OF d(5,1) m [of "day div 10"]] bcd_nibbles [OF m [of day] d(6,2)] bcd_nibbles [OF m [of hour] d(7,3)] bcd_nibbles [OF m [of mnt] d(8,4)]
      bcd_nibbles [OF m [of sec] r(10)] r(11)
    by simp_all
  have c: "day div 100 * 100 + day div 10 mod 10 * 10 + day mod 10 = day" "hour div 10 * 10 + hour mod 10 = hour" "mnt div 10 * 10 + mnt mod 10 = mnt" "sec div 10 * 10 + sec mod 10 = sec"
  proof -
    have "day div 100 = day div 10 div 10" using zdiv_zmult2_eq [of 10 day 10] by simp
    moreover have "day div 10 div 10 * 10 + day div 10 mod 10 = day div 10" "day div 10 * 10 + day mod 10 = day" by simp_all
    ultimately show "day div 100 * 100 + day div 10 mod 10 * 10 + day mod 10 = day" by linarith
  qed simp_all
  have y: "add_years (nat (1980 + year - 1970)) 1970 0 = days_to (80 + year)" using years_1970 [of "10 + year"] r(1) by simp
  show ?thesis unfolding rtc_reading_def Let_def n assms(2) c y using r by (simp add: algebra_simps)
qed

lemma report_collected:
  assumes "report_ok year day hour mnt sec tenth" and "kb_state k = S_KEY"
  obtains j where "seq_all (cops_byte dmp) (clock_report year day hour mnt sec tenth) k = rtc_reading j" "kb_state j = S_KEY" "rtc_year j = year" "clk j = clk k"
    "rtc_bytes j 0 = bcd (day div 100) (day div 10 mod 10)" "rtc_bytes j 1 = bcd (day mod 10) (hour div 10)" "rtc_bytes j 2 = bcd (hour mod 10) (mnt div 10)"
    "rtc_bytes j 3 = bcd (mnt mod 10) (sec div 10)" "rtc_bytes j 4 = bcd (sec mod 10) tenth"
proof -
  let ?b = "word_of_int (0xE0 + year) :: u8"
  have "uint ?b = (0xE0 + year) mod 256" by (subst uint_word_of_int) simp
  then have u: "uint ?b = 0xE0 + year" using assms(1) by (simp add: report_ok_def)
  then have b: "0xE0 \<le> ?b" "?b \<le> 0xEF" using assms(1) by (simp_all add: word_le_def report_ok_def)
  have l: "uint (?b AND 0x0F) = year" using u assms(1) by (simp add: low_nibble report_ok_def) presburger
  define k1 where "k1 = k\<lparr>kb_state := S_CLOCK, kb_count := 5, rtc_year := year, kb_shift := False, kb_command := False, repeat_code := 0\<rparr>"
  have two: "seq_all (cops_byte dmp) [0x80, ?b] k = Done k1" using assms(2) b l by (simp add: cops_byte_def Let_def k1_def del: of_int_add)
  have f: "kb_state k1 = S_CLOCK" "kb_count k1 = 5" "rtc_year k1 = year" "clk k1 = clk k" by (simp_all add: k1_def)
  define j where "j = k1\<lparr>rtc_bytes := (rtc_bytes k1)(0 := bcd (day div 100) (day div 10 mod 10), 1 := bcd (day mod 10) (hour div 10), 2 := bcd (hour mod 10) (mnt div 10),
      3 := bcd (mnt mod 10) (sec div 10), 4 := bcd (sec mod 10) tenth), kb_count := 0, kb_state := S_KEY\<rparr>"
  have last: "and_then x (seq_all f []) = x" for x :: "keyboard outcome" and f :: "u8 \<Rightarrow> keyboard \<Rightarrow> keyboard outcome" by (cases x) simp_all
  have five: "seq_all (cops_byte dmp) [b0, b1, b2, b3, b4] k1 = rtc_reading (k1\<lparr>rtc_bytes := (rtc_bytes k1)(0 := b0, 1 := b1, 2 := b2, 3 := b3, 4 := b4), kb_count := 0, kb_state := S_KEY\<rparr>)" for b0 b1 b2 b3 b4
    using f last by (simp add: cops_byte_def Let_def)
  have "seq_all (cops_byte dmp) (clock_report year day hour mnt sec tenth) k = rtc_reading j"
    using seq_all_append [of "cops_byte dmp" "[0x80, ?b]" _ k] two five unfolding clock_report_def j_def by (metis and_then.simps(1) append_Cons append_Nil)
  then show thesis using that [of j] f by (simp add: j_def)
qed

text \<open>
  C22. The clock of the Lisa gives the time of day: when the COPS reports year, day of the year, hour, minute and second, digit by digit in seven
  bytes, the clock task's time of day is the number of seconds since 1970 of that moment, below the limit of 32 bits, and
  \<open>gmtime\<close> of the library turns it back into the same year, day, hour, minute and second.
\<close>

theorem clock_report_read_back:
  assumes "report_ok year day hour mnt sec tenth" and "kb_state k = S_KEY"
  shows "\<exists>j d. seq_all (cops_byte dmp) (clock_report year day hour mnt sec tenth) k = Done j \<and> kb_state j = S_KEY \<and>
    0 \<le> do_get_time (clk j) \<and> do_get_time (clk j) < 2 ^ 31 \<and> gmtime (do_get_time (clk j)) = Done (Some d) \<and>
    tm_year d = 80 + year \<and> tm_yday d = day - 1 \<and> tm_hour d = hour \<and> tm_min d = mnt \<and> tm_sec d = sec"
proof -
  let ?t = "86400 * (days_to (80 + year) + day - 1) + 3600 * hour + 60 * mnt + sec"
  obtain i where i: "seq_all (cops_byte dmp) (clock_report year day hour mnt sec tenth) k = rtc_reading i" "kb_state i = S_KEY" "rtc_year i = year"
    "rtc_bytes i 0 = bcd (day div 100) (day div 10 mod 10)" "rtc_bytes i 1 = bcd (day mod 10) (hour div 10)" "rtc_bytes i 2 = bcd (hour mod 10) (mnt div 10)"
    "rtc_bytes i 3 = bcd (mnt mod 10) (sec div 10)" "rtc_bytes i 4 = bcd (sec mod 10) tenth"
    using report_collected [OF assms, of dmp] by metis
  let ?j = "i\<lparr>clk := clock_set_boot_time ?t (clk i)\<rparr>"
  have j: "rtc_reading i = Done ?j" by (rule rtc_reading_sets [OF assms(1) i(3-8)])
  have t: "do_get_time (clk ?j) = ?t" by (simp add: do_get_time_def clock_set_boot_time_def)
  have y: "3650 \<le> days_to (80 + year)" "days_to (80 + year) \<le> 9200" "year_days (80 + year) \<le> 366"
    using assms(1) by (simp_all add: days_to_def year_days_def report_ok_def) linarith+
  have r: "1 \<le> day" "day \<le> year_days (80 + year)" "0 \<le> hour" "hour \<le> 23" "0 \<le> mnt" "mnt \<le> 59" "0 \<le> sec" "sec \<le> 59" using assms(1) by (simp_all add: report_ok_def)
  define D where "D = days_to (80 + year)"
  have "3650 \<le> D" "D \<le> 9200" "day \<le> 366" using y r(2) by (simp_all add: D_def)
  then have "0 \<le> 86400 * (D + day - 1) + 3600 * hour + 60 * mnt + sec" "86400 * (D + day - 1) + 3600 * hour + 60 * mnt + sec < 2147483648"
    using r(1,3-8) by (simp_all add: algebra_simps)
  then have b: "0 \<le> ?t" "?t < 2 ^ 31" by (simp_all add: D_def)
  obtain d where d: "gmtime ?t = Done (Some d)" "tm_ok d" "seconds d = ?t" "tm_yday d < year_days (tm_year d)" using gmtime_seconds [OF b(1)] by metis
  have "seconds d = 86400 * (days_to (80 + year) + (day - 1)) + 3600 * hour + 60 * mnt + sec" using d(3) by simp
  from date_unique [OF d(2) this d(4)] r have "tm_year d = 80 + year \<and> tm_yday d = day - 1 \<and> tm_hour d = hour \<and> tm_min d = mnt \<and> tm_sec d = sec" by simp
  then show ?thesis using i(1,2) j t b d(1) by (intro exI [of _ ?j] exI [of _ d]) (simp del: power.simps)
qed

definition demo_keyboard :: keyboard where
  "demo_keyboard = \<lparr>kb_state = S_KEY, kb_count = 0, rtc_year = 0, rtc_bytes = (\<lambda>_. 0), kb_shift = False, kb_lock = False, kb_command = False,
     repeat_code = 0, repeat_tics = 0, tt = demo_terminal, clk = demo_clock\<rparr>"

theorem keyboard_run_ok_witness: "kbd_ok (demo_keyboard\<lparr>tt := tty_do_ioctl demo_request demo_terminal\<rparr>)"
proof (rule keyboard_run_ok [where dmp = Done and k = demo_keyboard])
  have "tty_step Done (tt demo_keyboard) (tty_do_ioctl demo_request demo_terminal)"
    by (rule turn [where m = demo_request]) (simp add: tty_turn_def demo_request_def demo_keyboard_def)
  then show "(kbd_step Done)\<^sup>*\<^sup>* demo_keyboard (demo_keyboard\<lparr>tt := tty_do_ioctl demo_request demo_terminal\<rparr>)" by (intro r_into_rtranclp task)
  have "tty_ok demo_terminal"
    using vdu_init_displays [where memend = "0x100000" and membase = 0] by (auto simp: tty_ok_def ring_ok_def zero_tty_def displays_def)
  then show "kbd_ok demo_keyboard" by (simp add: kbd_ok_def demo_keyboard_def)
  show "dumps_ok Done" by (simp add: dumps_ok_def)
qed

theorem clock_report_read_back_witness:
  "\<exists>j d. seq_all (cops_byte Done) (clock_report 4 60 13 5 9 0) demo_keyboard = Done j \<and> gmtime (do_get_time (clk j)) = Done (Some d) \<and>
     tm_year d = 84 \<and> tm_yday d = 59 \<and> tm_hour d = 13 \<and> tm_min d = 5 \<and> tm_sec d = 9"
proof -
  have "report_ok 4 60 13 5 9 0" "kb_state demo_keyboard = S_KEY" by (simp_all add: report_ok_def year_days_def demo_keyboard_def)
  from clock_report_read_back [OF this, of Done] show ?thesis by auto
qed

end
