(* ===== verification/Lib_Sort.thy ===== *)
theory Lib_Sort
  imports Minix_Prelude "HOL-Library.Multiset" "HOL-Library.Signed_Division"
begin

section \<open>Library: sorting and searching (src/src/lib/ansi)\<close>

text \<open>
  \<open>qsort\<close>, \<open>bsearch\<close> and \<open>strcmp\<close>. The array is the list of its elements, each \<open>width\<close> bytes of the source; a pointer into it is an index.
  The exchanges of the source work byte by byte, which exchanges the elements. Distances between pointers are computed
  as the source computes them: \<open>size_t\<close> is an unsigned and \<open>ptrdiff_t\<close> a signed integer of 16 bits (\<open>include/stddef.h\<close>). A pointer that
  does not come out on an element of the array leaves the model, which is \<open>Stuck\<close> there. What \<open>qsort\<close> and \<open>bsearch\<close> need of the comparison is the locale \<open>comparison\<close>;
  \<open>strcmp\<close> is one.
\<close>

subsection \<open>strcmp\<close>

text \<open>A string is the list of its bytes in front of the NUL; \<open>char\<close> is signed.\<close>

fun strcmp :: "u8 list \<Rightarrow> u8 list \<Rightarrow> int" where
  "strcmp [] [] = 0"
| "strcmp [] (b # bs) = -1"
| "strcmp (a # as) [] = 1"
| "strcmp (a # as) (b # bs) = (if a = b then strcmp as bs else sint a - sint b)"

subsection \<open>qsort\<close>

definition qexchange :: "nat \<Rightarrow> nat \<Rightarrow> 'a list \<Rightarrow> 'a list" where
  "qexchange p q xs = (let c = xs ! p; xs1 = xs[p := xs ! q] in xs1[q := c])"

definition q3exchange :: "nat \<Rightarrow> nat \<Rightarrow> nat \<Rightarrow> 'a list \<Rightarrow> 'a list" where
  "q3exchange p q r xs = (let c = xs ! p; xs1 = xs[p := xs ! r]; xs2 = xs1[r := xs1 ! q] in xs2[q := c])"

text \<open>
  The body of the \<open>for\<close> loop from the label \<open>again\<close> on. With \<open>Again\<close> control is in the first \<open>while\<close>, with \<open>Rightwards\<close> in the second. The result is
  the array with the bounds of the equal elements.
\<close>

datatype place = Again | Rightwards

function part :: "('a \<Rightarrow> 'a \<Rightarrow> int) \<Rightarrow> place \<Rightarrow> 'a list \<Rightarrow> nat \<Rightarrow> nat \<Rightarrow> nat \<Rightarrow> nat \<Rightarrow> 'a list \<times> nat \<times> nat" where
  "part cmp Again xs left lefteq righteq right =
     (if left < lefteq \<and> cmp (xs ! left) (xs ! lefteq) \<le> 0
      then if cmp (xs ! left) (xs ! lefteq) < 0 then part cmp Again xs (left + 1) lefteq righteq right
           else part cmp Again (qexchange left (lefteq - 1) xs) left (lefteq - 1) righteq right
      else part cmp Rightwards xs left lefteq righteq right)"
| "part cmp Rightwards xs left lefteq righteq right =
     (if right > righteq
      then if cmp (xs ! right) (xs ! righteq) < 0
           then if left < lefteq then part cmp Again (qexchange left right xs) (left + 1) lefteq righteq (right - 1)
                else part cmp Rightwards (q3exchange left (righteq + 1) right xs) (lefteq + 1) (lefteq + 1) (righteq + 1) right
           else if cmp (xs ! right) (xs ! righteq) = 0
           then part cmp Rightwards (qexchange right (righteq + 1) xs) left lefteq (righteq + 1) right
           else part cmp Rightwards xs left lefteq righteq (right - 1)
      else if left < lefteq
      then part cmp Again (q3exchange right (lefteq - 1) left xs) left (lefteq - 1) (righteq - 1) (righteq - 1)
      else (xs, lefteq, righteq))"
  by pat_completeness auto
termination
  by (relation "measures [\<lambda>(cmp, w, xs, left, lefteq, righteq, right). (right - righteq) + (lefteq - left), \<lambda>(cmp, w, xs, l). if w = Again then 1 else 0]")
    (auto split: if_splits)

declare part.simps [simp del]

text \<open>What every step of the loops keeps holds in the end.\<close>

lemma part_invariant:
  assumes "part cmp w xs a b c d = (ys, l, r)" and "I w xs a b c d"
    and "\<And>xs a b c d. \<lbrakk>I Again xs a b c d; a < b; cmp (xs ! a) (xs ! b) < 0\<rbrakk> \<Longrightarrow> I Again xs (a + 1) b c d"
    and "\<And>xs a b c d. \<lbrakk>I Again xs a b c d; a < b; cmp (xs ! a) (xs ! b) = 0\<rbrakk> \<Longrightarrow> I Again (qexchange a (b - 1) xs) a (b - 1) c d"
    and "\<And>xs a b c d. \<lbrakk>I Again xs a b c d; a < b \<longrightarrow> cmp (xs ! a) (xs ! b) > 0\<rbrakk> \<Longrightarrow> I Rightwards xs a b c d"
    and "\<And>xs a b c d. \<lbrakk>I Rightwards xs a b c d; c < d; cmp (xs ! d) (xs ! c) < 0; a < b\<rbrakk> \<Longrightarrow> I Again (qexchange a d xs) (a + 1) b c (d - 1)"
    and "\<And>xs a b c d. \<lbrakk>I Rightwards xs a b c d; c < d; cmp (xs ! d) (xs ! c) < 0; \<not> a < b\<rbrakk> \<Longrightarrow> I Rightwards (q3exchange a (c + 1) d xs) (b + 1) (b + 1) (c + 1) d"
    and "\<And>xs a b c d. \<lbrakk>I Rightwards xs a b c d; c < d; cmp (xs ! d) (xs ! c) = 0\<rbrakk> \<Longrightarrow> I Rightwards (qexchange d (c + 1) xs) a b (c + 1) d"
    and "\<And>xs a b c d. \<lbrakk>I Rightwards xs a b c d; c < d; cmp (xs ! d) (xs ! c) > 0\<rbrakk> \<Longrightarrow> I Rightwards xs a b c (d - 1)"
    and "\<And>xs a b c d. \<lbrakk>I Rightwards xs a b c d; \<not> c < d; a < b\<rbrakk> \<Longrightarrow> I Again (q3exchange d (b - 1) a xs) a (b - 1) (c - 1) (c - 1)"
  shows "\<exists>a d. I Rightwards ys a l r d \<and> \<not> r < d \<and> \<not> a < l"
  using assms
proof (induction cmp w xs a b c d rule: part.induct)
  case (1 cmp xs a b c d)
  note step = "1.prems"(3-5) [OF "1.prems"(2)] and prems = "1.prems"(3-)
  consider "a < b" "cmp (xs ! a) (xs ! b) < 0" | "a < b" "cmp (xs ! a) (xs ! b) = 0" | "a < b \<longrightarrow> cmp (xs ! a) (xs ! b) > 0" by linarith
  then show ?case
  proof cases
    case 1
    then have eq: "part cmp Again xs (a + 1) b c d = (ys, l, r)" using "1.prems"(1) by (simp add: part.simps(1) [of cmp xs a b])
    show ?thesis by (rule "1.IH"(1) [OF _ _ eq step(1) [OF 1] prems]) (use 1 in auto)
  next
    case 2
    then have eq: "part cmp Again (qexchange a (b - 1) xs) a (b - 1) c d = (ys, l, r)" using "1.prems"(1) by (simp add: part.simps(1) [of cmp xs a b])
    show ?thesis by (rule "1.IH"(2) [OF _ _ eq step(2) [OF 2] prems]) (use 2 in auto)
  next
    case 3
    then have eq: "part cmp Rightwards xs a b c d = (ys, l, r)" using "1.prems"(1) by (auto simp: part.simps(1) [of cmp xs a b])
    show ?thesis by (rule "1.IH"(3) [OF _ eq step(3) [OF 3] prems]) (use 3 in auto)
  qed
next
  case (2 cmp xs a b c d)
  note step = "2.prems"(6-10) [OF "2.prems"(2)] and prems = "2.prems"(3-)
  note e = "2.prems"(1) [THEN trans [OF part.simps(2) [of cmp xs a b c d, symmetric]]]
  consider "c < d" "cmp (xs ! d) (xs ! c) < 0" "a < b" | "c < d" "cmp (xs ! d) (xs ! c) < 0" "\<not> a < b" | "c < d" "cmp (xs ! d) (xs ! c) = 0"
    | "c < d" "cmp (xs ! d) (xs ! c) > 0" | "\<not> c < d" "a < b" | "\<not> c < d" "\<not> a < b" by linarith
  then show ?case
  proof cases
    case 1
    then have eq: "part cmp Again (qexchange a d xs) (a + 1) b c (d - 1) = (ys, l, r)" using e by simp
    show ?thesis by (rule "2.IH"(1) [OF _ _ _ eq step(1) [OF 1] prems]) (use 1 in auto)
  next
    case 2
    then have eq: "part cmp Rightwards (q3exchange a (c + 1) d xs) (b + 1) (b + 1) (c + 1) d = (ys, l, r)" using e by simp
    show ?thesis by (rule "2.IH"(2) [OF _ _ _ eq step(2) [OF 2] prems]) (use 2 in auto)
  next
    case 3
    then have eq: "part cmp Rightwards (qexchange d (c + 1) xs) a b (c + 1) d = (ys, l, r)" using e by simp
    show ?thesis by (rule "2.IH"(3) [OF _ _ _ eq step(3) [OF 3] prems]) (use 3 in auto)
  next
    case 4
    then have eq: "part cmp Rightwards xs a b c (d - 1) = (ys, l, r)" using e by simp
    show ?thesis by (rule "2.IH"(4) [OF _ _ _ eq step(4) [OF 4] prems]) (use 4 in auto)
  next
    case 5
    then have eq: "part cmp Again (q3exchange d (b - 1) a xs) a (b - 1) (c - 1) (c - 1) = (ys, l, r)" using e by simp
    show ?thesis by (rule "2.IH"(5) [OF _ _ eq step(5) [OF 5] prems]) (use 5 in auto)
  next
    case 6
    then show ?thesis using e "2.prems"(2) by auto
  qed
qed

lemma part_bounds:
  assumes "part cmp w xs a b c d = (ys, l, r)" and "a \<le> b" and "b \<le> c" and "c \<le> d"
  shows "a \<le> l \<and> l \<le> r \<and> r \<le> d"
proof -
  have "\<exists>a' d'. (a \<le> a' \<and> a' \<le> l \<and> l \<le> r \<and> r \<le> d' \<and> d' \<le> d) \<and> \<not> r < d' \<and> \<not> a' < l"
    using assms(1) by (rule part_invariant [where I = "\<lambda>w xs a' b' c' d'. a \<le> a' \<and> a' \<le> b' \<and> b' \<le> c' \<and> c' \<le> d' \<and> d' \<le> d"]) (use assms in auto)
  then show ?thesis by auto
qed

text \<open>An expression of type \<open>int\<close>.\<close>

definition as_int :: "int \<Rightarrow> int" where
  "as_int k = signed_take_bit 15 k"

text \<open>
  The distance of the middle element from \<open>a1\<close>, \<open>width * (((a2 - a1) + width) / (2 * width))\<close>, for \<open>n\<close> elements from \<open>a1\<close> to \<open>a2\<close>.
  The division traps when \<open>2 * width\<close> is zero.
\<close>

definition pivot_offset :: "int \<Rightarrow> nat \<Rightarrow> int" where
  "pivot_offset width n = as_int (width * (as_int (as_int ((int n - 1) * width) + width) sdiv as_int (2 * width)))"

definition pivot :: "int \<Rightarrow> nat \<Rightarrow> nat \<Rightarrow> nat outcome" where
  "pivot width lo hi =
     (let off = pivot_offset width (hi - lo); mid = lo + nat (off div width)
      in if as_int (2 * width) \<noteq> 0 \<and> 0 < width \<and> 0 \<le> off \<and> off mod width = 0 \<and> mid < hi then Done mid else Stuck)"

lemma pivot_bounds: "pivot width lo hi = Done mid \<Longrightarrow> lo \<le> mid \<and> mid \<le> hi - 1"
  by (auto simp: pivot_def Let_def split: if_splits)

text \<open>\<open>qsort1\<close> from element \<open>lo\<close> to the element in front of \<open>hi\<close> (\<open>a1\<close>, \<open>a2\<close> of the source).\<close>

function qsort1 :: "('a \<Rightarrow> 'a \<Rightarrow> int) \<Rightarrow> int \<Rightarrow> nat \<Rightarrow> nat \<Rightarrow> 'a list \<Rightarrow> 'a list outcome" where
  "qsort1 cmp width lo hi xs =
     (if hi \<le> lo + 1 then Done xs
      else and_then (pivot width lo hi) (\<lambda>mid.
           let (xs1, lefteq, righteq) = part cmp Again xs lo mid mid (hi - 1)
           in and_then (qsort1 cmp width lo lefteq xs1) (\<lambda>xs2. qsort1 cmp width (righteq + 1) hi xs2)))"
  by pat_completeness auto
termination
proof (relation "measure (\<lambda>(cmp, width, lo, hi, xs). hi - lo)", simp, goal_cases)
  case (1 cmp width lo hi xs mid p xs1 q lefteq righteq)
  then have "part cmp Again xs lo mid mid (hi - 1) = (xs1, lefteq, righteq)" by simp
  then show ?case using part_bounds [of cmp Again xs lo mid mid "hi - 1" xs1 lefteq righteq] pivot_bounds [OF 1(2)] 1(1) by fastforce
next
  case (2 cmp width lo hi xs mid p xs1 q lefteq righteq xs2)
  then have "part cmp Again xs lo mid mid (hi - 1) = (xs1, lefteq, righteq)" by simp
  then show ?case using part_bounds [of cmp Again xs lo mid mid "hi - 1" xs1 lefteq righteq] pivot_bounds [OF 2(2)] 2(1) by fastforce
qed

definition qsort :: "('a \<Rightarrow> 'a \<Rightarrow> int) \<Rightarrow> nat \<Rightarrow> 'a list \<Rightarrow> 'a list outcome" where
  "qsort compar width xs =
     (if 0 < length xs
      then let a2 = (length xs - 1) * width mod 2 ^ 16
           in if a2 mod width = 0 then qsort1 compar (as_int (int width)) 0 (a2 div width + 1) xs else Stuck
      else Done xs)"

subsection \<open>bsearch\<close>

function bsearch_loop :: "('k \<Rightarrow> 'a \<Rightarrow> int) \<Rightarrow> 'k \<Rightarrow> nat \<Rightarrow> 'a list \<Rightarrow> nat \<Rightarrow> nat \<Rightarrow> nat option outcome" where
  "bsearch_loop keycmp key width xs base cnt =
     (if cnt > 0
      then let off = width * (cnt div 2) mod 2 ^ 16; mid_point = base + off div width
           in if 0 < width \<and> off mod width = 0 \<and> mid_point < length xs
              then let cmp = keycmp key (xs ! mid_point)
                   in if cmp = 0 then Done (Some mid_point)
                      else if cmp < 0 then bsearch_loop keycmp key width xs base (cnt div 2)
                      else bsearch_loop keycmp key width xs (mid_point + 1) ((cnt - 1) div 2)
              else Stuck
      else Done None)"
  by pat_completeness auto
termination by (relation "measure (\<lambda>(keycmp, key, width, xs, base, cnt). cnt)") auto

definition bsearch :: "('k \<Rightarrow> 'a \<Rightarrow> int) \<Rightarrow> 'k \<Rightarrow> nat \<Rightarrow> 'a list \<Rightarrow> nat option outcome" where
  "bsearch keycmp key width xs = bsearch_loop keycmp key width xs 0 (length xs)"

declare qsort1.simps [simp del] bsearch_loop.simps [simp del]

subsection \<open>The middle of a range\<close>

lemma as_int_small: "- 32768 \<le> k \<Longrightarrow> k < 32768 \<Longrightarrow> as_int k = k"
  by (simp add: as_int_def signed_take_bit_int_eq_self)

lemma as_int_wraps: "32768 \<le> k \<Longrightarrow> k < 65536 \<Longrightarrow> as_int k = k - 65536"
proof -
  assume k: "32768 \<le> k" "k < 65536"
  have "k - 65536 = k + - 1 * 2 ^ Suc 15" by simp
  then have "take_bit (Suc 15) k = take_bit (Suc 15) (k - 65536)" unfolding take_bit_eq_mod by (simp only: mod_mult_self1)
  then have "as_int k = as_int (k - 65536)" unfolding as_int_def by (simp only: signed_take_bit_eq_iff_take_bit_eq)
  then show ?thesis using k by (simp add: as_int_small)
qed

lemma as_int_add: "as_int (as_int a + b) = as_int (a + b)"
  unfolding as_int_def signed_take_bit_eq_iff_take_bit_eq by (metis take_bit_add take_bit_signed_take_bit le_refl)

lemma pivot_offset_middle:
  assumes "2 \<le> n" and "0 < width" and "n * width < 2 ^ 15"
  shows "pivot_offset (int width) n = int (n div 2 * width)"
proof -
  have le: "k * width \<le> n * width" if "k \<le> n" for k using that by (rule mult_le_mono1)
  have "n * width < 32768" using assms(3) by simp
  then have b: "2 * width < 32768" "n div 2 * width < 32768" "n * width < 32768"
    using le [of 2] le [of "n div 2"] assms(1) by linarith+
  have d: "int (n * width) sdiv int (2 * width) = int (n div 2)" using assms(1,2) by (simp add: signed_divide_int_def sgn_mult zdiv_int)
  have i: "as_int (int k) = int k" if "k < 32768" for k using that by (simp add: as_int_small)
  have s: "(int n - 1) * int width + int width = int (n * width)" by (simp add: algebra_simps)
  have t: "2 * int width = int (2 * width)" by simp
  have m: "int width * int (n div 2) = int (n div 2 * width)" by simp
  show ?thesis unfolding pivot_offset_def as_int_add s t i [OF b(1)] i [OF b(3)] d m by (rule i [OF b(2)])
qed

lemma pivot_middle:
  assumes "lo + 1 < hi" and "0 < width" and "(hi - lo) * width < 2 ^ 15"
  shows "pivot (int width) lo hi = Done (lo + (hi - lo) div 2)"
proof -
  have o: "pivot_offset (int width) (hi - lo) = int ((hi - lo) div 2 * width)"
    using assms by (intro pivot_offset_middle) simp_all
  have "2 * width \<le> (hi - lo) * width" using assms(1) by (intro mult_le_mono1) simp
  then have "2 * width < 2 ^ 15" using assms(3) by (rule le_less_trans)
  then have "as_int (2 * int width) \<noteq> 0" using assms(2) by (subst as_int_small) simp_all
  moreover have "lo + (hi - lo) div 2 < hi" using assms(1) by linarith
  moreover have "int ((hi - lo) div 2 * width) div int width = int ((hi - lo) div 2)" "int ((hi - lo) div 2 * width) mod int width = 0"
    using assms(2) by simp_all
  ultimately show ?thesis using assms(2) by (simp add: pivot_def Let_def o del: of_nat_mult)
qed

text \<open>From 32768 bytes on the distance of the ends is negative as an \<open>int\<close>, and the middle lies in front of the array.\<close>

lemma pivot_outside:
  assumes "0 < width" and "2 ^ 15 \<le> (hi - lo) * width" and "(hi - lo + 2) * width \<le> 2 ^ 16" and "2 * width < 2 ^ 15"
  shows "pivot (int width) lo hi = Stuck"
proof -
  let ?w = "int width" let ?k = "int ((hi - lo) * width)"
  have b: "32768 \<le> ?k" "?k + 2 * ?w \<le> 65536" "2 * ?w < 32768" "0 < ?w"
  proof -
    have "32768 \<le> (hi - lo) * width" "(hi - lo) * width + 2 * width \<le> 65536" "2 * width < 32768" using assms(2-4) by (simp_all add: add_mult_distrib)
    then show "32768 \<le> ?k" "?k + 2 * ?w \<le> 65536" "2 * ?w < 32768" "0 < ?w" using assms(1) by linarith+
  qed
  have s: "(int n - 1) * ?w + ?w = int (n * width)" for n by (simp add: algebra_simps)
  have k: "as_int ?k = ?k - 65536" using b by (intro as_int_wraps) linarith+
  have t: "as_int (2 * ?w) = 2 * ?w" using b by (intro as_int_small) linarith+
  define q where "q = (65536 - ?k) div (2 * ?w)"
  have d: "(?k - 65536) sdiv (2 * ?w) = - q" using b by (simp add: signed_divide_int_def q_def sgn_if abs_if)
  have "1 \<le> q" unfolding q_def using b by (simp add: pos_imp_zdiv_pos_iff zdiv_mono1 int_one_le_iff_zero_less)
  moreover have "2 * ?w * q \<le> 65536 - ?k" unfolding q_def using b(4) mult_div_mod_eq [of "2 * ?w" "65536 - ?k"] pos_mod_sign [of "2 * ?w" "65536 - ?k"] by linarith
  ultimately have "0 < ?w * q" "?w * q \<le> 16384" using b(1,4) by (simp, linarith)
  then have "as_int (?w * - q) < 0" by (subst as_int_small) simp_all
  then have "pivot_offset ?w (hi - lo) < 0" unfolding pivot_offset_def as_int_add s k t d .
  then show ?thesis by (simp add: pivot_def Let_def)
qed

text \<open>As long as the array has less than 64K, \<open>a2\<close> is its last element.\<close>

lemma qsort_all_elements:
  assumes "xs \<noteq> []" and "0 < width" and "width < 2 ^ 15" and "length xs * width \<le> 2 ^ 16"
  shows "qsort cmp width xs = qsort1 cmp (int width) 0 (length xs) xs"
proof -
  have l: "0 < length xs" using assms(1) by simp
  have "(length xs - 1) * width + width = length xs * width" using l by (cases xs) simp_all
  then have "(length xs - 1) * width < 2 ^ 16" using assms(2,4) by linarith
  then have a2: "(length xs - 1) * width mod 2 ^ 16 = (length xs - 1) * width" by (rule mod_less)
  have w: "as_int (int width) = int width" using assms(3) by (intro as_int_small) simp_all
  show ?thesis unfolding qsort_def Let_def a2 w using l assms(2) by simp
qed

lemma qsort_width_small: "xs \<noteq> [] \<Longrightarrow> length xs * width < 2 ^ 15 \<Longrightarrow> width < 2 ^ 15"
  using mult_le_mono1 [of 1 "length xs" width] by (cases xs) simp_all

lemma qsort_large_stuck:
  assumes "2 * width < 2 ^ 15" and "2 ^ 15 \<le> length xs * width" and "(length xs + 2) * width \<le> 2 ^ 16"
  shows "qsort cmp width xs = Stuck"
proof -
  have w: "0 < width" using assms(2) by (cases "width = 0") simp_all
  have "2 < length xs"
  proof (rule ccontr)
    assume "\<not> 2 < length xs"
    then have "length xs * width \<le> 2 * width" by (intro mult_le_mono1) simp
    then show False using assms(1,2) by linarith
  qed
  moreover have "qsort cmp width xs = qsort1 cmp (int width) 0 (length xs) xs"
    using assms w calculation by (intro qsort_all_elements) (auto simp: add_mult_distrib)
  moreover have "pivot (int width) 0 (length xs) = Stuck" using assms w by (intro pivot_outside) simp_all
  ultimately show ?thesis by (simp add: qsort1.simps [of cmp _ 0 "length xs"])
qed

subsection \<open>Rearranging a range\<close>

definition rearranged :: "nat \<Rightarrow> nat \<Rightarrow> 'a list \<Rightarrow> 'a list \<Rightarrow> bool" where
  "rearranged lo hi xs ys \<longleftrightarrow> length ys = length xs \<and> mset ys = mset xs \<and> (\<forall>i. i < lo \<or> hi \<le> i \<longrightarrow> i < length xs \<longrightarrow> ys ! i = xs ! i)"

lemma rearranged_refl [simp]: "rearranged lo hi xs xs"
  by (simp add: rearranged_def)

lemma rearranged_trans [trans]: "rearranged lo hi xs ys \<Longrightarrow> rearranged lo hi ys zs \<Longrightarrow> rearranged lo hi xs zs"
  by (auto simp: rearranged_def)

lemma rearranged_mono: "rearranged lo hi xs ys \<Longrightarrow> lo' \<le> lo \<Longrightarrow> hi \<le> hi' \<Longrightarrow> rearranged lo' hi' xs ys"
  by (auto simp: rearranged_def)

lemma range_mset: "lo \<le> hi \<Longrightarrow> hi \<le> length xs \<Longrightarrow> mset xs = mset (take lo xs) + mset (take (hi - lo) (drop lo xs)) + mset (drop hi xs)"
proof -
  assume "lo \<le> hi" "hi \<le> length xs"
  then have "drop hi xs = drop (hi - lo) (drop lo xs)" by simp
  then have "xs = take lo xs @ take (hi - lo) (drop lo xs) @ drop hi xs" by (metis append_take_drop_id)
  then have "mset xs = mset (take lo xs @ take (hi - lo) (drop lo xs) @ drop hi xs)" by (rule arg_cong)
  then show ?thesis by (simp only: mset_append add.assoc)
qed

lemma rearranged_range:
  assumes "rearranged lo hi xs ys" and "lo \<le> hi" and "hi \<le> length xs" and "\<forall>i. lo \<le> i \<and> i < hi \<longrightarrow> P (xs ! i)" and "lo \<le> i" and "i < hi"
  shows "P (ys ! i)"
proof -
  have o: "take lo ys = take lo xs" "drop hi ys = drop hi xs" using assms(1-3) by (auto simp: rearranged_def intro!: nth_equalityI)
  have l: "length ys = length xs" "mset ys = mset xs" using assms(1) by (simp_all add: rearranged_def)
  have "mset (take (hi - lo) (drop lo ys)) = mset (take (hi - lo) (drop lo xs))"
    using range_mset [OF assms(2,3)] range_mset [OF assms(2), of ys] assms(3) l o by simp
  then have s: "set (take (hi - lo) (drop lo ys)) = set (take (hi - lo) (drop lo xs))" by (metis set_mset_mset)
  have "ys ! i \<in> set (take (hi - lo) (drop lo ys))" using assms(3,5,6) l by (auto simp: in_set_conv_nth intro!: exI [of _ "i - lo"])
  then obtain j where "j < hi - lo" "ys ! i = xs ! (lo + j)" using assms(3) unfolding s by (auto simp: in_set_conv_nth)
  then show ?thesis using assms(4) by simp
qed

lemma qexchange_swap:
  assumes "p < length xs" and "q < length xs"
  shows "length (qexchange p q xs) = length xs" "mset (qexchange p q xs) = mset xs"
    "i < length xs \<Longrightarrow> qexchange p q xs ! i = (if i = q then xs ! p else if i = p then xs ! q else xs ! i)"
  using assms by (simp_all add: qexchange_def mset_swap nth_list_update)

lemma qexchange_rearranged: "lo \<le> p \<Longrightarrow> lo \<le> q \<Longrightarrow> p < hi \<Longrightarrow> q < hi \<Longrightarrow> hi \<le> length xs \<Longrightarrow> rearranged lo hi xs (qexchange p q xs)"
  by (auto simp: rearranged_def qexchange_swap)

text \<open>A three-way exchange is two exchanges.\<close>

lemma q3exchange_swaps:
  "p < length xs \<Longrightarrow> q < length xs \<Longrightarrow> r < length xs \<Longrightarrow> p \<noteq> q \<Longrightarrow> p \<noteq> r \<Longrightarrow> q3exchange p q r xs = qexchange q r (qexchange p r xs)"
  by (auto simp: q3exchange_def qexchange_def Let_def nth_list_update intro!: nth_equalityI)

lemma q3exchange_nth:
  assumes "p < length xs" and "q < length xs" and "r < length xs" and "p \<noteq> q" and "p \<noteq> r"
  shows "i < length xs \<Longrightarrow> q3exchange p q r xs ! i = (if i = q then xs ! p else if i = p then xs ! r else if i = r then xs ! q else xs ! i)"
    "length (q3exchange p q r xs) = length xs"
  using assms by (auto simp: q3exchange_swaps qexchange_swap)

lemma q3exchange_rearranged:
  "\<lbrakk>lo \<le> p; lo \<le> q; lo \<le> r; p < hi; q < hi; r < hi; hi \<le> length xs; p \<noteq> q; p \<noteq> r\<rbrakk> \<Longrightarrow> rearranged lo hi xs (q3exchange p q r xs)"
  by (simp add: q3exchange_swaps rearranged_trans [OF qexchange_rearranged [of lo p r hi xs] qexchange_rearranged [of lo q r hi]] qexchange_swap)

subsection \<open>The comparison\<close>

locale comparison =
  fixes cmp :: "'a \<Rightarrow> 'a \<Rightarrow> int"
  assumes cmp_flip: "cmp x y < 0 \<longleftrightarrow> 0 < cmp y x"
    and cmp_trans: "cmp x y \<le> 0 \<Longrightarrow> cmp y z \<le> 0 \<Longrightarrow> cmp x z \<le> 0"
begin

lemma cmp_sym: "cmp x y = 0 \<longleftrightarrow> cmp y x = 0"
  using cmp_flip [of x y] cmp_flip [of y x] by linarith

lemma cmp_flip_le: "cmp x y \<le> 0 \<longleftrightarrow> 0 \<le> cmp y x"
  using cmp_flip [of x y] cmp_sym [of x y] by linarith

lemma cmp_equal:
  assumes "cmp q p = 0"
  shows "cmp x q < 0 \<longleftrightarrow> cmp x p < 0" and "cmp x q = 0 \<longleftrightarrow> cmp x p = 0" and "cmp x q > 0 \<longleftrightarrow> cmp x p > 0"
proof -
  have 1: "cmp x q \<le> 0 \<longleftrightarrow> cmp x p \<le> 0" using cmp_trans [of x q p] cmp_trans [of x p q] assms cmp_sym [of p q] by force
  have 2: "cmp q x \<le> 0 \<longleftrightarrow> cmp p x \<le> 0" using cmp_trans [of q p x] cmp_trans [of p q x] assms cmp_sym [of p q] by force
  show "cmp x q < 0 \<longleftrightarrow> cmp x p < 0" "cmp x q = 0 \<longleftrightarrow> cmp x p = 0" "cmp x q > 0 \<longleftrightarrow> cmp x p > 0"
    using 1 2 cmp_flip_le [of q x] cmp_flip_le [of p x] by linarith+
qed

text \<open>The invariant of the two loops: smaller elements to the left of \<open>a\<close>, equal ones from \<open>b\<close> to \<open>c\<close>, larger ones to the right of \<open>d\<close>.\<close>

definition parted :: "nat \<Rightarrow> nat \<Rightarrow> 'a \<Rightarrow> 'a list \<Rightarrow> place \<Rightarrow> 'a list \<Rightarrow> nat \<Rightarrow> nat \<Rightarrow> nat \<Rightarrow> nat \<Rightarrow> bool" where
  "parted lo hi p xs0 w xs a b c d \<longleftrightarrow> lo \<le> a \<and> a \<le> b \<and> b \<le> c \<and> c \<le> d \<and> d < hi \<and> hi \<le> length xs0 \<and> rearranged lo hi xs0 xs \<and>
     (\<forall>i. lo \<le> i \<and> i < a \<longrightarrow> cmp (xs ! i) p < 0) \<and> (\<forall>i. b \<le> i \<and> i \<le> c \<longrightarrow> cmp (xs ! i) p = 0) \<and>
     (\<forall>i. d < i \<and> i < hi \<longrightarrow> cmp (xs ! i) p > 0) \<and> (w = Rightwards \<longrightarrow> a < b \<longrightarrow> cmp (xs ! a) p > 0)"

lemma partedI:
  assumes "lo \<le> a" "a \<le> b" "b \<le> c" "c \<le> d" "d < hi" "hi \<le> length xs0" "rearranged lo hi xs0 xs"
    and "\<And>i. lo \<le> i \<Longrightarrow> i < a \<Longrightarrow> cmp (xs ! i) p < 0" and "\<And>i. b \<le> i \<Longrightarrow> i \<le> c \<Longrightarrow> cmp (xs ! i) p = 0"
    and "\<And>i. d < i \<Longrightarrow> i < hi \<Longrightarrow> cmp (xs ! i) p > 0" and "w = Rightwards \<Longrightarrow> a < b \<Longrightarrow> cmp (xs ! a) p > 0"
  shows "parted lo hi p xs0 w xs a b c d"
  using assms by (auto simp: parted_def)

lemma partedD:
  assumes "parted lo hi p xs0 w xs a b c d"
  shows "lo \<le> a" "a \<le> b" "b \<le> c" "c \<le> d" "d < hi" "hi \<le> length xs" "length xs = length xs0" "rearranged lo hi xs0 xs"
    and "\<And>i. lo \<le> i \<Longrightarrow> i < a \<Longrightarrow> cmp (xs ! i) p < 0" and "\<And>i. b \<le> i \<Longrightarrow> i \<le> c \<Longrightarrow> cmp (xs ! i) p = 0"
    and "\<And>i. d < i \<Longrightarrow> i < hi \<Longrightarrow> cmp (xs ! i) p > 0" and "w = Rightwards \<Longrightarrow> a < b \<Longrightarrow> cmp (xs ! a) p > 0"
  using assms by (auto simp: parted_def rearranged_def)

lemma parted_equal_left:
  assumes i: "parted lo hi p xs0 Again xs a b c d" "a < b" "cmp (xs ! a) p = 0"
  shows "parted lo hi p xs0 Again (qexchange a (b - 1) xs) a (b - 1) c d"
proof -
  note f = partedD [OF i(1)]
  have N: "j < length xs \<Longrightarrow> qexchange a (b - 1) xs ! j = (if j = b - 1 then xs ! a else if j = a then xs ! (b - 1) else xs ! j)" for j
    using f i(2) by (intro qexchange_swap) linarith+
  have R: "rearranged lo hi xs0 (qexchange a (b - 1) xs)" using f i(2) by (intro rearranged_trans [OF f(8)] qexchange_rearranged) linarith+
  show ?thesis
  proof (rule partedI [OF f(1) _ _ f(4,5) _ R])
    fix j assume j: "b - 1 \<le> j" "j \<le> c"
    show "cmp (qexchange a (b - 1) xs ! j) p = 0" using j f i(2,3) N [of j] by (cases "j = b - 1") simp_all
  qed (use f i(2) N in auto)
qed

lemma parted_exchange:
  assumes i: "parted lo hi p xs0 Rightwards xs a b c d" "c < d" "a < b" "cmp (xs ! d) p < 0"
  shows "parted lo hi p xs0 Again (qexchange a d xs) (a + 1) b c (d - 1)"
proof -
  note f = partedD [OF i(1)]
  have N: "j < length xs \<Longrightarrow> qexchange a d xs ! j = (if j = d then xs ! a else if j = a then xs ! d else xs ! j)" for j
    using f i(2) by (intro qexchange_swap) linarith+
  have R: "rearranged lo hi xs0 (qexchange a d xs)" using f i(2) by (intro rearranged_trans [OF f(8)] qexchange_rearranged) linarith+
  show ?thesis
  proof (rule partedI [OF _ _ f(3) _ _ _ R])
    fix j assume j: "lo \<le> j" "j < a + 1"
    show "cmp (qexchange a d xs ! j) p < 0" using j f i N [of j] by (cases "j = a") simp_all
  next
    fix j assume j: "d - 1 < j" "j < hi"
    show "cmp (qexchange a d xs ! j) p > 0" using j f i N [of j] by (cases "j = d") simp_all
  qed (use f i N in auto)
qed

lemma parted_shift_right:
  assumes i: "parted lo hi p xs0 Rightwards xs a b c d" "c < d" "\<not> a < b" "cmp (xs ! d) p < 0"
  shows "parted lo hi p xs0 Rightwards (q3exchange a (c + 1) d xs) (b + 1) (b + 1) (c + 1) d"
proof -
  note f = partedD [OF i(1)]
  have ab: "a = b" using f i(3) by simp
  have N: "j < length xs \<Longrightarrow> q3exchange a (c + 1) d xs ! j = (if j = c + 1 then xs ! a else if j = a then xs ! d else if j = d then xs ! (c + 1) else xs ! j)" for j
    using f i(2) by (intro q3exchange_nth) linarith+
  have R: "rearranged lo hi xs0 (q3exchange a (c + 1) d xs)" using f i(2) by (intro rearranged_trans [OF f(8)] q3exchange_rearranged) linarith+
  show ?thesis
  proof (rule partedI [OF _ _ _ _ f(5) _ R])
    fix j assume j: "lo \<le> j" "j < b + 1"
    show "cmp (q3exchange a (c + 1) d xs ! j) p < 0" using j f i N [of j] ab by (cases "j = b") simp_all
  next
    fix j assume j: "b + 1 \<le> j" "j \<le> c + 1"
    show "cmp (q3exchange a (c + 1) d xs ! j) p = 0" using j f i N [of j] ab by (cases "j = c + 1") simp_all
  qed (use f i N in auto)
qed

lemma parted_equal_right:
  assumes i: "parted lo hi p xs0 Rightwards xs a b c d" "c < d" "cmp (xs ! d) p = 0"
  shows "parted lo hi p xs0 Rightwards (qexchange d (c + 1) xs) a b (c + 1) d"
proof -
  note f = partedD [OF i(1)]
  have N: "j < length xs \<Longrightarrow> qexchange d (c + 1) xs ! j = (if j = c + 1 then xs ! d else if j = d then xs ! (c + 1) else xs ! j)" for j
    using f i(2) by (intro qexchange_swap) linarith+
  have R: "rearranged lo hi xs0 (qexchange d (c + 1) xs)" using f i(2) by (intro rearranged_trans [OF f(8)] qexchange_rearranged) linarith+
  show ?thesis
  proof (rule partedI [OF f(1,2) _ _ f(5) _ R])
    fix j assume j: "b \<le> j" "j \<le> c + 1"
    show "cmp (qexchange d (c + 1) xs ! j) p = 0" using j f i N [of j] by (cases "j = c + 1") simp_all
  qed (use f i N in auto)
qed

lemma parted_shift_left:
  assumes i: "parted lo hi p xs0 Rightwards xs a b c d" "\<not> c < d" "a < b"
  shows "parted lo hi p xs0 Again (q3exchange d (b - 1) a xs) a (b - 1) (c - 1) (c - 1)"
proof -
  note f = partedD [OF i(1)]
  have cd: "c = d" using f i(2) by simp
  have N: "j < length xs \<Longrightarrow> q3exchange d (b - 1) a xs ! j = (if j = b - 1 then xs ! d else if j = d then xs ! a else if j = a then xs ! (b - 1) else xs ! j)" for j
    using f i(3) by (intro q3exchange_nth) linarith+
  have R: "rearranged lo hi xs0 (q3exchange d (b - 1) a xs)" using f i(3) by (intro rearranged_trans [OF f(8)] q3exchange_rearranged) linarith+
  show ?thesis
  proof (rule partedI [OF f(1) _ _ _ _ _ R])
    fix j assume j: "b - 1 \<le> j" "j \<le> c - 1"
    show "cmp (q3exchange d (b - 1) a xs ! j) p = 0" using j f i N [of j] cd by (cases "j = b - 1") auto
  next
    fix j assume j: "c - 1 < j" "j < hi"
    show "cmp (q3exchange d (b - 1) a xs ! j) p > 0" using j f i N [of j] cd by (cases "j = d") auto
  qed (use f i N cd in auto)
qed

lemma part_parts:
  assumes "part cmp Again xs lo mid mid (hi - 1) = (ys, l, r)" and "lo \<le> mid" and "mid < hi" and "hi \<le> length xs"
  shows "parted lo hi (xs ! mid) xs Rightwards ys l l r r"
proof -
  let ?I = "parted lo hi (xs ! mid) xs"
  have refl: "cmp x x = 0" for x using cmp_flip [of x x] by linarith
  have eq: "(cmp x (zs ! b) < 0) = (cmp x (xs ! mid) < 0)" "(cmp x (zs ! b) = 0) = (cmp x (xs ! mid) = 0)" "(cmp x (zs ! b) > 0) = (cmp x (xs ! mid) > 0)"
    "(cmp x (zs ! c) < 0) = (cmp x (xs ! mid) < 0)" "(cmp x (zs ! c) = 0) = (cmp x (xs ! mid) = 0)" "(cmp x (zs ! c) > 0) = (cmp x (xs ! mid) > 0)"
    if "?I w zs a b c d" for w zs a b c d x
    using cmp_equal [of "zs ! b" "xs ! mid" x] cmp_equal [of "zs ! c" "xs ! mid" x] partedD(3,10) [OF that] by simp_all
  have "\<exists>a d. ?I Rightwards ys a l r d \<and> \<not> r < d \<and> \<not> a < l"
    using assms(1)
  proof (rule part_invariant [where I = ?I])
    show "?I Again xs lo mid mid (hi - 1)" using assms(2-4) refl by (intro partedI) auto
  next
    fix zs a b c d assume i: "?I Again zs a b c d" "a < b" "cmp (zs ! a) (zs ! b) < 0"
    note f = partedD [OF i(1)]
    have "cmp (zs ! a) (xs ! mid) < 0" using i(3) eq(1) [OF i(1)] by simp
    then show "?I Again zs (a + 1) b c d" using f i(2) by (intro partedI) (auto simp: less_Suc_eq)
  next
    fix zs a b c d assume "?I Again zs a b c d" "a < b" "cmp (zs ! a) (zs ! b) = 0"
    then show "?I Again (qexchange a (b - 1) zs) a (b - 1) c d" by (intro parted_equal_left) (simp_all add: eq)
  next
    fix zs a b c d assume i: "?I Again zs a b c d" "a < b \<longrightarrow> cmp (zs ! a) (zs ! b) > 0"
    show "?I Rightwards zs a b c d" using partedD [OF i(1)] i(2) eq(3) [OF i(1)] by (intro partedI) auto
  next
    fix zs a b c d assume "?I Rightwards zs a b c d" "c < d" "cmp (zs ! d) (zs ! c) < 0" "a < b"
    then show "?I Again (qexchange a d zs) (a + 1) b c (d - 1)" by (intro parted_exchange) (simp_all add: eq)
  next
    fix zs a b c d assume "?I Rightwards zs a b c d" "c < d" "cmp (zs ! d) (zs ! c) < 0" "\<not> a < b"
    then show "?I Rightwards (q3exchange a (c + 1) d zs) (b + 1) (b + 1) (c + 1) d" by (intro parted_shift_right) (simp_all add: eq)
  next
    fix zs a b c d assume "?I Rightwards zs a b c d" "c < d" "cmp (zs ! d) (zs ! c) = 0"
    then show "?I Rightwards (qexchange d (c + 1) zs) a b (c + 1) d" by (intro parted_equal_right) (simp_all add: eq)
  next
    fix zs a b c d assume i: "?I Rightwards zs a b c d" "c < d" "cmp (zs ! d) (zs ! c) > 0"
    note f = partedD [OF i(1)]
    have "cmp (zs ! d) (xs ! mid) > 0" using i(3) eq(6) [OF i(1)] by simp
    then have "cmp (zs ! j) (xs ! mid) > 0" if "d - 1 < j" "j < hi" for j using that f(11) [of j] by (cases "j = d") auto
    then show "?I Rightwards zs a b c (d - 1)" using f i(2) by (intro partedI) auto
  next
    fix zs a b c d assume "?I Rightwards zs a b c d" "\<not> c < d" "a < b"
    then show "?I Again (q3exchange d (b - 1) a zs) a (b - 1) (c - 1) (c - 1)" by (rule parted_shift_left)
  qed
  then obtain a d where i: "?I Rightwards ys a l r d" "\<not> r < d" "\<not> a < l" by blast
  then have "a = l" "d = r" using partedD(2,4) [OF i(1)] by simp_all
  then show ?thesis using i(1) by simp
qed

end

context comparison begin

definition sorted_range :: "nat \<Rightarrow> nat \<Rightarrow> 'a list \<Rightarrow> bool" where
  "sorted_range lo hi xs \<longleftrightarrow> (\<forall>i j. lo \<le> i \<and> i < j \<and> j < hi \<longrightarrow> cmp (xs ! i) (xs ! j) \<le> 0)"

lemma sorted_join:
  assumes "sorted_range lo l xs" and "sorted_range (r + 1) hi xs" and "\<And>i. lo \<le> i \<Longrightarrow> i < l \<Longrightarrow> cmp (xs ! i) p \<le> 0"
    and "\<And>i. l \<le> i \<Longrightarrow> i \<le> r \<Longrightarrow> cmp (xs ! i) p = 0" and "\<And>i. r < i \<Longrightarrow> i < hi \<Longrightarrow> cmp (xs ! i) p \<ge> 0"
  shows "sorted_range lo hi xs"
  unfolding sorted_range_def
proof (intro allI impI)
  fix i j assume ij: "lo \<le> i \<and> i < j \<and> j < hi"
  consider "j < l" | "r < i" | "i \<le> r" "l \<le> j" by linarith
  then show "cmp (xs ! i) (xs ! j) \<le> 0"
  proof cases
    case 1 then show ?thesis using assms(1) ij by (simp add: sorted_range_def)
  next
    case 2 then show ?thesis using assms(2) ij by (simp add: sorted_range_def)
  next
    case 3
    have "cmp (xs ! i) p \<le> 0" using assms(3,4) [of i] ij 3 by (cases "i < l") auto
    moreover have "0 \<le> cmp (xs ! j) p" using assms(4,5) [of j] ij 3 by (cases "j \<le> r") auto
    then have "cmp p (xs ! j) \<le> 0" by (simp add: cmp_flip_le)
    ultimately show ?thesis by (rule cmp_trans)
  qed
qed

lemma sorted_range_cong: "sorted_range lo hi xs \<Longrightarrow> (\<And>i. lo \<le> i \<Longrightarrow> i < hi \<Longrightarrow> ys ! i = xs ! i) \<Longrightarrow> sorted_range lo hi ys"
  by (simp add: sorted_range_def)

lemma qsort1_sorts:
  assumes "hi \<le> length xs" and "0 < width" and "(hi - lo) * width < 2 ^ 15"
  shows "\<exists>ys. qsort1 cmp (int width) lo hi xs = Done ys \<and> rearranged lo hi xs ys \<and> sorted_range lo hi ys"
  using assms(1,3)
proof (induction "hi - lo" arbitrary: lo hi xs rule: less_induct)
  case less
  show ?case
  proof (cases "hi \<le> lo + 1")
    case True
    then show ?thesis by (auto simp: qsort1.simps [of cmp _ lo hi] sorted_range_def)
  next
    case False
    define mid where "mid = lo + (hi - lo) div 2"
    have m: "lo \<le> mid" "mid < hi" using False by (auto simp: mid_def)
    have pm: "pivot (int width) lo hi = Done mid" unfolding mid_def using False assms(2) less.prems(2) by (intro pivot_middle) simp_all
    obtain ys l r where p: "part cmp Again xs lo mid mid (hi - 1) = (ys, l, r)" by (cases "part cmp Again xs lo mid mid (hi - 1)") auto
    note f = partedD [OF part_parts [OF p m less.prems(1)]]
    have small: "k * width < 2 ^ 15" if "k \<le> hi - lo" for k using mult_le_mono1 [OF that, of width] less.prems(2) by (rule le_less_trans)
    obtain zs where zs: "qsort1 cmp (int width) lo l ys = Done zs" and z: "rearranged lo l ys zs" "sorted_range lo l zs"
      using less.hyps [of l lo ys, OF _ _ small] f(1,2,3,4,5,6) by force
    have lz: "length zs = length xs" "length ys = length xs" using z(1) f(7) by (simp_all add: rearranged_def)
    obtain us where us: "qsort1 cmp (int width) (r + 1) hi zs = Done us" and u: "rearranged (r + 1) hi zs us" "sorted_range (r + 1) hi us"
      using less.hyps [of hi "r + 1" zs, OF _ _ small] f(1,2,3,4,5) less.prems(1) lz by force
    have e: "qsort1 cmp (int width) lo hi xs = Done us" using False p pm zs us by (simp add: qsort1.simps [of cmp _ lo hi])
    have R: "rearranged lo hi xs us"
      using rearranged_trans [OF f(8) rearranged_trans [OF rearranged_mono [OF z(1)] rearranged_mono [OF u(1)]]] f(1,2,3,4,5) by simp
    have same: "us ! i = zs ! i" if "i < r + 1" for i using u(1) that f(5) lz less.prems(1) by (simp add: rearranged_def)
    have same2: "zs ! i = ys ! i" if "l \<le> i" "i < hi" for i using z(1) that lz less.prems(1) by (simp add: rearranged_def)
    have "sorted_range lo hi us"
    proof (rule sorted_join [where p = "xs ! mid"])
      show "sorted_range lo l us" by (rule sorted_range_cong [OF z(2)]) (use same f(3) in auto)
      show "cmp (us ! i) (xs ! mid) \<le> 0" if "lo \<le> i" "i < l" for i
      proof -
        have "cmp (zs ! i) (xs ! mid) \<le> 0"
          by (rule rearranged_range [OF z(1), where P = "\<lambda>x. cmp x (xs ! mid) \<le> 0"]) (use that f lz less.prems(1) less_imp_le in \<open>auto simp: less_imp_le\<close>)
        then show ?thesis using same that f(3) by simp
      qed
      show "cmp (us ! i) (xs ! mid) = 0" if "l \<le> i" "i \<le> r" for i using same [of i] same2 [of i] f(5,10) [of] that by simp
      show "cmp (us ! i) (xs ! mid) \<ge> 0" if "r < i" "i < hi" for i
        by (rule rearranged_range [OF u(1), where P = "\<lambda>x. cmp x (xs ! mid) \<ge> 0"]) (use that f lz less.prems(1) same2 in \<open>auto simp: less_imp_le\<close>)
    qed (rule u(2))
    then show ?thesis using R e by simp
  qed
qed

lemma qsort_ordered:
  assumes "0 < width" and "length xs * width < 2 ^ 15"
  shows "\<exists>ys. qsort cmp width xs = Done ys \<and> sorted_wrt (\<lambda>x y. cmp x y \<le> 0) ys \<and> mset ys = mset xs"
proof (cases "xs = []")
  case False
  obtain ys where "qsort1 cmp (int width) 0 (length xs) xs = Done ys" "rearranged 0 (length xs) xs ys" "sorted_range 0 (length xs) ys"
    using qsort1_sorts [of "length xs" xs width 0] assms by auto
  then show ?thesis using qsort_all_elements [OF False assms(1) qsort_width_small [OF False assms(2)]] assms(2)
    by (auto simp: sorted_wrt_iff_nth_less sorted_range_def rearranged_def)
qed (simp add: qsort_def)

end

text \<open>A binary search needs only that the elements that compare below the key come first, and those above it last.\<close>

lemma bsearch_loop_step:
  assumes "0 < cnt" and "0 < width" and "cnt * width \<le> 2 ^ 16" and "base + cnt \<le> length xs"
  shows "bsearch_loop keycmp key width xs base cnt =
    (let mid_point = base + cnt div 2; cmp = keycmp key (xs ! mid_point)
     in if cmp = 0 then Done (Some mid_point) else if cmp < 0 then bsearch_loop keycmp key width xs base (cnt div 2)
        else bsearch_loop keycmp key width xs (mid_point + 1) ((cnt - 1) div 2))"
proof -
  have "cnt div 2 < cnt" using assms(1) by simp
  then have "width * (cnt div 2) < cnt * width" using assms(2) by (simp add: mult.commute)
  then have "width * (cnt div 2) < 2 ^ 16" using assms(3) by (rule less_le_trans)
  then have o: "width * (cnt div 2) mod 2 ^ 16 = width * (cnt div 2)" by (rule mod_less)
  have d: "width * (cnt div 2) div width = cnt div 2" "width * (cnt div 2) mod width = 0" using assms(2) by simp_all
  have "base + cnt div 2 < length xs" using assms(1,4) by linarith
  then show ?thesis using assms(1,2) unfolding bsearch_loop.simps [of keycmp key width xs base cnt] Let_def o d by simp
qed

definition found :: "('k \<Rightarrow> 'a \<Rightarrow> int) \<Rightarrow> 'k \<Rightarrow> 'a list \<Rightarrow> nat \<Rightarrow> nat \<Rightarrow> nat option \<Rightarrow> bool" where
  "found keycmp key xs lo hi r \<longleftrightarrow> (case r of Some i \<Rightarrow> lo \<le> i \<and> i < hi \<and> keycmp key (xs ! i) = 0
    | None \<Rightarrow> (\<forall>i. lo \<le> i \<and> i < hi \<longrightarrow> keycmp key (xs ! i) \<noteq> 0))"

lemma found_widen:
  assumes "found keycmp key xs lo hi r" and "lo' \<le> lo" and "hi \<le> hi'"
    and "\<And>i. lo' \<le> i \<Longrightarrow> i < lo \<Longrightarrow> keycmp key (xs ! i) \<noteq> 0" and "\<And>i. hi \<le> i \<Longrightarrow> i < hi' \<Longrightarrow> keycmp key (xs ! i) \<noteq> 0"
  shows "found keycmp key xs lo' hi' r"
proof (cases r)
  case None
  then have "keycmp key (xs ! i) \<noteq> 0" if "lo' \<le> i" "i < hi'" for i
    using assms(1) assms(4,5) [of i] that by (cases "i < lo"; cases "i < hi") (auto simp: found_def)
  then show ?thesis using None by (simp add: found_def)
qed (use assms(1-3) in \<open>auto simp: found_def\<close>)

lemma bsearch_loop_finds:
  assumes "0 < width" and "n * width \<le> 2 ^ 16" and "base + n \<le> length xs" and "\<And>i j. base \<le> i \<Longrightarrow> i \<le> j \<Longrightarrow> j < base + n \<Longrightarrow> keycmp key (xs ! i) \<le> 0 \<Longrightarrow> keycmp key (xs ! j) \<le> 0"
    and "\<And>i j. base \<le> i \<Longrightarrow> i \<le> j \<Longrightarrow> j < base + n \<Longrightarrow> keycmp key (xs ! j) \<ge> 0 \<Longrightarrow> keycmp key (xs ! i) \<ge> 0"
  shows "\<exists>r. bsearch_loop keycmp key width xs base n = Done r \<and> found keycmp key xs base (base + n) r"
  using assms(2-)
proof (induction n arbitrary: base rule: less_induct)
  case (less n)
  let ?m = "base + n div 2" let ?c = "keycmp key (xs ! ?m)"
  have small: "k * width \<le> 2 ^ 16" if "k \<le> n" for k using mult_le_mono1 [OF that, of width] less.prems(1) by (rule le_trans)
  have step: "bsearch_loop keycmp key width xs base n = (if ?c = 0 then Done (Some ?m)
      else if ?c < 0 then bsearch_loop keycmp key width xs base (n div 2) else bsearch_loop keycmp key width xs (?m + 1) ((n - 1) div 2))" if "0 < n"
    by (rule bsearch_loop_step [unfolded Let_def]) (use assms(1) less.prems(1,2) that in auto)
  consider "n = 0" | "0 < n" "?c = 0" | "0 < n" "?c < 0" | "0 < n" "?c > 0" by linarith
  then show ?case
  proof cases
    case 3
    have lt: "n div 2 < n" using 3 by simp
    have "\<exists>r. bsearch_loop keycmp key width xs base (n div 2) = Done r \<and> found keycmp key xs base ?m r"
    proof (rule less.IH [OF lt small])
      show "n div 2 \<le> n" by simp
    next
      show "base + n div 2 \<le> length xs" using less.prems(2) by linarith
    next
      fix i j assume "base \<le> i" "i \<le> j" "j < base + n div 2" "keycmp key (xs ! i) \<le> 0"
      then show "keycmp key (xs ! j) \<le> 0" by (intro less.prems(3) [of i j]) linarith+
    next
      fix i j assume "base \<le> i" "i \<le> j" "j < base + n div 2" "keycmp key (xs ! j) \<ge> 0"
      then show "keycmp key (xs ! i) \<ge> 0" by (intro less.prems(4) [of i j]) linarith+
    qed
    moreover have "keycmp key (xs ! i) \<noteq> 0" if "?m \<le> i" "i < base + n" for i
      using less.prems(4) [of ?m i] that 3 by force
    moreover have "bsearch_loop keycmp key width xs base n = bsearch_loop keycmp key width xs base (n div 2)" using 3 step by simp
    ultimately show ?thesis using found_widen [of keycmp key xs base ?m _ base "base + n"] by auto
  next
    case 4
    have lt: "(n - 1) div 2 < n" and s: "?m + 1 + (n - 1) div 2 = base + n" using 4 by linarith+
    have "\<exists>r. bsearch_loop keycmp key width xs (?m + 1) ((n - 1) div 2) = Done r \<and> found keycmp key xs (?m + 1) (?m + 1 + (n - 1) div 2) r"
    proof (rule less.IH [OF lt small])
      show "(n - 1) div 2 \<le> n" by linarith
    next
      show "?m + 1 + (n - 1) div 2 \<le> length xs" using less.prems(2) s by linarith
    next
      fix i j assume "?m + 1 \<le> i" "i \<le> j" "j < ?m + 1 + (n - 1) div 2" "keycmp key (xs ! i) \<le> 0"
      then show "keycmp key (xs ! j) \<le> 0" using s by (intro less.prems(3) [of i j]) linarith+
    next
      fix i j assume "?m + 1 \<le> i" "i \<le> j" "j < ?m + 1 + (n - 1) div 2" "keycmp key (xs ! j) \<ge> 0"
      then show "keycmp key (xs ! i) \<ge> 0" using s by (intro less.prems(4) [of i j]) linarith+
    qed
    moreover have "keycmp key (xs ! i) \<noteq> 0" if "base \<le> i" "i \<le> ?m" for i
      using less.prems(3) [of i ?m] that 4 by force
    moreover have "bsearch_loop keycmp key width xs base n = bsearch_loop keycmp key width xs (?m + 1) ((n - 1) div 2)" using 4 step by simp
    ultimately show ?thesis unfolding s using found_widen [of keycmp key xs "?m + 1" "base + n" _ base "base + n"] by auto
  next
    case 1
    then show ?thesis by (simp add: bsearch_loop.simps [of keycmp key width xs base] found_def)
  next
    case 2
    then show ?thesis using step by (auto simp: found_def)
  qed
qed

context comparison begin

lemma bsearch_sorted:
  assumes "sorted_wrt (\<lambda>x y. cmp x y \<le> 0) xs" and "0 < width" and "length xs * width \<le> 2 ^ 16"
  shows "\<exists>r. bsearch cmp key width xs = Done r \<and> (case r of Some i \<Rightarrow> i < length xs \<and> cmp key (xs ! i) = 0 | None \<Rightarrow> \<forall>x \<in> set xs. cmp key x \<noteq> 0)"
proof -
  have o: "cmp (xs ! i) (xs ! j) \<le> 0" if "i \<le> j" "j < length xs" for i j
    using assms(1) that cmp_flip [of "xs ! i" "xs ! i"] by (cases "i = j") (auto simp: sorted_wrt_iff_nth_less)
  have "\<exists>r. bsearch_loop cmp key width xs 0 (length xs) = Done r \<and> found cmp key xs 0 (0 + length xs) r"
  proof (rule bsearch_loop_finds [OF assms(2,3)])
    fix i j assume "i \<le> j" "j < 0 + length xs" "cmp key (xs ! i) \<le> 0"
    then show "cmp key (xs ! j) \<le> 0" using o [of i j] cmp_trans by auto
  next
    fix i j assume "i \<le> j" "j < 0 + length xs" "0 \<le> cmp key (xs ! j)"
    then show "0 \<le> cmp key (xs ! i)" using o [of i j] cmp_trans [of "xs ! i" "xs ! j" key] by (auto simp: cmp_flip_le [symmetric])
  qed simp
  then obtain r where "bsearch_loop cmp key width xs 0 (length xs) = Done r" and "found cmp key xs 0 (0 + length xs) r" by blast
  then show ?thesis unfolding bsearch_def by (intro exI [of _ r]) (auto simp: found_def in_set_conv_nth split: option.splits)
qed

end

subsection \<open>strcmp is a comparison\<close>

lemma sint_eq_iff: "sint a = sint b \<longleftrightarrow> a = (b :: u8)"
  by (metis uint_sint word_uint_eq_iff)

lemma strcmp_flip: "strcmp s t = 0 \<and> s = t \<or> strcmp s t < 0 \<and> strcmp t s > 0 \<or> strcmp s t > 0 \<and> strcmp t s < 0"
proof (induction s t rule: strcmp.induct)
  case (4 a as b bs)
  have "sint a \<noteq> sint b" if "a \<noteq> b" using that by (simp add: sint_eq_iff)
  then show ?case using 4 by force
qed simp_all

lemma strcmp_trans: "strcmp r s \<le> 0 \<Longrightarrow> strcmp s t \<le> 0 \<Longrightarrow> strcmp r t \<le> 0"
proof (induction r s arbitrary: t rule: strcmp.induct)
  case (4 a as b bs)
  show ?case
  proof (cases t)
    case Nil
    then show ?thesis using 4 by simp
  next
    case (Cons c cs)
    then show ?thesis using 4 sint_eq_iff [of c b] by (auto split: if_splits)
  qed
next
  case (2 b bs)
  then show ?case by (cases t) simp_all
qed simp_all

interpretation str: comparison strcmp
proof
  show "strcmp x y < 0 \<longleftrightarrow> 0 < strcmp y x" for x y using strcmp_flip [of x y] strcmp_flip [of y x] by force
qed (rule strcmp_trans)

text \<open>
  C23. \<open>qsort\<close> sorts: for every comparison that is a total order up to equality and every array of less than 32768 bytes
  it returns, in order and with the same elements, and \<open>bsearch\<close> in the result returns, with an element equal to the key exactly when there is
  one. From 32768 bytes on, up to two elements less than 64K, \<open>a2 - a1\<close> is negative as the 16-bit \<open>int\<close> it is computed in, and \<open>qsort\<close> goes for a
  middle element in front of the array (elements of less than 16K).
\<close>

theorem qsort_bsearch:
  assumes "comparison cmp" and "0 < width"
  shows "(length xs * width < 2 ^ 15 \<longrightarrow>
      (\<exists>ys r. qsort cmp width xs = Done ys \<and> sorted_wrt (\<lambda>x y. cmp x y \<le> 0) ys \<and> mset ys = mset xs \<and> bsearch cmp key width ys = Done r \<and>
        (case r of Some i \<Rightarrow> i < length xs \<and> cmp key (ys ! i) = 0 | None \<Rightarrow> \<forall>x \<in> set xs. cmp key x \<noteq> 0))) \<and>
    (2 ^ 15 \<le> length xs * width \<and> (length xs + 2) * width \<le> 2 ^ 16 \<and> 2 * width < 2 ^ 15 \<longrightarrow> qsort cmp width xs = Stuck)"
proof (intro conjI impI)
  assume n: "length xs * width < 2 ^ 15"
  obtain ys where ys: "qsort cmp width xs = Done ys" "sorted_wrt (\<lambda>x y. cmp x y \<le> 0) ys" "mset ys = mset xs"
    using comparison.qsort_ordered [OF assms n] by blast
  then have l: "length ys = length xs" "set ys = set xs" by (metis size_mset, metis set_mset_mset)
  have "length ys * width \<le> 2 ^ 16" using n l by simp
  then obtain r where "bsearch cmp key width ys = Done r" "case r of Some i \<Rightarrow> i < length ys \<and> cmp key (ys ! i) = 0 | None \<Rightarrow> \<forall>x \<in> set ys. cmp key x \<noteq> 0"
    using comparison.bsearch_sorted [OF assms(1) ys(2) assms(2), of key] by blast
  then show "\<exists>ys r. qsort cmp width xs = Done ys \<and> sorted_wrt (\<lambda>x y. cmp x y \<le> 0) ys \<and> mset ys = mset xs \<and> bsearch cmp key width ys = Done r \<and>
      (case r of Some i \<Rightarrow> i < length xs \<and> cmp key (ys ! i) = 0 | None \<Rightarrow> \<forall>x \<in> set xs. cmp key x \<noteq> 0)"
    using ys unfolding l by (intro exI [of _ ys] exI [of _ r] conjI)
qed (blast intro: qsort_large_stuck)

theorem qsort_bsearch_witness:
  "qsort strcmp 4 [[98], [97, 99], [97]] = Done [[97], [97, 99], [98]] \<and> sorted_wrt (\<lambda>x y. strcmp x y \<le> 0) [[97], [97, 99], [98]] \<and>
   bsearch strcmp [98] 4 [[97], [97, 99], [98]] = Done (Some 2) \<and> qsort strcmp 4 (replicate 10000 [97]) = Stuck"
proof -
  have e: "qsort strcmp 4 [[98], [97, 99], [97]] = Done [[97], [97, 99], [98]]"
    by (simp add: qsort_def qsort1.simps part.simps pivot_def pivot_offset_def as_int_small Let_def qexchange_def q3exchange_def signed_divide_int_def)
  have b: "bsearch strcmp [98] 4 [[97], [97, 99], [98]] = Done (Some 2)" by (simp add: bsearch_def bsearch_loop.simps)
  have "sorted_wrt (\<lambda>x y. strcmp x y \<le> 0) [[97], [97, 99], [98]]"
    using qsort_bsearch [OF str.comparison_axioms, of 4 "[[98], [97, 99], [97]]"] e by auto
  moreover have "qsort strcmp 4 (replicate 10000 [97]) = Stuck"
    by (rule qsort_bsearch [OF str.comparison_axioms, of 4 "replicate 10000 [97]", THEN conjunct2, THEN mp]) (simp_all only: length_replicate, simp_all)
  ultimately show ?thesis using e b by blast
qed

end
