(* ===== verification/MM_Proc.thy ===== *)
theory MM_Proc
  imports MM_Alloc Kernel_Clock
begin

section \<open>MM: processes and signals (src/src/mm)\<close>

text \<open>
  The memory manager's process table and its calls: \<open>forkexit.c\<close>, \<open>break.c\<close>, \<open>signal.c\<close>, \<open>getset.c\<close>,
  \<open>trace.c\<close> and the main loop of \<open>main.c\<close> with the call table of \<open>table.c\<close>.

  \<^item> A pointer into \<open>mproc\<close> is the index of the slot; \<open>mp_flags\<close> is the set of flags that are on.
  \<^item> Requests to the system task and to the clock task are the handlers of the kernel theories, run
    on the kernel state \<open>krn\<close> and the clock \<open>clk\<close>. \<open>sys_newmap\<close> passes the address of the map in
    MM's memory; its effect, the map in the kernel's slot, is written directly (\<open>do_newmap_reads_map\<close>
    relates the two).
  \<^item> Replies to users and the messages to FS are appended to \<open>sent\<close>. What FS answers to MM's own calls
    (for a core dump) are the numbers \<open>fs_ans\<close>, in order.
  \<^item> \<open>sig_stuff\<close>, \<open>slot_long\<close> and \<open>slot_size\<close> describe the layout of the kernel's data, as in
    \<open>do_sig\<close> and \<open>do_trace\<close>.
\<close>

subsection \<open>Data\<close>

abbreviation (input) INIT_PROC_NR :: int where "INIT_PROC_NR \<equiv> 2"
abbreviation (input) INIT_PID :: int where "INIT_PID \<equiv> 1"
abbreviation (input) LAST_FEW :: int where "LAST_FEW \<equiv> 2"
abbreviation (input) NCALLS :: int where "NCALLS \<equiv> 70"
abbreviation (input) SAFETY_CLICKS :: u16 where "SAFETY_CLICKS \<equiv> 6"
abbreviation (input) SIGKILL :: int where "SIGKILL \<equiv> 9"
abbreviation (input) NSIG :: int where "NSIG \<equiv> 16"
abbreviation (input) CORE_BITS :: u16 where "CORE_BITS \<equiv> 0x0EFC"

abbreviation (input) EPERM :: int where "EPERM \<equiv> -1"
abbreviation (input) ENOENT :: int where "ENOENT \<equiv> -2"
abbreviation (input) ESRCH :: int where "ESRCH \<equiv> -3"
abbreviation (input) EINTR :: int where "EINTR \<equiv> -4"
abbreviation (input) ECHILD :: int where "ECHILD \<equiv> -10"
abbreviation (input) EAGAIN :: int where "EAGAIN \<equiv> -11"
abbreviation (input) ENOMEM :: int where "ENOMEM \<equiv> -12"
abbreviation (input) EACCES :: int where "EACCES \<equiv> -13"
abbreviation (input) EINVAL :: int where "EINVAL \<equiv> -22"
abbreviation (input) EBADCALL :: int where "EBADCALL \<equiv> -102"

datatype mflag = IN_USE | WAITING | HANGING | PAUSED | ALARM_ON | SEPARATE | TRACED | STOPPED

record mproc =
  mp_seg :: "segment \<Rightarrow> mem_map"
  mp_exitstatus :: u8
  mp_sigstatus :: u8
  mp_pid :: int
  mp_parent :: int
  mp_procgrp :: int
  mp_realuid :: u16
  mp_effuid :: u16
  mp_realgid :: u8
  mp_effgid :: u8
  mp_ignore :: u16
  mp_catch :: u16
  mp_func :: u32
  mp_flags :: "mflag set"

datatype mm_msg = Reply int int int u32 | Tell_fs int int int int | Read_fs int u32 int

text \<open>The views of the incoming message that \<open>param.h\<close> names.\<close>

record mm_in =
  m_source :: int
  m_type :: int
  m_i1 :: int
  m_i2 :: int
  m_i3 :: int
  m_p1 :: u32
  m_p2 :: u32
  m_f1 :: u32
  m_l1 :: u32
  m_l2 :: int

record mm =
  mproc_tab :: "int \<Rightarrow> mproc"
  mp :: int
  who :: int
  mm_call :: int
  procs_in_use :: int
  next_pid :: int
  dont_reply :: bool
  result2 :: int
  res_ptr :: u32
  out_l1 :: int
  out_l2 :: int
  request_in :: mm_in
  holes :: mem_table
  krn :: kernel
  clk :: clock
  sent :: "mm_msg list"
  fs_ans :: "int list"
  sig_stuff :: u32
  slot_long :: "proc \<Rightarrow> nat \<Rightarrow> int"
  slot_size :: int

definition upd_mproc :: "int \<Rightarrow> (mproc \<Rightarrow> mproc) \<Rightarrow> mm \<Rightarrow> mm" where
  "upd_mproc p f s = s\<lparr>mproc_tab := (mproc_tab s)(p := f (mproc_tab s p))\<rparr>"

lemma upd_mproc_simps [simp]:
  "mproc_tab (upd_mproc p f s) = (mproc_tab s)(p := f (mproc_tab s p))"
  "mp (upd_mproc p f s) = mp s" "who (upd_mproc p f s) = who s" "mm_call (upd_mproc p f s) = mm_call s"
  "procs_in_use (upd_mproc p f s) = procs_in_use s" "next_pid (upd_mproc p f s) = next_pid s"
  "dont_reply (upd_mproc p f s) = dont_reply s" "result2 (upd_mproc p f s) = result2 s" "res_ptr (upd_mproc p f s) = res_ptr s"
  "out_l1 (upd_mproc p f s) = out_l1 s" "out_l2 (upd_mproc p f s) = out_l2 s" "request_in (upd_mproc p f s) = request_in s" "holes (upd_mproc p f s) = holes s"
  "krn (upd_mproc p f s) = krn s" "clk (upd_mproc p f s) = clk s" "sent (upd_mproc p f s) = sent s" "fs_ans (upd_mproc p f s) = fs_ans s"
  "sig_stuff (upd_mproc p f s) = sig_stuff s" "slot_long (upd_mproc p f s) = slot_long s" "slot_size (upd_mproc p f s) = slot_size s"
  by (simp_all add: upd_mproc_def)

abbreviation flags_of :: "mm \<Rightarrow> int \<Rightarrow> mflag set" where
  "flags_of s p \<equiv> mp_flags (mproc_tab s p)"

abbreviation set_flag :: "mflag \<Rightarrow> mproc \<Rightarrow> mproc" where
  "set_flag f \<equiv> (\<lambda>r. r\<lparr>mp_flags := insert f (mp_flags r)\<rparr>)"

abbreviation clear_flag :: "mflag \<Rightarrow> mproc \<Rightarrow> mproc" where
  "clear_flag f \<equiv> (\<lambda>r. r\<lparr>mp_flags := mp_flags r - {f}\<rparr>)"

definition mm_slots :: "int list" where
  "mm_slots = [0..NR_PROCS - 1]"

definition slots_from :: "int \<Rightarrow> int list" where
  "slots_from a = [a..NR_PROCS - 1]"

definition sig_numbers :: "int list" where
  "sig_numbers = [1..NSIG - 1]"

subsection \<open>Messages\<close>

definition reply :: "int \<Rightarrow> int \<Rightarrow> int \<Rightarrow> u32 \<Rightarrow> mm \<Rightarrow> mm" where
  "reply proc_nr result res2 respt s =
     (if IN_USE \<notin> flags_of s proc_nr \<or> HANGING \<in> flags_of s proc_nr then s
      else s\<lparr>sent := sent s @ [Reply proc_nr result res2 respt]\<rparr>)"

definition tell_fs :: "int \<Rightarrow> int \<Rightarrow> int \<Rightarrow> int \<Rightarrow> mm \<Rightarrow> mm" where
  "tell_fs what p1 p2 p3 s = s\<lparr>sent := sent s @ [Tell_fs what p1 p2 p3]\<rparr>"

definition ask_fs :: "mm \<Rightarrow> int \<times> mm" where
  "ask_fs s = (case fs_ans s of [] \<Rightarrow> (-1, s) | a # r \<Rightarrow> (a, s\<lparr>fs_ans := r\<rparr>))"

definition sys_newmap :: "int \<Rightarrow> mm \<Rightarrow> mm" where
  "sys_newmap p s = s\<lparr>krn := upd_proc p (\<lambda>r. r\<lparr>p_map := mp_seg (mproc_tab s p)\<rparr>) (krn s)\<rparr>"

subsection \<open>Memory sizes (\<open>break.c\<close>)\<close>

definition size_ok :: "u16 \<Rightarrow> u16 \<Rightarrow> u16 \<Rightarrow> int" where
  "size_ok dc dvir s_vir = (if s_vir < dvir + dc then ENOMEM else OK)"

definition adjust :: "int \<Rightarrow> u16 \<Rightarrow> u32 \<Rightarrow> mm \<Rightarrow> int \<times> mm" where
  "adjust rmp dclicks sp s =
     (if rmp = INIT_PROC_NR then (OK, s)
      else
        let seg = mp_seg (mproc_tab s rmp); dp = seg Seg_D; ss = seg Seg_S;
            base_of_stack = uint (mem_vir ss) + uint (mem_len ss);
            sp_click = (ucast (drop_bit 8 sp) :: u16)
        in if base_of_stack \<le> uint sp_click then (ENOMEM, s)
           else
             let delta = uint (mem_vir ss) - uint sp_click;
                 lower = (if 0 < delta then sp_click else mem_vir ss);
                 gap_base = mem_vir dp + dclicks + SAFETY_CLICKS
             in if lower < gap_base then (ENOMEM, s)
                else
                  let dp' = dp\<lparr>mem_len := dclicks\<rparr>;
                      ss' = (if 0 < delta
                             then ss\<lparr>mem_vir := mem_vir ss - word_of_int delta, mem_phys := mem_phys ss - word_of_int delta,
                                     mem_len := mem_len ss + word_of_int delta\<rparr>
                             else ss);
                      changed = (dclicks \<noteq> mem_len dp \<or> 0 < delta);
                      s1 = upd_mproc rmp (\<lambda>r. r\<lparr>mp_seg := seg(Seg_D := dp', Seg_S := ss')\<rparr>) s
                  in if size_ok dclicks (mem_vir dp) (mem_vir ss') = OK
                     then (OK, if changed then sys_newmap rmp s1 else s1)
                     else (ENOMEM, s))"

definition do_brk :: "mm \<Rightarrow> int \<times> mm" where
  "do_brk s =
     (let addr = m_p1 (request_in s);
          new_clicks = (ucast (signed_drop_bit 8 (addr + 255)) :: u16);
          d = mem_vir (mp_seg (mproc_tab s (mp s)) Seg_D)
      in if new_clicks < d then (ENOMEM, s\<lparr>res_ptr := -1\<rparr>)
         else let new_sp = snd (Kernel_System.do_getsp (who s) (krn s));
                  (r, s1) = adjust (mp s) (new_clicks - d) new_sp s
              in (r, s1\<lparr>res_ptr := (if r = OK then addr else -1)\<rparr>))"

subsection \<open>Alarms\<close>

text \<open>\<open>HZ * sec\<close> is computed in 16-bit unsigned arithmetic.\<close>

definition alarm_ticks :: "u16 \<Rightarrow> int" where
  "alarm_ticks sec = uint (60 * sec)"

definition set_alarm :: "int \<Rightarrow> u16 \<Rightarrow> mm \<Rightarrow> (int \<times> mm) outcome" where
  "set_alarm proc_nr sec s =
     (let s1 = upd_mproc proc_nr (if sec \<noteq> 0 then set_flag ALARM_ON else clear_flag ALARM_ON) s
      in and_then (clock_task (\<lambda>_. Done) (Set_alarm proc_nr (alarm_ticks sec) 0) (krn s1) (clk s1))
           (\<lambda>(left, k, c). Done (case left of Some n \<Rightarrow> n | None \<Rightarrow> 0, s1\<lparr>krn := k, clk := c\<rparr>)))"

definition do_alarm :: "mm \<Rightarrow> (int \<times> mm) outcome" where
  "do_alarm s = set_alarm (who s) (word_of_int (m_i1 (request_in s))) s"

definition do_pause :: "mm \<Rightarrow> int \<times> mm" where
  "do_pause s = (OK, (upd_mproc (mp s) (set_flag PAUSED) s)\<lparr>dont_reply := True\<rparr>)"

subsection \<open>Exit and wait (\<open>forkexit.c\<close>)\<close>

definition wait_status :: "mproc \<Rightarrow> int" where
  "wait_status r = sint ((ucast (mp_sigstatus r) AND 0xFF) OR push_bit 8 (ucast (mp_exitstatus r)) :: u16)"

text \<open>
  The loop that disinherits the children of \<open>child_nr\<close>; \<open>again\<close> is the recursive call of \<open>cleanup\<close>. The
  first argument of \<open>cleanup\<close> bounds the depth of the recursion.
\<close>

fun disinherit :: "(int \<Rightarrow> mm \<Rightarrow> mm outcome) \<Rightarrow> int \<Rightarrow> int list \<Rightarrow> bool \<Rightarrow> mm \<Rightarrow> mm outcome" where
  "disinherit again child_nr [] init_waiting s = Done s"
| "disinherit again child_nr (rp # rps) init_waiting s =
     (if mp_parent (mproc_tab s rp) \<noteq> child_nr then disinherit again child_nr rps init_waiting s
      else
        let s1 = upd_mproc rp (\<lambda>r. r\<lparr>mp_parent := INIT_PROC_NR\<rparr>) s
        in if init_waiting \<and> HANGING \<in> flags_of s1 rp
           then and_then (again rp s1) (disinherit again child_nr rps False)
           else disinherit again child_nr rps init_waiting s1)"

definition release_slot :: "int \<Rightarrow> mm \<Rightarrow> mm" where
  "release_slot child s =
     (let parent = mp_parent (mproc_tab s child);
          s1 = reply parent (mp_pid (mproc_tab s child)) (wait_status (mproc_tab s child)) 0 s;
          s2 = upd_mproc child (\<lambda>r. r\<lparr>mp_flags := mp_flags r - {TRACED, HANGING, PAUSED}\<rparr>) s1;
          s3 = upd_mproc child (clear_flag IN_USE) (upd_mproc parent (clear_flag WAITING) s2)
      in s3\<lparr>procs_in_use := procs_in_use s3 - 1\<rparr>)"

primrec cleanup :: "nat \<Rightarrow> int \<Rightarrow> mm \<Rightarrow> mm outcome" where
  "cleanup 0 child s = Stuck"
| "cleanup (Suc n) child s =
     (let s1 = release_slot child s
      in disinherit (cleanup n) child mm_slots (WAITING \<in> flags_of s1 INIT_PROC_NR) s1)"

definition mm_exit :: "int \<Rightarrow> int \<Rightarrow> mm \<Rightarrow> mm outcome" where
  "mm_exit rmp exit_status s =
     (let s1 = upd_mproc rmp (\<lambda>r. r\<lparr>mp_exitstatus := word_of_int exit_status\<rparr>) s in
      and_then (if WAITING \<in> flags_of s1 (mp_parent (mproc_tab s1 rmp)) then cleanup 2 rmp s1
                else Done (upd_mproc rmp (set_flag HANGING) s1))
        (\<lambda>s2. and_then (if ALARM_ON \<in> flags_of s2 rmp then and_then (set_alarm rmp 0 s2) (\<lambda>(_, s). Done s) else Done s2)
        (\<lambda>s3. and_then (do_xit (mp_parent (mproc_tab s3 rmp)) rmp (krn s3))
        (\<lambda>(_, (base, size), k). and_then (free_mem base size (holes s3))
        (\<lambda>h. Done (tell_fs 1 rmp 0 0 (s3\<lparr>krn := k, holes := h\<rparr>)))))))"

definition do_mm_exit :: "mm \<Rightarrow> (int \<times> mm) outcome" where
  "do_mm_exit s =
     and_then (mm_exit (mp s) (m_i1 (request_in s)) s) (\<lambda>s1. Done (OK, s1\<lparr>dont_reply := True\<rparr>))"

fun wait_scan :: "int list \<Rightarrow> int \<Rightarrow> mm \<Rightarrow> (int \<times> mm) outcome" where
  "wait_scan [] children s =
     Done (if 0 < children then (OK, (upd_mproc (mp s) (set_flag WAITING) s)\<lparr>dont_reply := True\<rparr>) else (ECHILD, s))"
| "wait_scan (rp # rps) children s =
     (let r = mproc_tab s rp in
      if IN_USE \<in> mp_flags r \<and> mp_parent r = who s
      then if HANGING \<in> mp_flags r then and_then (cleanup 2 rp s) (\<lambda>s1. Done (OK, s1\<lparr>dont_reply := True\<rparr>))
           else if STOPPED \<in> mp_flags r \<and> mp_sigstatus r \<noteq> 0
           then let s1 = reply (who s) (mp_pid r) (sint (0x7F OR push_bit 8 (ucast (mp_sigstatus r)) :: u16)) 0 s
                in Done (OK, upd_mproc rp (\<lambda>r. r\<lparr>mp_sigstatus := 0\<rparr>) (s1\<lparr>dont_reply := True\<rparr>))
           else wait_scan rps (children + 1) s
      else wait_scan rps children s)"

definition do_wait :: "mm \<Rightarrow> (int \<times> mm) outcome" where
  "do_wait s = wait_scan mm_slots 0 s"

subsection \<open>Fork (\<open>forkexit.c\<close>)\<close>

definition pid_taken :: "mm \<Rightarrow> int \<Rightarrow> bool" where
  "pid_taken s n \<longleftrightarrow> list_ex (\<lambda>p. mp_pid (mproc_tab s p) = n \<or> mp_procgrp (mproc_tab s p) = n) mm_slots"

text \<open>The \<open>do ... while\<close> loop that looks for a free pid, one unit of fuel per turn.\<close>

fun pick_pid :: "nat \<Rightarrow> int \<Rightarrow> mm \<Rightarrow> mm outcome" where
  "pick_pid 0 rmc s = Stuck"
| "pick_pid (Suc n) rmc s =
     (let np = (if next_pid s < 30000 then next_pid s + 1 else INIT_PID + 1);
          s1 = upd_mproc rmc (\<lambda>r. r\<lparr>mp_pid := np\<rparr>) (s\<lparr>next_pid := np\<rparr>)
      in if pid_taken s np then pick_pid n rmc s1 else Done s1)"

definition PID_TRIES :: nat where
  "PID_TRIES = 64"

definition fork_seg :: "(segment \<Rightarrow> mem_map) \<Rightarrow> u16 \<Rightarrow> segment \<Rightarrow> mem_map" where
  "fork_seg seg base =
     (let d = base + mem_len (seg Seg_T)
      in seg(Seg_T := (seg Seg_T)\<lparr>mem_phys := base\<rparr>, Seg_D := (seg Seg_D)\<lparr>mem_phys := d\<rparr>,
             Seg_S := (seg Seg_S)\<lparr>mem_phys := d + (mem_phys (seg Seg_S) - mem_phys (seg Seg_D))\<rparr>))"

definition prog_clicks :: "mproc \<Rightarrow> u16" where
  "prog_clicks r =
     mem_len (mp_seg r Seg_S) + (mem_vir (mp_seg r Seg_S) - mem_vir (mp_seg r Seg_D)) + mem_len (mp_seg r Seg_T)"

definition fork_child :: "mproc \<Rightarrow> int \<Rightarrow> u16 \<Rightarrow> mproc" where
  "fork_child rmp parent child_base =
     rmp\<lparr>mp_parent := parent, mp_flags := mp_flags rmp - {TRACED}, mp_seg := fork_seg (mp_seg rmp) child_base,
         mp_exitstatus := 0, mp_sigstatus := 0\<rparr>"

text \<open>The rest of \<open>do_fork\<close>, once memory and slot have been found.\<close>

definition enter_child :: "int \<Rightarrow> u16 \<Rightarrow> mm \<Rightarrow> (int \<times> mm) outcome" where
  "enter_child c child_base s =
     and_then (pick_pid PID_TRIES c
         (upd_mproc c (\<lambda>_. fork_child (mproc_tab s (mp s)) (who s) child_base) (s\<lparr>procs_in_use := procs_in_use s + 1\<rparr>)))
       (\<lambda>s1. let s2 = (if who s1 = INIT_PROC_NR then upd_mproc c (\<lambda>r. r\<lparr>mp_procgrp := mp_pid r\<rparr>) s1 else s1);
                 pid = mp_pid (mproc_tab s2 c);
                 s3 = s2\<lparr>krn := snd (Kernel_System.do_fork (who s2) c pid child_base (krn s2))\<rparr>
             in Done (next_pid s3, reply c 0 0 0 (tell_fs 2 (who s3) c pid s3)))"

definition do_fork_mm :: "mm \<Rightarrow> (int \<times> mm) outcome" where
  "do_fork_mm s =
     (let rmp = mproc_tab s (mp s) in
      if procs_in_use s = NR_PROCS then Done (EAGAIN, s)
      else if NR_PROCS - LAST_FEW \<le> procs_in_use s \<and> mp_effuid rmp \<noteq> 0 then Done (EAGAIN, s)
      else and_then (alloc_mem (prog_clicks rmp) (holes s))
        (\<lambda>(child_base, h).
           if child_base = NO_MEM then Done (EAGAIN, s\<lparr>holes := h\<rparr>)
           else (case find (\<lambda>p. IN_USE \<notin> flags_of s p) mm_slots of
                   None \<Rightarrow> Stuck
                 | Some c \<Rightarrow> enter_child c child_base (s\<lparr>holes := h\<rparr>))))"

subsection \<open>Tracing (\<open>trace.c\<close>)\<close>

definition findproc :: "mm \<Rightarrow> int \<Rightarrow> int option" where
  "findproc s lpid = find (\<lambda>p. IN_USE \<in> flags_of s p \<and> mp_pid (mproc_tab s p) = lpid) (slots_from (INIT_PROC_NR + 1))"

definition stop_proc :: "int \<Rightarrow> int \<Rightarrow> mm \<Rightarrow> mm outcome" where
  "stop_proc rmp sig_nr s =
     and_then (Kernel_System.do_trace (slot_long s) (slot_size s) rmp (-1) 0 0 (krn s))
       (\<lambda>(r, _, k). let s1 = s\<lparr>krn := k\<rparr> in
          if r \<noteq> OK then Done s1
          else let s2 = upd_mproc rmp (set_flag STOPPED) s1; parent = mp_parent (mproc_tab s2 rmp)
               in Done (if WAITING \<in> flags_of s2 parent
                        then reply parent (mp_pid (mproc_tab s2 rmp)) (sint (0x7F OR push_bit 8 (word_of_int sig_nr) :: u16)) 0
                               (upd_mproc parent (clear_flag WAITING) s2)
                        else upd_mproc rmp (\<lambda>r. r\<lparr>mp_sigstatus := word_of_int sig_nr\<rparr>) s2))"

subsection \<open>Signals (\<open>signal.c\<close>)\<close>

definition do_signal :: "mm \<Rightarrow> int \<times> mm" where
  "do_signal s =
     (let sig = m_i1 (request_in s); func = m_f1 (request_in s); sigign = mp_ignore (mproc_tab s (mp s)) in
      if sig < 1 \<or> NSIG < sig then (EINVAL, s)
      else if sig = SIGKILL then (OK, s)
      else
        let b = nat (sig - 1);
            s1 = upd_mproc (mp s)
                   (if func = 1 then (\<lambda>r. r\<lparr>mp_ignore := set_bit b (mp_ignore r), mp_catch := unset_bit b (mp_catch r)\<rparr>)
                    else if func = 0 then (\<lambda>r. r\<lparr>mp_ignore := unset_bit b (mp_ignore r), mp_catch := unset_bit b (mp_catch r)\<rparr>)
                    else (\<lambda>r. r\<lparr>mp_ignore := unset_bit b (mp_ignore r), mp_catch := set_bit b (mp_catch r), mp_func := func\<rparr>)) s
        in (if bit sigign b then 1 else OK, s1))"

text \<open>
  \<open>dump_core\<close> as far as MM's own state goes: whether the status gets the \<open>DUMPED\<close> bit depends on the
  answers of FS about the file and the directory. The contents are written through FS.
\<close>

definition dump_core :: "int \<Rightarrow> mm \<Rightarrow> mm" where
  "dump_core rmp s =
     (let s1 = tell_fs 12 rmp 0 0 s; r = mproc_tab s1 rmp in
      if mp_realuid r \<noteq> mp_effuid r then tell_fs 12 0 1 0 s1
      else
        let (rc, s2) = ask_fs s1; (dr, s3) = ask_fs s2; rc' = (if mp_effuid r = 0 then 0 else rc)
        in if 0 \<le> dr \<and> (0 \<le> rc' \<or> rc' = ENOENT)
           then let (fd, s4) = ask_fs s3; s5 = tell_fs 12 0 1 0 s4
                in if fd < 0 then s5 else upd_mproc rmp (\<lambda>r. r\<lparr>mp_sigstatus := mp_sigstatus r OR 0x80\<rparr>) s5
           else tell_fs 12 0 1 0 s3)"

definition kill_default :: "int \<Rightarrow> int \<Rightarrow> mm \<Rightarrow> mm outcome" where
  "kill_default rmp sig_nr s =
     (let s1 = upd_mproc rmp (\<lambda>r. r\<lparr>mp_sigstatus := word_of_int sig_nr\<rparr>) s
      in mm_exit rmp 0 (if bit CORE_BITS (nat (sig_nr - 1)) then dump_core rmp s1 else s1))"

definition sig_proc :: "int \<Rightarrow> int \<Rightarrow> mm \<Rightarrow> mm outcome" where
  "sig_proc rmp sig_nr s =
     (if IN_USE \<notin> flags_of s rmp then Done s
      else if TRACED \<in> flags_of s rmp \<and> sig_nr \<noteq> SIGKILL then stop_proc rmp sig_nr s
      else
        let b = nat (sig_nr - 1) in
        if bit (mp_catch (mproc_tab s rmp)) b
        then let s1 = upd_mproc rmp (\<lambda>r. r\<lparr>mp_catch := unset_bit b (mp_catch r)\<rparr>) s;
                 new_sp = snd (Kernel_System.do_getsp rmp (krn s1)) - of_nat SIG_PUSH_BYTES;
                 (r, s2) = adjust rmp (mem_len (mp_seg (mproc_tab s1 rmp) Seg_D)) new_sp s1
             in if r = OK
                then and_then (Kernel_System.do_sig (sig_stuff s2) rmp sig_nr (mp_func (mproc_tab s2 rmp)) (krn s2))
                       (\<lambda>(_, k). Done (s2\<lparr>krn := k\<rparr>))
                else kill_default rmp sig_nr s2
        else kill_default rmp sig_nr s)"

definition stack_fault :: "int \<Rightarrow> mm \<Rightarrow> mm outcome" where
  "stack_fault proc_nr s =
     (let new_sp = snd (Kernel_System.do_getsp proc_nr (krn s)) - 256;
          (r, s1) = adjust proc_nr (mem_len (mp_seg (mproc_tab s proc_nr) Seg_D)) new_sp s
      in if r = OK then Done s1
         else sig_proc proc_nr 11 (upd_mproc proc_nr (\<lambda>r. r\<lparr>mp_catch := 0\<rparr>) s1))"

definition unpause :: "int \<Rightarrow> mm \<Rightarrow> mm" where
  "unpause pro s =
     (if PAUSED \<in> flags_of s pro \<and> HANGING \<notin> flags_of s pro
      then reply pro EINTR 0 0 (upd_mproc pro (clear_flag PAUSED) s)
      else if WAITING \<in> flags_of s pro \<and> HANGING \<notin> flags_of s pro
      then reply pro EINTR 0 0 (upd_mproc pro (clear_flag WAITING) s)
      else tell_fs 65 pro 0 0 s)"

text \<open>The seven tests of \<open>check_sig\<close>, in order; \<open>grp\<close> is the process group of the caller.\<close>

definition send_sig :: "int \<Rightarrow> int \<Rightarrow> u16 \<Rightarrow> int \<Rightarrow> mproc \<Rightarrow> bool" where
  "send_sig proc_id sig_nr send_uid grp r =
     (let b1 = \<not> (send_uid \<noteq> mp_effuid r \<and> send_uid \<noteq> 0);
          b2 = b1 \<and> \<not> (0 < proc_id \<and> proc_id \<noteq> mp_pid r);
          b3 = b2 \<and> HANGING \<notin> mp_flags r;
          b4 = b3 \<and> \<not> (proc_id = 0 \<and> grp \<noteq> mp_procgrp r);
          b5 = (if send_uid = 0 \<and> proc_id = -1 then True else b4);
          b6 = b5 \<and> \<not> (mp_pid r = INIT_PID \<and> proc_id = -1)
      in b6 \<and> \<not> (mp_pid r = INIT_PID \<and> sig_nr = SIGKILL))"

fun sig_loop :: "int \<Rightarrow> int \<Rightarrow> u16 \<Rightarrow> int list \<Rightarrow> int \<Rightarrow> mm \<Rightarrow> (int \<times> mm) outcome" where
  "sig_loop proc_id sig_nr send_uid [] count s = Done (count, s)"
| "sig_loop proc_id sig_nr send_uid (p # ps) count s =
     (let r = mproc_tab s p in
      if IN_USE \<notin> mp_flags r then sig_loop proc_id sig_nr send_uid ps count s
      else
        let go = send_sig proc_id sig_nr send_uid (mp_procgrp (mproc_tab s (mp s))) r in
        if sig_nr = SIGALRM \<and> ALARM_ON \<notin> mp_flags r then sig_loop proc_id sig_nr send_uid ps count s
        else
          let s1 = (if sig_nr = SIGALRM \<and> go then upd_mproc p (clear_flag ALARM_ON) s else s) in
          if \<not> go then sig_loop proc_id sig_nr send_uid ps count s1
          else if bit (mp_ignore (mproc_tab s1 p)) (nat (sig_nr - 1)) then sig_loop proc_id sig_nr send_uid ps (count + 1) s1
          else and_then (sig_proc p sig_nr s1)
                 (\<lambda>s2. let s3 = unpause p s2
                       in if 0 < proc_id then Done (count + 1, s3)
                          else sig_loop proc_id sig_nr send_uid ps (count + 1) s3))"

definition check_sig :: "int \<Rightarrow> int \<Rightarrow> u16 \<Rightarrow> mm \<Rightarrow> (int \<times> mm) outcome" where
  "check_sig proc_id sig_nr send_uid s =
     (if sig_nr < 1 \<or> NSIG < sig_nr then Done (EINVAL, s)
      else and_then (sig_loop proc_id sig_nr send_uid (slots_from INIT_PROC_NR) 0 s)
        (\<lambda>(count, s1).
           let s2 = (if IN_USE \<notin> flags_of s1 (mp s1) \<or> HANGING \<in> flags_of s1 (mp s1) then s1\<lparr>dont_reply := True\<rparr> else s1)
           in Done (if 0 < count then OK else ESRCH, s2)))"

definition do_kill_mm :: "mm \<Rightarrow> (int \<times> mm) outcome" where
  "do_kill_mm s = check_sig (m_i1 (request_in s)) (m_i2 (request_in s)) (mp_effuid (mproc_tab s (mp s))) s"

text \<open>One signal of the map: a memory fault cannot be caught or ignored on the Lisa.\<close>

definition ksig_one :: "int \<Rightarrow> int \<Rightarrow> int \<Rightarrow> mm \<Rightarrow> mm outcome" where
  "ksig_one proc_nr proc_id j s =
     (let i = (if j = 2 \<or> j = 3 then 0 else proc_id); i' = (if j = SIGKILL then -1 else i);
          s1 = (if j = 11 \<or> j = 10
                then upd_mproc proc_nr (\<lambda>r. r\<lparr>mp_catch := unset_bit (nat (j - 1)) (mp_catch r),
                                             mp_ignore := unset_bit (nat (j - 1)) (mp_ignore r)\<rparr>) s
                else s)
      in and_then (check_sig i' j 0 s1)
           (\<lambda>(_, s2). and_then (Kernel_System.do_sig (sig_stuff s2) proc_nr (-1) 0 (krn s2))
             (\<lambda>(_, k). Done (s2\<lparr>krn := k\<rparr>))))"

definition do_ksig :: "mm \<Rightarrow> (int \<times> mm) outcome" where
  "do_ksig s =
     (if who s \<noteq> HARDWARE then Done (EPERM, s)
      else
        let s1 = s\<lparr>dont_reply := True\<rparr>; proc_nr = m_i1 (request_in s) in
        if IN_USE \<notin> flags_of s1 proc_nr \<or> HANGING \<in> flags_of s1 proc_nr then Done (OK, s1)
        else
          let proc_id = mp_pid (mproc_tab s1 proc_nr); sig_map = (word_of_int (m_i2 (request_in s)) :: u16);
              grp = mp_procgrp (mproc_tab s1 proc_nr);
              s2 = upd_mproc 0 (\<lambda>r. r\<lparr>mp_procgrp := grp\<rparr>) (s1\<lparr>mp := 0\<rparr>)
          in and_then (if sig_map = 0x8000 then stack_fault proc_nr s2 else Done s2)
            (\<lambda>s3. and_then (seq_all (\<lambda>j s. if bit sig_map (nat (j - 1)) then ksig_one proc_nr proc_id j s else Done s)
                             sig_numbers s3)
              (\<lambda>s4. Done (OK, s4))))"

definition do_trace_mm :: "mm \<Rightarrow> (int \<times> mm) outcome" where
  "do_trace_mm s =
     (let req = m_i2 (request_in s); pid = m_i1 (request_in s); data = m_l2 (request_in s); taddr = m_l1 (request_in s) in
      if req = 0 then Done (OK, (upd_mproc (mp s) (set_flag TRACED) s)\<lparr>out_l2 := 0\<rparr>)
      else (case findproc s pid of
              None \<Rightarrow> Done (ESRCH, s)
            | Some child \<Rightarrow>
                if STOPPED \<notin> flags_of s child then Done (ESRCH, s)
                else if req = 8 then and_then (mm_exit child data s) (\<lambda>s1. Done (OK, s1\<lparr>out_l2 := 0\<rparr>))
                else if req = 7 \<and> NSIG < data then Done (EIO, s)
                else and_then
                  (if req = 7
                   then and_then (if 0 < data
                          then and_then (sig_proc child (sint (word_of_int data :: u16)) (upd_mproc child (clear_flag TRACED) s))
                                 (\<lambda>s1. Done (upd_mproc child (set_flag TRACED) s1))
                          else Done s)
                        (\<lambda>s1. Done (upd_mproc child (clear_flag STOPPED) s1))
                   else Done s)
                  (\<lambda>s2. and_then (Kernel_System.do_trace (slot_long s2) (slot_size s2) child req taddr data (krn s2))
                    (\<lambda>(r, d, k). let s3 = s2\<lparr>krn := k\<rparr>
                                 in Done (if r \<noteq> OK then (r, s3) else (OK, s3\<lparr>out_l2 := d\<rparr>))))))"

subsection \<open>Identity (\<open>getset.c\<close>)\<close>

definition do_getset :: "mm \<Rightarrow> int \<times> mm" where
  "do_getset s =
     (let rmp = mproc_tab s (mp s); i1 = m_i1 (request_in s); c = mm_call s in
      if c = 24 then (uint (mp_realuid rmp), s\<lparr>result2 := uint (mp_effuid rmp)\<rparr>)
      else if c = 47 then (uint (mp_realgid rmp), s\<lparr>result2 := uint (mp_effgid rmp)\<rparr>)
      else if c = 20 then (mp_pid (mproc_tab s (who s)), s\<lparr>result2 := mp_pid (mproc_tab s (mp_parent rmp))\<rparr>)
      else if c = 23
      then let usr_id = (word_of_int i1 :: u16) in
           if mp_realuid rmp \<noteq> usr_id \<and> mp_effuid rmp \<noteq> 0 then (EPERM, s)
           else (OK, tell_fs 23 (who s) (uint usr_id) (uint usr_id)
                       (upd_mproc (mp s) (\<lambda>r. r\<lparr>mp_realuid := usr_id, mp_effuid := usr_id\<rparr>) s))
      else let grpid = (word_of_int i1 :: u8) in
           if mp_realgid rmp \<noteq> grpid \<and> mp_effuid rmp \<noteq> 0 then (EPERM, s)
           else (OK, tell_fs 46 (who s) (uint grpid) (uint grpid)
                       (upd_mproc (mp s) (\<lambda>r. r\<lparr>mp_realgid := grpid, mp_effgid := grpid\<rparr>) s)))"

text \<open>\<open>sys_newmap\<close> is what \<open>do_newmap\<close> does when MM's memory holds the process's map at the address \<open>a\<close> it passes.\<close>

lemma do_newmap_reads_map:
  assumes "isokprocn p" and "umap (proc_tab (krn s) MM_PROC_NR) Seg_D a 18 \<noteq> 0"
    and "umap (proc_tab (krn s) (proc_ptr (krn s))) Seg_D vsys 18 \<noteq> 0"
    and "read_map (ram (krn s)) (umap (proc_tab (krn s) MM_PROC_NR) Seg_D a 18) = mp_seg (mproc_tab s p)"
  shows "do_newmap vsys MM_PROC_NR p a (krn s) = Done (OK, krn (sys_newmap p s))"
  using assms by (simp add: do_newmap_def sys_newmap_def)

end
