(* ===== verification/MM_Main.thy ===== *)
theory MM_Main
  imports MM_Proc
begin

section \<open>MM: exec and the main loop (src/src/mm/exec.c, main.c, table.c, utility.c)\<close>

text \<open>
  The exec call with the header check, the allocation of the new image and the patching of the
  initial stack; the boot-time calls; the call table and one turn of the main loop.

  \<^item> What FS says about the file to execute (the result of opening it, its mode and owner, its header)
    is the parameter \<open>exec_file\<close>; the results of the reads that load the segments are taken from
    \<open>fs_ans\<close>.
  \<^item> \<open>name_buf\<close> and \<open>mbuf\<close> are the addresses of the buffers of \<open>do_exec\<close> in MM's data segment.
\<close>

abbreviation (input) ENOEXEC :: int where "ENOEXEC \<equiv> -8"
abbreviation (input) ARGMAX :: int where "ARGMAX \<equiv> 4096"
abbreviation (input) PATH_MAX :: int where "PATH_MAX \<equiv> 255"
abbreviation (input) I_TYPE :: u16 where "I_TYPE \<equiv> 0xF000"
abbreviation (input) I_REGULAR :: u16 where "I_REGULAR \<equiv> 0x8000"
abbreviation (input) I_SET_UID_BIT :: u16 where "I_SET_UID_BIT \<equiv> 0x800"
abbreviation (input) I_SET_GID_BIT :: u16 where "I_SET_GID_BIT \<equiv> 0x400"

record exec_file =
  ef_open :: int
  ef_mode :: u16
  ef_uid :: u16
  ef_gid :: u8
  ef_header :: "u32 list"

subsection \<open>Utilities\<close>

definition allowed :: "exec_file \<Rightarrow> u16 \<Rightarrow> mproc \<Rightarrow> int" where
  "allowed f acc r =
     (let mode = ef_mode f; fd = ef_open f in
      if fd < 0 then fd
      else if acc = 1 \<and> mode AND I_TYPE \<noteq> I_REGULAR then EACCES
      else if mp_effuid r = 0 \<and> acc = 1 \<and> mode AND 0x49 \<noteq> 0 then fd
      else
        let shift = (if mp_effuid r = ef_uid f then 6 else if mp_effgid r = ef_gid f then 3 else 0) in
        if mp_effuid r = 0 \<and> acc \<noteq> 1 then fd
        else if drop_bit shift mode AND acc \<noteq> 0 then fd else EACCES)"

definition mem_copy :: "int \<Rightarrow> segment \<Rightarrow> u32 \<Rightarrow> int \<Rightarrow> segment \<Rightarrow> u32 \<Rightarrow> u32 \<Rightarrow> mm \<Rightarrow> int \<times> mm" where
  "mem_copy src_proc src_seg src_vir dst_proc dst_seg dst_vir bytes s =
     (if bytes = 0 then (OK, s)
      else let (r, k) = Kernel_System.do_copy src_proc src_seg src_vir dst_proc dst_seg dst_vir bytes (krn s)
           in (r, s\<lparr>krn := k\<rparr>))"

definition no_sys :: "mm \<Rightarrow> int \<times> mm" where
  "no_sys s = (EINVAL, s)"

subsection \<open>Exec\<close>

definition to_clicks :: "u32 \<Rightarrow> u16" where
  "to_clicks b = ucast (drop_bit 8 (b + 255))"

record exec_sizes =
  x_ft :: bool
  x_text :: u32
  x_data :: u32
  x_bss :: u32
  x_tot :: u32
  x_sym :: u32

text \<open>The header is eight longs; a short read or a bad magic number is \<open>ENOEXEC\<close>.\<close>

definition header_sizes :: "u32 list \<Rightarrow> exec_sizes" where
  "header_sizes buf =
     (let sep = buf ! 0 AND 0x00200000 \<noteq> 0; text = buf ! 2; data = buf ! 3; tot = buf ! 6;
          text' = (if sep then text else text AND NOT 0xFF)
      in \<lparr>x_ft = sep, x_text = text', x_data = (if sep then data else data + text - text'), x_bss = buf ! 4,
          x_tot = (if sep then tot else tot - text'), x_sym = buf ! 7\<rparr>)"

definition read_header :: "u32 list \<Rightarrow> u16 \<Rightarrow> int \<times> exec_sizes" where
  "read_header buf sc =
     (let x = header_sizes buf;
          tc = to_clicks (x_text x); dc = to_clicks (x_data x + x_bss x); totc = to_clicks (x_tot x);
          dvir = (if x_ft x then 0 else tc); s_vir = dvir + (totc - sc)
      in if length buf \<noteq> 8 then (ENOEXEC, x)
         else if buf ! 0 AND 0xFF0FFFFF \<noteq> 0x04000301 then (ENOEXEC, x)
         else if buf ! 6 = 0 then (ENOEXEC, x)
         else if totc \<le> dc then (ENOEXEC, x)
         else (size_ok dc dvir s_vir, x))"

text \<open>\<open>sys_fresh\<close>: the handler \<open>do_fresh\<close> with the new map written directly, as for \<open>sys_newmap\<close>.\<close>

definition sys_fresh :: "int \<Rightarrow> u16 \<Rightarrow> mm \<Rightarrow> ((u16 \<times> u16) \<times> mm) outcome" where
  "sys_fresh p skip s =
     and_then (rmshadow p (krn s))
       (\<lambda>(area, k). let s1 = sys_newmap p (s\<lparr>krn := k\<rparr>); r = proc_tab (krn s1) p
                    in Done (area, s1\<lparr>krn := zeroclicks (mem_phys (p_map r Seg_D) + skip) (data_clicks r - skip) (krn s1)\<rparr>))"

definition new_seg :: "u16 \<Rightarrow> u16 \<Rightarrow> u16 \<Rightarrow> u16 \<Rightarrow> u16 \<Rightarrow> segment \<Rightarrow> mem_map" where
  "new_seg base tc dc gap sc g =
     (case g of
        Seg_T \<Rightarrow> \<lparr>mem_vir = 0, mem_phys = base, mem_len = tc\<rparr>
      | Seg_D \<Rightarrow> \<lparr>mem_vir = tc, mem_phys = base + tc, mem_len = dc\<rparr>
      | Seg_S \<Rightarrow> \<lparr>mem_vir = tc + dc + gap, mem_phys = base + tc + dc + gap, mem_len = sc\<rparr>)"

definition new_mem :: "u32 \<Rightarrow> u32 \<Rightarrow> u32 \<Rightarrow> u32 \<Rightarrow> u32 \<Rightarrow> mm \<Rightarrow> (int \<times> mm) outcome" where
  "new_mem text_bytes data_bytes bss_bytes stk_bytes tot_bytes s =
     (let tc = to_clicks text_bytes; dc = to_clicks (data_bytes + bss_bytes); sc = to_clicks stk_bytes;
          tot = to_clicks tot_bytes; gap = tot - dc - sc
      in if sint gap < 0 then Done (ENOMEM, s)
         else and_then (max_hole (holes s))
           (\<lambda>mx. if mx < tc + tot then Done (EAGAIN, s)
                 else and_then (alloc_mem (tc + tot) (holes s))
                   (\<lambda>(new_base, h).
                      if new_base = NO_MEM then Panic ''MM hole list is inconsistent''
                      else let s1 = upd_mproc (mp s) (\<lambda>r. r\<lparr>mp_seg := new_seg new_base tc dc gap sc\<rparr>) (s\<lparr>holes := h\<rparr>)
                           in and_then (sys_fresh (who s) (ucast (drop_bit 8 data_bytes)) s1)
                             (\<lambda>((base, size), s2). and_then (free_mem base size (holes s2))
                               (\<lambda>h2. Done (OK, s2\<lparr>holes := h2\<rparr>))))))"

text \<open>Relocation of the pointers on the initial stack: \<open>argv\<close> and \<open>envp\<close>, each ended by a null pointer.\<close>

fun patch :: "nat \<Rightarrow> u32 \<Rightarrow> u32 list \<Rightarrow> u32 list" where
  "patch flag base [] = []"
| "patch flag base (p # ps) =
     (if 2 \<le> flag then p # ps
      else if p \<noteq> 0 then (p + base) # patch flag base ps
      else p # patch (flag + 1) base ps)"

definition patch_ptr :: "u32 list \<Rightarrow> u32 \<Rightarrow> u32 list" where
  "patch_ptr stack base = (case stack of [] \<Rightarrow> [] | nargs # ps \<Rightarrow> nargs # patch 0 base ps)"

definition get_longs :: "nat \<Rightarrow> u32 \<Rightarrow> (u32 \<Rightarrow> u8) \<Rightarrow> u32 list" where
  "get_longs n a m = map (\<lambda>i. get32 m (a + of_nat (4 * i))) [0..<n]"

definition put_longs :: "u32 \<Rightarrow> u32 list \<Rightarrow> (u32 \<Rightarrow> u8) \<Rightarrow> (u32 \<Rightarrow> u8)" where
  "put_longs a vs m = fold (\<lambda>i m. put32 (a + of_nat (4 * i)) (vs ! i) m) [0..<length vs] m"

definition patch_stack :: "u32 \<Rightarrow> u32 \<Rightarrow> mm \<Rightarrow> mm" where
  "patch_stack mbuf base s =
     (let k = krn s; a = umap (proc_tab k MM_PROC_NR) Seg_D mbuf 4096
      in s\<lparr>krn := k\<lparr>ram := put_longs a (patch_ptr (get_longs 1024 a (ram k)) base) (ram k)\<rparr>\<rparr>)"

text \<open>
  \<open>load_seg\<close> has FS read straight into the new image, 31 K at a time, until a read falls short. The sizes are
  signed longs and \<open>bytes\<close> is a 16-bit \<open>int\<close>. Every turn takes one answer of FS; when there is none left
  the loop is still waiting.
\<close>

fun load_loop :: "int list \<Rightarrow> int \<Rightarrow> u32 \<Rightarrow> u32 \<Rightarrow> mm \<Rightarrow> mm outcome" where
  "load_loop ans new_fd ubuf_ptr seg_bytes s =
     (if seg_bytes = 0 then Done (s\<lparr>fs_ans := ans\<rparr>)
      else
        let bytes = (if sint seg_bytes < 31744 then sint (ucast seg_bytes :: u16) else 31744);
            s1 = s\<lparr>sent := sent s @ [Read_fs new_fd ubuf_ptr bytes]\<rparr>
        in case ans of
             [] \<Rightarrow> Stuck
           | n # rest \<Rightarrow>
               if n \<noteq> bytes then Done (s1\<lparr>fs_ans := rest\<rparr>)
               else load_loop rest new_fd (ubuf_ptr + word_of_int bytes) (seg_bytes - word_of_int bytes) s1)"

declare load_loop.simps [simp del]

definition load_seg :: "int \<Rightarrow> u32 \<Rightarrow> u32 \<Rightarrow> mm \<Rightarrow> mm outcome" where
  "load_seg new_fd ubuf_ptr seg_bytes s = load_loop (fs_ans s) new_fd ubuf_ptr seg_bytes s"

definition seg_fd :: "int \<Rightarrow> int \<Rightarrow> int \<Rightarrow> int" where
  "seg_fd w seg fd = sint (push_bit 8 (word_of_int w) OR push_bit 6 (word_of_int seg) OR word_of_int fd :: u16)"

definition set_ids :: "exec_file \<Rightarrow> mm \<Rightarrow> mm" where
  "set_ids f s =
     (if TRACED \<in> flags_of s (mp s) then s
      else
        let s1 = (if ef_mode f AND I_SET_UID_BIT \<noteq> 0
                  then let t = upd_mproc (mp s) (\<lambda>r. r\<lparr>mp_effuid := ef_uid f\<rparr>) s; r = mproc_tab t (mp s)
                       in tell_fs 23 (who t) (uint (mp_realuid r)) (uint (mp_effuid r)) t
                  else s)
        in if ef_mode f AND I_SET_GID_BIT \<noteq> 0
           then let t = upd_mproc (mp s1) (\<lambda>r. r\<lparr>mp_effgid := ef_gid f\<rparr>) s1; r = mproc_tab t (mp s1)
                in tell_fs 46 (who t) (uint (mp_realgid r)) (uint (mp_effgid r)) t
           else s1)"

text \<open>The part of \<open>do_exec\<close> after the new memory has been obtained.\<close>

definition finish_exec :: "u32 \<Rightarrow> exec_file \<Rightarrow> int \<Rightarrow> exec_sizes \<Rightarrow> u32 \<Rightarrow> mm \<Rightarrow> (int \<times> mm) outcome" where
  "finish_exec mbuf f fd x stk_bytes s =
     (let ss = mp_seg (mproc_tab s (mp s)) Seg_S;
          vsp = clicks_bytes (mem_vir ss) + clicks_bytes (mem_len ss) - stk_bytes;
          (r, s1) = mem_copy MM_PROC_NR Seg_D mbuf (who s) Seg_D vsp stk_bytes (patch_stack mbuf vsp s)
      in if r \<noteq> OK then Panic ''do_exec stack copy err''
         else
           let seg = mp_seg (mproc_tab s1 (mp s1))
           in and_then (load_seg (seg_fd (who s1) 0 fd) (clicks_bytes (mem_vir (seg Seg_T))) (x_text x) s1)
             (\<lambda>s2. and_then (load_seg (seg_fd (who s2) 1 fd) (clicks_bytes (mem_vir (seg Seg_D))) (x_data x) s2)
               (\<lambda>s3. let s4 = set_ids f s3;
                         s5 = upd_mproc (mp s4) (\<lambda>r. r\<lparr>mp_catch := 0,
                                mp_flags := (if x_ft x then insert SEPARATE (mp_flags r) else mp_flags r - {SEPARATE})\<rparr>) s4
                     in and_then (Kernel_System.do_exec (who s5) (if TRACED \<in> flags_of s5 (mp s5) then 64 else 0) vsp (krn s5))
                          (\<lambda>(_, k). Done (OK, s5\<lparr>krn := k\<rparr>)))))"

definition do_exec_mm :: "u32 \<Rightarrow> u32 \<Rightarrow> exec_file \<Rightarrow> mm \<Rightarrow> (int \<times> mm) outcome" where
  "do_exec_mm name_buf mbuf f s =
     (let stk_bytes = (word_of_int (m_i2 (request_in s)) :: u32); exec_len = m_i1 (request_in s) in
      if ARGMAX < sint stk_bytes then Done (ENOMEM, s)
      else if exec_len \<le> 0 \<or> PATH_MAX < exec_len then Done (EINVAL, s)
      else
        let (r, s1) = mem_copy (who s) Seg_D (m_p1 (request_in s)) MM_PROC_NR Seg_D name_buf (word_of_int exec_len) s in
        if r \<noteq> OK then Done (r, s1)
        else
          let s2 = tell_fs 12 0 1 0 (tell_fs 12 (who s1) 0 0 s1); fd = allowed f 1 (mproc_tab s2 (mp s2)) in
          if fd < 0 then Done (fd, s2)
          else
            let (m, x) = read_header (ef_header f) (to_clicks stk_bytes) in
            if m < 0 then Done (ENOEXEC, s2)
            else
              let (r2, s3) = mem_copy (who s2) Seg_D (m_p2 (request_in s2)) MM_PROC_NR Seg_D mbuf stk_bytes s2 in
              if r2 \<noteq> OK then Done (EACCES, s3)
              else and_then (new_mem (x_text x) (x_data x) (x_bss x) stk_bytes (x_tot x) s3)
                (\<lambda>(r3, s4). if r3 \<noteq> OK then Done (r3, s4) else finish_exec mbuf f fd x stk_bytes s4))"

subsection \<open>The main loop (\<open>main.c\<close>, \<open>table.c\<close>)\<close>

text \<open>
  \<open>get_mem\<close> asks the kernel for the next chunk; \<open>mem_end\<close> is the end of user memory the kernel found and
  \<open>beenhere\<close> the static variable of \<open>do_mem\<close>. \<open>mem_init\<close> calls it until the size is 0.
\<close>

definition get_mem :: "u32 \<Rightarrow> int \<Rightarrow> (u16 \<times> u16) \<times> int" where
  "get_mem mem_end beenhere =
     (let ((_, count, position), b) = do_mem mem_end beenhere in ((ucast position, count), b))"

definition mm_init :: "u32 \<Rightarrow> mm \<Rightarrow> mm outcome" where
  "mm_init mem_end s =
     (let (c1, b) = get_mem mem_end 0; (c2, _) = get_mem mem_end b in
      and_then (mem_init [c1, c2] (holes s))
        (\<lambda>h. let s1 = upd_mproc MM_PROC_NR (set_flag IN_USE) (s\<lparr>holes := h\<rparr>);
                 s2 = upd_mproc FS_PROC_NR (set_flag IN_USE) s1;
                 s3 = upd_mproc INIT_PROC_NR (\<lambda>r. r\<lparr>mp_flags := insert IN_USE (mp_flags r), mp_pid := INIT_PID\<rparr>) s2
             in Done (s3\<lparr>procs_in_use := 3\<rparr>)))"

definition click_to_round_k :: "u16 \<Rightarrow> int" where
  "click_to_round_k n = (uint n * 256 + 512) div 1024"

definition init_seg :: "u16 \<Rightarrow> u16 \<Rightarrow> u16 \<Rightarrow> (segment \<Rightarrow> mem_map) \<Rightarrow> segment \<Rightarrow> mem_map" where
  "init_seg org tc dc seg g =
     (case g of
        Seg_T \<Rightarrow> \<lparr>mem_vir = org, mem_phys = org, mem_len = tc\<rparr>
      | Seg_D \<Rightarrow> \<lparr>mem_vir = org + tc, mem_phys = org + tc, mem_len = dc\<rparr>
      | Seg_S \<Rightarrow> (seg Seg_S)\<lparr>mem_vir := org + (tc + dc), mem_phys := org + (tc + dc)\<rparr>)"

definition do_brk2 :: "mm \<Rightarrow> (int \<times> mm) outcome" where
  "do_brk2 s =
     (if who s \<noteq> FS_PROC_NR then Done (EPERM, s)
      else
        let m = request_in s; tc = (word_of_int (m_i1 m) :: u16); dc = (word_of_int (m_i2 m) :: u16);
            org = (ucast (m_p1 m) :: u16); minix = org + (tc + dc)
        in and_then (alloc_mem minix (holes s))
          (\<lambda>(base, h). if base \<noteq> 0 then Panic ''inconsistent system memory base''
             else
               let ram_clicks = word_of_int (m_i3 m) - minix
               in and_then (alloc_mem ram_clicks h)
                 (\<lambda>(ram_base, h1). if ram_base = NO_MEM then Panic ''not enough memory for RAM disk''
                    else and_then (mem_left h1)
                      (\<lambda>left.
                         let mem1 = click_to_round_k (minix + ram_clicks + left);
                             mem2 = click_to_round_k minix; mem3 = click_to_round_k ram_clicks;
                             s1 = s\<lparr>holes := h1, out_l1 := uint ram_base * 256\<rparr>
                         in and_then (if mem1 - mem2 - mem3 < 32
                                      then and_then (do_abort (krn s1)) (\<lambda>(_, k). Done (s1\<lparr>krn := k\<rparr>)) else Done s1)
                           (\<lambda>s2. Done (OK, upd_mproc INIT_PROC_NR
                              (\<lambda>r. r\<lparr>mp_seg := init_seg org tc dc (mp_seg r),
                                     mp_flags := (if tc \<noteq> 0 then insert SEPARATE (mp_flags r) else mp_flags r)\<rparr>) s2))))))"

text \<open>
  The call table, in the order of \<open>table.c\<close>. The array has \<open>NCALLS\<close> = 70 elements, but on the 68000 only 69
  are given: the last one is a null pointer.
\<close>

definition pure_call :: "(mm \<Rightarrow> int \<times> mm) \<Rightarrow> mm \<Rightarrow> (int \<times> mm) outcome" where
  "pure_call f s = Done (f s)"

definition call_vec :: "(mm \<Rightarrow> (int \<times> mm) outcome) \<Rightarrow> (mm \<Rightarrow> (int \<times> mm) outcome) list" where
  "call_vec exec_call =
     (let unused = pure_call no_sys; getset = pure_call do_getset in
      [unused, do_mm_exit, do_fork_mm, unused, unused, unused, unused, do_wait, unused, unused,
       unused, unused, unused, unused, unused, unused, unused, pure_call do_brk, unused, unused,
       getset, unused, unused, getset, getset, unused, do_trace_mm, do_alarm, unused, pure_call do_pause,
       unused, unused, unused, unused, unused, unused, unused, do_kill_mm, unused, unused,
       unused, unused, unused, unused, unused, unused, getset, getset, pure_call do_signal, unused,
       unused, unused, unused, unused, unused, unused, unused, unused, unused, exec_call,
       unused, unused, unused, unused, do_ksig, unused, do_brk2, unused, unused])"

definition run_call :: "(mm \<Rightarrow> (int \<times> mm) outcome) \<Rightarrow> mm \<Rightarrow> (int \<times> mm) outcome" where
  "run_call exec_call s =
     (if mm_call s < 0 \<or> NCALLS \<le> mm_call s then Done (EBADCALL, s)
      else if nat (mm_call s) < length (call_vec exec_call) then (call_vec exec_call ! nat (mm_call s)) s
      else Stuck)"

definition get_work :: "mm_in \<Rightarrow> mm \<Rightarrow> mm" where
  "get_work m s = s\<lparr>request_in := m, who := m_source m, mm_call := m_type m\<rparr>"

text \<open>One turn of the main loop; \<open>exec_call\<close> is \<open>do_exec_mm\<close> with what FS says about the file.\<close>

definition mm_turn :: "(mm \<Rightarrow> (int \<times> mm) outcome) \<Rightarrow> mm_in \<Rightarrow> mm \<Rightarrow> mm outcome" where
  "mm_turn exec_call m s =
     and_then (run_call exec_call ((get_work m s)\<lparr>mp := m_source m, dont_reply := False\<rparr>))
       (\<lambda>(error, s1).
          Done (if dont_reply s1 then s1
                else if mm_call s1 = 59 \<and> error = OK then s1
                else reply (who s1) error (result2 s1) (res_ptr s1) s1))"

end
