(* ===== verification/MM_Table.thy ===== *)
theory MM_Table
  imports MM_Main
begin

section \<open>MM: the process table through every call\<close>

text \<open>
  The invariant of the process table and its preservation by every call of MM, and fork.

  \<^item> \<open>tab_ok\<close> and \<open>mm_ok\<close>: \<open>procs_in_use\<close> counts the slots in use, zombies hold a slot, pids are unique,
    \<open>SIGKILL\<close> is neither caught nor ignored. One lemma \<open>mm_ok_...\<close> per routine; changes of a slot that keep
    its pid and its \<open>IN_USE\<close> bit are \<open>minor\<close> and are all discharged by \<open>mm_ok_minor\<close>.
  \<^item> \<open>next_cand\<close>, \<open>pid_values\<close>: the search for a pid, against the set of values in the table.
  \<^item> \<open>mm_step\<close>: runs of MM's main loop, interleaved with changes of the kernel, the clock and FS's answers.
\<close>

subsection \<open>The process table\<close>

definition kill_bit_free :: "mproc \<Rightarrow> bool" where
  "kill_bit_free r \<longleftrightarrow> \<not> bit (mp_catch r) 8 \<and> \<not> bit (mp_ignore r) 8"

definition in_use :: "(int \<Rightarrow> mproc) \<Rightarrow> int set" where
  "in_use t = {p \<in> set mm_slots. IN_USE \<in> mp_flags (t p)}"

definition tab_ok :: "(int \<Rightarrow> mproc) \<Rightarrow> int \<Rightarrow> int \<Rightarrow> bool" where
  "tab_ok t n np \<longleftrightarrow>
     n = int (card (in_use t)) \<and> INIT_PID \<le> np \<and> np \<le> 30000 \<and>
     (\<forall>p. HANGING \<in> mp_flags (t p) \<longrightarrow> p \<in> in_use t) \<and>
     (\<forall>p \<in> in_use t. \<forall>q \<in> in_use t. INIT_PROC_NR \<le> p \<and> INIT_PROC_NR \<le> q \<and> mp_pid (t p) = mp_pid (t q) \<longrightarrow> p = q) \<and>
     (\<forall>p. kill_bit_free (t p))"

definition mm_ok :: "mm \<Rightarrow> bool" where
  "mm_ok s \<longleftrightarrow> tab_ok (mproc_tab s) (procs_in_use s) (next_pid s)"

lemma mm_slots_iff [simp]: "p \<in> set mm_slots \<longleftrightarrow> 0 \<le> p \<and> p < 32"
  by (auto simp: mm_slots_def)

lemma distinct_mm_slots [simp]: "distinct mm_slots"
  by (simp add: mm_slots_def)

lemma finite_in_use [simp, intro]: "finite (in_use t)"
  by (rule finite_subset [of _ "set mm_slots"]) (auto simp: in_use_def)

text \<open>Changing a slot without touching its pid and its \<open>IN_USE\<close> bit.\<close>

definition minor :: "(mproc \<Rightarrow> mproc) \<Rightarrow> bool" where
  "minor f \<longleftrightarrow> (\<forall>r. mp_pid (f r) = mp_pid r \<and> (IN_USE \<in> mp_flags (f r) \<longleftrightarrow> IN_USE \<in> mp_flags r) \<and>
     (HANGING \<in> mp_flags (f r) \<longrightarrow> HANGING \<in> mp_flags r) \<and> (kill_bit_free r \<longrightarrow> kill_bit_free (f r)))"

lemma in_use_upd: "(IN_USE \<in> mp_flags r \<longleftrightarrow> IN_USE \<in> mp_flags (t p)) \<Longrightarrow> in_use (t(p := r)) = in_use t"
  by (auto simp: in_use_def)

lemma tab_ok_upd:
  assumes ok: "tab_ok t n np" and pid: "mp_pid r = mp_pid (t p)" and use: "IN_USE \<in> mp_flags r \<longleftrightarrow> IN_USE \<in> mp_flags (t p)"
    and hang: "HANGING \<in> mp_flags r \<Longrightarrow> p \<in> in_use t" and bits: "kill_bit_free (t p) \<Longrightarrow> kill_bit_free r"
  shows "tab_ok (t(p := r)) n np"
proof -
  define t' where "t' = t(p := r)"
  have p: "mp_pid (t' q) = mp_pid (t q)" for q using pid by (simp add: t'_def)
  have h: "HANGING \<in> mp_flags (t' q) \<Longrightarrow> HANGING \<in> mp_flags (t q) \<or> q \<in> in_use t" for q
    using hang by (auto simp: t'_def split: if_splits)
  have b: "kill_bit_free (t q) \<Longrightarrow> kill_bit_free (t' q)" for q using bits by (auto simp: t'_def)
  have u: "in_use t' = in_use t" unfolding t'_def using use by (rule in_use_upd)
  show ?thesis using ok unfolding tab_ok_def t'_def [symmetric] u p using h b by blast
qed

lemma mm_ok_minor [simp, intro]: "minor f \<Longrightarrow> mm_ok s \<Longrightarrow> mm_ok (upd_mproc p f s)"
  unfolding mm_ok_def minor_def upd_mproc_simps by (rule tab_ok_upd) (auto simp: tab_ok_def)

lemma mm_ok_hang: "mm_ok s \<Longrightarrow> p \<in> in_use (mproc_tab s) \<Longrightarrow> mm_ok (upd_mproc p (set_flag HANGING) s)"
  unfolding mm_ok_def upd_mproc_simps by (rule tab_ok_upd) (auto simp: kill_bit_free_def)

lemma minor_seg [simp, intro]: "minor (\<lambda>r. r\<lparr>mp_seg := g r\<rparr>)"
  by (simp add: minor_def kill_bit_free_def)

lemma minor_id [simp, intro]: "minor (\<lambda>r. r)"
  by (simp add: minor_def)

lemma minor_fields [simp, intro]:
  "minor (\<lambda>r. r\<lparr>mp_exitstatus := v r\<rparr>)" "minor (\<lambda>r. r\<lparr>mp_sigstatus := v r\<rparr>)" "minor (\<lambda>r. r\<lparr>mp_parent := i\<rparr>)"
  "minor (\<lambda>r. r\<lparr>mp_procgrp := j r\<rparr>)" "minor (\<lambda>r. r\<lparr>mp_realuid := u, mp_effuid := u'\<rparr>)"
  "minor (\<lambda>r. r\<lparr>mp_effuid := u'\<rparr>)" "minor (\<lambda>r. r\<lparr>mp_effgid := g'\<rparr>)"
  "minor (\<lambda>r. r\<lparr>mp_realgid := g, mp_effgid := g'\<rparr>)"
  by (simp_all add: minor_def kill_bit_free_def)

lemma minor_flags [simp, intro]:
  "fl \<noteq> IN_USE \<Longrightarrow> fl \<noteq> HANGING \<Longrightarrow> minor (set_flag fl)" "fl \<noteq> IN_USE \<Longrightarrow> minor (clear_flag fl)"
  by (auto simp: minor_def kill_bit_free_def)

lemma minor_bits [simp, intro]:
  "minor (\<lambda>r. r\<lparr>mp_catch := 0\<rparr>)" "minor (\<lambda>r. r\<lparr>mp_catch := unset_bit b (mp_catch r)\<rparr>)"
  "minor (\<lambda>r. r\<lparr>mp_catch := unset_bit b (mp_catch r), mp_ignore := unset_bit b (mp_ignore r)\<rparr>)"
  by (auto simp: minor_def kill_bit_free_def bit_simps)

lemma in_use_less: "in_use (t(p := r)) = (if IN_USE \<in> mp_flags r \<and> p \<in> set mm_slots then insert p (in_use t) else in_use t - {p})"
  by (auto simp: in_use_def)

text \<open>Sending messages and changing the rest of the state.\<close>

lemma mm_ok_frame [simp]:
  "mm_ok (reply p r r2 q s) = mm_ok s" "mm_ok (tell_fs w a b c s) = mm_ok s" "mm_ok (sys_newmap p s) = mm_ok s"
  "mm_ok (s\<lparr>krn := k\<rparr>) = mm_ok s" "mm_ok (s\<lparr>clk := c'\<rparr>) = mm_ok s" "mm_ok (s\<lparr>krn := k, clk := c'\<rparr>) = mm_ok s" "mm_ok (s\<lparr>holes := h\<rparr>) = mm_ok s"
  "mm_ok (s\<lparr>krn := k, holes := h\<rparr>) = mm_ok s" "mm_ok (s\<lparr>dont_reply := d\<rparr>) = mm_ok s" "mm_ok (s\<lparr>sent := m\<rparr>) = mm_ok s"
  "mm_ok (s\<lparr>fs_ans := ans\<rparr>) = mm_ok s" "mm_ok (s\<lparr>out_l1 := i\<rparr>) = mm_ok s" "mm_ok (s\<lparr>out_l2 := i\<rparr>) = mm_ok s"
  "mm_ok (s\<lparr>mp := i\<rparr>) = mm_ok s" "mm_ok (s\<lparr>result2 := i\<rparr>) = mm_ok s" "mm_ok (s\<lparr>res_ptr := a'\<rparr>) = mm_ok s"
  "mm_ok (s\<lparr>holes := h, out_l1 := i\<rparr>) = mm_ok s"
  by (simp_all add: mm_ok_def reply_def tell_fs_def sys_newmap_def)

lemma mm_ok_release:
  assumes "mm_ok s" "c \<in> in_use (mproc_tab s)"
  shows "mm_ok (release_slot c s)"
proof -
  let ?t = "mproc_tab (release_slot c s)" and ?u = "in_use (mproc_tab s)"
  have flags: "mp_flags (?t q) = (if q = c then mp_flags (mproc_tab s c) - {TRACED, HANGING, PAUSED, IN_USE} - (if mp_parent (mproc_tab s c) = c then {WAITING} else {})
      else if q = mp_parent (mproc_tab s c) then mp_flags (mproc_tab s q) - {WAITING} else mp_flags (mproc_tab s q))" for q
    by (auto simp: release_slot_def reply_def Let_def)
  have rest: "mp_pid (?t q) = mp_pid (mproc_tab s q)" "kill_bit_free (?t q) = kill_bit_free (mproc_tab s q)" for q
    by (auto simp: release_slot_def reply_def Let_def kill_bit_free_def)
  have use: "in_use ?t = ?u - {c}" by (auto simp: in_use_def flags)
  have np: "next_pid (release_slot c s) = next_pid s" "procs_in_use (release_slot c s) = procs_in_use s - 1"
    by (auto simp: release_slot_def reply_def Let_def)
  have size: "int (card (?u - {c})) = int (card ?u) - 1"
    using card_Suc_Diff1 [OF finite_in_use assms(2)] by linarith
  show ?thesis
    using assms unfolding mm_ok_def tab_ok_def np use rest size by (auto simp: flags split: if_splits)
qed

lemma mm_ok_hanging: "mm_ok s \<Longrightarrow> HANGING \<in> flags_of s p \<Longrightarrow> p \<in> in_use (mproc_tab s)"
  by (simp add: mm_ok_def tab_ok_def)

lemma in_use_minor [simp]: "minor f \<Longrightarrow> in_use ((mproc_tab s)(p := f (mproc_tab s p))) = in_use (mproc_tab s)"
  by (intro in_use_upd) (simp add: minor_def)

lemma mm_ok_disinherit:
  assumes "disinherit again c rps w s = Done s'" and "mm_ok s"
    and again: "\<And>rp s s'. rp \<in> in_use (mproc_tab s) \<Longrightarrow> mm_ok s \<Longrightarrow> again rp s = Done s' \<Longrightarrow> mm_ok s'"
  shows "mm_ok s'"
  using assms(1,2)
proof (induction rps arbitrary: w s)
  case (Cons rp rps)
  let ?s1 = "upd_mproc rp (\<lambda>r. r\<lparr>mp_parent := INIT_PROC_NR\<rparr>) s"
  have ok: "mm_ok ?s1" using Cons.prems(2) by (intro mm_ok_minor) auto
  have "HANGING \<in> flags_of ?s1 rp \<Longrightarrow> again rp ?s1 = Done s2 \<Longrightarrow> mm_ok s2" for s2
    using again [OF mm_ok_hanging [OF ok] ok] .
  then show ?case using Cons ok by (auto simp: Let_def outcome_simps split: if_splits)
qed simp

lemma mm_ok_cleanup: "cleanup n c s = Done s' \<Longrightarrow> mm_ok s \<Longrightarrow> c \<in> in_use (mproc_tab s) \<Longrightarrow> mm_ok s'"
proof (induction n arbitrary: c s s')
  case (Suc n)
  show ?case
  proof (rule mm_ok_disinherit)
    show "disinherit (cleanup n) c mm_slots (WAITING \<in> flags_of (release_slot c s) INIT_PROC_NR) (release_slot c s) = Done s'"
      using Suc.prems(1) by (simp add: Let_def)
    show "mm_ok (release_slot c s)" using Suc.prems(2,3) by (rule mm_ok_release)
  qed (rule Suc.IH)
qed simp

lemma mm_ok_set_alarm: "set_alarm p sec s = Done (r, s') \<Longrightarrow> mm_ok s \<Longrightarrow> mm_ok s'"
  by (auto simp: set_alarm_def Let_def outcome_simps split: prod.splits if_splits)

lemma mm_exit_steps:
  assumes "mm_exit p st s = Done s'"
  obtains s2 s3 k h where
      "(if WAITING \<in> flags_of (upd_mproc p (\<lambda>r. r\<lparr>mp_exitstatus := word_of_int st\<rparr>) s)
            (mp_parent (mproc_tab (upd_mproc p (\<lambda>r. r\<lparr>mp_exitstatus := word_of_int st\<rparr>) s) p))
        then cleanup 2 p (upd_mproc p (\<lambda>r. r\<lparr>mp_exitstatus := word_of_int st\<rparr>) s)
        else Done (upd_mproc p (set_flag HANGING) (upd_mproc p (\<lambda>r. r\<lparr>mp_exitstatus := word_of_int st\<rparr>) s))) = Done s2"
      "(if ALARM_ON \<in> flags_of s2 p then and_then (set_alarm p 0 s2) (\<lambda>x. Done (snd x)) else Done s2) = Done s3"
      "s' = tell_fs 1 p 0 0 (s3\<lparr>krn := k, holes := h\<rparr>)"
  using assms [unfolded mm_exit_def Let_def and_then_Done_iff case_prod_beta]
  by (elim exE conjE) (rule that, assumption, assumption, erule outcome.inject(1) [THEN iffD1, symmetric])

lemma mm_ok_mm_exit:
  assumes "mm_exit p st s = Done s'" and "mm_ok s" and "p \<in> in_use (mproc_tab s)"
  shows "mm_ok s'"
  using assms(1)
proof (rule mm_exit_steps)
  let ?s1 = "upd_mproc p (\<lambda>r. r\<lparr>mp_exitstatus := word_of_int st\<rparr>) s"
  fix s2 s3 k h
  assume *: "(if WAITING \<in> flags_of ?s1 (mp_parent (mproc_tab ?s1 p)) then cleanup 2 p ?s1 else Done (upd_mproc p (set_flag HANGING) ?s1)) = Done s2"
      "(if ALARM_ON \<in> flags_of s2 p then and_then (set_alarm p 0 s2) (\<lambda>x. Done (snd x)) else Done s2) = Done s3"
      "s' = tell_fs 1 p 0 0 (s3\<lparr>krn := k, holes := h\<rparr>)"
  have s1: "mm_ok ?s1" "p \<in> in_use (mproc_tab ?s1)" using assms(2,3) by (auto intro: mm_ok_minor)
  have "mm_ok s2" using *(1) s1 mm_ok_cleanup mm_ok_hang by (auto split: if_splits simp del: cleanup.simps)
  then have "mm_ok s3" using *(2) by (auto simp: outcome_simps split: if_splits dest: mm_ok_set_alarm)
  then show ?thesis using *(3) by simp
qed

lemma mm_ok_wait_scan:
  assumes "wait_scan rps n s = Done (r, s')" and "mm_ok s" and "set rps \<subseteq> set mm_slots"
  shows "mm_ok s'"
  using assms
proof (induction rps arbitrary: n s)
  case (Cons rp rps)
  have "cleanup 2 rp s = Done s1 \<Longrightarrow> IN_USE \<in> flags_of s rp \<Longrightarrow> mm_ok s1" for s1
    using mm_ok_cleanup [of 2 rp s s1] Cons.prems(2,3) by (simp add: in_use_def del: cleanup.simps)
  then show ?case using Cons
    by (auto simp: Let_def outcome_simps split: if_splits simp del: cleanup.simps)
qed (auto split: if_splits)

text \<open>Fork.\<close>

lemma pid_taken_iff: "pid_taken s n \<longleftrightarrow> (\<exists>p \<in> set mm_slots. mp_pid (mproc_tab s p) = n \<or> mp_procgrp (mproc_tab s p) = n)"
  by (auto simp: pid_taken_def list_ex_iff)

lemma pick_pid_tab:
  "pick_pid n c s = Done s' \<Longrightarrow>
     s' = upd_mproc c (\<lambda>r. r\<lparr>mp_pid := next_pid s'\<rparr>) (s\<lparr>next_pid := next_pid s'\<rparr>) \<and> 2 \<le> next_pid s' \<and> next_pid s' \<le> 30000 \<or> next_pid s < 1"
proof (induction n c s rule: pick_pid.induct)
  case (2 n c s)
  then show ?case by (auto simp: Let_def upd_mproc_def split: if_splits)
qed simp

lemma pick_pid_free: "pick_pid n c s = Done s' \<Longrightarrow> q \<in> set mm_slots \<Longrightarrow> q \<noteq> c \<Longrightarrow>
   mp_pid (mproc_tab s q) \<noteq> next_pid s' \<and> mp_procgrp (mproc_tab s q) \<noteq> next_pid s'"
proof (induction n c s rule: pick_pid.induct)
  case (2 n c s)
  then show ?case by (auto simp: Let_def pid_taken_iff split: if_splits)
qed simp

lemma tab_ok_new:
  assumes ok: "tab_ok t n np" and c: "c \<in> set mm_slots" "c \<notin> in_use t" and r: "IN_USE \<in> mp_flags r" "kill_bit_free r"
    and fresh: "\<And>q. q \<in> set mm_slots \<Longrightarrow> q \<noteq> c \<Longrightarrow> mp_pid (t q) \<noteq> mp_pid r" and np': "INIT_PID \<le> np'" "np' \<le> 30000"
  shows "tab_ok (t(c := r)) (n + 1) np'"
proof -
  have u: "in_use (t(c := r)) = insert c (in_use t)" using c r by (auto simp: in_use_def)
  have sl: "in_use t \<subseteq> set mm_slots" by (auto simp: in_use_def)
  have un: "p \<in> in_use t \<Longrightarrow> q \<in> in_use t \<Longrightarrow> 2 \<le> p \<Longrightarrow> 2 \<le> q \<Longrightarrow> mp_pid (t p) = mp_pid (t q) \<Longrightarrow> p = q" for p q
    using ok unfolding tab_ok_def by blast
  have fr: "q \<in> in_use t \<Longrightarrow> mp_pid (t q) \<noteq> mp_pid r \<and> mp_pid r \<noteq> mp_pid (t q)" for q using fresh [of q] c(2) by (cases "q = c") (auto simp: in_use_def)
  have "p = q" if "p \<in> insert c (in_use t)" "q \<in> insert c (in_use t)" "2 \<le> p" "2 \<le> q" "mp_pid ((t(c := r)) p) = mp_pid ((t(c := r)) q)" for p q
    using that un [of p q] fr [of p] fr [of q] c(2) by (cases "p = c"; cases "q = c") simp_all
  moreover have "n + 1 = int (card (insert c (in_use t)))" "\<forall>p. HANGING \<in> mp_flags ((t(c := r)) p) \<longrightarrow> p \<in> insert c (in_use t)"
    "\<forall>p. kill_bit_free ((t(c := r)) p)"
    using ok c(2) r(2) unfolding tab_ok_def by simp_all
  ultimately show ?thesis using np' unfolding tab_ok_def u by blast
qed

lemma find_slot: "find P mm_slots = Some c \<Longrightarrow> c \<in> set mm_slots \<and> P c"
  by (metis find_Some_iff nth_mem)

lemma pick_pid_eq:
  "pick_pid n c s = Done s' \<Longrightarrow> mm_ok s \<or> INIT_PID \<le> next_pid s \<Longrightarrow>
     s' = upd_mproc c (\<lambda>r. r\<lparr>mp_pid := next_pid s'\<rparr>) (s\<lparr>next_pid := next_pid s'\<rparr>) \<and> 2 \<le> next_pid s' \<and> next_pid s' \<le> 30000"
  using pick_pid_tab [of n c s s'] by (auto simp: mm_ok_def tab_ok_def)

lemma enter_child_eq:
  assumes "enter_child c base s = Done (r, s')" and "INIT_PID \<le> next_pid s"
  obtains g where "2 \<le> r" "r \<le> 30000" "next_pid s' = r" "procs_in_use s' = procs_in_use s + 1"
    "mproc_tab s' = (mproc_tab s)(c := (fork_child (mproc_tab s (mp s)) (who s) base)\<lparr>mp_pid := r, mp_procgrp := g\<rparr>)"
    "g = (if who s = INIT_PROC_NR then r else mp_procgrp (mproc_tab s (mp s)))" "holes s' = holes s"
    "\<And>q. q \<in> set mm_slots \<Longrightarrow> q \<noteq> c \<Longrightarrow> mp_pid (mproc_tab s q) \<noteq> r \<and> mp_procgrp (mproc_tab s q) \<noteq> r"
    "krn s' = snd (Kernel_System.do_fork (who s) c r base (krn s))"
proof -
  let ?s0 = "upd_mproc c (\<lambda>_. fork_child (mproc_tab s (mp s)) (who s) base) (s\<lparr>procs_in_use := procs_in_use s + 1\<rparr>)"
  obtain s1 where p: "pick_pid PID_TRIES c ?s0 = Done s1" and s1: "(let s2 = (if who s1 = INIT_PROC_NR then upd_mproc c (\<lambda>r. r\<lparr>mp_procgrp := mp_pid r\<rparr>) s1 else s1);
                 pid = mp_pid (mproc_tab s2 c);
                 s3 = s2\<lparr>krn := snd (Kernel_System.do_fork (who s2) c pid base (krn s2))\<rparr>
             in Done (next_pid s3, reply c 0 0 0 (tell_fs 2 (who s3) c pid s3))) = Done (r, s')"
    using assms(1) unfolding enter_child_def and_then_Done_iff by blast
  have e: "s1 = upd_mproc c (\<lambda>r. r\<lparr>mp_pid := next_pid s1\<rparr>) (?s0\<lparr>next_pid := next_pid s1\<rparr>)" "2 \<le> next_pid s1" "next_pid s1 \<le> 30000"
    using pick_pid_eq [OF p] assms(2) by auto
  have f: "q \<in> set mm_slots \<Longrightarrow> q \<noteq> c \<Longrightarrow> mp_pid (mproc_tab s q) \<noteq> next_pid s1 \<and> mp_procgrp (mproc_tab s q) \<noteq> next_pid s1" for q
    using pick_pid_free [OF p, of q] by auto
  have r: "r = next_pid s1" using s1 by (simp add: Let_def split: if_splits)
  have w: "who s1 = who s" "krn s1 = krn s" "holes s1 = holes s" "procs_in_use s1 = procs_in_use s + 1"
     "mproc_tab s1 = (mproc_tab s)(c := (fork_child (mproc_tab s (mp s)) (who s) base)\<lparr>mp_pid := r\<rparr>)"
    by (subst e(1), simp add: r)+
  show ?thesis
    by (rule that [OF _ _ _ _ _ refl])
      (use e(2,3) f s1 w r in \<open>auto simp: Let_def reply_def tell_fs_def fork_child_def split: if_splits\<close>)
qed

lemma mm_ok_fork:
  assumes "do_fork_mm s = Done (r, s')" and "mm_ok s" and "mp s \<in> in_use (mproc_tab s)"
  shows "mm_ok s'"
proof -
  consider "mm_ok s' = mm_ok s"
    | c base h where "find (\<lambda>p. IN_USE \<notin> flags_of s p) mm_slots = Some c" "enter_child c base (s\<lparr>holes := h\<rparr>) = Done (r, s')"
    using assms(1) by (auto simp: do_fork_mm_def Let_def outcome_simps split: if_splits option.splits prod.splits)
  then show ?thesis
  proof cases
    case 2
    have np: "INIT_PID \<le> next_pid (s\<lparr>holes := h\<rparr>)" using assms(2) by (simp add: mm_ok_def tab_ok_def)
    from 2(2) np show ?thesis
    proof (rule enter_child_eq)
      fix g
      assume a: "2 \<le> r" "r \<le> 30000" "next_pid s' = r" "procs_in_use s' = procs_in_use (s\<lparr>holes := h\<rparr>) + 1"
        "mproc_tab s' = (mproc_tab (s\<lparr>holes := h\<rparr>))(c := (fork_child (mproc_tab (s\<lparr>holes := h\<rparr>) (mp (s\<lparr>holes := h\<rparr>))) (who (s\<lparr>holes := h\<rparr>)) base)\<lparr>mp_pid := r, mp_procgrp := g\<rparr>)"
        and f: "\<And>q. q \<in> set mm_slots \<Longrightarrow> q \<noteq> c \<Longrightarrow> mp_pid (mproc_tab (s\<lparr>holes := h\<rparr>) q) \<noteq> r \<and> mp_procgrp (mproc_tab (s\<lparr>holes := h\<rparr>) q) \<noteq> r"
      have cs: "c \<in> set mm_slots" "c \<notin> in_use (mproc_tab s)" using find_slot [OF 2(1)] by (auto simp: in_use_def)
      have kb: "kill_bit_free (mproc_tab s (mp s))" using assms(2) by (simp add: mm_ok_def tab_ok_def)
      show ?thesis unfolding mm_ok_def a(3,4,5)
        by (rule subst [where P = "\<lambda>n. tab_ok _ n _", OF _ tab_ok_new])
           (use assms cs kb f a(1,2) in \<open>auto simp: mm_ok_def in_use_def fork_child_def kill_bit_free_def\<close>)
    qed
  qed (use assms(2) in simp)
qed

lemma slots_from_iff [simp]: "p \<in> set (slots_from a) \<longleftrightarrow> a \<le> p \<and> p < 32"
  by (auto simp: slots_from_def)

lemma tab_frame [simp]:
  "mproc_tab (reply p r r2 q s) = mproc_tab s" "mproc_tab (tell_fs w a b c s) = mproc_tab s" "mproc_tab (sys_newmap p s) = mproc_tab s"
  by (simp_all add: reply_def tell_fs_def sys_newmap_def)

lemma mm_ok_adjust: "adjust p d sp s = (r, s') \<Longrightarrow> mm_ok s \<Longrightarrow> mm_ok s' \<and> in_use (mproc_tab s') = in_use (mproc_tab s)"
  by (auto simp: adjust_def Let_def split: if_splits)

lemma ask_fs_frame [simp]:
  "mproc_tab (snd (ask_fs s)) = mproc_tab s" "mm_ok (snd (ask_fs s)) = mm_ok s"
  by (simp_all add: ask_fs_def mm_ok_def split: list.splits)

lemma mm_ok_dump_core: "mm_ok s \<Longrightarrow> mm_ok (dump_core p s) \<and> in_use (mproc_tab (dump_core p s)) = in_use (mproc_tab s)"
  by (simp add: dump_core_def Let_def case_prod_beta)

lemma mm_ok_kill_default:
  assumes "kill_default p n s = Done s'" and "mm_ok s" and "p \<in> in_use (mproc_tab s)"
  shows "mm_ok s'"
proof -
  let ?s1 = "upd_mproc p (\<lambda>r. r\<lparr>mp_sigstatus := word_of_int n\<rparr>) s"
  have s1: "mm_ok ?s1" "p \<in> in_use (mproc_tab ?s1)" using assms(2,3) by auto
  show ?thesis
    by (rule mm_ok_mm_exit [OF assms(1) [unfolded kill_default_def Let_def]])
       (use s1 mm_ok_dump_core [OF s1(1)] in auto)
qed

lemma mm_ok_stop_proc: "stop_proc p n s = Done s' \<Longrightarrow> mm_ok s \<Longrightarrow> mm_ok s'"
  by (auto simp: stop_proc_def Let_def outcome_simps split: if_splits)

lemma sig_proc_cases:
  assumes "sig_proc p n s = Done s'"
  defines "s1 \<equiv> upd_mproc p (\<lambda>r. r\<lparr>mp_catch := unset_bit (nat (n - 1)) (mp_catch r)\<rparr>) s"
  obtains (none) "s' = s" | (stopped) "stop_proc p n s = Done s'"
    | (killed) "IN_USE \<in> flags_of s p" "kill_default p n s = Done s'"
    | (caught) s2 sp k where "adjust p (mem_len (mp_seg (mproc_tab s1 p) Seg_D)) sp s1 = (OK, s2)" "s' = s2\<lparr>krn := k\<rparr>"
    | (no_stack) r s2 sp where "IN_USE \<in> flags_of s p" "adjust p (mem_len (mp_seg (mproc_tab s1 p) Seg_D)) sp s1 = (r, s2)" "kill_default p n s2 = Done s'"
proof -
  let ?sp = "snd (do_getsp p (krn s1)) - of_nat SIG_PUSH_BYTES"
  obtain r s2 where a: "adjust p (mem_len (mp_seg (mproc_tab s1 p) Seg_D)) ?sp s1 = (r, s2)" by fastforce
  show ?thesis
  proof (cases "IN_USE \<in> flags_of s p")
    case False
    then show ?thesis using assms(1) none by (simp add: sig_proc_def)
  next
    case use: True
    show ?thesis
    proof (cases "TRACED \<in> flags_of s p \<and> n \<noteq> SIGKILL")
      case True
      then show ?thesis using assms(1) use stopped by (simp add: sig_proc_def)
    next
      case False
      note eq = assms(1) [unfolded sig_proc_def if_not_P [OF False] Let_def s1_def [symmetric] a]
      show ?thesis
      proof (cases "bit (mp_catch (mproc_tab s p)) (nat (n - 1))")
        case True
        then show ?thesis using eq use no_stack [OF use a] caught [of ?sp s2] a by (auto simp: outcome_simps split: if_splits)
      next
        case False
        then show ?thesis using eq use killed by simp
      qed
    qed
  qed
qed

lemma mm_ok_sig_proc:
  assumes "sig_proc p n s = Done s'" and ok: "mm_ok s" and p: "p \<in> set mm_slots"
  shows "mm_ok s'"
proof -
  let ?s1 = "upd_mproc p (\<lambda>r. r\<lparr>mp_catch := unset_bit (nat (n - 1)) (mp_catch r)\<rparr>) s"
  have s1: "mm_ok ?s1" "in_use (mproc_tab ?s1) = in_use (mproc_tab s)" using ok by (auto simp: in_use_upd)
  from assms(1) show ?thesis
  proof (cases rule: sig_proc_cases)
    case stopped
    then show ?thesis using ok by (rule mm_ok_stop_proc)
  next
    case killed
    then show ?thesis using ok p mm_ok_kill_default [OF killed(2)] by (simp add: in_use_def)
  next
    case (caught s2 sp k)
    then show ?thesis using mm_ok_adjust [OF caught(1) s1(1)] by simp
  next
    case (no_stack r s2 sp)
    then show ?thesis using mm_ok_adjust [OF no_stack(2) s1(1)] s1(2) p mm_ok_kill_default [OF no_stack(3)] by (simp add: in_use_def)
  qed (use ok in simp)
qed

lemma mm_ok_stack_fault:
  assumes "stack_fault p s = Done s'" and "mm_ok s" and "p \<in> set mm_slots"
  shows "mm_ok s'"
proof -
  obtain r s1 where a: "adjust p (mem_len (mp_seg (mproc_tab s p) Seg_D)) (snd (do_getsp p (krn s)) - 256) s = (r, s1)"
    by fastforce
  have s1: "mm_ok s1" "mm_ok (upd_mproc p (\<lambda>r. r\<lparr>mp_catch := 0\<rparr>) s1)" using mm_ok_adjust [OF a assms(2)] by auto
  show ?thesis
  proof (cases "r = OK")
    case True
    then show ?thesis using assms(1) s1(1) unfolding stack_fault_def Let_def a by simp
  next
    case False
    then have "sig_proc p 11 (upd_mproc p (\<lambda>r. r\<lparr>mp_catch := 0\<rparr>) s1) = Done s'"
      using assms(1) unfolding stack_fault_def Let_def a by simp
    then show ?thesis using s1(2) assms(3) by (rule mm_ok_sig_proc)
  qed
qed

lemma mm_ok_unpause [simp]: "mm_ok s \<Longrightarrow> mm_ok (unpause p s)"
  by (simp add: unpause_def)

lemma mm_ok_sig_loop:
  "sig_loop i n u ps k s = Done (r, s') \<Longrightarrow> mm_ok s \<Longrightarrow> set ps \<subseteq> set mm_slots \<Longrightarrow> mm_ok s'"
proof (induction ps arbitrary: k s)
  case (Cons p ps)
  define s1 where "s1 = (if n = SIGALRM \<and> send_sig i n u (mp_procgrp (mproc_tab s (mp s))) (mproc_tab s p) then upd_mproc p (clear_flag ALARM_ON) s else s)"
  have s1: "mm_ok s1" using Cons.prems(2) by (simp add: s1_def)
  have sp: "sig_proc p n s1 = Done s2 \<Longrightarrow> mm_ok (unpause p s2)" for s2
    using mm_ok_sig_proc [OF _ s1] Cons.prems(3) by simp
  consider k' where "sig_loop i n u ps k' s = Done (r, s')" | k' where "sig_loop i n u ps k' s1 = Done (r, s')"
    | k' s2 where "sig_proc p n s1 = Done s2" "s' = unpause p s2" | k' s2 where "sig_proc p n s1 = Done s2" "sig_loop i n u ps k' (unpause p s2) = Done (r, s')"
    using Cons.prems(1) unfolding sig_loop.simps Let_def s1_def [symmetric] by (auto simp: outcome_simps split: if_splits)
  then show ?case by cases (use Cons s1 sp in auto)
qed simp

lemma check_sig_loop:
  assumes "check_sig i n u s = Done (r, s')"
  obtains "s' = s" | k s1 d where "sig_loop i n u (slots_from INIT_PROC_NR) 0 s = Done (k, s1)" "s' = s1\<lparr>dont_reply := d\<rparr>"
proof (cases "n < 1 \<or> NSIG < n")
  case True
  then show ?thesis using assms that(1) by (auto simp: check_sig_def)
next
  case False
  then obtain k s1 where l: "sig_loop i n u (slots_from INIT_PROC_NR) 0 s = Done (k, s1)"
    and d: "Done (if 0 < k then OK else ESRCH, if IN_USE \<notin> flags_of s1 (mp s1) \<or> HANGING \<in> flags_of s1 (mp s1) then s1\<lparr>dont_reply := True\<rparr> else s1) = Done (r, s')"
    using assms unfolding check_sig_def Let_def if_not_P [OF False] by (auto simp only: and_then_Done_iff split_paired_Ex prod.case)
  show ?thesis by (rule that(2) [OF l, of "if IN_USE \<notin> flags_of s1 (mp s1) \<or> HANGING \<in> flags_of s1 (mp s1) then True else dont_reply s1"])
    (use d in \<open>auto split: if_splits\<close>)
qed

lemma mm_ok_check_sig: "check_sig i n u s = Done (r, s') \<Longrightarrow> mm_ok s \<Longrightarrow> mm_ok s'"
proof (erule check_sig_loop)
  fix k s1 d
  assume "mm_ok s" "sig_loop i n u (slots_from INIT_PROC_NR) 0 s = Done (k, s1)" and s': "s' = s1\<lparr>dont_reply := d\<rparr>"
  then have "mm_ok s1" by (rule_tac mm_ok_sig_loop) auto
  then show ?thesis by (simp add: s')
qed simp

lemma mm_ok_ksig_one: "ksig_one p i j s = Done s' \<Longrightarrow> mm_ok s \<Longrightarrow> mm_ok s'"
  unfolding ksig_one_def Let_def by (auto simp: outcome_simps split: if_splits dest!: mm_ok_check_sig)

lemma seq_all_keeps:
  "seq_all f xs s = Done s' \<Longrightarrow> P s \<Longrightarrow> (\<And>x s s'. x \<in> set xs \<Longrightarrow> f x s = Done s' \<Longrightarrow> P s \<Longrightarrow> P s') \<Longrightarrow> P s'"
  by (induction xs arbitrary: s) (auto simp: outcome_simps)

lemma mm_ok_ksig_all:
  "seq_all (\<lambda>j s. if bit w (nat (j - 1)) then ksig_one p i j s else Done s) js s = Done s' \<Longrightarrow> mm_ok s \<Longrightarrow> mm_ok s'"
  by (erule seq_all_keeps [where P = mm_ok]) (auto split: if_splits dest: mm_ok_ksig_one)

lemma mm_ok_ksig:
  assumes "do_ksig s = Done (r, s')" and "mm_ok s" and "m_i1 (request_in s) \<in> set mm_slots"
  shows "mm_ok s'"
proof -
  let ?p = "m_i1 (request_in s)"
  let ?s2 = "upd_mproc 0 (\<lambda>r. r\<lparr>mp_procgrp := mp_procgrp (mproc_tab s ?p)\<rparr>) (s\<lparr>dont_reply := True, mp := 0\<rparr>)"
  have s2: "mm_ok ?s2" by (rule mm_ok_minor) (use assms(2) in \<open>auto simp: mm_ok_def\<close>)
  show ?thesis
  proof (cases "who s \<noteq> HARDWARE \<or> IN_USE \<notin> flags_of s ?p \<or> HANGING \<in> flags_of s ?p")
    case True
    then show ?thesis using assms(1,2) by (auto simp: do_ksig_def Let_def split: if_splits)
  next
    case False
    then obtain w i s3 where a: "(if w = 0x8000 then stack_fault ?p ?s2 else Done ?s2) = Done s3"
      and b: "seq_all (\<lambda>j s. if bit (w :: u16) (nat (j - 1)) then ksig_one ?p i j s else Done s) sig_numbers s3 = Done s'"
      using assms(1) by (auto simp: do_ksig_def Let_def and_then_Done_iff simp del: upd_mproc_simps)
    have "mm_ok s3" using a s2 mm_ok_stack_fault [OF _ s2 assms(3)] by (simp split: if_splits)
    with b show ?thesis by (rule mm_ok_ksig_all)
  qed
qed

lemma mm_ok_getset: "do_getset s = (r, s') \<Longrightarrow> mm_ok s \<Longrightarrow> mm_ok s'"
  by (auto simp: do_getset_def Let_def split: if_splits)

lemma mm_ok_signal: "do_signal s = (r, s') \<Longrightarrow> mm_ok s \<Longrightarrow> mm_ok s'"
proof -
  assume a: "do_signal s = (r, s')" and ok: "mm_ok s"
  have "minor (\<lambda>r. r\<lparr>mp_ignore := set_bit b (mp_ignore r), mp_catch := unset_bit b (mp_catch r)\<rparr>)" 
    "minor (\<lambda>r. r\<lparr>mp_ignore := unset_bit b (mp_ignore r), mp_catch := unset_bit b (mp_catch r)\<rparr>)"
    "minor (\<lambda>r. r\<lparr>mp_ignore := unset_bit b (mp_ignore r), mp_catch := set_bit b (mp_catch r), mp_func := f\<rparr>)" if "b \<noteq> 8" for b f
    using that by (auto simp: minor_def kill_bit_free_def bit_simps)
  then show ?thesis using a ok by (auto simp: do_signal_def Let_def split: if_splits)
qed

lemma mm_ok_trace:
  assumes "do_trace_mm s = Done (r, s')" and "mm_ok s"
  shows "mm_ok s'"
proof (cases "m_i2 (request_in s) = 0")
  case True
  then show ?thesis using assms by (auto simp: do_trace_mm_def Let_def)
next
  case False
  then show ?thesis
  proof (cases "findproc s (m_i1 (request_in s))")
    case None
    then show ?thesis using assms False by (auto simp: do_trace_mm_def Let_def)
  next
    case (Some c)
    then have c: "c \<in> in_use (mproc_tab s)" "c \<in> set mm_slots" by (auto simp: findproc_def find_Some_iff in_use_def dest: nth_mem)
    have sig: "sig_proc c n (upd_mproc c (clear_flag TRACED) s) = Done s1 \<Longrightarrow> mm_ok s1" for n s1
      using mm_ok_sig_proc [OF _ _ c(2), of n "upd_mproc c (clear_flag TRACED) s" s1] assms(2) by auto
    let ?d = "m_l2 (request_in s)" and ?q = "m_i2 (request_in s)"
    have "mm_ok s2" if "(if ?q = 7 then and_then (if 0 < ?d
               then and_then (sig_proc c (sint (word_of_int ?d :: u16)) (upd_mproc c (clear_flag TRACED) s))
                      (\<lambda>s1. Done (upd_mproc c (set_flag TRACED) s1))
               else Done s) (\<lambda>s1. Done (upd_mproc c (clear_flag STOPPED) s1)) else Done s) = Done s2" for s2
      using that assms(2) by (auto simp: outcome_simps split: if_splits dest!: sig)
    moreover have "mm_ok s1" if "mm_exit c ?d s = Done s1" for s1 using mm_ok_mm_exit [OF that assms(2) c(1)] .
    ultimately show ?thesis using assms False Some unfolding do_trace_mm_def Let_def
      by (simp add: and_then_Done_iff del: upd_mproc_simps split: if_split_asm) (auto simp del: upd_mproc_simps split: if_split_asm)
  qed
qed

lemma mm_ok_load_loop: "load_loop ans fd p n s = Done s' \<Longrightarrow> mm_ok s \<Longrightarrow> mm_ok s'"
proof (induction ans fd p n s rule: load_loop.induct)
  case (1 ans fd p n s)
  then show ?case
    by (subst (asm) load_loop.simps) (auto simp: Let_def split: if_splits list.splits)
qed

lemma mm_ok_new_mem: "new_mem t d b k n s = Done (r, s') \<Longrightarrow> mm_ok s \<Longrightarrow> mm_ok s'"
  by (auto simp: new_mem_def sys_fresh_def Let_def outcome_simps split: if_splits prod.splits)

lemma mm_ok_set_ids [simp]: "mm_ok s \<Longrightarrow> mm_ok (set_ids f s)"
  by (simp add: set_ids_def Let_def)

lemma minor_exec [simp]: "minor (\<lambda>r. r\<lparr>mp_catch := 0, mp_flags := (if b then insert SEPARATE (mp_flags r) else mp_flags r - {SEPARATE})\<rparr>)"
  by (auto simp: minor_def kill_bit_free_def)

lemma mm_ok_load_seg: "load_seg fd p n s = Done s' \<Longrightarrow> mm_ok s \<Longrightarrow> mm_ok s'"
  unfolding load_seg_def by (rule mm_ok_load_loop)

lemma mm_ok_mem_copy: "mem_copy p g a q g' a' n s = (r, s') \<Longrightarrow> mm_ok s' = mm_ok s"
  by (auto simp: mem_copy_def split: if_splits prod.splits)

lemma mm_ok_patch_stack [simp]: "mm_ok (patch_stack b v s) = mm_ok s"
  by (simp add: patch_stack_def Let_def)

lemma finish_exec_cases:
  assumes "finish_exec b f fd x n s = Done (r, s')"
  obtains g g' v s1 s2 s3 a a' c k where "mem_copy MM_PROC_NR Seg_D b (who s) Seg_D v n (patch_stack b v s) = (OK, s1)"
    "load_seg g a (x_text x) s1 = Done s2" "load_seg g' a' (x_data x) s2 = Done s3"
    "s' = (upd_mproc (mp (set_ids f s3)) (\<lambda>r. r\<lparr>mp_catch := 0,
            mp_flags := (if x_ft x then insert SEPARATE (mp_flags r) else mp_flags r - {SEPARATE})\<rparr>) (set_ids f s3))\<lparr>krn := k\<rparr>" "r = OK"
proof -
  let ?ss = "mp_seg (mproc_tab s (mp s)) Seg_S"
  let ?v = "clicks_bytes (mem_vir ?ss) + clicks_bytes (mem_len ?ss) - n"
  obtain q s1 where m: "mem_copy MM_PROC_NR Seg_D b (who s) Seg_D ?v n (patch_stack b ?v s) = (q, s1)" by fastforce
  have q: "q = OK" using assms by (simp add: finish_exec_def Let_def m split: if_splits)
  note m' = m [unfolded q]
  show ?thesis
    using assms unfolding finish_exec_def Let_def m' prod.case
    by (auto simp only: simp_thms if_False and_then_Done_iff split_paired_Ex prod.case outcome.inject prod.inject intro: that [OF m'])
qed

lemma mm_ok_finish_exec:
  assumes "finish_exec b f fd x n s = Done (r, s')" and "mm_ok s"
  shows "mm_ok s'"
  using assms(1)
proof (rule finish_exec_cases)
  fix g g' v s1 s2 s3 a a' c k
  assume c: "mem_copy MM_PROC_NR Seg_D b (who s) Seg_D v n (patch_stack b v s) = (OK, s1)"
    and l: "load_seg g a (x_text x) s1 = Done s2" "load_seg g' a' (x_data x) s2 = Done s3"
    and s': "s' = (upd_mproc (mp (set_ids f s3)) (\<lambda>r. r\<lparr>mp_catch := 0,
            mp_flags := (if x_ft x then insert SEPARATE (mp_flags r) else mp_flags r - {SEPARATE})\<rparr>) (set_ids f s3))\<lparr>krn := k\<rparr>"
  have "mm_ok s1" using mm_ok_mem_copy [OF c] assms(2) by simp
  then have "mm_ok s3" using l mm_ok_load_seg by blast
  then show ?thesis unfolding s' mm_ok_frame by (intro mm_ok_minor minor_exec mm_ok_set_ids)
qed

lemma mm_ok_exec: "do_exec_mm nb b f s = Done (r, s') \<Longrightarrow> mm_ok s \<Longrightarrow> mm_ok s'"
  by (auto simp: do_exec_mm_def mem_copy_def Let_def outcome_simps split: if_splits prod.splits dest!: mm_ok_new_mem mm_ok_finish_exec)

lemma minor_brk2 [simp]: "minor (\<lambda>r. r\<lparr>mp_seg := g (mp_seg r), mp_flags := (if b then insert SEPARATE (mp_flags r) else mp_flags r)\<rparr>)"
  by (auto simp: minor_def kill_bit_free_def)

lemma mm_ok_brk2: "do_brk2 s = Done (r, s') \<Longrightarrow> mm_ok s \<Longrightarrow> mm_ok s'"
  by (auto simp: do_brk2_def do_abort_def Let_def outcome_simps simp del: if_split_asm split: if_splits prod.splits)

lemma mm_ok_brk: "do_brk s = (r, s') \<Longrightarrow> mm_ok s \<Longrightarrow> mm_ok s'"
  by (auto simp: do_brk_def Let_def split: if_splits prod.splits dest!: mm_ok_adjust)

text \<open>One turn of the main loop.\<close>

definition sender_ok :: "mm_in \<Rightarrow> mm \<Rightarrow> bool" where
  "sender_ok m s \<longleftrightarrow>
     (if m_source m = HARDWARE then m_type m = 64 \<and> m_i1 m \<in> set mm_slots else m_source m \<in> in_use (mproc_tab s))"

lemma call_vec_members:
  "set (call_vec x) = {do_mm_exit, do_fork_mm, do_wait, do_trace_mm, do_alarm, do_kill_mm, x, do_ksig, do_brk2} \<union>
     pure_call ` {no_sys, do_brk, do_getset, do_pause, do_signal}"
  by (simp add: call_vec_def Let_def) blast

lemma call_vec_ksig: "call_vec x ! 64 = do_ksig" "length (call_vec x) = 69"
  by (simp_all add: call_vec_def Let_def)

lemma mm_ok_call:
  assumes "h \<in> set (call_vec x)" and "h s = Done (r, s')" and ok: "mm_ok s" and mp: "mp s \<in> in_use (mproc_tab s)" and "who s \<noteq> HARDWARE"
    and x: "\<And>r s s'. x s = Done (r, s') \<Longrightarrow> mm_ok s \<Longrightarrow> mm_ok s'"
  shows "mm_ok s'"
proof -
  have pure: "pure_call f s = Done (r, s') \<Longrightarrow> f s = (r, s')" for f by (simp add: pure_call_def)
  consider "do_mm_exit s = Done (r, s')" | "do_fork_mm s = Done (r, s')" | "do_wait s = Done (r, s')" | "do_trace_mm s = Done (r, s')"
    | "do_alarm s = Done (r, s')" | "do_kill_mm s = Done (r, s')" | "x s = Done (r, s')" | "do_ksig s = Done (r, s')" | "do_brk2 s = Done (r, s')"
    | "no_sys s = (r, s')" | "do_brk s = (r, s')" | "do_getset s = (r, s')" | "do_pause s = (r, s')" | "do_signal s = (r, s')"
    using assms(1,2) unfolding call_vec_members by (auto dest: pure)
  then show ?thesis
  proof cases
    case 1 then show ?thesis using ok mp by (auto simp: do_mm_exit_def outcome_simps dest: mm_ok_mm_exit)
  next
    case 3 then show ?thesis using ok unfolding do_wait_def by (rule mm_ok_wait_scan) simp
  next
    case 5 then show ?thesis using ok unfolding do_alarm_def by (rule mm_ok_set_alarm)
  next
    case 6 then show ?thesis using ok unfolding do_kill_mm_def by (rule mm_ok_check_sig)
  next
    case 8 then show ?thesis using ok assms(5) by (simp add: do_ksig_def)
  next
    case 10 then show ?thesis using ok by (simp add: no_sys_def)
  next
    case 13 then show ?thesis using ok by (auto simp: do_pause_def)
  qed (use ok mp in \<open>blast intro: mm_ok_fork mm_ok_trace x mm_ok_brk2 mm_ok_brk mm_ok_getset mm_ok_signal\<close>)+
qed

lemma mm_ok_turn:
  assumes "mm_turn (do_exec_mm nb b f) m s = Done s'" and "mm_ok s" and "sender_ok m s"
  shows "mm_ok s'"
proof -
  let ?x = "do_exec_mm nb b f"
  let ?s0 = "(get_work m s)\<lparr>mp := m_source m, dont_reply := False\<rparr>"
  have s0: "mm_ok ?s0" "mproc_tab ?s0 = mproc_tab s" "request_in ?s0 = m" "who ?s0 = m_source m" "mm_call ?s0 = m_type m" "mp ?s0 = m_source m"
    using assms(2) by (simp_all add: get_work_def mm_ok_def)
  obtain e s1 where c: "run_call ?x ?s0 = Done (e, s1)" and s': "mm_ok s' = mm_ok s1"
    using assms(1) unfolding mm_turn_def by (auto simp: outcome_simps split: if_splits)
  consider "s1 = ?s0" | "(call_vec ?x ! nat (m_type m)) ?s0 = Done (e, s1)" "nat (m_type m) < 69"
    using c s0(5) by (auto simp: run_call_def call_vec_ksig split: if_splits)
  then have "mm_ok s1"
  proof cases
    case 2
    then show ?thesis
    proof (cases "m_source m = HARDWARE")
      case True
      then have "do_ksig ?s0 = Done (e, s1)" "m_i1 m \<in> set mm_slots"
        using 2 assms(3) by (auto simp: sender_ok_def call_vec_ksig(1))
      then show ?thesis by (intro mm_ok_ksig [OF _ s0(1)]) (simp_all only: s0(3))
    next
      case False
      have "mp ?s0 \<in> in_use (mproc_tab ?s0)" using False assms(3) s0(2,6) by (simp add: sender_ok_def)
      with 2 s0 False show ?thesis
        by (intro mm_ok_call [of "call_vec ?x ! nat (m_type m)" ?x ?s0 e s1]) (auto simp: call_vec_ksig(2) intro: mm_ok_exec)
    qed
  qed (use s0 in simp)
  then show ?thesis by (simp add: s')
qed

subsection \<open>The search for a free pid\<close>

definition next_cand :: "int \<Rightarrow> int" where
  "next_cand x = (if x < 30000 then x + 1 else INIT_PID + 1)"

lemma next_cand_iter:
  assumes "1 \<le> x" "x \<le> 30000" "i \<le> 64"
  shows "(next_cand ^^ i) x = (if x + int i \<le> 30000 then x + int i else x + int i - 29999)"
  using assms(3) by (induction i) (use assms(1,2) in \<open>auto simp: next_cand_def\<close>)

lemma next_cand_inj: "1 \<le> x \<Longrightarrow> x \<le> 30000 \<Longrightarrow> inj_on (\<lambda>i. (next_cand ^^ i) x) {1..64}"
  by (rule inj_onI) (auto simp: next_cand_iter split: if_splits)

lemma next_cand_range: "1 \<le> x \<Longrightarrow> x \<le> 30000 \<Longrightarrow> next_cand x \<noteq> x \<and> 1 \<le> next_cand x \<and> next_cand x \<le> 30000"
  by (simp add: next_cand_def)

text \<open>The pids and process groups in the table, apart from the pid of slot \<open>c\<close>, which the loop itself changes.\<close>

definition pid_values :: "int \<Rightarrow> mm \<Rightarrow> int set" where
  "pid_values c s = (\<lambda>q. mp_pid (mproc_tab s q)) ` (set mm_slots - {c}) \<union> (\<lambda>q. mp_procgrp (mproc_tab s q)) ` set mm_slots"

lemma pid_taken_values: "pid_taken s n \<Longrightarrow> n \<in> insert (mp_pid (mproc_tab s c)) (pid_values c s)"
  unfolding pid_taken_iff pid_values_def by blast

lemma pick_pid_stuck:
  assumes "pick_pid n c s = Stuck" and "1 \<le> next_pid s" "next_pid s \<le> 30000"
    and "pid_values c s \<subseteq> T" and "mp_pid (mproc_tab s c) \<in> insert (next_pid s) T" and "i \<in> {1..n}"
  shows "(next_cand ^^ i) (next_pid s) \<in> T"
  using assms
proof (induction n arbitrary: s i)
  case (Suc n)
  define np where "np = next_cand (next_pid s)"
  define s1 where "s1 = upd_mproc c (\<lambda>r. r\<lparr>mp_pid := np\<rparr>) (s\<lparr>next_pid := np\<rparr>)"
  have st: "pid_taken s np" "pick_pid n c s1 = Stuck"
    using Suc.prems(1) by (simp_all add: Let_def np_def s1_def next_cand_def split: if_splits)
  have np: "np \<noteq> next_pid s" "1 \<le> np" "np \<le> 30000" using next_cand_range [of "next_pid s"] Suc.prems(2,3) by (auto simp: np_def)
  have T: "np \<in> T" using pid_taken_values [OF st(1), of c] Suc.prems(4,5) np(1) by auto
  have s1: "next_pid s1 = np" "pid_values c s1 = pid_values c s" "mp_pid (mproc_tab s1 c) = np"
    by (auto simp: s1_def pid_values_def image_def)
  show ?case
  proof (cases i)
    case 0
    then show ?thesis using Suc.prems(6) by simp
  next
    case (Suc j)
    have "(next_cand ^^ j) np \<in> T"
    proof (cases j)
      case (Suc k)
      then show ?thesis using Suc.IH [OF st(2), of j] s1 np Suc.prems(4,6) \<open>i = Suc j\<close> by simp
    qed (use T in simp)
    then show ?thesis by (simp add: Suc np_def funpow_swap1)
  qed
qed simp

lemma pick_pid_done:
  assumes "1 \<le> next_pid s" "next_pid s \<le> 30000" and dup: "mp_pid (mproc_tab s c) \<in> pid_values c s"
    and grp: "mp_procgrp (mproc_tab s c) \<in> (\<lambda>q. mp_procgrp (mproc_tab s q)) ` (set mm_slots - {c})" and c: "c \<in> set mm_slots"
  shows "\<exists>s'. pick_pid PID_TRIES c s = Done s'"
proof -
  have "pick_pid n c s \<noteq> Panic m" for n m by (induction n c s rule: pick_pid.induct) (simp_all add: Let_def)
  moreover have "pick_pid 64 c s \<noteq> Stuck"
  proof
    let ?V = "pid_values c s"
    assume "pick_pid 64 c s = Stuck"
    then have "(\<lambda>i. (next_cand ^^ i) (next_pid s)) ` {1..64} \<subseteq> ?V"
      using pick_pid_stuck [of 64 c s ?V] assms(1-3) by auto
    moreover have fin: "finite ?V" "finite (set mm_slots - {c})" by (simp_all add: pid_values_def del: mm_slots_iff)
    moreover have "card ((\<lambda>i. (next_cand ^^ i) (next_pid s)) ` {1..64}) = 64"
      using next_cand_inj [OF assms(1,2)] by (simp add: card_image)
    ultimately have "64 \<le> card ?V" by (metis card_mono)
    moreover have "?V \<subseteq> (\<lambda>q. mp_pid (mproc_tab s q)) ` (set mm_slots - {c}) \<union> (\<lambda>q. mp_procgrp (mproc_tab s q)) ` (set mm_slots - {c})"
      using grp unfolding pid_values_def by auto
    then have "card ?V \<le> card (set mm_slots - {c}) + card (set mm_slots - {c})"
      by (meson card_Un_le card_image_le card_mono fin(2) finite_UnI finite_imageI add_mono order_trans)
    moreover have "card (set mm_slots - {c}) = 31"
      using c distinct_card [OF distinct_mm_slots] by (simp add: card_Diff_singleton mm_slots_def del: mm_slots_iff upto.simps)
    ultimately show False by simp
  qed
  ultimately show ?thesis by (cases "pick_pid PID_TRIES c s") (auto simp: PID_TRIES_def)
qed

subsection \<open>Fork\<close>

text \<open>A map whose segments follow each other in memory as they do in the address space.\<close>

definition seg_linear :: "(segment \<Rightarrow> mem_map) \<Rightarrow> bool" where
  "seg_linear g \<longleftrightarrow> mem_phys (g Seg_D) = mem_phys (g Seg_T) + mem_len (g Seg_T) \<and>
     mem_phys (g Seg_S) - mem_phys (g Seg_D) = mem_vir (g Seg_S) - mem_vir (g Seg_D)"

lemma fork_seg_shift_map: "seg_linear (p_map r) \<Longrightarrow> fork_seg (p_map r) base = shift_map r base"
proof (rule ext)
  fix g assume l: "seg_linear (p_map r)"
  show "fork_seg (p_map r) base g = shift_map r base g"
    using l by (cases g) (auto simp: fork_seg_def shift_map_def seg_linear_def Let_def algebra_simps)
qed

lemma prog_clicks_image: "seg_linear (mp_seg r) \<Longrightarrow>
   prog_clicks r = mem_phys (mp_seg r Seg_S) - mem_phys (mp_seg r Seg_T) + mem_len (mp_seg r Seg_S)"
  by (simp add: prog_clicks_def seg_linear_def algebra_simps)

lemma free_slot_exists:
  assumes "mm_ok s" "procs_in_use s < NR_PROCS"
  shows "\<exists>c. find (\<lambda>p. IN_USE \<notin> flags_of s p) mm_slots = Some c \<and> c \<in> set mm_slots \<and> c \<notin> in_use (mproc_tab s)"
proof (cases "find (\<lambda>p. IN_USE \<notin> flags_of s p) mm_slots")
  case None
  then have "in_use (mproc_tab s) = set mm_slots" by (auto simp: find_None_iff in_use_def)
  then have "card (in_use (mproc_tab s)) = 32" using distinct_card [OF distinct_mm_slots] by (simp add: mm_slots_def del: mm_slots_iff)
  then show ?thesis using assms by (simp add: mm_ok_def tab_ok_def)
next
  case (Some c)
  then show ?thesis using find_slot [OF Some] by (auto simp: in_use_def)
qed

lemma enter_child_done:
  assumes "mm_ok s" "mp s \<in> in_use (mproc_tab s)" "c \<in> set mm_slots" "c \<notin> in_use (mproc_tab s)"
  shows "\<exists>r s'. enter_child c base s = Done (r, s')"
proof -
  let ?s0 = "upd_mproc c (\<lambda>_. fork_child (mproc_tab s (mp s)) (who s) base) (s\<lparr>procs_in_use := procs_in_use s + 1\<rparr>)"
  have mp: "mp s \<in> set mm_slots - {c}" using assms(2,4) by (auto simp: in_use_def)
  have "\<exists>s'. pick_pid PID_TRIES c ?s0 = Done s'"
  proof (rule pick_pid_done)
    show "1 \<le> next_pid ?s0" "next_pid ?s0 \<le> 30000" using assms(1) by (simp_all add: mm_ok_def tab_ok_def)
    show "mp_procgrp (mproc_tab ?s0 c) \<in> (\<lambda>q. mp_procgrp (mproc_tab ?s0 q)) ` (set mm_slots - {c})"
      by (rule image_eqI [OF _ mp]) (use mp in \<open>auto simp: fork_child_def\<close>)
    have "mp_pid (mproc_tab ?s0 c) \<in> (\<lambda>q. mp_pid (mproc_tab ?s0 q)) ` (set mm_slots - {c})"
      by (rule image_eqI [OF _ mp]) (use mp in \<open>auto simp: fork_child_def\<close>)
    then show "mp_pid (mproc_tab ?s0 c) \<in> pid_values c ?s0" unfolding pid_values_def by blast
  qed (rule assms(3))
  then show ?thesis by (auto simp: enter_child_def Let_def)
qed

text \<open>
  C10. Fork terminates and agrees with the kernel. In a well-formed table with a free slot (and, for an
  ordinary user, more than \<open>LAST_FEW\<close> of them), once \<open>alloc_mem\<close> has found the memory the search for a
  pid always ends, and \<open>do_fork\<close> returns a pid between 2 and 30000 that no slot has as its pid or
  process group. Exactly one slot \<open>c\<close>, free before, is changed: it becomes a copy of the caller's in every field, but for
  that pid, the caller as its parent, the new segments, a clear \<open>TRACED\<close> flag, zero exit and signal status, and for a child of INIT the pid as its process group;
  and the map that the kernel computes for the child is the map that MM records. (The caller's segments are supposed to lie one behind the other
  in physical memory as in its address space, \<open>seg_linear\<close>, and the kernel's map of the caller to be MM's; the caller is a process in use and \<open>who\<close> its slot.)
\<close>

theorem do_fork_mm_creates_child:
  assumes ok: "mm_ok s" and mp: "mp s \<in> in_use (mproc_tab s)" and who: "who s = mp s"
    and room: "procs_in_use s < (if mp_effuid (mproc_tab s (mp s)) = 0 then NR_PROCS else NR_PROCS - LAST_FEW)"
    and mem: "alloc_mem (prog_clicks (mproc_tab s (mp s))) (holes s) = Done (base, h)" "base \<noteq> NO_MEM"
    and map: "p_map (proc_tab (krn s) (mp s)) = mp_seg (mproc_tab s (mp s))" "seg_linear (mp_seg (mproc_tab s (mp s)))"
  shows "\<exists>pid c s'. do_fork_mm s = Done (pid, s') \<and> c \<notin> in_use (mproc_tab s) \<and> in_use (mproc_tab s') = insert c (in_use (mproc_tab s)) \<and>
    2 \<le> pid \<and> pid \<le> 30000 \<and>
    (\<forall>q \<in> set mm_slots - {c}. mp_pid (mproc_tab s q) \<noteq> pid \<and> mp_procgrp (mproc_tab s q) \<noteq> pid \<and> mproc_tab s' q = mproc_tab s q) \<and>
    mp_pid (mproc_tab s' c) = pid \<and> mp_parent (mproc_tab s' c) = mp s \<and>
    mp_effuid (mproc_tab s' c) = mp_effuid (mproc_tab s (mp s)) \<and> mp_seg (mproc_tab s' c) = fork_seg (mp_seg (mproc_tab s (mp s))) base \<and>
    mproc_tab s' c = (mproc_tab s (mp s))\<lparr>mp_pid := pid, mp_parent := mp s,
      mp_procgrp := (if mp s = INIT_PROC_NR then pid else mp_procgrp (mproc_tab s (mp s))), mp_flags := mp_flags (mproc_tab s (mp s)) - {TRACED},
      mp_seg := fork_seg (mp_seg (mproc_tab s (mp s))) base, mp_exitstatus := 0, mp_sigstatus := 0\<rparr> \<and>
    procs_in_use s' = procs_in_use s + 1 \<and> holes s' = h \<and> p_map (proc_tab (krn s') c) = mp_seg (mproc_tab s' c)"
proof -
  have n: "procs_in_use s < NR_PROCS" "\<not> (NR_PROCS - LAST_FEW \<le> procs_in_use s \<and> mp_effuid (mproc_tab s (mp s)) \<noteq> 0)"
    using room by (auto split: if_splits)
  obtain c where c: "find (\<lambda>p. IN_USE \<notin> flags_of s p) mm_slots = Some c" "c \<in> set mm_slots" "c \<notin> in_use (mproc_tab s)"
    using free_slot_exists [OF ok n(1)] by blast
  let ?s = "s\<lparr>holes := h\<rparr>"
  have "mm_ok ?s" "mp ?s \<in> in_use (mproc_tab ?s)" "c \<notin> in_use (mproc_tab ?s)" using ok mp c(3) by simp_all
  then obtain r s' where e: "enter_child c base ?s = Done (r, s')" using enter_child_done c(2) by blast
  have f: "do_fork_mm s = Done (r, s')" using n mem c(1) e by (auto simp: do_fork_mm_def Let_def)
  have np: "INIT_PID \<le> next_pid ?s" using ok by (simp add: mm_ok_def tab_ok_def)
  have sus: "isoksusern (mp s)" "isoksusern c" using mp c(2) by (auto simp: in_use_def proc_class_defs)
  from e np obtain g where E: "2 \<le> r" "r \<le> 30000" "procs_in_use s' = procs_in_use s + 1"
    "mproc_tab s' = (mproc_tab s)(c := (fork_child (mproc_tab s (mp s)) (who s) base)\<lparr>mp_pid := r, mp_procgrp := g\<rparr>)" "holes s' = h"
    "\<And>q. q \<in> set mm_slots \<Longrightarrow> q \<noteq> c \<Longrightarrow> mp_pid (mproc_tab s q) \<noteq> r \<and> mp_procgrp (mproc_tab s q) \<noteq> r"
    "krn s' = snd (Kernel_System.do_fork (who s) c r base (krn s))" "g = (if mp s = INIT_PROC_NR then r else mp_procgrp (mproc_tab s (mp s)))"
    by (rule enter_child_eq) (auto simp: who)
  have k: "p_map (proc_tab (krn s') c) = mp_seg (mproc_tab s' c)"
    using fork_seg_shift_map [of "proc_tab (krn s) (mp s)" base] map do_fork_eq(2) [OF sus]
    by (simp add: E(4,7) who fork_child_def)
  have u: "in_use (mproc_tab s') = insert c (in_use (mproc_tab s))"
    using mp c(2) by (auto simp: E(4) in_use_def fork_child_def)
  show ?thesis using f u c(3) E(1-3,5,6) k
    by (intro exI [of _ r] exI [of _ c] exI [of _ s']) (simp add: E(4,8) fork_child_def who)
qed

text \<open>A small table: MM, FS and INIT, with INIT as the caller.\<close>

definition no_mproc :: mproc where
  "no_mproc = \<lparr>mp_seg = (\<lambda>_. \<lparr>mem_vir = 0, mem_phys = 0, mem_len = 0\<rparr>), mp_exitstatus = 0, mp_sigstatus = 0, mp_pid = 0, mp_parent = 0,
     mp_procgrp = 0, mp_realuid = 0, mp_effuid = 0, mp_realgid = 0, mp_effgid = 0, mp_ignore = 0, mp_catch = 0, mp_func = 0, mp_flags = {}\<rparr>"

definition no_request :: mm_in where
  "no_request = \<lparr>m_source = 2, m_type = 0, m_i1 = 0, m_i2 = 0, m_i3 = 0, m_p1 = 0, m_p2 = 0, m_f1 = 0, m_l1 = 0, m_l2 = 0\<rparr>"

definition demo_mm :: mm where
  "demo_mm = \<lparr>mproc_tab = (\<lambda>p. if p = 2 then no_mproc\<lparr>mp_flags := {IN_USE}, mp_pid := INIT_PID, mp_seg := p_map (proc_tab demo_fork 2)\<rparr>
       else if p = 0 \<or> p = 1 then no_mproc\<lparr>mp_flags := {IN_USE}\<rparr> else no_mproc),
     mp = 2, who = 2, mm_call = 0, procs_in_use = 3, next_pid = 2, dont_reply = False, result2 = 0, res_ptr = 0, out_l1 = 0, out_l2 = 0,
     request_in = no_request, holes = demo_mem, krn = demo_fork, clk = demo_clock, sent = [], fs_ans = [], sig_stuff = 0,
     slot_long = (\<lambda>_ _. 0), slot_size = 0\<rparr>"

lemma demo_in_use: "in_use (mproc_tab demo_mm) = {0, 1, 2}"
  by (auto simp: in_use_def demo_mm_def no_mproc_def)

lemma demo_mm_ok: "mm_ok demo_mm"
  unfolding mm_ok_def tab_ok_def demo_in_use by (auto simp: demo_mm_def no_mproc_def kill_bit_free_def)

lemma demo_fork_mem: "alloc_mem (prog_clicks (mproc_tab demo_mm (mp demo_mm))) (holes demo_mm) = Done (64, bite 0 4 demo_mem)"
proof -
  have "prog_clicks (mproc_tab demo_mm (mp demo_mm)) = 4" by (simp add: prog_clicks_def demo_mm_def demo_fork_def)
  then show ?thesis by (simp add: demo_mm_def alloc_mem_def round_even_def demo_mem_def bite_def)
qed

theorem do_fork_mm_creates_child_witness:
  "\<exists>pid c s'. do_fork_mm demo_mm = Done (pid, s') \<and> 3 \<le> c \<and> mp_pid (mproc_tab s' c) = pid \<and> procs_in_use s' = 4 \<and>
     mem_phys (p_map (proc_tab (krn s') c) Seg_D) = 65"
proof -
  let ?s = demo_mm
  have "mp ?s \<in> in_use (mproc_tab ?s)" "who ?s = mp ?s"
    "procs_in_use ?s < (if mp_effuid (mproc_tab ?s (mp ?s)) = 0 then NR_PROCS else NR_PROCS - LAST_FEW)" "(64 :: u16) \<noteq> NO_MEM"
    "p_map (proc_tab (krn ?s) (mp ?s)) = mp_seg (mproc_tab ?s (mp ?s))" "seg_linear (mp_seg (mproc_tab ?s (mp ?s)))"
    by (simp_all add: demo_in_use) (simp_all add: demo_mm_def no_mproc_def seg_linear_def demo_fork_def)
  from do_fork_mm_creates_child [OF demo_mm_ok this(1-3) demo_fork_mem this(4-6)]
  obtain pid c s' where r: "do_fork_mm ?s = Done (pid, s')" "c \<notin> in_use (mproc_tab ?s)" "in_use (mproc_tab s') = insert c (in_use (mproc_tab ?s))"
      "mp_pid (mproc_tab s' c) = pid" "mp_seg (mproc_tab s' c) = fork_seg (mp_seg (mproc_tab ?s (mp ?s))) 64" "procs_in_use s' = procs_in_use ?s + 1"
      "p_map (proc_tab (krn s') c) = mp_seg (mproc_tab s' c)" by blast
  have "c \<in> in_use (mproc_tab s')" using r(3) by simp
  then have "3 \<le> c" using r(2) unfolding demo_in_use by (auto simp: in_use_def)
  then show ?thesis using r by (intro exI [of _ pid] exI [of _ c] exI [of _ s']) (simp add: fork_seg_def Let_def demo_mm_def demo_fork_def)
qed

subsection \<open>Runs of the memory manager\<close>

text \<open>
  MM takes a message and serves it; between two turns the other processes, the kernel and FS change
  the kernel's state, the clock and the answers FS will give, but nothing of MM's own tables.
\<close>

inductive mm_step :: "mm \<Rightarrow> mm \<Rightarrow> bool" where
  turn: "sender_ok m s \<Longrightarrow> mm_turn (do_exec_mm nb b f) m s = Done s' \<Longrightarrow> mm_step s s'"
| others: "mm_step s (s\<lparr>krn := k, clk := c, fs_ans := a\<rparr>)"

inductive_cases mm_stepE: "mm_step s s'"

lemma mm_ok_step: "mm_step s s' \<Longrightarrow> mm_ok s \<Longrightarrow> mm_ok s'"
proof (erule mm_stepE)
  fix k c a
  assume "mm_ok s" "s' = s\<lparr>krn := k, clk := c, fs_ans := a\<rparr>"
  then show "mm_ok s'" by (simp add: mm_ok_def)
qed (rule mm_ok_turn)

lemma mm_ok_run: "mm_step\<^sup>*\<^sup>* s s' \<Longrightarrow> mm_ok s \<Longrightarrow> mm_ok s'"
  by (induction rule: rtranclp_induct) (auto intro: mm_ok_step)

definition mm_fresh :: "mm \<Rightarrow> bool" where
  "mm_fresh s \<longleftrightarrow> next_pid s = INIT_PID + 1 \<and> (\<forall>p. mp_flags (mproc_tab s p) = {} \<and> mp_catch (mproc_tab s p) = 0 \<and> mp_ignore (mproc_tab s p) = 0)"

lemma mm_ok_init: "mm_fresh s \<Longrightarrow> mm_init e s = Done s' \<Longrightarrow> mm_ok s'"
proof -
  assume f: "mm_fresh s" and i: "mm_init e s = Done s'"
  then have t: "mproc_tab s' = (mproc_tab s)(0 := (mproc_tab s 0)\<lparr>mp_flags := {IN_USE}\<rparr>, 1 := (mproc_tab s 1)\<lparr>mp_flags := {IN_USE}\<rparr>,
      2 := (mproc_tab s 2)\<lparr>mp_flags := {IN_USE}, mp_pid := INIT_PID\<rparr>)" and n: "procs_in_use s' = 3" "next_pid s' = 2"
    by (auto simp: mm_init_def mm_fresh_def Let_def outcome_simps split: prod.splits)
  have u: "in_use (mproc_tab s') = {0, 1, 2}" using f by (auto simp: in_use_def t mm_fresh_def split: if_splits)
  show ?thesis unfolding mm_ok_def tab_ok_def u using f by (auto simp: n t mm_fresh_def kill_bit_free_def split: if_splits)
qed

text \<open>
  C9. The process table stays consistent. In every state that MM reaches from \<open>mm_init\<close> by serving any sequence
  of calls and kernel signals (fork, exit, wait, exec, brk, kill, alarm, ptrace and so on, whatever
  the kernel, the clock and FS answer), \<open>procs_in_use\<close> is the number of slots in use, every zombie holds
  a slot that is in use, no two live processes from INIT on have the same pid, and no process catches or
  ignores \<open>SIGKILL\<close>.
\<close>

theorem mm_table_consistent:
  assumes "mm_fresh s0" and "mm_init e s0 = Done s" and "mm_step\<^sup>*\<^sup>* s s'"
  shows "procs_in_use s' = int (card {p \<in> set mm_slots. IN_USE \<in> flags_of s' p}) \<and>
    (\<forall>p. HANGING \<in> flags_of s' p \<longrightarrow> p \<in> set mm_slots \<and> IN_USE \<in> flags_of s' p) \<and>
    (\<forall>p \<in> set mm_slots. \<forall>q \<in> set mm_slots. INIT_PROC_NR \<le> p \<and> INIT_PROC_NR \<le> q \<and> IN_USE \<in> flags_of s' p \<and> IN_USE \<in> flags_of s' q \<and>
       mp_pid (mproc_tab s' p) = mp_pid (mproc_tab s' q) \<longrightarrow> p = q) \<and>
    (\<forall>p. \<not> bit (mp_catch (mproc_tab s' p)) (nat (SIGKILL - 1)) \<and> \<not> bit (mp_ignore (mproc_tab s' p)) (nat (SIGKILL - 1)))"
proof -
  have "mm_ok s'" using mm_ok_run [OF assms(3) mm_ok_init [OF assms(1,2)]] .
  then show ?thesis unfolding mm_ok_def tab_ok_def in_use_def kill_bit_free_def by simp
qed

text \<open>INIT sets a handler for \<open>SIGINT\<close> and then tries to do the same for \<open>SIGKILL\<close>.\<close>

definition demo_sig :: "int \<Rightarrow> mm_in" where
  "demo_sig n = no_request\<lparr>m_type := 48, m_i1 := n, m_f1 := 0x400\<rparr>"

lemma demo_boot: "\<exists>s. mm_init 0x100000 (demo_mm\<lparr>mproc_tab := (\<lambda>_. no_mproc)\<rparr>) = Done s"
proof -
  have "valid_block 0 0x1000" "sane_request 0x1000" by (simp_all add: valid_block_def sane_request_def hole_ok_def round_even_def)
  then have "\<exists>m'. mem_init_loop [(0, 0x1000)] (all_slots_free demo_mem) = Done m'"
    using mem_init_loop_ok [of "all_slots_free demo_mem" "[(0, 0x1000)]"] all_slots_free_ok [of demo_mem] by (auto simp: free_clicks_def)
  then obtain m' where "free_mem 0 0x1000 (all_slots_free demo_mem) = Done m'" by (auto simp: outcome_simps)
  then show ?thesis by (simp add: mm_init_def get_mem_def do_mem_def mem_init_def demo_mm_def)
qed

lemma demo_sig_turn:
  assumes "IN_USE \<in> flags_of s 2" "HANGING \<notin> flags_of s 2"
  shows "\<exists>s'. mm_turn x (demo_sig 2) s = Done s' \<and> length (sent s') = length (sent s) + 1 \<and>
      mproc_tab s' = (mproc_tab s)(2 := (mproc_tab s 2)\<lparr>mp_ignore := unset_bit 1 (mp_ignore (mproc_tab s 2)), mp_catch := set_bit 1 (mp_catch (mproc_tab s 2)), mp_func := 0x400\<rparr>)"
    "\<exists>s'. mm_turn x (demo_sig 9) s = Done s' \<and> length (sent s') = length (sent s) + 1 \<and> mproc_tab s' = mproc_tab s"
proof -
  have c: "call_vec x ! 48 = pure_call do_signal" by (simp add: call_vec_def Let_def)
  show "\<exists>s'. mm_turn x (demo_sig 2) s = Done s' \<and> length (sent s') = length (sent s) + 1 \<and>
      mproc_tab s' = (mproc_tab s)(2 := (mproc_tab s 2)\<lparr>mp_ignore := unset_bit 1 (mp_ignore (mproc_tab s 2)), mp_catch := set_bit 1 (mp_catch (mproc_tab s 2)), mp_func := 0x400\<rparr>)"
    "\<exists>s'. mm_turn x (demo_sig 9) s = Done s' \<and> length (sent s') = length (sent s) + 1 \<and> mproc_tab s' = mproc_tab s"
    using assms by (simp_all add: mm_turn_def run_call_def call_vec_ksig c pure_call_def get_work_def demo_sig_def no_request_def do_signal_def Let_def reply_def)
qed

theorem mm_table_consistent_witness:
  "\<exists>s s'. mm_init 0x100000 (demo_mm\<lparr>mproc_tab := (\<lambda>_. no_mproc)\<rparr>) = Done s \<and> mm_step\<^sup>*\<^sup>* s s' \<and> length (sent s') = 2 \<and>
     bit (mp_catch (mproc_tab s' 2)) 1 \<and> \<not> bit (mp_catch (mproc_tab s' 2)) 8"
proof -
  let ?s0 = "demo_mm\<lparr>mproc_tab := (\<lambda>_. no_mproc)\<rparr>" and ?x = "do_exec_mm 0 0 undefined"
  have f: "mm_fresh ?s0" by (simp add: mm_fresh_def demo_mm_def no_mproc_def)
  obtain s where s: "mm_init 0x100000 ?s0 = Done s" using demo_boot by blast
  have t: "mproc_tab s = (\<lambda>_. no_mproc)(0 := no_mproc\<lparr>mp_flags := {IN_USE}\<rparr>, 1 := no_mproc\<lparr>mp_flags := {IN_USE}\<rparr>,
      2 := no_mproc\<lparr>mp_flags := {IN_USE}, mp_pid := INIT_PID\<rparr>)" "sent s = []"
    using s by (auto simp: mm_init_def Let_def outcome_simps demo_mm_def no_mproc_def split: prod.splits)
  have i: "IN_USE \<in> flags_of s 2" "HANGING \<notin> flags_of s 2" by (simp_all add: t)
  obtain s1 where s1: "mm_turn ?x (demo_sig 2) s = Done s1" "length (sent s1) = 1"
      "mproc_tab s1 = (mproc_tab s)(2 := (mproc_tab s 2)\<lparr>mp_ignore := unset_bit 1 (mp_ignore (mproc_tab s 2)), mp_catch := set_bit 1 (mp_catch (mproc_tab s 2)), mp_func := 0x400\<rparr>)"
    using demo_sig_turn(1) [OF i, of ?x] by (auto simp: t(2))
  obtain s2 where s2: "mm_turn ?x (demo_sig 9) s1 = Done s2" "length (sent s2) = 2" "mproc_tab s2 = mproc_tab s1"
    using demo_sig_turn(2) [of s1 ?x] i s1(2,3) by (auto simp: numeral_2_eq_2)
  have "sender_ok (demo_sig 2) s" "sender_ok (demo_sig 9) s1"
    by (simp_all add: sender_ok_def demo_sig_def no_request_def in_use_def s1(3) t)
  then have run: "mm_step\<^sup>*\<^sup>* s s2" using s1(1) s2(1) by (meson mm_step.turn r_into_rtranclp rtranclp.rtrancl_into_rtrancl)
  have "\<not> bit (mp_catch (mproc_tab s2 2)) 8" using mm_table_consistent [OF f s run] by simp
  moreover have "bit (mp_catch (mproc_tab s2 2)) 1" by (simp add: s2(3) s1(3) bit_simps)
  ultimately show ?thesis using s run s2(2) by blast
qed

end
