(* ===== verification/MM_Calls.thy ===== *)
theory MM_Calls
  imports MM_Table
begin

section \<open>MM: exit and wait, signals, brk and exec\<close>

text \<open>
  What the single calls do.

  \<^item> Exit: \<open>cleanup_done\<close> (the recursion ends), \<open>mm_exit_steps\<close> and \<open>mm_exit_cases\<close> (its two ways), \<open>mm_exit_done\<close>
    (together with the kernel's \<open>do_xit\<close> and the hole table).
  \<^item> Signals: \<open>spared\<close> is what a call may change of a process it is not about; \<open>touches_only p\<close> says that
    it changes no more than that of all live processes but \<open>p\<close>.
  \<^item> \<open>adjust_cases\<close>: break and stack growth.
  \<^item> The call table and exec: bad call numbers, relocation of the stack, loading of the segments.
\<close>

subsection \<open>Exit and wait\<close>

text \<open>\<open>cleanup\<close> calls itself at most once more: the recursive call takes INIT out of its wait.\<close>

lemma disinherit_not_waiting: "\<exists>s'. disinherit again c rps False s = Done s'"
  by (induction rps arbitrary: s) (auto simp: Let_def)

lemma release_slot_parent: "WAITING \<notin> flags_of (release_slot c s) (mp_parent (mproc_tab s c))"
  by (simp add: release_slot_def reply_def Let_def)

lemma cleanup_orphan: "mp_parent (mproc_tab s c) = INIT_PROC_NR \<Longrightarrow> \<exists>s'. cleanup (Suc n) c s = Done s'"
  using release_slot_parent [of c s] disinherit_not_waiting by (simp add: Let_def)

lemma cleanup_done: "\<exists>s'. cleanup 2 c s = Done s'"
proof -
  have "\<exists>s'. disinherit (cleanup (Suc 0)) c rps w s = Done s'" for rps w s
  proof (induction rps arbitrary: w s)
    case (Cons rp rps)
    let ?s1 = "upd_mproc rp (\<lambda>r. r\<lparr>mp_parent := INIT_PROC_NR\<rparr>) s"
    obtain s2 where "cleanup (Suc 0) rp ?s1 = Done s2" using cleanup_orphan [of ?s1 rp 0] by auto
    then show ?case using Cons.IH disinherit_not_waiting by (simp add: Let_def del: cleanup.simps)
  qed simp
  then show ?thesis by (simp add: numeral_2_eq_2 Let_def)
qed

text \<open>What a release leaves of another process: all but its parent and its \<open>WAITING\<close> bit.\<close>

definition spared :: "mproc \<Rightarrow> mproc \<Rightarrow> bool" where
  "spared r r' \<longleftrightarrow> r'\<lparr>mp_parent := mp_parent r, mp_flags := mp_flags r' - {WAITING}\<rparr> = r\<lparr>mp_flags := mp_flags r - {WAITING}\<rparr>"

lemma spared_refl [simp]: "spared r r"
  by (simp add: spared_def)

lemma spared_eqs:
  assumes "spared r r'"
  shows "mp_effuid r' = mp_effuid r" "mp_pid r' = mp_pid r" "mp_seg r' = mp_seg r" "mp_catch r' = mp_catch r" "mp_ignore r' = mp_ignore r"
    "mp_sigstatus r' = mp_sigstatus r" "mp_exitstatus r' = mp_exitstatus r" "f \<noteq> WAITING \<Longrightarrow> f \<in> mp_flags r' \<longleftrightarrow> f \<in> mp_flags r"
  using assms by (cases r; cases r'; auto simp: spared_def)+

lemma spared_trans: "spared r r' \<Longrightarrow> spared r' r'' \<Longrightarrow> spared r r''"
  by (cases r; cases r'; cases r'') (auto simp: spared_def)

lemma spared_upd [simp]:
  "spared r (r'\<lparr>mp_parent := i\<rparr>) = spared r r'" "spared r (r'\<lparr>mp_flags := mp_flags r' - {WAITING}\<rparr>) = spared r r'"
  by (cases r; cases r'; auto simp: spared_def)+

definition grows :: "mm \<Rightarrow> mm \<Rightarrow> bool" where
  "grows s s' \<longleftrightarrow> (\<exists>ms. sent s' = sent s @ ms)"

lemma grows_refl [simp]: "grows s s" by (simp add: grows_def)

lemma grows_trans: "grows s s' \<Longrightarrow> grows s' s'' \<Longrightarrow> grows s s''"
  by (auto simp: grows_def)

lemma release_slot_spares:
  "q \<noteq> c \<Longrightarrow> spared (mproc_tab s q) (mproc_tab (release_slot c s) q)" "grows s (release_slot c s)"
  by (auto simp: release_slot_def reply_def Let_def grows_def)

definition gentle :: "(int \<Rightarrow> mm \<Rightarrow> mm outcome) \<Rightarrow> bool" where
  "gentle f \<longleftrightarrow> (\<forall>c s s' q. f c s = Done s' \<longrightarrow>
     (q \<noteq> c \<longrightarrow> HANGING \<notin> flags_of s q \<longrightarrow> spared (mproc_tab s q) (mproc_tab s' q)) \<and> grows s s')"

lemma gentleD:
  "gentle f \<Longrightarrow> f c s = Done s' \<Longrightarrow> q \<noteq> c \<Longrightarrow> HANGING \<notin> flags_of s q \<Longrightarrow> spared (mproc_tab s q) (mproc_tab s' q)"
  "gentle f \<Longrightarrow> f c s = Done s' \<Longrightarrow> grows s s'"
  unfolding gentle_def by blast+

lemma spared_alive: "spared (mproc_tab s q) (mproc_tab s' q) \<Longrightarrow> HANGING \<notin> flags_of s q \<Longrightarrow> HANGING \<notin> flags_of s' q"
  by (simp add: spared_eqs(8))

lemma disinherit_spares:
  assumes "gentle again" and "disinherit again c rps w s = Done s'"
  shows "(HANGING \<notin> flags_of s q \<longrightarrow> spared (mproc_tab s q) (mproc_tab s' q)) \<and> grows s s'"
  using assms(2)
proof (induction rps arbitrary: w s)
  case (Cons rp rps)
  let ?s1 = "upd_mproc rp (\<lambda>r. r\<lparr>mp_parent := INIT_PROC_NR\<rparr>) s"
  have s1: "spared (mproc_tab s q) (mproc_tab ?s1 q)" "grows s ?s1" by (auto simp: grows_def)
  note tr = spared_trans [of "mproc_tab s q"] grows_trans [of s] spared_alive [of s q]
  consider "disinherit again c rps w s = Done s'" | "disinherit again c rps w ?s1 = Done s'"
    | s2 where "HANGING \<in> flags_of ?s1 rp" "again rp ?s1 = Done s2" "disinherit again c rps False s2 = Done s'"
    using Cons.prems by (auto simp: Let_def outcome_simps split: if_splits)
  then show ?case
  proof cases
    case 2
    then show ?thesis using Cons.IH [OF 2] s1 tr by blast
  next
    case 3
    have "HANGING \<notin> flags_of s q \<longrightarrow> spared (mproc_tab ?s1 q) (mproc_tab s2 q)" "grows ?s1 s2"
      using gentleD [OF assms(1) 3(2)] 3(1) tr(3) [OF s1(1)] by auto
    then show ?thesis using Cons.IH [OF 3(3)] s1 tr by blast
  qed (use Cons.IH in blast)
qed simp

lemma gentle_cleanup: "gentle (cleanup n)"
proof (induction n)
  case 0
  then show ?case by (simp add: gentle_def)
next
  case (Suc n)
  show ?case unfolding gentle_def
  proof (intro allI impI)
    fix c s s' q
    assume "cleanup (Suc n) c s = Done s'"
    then have "disinherit (cleanup n) c mm_slots (WAITING \<in> flags_of (release_slot c s) INIT_PROC_NR) (release_slot c s) = Done s'"
      by (simp add: Let_def)
    from disinherit_spares [OF Suc this, of q] release_slot_spares(1) [of q c s] release_slot_spares(2) [of s c]
    show "(q \<noteq> c \<longrightarrow> HANGING \<notin> flags_of s q \<longrightarrow> spared (mproc_tab s q) (mproc_tab s' q)) \<and> grows s s'"
      using spared_trans [of "mproc_tab s q"] grows_trans [of s] spared_alive [of s q] by blast
  qed
qed

lemma cleanup_releases:
  assumes "cleanup n c s = Done s'" and p: "p = mp_parent (mproc_tab s c)"
  shows "IN_USE \<notin> flags_of s' c"
    "p \<noteq> c \<Longrightarrow> IN_USE \<in> flags_of s p \<Longrightarrow> HANGING \<notin> flags_of s p \<Longrightarrow>
       (\<exists>ms. sent s' = sent s @ ms \<and> Reply p (mp_pid (mproc_tab s c)) (wait_status (mproc_tab s c)) 0 \<in> set ms)"
proof -
  let ?s1 = "release_slot c s"
  obtain m where n: "n = Suc m" using assms(1) by (cases n) auto
  have d: "disinherit (cleanup m) c mm_slots (WAITING \<in> flags_of ?s1 INIT_PROC_NR) ?s1 = Done s'"
    using assms(1) by (simp add: n Let_def)
  have f: "HANGING \<notin> flags_of ?s1 c" "IN_USE \<notin> flags_of ?s1 c" by (auto simp: release_slot_def reply_def Let_def)
  have g: "spared (mproc_tab ?s1 c) (mproc_tab s' c)" "grows ?s1 s'"
    using disinherit_spares [OF gentle_cleanup d, of c] f(1) by blast+
  show "IN_USE \<notin> flags_of s' c" using spared_eqs(8) [OF g(1), of IN_USE] f(2) by simp
  assume "p \<noteq> c" "IN_USE \<in> flags_of s p" "HANGING \<notin> flags_of s p"
  then have "sent ?s1 = sent s @ [Reply p (mp_pid (mproc_tab s c)) (wait_status (mproc_tab s c)) 0]"
    by (simp add: release_slot_def reply_def Let_def p)
  then show "\<exists>ms. sent s' = sent s @ ms \<and> Reply p (mp_pid (mproc_tab s c)) (wait_status (mproc_tab s c)) 0 \<in> set ms"
    using g(2) by (auto simp: grows_def)
qed

lemma set_alarm_tab:
  "set_alarm p sec s = Done (r, s') \<Longrightarrow> mproc_tab s' = mproc_tab (upd_mproc p (if sec \<noteq> 0 then set_flag ALARM_ON else clear_flag ALARM_ON) s) \<and> sent s' = sent s"
  by (auto simp: set_alarm_def Let_def outcome_simps)

text \<open>\<open>mm_exit\<close> either collects the process at once or leaves a zombie.\<close>

lemma mm_exit_cases:
  assumes "mm_exit c st s = Done s'" and p: "p = mp_parent (mproc_tab s c)" "p \<noteq> c"
  obtains (collected) s2 where "WAITING \<in> flags_of s p" "cleanup 2 c (upd_mproc c (\<lambda>r. r\<lparr>mp_exitstatus := word_of_int st\<rparr>) s) = Done s2"
      "mproc_tab s' c = (mproc_tab s2 c)\<lparr>mp_flags := mp_flags (mproc_tab s2 c) - {ALARM_ON}\<rparr>"
      "\<And>q. q \<noteq> c \<Longrightarrow> mproc_tab s' q = mproc_tab s2 q" "grows s2 s'"
  | (zombie) "WAITING \<notin> flags_of s p" "\<And>q. q \<noteq> c \<Longrightarrow> mproc_tab s' q = mproc_tab s q" "grows s s'"
      "mproc_tab s' c = (mproc_tab s c)\<lparr>mp_exitstatus := word_of_int st, mp_flags := insert HANGING (mp_flags (mproc_tab s c)) - {ALARM_ON}\<rparr>"
proof -
  let ?s1 = "upd_mproc c (\<lambda>r. r\<lparr>mp_exitstatus := word_of_int st\<rparr>) s"
  from assms(1) obtain s2 s3 k h where *:
      "(if WAITING \<in> flags_of ?s1 (mp_parent (mproc_tab ?s1 c)) then cleanup 2 c ?s1 else Done (upd_mproc c (set_flag HANGING) ?s1)) = Done s2"
      "(if ALARM_ON \<in> flags_of s2 c then and_then (set_alarm c 0 s2) (\<lambda>x. Done (snd x)) else Done s2) = Done s3"
      "s' = tell_fs 1 c 0 0 (s3\<lparr>krn := k, holes := h\<rparr>)"
    by (rule mm_exit_steps)
  have s': "mproc_tab s' = mproc_tab s3" "grows s3 s'" using *(3) by (auto simp: grows_def tell_fs_def)
  have al: "mproc_tab s3 c = (mproc_tab s2 c)\<lparr>mp_flags := mp_flags (mproc_tab s2 c) - {ALARM_ON}\<rparr>"
    "\<And>q. q \<noteq> c \<Longrightarrow> mproc_tab s3 q = mproc_tab s2 q" "sent s3 = sent s2"
    using *(2) by (auto simp: outcome_simps split: if_splits dest!: set_alarm_tab)
  have w: "WAITING \<in> flags_of ?s1 (mp_parent (mproc_tab ?s1 c)) \<longleftrightarrow> WAITING \<in> flags_of s p" using p by simp
  show ?thesis
  proof (cases "WAITING \<in> flags_of s p")
    case True
    show ?thesis
      by (rule collected [OF True]) (use * True w al s' in \<open>auto simp: grows_def simp del: cleanup.simps upd_mproc_simps\<close>)
  next
    case False
    then have "s2 = upd_mproc c (set_flag HANGING) ?s1" using *(1) w by (simp del: upd_mproc_simps)
    with False show ?thesis using zombie al s' by (simp add: grows_def)
  qed
qed

definition ready_child :: "mm \<Rightarrow> int \<Rightarrow> int \<Rightarrow> bool" where
  "ready_child s p q \<longleftrightarrow> IN_USE \<in> flags_of s q \<and> mp_parent (mproc_tab s q) = p \<and>
     (HANGING \<in> flags_of s q \<or> STOPPED \<in> flags_of s q \<and> mp_sigstatus (mproc_tab s q) \<noteq> 0)"

lemma wait_scan_first:
  assumes "c \<in> set rps" "\<forall>q \<in> set rps - {c}. \<not> ready_child s (who s) q" "ready_child s (who s) c" "HANGING \<in> flags_of s c"
  shows "wait_scan rps n s = and_then (cleanup 2 c s) (\<lambda>s1. Done (OK, s1\<lparr>dont_reply := True\<rparr>))"
  using assms(1,2)
proof (induction rps arbitrary: n)
  case (Cons rp rps)
  show ?case
  proof (cases "rp = c")
    case True
    then show ?thesis using assms(3,4) by (simp add: Let_def ready_child_def)
  next
    case False
    then have "\<not> ready_child s (who s) rp" "c \<in> set rps" using Cons.prems by auto
    then show ?thesis using Cons by (auto simp: Let_def ready_child_def)
  qed
qed simp

text \<open>
  C11. The exit status reaches the parent in either order of exit and wait. When the parent is already waiting, \<open>mm_exit\<close> sends it
  the child's pid and status (the low byte the signal, the high byte the exit code) and releases the slot at
  once. When it is not, the child keeps its slot as a zombie, and a later \<open>do_wait\<close> of the parent sends the
  same message and releases the slot, provided no other child is ready to be collected before it; the
  recursion of \<open>cleanup\<close> always ends.
\<close>

theorem exit_status_reaches_parent:
  assumes ok: "mm_ok s" and c: "c \<in> in_use (mproc_tab s)" and p: "mp_parent (mproc_tab s c) = p" "p \<noteq> c"
    and pu: "p \<in> in_use (mproc_tab s)" "HANGING \<notin> flags_of s p" and ex: "mm_exit c st s = Done s1"
    and msg: "m = Reply p (mp_pid (mproc_tab s c)) (wait_status ((mproc_tab s c)\<lparr>mp_exitstatus := word_of_int st\<rparr>)) 0"
  shows "if WAITING \<in> flags_of s p then (\<exists>ms. sent s1 = sent s @ ms \<and> m \<in> set ms) \<and> c \<notin> in_use (mproc_tab s1)
     else c \<in> in_use (mproc_tab s1) \<and> HANGING \<in> flags_of s1 c \<and>
       (\<forall>s2. mproc_tab s2 = mproc_tab s1 \<and> mp s2 = p \<and> who s2 = p \<and> (\<forall>q \<in> set mm_slots - {c}. \<not> ready_child s2 p q) \<longrightarrow>
          (\<exists>s3 ms. do_wait s2 = Done (OK, s3) \<and> sent s3 = sent s2 @ ms \<and> m \<in> set ms \<and> c \<notin> in_use (mproc_tab s3)))"
  using ex p(1) [symmetric] p(2)
proof (cases rule: mm_exit_cases)
  case (collected s2)
  let ?s1 = "upd_mproc c (\<lambda>r. r\<lparr>mp_exitstatus := word_of_int st\<rparr>) s"
  have par: "p = mp_parent (mproc_tab ?s1 c)" using p by simp
  have "\<exists>ms. sent s2 = sent ?s1 @ ms \<and> m \<in> set ms"
    using cleanup_releases(2) [OF collected(2) par p(2)] p(2) pu unfolding msg in_use_def by simp
  moreover have "IN_USE \<notin> flags_of s1 c" using cleanup_releases(1) [OF collected(2) par] collected(3) by simp
  ultimately show ?thesis using collected(1,5) by (auto simp: grows_def in_use_def)
next
  case zombie
  have "\<exists>s3 ms. do_wait s2 = Done (OK, s3) \<and> sent s3 = sent s2 @ ms \<and> m \<in> set ms \<and> c \<notin> in_use (mproc_tab s3)"
    if s2: "mproc_tab s2 = mproc_tab s1" "mp s2 = p" "who s2 = p" "\<forall>q \<in> set mm_slots - {c}. \<not> ready_child s2 p q" for s2
  proof -
    have t: "mproc_tab s2 c = (mproc_tab s c)\<lparr>mp_exitstatus := word_of_int st, mp_flags := insert HANGING (mp_flags (mproc_tab s c)) - {ALARM_ON}\<rparr>"
      using zombie(4) s2(1) by simp
    have par: "p = mp_parent (mproc_tab s2 c)" using t p by simp
    have pp: "IN_USE \<in> flags_of s2 p" "HANGING \<notin> flags_of s2 p" using zombie(2) [OF p(2)] pu s2(1) by (auto simp: in_use_def)
    obtain s4 where s4: "cleanup 2 c s2 = Done s4" using cleanup_done by blast
    have rc: "ready_child s2 (who s2) c" "HANGING \<in> flags_of s2 c" using c t s2(3) p by (auto simp: ready_child_def in_use_def)
    have w: "do_wait s2 = Done (OK, s4\<lparr>dont_reply := True\<rparr>)"
      unfolding do_wait_def using s4 wait_scan_first [OF _ _ rc, of mm_slots] s2(3,4) c by (simp add: in_use_def del: cleanup.simps)
    have "wait_status (mproc_tab s2 c) = wait_status ((mproc_tab s c)\<lparr>mp_exitstatus := word_of_int st\<rparr>)" using t by (simp add: wait_status_def)
    then have "\<exists>ms. sent s4 = sent s2 @ ms \<and> m \<in> set ms" using cleanup_releases(2) [OF s4 par p(2) pp] t by (simp add: msg)
    then show ?thesis using w cleanup_releases(1) [OF s4 par] by (auto simp: in_use_def)
  qed
  then show ?thesis using zombie(1,4) c by (auto simp: in_use_def)
qed

subsection \<open>Exit, the kernel and the hole table\<close>

text \<open>What MM, the kernel and the hole table have to say about a process that is about to exit.\<close>

definition exit_ready :: "mm \<Rightarrow> int \<Rightarrow> bool" where
  "exit_ready s c \<longleftrightarrow>
     (let r = proc_tab (krn s) c; base = mem_phys (p_map r Seg_T); size = data_clicks r + mem_len (p_map r Seg_T) in
      ipc_ok (krn s) \<and> isokusern c \<and> p_shadow r = 0 \<and> (\<forall>q. isokusern q \<longrightarrow> \<not> shares_image (krn s) c q) \<and>
      mem_ok (holes s) \<and> length (hole_list (holes s)) < NR_HOLES \<and> valid_block base size \<and> free_clicks (holes s) \<inter> block base size = {})"

definition same_image :: "kernel \<Rightarrow> kernel \<Rightarrow> bool" where
  "same_image k k' \<longleftrightarrow> (\<forall>p. p_map (proc_tab k' p) = p_map (proc_tab k p) \<and> p_flags (proc_tab k' p) = p_flags (proc_tab k p) \<and>
     p_shadow (proc_tab k' p) = p_shadow (proc_tab k p) \<and> p_nflips (proc_tab k' p) = p_nflips (proc_tab k p))"

lemma shares_image_same: "same_image k k' \<Longrightarrow> shares_image k' c q = shares_image k c q"
  by (simp add: same_image_def shares_image_def)

lemma exit_ready_same: "exit_ready s c \<Longrightarrow> same_image (krn s) (krn s') \<Longrightarrow> ipc_ok (krn s') \<Longrightarrow> holes s' = holes s \<Longrightarrow> exit_ready s' c"
  by (simp add: exit_ready_def Let_def shares_image_same) (simp add: same_image_def data_clicks_def)

lemma set_alarm_done:
  "\<exists>r s'. set_alarm p sec s = Done (r, s') \<and> same_image (krn s) (krn s') \<and> holes s' = holes s \<and> (ipc_ok (krn s) \<longrightarrow> ipc_ok (krn s'))"
  by (auto simp: set_alarm_def clock_task_def do_setalarm_def Let_def same_image_def ipc_ok_alarm)

lemma krn_frame [simp]:
  "krn (reply p r r2 q s) = krn s" "krn (release_slot c s) = krn s" "holes (reply p r r2 q s) = holes s" "holes (release_slot c s) = holes s"
  by (simp_all add: reply_def release_slot_def Let_def)

lemma cleanup_krn: "cleanup n c s = Done s' \<Longrightarrow> krn s' = krn s \<and> holes s' = holes s"
proof (induction n arbitrary: c s s')
  case (Suc n)
  have "disinherit (cleanup n) c rps w s = Done s' \<Longrightarrow> krn s' = krn s \<and> holes s' = holes s" for rps w s s'
    by (induction rps arbitrary: w s) (auto simp: Let_def outcome_simps split: if_splits dest!: Suc.IH)
  then show ?case using Suc.prems by (fastforce simp: Let_def)
qed simp

lemma cleanup_parent: "cleanup n c s = Done s' \<Longrightarrow> mp_parent (mproc_tab s' q) \<in> {mp_parent (mproc_tab s q), INIT_PROC_NR}"
proof (induction n arbitrary: c s s')
  case (Suc n)
  have d: "disinherit (cleanup n) c rps w s = Done s' \<Longrightarrow> mp_parent (mproc_tab s' q) \<in> {mp_parent (mproc_tab s q), INIT_PROC_NR}" for rps w s s'
  proof (induction rps arbitrary: w s)
    case (Cons rp rps)
    then show ?case using Suc.IH by (fastforce simp: Let_def outcome_simps split: if_splits)
  qed simp
  have "mp_parent (mproc_tab (release_slot c s) q) = mp_parent (mproc_tab s q)" by (simp add: release_slot_def reply_def Let_def)
  then show ?case using Suc.prems d [of mm_slots _ "release_slot c s" s'] by (simp add: Let_def)
qed simp

lemma mm_exit_done:
  assumes r: "exit_ready s c" and p: "isoksusern (mp_parent (mproc_tab s c))"
  obtains s' where "mm_exit c st s = Done s'" "p_flags (proc_tab (krn s') c) = {P_SLOT_FREE}" "ipc_ok (krn s')" "mem_ok (holes s')"
    "free_clicks (holes s') = free_clicks (holes s) \<union>
       block (mem_phys (p_map (proc_tab (krn s) c) Seg_T)) (data_clicks (proc_tab (krn s) c) + mem_len (p_map (proc_tab (krn s) c) Seg_T))"
    "last (sent s') = Tell_fs 1 c 0 0"
proof -
  let ?s1 = "upd_mproc c (\<lambda>r. r\<lparr>mp_exitstatus := word_of_int st\<rparr>) s"
  let ?base = "\<lambda>s. mem_phys (p_map (proc_tab (krn s) c) Seg_T)"
  let ?size = "\<lambda>s. data_clicks (proc_tab (krn s) c) + mem_len (p_map (proc_tab (krn s) c) Seg_T)"
  obtain s2 where s2: "(if WAITING \<in> flags_of ?s1 (mp_parent (mproc_tab ?s1 c)) then cleanup 2 c ?s1 else Done (upd_mproc c (set_flag HANGING) ?s1)) = Done s2"
    using cleanup_done [of c ?s1] by (metis (full_types))
  have k2: "krn s2 = krn s" "holes s2 = holes s" and p2: "isoksusern (mp_parent (mproc_tab s2 c))"
    using s2 cleanup_krn [of 2 c ?s1 s2] cleanup_parent [of 2 c ?s1 s2 c] p by (auto split: if_splits simp del: cleanup.simps simp: proc_class_defs)
  obtain s3 where s3: "(if ALARM_ON \<in> flags_of s2 c then and_then (set_alarm c 0 s2) (\<lambda>(_, s). Done s) else Done s2) = Done s3"
    and i3: "same_image (krn s2) (krn s3)" "holes s3 = holes s2" "ipc_ok (krn s3)" "mp_parent (mproc_tab s3 c) = mp_parent (mproc_tab s2 c)"
  proof (cases "ALARM_ON \<in> flags_of s2 c")
    case True
    obtain x s3 where a: "set_alarm c 0 s2 = Done (x, s3)" "same_image (krn s2) (krn s3)" "holes s3 = holes s2" "ipc_ok (krn s2) \<longrightarrow> ipc_ok (krn s3)"
      using set_alarm_done by blast
    then show ?thesis using that [of s3] True r k2 set_alarm_tab [OF a(1)] by (simp add: exit_ready_def Let_def)
  next
    case False
    then show ?thesis using that [of s2] r k2 by (simp add: exit_ready_def Let_def same_image_def)
  qed
  have r3: "exit_ready s3 c" using exit_ready_same [OF r] i3 k2 by simp
  have b: "?base s3 = ?base s" "?size s3 = ?size s" using i3(1) by (simp_all add: same_image_def data_clicks_def k2)
  have k: "kinv 0 (krn s3) (ready_list (krn s3)) (caller_list (krn s3))" using i3(3) by (simp add: ipc_ok_def)
  have R: "isokusern c" "p_shadow (proc_tab (krn s3) c) = 0" "\<And>q. isokusern q \<Longrightarrow> \<not> shares_image (krn s3) c q"
      "mem_ok (holes s3)" "length (hole_list (holes s3)) < NR_HOLES"
      "hole_ok (unat (?base s3), unat (round_even (?size s3)))" "free_clicks (holes s3) \<inter> block (?base s3) (?size s3) = {}"
    using r3 by (auto simp: exit_ready_def Let_def valid_block_def)
  obtain k' where x: "do_xit (mp_parent (mproc_tab s3 c)) c (krn s3) = Done (OK, (?base s3, ?size s3), k')"
      "ipc_ok k'" "p_flags (proc_tab k' c) = {P_SLOT_FREE}"
    using do_xit_rep [OF k R(1) _ R(2,3)] p2 i3(4) kinv_ipc_ok by metis
  obtain h where h: "free_mem (?base s3) (?size s3) (holes s3) = Done h" "mem_ok h" "free_clicks h = free_clicks (holes s3) \<union> block (?base s3) (?size s3)"
    using R(4,6,7) by (cases rule: free_mem_cases) (use R(4,5) free_slots_None in auto)
  have "mm_exit c st s = Done (tell_fs 1 c 0 0 (s3\<lparr>krn := k', holes := h\<rparr>))"
    unfolding mm_exit_def Let_def s2 and_then.simps s3 x(1) prod.case h(1) ..
  then show thesis by (rule that) (use x(2,3) h(2,3) in \<open>simp_all add: tell_fs_def b i3(2) k2\<close>)
qed

text \<open>
  C12. Exit gives everything back. When the kernel and the hole table are in order and the process's memory is
  not free, \<open>mm_exit\<close> returns: the kernel's slot is free and the kernel's queues are still consistent, the clicks of
  the whole image have joined the free memory, and FS has been told.
\<close>

theorem mm_exit_releases_memory:
  assumes r: "exit_ready s c" and p: "isoksusern (mp_parent (mproc_tab s c))"
  shows "\<exists>s'. mm_exit c st s = Done s' \<and> p_flags (proc_tab (krn s') c) = {P_SLOT_FREE} \<and> ipc_ok (krn s') \<and> mem_ok (holes s') \<and>
     free_clicks (holes s') = free_clicks (holes s) \<union>
       block (mem_phys (p_map (proc_tab (krn s) c) Seg_T)) (data_clicks (proc_tab (krn s) c) + mem_len (p_map (proc_tab (krn s) c) Seg_T)) \<and>
     last (sent s') = Tell_fs 1 c 0 0"
  by (rule mm_exit_done [OF assms, of st]) blast

lemma demo_exit_ready: "exit_ready demo_mm 2"
proof -
  have m: "p_map (proc_tab demo_fork 2) = (\<lambda>g. case g of Seg_T \<Rightarrow> \<lparr>mem_vir = 0, mem_phys = 16, mem_len = 1\<rparr> | Seg_D \<Rightarrow> \<lparr>mem_vir = 1, mem_phys = 17, mem_len = 1\<rparr>
                  | Seg_S \<Rightarrow> \<lparr>mem_vir = 3, mem_phys = 19, mem_len = 1\<rparr>)" by (simp add: demo_fork_def)
  have d: "holes demo_mm = demo_mem" "krn demo_mm = demo_fork" by (simp_all add: demo_mm_def)
  have "\<forall>q. isokusern q \<longrightarrow> \<not> shares_image demo_fork 2 q" "p_shadow (proc_tab demo_fork 2) = 0" "isokusern 2"
    by (auto simp: proc_class_defs shares_image_def demo_fork_def demo_proc_def)
  moreover have "valid_block 16 4" "free_clicks demo_mem \<inter> block 16 4 = {}" "length (hole_list demo_mem) < NR_HOLES"
    by (auto simp: valid_block_def hole_ok_def free_clicks_def demo_mem_ok(2) block_def round_even_def)
  ultimately show ?thesis
    using kinv_ipc_ok [OF demo_fork_kinv] demo_mem_ok(1) by (simp add: exit_ready_def Let_def d m data_clicks_def)
qed

lemma demo_parent: "mp_parent (mproc_tab demo_mm 2) = 0" "isoksusern 0"
  by (simp_all add: demo_mm_def no_mproc_def proc_class_defs)

theorem mm_exit_releases_memory_witness:
  "\<exists>s'. mm_exit 2 5 demo_mm = Done s' \<and> free_clicks (holes s') = {64..<192} \<union> {16..<20} \<and> ipc_ok (krn s')"
proof -
  have "free_clicks (holes demo_mm) = {64..<192}" by (simp add: demo_mm_def free_clicks_def demo_mem_ok(2))
  moreover have "block (mem_phys (p_map (proc_tab (krn demo_mm) 2) Seg_T))
      (data_clicks (proc_tab (krn demo_mm) 2) + mem_len (p_map (proc_tab (krn demo_mm) 2) Seg_T)) = {16..<20}"
    by (simp add: demo_mm_def demo_fork_def data_clicks_def block_def round_even_def)
  ultimately show ?thesis using mm_exit_releases_memory [OF demo_exit_ready, of 5] demo_parent by auto
qed

theorem exit_status_reaches_parent_witness:
  "\<exists>s1 s3 ms. mm_exit 2 5 demo_mm = Done s1 \<and> HANGING \<in> flags_of s1 2 \<and>
     do_wait (s1\<lparr>mp := 0, who := 0\<rparr>) = Done (OK, s3) \<and> sent s3 = sent s1 @ ms \<and> Reply 0 1 0x500 0 \<in> set ms"
proof -
  have "isoksusern (mp_parent (mproc_tab demo_mm 2))" by (simp add: demo_parent)
  from demo_exit_ready this obtain s1 where e: "mm_exit 2 5 demo_mm = Done s1" by (rule mm_exit_done)
  define s2 where "s2 = s1\<lparr>mp := 0, who := 0\<rparr>"
  have st: "wait_status ((mproc_tab demo_mm 2)\<lparr>mp_exitstatus := word_of_int 5\<rparr>) = 0x500" "mp_pid (mproc_tab demo_mm 2) = 1"
    by (simp_all add: wait_status_def demo_mm_def no_mproc_def)
  have w: "WAITING \<notin> flags_of demo_mm 0" "HANGING \<notin> flags_of demo_mm 0" "mp_parent (mproc_tab demo_mm 2) = 0"
    by (simp_all add: demo_mm_def no_mproc_def)
  have tab: "q \<noteq> 2 \<Longrightarrow> mproc_tab s1 q = mproc_tab demo_mm q" for q
    using e w(3) [symmetric] by (cases rule: mm_exit_cases) (use w(1) in auto)
  have "\<forall>q \<in> set mm_slots - {2}. \<not> ready_child s2 0 q"
    by (auto simp: ready_child_def s2_def tab) (auto simp: demo_mm_def no_mproc_def split: if_splits)
  moreover have "2 \<in> in_use (mproc_tab demo_mm)" "0 \<in> in_use (mproc_tab demo_mm)" by (simp_all add: demo_in_use)
  moreover have "mproc_tab s2 = mproc_tab s1" "mp s2 = 0" "who s2 = 0" "sent s2 = sent s1" by (simp_all add: s2_def)
  ultimately have "HANGING \<in> flags_of s1 2" "\<exists>s3 ms. do_wait s2 = Done (OK, s3) \<and> sent s3 = sent s1 @ ms \<and> Reply 0 1 0x500 0 \<in> set ms"
    using exit_status_reaches_parent [OF demo_mm_ok _ w(3) _ _ w(2) e refl, unfolded if_not_P [OF w(1)] st] by (simp, metis zero_neq_numeral)
  then show ?thesis using e unfolding s2_def by blast
qed

subsection \<open>Signals\<close>

text \<open>A signal to \<open>p\<close> leaves every other live process alone.\<close>

definition touches_only :: "int \<Rightarrow> mm \<Rightarrow> mm \<Rightarrow> bool" where
  "touches_only p s s' \<longleftrightarrow> (\<forall>q. q \<noteq> p \<longrightarrow> HANGING \<notin> flags_of s q \<longrightarrow> spared (mproc_tab s q) (mproc_tab s' q))"

lemma touches_onlyD: "touches_only p s s' \<Longrightarrow> q \<noteq> p \<Longrightarrow> HANGING \<notin> flags_of s q \<Longrightarrow> spared (mproc_tab s q) (mproc_tab s' q)"
  by (simp add: touches_only_def)

lemma touches_only_trans: "touches_only p s s' \<Longrightarrow> touches_only p s' s'' \<Longrightarrow> touches_only p s s''"
  unfolding touches_only_def by (meson spared_alive spared_trans)

lemma touches_only_tab: "(\<And>q. q \<noteq> p \<Longrightarrow> mproc_tab s' q = mproc_tab s q) \<Longrightarrow> touches_only p s s'"
  by (simp add: touches_only_def)

lemma touches_only_upd [simp]: "touches_only p s (upd_mproc p f s)"
  by (rule touches_only_tab) simp

lemma mm_exit_touches: "mm_exit p st s = Done s' \<Longrightarrow> touches_only p s s'"
proof (erule mm_exit_steps)
  let ?s1 = "upd_mproc p (\<lambda>r. r\<lparr>mp_exitstatus := word_of_int st\<rparr>) s"
  fix s2 s3 k h
  assume *: "(if WAITING \<in> flags_of ?s1 (mp_parent (mproc_tab ?s1 p)) then cleanup 2 p ?s1 else Done (upd_mproc p (set_flag HANGING) ?s1)) = Done s2"
      "(if ALARM_ON \<in> flags_of s2 p then and_then (set_alarm p 0 s2) (\<lambda>x. Done (snd x)) else Done s2) = Done s3"
      "s' = tell_fs 1 p 0 0 (s3\<lparr>krn := k, holes := h\<rparr>)"
  have "touches_only p ?s1 s2"
    using *(1) gentleD(1) [OF gentle_cleanup, of 2 p ?s1 s2] by (auto simp: touches_only_def split: if_splits simp del: cleanup.simps)
  moreover have "touches_only p s2 s3" using *(2) by (auto simp: outcome_simps intro!: touches_only_tab split: if_splits dest!: set_alarm_tab)
  moreover have "touches_only p s3 s'" unfolding *(3) by (rule touches_only_tab) simp
  ultimately show ?thesis using touches_only_upd touches_only_trans by blast
qed

lemma adjust_touches: "adjust p d sp s = (r, s') \<Longrightarrow> touches_only p s s'"
  by (auto simp: adjust_def Let_def intro!: touches_only_tab split: if_splits)

lemma stop_proc_touches: "stop_proc p n s = Done s' \<Longrightarrow> touches_only p s s'"
  by (auto simp: stop_proc_def Let_def outcome_simps touches_only_def split: if_splits)

lemma kill_default_touches: "kill_default p n s = Done s' \<Longrightarrow> touches_only p s s'"
proof -
  let ?s1 = "upd_mproc p (\<lambda>r. r\<lparr>mp_sigstatus := word_of_int n\<rparr>) s"
  assume "kill_default p n s = Done s'"
  then have "touches_only p (if bit CORE_BITS (nat (n - 1)) then dump_core p ?s1 else ?s1) s'"
    unfolding kill_default_def Let_def by (rule mm_exit_touches)
  moreover have "touches_only p s (if bit CORE_BITS (nat (n - 1)) then dump_core p ?s1 else ?s1)"
    by (rule touches_only_tab) (auto simp: dump_core_def Let_def case_prod_beta)
  ultimately show ?thesis by (rule_tac touches_only_trans)
qed

lemma sig_proc_touches:
  assumes "sig_proc p n s = Done s'"
  shows "touches_only p s s'"
proof -
  have adj: "touches_only p s s2" if "adjust p d sp (upd_mproc p f s) = (r, s2)" for d sp f r s2
    using adjust_touches [OF that] touches_only_upd touches_only_trans by blast
  from assms show ?thesis
  proof (cases rule: sig_proc_cases)
    case stopped
    then show ?thesis by (rule stop_proc_touches)
  next
    case killed
    then show ?thesis by (auto intro: kill_default_touches)
  next
    case (caught s2 sp k)
    then show ?thesis using adj [OF caught(1)] by (simp add: touches_only_def)
  next
    case (no_stack r s2 sp)
    then show ?thesis using adj [OF no_stack(2)] kill_default_touches touches_only_trans by blast
  qed (simp add: touches_only_def)
qed

lemma unpause_touches: "touches_only p s (unpause p s)"
  by (rule touches_only_tab) (simp add: unpause_def)

lemma sig_loop_spares:
  assumes "sig_loop i n u ps k s = Done (r, s')" and u: "u \<noteq> 0"
    and q: "HANGING \<notin> flags_of s q" "mp_effuid (mproc_tab s q) \<noteq> u"
  shows "spared (mproc_tab s q) (mproc_tab s' q)"
  using assms(1) q
proof (induction ps arbitrary: k s)
  case (Cons p ps)
  define go where "go = send_sig i n u (mp_procgrp (mproc_tab s (mp s))) (mproc_tab s p)"
  define s1 where "s1 = (if n = SIGALRM \<and> go then upd_mproc p (clear_flag ALARM_ON) s else s)"
  have pq: "go \<Longrightarrow> q \<noteq> p" using Cons.prems(3) u by (auto simp: go_def send_sig_def Let_def)
  then have s1: "spared (mproc_tab s q) (mproc_tab s1 q)" by (auto simp: s1_def)
  have IH: "spared (mproc_tab s q) (mproc_tab s' q)"
    if "sig_loop i n u ps k' t = Done (r, s')" "spared (mproc_tab s q) (mproc_tab t q)" for k' t
    using Cons.IH [OF that(1)] that(2) Cons.prems(2,3) spared_eqs(1) [OF that(2)] spared_alive [OF that(2)] spared_trans by auto
  consider k' where "sig_loop i n u ps k' s = Done (r, s')" | k' where "sig_loop i n u ps k' s1 = Done (r, s')"
    | s2 where "go" "sig_proc p n s1 = Done s2" "s' = unpause p s2"
    | k' s2 where "go" "sig_proc p n s1 = Done s2" "sig_loop i n u ps k' (unpause p s2) = Done (r, s')"
    using Cons.prems(1) unfolding sig_loop.simps Let_def go_def [symmetric] s1_def [symmetric] by (auto simp: outcome_simps split: if_splits)
  then show ?case
  proof cases
    case 1
    then show ?thesis using IH by simp
  next
    case 2
    then show ?thesis using IH s1 by simp
  next
    case (3 s2)
    have "spared (mproc_tab s1 q) (mproc_tab s' q)"
      using touches_only_trans [OF sig_proc_touches [OF 3(2)] unpause_touches] pq [OF 3(1)] spared_alive [OF s1 Cons.prems(2)]
      by (auto simp: 3(3) touches_only_def)
    then show ?thesis using s1 spared_trans by blast
  next
    case (4 k' s2)
    have "spared (mproc_tab s1 q) (mproc_tab (unpause p s2) q)"
      using touches_only_trans [OF sig_proc_touches [OF 4(2)] unpause_touches] pq [OF 4(1)] spared_alive [OF s1 Cons.prems(2)]
      by (auto simp: touches_only_def)
    then show ?thesis using IH [OF 4(3)] s1 spared_trans by blast
  qed
qed simp

text \<open>
  C28. Kill respects user ids. When a process whose effective uid is not 0 calls \<open>kill\<close>, with any target and any signal,
  every live process with another effective uid is still alive afterwards, with the same pid, uid, memory
  map, pending status and signal masks: at most it has stopped waiting for a child or got another parent (INIT inherits the children of a process that exits; the statement leaves the parent open).
\<close>

theorem kill_spares_other_users:
  assumes "do_kill_mm s = Done (r, s')" and "mp_effuid (mproc_tab s (mp s)) \<noteq> 0"
    and "IN_USE \<in> flags_of s q" "HANGING \<notin> flags_of s q" "mp_effuid (mproc_tab s q) \<noteq> mp_effuid (mproc_tab s (mp s))"
  shows "IN_USE \<in> flags_of s' q \<and> HANGING \<notin> flags_of s' q \<and> spared (mproc_tab s q) (mproc_tab s' q)"
proof -
  have "spared (mproc_tab s q) (mproc_tab s' q)" using assms(1) unfolding do_kill_mm_def
    by (rule check_sig_loop) (use assms(2,4,5) in \<open>auto dest: sig_loop_spares\<close>)
  then show ?thesis using spared_eqs(8) assms(3,4) by auto
qed

text \<open>A process of user 5 that ignores \<open>SIGHUP\<close> sends it to everyone.\<close>

definition demo_user :: mm where
  "demo_user = (upd_mproc 3 (\<lambda>r. r\<lparr>mp_flags := {IN_USE}, mp_pid := 7, mp_effuid := 5, mp_ignore := 1\<rparr>) demo_mm)
     \<lparr>mp := 3, who := 3, procs_in_use := 4, request_in := no_request\<lparr>m_i1 := -1, m_i2 := 1\<rparr>\<rparr>"

theorem kill_spares_other_users_witness:
  "\<exists>s'. do_kill_mm demo_user = Done (OK, s') \<and> IN_USE \<in> flags_of s' 2 \<and> HANGING \<notin> flags_of s' 2"
proof -
  have tab: "mproc_tab demo_user q = (if q = 3 then no_mproc\<lparr>mp_flags := {IN_USE}, mp_pid := 7, mp_effuid := 5, mp_ignore := 1\<rparr> else mproc_tab demo_mm q)" for q
    by (simp add: demo_user_def demo_mm_def)
  have rest: "mp demo_user = 3" "request_in demo_user = no_request\<lparr>m_i1 := -1, m_i2 := 1\<rparr>" by (simp_all add: demo_user_def)
  have free: "sig_loop i n u [a..31] k demo_user = Done (k, demo_user)" if "4 \<le> a" for a i n u k
    using that
  proof (induction "nat (32 - a)" arbitrary: a)
    case 0
    then show ?case by simp
  next
    case (Suc x)
    then show ?case by (subst upto.simps) (simp add: tab demo_mm_def no_mproc_def)
  qed
  have "slots_from INIT_PROC_NR = 2 # 3 # [4..31]" by (simp add: slots_from_def upto_rec1)
  then have "do_kill_mm demo_user = Done (OK, demo_user)"
    using free [of 4] by (simp add: do_kill_mm_def check_sig_def rest tab Let_def send_sig_def no_request_def) (simp add: demo_mm_def no_mproc_def)
  moreover from this have "IN_USE \<in> flags_of demo_user 2 \<and> HANGING \<notin> flags_of demo_user 2"
    using kill_spares_other_users [of demo_user OK demo_user 2] by (simp add: tab rest) (simp add: demo_mm_def no_mproc_def)
  ultimately show ?thesis by blast
qed

text \<open>
  The test for zombies is overruled when the superuser signals everyone: the comment of \<open>check_sig\<close> says \<open>don't wake
  the dead\<close>, but a kill with target -1 by user 0 is sent to zombies as well, and \<open>sig_proc\<close> then makes them exit
  a second time.
\<close>

lemma send_sig_to_zombies:
  "mp_pid r \<noteq> INIT_PID \<Longrightarrow> send_sig (-1) sig_nr 0 grp r"
  "HANGING \<in> mp_flags r \<Longrightarrow> proc_id \<noteq> -1 \<Longrightarrow> \<not> send_sig proc_id sig_nr uid grp r"
  by (simp_all add: send_sig_def Let_def)

text \<open>\<open>HZ * sec\<close> wraps: an alarm in 1093 seconds rings after 44 ticks.\<close>

lemma alarm_ticks_wrap: "alarm_ticks 1093 = 44" "unat sec \<le> 1092 \<Longrightarrow> alarm_ticks sec = 60 * int (unat sec)"
proof -
  show "alarm_ticks 1093 = 44" by (simp add: alarm_ticks_def)
  assume "unat sec \<le> 1092"
  then have "60 * unat sec < 65536" by linarith
  then have u: "unat (60 * sec) = 60 * unat sec" by (simp only: unat_word_ariths) simp
  have "uint (60 * sec) = int (unat (60 * sec))" by simp
  then show "alarm_ticks sec = 60 * int (unat sec)" unfolding alarm_ticks_def u by simp
qed

subsection \<open>The call table\<close>

text \<open>The calls that MM implements, by their numbers in \<open>table.c\<close>; every other entry is \<open>no_sys\<close>.\<close>

abbreviation (input) mm_calls :: "nat set" where
  "mm_calls \<equiv> {1, 2, 7, 17, 20, 23, 24, 26, 27, 29, 37, 46, 47, 48, 59, 64, 66}"

lemma call_vec_unused_all: "list_all (\<lambda>i. i \<in> mm_calls \<or> call_vec x ! i = pure_call no_sys) [0..<69]"
  by (simp add: call_vec_def Let_def upt_rec)

lemma call_vec_unused: "i < 69 \<Longrightarrow> i \<notin> mm_calls \<Longrightarrow> call_vec x ! i = pure_call no_sys"
  using call_vec_unused_all [of x] unfolding list_all_iff by (metis atLeastLessThan_iff le0 set_upt)

text \<open>
  C30. Bad call numbers. A message whose type is outside 0..69 is answered with \<open>EBADCALL\<close>, and one of 0..68 that is none of
  the calls MM implements (exit, fork, wait, brk, getuid, setuid, getpid, ptrace, alarm, pause, kill, setgid, getgid, signal, exec, and KSIG and
  BRK2 of the system) with \<open>EINVAL\<close>, without any other effect; but type 69 is below \<open>NCALLS\<close> and on the 68000 the call table
  has no entry for it, so MM calls through a null pointer. (The sender is a process in use that is not suspended in MM, which is what \<open>reply\<close> answers.)
\<close>

theorem mm_turn_bad_calls:
  assumes "m_source m = p" and "IN_USE \<in> flags_of s p" and "HANGING \<notin> flags_of s p"
  shows "(m_type m < 0 \<or> 70 \<le> m_type m \<longrightarrow>
      (\<exists>s'. mm_turn x m s = Done s' \<and> mproc_tab s' = mproc_tab s \<and> krn s' = krn s \<and> holes s' = holes s \<and>
         sent s' = sent s @ [Reply p EBADCALL (result2 s) (res_ptr s)])) \<and>
    (0 \<le> m_type m \<and> m_type m \<le> 68 \<and> m_type m \<notin> {1, 2, 7, 17, 20, 23, 24, 26, 27, 29, 37, 46, 47, 48, 59, 64, 66} \<longrightarrow>
      (\<exists>s'. mm_turn x m s = Done s' \<and> mproc_tab s' = mproc_tab s \<and> krn s' = krn s \<and> holes s' = holes s \<and>
         sent s' = sent s @ [Reply p EINVAL (result2 s) (res_ptr s)])) \<and>
    (m_type m = 69 \<longrightarrow> mm_turn x m s = Stuck)"
proof (intro conjI impI)
  assume t: "0 \<le> m_type m \<and> m_type m \<le> 68 \<and> m_type m \<notin> {1, 2, 7, 17, 20, 23, 24, 26, 27, 29, 37, 46, 47, 48, 59, 64, 66}"
  then have "nat (m_type m) < 69" and "nat (m_type m) \<notin> mm_calls" by (auto simp: nat_eq_iff)
  then have c: "call_vec x ! nat (m_type m) = pure_call no_sys" by (rule call_vec_unused)
  have l: "length (call_vec x) = 69" by (simp add: call_vec_def Let_def)
  show "\<exists>s'. mm_turn x m s = Done s' \<and> mproc_tab s' = mproc_tab s \<and> krn s' = krn s \<and> holes s' = holes s \<and>
      sent s' = sent s @ [Reply p EINVAL (result2 s) (res_ptr s)]"
    using assms t by (auto simp: mm_turn_def run_call_def get_work_def c l pure_call_def no_sys_def reply_def)
qed (use assms in \<open>auto simp: mm_turn_def run_call_def get_work_def call_vec_ksig reply_def\<close>)

theorem mm_turn_bad_calls_witness:
  "(\<exists>s'. mm_turn (\<lambda>_. Stuck) (no_request\<lparr>m_type := 70\<rparr>) demo_mm = Done s' \<and> sent s' = [Reply 2 EBADCALL 0 0]) \<and>
   mm_turn (\<lambda>_. Stuck) (no_request\<lparr>m_type := 69\<rparr>) demo_mm = Stuck"
proof -
  have d: "IN_USE \<in> flags_of demo_mm 2" "HANGING \<notin> flags_of demo_mm 2" "sent demo_mm = []" "result2 demo_mm = 0" "res_ptr demo_mm = 0"
    by (simp_all add: demo_mm_def no_mproc_def)
  have m: "m_source (no_request\<lparr>m_type := n\<rparr>) = 2" for n by (simp add: no_request_def)
  show ?thesis using mm_turn_bad_calls [OF m d(1,2), of 70 "\<lambda>_. Stuck"] mm_turn_bad_calls [OF m d(1,2), of 69 "\<lambda>_. Stuck"] d(3-5) by auto
qed

subsection \<open>Exec\<close>

lemma patch_done: "2 \<le> n \<Longrightarrow> patch n base ps = ps"
  by (cases ps) auto

lemma patch_part: "0 \<notin> set xs \<Longrightarrow> n < 2 \<Longrightarrow> patch n base (xs @ 0 # ys) = map (\<lambda>p. p + base) xs @ 0 # patch (n + 1) base ys"
  by (induction xs) auto

text \<open>
  C31. \<open>patch_ptr\<close> relocates the initial stack exactly: the argument count, the null pointers and everything behind the
  second null pointer (the strings) are left alone, and every pointer of \<open>argv\<close> and \<open>envp\<close> is moved by the base of the stack.
\<close>

theorem patch_ptr_relocates:
  assumes "0 \<notin> set argv" and "0 \<notin> set envp"
  shows "patch_ptr (nargs # argv @ [0] @ envp @ [0] @ strings) base =
    nargs # map (\<lambda>p. p + base) argv @ [0] @ map (\<lambda>p. p + base) envp @ [0] @ strings"
  using patch_part [OF assms(1), of 0 base "envp @ 0 # strings"] patch_part [OF assms(2), of 1 base strings] patch_done [of "Suc (Suc 0)" base strings]
  by (simp add: patch_ptr_def)

theorem patch_ptr_relocates_witness:
  "patch_ptr [1, 12, 0, 20, 0, 0x68690000, 0x413D3100] 0x1F00 = [1, 0x1F0C, 0, 0x1F14, 0, 0x68690000, 0x413D3100]"
  using patch_ptr_relocates [of "[12]" "[20]" 1 "[0x68690000, 0x413D3100]" "0x1F00"] by simp

definition hang_header :: "u32 list" where
  "hang_header = [0x04200301, 32, 0xFFFF0000, 4096, 0, 0, 8192, 0]"

lemma load_loop_zero: "load_loop (replicate n 0) fd p 0xFFFF0000 s = Stuck"
proof (induction n arbitrary: s)
  case 0
  then show ?case by (subst load_loop.simps) simp
next
  case (Suc n)
  have "load_loop (0 # replicate n 0) fd p 0xFFFF0000 s = load_loop (replicate n 0) fd p 0xFFFF0000 (s\<lparr>sent := sent s @ [Read_fs fd p 0]\<rparr>)"
    by (subst load_loop.simps) simp
  then show ?case by (simp add: Suc)
qed

lemma sint_small16: "unat (v :: u16) < 2 ^ 15 \<Longrightarrow> sint v = int (unat v)"
proof -
  assume "unat v < 2 ^ 15"
  then have "int (unat v) < int (2 ^ 15)" by (simp only: of_nat_less_iff)
  then have "uint v < 2 ^ 15" by simp
  moreover have "(- 32768 :: int) \<le> uint v" by (rule order_trans [of _ 0]) simp_all
  ultimately have "sint v = uint v" by (simp add: sint_uint signed_take_bit_int_eq_self_iff)
  then show ?thesis by simp
qed

lemma load_loop_ends:
  assumes "unat n < 2 ^ 31" and "unat n div 31744 < length ans"
  shows "\<exists>s'. load_loop ans fd p n s = Done s'"
  using assms
proof (induction ans arbitrary: n p s)
  case (Cons a ans)
  have sn: "sint n = int (unat n)" using Cons.prems(1) by (rule sint_small)
  show ?case
  proof (cases "unat n < 31744")
    case True
    have "unat (ucast n :: u16) = unat n" using True by (simp add: unsigned_ucast_eq take_bit_nat_eq_self)
    then have "sint (ucast n :: u16) = int (unat n)" using True by (subst sint_small16) simp_all
    moreover have "int (unat n) < 31744" using True by linarith
    then have "uint n < 31744" by simp
    ultimately show ?thesis using True by (subst load_loop.simps) (auto simp: Let_def sn, subst load_loop.simps, simp)
  next
    case False
    then have "unat (n - 31744) = unat n - 31744" by (simp add: unat_sub word_le_nat_alt)
    then have "unat (n - 31744) < 2 ^ 31" "unat (n - 31744) div 31744 < length ans"
      using Cons.prems False by (simp_all add: le_div_geq)
    moreover have "\<not> int (unat n) < 31744" using False by linarith
    then have "\<not> uint n < 31744" by simp
    ultimately show ?thesis using Cons.IH False by (subst load_loop.simps) (auto simp: Let_def sn)
  qed
qed simp

text \<open>
  C32. When \<open>load_seg\<close> ends. For a non-negative segment size it ends as soon as FS has answered one read per 31 K, whatever the
  answers are. But the sizes come from the header of the file, are signed longs and are not checked: with
  a size of -65536 (\<open>0xFFFF0000\<close>) the 16-bit \<open>bytes\<close> is 0, FS answers every read of 0 bytes with 0, and
  after any number of answers the loop is still waiting. \<open>read_header\<close> accepts such a header, with separate text and
  data, 4096 bytes of data and 8192 bytes in all.
\<close>

theorem load_seg_termination:
  "(\<forall>n. unat n < 2 ^ 31 \<and> unat n div 31744 < length (fs_ans s) \<longrightarrow> (\<exists>s'. load_seg fd p n s = Done s')) \<and>
   (\<forall>k. load_seg fd p 0xFFFF0000 (s\<lparr>fs_ans := replicate k 0\<rparr>) = Stuck) \<and>
   (\<exists>x. read_header hang_header 1 = (OK, x) \<and> x_text x = 0xFFFF0000)"
  using load_loop_zero load_loop_ends
  by (auto simp: load_seg_def read_header_def hang_header_def header_sizes_def to_clicks_def size_ok_def)

theorem load_seg_termination_witness:
  "\<exists>s'. load_seg 5 0 40000 (demo_mm\<lparr>fs_ans := [31744, 8256]\<rparr>) = Done s'"
proof -
  have "unat (40000 :: u32) < 2 ^ 31 \<and> unat (40000 :: u32) div 31744 < length (fs_ans (demo_mm\<lparr>fs_ans := [31744, 8256]\<rparr>))" by simp
  then show ?thesis using load_seg_termination [of "demo_mm\<lparr>fs_ans := [31744, 8256]\<rparr>" 5 0] by blast
qed

subsection \<open>Brk and the stack\<close>

abbreviation seg_top :: "mem_map \<Rightarrow> nat" where
  "seg_top m \<equiv> unat (mem_vir m) + unat (mem_len m)"

definition moved_stack :: "mem_map \<Rightarrow> u16 \<Rightarrow> mem_map" where
  "moved_stack ss low = (let d = mem_vir ss - low in ss\<lparr>mem_vir := low, mem_phys := mem_phys ss - d, mem_len := mem_len ss + d\<rparr>)"

text \<open>\<open>adjust\<close> in one line: where the stack now begins, and when the request is refused.\<close>

lemma adjust_cases:
  assumes "rmp \<noteq> INIT_PROC_NR"
  obtains (refused) "adjust rmp d sp s = (ENOMEM, s)"
  | (granted) low s' where "adjust rmp d sp s = (OK, s')"
    "low = min (mem_vir (mp_seg (mproc_tab s rmp) Seg_S)) (ucast (drop_bit 8 sp))"
    "uint (ucast (drop_bit 8 sp) :: u16) < uint (mem_vir (mp_seg (mproc_tab s rmp) Seg_S)) + uint (mem_len (mp_seg (mproc_tab s rmp) Seg_S))"
    "\<not> low < mem_vir (mp_seg (mproc_tab s rmp) Seg_D) + d"
    "mproc_tab s' = (mproc_tab s)(rmp := (mproc_tab s rmp)\<lparr>mp_seg := (mp_seg (mproc_tab s rmp))
       (Seg_D := (mp_seg (mproc_tab s rmp) Seg_D)\<lparr>mem_len := d\<rparr>, Seg_S := moved_stack (mp_seg (mproc_tab s rmp) Seg_S) low)\<rparr>)"
    "p_map (proc_tab (krn s) rmp) = mp_seg (mproc_tab s rmp) \<longrightarrow> p_map (proc_tab (krn s') rmp) = mp_seg (mproc_tab s' rmp)"
    "res_ptr s' = res_ptr s"
proof -
  define ss where "ss = mp_seg (mproc_tab s rmp) Seg_S"
  define dp where "dp = mp_seg (mproc_tab s rmp) Seg_D"
  define sc where "sc = (ucast (drop_bit 8 sp) :: u16)"
  have w: "word_of_int (uint (mem_vir ss) - uint sc) = mem_vir ss - sc" by simp
  have lt: "0 < uint (mem_vir ss) - uint sc \<longleftrightarrow> sc < mem_vir ss" by (simp add: word_less_def)
  have st: "(if sc < mem_vir ss then ss\<lparr>mem_vir := mem_vir ss - (mem_vir ss - sc), mem_phys := mem_phys ss - (mem_vir ss - sc), mem_len := mem_len ss + (mem_vir ss - sc)\<rparr>
      else ss) = moved_stack ss (min (mem_vir ss) sc)"
    by (auto simp: moved_stack_def min_def Let_def)
  have lo: "(if sc < mem_vir ss then sc else mem_vir ss) = min (mem_vir ss) sc" by (auto simp: min_def)
  note A = adjust_def [of rmp d sp s, unfolded Let_def ss_def [symmetric] dp_def [symmetric] sc_def [symmetric] lt w st lo size_ok_def]
  let ?s1 = "upd_mproc rmp (\<lambda>r. r\<lparr>mp_seg := (mp_seg (mproc_tab s rmp))(Seg_D := dp\<lparr>mem_len := d\<rparr>, Seg_S := moved_stack ss (min (mem_vir ss) sc))\<rparr>) s"
  show ?thesis
  proof (cases "uint (mem_vir ss) + uint (mem_len ss) \<le> uint sc \<or> min (mem_vir ss) sc < mem_vir dp + d + SAFETY_CLICKS \<or> min (mem_vir ss) sc < mem_vir dp + d")
    case True
    then show ?thesis using assms refused by (auto simp: A moved_stack_def Let_def)
  next
    case False
    let ?s' = "if d \<noteq> mem_len dp \<or> sc < mem_vir ss then sys_newmap rmp ?s1 else ?s1"
    have e: "adjust rmp d sp s = (OK, ?s')" using assms False by (simp add: A moved_stack_def Let_def)
    have same: "?s1 = s" if "\<not> (d \<noteq> mem_len dp \<or> sc < mem_vir ss)"
    proof -
      have "moved_stack ss (min (mem_vir ss) sc) = ss" "dp\<lparr>mem_len := d\<rparr> = dp" using that st by auto
      then show ?thesis by (simp add: upd_mproc_def ss_def dp_def)
    qed
    show ?thesis
    proof (rule granted [OF e refl])
      show "p_map (proc_tab (krn s) rmp) = mp_seg (mproc_tab s rmp) \<longrightarrow> p_map (proc_tab (krn ?s') rmp) = mp_seg (mproc_tab ?s' rmp)"
        using same by (auto simp: sys_newmap_def simp del: upd_mproc_simps)
    qed (use False in \<open>auto simp: ss_def [symmetric] dp_def [symmetric] sc_def [symmetric] sys_newmap_def\<close>)
  qed
qed

lemma click_of_signed: "(ucast (signed_drop_bit 8 (x :: u32)) :: u16) = ucast (drop_bit 8 x)"
  by (rule bit_eqI) (auto simp: bit_simps)

lemma moved_stack_end:
  assumes "low \<le> mem_vir ss" "seg_top ss < 2 ^ 16"
  shows "seg_top (moved_stack ss low) = seg_top ss"
proof -
  have d: "unat (mem_vir ss - low) = unat (mem_vir ss) - unat low" using assms(1) by (rule unat_sub)
  have l: "unat low \<le> unat (mem_vir ss)" using assms(1) by (simp add: word_le_nat_alt)
  have "unat (mem_len ss + (mem_vir ss - low)) = unat (mem_len ss) + (unat (mem_vir ss) - unat low)"
    using assms(2) l by (subst unat_add_below) (simp_all add: d)
  then show ?thesis using l by (simp add: moved_stack_def Let_def)
qed

text \<open>
  C29. \<open>brk\<close> never lets data and stack meet. For any process but INIT whose stack segment lies in the 64 K clicks of the address space, \<open>do_brk\<close> either
  refuses with \<open>ENOMEM\<close>, changing nothing but the result pointer, or succeeds: the data segment keeps its
  base and now ends at the break, rounded up to a click (with the address taken modulo 16 MB); it ends at or below
  the start of the stack; the stack still ends where it did and the click of the stack pointer is one of it, at or above its start and below its end; and the kernel's map follows MM's.
\<close>

theorem do_brk_keeps_segments_apart:
  assumes "mp s \<noteq> INIT_PROC_NR" and "who s = mp s" and "seg_top (mp_seg (mproc_tab s (mp s)) Seg_S) < 2 ^ 16"
    and "do_brk s = (r, s')" and "seg = mp_seg (mproc_tab s (mp s))" and "seg' = mp_seg (mproc_tab s' (mp s))"
  shows "r = ENOMEM \<and> mproc_tab s' = mproc_tab s \<and> krn s' = krn s \<and> res_ptr s' = -1 \<or>
    r = OK \<and> res_ptr s' = m_p1 (request_in s) \<and> mem_vir (seg' Seg_D) = mem_vir (seg Seg_D) \<and> mem_phys (seg' Seg_D) = mem_phys (seg Seg_D) \<and>
      mem_vir (seg' Seg_D) + mem_len (seg' Seg_D) = ucast (drop_bit 8 (m_p1 (request_in s) + 255)) \<and>
      seg_top (seg' Seg_D) \<le> unat (mem_vir (seg' Seg_S)) \<and> seg_top (seg' Seg_S) = seg_top (seg Seg_S) \<and>
      mem_vir (seg' Seg_S) \<le> ucast (drop_bit 8 (snd (do_getsp (who s) (krn s)))) \<and>
      unat (ucast (drop_bit 8 (snd (do_getsp (who s) (krn s)))) :: u16) < seg_top (seg' Seg_S) \<and>
      (p_map (proc_tab (krn s) (mp s)) = seg \<longrightarrow> p_map (proc_tab (krn s') (mp s)) = seg')"
proof (cases "ucast (drop_bit 8 (m_p1 (request_in s) + 255)) < mem_vir (seg Seg_D)")
  case True
  then show ?thesis using assms by (auto simp: do_brk_def Let_def click_of_signed)
next
  case False
  define nc where "nc = (ucast (drop_bit 8 (m_p1 (request_in s) + 255)) :: u16)"
  define d where "d = nc - mem_vir (seg Seg_D)"
  define sp where "sp = snd (do_getsp (who s) (krn s))"
  obtain q s1 where a: "adjust (mp s) d sp s = (q, s1)" by fastforce
  have e: "r = q" "s' = s1\<lparr>res_ptr := (if q = OK then m_p1 (request_in s) else -1)\<rparr>"
    using assms(4,5) False a by (auto simp: do_brk_def Let_def click_of_signed nc_def d_def sp_def)
  from assms(1) show ?thesis
  proof (cases rule: adjust_cases [of "mp s" d sp s])
    case refused
    then show ?thesis using e a by auto
  next
    case (granted low s2)
    have s2: "s2 = s1" "q = OK" using granted(1) a by simp_all
    have seg': "seg' Seg_D = (seg Seg_D)\<lparr>mem_len := d\<rparr>" "seg' Seg_S = moved_stack (seg Seg_S) low"
      using granted(5) e(2) s2 assms(5,6) by simp_all
    have le: "mem_vir (seg Seg_D) \<le> nc" using False by (simp add: nc_def not_less)
    then have "unat (mem_vir (seg Seg_D)) + unat d = unat nc" by (simp add: d_def unat_sub word_le_nat_alt)
    moreover have "nc \<le> low" using granted(4) assms(5) by (simp add: d_def not_less)
    moreover have "unat (ucast (drop_bit 8 sp) :: u16) < seg_top (seg Seg_S)"
    proof -
      have "int (unat (ucast (drop_bit 8 sp) :: u16)) < int (unat (mem_vir (seg Seg_S))) + int (unat (mem_len (seg Seg_S)))"
        using granted(3) unfolding assms(5) by (simp only: uint_nat)
      then show ?thesis by linarith
    qed
    moreover have "low \<le> mem_vir (seg Seg_S)" "low \<le> ucast (drop_bit 8 sp)" using granted(2) assms(5) by simp_all
    ultimately show ?thesis
      using e s2 granted(6) seg' moved_stack_end [of low "seg Seg_S"] assms(3,5,6)
      by (simp add: word_le_nat_alt nc_def [symmetric] d_def sp_def moved_stack_def Let_def)
  qed
qed

definition demo_map :: "segment \<Rightarrow> mem_map" where
  "demo_map g = (case g of Seg_T \<Rightarrow> \<lparr>mem_vir = 0, mem_phys = 200, mem_len = 1\<rparr> | Seg_D \<Rightarrow> \<lparr>mem_vir = 1, mem_phys = 201, mem_len = 1\<rparr>
     | Seg_S \<Rightarrow> \<lparr>mem_vir = 100, mem_phys = 300, mem_len = 1\<rparr>)"

definition demo_break :: mm where
  "demo_break = (upd_mproc 3 (\<lambda>r. r\<lparr>mp_seg := demo_map\<rparr>) demo_user)\<lparr>request_in := no_request\<lparr>m_p1 := 0x500\<rparr>,
     krn := upd_proc 3 (\<lambda>r. r\<lparr>p_map := demo_map, p_reg := (p_reg r)\<lparr>sf_reg := (sf_reg (p_reg r))(REG_SP := 0x6380)\<rparr>\<rparr>) demo_fork\<rparr>"

theorem do_brk_keeps_segments_apart_witness:
  "\<exists>s'. do_brk demo_break = (OK, s') \<and> mem_len (mp_seg (mproc_tab s' 3) Seg_D) = 4 \<and>
     seg_top (mp_seg (mproc_tab s' 3) Seg_D) \<le> unat (mem_vir (mp_seg (mproc_tab s' 3) Seg_S)) \<and> seg_top (mp_seg (mproc_tab s' 3) Seg_S) = 101"
proof -
  have d: "mp demo_break = 3" "who demo_break = 3" "mp_seg (mproc_tab demo_break 3) = demo_map" "m_p1 (request_in demo_break) = 0x500"
    "snd (do_getsp 3 (krn demo_break)) = 0x6380"
    by (simp_all add: demo_break_def demo_user_def no_request_def do_getsp_def proc_class_defs)
  obtain r s' where r: "do_brk demo_break = (r, s')" by fastforce
  have "r = OK" "mem_len (mp_seg (mproc_tab s' 3) Seg_D) = 4"
    using r by (auto simp: do_brk_def adjust_def size_ok_def d demo_map_def Let_def sys_newmap_def)
  then show ?thesis
    using do_brk_keeps_segments_apart [of demo_break r s' demo_map "mp_seg (mproc_tab s' 3)"] r by (auto simp: d demo_map_def)
qed

end
