(* ===== verification/FS_State.thy ===== *)
theory FS_State
  imports Minix_Prelude
begin

section \<open>FS: tables, devices and suspended processes (src/src/fs)\<close>

text \<open>
  The state of the file system server and the two lowest layers that work on it: the calls to the
  device tasks (\<open>device.c\<close>) and the bookkeeping of suspended processes (\<open>suspend\<close>, \<open>revive\<close> and
  \<open>release\<close> of \<open>pipe.c\<close>).

  \<^item> Every table of \<open>buf.h\<close>, \<open>inode.h\<close>, \<open>super.h\<close>, \<open>file.h\<close> and \<open>fproc.h\<close> is a function from slot numbers,
    and a pointer into a table is the number of the slot (\<open>None\<close> is the nil pointer).
  \<^item> \<open>long\<close> values (file positions, sizes and times) are \<open>int\<close>; \<open>as_long\<close> marks the places where an
    addition can leave 32 bits.
  \<^item> The tasks are outside of FS. \<open>disk\<close> is what the media hold, by task, minor device and block, and
    \<open>answers\<close> scripts what the tasks reply to the coming requests: \<open>Full\<close> for a request that is served
    completely, \<open>Partial r d\<close> for status \<open>r\<close> with \<open>d\<close> left in the destination, \<open>Locked\<close> when the task is
    itself trying to send a REVIVE message, \<open>Vector\<close> for the elements of a scattered request one by one
    (\<open>Some (n, d)\<close> for an element that still has \<open>n\<close> bytes to go). When the script is used up every
    request is served.
  \<^item> The kernel copies to and from user space: \<open>user_mem\<close> is the memory of the processes and
    \<open>copy_result\<close> what the kernel answers to a copy.
  \<^item> \<open>super_core\<close> and \<open>super_bytes\<close> are the layout of the part of a super block that has a meaning in memory
    only (pointers among others): how the bytes behind the disk part read as fields, and the reverse.
    They depend on where the tables are linked.
  \<^item> \<open>now\<close>, \<open>proc_times\<close> and \<open>kernel_boot\<close> are what the kernel says about the time, the times of a process and
    the root device; \<open>data_org\<close> are the words that \<open>build\<close> leaves at the start of the data of FS;
    \<open>missing_arg\<close> is what \<open>new_node\<close> finds in the place of the argument that \<open>do_mknod\<close> does not pass.
  \<^item> The reference counts (\<open>i_count\<close>, \<open>filp_count\<close>, \<open>susp_count\<close>) are integers: they are bounded by the number of
    table entries that can refer to a slot, far below 2 ^ 15.
\<close>

subsection \<open>Constants\<close>

abbreviation (input) BLOCK_SIZE :: nat where "BLOCK_SIZE \<equiv> 1024"
abbreviation (input) NR_BUFS :: nat where "NR_BUFS \<equiv> 30"
abbreviation (input) NR_BUF_HASH :: nat where "NR_BUF_HASH \<equiv> 32"
abbreviation (input) NR_INODES :: nat where "NR_INODES \<equiv> 32"
abbreviation (input) NR_SUPERS :: nat where "NR_SUPERS \<equiv> 5"
abbreviation (input) NR_FILPS :: nat where "NR_FILPS \<equiv> 64"
abbreviation (input) OPEN_MAX :: int where "OPEN_MAX \<equiv> 20"
abbreviation (input) FS_NR_PROCS :: int where "FS_NR_PROCS \<equiv> 32"
abbreviation (input) NO_DEV :: u16 where "NO_DEV \<equiv> 0xFFFF"
abbreviation (input) NO_BLOCK :: u16 where "NO_BLOCK \<equiv> 0"
abbreviation (input) NO_ZONE :: u16 where "NO_ZONE \<equiv> 0"
abbreviation (input) FS_PROC_NR :: int where "FS_PROC_NR \<equiv> 1"
abbreviation (input) MM_PROC :: int where "MM_PROC \<equiv> 0"
abbreviation (input) XPIPE :: int where "XPIPE \<equiv> -10"
abbreviation (input) XOPEN :: int where "XOPEN \<equiv> -11"
abbreviation (input) SUSPEND :: int where "SUSPEND \<equiv> -998"
abbreviation (input) END_OF_FILE :: int where "END_OF_FILE \<equiv> -104"
abbreviation (input) FS_OK :: int where "FS_OK \<equiv> 0"

abbreviation (input) TTY :: int where "TTY \<equiv> -9"
abbreviation (input) PRINTER :: int where "PRINTER \<equiv> -7"
abbreviation (input) WINCHESTER :: int where "WINCHESTER \<equiv> -6"
abbreviation (input) FLOPPY :: int where "FLOPPY \<equiv> -5"
abbreviation (input) MEM :: int where "MEM \<equiv> -4"
abbreviation (input) NULL_DEV :: nat where "NULL_DEV \<equiv> 3"

text \<open>Longs that an addition may carry out of their 32 bits.\<close>

definition as_long :: "int \<Rightarrow> int" where
  "as_long x = sint (word_of_int x :: u32)"

lemma as_long_small: "- (2 ^ 31) \<le> x \<Longrightarrow> x < 2 ^ 31 \<Longrightarrow> as_long x = x"
  by (simp add: as_long_def sint_uint uint_word_of_int_eq signed_take_bit_take_bit signed_take_bit_int_eq_self)

subsection \<open>Tables\<close>

type_synonym block_data = "nat \<Rightarrow> u8"

record buf =
  b_data :: block_data
  b_next :: "nat option"
  b_prev :: "nat option"
  b_hash :: "nat option"
  b_blocknr :: u16
  b_dev :: u16
  b_dirt :: bool
  b_count :: u8

record super_block =
  s_ninodes :: u16
  s_nzones :: u16
  s_imap_blocks :: u16
  s_zmap_blocks :: u16
  s_firstdatazone :: u16
  s_log_zone_size :: int
  s_max_size :: int
  s_magic :: u16
  s_imap :: "nat \<Rightarrow> nat option"
  s_zmap :: "nat \<Rightarrow> nat option"
  s_dev :: u16
  s_isup :: "nat option"
  s_imount :: "nat option"
  s_time :: int
  s_rd_only :: bool
  s_dirt :: bool

record inode =
  i_mode :: u16
  i_uid :: u16
  i_size :: int
  i_mtime :: int
  i_gid :: u8
  i_nlinks :: u8
  i_zone :: "nat \<Rightarrow> u16"
  i_atime :: int
  i_ctime :: int
  i_dev :: u16
  i_num :: u16
  i_count :: int
  i_dirt :: bool
  i_pipe :: bool
  i_mount :: bool
  i_seek :: bool
  i_update :: u8

record filp =
  filp_mode :: u16
  filp_flags :: int
  filp_count :: int
  filp_ino :: "nat option"
  filp_pos :: int

record fproc =
  fp_umask :: u16
  fp_workdir :: "nat option"
  fp_rootdir :: "nat option"
  fp_filp :: "int \<Rightarrow> nat option"
  fp_realuid :: u16
  fp_effuid :: u16
  fp_realgid :: u8
  fp_effgid :: u8
  fs_tty :: u16
  fp_fd :: int
  fp_buffer :: u32
  fp_nbytes :: int
  fp_suspended :: bool
  fp_revived :: bool
  fp_task :: int
  fp_pid :: int
  fp_pgrp :: int

subsection \<open>The environment and the whole state\<close>

datatype dev_answer = Full | Partial int block_data | Locked int int
  | Vector "(int \<times> block_data) option list"

text \<open>
  The fields of the outgoing message \<open>m1\<close> that FS fills in beside the type, and the messages it sends: replies,
  \<open>sys_kill\<close>, and at boot time the sizes for MM and for the RAM disk.
\<close>

record fs_out =
  o_i1 :: int
  o_i2 :: int
  o_l1 :: int
  o_t :: "nat \<Rightarrow> int"
  o_spek :: u32
  o_flags :: u32

datatype fs_msg = FS_reply int int fs_out | FS_kill int int | FS_brk2 u16 u16 u16 u16 | FS_ram_size int

text \<open>The views of the incoming message that \<open>param.h\<close> names: formats 1, 2 and 3 share their integers.\<close>

record fs_in =
  m_i1 :: int
  m_i2 :: int
  m_i3 :: int
  m_p1 :: u32
  m_p2 :: u32
  m_l1 :: int
  m_l2 :: int
  m2_p1 :: u32
  m3_p1 :: u32
  m3_ca1 :: "u8 list"

record fs =
  buf_tab :: "nat \<Rightarrow> buf"
  buf_hash :: "nat \<Rightarrow> nat option"
  front :: "nat option"
  rear :: "nat option"
  bufs_in_use :: int
  super_tab :: "nat \<Rightarrow> super_block"
  inode_tab :: "nat \<Rightarrow> inode"
  filp_tab :: "nat \<Rightarrow> filp"
  fproc_tab :: "int \<Rightarrow> fproc"
  fp :: int
  who :: int
  fs_call :: int
  request :: fs_in
  super_user :: bool
  dont_reply :: bool
  susp_count :: int
  reviving :: int
  rdahedpos :: int
  rdahed_inode :: "nat option"
  user_path :: "u8 list"
  err_code :: int
  rdwt_err :: int
  root_dev :: u16
  now :: int
  disk :: "int \<times> nat \<Rightarrow> u16 \<Rightarrow> block_data"
  answers :: "dev_answer list"
  user_mem :: "int \<Rightarrow> int \<Rightarrow> int \<Rightarrow> u8"
  copy_result :: "int \<Rightarrow> int \<Rightarrow> int \<Rightarrow> int \<Rightarrow> int"
  super_core :: "block_data \<Rightarrow> super_block"
  super_bytes :: "super_block \<Rightarrow> nat \<Rightarrow> u8"
  sent :: "fs_msg list"
  out_msg :: fs_out
  proc_times :: "int \<Rightarrow> nat \<Rightarrow> int"
  data_org :: "nat \<Rightarrow> u16"
  kernel_boot :: "u16 option"
  missing_arg :: int

definition upd_buf :: "nat \<Rightarrow> (buf \<Rightarrow> buf) \<Rightarrow> fs \<Rightarrow> fs" where
  "upd_buf i f s = s\<lparr>buf_tab := (buf_tab s)(i := f (buf_tab s i))\<rparr>"

definition upd_inode :: "nat \<Rightarrow> (inode \<Rightarrow> inode) \<Rightarrow> fs \<Rightarrow> fs" where
  "upd_inode i f s = s\<lparr>inode_tab := (inode_tab s)(i := f (inode_tab s i))\<rparr>"

definition upd_super :: "nat \<Rightarrow> (super_block \<Rightarrow> super_block) \<Rightarrow> fs \<Rightarrow> fs" where
  "upd_super i f s = s\<lparr>super_tab := (super_tab s)(i := f (super_tab s i))\<rparr>"

definition upd_filp :: "nat \<Rightarrow> (filp \<Rightarrow> filp) \<Rightarrow> fs \<Rightarrow> fs" where
  "upd_filp i f s = s\<lparr>filp_tab := (filp_tab s)(i := f (filp_tab s i))\<rparr>"

definition upd_fproc :: "int \<Rightarrow> (fproc \<Rightarrow> fproc) \<Rightarrow> fs \<Rightarrow> fs" where
  "upd_fproc i f s = s\<lparr>fproc_tab := (fproc_tab s)(i := f (fproc_tab s i))\<rparr>"

named_theorems fs_upd \<open>definitions of the updates of single table slots\<close>
declare upd_buf_def [fs_upd] upd_inode_def [fs_upd] upd_super_def [fs_upd] upd_filp_def [fs_upd]
  upd_fproc_def [fs_upd]

abbreviation buf_at :: "fs \<Rightarrow> nat \<Rightarrow> buf" where "buf_at s i \<equiv> buf_tab s i"
abbreviation ino :: "fs \<Rightarrow> nat \<Rightarrow> inode" where "ino s i \<equiv> inode_tab s i"
abbreviation caller :: "fs \<Rightarrow> fproc" where "caller s \<equiv> fproc_tab s (fp s)"

subsection \<open>Suspended processes (pipe.c)\<close>

definition reply :: "int \<Rightarrow> int \<Rightarrow> fs \<Rightarrow> fs" where
  "reply whom result s = s\<lparr>sent := sent s @ [FS_reply whom result (out_msg s)]\<rparr>"

definition suspend :: "int \<Rightarrow> fs \<Rightarrow> fs" where
  "suspend task s =
     (let s1 = (if task = XPIPE \<or> task = XOPEN then s\<lparr>susp_count := susp_count s + 1\<rparr> else s)
      in (upd_fproc (fp s1)
            (\<lambda>r. r\<lparr>fp_suspended := True, fp_fd := push_bit 8 (m_i1 (request s1)) OR fs_call s1,
                   fp_buffer := m_p1 (request s1), fp_nbytes := m_i2 (request s1), fp_task := - task\<rparr>) s1)
         \<lparr>dont_reply := True\<rparr>)"

definition revive :: "int \<Rightarrow> int \<Rightarrow> fs \<Rightarrow> fs outcome" where
  "revive proc_nr bytes s =
     (if proc_nr < 0 \<or> proc_nr \<ge> FS_NR_PROCS then Panic ''revive err''
      else let r = fproc_tab s proc_nr in
        if \<not> fp_suspended r \<or> fp_revived r then Done s
        else let task = - fp_task r in
          if task = XPIPE
          then Done ((upd_fproc proc_nr (\<lambda>r. r\<lparr>fp_revived := True\<rparr>) s)\<lparr>reviving := reviving s + 1\<rparr>)
          else let s1 = upd_fproc proc_nr (\<lambda>r. r\<lparr>fp_suspended := False\<rparr>) s in
            if task = XOPEN then Done (reply proc_nr (drop_bit 8 (fp_fd r)) s1)
            else Done (reply proc_nr bytes (upd_fproc proc_nr (\<lambda>r. r\<lparr>fp_nbytes := bytes\<rparr>) s1)))"

subsection \<open>Requests to the tasks (device.c)\<close>

definition major_of :: "u16 \<Rightarrow> nat" where
  "major_of dev = unat (drop_bit 8 dev AND 0xFF)"

definition minor_of :: "u16 \<Rightarrow> nat" where
  "minor_of dev = unat (dev AND 0xFF)"

abbreviation (input) max_major :: nat where "max_major \<equiv> 7"

definition dmap_task :: "nat \<Rightarrow> int" where
  "dmap_task major = (if major = 1 then MEM else if major = 2 then FLOPPY else if major = 3 then WINCHESTER
     else if major = 6 then PRINTER else TTY)"

definition find_dev :: "u16 \<Rightarrow> (nat \<times> nat \<times> int) outcome" where
  "find_dev dev =
     (if major_of dev = 0 \<or> major_of dev \<ge> max_major then Panic ''bad major dev''
      else Done (major_of dev, minor_of dev, dmap_task (major_of dev)))"

text \<open>
  The loop of \<open>rw_dev\<close>: as long as the task is locked, its REVIVE message is received and handled. The
  result is the answer of the task, or nothing when a CANCEL for the process that was just revived is
  given up.
\<close>

fun rw_dev :: "dev_answer list \<Rightarrow> int option \<Rightarrow> fs \<Rightarrow> (dev_answer option \<times> fs) outcome" where
  "rw_dev [] cancel s = Done (Some Full, s\<lparr>answers := []\<rparr>)"
| "rw_dev (Locked p st # as) cancel s =
     (if cancel = Some p then Done (None, s\<lparr>answers := as\<rparr>)
      else and_then (revive p st s) (rw_dev as cancel))"
| "rw_dev (a # as) cancel s = Done (Some a, s\<lparr>answers := as\<rparr>)"

text \<open>Which task and which minor device a request for \<open>dev\<close> reaches: \<open>/dev/tty\<close> is the caller's terminal.\<close>

definition unit_of :: "u16 \<Rightarrow> fs \<Rightarrow> int \<times> nat" where
  "unit_of dev s =
     (if major_of dev \<noteq> 5 then (dmap_task (major_of dev), minor_of dev)
      else if fs_tty (caller s) = 0 then (MEM, NULL_DEV)
      else (dmap_task (major_of (fs_tty (caller s))), minor_of (fs_tty (caller s))))"

datatype rw = READING | WRITING

definition store_block :: "int \<times> nat \<Rightarrow> u16 \<Rightarrow> block_data \<Rightarrow> fs \<Rightarrow> fs" where
  "store_block u b d s = s\<lparr>disk := (disk s)(u := (disk s u)(b := d))\<rparr>"

text \<open>The effect of an answer on a block that is read into, or written from, buffer \<open>bp\<close>.\<close>

definition transfer :: "rw \<Rightarrow> int \<times> nat \<Rightarrow> u16 \<Rightarrow> nat \<Rightarrow> dev_answer option \<Rightarrow> fs \<Rightarrow> fs" where
  "transfer rw u b bp a s =
     (case a of
        Some Full \<Rightarrow> (case rw of READING \<Rightarrow> upd_buf bp (\<lambda>r. r\<lparr>b_data := disk s u b\<rparr>) s
                       | WRITING \<Rightarrow> store_block u b (b_data (buf_tab s bp)) s)
      | Some (Partial r d) \<Rightarrow> (case rw of READING \<Rightarrow> upd_buf bp (\<lambda>r. r\<lparr>b_data := d\<rparr>) s
                       | WRITING \<Rightarrow> store_block u b d s)
      | _ \<Rightarrow> s)"

definition rep_status :: "int \<Rightarrow> dev_answer option \<Rightarrow> int" where
  "rep_status bytes a = (case a of Some (Partial r d) \<Rightarrow> r | _ \<Rightarrow> bytes)"

text \<open>\<open>dev_io\<close> for one block: the address is a buffer of FS, the position that of block \<open>b\<close>.\<close>

definition dev_io :: "rw \<Rightarrow> u16 \<Rightarrow> u16 \<Rightarrow> nat \<Rightarrow> fs \<Rightarrow> (int \<times> fs) outcome" where
  "dev_io rw dev b bp s =
     and_then (find_dev dev) (\<lambda>(major, minor, task).
       and_then (rw_dev (answers s) None s) (\<lambda>(a, s1).
         let s2 = transfer rw (unit_of dev s) b bp a s1;
             r = rep_status (int BLOCK_SIZE) a;
             s3 = (if r = SUSPEND then suspend task s2 else s2)
         in Done (r, s3)))"

text \<open>\<open>dev_io\<close> with \<open>SCATTERED_IO\<close>: the buffers of the vector in order. The result holds the \<open>io_nbytes\<close> that
  are left of each.\<close>

definition serve_one :: "rw \<Rightarrow> int \<times> nat \<Rightarrow> (int \<times> block_data) option \<Rightarrow> nat \<Rightarrow> fs \<Rightarrow> int \<times> fs" where
  "serve_one rw u a bp s =
     (let b = b_blocknr (buf_tab s bp)
      in case a of Some (n, d) \<Rightarrow> (n, transfer rw u b bp (Some (Partial n d)) s)
         | None \<Rightarrow> (0, transfer rw u b bp (Some Full) s))"

fun serve_vector :: "rw \<Rightarrow> int \<times> nat \<Rightarrow> (int \<times> block_data) option list \<Rightarrow> nat list \<Rightarrow> fs \<Rightarrow> int list \<times> fs" where
  "serve_vector rw u as [] s = ([], s)"
| "serve_vector rw u as (bp # bps) s =
     (let (n, s1) = serve_one rw u (case as of [] \<Rightarrow> None | a # _ \<Rightarrow> a) bp s;
          (ns, s2) = serve_vector rw u (tl as) bps s1
      in (n # ns, s2))"

definition answer_vector :: "rw \<Rightarrow> int \<times> nat \<Rightarrow> dev_answer option \<Rightarrow> nat list \<Rightarrow> fs \<Rightarrow> int list \<times> fs" where
  "answer_vector rw u a bps s =
     (case a of
        Some Full \<Rightarrow> serve_vector rw u [] bps s
      | Some (Vector as) \<Rightarrow> serve_vector rw u as bps s
      | _ \<Rightarrow> (map (\<lambda>_. int BLOCK_SIZE) bps, s))"

definition dev_io_scattered :: "rw \<Rightarrow> u16 \<Rightarrow> nat list \<Rightarrow> fs \<Rightarrow> (int list \<times> fs) outcome" where
  "dev_io_scattered rw dev bps s =
     and_then (find_dev dev) (\<lambda>(major, minor, task).
       and_then (rw_dev (answers s) None s) (\<lambda>(a, s1).
         let (ns, s2) = answer_vector rw (unit_of dev s) a bps s1
         in Done (ns, if rep_status 0 a = SUSPEND then suspend task s2 else s2)))"

end
