(* ===== verification/FS_Cache.thy ===== *)
theory FS_Cache
  imports FS_State
begin

section \<open>FS: the block cache (src/src/fs/cache.c)\<close>

text \<open>
  The buffers with their LRU chain and hash chains, and the routines that take, release, write back and
  invalidate them. A loop over a chain of buffers has \<open>NR_BUFS\<close> units of fuel: a chain that visits more
  buffers than there are is a cycle, and the routine is stuck.
\<close>

subsection \<open>Definitions\<close>

datatype search_mode = NORMAL | NO_READ | PREFETCH

abbreviation (input) WRITE_IMMED :: u8 where "WRITE_IMMED \<equiv> 0x40"
abbreviation (input) ONE_SHOT :: u8 where "ONE_SHOT \<equiv> 0x80"
abbreviation (input) INODE_BLOCK :: u8 where "INODE_BLOCK \<equiv> 0"
abbreviation (input) DIRECTORY_BLOCK :: u8 where "DIRECTORY_BLOCK \<equiv> 1"
abbreviation (input) INDIRECT_BLOCK :: u8 where "INDIRECT_BLOCK \<equiv> 2"
abbreviation (input) I_MAP_BLOCK :: u8 where "I_MAP_BLOCK \<equiv> 0xC3"
abbreviation (input) ZMAP_BLOCK :: u8 where "ZMAP_BLOCK \<equiv> 0xC4"
abbreviation (input) ZUPER_BLOCK :: u8 where "ZUPER_BLOCK \<equiv> 0xC5"
abbreviation (input) FULL_DATA_BLOCK :: u8 where "FULL_DATA_BLOCK \<equiv> 6"
abbreviation (input) PARTIAL_DATA_BLOCK :: u8 where "PARTIAL_DATA_BLOCK \<equiv> 7"

abbreviation nexts :: "fs \<Rightarrow> nat \<Rightarrow> nat option" where "nexts s \<equiv> b_next \<circ> buf_tab s"
abbreviation prevs :: "fs \<Rightarrow> nat \<Rightarrow> nat option" where "prevs s \<equiv> b_prev \<circ> buf_tab s"
abbreviation hashes :: "fs \<Rightarrow> nat \<Rightarrow> nat option" where "hashes s \<equiv> b_hash \<circ> buf_tab s"

definition hash_of :: "u16 \<Rightarrow> nat" where
  "hash_of block = unat (block AND 31)"

definition rw_block :: "nat \<Rightarrow> rw \<Rightarrow> fs \<Rightarrow> fs outcome" where
  "rw_block bp rw s =
     (let dev = b_dev (buf_tab s bp) in
      and_then
        (if dev = NO_DEV then Done s
         else and_then (dev_io rw dev (b_blocknr (buf_tab s bp)) bp s) (\<lambda>(r0, s1).
           if r0 = int BLOCK_SIZE then Done s1
           else let r = (if r0 \<ge> 0 then END_OF_FILE else r0);
                    s2 = upd_buf bp (\<lambda>x. x\<lparr>b_dev := NO_DEV\<rparr>) s1
                in Done (if rw = READING then s2\<lparr>rdwt_err := r\<rparr> else s2)))
        (\<lambda>s3. Done (upd_buf bp (\<lambda>x. x\<lparr>b_dirt := False\<rparr>) s3)))"

definition invalidate :: "u16 \<Rightarrow> fs \<Rightarrow> fs" where
  "invalidate device s =
     s\<lparr>buf_tab := (\<lambda>i. if i < NR_BUFS \<and> b_dev (buf_tab s i) = device then (buf_tab s i)\<lparr>b_dev := NO_DEV\<rparr>
                       else buf_tab s i)\<rparr>"

text \<open>\<open>put_block\<close>: out of the LRU chain, back in at one of its ends, and to the disk if it is important.\<close>

definition lru_remove :: "nat \<Rightarrow> fs \<Rightarrow> fs" where
  "lru_remove bp s =
     (let next_ptr = b_next (buf_tab s bp); prev_ptr = b_prev (buf_tab s bp);
          s1 = (case prev_ptr of Some p \<Rightarrow> upd_buf p (\<lambda>x. x\<lparr>b_next := next_ptr\<rparr>) s
                | None \<Rightarrow> s\<lparr>front := next_ptr\<rparr>)
      in (case next_ptr of Some n \<Rightarrow> upd_buf n (\<lambda>x. x\<lparr>b_prev := prev_ptr\<rparr>) s1
          | None \<Rightarrow> s1\<lparr>rear := prev_ptr\<rparr>))"

definition lru_push_front :: "nat \<Rightarrow> fs \<Rightarrow> fs" where
  "lru_push_front bp s =
     (let s1 = upd_buf bp (\<lambda>x. x\<lparr>b_prev := None, b_next := front s\<rparr>) s;
          s2 = (case front s1 of None \<Rightarrow> s1\<lparr>rear := Some bp\<rparr>
                | Some f \<Rightarrow> upd_buf f (\<lambda>x. x\<lparr>b_prev := Some bp\<rparr>) s1)
      in s2\<lparr>front := Some bp\<rparr>)"

definition lru_push_rear :: "nat \<Rightarrow> fs \<Rightarrow> fs" where
  "lru_push_rear bp s =
     (let s1 = upd_buf bp (\<lambda>x. x\<lparr>b_prev := rear s, b_next := None\<rparr>) s;
          s2 = (case rear s1 of None \<Rightarrow> s1\<lparr>front := Some bp\<rparr>
                | Some r \<Rightarrow> upd_buf r (\<lambda>x. x\<lparr>b_next := Some bp\<rparr>) s1)
      in s2\<lparr>rear := Some bp\<rparr>)"

definition relink :: "nat \<Rightarrow> u8 \<Rightarrow> fs \<Rightarrow> fs" where
  "relink bp block_type s =
     (let s1 = lru_remove bp s
      in if block_type AND ONE_SHOT \<noteq> 0 then lru_push_front bp s1 else lru_push_rear bp s1)"

definition put_block :: "nat option \<Rightarrow> u8 \<Rightarrow> fs \<Rightarrow> fs outcome" where
  "put_block bpo block_type s =
     (case bpo of None \<Rightarrow> Done s
      | Some bp \<Rightarrow>
        let s1 = upd_buf bp (\<lambda>x. x\<lparr>b_count := b_count x - 1\<rparr>) s in
        if b_count (buf_tab s1 bp) \<noteq> 0 then Done s1
        else
          let s2 = relink bp block_type (s1\<lparr>bufs_in_use := bufs_in_use s1 - 1\<rparr>)
          in and_then
               (if block_type AND WRITE_IMMED \<noteq> 0 \<and> b_dirt (buf_tab s2 bp) \<and> b_dev (buf_tab s2 bp) \<noteq> NO_DEV
                then rw_block bp WRITING s2 else Done s2)
               (\<lambda>s3. Done (if block_type = ZUPER_BLOCK then upd_buf bp (\<lambda>x. x\<lparr>b_dev := NO_DEV\<rparr>) s3 else s3)))"

text \<open>
  \<open>rw_scattered\<close>: the vector is sorted with Shell's method on the block numbers. \<open>shell_gap\<close> is the loop
  that finds the first gap, \<open>sift\<close> the innermost loop, which moves one buffer down by steps of the gap.
\<close>

function shell_gap :: "nat \<Rightarrow> nat \<Rightarrow> nat" where
  "shell_gap n gap = (let g = 3 * gap + 1 in if g \<le> n then shell_gap n g else g)"
  by pat_completeness auto
termination by (relation "measure (\<lambda>(n, gap). n - gap)") auto

fun sift :: "(nat \<Rightarrow> u16) \<Rightarrow> nat \<Rightarrow> nat \<Rightarrow> nat list \<Rightarrow> nat list" where
  "sift key gap i q =
     (if key (q ! i) > key (q ! (i + gap))
      then let q1 = q[i := q ! (i + gap), i + gap := q ! i]
           in if 0 < gap \<and> gap \<le> i then sift key gap (i - gap) q1 else q1
      else q)"

definition shell_pass :: "(nat \<Rightarrow> u16) \<Rightarrow> nat \<Rightarrow> nat list \<Rightarrow> nat list" where
  "shell_pass key gap q = fold (\<lambda>j q. sift key gap (j - gap) q) [gap..<length q] q"

function shell_loop :: "(nat \<Rightarrow> u16) \<Rightarrow> nat \<Rightarrow> nat list \<Rightarrow> nat list" where
  "shell_loop key gap q =
     (if gap \<le> 1 then q else let g = gap div 3 in shell_loop key g (shell_pass key g q))"
  by pat_completeness auto
termination by (relation "measure (\<lambda>(key, gap, q). gap)") auto

definition shell_sort :: "(nat \<Rightarrow> u16) \<Rightarrow> nat list \<Rightarrow> nat list" where
  "shell_sort key q = shell_loop key (shell_gap (length q) 1) q"

definition harvest :: "rw \<Rightarrow> u16 \<Rightarrow> nat \<times> int \<Rightarrow> fs \<Rightarrow> fs outcome" where
  "harvest rw dev = (\<lambda>(bp, left) s.
     case rw of
       READING \<Rightarrow> put_block (Some bp) PARTIAL_DATA_BLOCK
                    (if left = 0 then upd_buf bp (\<lambda>x. x\<lparr>b_dev := dev\<rparr>) s else s)
     | WRITING \<Rightarrow> Done (upd_buf bp (\<lambda>x. x\<lparr>b_dirt := False\<rparr>)
                    (if left \<noteq> 0 then upd_buf bp (\<lambda>x. x\<lparr>b_dev := NO_DEV\<rparr>) s else s)))"

definition rw_scattered :: "u16 \<Rightarrow> nat list \<Rightarrow> rw \<Rightarrow> fs \<Rightarrow> fs outcome" where
  "rw_scattered dev bufq rw s =
     (if bufq = [] then Done s
      else if length bufq > NR_BUFS then Panic ''Too much scattered i/o''
      else let q = shell_sort (\<lambda>i. b_blocknr (buf_tab s i)) bufq in
        and_then (dev_io_scattered rw dev q s) (\<lambda>(left, s1). seq_all (harvest rw dev) (zip q left) s1))"

definition flushall :: "u16 \<Rightarrow> fs \<Rightarrow> fs outcome" where
  "flushall dev s =
     rw_scattered dev (filter (\<lambda>i. b_dirt (buf_tab s i) \<and> b_dev (buf_tab s i) = dev) [0..<NR_BUFS]) WRITING s"

text \<open>\<open>get_block\<close>: the search of the hash chain, then the oldest free buffer in a new place.\<close>

definition hash_search :: "u16 \<Rightarrow> u16 \<Rightarrow> fs \<Rightarrow> nat option outcome" where
  "hash_search dev block s =
     (if dev = NO_DEV then Done None
      else case chain_find (hashes s) (\<lambda>i. b_blocknr (buf_tab s i) = block \<and> b_dev (buf_tab s i) = dev)
                  NR_BUFS None (buf_hash s (hash_of block)) of
             Some (prev, r) \<Rightarrow> Done r
           | None \<Rightarrow> Stuck)"

definition oldest_free :: "fs \<Rightarrow> nat outcome" where
  "oldest_free s =
     (if front s = None then Stuck
      else case chain_find (nexts s) (\<lambda>i. b_count (buf_tab s i) = 0) NR_BUFS None (front s) of
             Some (prev, Some bp) \<Rightarrow> Done bp
           | Some (prev, None) \<Rightarrow> Panic ''No free buffer''
           | None \<Rightarrow> Stuck)"

definition hash_remove :: "nat \<Rightarrow> fs \<Rightarrow> fs outcome" where
  "hash_remove bp s =
     (let h = hash_of (b_blocknr (buf_tab s bp)) in
      if buf_hash s h = Some bp then Done (s\<lparr>buf_hash := (buf_hash s)(h := b_hash (buf_tab s bp))\<rparr>)
      else if buf_hash s h = None then Stuck
      else case chain_find (hashes s) (\<lambda>i. b_hash (buf_tab s i) = Some bp \<or> b_hash (buf_tab s i) = None)
                  NR_BUFS None (buf_hash s h) of
             Some (prev, Some p) \<Rightarrow>
               Done (if b_hash (buf_tab s p) = None then s
                     else upd_buf p (\<lambda>x. x\<lparr>b_hash := b_hash (buf_tab s bp)\<rparr>) s)
           | _ \<Rightarrow> Stuck)"

definition hash_insert :: "u16 \<Rightarrow> u16 \<Rightarrow> nat \<Rightarrow> fs \<Rightarrow> fs" where
  "hash_insert dev block bp s =
     (let h = hash_of block in
      (upd_buf bp (\<lambda>x. x\<lparr>b_dev := dev, b_blocknr := block, b_count := b_count x + 1,
                         b_hash := buf_hash s h\<rparr>) s)
        \<lparr>buf_hash := (buf_hash s)(h := Some bp)\<rparr>)"

definition flush_victim :: "nat \<Rightarrow> fs \<Rightarrow> fs outcome" where
  "flush_victim bp s = (if b_dev (buf_tab s bp) \<noteq> NO_DEV \<and> b_dirt (buf_tab s bp)
     then flushall (b_dev (buf_tab s bp)) s else Done s)"

definition fill_block :: "u16 \<Rightarrow> u16 \<Rightarrow> search_mode \<Rightarrow> nat \<Rightarrow> fs \<Rightarrow> (nat \<times> fs) outcome" where
  "fill_block dev block only_search bp s =
     (let s1 = hash_insert (if only_search = PREFETCH then NO_DEV else dev) block bp s in
      and_then (if dev \<noteq> NO_DEV \<and> only_search = NORMAL then rw_block bp READING s1 else Done s1) (\<lambda>s2.
      Done (bp, s2)))"

definition get_block :: "u16 \<Rightarrow> u16 \<Rightarrow> search_mode \<Rightarrow> fs \<Rightarrow> (nat \<times> fs) outcome" where
  "get_block dev block only_search s =
     and_then (hash_search dev block s) (\<lambda>found.
       case found of
         Some bp \<Rightarrow>
           let s1 = (if b_count (buf_tab s bp) = 0 then s\<lparr>bufs_in_use := bufs_in_use s + 1\<rparr> else s)
           in Done (bp, upd_buf bp (\<lambda>x. x\<lparr>b_count := b_count x + 1\<rparr>) s1)
       | None \<Rightarrow>
           if bufs_in_use s = int NR_BUFS then Panic ''All buffers in use''
           else and_then (oldest_free s) (\<lambda>bp.
             and_then (hash_remove bp (s\<lparr>bufs_in_use := bufs_in_use s + 1\<rparr>)) (\<lambda>s1.
             and_then (flush_victim bp s1) (fill_block dev block only_search bp))))"

text \<open>\<open>zero_block\<close> of \<open>write.c\<close> and the start-up of the pool, \<open>buf_pool\<close> of \<open>main.c\<close>.\<close>

definition zero_block :: "nat \<Rightarrow> fs \<Rightarrow> fs" where
  "zero_block bp s = upd_buf bp (\<lambda>x. x\<lparr>b_data := (\<lambda>k. if k < BLOCK_SIZE then 0 else b_data x k), b_dirt := True\<rparr>) s"

definition buf_pool :: "fs \<Rightarrow> fs" where
  "buf_pool s =
     (let tab = (\<lambda>i. if i < NR_BUFS
                     then (buf_tab s i)\<lparr>b_blocknr := NO_BLOCK, b_dev := NO_DEV,
                            b_next := (if i = NR_BUFS - 1 then None else Some (i + 1)),
                            b_prev := (if i = 0 then None else Some (i - 1)),
                            b_hash := (if i = NR_BUFS - 1 then None else Some (i + 1))\<rparr>
                     else buf_tab s i)
      in s\<lparr>bufs_in_use := 0, front := Some 0, rear := Some (NR_BUFS - 1), buf_tab := tab,
           buf_hash := (buf_hash s)(hash_of NO_BLOCK := Some 0)\<rparr>)"

end
