(* ===== verification/FS_Cache_Inv.thy ===== *)
theory FS_Cache_Inv
  imports FS_Cache "HOL-Library.Multiset"
begin

section \<open>FS: the chains of the block cache\<close>

text \<open>
  The sort of the I/O vector, the doubly linked LRU chain and the hash chains under every operation of the
  cache, whatever the tasks answer. \<open>shape_le\<close> collects what I/O can do to the buffers; \<open>cache_ok\<close> is the
  invariant, \<open>get_block_cases\<close> and \<open>put_block_cases\<close> are the case rules that the proofs share, and
  \<open>cache_run_ok\<close> is the property over all runs.
\<close>

subsection \<open>The sort of the I/O vector\<close>

declare sift.simps [simp del] shell_loop.simps [simp del] shell_gap.simps [simp del]

definition sorted_upto :: "('a \<Rightarrow> 'b::linorder) \<Rightarrow> 'a list \<Rightarrow> nat \<Rightarrow> bool" where
  "sorted_upto key q n \<longleftrightarrow> (\<forall>b < n. \<forall>a < b. key (q ! a) \<le> key (q ! b))"

lemma mset_swap_at:
  "i < length q \<Longrightarrow> j < length q \<Longrightarrow> mset (q[i := q ! j, j := q ! i]) = mset q"
  by (rule mset_swap)

lemma sift_mset:
  "i + gap < length q \<Longrightarrow> mset (sift key gap i q) = mset q \<and> length (sift key gap i q) = length q"
proof (induction key gap i q rule: sift.induct)
  case (1 key gap i q)
  let ?q = "q[i := q ! (i + gap), i + gap := q ! i]"
  have m: "mset ?q = mset q" using 1(2) by (intro mset_swap) simp_all
  show ?case
  proof (cases "key (q ! i) > key (q ! (i + gap)) \<and> 0 < gap \<and> gap \<le> i")
    case True
    then have "mset (sift key gap (i - gap) ?q) = mset ?q \<and> length (sift key gap (i - gap) ?q) = length ?q"
      using 1(2) by (intro 1(1)) auto
    then show ?thesis using True m by (subst (1 2) sift.simps) (simp add: Let_def)
  next
    case False
    then show ?thesis using m by (subst (1 2) sift.simps) (auto simp: Let_def)
  qed
qed

text \<open>
  The innermost loop with gap 1 is the insertion of an element into a sorted prefix: \<open>sorted_but\<close> says
  that the prefix is sorted apart from position \<open>k\<close>, whose element is not greater than what follows.
\<close>

definition sorted_but :: "nat \<Rightarrow> ('a \<Rightarrow> 'b::linorder) \<Rightarrow> 'a list \<Rightarrow> nat \<Rightarrow> bool" where
  "sorted_but k key q n \<longleftrightarrow>
     (\<forall>b < n. \<forall>a < b. a \<noteq> k \<longrightarrow> b \<noteq> k \<longrightarrow> key (q ! a) \<le> key (q ! b)) \<and>
     (\<forall>b < n. k < b \<longrightarrow> key (q ! k) \<le> key (q ! b))"

lemma sorted_but_stop:
  assumes "sorted_but k key q n" and "k = 0 \<or> key (q ! (k - 1)) \<le> key (q ! k)"
  shows "sorted_upto key q n"
  unfolding sorted_upto_def
proof (intro allI impI)
  fix b a
  assume h: "b < n" "a < b"
  consider "b = k" | "a = k" | "a \<noteq> k" "b \<noteq> k" by blast
  then show "key (q ! a) \<le> key (q ! b)"
  proof cases
    case 1
    have "key (q ! a) \<le> key (q ! (k - 1))" using assms(1) h 1
      by (cases "a = k - 1") (auto simp: sorted_but_def)
    then show ?thesis using assms(2) 1 h by auto
  qed (use assms(1) h in \<open>auto simp: sorted_but_def\<close>)
qed

lemma sorted_but_swap:
  assumes "sorted_but (Suc i) key q n" and "Suc i < n" and "n \<le> length q" and "key (q ! i) > key (q ! Suc i)"
  shows "sorted_but i key (q[i := q ! Suc i, Suc i := q ! i]) n"
proof -
  let ?q = "q[i := q ! Suc i, Suc i := q ! i]"
  have l: "i < length q" "Suc i < length q" using assms(2,3) by simp_all
  have q: "?q ! x = (if x = Suc i then q ! i else if x = i then q ! Suc i else q ! x)" for x
    using l by (simp add: nth_list_update)
  show ?thesis
    unfolding sorted_but_def q using assms(1,4) l assms(2)
    by (auto simp: sorted_but_def less_Suc_eq intro: order.strict_implies_order)
qed

lemma sift_inserts:
  "sorted_but (Suc i) key q n \<Longrightarrow> Suc i < n \<Longrightarrow> n \<le> length q \<Longrightarrow> sorted_upto key (sift key 1 i q) n"
proof (induction i arbitrary: q)
  case 0
  then show ?case
    by (subst sift.simps) (auto simp: not_less intro: sorted_but_stop sorted_but_swap)
next
  case (Suc i)
  have "sorted_upto key q n" if "\<not> key (q ! Suc i) > key (q ! Suc (Suc i))"
    using Suc.prems(1) that by (intro sorted_but_stop) auto
  moreover have "sorted_upto key (sift key 1 i (q[Suc i := q ! Suc (Suc i), Suc (Suc i) := q ! Suc i])) n"
    if "key (q ! Suc i) > key (q ! Suc (Suc i))"
    using Suc.prems that by (intro Suc.IH sorted_but_swap) auto
  ultimately show ?case by (subst sift.simps) auto
qed

lemma sift_keeps_rest: "i + gap < j \<Longrightarrow> sift key gap i q ! j = q ! j"
proof (induction key gap i q rule: sift.induct)
  case (1 key gap i q)
  then show ?case by (subst sift.simps) (auto simp: Let_def)
qed

lemma shell_pass_1: "sorted_upto key (shell_pass key 1 q) (length q)"
proof -
  have "n \<le> length q \<Longrightarrow> let r = fold (\<lambda>j q. sift key 1 (j - 1) q) [1..<n] q in
      length r = length q \<and> sorted_upto key r n" for n
  proof (induction n)
    case 0
    then show ?case by (simp add: sorted_upto_def)
  next
    case (Suc n)
    let ?r = "fold (\<lambda>j q. sift key 1 (j - 1) q) [1..<n] q"
    have r: "length ?r = length q" "sorted_upto key ?r n" using Suc by (auto simp: Let_def)
    show ?case
    proof (cases n)
      case 0
      then show ?thesis by (simp add: sorted_upto_def)
    next
      case (Suc m)
      have "sorted_but (Suc m) key ?r (Suc n)" using r(2) Suc
        by (auto simp: sorted_but_def sorted_upto_def less_Suc_eq)
      then have "sorted_upto key (sift key 1 m ?r) (Suc n)"
        using Suc \<open>Suc n \<le> length q\<close> r(1) by (intro sift_inserts) auto
      moreover have "length (sift key 1 m ?r) = length q"
        using sift_mset [of m 1 ?r key] Suc \<open>Suc n \<le> length q\<close> r(1) by simp
      ultimately show ?thesis using Suc by (simp add: Let_def)
    qed
  qed
  from this [of "length q"] show ?thesis by (simp add: shell_pass_def Let_def)
qed

lemma shell_pass_mset:
  "mset (shell_pass key gap q) = mset q \<and> length (shell_pass key gap q) = length q"
proof -
  have "set js \<subseteq> {gap..<length r} \<Longrightarrow>
      mset (fold (\<lambda>j q. sift key gap (j - gap) q) js r) = mset r \<and>
      length (fold (\<lambda>j q. sift key gap (j - gap) q) js r) = length r" for js r
  proof (induction js arbitrary: r)
    case (Cons j js)
    have s: "mset (sift key gap (j - gap) r) = mset r" "length (sift key gap (j - gap) r) = length r"
      using sift_mset [of "j - gap" gap r key] Cons.prems by auto
    from Cons.IH [of "sift key gap (j - gap) r"] Cons.prems s show ?case by simp
  qed simp
  then show ?thesis by (simp add: shell_pass_def)
qed

text \<open>The gaps are 1, 4, 13, 40, ..., so the last pass has gap 1.\<close>

inductive_set gaps :: "nat set" where
  one: "1 \<in> gaps"
| up: "g \<in> gaps \<Longrightarrow> 3 * g + 1 \<in> gaps"

lemma shell_gap_in: "g \<in> gaps \<Longrightarrow> shell_gap n g \<in> gaps - {1}"
proof (induction n g rule: shell_gap.induct)
  case (1 n g)
  have g: "g > 0" using 1(2) by cases simp_all
  have "3 * g + 1 \<in> gaps - {1}" using g gaps.up [OF 1(2)] by auto
  then show ?case using 1(1) by (subst shell_gap.simps) (auto simp: Let_def)
qed

lemma shell_loop_sorts:
  "g \<in> gaps \<Longrightarrow> mset (shell_loop key g q) = mset q \<and>
     (g \<noteq> 1 \<longrightarrow> sorted_upto key (shell_loop key g q) (length q))"
proof (induction g arbitrary: q rule: gaps.induct)
  case one
  then show ?case by (subst shell_loop.simps) simp
next
  case (up g)
  have g: "g > 0" using up(1) by cases simp_all
  have st: "shell_loop key (3 * g + 1) q = shell_loop key g (shell_pass key g q)"
  proof -
    have "(3 * g + 1) div 3 = g" by presburger
    then show ?thesis using g by (subst shell_loop.simps) (simp only: Let_def, simp)
  qed
  have l: "length (shell_pass key g q) = length q" by (simp add: shell_pass_mset)
  have "sorted_upto key (shell_loop key g (shell_pass key g q)) (length q)"
  proof (cases "g = 1")
    case True
    then show ?thesis using shell_pass_1 [of key q] by (subst shell_loop.simps) simp
  next
    case False
    then show ?thesis using up(2) [of "shell_pass key g q"] l by simp
  qed
  then show ?case using up(2) [of "shell_pass key g q"] st by (simp add: shell_pass_mset)
qed

lemma shell_sort_sorts:
  "mset (shell_sort key q) = mset q" "sorted (map key (shell_sort key q))"
proof -
  have g: "shell_gap (length q) 1 \<in> gaps - {1}" by (intro shell_gap_in gaps.one)
  then have m: "mset (shell_loop key (shell_gap (length q) 1) q) = mset q"
    and s: "sorted_upto key (shell_loop key (shell_gap (length q) 1) q) (length q)"
    using shell_loop_sorts by auto
  show "mset (shell_sort key q) = mset q" using m by (simp add: shell_sort_def)
  from m have "length (shell_loop key (shell_gap (length q) 1) q) = length q" by (metis size_mset)
  with s show "sorted (map key (shell_sort key q))"
    by (auto simp: shell_sort_def sorted_upto_def sorted_iff_nth_mono_less)
qed

subsection \<open>The LRU chain\<close>

text \<open>\<open>dll s xs\<close>: the forward chain from \<open>front\<close> visits \<open>xs\<close> and the backward chain from \<open>rear\<close> visits it in
  reverse.\<close>

definition dll :: "fs \<Rightarrow> nat list \<Rightarrow> bool" where
  "dll s xs \<longleftrightarrow> chain (nexts s) (front s) xs \<and> chain (prevs s) (rear s) (rev xs)"

definition lru_list :: "fs \<Rightarrow> nat list" where
  "lru_list s = chain_list (nexts s) NR_BUFS (front s)"

text \<open>What the pointer surgery on the LRU chain leaves alone.\<close>

definition unlinked_buf :: "buf \<Rightarrow> buf" where
  "unlinked_buf x = x\<lparr>b_next := None, b_prev := None\<rparr>"

definition lru_frame :: "fs \<Rightarrow> fs \<Rightarrow> bool" where
  "lru_frame s t \<longleftrightarrow> t\<lparr>buf_tab := buf_tab s, front := front s, rear := rear s\<rparr> = s \<and>
     (\<forall>i. unlinked_buf (buf_tab t i) = unlinked_buf (buf_tab s i))"

lemma lru_frame_refl: "lru_frame s s"
  by (simp add: lru_frame_def)

lemma lru_frame_trans: "lru_frame s t \<Longrightarrow> lru_frame t u \<Longrightarrow> lru_frame s u"
  unfolding lru_frame_def by (cases s, cases t, cases u) simp

lemma unlinked_eqD:
  assumes "unlinked_buf x = unlinked_buf y"
  shows "b_data x = b_data y" "b_hash x = b_hash y" "b_blocknr x = b_blocknr y" "b_dev x = b_dev y"
    "b_dirt x = b_dirt y" "b_count x = b_count y"
  using assms by (cases x, cases y, simp add: unlinked_buf_def)+

lemma lru_frame_bufs:
  assumes "lru_frame s t"
  shows "b_data (buf_tab t i) = b_data (buf_tab s i)" "b_hash (buf_tab t i) = b_hash (buf_tab s i)"
    "b_blocknr (buf_tab t i) = b_blocknr (buf_tab s i)" "b_dev (buf_tab t i) = b_dev (buf_tab s i)"
    "b_dirt (buf_tab t i) = b_dirt (buf_tab s i)" "b_count (buf_tab t i) = b_count (buf_tab s i)"
  using assms unlinked_eqD [of "buf_tab t i" "buf_tab s i"] by (simp_all add: lru_frame_def)

lemma lru_remove_frame: "lru_frame s (lru_remove bp s)"
  by (auto simp: lru_frame_def lru_remove_def unlinked_buf_def fs_upd Let_def split: option.split)

lemma lru_push_front_frame: "lru_frame s (lru_push_front bp s)"
  by (auto simp: lru_frame_def lru_push_front_def unlinked_buf_def fs_upd Let_def split: option.split)

lemma lru_push_rear_frame: "lru_frame s (lru_push_rear bp s)"
  by (auto simp: lru_frame_def lru_push_rear_def unlinked_buf_def fs_upd Let_def split: option.split)

lemma chain_snoc_end: "chain nx p (us @ [x]) \<Longrightarrow> nx x = None"
  using chain_last [of nx p "us @ [x]"] by simp

lemma chain_mid: "chain nx p (us @ x # y # vs) \<Longrightarrow> nx x = Some y"
  by (auto simp: chain_append)

lemma lru_remove_dll:
  assumes "dll s (us @ bp # vs)"
  shows "dll (lru_remove bp s) (us @ vs)"
proof -
  have n: "chain (nexts s) (front s) (us @ bp # vs)" and p: "chain (prevs s) (rear s) (rev vs @ bp # rev us)"
    using assms by (simp_all add: dll_def)
  show ?thesis
  proof (cases us rule: rev_cases)
    case Nil
    then have "b_prev (buf_tab s bp) = None" using p chain_snoc_end [of "prevs s" "rear s" "rev vs" bp] by simp
    moreover have "front s = Some bp" using n Nil by simp
    ultimately show ?thesis using n p Nil
    proof (cases vs)
      case Nil2: Nil
      then show ?thesis using n p Nil \<open>b_prev (buf_tab s bp) = None\<close>
        by (simp add: dll_def lru_remove_def fs_upd)
    next
      case (Cons v ws)
      have "chain ((prevs s)(v := None)) (rear s) (rev ws @ [v])"
        using chain_unlink [of "prevs s" "rear s" "rev ws" v bp "[]"] p Nil Cons \<open>b_prev (buf_tab s bp) = None\<close> by simp
      then show ?thesis using n Nil Cons \<open>b_prev (buf_tab s bp) = None\<close>
        by (simp add: dll_def lru_remove_def fs_upd)
    qed
  next
    case (snoc ts u)
    have pb: "b_prev (buf_tab s bp) = Some u" using p snoc chain_mid [of "prevs s" "rear s" "rev vs" bp u "rev ts"] by simp
    have c: "chain ((nexts s)(u := nexts s bp)) (front s) (ts @ u # vs)"
      using chain_unlink [of "nexts s" "front s" ts u bp vs] n snoc by simp
    show ?thesis
    proof (cases vs)
      case Nil
      then have "b_next (buf_tab s bp) = None" using n chain_snoc_end [of "nexts s" "front s" us bp] by simp
      then show ?thesis using c pb p Nil snoc by (simp add: dll_def lru_remove_def fs_upd)
    next
      case (Cons v ws)
      have nb: "b_next (buf_tab s bp) = Some v" using n Cons chain_mid [of "nexts s" "front s" us bp v ws] by simp
      have "chain ((prevs s)(v := Some u)) (rear s) (rev ws @ v # u # rev ts)"
        using chain_unlink [of "prevs s" "rear s" "rev ws" v bp "u # rev ts"] p snoc Cons pb by simp
      moreover have "u \<noteq> v" using chain_distinct [OF n] snoc Cons by auto
      then have "nexts (lru_remove bp s) = (nexts s)(u := Some v)" "prevs (lru_remove bp s) = (prevs s)(v := Some u)"
        "front (lru_remove bp s) = front s" "rear (lru_remove bp s) = rear s"
        using pb nb by (auto simp: fun_eq_iff lru_remove_def fs_upd Let_def)
      ultimately show ?thesis using c nb snoc Cons by (simp add: dll_def)
    qed
  qed
qed

lemma lru_push_front_dll:
  assumes "dll s xs" and "bp \<notin> set xs"
  shows "dll (lru_push_front bp s) (bp # xs)"
proof (cases xs)
  case Nil
  then show ?thesis using assms by (simp add: dll_def lru_push_front_def fs_upd)
next
  case (Cons f fs)
  have f: "front s = Some f" and r: "chain (prevs s) (rear s) (rev xs)" "rev xs \<noteq> []" "last (rev xs) = f"
    using assms Cons by (auto simp: dll_def)
  have "chain ((prevs s)(f := Some bp, bp := None)) (rear s) (rev xs @ [bp])"
    using chain_snoc [OF r(1,2), of bp] assms(2) r(3) by simp
  moreover have "f \<noteq> bp" "bp \<notin> set xs" using assms Cons by auto
  moreover have "chain (nexts s) (Some f) xs" using assms f by (simp add: dll_def)
  ultimately show ?thesis using f by (auto simp: dll_def lru_push_front_def fs_upd fun_upd_twist)
qed

lemma lru_push_rear_dll:
  assumes "dll s xs" and "bp \<notin> set xs"
  shows "dll (lru_push_rear bp s) (xs @ [bp])"
proof (cases xs rule: rev_cases)
  case Nil
  then show ?thesis using assms by (simp add: dll_def lru_push_rear_def fs_upd)
next
  case (snoc fs f)
  have r: "rear s = Some f" and n: "chain (nexts s) (front s) xs" "xs \<noteq> []" "last xs = f"
    using assms snoc by (auto simp: dll_def)
  have "chain ((nexts s)(f := Some bp, bp := None)) (front s) (xs @ [bp])"
    using chain_snoc [OF n(1,2), of bp] assms(2) n(3) by simp
  moreover have "f \<noteq> bp" using assms snoc by auto
  moreover have "chain (prevs s) (Some f) (rev xs)" using assms r by (simp add: dll_def)
  ultimately show ?thesis using r assms(2) by (auto simp: dll_def lru_push_rear_def fs_upd fun_upd_twist)
qed

subsection \<open>The invariant of the cache\<close>

text \<open>
  \<open>cache_but X k s\<close> is the invariant with the buffers \<open>X\<close> taken off their hash chains and \<open>k\<close> buffers
  counted in advance, as in the middle of \<open>get_block\<close>; \<open>cache_ok\<close> is the invariant between operations.
\<close>

definition disk_dev :: "u16 \<Rightarrow> bool" where
  "disk_dev dev \<longleftrightarrow> major_of dev \<in> {1, 2, 3}"

definition uniq :: "fs \<Rightarrow> bool" where
  "uniq s \<longleftrightarrow> (\<forall>i < NR_BUFS. \<forall>j < NR_BUFS. b_dev (buf_tab s i) \<noteq> NO_DEV \<longrightarrow>
     b_dev (buf_tab s i) = b_dev (buf_tab s j) \<longrightarrow> b_blocknr (buf_tab s i) = b_blocknr (buf_tab s j) \<longrightarrow> i = j)"

definition devs_ok :: "fs \<Rightarrow> bool" where
  "devs_ok s \<longleftrightarrow> (\<forall>i < NR_BUFS. b_dev (buf_tab s i) = NO_DEV \<or> disk_dev (b_dev (buf_tab s i)))"

definition in_use :: "fs \<Rightarrow> nat set" where
  "in_use s = {i. i < NR_BUFS \<and> b_count (buf_tab s i) \<noteq> 0}"

definition hash_rep :: "nat set \<Rightarrow> fs \<Rightarrow> bool" where
  "hash_rep X s \<longleftrightarrow> (\<forall>h < NR_BUF_HASH. \<exists>hs. chain (hashes s) (buf_hash s h) hs \<and>
     set hs = {i. i < NR_BUFS \<and> i \<notin> X \<and> hash_of (b_blocknr (buf_tab s i)) = h})"

definition cache_but :: "nat set \<Rightarrow> int \<Rightarrow> fs \<Rightarrow> bool" where
  "cache_but X k s \<longleftrightarrow> (\<exists>xs. dll s xs \<and> set xs = {..<NR_BUFS}) \<and> hash_rep X s \<and> uniq s \<and> devs_ok s \<and>
     bufs_in_use s = int (card (in_use s)) + k"

definition cache_ok :: "fs \<Rightarrow> bool" where
  "cache_ok s \<longleftrightarrow> cache_but {} 0 s"

lemma hash_of_less [simp]: "hash_of b < NR_BUF_HASH"
proof -
  have "b AND 31 = take_bit 5 b" by (simp add: take_bit_eq_mask mask_eq_exp_minus_1)
  then have "unat (b AND 31) = take_bit 5 (unat b)" by (simp add: unsigned_take_bit_eq)
  then show ?thesis using take_bit_nat_less_exp [of 5 "unat b"] by (simp add: hash_of_def)
qed

text \<open>
  \<open>shape_le s t\<close>: from \<open>s\<close> to \<open>t\<close> only the contents and the dirty bits of buffers have changed, and some
  buffers may have been invalidated. This is what I/O does to the cache, whatever the task answers.
\<close>

definition shape :: "buf \<Rightarrow> buf" where
  "shape x = x\<lparr>b_data := (\<lambda>_. 0), b_dirt := False, b_dev := 0\<rparr>"

definition shape_le :: "fs \<Rightarrow> fs \<Rightarrow> bool" where
  "shape_le s t \<longleftrightarrow> buf_hash t = buf_hash s \<and> front t = front s \<and> rear t = rear s \<and>
     bufs_in_use t = bufs_in_use s \<and>
     (\<forall>i. shape (buf_tab t i) = shape (buf_tab s i) \<and>
          b_dev (buf_tab t i) \<in> {b_dev (buf_tab s i), NO_DEV})"

lemma shapeD:
  assumes "shape x = shape y"
  shows "b_next x = b_next y" "b_prev x = b_prev y" "b_hash x = b_hash y" "b_blocknr x = b_blocknr y"
    "b_count x = b_count y"
  using assms by (cases x, cases y, simp add: shape_def)+

lemma shape_upd [simp]:
  "shape (x\<lparr>b_data := d\<rparr>) = shape x" "shape (x\<lparr>b_dirt := e\<rparr>) = shape x" "shape (x\<lparr>b_dev := v\<rparr>) = shape x"
  by (simp_all add: shape_def)

lemma shape_le_refl [simp, intro]: "shape_le s s"
  by (simp add: shape_le_def)

lemma shape_le_trans: "shape_le s t \<Longrightarrow> shape_le t u \<Longrightarrow> shape_le s u"
  unfolding shape_le_def by (metis insert_iff singletonD)

lemma shape_le_fields:
  assumes "shape_le s t"
  shows "nexts t = nexts s" "prevs t = prevs s" "hashes t = hashes s" "in_use t = in_use s"
    "b_blocknr (buf_tab t i) = b_blocknr (buf_tab s i)" "b_count (buf_tab t i) = b_count (buf_tab s i)"
    "buf_hash t = buf_hash s" "front t = front s" "rear t = rear s" "bufs_in_use t = bufs_in_use s"
  using assms shapeD [of "buf_tab t j" "buf_tab s j" for j]
  by (simp_all add: shape_le_def fun_eq_iff in_use_def)

lemma cache_but_shape_le:
  assumes "cache_but X k s" and "shape_le s t"
  shows "cache_but X k t"
proof -
  note f = shape_le_fields [OF assms(2)]
  have d: "b_dev (buf_tab t i) = NO_DEV \<or> b_dev (buf_tab t i) = b_dev (buf_tab s i)" for i
    using assms(2) by (auto simp: shape_le_def)
  have "uniq t" unfolding uniq_def f
  proof (intro allI impI)
    fix i j
    assume h: "i < NR_BUFS" "j < NR_BUFS" "b_dev (buf_tab t i) \<noteq> NO_DEV"
      "b_dev (buf_tab t i) = b_dev (buf_tab t j)" "b_blocknr (buf_tab s i) = b_blocknr (buf_tab s j)"
    then have "b_dev (buf_tab s i) \<noteq> NO_DEV" "b_dev (buf_tab s i) = b_dev (buf_tab s j)" using d [of i] d [of j] by metis+
    then show "i = j" using assms(1) h by (simp add: cache_but_def uniq_def)
  qed
  moreover have "devs_ok t" unfolding devs_ok_def
  proof (intro allI impI)
    fix i
    assume "i < NR_BUFS"
    then have "b_dev (buf_tab s i) = NO_DEV \<or> disk_dev (b_dev (buf_tab s i))"
      using assms(1) by (simp add: cache_but_def devs_ok_def)
    then show "b_dev (buf_tab t i) = NO_DEV \<or> disk_dev (b_dev (buf_tab t i))" using d [of i] by metis
  qed
  moreover have "hash_rep X t = hash_rep X s" "dll t xs = dll s xs" for xs
    by (simp_all only: hash_rep_def dll_def f)
  ultimately show ?thesis using assms(1) by (simp add: cache_but_def f)
qed

subsection \<open>I/O keeps the shape of the cache\<close>

definition same_cache :: "fs \<Rightarrow> fs \<Rightarrow> bool" where
  "same_cache s t \<longleftrightarrow> buf_tab t = buf_tab s \<and> buf_hash t = buf_hash s \<and> front t = front s \<and> rear t = rear s \<and>
     bufs_in_use t = bufs_in_use s \<and> disk t = disk s"

lemma same_cache_refl [simp]: "same_cache s s"
  by (simp add: same_cache_def)

lemma same_cache_trans: "same_cache s t \<Longrightarrow> same_cache t u \<Longrightarrow> same_cache s u"
  by (simp add: same_cache_def)

lemma same_cache_shape_le: "same_cache s t \<Longrightarrow> shape_le s t"
  by (simp add: same_cache_def shape_le_def)

lemma suspend_same: "same_cache s (suspend task s)"
  by (simp add: same_cache_def suspend_def fs_upd Let_def)

lemma revive_same: "revive p b s = Done t \<Longrightarrow> same_cache s t"
  by (auto simp: same_cache_def revive_def reply_def fs_upd Let_def split: if_splits)

lemma revive_not_stuck: "revive p b s \<noteq> Stuck"
  by (simp add: revive_def Let_def)

lemma rw_dev_same: "rw_dev as c s = Done (a, t) \<Longrightarrow> same_cache s t"
proof (induction as c s rule: rw_dev.induct)
  case (2 p st as c s)
  then show ?case
  proof (cases "c = Some p")
    case False
    then obtain u where "revive p st s = Done u" "rw_dev as c u = Done (a, t)"
      using 2(2) by (auto simp: outcome_simps)
    then show ?thesis using 2(1) [OF False] revive_same same_cache_trans by blast
  qed (auto simp: same_cache_def)
qed (auto simp: same_cache_def)

lemma rw_dev_not_stuck: "rw_dev as c s \<noteq> Stuck"
proof (induction as c s rule: rw_dev.induct)
  case (2 p st as c s)
  then show ?case using revive_not_stuck [of p st s] by (cases "revive p st s") auto
qed auto

lemma transfer_shape: "shape_le s (transfer rw u b bp a s)"
  by (auto simp: shape_le_def transfer_def store_block_def fs_upd split: option.split dev_answer.split rw.split)

lemma dev_io_shape: "dev_io rw dev b bp s = Done (r, t) \<Longrightarrow> shape_le s t"
  unfolding dev_io_def
  by (auto simp: outcome_simps Let_def find_dev_def split: if_splits
      intro: shape_le_trans [OF same_cache_shape_le [OF rw_dev_same] transfer_shape]
        shape_le_trans [OF shape_le_trans [OF same_cache_shape_le [OF rw_dev_same] transfer_shape]
          same_cache_shape_le [OF suspend_same]])

lemma and_then_stuck: "and_then m f = Stuck \<longleftrightarrow> m = Stuck \<or> (\<exists>x. m = Done x \<and> f x = Stuck)"
  by (cases m) auto

lemma dev_io_not_stuck: "dev_io rw dev b bp s \<noteq> Stuck"
  unfolding dev_io_def using rw_dev_not_stuck
  by (auto simp: and_then_stuck find_dev_def Let_def split: if_splits)

lemma serve_one_shape: "serve_one rw u a bp s = (n, t) \<Longrightarrow> shape_le s t"
  by (auto simp: serve_one_def Let_def transfer_shape split: option.splits)

lemma serve_vector_shape: "serve_vector rw u as bps s = (ns, t) \<Longrightarrow> shape_le s t \<and> length ns = length bps"
proof (induction bps arbitrary: as s ns t)
  case (Cons bp bps)
  obtain n s1 where n: "serve_one rw u (case as of [] \<Rightarrow> None | a # _ \<Rightarrow> a) bp s = (n, s1)" by (meson surj_pair)
  obtain ms s2 where m: "serve_vector rw u (tl as) bps s1 = (ms, s2)" by (meson surj_pair)
  have "ns = n # ms" "t = s2" using Cons.prems n m by simp_all
  then show ?case using Cons.IH [OF m] serve_one_shape [OF n] by (auto intro: shape_le_trans)
qed simp

lemma answer_vector_shape: "answer_vector rw u a bps s = (ns, t) \<Longrightarrow> shape_le s t \<and> length ns = length bps"
  by (auto simp: answer_vector_def split: option.splits dev_answer.splits dest: serve_vector_shape)

lemma dev_io_scattered_cases:
  assumes "dev_io_scattered rw dev bps s = Done (ns, t)"
  obtains a s1 s2 where "rw_dev (answers s) None s = Done (a, s1)"
    "answer_vector rw (unit_of dev s) a bps s1 = (ns, s2)" "same_cache s2 t" "a = Some Full \<Longrightarrow> t = s2"
proof -
  obtain a s1 task where r: "rw_dev (answers s) None s = Done (a, s1)"
    and t: "(let (ns, s2) = answer_vector rw (unit_of dev s) a bps s1
         in Done (ns, if rep_status 0 a = SUSPEND then suspend task s2 else s2)) = Done (ns, t)"
    using assms by (auto simp: dev_io_scattered_def outcome_simps find_dev_def split: if_splits)
  obtain ms s2 where m: "answer_vector rw (unit_of dev s) a bps s1 = (ms, s2)" by (meson surj_pair)
  have "ns = ms" "t = (if rep_status 0 a = SUSPEND then suspend task s2 else s2)" using t m by (simp_all add: Let_def)
  then show thesis using r m suspend_same by (intro that [of a s1 s2]) (auto simp: rep_status_def)
qed

lemma dev_io_scattered_shape:
  assumes "dev_io_scattered rw dev bps s = Done (ns, t)"
  shows "shape_le s t" "length ns = length bps"
proof -
  obtain a s1 s2 where a: "rw_dev (answers s) None s = Done (a, s1)"
    "answer_vector rw (unit_of dev s) a bps s1 = (ns, s2)" "same_cache s2 t"
    using assms by (rule dev_io_scattered_cases)
  show "shape_le s t"
    using same_cache_shape_le [OF rw_dev_same [OF a(1)]] answer_vector_shape [OF a(2)] same_cache_shape_le [OF a(3)]
    by (blast intro: shape_le_trans)
  show "length ns = length bps" using answer_vector_shape [OF a(2)] by simp
qed

lemma dev_io_scattered_not_stuck: "dev_io_scattered rw dev bps s \<noteq> Stuck"
  unfolding dev_io_scattered_def using rw_dev_not_stuck
  by (auto simp: and_then_stuck find_dev_def split: if_splits prod.splits)

subsection \<open>Blocks are written back without harm to the chains\<close>

lemma upd_buf_shape:
  "(\<And>x. shape (f x) = shape x) \<Longrightarrow> (\<And>x. b_dev (f x) \<in> {b_dev x, NO_DEV}) \<Longrightarrow> shape_le s (upd_buf bp f s)"
  by (simp add: shape_le_def fs_upd)

abbreviation clean :: "nat \<Rightarrow> fs \<Rightarrow> fs" where
  "clean bp \<equiv> upd_buf bp (\<lambda>x. x\<lparr>b_dirt := False\<rparr>)"

abbreviation drop_buf :: "nat \<Rightarrow> fs \<Rightarrow> fs" where
  "drop_buf bp \<equiv> upd_buf bp (\<lambda>x. x\<lparr>b_dev := NO_DEV\<rparr>)"

lemma rw_block_cases:
  assumes "rw_block bp rw s = Done t"
  obtains (none) "b_dev (buf_tab s bp) = NO_DEV" "t = clean bp s"
    | (full) s1 where "dev_io rw (b_dev (buf_tab s bp)) (b_blocknr (buf_tab s bp)) bp s = Done (int BLOCK_SIZE, s1)"
        "b_dev (buf_tab s bp) \<noteq> NO_DEV" "t = clean bp s1"
    | (failed) r s1 e where "dev_io rw (b_dev (buf_tab s bp)) (b_blocknr (buf_tab s bp)) bp s = Done (r, s1)"
        "r \<noteq> int BLOCK_SIZE" "t = clean bp ((drop_buf bp s1)\<lparr>rdwt_err := e\<rparr>) \<or> t = clean bp (drop_buf bp s1)"
proof (cases "b_dev (buf_tab s bp) = NO_DEV")
  case True
  then show ?thesis using assms none by (simp add: rw_block_def)
next
  case False
  then obtain r s1 where d: "dev_io rw (b_dev (buf_tab s bp)) (b_blocknr (buf_tab s bp)) bp s = Done (r, s1)"
    using assms by (auto simp: rw_block_def Let_def outcome_simps)
  show ?thesis
  proof (cases "r = int BLOCK_SIZE")
    case True
    then show ?thesis using assms d False by (intro full) (auto simp: rw_block_def)
  next
    case False2: False
    then show ?thesis using assms d False
      by (intro failed [OF d False2, where e = "if r \<ge> 0 then END_OF_FILE else r"])
        (simp add: rw_block_def Let_def split: if_splits)
  qed
qed

lemma shape_le_rdwt [simp]: "shape_le s (t\<lparr>rdwt_err := e\<rparr>) = shape_le s t"
  by (simp add: shape_le_def)

lemma upd_shape_le [simp]:
  "shape_le s t \<Longrightarrow> shape_le s (clean bp t)" "shape_le s t \<Longrightarrow> shape_le s (drop_buf bp t)"
  by (erule shape_le_trans, rule upd_buf_shape, simp_all)+

lemma rw_block_shape: "rw_block bp rw s = Done t \<Longrightarrow> shape_le s t"
proof (erule rw_block_cases)
  fix r s1 e
  assume "dev_io rw (b_dev (buf_tab s bp)) (b_blocknr (buf_tab s bp)) bp s = Done (r, s1)"
    and "t = clean bp ((drop_buf bp s1)\<lparr>rdwt_err := e\<rparr>) \<or> t = clean bp (drop_buf bp s1)"
  then show "shape_le s t" by (auto dest: dev_io_shape)
qed (auto dest: dev_io_shape)

lemma rw_block_not_stuck: "rw_block bp rw s \<noteq> Stuck"
  unfolding rw_block_def using dev_io_not_stuck by (auto simp: and_then_stuck Let_def)

lemma harvest_writing: "harvest WRITING dev x s = Done t \<Longrightarrow> shape_le s t"
  by (cases x) (auto simp: harvest_def shape_le_def fs_upd split: if_splits)

lemma harvest_writing_done: "\<exists>t. harvest WRITING dev x s = Done t"
  by (cases x) (simp add: harvest_def)

lemma harvest_all_writing:
  "\<exists>t. seq_all (harvest WRITING dev) xs s = Done t \<and> shape_le s t"
proof (induction xs arbitrary: s)
  case (Cons x xs)
  obtain u where u: "harvest WRITING dev x s = Done u" using harvest_writing_done by blast
  obtain t where "seq_all (harvest WRITING dev) xs u = Done t" "shape_le u t" using Cons by blast
  then show ?case using u harvest_writing [OF u] by (auto intro: shape_le_trans)
qed auto

lemma rw_scattered_writing:
  "rw_scattered dev q WRITING s = Done t \<Longrightarrow> shape_le s t"
  "rw_scattered dev q WRITING s \<noteq> Stuck"
proof -
  show "shape_le s t" if d: "rw_scattered dev q WRITING s = Done t"
  proof (cases "q = []")
    case False
    then obtain ns s1 where "dev_io_scattered WRITING dev (shell_sort (\<lambda>i. b_blocknr (buf_tab s i)) q) s = Done (ns, s1)"
      "seq_all (harvest WRITING dev) (zip (shell_sort (\<lambda>i. b_blocknr (buf_tab s i)) q) ns) s1 = Done t"
      using d by (auto simp: rw_scattered_def outcome_simps Let_def split: if_splits)
    then show ?thesis using harvest_all_writing dev_io_scattered_shape(1) by (metis outcome.inject(1) shape_le_trans)
  qed (use d in \<open>simp add: rw_scattered_def\<close>)
  show "rw_scattered dev q WRITING s \<noteq> Stuck"
  proof -
    have "seq_all (harvest WRITING dev) xs u \<noteq> Stuck" for xs u using harvest_all_writing [of dev xs u] by auto
    then show ?thesis
      by (auto simp: rw_scattered_def and_then_stuck Let_def dev_io_scattered_not_stuck)
  qed
qed

lemma flushall_shape: "flushall dev s = Done t \<Longrightarrow> shape_le s t"
  and flushall_not_stuck: "flushall dev s \<noteq> Stuck"
  unfolding flushall_def by (rule rw_scattered_writing(1), assumption, rule rw_scattered_writing(2))

subsection \<open>Finding, evicting and entering a buffer\<close>

lemma hash_rep_chain:
  assumes "hash_rep X s"
  obtains hs where "chain (hashes s) (buf_hash s (hash_of b)) hs" "length hs \<le> NR_BUFS"
    "set hs = {i. i < NR_BUFS \<and> i \<notin> X \<and> hash_of (b_blocknr (buf_tab s i)) = hash_of b}"
proof -
  obtain hs where h: "chain (hashes s) (buf_hash s (hash_of b)) hs"
    "set hs = {i. i < NR_BUFS \<and> i \<notin> X \<and> hash_of (b_blocknr (buf_tab s i)) = hash_of b}"
    using assms hash_of_less [of b] unfolding hash_rep_def by blast
  have "length hs \<le> card {..<NR_BUFS}" by (rule chain_length_le [OF h(1)]) (auto simp: h(2))
  with h that show thesis by simp
qed

lemma hash_search_cases:
  assumes "hash_rep {} s"
  obtains (hit) bp where "hash_search dev block s = Done (Some bp)" "dev \<noteq> NO_DEV" "bp < NR_BUFS"
        "b_dev (buf_tab s bp) = dev" "b_blocknr (buf_tab s bp) = block"
    | (miss) "hash_search dev block s = Done None"
        "dev \<noteq> NO_DEV \<Longrightarrow> \<forall>i < NR_BUFS. \<not> (b_dev (buf_tab s i) = dev \<and> b_blocknr (buf_tab s i) = block)"
proof (cases "dev = NO_DEV")
  case True
  then show ?thesis by (intro miss) (simp_all add: hash_search_def)
next
  case False
  let ?P = "\<lambda>i. b_blocknr (buf_tab s i) = block \<and> b_dev (buf_tab s i) = dev"
  obtain hs where h: "chain (hashes s) (buf_hash s (hash_of block)) hs" "length hs \<le> NR_BUFS"
    "set hs = {i. i < NR_BUFS \<and> i \<notin> {} \<and> hash_of (b_blocknr (buf_tab s i)) = hash_of block}"
    using assms by (rule hash_rep_chain)
  from h(1,2) show ?thesis
  proof (cases rule: chain_find_cases [where P = ?P and prev = None])
    case none
    then show ?thesis using h(3) False by (intro miss) (auto simp: hash_search_def)
  next
    case (some us x vs)
    have "x \<in> set hs" using some by simp
    then show ?thesis using some h(3) False by (intro hit [of x]) (auto simp: hash_search_def)
  qed
qed

lemma oldest_free_cases:
  assumes "dll s xs" and "set xs = {..<NR_BUFS}"
  obtains (free) us bp vs where "xs = us @ bp # vs" "\<forall>u \<in> set us. b_count (buf_tab s u) \<noteq> 0"
        "b_count (buf_tab s bp) = 0" "bp < NR_BUFS" "oldest_free s = Done bp"
    | (none) "in_use s = {..<NR_BUFS}" "oldest_free s = Panic ''No free buffer''"
proof -
  have c: "chain (nexts s) (front s) xs" using assms(1) by (simp add: dll_def)
  have "length xs \<le> card {..<NR_BUFS}" by (rule chain_length_le [OF c]) (simp_all add: assms(2))
  then have l: "length xs \<le> NR_BUFS" by simp
  have "0 \<in> set xs" by (simp add: assms(2))
  then have "xs \<noteq> []" by force
  then have f: "front s \<noteq> None" using c by (cases xs) auto
  from c l show thesis
  proof (cases rule: chain_find_cases [where P = "\<lambda>i. b_count (buf_tab s i) = 0" and prev = None])
    case none2: none
    then show ?thesis using f assms(2) by (intro none) (auto simp: oldest_free_def in_use_def)
  next
    case (some us x vs)
    have "x \<in> set xs" using some by simp
    then show ?thesis using some f assms(2) by (intro free [of us x vs]) (auto simp: oldest_free_def)
  qed
qed

text \<open>What the surgery on the hash chains leaves alone.\<close>

definition unhashed_buf :: "buf \<Rightarrow> buf" where
  "unhashed_buf x = x\<lparr>b_hash := None\<rparr>"

lemma unhashed_eqD:
  assumes "unhashed_buf x = unhashed_buf y"
  shows "b_data x = b_data y" "b_next x = b_next y" "b_prev x = b_prev y" "b_blocknr x = b_blocknr y"
    "b_dev x = b_dev y" "b_dirt x = b_dirt y" "b_count x = b_count y"
  using assms by (cases x, cases y, simp add: unhashed_buf_def)+

lemma unhashed_upd [simp]: "unhashed_buf (x\<lparr>b_hash := h\<rparr>) = unhashed_buf x"
  by (simp add: unhashed_buf_def)

definition hash_frame :: "fs \<Rightarrow> fs \<Rightarrow> bool" where
  "hash_frame s t \<longleftrightarrow> t\<lparr>buf_tab := buf_tab s, buf_hash := buf_hash s\<rparr> = s \<and>
     (\<forall>i. unhashed_buf (buf_tab t i) = unhashed_buf (buf_tab s i))"

lemma hash_frameD:
  assumes "hash_frame s t"
  shows "b_data (buf_tab t i) = b_data (buf_tab s i)" "b_blocknr (buf_tab t i) = b_blocknr (buf_tab s i)"
    "b_dev (buf_tab t i) = b_dev (buf_tab s i)" "b_dirt (buf_tab t i) = b_dirt (buf_tab s i)"
    "b_count (buf_tab t i) = b_count (buf_tab s i)" "nexts t = nexts s" "prevs t = prevs s"
  using assms unhashed_eqD [of "buf_tab t j" "buf_tab s j" for j] by (simp_all add: hash_frame_def fun_eq_iff)

lemma hash_frame_fields:
  assumes "hash_frame s t"
  shows "front t = front s" "rear t = rear s" "bufs_in_use t = bufs_in_use s" "disk t = disk s"
    "answers t = answers s" "fp t = fp s" "fproc_tab t = fproc_tab s"
proof -
  have "s = t\<lparr>buf_tab := buf_tab s, buf_hash := buf_hash s\<rparr>" using assms by (simp add: hash_frame_def)
  then have "front s = front (t\<lparr>buf_tab := buf_tab s, buf_hash := buf_hash s\<rparr>) \<and>
    rear s = rear (t\<lparr>buf_tab := buf_tab s, buf_hash := buf_hash s\<rparr>) \<and>
    bufs_in_use s = bufs_in_use (t\<lparr>buf_tab := buf_tab s, buf_hash := buf_hash s\<rparr>) \<and>
    disk s = disk (t\<lparr>buf_tab := buf_tab s, buf_hash := buf_hash s\<rparr>) \<and>
    answers s = answers (t\<lparr>buf_tab := buf_tab s, buf_hash := buf_hash s\<rparr>) \<and>
    fp s = fp (t\<lparr>buf_tab := buf_tab s, buf_hash := buf_hash s\<rparr>) \<and>
    fproc_tab s = fproc_tab (t\<lparr>buf_tab := buf_tab s, buf_hash := buf_hash s\<rparr>)" by metis
  then show "front t = front s" "rear t = rear s" "bufs_in_use t = bufs_in_use s" "disk t = disk s"
    "answers t = answers s" "fp t = fp s" "fproc_tab t = fproc_tab s" by simp_all
qed

lemma hash_remove_spec:
  assumes "hash_rep {} s" and "bp < NR_BUFS"
  obtains t where "hash_remove bp s = Done t" "hash_rep {bp} t" "hash_frame s t"
proof -
  let ?b = "b_blocknr (buf_tab s bp)"
  let ?h = "hash_of ?b"
  obtain hs where h: "chain (hashes s) (buf_hash s ?h) hs" "length hs \<le> NR_BUFS"
    "set hs = {i. i < NR_BUFS \<and> i \<notin> {} \<and> hash_of (b_blocknr (buf_tab s i)) = ?h}"
    using assms(1) by (rule hash_rep_chain)
  have "bp \<in> set hs" using h(3) assms(2) by simp
  then obtain us vs where hs: "hs = us @ bp # vs" by (meson split_list)
  have d: "distinct hs" using h(1) by (rule chain_distinct)
  have other: "\<exists>ks. chain (hashes s) (buf_hash s k) ks \<and>
      set ks = {i. i < NR_BUFS \<and> hash_of (b_blocknr (buf_tab s i)) = k}" if "k < NR_BUF_HASH" for k
    using assms(1) that unfolding hash_rep_def by simp
  show thesis
  proof (cases us rule: rev_cases)
    case Nil
    let ?t = "s\<lparr>buf_hash := (buf_hash s)(?h := b_hash (buf_tab s bp))\<rparr>"
    have "buf_hash s ?h = Some bp" using h(1) hs Nil by simp
    then have "hash_remove bp s = Done ?t" by (simp add: hash_remove_def)
    moreover have "hash_rep {bp} ?t" unfolding hash_rep_def
    proof (intro allI impI)
      fix k
      assume k: "k < NR_BUF_HASH"
      show "\<exists>ks. chain (hashes ?t) (buf_hash ?t k) ks \<and>
          set ks = {i. i < NR_BUFS \<and> i \<notin> {bp} \<and> hash_of (b_blocknr (buf_tab ?t i)) = k}"
      proof (cases "k = ?h")
        case True
        then show ?thesis using h(1,3) hs Nil d by (intro exI [of _ vs]) auto
      next
        case False
        then show ?thesis using other [OF k] by auto
      qed
    qed
    ultimately show ?thesis by (intro that) (auto simp: hash_frame_def)
  next
    case (snoc ts p)
    let ?t = "upd_buf p (\<lambda>x. x\<lparr>b_hash := b_hash (buf_tab s bp)\<rparr>) s"
    have hp: "b_hash (buf_tab s p) = Some bp" using h(1) hs snoc chain_mid [of "hashes s" "buf_hash s ?h" ts p bp vs] by simp
    have np: "\<forall>u \<in> set ts. \<not> (b_hash (buf_tab s u) = Some bp \<or> b_hash (buf_tab s u) = None)"
    proof
      fix u
      assume "u \<in> set ts"
      then obtain as bs where ts: "ts = as @ u # bs" by (meson split_list)
      define w where "w = hd (bs @ [p])"
      have "bs @ [p] = w # tl (bs @ [p])" by (simp add: w_def)
      then have "hs = as @ u # w # tl (bs @ [p]) @ bp # vs" using hs snoc ts by (metis append.assoc append_Cons append_Nil)
      then have "hashes s u = Some w" "w \<noteq> bp" using h(1) d chain_mid by (metis, auto)
      then show "\<not> (b_hash (buf_tab s u) = Some bp \<or> b_hash (buf_tab s u) = None)" by simp
    qed
    have "chain (hashes s) (buf_hash s ?h) (ts @ p # bp # vs)" using h(1) hs snoc by simp
    then have "chain_find (hashes s) (\<lambda>i. b_hash (buf_tab s i) = Some bp \<or> b_hash (buf_tab s i) = None)
        NR_BUFS None (buf_hash s ?h) = Some (last_opt None ts, Some p)"
      using np hp h(2) hs snoc by (intro chain_find_some [where vs = "bp # vs"]) auto
    moreover have "buf_hash s ?h \<noteq> Some bp" "buf_hash s ?h \<noteq> None"
      using h(1) hs snoc d by (cases ts; auto)+
    ultimately have "hash_remove bp s = Done ?t" using hp by (simp add: hash_remove_def Let_def)
    moreover have "hash_rep {bp} ?t" unfolding hash_rep_def
    proof (intro allI impI)
      fix k
      assume k: "k < NR_BUF_HASH"
      have bt: "b_blocknr (buf_tab ?t i) = b_blocknr (buf_tab s i)" for i by (simp add: fs_upd)
      have ht: "hashes ?t = (hashes s)(p := hashes s bp)" by (simp add: fs_upd)
      show "\<exists>ks. chain (hashes ?t) (buf_hash ?t k) ks \<and>
          set ks = {i. i < NR_BUFS \<and> i \<notin> {bp} \<and> hash_of (b_blocknr (buf_tab ?t i)) = k}"
      proof (cases "k = ?h")
        case True
        have "chain (hashes ?t) (buf_hash s ?h) (ts @ p # vs)"
          unfolding ht using h(1) hs snoc by (intro chain_unlink) simp
        moreover have "set (ts @ p # vs) = {i. i < NR_BUFS \<and> i \<notin> {bp} \<and> hash_of (b_blocknr (buf_tab s i)) = k}"
          using h(3) hs snoc d True by auto
        ultimately show ?thesis using True by (auto simp: bt fs_upd)
      next
        case False
        obtain ks where ks: "chain (hashes s) (buf_hash s k) ks"
          "set ks = {i. i < NR_BUFS \<and> hash_of (b_blocknr (buf_tab s i)) = k}" using other [OF k] by auto
        have "p \<in> set hs" using hs snoc by simp
        then have "p \<notin> set ks" using False h(3) ks(2) by auto
        then have "chain (hashes ?t) (buf_hash ?t k) ks" unfolding ht using ks(1) by (simp add: fs_upd)
        moreover have "bp \<notin> set ks" using False ks(2) by auto
        ultimately show ?thesis using ks(2) by (intro exI [of _ ks]) (auto simp: bt)
      qed
    qed
    ultimately show ?thesis by (intro that) (auto simp: hash_frame_def fs_upd)
  qed
qed

lemma hash_insert_rep:
  assumes "hash_rep {bp} s" and "bp < NR_BUFS"
  shows "hash_rep {} (hash_insert dev block bp s)"
  unfolding hash_rep_def
proof (intro allI impI)
  let ?t = "hash_insert dev block bp s"
  fix k
  assume k: "k < NR_BUF_HASH"
  obtain ks where ks: "chain (hashes s) (buf_hash s k) ks"
    "set ks = {i. i < NR_BUFS \<and> i \<notin> {bp} \<and> hash_of (b_blocknr (buf_tab s i)) = k}"
    using assms(1) k unfolding hash_rep_def by blast
  have ht: "hashes ?t = (hashes s)(bp := buf_hash s (hash_of block))" by (auto simp: hash_insert_def fs_upd Let_def)
  have bt: "b_blocknr (buf_tab ?t i) = (if i = bp then block else b_blocknr (buf_tab s i))" for i
    by (simp add: hash_insert_def fs_upd Let_def)
  have "bp \<notin> set ks" using ks(2) by simp
  show "\<exists>ks. chain (hashes ?t) (buf_hash ?t k) ks \<and>
      set ks = {i. i < NR_BUFS \<and> i \<notin> {} \<and> hash_of (b_blocknr (buf_tab ?t i)) = k}"
  proof (cases "k = hash_of block")
    case True
    have "buf_hash ?t k = Some bp" using True by (simp add: hash_insert_def fs_upd Let_def)
    then have "chain (hashes ?t) (buf_hash ?t k) (bp # ks)" unfolding ht using ks(1) True \<open>bp \<notin> set ks\<close> by simp
    then show ?thesis using ks(2) True assms(2) by (intro exI [of _ "bp # ks"]) (auto simp: bt)
  next
    case False
    have "buf_hash ?t k = buf_hash s k" using False by (simp add: hash_insert_def fs_upd Let_def)
    then have "chain (hashes ?t) (buf_hash ?t k) ks" unfolding ht using ks(1) \<open>bp \<notin> set ks\<close> by simp
    then show ?thesis using ks(2) False by (intro exI [of _ ks]) (auto simp: bt)
  qed
qed

subsection \<open>get_block\<close>

lemma dll_cong: "nexts t = nexts s \<Longrightarrow> prevs t = prevs s \<Longrightarrow> front t = front s \<Longrightarrow> rear t = rear s \<Longrightarrow> dll t xs = dll s xs"
  by (simp add: dll_def)

lemma finite_bufs_in_use [simp]: "finite (in_use s)"
  by (simp add: in_use_def)

lemma in_use_count: "card (in_use s) \<le> NR_BUFS"
proof -
  have "in_use s \<subseteq> {..<NR_BUFS}" by (auto simp: in_use_def)
  then have "card (in_use s) \<le> card {..<NR_BUFS}" by (intro card_mono) simp_all
  then show ?thesis by simp
qed

definition uncached :: "u16 \<Rightarrow> u16 \<Rightarrow> fs \<Rightarrow> bool" where
  "uncached dev block s \<longleftrightarrow>
     (\<forall>i < NR_BUFS. \<not> (b_dev (buf_tab s i) = dev \<and> b_blocknr (buf_tab s i) = block))"

lemma get_block_cases:
  assumes "cache_ok s"
  obtains (hit) bp where "dev \<noteq> NO_DEV" "bp < NR_BUFS" "b_dev (buf_tab s bp) = dev" "b_blocknr (buf_tab s bp) = block"
        "get_block dev block mode s = Done (bp, upd_buf bp (\<lambda>x. x\<lparr>b_count := b_count x + 1\<rparr>)
           (if b_count (buf_tab s bp) = 0 then s\<lparr>bufs_in_use := bufs_in_use s + 1\<rparr> else s))"
    | (full) "in_use s = {..<NR_BUFS}" "dev \<noteq> NO_DEV \<Longrightarrow> uncached dev block s"
        "get_block dev block mode s = Panic ''All buffers in use''"
    | (miss) us bp vs s1 where "dev \<noteq> NO_DEV \<Longrightarrow> uncached dev block s" "bp < NR_BUFS" "b_count (buf_tab s bp) = 0"
        "lru_list s = us @ bp # vs" "\<forall>u \<in> set us. b_count (buf_tab s u) \<noteq> 0"
        "hash_frame (s\<lparr>bufs_in_use := bufs_in_use s + 1\<rparr>) s1" "cache_but {bp} 1 s1"
        "get_block dev block mode s = and_then (flush_victim bp s1) (fill_block dev block mode bp)"
proof -
  have ok: "hash_rep {} s" "uniq s" "devs_ok s" "bufs_in_use s = int (card (in_use s))"
    using assms by (simp_all add: cache_ok_def cache_but_def)
  obtain xs where xs: "dll s xs" "set xs = {..<NR_BUFS}" using assms by (auto simp: cache_ok_def cache_but_def)
  from ok(1) show thesis
  proof (cases rule: hash_search_cases [where dev = dev and block = block])
    case hit2: (hit bp)
    then show ?thesis by (intro hit [of bp]) (simp_all add: get_block_def)
  next
    case miss2: miss
    have un: "uncached dev block s" if "dev \<noteq> NO_DEV" using miss2(2) [OF that] by (simp add: uncached_def)
    from xs show ?thesis
    proof (cases rule: oldest_free_cases)
      case none
      then have "bufs_in_use s = int NR_BUFS" using ok(4) by simp
      then show ?thesis using miss2(1) none un by (intro full) (simp_all add: get_block_def)
    next
      case (free us bp vs)
      let ?s = "s\<lparr>bufs_in_use := bufs_in_use s + 1\<rparr>"
      have "bp \<notin> in_use s" using free by (simp add: in_use_def)
      then have "in_use s \<subset> {..<NR_BUFS}" using free by (auto simp: in_use_def)
      then have "card (in_use s) < card {..<NR_BUFS}" by (intro psubset_card_mono) simp_all
      then have nf: "bufs_in_use s \<noteq> int NR_BUFS" using ok(4) by simp
      have "hash_rep {} ?s" using ok(1) by (simp add: hash_rep_def)
      then obtain s1 where s1: "hash_remove bp ?s = Done s1" "hash_rep {bp} s1" "hash_frame ?s s1"
        using free(4) by (rule hash_remove_spec)
      note f = hash_frameD [OF s1(3)] hash_frame_fields [OF s1(3)]
      have l: "lru_list s = xs"
        using xs chain_length_le [of "nexts s" "front s" xs "{..<NR_BUFS}"]
        by (simp add: lru_list_def dll_def chain_list_eq)
      have "dll s1 xs" using xs(1) by (simp add: dll_def f)
      moreover have "uniq s1" "devs_ok s1" using ok(2,3) by (simp_all add: uniq_def devs_ok_def f)
      moreover have "in_use s1 = in_use s" by (simp add: in_use_def f)
      ultimately have cb: "cache_but {bp} 1 s1" using s1(2) xs(2) ok(4) by (auto simp: cache_but_def f)
      have "get_block dev block mode s = and_then (flush_victim bp s1) (fill_block dev block mode bp)"
        using miss2(1) nf free(5) s1(1)
        by (simp add: get_block_def)
      then show ?thesis using free l un s1(3) cb by (intro miss [of bp us vs s1]) simp_all
    qed
  qed
qed

lemma hash_insert_fields [simp]:
  "nexts (hash_insert dev block bp s) = nexts s" "prevs (hash_insert dev block bp s) = prevs s"
  "front (hash_insert dev block bp s) = front s" "rear (hash_insert dev block bp s) = rear s"
  "bufs_in_use (hash_insert dev block bp s) = bufs_in_use s" "disk (hash_insert dev block bp s) = disk s"
  "answers (hash_insert dev block bp s) = answers s" "unit_of d (hash_insert dev block bp s) = unit_of d s"
  "b_dev (buf_tab (hash_insert dev block bp s) i) = (if i = bp then dev else b_dev (buf_tab s i))"
  "b_blocknr (buf_tab (hash_insert dev block bp s) i) = (if i = bp then block else b_blocknr (buf_tab s i))"
  "b_count (buf_tab (hash_insert dev block bp s) i) = (if i = bp then b_count (buf_tab s bp) + 1 else b_count (buf_tab s i))"
  "b_data (buf_tab (hash_insert dev block bp s) i) = b_data (buf_tab s i)"
  "b_dirt (buf_tab (hash_insert dev block bp s) i) = b_dirt (buf_tab s i)"
  by (auto simp: hash_insert_def fs_upd Let_def unit_of_def fun_eq_iff)

lemma hash_insert_ok:
  assumes "cache_but {bp} 1 s" and "bp < NR_BUFS" and "b_count (buf_tab s bp) = 0"
    and "dev = NO_DEV \<or> disk_dev dev \<and> (\<forall>i < NR_BUFS. i \<noteq> bp \<longrightarrow>
           \<not> (b_dev (buf_tab s i) = dev \<and> b_blocknr (buf_tab s i) = block))"
  shows "cache_ok (hash_insert dev block bp s)"
proof -
  let ?t = "hash_insert dev block bp s"
  obtain xs where xs: "dll s xs" "set xs = {..<NR_BUFS}" and r: "hash_rep {bp} s" "uniq s" "devs_ok s"
    "bufs_in_use s = int (card (in_use s)) + 1" using assms(1) by (auto simp: cache_but_def)
  have "in_use ?t = insert bp (in_use s)" using assms(2,3) by (auto simp: in_use_def)
  moreover have "bp \<notin> in_use s" using assms(3) by (simp add: in_use_def)
  ultimately have "bufs_in_use ?t = int (card (in_use ?t))" using r(4) by simp
  moreover have "dll ?t xs" using xs(1) by (simp add: dll_def)
  moreover have "uniq ?t" using r(2) assms(2,4) unfolding uniq_def hash_insert_fields by (smt (verit))
  moreover have "devs_ok ?t" using r(3) assms(4) by (auto simp: devs_ok_def)
  ultimately show ?thesis using hash_insert_rep [OF r(1) assms(2)] xs(2)
    by (auto simp: cache_ok_def cache_but_def)
qed

lemma flush_victim_shape: "flush_victim bp s = Done t \<Longrightarrow> shape_le s t"
  and flush_victim_not_stuck: "flush_victim bp s \<noteq> Stuck"
  by (auto simp: flush_victim_def flushall_shape flushall_not_stuck split: if_splits)

lemma fill_block_cases:
  assumes "fill_block dev block mode bp s = Done (c, t)"
  obtains "c = bp" "shape_le (hash_insert (if mode = PREFETCH then NO_DEV else dev) block bp s) t"
  using assms that by (auto simp: fill_block_def outcome_simps Let_def split: if_splits dest: rw_block_shape)

lemma get_block_ok:
  assumes "cache_ok s" and "dev = NO_DEV \<or> disk_dev dev" and "get_block dev block mode s = Done (bp, t)"
    and "\<forall>i < NR_BUFS. b_count (buf_tab s i) \<noteq> 255"
  shows "cache_ok t" "bp < NR_BUFS" "b_blocknr (buf_tab t bp) = block" "b_dev (buf_tab t bp) \<in> {dev, NO_DEV}"
    "b_count (buf_tab t i) = (if i = bp then b_count (buf_tab s bp) + 1 else b_count (buf_tab s i))"
proof -
  have "cache_ok t \<and> bp < NR_BUFS \<and> b_blocknr (buf_tab t bp) = block \<and> b_dev (buf_tab t bp) \<in> {dev, NO_DEV} \<and>
    (\<forall>i. b_count (buf_tab t i) = (if i = bp then b_count (buf_tab s bp) + 1 else b_count (buf_tab s i)))"
    using assms(1)
  proof (cases rule: get_block_cases [where dev = dev and block = block and mode = mode])
    case (hit c)
    let ?s = "if b_count (buf_tab s c) = 0 then s\<lparr>bufs_in_use := bufs_in_use s + 1\<rparr> else s"
    have t: "c = bp" "t = upd_buf c (\<lambda>x. x\<lparr>b_count := b_count x + 1\<rparr>) ?s" using hit(5) assms(3) by simp_all
    have ne: "b_count (buf_tab s c) + 1 \<noteq> 0"
    proof
      assume "b_count (buf_tab s c) + 1 = 0"
      then have "b_count (buf_tab s c) + 1 = 255 + 1" by simp
      then have "b_count (buf_tab s c) = 255" by (simp only: add_right_cancel)
      then show False using assms(4) hit(2) by simp
    qed
    obtain xs where xs: "dll s xs" "set xs = {..<NR_BUFS}" and r: "hash_rep {} s" "uniq s" "devs_ok s"
      "bufs_in_use s = int (card (in_use s))" using assms(1) by (auto simp: cache_ok_def cache_but_def)
    have b: "buf_tab t i = (if i = c then (buf_tab s c)\<lparr>b_count := b_count (buf_tab s c) + 1\<rparr> else buf_tab s i)" for i
      by (simp add: t fs_upd)
    have "in_use t = insert c (in_use s)" using hit(2) ne by (auto simp: in_use_def b)
    then have "bufs_in_use t = int (card (in_use t))" using r(4) hit(2)
      by (auto simp: t fs_upd in_use_def insert_absorb)
    moreover have "nexts t = nexts s" "prevs t = prevs s" "hashes t = hashes s" "front t = front s" "rear t = rear s"
      "buf_hash t = buf_hash s" by (auto simp: fun_eq_iff b) (auto simp: t fs_upd)
    moreover have bf: "b_dev (buf_tab t i) = b_dev (buf_tab s i)" "b_blocknr (buf_tab t i) = b_blocknr (buf_tab s i)" for i
      by (simp_all add: b)
    moreover have "uniq t" "devs_ok t" using r(2,3) by (simp_all add: uniq_def devs_ok_def bf)
    moreover have "hash_rep {} t" "dll t xs" using r(1) xs(1) calculation by (simp_all add: hash_rep_def dll_def)
    ultimately have "cache_ok t" using xs(2) unfolding cache_ok_def cache_but_def by auto
    then show ?thesis using hit t(1) by (simp add: b)
  next
    case (miss us c vs s1)
    have "and_then (flush_victim c s1) (fill_block dev block mode c) = Done (bp, t)" using miss(8) assms(3) by simp
    then obtain s2 where s2: "flush_victim c s1 = Done s2" "fill_block dev block mode c s2 = Done (bp, t)"
      by (auto simp: outcome_simps)
    let ?d = "if mode = PREFETCH then NO_DEV else dev"
    note f = hash_frameD [OF miss(6), simplified]
    have le: "shape_le s1 s2" using s2(1) by (rule flush_victim_shape)
    have cb: "cache_but {c} 1 s2" using miss(7) le by (rule cache_but_shape_le)
    note g = shape_le_fields [OF le]
    have "\<not> (b_dev (buf_tab s2 i) = dev \<and> b_blocknr (buf_tab s2 i) = block)" if "i < NR_BUFS" "dev \<noteq> NO_DEV" for i
    proof -
      have "b_dev (buf_tab s2 i) \<in> {b_dev (buf_tab s1 i), NO_DEV}" using le unfolding shape_le_def by blast
      then show ?thesis using that miss(1) by (auto simp: uncached_def g f)
    qed
    then have ok: "cache_ok (hash_insert ?d block c s2)" using assms(2) miss(2,3)
      by (intro hash_insert_ok [OF cb]) (auto simp: g f)
    from s2(2) obtain bp': "bp = c" and le2: "shape_le (hash_insert ?d block c s2) t" by (rule fill_block_cases)
    note h = shape_le_fields [OF le2]
    have "b_dev (buf_tab t c) \<in> {?d, NO_DEV}" using le2 unfolding shape_le_def by (metis hash_insert_fields(9))
    moreover have "cache_ok t" using cache_but_shape_le [OF ok [unfolded cache_ok_def] le2] by (simp add: cache_ok_def)
    ultimately show ?thesis using miss(2) bp' by (auto simp: h g f)
  qed (use assms(3) in simp)
  then show "cache_ok t" "bp < NR_BUFS" "b_blocknr (buf_tab t bp) = block" "b_dev (buf_tab t bp) \<in> {dev, NO_DEV}"
    "b_count (buf_tab t i) = (if i = bp then b_count (buf_tab s bp) + 1 else b_count (buf_tab s i))" by blast+
qed

lemma get_block_not_stuck:
  assumes "cache_ok s"
  shows "get_block dev block mode s \<noteq> Stuck"
  using assms
proof (cases rule: get_block_cases [where dev = dev and block = block and mode = mode])
  case (miss us bp vs s1)
  then show ?thesis
    by (auto simp: and_then_stuck flush_victim_not_stuck fill_block_def Let_def rw_block_not_stuck)
qed simp_all

subsection \<open>put_block\<close>

lemma lru_list_eq: "dll s xs \<Longrightarrow> set xs = {..<NR_BUFS} \<Longrightarrow> lru_list s = xs"
  using chain_length_le [of "nexts s" "front s" xs "{..<NR_BUFS}"] by (simp add: lru_list_def dll_def chain_list_eq)

lemma cache_ok_lru:
  assumes "cache_ok s"
  shows "dll s (lru_list s)" "set (lru_list s) = {..<NR_BUFS}" "distinct (lru_list s)"
proof -
  obtain xs where xs: "dll s xs" "set xs = {..<NR_BUFS}" using assms by (auto simp: cache_ok_def cache_but_def)
  then have "lru_list s = xs" by (rule lru_list_eq)
  moreover have "distinct xs" using xs(1) chain_distinct unfolding dll_def by blast
  ultimately show "dll s (lru_list s)" "set (lru_list s) = {..<NR_BUFS}" "distinct (lru_list s)"
    using xs by simp_all
qed

lemma lru_frame_fields:
  assumes "lru_frame s t"
  shows "bufs_in_use t = bufs_in_use s" "buf_hash t = buf_hash s" "disk t = disk s" "answers t = answers s"
    "fp t = fp s" "fproc_tab t = fproc_tab s"
proof -
  let ?t = "t\<lparr>buf_tab := buf_tab s, front := front s, rear := rear s\<rparr>"
  have e: "?t = s" using assms by (simp add: lru_frame_def)
  show "bufs_in_use t = bufs_in_use s" "buf_hash t = buf_hash s" "disk t = disk s" "answers t = answers s"
    "fp t = fp s" "fproc_tab t = fproc_tab s"
    using arg_cong [OF e, of bufs_in_use] arg_cong [OF e, of buf_hash] arg_cong [OF e, of disk]
      arg_cong [OF e, of answers] arg_cong [OF e, of fp] arg_cong [OF e, of fproc_tab] by simp_all
qed

lemma cache_ok_intro:
  assumes "cache_ok s" and "dll t xs" and "set xs = {..<NR_BUFS}"
    and "hashes t = hashes s" and "buf_hash t = buf_hash s"
    and "\<And>i. b_blocknr (buf_tab t i) = b_blocknr (buf_tab s i)" and "\<And>i. b_dev (buf_tab t i) = b_dev (buf_tab s i)"
    and "bufs_in_use t = int (card (in_use t))"
  shows "cache_ok t"
proof -
  have "hash_rep {} t" "uniq t" "devs_ok t"
    using assms(1,4-7) by (simp_all add: cache_ok_def cache_but_def hash_rep_def uniq_def devs_ok_def)
  then show ?thesis using assms(2,3,8) by (auto simp: cache_ok_def cache_but_def)
qed

lemma in_use_dec:
  assumes "i < NR_BUFS" and "b_count (buf_tab s i) \<noteq> 0"
    and "\<And>j. b_count (buf_tab t j) = (if j = i then b_count (buf_tab s i) - 1 else b_count (buf_tab s j))"
  shows "in_use t = (if b_count (buf_tab t i) = 0 then in_use s - {i} else in_use s)"
  using assms by (auto simp: in_use_def)

lemma relink_frame: "lru_frame s (relink bp ty s)"
  using lru_frame_trans [OF lru_remove_frame lru_push_front_frame] lru_frame_trans [OF lru_remove_frame lru_push_rear_frame]
  by (simp add: relink_def Let_def)

definition relink_list :: "nat \<Rightarrow> u8 \<Rightarrow> nat list \<Rightarrow> nat list" where
  "relink_list bp ty xs =
     (let ys = filter (\<lambda>i. i \<noteq> bp) xs in if ty AND ONE_SHOT \<noteq> 0 then bp # ys else ys @ [bp])"

lemma relink_dll:
  assumes "dll s xs" and "bp \<in> set xs"
  shows "dll (relink bp ty s) (relink_list bp ty xs)" "set (relink_list bp ty xs) = set xs"
proof -
  obtain us vs where xs: "xs = us @ bp # vs" using assms(2) by (meson split_list)
  have "distinct xs" using assms(1) by (auto simp: dll_def dest: chain_distinct)
  then have n: "bp \<notin> set us" "bp \<notin> set vs" by (auto simp: xs)
  have "filter (\<lambda>i. i \<noteq> bp) zs = zs" if "bp \<notin> set zs" for zs using that by (induction zs) auto
  with n have ys: "filter (\<lambda>i. i \<noteq> bp) xs = us @ vs" "bp \<notin> set (us @ vs)" by (simp_all add: xs)
  have d: "dll (lru_remove bp s) (us @ vs)" using assms(1) by (simp add: xs lru_remove_dll)
  show "dll (relink bp ty s) (relink_list bp ty xs)"
    using lru_push_front_dll [OF d ys(2)] lru_push_rear_dll [OF d ys(2)]
    by (simp add: relink_def relink_list_def ys(1) Let_def)
  show "set (relink_list bp ty xs) = set xs" by (auto simp: relink_list_def ys(1) xs Let_def)
qed

lemma put_block_cases:
  assumes "b_count (buf_tab s bp) \<noteq> 0"
  obtains (shared) "b_count (buf_tab s bp) \<noteq> 1"
        "put_block (Some bp) ty s = Done (upd_buf bp (\<lambda>x. x\<lparr>b_count := b_count x - 1\<rparr>) s)"
    | (last) s1 where "b_count (buf_tab s bp) = 1"
        "s1 = (upd_buf bp (\<lambda>x. x\<lparr>b_count := b_count x - 1\<rparr>) s)\<lparr>bufs_in_use := bufs_in_use s - 1\<rparr>"
        "put_block (Some bp) ty s = and_then
           (if ty AND WRITE_IMMED \<noteq> 0 \<and> b_dirt (buf_tab s bp) \<and> b_dev (buf_tab s bp) \<noteq> NO_DEV
            then rw_block bp WRITING (relink bp ty s1) else Done (relink bp ty s1))
           (\<lambda>s4. Done (if ty = ZUPER_BLOCK then drop_buf bp s4 else s4))"
proof (cases "b_count (buf_tab s bp) = 1")
  case True
  let ?s = "(upd_buf bp (\<lambda>x. x\<lparr>b_count := b_count x - 1\<rparr>) s)\<lparr>bufs_in_use := bufs_in_use s - 1\<rparr>"
  have k: "b_dirt (buf_tab (relink bp ty ?s) bp) = b_dirt (buf_tab s bp)"
    "b_dev (buf_tab (relink bp ty ?s) bp) = b_dev (buf_tab s bp)"
    using lru_frame_bufs(4,5) [OF relink_frame [of ?s bp ty], of bp] by (simp_all add: fs_upd)
  have c: "b_count (buf_tab (upd_buf bp (\<lambda>x. x\<lparr>b_count := b_count x - 1\<rparr>) s) bp) = 0"
    "bufs_in_use (upd_buf bp (\<lambda>x. x\<lparr>b_count := b_count x - 1\<rparr>) s) = bufs_in_use s"
    using True by (simp_all add: fs_upd)
  have "put_block (Some bp) ty s = and_then
           (if ty AND WRITE_IMMED \<noteq> 0 \<and> b_dirt (buf_tab s bp) \<and> b_dev (buf_tab s bp) \<noteq> NO_DEV
            then rw_block bp WRITING (relink bp ty ?s) else Done (relink bp ty ?s))
           (\<lambda>s4. Done (if ty = ZUPER_BLOCK then drop_buf bp s4 else s4))"
    by (simp only: put_block_def option.simps Let_def c k simp_thms if_False)
  with True show ?thesis by (intro last [of ?s]) simp_all
next
  case False
  then have "b_count (buf_tab s bp) - 1 \<noteq> 0" by simp
  then show ?thesis using False by (intro shared) (simp_all add: put_block_def fs_upd)
qed

lemma released_ok:
  assumes "cache_ok s" and "bp < NR_BUFS" and "b_count (buf_tab s bp) = 1"
    and "s1 = (upd_buf bp (\<lambda>x. x\<lparr>b_count := b_count x - 1\<rparr>) s)\<lparr>bufs_in_use := bufs_in_use s - 1\<rparr>"
  shows "cache_ok (relink bp ty s1)" "lru_list (relink bp ty s1) = relink_list bp ty (lru_list s)"
proof -
  let ?t = "relink bp ty s1"
  note fr = relink_frame [of s1 bp ty]
  note b = lru_frame_bufs [OF fr]
  note bu = lru_frame_fields(1,2) [OF fr]
  have d: "dll s1 (lru_list s)" using cache_ok_lru(1) [OF assms(1)]
    by (simp add: dll_def assms(4) fs_upd)
  have m: "bp \<in> set (lru_list s)" using cache_ok_lru(2) [OF assms(1)] assms(2) by simp
  note r = relink_dll [OF d m, of ty]
  have c: "b_count (buf_tab ?t j) = (if j = bp then b_count (buf_tab s bp) - 1 else b_count (buf_tab s j))" for j
    unfolding b by (simp add: assms(4) fs_upd)
  have iu: "in_use ?t = in_use s - {bp}" using in_use_dec [OF assms(2) _ c] assms(3) by (simp add: c)
  have "bp \<in> in_use s" using assms(2,3) by (simp add: in_use_def)
  then have "card (in_use s) = Suc (card (in_use s - {bp}))" by (simp only: card_Suc_Diff1 finite_bufs_in_use)
  then have "bufs_in_use ?t = int (card (in_use ?t))"
    unfolding bu iu using assms(1,4) by (simp add: cache_ok_def cache_but_def fs_upd)
  moreover have "hashes ?t = hashes s" unfolding fun_eq_iff comp_def b by (auto simp: assms(4) fs_upd)
  moreover have "buf_hash ?t = buf_hash s" unfolding bu by (simp add: assms(4) fs_upd)
  moreover have "b_blocknr (buf_tab ?t i) = b_blocknr (buf_tab s i)" "b_dev (buf_tab ?t i) = b_dev (buf_tab s i)" for i
    unfolding b by (simp_all add: assms(4) fs_upd)
  ultimately show "cache_ok ?t"
    using r cache_ok_lru(2) [OF assms(1)] by (intro cache_ok_intro [OF assms(1) r(1)]) simp_all
  show "lru_list ?t = relink_list bp ty (lru_list s)"
    using r cache_ok_lru(2) [OF assms(1)] by (intro lru_list_eq) simp_all
qed

lemma lru_list_shape: "shape_le s t \<Longrightarrow> lru_list t = lru_list s"
  by (simp only: lru_list_def shape_le_fields)

lemma cache_ok_shape: "cache_ok s \<Longrightarrow> shape_le s t \<Longrightarrow> cache_ok t"
  unfolding cache_ok_def by (rule cache_but_shape_le)

lemma put_block_ok:
  assumes "cache_ok s" and "bp < NR_BUFS" and "b_count (buf_tab s bp) \<noteq> 0" and "put_block (Some bp) ty s = Done t"
  shows "cache_ok t"
    and "b_count (buf_tab t i) = (if i = bp then b_count (buf_tab s bp) - 1 else b_count (buf_tab s i))"
    and "lru_list t = (if b_count (buf_tab s bp) = 1 then relink_list bp ty (lru_list s) else lru_list s)"
proof -
  have "cache_ok t \<and> (\<forall>i. b_count (buf_tab t i) = (if i = bp then b_count (buf_tab s bp) - 1 else b_count (buf_tab s i)))
    \<and> lru_list t = (if b_count (buf_tab s bp) = 1 then relink_list bp ty (lru_list s) else lru_list s)"
    using assms(3)
  proof (cases rule: put_block_cases [where ty = ty])
    case shared
    let ?t = "upd_buf bp (\<lambda>x. x\<lparr>b_count := b_count x - 1\<rparr>) s"
    have t: "t = ?t" using shared(2) assms(4) by simp
    have n: "nexts ?t = nexts s" "front ?t = front s" by (auto simp: fs_upd)
    have "b_count (buf_tab s bp) - 1 \<noteq> 0" using shared(1) by simp
    then have "in_use ?t = in_use s" using assms(2,3) by (auto simp: in_use_def fs_upd)
    then have "cache_ok ?t" using assms(1) cache_ok_lru [OF assms(1)]
      by (intro cache_ok_intro [OF assms(1), of _ "lru_list s"]) (auto simp: dll_def fs_upd cache_ok_def cache_but_def)
    moreover have "lru_list ?t = lru_list s" by (simp only: lru_list_def n)
    ultimately show ?thesis using shared t by (auto simp: fs_upd)
  next
    case (last s1)
    let ?u = "relink bp ty s1"
    have ok: "cache_ok ?u" "lru_list ?u = relink_list bp ty (lru_list s)"
      using released_ok [OF assms(1,2) last(1,2)] by simp_all
    obtain v where v: "(if ty AND WRITE_IMMED \<noteq> 0 \<and> b_dirt (buf_tab s bp) \<and> b_dev (buf_tab s bp) \<noteq> NO_DEV
            then rw_block bp WRITING ?u else Done ?u) = Done v" "t = (if ty = ZUPER_BLOCK then drop_buf bp v else v)"
      using last(3)[unfolded assms(4), symmetric] unfolding and_then_Done_iff by auto
    have "shape_le ?u v" using v(1) by (auto split: if_splits dest: rw_block_shape)
    then have le: "shape_le ?u t" using v(2) by (metis upd_shape_le(2))
    have "b_count (buf_tab t i) = (if i = bp then b_count (buf_tab s bp) - 1 else b_count (buf_tab s i))" for i
      unfolding shape_le_fields [OF le] lru_frame_bufs [OF relink_frame] by (simp add: last(2) fs_upd)
    then show ?thesis using ok last(1) cache_ok_shape [OF ok(1) le] lru_list_shape [OF le] by simp
  qed
  then show "cache_ok t"
    "b_count (buf_tab t i) = (if i = bp then b_count (buf_tab s bp) - 1 else b_count (buf_tab s i))"
    "lru_list t = (if b_count (buf_tab s bp) = 1 then relink_list bp ty (lru_list s) else lru_list s)" by blast+
qed

lemma put_block_not_stuck: "put_block b ty s \<noteq> Stuck"
  by (auto simp: put_block_def and_then_stuck rw_block_not_stuck Let_def split: option.split)

subsection \<open>Start-up and every sequence of operations\<close>

definition zeroed :: "fs \<Rightarrow> bool" where
  "zeroed s \<longleftrightarrow> (\<forall>i < NR_BUFS. b_count (buf_tab s i) = 0) \<and> (\<forall>h. buf_hash s h = None)"

lemma chain_upto:
  "a \<le> n \<Longrightarrow> (\<And>i. i < n \<Longrightarrow> nx i = (if Suc i = n then None else Some (Suc i))) \<Longrightarrow>
   chain nx (if a = n then None else Some a) [a..<n]"
proof (induction "n - a" arbitrary: a)
  case (Suc k)
  then have "a < n" by simp
  moreover have "chain nx (if Suc a = n then None else Some (Suc a)) [Suc a..<n]" using Suc by (intro Suc(1)) auto
  ultimately show ?case using Suc(4) by (simp add: upt_conv_Cons)
qed simp

lemma chain_downto:
  "(\<And>i. i < n \<Longrightarrow> nx i = (if i = 0 then None else Some (i - 1))) \<Longrightarrow>
   chain nx (if n = 0 then None else Some (n - 1)) (rev [0..<n])"
proof (induction n)
  case (Suc n)
  have "chain nx (if n = 0 then None else Some (n - 1)) (rev [0..<n])" using Suc(2) by (intro Suc(1)) simp
  then show ?case using Suc(2) [of n] by simp
qed simp

lemma buf_pool_ok:
  assumes "zeroed s"
  shows "cache_ok (buf_pool s)"
proof -
  let ?t = "buf_pool s"
  have f: "b_dev (buf_tab ?t i) = NO_DEV" "b_blocknr (buf_tab ?t i) = NO_BLOCK" "b_count (buf_tab ?t i) = 0"
    "b_next (buf_tab ?t i) = (if Suc i = NR_BUFS then None else Some (Suc i))"
    "b_hash (buf_tab ?t i) = (if Suc i = NR_BUFS then None else Some (Suc i))"
    "b_prev (buf_tab ?t i) = (if i = 0 then None else Some (i - 1))" if "i < NR_BUFS" for i
    using that assms by (auto simp: buf_pool_def zeroed_def)
  have h0: "hash_of NO_BLOCK = 0" by (simp add: hash_of_def)
  have "chain (nexts ?t) (if (0::nat) = NR_BUFS then None else Some 0) [0..<NR_BUFS]"
    by (rule chain_upto) (simp_all add: f)
  moreover have "chain (prevs ?t) (if NR_BUFS = 0 then None else Some (NR_BUFS - 1)) (rev [0..<NR_BUFS])"
    by (rule chain_downto) (simp add: f)
  ultimately have d: "dll ?t [0..<NR_BUFS]" by (simp add: dll_def buf_pool_def)
  have hc: "chain (hashes ?t) (if (0::nat) = NR_BUFS then None else Some 0) [0..<NR_BUFS]"
    by (rule chain_upto) (simp_all add: f)
  have "hash_rep {} ?t" unfolding hash_rep_def
  proof (intro allI impI)
    fix h
    assume "h < NR_BUF_HASH"
    show "\<exists>hs. chain (hashes ?t) (buf_hash ?t h) hs \<and>
        set hs = {i. i < NR_BUFS \<and> i \<notin> {} \<and> hash_of (b_blocknr (buf_tab ?t i)) = h}"
    proof (cases "h = 0")
      case True
      then show ?thesis using hc f(2) h0
        by (intro exI [of _ "[0..<NR_BUFS]"]) (auto simp: buf_pool_def)
    next
      case False
      have "buf_hash ?t h = None" using False assms h0 by (simp add: buf_pool_def zeroed_def)
      then show ?thesis using False f(2) h0 by (intro exI [of _ "[]"]) auto
    qed
  qed
  moreover have "in_use ?t = {}" by (auto simp: in_use_def f)
  moreover have "bufs_in_use ?t = 0" by (simp add: buf_pool_def)
  ultimately show ?thesis using d
    by (auto simp: cache_ok_def cache_but_def uniq_def devs_ok_def f intro!: exI [of _ "[0..<NR_BUFS]"])
qed

lemma invalidate_shape: "shape_le s (invalidate dev s)"
  by (simp add: shape_le_def invalidate_def)

lemma upd_data_ok:
  assumes "cache_ok s"
  shows "cache_ok (upd_buf i (\<lambda>x. x\<lparr>b_data := d, b_dirt := e\<rparr>) s)"
  using assms by (rule cache_ok_shape) (auto simp: shape_le_def fs_upd shape_def)

text \<open>
  Buffers that a client holds to read them together, as \<open>rahead\<close> does: they have a block number each and no device yet,
  and none of the blocks is in another buffer.
\<close>

definition fetching :: "u16 \<Rightarrow> nat list \<Rightarrow> fs \<Rightarrow> bool" where
  "fetching dev q s \<longleftrightarrow> distinct (map (\<lambda>i. b_blocknr (buf_tab s i)) q) \<and>
     (\<forall>i \<in> set q. i < NR_BUFS \<and> b_count (buf_tab s i) \<noteq> 0 \<and> b_dev (buf_tab s i) = NO_DEV \<and> uncached dev (b_blocknr (buf_tab s i)) s)"

lemma fetching_perm: "mset p = mset q \<Longrightarrow> fetching dev q s \<Longrightarrow> fetching dev p s"
proof -
  assume m: "mset p = mset q" and f: "fetching dev q s"
  have "mset (map (\<lambda>i. b_blocknr (buf_tab s i)) p) = mset (map (\<lambda>i. b_blocknr (buf_tab s i)) q)" using m by simp
  then have "distinct (map (\<lambda>i. b_blocknr (buf_tab s i)) p) = distinct (map (\<lambda>i. b_blocknr (buf_tab s i)) q)" by (rule mset_eq_imp_distinct_iff)
  then show ?thesis using f mset_eq_setD [OF m] by (simp add: fetching_def)
qed

lemma fetching_cong:
  assumes "fetching dev q s" and "\<And>i. b_blocknr (buf_tab t i) = b_blocknr (buf_tab s i)"
    and "\<And>i. i \<in> set q \<Longrightarrow> b_count (buf_tab t i) = b_count (buf_tab s i)" and "\<And>i. b_dev (buf_tab t i) \<in> {b_dev (buf_tab s i), NO_DEV}" and "dev \<noteq> NO_DEV"
  shows "fetching dev q t"
proof -
  have d: "b_dev (buf_tab t i) = b_dev (buf_tab s i) \<or> b_dev (buf_tab t i) = NO_DEV" for i using assms(4) [of i] by simp
  have "uncached dev b t" if "uncached dev b s" for b
    unfolding uncached_def
  proof (intro allI impI)
    fix i assume "i < NR_BUFS"
    then show "\<not> (b_dev (buf_tab t i) = dev \<and> b_blocknr (buf_tab t i) = b)" using that d [of i] assms(2) [of i] assms(5) by (auto simp: uncached_def)
  qed
  moreover have "b_dev (buf_tab t i) = NO_DEV" if "b_dev (buf_tab s i) = NO_DEV" for i using d [of i] that by simp
  ultimately show ?thesis using assms(1,3) by (simp add: fetching_def assms(2))
qed

lemma put_partial_fields:
  assumes "b_count (buf_tab s bp) \<noteq> 0" and "put_block (Some bp) PARTIAL_DATA_BLOCK s = Done t"
  shows "b_dev (buf_tab t i) = b_dev (buf_tab s i)" "b_blocknr (buf_tab t i) = b_blocknr (buf_tab s i)"
proof -
  have "b_dev (buf_tab t i) = b_dev (buf_tab s i) \<and> b_blocknr (buf_tab t i) = b_blocknr (buf_tab s i)" using assms(1)
  proof (cases rule: put_block_cases [where ty = PARTIAL_DATA_BLOCK])
    case shared
    then show ?thesis using assms(2) by (simp add: fs_upd)
  next
    case (last s1)
    then have "t = relink bp PARTIAL_DATA_BLOCK s1" using assms(2) by simp
    then show ?thesis using lru_frame_bufs [OF relink_frame, of bp PARTIAL_DATA_BLOCK s1 i] last(2) by (simp add: fs_upd)
  qed
  then show "b_dev (buf_tab t i) = b_dev (buf_tab s i)" "b_blocknr (buf_tab t i) = b_blocknr (buf_tab s i)" by simp_all
qed

lemma name_buf_ok:
  assumes "cache_ok s" and "fetching dev (i # q) s" and "disk_dev dev" and "dev \<noteq> NO_DEV"
  defines "t \<equiv> upd_buf i (\<lambda>x. x\<lparr>b_dev := dev\<rparr>) s"
  shows "cache_ok t" "fetching dev q t"
proof -
  have i: "i < NR_BUFS" "uncached dev (b_blocknr (buf_tab s i)) s" using assms(2) by (simp_all add: fetching_def)
  have f: "b_dev (buf_tab t j) = (if j = i then dev else b_dev (buf_tab s j))" "b_blocknr (buf_tab t j) = b_blocknr (buf_tab s j)"
    "b_count (buf_tab t j) = b_count (buf_tab s j)" "nexts t = nexts s" "prevs t = prevs s" "hashes t = hashes s" "front t = front s"
    "rear t = rear s" "buf_hash t = buf_hash s" "bufs_in_use t = bufs_in_use s" for j
    by (auto simp: t_def fs_upd fun_eq_iff)
  have ud: "uniq s" "devs_ok s" using assms(1) by (simp_all add: cache_ok_def cache_but_def)
  have "uniq t" using ud(1) i(2) by (auto simp: uniq_def f uncached_def)
  moreover have "devs_ok t" using ud(2) assms(3) by (simp add: devs_ok_def f)
  ultimately show "cache_ok t" using assms(1) by (simp add: cache_ok_def cache_but_def dll_def hash_rep_def in_use_def f)
  show "fetching dev q t" using assms(2) i(1) by (auto simp: fetching_def f uncached_def)
qed

lemma harvest_reading_ok:
  assumes "cache_ok s" and "fetching dev (i # q) s" and "disk_dev dev" and "dev \<noteq> NO_DEV" and "harvest READING dev (i, n) s = Done t"
  shows "cache_ok t" "fetching dev q t"
proof -
  let ?s = "if n = 0 then upd_buf i (\<lambda>x. x\<lparr>b_dev := dev\<rparr>) s else s"
  have p: "put_block (Some i) PARTIAL_DATA_BLOCK ?s = Done t" using assms(5) by (simp add: harvest_def)
  have s: "cache_ok ?s" "fetching dev q ?s" using name_buf_ok [OF assms(1-4)] assms(1,2) by (simp_all add: fetching_def)
  have i: "i < NR_BUFS" "b_count (buf_tab ?s i) \<noteq> 0" "i \<notin> set q" using assms(2) by (auto simp: fetching_def fs_upd)
  show "cache_ok t" by (rule put_block_ok(1) [OF s(1) i(1,2) p])
  show "fetching dev q t" by (rule fetching_cong [OF s(2)])
    (use put_partial_fields [OF i(2) p] put_block_ok(2) [OF s(1) i(1,2) p] i(3) assms(4) in auto)
qed

lemma harvest_all_reading:
  "\<lbrakk> cache_ok s; fetching dev q s; disk_dev dev; dev \<noteq> NO_DEV; length ns = length q; seq_all (harvest READING dev) (zip q ns) s = Done t \<rbrakk> \<Longrightarrow> cache_ok t"
proof (induction q arbitrary: ns s)
  case (Cons i q)
  then obtain n ms where ns: "ns = n # ms" "length ms = length q" by (cases ns) auto
  then obtain u where u: "harvest READING dev (i, n) s = Done u" "seq_all (harvest READING dev) (zip q ms) u = Done t"
    using Cons.prems(6) by (auto simp: and_then_Done_iff)
  note h = harvest_reading_ok [OF Cons.prems(1-4) u(1)]
  show ?case by (rule Cons.IH [OF h Cons.prems(3,4) ns(2) u(2)])
qed simp

lemma rw_scattered_reading_ok:
  assumes "cache_ok s" and "fetching dev q s" and "disk_dev dev" and "dev \<noteq> NO_DEV" and "rw_scattered dev q READING s = Done t"
  shows "cache_ok t"
proof (cases "q = []")
  case False
  let ?q = "shell_sort (\<lambda>i. b_blocknr (buf_tab s i)) q"
  obtain ns s1 where d: "dev_io_scattered READING dev ?q s = Done (ns, s1)" "seq_all (harvest READING dev) (zip ?q ns) s1 = Done t"
    using False assms(5) by (auto simp: rw_scattered_def outcome_simps Let_def split: if_splits)
  note le = dev_io_scattered_shape [OF d(1)]
  have "fetching dev ?q s" by (rule fetching_perm [OF shell_sort_sorts(1) assms(2)])
  then have "fetching dev ?q s1" by (rule fetching_cong) (use le(1) shape_le_fields [OF le(1)] assms(4) in \<open>auto simp: shape_le_def\<close>)
  then show ?thesis by (rule harvest_all_reading [OF cache_ok_shape [OF assms(1) le(1)] _ assms(3,4) le(2) d(2)])
qed (use assms in \<open>simp add: rw_scattered_def\<close>)

text \<open>
  One step of the clients of the cache: they take and release blocks, write into the blocks that they
  hold, read the blocks of several buffers that they hold in one request, as \<open>rahead\<close> does, flush and invalidate devices. Blocks are asked
  for on devices with a disk task, or on none; no buffer has 255 users, where the count would wrap; and the blocks of one
  read request differ and are in no other buffer (\<open>fetching\<close>).
\<close>

inductive cache_step :: "fs \<Rightarrow> fs \<Rightarrow> bool" where
  get: "\<lbrakk> dev = NO_DEV \<or> disk_dev dev; \<forall>i < NR_BUFS. b_count (buf_tab s i) \<noteq> 255;
          get_block dev block mode s = Done (bp, t) \<rbrakk> \<Longrightarrow> cache_step s t"
| put: "\<lbrakk> bp < NR_BUFS; b_count (buf_tab s bp) \<noteq> 0; put_block (Some bp) ty s = Done t \<rbrakk> \<Longrightarrow> cache_step s t"
| modify: "\<lbrakk> bp < NR_BUFS; b_count (buf_tab s bp) \<noteq> 0 \<rbrakk> \<Longrightarrow>
     cache_step s (upd_buf bp (\<lambda>x. x\<lparr>b_data := d, b_dirt := e\<rparr>) s)"
| fetch: "\<lbrakk> disk_dev dev; fetching dev bufq s; rw_scattered dev bufq READING s = Done t \<rbrakk> \<Longrightarrow> cache_step s t"
| flush: "flushall dev s = Done t \<Longrightarrow> cache_step s t"
| drop_dev: "cache_step s (invalidate dev s)"

lemma cache_step_ok: "cache_step s t \<Longrightarrow> cache_ok s \<Longrightarrow> cache_ok t"
proof (induction rule: cache_step.induct)
  case (get dev s block mode bp t)
  then show ?case using get_block_ok(1) by blast
next
  case (put bp s ty t)
  then show ?case using put_block_ok(1) by blast
next
  case (modify bp s d e)
  then show ?case by (intro upd_data_ok)
next
  case (fetch dev bufq s t)
  have "dev \<noteq> NO_DEV" using fetch(1) by (auto simp: disk_dev_def major_of_def)
  then show ?case using rw_scattered_reading_ok [OF fetch(4,2,1) _ fetch(3)] by blast
next
  case (flush dev s t)
  then show ?case using cache_ok_shape flushall_shape by blast
next
  case (drop_dev s dev)
  then show ?case using cache_ok_shape invalidate_shape by blast
qed

lemma cache_steps_ok: "cache_step\<^sup>*\<^sup>* s t \<Longrightarrow> cache_ok s \<Longrightarrow> cache_ok t"
  by (induction rule: rtranclp_induct) (auto intro: cache_step_ok)

text \<open>The panics of the I/O routines are none of those for want of a buffer.\<close>

definition io_panic :: "string \<Rightarrow> bool" where
  "io_panic x \<longleftrightarrow> x \<in> {''bad major dev'', ''revive err'', ''Too much scattered i/o''}"

lemma and_then_Panic_iff: "and_then m f = Panic x \<longleftrightarrow> m = Panic x \<or> (\<exists>y. m = Done y \<and> f y = Panic x)"
  by (cases m) auto

lemma rw_dev_panic: "rw_dev as c s = Panic x \<Longrightarrow> io_panic x"
proof (induction as c s rule: rw_dev.induct)
  case (2 p st as c s)
  then show ?case
    by (auto simp: and_then_Panic_iff revive_def io_panic_def Let_def split: if_splits)
qed auto

lemma dev_io_panic: "dev_io rw dev b bp s = Panic x \<Longrightarrow> io_panic x"
  by (auto simp: dev_io_def and_then_Panic_iff find_dev_def Let_def split: if_splits dest: rw_dev_panic)
    (auto simp: io_panic_def)

lemma rw_block_panic: "rw_block bp rw s = Panic x \<Longrightarrow> io_panic x"
  by (auto simp: rw_block_def and_then_Panic_iff Let_def split: if_splits dest: dev_io_panic)

lemma dev_io_scattered_panic: "dev_io_scattered rw dev q s = Panic x \<Longrightarrow> io_panic x"
  by (auto simp: dev_io_scattered_def and_then_Panic_iff find_dev_def Let_def split: if_splits prod.splits dest: rw_dev_panic)
    (auto simp: io_panic_def)

lemma flushall_panic: "flushall dev s = Panic x \<Longrightarrow> io_panic x"
proof -
  assume a: "flushall dev s = Panic x"
  have "seq_all (harvest WRITING dev) xs u \<noteq> Panic x" for xs u using harvest_all_writing [of dev xs u] by auto
  then show ?thesis using a
    by (auto simp: flushall_def rw_scattered_def and_then_Panic_iff Let_def split: if_splits dest: dev_io_scattered_panic)
      (auto simp: io_panic_def)
qed

lemma fill_no_buffer_panic: "and_then (flush_victim bp s) (fill_block dev block mode bp) = Panic x \<Longrightarrow> io_panic x"
  by (auto simp: and_then_Panic_iff flush_victim_def fill_block_def Let_def split: if_splits
      dest: flushall_panic rw_block_panic)

text \<open>
  C2. After any sequence of operations of its clients from start-up on, and whatever the disk tasks answer, the chains of the block cache
  are sound. The operations are those of \<open>cache_step\<close>: to take a block of a disk (or of no device) with \<open>get_block\<close> in any mode while no
  buffer has 255 users, to release one that is held, to change one that is held, to read several that are held together (the read-ahead of \<open>rahead\<close>,
  for blocks that differ and are in no other buffer; a damaged file can make \<open>rahead\<close> break this), to flush and to
  invalidate a device. Sound means: the LRU chain links every buffer exactly once, in both directions, each hash chain
  holds exactly the buffers whose block number belongs to it, no block of a device is in two buffers, and
  \<open>bufs_in_use\<close> counts the buffers with users. So \<open>get_block\<close> never runs into a nil pointer or round a cycle:
  it returns a buffer of the pool, or panics, which it does for want of a buffer only when every buffer has
  users.
\<close>

theorem cache_run_ok:
  assumes "zeroed s0" and "cache_step\<^sup>*\<^sup>* (buf_pool s0) s"
  shows "distinct (lru_list s) \<and> set (lru_list s) = {..<NR_BUFS} \<and> dll s (lru_list s) \<and> hash_rep {} s \<and> uniq s \<and>
    bufs_in_use s = int (card (in_use s)) \<and> get_block dev block mode s \<noteq> Stuck \<and>
    (get_block dev block mode s = Panic ''All buffers in use'' \<longrightarrow> in_use s = {..<NR_BUFS}) \<and>
    get_block dev block mode s \<noteq> Panic ''No free buffer''"
proof -
  have ok: "cache_ok s" using cache_steps_ok [OF assms(2)] buf_pool_ok [OF assms(1)] by blast
  have p: "(get_block dev block mode s = Panic ''All buffers in use'' \<longrightarrow> in_use s = {..<NR_BUFS}) \<and>
      get_block dev block mode s \<noteq> Panic ''No free buffer''" using ok
  proof (cases rule: get_block_cases [where dev = dev and block = block and mode = mode])
    case (miss us bp vs s1)
    have "get_block dev block mode s \<noteq> Panic ''All buffers in use'' \<and> get_block dev block mode s \<noteq> Panic ''No free buffer''"
      unfolding miss(8) by (auto simp: io_panic_def dest!: fill_no_buffer_panic)
    then show ?thesis by blast
  qed simp_all
  show ?thesis using cache_ok_lru [OF ok] p get_block_not_stuck [OF ok] ok
    by (simp add: cache_ok_def cache_but_def)
qed

definition no_buf :: buf where
  "no_buf = \<lparr>b_data = (\<lambda>_. 0), b_next = None, b_prev = None, b_hash = None, b_blocknr = 0, b_dev = NO_DEV,
     b_dirt = False, b_count = 0\<rparr>"

definition demo_super :: super_block where
  "demo_super = \<lparr>s_ninodes = 0, s_nzones = 0, s_imap_blocks = 0, s_zmap_blocks = 0, s_firstdatazone = 0,
     s_log_zone_size = 0, s_max_size = 0, s_magic = 0, s_imap = (\<lambda>_. None), s_zmap = (\<lambda>_. None), s_dev = NO_DEV,
     s_isup = None, s_imount = None, s_time = 0, s_rd_only = False, s_dirt = False\<rparr>"

definition demo_fs :: fs where
  "demo_fs = \<lparr>buf_tab = (\<lambda>_. no_buf), buf_hash = (\<lambda>_. None), front = None, rear = None, bufs_in_use = 0,
     super_tab = (\<lambda>_. demo_super),
     inode_tab = (\<lambda>_. \<lparr>i_mode = 0, i_uid = 0, i_size = 0, i_mtime = 0, i_gid = 0, i_nlinks = 0, i_zone = (\<lambda>_. 0),
       i_atime = 0, i_ctime = 0, i_dev = 0, i_num = 0, i_count = 0, i_dirt = False, i_pipe = False, i_mount = False,
       i_seek = False, i_update = 0\<rparr>),
     filp_tab = (\<lambda>_. \<lparr>filp_mode = 0, filp_flags = 0, filp_count = 0, filp_ino = None, filp_pos = 0\<rparr>),
     fproc_tab = (\<lambda>_. \<lparr>fp_umask = 0, fp_workdir = None, fp_rootdir = None, fp_filp = (\<lambda>_. None), fp_realuid = 0,
       fp_effuid = 0, fp_realgid = 0, fp_effgid = 0, fs_tty = 0, fp_fd = 0, fp_buffer = 0, fp_nbytes = 0,
       fp_suspended = False, fp_revived = False, fp_task = 0, fp_pid = 0, fp_pgrp = 0\<rparr>),
     fp = 0, who = 0, fs_call = 0,
     request = \<lparr>m_i1 = 0, m_i2 = 0, m_i3 = 0, m_p1 = 0, m_p2 = 0, m_l1 = 0, m_l2 = 0, m2_p1 = 0, m3_p1 = 0, m3_ca1 = []\<rparr>,
     super_user = False, dont_reply = False, susp_count = 0, reviving = 0, rdahedpos = 0, rdahed_inode = None,
     user_path = [], err_code = 0, rdwt_err = 0, root_dev = 0x100, now = 0, disk = (\<lambda>_ b _. ucast b), answers = [],
     user_mem = (\<lambda>_ _ _. 0), copy_result = (\<lambda>_ _ _ _. 0), super_core = (\<lambda>_. demo_super), super_bytes = (\<lambda>_ _. 0),
     sent = [], out_msg = \<lparr>o_i1 = 0, o_i2 = 0, o_l1 = 0, o_t = (\<lambda>_. 0), o_spek = 0, o_flags = 0\<rparr>, proc_times = (\<lambda>_ _. 0),
     data_org = (\<lambda>_. 0), kernel_boot = None, missing_arg = 0\<rparr>"

lemma demo_zeroed: "zeroed demo_fs"
  by (simp add: zeroed_def demo_fs_def no_buf_def)

lemma demo_prefetch:
  "\<exists>bp t. get_block 0x100 5 PREFETCH (buf_pool demo_fs) = Done (bp, t) \<and> cache_step (buf_pool demo_fs) t \<and> fetching 0x100 [bp] t \<and> answers t = []"
proof -
  let ?s = "buf_pool demo_fs"
  have c: "b_count (buf_tab ?s i) = 0" "i < NR_BUFS \<Longrightarrow> b_dev (buf_tab ?s i) = NO_DEV" "answers ?s = []" for i
    by (auto simp: buf_pool_def demo_fs_def no_buf_def)
  have "in_use ?s = {}" by (simp add: in_use_def c)
  have "cache_ok ?s" by (rule buf_pool_ok [OF demo_zeroed])
  then show ?thesis
  proof (cases rule: get_block_cases [where dev = "0x100" and block = 5 and mode = PREFETCH])
    case (hit bp)
    then show ?thesis using c(2) [of bp] by simp
  next
    case full
    then have "card ({} :: nat set) = card {..<NR_BUFS}" using \<open>in_use ?s = {}\<close> by simp
    then show ?thesis by simp
  next
    case (miss us bp vs s1)
    note f = hash_frameD [OF miss(6)] hash_frame_fields [OF miss(6)]
    let ?t = "hash_insert NO_DEV 5 bp s1"
    have g: "get_block 0x100 5 PREFETCH ?s = Done (bp, ?t)"
      unfolding miss(8) using c(2) [OF miss(2)] by (simp add: flush_victim_def fill_block_def f)
    have dd: "disk_dev 0x100" by (simp add: disk_dev_def major_of_def)
    have "cache_step ?s ?t" by (rule cache_step.get [OF disjI2 [OF dd] _ g]) (simp add: c)
    moreover have "fetching 0x100 [bp] ?t" using miss(2) c by (auto simp: fetching_def uncached_def f)
    moreover have "answers ?t = []" using c(3) f by (simp add: hash_insert_def fs_upd Let_def)
    ultimately show ?thesis using g by blast
  qed
qed

lemma put_partial_done: "b_count (buf_tab s bp) \<noteq> 0 \<Longrightarrow> \<exists>t. put_block (Some bp) PARTIAL_DATA_BLOCK s = Done t"
  by (cases rule: put_block_cases [where s = s and bp = bp and ty = PARTIAL_DATA_BLOCK]) auto

lemma fetch_one_done:
  assumes "fetching 0x100 [bp] s" and "answers s = []"
  shows "\<exists>t. rw_scattered 0x100 [bp] READING s = Done t"
proof -
  have q: "shell_sort key [bp] = [bp]" for key :: "nat \<Rightarrow> u16" using shell_sort_sorts(1) [of key "[bp]"] by simp
  have "major_of 0x100 = 1" by (simp add: major_of_def)
  then obtain ns s1 where d: "dev_io_scattered READING 0x100 [bp] s = Done (ns, s1)" using assms(2)
    by (cases "answer_vector READING (unit_of 0x100 s) (Some Full) [bp] (s\<lparr>answers := []\<rparr>)") (simp add: dev_io_scattered_def find_dev_def rep_status_def)
  note le = dev_io_scattered_shape [OF d]
  obtain n where n: "ns = [n]" using le(2) by (cases ns) auto
  have "b_count (buf_tab s1 bp) \<noteq> 0" using assms(1) shape_le_fields(6) [OF le(1)] by (simp add: fetching_def)
  then have "b_count (buf_tab (if n = 0 then upd_buf bp (\<lambda>x. x\<lparr>b_dev := 0x100\<rparr>) s1 else s1) bp) \<noteq> 0" by (simp add: fs_upd)
  from put_partial_done [OF this] obtain t where "harvest READING 0x100 (bp, n) s1 = Done t" by (auto simp: harvest_def)
  then show ?thesis by (simp add: rw_scattered_def q d n)
qed

theorem cache_run_ok_witness:
  "\<exists>bp t u. get_block 0x100 5 PREFETCH (buf_pool demo_fs) = Done (bp, t) \<and> rw_scattered 0x100 [bp] READING t = Done u \<and>
     cache_step\<^sup>*\<^sup>* (buf_pool demo_fs) u \<and> uniq u \<and> set (lru_list u) = {..<NR_BUFS}"
proof -
  obtain bp t where t: "get_block 0x100 5 PREFETCH (buf_pool demo_fs) = Done (bp, t)" "cache_step (buf_pool demo_fs) t"
    "fetching 0x100 [bp] t" "answers t = []" using demo_prefetch by blast
  obtain u where u: "rw_scattered 0x100 [bp] READING t = Done u" using fetch_one_done [OF t(3,4)] by blast
  have "disk_dev 0x100" by (simp add: disk_dev_def major_of_def)
  then have "cache_step t u" using t(3) u by (rule cache_step.fetch)
  then have r: "cache_step\<^sup>*\<^sup>* (buf_pool demo_fs) u" using t(2) by (meson r_into_rtranclp rtranclp.rtrancl_into_rtrancl)
  then show ?thesis using cache_run_ok [OF demo_zeroed r, of 0 0 NORMAL] t(1) u by blast
qed

end
