(* ===== verification/FS_Cache_View.thy ===== *)
theory FS_Cache_View
  imports FS_Cache_Inv
begin

section \<open>FS: what the block cache holds\<close>

text \<open>
  The cache over disks whose tasks serve every request. \<open>view\<close> is the content of the blocks as the clients of
  the cache see it; the locale \<open>block_store\<close> is the interface that they use, and its interpretation \<open>blocks\<close>
  shows that \<open>get_block\<close> and \<open>put_block\<close> provide it. \<open>cache_transparent\<close> is the refinement of an array of blocks.
\<close>

subsection \<open>Devices and their media\<close>

lemma dev_split: "unat dev = 256 * major_of dev + minor_of dev"
proof -
  have "dev AND 0xFF = take_bit 8 dev" by (simp add: take_bit_eq_mask mask_eq_exp_minus_1)
  then have m: "minor_of dev = take_bit 8 (unat dev)" by (simp only: minor_of_def unsigned_take_bit_eq)
  have "drop_bit 8 dev AND 0xFF = take_bit 8 (drop_bit 8 dev)" by (simp add: take_bit_eq_mask mask_eq_exp_minus_1)
  then have "major_of dev = take_bit 8 (unat (drop_bit 8 dev))" by (simp add: major_of_def unsigned_take_bit_eq)
  also have "\<dots> = (unat dev div 256) mod 256" unfolding unat_drop_bit_eq by (simp add: drop_bit_eq_div take_bit_eq_mod)
  also have "\<dots> = unat dev div 256"
  proof -
    have "unat dev < 65536" using unsigned_less [of dev] by simp
    then have "unat dev div 256 < 256" by (simp add: less_mult_imp_div_less)
    then show ?thesis by simp
  qed
  finally show ?thesis using m by (simp add: take_bit_eq_mod)
qed

lemma disk_dev_not_no_dev: "disk_dev dev \<Longrightarrow> dev \<noteq> NO_DEV"
proof
  assume "disk_dev dev" "dev = NO_DEV"
  moreover have "major_of NO_DEV = 255" by (simp add: major_of_def)
  ultimately show False by (simp add: disk_dev_def)
qed

lemma unit_of_disk: "disk_dev dev \<Longrightarrow> unit_of dev s = (dmap_task (major_of dev), minor_of dev)"
  by (auto simp: unit_of_def disk_dev_def)

lemma unit_of_inj:
  assumes "disk_dev d" and "disk_dev e" and "unit_of d s = unit_of e t"
  shows "d = e"
proof -
  have "major_of d = major_of e" "minor_of d = minor_of e"
    using assms by (auto simp: unit_of_disk disk_dev_def dmap_task_def)
  then have "unat d = unat e" by (simp add: dev_split)
  then show ?thesis by (simp add: word_unat_eq_iff)
qed

lemma find_dev_disk: "disk_dev dev \<Longrightarrow> find_dev dev = Done (major_of dev, minor_of dev, dmap_task (major_of dev))"
  by (auto simp: find_dev_def disk_dev_def)

subsection \<open>I/O with tasks that serve every request\<close>

lemma answers_idem: "answers s = [] \<Longrightarrow> s\<lparr>answers := []\<rparr> = s"
  by (cases s) simp

lemma dev_io_served:
  assumes "answers s = []" and "disk_dev dev"
  shows "dev_io rw dev b bp s = Done (int BLOCK_SIZE, transfer rw (unit_of dev s) b bp (Some Full) s)"
  using assms by (simp add: dev_io_def find_dev_disk rep_status_def answers_idem Let_def)

lemma rw_block_read:
  assumes "answers s = []" and "disk_dev (b_dev (buf_tab s bp))"
  shows "rw_block bp READING s =
    Done (upd_buf bp (\<lambda>x. x\<lparr>b_data := disk s (unit_of (b_dev x) s) (b_blocknr x), b_dirt := False\<rparr>) s)"
  using assms disk_dev_not_no_dev [OF assms(2)]
  by (simp add: rw_block_def dev_io_served transfer_def fs_upd Let_def)

lemma rw_block_write:
  assumes "answers s = []" and "disk_dev (b_dev (buf_tab s bp))"
  shows "rw_block bp WRITING s = Done (clean bp (store_block (unit_of (b_dev (buf_tab s bp)) s)
    (b_blocknr (buf_tab s bp)) (b_data (buf_tab s bp)) s))"
  using assms disk_dev_not_no_dev [OF assms(2)]
  by (simp add: rw_block_def dev_io_served transfer_def fs_upd Let_def)

text \<open>\<open>flushed\<close> is what \<open>flushall\<close> comes down to then: the dirty blocks of the device are on the disk.\<close>

definition dirty_for :: "u16 \<Rightarrow> fs \<Rightarrow> nat list" where
  "dirty_for dev s = filter (\<lambda>i. b_dirt (buf_tab s i) \<and> b_dev (buf_tab s i) = dev) [0..<NR_BUFS]"

definition flushed :: "u16 \<Rightarrow> fs \<Rightarrow> fs" where
  "flushed dev s = s\<lparr>
     buf_tab := (\<lambda>i. if i \<in> set (dirty_for dev s) then (buf_tab s i)\<lparr>b_dirt := False\<rparr> else buf_tab s i),
     disk := (disk s)(unit_of dev s := (\<lambda>b.
       case find (\<lambda>i. b_blocknr (buf_tab s i) = b) (dirty_for dev s) of
         Some i \<Rightarrow> b_data (buf_tab s i) | None \<Rightarrow> disk s (unit_of dev s) b))\<rparr>"

definition stored :: "int \<times> nat \<Rightarrow> nat list \<Rightarrow> fs \<Rightarrow> fs" where
  "stored u q s = s\<lparr>disk := (disk s)(u := (\<lambda>b.
     case find (\<lambda>i. b_blocknr (buf_tab s i) = b) q of Some i \<Rightarrow> b_data (buf_tab s i) | None \<Rightarrow> disk s u b))\<rparr>"

lemma find_distinct_key:
  assumes "i \<in> set q" and "\<And>j. j \<in> set q \<Longrightarrow> key j = key i \<Longrightarrow> j = i"
  shows "find (\<lambda>j. key j = key i) q = Some i"
  using assms by (induction q) auto

lemma serve_vector_stored:
  assumes "inj_on (\<lambda>i. b_blocknr (buf_tab s i)) (set q)" and "distinct q"
  shows "serve_vector WRITING u [] q s = (map (\<lambda>_. 0) q, stored u q s)"
  using assms
proof (induction q arbitrary: s)
  case Nil
  then show ?case by (cases s) (simp add: stored_def)
next
  case (Cons i q)
  let ?s = "store_block u (b_blocknr (buf_tab s i)) (b_data (buf_tab s i)) s"
  have ih: "serve_vector WRITING u [] q ?s = (map (\<lambda>_. 0) q, stored u q ?s)"
    using Cons.prems by (intro Cons.IH) (auto simp: store_block_def inj_on_def)
  have n: "find (\<lambda>j. b_blocknr (buf_tab s j) = b_blocknr (buf_tab s i)) q = None"
    using Cons.prems by (auto simp: find_None_iff inj_on_def)
  have "(case find (\<lambda>j. b_blocknr (buf_tab s j) = b) q of Some j \<Rightarrow> b_data (buf_tab s j)
        | None \<Rightarrow> ((disk s u)(b_blocknr (buf_tab s i) := b_data (buf_tab s i))) b) =
      (case find (\<lambda>j. b_blocknr (buf_tab s j) = b) (i # q) of Some j \<Rightarrow> b_data (buf_tab s j)
        | None \<Rightarrow> disk s u b)" for b
    using n by (cases "b_blocknr (buf_tab s i) = b") (auto split: option.split)
  then have "stored u q ?s = stored u (i # q) s" by (simp add: stored_def store_block_def cong: option.case_cong)
  then show ?case using ih by (simp add: serve_one_def transfer_def Let_def)
qed

lemma harvest_cleans:
  "seq_all (harvest WRITING dev) (zip q (map (\<lambda>_. 0) q)) s =
     Done (s\<lparr>buf_tab := (\<lambda>i. if i \<in> set q then (buf_tab s i)\<lparr>b_dirt := False\<rparr> else buf_tab s i)\<rparr>)"
proof (induction q arbitrary: s)
  case Nil
  then show ?case by simp
next
  case (Cons i q)
  have "seq_all (harvest WRITING dev) (zip (i # q) (map (\<lambda>_. 0) (i # q))) s =
      seq_all (harvest WRITING dev) (zip q (map (\<lambda>_. 0) q)) (clean i s)" by (simp add: harvest_def)
  also have "\<dots> = Done (s\<lparr>buf_tab := (\<lambda>j. if j \<in> set (i # q) then (buf_tab s j)\<lparr>b_dirt := False\<rparr> else buf_tab s j)\<rparr>)"
    unfolding Cons by (auto simp: fs_upd fun_eq_iff)
  finally show ?case .
qed

lemma find_perm:
  assumes "mset p = mset q" and "inj_on key (set q)" and "distinct q"
  shows "find (\<lambda>i. key i = b) p = find (\<lambda>i. key i = b) q"
proof (cases "\<exists>i \<in> set q. key i = b")
  case True
  then obtain i where i: "i \<in> set q" "key i = b" by blast
  have "set p = set q" using assms(1) by (rule mset_eq_setD)
  then have "find (\<lambda>j. key j = key i) p = Some i" "find (\<lambda>j. key j = key i) q = Some i"
    using i assms(2) by (auto intro!: find_distinct_key simp: inj_on_def)
  then show ?thesis using i(2) by simp
next
  case False
  moreover have "set p = set q" using assms(1) by (rule mset_eq_setD)
  ultimately have "find (\<lambda>i. key i = b) p = None" "find (\<lambda>i. key i = b) q = None"
    by (simp_all add: find_None_iff)
  then show ?thesis by simp
qed

lemma flushall_served:
  assumes "answers s = []" and "disk_dev dev" and "uniq s"
  shows "flushall dev s = Done (flushed dev s)"
proof -
  let ?q = "dirty_for dev s"
  let ?k = "\<lambda>i. b_blocknr (buf_tab s i)"
  let ?p = "shell_sort ?k ?q"
  have inj: "inj_on ?k (set ?q)" and d: "distinct ?q"
    using assms(3) disk_dev_not_no_dev [OF assms(2)] by (auto simp: dirty_for_def inj_on_def uniq_def)
  have m: "mset ?p = mset ?q" by (rule shell_sort_sorts)
  then have p: "set ?p = set ?q" "distinct ?p" using d by (auto dest: mset_eq_setD mset_eq_imp_distinct_iff)
  have len: "length ?q \<le> NR_BUFS" unfolding dirty_for_def by (rule order_trans [OF length_filter_le]) simp
  show ?thesis
  proof (cases "?q = []")
    case True
    then have "flushed dev s = s" by (cases s) (simp add: flushed_def)
    then show ?thesis using True by (simp add: flushall_def rw_scattered_def flip: dirty_for_def)
  next
    case False
    have "stored (unit_of dev s) ?p s = stored (unit_of dev s) ?q s"
      unfolding stored_def using find_perm [OF m inj d] by simp
    then have "dev_io_scattered WRITING dev ?p s = Done (map (\<lambda>_. 0) ?p, stored (unit_of dev s) ?q s)"
      using assms(1,2) inj p
      by (simp add: dev_io_scattered_def find_dev_disk answer_vector_def rep_status_def answers_idem serve_vector_stored)
    then have "flushall dev s = seq_all (harvest WRITING dev) (zip ?p (map (\<lambda>_. 0) ?p)) (stored (unit_of dev s) ?q s)"
      using False len by (simp add: flushall_def rw_scattered_def Let_def flip: dirty_for_def)
    also have "\<dots> = Done (flushed dev s)" unfolding harvest_cleans p(1) by (simp add: stored_def flushed_def cong: if_cong)
    finally show ?thesis .
  qed
qed

subsection \<open>What the cache and the disk hold together\<close>

text \<open>
  \<open>view s (dev, b)\<close> is the content of a block as the file system sees it: what the buffer for it holds,
  or the disk if there is none. \<open>coherent X s\<close>: a clean buffer holds what the disk holds, except for the
  buffers \<open>X\<close> whose users have not filled them yet.
\<close>

definition cached :: "u16 \<Rightarrow> u16 \<Rightarrow> fs \<Rightarrow> nat option" where
  "cached dev b s = find (\<lambda>i. b_dev (buf_tab s i) = dev \<and> b_blocknr (buf_tab s i) = b) [0..<NR_BUFS]"

definition view :: "fs \<Rightarrow> u16 \<times> u16 \<Rightarrow> block_data" where
  "view s k = (case cached (fst k) (snd k) s of
      Some i \<Rightarrow> b_data (buf_tab s i) | None \<Rightarrow> disk s (unit_of (fst k) s) (snd k))"

definition coherent :: "nat set \<Rightarrow> fs \<Rightarrow> bool" where
  "coherent X s \<longleftrightarrow> (\<forall>i < NR_BUFS. i \<notin> X \<longrightarrow> b_dev (buf_tab s i) \<noteq> NO_DEV \<longrightarrow> \<not> b_dirt (buf_tab s i) \<longrightarrow>
     b_data (buf_tab s i) = disk s (unit_of (b_dev (buf_tab s i)) s) (b_blocknr (buf_tab s i)))"

lemma uncached_iff: "cached dev b s = None \<longleftrightarrow> uncached dev b s"
  by (auto simp: cached_def uncached_def find_None_iff)

lemma cached_Some_iff:
  assumes "uniq s" and "dev \<noteq> NO_DEV"
  shows "cached dev b s = Some i \<longleftrightarrow> i < NR_BUFS \<and> b_dev (buf_tab s i) = dev \<and> b_blocknr (buf_tab s i) = b"
proof
  assume "cached dev b s = Some i"
  then show "i < NR_BUFS \<and> b_dev (buf_tab s i) = dev \<and> b_blocknr (buf_tab s i) = b"
    by (auto simp: cached_def find_Some_iff)
next
  assume i: "i < NR_BUFS \<and> b_dev (buf_tab s i) = dev \<and> b_blocknr (buf_tab s i) = b"
  then have "cached dev b s \<noteq> None" by (auto simp: cached_def find_None_iff)
  then obtain j where j: "cached dev b s = Some j" by blast
  then have "j < NR_BUFS" "b_dev (buf_tab s j) = dev" "b_blocknr (buf_tab s j) = b" by (auto simp: cached_def find_Some_iff)
  then have "j = i" using assms i unfolding uniq_def by (metis (no_types))
  with j show "cached dev b s = Some i" by simp
qed

lemma view_cached:
  "uniq s \<Longrightarrow> dev \<noteq> NO_DEV \<Longrightarrow> i < NR_BUFS \<Longrightarrow> b_dev (buf_tab s i) = dev \<Longrightarrow> b_blocknr (buf_tab s i) = b \<Longrightarrow>
   view s (dev, b) = b_data (buf_tab s i)"
  using cached_Some_iff [of s dev b i] by (simp add: view_def)

lemma view_uncached: "uncached dev b s \<Longrightarrow> view s (dev, b) = disk s (unit_of dev s) b"
  using uncached_iff [of dev b s] by (simp add: view_def)

lemma cached_cases:
  obtains (yes) i where "i < NR_BUFS" "b_dev (buf_tab s i) = dev" "b_blocknr (buf_tab s i) = b" | (no) "uncached dev b s"
  unfolding uncached_def by blast

lemma unit_of_same: "disk_dev d \<Longrightarrow> unit_of d t = unit_of d s"
  by (simp add: unit_of_disk)

lemma flushed_fields [simp]:
  "b_data (buf_tab (flushed dev s) i) = b_data (buf_tab s i)" "b_dev (buf_tab (flushed dev s) i) = b_dev (buf_tab s i)"
  "b_blocknr (buf_tab (flushed dev s) i) = b_blocknr (buf_tab s i)" "b_count (buf_tab (flushed dev s) i) = b_count (buf_tab s i)"
  "b_dirt (buf_tab (flushed dev s) i) \<longleftrightarrow> b_dirt (buf_tab s i) \<and> i \<notin> set (dirty_for dev s)"
  "answers (flushed dev s) = answers s"
  by (simp_all add: flushed_def)

lemma set_dirty_for: "i \<in> set (dirty_for dev s) \<longleftrightarrow> i < NR_BUFS \<and> b_dirt (buf_tab s i) \<and> b_dev (buf_tab s i) = dev"
  by (auto simp: dirty_for_def)

lemma flushed_disk:
  assumes "uniq s" and "disk_dev dev" and "disk_dev d"
  shows "\<lbrakk> d = dev; i < NR_BUFS; b_dirt (buf_tab s i); b_dev (buf_tab s i) = dev; b_blocknr (buf_tab s i) = b \<rbrakk> \<Longrightarrow>
      disk (flushed dev s) (unit_of d s) b = b_data (buf_tab s i)"
    and "(\<And>i. i < NR_BUFS \<Longrightarrow> b_dirt (buf_tab s i) \<Longrightarrow> b_dev (buf_tab s i) = d \<Longrightarrow> b_blocknr (buf_tab s i) \<noteq> b) \<Longrightarrow>
      disk (flushed dev s) (unit_of d s) b = disk s (unit_of d s) b"
proof -
  assume i: "d = dev" "i < NR_BUFS" "b_dirt (buf_tab s i)" "b_dev (buf_tab s i) = dev" "b_blocknr (buf_tab s i) = b"
  have "find (\<lambda>j. b_blocknr (buf_tab s j) = b_blocknr (buf_tab s i)) (dirty_for dev s) = Some i"
    using i assms(1) disk_dev_not_no_dev [OF assms(2)]
    by (intro find_distinct_key) (auto simp: set_dirty_for uniq_def)
  then show "disk (flushed dev s) (unit_of d s) b = b_data (buf_tab s i)" using i by (simp add: flushed_def)
next
  assume n: "\<And>i. i < NR_BUFS \<Longrightarrow> b_dirt (buf_tab s i) \<Longrightarrow> b_dev (buf_tab s i) = d \<Longrightarrow> b_blocknr (buf_tab s i) \<noteq> b"
  show "disk (flushed dev s) (unit_of d s) b = disk s (unit_of d s) b"
  proof (cases "d = dev")
    case True
    then have "find (\<lambda>j. b_blocknr (buf_tab s j) = b) (dirty_for dev s) = None"
      using n by (auto simp: find_None_iff set_dirty_for)
    then show ?thesis using True by (simp add: flushed_def)
  next
    case False
    then have "unit_of d s \<noteq> unit_of dev s" using unit_of_inj [OF assms(3,2)] by blast
    then show ?thesis by (simp add: flushed_def)
  qed
qed

lemma flushed_view:
  assumes "uniq s" and "disk_dev dev" and "disk_dev d"
  shows "view (flushed dev s) (d, b) = view s (d, b)"
proof (cases rule: cached_cases [where s = s and dev = d and b = b])
  case (yes i)
  have "uniq (flushed dev s)" using assms(1) by (simp add: uniq_def)
  then show ?thesis using yes assms disk_dev_not_no_dev [OF assms(3)] by (simp add: view_cached)
next
  case no
  then have "uncached d b (flushed dev s)" by (simp add: uncached_def)
  then have "view (flushed dev s) (d, b) = disk (flushed dev s) (unit_of d s) b"
    by (simp add: view_uncached unit_of_same [OF assms(3), of "flushed dev s" s])
  also have "\<dots> = view s (d, b)" using no
    by (subst flushed_disk(2) [OF assms]) (auto simp: view_uncached uncached_def)
  finally show ?thesis .
qed

lemma flushed_coherent:
  assumes "uniq s" and "devs_ok s" and "disk_dev dev" and "coherent X s"
  shows "coherent X (flushed dev s)"
  unfolding coherent_def
proof (intro allI impI)
  fix i
  assume i: "i < NR_BUFS" "i \<notin> X" "b_dev (buf_tab (flushed dev s) i) \<noteq> NO_DEV" "\<not> b_dirt (buf_tab (flushed dev s) i)"
  let ?d = "b_dev (buf_tab s i)"
  have dd: "disk_dev ?d" using assms(2) i by (auto simp: devs_ok_def)
  have "b_data (buf_tab s i) = disk (flushed dev s) (unit_of ?d s) (b_blocknr (buf_tab s i))"
  proof (cases "b_dirt (buf_tab s i)")
    case True
    then have "?d = dev" using i by (simp add: set_dirty_for)
    then show ?thesis using flushed_disk(1) [OF assms(1,3) dd _ i(1) True] by simp
  next
    case False
    have "disk (flushed dev s) (unit_of ?d s) (b_blocknr (buf_tab s i)) = disk s (unit_of ?d s) (b_blocknr (buf_tab s i))"
    proof (rule flushed_disk(2) [OF assms(1,3) dd])
      fix j
      assume j: "j < NR_BUFS" "b_dirt (buf_tab s j)" "b_dev (buf_tab s j) = ?d"
      show "b_blocknr (buf_tab s j) \<noteq> b_blocknr (buf_tab s i)"
      proof
        assume "b_blocknr (buf_tab s j) = b_blocknr (buf_tab s i)"
        then have "j = i" using assms(1) j i unfolding uniq_def by simp
        with j False show False by simp
      qed
    qed
    then show ?thesis using assms(4) i False by (simp add: coherent_def)
  qed
  then show "b_data (buf_tab (flushed dev s) i) =
      disk (flushed dev s) (unit_of (b_dev (buf_tab (flushed dev s) i)) (flushed dev s)) (b_blocknr (buf_tab (flushed dev s) i))"
    using unit_of_same [OF dd, of "flushed dev s" s] by simp
qed

text \<open>Giving a buffer whose block is safe on the disk to another block changes the view of nothing else.\<close>

lemma reuse_view:
  assumes "uniq s" and "uniq t" and "bp < NR_BUFS" and "disk_dev d" and "disk t = disk s"
    and other: "\<And>i. i \<noteq> bp \<Longrightarrow> b_data (buf_tab t i) = b_data (buf_tab s i) \<and> b_dev (buf_tab t i) = b_dev (buf_tab s i) \<and>
      b_blocknr (buf_tab t i) = b_blocknr (buf_tab s i)"
    and safe: "b_dev (buf_tab s bp) = d \<Longrightarrow> b_blocknr (buf_tab s bp) = b \<Longrightarrow> b_data (buf_tab s bp) = disk s (unit_of d s) b"
    and new: "\<not> (b_dev (buf_tab t bp) = d \<and> b_blocknr (buf_tab t bp) = b)"
  shows "view t (d, b) = view s (d, b)"
proof -
  have nd: "d \<noteq> NO_DEV" using assms(4) by (rule disk_dev_not_no_dev)
  show ?thesis
  proof (cases rule: cached_cases [where s = s and dev = d and b = b])
    case (yes i)
    show ?thesis
    proof (cases "i = bp")
      case True
      have "uncached d b t" unfolding uncached_def
      proof (intro allI impI)
        fix j
        assume j: "j < NR_BUFS"
        show "\<not> (b_dev (buf_tab t j) = d \<and> b_blocknr (buf_tab t j) = b)"
        proof
          assume tj: "b_dev (buf_tab t j) = d \<and> b_blocknr (buf_tab t j) = b"
          then have "j \<noteq> bp" using new by auto
          then have "b_dev (buf_tab s j) = d" "b_blocknr (buf_tab s j) = b" using other tj by auto
          then have "j = bp" using assms(1) yes True j nd unfolding uniq_def by metis
          with \<open>j \<noteq> bp\<close> show False by simp
        qed
      qed
      then show ?thesis using yes True safe assms(5) nd
        by (simp add: view_uncached view_cached [OF assms(1)] unit_of_same [OF assms(4), of t s])
    next
      case False
      then show ?thesis using yes other [of i] nd by (simp add: view_cached [OF assms(1)] view_cached [OF assms(2)])
    qed
  next
    case no
    then have "uncached d b t" using other new unfolding uncached_def by metis
    then show ?thesis using no assms(5) by (simp add: view_uncached unit_of_same [OF assms(4), of t s])
  qed
qed

subsection \<open>get_block and put_block with tasks that serve every request\<close>

text \<open>Everything in the state but the cache and the disk.\<close>

definition rest :: "fs \<Rightarrow> fs" where
  "rest s = s\<lparr>buf_tab := (\<lambda>_. no_buf), buf_hash := (\<lambda>_. None), front := None, rear := None, bufs_in_use := 0,
     disk := (\<lambda>_ _ _. 0)\<rparr>"

lemma rest_upd [simp]:
  "rest (upd_buf i f s) = rest s" "rest (s\<lparr>buf_tab := a\<rparr>) = rest s" "rest (s\<lparr>buf_hash := b\<rparr>) = rest s"
  "rest (s\<lparr>front := c\<rparr>) = rest s" "rest (s\<lparr>rear := e\<rparr>) = rest s" "rest (s\<lparr>bufs_in_use := g\<rparr>) = rest s"
  "rest (s\<lparr>disk := h\<rparr>) = rest s" "rest (store_block u k v s) = rest s"
  by (simp_all add: rest_def fs_upd store_block_def)

lemma rest_frames:
  "hash_frame s t \<Longrightarrow> rest t = rest s" "lru_frame s t \<Longrightarrow> rest t = rest s"
  by (metis hash_frame_def rest_upd(2,3), metis lru_frame_def rest_upd(2,4,5))

lemma rest_more [simp]: "rest (flushed dev s) = rest s" "rest (hash_insert dev b bp s) = rest s"
  by (simp_all add: flushed_def hash_insert_def Let_def)

lemma rest_answers: "rest t = rest s \<Longrightarrow> answers t = answers s"
  unfolding rest_def by (drule arg_cong [of _ _ answers]) simp

definition victim_clean :: "nat \<Rightarrow> fs \<Rightarrow> fs" where
  "victim_clean bp s = (if b_dev (buf_tab s bp) \<noteq> NO_DEV \<and> b_dirt (buf_tab s bp) then flushed (b_dev (buf_tab s bp)) s else s)"

lemma flush_victim_served:
  assumes "answers s = []" and "uniq s" and "devs_ok s" and "coherent X s" and "bp < NR_BUFS"
  shows "flush_victim bp s = Done (victim_clean bp s)" "uniq (victim_clean bp s)" "coherent X (victim_clean bp s)"
    "disk_dev d \<Longrightarrow> view (victim_clean bp s) (d, b) = view s (d, b)" "rest (victim_clean bp s) = rest s"
    "b_dev (buf_tab (victim_clean bp s) bp) \<noteq> NO_DEV \<Longrightarrow> \<not> b_dirt (buf_tab (victim_clean bp s) bp)"
    "b_data (buf_tab (victim_clean bp s) i) = b_data (buf_tab s i)" "b_dev (buf_tab (victim_clean bp s) i) = b_dev (buf_tab s i)"
    "b_blocknr (buf_tab (victim_clean bp s) i) = b_blocknr (buf_tab s i)"
proof -
  have dd: "disk_dev (b_dev (buf_tab s bp))" if "b_dev (buf_tab s bp) \<noteq> NO_DEV" using assms(3,5) that by (auto simp: devs_ok_def)
  show "flush_victim bp s = Done (victim_clean bp s)"
    using flushall_served [OF assms(1) dd assms(2)] by (simp add: flush_victim_def victim_clean_def)
  show "uniq (victim_clean bp s)" using assms(2) by (simp add: victim_clean_def uniq_def)
  show "coherent X (victim_clean bp s)" using flushed_coherent [OF assms(2,3) dd assms(4)] assms(4) by (simp add: victim_clean_def)
  show "disk_dev d \<Longrightarrow> view (victim_clean bp s) (d, b) = view s (d, b)"
    using flushed_view [OF assms(2) dd] by (simp add: victim_clean_def)
  show "rest (victim_clean bp s) = rest s" by (simp add: victim_clean_def)
  show "b_dev (buf_tab (victim_clean bp s) bp) \<noteq> NO_DEV \<Longrightarrow> \<not> b_dirt (buf_tab (victim_clean bp s) bp)"
    using assms(5) by (auto simp: victim_clean_def set_dirty_for split: if_splits)
  show "b_data (buf_tab (victim_clean bp s) i) = b_data (buf_tab s i)" "b_dev (buf_tab (victim_clean bp s) i) = b_dev (buf_tab s i)"
    "b_blocknr (buf_tab (victim_clean bp s) i) = b_blocknr (buf_tab s i)" by (simp_all add: victim_clean_def)
qed

definition filled :: "u16 \<Rightarrow> u16 \<Rightarrow> search_mode \<Rightarrow> nat \<Rightarrow> fs \<Rightarrow> fs" where
  "filled dev block mode bp s =
     (let t = hash_insert (if mode = PREFETCH then NO_DEV else dev) block bp s in
      if mode = NORMAL
      then upd_buf bp (\<lambda>x. x\<lparr>b_data := disk s (unit_of dev s) block, b_dirt := False\<rparr>) t else t)"

lemma fill_block_served:
  assumes "answers s = []" and "disk_dev dev"
  shows "fill_block dev block mode bp s = Done (bp, filled dev block mode bp s)"
proof (cases "mode = NORMAL")
  case True
  let ?t = "hash_insert dev block bp s"
  have u: "unit_of dev ?t = unit_of dev s" using unit_of_same [OF assms(2)] .
  have "rw_block bp READING ?t =
      Done (upd_buf bp (\<lambda>x. x\<lparr>b_data := disk s (unit_of dev s) block, b_dirt := False\<rparr>) ?t)"
    using rw_block_read [of ?t bp] assms u by (simp add: fs_upd)
  then show ?thesis using True disk_dev_not_no_dev [OF assms(2)] by (simp add: fill_block_def filled_def)
next
  case False
  then show ?thesis by (simp add: fill_block_def filled_def)
qed

lemma filled_fields:
  "b_dev (buf_tab (filled dev block mode bp s) i) =
     (if i = bp then if mode = PREFETCH then NO_DEV else dev else b_dev (buf_tab s i))"
  "b_blocknr (buf_tab (filled dev block mode bp s) i) = (if i = bp then block else b_blocknr (buf_tab s i))"
  "b_data (buf_tab (filled dev block mode bp s) i) =
     (if i = bp \<and> mode = NORMAL then disk s (unit_of dev s) block else b_data (buf_tab s i))"
  "b_dirt (buf_tab (filled dev block mode bp s) i) = (b_dirt (buf_tab s i) \<and> \<not> (i = bp \<and> mode = NORMAL))"
  "disk (filled dev block mode bp s) = disk s" "rest (filled dev block mode bp s) = rest s"
  by (auto simp: filled_def Let_def fs_upd hash_insert_def)

text \<open>What a call of \<open>get_block\<close> promises its caller.\<close>

definition got :: "u16 \<Rightarrow> u16 \<Rightarrow> search_mode \<Rightarrow> nat set \<Rightarrow> fs \<Rightarrow> nat \<Rightarrow> fs \<Rightarrow> bool" where
  "got dev block mode X s bp t \<longleftrightarrow>
     rest t = rest s \<and> coherent (if mode = NORMAL then X else insert bp X) t \<and>
     (\<forall>d b. disk_dev d \<longrightarrow> mode \<noteq> NO_READ \<or> (d, b) \<noteq> (dev, block) \<longrightarrow> view t (d, b) = view s (d, b)) \<and>
     (mode \<noteq> PREFETCH \<longrightarrow> b_dev (buf_tab t bp) = dev) \<and>
     (mode \<noteq> NO_READ \<longrightarrow> b_dev (buf_tab t bp) = dev \<longrightarrow> b_data (buf_tab t bp) = view s (dev, block)) \<and>
     (\<forall>i. b_count (buf_tab s i) \<noteq> 0 \<longrightarrow> b_data (buf_tab t i) = b_data (buf_tab s i) \<and>
        b_dev (buf_tab t i) = b_dev (buf_tab s i) \<and> b_blocknr (buf_tab t i) = b_blocknr (buf_tab s i))"

lemma filled_got:
  assumes u: "uniq s" "uniq (filled dev block mode bp s)" and c: "coherent X s" and bp: "bp < NR_BUFS" "bp \<notin> X"
    and d: "disk_dev dev" "uncached dev block s" and cl: "b_dev (buf_tab s bp) \<noteq> NO_DEV \<Longrightarrow> \<not> b_dirt (buf_tab s bp)"
  shows "coherent (if mode = NORMAL then X else insert bp X) (filled dev block mode bp s)"
    and "disk_dev e \<Longrightarrow> mode \<noteq> NO_READ \<or> (e, b) \<noteq> (dev, block) \<Longrightarrow>
      view (filled dev block mode bp s) (e, b) = view s (e, b)"
proof -
  let ?t = "filled dev block mode bp s"
  show "coherent (if mode = NORMAL then X else insert bp X) ?t"
    unfolding coherent_def
  proof (intro allI impI)
    fix i
    assume i: "i < NR_BUFS" "i \<notin> (if mode = NORMAL then X else insert bp X)" "b_dev (buf_tab ?t i) \<noteq> NO_DEV"
      "\<not> b_dirt (buf_tab ?t i)"
    show "b_data (buf_tab ?t i) = disk ?t (unit_of (b_dev (buf_tab ?t i)) ?t) (b_blocknr (buf_tab ?t i))"
    proof (cases "i = bp")
      case True
      then have "mode = NORMAL" using i(2) by (auto split: if_splits)
      then show ?thesis using True unit_of_same [OF d(1), of ?t s] by (simp add: filled_fields)
    next
      case False
      have "rest ?t = rest s" by (rule filled_fields)
      then have "fproc_tab ?t = fproc_tab s" "fp ?t = fp s"
        unfolding rest_def by (auto dest: arg_cong [of _ _ fproc_tab] arg_cong [of _ _ fp])
      then have "unit_of e ?t = unit_of e s" for e by (simp add: unit_of_def)
      then show ?thesis using False i c by (auto simp: filled_fields coherent_def split: if_splits)
    qed
  qed
  assume e: "disk_dev e" "mode \<noteq> NO_READ \<or> (e, b) \<noteq> (dev, block)"
  have nd: "dev \<noteq> NO_DEV" "e \<noteq> NO_DEV" using disk_dev_not_no_dev d(1) e(1) by blast+
  show "view ?t (e, b) = view s (e, b)"
  proof (cases "mode = NORMAL \<and> (e, b) = (dev, block)")
    case True
    then have "view ?t (dev, block) = b_data (buf_tab ?t bp)"
      using bp(1) nd by (intro view_cached [OF u(2)]) (simp_all add: filled_fields)
    then show ?thesis using True d(2) by (simp add: filled_fields view_uncached)
  next
    case False
    have "b_data (buf_tab s bp) = disk s (unit_of e s) b" if "b_dev (buf_tab s bp) = e" "b_blocknr (buf_tab s bp) = b"
      using c bp cl that nd(2) by (auto simp: coherent_def)
    moreover have "\<not> (b_dev (buf_tab ?t bp) = e \<and> b_blocknr (buf_tab ?t bp) = b)"
      using False e(2) nd(2) by (cases mode) (auto simp: filled_fields)
    ultimately show ?thesis using bp(1) e(1) u
      by (intro reuse_view [where bp = bp]) (auto simp: filled_fields)
  qed
qed

lemma view_cong:
  assumes "\<And>i. b_dev (buf_tab t i) = b_dev (buf_tab s i)" and "\<And>i. b_blocknr (buf_tab t i) = b_blocknr (buf_tab s i)"
    and "\<And>i. b_data (buf_tab t i) = b_data (buf_tab s i)" and "disk t = disk s" and "disk_dev d"
  shows "view t (d, b) = view s (d, b)"
  using assms(1-4) unit_of_same [OF assms(5), of t s] by (simp add: view_def cached_def split: option.split)

lemma coherent_cong:
  assumes "coherent X s" and "devs_ok s" and "\<And>i. b_dev (buf_tab t i) = b_dev (buf_tab s i)"
    and "\<And>i. b_blocknr (buf_tab t i) = b_blocknr (buf_tab s i)" and "\<And>i. b_data (buf_tab t i) = b_data (buf_tab s i)"
    and "\<And>i. b_dirt (buf_tab t i) = b_dirt (buf_tab s i)" and "disk t = disk s"
  shows "coherent X t"
proof -
  have "unit_of (b_dev (buf_tab s i)) t = unit_of (b_dev (buf_tab s i)) s" if "i < NR_BUFS" "b_dev (buf_tab s i) \<noteq> NO_DEV" for i
    using assms(2) that by (intro unit_of_same) (auto simp: devs_ok_def)
  then show ?thesis using assms(1) by (simp add: coherent_def assms(3-7))
qed

lemma cache_ok_parts: "cache_ok s \<Longrightarrow> uniq s \<and> devs_ok s"
  by (simp add: cache_ok_def cache_but_def)

lemma get_block_served:
  assumes ok: "cache_ok s" "coherent X s" "X \<subseteq> in_use s" and an: "answers s = []" and d: "disk_dev dev"
    and room: "in_use s \<noteq> {..<NR_BUFS} \<or> \<not> uncached dev block s" and cnt: "\<forall>i < NR_BUFS. b_count (buf_tab s i) \<noteq> 255"
  shows "\<exists>bp t. get_block dev block mode s = Done (bp, t) \<and> got dev block mode X s bp t"
proof -
  have nd: "dev \<noteq> NO_DEV" using d by (rule disk_dev_not_no_dev)
  have ud: "uniq s" "devs_ok s" using cache_ok_parts [OF ok(1)] by simp_all
  show ?thesis using ok(1)
  proof (cases rule: get_block_cases [where dev = dev and block = block and mode = mode])
    case (hit bp)
    let ?s = "if b_count (buf_tab s bp) = 0 then s\<lparr>bufs_in_use := bufs_in_use s + 1\<rparr> else s"
    let ?t = "upd_buf bp (\<lambda>x. x\<lparr>b_count := b_count x + 1\<rparr>) ?s"
    have f: "b_data (buf_tab ?t i) = b_data (buf_tab s i)" "b_dev (buf_tab ?t i) = b_dev (buf_tab s i)"
      "b_blocknr (buf_tab ?t i) = b_blocknr (buf_tab s i)" "b_dirt (buf_tab ?t i) = b_dirt (buf_tab s i)"
      "disk ?t = disk s" "rest ?t = rest s" for i by (auto simp: fs_upd)
    have "coherent X ?t" by (rule coherent_cong [OF ok(2) ud(2)]) (simp_all only: f)
    then have "coherent (if mode = NORMAL then X else insert bp X) ?t" by (auto simp: coherent_def)
    moreover have "view ?t (e, b) = view s (e, b)" if "disk_dev e" for e b
      using that by (intro view_cong) (simp_all only: f)
    moreover have "view s (dev, block) = b_data (buf_tab s bp)"
      using hit ud(1) nd by (intro view_cached) simp_all
    ultimately have "got dev block mode X s bp ?t" using hit(3) by (simp only: got_def f) simp
    then show ?thesis using hit(5) by blast
  next
    case full
    then show ?thesis using room nd by blast
  next
    case (miss us bp vs s1)
    note f = hash_frameD [OF miss(6), simplified] hash_frame_fields [OF miss(6), simplified]
    have s1: "uniq s1" "devs_ok s1" using miss(7) by (simp_all add: cache_but_def)
    have r1: "rest s1 = rest s" using rest_frames(1) [OF miss(6)] by simp
    have c1: "coherent X s1" by (rule coherent_cong [OF ok(2) ud(2)]) (simp_all only: f)
    have v1: "view s1 (e, b) = view s (e, b)" if "disk_dev e" for e b using that by (intro view_cong) (simp_all only: f)
    have a1: "answers s1 = []" using f an by simp
    note vc = flush_victim_served [OF a1 s1 c1 miss(2)]
    let ?s2 = "victim_clean bp s1"
    let ?t = "filled dev block mode bp ?s2"
    have bpX: "bp \<notin> X" using ok(3) miss(3) by (auto simp: in_use_def)
    have un: "uncached dev block ?s2" using miss(1) nd by (simp add: uncached_def vc(8,9) f)
    have "answers ?s2 = []" using rest_answers [OF vc(5)] a1 by simp
    then have g: "get_block dev block mode s = Done (bp, ?t)"
      using miss(8) vc(1) fill_block_served [OF _ d] by simp
    have "uniq ?t" using get_block_ok(1) [OF ok(1) _ g cnt] d cache_ok_parts by blast
    note fg = filled_got [OF vc(2) this vc(3) miss(2) bpX d un vc(6)]
    have "view ?s2 (dev, block) = view s (dev, block)" using vc(4) [OF d] v1 [OF d] by simp
    then have "disk ?s2 (unit_of dev ?s2) block = view s (dev, block)" using un by (simp add: view_uncached)
    then have "got dev block mode X s bp ?t"
      unfolding got_def using fg vc(4,5) v1 r1 miss(3) nd
      by (cases mode) (auto simp: filled_fields vc(7-9) f split: if_splits)
    then show ?thesis using g by blast
  qed
qed

definition written :: "nat \<Rightarrow> fs \<Rightarrow> fs" where
  "written bp s = clean bp (store_block (unit_of (b_dev (buf_tab s bp)) s) (b_blocknr (buf_tab s bp)) (b_data (buf_tab s bp)) s)"

lemma written_fields [simp]:
  "b_data (buf_tab (written bp s) i) = b_data (buf_tab s i)" "b_dev (buf_tab (written bp s) i) = b_dev (buf_tab s i)"
  "b_blocknr (buf_tab (written bp s) i) = b_blocknr (buf_tab s i)" "b_count (buf_tab (written bp s) i) = b_count (buf_tab s i)"
  "b_dirt (buf_tab (written bp s) i) = (b_dirt (buf_tab s i) \<and> i \<noteq> bp)" "rest (written bp s) = rest s"
  by (auto simp: written_def store_block_def fs_upd rest_def)

lemma written_disk:
  assumes "disk_dev (b_dev (buf_tab s bp))" and "disk_dev d"
  shows "disk (written bp s) (unit_of d s) b =
    (if d = b_dev (buf_tab s bp) \<and> b = b_blocknr (buf_tab s bp) then b_data (buf_tab s bp) else disk s (unit_of d s) b)"
proof (cases "d = b_dev (buf_tab s bp)")
  case False
  then have "unit_of d s \<noteq> unit_of (b_dev (buf_tab s bp)) s" using unit_of_inj [OF assms(2,1)] by blast
  then show ?thesis using False by (simp add: written_def store_block_def fs_upd)
qed (simp add: written_def store_block_def fs_upd)

lemma written_view:
  assumes "uniq s" and "bp < NR_BUFS" and "disk_dev (b_dev (buf_tab s bp))" and "disk_dev d"
  shows "view (written bp s) (d, b) = view s (d, b)"
proof (cases rule: cached_cases [where s = s and dev = d and b = b])
  case (yes i)
  have "uniq (written bp s)" using assms(1) by (simp add: uniq_def)
  then show ?thesis using yes assms(1) disk_dev_not_no_dev [OF assms(4)] by (simp add: view_cached)
next
  case no
  then have "uncached d b (written bp s)" "\<not> (d = b_dev (buf_tab s bp) \<and> b = b_blocknr (buf_tab s bp))"
    using assms(2) by (auto simp: uncached_def)
  then show ?thesis using no unit_of_same [OF assms(4), of "written bp s" s] written_disk [OF assms(3,4), of b]
    by (auto simp: view_uncached)
qed

lemma written_coherent:
  assumes "uniq s" and "devs_ok s" and "bp < NR_BUFS" and "b_dev (buf_tab s bp) \<noteq> NO_DEV" and "coherent X s"
  shows "coherent X (written bp s)"
  unfolding coherent_def
proof (intro allI impI)
  fix i
  assume i: "i < NR_BUFS" "i \<notin> X" "b_dev (buf_tab (written bp s) i) \<noteq> NO_DEV" "\<not> b_dirt (buf_tab (written bp s) i)"
  have dd: "disk_dev (b_dev (buf_tab s i))" "disk_dev (b_dev (buf_tab s bp))" using assms(2-4) i by (auto simp: devs_ok_def)
  have "i = bp" if "b_dev (buf_tab s i) = b_dev (buf_tab s bp)" "b_blocknr (buf_tab s i) = b_blocknr (buf_tab s bp)"
    using assms(1,3,4) i(1) that unfolding uniq_def by (metis (no_types))
  then show "b_data (buf_tab (written bp s) i) =
      disk (written bp s) (unit_of (b_dev (buf_tab (written bp s) i)) (written bp s)) (b_blocknr (buf_tab (written bp s) i))"
    using i assms(5) unit_of_same [OF dd(1), of "written bp s" s] written_disk [OF dd(2,1)]
    by (auto simp: coherent_def)
qed

lemma drop_view:
  assumes "uniq s" and "devs_ok s" and "bp < NR_BUFS" and "disk_dev d" and "bp \<notin> X" and "coherent X s"
    and "b_dev (buf_tab s bp) \<noteq> NO_DEV \<Longrightarrow> \<not> b_dirt (buf_tab s bp)"
  shows "view (drop_buf bp s) (d, b) = view s (d, b)"
proof -
  have nd: "d \<noteq> NO_DEV" using assms(4) by (rule disk_dev_not_no_dev)
  have "uniq (drop_buf bp s)" using assms(1) by (auto simp: uniq_def fs_upd split: if_splits)
  then show ?thesis using assms nd
    by (intro reuse_view [where bp = bp]) (auto simp: fs_upd coherent_def)
qed

definition keeps :: "fs \<Rightarrow> fs \<Rightarrow> bool" where
  "keeps s t \<longleftrightarrow> rest t = rest s \<and> (\<forall>d b. disk_dev d \<longrightarrow> view t (d, b) = view s (d, b))"

lemma keeps_trans: "keeps s t \<Longrightarrow> keeps t u \<Longrightarrow> keeps s u"
  by (simp add: keeps_def)

lemma put_block_served:
  assumes ok: "cache_ok s" "coherent X s" and an: "answers s = []" and bp: "bp < NR_BUFS" "bp \<notin> X"
    and c: "b_count (buf_tab s bp) \<noteq> 0"
  shows "\<exists>t. put_block (Some bp) ty s = Done t \<and> keeps s t \<and> coherent X t \<and>
    (\<forall>i. i \<noteq> bp \<longrightarrow> b_data (buf_tab t i) = b_data (buf_tab s i) \<and> b_dev (buf_tab t i) = b_dev (buf_tab s i) \<and>
       b_blocknr (buf_tab t i) = b_blocknr (buf_tab s i) \<and> b_dirt (buf_tab t i) = b_dirt (buf_tab s i))"
  using c
proof (cases rule: put_block_cases [where ty = ty])
  case shared
  let ?t = "upd_buf bp (\<lambda>x. x\<lparr>b_count := b_count x - 1\<rparr>) s"
  have f: "b_data (buf_tab ?t i) = b_data (buf_tab s i)" "b_dev (buf_tab ?t i) = b_dev (buf_tab s i)"
    "b_blocknr (buf_tab ?t i) = b_blocknr (buf_tab s i)" "b_dirt (buf_tab ?t i) = b_dirt (buf_tab s i)"
    "disk ?t = disk s" for i by (auto simp: fs_upd)
  have "coherent X ?t" using ok cache_ok_parts [OF ok(1)] by (intro coherent_cong [of X s ?t]) (simp_all only: f)
  moreover have "keeps s ?t" unfolding keeps_def by (auto intro!: view_cong simp: f)
  ultimately show ?thesis using shared(2) f by auto
next
  case (last s1)
  let ?u = "relink bp ty s1"
  note fr = lru_frame_bufs [OF relink_frame [of s1 bp ty]] lru_frame_fields [OF relink_frame [of s1 bp ty]]
  have f: "b_data (buf_tab ?u i) = b_data (buf_tab s i)" "b_dev (buf_tab ?u i) = b_dev (buf_tab s i)"
    "b_blocknr (buf_tab ?u i) = b_blocknr (buf_tab s i)" "b_dirt (buf_tab ?u i) = b_dirt (buf_tab s i)"
    "disk ?u = disk s" "answers ?u = []" for i unfolding fr using an by (simp_all add: last(2) fs_upd)
  have r: "rest ?u = rest s" unfolding rest_frames(2) [OF relink_frame] by (simp add: last(2))
  have ud: "uniq ?u" "devs_ok ?u" using cache_ok_parts [OF ok(1)] by (simp_all add: uniq_def devs_ok_def f)
  have k: "keeps s ?u" unfolding keeps_def using r by (auto intro!: view_cong simp: f)
  have co: "coherent X ?u" using ok cache_ok_parts [OF ok(1)] by (intro coherent_cong [of X s ?u]) (simp_all only: f)
  define w where "w = (ty AND WRITE_IMMED \<noteq> 0 \<and> b_dirt (buf_tab s bp) \<and> b_dev (buf_tab s bp) \<noteq> NO_DEV)"
  define v where "v = (if w then written bp ?u else ?u)"
  have dd: "disk_dev (b_dev (buf_tab ?u bp))" if w
    using that ud(2) bp(1) by (auto simp: w_def devs_ok_def f)
  have "rw_block bp WRITING ?u = Done (written bp ?u)" if w
    using rw_block_write [OF f(6) dd [OF that]] by (simp add: written_def)
  then have "(if w then rw_block bp WRITING ?u else Done ?u) = Done v" by (simp add: v_def)
  then have p: "put_block (Some bp) ty s = Done (if ty = ZUPER_BLOCK then drop_buf bp v else v)"
    using last(3) [folded w_def] by simp
  have nd: "b_dev (buf_tab ?u bp) \<noteq> NO_DEV" if w using that by (simp add: w_def f)
  have kv: "keeps ?u v" using written_view [OF ud(1) bp(1) dd] by (auto simp: keeps_def v_def)
  have cv: "coherent X v" using written_coherent [OF ud bp(1) nd co] co by (simp add: v_def)
  have uv: "uniq v" "devs_ok v" using ud by (simp_all add: v_def uniq_def devs_ok_def)
  have fv: "b_data (buf_tab v i) = b_data (buf_tab s i)" "b_dev (buf_tab v i) = b_dev (buf_tab s i)"
    "b_blocknr (buf_tab v i) = b_blocknr (buf_tab s i)" "i \<noteq> bp \<Longrightarrow> b_dirt (buf_tab v i) = b_dirt (buf_tab s i)" for i
    by (auto simp: v_def f)
  have dv: "b_dirt (buf_tab v bp) = (b_dirt (buf_tab s bp) \<and> \<not> w)" by (simp add: v_def f)
  show ?thesis
  proof (cases "ty = ZUPER_BLOCK")
    case True
    have cl: "\<not> b_dirt (buf_tab v bp)" if "b_dev (buf_tab v bp) \<noteq> NO_DEV" using that True by (auto simp: dv fv(2) w_def)
    have "keeps v (drop_buf bp v)" using drop_view [OF uv bp(1) _ bp(2) cv cl] by (simp add: keeps_def)
    moreover have "coherent X (drop_buf bp v)"
    proof -
      have "unit_of e (drop_buf bp v) = unit_of e v" for e by (simp add: unit_of_def fs_upd)
      then show ?thesis using cv by (simp add: coherent_def fs_upd)
    qed
    ultimately show ?thesis using p True k kv fv by (auto simp: fs_upd intro: keeps_trans)
  next
    case False
    then show ?thesis using p k kv cv fv by (auto intro: keeps_trans)
  qed
qed

subsection \<open>Which blocks are in the cache\<close>

lemma uncached_shape:
  assumes "shape_le s t" and "d \<noteq> NO_DEV" and "uncached d c s"
  shows "uncached d c t"
proof -
  have "b_dev (buf_tab t i) \<noteq> d \<or> b_blocknr (buf_tab t i) \<noteq> c" if "i < NR_BUFS" for i
  proof -
    have "b_dev (buf_tab t i) = b_dev (buf_tab s i) \<or> b_dev (buf_tab t i) = NO_DEV" using assms(1) by (simp add: shape_le_def)
    then show ?thesis using that assms(2,3) shape_le_fields(5) [OF assms(1), of i] by (auto simp: uncached_def)
  qed
  then show ?thesis by (auto simp: uncached_def)
qed

lemma get_block_uncached:
  assumes ok: "cache_ok s" and g: "get_block dev block mode s = Done (bp, t)" and d: "d \<noteq> NO_DEV" and u: "uncached d c s"
    and n: "mode = PREFETCH \<or> (d, c) \<noteq> (dev, block)"
  shows "uncached d c t"
  using ok
proof (cases rule: get_block_cases [where dev = dev and block = block and mode = mode])
  case (hit i)
  then show ?thesis using g u by (auto simp: uncached_def fs_upd)
next
  case full
  then show ?thesis using g by simp
next
  case (miss us i vs s1)
  obtain s2 where s2: "flush_victim i s1 = Done s2" "fill_block dev block mode i s2 = Done (bp, t)"
    using trans [OF miss(8) [symmetric] g] by (auto simp: outcome_simps)
  note f = hash_frameD [OF miss(6), simplified] hash_frame_fields [OF miss(6), simplified]
  have "uncached d c s1" using u by (simp add: uncached_def f)
  then have "uncached d c s2" using uncached_shape [OF flush_victim_shape [OF s2(1)] d] by simp
  then have "uncached d c (hash_insert (if mode = PREFETCH then NO_DEV else dev) block i s2)"
    using d n by (auto simp: uncached_def)
  moreover have "shape_le (hash_insert (if mode = PREFETCH then NO_DEV else dev) block i s2) t"
    using s2(2) by (auto simp: fill_block_def outcome_simps Let_def split: if_splits dest: rw_block_shape)
  ultimately show ?thesis using uncached_shape d by blast
qed

lemma put_block_uncached:
  assumes c: "b_count (buf_tab s bp) \<noteq> 0" and p: "put_block (Some bp) ty s = Done t" and d: "d \<noteq> NO_DEV" and u: "uncached d c s"
  shows "uncached d c t"
  using c
proof (cases rule: put_block_cases [where ty = ty])
  case shared
  then show ?thesis using p u by (auto simp: uncached_def fs_upd)
next
  case (last s1)
  let ?u = "relink bp ty s1"
  note fr = lru_frame_bufs [OF relink_frame [of s1 bp ty]]
  have u1: "uncached d c ?u" using u unfolding uncached_def fr by (simp add: last(2) fs_upd)
  obtain s4 where s4: "(if ty AND WRITE_IMMED \<noteq> 0 \<and> b_dirt (buf_tab s bp) \<and> b_dev (buf_tab s bp) \<noteq> NO_DEV
      then rw_block bp WRITING ?u else Done ?u) = Done s4" "t = (if ty = ZUPER_BLOCK then drop_buf bp s4 else s4)"
    using trans [OF last(3) [symmetric] p] by (auto simp: outcome_simps)
  have "shape_le ?u s4" using s4(1) by (auto split: if_splits dest: rw_block_shape)
  then have "shape_le ?u t" using s4(2) upd_shape_le(2) [of ?u s4 bp] by (cases "ty = ZUPER_BLOCK") simp_all
  then show ?thesis using uncached_shape d u1 by blast
qed

lemma get_block_miss:
  assumes ok: "cache_ok s" and g: "get_block dev block PREFETCH s = Done (bp, t)" and d: "disk_dev dev"
    and nd: "b_dev (buf_tab t bp) = NO_DEV"
  shows "uncached dev block s" and "b_count (buf_tab s bp) = 0"
  using ok d
proof (atomize (full), cases rule: get_block_cases [where dev = dev and block = block and mode = PREFETCH])
  case (hit i)
  then show "uncached dev block s \<and> b_count (buf_tab s bp) = 0" using g nd by (auto simp: fs_upd split: if_splits)
next
  case full
  then show "uncached dev block s \<and> b_count (buf_tab s bp) = 0" using g by simp
next
  case (miss us i vs s1)
  have "bp = i" using trans [OF miss(8) [symmetric] g] by (auto simp: outcome_simps fill_block_def Let_def)
  then show "uncached dev block s \<and> b_count (buf_tab s bp) = 0" using miss(1,3) disk_dev_not_no_dev [OF d] by simp
qed

subsection \<open>The cache as a store of blocks\<close>

text \<open>
  What the users of the cache rely on: \<open>get\<close> hands out a buffer with the content of the block, \<open>store\<close>
  changes the block that a buffer holds, \<open>put\<close> takes the buffer back, and nothing else changes what the
  blocks hold. \<open>load\<close> counts the users of each buffer, and \<open>room\<close> says when another one can be served.
\<close>

locale block_store =
  fixes inv :: "'s \<Rightarrow> bool"
    and load :: "'s \<Rightarrow> 'h \<Rightarrow> nat"
    and room :: "('h \<Rightarrow> nat) \<Rightarrow> bool"
    and rest :: "'s \<Rightarrow> 'r"
    and view :: "'s \<Rightarrow> 'k \<Rightarrow> 'v"
    and key :: "'k \<Rightarrow> bool"
    and holds :: "'s \<Rightarrow> 'h \<Rightarrow> 'k \<Rightarrow> bool"
    and content :: "'s \<Rightarrow> 'h \<Rightarrow> 'v"
    and get :: "'k \<Rightarrow> 's \<Rightarrow> ('h \<times> 's) outcome"
    and store :: "'h \<Rightarrow> 'v \<Rightarrow> 's \<Rightarrow> 's"
    and put :: "'h \<Rightarrow> 's \<Rightarrow> 's outcome"
  assumes get_law: "\<lbrakk> inv s; room (load s); key k \<rbrakk> \<Longrightarrow> \<exists>h t. get k s = Done (h, t) \<and> inv t \<and> holds t h k \<and>
      content t h = view s k \<and> (\<forall>j. key j \<longrightarrow> view t j = view s j) \<and> load t = (load s)(h := load s h + 1) \<and>
      rest t = rest s"
    and store_law: "\<lbrakk> inv s; holds s h k; key k \<rbrakk> \<Longrightarrow> inv (store h v s) \<and> holds (store h v s) h k \<and>
      view (store h v s) k = v \<and> (\<forall>j. key j \<longrightarrow> j \<noteq> k \<longrightarrow> view (store h v s) j = view s j) \<and>
      load (store h v s) = load s \<and> rest (store h v s) = rest s"
    and put_law: "\<lbrakk> inv s; holds s h k; key k \<rbrakk> \<Longrightarrow> \<exists>t. put h s = Done t \<and> inv t \<and>
      (\<forall>j. key j \<longrightarrow> view t j = view s j) \<and> load t = (load s)(h := load s h - 1) \<and> rest t = rest s"
begin

lemma read_one:
  assumes "inv s" and "room (load s)" and "key k"
  shows "\<exists>t. and_then (get k s) (\<lambda>(h, s1). and_then (put h s1) (\<lambda>s2. Done (content s1 h, s2))) = Done (view s k, t) \<and>
    inv t \<and> (\<forall>j. key j \<longrightarrow> view t j = view s j) \<and> load t = load s \<and> rest t = rest s"
proof -
  obtain h s1 where g: "get k s = Done (h, s1)" "inv s1" "holds s1 h k" "content s1 h = view s k"
    "\<forall>j. key j \<longrightarrow> view s1 j = view s j" "load s1 = (load s)(h := load s h + 1)" "rest s1 = rest s"
    using get_law [OF assms] by blast
  obtain t where "put h s1 = Done t" "inv t" "\<forall>j. key j \<longrightarrow> view t j = view s1 j"
    "load t = (load s1)(h := load s1 h - 1)" "rest t = rest s1" using put_law [OF g(2,3) assms(3)] by blast
  with g show ?thesis by (intro exI [of _ t]) (simp add: fun_eq_iff)
qed

lemma modify_one:
  assumes "inv s" and "room (load s)" and "key k"
  shows "\<exists>t. and_then (get k s) (\<lambda>(h, s1). put h (store h (f (content s1 h)) s1)) = Done t \<and>
    inv t \<and> view t k = f (view s k) \<and> (\<forall>j. key j \<longrightarrow> j \<noteq> k \<longrightarrow> view t j = view s j) \<and> load t = load s \<and> rest t = rest s"
proof -
  obtain h s1 where g: "get k s = Done (h, s1)" "inv s1" "holds s1 h k" "content s1 h = view s k"
    "\<forall>j. key j \<longrightarrow> view s1 j = view s j" "load s1 = (load s)(h := load s h + 1)" "rest s1 = rest s"
    using get_law [OF assms] by blast
  let ?s = "store h (f (view s k)) s1"
  have st: "inv ?s" "holds ?s h k" "view ?s k = f (view s k)" "\<forall>j. key j \<longrightarrow> j \<noteq> k \<longrightarrow> view ?s j = view s1 j"
    "load ?s = load s1" "rest ?s = rest s1" using store_law [OF g(2,3) assms(3)] by blast+
  obtain t where "put h ?s = Done t" "inv t" "\<forall>j. key j \<longrightarrow> view t j = view ?s j"
    "load t = (load ?s)(h := load ?s h - 1)" "rest t = rest ?s" using put_law [OF st(1,2) assms(3)] by blast
  with g st show ?thesis using assms(3) by (intro exI [of _ t]) (simp add: fun_eq_iff)
qed

end

definition cache_inv :: "fs \<Rightarrow> bool" where
  "cache_inv s \<longleftrightarrow> cache_ok s \<and> coherent {} s \<and> answers s = [] \<and> (\<forall>i < NR_BUFS. b_count (buf_tab s i) \<noteq> 255)"

definition users :: "fs \<Rightarrow> nat \<Rightarrow> nat" where
  "users s i = unat (b_count (buf_tab s i))"

definition has_room :: "(nat \<Rightarrow> nat) \<Rightarrow> bool" where
  "has_room l \<longleftrightarrow> (\<exists>i < NR_BUFS. l i = 0) \<and> (\<forall>i < NR_BUFS. l i < 254)"

definition holds_block :: "fs \<Rightarrow> nat \<Rightarrow> u16 \<times> u16 \<Rightarrow> bool" where
  "holds_block s i k \<longleftrightarrow> i < NR_BUFS \<and> b_count (buf_tab s i) \<noteq> 0 \<and>
     b_dev (buf_tab s i) = fst k \<and> b_blocknr (buf_tab s i) = snd k"

definition fill :: "nat \<Rightarrow> block_data \<Rightarrow> fs \<Rightarrow> fs" where
  "fill i d s = upd_buf i (\<lambda>x. x\<lparr>b_data := d, b_dirt := True\<rparr>) s"

lemma fill_fields [simp]:
  "b_data (buf_tab (fill i d s) j) = (if j = i then d else b_data (buf_tab s j))"
  "b_dev (buf_tab (fill i d s) j) = b_dev (buf_tab s j)" "b_blocknr (buf_tab (fill i d s) j) = b_blocknr (buf_tab s j)"
  "b_count (buf_tab (fill i d s) j) = b_count (buf_tab s j)"
  "b_dirt (buf_tab (fill i d s) j) = (j = i \<or> b_dirt (buf_tab s j))" "disk (fill i d s) = disk s"
  "answers (fill i d s) = answers s" "rest (fill i d s) = rest s" "unit_of e (fill i d s) = unit_of e s"
  by (auto simp: fill_def fs_upd rest_def unit_of_def)

lemma fill_ok: "cache_ok s \<Longrightarrow> cache_ok (fill i d s)"
  unfolding fill_def by (rule upd_data_ok)

lemma fill_coherent: "coherent (insert i X) s \<Longrightarrow> coherent X (fill i d s)"
  by (auto simp: coherent_def)

lemma fill_view:
  assumes "uniq s" and "i < NR_BUFS" and "b_dev (buf_tab s i) = dev" and "b_blocknr (buf_tab s i) = b"
    and "disk_dev dev" and "disk_dev e"
  shows "view (fill i d s) (e, c) = (if (e, c) = (dev, b) then d else view s (e, c))"
proof (cases rule: cached_cases [where s = s and dev = e and b = c])
  case (yes j)
  have u: "uniq (fill i d s)" using assms(1) by (simp add: uniq_def)
  have nd: "e \<noteq> NO_DEV" using assms(6) by (rule disk_dev_not_no_dev)
  have "j = i \<longleftrightarrow> (e, c) = (dev, b)"
    using assms(1-4) yes nd unfolding uniq_def by (metis fst_conv snd_conv)
  then show ?thesis using yes nd by (simp add: view_cached [OF u] view_cached [OF assms(1)])
next
  case no
  then have "uncached e c (fill i d s)" "(e, c) \<noteq> (dev, b)" using assms(2-4) by (auto simp: uncached_def)
  then show ?thesis using no by (auto simp: view_uncached)
qed

lemma unat_succ: "x \<noteq> (255 :: u8) \<Longrightarrow> unat (x + 1) = unat x + 1"
proof -
  assume "x \<noteq> 255"
  then have "unat x \<noteq> 255" by (simp add: word_unat_eq_iff)
  moreover have "unat x < 256" using unsigned_less [of x] by simp
  ultimately show ?thesis by (simp add: unat_add_below)
qed

lemma unat_pred: "x \<noteq> (0 :: u8) \<Longrightarrow> unat (x - 1) = unat x - 1"
  by (simp add: unat_minus_one)

lemma room_in_use: "has_room (users s) \<Longrightarrow> in_use s \<noteq> {..<NR_BUFS}"
proof
  assume "has_room (users s)" "in_use s = {..<NR_BUFS}"
  then obtain i where "i < NR_BUFS" "unat (b_count (buf_tab s i)) = 0" "i \<in> in_use s"
    by (auto simp: has_room_def users_def)
  then show False by (simp add: in_use_def unat_eq_zero)
qed

lemma room_counts: "has_room (users s) \<Longrightarrow> i < NR_BUFS \<Longrightarrow> b_count (buf_tab s i) \<noteq> 255 \<and> b_count (buf_tab s i) + 1 \<noteq> 255"
proof -
  assume r: "has_room (users s)" "i < NR_BUFS"
  then have l: "unat (b_count (buf_tab s i)) < 254" by (simp add: has_room_def users_def)
  then have a: "b_count (buf_tab s i) \<noteq> 255" by auto
  then have "unat (b_count (buf_tab s i) + 1) < 255" using l by (simp add: unat_succ)
  with a show ?thesis by auto
qed

lemma get_new:
  assumes "cache_inv s" and "has_room (users s)" and "disk_dev dev"
  obtains bp t where "get_block dev b mode s = Done (bp, t)" "got dev b mode {} s bp t" "cache_ok t" "bp < NR_BUFS"
    "users t = (users s)(bp := users s bp + 1)" "b_count (buf_tab t bp) \<noteq> 0" "b_blocknr (buf_tab t bp) = b"
    "\<forall>i < NR_BUFS. b_count (buf_tab t i) \<noteq> 255" "answers t = []"
proof -
  have s: "cache_ok s" "coherent {} s" "answers s = []" "\<forall>i < NR_BUFS. b_count (buf_tab s i) \<noteq> 255"
    using assms(1) by (simp_all add: cache_inv_def)
  obtain bp t where g: "get_block dev b mode s = Done (bp, t)" "got dev b mode {} s bp t"
    using get_block_served [OF s(1,2) _ s(3) assms(3) _ s(4), of b mode] room_in_use [OF assms(2)] by auto
  note k = get_block_ok [OF s(1) _ g(1) s(4)]
  have bp: "bp < NR_BUFS" using k(2) assms(3) by blast
  have c: "b_count (buf_tab t i) = (if i = bp then b_count (buf_tab s bp) + 1 else b_count (buf_tab s i))" for i
    using k(5) assms(3) by blast
  have n: "unat (b_count (buf_tab s bp) + 1) = unat (b_count (buf_tab s bp)) + 1" using s(4) bp by (simp add: unat_succ)
  then have "users t = (users s)(bp := users s bp + 1)" by (auto simp: users_def c fun_eq_iff)
  moreover have "b_count (buf_tab t bp) \<noteq> 0" using n by (auto simp: c simp flip: unat_eq_zero)
  moreover have "\<forall>i < NR_BUFS. b_count (buf_tab t i) \<noteq> 255" using s(4) room_counts [OF assms(2)] by (simp add: c)
  moreover have "answers t = []" using g(2) s(3) rest_answers [of t s] by (simp add: got_def)
  ultimately show thesis using g k(1,3) assms(3) bp by (intro that) blast+
qed

lemma put_held:
  assumes "cache_inv s" and "holds_block s i k"
  shows "\<exists>t. put_block (Some i) ty s = Done t \<and> cache_inv t \<and> keeps s t \<and> users t = (users s)(i := users s i - 1)"
proof -
  have s: "cache_ok s" "coherent {} s" "answers s = []" "\<forall>i < NR_BUFS. b_count (buf_tab s i) \<noteq> 255"
    and i: "i < NR_BUFS" "b_count (buf_tab s i) \<noteq> 0"
    using assms by (simp_all add: cache_inv_def holds_block_def)
  obtain t where t: "put_block (Some i) ty s = Done t" "keeps s t" "coherent {} t"
    using put_block_served [OF s(1-3) i(1) _ i(2), of ty] by auto
  note k = put_block_ok [OF s(1) i t(1)]
  have u: "users t = (users s)(i := users s i - 1)" using i by (auto simp: users_def k(2) fun_eq_iff unat_pred)
  have "b_count (buf_tab t j) \<noteq> 255" if "j < NR_BUFS" for j
  proof -
    have "unat (b_count (buf_tab s i) - 1) < 255"
    proof -
      have "unat (b_count (buf_tab s i)) < 256" using unsigned_less [of "b_count (buf_tab s i)", where ?'a = nat] by simp
      moreover have "unat (b_count (buf_tab s i)) \<noteq> 0" using i(2) by (simp add: unat_eq_zero)
      ultimately show ?thesis using unat_pred [OF i(2)] by simp
    qed
    then have "b_count (buf_tab s i) - 1 \<noteq> 255" by auto
    then show ?thesis using s(4) that by (simp add: k(2))
  qed
  moreover have "answers t = []" using t(2) s(3) rest_answers [of t s] by (simp add: keeps_def)
  ultimately show ?thesis using t u k(1) by (auto simp: cache_inv_def)
qed

interpretation blocks: block_store cache_inv users has_room rest view "\<lambda>k. disk_dev (fst k)" holds_block
  "\<lambda>s i. b_data (buf_tab s i)" "\<lambda>k. get_block (fst k) (snd k) NORMAL" fill "\<lambda>i. put_block (Some i) ty" for ty
proof
  fix s :: fs and k :: "u16 \<times> u16"
  assume a: "cache_inv s" "has_room (users s)" "disk_dev (fst k)"
  then obtain bp t where "get_block (fst k) (snd k) NORMAL s = Done (bp, t)" "got (fst k) (snd k) NORMAL {} s bp t"
    "cache_ok t" "bp < NR_BUFS" "users t = (users s)(bp := users s bp + 1)" "b_count (buf_tab t bp) \<noteq> 0"
    "b_blocknr (buf_tab t bp) = snd k" "\<forall>i < NR_BUFS. b_count (buf_tab t i) \<noteq> 255" "answers t = []" by (rule get_new)
  then show "\<exists>h t. get_block (fst k) (snd k) NORMAL s = Done (h, t) \<and> cache_inv t \<and> holds_block t h k \<and>
      b_data (buf_tab t h) = view s k \<and> (\<forall>j. disk_dev (fst j) \<longrightarrow> view t j = view s j) \<and>
      users t = (users s)(h := users s h + 1) \<and> rest t = rest s"
    by (intro exI [of _ bp] exI [of _ t]) (auto simp: got_def cache_inv_def holds_block_def)
next
  fix s :: fs and h k v
  assume a: "cache_inv s" "holds_block s h k" "disk_dev (fst k)"
  have u: "uniq s" using a(1) cache_ok_parts by (simp add: cache_inv_def)
  have co: "coherent {} (fill h v s)" using a(1) by (intro fill_coherent) (simp add: cache_inv_def coherent_def)
  have vw: "disk_dev (fst j) \<Longrightarrow> view (fill h v s) j = (if j = k then v else view s j)" for j
    using fill_view [OF u, of h "fst k" "snd k" "fst j" v "snd j"] a by (simp add: holds_block_def)
  show "cache_inv (fill h v s) \<and> holds_block (fill h v s) h k \<and> view (fill h v s) k = v \<and>
      (\<forall>j. disk_dev (fst j) \<longrightarrow> j \<noteq> k \<longrightarrow> view (fill h v s) j = view s j) \<and>
      users (fill h v s) = users s \<and> rest (fill h v s) = rest s"
    using a co vw fill_ok [of s h v] by (auto simp: cache_inv_def holds_block_def users_def fun_eq_iff)
next
  fix s :: fs and h k
  assume "cache_inv s" "holds_block s h k" "disk_dev (fst k)"
  then show "\<exists>t. put_block (Some h) ty s = Done t \<and> cache_inv t \<and> (\<forall>j. disk_dev (fst j) \<longrightarrow> view t j = view s j) \<and>
      users t = (users s)(h := users s h - 1) \<and> rest t = rest s"
    using put_held [of s h k ty] by (auto simp: keeps_def)
qed

subsection \<open>The cache is transparent\<close>

text \<open>
  Clients read a block, or overwrite it, each with the release that suits them; a block that is overwritten
  in full need not be read first (\<open>whole\<close>). The specification is an array of blocks.
\<close>

datatype block_op = Read_block u16 u16 u8 | Write_block u16 u16 bool block_data u8

fun run_op :: "block_op \<Rightarrow> fs \<Rightarrow> (block_data list \<times> fs) outcome" where
  "run_op (Read_block dev b ty) s =
     and_then (get_block dev b NORMAL s) (\<lambda>(h, s1).
       and_then (put_block (Some h) ty s1) (\<lambda>s2. Done ([b_data (buf_tab s1 h)], s2)))"
| "run_op (Write_block dev b whole d ty) s =
     and_then (get_block dev b (if whole then NO_READ else NORMAL) s) (\<lambda>(h, s1).
       and_then (put_block (Some h) ty (fill h d s1)) (\<lambda>s2. Done ([], s2)))"

fun run_ops :: "block_op list \<Rightarrow> fs \<Rightarrow> (block_data list \<times> fs) outcome" where
  "run_ops [] s = Done ([], s)"
| "run_ops (x # xs) s = and_then (run_op x s) (\<lambda>(o1, s1). and_then (run_ops xs s1) (\<lambda>(o2, s2). Done (o1 @ o2, s2)))"

fun spec_ops :: "block_op list \<Rightarrow> (u16 \<times> u16 \<Rightarrow> block_data) \<Rightarrow> block_data list \<times> (u16 \<times> u16 \<Rightarrow> block_data)" where
  "spec_ops [] V = ([], V)"
| "spec_ops (Read_block dev b ty # xs) V = (V (dev, b) # fst (spec_ops xs V), snd (spec_ops xs V))"
| "spec_ops (Write_block dev b whole d ty # xs) V = spec_ops xs (V((dev, b) := d))"

fun op_dev :: "block_op \<Rightarrow> u16" where
  "op_dev (Read_block dev b ty) = dev"
| "op_dev (Write_block dev b whole d ty) = dev"

definition same_view :: "fs \<Rightarrow> (u16 \<times> u16 \<Rightarrow> block_data) \<Rightarrow> bool" where
  "same_view s V \<longleftrightarrow> (\<forall>k. disk_dev (fst k) \<longrightarrow> view s k = V k)"

lemma read_op:
  assumes "cache_inv s" and "has_room (users s)" and "disk_dev dev" and "same_view s V"
  shows "\<exists>t. run_op (Read_block dev b ty) s = Done ([V (dev, b)], t) \<and> cache_inv t \<and> users t = users s \<and> same_view t V"
proof -
  obtain t where t: "and_then (get_block dev b NORMAL s) (\<lambda>(h, s1). and_then (put_block (Some h) ty s1)
      (\<lambda>s2. Done (b_data (buf_tab s1 h), s2))) = Done (view s (dev, b), t)" "cache_inv t" "users t = users s"
    "\<forall>j. disk_dev (fst j) \<longrightarrow> view t j = view s j"
    using blocks.read_one [OF assms(1,2), of "(dev, b)" ty] assms(3) by auto
  from t(1) have "run_op (Read_block dev b ty) s = Done ([view s (dev, b)], t)" by (auto simp: outcome_simps)
  then show ?thesis using t assms(3,4) by (simp add: same_view_def)
qed

lemma write_op:
  assumes "cache_inv s" and "has_room (users s)" and "disk_dev dev" and "same_view s V"
  shows "\<exists>t. run_op (Write_block dev b whole d ty) s = Done ([], t) \<and> cache_inv t \<and> users t = users s \<and>
    same_view t (V((dev, b) := d))"
proof -
  let ?m = "if whole then NO_READ else NORMAL"
  obtain bp s1 where g: "get_block dev b ?m s = Done (bp, s1)" "got dev b ?m {} s bp s1" "cache_ok s1"
    "bp < NR_BUFS" "users s1 = (users s)(bp := users s bp + 1)" "b_count (buf_tab s1 bp) \<noteq> 0"
    "b_blocknr (buf_tab s1 bp) = b" "\<forall>i < NR_BUFS. b_count (buf_tab s1 i) \<noteq> 255" "answers s1 = []"
    using assms(1-3) by (rule get_new)
  let ?s = "fill bp d s1"
  have dv: "b_dev (buf_tab s1 bp) = dev" using g(2) by (simp add: got_def)
  have "coherent (insert bp {}) s1" using g(2) by (cases whole) (auto simp: got_def coherent_def)
  then have inv: "cache_inv ?s" using fill_coherent [of bp "{}" s1 d] fill_ok [OF g(3)] g(8,9) by (simp add: cache_inv_def)
  have v: "view ?s k = (V((dev, b) := d)) k" if "disk_dev (fst k)" for k
  proof (cases k)
    case (Pair e c)
    have u: "uniq s1" using g(3) cache_ok_parts by blast
    have "view s1 (e, c) = view s (e, c)" if "(e, c) \<noteq> (dev, b)" using g(2) that \<open>disk_dev (fst k)\<close> Pair by (simp add: got_def)
    then show ?thesis using fill_view [OF u g(4) dv g(7) assms(3), of e d c] that assms(4) Pair
      by (auto simp: same_view_def)
  qed
  obtain t where t: "put_block (Some bp) ty ?s = Done t" "cache_inv t" "keeps ?s t" "users t = (users ?s)(bp := users ?s bp - 1)"
    using put_held [OF inv, of bp "(dev, b)" ty] g(4,6,7) dv by (auto simp: holds_block_def)
  have "users ?s = users s1" by (simp add: users_def fun_eq_iff)
  then have "users t = users s" using t(4) g(5) by (simp add: fun_eq_iff)
  moreover have "same_view t (V((dev, b) := d))" using t(3) v unfolding same_view_def keeps_def by (metis prod.collapse)
  ultimately show ?thesis using g(1) t(1,2) by simp
qed

lemma run_ops_spec:
  "\<lbrakk> cache_inv s; has_room (users s); \<forall>x \<in> set xs. disk_dev (op_dev x); same_view s V \<rbrakk> \<Longrightarrow>
   \<exists>t. run_ops xs s = Done (fst (spec_ops xs V), t) \<and> cache_inv t \<and> users t = users s \<and> same_view t (snd (spec_ops xs V))"
proof (induction xs arbitrary: s V)
  case (Cons x xs)
  show ?case
  proof (cases x)
    case (Read_block dev b ty)
    obtain s1 where s1: "run_op x s = Done ([V (dev, b)], s1)" "cache_inv s1" "users s1 = users s" "same_view s1 V"
      using read_op [OF Cons.prems(1,2), of dev V b ty] Cons.prems(3,4) Read_block by auto
    obtain t where "run_ops xs s1 = Done (fst (spec_ops xs V), t)" "cache_inv t" "users t = users s1"
      "same_view t (snd (spec_ops xs V))" using Cons.IH [OF s1(2) _ _ s1(4)] Cons.prems(2,3) s1(3) by auto
    then show ?thesis using s1 Read_block by simp
  next
    case (Write_block dev b whole d ty)
    define W where "W = V((dev, b) := d)"
    obtain s1 where s1: "run_op x s = Done ([], s1)" "cache_inv s1" "users s1 = users s" "same_view s1 W"
      using write_op [OF Cons.prems(1,2), of dev V b whole d ty] Cons.prems(3,4) Write_block unfolding W_def by auto
    obtain t where "run_ops xs s1 = Done (fst (spec_ops xs W), t)" "cache_inv t" "users t = users s1"
      "same_view t (snd (spec_ops xs W))" using Cons.IH [OF s1(2) _ _ s1(4)] Cons.prems(2,3) s1(3) by auto
    then show ?thesis using s1 Write_block by (simp flip: W_def)
  qed
qed simp

lemma flushed_holds_view:
  assumes "cache_inv s" and "disk_dev dev"
  shows "flushall dev s = Done (flushed dev s)" "disk (flushed dev s) (unit_of dev s) b = view s (dev, b)"
proof -
  have u: "uniq s" "devs_ok s" "coherent {} s" "answers s = []" using assms(1) cache_ok_parts by (simp_all add: cache_inv_def)
  show "flushall dev s = Done (flushed dev s)" using flushall_served [OF u(4) assms(2) u(1)] .
  have nd: "dev \<noteq> NO_DEV" using assms(2) by (rule disk_dev_not_no_dev)
  have v: "view (flushed dev s) (dev, b) = view s (dev, b)" using flushed_view [OF u(1) assms(2,2)] .
  have us: "unit_of dev (flushed dev s) = unit_of dev s" using unit_of_same [OF assms(2)] .
  show "disk (flushed dev s) (unit_of dev s) b = view s (dev, b)"
  proof (cases rule: cached_cases [where s = "flushed dev s" and dev = dev and b = b])
    case (yes i)
    have "coherent {} (flushed dev s)" using flushed_coherent [OF u(1,2) assms(2) u(3)] .
    moreover have "\<not> b_dirt (buf_tab (flushed dev s) i)" using yes by (simp add: set_dirty_for)
    ultimately have "b_data (buf_tab (flushed dev s) i) = disk (flushed dev s) (unit_of dev s) b"
      using yes nd us unfolding coherent_def by (metis empty_iff)
    moreover have "uniq (flushed dev s)" using u(1) by (simp add: uniq_def)
    ultimately show ?thesis using v yes nd by (metis view_cached)
  next
    case no
    then show ?thesis using v us by (simp add: view_uncached)
  qed
qed

lemma demo_cache: "cache_inv (buf_pool demo_fs)" "has_room (users (buf_pool demo_fs))"
proof -
  have b: "b_count (buf_tab (buf_pool demo_fs) i) = 0" "b_dev (buf_tab (buf_pool demo_fs) i) = NO_DEV" if "i < NR_BUFS" for i
    using that by (simp_all add: buf_pool_def demo_fs_def no_buf_def)
  show "cache_inv (buf_pool demo_fs)" using buf_pool_ok [OF demo_zeroed] b
    by (auto simp: cache_inv_def coherent_def) (simp add: buf_pool_def demo_fs_def)
  show "has_room (users (buf_pool demo_fs))" using b by (auto simp: has_room_def users_def intro: exI [of _ 0])
qed

text \<open>
  C3. As long as the disk tasks serve every request, the block cache is transparent: any sequence of block
  reads and overwrites through \<open>get_block\<close> and \<open>put_block\<close>, with any release types and with or without reading
  the old content first, returns, gives the readers exactly what an array of blocks would give, and leaves
  every block of every disk as in that array, whatever is evicted and flushed on the way. After a
  \<open>flushall\<close> the medium of the device itself holds the array.
\<close>

theorem cache_transparent:
  assumes "cache_inv s" and "has_room (users s)" and "\<forall>x \<in> set xs. disk_dev (op_dev x)" and "disk_dev dev"
  shows "\<exists>t u. run_ops xs s = Done (fst (spec_ops xs (view s)), t) \<and> cache_inv t \<and> users t = users s \<and>
    (\<forall>d b. disk_dev d \<longrightarrow> view t (d, b) = snd (spec_ops xs (view s)) (d, b)) \<and>
    flushall dev t = Done u \<and> (\<forall>b. disk u (unit_of dev t) b = snd (spec_ops xs (view s)) (dev, b))"
proof -
  have "same_view s (view s)" by (simp add: same_view_def)
  then obtain t where t: "run_ops xs s = Done (fst (spec_ops xs (view s)), t)" "cache_inv t" "users t = users s"
    "same_view t (snd (spec_ops xs (view s)))" using run_ops_spec [OF assms(1-3)] by blast
  have "disk (flushed dev t) (unit_of dev t) b = snd (spec_ops xs (view s)) (dev, b)" for b
    using flushed_holds_view(2) [OF t(2) assms(4), of b] t(4) assms(4) by (simp add: same_view_def)
  then show ?thesis using t flushed_holds_view(1) [OF t(2) assms(4)] unfolding same_view_def by auto
qed

theorem cache_transparent_witness:
  "\<exists>t u. run_ops [Read_block 0x300 5 6, Write_block 0x300 5 True (\<lambda>_. 7) 6, Read_block 0x300 5 6] (buf_pool demo_fs) =
      Done ([\<lambda>_. 5, \<lambda>_. 7], t) \<and> flushall 0x300 t = Done u \<and> disk u (unit_of 0x300 t) 5 = (\<lambda>_. 7)"
proof -
  have d: "disk_dev 0x300" by (simp add: disk_dev_def major_of_def)
  let ?xs = "[Read_block 0x300 5 6, Write_block 0x300 5 True (\<lambda>_. 7) 6, Read_block 0x300 5 6]"
  have "uncached 0x300 5 (buf_pool demo_fs)" by (simp add: uncached_def buf_pool_def)
  then have v: "view (buf_pool demo_fs) (0x300, 5) = (\<lambda>_. 5)" by (simp add: view_uncached buf_pool_def demo_fs_def)
  have "\<forall>x \<in> set ?xs. disk_dev (op_dev x)" using d by simp
  from cache_transparent [OF demo_cache this d] show ?thesis using v d by auto
qed

end
