(* ===== verification/FS_Super.thy ===== *)
theory FS_Super
  imports FS_Cache_View
begin

unbundle bit_operations_syntax

section \<open>FS: super blocks and bit maps (src/src/fs/super.c)\<close>

text \<open>
  The super block table, the bit maps of the zones and the inodes that are kept in the cache while a device
  is mounted, and the allocation of zones (\<open>alloc_zone\<close> and \<open>free_zone\<close> of \<open>cache.c\<close>). The 68000 stores the
  high byte of an integer first: \<open>get_int\<close> and \<open>set_int\<close> are the accesses to \<open>b_int\<close> and \<open>b_ind\<close>.
\<close>

subsection \<open>Integers in a block\<close>

definition get_int :: "block_data \<Rightarrow> nat \<Rightarrow> u16" where
  "get_int d w = push_bit 8 (ucast (d (2 * w))) OR ucast (d (2 * w + 1))"

definition set_int :: "nat \<Rightarrow> u16 \<Rightarrow> block_data \<Rightarrow> block_data" where
  "set_int w v d = d(2 * w := ucast (drop_bit 8 v), 2 * w + 1 := ucast v)"

definition get_long :: "block_data \<Rightarrow> nat \<Rightarrow> u32" where
  "get_long d w = push_bit 16 (ucast (get_int d w)) OR ucast (get_int d (w + 1))"

definition set_long :: "nat \<Rightarrow> u32 \<Rightarrow> block_data \<Rightarrow> block_data" where
  "set_long w v d = set_int (w + 1) (ucast v) (set_int w (ucast (drop_bit 16 v)) d)"

subsection \<open>The super block table\<close>

definition get_super :: "u16 \<Rightarrow> fs \<Rightarrow> nat outcome" where
  "get_super dev s =
     (case find (\<lambda>sp. s_dev (super_tab s sp) = dev) [0..<NR_SUPERS] of
        Some sp \<Rightarrow> Done sp
      | None \<Rightarrow> Panic ''can't find superblock for device (in decimal)'')"

definition mounted :: "nat \<Rightarrow> fs \<Rightarrow> bool" where
  "mounted rip s =
     (let dev = i_zone (inode_tab s rip) 0
      in dev = root_dev s \<or> list_ex (\<lambda>sp. s_dev (super_tab s sp) = dev) [0..<NR_SUPERS])"

definition scale_factor :: "nat \<Rightarrow> fs \<Rightarrow> int outcome" where
  "scale_factor ip s =
     and_then (get_super (i_dev (inode_tab s ip)) s) (\<lambda>sp. Done (s_log_zone_size (super_tab s sp)))"

text \<open>The disk part of a super block is nine words long; \<open>SUPER_SIZE\<close> is 98 bytes.\<close>

definition read_super :: "block_data \<Rightarrow> super_block \<Rightarrow> super_block" where
  "read_super d core =
     core\<lparr>s_ninodes := get_int d 0, s_nzones := get_int d 1, s_imap_blocks := get_int d 2,
          s_zmap_blocks := get_int d 3, s_firstdatazone := get_int d 4,
          s_log_zone_size := sint (get_int d 5), s_max_size := sint (get_long d 6), s_magic := get_int d 8\<rparr>"

definition write_super :: "super_block \<Rightarrow> (nat \<Rightarrow> u8) \<Rightarrow> block_data \<Rightarrow> block_data" where
  "write_super sp bytes d =
     set_int 8 (s_magic sp) (set_long 6 (word_of_int (s_max_size sp))
      (set_int 5 (word_of_int (s_log_zone_size sp)) (set_int 4 (s_firstdatazone sp)
      (set_int 3 (s_zmap_blocks sp) (set_int 2 (s_imap_blocks sp) (set_int 1 (s_nzones sp)
      (set_int 0 (s_ninodes sp) (\<lambda>k. if 18 \<le> k \<and> k < 98 then bytes k else d k))))))))"

definition rw_super :: "nat \<Rightarrow> rw \<Rightarrow> fs \<Rightarrow> fs outcome" where
  "rw_super sp rw_flag s =
     (let dev = s_dev (super_tab s sp) in
      and_then
        (case rw_flag of
           READING \<Rightarrow> and_then (get_block dev 1 NORMAL s) (\<lambda>(bp, s1).
             let d = b_data (buf_tab s1 bp)
             in Done (bp, upd_super sp (\<lambda>_. (read_super d (super_core s1 d))\<lparr>s_dev := dev\<rparr>) s1))
         | WRITING \<Rightarrow> and_then (get_block dev 1 NO_READ s) (\<lambda>(bp, s1).
             let x = super_tab s1 sp
             in Done (bp, upd_buf bp (\<lambda>y. y\<lparr>b_data := write_super x (super_bytes s1 x) (b_data y), b_dirt := True\<rparr>) s1)))
        (\<lambda>(bp, s2). put_block (Some bp) ZUPER_BLOCK (upd_super sp (\<lambda>x. x\<lparr>s_dirt := False\<rparr>) s2)))"

subsection \<open>The bit maps\<close>

definition INTS_PER_BLOCK :: nat where
  "INTS_PER_BLOCK = 512"

text \<open>
  \<open>alloc_word\<close> is the pass over one block of the map, from word \<open>w\<close> on: the first word that is not full has
  the first free bit; the result is the word, the number of the bit in it and the number of the bit in the
  map.
\<close>

definition alloc_word :: "block_data \<Rightarrow> nat \<Rightarrow> nat \<Rightarrow> (nat \<times> nat \<times> u16) option" where
  "alloc_word d b w =
     (case find (\<lambda>i. get_int d i \<noteq> 0xFFFF) [w..<INTS_PER_BLOCK] of
        None \<Rightarrow> None
      | Some i \<Rightarrow> map_option (\<lambda>k. (i, k, of_nat k + of_nat i * 16 + push_bit 13 (of_nat b)))
                    (find (\<lambda>k. \<not> bit (get_int d i) k) [0..<16]))"

fun alloc_loop :: "nat \<Rightarrow> (nat \<Rightarrow> nat option) \<Rightarrow> u16 \<Rightarrow> nat \<Rightarrow> nat \<Rightarrow> nat \<Rightarrow> fs \<Rightarrow> (u16 \<times> fs) outcome" where
  "alloc_loop 0 map_ptr map_bits bit_blocks b w s = Done (0, s)"
| "alloc_loop (Suc n) map_ptr map_bits bit_blocks b w s =
     (case map_ptr b of
        None \<Rightarrow> Stuck
      | Some bp \<Rightarrow>
          let next = alloc_loop n map_ptr map_bits bit_blocks (if b + 1 = bit_blocks then 0 else b + 1) 0 s
          in case alloc_word (b_data (buf_tab s bp)) b w of
               None \<Rightarrow> next
             | Some (i, k, a) \<Rightarrow>
                 if a \<ge> map_bits then next
                 else Done (a, upd_buf bp (\<lambda>x. x\<lparr>b_data := set_int i (set_bit k (get_int (b_data x) i)) (b_data x),
                                                 b_dirt := True\<rparr>) s))"

definition alloc_bit :: "(nat \<Rightarrow> nat option) \<Rightarrow> u16 \<Rightarrow> u16 \<Rightarrow> u16 \<Rightarrow> fs \<Rightarrow> (u16 \<times> fs) outcome" where
  "alloc_bit map_ptr map_bits bit_blocks origin0 s =
     (let origin = (if origin0 \<ge> map_bits then 0 else origin0);
          b = drop_bit 13 origin;
          o' = origin - push_bit 13 b;
          w = unat o' div 16;
          block_count = (if w = 0 then unat bit_blocks else unat bit_blocks + 1)
      in alloc_loop block_count map_ptr map_bits (unat bit_blocks) (unat b) w s)"

definition free_bit :: "(nat \<Rightarrow> nat option) \<Rightarrow> u16 \<Rightarrow> fs \<Rightarrow> fs" where
  "free_bit map_ptr bit_returned s =
     (let b = drop_bit 13 bit_returned;
          r = bit_returned - push_bit 13 b;
          w = unat r div 16;
          k = unat r mod 16
      in case map_ptr (unat b) of
           None \<Rightarrow> s
         | Some bp \<Rightarrow> upd_buf bp (\<lambda>x. x\<lparr>b_data := set_int w (unset_bit k (get_int (b_data x) w)) (b_data x),
                                       b_dirt := True\<rparr>) s)"

text \<open>\<open>load_bit_maps\<close>: \<open>imap\<close> and \<open>zmap\<close> are the two loops; the words are or-ed without marking the blocks dirty.\<close>

fun load_map :: "u16 \<Rightarrow> u16 \<Rightarrow> nat \<Rightarrow> nat \<Rightarrow> (nat \<Rightarrow> nat \<Rightarrow> fs \<Rightarrow> fs) \<Rightarrow> fs \<Rightarrow> fs outcome" where
  "load_map dev base i 0 enter s = Done s"
| "load_map dev base i (Suc n) enter s =
     and_then (get_block dev (base + of_nat i) NORMAL s) (\<lambda>(bp, s1).
       load_map dev base (Suc i) n enter (enter i bp s1))"

definition or_first :: "nat option \<Rightarrow> u16 \<Rightarrow> fs \<Rightarrow> fs outcome" where
  "or_first p v s =
     (case p of None \<Rightarrow> Stuck
      | Some bp \<Rightarrow> Done (upd_buf bp (\<lambda>x. x\<lparr>b_data := set_int 0 (get_int (b_data x) 0 OR v) (b_data x)\<rparr>) s))"

abbreviation (input) FS_ERROR :: int where "FS_ERROR \<equiv> -99"
abbreviation (input) I_MAP_SLOTS :: u16 where "I_MAP_SLOTS \<equiv> 8"
abbreviation (input) ZMAP_SLOTS :: u16 where "ZMAP_SLOTS \<equiv> 8"

definition load_bit_maps :: "u16 \<Rightarrow> fs \<Rightarrow> (int \<times> fs) outcome" where
  "load_bit_maps dev s =
     and_then (get_super dev s) (\<lambda>sp.
       let x = super_tab s sp in
       if word_of_int (bufs_in_use s) + s_imap_blocks x + s_zmap_blocks x \<ge> (27 :: u16) then Done (FS_ERROR, s)
       else if s_imap_blocks x > I_MAP_SLOTS \<or> s_zmap_blocks x > ZMAP_SLOTS then Panic ''too many map blocks''
       else
         and_then (load_map dev 2 0 (unat (s_imap_blocks x))
             (\<lambda>i bp. upd_super sp (\<lambda>y. y\<lparr>s_imap := (s_imap y)(i := Some bp)\<rparr>)) s) (\<lambda>s1.
         and_then (load_map dev (2 + s_imap_blocks x) 0 (unat (s_zmap_blocks x))
             (\<lambda>i bp. upd_super sp (\<lambda>y. y\<lparr>s_zmap := (s_zmap y)(i := Some bp)\<rparr>)) s1) (\<lambda>s2.
         and_then (or_first (s_imap (super_tab s2 sp) 0) 3 s2) (\<lambda>s3.
         and_then (or_first (s_zmap (super_tab s3 sp) 0) 1 s3) (\<lambda>s4. Done (FS_OK, s4))))))"

definition unload_bit_maps :: "u16 \<Rightarrow> fs \<Rightarrow> (int \<times> fs) outcome" where
  "unload_bit_maps dev s =
     and_then (get_super dev s) (\<lambda>sp.
       let x = super_tab s sp in
       and_then (seq_all (\<lambda>i. put_block (s_imap x i) I_MAP_BLOCK) [0..<unat (s_imap_blocks x)] s) (\<lambda>s1.
       and_then (seq_all (\<lambda>i. put_block (s_zmap x i) ZMAP_BLOCK) [0..<unat (s_zmap_blocks x)] s1) (\<lambda>s2.
       Done (FS_OK, s2))))"

subsection \<open>Zones (cache.c)\<close>

abbreviation (input) ENOSPC :: int where "ENOSPC \<equiv> -28"

definition alloc_zone :: "u16 \<Rightarrow> u16 \<Rightarrow> fs \<Rightarrow> (u16 \<times> fs) outcome" where
  "alloc_zone dev z s =
     and_then (get_super dev s) (\<lambda>sp.
       let x = super_tab s sp in
       and_then (alloc_bit (s_zmap x) (s_nzones x - s_firstdatazone x + 1) (s_zmap_blocks x)
                   (z - (s_firstdatazone x - 1)) s) (\<lambda>(b, s1).
       if b = 0 then Done (NO_ZONE, s1\<lparr>err_code := ENOSPC\<rparr>)
       else Done (s_firstdatazone x - 1 + b, s1)))"

definition free_zone :: "u16 \<Rightarrow> u16 \<Rightarrow> fs \<Rightarrow> fs outcome" where
  "free_zone dev numb s =
     (if numb = NO_ZONE then Done s
      else and_then (get_super dev s) (\<lambda>sp.
        let x = super_tab s sp
        in Done (free_bit (s_zmap x) (numb - (s_firstdatazone x - 1)) s)))"

subsection \<open>Reading back what was written\<close>

lemma int_of_bytes: "push_bit 8 (ucast (ucast (drop_bit 8 v) :: u8)) OR ucast (ucast v :: u8) = (v :: u16)"
proof (rule bit_word_eqI)
  fix n
  assume "n < LENGTH(16)"
  then show "bit (push_bit 8 (ucast (ucast (drop_bit 8 v) :: u8)) OR ucast (ucast v :: u8) :: u16) n = bit v n"
    by (cases "n < 8") (auto simp: bit_simps)
qed

lemma double_neq: "2 * a \<noteq> Suc (2 * b)" "Suc (2 * b) \<noteq> 2 * (a :: nat)"
  by presburger+

lemma get_set_int [simp]: "get_int (set_int w v d) i = (if i = w then v else get_int d i)"
  using int_of_bytes [of v] double_neq by (auto simp: get_int_def set_int_def)

lemma set_get_int: "set_int w (get_int d w) d = d"
proof -
  have "ucast (drop_bit 8 (push_bit 8 (ucast a) OR ucast b :: u16)) = a" for a b :: u8
    by (rule bit_word_eqI) (auto simp: bit_simps dest: bit_imp_le_length)
  moreover have "ucast (push_bit 8 (ucast a) OR ucast b :: u16) = b" for a b :: u8
    by (rule bit_word_eqI) (auto simp: bit_simps)
  ultimately show ?thesis by (simp add: set_int_def get_int_def)
qed

lemma set_set_int: "set_int w v (set_int w u d) = set_int w v d"
  by (auto simp: set_int_def fun_eq_iff)

lemma get_set_long [simp]: "get_long (set_long w v d) w = v"
proof -
  have "push_bit 16 (ucast (ucast (drop_bit 16 v) :: u16)) OR ucast (ucast v :: u16) = v"
  proof (rule bit_word_eqI)
    fix n
    assume "n < LENGTH(32)"
    then show "bit (push_bit 16 (ucast (ucast (drop_bit 16 v) :: u16)) OR ucast (ucast v :: u16) :: u32) n = bit v n"
      by (cases "n < 16") (auto simp: bit_simps)
  qed
  then show ?thesis by (simp add: get_long_def set_long_def)
qed

lemma get_int_set_long: "i \<noteq> w \<Longrightarrow> i \<noteq> w + 1 \<Longrightarrow> get_int (set_long w v d) i = get_int d i"
  by (simp add: set_long_def)

lemma get_long_set_int: "i \<noteq> w \<Longrightarrow> i \<noteq> w + 1 \<Longrightarrow> get_long (set_int i v d) w = get_long d w"
  by (simp add: get_long_def)

subsection \<open>The bits of a map\<close>

definition bit_of :: "block_data \<Rightarrow> nat \<Rightarrow> bool" where
  "bit_of d x \<longleftrightarrow> bit (get_int d (x div 16)) (x mod 16)"

definition map_bit :: "fs \<Rightarrow> (nat \<Rightarrow> nat option) \<Rightarrow> nat \<Rightarrow> bool" where
  "map_bit s m n \<longleftrightarrow> (case m (n div 8192) of Some bp \<Rightarrow> bit_of (b_data (buf_tab s bp)) (n mod 8192) | None \<Rightarrow> True)"

lemma bit_of_set_int:
  "k < 16 \<Longrightarrow> bit_of (set_int i (set_bit k (get_int d i)) d) x = (x = 16 * i + k \<or> bit_of d x)"
  "k < 16 \<Longrightarrow> bit_of (set_int i (unset_bit k (get_int d i)) d) x = (x \<noteq> 16 * i + k \<and> bit_of d x)"
proof -
  assume k: "k < 16"
  have e: "x = 16 * i + k \<longleftrightarrow> x div 16 = i \<and> x mod 16 = k" using k by auto
  show "bit_of (set_int i (set_bit k (get_int d i)) d) x = (x = 16 * i + k \<or> bit_of d x)"
    using k by (auto simp: bit_of_def e bit_simps)
  show "bit_of (set_int i (unset_bit k (get_int d i)) d) x = (x \<noteq> 16 * i + k \<and> bit_of d x)"
    using k by (auto simp: bit_of_def e bit_simps)
qed

lemma full_word: "v = (0xFFFF :: u16) \<longleftrightarrow> (\<forall>k < 16. bit v k)"
proof
  assume v: "\<forall>k < 16. bit v k"
  have "bit (mask 16 :: u16) k \<longleftrightarrow> k < 16" for k by (auto simp: bit_mask_iff)
  then have f: "bit (0xFFFF :: u16) k \<longleftrightarrow> k < 16" for k by (simp add: mask_eq_exp_minus_1)
  show "v = 0xFFFF" by (rule bit_word_eqI) (use v f in auto)
next
  assume v: "v = 0xFFFF"
  have "\<forall>k < 16. bit (mask 16 :: u16) k" by (auto simp: bit_mask_iff)
  then show "\<forall>k < 16. bit v k" using v by (simp add: mask_eq_exp_minus_1)
qed

lemma find_first:
  "find P [a..<b] = Some i \<longleftrightarrow> a \<le> i \<and> i < b \<and> P i \<and> (\<forall>j. a \<le> j \<longrightarrow> j < i \<longrightarrow> \<not> P j)"
proof (induction "b - a" arbitrary: a)
  case 0
  then show ?case by auto
next
  case (Suc n)
  then have "a < b" by simp
  then have u: "[a..<b] = a # [Suc a..<b]" by (rule upt_conv_Cons)
  have ih: "find P [Suc a..<b] = Some i \<longleftrightarrow> Suc a \<le> i \<and> i < b \<and> P i \<and> (\<forall>j. Suc a \<le> j \<longrightarrow> j < i \<longrightarrow> \<not> P j)"
    using Suc by (intro Suc(1)) simp
  show ?case
  proof (cases "P a")
    case True
    then show ?thesis using \<open>a < b\<close> by (auto simp: u le_less)
  next
    case False
    then have "(a \<le> i \<and> i < b \<and> P i \<and> (\<forall>j. a \<le> j \<longrightarrow> j < i \<longrightarrow> \<not> P j)) \<longleftrightarrow>
        (Suc a \<le> i \<and> i < b \<and> P i \<and> (\<forall>j. Suc a \<le> j \<longrightarrow> j < i \<longrightarrow> \<not> P j))"
      by (metis Suc_leI Suc_le_lessD le_less le_simps(3))
    then show ?thesis using False ih by (simp add: u)
  qed
qed

lemma alloc_word_spec:
  obtains (none) "alloc_word d b w = None" "\<And>x. 16 * w \<le> x \<Longrightarrow> x < 8192 \<Longrightarrow> bit_of d x"
    | (some) i k where "alloc_word d b w = Some (i, k, of_nat (8192 * b + 16 * i + k))" "w \<le> i" "i < 512" "k < 16"
        "\<not> bit_of d (16 * i + k)" "\<And>x. 16 * w \<le> x \<Longrightarrow> x < 16 * i + k \<Longrightarrow> bit_of d x"
proof (cases "find (\<lambda>i. get_int d i \<noteq> 0xFFFF) [w..<INTS_PER_BLOCK]")
  case None
  have "bit_of d x" if "16 * w \<le> x" "x < 8192" for x
  proof -
    have "x div 16 \<in> set [w..<INTS_PER_BLOCK]" using that by (auto simp: INTS_PER_BLOCK_def)
    then have "get_int d (x div 16) = 0xFFFF" using None by (auto simp: find_None_iff)
    then show ?thesis by (simp add: bit_of_def full_word)
  qed
  then show ?thesis using None by (intro none) (simp_all add: alloc_word_def)
next
  case (Some i)
  then have i: "w \<le> i" "i < 512" "get_int d i \<noteq> 0xFFFF" "\<And>j. w \<le> j \<Longrightarrow> j < i \<Longrightarrow> get_int d j = 0xFFFF"
    by (auto simp: find_first INTS_PER_BLOCK_def)
  then obtain k0 where "k0 < 16" "\<not> bit (get_int d i) k0" by (auto simp: full_word)
  then have "find (\<lambda>k. \<not> bit (get_int d i) k) [0..<16] \<noteq> None" by (auto simp: find_None_iff)
  then obtain k where f: "find (\<lambda>k. \<not> bit (get_int d i) k) [0..<16] = Some k" by blast
  then have k: "k < 16" "\<not> bit (get_int d i) k" "\<And>j. j < k \<Longrightarrow> bit (get_int d i) j" by (auto simp: find_first)
  have "bit_of d x" if "16 * w \<le> x" "x < 16 * i + k" for x
  proof (cases "x div 16 = i")
    case True
    have "x = 16 * (x div 16) + x mod 16" by simp
    then have "x mod 16 < k" using True that by linarith
    then show ?thesis using k True by (simp add: bit_of_def)
  next
    case False
    then have "w \<le> x div 16" "x div 16 < i" using that k by auto
    then show ?thesis using i(4) by (simp add: bit_of_def full_word)
  qed
  moreover have "\<not> bit_of d (16 * i + k)" using k by (simp add: bit_of_def)
  moreover have "(of_nat k + of_nat i * 16 + push_bit 13 (of_nat b) :: u16) = of_nat (8192 * b + 16 * i + k)"
    by (simp add: push_bit_eq_mult)
  ultimately show ?thesis using Some f i k
    by (intro some [of i k]) (simp_all add: alloc_word_def)
qed

subsection \<open>Allocation of bits\<close>

text \<open>\<open>map_ok m n\<close>: the first \<open>n\<close> slots of the map point to different buffers.\<close>

definition map_ok :: "(nat \<Rightarrow> nat option) \<Rightarrow> nat \<Rightarrow> bool" where
  "map_ok m n \<longleftrightarrow> n \<le> 8 \<and> (\<forall>b < n. m b \<noteq> None) \<and> (\<forall>b < n. \<forall>c < n. m b = m c \<longrightarrow> b = c)"

text \<open>\<open>took m n s a t\<close>: bit \<open>a\<close> was free in \<open>s\<close> and is the only one that has changed in \<open>t\<close>; its block is dirty.\<close>

definition took :: "(nat \<Rightarrow> nat option) \<Rightarrow> nat \<Rightarrow> fs \<Rightarrow> nat \<Rightarrow> fs \<Rightarrow> bool" where
  "took m n s a t \<longleftrightarrow> a < 8192 * n \<and> \<not> map_bit s m a \<and> (\<forall>x < 8192 * n. map_bit t m x = (x = a \<or> map_bit s m x)) \<and>
     (\<exists>bp. m (a div 8192) = Some bp \<and> b_dirt (buf_tab t bp) \<and>
        t = upd_buf bp (\<lambda>x. x\<lparr>b_data := set_int (a mod 8192 div 16) (set_bit (a mod 16) (get_int (b_data x) (a mod 8192 div 16))) (b_data x),
                             b_dirt := True\<rparr>) s)"

lemma div_mod_split: "x < 8192 \<Longrightarrow> (8192 * b + x) div 8192 = b \<and> (8192 * b + x) mod 8192 = x" for b x :: nat
  by simp

lemma take_bit_of_map:
  assumes "map_ok m n" and "b < n" and "m b = Some bp" and "i < 512" and "k < 16"
    and "\<not> bit_of (b_data (buf_tab s bp)) (16 * i + k)"
  shows "took m n s (8192 * b + 16 * i + k)
    (upd_buf bp (\<lambda>x. x\<lparr>b_data := set_int i (set_bit k (get_int (b_data x) i)) (b_data x), b_dirt := True\<rparr>) s)"
proof -
  let ?a = "8192 * b + 16 * i + k"
  let ?t = "upd_buf bp (\<lambda>x. x\<lparr>b_data := set_int i (set_bit k (get_int (b_data x) i)) (b_data x), b_dirt := True\<rparr>) s"
  have l: "16 * i + k < 8192" using assms(4,5) by simp
  have a: "?a div 8192 = b" "?a mod 8192 = 16 * i + k" using div_mod_split [OF l, of b] by (simp_all add: add.assoc)
  have ik: "(16 * i + k) div 16 = i" "?a mod 16 = k" using assms(5) by (simp_all add: mod_add_eq [symmetric])
  have bits: "map_bit ?t m x = (x = ?a \<or> map_bit s m x)" if "x < 8192 * n" for x
  proof (cases "x div 8192 = b")
    case True
    have "x = ?a \<longleftrightarrow> x mod 8192 = 16 * i + k" using True a div_mult_mod_eq [of x 8192] by (metis add.assoc mult.commute)
    then show ?thesis using True assms(3,5) by (simp add: map_bit_def fs_upd bit_of_set_int(1))
  next
    case False
    have xd: "x div 8192 < n" using that by (simp add: less_mult_imp_div_less mult.commute)
    then have "m (x div 8192) \<noteq> Some bp" using False assms(1-3) unfolding map_ok_def by metis
    then show ?thesis using False a by (auto simp: map_bit_def fs_upd split: option.split)
  qed
  have "8192 * b + 8192 \<le> 8192 * n" using assms(2) by simp
  then have "?a < 8192 * n" using l by linarith
  moreover have "\<not> map_bit s m ?a" using assms(3,6) by (simp add: map_bit_def a)
  ultimately show ?thesis unfolding took_def using bits assms(3) a ik
    by (intro conjI allI impI exI [of _ bp]) (simp_all add: fs_upd)
qed

text \<open>What a search that failed has looked at: \<open>n\<close> blocks from block \<open>b\<close> on, the first one from word \<open>w\<close> on.\<close>

definition searched :: "fs \<Rightarrow> (nat \<Rightarrow> nat option) \<Rightarrow> nat \<Rightarrow> nat \<Rightarrow> nat \<Rightarrow> nat \<Rightarrow> nat \<Rightarrow> bool" where
  "searched s m bits blocks n b w \<longleftrightarrow> (\<forall>j < n. \<forall>x < 8192. (j = 0 \<longrightarrow> 16 * w \<le> x) \<longrightarrow>
     8192 * ((b + j) mod blocks) + x < bits \<longrightarrow> map_bit s m (8192 * ((b + j) mod blocks) + x))"

lemma alloc_loop_spec:
  "\<lbrakk> map_ok m blocks; b < blocks \<rbrakk> \<Longrightarrow>
   (alloc_loop n m bits blocks b w s = Done (0, s) \<and> searched s m (unat bits) blocks n b w) \<or>
   (\<exists>a t. alloc_loop n m bits blocks b w s = Done (of_nat a, t) \<and> a < unat bits \<and> took m blocks s a t)"
proof (induction n arbitrary: b w)
  case 0
  then show ?case by (simp add: searched_def)
next
  case (Suc n)
  let ?b = "if b + 1 = blocks then 0 else b + 1"
  obtain bp where bp: "m b = Some bp" using Suc.prems by (auto simp: map_ok_def)
  have b8: "b < 8" using Suc.prems by (simp add: map_ok_def)
  have nb: "?b < blocks" using Suc.prems(2) by auto
  have sh: "(?b + j) mod blocks = (b + Suc j) mod blocks" for j
    by (auto simp: add.commute) (metis add.commute add_Suc_right mod_add_self1 plus_1_eq_Suc)
  note ih = Suc.IH [OF Suc.prems(1) nb, of 0]
  let ?next = "alloc_loop n m bits blocks ?b 0 s"
  have more: "searched s m (unat bits) blocks (Suc n) b w"
    if "searched s m (unat bits) blocks n ?b 0"
      "\<And>x. 16 * w \<le> x \<Longrightarrow> x < 8192 \<Longrightarrow> 8192 * b + x < unat bits \<Longrightarrow> bit_of (b_data (buf_tab s bp)) x"
    unfolding searched_def
  proof (intro allI impI)
    fix j x :: nat
    assume j: "j < Suc n" "x < 8192" "j = 0 \<longrightarrow> 16 * w \<le> x" "8192 * ((b + j) mod blocks) + x < unat bits"
    show "map_bit s m (8192 * ((b + j) mod blocks) + x)"
    proof (cases j)
      case 0
      then have "(b + j) mod blocks = b" using Suc.prems(2) by simp
      then show ?thesis using that(2) [of x] j 0 bp div_mod_split [OF j(2), of b] by (simp add: map_bit_def)
    next
      case (Suc i)
      then show ?thesis using that(1) j sh [of i] unfolding searched_def by (metis Suc_less_eq le0 mult_0_right)
    qed
  qed
  show ?case
  proof (cases rule: alloc_word_spec [where d = "b_data (buf_tab s bp)" and b = b and w = w])
    case none
    then have "alloc_loop (Suc n) m bits blocks b w s = ?next" using bp by simp
    then show ?thesis using ih more none(2) by auto
  next
    case (some i k)
    let ?a = "8192 * b + 16 * i + k"
    have a: "?a < 65536" using b8 some(3,4) by simp
    then have ua: "unat (of_nat ?a :: u16) = ?a" by (simp only: unsigned_of_nat) (simp add: take_bit_nat_eq_self)
    show ?thesis
    proof (cases "bits \<le> of_nat ?a")
      case True
      then have "unat bits \<le> ?a" using ua by (simp only: word_le_nat_alt)
      then have "bit_of (b_data (buf_tab s bp)) x" if "16 * w \<le> x" "8192 * b + x < unat bits" for x
        using some(6) that by simp
      moreover have "alloc_loop (Suc n) m bits blocks b w s = ?next" using bp some(1) True by simp
      ultimately show ?thesis using ih more by auto
    next
      case False
      then have "?a < unat bits" using ua by (simp only: word_le_nat_alt not_le)
      moreover have "alloc_loop (Suc n) m bits blocks b w s = Done (of_nat ?a,
          upd_buf bp (\<lambda>x. x\<lparr>b_data := set_int i (set_bit k (get_int (b_data x) i)) (b_data x), b_dirt := True\<rparr>) s)"
        using bp some(1) False by simp
      ultimately show ?thesis using take_bit_of_map [OF Suc.prems bp some(3-5)] by blast
    qed
  qed
qed

lemma searched_all:
  assumes "searched s m bits blocks n b w" and "b < blocks" and "if w = 0 then n = blocks else n = blocks + 1"
    and "x < bits" and "x < 8192 * blocks"
  shows "map_bit s m x"
proof -
  let ?c = "x div 8192"
  have c: "?c < blocks" using assms(5) by (simp add: less_mult_imp_div_less mult.commute)
  have y: "x mod 8192 < 8192" "8192 * ?c + x mod 8192 = x" by simp_all
  define j where "j = (if ?c < b then ?c + blocks - b else if ?c = b \<and> x mod 8192 < 16 * w then blocks else ?c - b)"
  have jn: "j < n" using assms(2,3) c by (auto simp: j_def split: if_splits)
  have jc: "(b + j) mod blocks = ?c"
  proof -
    have "b + j = ?c \<or> b + j = ?c + blocks" using c assms(2) by (auto simp: j_def)
    then show ?thesis using c by auto
  qed
  have j0: "j = 0 \<longrightarrow> 16 * w \<le> x mod 8192" using c assms(2) by (auto simp: j_def split: if_splits)
  from assms(1) jn y(1) j0 have "8192 * ((b + j) mod blocks) + x mod 8192 < bits \<longrightarrow>
      map_bit s m (8192 * ((b + j) mod blocks) + x mod 8192)" unfolding searched_def by blast
  then show ?thesis using assms(4) jc y(2) by simp
qed

lemma alloc_bit_spec:
  assumes "map_ok m (unat blocks)" and "0 < bits" and "unat bits \<le> 8192 * unat blocks"
  shows "(alloc_bit m bits blocks origin s = Done (0, s) \<and> (\<forall>x < unat bits. map_bit s m x)) \<or>
    (\<exists>a t. alloc_bit m bits blocks origin s = Done (of_nat a, t) \<and> a < unat bits \<and> took m (unat blocks) s a t)"
proof -
  define o1 where "o1 = (if origin \<ge> bits then 0 else origin)"
  define b where "b = drop_bit 13 o1"
  define w where "w = unat (o1 - push_bit 13 b) div 16"
  have "o1 < bits" using assms(2) by (auto simp: o1_def not_le)
  then have ob: "unat o1 < 8192 * unat blocks" using assms(3) by (simp add: word_less_nat_alt)
  have "unat b = unat o1 div 8192" unfolding b_def unat_drop_bit_eq by (simp add: drop_bit_eq_div)
  then have bb: "unat b < unat blocks" using ob by (simp add: less_mult_imp_div_less mult.commute)
  let ?n = "if w = 0 then unat blocks else unat blocks + 1"
  have e: "alloc_bit m bits blocks origin s = alloc_loop ?n m bits (unat blocks) (unat b) w s"
    by (simp only: alloc_bit_def Let_def o1_def [symmetric] b_def [symmetric] w_def [symmetric])
  show ?thesis using alloc_loop_spec [OF assms(1) bb, of ?n bits w s]
  proof
    assume a: "alloc_loop ?n m bits (unat blocks) (unat b) w s = Done (0, s) \<and> searched s m (unat bits) (unat blocks) ?n (unat b) w"
    then have "map_bit s m x" if "x < unat bits" for x
      using that assms(3) by (intro searched_all [of s m "unat bits" "unat blocks" ?n "unat b" w]) (auto simp: bb)
    then show ?thesis using a e by simp
  qed (simp add: e)
qed

lemma unset_set_bit: "\<not> bit v k \<Longrightarrow> unset_bit k (set_bit k v) = (v :: u16)"
  by (rule bit_word_eqI) (auto simp: bit_simps)

lemma bit_place:
  "unat (drop_bit 13 a) = unat a div 8192" "unat (a - push_bit 13 (drop_bit 13 a)) = unat a mod 8192" for a :: u16
proof -
  show d: "unat (drop_bit 13 a) = unat a div 8192" unfolding unat_drop_bit_eq by (simp add: drop_bit_eq_div)
  have "unat a < 65536" using unsigned_less [of a, where ?'a = nat] by simp
  then have "unat (push_bit 13 (drop_bit 13 a)) = 8192 * (unat a div 8192)"
    unfolding push_bit_eq_mult using d by (simp add: unat_word_ariths)
  moreover have "8192 * (unat a div 8192) \<le> unat a" by simp
  ultimately show "unat (a - push_bit 13 (drop_bit 13 a)) = unat a mod 8192"
    by (simp add: unat_sub word_le_nat_alt modulo_nat_def)
qed

lemma free_took:
  assumes "took m n s (unat a) t"
  shows "\<exists>bp. m (unat a div 8192) = Some bp \<and> free_bit m a t = upd_buf bp (\<lambda>x. x\<lparr>b_dirt := True\<rparr>) s"
proof -
  let ?w = "unat a mod 8192 div 16"
  let ?k = "unat a mod 16"
  have km: "unat a mod 8192 mod 16 = ?k" by (simp add: mod_mod_cancel)
  obtain bp where m: "m (unat a div 8192) = Some bp" and nb: "\<not> map_bit s m (unat a)"
    and t: "t = upd_buf bp (\<lambda>x. x\<lparr>b_data := set_int ?w (set_bit ?k (get_int (b_data x) ?w)) (b_data x), b_dirt := True\<rparr>) s"
    using assms by (auto simp: took_def)
  have f: "\<not> bit (get_int (b_data (buf_tab s bp)) ?w) ?k" using nb m by (simp add: map_bit_def bit_of_def km)
  have "free_bit m a t = upd_buf bp (\<lambda>x. x\<lparr>b_data := set_int ?w (unset_bit ?k (get_int (b_data x) ?w)) (b_data x), b_dirt := True\<rparr>) t"
    unfolding free_bit_def Let_def bit_place km m by simp
  also have "\<dots> = upd_buf bp (\<lambda>x. x\<lparr>b_dirt := True\<rparr>) s"
    using unset_set_bit [OF f] set_get_int by (simp add: t fs_upd set_set_int)
  finally show ?thesis using m by blast
qed

text \<open>
  C15. \<open>alloc_bit\<close> finds a free bit of an inode or zone map whenever there is one, wherever the search
  starts: for a map of up to eight blocks whose bit 0 is busy, it returns a bit of the map that was free and
  sets that bit and no other, or it returns \<open>NO_BIT\<close>, with nothing changed, exactly when every bit is busy.
\<close>

theorem alloc_bit_finds_free_bit:
  assumes "map_ok m (unat blocks)" and "0 < bits" and "unat bits \<le> 8192 * unat blocks" and "map_bit s m 0"
  shows "\<exists>a t. alloc_bit m bits blocks origin s = Done (a, t) \<and>
    (if a = 0 then t = s \<and> (\<forall>x < unat bits. map_bit s m x)
     else a < bits \<and> \<not> map_bit s m (unat a) \<and>
       (\<forall>x < 8192 * unat blocks. map_bit t m x = (x = unat a \<or> map_bit s m x)))"
  using alloc_bit_spec [OF assms(1-3), of origin s]
proof
  assume "\<exists>a t. alloc_bit m bits blocks origin s = Done (of_nat a, t) \<and> a < unat bits \<and> took m (unat blocks) s a t"
  then obtain a t where a: "alloc_bit m bits blocks origin s = Done (of_nat a, t)" "a < unat bits" "took m (unat blocks) s a t" by blast
  have "a < 65536" using a(2) unsigned_less [of bits, where ?'a = nat] by simp
  then have u: "unat (of_nat a :: u16) = a" by (simp add: unsigned_of_nat take_bit_nat_eq_self)
  have "a \<noteq> 0" using a(3) assms(4) by (cases a) (auto simp: took_def)
  then have "(of_nat a :: u16) \<noteq> 0" using u by (metis unat_0)
  then show ?thesis using a u by (intro exI [of _ "of_nat a"] exI [of _ t]) (auto simp: took_def word_less_nat_alt)
qed auto

definition one_map :: "nat \<Rightarrow> nat option" where
  "one_map b = (if b = 0 then Some 3 else None)"

definition demo_map_fs :: fs where
  "demo_map_fs = upd_buf 3 (\<lambda>x. x\<lparr>b_data := set_int 0 0xFFFF (b_data x)\<rparr>) demo_fs"

lemma demo_map: "map_ok one_map 1" "map_bit demo_map_fs one_map 0" "\<not> map_bit demo_map_fs one_map 16"
  by (simp_all add: map_ok_def one_map_def map_bit_def bit_of_def demo_map_fs_def fs_upd full_word demo_fs_def no_buf_def)
    (auto simp: full_word get_int_def)

theorem alloc_bit_finds_free_bit_witness:
  "\<exists>a t. alloc_bit one_map 20 1 17 demo_map_fs = Done (a, t) \<and> a \<noteq> 0 \<and> a < 20 \<and> \<not> map_bit demo_map_fs one_map (unat a)"
proof -
  have "map_ok one_map (unat (1 :: u16))" using demo_map(1) by simp
  from alloc_bit_finds_free_bit [OF this _ _ demo_map(2), of 20 17] show ?thesis
    using demo_map(3) by (auto split: if_splits)
qed

text \<open>What \<open>load_bit_maps\<close> and the checks of mkfs establish of a mounted device.\<close>

definition zones_ok :: "super_block \<Rightarrow> fs \<Rightarrow> bool" where
  "zones_ok x s \<longleftrightarrow> map_ok (s_zmap x) (unat (s_zmap_blocks x)) \<and> 0 < s_firstdatazone x \<and> s_firstdatazone x \<le> s_nzones x \<and>
     unat (s_nzones x) - unat (s_firstdatazone x) + 1 \<le> 8192 * unat (s_zmap_blocks x) \<and> map_bit s (s_zmap x) 0"

text \<open>The bit of a zone: zone \<open>s_firstdatazone\<close> is bit 1.\<close>

definition zone_busy :: "super_block \<Rightarrow> fs \<Rightarrow> u16 \<Rightarrow> bool" where
  "zone_busy x s z \<longleftrightarrow> map_bit s (s_zmap x) (unat z - (unat (s_firstdatazone x) - 1))"

lemma zone_bits:
  assumes "0 < first" and "first \<le> (nzones :: u16)"
  shows "unat (nzones - first + 1) = unat nzones - unat first + 1"
proof -
  have f: "0 < unat first" "unat first \<le> unat nzones" using assms by (simp_all add: word_less_nat_alt word_le_nat_alt)
  have n: "unat nzones < 65536" using unsigned_less [of nzones, where ?'a = nat] by simp
  have "unat (nzones - first) = unat nzones - unat first" using assms(2) by (simp add: unat_sub)
  then show ?thesis using f n by (subst unat_add_below) simp_all
qed

text \<open>
  C14. \<open>alloc_zone\<close> and \<open>free_zone\<close> are inverse on a mounted device: \<open>alloc_zone\<close>, wherever it is asked to search,
  returns a data zone of the device that was free, and it reports \<open>ENOSPC\<close> only when every data zone is busy;
  giving the zone back with \<open>free_zone\<close> restores the content of every buffer to what it was before.
\<close>

theorem alloc_zone_free_zone:
  assumes "get_super dev s = Done sp" and "zones_ok (super_tab s sp) s"
  shows "\<exists>z t. alloc_zone dev near s = Done (z, t) \<and>
    (if z = NO_ZONE
     then err_code t = ENOSPC \<and> (\<forall>y. s_firstdatazone (super_tab s sp) \<le> y \<longrightarrow> y < s_nzones (super_tab s sp) \<longrightarrow>
            zone_busy (super_tab s sp) s y)
     else s_firstdatazone (super_tab s sp) \<le> z \<and> z < s_nzones (super_tab s sp) \<and>
       \<not> zone_busy (super_tab s sp) s z \<and> zone_busy (super_tab s sp) t z \<and>
       (\<exists>u. free_zone dev z t = Done u \<and> (\<forall>i. b_data (buf_tab u i) = b_data (buf_tab s i))))"
proof -
  let ?x = "super_tab s sp"
  let ?f = "s_firstdatazone ?x"
  let ?n = "s_nzones ?x"
  let ?m = "s_zmap ?x"
  have ok: "map_ok ?m (unat (s_zmap_blocks ?x))" "0 < ?f" "?f \<le> ?n"
    "unat ?n - unat ?f + 1 \<le> 8192 * unat (s_zmap_blocks ?x)" "map_bit s ?m 0" using assms(2) by (simp_all add: zones_ok_def)
  have f: "0 < unat ?f" "unat ?f \<le> unat ?n" using ok(2,3) by (simp_all add: word_less_nat_alt word_le_nat_alt)
  note zb = zone_bits [OF ok(2,3)]
  have "0 < unat (?n - ?f + 1)" using zb by simp
  then have p: "0 < ?n - ?f + 1" by (simp add: word_less_nat_alt)
  have al: "alloc_zone dev near s = and_then (alloc_bit ?m (?n - ?f + 1) (s_zmap_blocks ?x) (near - (?f - 1)) s)
      (\<lambda>(b, s1). if b = 0 then Done (NO_ZONE, s1\<lparr>err_code := ENOSPC\<rparr>) else Done (?f - 1 + b, s1))"
    using assms(1) by (simp add: alloc_zone_def Let_def)
  have "unat (?n - ?f + 1) \<le> 8192 * unat (s_zmap_blocks ?x)" using zb ok(4) by simp
  note sp = alloc_bit_spec [OF ok(1) p this, of "near - (?f - 1)" s]
  from sp show ?thesis
  proof
    assume a: "alloc_bit ?m (?n - ?f + 1) (s_zmap_blocks ?x) (near - (?f - 1)) s = Done (0, s) \<and>
      (\<forall>x < unat (?n - ?f + 1). map_bit s ?m x)"
    have "zone_busy ?x s y" if "?f \<le> y" "y < ?n" for y
    proof -
      have "unat ?f \<le> unat y" "unat y < unat ?n" using that by (simp_all add: word_le_nat_alt word_less_nat_alt)
      then have "unat y - (unat ?f - 1) < unat (?n - ?f + 1)" using f zb by simp
      then show ?thesis using a by (simp add: zone_busy_def)
    qed
    then show ?thesis using a al by simp
  next
    assume "\<exists>a t. alloc_bit ?m (?n - ?f + 1) (s_zmap_blocks ?x) (near - (?f - 1)) s = Done (of_nat a, t) \<and>
      a < unat (?n - ?f + 1) \<and> took ?m (unat (s_zmap_blocks ?x)) s a t"
    then obtain a t where a: "alloc_bit ?m (?n - ?f + 1) (s_zmap_blocks ?x) (near - (?f - 1)) s = Done (of_nat a, t)"
      "a < unat (?n - ?f + 1)" "took ?m (unat (s_zmap_blocks ?x)) s a t" by blast
    have n16: "unat ?n < 65536" using unsigned_less [of ?n, where ?'a = nat] by simp
    have a16: "a < 65536" using a(2) zb f n16 by linarith
    then have ua: "unat (of_nat a :: u16) = a" by (simp add: unsigned_of_nat take_bit_nat_eq_self)
    have a0: "a \<noteq> 0" using a(3) ok(5) by (cases a) (auto simp: took_def)
    then have wa: "(of_nat a :: u16) \<noteq> 0" using ua by (metis unat_0)
    let ?z = "?f - 1 + of_nat a"
    have f1: "unat (?f - 1) = unat ?f - 1" using ok(2) by (simp add: unat_sub word_le_nat_alt unat_eq_zero word_less_nat_alt)
    have uz: "unat ?z = unat ?f - 1 + a" using f1 ua a(2) zb f n16 by (subst unat_add_below) simp_all
    have z: "?f \<le> ?z" "?z < ?n" "?z \<noteq> NO_ZONE" using uz f a0 a(2) zb
      by (simp_all add: word_le_nat_alt word_less_nat_alt word_unat_eq_iff)
    have zb': "unat ?z - (unat ?f - 1) = a" using uz by simp
    have busy: "\<not> zone_busy ?x s ?z" "zone_busy ?x t ?z" unfolding zone_busy_def zb' using a(3) by (simp_all add: took_def)
    have sup: "super_tab t = super_tab s" using a(3) by (auto simp: took_def fs_upd)
    have az: "?z - (?f - 1) = of_nat a" by simp
    obtain bp where fr: "free_bit ?m (of_nat a) t = upd_buf bp (\<lambda>x. x\<lparr>b_dirt := True\<rparr>) s"
      using free_took [of ?m "unat (s_zmap_blocks ?x)" s "of_nat a" t] a(3) ua by auto
    have "get_super dev t = Done sp" using assms(1) by (simp add: get_super_def sup)
    then have "free_zone dev ?z t = Done (upd_buf bp (\<lambda>x. x\<lparr>b_dirt := True\<rparr>) s)"
      using z(3) fr by (simp add: free_zone_def sup)
    moreover have "alloc_zone dev near s = Done (?z, t)" using al a(1) wa by simp
    ultimately show ?thesis using z busy by (intro exI [of _ ?z] exI [of _ t]) (auto simp: fs_upd)
  qed
qed

definition demo_zones :: fs where
  "demo_zones = upd_super 0 (\<lambda>x. x\<lparr>s_dev := 0x300, s_nzones := 40, s_firstdatazone := 7, s_zmap_blocks := 1, s_zmap := one_map\<rparr>) demo_map_fs"

theorem alloc_zone_free_zone_witness:
  "\<exists>z t u. alloc_zone 0x300 9 demo_zones = Done (z, t) \<and> z \<noteq> NO_ZONE \<and> 7 \<le> z \<and> z < 40 \<and> free_zone 0x300 z t = Done u"
proof -
  have g: "get_super 0x300 demo_zones = Done 0" by (simp add: get_super_def demo_zones_def fs_upd upt_rec)
  have sx: "s_zmap (super_tab demo_zones 0) = one_map" "s_zmap_blocks (super_tab demo_zones 0) = 1"
    "s_firstdatazone (super_tab demo_zones 0) = 7" "s_nzones (super_tab demo_zones 0) = 40" by (simp_all add: demo_zones_def fs_upd)
  have mb: "map_bit demo_zones m n = map_bit demo_map_fs m n" for m n by (simp add: map_bit_def demo_zones_def fs_upd cong: option.case_cong)
  have "zones_ok (super_tab demo_zones 0) demo_zones" using demo_map(1,2) by (simp add: zones_ok_def sx mb)
  from alloc_zone_free_zone [OF g this, of 9] obtain z t where z: "alloc_zone 0x300 9 demo_zones = Done (z, t)"
    "if z = NO_ZONE then \<forall>y. 7 \<le> y \<longrightarrow> y < 40 \<longrightarrow> zone_busy (super_tab demo_zones 0) demo_zones y
     else 7 \<le> z \<and> z < 40 \<and> (\<exists>u. free_zone 0x300 z t = Done u)" by (auto simp: sx split: if_splits)
  have "\<not> zone_busy (super_tab demo_zones 0) demo_zones 22" using demo_map(3) by (simp add: zone_busy_def sx mb)
  then have "z \<noteq> NO_ZONE" using z(2) by (auto split: if_splits)
  then show ?thesis using z by auto
qed

end
