(* ===== verification/FS_File.thy ===== *)
theory FS_File
  imports FS_Super
begin

unbundle bit_operations_syntax

section \<open>FS: the blocks of a file (src/src/fs/read.c, write.c, link.c)\<close>

text \<open>
  From a position in a file to its block: \<open>read_map\<close>, \<open>write_map\<close>, \<open>clear_zone\<close>, \<open>new_block\<close> and \<open>truncate\<close>. A
  position is not negative (\<open>read_write\<close>, \<open>do_lseek\<close> and the directory loops see to that), so the divisions of
  the source are \<open>div\<close>. An access to \<open>b_ind\<close> outside of its block is stuck.
\<close>

subsection \<open>Definitions\<close>

abbreviation (input) NR_DZONE_NUM :: int where "NR_DZONE_NUM \<equiv> 7"
abbreviation (input) NR_INDIRECTS :: int where "NR_INDIRECTS \<equiv> 512"
abbreviation (input) PIPE_SIZE :: int where "PIPE_SIZE \<equiv> 7168"
abbreviation (input) MTIME :: u8 where "MTIME \<equiv> 8"
abbreviation (input) EFBIG :: int where "EFBIG \<equiv> -27"

definition block_pos :: "int \<Rightarrow> int" where
  "block_pos position = position div 1024"

definition zone_index :: "int \<Rightarrow> int \<Rightarrow> int" where
  "zone_index scale position = drop_bit (nat scale) (block_pos position)"

definition block_in_zone :: "int \<Rightarrow> int \<Rightarrow> int" where
  "block_in_zone scale position = block_pos position - push_bit (nat scale) (zone_index scale position)"

definition zone_block :: "int \<Rightarrow> u16 \<Rightarrow> u16" where
  "zone_block scale z = push_bit (nat scale) z"

text \<open>One look into an indirect block.\<close>

definition ind_entry :: "u16 \<Rightarrow> u16 \<Rightarrow> int \<Rightarrow> fs \<Rightarrow> (u16 \<times> fs) outcome" where
  "ind_entry dev b i s =
     and_then (get_block dev b NORMAL s) (\<lambda>(bp, s1).
       if i < 0 \<or> i \<ge> NR_INDIRECTS then Stuck
       else let z = get_int (b_data (buf_tab s1 bp)) (nat i)
            in and_then (put_block (Some bp) INDIRECT_BLOCK s1) (\<lambda>s2. Done (z, s2)))"

definition read_map :: "nat \<Rightarrow> int \<Rightarrow> fs \<Rightarrow> (u16 \<times> fs) outcome" where
  "read_map rip position s =
     and_then (scale_factor rip s) (\<lambda>scale.
       let x = inode_tab s rip;
           zone = zone_index scale position;
           block = (\<lambda>z. zone_block scale z + word_of_int (block_in_zone scale position))
       in if zone < NR_DZONE_NUM
          then let z = i_zone x (nat zone) in Done (if z = NO_ZONE then NO_BLOCK else block z, s)
          else let excess = zone - NR_DZONE_NUM in
            and_then
              (if excess < NR_INDIRECTS then Done (Some (i_zone x 7, excess), s)
               else if i_zone x 8 = NO_ZONE then Done (None, s)
               else let e = excess - NR_INDIRECTS in
                 and_then (ind_entry (i_dev x) (zone_block scale (i_zone x 8)) (e div NR_INDIRECTS) s) (\<lambda>(z, s1).
                 Done (Some (z, e mod NR_INDIRECTS), s1)))
              (\<lambda>(found, s1).
                 case found of
                   None \<Rightarrow> Done (NO_BLOCK, s1)
                 | Some (z, e) \<Rightarrow>
                     if z = NO_ZONE then Done (NO_BLOCK, s1)
                     else and_then (ind_entry (i_dev x) (zone_block scale z) e s1) (\<lambda>(z2, s2).
                       Done (if z2 = NO_ZONE then NO_BLOCK else block z2, s2))))"

text \<open>
  \<open>write_map\<close>: the last step, \<open>enter_zone\<close>, puts the zone into a single indirect block; \<open>find_single\<close> finds or
  makes the entry of the double indirect block for it.
\<close>

definition set_zone :: "nat \<Rightarrow> nat \<Rightarrow> u16 \<Rightarrow> fs \<Rightarrow> fs" where
  "set_zone rip i z = upd_inode rip (\<lambda>x. x\<lparr>i_zone := (i_zone x)(i := z)\<rparr>)"

definition enter_zone :: "nat \<Rightarrow> u16 \<Rightarrow> bool \<Rightarrow> int \<Rightarrow> u16 \<Rightarrow> fs \<Rightarrow> (int \<times> fs) outcome" where
  "enter_zone rip b new_ind excess new_zone s =
     and_then (get_block (i_dev (inode_tab s rip)) b (if new_ind then NO_READ else NORMAL) s) (\<lambda>(bp, s1).
       let s2 = (if new_ind then zero_block bp s1 else s1);
           s3 = upd_buf bp (\<lambda>x. x\<lparr>b_data := set_int (nat excess) new_zone (b_data x), b_dirt := True\<rparr>) s2;
           s4 = upd_inode rip (\<lambda>x. x\<lparr>i_update := MTIME\<rparr>) s3
       in and_then (put_block (Some bp) INDIRECT_BLOCK s4) (\<lambda>s5. Done (FS_OK, s5)))"

definition find_single :: "nat \<Rightarrow> u16 \<Rightarrow> bool \<Rightarrow> int \<Rightarrow> fs \<Rightarrow> (u16 \<times> bool \<times> fs) outcome" where
  "find_single rip b new_dbl index s =
     (let dev = i_dev (inode_tab s rip) in
      and_then (get_block dev b (if new_dbl then NO_READ else NORMAL) s) (\<lambda>(bp, s1).
        let s2 = (if new_dbl then zero_block bp s1 else s1);
            z = get_int (b_data (buf_tab s2 bp)) (nat index)
        in and_then
             (if z \<noteq> NO_ZONE then Done (z, False, s2)
              else and_then (alloc_zone dev (i_zone (inode_tab s2 rip) 0) s2) (\<lambda>(z1, s3).
                Done (z1, True, upd_buf bp (\<lambda>x. x\<lparr>b_data := set_int (nat index) z1 (b_data x), b_dirt := True\<rparr>) s3)))
             (\<lambda>(z2, new_ind, s4). and_then (put_block (Some bp) INDIRECT_BLOCK s4) (\<lambda>s5. Done (z2, new_ind, s5)))))"

definition write_map :: "nat \<Rightarrow> int \<Rightarrow> u16 \<Rightarrow> fs \<Rightarrow> (int \<times> fs) outcome" where
  "write_map rip position new_zone s0 =
     (let s = upd_inode rip (\<lambda>x. x\<lparr>i_dirt := True\<rparr>) s0; dev = i_dev (inode_tab s rip) in
      and_then (scale_factor rip s) (\<lambda>scale.
        let zone = zone_index scale position in
        if zone < NR_DZONE_NUM
        then Done (FS_OK, upd_inode rip (\<lambda>x. x\<lparr>i_update := MTIME\<rparr>) (set_zone rip (nat zone) new_zone s))
        else let excess = zone - NR_DZONE_NUM in
          if excess < NR_INDIRECTS
          then let z = i_zone (inode_tab s rip) 7 in
            if z \<noteq> NO_ZONE then enter_zone rip (zone_block scale z) False excess new_zone s
            else and_then (alloc_zone dev (i_zone (inode_tab s rip) 0) s) (\<lambda>(z1, s1).
              let s2 = set_zone rip 7 z1 s1
              in if z1 = NO_ZONE then Done (err_code s2, s2)
                 else enter_zone rip (zone_block scale z1) True excess new_zone s2)
          else
            and_then
              (if i_zone (inode_tab s rip) 8 \<noteq> NO_ZONE then Done (i_zone (inode_tab s rip) 8, False, s)
               else and_then (alloc_zone dev (i_zone (inode_tab s rip) 0) s) (\<lambda>(z1, s1).
                 Done (z1, True, if z1 = NO_ZONE then s1 else set_zone rip 8 z1 s1)))
              (\<lambda>(z, new_dbl, s1).
                 if z = NO_ZONE then Done (err_code s1, s1)
                 else let e = excess - NR_INDIRECTS; index = e div NR_INDIRECTS in
                   if index \<ge> NR_INDIRECTS then Done (EFBIG, s1)
                   else and_then (find_single rip (zone_block scale z) new_dbl index s1) (\<lambda>(z2, new_ind, s2).
                     if z2 = NO_ZONE then Done (err_code s2, s2)
                     else enter_zone rip (zone_block scale z2) new_ind (e mod NR_INDIRECTS) new_zone s2))))"

definition zero_one :: "u16 \<Rightarrow> u16 \<Rightarrow> fs \<Rightarrow> fs outcome" where
  "zero_one dev b s =
     and_then (get_block dev b NO_READ s) (\<lambda>(bp, s1). put_block (Some bp) FULL_DATA_BLOCK (zero_block bp s1))"

definition clear_zone :: "nat \<Rightarrow> int \<Rightarrow> int \<Rightarrow> fs \<Rightarrow> fs outcome" where
  "clear_zone rip pos0 flag s =
     and_then (scale_factor rip s) (\<lambda>scale.
       if scale = 0 then Done s
       else let zone_size = push_bit (nat scale) 1024;
                pos = (if flag = 1 then (pos0 div zone_size) * zone_size else pos0);
                next = pos + 1023
            in if next div zone_size \<noteq> pos div zone_size then Done s
               else and_then (read_map rip next s) (\<lambda>(blo, s1).
                 if blo = NO_BLOCK then Done s1
                 else let bhi = push_bit (nat scale) (drop_bit (nat scale) blo + 1) - 1
                      in if bhi = 0xFFFF then Stuck
                         else seq_all (\<lambda>b. zero_one (i_dev (inode_tab s1 rip)) (of_nat b)) [unat blo..<unat bhi + 1] s1))"

definition new_block :: "nat \<Rightarrow> int \<Rightarrow> fs \<Rightarrow> (nat option \<times> fs) outcome" where
  "new_block rip position s =
     (let dev = i_dev (inode_tab s rip) in
      and_then (read_map rip position s) (\<lambda>(b, s1).
      and_then
        (if b \<noteq> NO_BLOCK then Done (Some b, s1)
         else
           and_then (if i_size (inode_tab s1 rip) = 0
                     then and_then (get_super dev s1) (\<lambda>sp. Done (s_firstdatazone (super_tab s1 sp)))
                     else Done (i_zone (inode_tab s1 rip) 0)) (\<lambda>near.
           and_then (alloc_zone dev near s1) (\<lambda>(z, s2).
             if z = NO_ZONE then Done (None, s2)
             else and_then (write_map rip position z s2) (\<lambda>(r, s3).
               if r \<noteq> FS_OK then and_then (free_zone dev z s3) (\<lambda>s4. Done (None, s4\<lparr>err_code := r\<rparr>))
               else and_then (if position \<noteq> i_size (inode_tab s3 rip) then clear_zone rip position 1 s3 else Done s3) (\<lambda>s4.
               and_then (scale_factor rip s4) (\<lambda>scale.
                 let zone_size = push_bit (nat scale) 1024
                 in Done (Some (zone_block scale z + word_of_int ((position mod zone_size) div 1024)), s4)))))))
        (\<lambda>(bo, s5). case bo of
             None \<Rightarrow> Done (None, s5)
           | Some b1 \<Rightarrow> and_then (get_block dev b1 NO_READ s5) (\<lambda>(bp, s6). Done (Some bp, zero_block bp s6)))))"

text \<open>\<open>wipe_inode\<close> of \<open>inode.c\<close>.\<close>

definition wipe_inode :: "nat \<Rightarrow> fs \<Rightarrow> fs" where
  "wipe_inode rip =
     upd_inode rip (\<lambda>x. x\<lparr>i_size := 0, i_update := MTIME, i_dirt := True,
       i_zone := (\<lambda>i. if i < 9 then NO_ZONE else i_zone x i)\<rparr>)"

text \<open>
  \<open>truncate\<close>: the loop over the zones of the file runs \<open>n\<close> times unless the last addition to \<open>position\<close> leaves
  the longs.
\<close>

definition free_data_zone :: "nat \<Rightarrow> int \<Rightarrow> int \<Rightarrow> fs \<Rightarrow> fs outcome" where
  "free_data_zone rip scale position s =
     and_then (read_map rip position s) (\<lambda>(b, s1).
       if b = NO_BLOCK then Done s1 else free_zone (i_dev (inode_tab s rip)) (drop_bit (nat scale) b) s1)"

definition free_indirect :: "u16 \<Rightarrow> nat \<Rightarrow> nat \<Rightarrow> fs \<Rightarrow> fs outcome" where
  "free_indirect dev bp i s = free_zone dev (get_int (b_data (buf_tab s bp)) i) s"

definition truncate :: "nat \<Rightarrow> fs \<Rightarrow> fs outcome" where
  "truncate rip s =
     (let x = inode_tab s rip; file_type = i_mode x AND 0xF000; dev = i_dev x in
      if file_type = 0x2000 \<or> file_type = 0x6000 then Done s
      else and_then (scale_factor rip s) (\<lambda>scale.
        let zone_size = push_bit (nat scale) 1024;
            waspipe = i_pipe x;
            s1 = (if waspipe then upd_inode rip (\<lambda>y. y\<lparr>i_size := PIPE_SIZE\<rparr>) s else s);
            size = i_size (inode_tab s1 rip);
            n = (if size \<le> 0 then 0 else (size + zone_size - 1) div zone_size)
        in if as_long (n * zone_size) < size then Stuck
           else
             and_then (seq_all (\<lambda>k. free_data_zone rip scale (int k * zone_size)) [0..<nat n] s1) (\<lambda>s2.
             and_then (free_zone dev (i_zone (inode_tab s2 rip) 7) s2) (\<lambda>s3.
             let z = i_zone (inode_tab s3 rip) 8 in
             and_then
               (if z = NO_ZONE then Done s3
                else and_then (get_block dev (zone_block scale z) NORMAL s3) (\<lambda>(bp, s4).
                     and_then (seq_all (free_indirect dev bp) [0..<512] s4) (\<lambda>s5.
                     and_then (put_block (Some bp) INDIRECT_BLOCK s5) (\<lambda>s6. free_zone dev z s6))))
               (\<lambda>s7. Done (upd_inode rip (\<lambda>y. y\<lparr>i_dirt := True\<rparr>) (if waspipe then wipe_inode rip s7 else s7)))))))"

subsection \<open>The cache does not depend on the other tables\<close>

lemma rest_fields:
  assumes "rest t = rest s"
  shows "inode_tab t = inode_tab s" "super_tab t = super_tab s" "filp_tab t = filp_tab s" "fproc_tab t = fproc_tab s"
    "err_code t = err_code s" "fp t = fp s" "answers t = answers s"
  using arg_cong [OF assms, of inode_tab] arg_cong [OF assms, of super_tab] arg_cong [OF assms, of filp_tab]
    arg_cong [OF assms, of fproc_tab] arg_cong [OF assms, of err_code] arg_cong [OF assms, of fp]
    arg_cong [OF assms, of answers] by (simp_all add: rest_def)

lemma upd_inode_cache [simp]:
  "buf_tab (upd_inode i f s) = buf_tab s" "buf_hash (upd_inode i f s) = buf_hash s" "front (upd_inode i f s) = front s"
  "rear (upd_inode i f s) = rear s" "bufs_in_use (upd_inode i f s) = bufs_in_use s" "disk (upd_inode i f s) = disk s"
  "answers (upd_inode i f s) = answers s" "super_tab (upd_inode i f s) = super_tab s" "unit_of d (upd_inode i f s) = unit_of d s"
  "inode_tab (upd_inode i f s) j = (if j = i then f (inode_tab s i) else inode_tab s j)"
  by (simp_all add: fs_upd unit_of_def)

lemma upd_inode_inv [simp]:
  "cache_inv (upd_inode i f s) = cache_inv s" "view (upd_inode i f s) = view s" "users (upd_inode i f s) = users s"
  "holds_block (upd_inode i f s) = holds_block s"
proof -
  have "cache_ok (upd_inode i f s) = cache_ok s"
    by (simp add: cache_ok_def cache_but_def dll_def hash_rep_def uniq_def devs_ok_def in_use_def)
  then show "cache_inv (upd_inode i f s) = cache_inv s" by (simp add: cache_inv_def coherent_def)
  show "view (upd_inode i f s) = view s" by (simp add: fun_eq_iff view_def cached_def cong: option.case_cong)
  show "users (upd_inode i f s) = users s" by (simp add: fun_eq_iff users_def)
  show "holds_block (upd_inode i f s) = holds_block s" by (simp add: fun_eq_iff holds_block_def)
qed

lemma scale_factor_upd [simp]:
  "(\<And>x. i_dev (f x) = i_dev x) \<Longrightarrow> scale_factor ip (upd_inode i f s) = scale_factor ip s"
  by (simp add: scale_factor_def get_super_def)

lemma scale_factor_rest: "rest t = rest s \<Longrightarrow> scale_factor ip t = scale_factor ip s"
  using rest_fields [of t s] by (simp add: scale_factor_def get_super_def)

subsection \<open>Looking up and entering zones\<close>

definition steady :: "fs \<Rightarrow> fs \<Rightarrow> bool" where
  "steady s t \<longleftrightarrow> cache_inv t \<and> users t = users s \<and> (\<forall>k. disk_dev (fst k) \<longrightarrow> view t k = view s k) \<and> rest t = rest s"

lemma steady_trans: "steady s t \<Longrightarrow> steady t u \<Longrightarrow> steady s u"
  by (simp add: steady_def)

text \<open>
  \<open>mild B s t\<close>: blocks have been fetched and put back. Nothing that counts has changed (\<open>steady\<close>), the buffers that
  are in use are as they were, and only blocks of \<open>B\<close> have come into the cache.
\<close>

definition mild :: "(u16 \<times> u16) set \<Rightarrow> fs \<Rightarrow> fs \<Rightarrow> bool" where
  "mild B s t \<longleftrightarrow> steady s t \<and> (\<forall>d c. d \<noteq> NO_DEV \<longrightarrow> (d, c) \<notin> B \<longrightarrow> uncached d c s \<longrightarrow> uncached d c t) \<and>
     (\<forall>i < NR_BUFS. b_count (buf_tab s i) \<noteq> 0 \<longrightarrow> b_data (buf_tab t i) = b_data (buf_tab s i) \<and>
        b_dev (buf_tab t i) = b_dev (buf_tab s i) \<and> b_blocknr (buf_tab t i) = b_blocknr (buf_tab s i))"

lemma mild_refl: "cache_inv s \<Longrightarrow> mild B s s"
  by (simp add: mild_def steady_def)

lemma users_count: "users t = users s \<Longrightarrow> b_count (buf_tab t i) = b_count (buf_tab s i)"
  by (metis users_def word_unat_eq_iff)

lemma mild_trans: "mild B s t \<Longrightarrow> mild C t u \<Longrightarrow> B \<union> C \<subseteq> D \<Longrightarrow> mild D s u"
  unfolding mild_def using steady_trans [of s t u] users_count [of t s] by (auto simp: steady_def) blast

lemma mild_mono: "mild B s t \<Longrightarrow> B \<subseteq> C \<Longrightarrow> mild C s t"
  by (auto simp: mild_def)

text \<open>A block is fetched, looked at and put back.\<close>

lemma get_put_mild:
  assumes "cache_inv s" and "has_room (users s)" and "disk_dev dev"
  shows "\<exists>h s1 t. get_block dev b NORMAL s = Done (h, s1) \<and> b_data (buf_tab s1 h) = view s (dev, b) \<and>
    put_block (Some h) ty s1 = Done t \<and> mild {(dev, b)} s t"
proof -
  have ok: "cache_ok s" "answers s = []" "\<forall>i < NR_BUFS. b_count (buf_tab s i) \<noteq> 255" using assms(1) by (auto simp: cache_inv_def)
  obtain h s1 where g: "get_block dev b NORMAL s = Done (h, s1)" "got dev b NORMAL {} s h s1" "cache_ok s1" "h < NR_BUFS"
    "users s1 = (users s)(h := users s h + 1)" "b_count (buf_tab s1 h) \<noteq> 0" "b_blocknr (buf_tab s1 h) = b"
    "\<forall>i < NR_BUFS. b_count (buf_tab s1 i) \<noteq> 255" "answers s1 = []"
    using get_new [OF assms] by blast
  have i1: "cache_inv s1" using g by (simp add: cache_inv_def got_def)
  have "holds_block s1 h (dev, b)" using g by (simp add: holds_block_def got_def)
  then obtain t where t: "put_block (Some h) ty s1 = Done t" "cache_inv t" "keeps s1 t" "users t = (users s1)(h := users s1 h - 1)"
    using put_held [OF i1] by blast
  obtain t' where t': "put_block (Some h) ty s1 = Done t'"
    "\<forall>i. i \<noteq> h \<longrightarrow> b_data (buf_tab t' i) = b_data (buf_tab s1 i) \<and> b_dev (buf_tab t' i) = b_dev (buf_tab s1 i) \<and> b_blocknr (buf_tab t' i) = b_blocknr (buf_tab s1 i)"
    using put_block_served [OF g(3) _ g(9,4) _ g(6), of "{}" ty] i1 by (auto simp: cache_inv_def)
  have "steady s t" using g t by (simp add: steady_def keeps_def got_def fun_eq_iff)
  moreover have "uncached d c t" if "d \<noteq> NO_DEV" "(d, c) \<noteq> (dev, b)" "uncached d c s" for d c
    using put_block_uncached [OF g(6) t(1) that(1)] get_block_uncached [OF ok(1) g(1) that(1,3)] that(2) by blast
  moreover have "b_data (buf_tab t i) = b_data (buf_tab s i) \<and> b_dev (buf_tab t i) = b_dev (buf_tab s i) \<and> b_blocknr (buf_tab t i) = b_blocknr (buf_tab s i)"
    if "i < NR_BUFS" "b_count (buf_tab s i) \<noteq> 0" for i
  proof (cases "i = h")
    case True
    have "b_count (buf_tab s1 h) \<noteq> 1" using g(5) that(2) True by (auto simp: users_def fun_eq_iff unat_eq_zero dest!: spec [of _ h])
    moreover note t(1)
    ultimately have "t = upd_buf h (\<lambda>x. x\<lparr>b_count := b_count x - 1\<rparr>) s1" by (rule_tac put_block_cases [OF g(6), of ty]) auto
    then show ?thesis using g(2) that(2) True by (auto simp: got_def fs_upd)
  next
    case False
    then show ?thesis using g(2) that(2) t' t(1) by (simp add: got_def)
  qed
  ultimately have "mild {(dev, b)} s t" by (simp add: mild_def)
  then show ?thesis using g t by (auto simp: got_def)
qed

lemma ind_entry_mild:
  assumes "cache_inv s" and "has_room (users s)" and "disk_dev dev" and "0 \<le> i" and "i < NR_INDIRECTS"
  shows "\<exists>t. ind_entry dev b i s = Done (get_int (view s (dev, b)) (nat i), t) \<and> mild {(dev, b)} s t"
  using get_put_mild [OF assms(1-3), of b INDIRECT_BLOCK] assms(4,5) by (auto simp: ind_entry_def)

text \<open>
  The zone tree of an inode over the contents \<open>V\<close> of the blocks: \<open>zone_at\<close> is the zone number at index \<open>n\<close> of
  the file, \<open>leaf_block\<close> the indirect block that holds this number.
\<close>

definition leaf_zone :: "(u16 \<times> u16 \<Rightarrow> block_data) \<Rightarrow> int \<Rightarrow> inode \<Rightarrow> int \<Rightarrow> u16" where
  "leaf_zone V scale x n =
     (if n < 519 then i_zone x 7
      else if i_zone x 8 = NO_ZONE then NO_ZONE
      else get_int (V (i_dev x, zone_block scale (i_zone x 8))) (nat ((n - 519) div 512)))"

definition leaf_index :: "int \<Rightarrow> nat" where
  "leaf_index n = nat (if n < 519 then n - 7 else (n - 519) mod 512)"

definition zone_at :: "(u16 \<times> u16 \<Rightarrow> block_data) \<Rightarrow> int \<Rightarrow> inode \<Rightarrow> int \<Rightarrow> u16" where
  "zone_at V scale x n =
     (if n < 7 then i_zone x (nat n)
      else if leaf_zone V scale x n = NO_ZONE then NO_ZONE
      else get_int (V (i_dev x, zone_block scale (leaf_zone V scale x n))) (leaf_index n))"

abbreviation (input) MAX_ZONES :: int where "MAX_ZONES \<equiv> 262663"

definition file_meta :: "(u16 \<times> u16 \<Rightarrow> block_data) \<Rightarrow> int \<Rightarrow> inode \<Rightarrow> (u16 \<times> u16) set" where
  "file_meta V scale x = {(i_dev x, zone_block scale z) |z. z = i_zone x 8 \<or> (\<exists>n. 0 \<le> n \<and> n < MAX_ZONES \<and> z = leaf_zone V scale x n)}"

lemma read_map_mild:
  assumes "cache_inv s" and "has_room (users s)" and "disk_dev (i_dev (inode_tab s rip))"
    and "scale_factor rip s = Done scale" and "0 \<le> zone_index scale position" and "zone_index scale position < MAX_ZONES"
  shows "\<exists>t. read_map rip position s = Done (let z = zone_at (view s) scale (inode_tab s rip) (zone_index scale position) in
      if z = NO_ZONE then NO_BLOCK else zone_block scale z + word_of_int (block_in_zone scale position), t) \<and>
      mild (file_meta (view s) scale (inode_tab s rip)) s t"
proof -
  let ?x = "inode_tab s rip"
  let ?n = "zone_index scale position"
  let ?M = "file_meta (view s) scale ?x"
  let ?blk = "\<lambda>z2. if z2 = NO_ZONE then NO_BLOCK else zone_block scale z2 + word_of_int (block_in_zone scale position)"
  have leaf: "(i_dev ?x, zone_block scale (leaf_zone (view s) scale ?x ?n)) \<in> ?M" using assms(5,6) by (auto simp: file_meta_def)
  have step: "\<exists>t. and_then (ind_entry (i_dev ?x) (zone_block scale z) e u) (\<lambda>(z2, s2). Done (?blk z2, s2)) =
      Done (?blk (get_int (view s (i_dev ?x, zone_block scale z)) (nat e)), t) \<and> mild ?M s t"
    if u: "mild ?M s u" and z: "z = leaf_zone (view s) scale ?x ?n" and e: "0 \<le> e" "e < NR_INDIRECTS" for z e u
  proof -
    have "cache_inv u" "has_room (users u)" using u assms(2) by (simp_all add: mild_def steady_def)
    from ind_entry_mild [OF this assms(3) e, of "zone_block scale z"]
    obtain t where t: "ind_entry (i_dev ?x) (zone_block scale z) e u =
        Done (get_int (view u (i_dev ?x, zone_block scale z)) (nat e), t)" "mild {(i_dev ?x, zone_block scale z)} u t" by blast
    have "view u (i_dev ?x, zone_block scale z) = view s (i_dev ?x, zone_block scale z)"
      using u assms(3) by (simp add: mild_def steady_def)
    then show ?thesis using t mild_trans [OF u t(2), of ?M] leaf z by auto
  qed
  have ss: "mild ?M s s" using assms(1) by (rule mild_refl)
  show ?thesis
  proof (cases "?n < 519")
    case True
    then show ?thesis
      using step [OF ss, of "i_zone ?x 7" "?n - 7"] ss assms(4)
      by (auto simp: read_map_def zone_at_def leaf_zone_def leaf_index_def Let_def split: if_splits)
  next
    case False
    let ?e = "?n - 519"
    have e: "0 \<le> ?e div 512" "?e div 512 < NR_INDIRECTS" using False assms(6) by auto
    show ?thesis
    proof (cases "i_zone ?x 8 = NO_ZONE")
      case True
      then show ?thesis using False ss assms(4)
        by (auto simp: read_map_def zone_at_def leaf_zone_def Let_def)
    next
      case False2: False
      obtain u where u: "ind_entry (i_dev ?x) (zone_block scale (i_zone ?x 8)) (?e div 512) s =
          Done (leaf_zone (view s) scale ?x ?n, u)" "mild {(i_dev ?x, zone_block scale (i_zone ?x 8))} s u"
        using ind_entry_mild [OF assms(1-3) e, of "zone_block scale (i_zone ?x 8)"] False False2
        by (auto simp: leaf_zone_def)
      have "mild ?M s u" using u(2) by (rule mild_mono) (auto simp: file_meta_def)
      then show ?thesis
        using step [of u "leaf_zone (view s) scale ?x ?n" "?e mod 512"] u False False2 assms(4)
        by (auto simp: read_map_def zone_at_def leaf_index_def Let_def algebra_simps split: if_splits)
    qed
  qed
qed

lemma read_map_spec:
  assumes "cache_inv s" and "has_room (users s)" and "disk_dev (i_dev (inode_tab s rip))"
    and "scale_factor rip s = Done scale" and "0 \<le> zone_index scale position" and "zone_index scale position < MAX_ZONES"
  shows "\<exists>t. read_map rip position s = Done (let z = zone_at (view s) scale (inode_tab s rip) (zone_index scale position) in
      if z = NO_ZONE then NO_BLOCK else zone_block scale z + word_of_int (block_in_zone scale position), t) \<and> steady s t"
  using read_map_mild [OF assms] by (auto simp: mild_def)

lemma upd_inode_rest [simp]: "rest (upd_inode i f s) = upd_inode i f (rest s)"
  by (simp add: rest_def fs_upd)

lemma enter_zone_present:
  assumes "cache_inv s" and "has_room (users s)" and "disk_dev (i_dev (inode_tab s rip))"
  shows "\<exists>t. enter_zone rip b False e z s = Done (FS_OK, t) \<and> cache_inv t \<and> users t = users s \<and>
    inode_tab t = (inode_tab s)(rip := (inode_tab s rip)\<lparr>i_update := MTIME\<rparr>) \<and> super_tab t = super_tab s \<and>
    view t (i_dev (inode_tab s rip), b) = set_int (nat e) z (view s (i_dev (inode_tab s rip), b)) \<and>
    (\<forall>k. disk_dev (fst k) \<longrightarrow> k \<noteq> (i_dev (inode_tab s rip), b) \<longrightarrow> view t k = view s k)"
proof -
  let ?d = "i_dev (inode_tab s rip)"
  let ?k = "(?d, b)"
  let ?f = "upd_inode rip (\<lambda>x. x\<lparr>i_update := MTIME\<rparr>)"
  obtain h s1 where g: "get_block ?d b NORMAL s = Done (h, s1)" "cache_inv s1" "holds_block s1 h ?k"
    "b_data (buf_tab s1 h) = view s ?k" "\<forall>j. disk_dev (fst j) \<longrightarrow> view s1 j = view s j"
    "users s1 = (users s)(h := users s h + 1)" "rest s1 = rest s"
    using blocks.get_law [OF assms(1,2), of ?k] assms(3) by auto
  let ?v = "set_int (nat e) z (view s ?k)"
  let ?s = "fill h ?v s1"
  have st: "cache_inv ?s" "holds_block ?s h ?k" "view ?s ?k = ?v" "users ?s = users s1"
    "\<forall>j. disk_dev (fst j) \<longrightarrow> j \<noteq> ?k \<longrightarrow> view ?s j = view s1 j" "rest ?s = rest s1"
    using blocks.store_law [OF g(2,3), of ?v] assms(3) by auto
  obtain t where t: "put_block (Some h) INDIRECT_BLOCK (?f ?s) = Done t" "cache_inv t"
    "\<forall>j. disk_dev (fst j) \<longrightarrow> view t j = view (?f ?s) j"
    "users t = (users (?f ?s))(h := users (?f ?s) h - 1)" "rest t = rest (?f ?s)"
    using blocks.put_law [of "?f ?s" h ?k INDIRECT_BLOCK] st assms(3) by auto
  have "fill h ?v s1 = upd_buf h (\<lambda>x. x\<lparr>b_data := set_int (nat e) z (b_data x), b_dirt := True\<rparr>) s1"
    using g(4) by (simp add: fill_def fs_upd)
  then have "enter_zone rip b False e z s = Done (FS_OK, t)"
    using g(1) t(1) by (simp add: enter_zone_def Let_def)
  moreover have "rest t = rest (?f s)" using t(5) g(7) st(6) by simp
  then have "inode_tab t = inode_tab (?f s)" "super_tab t = super_tab (?f s)" by (rule rest_fields)+
  ultimately show ?thesis using t g st assms(3) by (auto simp: fun_eq_iff)
qed

text \<open>
  No two parts of the zone tree share a block: \<open>ind_slot\<close> numbers the single indirect blocks of a file.
\<close>

definition ind_slot :: "int \<Rightarrow> int" where
  "ind_slot n = (if n < 519 then 0 else 1 + (n - 519) div 512)"

definition tree_ok :: "(u16 \<times> u16 \<Rightarrow> block_data) \<Rightarrow> int \<Rightarrow> inode \<Rightarrow> bool" where
  "tree_ok V scale x \<longleftrightarrow> (\<forall>m n. 7 \<le> m \<longrightarrow> m < MAX_ZONES \<longrightarrow> leaf_zone V scale x m \<noteq> NO_ZONE \<longrightarrow>
     (i_zone x 8 \<noteq> NO_ZONE \<longrightarrow> zone_block scale (leaf_zone V scale x m) \<noteq> zone_block scale (i_zone x 8)) \<and>
     (7 \<le> n \<longrightarrow> n < MAX_ZONES \<longrightarrow> leaf_zone V scale x n \<noteq> NO_ZONE \<longrightarrow>
       zone_block scale (leaf_zone V scale x m) = zone_block scale (leaf_zone V scale x n) \<longrightarrow> ind_slot m = ind_slot n))"

lemma same_leaf:
  assumes "ind_slot m = ind_slot n" and "leaf_index m = leaf_index n" and "7 \<le> m" and "7 \<le> n"
  shows "m = n"
proof (cases "m < 519 \<or> n < 519")
  case True
  then show ?thesis using assms by (auto simp: ind_slot_def leaf_index_def split: if_splits)
next
  case False
  then have "(m - 519) div 512 = (n - 519) div 512" "(m - 519) mod 512 = (n - 519) mod 512"
    using assms by (auto simp: ind_slot_def leaf_index_def)
  then show ?thesis using div_mult_mod_eq [of "m - 519" 512] div_mult_mod_eq [of "n - 519" 512] by linarith
qed

lemma zone_at_change:
  assumes "tree_ok V scale x" and "7 \<le> n" and "n < MAX_ZONES" and "leaf_zone V scale x n \<noteq> NO_ZONE"
    and "i_zone y = i_zone x" and "i_dev y = i_dev x"
    and "W (i_dev x, zone_block scale (leaf_zone V scale x n)) =
      set_int (leaf_index n) z (V (i_dev x, zone_block scale (leaf_zone V scale x n)))"
    and "\<And>b. b \<noteq> zone_block scale (leaf_zone V scale x n) \<Longrightarrow> W (i_dev x, b) = V (i_dev x, b)"
    and "0 \<le> m" and "m < MAX_ZONES"
  shows "zone_at W scale y m = (if m = n then z else zone_at V scale x m)"
proof (cases "m < 7")
  case True
  then show ?thesis using assms by (simp add: zone_at_def)
next
  case False
  have dbl: "i_zone x 8 \<noteq> NO_ZONE \<Longrightarrow> zone_block scale (i_zone x 8) \<noteq> zone_block scale (leaf_zone V scale x n)"
    using assms(1-4) unfolding tree_ok_def by metis
  have leaf: "leaf_zone W scale y m = leaf_zone V scale x m"
    using dbl assms(5,6,8) by (simp add: leaf_zone_def)
  show ?thesis
  proof (cases "leaf_zone V scale x m = NO_ZONE")
    case True
    then show ?thesis using False leaf assms(4) by (auto simp: zone_at_def)
  next
    case used: False
    show ?thesis
    proof (cases "zone_block scale (leaf_zone V scale x m) = zone_block scale (leaf_zone V scale x n)")
      case True
      then have "ind_slot m = ind_slot n" using used False assms(1-4,10) unfolding tree_ok_def by (metis linorder_not_less)
      then have "leaf_index m = leaf_index n \<longleftrightarrow> m = n" using same_leaf [of m n] False assms(2) by auto
      then show ?thesis using True False used leaf assms(6,7) by (auto simp: zone_at_def)
    next
      case other: False
      then show ?thesis using False used leaf assms(6,8) by (auto simp: zone_at_def)
    qed
  qed
qed

lemma scale_factor_inodes:
  "super_tab t = super_tab s \<Longrightarrow> i_dev (inode_tab t ip) = i_dev (inode_tab s ip) \<Longrightarrow> scale_factor ip t = scale_factor ip s"
  by (simp add: scale_factor_def get_super_def)

lemma find_single_present:
  assumes "cache_inv s" and "has_room (users s)" and "disk_dev (i_dev (inode_tab s rip))"
    and "get_int (view s (i_dev (inode_tab s rip), b)) (nat index) \<noteq> NO_ZONE"
  shows "\<exists>t. find_single rip b False index s =
      Done (get_int (view s (i_dev (inode_tab s rip), b)) (nat index), False, t) \<and> steady s t"
proof -
  let ?d = "i_dev (inode_tab s rip)"
  obtain h s1 where g: "get_block ?d b NORMAL s = Done (h, s1)" "cache_inv s1" "holds_block s1 h (?d, b)"
    "b_data (buf_tab s1 h) = view s (?d, b)" "\<forall>j. disk_dev (fst j) \<longrightarrow> view s1 j = view s j"
    "users s1 = (users s)(h := users s h + 1)" "rest s1 = rest s"
    using blocks.get_law [OF assms(1,2), of "(?d, b)"] assms(3) by auto
  obtain t where t: "put_block (Some h) INDIRECT_BLOCK s1 = Done t" "cache_inv t"
    "\<forall>j. disk_dev (fst j) \<longrightarrow> view t j = view s1 j"
    "users t = (users s1)(h := users s1 h - 1)" "rest t = rest s1"
    using blocks.put_law [of s1 h "(?d, b)" INDIRECT_BLOCK] g assms(3) by auto
  have "find_single rip b False index s = Done (get_int (view s (?d, b)) (nat index), False, t)"
    using g(1,4) t(1) assms(4) by (simp add: find_single_def Let_def)
  then show ?thesis using g t by (auto simp: steady_def fun_eq_iff)
qed

lemma steady_fields:
  assumes "steady s t"
  shows "cache_inv t" "users t = users s" "inode_tab t = inode_tab s" "super_tab t = super_tab s"
    "disk_dev d \<Longrightarrow> view t (d, b) = view s (d, b)"
  using assms rest_fields [of t s] by (simp_all add: steady_def)

text \<open>\<open>write_map\<close> where the indirect blocks are there comes down to \<open>enter_zone\<close> on the leaf.\<close>

lemma write_map_leaf:
  assumes "cache_inv s" and "has_room (users s)" and "disk_dev (i_dev (inode_tab s rip))"
    and "scale_factor rip s = Done scale" and "7 \<le> zone_index scale position" and "zone_index scale position < MAX_ZONES"
    and "leaf_zone (view s) scale (inode_tab s rip) (zone_index scale position) \<noteq> NO_ZONE"
  shows "\<exists>u. write_map rip position z s = enter_zone rip (zone_block scale (leaf_zone (view s) scale (inode_tab s rip)
        (zone_index scale position))) False (int (leaf_index (zone_index scale position))) z u \<and>
      steady (upd_inode rip (\<lambda>x. x\<lparr>i_dirt := True\<rparr>) s) u"
proof -
  let ?n = "zone_index scale position"
  let ?s = "upd_inode rip (\<lambda>x. x\<lparr>i_dirt := True\<rparr>) s"
  have sc: "scale_factor rip ?s = Done scale" using assms(4) by simp
  have ci: "cache_inv ?s" "has_room (users ?s)" "disk_dev (i_dev (inode_tab ?s rip))" using assms(1-3) by simp_all
  show ?thesis
  proof (cases "?n < 519")
    case True
    then show ?thesis using assms(1,5,7) sc
      by (intro exI [of _ ?s]) (simp add: write_map_def Let_def leaf_zone_def leaf_index_def steady_def)
  next
    case False
    have dbl: "i_zone (inode_tab s rip) 8 \<noteq> NO_ZONE" using False assms(7) by (auto simp: leaf_zone_def)
    let ?b = "zone_block scale (i_zone (inode_tab s rip) 8)"
    let ?i = "(?n - 519) div 512"
    have z: "get_int (view s (i_dev (inode_tab s rip), ?b)) (nat ?i) = leaf_zone (view s) scale (inode_tab s rip) ?n"
      using False dbl by (simp add: leaf_zone_def)
    then obtain u where u: "find_single rip ?b False ?i ?s = Done (leaf_zone (view s) scale (inode_tab s rip) ?n, False, u)"
      "steady ?s u" using find_single_present [OF ci, of ?b ?i] assms(7) by auto
    have i: "?i < 512" "int (leaf_index ?n) = (?n - 519) mod 512" using False assms(6) by (simp_all add: leaf_index_def)
    have e: "?n - 7 - 512 = ?n - 519" by simp
    have "write_map rip position z s = enter_zone rip (zone_block scale (leaf_zone (view s) scale (inode_tab s rip) ?n))
        False (int (leaf_index ?n)) z u"
      using False dbl u(1) i assms(5,7) sc by (simp add: write_map_def Let_def e)
    then show ?thesis using u(2) by blast
  qed
qed

lemma write_map_present:
  assumes "cache_inv s" and "has_room (users s)" and "disk_dev (i_dev (inode_tab s rip))"
    and "scale_factor rip s = Done scale" and "0 \<le> zone_index scale position" and "zone_index scale position < MAX_ZONES"
    and "tree_ok (view s) scale (inode_tab s rip)"
    and "zone_index scale position < 7 \<or> leaf_zone (view s) scale (inode_tab s rip) (zone_index scale position) \<noteq> NO_ZONE"
  shows "\<exists>t. write_map rip position z s = Done (FS_OK, t) \<and> cache_inv t \<and> users t = users s \<and>
    i_dev (inode_tab t rip) = i_dev (inode_tab s rip) \<and> scale_factor rip t = scale_factor rip s \<and>
    (\<forall>n. 0 \<le> n \<longrightarrow> n < MAX_ZONES \<longrightarrow> zone_at (view t) scale (inode_tab t rip) n =
      (if n = zone_index scale position then z else zone_at (view s) scale (inode_tab s rip) n))"
proof (cases "zone_index scale position < 7")
  case True
  then show ?thesis using assms(1,4)
    by (auto simp: write_map_def set_zone_def zone_at_def leaf_zone_def Let_def assms(5) nat_eq_iff2 intro: scale_factor_inodes)
next
  case False
  let ?n = "zone_index scale position"
  let ?x = "inode_tab s rip"
  let ?b = "zone_block scale (leaf_zone (view s) scale ?x ?n)"
  obtain u where u: "write_map rip position z s = enter_zone rip ?b False (int (leaf_index ?n)) z u"
    "steady (upd_inode rip (\<lambda>x. x\<lparr>i_dirt := True\<rparr>) s) u"
    using write_map_leaf [OF assms(1-4) _ assms(6), of z] False assms(8) by auto
  note v = steady_fields [OF u(2)]
  obtain t where t: "enter_zone rip ?b False (int (leaf_index ?n)) z u = Done (FS_OK, t)" "cache_inv t" "users t = users u"
    "inode_tab t = (inode_tab u)(rip := (inode_tab u rip)\<lparr>i_update := MTIME\<rparr>)" "super_tab t = super_tab u"
    "view t (i_dev ?x, ?b) = set_int (leaf_index ?n) z (view u (i_dev ?x, ?b))"
    "\<forall>k. disk_dev (fst k) \<longrightarrow> k \<noteq> (i_dev ?x, ?b) \<longrightarrow> view t k = view u k"
    using enter_zone_present [of u rip ?b "int (leaf_index ?n)" z] v assms(2,3) by auto
  have x: "i_zone (inode_tab t rip) = i_zone ?x" "i_dev (inode_tab t rip) = i_dev ?x" using t(4) v(3) by simp_all
  have "zone_at (view t) scale (inode_tab t rip) m = (if m = ?n then z else zone_at (view s) scale ?x m)"
    if "0 \<le> m" "m < MAX_ZONES" for m
    by (rule zone_at_change [OF assms(7) _ assms(6) _ x]) (use False assms(3,8) t(6,7) v(5) that in auto)
  then show ?thesis using u(1) t(1-5) v x by (auto intro: scale_factor_inodes)
qed

lemma upd_super_inv [simp]:
  "cache_inv (upd_super i f s) = cache_inv s" "view (upd_super i f s) = view s" "users (upd_super i f s) = users s"
proof -
  have f [simp]: "buf_tab (upd_super i f s) = buf_tab s" "buf_hash (upd_super i f s) = buf_hash s" "front (upd_super i f s) = front s"
    "rear (upd_super i f s) = rear s" "bufs_in_use (upd_super i f s) = bufs_in_use s" "disk (upd_super i f s) = disk s"
    "answers (upd_super i f s) = answers s" "unit_of d (upd_super i f s) = unit_of d s" for d
    by (simp_all add: fs_upd unit_of_def)
  have "cache_ok (upd_super i f s) = cache_ok s"
    by (simp add: cache_ok_def cache_but_def dll_def hash_rep_def uniq_def devs_ok_def in_use_def)
  then show "cache_inv (upd_super i f s) = cache_inv s" by (simp add: cache_inv_def coherent_def)
  show "view (upd_super i f s) = view s" by (simp add: fun_eq_iff view_def cached_def cong: option.case_cong)
  show "users (upd_super i f s) = users s" by (simp add: fun_eq_iff users_def)
qed

text \<open>
  C13. Mapping a position of a file to a block: on a file whose indirect blocks are not shared, \<open>write_map\<close> of a
  zone at a position that needs no new indirect block (direct, single or double indirect) succeeds, and
  afterwards \<open>read_map\<close> of every position within the reach of the inode returns: in the zone of the written
  position the block of the new zone (no block for a zone number zero), at every other position what it
  returned before.
\<close>

theorem write_map_read_map:
  assumes "cache_inv s" and "has_room (users s)" and "disk_dev (i_dev (inode_tab s rip))"
    and "scale_factor rip s = Done scale" and "0 \<le> zone_index scale position" and "zone_index scale position < MAX_ZONES"
    and "tree_ok (view s) scale (inode_tab s rip)"
    and "zone_index scale position < 7 \<or> leaf_zone (view s) scale (inode_tab s rip) (zone_index scale position) \<noteq> NO_ZONE"
  shows "\<exists>t. write_map rip position z s = Done (FS_OK, t) \<and> cache_inv t \<and>
    (\<forall>q. 0 \<le> zone_index scale q \<longrightarrow> zone_index scale q < MAX_ZONES \<longrightarrow> (\<exists>b u v.
      read_map rip q s = Done (b, u) \<and>
      read_map rip q t = Done (if zone_index scale q \<noteq> zone_index scale position then b
        else if z = NO_ZONE then NO_BLOCK else zone_block scale z + word_of_int (block_in_zone scale q), v)))"
proof -
  obtain t where t: "write_map rip position z s = Done (FS_OK, t)" "cache_inv t" "users t = users s"
    "i_dev (inode_tab t rip) = i_dev (inode_tab s rip)" "scale_factor rip t = scale_factor rip s"
    "\<forall>n. 0 \<le> n \<longrightarrow> n < MAX_ZONES \<longrightarrow> zone_at (view t) scale (inode_tab t rip) n =
      (if n = zone_index scale position then z else zone_at (view s) scale (inode_tab s rip) n)"
    using write_map_present [OF assms, of z] by blast
  have "\<exists>b u v. read_map rip q s = Done (b, u) \<and> read_map rip q t = Done (if zone_index scale q \<noteq> zone_index scale position then b
        else if z = NO_ZONE then NO_BLOCK else zone_block scale z + word_of_int (block_in_zone scale q), v)"
    if q: "0 \<le> zone_index scale q" "zone_index scale q < MAX_ZONES" for q
  proof -
    obtain u where u: "read_map rip q s = Done (let z = zone_at (view s) scale (inode_tab s rip) (zone_index scale q) in
      if z = NO_ZONE then NO_BLOCK else zone_block scale z + word_of_int (block_in_zone scale q), u)"
      using read_map_spec [OF assms(1-4) q] by blast
    obtain v where "read_map rip q t = Done (let z = zone_at (view t) scale (inode_tab t rip) (zone_index scale q) in
      if z = NO_ZONE then NO_BLOCK else zone_block scale z + word_of_int (block_in_zone scale q), v)"
      using read_map_spec [of t rip scale q] t(2-5) assms(2-4) q by auto
    with u t(6) q show ?thesis by (auto simp: Let_def)
  qed
  then show ?thesis using t(1,2) by blast
qed

definition demo_file :: fs where
  "demo_file = upd_inode 2 (\<lambda>x. x\<lparr>i_dev := 0x300, i_zone := (\<lambda>_. NO_ZONE)(0 := 18, 7 := 20)\<rparr>)
     (upd_super 0 (\<lambda>x. x\<lparr>s_dev := 0x300\<rparr>) (buf_pool demo_fs))"

lemma demo_file_ok:
  "cache_inv demo_file" "has_room (users demo_file)" "disk_dev (i_dev (inode_tab demo_file 2))"
  "scale_factor 2 demo_file = Done 0" "tree_ok (view demo_file) 0 (inode_tab demo_file 2)"
  "leaf_zone (view demo_file) 0 (inode_tab demo_file 2) 9 = 20"
proof -
  show "cache_inv demo_file" "has_room (users demo_file)" using demo_cache by (simp_all add: demo_file_def)
  show "disk_dev (i_dev (inode_tab demo_file 2))" by (simp add: demo_file_def disk_dev_def major_of_def)
  show "scale_factor 2 demo_file = Done 0"
    by (simp add: scale_factor_def get_super_def demo_file_def fs_upd upt_rec buf_pool_def demo_fs_def demo_super_def)
  show "tree_ok (view demo_file) 0 (inode_tab demo_file 2)" "leaf_zone (view demo_file) 0 (inode_tab demo_file 2) 9 = 20"
    by (simp_all add: tree_ok_def leaf_zone_def ind_slot_def demo_file_def)
qed

theorem write_map_read_map_witness:
  "\<exists>t u v. write_map 2 9216 33 demo_file = Done (FS_OK, t) \<and> read_map 2 9217 t = Done (33, u) \<and> read_map 2 0 t = Done (18, v)"
proof -
  have n: "zone_index 0 9216 = 9" "zone_index 0 9217 = 9" "zone_index 0 0 = 0" "block_in_zone 0 9217 = 0"
    by (simp_all add: zone_index_def block_pos_def block_in_zone_def)
  have r: "read_map 2 0 demo_file = Done (18, demo_file)"
    using demo_file_ok(4) by (simp add: read_map_def Let_def n zone_block_def block_in_zone_def block_pos_def) (simp add: demo_file_def)
  obtain t where t: "write_map 2 9216 33 demo_file = Done (FS_OK, t)"
    "\<forall>q. 0 \<le> zone_index 0 q \<longrightarrow> zone_index 0 q < MAX_ZONES \<longrightarrow> (\<exists>b u v.
      read_map 2 q demo_file = Done (b, u) \<and>
      read_map 2 q t = Done (if zone_index 0 q \<noteq> zone_index 0 9216 then b
        else if (33 :: u16) = NO_ZONE then NO_BLOCK else zone_block 0 33 + word_of_int (block_in_zone 0 q), v))"
    using write_map_read_map [OF demo_file_ok(1-4), of 9216 33] demo_file_ok(5,6) n by auto
  show ?thesis using t(1) t(2) [rule_format, of 9217] t(2) [rule_format, of 0] r by (auto simp: n zone_block_def)
qed

end
