(* ===== verification/FS_Inode.thy ===== *)
theory FS_Inode
  imports FS_File
begin

unbundle bit_operations_syntax

section \<open>FS: the inode table, file descriptors, permissions (src/src/fs/inode.c, filedes.c, protect.c)\<close>

text \<open>
  The table of inodes in use (\<open>inode.c\<close>), the search for file descriptors (\<open>filedes.c\<close>), \<open>forbidden\<close> and
  \<open>read_only\<close> of \<open>protect.c\<close> and \<open>clock_time\<close> of \<open>utility.c\<close>. A disk inode is 32 bytes, 16 words: mode, user,
  size and time as longs, group and link count in one word, nine zones.
\<close>

subsection \<open>Constants\<close>

abbreviation (input) FS_EPERM :: int where "FS_EPERM \<equiv> -1"
abbreviation (input) ENOENT :: int where "ENOENT \<equiv> -2"
abbreviation (input) FS_EINTR :: int where "FS_EINTR \<equiv> -4"
abbreviation (input) ENXIO :: int where "ENXIO \<equiv> -6"
abbreviation (input) EBADF :: int where "EBADF \<equiv> -9"
abbreviation (input) FS_EAGAIN :: int where "FS_EAGAIN \<equiv> -11"
abbreviation (input) FS_EACCES :: int where "FS_EACCES \<equiv> -13"
abbreviation (input) ENOTBLK :: int where "ENOTBLK \<equiv> -15"
abbreviation (input) EBUSY :: int where "EBUSY \<equiv> -16"
abbreviation (input) EEXIST :: int where "EEXIST \<equiv> -17"
abbreviation (input) EXDEV :: int where "EXDEV \<equiv> -18"
abbreviation (input) ENOTDIR :: int where "ENOTDIR \<equiv> -20"
abbreviation (input) EISDIR :: int where "EISDIR \<equiv> -21"
abbreviation (input) FS_EINVAL :: int where "FS_EINVAL \<equiv> -22"
abbreviation (input) ENFILE :: int where "ENFILE \<equiv> -23"
abbreviation (input) EMFILE :: int where "EMFILE \<equiv> -24"
abbreviation (input) ENOTTY :: int where "ENOTTY \<equiv> -25"
abbreviation (input) ESPIPE :: int where "ESPIPE \<equiv> -29"
abbreviation (input) EROFS :: int where "EROFS \<equiv> -30"
abbreviation (input) EMLINK :: int where "EMLINK \<equiv> -31"
abbreviation (input) EPIPE :: int where "EPIPE \<equiv> -32"
abbreviation (input) ENAMETOOLONG :: int where "ENAMETOOLONG \<equiv> -36"
abbreviation (input) ENOTEMPTY :: int where "ENOTEMPTY \<equiv> -39"
abbreviation (input) EBADCALL :: int where "EBADCALL \<equiv> -102"

abbreviation (input) I_TYPE :: u16 where "I_TYPE \<equiv> 0xF000"
abbreviation (input) I_REGULAR :: u16 where "I_REGULAR \<equiv> 0x8000"
abbreviation (input) I_BLOCK_SPECIAL :: u16 where "I_BLOCK_SPECIAL \<equiv> 0x6000"
abbreviation (input) I_DIRECTORY :: u16 where "I_DIRECTORY \<equiv> 0x4000"
abbreviation (input) I_CHAR_SPECIAL :: u16 where "I_CHAR_SPECIAL \<equiv> 0x2000"
abbreviation (input) I_NAMED_PIPE :: u16 where "I_NAMED_PIPE \<equiv> 0x1000"
abbreviation (input) ALL_MODES :: u16 where "ALL_MODES \<equiv> 0xDFF"
abbreviation (input) RWX_MODES :: u16 where "RWX_MODES \<equiv> 0x1FF"
abbreviation (input) R_BIT :: u16 where "R_BIT \<equiv> 4"
abbreviation (input) W_BIT :: u16 where "W_BIT \<equiv> 2"
abbreviation (input) X_BIT :: u16 where "X_BIT \<equiv> 1"
abbreviation (input) ATIME :: u8 where "ATIME \<equiv> 2"
abbreviation (input) CTIME :: u8 where "CTIME \<equiv> 4"
abbreviation (input) ROOT_INODE :: u16 where "ROOT_INODE \<equiv> 1"
abbreviation (input) INODES_PER_BLOCK :: u16 where "INODES_PER_BLOCK \<equiv> 32"

subsection \<open>Times and permissions\<close>

definition clock_time :: "fs \<Rightarrow> (int \<times> fs) outcome" where
  "clock_time s =
     and_then (get_super (root_dev s) s) (\<lambda>sp.
       Done (now s, upd_super sp (\<lambda>x. x\<lparr>s_time := now s, s_dirt := (s_dirt x \<or> \<not> s_rd_only x)\<rparr>) s))"

definition update_times :: "nat \<Rightarrow> fs \<Rightarrow> fs outcome" where
  "update_times rip s =
     and_then (clock_time s) (\<lambda>(cur_time, s1).
       Done (upd_inode rip (\<lambda>x. x\<lparr>
         i_atime := (if i_update x AND ATIME \<noteq> 0 then cur_time else i_atime x),
         i_ctime := (if i_update x AND CTIME \<noteq> 0 then cur_time else i_ctime x),
         i_mtime := (if i_update x AND MTIME \<noteq> 0 then cur_time else i_mtime x),
         i_update := 0\<rparr>) s1))"

definition read_only :: "nat \<Rightarrow> fs \<Rightarrow> int outcome" where
  "read_only ip s =
     and_then (get_super (i_dev (inode_tab s ip)) s) (\<lambda>sp. Done (if s_rd_only (super_tab s sp) then EROFS else FS_OK))"

definition perm_bits :: "inode \<Rightarrow> u16 \<Rightarrow> u8 \<Rightarrow> u16" where
  "perm_bits x test_uid test_gid =
     (if test_uid = 0 then 7
      else drop_bit (if test_uid = i_uid x then 6 else if test_gid = i_gid x then 3 else 0) (i_mode x) AND 7)"

definition forbidden :: "nat \<Rightarrow> u16 \<Rightarrow> bool \<Rightarrow> fs \<Rightarrow> int outcome" where
  "forbidden rip access_desired real_uid s =
     (let x = inode_tab s rip;
          bits = i_mode x;
          test_uid = (if real_uid then fp_realuid (caller s) else fp_effuid (caller s));
          test_gid = (if real_uid then fp_realgid (caller s) else fp_effgid (caller s));
          perm = perm_bits x test_uid test_gid;
          r = (if perm OR access_desired \<noteq> perm then FS_EACCES else FS_OK);
          xmask = 0x49;
          r1 = (if access_desired AND X_BIT \<noteq> 0 \<and> bits AND xmask = 0 then FS_EACCES else r)
      in if r1 = FS_OK \<and> access_desired AND W_BIT \<noteq> 0 then read_only rip s else Done r1)"

subsection \<open>Inodes on the disk\<close>

definition read_dinode :: "block_data \<Rightarrow> nat \<Rightarrow> inode \<Rightarrow> inode" where
  "read_dinode d w x = x\<lparr>i_mode := get_int d w, i_uid := get_int d (w + 1), i_size := sint (get_long d (w + 2)),
     i_mtime := sint (get_long d (w + 4)), i_gid := d (2 * w + 12), i_nlinks := d (2 * w + 13),
     i_zone := (\<lambda>i. if i < 9 then get_int d (w + 7 + i) else i_zone x i)\<rparr>"

definition write_dinode :: "nat \<Rightarrow> inode \<Rightarrow> block_data \<Rightarrow> block_data" where
  "write_dinode w x d =
     fold (\<lambda>i. set_int (w + 7 + i) (i_zone x i)) [0..<9]
       ((set_long (w + 4) (word_of_int (i_mtime x)) (set_long (w + 2) (word_of_int (i_size x))
         (set_int (w + 1) (i_uid x) (set_int w (i_mode x) d))))
        (2 * w + 12 := i_gid x, 2 * w + 13 := i_nlinks x))"

definition inode_block :: "super_block \<Rightarrow> u16 \<Rightarrow> u16" where
  "inode_block sp num = (num - 1) div INODES_PER_BLOCK + s_imap_blocks sp + s_zmap_blocks sp + 2"

definition inode_word :: "u16 \<Rightarrow> nat" where
  "inode_word num = 16 * unat ((num - 1) mod INODES_PER_BLOCK)"

definition rw_inode :: "nat \<Rightarrow> rw \<Rightarrow> fs \<Rightarrow> fs outcome" where
  "rw_inode rip rw_flag s =
     (let dev = i_dev (inode_tab s rip); num = i_num (inode_tab s rip); w = inode_word num in
      and_then (get_super dev s) (\<lambda>sp.
      and_then (get_block dev (inode_block (super_tab s sp) num) NORMAL s) (\<lambda>(bp, s1).
      and_then
        (case rw_flag of
           READING \<Rightarrow> Done (upd_inode rip (read_dinode (b_data (buf_tab s1 bp)) w) s1)
         | WRITING \<Rightarrow>
             and_then (if i_update (inode_tab s1 rip) \<noteq> 0 then update_times rip s1 else Done s1) (\<lambda>s2.
               Done (upd_buf bp (\<lambda>x. x\<lparr>b_data := write_dinode w (inode_tab s2 rip) (b_data x), b_dirt := True\<rparr>) s2)))
        (\<lambda>s3. and_then (put_block (Some bp) INODE_BLOCK s3) (\<lambda>s4.
           Done (upd_inode rip (\<lambda>x. x\<lparr>i_dirt := False\<rparr>) s4))))))"

subsection \<open>The inode table\<close>

text \<open>\<open>get_inode\<close>: the loop finds the slot of the inode, or else the last free slot.\<close>

definition inode_slot :: "u16 \<Rightarrow> u16 \<Rightarrow> fs \<Rightarrow> nat option" where
  "inode_slot dev numb s =
     find (\<lambda>i. i_count (inode_tab s i) > 0 \<and> i_dev (inode_tab s i) = dev \<and> i_num (inode_tab s i) = numb) [0..<NR_INODES]"

definition free_slot_of :: "fs \<Rightarrow> nat option" where
  "free_slot_of s = find (\<lambda>i. \<not> i_count (inode_tab s i) > 0) (rev [0..<NR_INODES])"

definition dup_inode :: "nat \<Rightarrow> fs \<Rightarrow> fs" where
  "dup_inode ip = upd_inode ip (\<lambda>x. x\<lparr>i_count := i_count x + 1\<rparr>)"

definition get_inode :: "u16 \<Rightarrow> u16 \<Rightarrow> fs \<Rightarrow> (nat option \<times> fs) outcome" where
  "get_inode dev numb s =
     (case inode_slot dev numb s of
        Some rip \<Rightarrow> Done (Some rip, upd_inode rip (\<lambda>x. x\<lparr>i_count := i_count x + 1\<rparr>) s)
      | None \<Rightarrow>
          (case free_slot_of s of
             None \<Rightarrow> Done (None, s\<lparr>err_code := ENFILE\<rparr>)
           | Some xp \<Rightarrow>
               let s1 = upd_inode xp (\<lambda>x. x\<lparr>i_dev := dev, i_num := numb, i_count := 1\<rparr>) s in
               and_then (if dev \<noteq> NO_DEV then rw_inode xp READING s1 else Done s1) (\<lambda>s2.
                 Done (Some xp, upd_inode xp (\<lambda>x. x\<lparr>i_update := 0\<rparr>) s2))))"

definition free_inode :: "u16 \<Rightarrow> u16 \<Rightarrow> fs \<Rightarrow> fs outcome" where
  "free_inode dev numb s = and_then (get_super dev s) (\<lambda>sp. Done (free_bit (s_imap (super_tab s sp)) numb s))"

definition discard_inode :: "nat \<Rightarrow> fs \<Rightarrow> fs outcome" where
  "discard_inode rip s =
     and_then (truncate rip s) (\<lambda>s1.
       let s2 = upd_inode rip (\<lambda>x. x\<lparr>i_mode := 0\<rparr>) s1
       in free_inode (i_dev (inode_tab s2 rip)) (i_num (inode_tab s2 rip)) s2)"

definition put_inode :: "nat option \<Rightarrow> fs \<Rightarrow> fs outcome" where
  "put_inode ro s =
     (case ro of
        None \<Rightarrow> Done s
      | Some rip \<Rightarrow>
          let s1 = upd_inode rip (\<lambda>x. x\<lparr>i_count := i_count x - 1\<rparr>) s in
          if i_count (inode_tab s1 rip) \<noteq> 0 then Done s1
          else and_then
                 (if i_nlinks (inode_tab s1 rip) = 0 then discard_inode rip s1
                  else if i_pipe (inode_tab s1 rip) then truncate rip s1
                  else Done s1)
                 (\<lambda>s2. let s3 = upd_inode rip (\<lambda>x. x\<lparr>i_pipe := False\<rparr>) s2
                       in if i_dirt (inode_tab s3 rip) then rw_inode rip WRITING s3 else Done s3))"

definition alloc_inode :: "u16 \<Rightarrow> u16 \<Rightarrow> fs \<Rightarrow> (nat option \<times> fs) outcome" where
  "alloc_inode dev bits s =
     and_then (get_super dev s) (\<lambda>sp.
     and_then (alloc_bit (s_imap (super_tab s sp)) (s_ninodes (super_tab s sp) + 1) (s_imap_blocks (super_tab s sp)) 0 s)
       (\<lambda>(b, s1).
        if b = 0 then Done (None, s1\<lparr>err_code := ENFILE\<rparr>)
        else and_then (get_inode NO_DEV b s1) (\<lambda>(ro, s2).
          case ro of
            None \<Rightarrow> Done (None, free_bit (s_imap (super_tab s2 sp)) b s2)
          | Some rip \<Rightarrow>
              Done (Some rip, wipe_inode rip (upd_inode rip (\<lambda>x. x\<lparr>i_mode := bits, i_nlinks := 0,
                i_uid := fp_effuid (caller s2), i_gid := fp_effgid (caller s2), i_dev := dev\<rparr>) s2)))))"

subsection \<open>File descriptors\<close>

definition get_fd :: "int \<Rightarrow> u16 \<Rightarrow> fs \<Rightarrow> int \<times> int \<times> nat option \<times> fs" where
  "get_fd start bits s =
     (case find (\<lambda>i. fp_filp (caller s) i = None) [start..OPEN_MAX - 1] of
        None \<Rightarrow> (EMFILE, -1, None, s)
      | Some k \<Rightarrow>
          (case find (\<lambda>f. filp_count (filp_tab s f) = 0) [0..<NR_FILPS] of
             None \<Rightarrow> (ENFILE, k, None, s)
           | Some f \<Rightarrow> (FS_OK, k, Some f, upd_filp f (\<lambda>x. x\<lparr>filp_mode := bits, filp_pos := 0, filp_flags := 0\<rparr>) s)))"

definition get_filp :: "int \<Rightarrow> fs \<Rightarrow> nat option \<times> fs" where
  "get_filp fild s =
     (if fild < 0 \<or> fild \<ge> OPEN_MAX then None else fp_filp (caller s) fild, s\<lparr>err_code := EBADF\<rparr>)"

definition find_filp :: "nat \<Rightarrow> u16 \<Rightarrow> fs \<Rightarrow> nat option" where
  "find_filp rip bits s =
     find (\<lambda>f. filp_count (filp_tab s f) \<noteq> 0 \<and> filp_ino (filp_tab s f) = Some rip \<and> filp_mode (filp_tab s f) AND bits \<noteq> 0)
       [0..<NR_FILPS]"

subsection \<open>Permissions\<close>

text \<open>What the mode of a file grants: \<open>b\<close> is 2 for reading, 1 for writing and 0 for execution.\<close>

definition grants :: "inode \<Rightarrow> u16 \<Rightarrow> u8 \<Rightarrow> nat \<Rightarrow> bool" where
  "grants x uid gid b =
     (if uid = 0 then b = 0 \<longrightarrow> bit (i_mode x) 0 \<or> bit (i_mode x) 3 \<or> bit (i_mode x) 6
      else bit (i_mode x) (b + (if uid = i_uid x then 6 else if gid = i_gid x then 3 else 0)))"

lemma or_subset: "(p :: 'a::len word) OR a = p \<longleftrightarrow> (\<forall>b. bit a b \<longrightarrow> bit p b)"
  by (auto simp: bit_eq_iff bit_or_iff dest: bit_imp_le_length)

lemma bit_7: "bit (7 :: u16) b \<longleftrightarrow> b < 3"
proof -
  have "(7 :: u16) = mask 3" by (simp add: mask_eq_exp_minus_1)
  then show ?thesis by (simp only: bit_mask_iff) auto
qed

lemma bit_perm_bits:
  "b < 3 \<Longrightarrow> bit (perm_bits x uid gid) b = (uid = 0 \<or> bit (i_mode x) (b + (if uid = i_uid x then 6 else if gid = i_gid x then 3 else 0)))"
  by (simp add: perm_bits_def bit_7 bit_and_iff bit_drop_bit_eq add.commute del: bit_numeral_iff bit_numeral_word_iff)

lemma and_bit: "(a :: u16) AND 1 = 0 \<longleftrightarrow> \<not> bit a 0" "(a :: u16) AND 2 = 0 \<longleftrightarrow> \<not> bit a 1"
  using and_exp_eq_0_iff_not_bit [of a 0] and_exp_eq_0_iff_not_bit [of a 1] by simp_all

lemma and_xmask: "(m :: u16) AND 0x49 = 0 \<longleftrightarrow> \<not> (bit m 0 \<or> bit m 3 \<or> bit m 6)"
proof -
  have "(0x49 :: u16) = 2 ^ 0 OR 2 ^ 3 OR 2 ^ 6" by simp
  then have "m AND 0x49 = (m AND 2 ^ 0) OR (m AND 2 ^ 3) OR (m AND 2 ^ 6)" by (simp only: bit.conj_disj_distrib)
  then show ?thesis using and_exp_eq_0_iff_not_bit [of m 0] and_exp_eq_0_iff_not_bit [of m 3] and_exp_eq_0_iff_not_bit [of m 6]
    by (simp only: or_eq_0_iff) blast
qed

text \<open>
  C16. \<open>forbidden\<close> decides access as the file modes say: each of the desired read, write and execute permissions has to be
  granted by the bits of the one class (owner, else group, else others) that the caller falls in; the super-user
  has every permission, but execution only when one of the three execute bits is on. When the permissions are
  granted and writing is desired on a file system that is mounted read-only, the answer is \<open>EROFS\<close>, also for
  the super-user.
\<close>

theorem forbidden_follows_modes:
  assumes "get_super (i_dev (inode_tab s rip)) s = Done sp" and "access AND 7 = access"
  shows "forbidden rip access real_uid s =
    (let uid = (if real_uid then fp_realuid (caller s) else fp_effuid (caller s));
         gid = (if real_uid then fp_realgid (caller s) else fp_effgid (caller s))
     in Done (if \<exists>b < 3. bit access b \<and> \<not> grants (inode_tab s rip) uid gid b then FS_EACCES
              else if bit access 1 \<and> s_rd_only (super_tab s sp) then EROFS else FS_OK))"
proof -
  define x where "x = inode_tab s rip"
  define uid where "uid = (if real_uid then fp_realuid (caller s) else fp_effuid (caller s))"
  define gid where "gid = (if real_uid then fp_realgid (caller s) else fp_effgid (caller s))"
  have low: "b < 3" if "bit access b" for b using that assms(2) by (metis bit_7 bit_and_iff)
  have "(\<exists>b < 3. bit access b \<and> \<not> grants x uid gid b) \<longleftrightarrow>
      perm_bits x uid gid OR access \<noteq> perm_bits x uid gid \<or> (bit access 0 \<and> i_mode x AND 0x49 = 0)"
  proof (cases "uid = 0")
    case True
    then show ?thesis using low by (auto simp: or_subset bit_perm_bits and_xmask grants_def)
  next
    case False
    then have "grants x uid gid b = bit (perm_bits x uid gid) b" if "b < 3" for b using that by (simp add: grants_def bit_perm_bits)
    moreover have "\<not> grants x uid gid 0" if "i_mode x AND 0x49 = 0" using that False by (auto simp: grants_def and_xmask)
    ultimately show ?thesis using low by (auto simp: or_subset)
  qed
  then show ?thesis
    unfolding forbidden_def read_only_def Let_def x_def [symmetric] uid_def [symmetric] gid_def [symmetric]
    using assms(1) by (auto simp: and_bit x_def)
qed

text \<open>A member of the group may read a file of mode 0640, but not write it.\<close>

definition demo_group :: fs where
  "demo_group = demo_fs\<lparr>inode_tab := (inode_tab demo_fs)(1 := (inode_tab demo_fs 1)\<lparr>i_mode := 0x81A0, i_uid := 7, i_gid := 3, i_dev := 0x100\<rparr>),
     super_tab := (super_tab demo_fs)(0 := (super_tab demo_fs 0)\<lparr>s_dev := 0x100\<rparr>),
     fproc_tab := (fproc_tab demo_fs)(0 := (fproc_tab demo_fs 0)\<lparr>fp_effuid := 8, fp_effgid := 3\<rparr>)\<rparr>"

lemma demo_group_facts: "get_super 0x100 demo_group = Done 0" "i_dev (inode_tab demo_group 1) = 0x100"
  by (simp_all add: demo_group_def demo_fs_def get_super_def upt_rec)

theorem forbidden_follows_modes_witness:
  "get_super (i_dev (inode_tab demo_group 1)) demo_group = Done 0 \<and> forbidden 1 R_BIT False demo_group = Done FS_OK
   \<and> forbidden 1 W_BIT False demo_group = Done FS_EACCES"
proof -
  have b: "(\<exists>b < 3. P b) \<longleftrightarrow> P 0 \<or> P 1 \<or> P 2" for P :: "nat \<Rightarrow> bool" by (auto simp: numeral_eq_Suc less_Suc_eq)
  show ?thesis
    using forbidden_follows_modes [of demo_group 1 0 R_BIT False] forbidden_follows_modes [of demo_group 1 0 W_BIT False] demo_group_facts
    by (simp add: b grants_def demo_group_def demo_fs_def Let_def)
qed

end
