(* ===== verification/FS_Path.thy ===== *)
theory FS_Path
  imports FS_Inode
begin

unbundle bit_operations_syntax

section \<open>FS: path names and directories (src/src/fs/path.c, utility.c)\<close>

text \<open>
  Names come from user space (\<open>fetch_name\<close>, \<open>rw_user\<close>) into \<open>user_path\<close>, an array of \<open>PATH_MAX\<close> bytes that keeps
  what earlier calls left behind the new name. A pointer into it is the list of the bytes from there to the
  end of the array; a read behind the end that matters is stuck. Strings of \<open>NAME_MAX\<close> bytes are lists; the
  string literals of the source are written without their terminator. The directory walk across mount points
  is stuck when it passes more mount points than there are super blocks: then the same one has come twice.
\<close>

subsection \<open>Definitions\<close>

abbreviation (input) PATH_MAX :: int where "PATH_MAX \<equiv> 255"
abbreviation (input) NAME_MAX :: nat where "NAME_MAX \<equiv> 14"
abbreviation (input) M3_STRING :: int where "M3_STRING \<equiv> 14"
abbreviation (input) SLASH :: u8 where "SLASH \<equiv> 47"
abbreviation (input) DOT :: u8 where "DOT \<equiv> 46"
abbreviation (input) Data_space :: int where "Data_space \<equiv> 1"
abbreviation (input) UNLINK :: int where "UNLINK \<equiv> 10"
abbreviation (input) RMDIR :: int where "RMDIR \<equiv> 40"

text \<open>\<open>rw_user\<close> in its two directions.\<close>

definition from_user :: "int \<Rightarrow> int \<Rightarrow> u32 \<Rightarrow> nat \<Rightarrow> fs \<Rightarrow> int \<times> u8 list" where
  "from_user seg u vir bytes s =
     (copy_result s seg u (uint vir) (int bytes), map (\<lambda>k. user_mem s u seg (uint (vir + of_nat k))) [0..<bytes])"

definition to_user :: "int \<Rightarrow> int \<Rightarrow> u32 \<Rightarrow> u8 list \<Rightarrow> fs \<Rightarrow> int \<times> fs" where
  "to_user seg u vir data s =
     (let r = copy_result s seg u (uint vir) (int (length data))
      in (r, if r = FS_OK
             then s\<lparr>user_mem := (user_mem s)(u := (user_mem s u)(seg :=
               fold (\<lambda>k m. m(uint (vir + of_nat k) := data ! k)) [0..<length data] (user_mem s u seg)))\<rparr>
             else s))"

datatype name_format = M1 | M3

definition fetch_name :: "u32 \<Rightarrow> int \<Rightarrow> name_format \<Rightarrow> fs \<Rightarrow> int \<times> fs" where
  "fetch_name path len flag s =
     (if len \<le> 0 then (FS_ERROR, s\<lparr>err_code := FS_EINVAL\<rparr>)
      else if flag = M3 \<and> len \<le> M3_STRING
      then (FS_OK, s\<lparr>user_path := take (nat len) (m3_ca1 (request s)) @ drop (nat len) (user_path s)\<rparr>)
      else if len > PATH_MAX then (FS_ERROR, s\<lparr>err_code := ENAMETOOLONG\<rparr>)
      else let (r, bytes) = from_user Data_space (who s) path (nat len) s
           in (r, (if r = FS_OK then s\<lparr>user_path := bytes @ drop (nat len) (user_path s)\<rparr> else s)\<lparr>err_code := r\<rparr>))"

text \<open>
  \<open>get_name\<close>: the component, and the rest of the path unless the name is too long. At the very end of the array
  the code looks at one byte behind it and then finds that the limit is reached.
\<close>

definition get_name :: "u8 list \<Rightarrow> (u8 list \<times> u8 list option) outcome" where
  "get_name old_name =
     (let rnp = dropWhile (\<lambda>c. c = SLASH) old_name;
          comp = takeWhile (\<lambda>c. c \<noteq> SLASH \<and> c \<noteq> 0) rnp;
          tail = dropWhile (\<lambda>c. c = SLASH) (dropWhile (\<lambda>c. c \<noteq> SLASH \<and> c \<noteq> 0) rnp);
          name = take NAME_MAX (comp @ replicate NAME_MAX 0)
      in if rnp = [] then Stuck
         else if tail \<noteq> [] then Done (name, Some tail)
         else if int (length old_name) = PATH_MAX then Done (name, None)
         else Stuck)"

lemma get_name_shorter:
  assumes "get_name p = Done (str, Some r)" and "hd r \<noteq> 0"
  shows "length r < length p"
proof -
  let ?rnp = "dropWhile (\<lambda>c. c = SLASH) p"
  let ?d = "dropWhile (\<lambda>c. c \<noteq> SLASH \<and> c \<noteq> 0) ?rnp"
  have r: "r = dropWhile (\<lambda>c. c = SLASH) ?d \<and> ?rnp \<noteq> [] \<and> r \<noteq> []"
    using assms(1) unfolding get_name_def Let_def
    by (cases "?rnp = []"; cases "dropWhile (\<lambda>c. c = SLASH) ?d = []"; cases "int (length p) = PATH_MAX") (simp_all only: if_True if_False outcome.inject outcome.distinct prod.inject option.inject option.distinct not_True_eq_False not_False_eq_True simp_thms)
  note r = conjunct1 [OF r] conjunct1 [OF conjunct2 [OF r]] conjunct2 [OF conjunct2 [OF r]]
  have h: "hd ?rnp \<noteq> SLASH" using hd_dropWhile [OF r(2)] by simp
  have "length ?d < length ?rnp"
  proof (cases "hd ?rnp = 0")
    case True
    then obtain xs where "?rnp = 0 # xs" using r(2) by (metis list.collapse)
    then have "?d = ?rnp" "r = ?rnp" using r(1) by simp_all
    then show ?thesis using True assms(2) by simp
  next
    case False
    obtain c xs where cx: "?rnp = c # xs" using r(2) by (cases ?rnp) auto
    then have "?d = dropWhile (\<lambda>c. c \<noteq> SLASH \<and> c \<noteq> 0) xs" using False h by simp
    then show ?thesis using length_dropWhile_le [of _ xs] cx by (simp add: le_imp_less_Suc)
  qed
  moreover have "length r \<le> length ?d" "length ?rnp \<le> length p" unfolding r(1) by (rule length_dropWhile_le)+
  ultimately show ?thesis by linarith
qed

subsubsection \<open>Directories\<close>

datatype dir_flag = LOOK_UP | ENTER | DELETE

definition d_inum :: "block_data \<Rightarrow> nat \<Rightarrow> u16" where
  "d_inum d k = get_int d (8 * k)"

definition d_name :: "block_data \<Rightarrow> nat \<Rightarrow> u8 list" where
  "d_name d k = map d [16 * k + 2..<16 * k + 16]"

definition c_string :: "u8 list \<Rightarrow> u8 list" where
  "c_string str = takeWhile (\<lambda>c. c \<noteq> 0) str"

definition dir_match :: "u8 list \<Rightarrow> block_data \<Rightarrow> nat \<Rightarrow> bool" where
  "dir_match str d k =
     (if c_string str = [] then c_string (d_name d k) \<noteq> [DOT] \<and> c_string (d_name d k) \<noteq> [DOT, DOT]
      else c_string (d_name d k) = c_string (take NAME_MAX str))"

definition erase_entry :: "nat \<Rightarrow> block_data \<Rightarrow> block_data" where
  "erase_entry k d = set_int (8 * k) 0 (set_int (8 * k + 7) (d_inum d k) d)"

definition enter_entry :: "nat \<Rightarrow> u8 list \<Rightarrow> u16 \<Rightarrow> block_data \<Rightarrow> block_data" where
  "enter_entry k str numb d =
     set_int (8 * k) numb (\<lambda>i. if 16 * k + 2 \<le> i \<and> i < 16 * k + 16 then str ! (i - (16 * k + 2)) else d i)"

datatype slot_hit = Found nat | Room nat | Nothing

fun scan_block :: "dir_flag \<Rightarrow> u8 list \<Rightarrow> u16 \<Rightarrow> block_data \<Rightarrow> nat list \<Rightarrow> u16 \<Rightarrow> slot_hit \<times> u16" where
  "scan_block flag str old_slots d [] new_slots = (Nothing, new_slots)"
| "scan_block flag str old_slots d (k # ks) new_slots =
     (let slots = new_slots + 1
      in if slots > old_slots then (if flag = ENTER then Room k else Nothing, slots)
         else if flag \<noteq> ENTER \<and> d_inum d k \<noteq> 0 \<and> dir_match str d k then (Found k, slots)
         else if flag = ENTER \<and> d_inum d k = 0 then (Room k, slots)
         else scan_block flag str old_slots d ks slots)"

datatype dir_search = Hit u16 fs | Space nat nat u16 fs | Through u16 fs

definition take_entry :: "nat \<Rightarrow> dir_flag \<Rightarrow> nat \<Rightarrow> nat \<Rightarrow> fs \<Rightarrow> (u16 \<times> fs) outcome" where
  "take_entry ldir flag bp k s =
     (let numb = d_inum (b_data (buf_tab s bp)) k in
      and_then
        (if flag = DELETE
         then and_then (get_inode (i_dev (inode_tab s ldir)) numb s) (\<lambda>(rip, s1).
                put_inode rip (upd_inode ldir (\<lambda>x. x\<lparr>i_update := MTIME\<rparr>)
                  (upd_buf bp (\<lambda>x. x\<lparr>b_data := erase_entry k (b_data x), b_dirt := True\<rparr>) s1)))
         else Done s)
        (\<lambda>s2. and_then (put_block (Some bp) DIRECTORY_BLOCK s2) (\<lambda>s3. Done (numb, s3))))"

fun search_blocks :: "nat \<Rightarrow> u8 list \<Rightarrow> dir_flag \<Rightarrow> u16 \<Rightarrow> int list \<Rightarrow> u16 \<Rightarrow> fs \<Rightarrow> dir_search outcome" where
  "search_blocks ldir str flag old_slots [] new_slots s = Done (Through new_slots s)"
| "search_blocks ldir str flag old_slots (pos # tail) new_slots s =
     and_then (read_map ldir pos s) (\<lambda>(b, s1).
     and_then (get_block (i_dev (inode_tab s1 ldir)) b NORMAL s1) (\<lambda>(bp, s2).
       case scan_block flag str old_slots (b_data (buf_tab s2 bp)) [0..<64] new_slots of
         (Found k, slots) \<Rightarrow> and_then (take_entry ldir flag bp k s2) (\<lambda>(numb, s3). Done (Hit numb s3))
       | (Room k, slots) \<Rightarrow> Done (Space bp k slots s2)
       | (Nothing, slots) \<Rightarrow> and_then (put_block (Some bp) DIRECTORY_BLOCK s2) (search_blocks ldir str flag old_slots tail slots)))"

definition fill_entry :: "nat \<Rightarrow> u8 list \<Rightarrow> u16 \<Rightarrow> nat \<Rightarrow> nat \<Rightarrow> u16 \<Rightarrow> u16 \<Rightarrow> fs \<Rightarrow> fs outcome" where
  "fill_entry ldir str numb bp k old_slots new_slots s =
     and_then (put_block (Some bp) DIRECTORY_BLOCK
         (upd_buf bp (\<lambda>x. x\<lparr>b_data := enter_entry k str numb (b_data x), b_dirt := True\<rparr>) s)) (\<lambda>s1.
       Done (upd_inode ldir (\<lambda>x. x\<lparr>i_update := MTIME, i_dirt := True,
         i_size := (if new_slots > old_slots then 16 * int (unat new_slots) else i_size x)\<rparr>) s1))"

definition search_dir :: "nat \<Rightarrow> u8 list \<Rightarrow> u16 \<Rightarrow> dir_flag \<Rightarrow> fs \<Rightarrow> (int \<times> u16 \<times> fs) outcome" where
  "search_dir ldir str numb flag s =
     (if i_mode (inode_tab s ldir) AND I_TYPE \<noteq> I_DIRECTORY then Done (ENOTDIR, numb, s)
      else and_then (forbidden ldir (if flag = LOOK_UP then X_BIT else W_BIT OR X_BIT) False s) (\<lambda>r.
        if r \<noteq> FS_OK then Done (r, numb, s)
        else
          let size = i_size (inode_tab s ldir);
              old_slots = word_of_int (if size < 0 then - (- size div 16) else size div 16) :: u16;
              n = (if size \<le> 0 then 0 else (size + 1023) div 1024)
          in and_then (search_blocks ldir str flag old_slots (map (\<lambda>k. 1024 * int k) [0..<nat n]) 0 s) (\<lambda>res.
             case res of
               Hit found s1 \<Rightarrow> Done (FS_OK, if flag = LOOK_UP then found else numb, s1)
             | Space bp k slots s1 \<Rightarrow>
                 and_then (fill_entry ldir str numb bp k old_slots slots s1) (\<lambda>s2. Done (FS_OK, numb, s2))
             | Through slots s1 \<Rightarrow>
                 if as_long (1024 * n) < size then Stuck
                 else if flag \<noteq> ENTER then Done (ENOENT, numb, s1)
                 else if slots + 1 = 0 then Done (EFBIG, numb, s1)
                 else and_then (new_block ldir (i_size (inode_tab s1 ldir)) s1) (\<lambda>(bo, s2).
                   case bo of
                     None \<Rightarrow> Done (err_code s2, numb, s2)
                   | Some bp \<Rightarrow>
                       and_then (fill_entry ldir str numb bp 0 old_slots (slots + 1) s2) (\<lambda>s3. Done (FS_OK, numb, s3))))))"

subsubsection \<open>Paths\<close>

definition str_at :: "u8 list \<Rightarrow> nat \<Rightarrow> u8" where
  "str_at str i = (if i < length str then str ! i else 0)"

text \<open>The end of \<open>advance\<close>: down into the file systems that are mounted on the inode.\<close>

fun mount_down :: "nat \<Rightarrow> nat option \<Rightarrow> fs \<Rightarrow> (nat option \<times> fs) outcome" where
  "mount_down fuel None s = Done (None, s)"
| "mount_down fuel (Some rip) s =
     (if \<not> i_mount (inode_tab s rip) then Done (Some rip, s)
      else case fuel of
        0 \<Rightarrow> Stuck
      | Suc n \<Rightarrow>
          (case find (\<lambda>sp. s_imount (super_tab s sp) = Some rip) [0..<NR_SUPERS] of
             None \<Rightarrow> Stuck
           | Some sp \<Rightarrow>
               and_then (put_inode (Some rip) s) (\<lambda>s1.
               and_then (get_inode (s_dev (super_tab s1 sp)) ROOT_INODE s1) (\<lambda>(ro, s2). mount_down n ro s2))))"

fun advance_up :: "nat \<Rightarrow> nat option \<Rightarrow> u8 list \<Rightarrow> fs \<Rightarrow> (nat option \<times> fs) outcome" where
  "advance_up fuel dirp str s =
     (if str_at str 0 = 0
      then (case dirp of None \<Rightarrow> Stuck | Some d \<Rightarrow> get_inode (i_dev (inode_tab s d)) (i_num (inode_tab s d)) s)
      else case dirp of
        None \<Rightarrow> Done (None, s)
      | Some d \<Rightarrow>
          and_then (search_dir d str 0 LOOK_UP s) (\<lambda>(r, numb, s1).
            if r \<noteq> FS_OK then Done (None, s1\<lparr>err_code := r\<rparr>)
            else and_then (get_inode (i_dev (inode_tab s1 d)) numb s1) (\<lambda>(ro, s2).
              case ro of
                None \<Rightarrow> Done (None, s2)
              | Some rip \<Rightarrow>
                  and_then
                    (if i_num (inode_tab s2 rip) = ROOT_INODE \<and> i_num (inode_tab s2 d) = ROOT_INODE \<and> str_at str 1 = DOT
                     then
                       (case find (\<lambda>sp. s_dev (super_tab s2 sp) = i_dev (inode_tab s2 rip)) [1..<NR_SUPERS] of
                          None \<Rightarrow> Done (Some rip, s2)
                        | Some sp \<Rightarrow>
                            and_then (put_inode (Some rip) s2) (\<lambda>s3.
                              case (s_imount (super_tab s3 sp), fuel) of
                                (Some mi, Suc n) \<Rightarrow>
                                  and_then (get_inode (i_dev (inode_tab s3 mi)) (i_num (inode_tab s3 mi)) s3) (\<lambda>(rip2, s4).
                                  and_then (advance_up n rip2 str s4) (\<lambda>(ro1, s5).
                                  and_then (put_inode rip2 s5) (\<lambda>s6. Done (ro1, s6))))
                              | _ \<Rightarrow> Stuck))
                     else Done (Some rip, s2))
                    (\<lambda>(ro2, s7). mount_down NR_SUPERS ro2 s7))))"

declare advance_up.simps [simp del]

definition advance :: "nat option \<Rightarrow> u8 list \<Rightarrow> fs \<Rightarrow> (nat option \<times> fs) outcome" where
  "advance dirp str = advance_up NR_SUPERS dirp str"

text \<open>\<open>last_dir\<close>: \<open>trim_dots\<close> is its first loop, over a path of \<open>n\<close> characters, \<open>walk_path\<close> the second.\<close>

fun trim_dots :: "nat \<Rightarrow> u8 list \<Rightarrow> u8 list" where
  "trim_dots n path =
     (if n \<ge> 3 \<and> path ! (n - 2) = SLASH \<and> path ! (n - 1) = DOT then trim_dots (n - 2) (path[n - 2 := 0]) else path)"

declare trim_dots.simps [simp del]

function walk_path :: "nat \<Rightarrow> u8 list \<Rightarrow> fs \<Rightarrow> (nat option \<times> u8 list \<times> fs) outcome" where
  "walk_path rip path s =
     and_then (get_name path) (\<lambda>(str, new_name).
       case new_name of
         None \<Rightarrow> and_then (put_inode (Some rip) (s\<lparr>err_code := ENAMETOOLONG\<rparr>)) (\<lambda>s1. Done (None, str, s1))
       | Some tail \<Rightarrow>
           if hd tail = 0 then Done (Some rip, str, s)
           else and_then (advance (Some rip) str s) (\<lambda>(new_ip, s1).
                and_then (put_inode (Some rip) s1) (\<lambda>s2.
                  case new_ip of None \<Rightarrow> Done (None, str, s2) | Some ip \<Rightarrow> walk_path ip tail s2)))"
  by pat_completeness auto
termination
  by (relation "measure (\<lambda>(_, path, _). length path)") (auto intro: get_name_shorter)

declare walk_path.simps [simp del]

definition last_dir :: "fs \<Rightarrow> (nat option \<times> u8 list \<times> fs) outcome" where
  "last_dir s =
     (let path = user_path s in
      if path = [] then Stuck
      else case (if hd path = SLASH then fp_rootdir (caller s) else fp_workdir (caller s)) of
        None \<Rightarrow> Stuck
      | Some rip \<Rightarrow>
          if i_nlinks (inode_tab s rip) = 0 \<or> hd path = 0 then Done (None, [], s\<lparr>err_code := ENOENT\<rparr>)
          else let s1 = dup_inode rip s in
            if fs_call s = UNLINK \<or> fs_call s = RMDIR
            then if 0 \<in> set path
                 then let s2 = s1\<lparr>user_path := trim_dots (length (c_string path)) path\<rparr> in walk_path rip (user_path s2) s2
                 else Stuck
            else walk_path rip path s1)"

definition eat_path :: "fs \<Rightarrow> (nat option \<times> fs) outcome" where
  "eat_path s =
     and_then (last_dir s) (\<lambda>(ldip, str, s1).
       case ldip of
         None \<Rightarrow> Done (None, s1)
       | Some d \<Rightarrow>
           if str_at str 0 = 0 then Done (Some d, s1)
           else and_then (advance (Some d) str s1) (\<lambda>(rip, s2). and_then (put_inode (Some d) s2) (\<lambda>s3. Done (rip, s3))))"

end
