(* ===== verification/FS_Read.thy ===== *)
theory FS_Read
  imports FS_Path
begin

unbundle bit_operations_syntax

section \<open>FS: reading and writing (src/src/fs/read.c, write.c, pipe.c, device.c)\<close>

text \<open>
  The transfer of bytes between files and processes: character devices, read ahead, chunks of one block,
  pipes, and \<open>read_write\<close>, which puts them together. File positions are not negative; a position that leaves the
  longs is stuck.
\<close>

subsection \<open>Definitions\<close>

abbreviation (input) MAX_FILE_POS :: int where "MAX_FILE_POS \<equiv> 2147483647"
abbreviation (input) O_CREAT :: int where "O_CREAT \<equiv> 0x40"
abbreviation (input) O_EXCL :: int where "O_EXCL \<equiv> 0x80"
abbreviation (input) O_TRUNC :: int where "O_TRUNC \<equiv> 0x200"
abbreviation (input) O_APPEND :: int where "O_APPEND \<equiv> 0x400"
abbreviation (input) O_NONBLOCK :: int where "O_NONBLOCK \<equiv> 0x800"
abbreviation (input) READ_CALL :: int where "READ_CALL \<equiv> 3"
abbreviation (input) WRITE_CALL :: int where "WRITE_CALL \<equiv> 4"
abbreviation (input) OPEN_CALL :: int where "OPEN_CALL \<equiv> 5"
abbreviation (input) CREAT_CALL :: int where "CREAT_CALL \<equiv> 8"
abbreviation (input) FS_SIGPIPE :: int where "FS_SIGPIPE \<equiv> 13"

text \<open>
  \<open>dev_io\<close> for a character special file: the task moves the bytes itself. A request that is served completely
  moves them between the user and the medium at the position.
\<close>

definition medium_byte :: "int \<times> nat \<Rightarrow> int \<Rightarrow> fs \<Rightarrow> u8" where
  "medium_byte u pos s = disk s u (word_of_int (pos div 1024)) (nat (pos mod 1024))"

definition set_medium_byte :: "int \<times> nat \<Rightarrow> int \<Rightarrow> u8 \<Rightarrow> fs \<Rightarrow> fs" where
  "set_medium_byte u pos c s =
     store_block u (word_of_int (pos div 1024)) ((disk s u (word_of_int (pos div 1024)))(nat (pos mod 1024) := c)) s"

definition char_transfer :: "rw \<Rightarrow> int \<times> nat \<Rightarrow> int \<Rightarrow> int \<Rightarrow> int \<Rightarrow> u32 \<Rightarrow> dev_answer option \<Rightarrow> fs \<Rightarrow> fs" where
  "char_transfer rw_flag u pos bytes proc buff a s =
     (case rw_flag of
        READING \<Rightarrow>
          let data = (case a of Some (Partial r d) \<Rightarrow> map d [0..<nat r]
                      | _ \<Rightarrow> map (\<lambda>k. medium_byte u (pos + int k) s) [0..<nat bytes])
          in s\<lparr>user_mem := (user_mem s)(proc := (user_mem s proc)(Data_space :=
               fold (\<lambda>k m. m(uint (buff + of_nat k) := data ! k)) [0..<length data] (user_mem s proc Data_space)))\<rparr>
      | WRITING \<Rightarrow>
          (case a of
             Some Full \<Rightarrow> fold (\<lambda>k. set_medium_byte u (pos + int k) (user_mem s proc Data_space (uint (buff + of_nat k)))) [0..<nat bytes] s
           | _ \<Rightarrow> s))"

definition dev_io_char :: "rw \<Rightarrow> u16 \<Rightarrow> int \<Rightarrow> int \<Rightarrow> int \<Rightarrow> u32 \<Rightarrow> fs \<Rightarrow> (int \<times> fs) outcome" where
  "dev_io_char rw_flag dev pos bytes proc buff s =
     and_then (find_dev dev) (\<lambda>(major, minor, task).
     and_then (rw_dev (answers s) None s) (\<lambda>(a, s1).
       let s2 = char_transfer rw_flag (unit_of dev s) pos bytes proc buff a s1;
           r = rep_status bytes a
       in Done (r, if r = SUSPEND then suspend task s2 else s2)))"

subsubsection \<open>Read ahead\<close>

definition guess_track :: "bool \<Rightarrow> int \<Rightarrow> u16" where
  "guess_track block_spec i_sz =
     (let dev_size = (if block_spec then i_sz else 1228800)
      in if dev_size < 1228800 then 9 else if dev_size < 1474560 then 15 else 18)"

text \<open>
  The loop of \<open>rahead\<close>. Its first phase fetches the blocks that are needed at once, the second (\<open>ahead\<close>) more blocks
  of the same track. \<open>q\<close> is the queue of buffers to read.
\<close>

function prefetch :: "nat \<Rightarrow> u16 \<Rightarrow> bool \<Rightarrow> u16 \<Rightarrow> int \<Rightarrow> int \<Rightarrow> bool \<Rightarrow> u16 \<Rightarrow> u16 \<Rightarrow> int \<Rightarrow> bool \<Rightarrow> nat list \<Rightarrow> fs
    \<Rightarrow> (nat list \<times> fs) outcome" where
  "prefetch rip dev block_spec bpt limit file_size exact blocks_ahead max_track position ahead q s =
     (if position \<ge> file_size \<or> bufs_in_use s \<ge> limit then Done (q, s)
      else if blocks_ahead = 0 \<and> (ahead \<or> i_seek (inode_tab s rip) \<or> \<not> exact) then Done (q, s)
      else
        let ahead1 = (ahead \<or> blocks_ahead = 0);
            left1 = (if blocks_ahead \<noteq> 0 then blocks_ahead - 1 else bpt + 6)
        in and_then (if block_spec then Done (word_of_int (position div 1024), s) else read_map rip position s) (\<lambda>(block, s1).
           let position1 = as_long (position + 1024);
               track = block div bpt;
               max_track1 = (if \<not> ahead1 \<and> track > max_track then track else max_track)
           in if ahead1 \<and> track \<noteq> max_track
              then prefetch rip dev block_spec bpt limit file_size exact left1 max_track1 position1 ahead1 q s1
              else if block_spec \<or> block \<noteq> NO_BLOCK
              then and_then (get_block dev block PREFETCH s1) (\<lambda>(bp, s2).
                   if b_dev (buf_tab s2 bp) = NO_DEV
                   then prefetch rip dev block_spec bpt limit file_size exact left1 max_track1 position1 ahead1 (q @ [bp]) s2
                   else and_then (put_block (Some bp) FULL_DATA_BLOCK s2)
                          (prefetch rip dev block_spec bpt limit file_size exact left1 max_track1 position1 ahead1 q))
              else prefetch rip dev block_spec bpt limit file_size exact left1 max_track1 position1 ahead1 q s1))"
  by pat_completeness auto

lemma unat_pred_less: "(w :: u16) \<noteq> 0 \<Longrightarrow> unat (w - 1) < unat w"
  by (simp add: unat_minus_one word_unat_eq_iff)

lemma unat_add_6: "unat ((w :: u16) + 6) < unat w + 7"
  using unat_word_ariths(1) [of w 6] by (simp add: le_imp_less_Suc)

termination prefetch
  by (relation "measure (\<lambda>(_, _, _, bpt, _, _, _, left, _, _, ahead, _, _). unat left + (if ahead then 0 else unat bpt + 7))")
    (auto simp: unat_pred_less unat_add_6)

declare prefetch.simps [simp del]

definition rahead :: "nat \<Rightarrow> u16 \<Rightarrow> int \<Rightarrow> u16 \<Rightarrow> fs \<Rightarrow> (nat \<times> fs) outcome" where
  "rahead rip baseblock position bytes_ahead s =
     (let x = inode_tab s rip;
          block_spec = (i_mode x AND I_TYPE = I_BLOCK_SPECIAL);
          dev = (if block_spec then i_zone x 0 else i_dev x)
      in and_then (get_block dev baseblock PREFETCH s) (\<lambda>(bp, s1).
         if b_dev (buf_tab s1 bp) \<noteq> NO_DEV then Done (bp, s1)
         else
           let bpt = guess_track block_spec (i_size x);
               file_size = (if block_spec \<and> i_size x = 0 then MAX_FILE_POS else i_size x);
               fragment = word_of_int (position mod 1024) :: u16;
               position1 = as_long (position - uint fragment + 1024);
               blocks_ahead = (fragment + bytes_ahead + 1023) div 1024 - 1;
               limit = (if block_spec then int NR_BUFS else int NR_BUFS - 2);
               max_track = b_blocknr (buf_tab s1 bp) div bpt;
               exact = ((fragment + bytes_ahead) mod 1024 = 0)
           in and_then (prefetch rip dev block_spec bpt limit file_size exact blocks_ahead max_track position1 False [bp] s1)
                (\<lambda>(q, s2). and_then (rw_scattered dev q READING s2) (get_block dev baseblock NORMAL))))"

definition read_ahead :: "fs \<Rightarrow> fs outcome" where
  "read_ahead s =
     (case rdahed_inode s of
        None \<Rightarrow> Stuck
      | Some rip \<Rightarrow>
          let s1 = s\<lparr>rdahed_inode := None\<rparr> in
          and_then (read_map rip (rdahedpos s1) s1) (\<lambda>(b, s2).
            if b = NO_BLOCK then Done s2
            else and_then (rahead rip b (rdahedpos s2) 1024 s2) (\<lambda>(bp, s3). put_block (Some bp) PARTIAL_DATA_BLOCK s3)))"

subsubsection \<open>One chunk\<close>

definition put_bytes :: "nat \<Rightarrow> u8 list \<Rightarrow> block_data \<Rightarrow> block_data" where
  "put_bytes off bytes d = (\<lambda>i. if off \<le> i \<and> i < off + length bytes then bytes ! (i - off) else d i)"

definition chunk_block :: "nat \<Rightarrow> int \<Rightarrow> fs \<Rightarrow> (u16 \<times> u16 \<times> fs) outcome" where
  "chunk_block rip position s =
     (if i_mode (inode_tab s rip) AND I_TYPE = I_BLOCK_SPECIAL
      then Done (word_of_int (position div 1024), i_zone (inode_tab s rip) 0, s)
      else and_then (read_map rip position s) (\<lambda>(b, s1). Done (b, i_dev (inode_tab s1 rip), s1)))"

definition chunk_buf :: "nat \<Rightarrow> int \<Rightarrow> nat \<Rightarrow> nat \<Rightarrow> u16 \<Rightarrow> rw \<Rightarrow> fs \<Rightarrow> (nat option \<times> fs) outcome" where
  "chunk_buf rip position off chunk left rw_flag s =
     and_then (chunk_block rip position s) (\<lambda>(b, dev, s1).
       let x = inode_tab s1 rip; block_spec = (i_mode x AND I_TYPE = I_BLOCK_SPECIAL) in
       if \<not> block_spec \<and> b = NO_BLOCK
       then case rw_flag of
              READING \<Rightarrow> and_then (get_block NO_DEV NO_BLOCK NORMAL s1) (\<lambda>(bp, s2). Done (Some bp, zero_block bp s2))
            | WRITING \<Rightarrow> new_block rip position s1
       else case rw_flag of
              READING \<Rightarrow> and_then (rahead rip b position left s1) (\<lambda>(bp, s2). Done (Some bp, s2))
            | WRITING \<Rightarrow>
                let n = (if chunk = BLOCK_SIZE \<or> (\<not> block_spec \<and> off = 0 \<and> position \<ge> i_size x) then NO_READ else NORMAL)
                in and_then (get_block dev b n s1) (\<lambda>(bp, s2). Done (Some bp, s2)))"

definition rw_chunk :: "nat \<Rightarrow> int \<Rightarrow> nat \<Rightarrow> nat \<Rightarrow> u16 \<Rightarrow> rw \<Rightarrow> u32 \<Rightarrow> int \<Rightarrow> int \<Rightarrow> fs \<Rightarrow> (int \<times> fs) outcome" where
  "rw_chunk rip position off chunk left rw_flag buff seg usr s =
     and_then (chunk_buf rip position off chunk left rw_flag s) (\<lambda>(bo, s1).
       case bo of
         None \<Rightarrow> Done (err_code s1, s1)
       | Some bp \<Rightarrow>
           let x = inode_tab s1 rip;
               n = (if off + chunk = BLOCK_SIZE then FULL_DATA_BLOCK else PARTIAL_DATA_BLOCK)
           in case rw_flag of
                READING \<Rightarrow>
                  let (r, s2) = to_user seg usr buff (map (b_data (buf_tab s1 bp)) [off..<off + chunk]) s1
                  in and_then (put_block (Some bp) n s2) (\<lambda>s3. Done (r, s3))
              | WRITING \<Rightarrow>
                  let s2 = (if chunk \<noteq> BLOCK_SIZE \<and> i_mode x AND I_TYPE \<noteq> I_BLOCK_SPECIAL \<and> position \<ge> i_size x \<and> off = 0
                            then zero_block bp s1 else s1);
                      (r, bytes) = from_user seg usr buff chunk s2;
                      s3 = upd_buf bp (\<lambda>y. y\<lparr>b_data := (if r = FS_OK then put_bytes off bytes (b_data y) else b_data y),
                                            b_dirt := True\<rparr>) s2
                  in and_then (put_block (Some bp) n s3) (\<lambda>s4. Done (r, s4)))"

subsubsection \<open>Pipes\<close>

text \<open>\<open>release\<close>: at most \<open>cnt\<close> of the processes that wait for \<open>call_nr\<close> on the pipe are revived.\<close>

definition waits_on :: "nat \<Rightarrow> int \<Rightarrow> fproc \<Rightarrow> fs \<Rightarrow> bool outcome" where
  "waits_on ip call_nr rp s =
     (if fp_suspended rp \<and> \<not> fp_revived rp \<and> fp_fd rp AND 0xFF = call_nr
      then let k = drop_bit 8 (fp_fd rp)
           in if k < 0 \<or> k \<ge> OPEN_MAX then Stuck
              else case fp_filp rp k of None \<Rightarrow> Stuck | Some f \<Rightarrow> Done (filp_ino (filp_tab s f) = Some ip)
      else Done False)"

fun release_loop :: "nat \<Rightarrow> int \<Rightarrow> int list \<Rightarrow> int \<Rightarrow> fs \<Rightarrow> fs outcome" where
  "release_loop ip call_nr [] cnt s = Done s"
| "release_loop ip call_nr (p # ps) cnt s =
     and_then (waits_on ip call_nr (fproc_tab s p) s) (\<lambda>w.
       if \<not> w then release_loop ip call_nr ps cnt s
       else and_then (revive p 0 s) (\<lambda>s1.
         let s2 = s1\<lparr>susp_count := susp_count s1 - 1\<rparr>
         in if cnt - 1 = 0 then Done s2 else release_loop ip call_nr ps (cnt - 1) s2))"

definition release :: "nat \<Rightarrow> int \<Rightarrow> int \<Rightarrow> fs \<Rightarrow> fs outcome" where
  "release ip call_nr cnt s = release_loop ip call_nr [0..FS_NR_PROCS - 1] cnt s"

definition pipe_check :: "nat \<Rightarrow> rw \<Rightarrow> int \<Rightarrow> int \<Rightarrow> int \<Rightarrow> fs \<Rightarrow> (int \<times> fs) outcome" where
  "pipe_check rip rw_flag oflags bytes position s =
     (case rw_flag of
        READING \<Rightarrow>
          if position \<ge> i_size (inode_tab s rip)
          then if find_filp rip W_BIT s \<noteq> None
               then let r = (if oflags AND O_NONBLOCK \<noteq> 0 then FS_EAGAIN else 0);
                        s1 = (if oflags AND O_NONBLOCK \<noteq> 0 then s else suspend XPIPE s)
                    in and_then (if susp_count s1 > 0 then release rip WRITE_CALL (susp_count s1) s1 else Done s1)
                         (\<lambda>s2. Done (r, s2))
               else Done (0, s)
          else Done (1, s)
      | WRITING \<Rightarrow>
          if bytes > PIPE_SIZE then Done (EFBIG, s)
          else if find_filp rip R_BIT s = None then Done (EPIPE, s\<lparr>sent := sent s @ [FS_kill (fp s) FS_SIGPIPE]\<rparr>)
          else if position + bytes > PIPE_SIZE
          then if oflags AND O_NONBLOCK \<noteq> 0 then Done (FS_EAGAIN, s) else Done (0, suspend XPIPE s)
          else and_then (if position = 0 then release rip READ_CALL (susp_count s) s else Done s) (\<lambda>s1. Done (1, s1)))"

subsubsection \<open>The READ and WRITE calls\<close>

text \<open>The loop over the chunks. It returns the last status, the count, the position and the state.\<close>

function rw_loop :: "nat \<Rightarrow> rw \<Rightarrow> bool \<Rightarrow> int \<Rightarrow> int \<Rightarrow> int \<Rightarrow> int \<Rightarrow> int \<Rightarrow> u32 \<Rightarrow> int \<Rightarrow> int \<Rightarrow> fs
    \<Rightarrow> (int \<times> int \<times> int \<times> fs) outcome" where
  "rw_loop rip rw_flag block_spec f_size seg usr r position buff nbytes cum_io s =
     (if nbytes \<le> 0 then Done (r, cum_io, position, s)
      else
        let off = position mod 1024;
            limited = (rw_flag = READING \<or> block_spec);
            chunk = (if limited then min (min nbytes (1024 - off)) (f_size - position) else min nbytes (1024 - off))
        in if limited \<and> position \<ge> f_size then Done (r, cum_io, position, s)
           else and_then (rw_chunk rip position (nat off) (nat chunk) (word_of_int nbytes) rw_flag buff seg usr s) (\<lambda>(r1, s1).
             if r1 \<noteq> FS_OK \<or> rdwt_err s1 < 0 then Done (r1, cum_io, position, s1)
             else if position + chunk > MAX_FILE_POS then Stuck
             else rw_loop rip rw_flag block_spec f_size seg usr r1 (position + chunk) (buff + word_of_int chunk)
                    (nbytes - chunk) (cum_io + chunk) s1))"
  by pat_completeness auto
termination
proof (relation "measure (\<lambda>(_, _, _, _, _, _, _, _, _, nbytes, _, _). nat nbytes)", simp, goal_cases)
  case (1 rip rw_flag block_spec f_size seg usr r position buff nbytes cum_io s off limited chunk x y z)
  have "0 < 1024 - position mod 1024" by simp
  then show ?case using 1 by (auto simp: min_def split: if_splits)
qed

declare rw_loop.simps [simp del]

definition finish_rw :: "nat \<Rightarrow> nat \<Rightarrow> rw \<Rightarrow> int \<Rightarrow> int \<Rightarrow> int \<Rightarrow> int \<Rightarrow> fs \<Rightarrow> int \<times> fs" where
  "finish_rw f rip rw_flag f_size r cum_io position s =
     (let mode_word = i_mode (inode_tab s rip) AND I_TYPE;
          filelike = (mode_word = I_REGULAR \<or> mode_word = I_NAMED_PIPE \<or> mode_word = I_DIRECTORY);
          (position1, s1) =
            (case rw_flag of
               WRITING \<Rightarrow>
                 (position, if filelike
                   then upd_inode rip (\<lambda>x. x\<lparr>i_size := (if position > f_size then position else i_size x), i_update := MTIME, i_dirt := True\<rparr>) s
                   else s)
             | READING \<Rightarrow>
                 if i_pipe (inode_tab s rip) \<and> position \<ge> i_size (inode_tab s rip)
                 then let s2 = upd_inode rip (\<lambda>x. x\<lparr>i_size := 0\<rparr>) s
                      in (0, case find_filp rip W_BIT s2 of None \<Rightarrow> s2 | Some wr \<Rightarrow> upd_filp wr (\<lambda>x. x\<lparr>filp_pos := 0\<rparr>) s2)
                 else (position, s));
          s3 = upd_filp f (\<lambda>x. x\<lparr>filp_pos := position1\<rparr>) s1;
          s4 = (if rw_flag = READING \<and> \<not> i_seek (inode_tab s3 rip) \<and> position1 mod 1024 = 0 \<and> filelike
                then s3\<lparr>rdahed_inode := Some rip, rdahedpos := position1\<rparr> else s3);
          s5 = upd_inode rip (\<lambda>x. x\<lparr>i_seek := False\<rparr>) s4;
          r1 = (if rdwt_err s5 = END_OF_FILE then cum_io else if rdwt_err s5 \<noteq> FS_OK then rdwt_err s5 else r)
      in (if r1 = FS_OK then cum_io else r1, s5))"

definition rw_blocks :: "nat \<Rightarrow> nat \<Rightarrow> rw \<Rightarrow> int \<Rightarrow> int \<Rightarrow> int \<Rightarrow> fs \<Rightarrow> (int \<times> fs) outcome" where
  "rw_blocks f rip rw_flag f_size seg usr s =
     (let x = inode_tab s rip;
          block_spec = (i_mode x AND I_TYPE = I_BLOCK_SPECIAL);
          oflags = filp_flags (filp_tab s f);
          nbytes = m_i2 (request s);
          position = filp_pos (filp_tab s f)
      in and_then
           (if rw_flag = WRITING \<and> \<not> block_spec
            then and_then (get_super (i_dev x) s) (\<lambda>sp.
              if position > s_max_size (super_tab s sp) - nbytes then Done (None, s)
              else let position1 = (if oflags AND O_APPEND \<noteq> 0 then f_size else position)
                   in and_then (if position1 > f_size then clear_zone rip f_size 0 s else Done s)
                        (\<lambda>s1. Done (Some position1, s1)))
            else Done (Some position, s))
           (\<lambda>(po, s1).
              case po of
                None \<Rightarrow> Done (EFBIG, s1)
              | Some position1 \<Rightarrow>
                  and_then (if i_pipe (inode_tab s1 rip) then pipe_check rip rw_flag oflags nbytes position1 s1 else Done (1, s1))
                    (\<lambda>(ok, s2).
                       if ok \<le> 0 then Done (ok, s2)
                       else and_then (rw_loop rip rw_flag block_spec f_size seg usr (if i_pipe (inode_tab s1 rip) then ok else FS_OK) position1 (m_p1 (request s2)) nbytes 0 s2)
                              (\<lambda>(r, cum_io, position2, s3). Done (finish_rw f rip rw_flag f_size r cum_io position2 s3)))))"

definition rw_file :: "rw \<Rightarrow> int \<Rightarrow> int \<Rightarrow> fs \<Rightarrow> (int \<times> fs) outcome" where
  "rw_file rw_flag seg usr s =
     (if m_i2 (request s) < 0 then Done (FS_EINVAL, s)
      else let (fo, s1) = get_filp (m_i1 (request s)) s; nbytes = m_i2 (request s) in
        case fo of
          None \<Rightarrow> Done (err_code s1, s1)
        | Some f \<Rightarrow>
            let fl = filp_tab s1 f; position = filp_pos fl in
            if filp_mode fl AND (if rw_flag = READING then R_BIT else W_BIT) = 0 then Done (EBADF, s1)
            else if nbytes = 0 then Done (0, s1)
            else if position < 0 \<or> position > MAX_FILE_POS then Done (FS_EINVAL, s1)
            else case filp_ino fl of
              None \<Rightarrow> Stuck
            | Some rip \<Rightarrow>
                let x = inode_tab s1 rip;
                    mode_word = i_mode x AND I_TYPE;
                    f_size = (if mode_word = I_BLOCK_SPECIAL \<and> i_size x = 0 then MAX_FILE_POS else i_size x);
                    s2 = s1\<lparr>rdwt_err := FS_OK\<rparr>
                in if mode_word = I_CHAR_SPECIAL
                   then and_then (dev_io_char rw_flag (i_zone x 0) position nbytes (who s2) (m_p1 (request s2)) s2) (\<lambda>(r, s3).
                          Done (if r \<ge> 0 then finish_rw f rip rw_flag f_size FS_OK r (position + r) s3
                                else finish_rw f rip rw_flag f_size r 0 position s3))
                   else rw_blocks f rip rw_flag f_size seg usr s2)"

text \<open>MM reads segments of a program into the new process with a descriptor that names process and segment.\<close>

definition read_write :: "rw \<Rightarrow> fs \<Rightarrow> (int \<times> fs) outcome" where
  "read_write rw_flag s =
     (let fd = m_i1 (request s) in
      if who s = MM_PROC \<and> fd AND NOT 0xFF \<noteq> 0
      then rw_file rw_flag (drop_bit 6 fd AND 3) (drop_bit 8 fd AND 0xFF) (s\<lparr>request := (request s)\<lparr>m_i1 := fd AND 0x3F\<rparr>\<rparr>)
      else rw_file rw_flag Data_space (who s) s)"

definition do_read :: "fs \<Rightarrow> (int \<times> fs) outcome" where
  "do_read = read_write READING"

definition do_write :: "fs \<Rightarrow> (int \<times> fs) outcome" where
  "do_write = read_write WRITING"

end
