(* ===== verification/FS_Calls.thy ===== *)
theory FS_Calls
  imports FS_Read
begin

unbundle bit_operations_syntax

section \<open>FS: system calls on files (src/src/fs/open.c, link.c, misc.c, pipe.c, stadir.c, protect.c, time.c, device.c)\<close>

text \<open>
  One definition for each call; the parameters are those of the request, the first result is what the caller
  is told. Slot numbers that MM sends are not checked by the source: outside of the table the call is stuck.
\<close>

subsection \<open>Definitions\<close>

abbreviation (input) LINK_MAX :: u8 where "LINK_MAX \<equiv> 127"
abbreviation (input) S_IRWXU :: u16 where "S_IRWXU \<equiv> 0x1C0"
abbreviation (input) SAME :: int where "SAME \<equiv> 1000"
abbreviation (input) INIT_PROC :: int where "INIT_PROC \<equiv> 2"
abbreviation (input) SETUID_CALL :: int where "SETUID_CALL \<equiv> 23"
abbreviation (input) SETGID_CALL :: int where "SETGID_CALL \<equiv> 46"

definition set_fd :: "int \<Rightarrow> fs \<Rightarrow> fs" where
  "set_fd k s = s\<lparr>request := (request s)\<lparr>m_i1 := k\<rparr>\<rparr>"

definition set_fd2 :: "int \<Rightarrow> fs \<Rightarrow> fs" where
  "set_fd2 k s = s\<lparr>request := (request s)\<lparr>m_i2 := k\<rparr>\<rparr>"

definition set_filp_slot :: "int \<Rightarrow> int \<Rightarrow> nat option \<Rightarrow> fs \<Rightarrow> fs" where
  "set_filp_slot p k fo = upd_fproc p (\<lambda>r. r\<lparr>fp_filp := (fp_filp r)(k := fo)\<rparr>)"

abbreviation is_proc :: "int \<Rightarrow> bool" where "is_proc p \<equiv> 0 \<le> p \<and> p < FS_NR_PROCS"

abbreviation is_dir :: "fs \<Rightarrow> nat \<Rightarrow> bool" where "is_dir s rip \<equiv> i_mode (inode_tab s rip) AND I_TYPE = I_DIRECTORY"

subsubsection \<open>Terminals (device.c)\<close>

definition tty_open :: "u16 \<Rightarrow> fs \<Rightarrow> (int \<times> fs) outcome" where
  "tty_open dev s =
     (if fp_pid (caller s) \<noteq> fp_pgrp (caller s) \<or> fs_tty (caller s) \<noteq> 0
          \<or> list_ex (\<lambda>p. fs_tty (fproc_tab s p) = dev) [INIT_PROC + 1..FS_NR_PROCS - 1]
      then Done (FS_OK, s)
      else let s1 = upd_fproc (fp s) (\<lambda>r. r\<lparr>fs_tty := dev\<rparr>) s
           in and_then (rw_dev (answers s1) None s1) (\<lambda>(a, s2). Done (rep_status FS_OK a, s2)))"

definition dev_open :: "nat \<Rightarrow> fs \<Rightarrow> (int \<times> fs) outcome" where
  "dev_open rip s =
     (if i_count (inode_tab s rip) > 1 then Done (FS_OK, s)
      else let dev = i_zone (inode_tab s rip) 0
           in and_then (find_dev dev) (\<lambda>(major, minor, task). if major = 4 then tty_open dev s else Done (FS_OK, s)))"

definition dev_close :: "nat \<Rightarrow> fs \<Rightarrow> fs outcome" where
  "dev_close rip s =
     (if i_count (inode_tab s rip) > 1 then Done s
      else and_then (find_dev (i_zone (inode_tab s rip) 0)) (\<lambda>_. Done s))"

definition tty_exit :: "fs \<Rightarrow> fs outcome" where
  "tty_exit s =
     (let ttydev = fs_tty (caller s);
          s1 = fold (\<lambda>p. upd_fproc p (\<lambda>r. if fs_tty r = ttydev then r\<lparr>fs_tty := 0\<rparr> else r)) [INIT_PROC + 1..FS_NR_PROCS - 1] s
      in and_then (find_dev ttydev) (\<lambda>_. and_then (rw_dev (answers s1) None s1) (\<lambda>(a, s2). Done s2)))"

definition do_ioctl :: "fs \<Rightarrow> (int \<times> fs) outcome" where
  "do_ioctl s =
     (let (fo, s1) = get_filp (m_i1 (request s)) s in
      case fo of
        None \<Rightarrow> Done (err_code s1, s1)
      | Some f \<Rightarrow>
          (case filp_ino (filp_tab s1 f) of
             None \<Rightarrow> Stuck
           | Some rip \<Rightarrow>
               if i_mode (inode_tab s1 rip) AND I_TYPE \<noteq> I_CHAR_SPECIAL then Done (ENOTTY, s1)
               else and_then (find_dev (i_zone (inode_tab s1 rip) 0)) (\<lambda>_.
                    and_then (rw_dev (answers s1) None s1) (\<lambda>(a, s2).
                      let (spek, flags) =
                        (case a of Some (Partial r d) \<Rightarrow> (get_long d 0, get_long d 2)
                         | _ \<Rightarrow> (word_of_int (m_l1 (request s2)), word_of_int (m_l2 (request s2))))
                      in Done (rep_status FS_OK a, s2\<lparr>out_msg := (out_msg s2)\<lparr>o_spek := spek, o_flags := flags\<rparr>\<rparr>)))))"

subsubsection \<open>Sync (misc.c)\<close>

definition sync_inode :: "nat \<Rightarrow> fs \<Rightarrow> fs outcome" where
  "sync_inode rip s =
     (if i_count (inode_tab s rip) > 0 \<and> i_dirt (inode_tab s rip) then rw_inode rip WRITING s else Done s)"

definition sync_super :: "nat \<Rightarrow> fs \<Rightarrow> fs outcome" where
  "sync_super sp s =
     (if s_dev (super_tab s sp) \<noteq> NO_DEV \<and> s_dirt (super_tab s sp) then rw_super sp WRITING s else Done s)"

definition sync_block :: "nat \<Rightarrow> fs \<Rightarrow> fs outcome" where
  "sync_block bp s =
     (if b_dev (buf_tab s bp) \<noteq> NO_DEV \<and> b_dirt (buf_tab s bp) then flushall (b_dev (buf_tab s bp)) s else Done s)"

definition do_sync :: "fs \<Rightarrow> (int \<times> fs) outcome" where
  "do_sync s =
     and_then (get_super (root_dev s) s) (\<lambda>sp.
     and_then (clock_time s) (\<lambda>(t, s1).
     let s2 = upd_super sp (\<lambda>x. x\<lparr>s_time := t, s_dirt := (s_dirt x \<or> \<not> s_rd_only x)\<rparr>) s1 in
     and_then (seq_all sync_inode [0..<NR_INODES] s2) (\<lambda>s3.
     and_then (seq_all sync_super [0..<NR_SUPERS] s3) (\<lambda>s4.
     and_then (seq_all sync_block [0..<NR_BUFS] s4) (\<lambda>s5. Done (FS_OK, s5))))))"

subsubsection \<open>Creating and opening (open.c)\<close>

definition new_node :: "u16 \<Rightarrow> u16 \<Rightarrow> int \<Rightarrow> fs \<Rightarrow> (nat option \<times> fs) outcome" where
  "new_node bits z0 lsize s =
     and_then (last_dir s) (\<lambda>(ldir, str, s1).
       case ldir of
         None \<Rightarrow> Done (None, s1)
       | Some d \<Rightarrow>
           and_then (advance (Some d) str s1) (\<lambda>(ro, s2).
             if ro = None \<and> err_code s2 = ENOENT
             then and_then (alloc_inode (i_dev (inode_tab s2 d)) bits s2) (\<lambda>(ro1, s3).
               case ro1 of
                 None \<Rightarrow> and_then (put_inode (Some d) s3) (\<lambda>s4. Done (None, s4))
               | Some rip \<Rightarrow>
                   let s4 = upd_inode rip (\<lambda>x. x\<lparr>i_nlinks := i_nlinks x + 1, i_zone := (i_zone x)(0 := z0), i_size := lsize\<rparr>) s3 in
                   and_then (rw_inode rip WRITING s4) (\<lambda>s5.
                   and_then (search_dir d str (i_num (inode_tab s5 rip)) ENTER s5) (\<lambda>(r, _, s6).
                     if r \<noteq> FS_OK
                     then and_then (put_inode (Some d) s6) (\<lambda>s7.
                          and_then (put_inode (Some rip) (upd_inode rip (\<lambda>x. x\<lparr>i_nlinks := i_nlinks x - 1, i_dirt := True\<rparr>) s7)) (\<lambda>s8.
                            Done (None, s8\<lparr>err_code := r\<rparr>)))
                     else and_then (put_inode (Some d) s6) (\<lambda>s7. Done (Some rip, s7\<lparr>err_code := FS_OK\<rparr>)))))
             else
               let r = (if ro \<noteq> None then EEXIST else err_code s2)
               in and_then (put_inode (Some d) s2) (\<lambda>s3. Done (ro, s3\<lparr>err_code := r\<rparr>))))"

definition pipe_open :: "nat \<Rightarrow> u16 \<Rightarrow> int \<Rightarrow> fs \<Rightarrow> (int \<times> fs) outcome" where
  "pipe_open rip bits oflags s =
     (if find_filp rip (if bits AND W_BIT \<noteq> 0 then R_BIT else W_BIT) s = None \<and> oflags AND O_NONBLOCK \<noteq> 0
      then Done (if bits AND W_BIT \<noteq> 0 then ENXIO else FS_OK, s)
      else and_then
             (if find_filp rip (if bits AND W_BIT \<noteq> 0 then R_BIT else W_BIT) s = None then Done (suspend XOPEN s)
              else if susp_count s > 0
              then and_then (release rip OPEN_CALL (susp_count s) s) (\<lambda>s1. release rip CREAT_CALL (susp_count s1) s1)
              else Done s)
             (\<lambda>s2. Done (FS_OK, upd_inode rip (\<lambda>x. x\<lparr>i_pipe := True\<rparr>) s2)))"

definition mode_map :: "int \<Rightarrow> u16" where
  "mode_map oflags = [R_BIT, W_BIT, R_BIT OR W_BIT, 0] ! nat (oflags AND 3)"

text \<open>The part of \<open>common_open\<close> that checks an existing file.\<close>

definition open_existing :: "nat \<Rightarrow> u16 \<Rightarrow> int \<Rightarrow> fs \<Rightarrow> (int \<times> fs) outcome" where
  "open_existing rip bits oflags s =
     and_then (forbidden rip bits False s) (\<lambda>r.
       if r \<noteq> FS_OK then Done (r, s)
       else let ty = i_mode (inode_tab s rip) AND I_TYPE in
         if ty = I_REGULAR
         then if oflags AND O_TRUNC \<noteq> 0 then and_then (truncate rip s) (\<lambda>s1. Done (FS_OK, wipe_inode rip s1)) else Done (FS_OK, s)
         else if ty = I_DIRECTORY then Done (if bits AND W_BIT \<noteq> 0 then EISDIR else FS_OK, s)
         else if ty = I_CHAR_SPECIAL \<or> ty = I_BLOCK_SPECIAL then dev_open rip s
         else if ty = I_NAMED_PIPE then pipe_open rip bits oflags s
         else Done (FS_OK, s))"

definition claim_fd :: "nat \<Rightarrow> nat \<Rightarrow> int \<Rightarrow> fs \<Rightarrow> int \<times> fs" where
  "claim_fd f rip oflags s =
     (m_i1 (request s),
      upd_filp f (\<lambda>x. x\<lparr>filp_count := 1, filp_ino := Some rip, filp_flags := oflags\<rparr>)
        (set_filp_slot (fp s) (m_i1 (request s)) (Some f) s))"

definition common_open :: "int \<Rightarrow> u16 \<Rightarrow> fs \<Rightarrow> (int \<times> fs) outcome" where
  "common_open oflags omode s =
     (let bits = mode_map oflags; (r, k, fo, s0) = get_fd 0 bits s; s1 = set_fd k s0 in
      case fo of
        None \<Rightarrow> Done (r, s1)
      | Some f \<Rightarrow>
          and_then
            (if oflags AND O_CREAT \<noteq> 0
             then and_then (new_node (I_REGULAR OR (omode AND ALL_MODES AND fp_umask (caller s1))) NO_ZONE 0 s1) (\<lambda>(ro, s2).
                    let r1 = err_code s2
                    in Done (r1 \<noteq> FS_OK \<and> r1 \<noteq> EEXIST, ro, r1, r1 = EEXIST \<and> oflags AND O_EXCL = 0, s2))
             else and_then (eat_path s1) (\<lambda>(ro, s2). Done (ro = None, ro, if ro = None then err_code s2 else FS_OK, True, s2)))
            (\<lambda>(quit, ro, r1, exist, s2).
               if quit then Done (r1, s2)
               else case ro of
                 None \<Rightarrow> Stuck
               | Some rip \<Rightarrow>
                   and_then (if exist then open_existing rip bits oflags s2 else Done (r1, s2)) (\<lambda>(r2, s3).
                     if r2 \<noteq> FS_OK then and_then (put_inode (Some rip) s3) (\<lambda>s4. Done (r2, s4))
                     else Done (claim_fd f rip oflags s3))))"

definition do_creat :: "fs \<Rightarrow> (int \<times> fs) outcome" where
  "do_creat s =
     (let (r, s1) = fetch_name (m3_p1 (request s)) (m_i1 (request s)) M3 s
      in if r \<noteq> FS_OK then Done (err_code s1, s1)
         else common_open (1 OR O_CREAT OR O_TRUNC) (word_of_int (m_i2 (request s1))) s1)"

definition do_open :: "fs \<Rightarrow> (int \<times> fs) outcome" where
  "do_open s =
     (let mode = m_i2 (request s);
          create_mode = (if mode AND O_CREAT \<noteq> 0 then m_i3 (request s) else 0);
          (r, s1) = (if mode AND O_CREAT \<noteq> 0 then fetch_name (m_p1 (request s)) (m_i1 (request s)) M1 s
                     else fetch_name (m3_p1 (request s)) (m_i1 (request s)) M3 s)
      in if r \<noteq> FS_OK then Done (err_code s1, s1) else common_open mode (word_of_int create_mode) s1)"

definition do_mknod :: "fs \<Rightarrow> (int \<times> fs) outcome" where
  "do_mknod s =
     (let mode = word_of_int (m_i2 (request s)) :: u16 in
      if \<not> super_user s \<and> mode AND I_TYPE \<noteq> I_NAMED_PIPE then Done (FS_EPERM, s)
      else let (r, s1) = fetch_name (m_p1 (request s)) (m_i1 (request s)) M1 s
           in if r \<noteq> FS_OK then Done (err_code s1, s1)
              else let bits = (mode AND I_TYPE) OR (mode AND ALL_MODES AND fp_umask (caller s1))
                   in and_then (new_node bits (word_of_int (m_i3 (request s1))) (missing_arg s1) s1) (\<lambda>(ro, s2).
                      and_then (put_inode ro s2) (\<lambda>s3. Done (err_code s3, s3))))"

definition dot1 :: "u8 list" where
  "dot1 = DOT # replicate 13 0"

definition dot2 :: "u8 list" where
  "dot2 = DOT # DOT # replicate 12 0"

definition do_mkdir :: "fs \<Rightarrow> (int \<times> fs) outcome" where
  "do_mkdir s =
     (let (r, s1) = fetch_name (m_p1 (request s)) (m_i1 (request s)) M1 s in
      if r \<noteq> FS_OK then Done (err_code s1, s1)
      else let bits = I_DIRECTORY OR (word_of_int (m_i2 (request s1)) AND RWX_MODES AND fp_umask (caller s1)) in
        and_then (new_node bits NO_ZONE 0 s1) (\<lambda>(ro, s2).
          case ro of
            None \<Rightarrow> Done (err_code s2, s2)
          | Some rip \<Rightarrow>
              if err_code s2 = EEXIST then and_then (put_inode (Some rip) s2) (\<lambda>s3. Done (err_code s3, s3))
              else and_then (last_dir s2) (\<lambda>(lo, str, s3).
                case lo of
                  None \<Rightarrow> Stuck
                | Some ldirp \<Rightarrow>
                    let dotdot = i_num (inode_tab s3 ldirp);
                        dot = i_num (inode_tab s3 rip);
                        s4 = upd_inode rip (\<lambda>x. x\<lparr>i_mode := i_mode x OR S_IRWXU\<rparr>) s3
                    in and_then (search_dir rip dot1 dot ENTER s4) (\<lambda>(r1, _, s5).
                       and_then (search_dir rip dot2 dotdot ENTER s5) (\<lambda>(r2, _, s6).
                         let s7 = upd_inode rip (\<lambda>x. x\<lparr>i_mode := bits\<rparr>) s6 in
                         and_then
                           (if r1 = FS_OK \<and> r2 = FS_OK
                            then Done (upd_inode ldirp (\<lambda>x. x\<lparr>i_nlinks := i_nlinks x + 1, i_dirt := True\<rparr>)
                                   (upd_inode rip (\<lambda>x. x\<lparr>i_nlinks := i_nlinks x + 1\<rparr>) s7))
                            else and_then (search_dir rip [DOT] 0 DELETE s7) (\<lambda>(_, _, s8).
                                 and_then (search_dir rip [DOT, DOT] 0 DELETE s8) (\<lambda>(_, _, s9).
                                 and_then (search_dir ldirp str 0 DELETE s9) (\<lambda>(_, _, s10).
                                   Done (upd_inode rip (\<lambda>x. x\<lparr>i_nlinks := i_nlinks x - 1\<rparr>) s10)))))
                           (\<lambda>s11. let s12 = upd_inode rip (\<lambda>x. x\<lparr>i_dirt := True\<rparr>) s11 in
                              and_then (put_inode (Some ldirp) s12) (\<lambda>s13.
                              and_then (put_inode (Some rip) s13) (\<lambda>s14. Done (err_code s14, s14)))))))))"

definition do_close :: "fs \<Rightarrow> (int \<times> fs) outcome" where
  "do_close s =
     (let fd = m_i1 (request s); (fo, s1) = get_filp fd s in
      case fo of
        None \<Rightarrow> Done (err_code s1, s1)
      | Some f \<Rightarrow>
          (case filp_ino (filp_tab s1 f) of
             None \<Rightarrow> Stuck
           | Some rip \<Rightarrow>
               let mode_word = i_mode (inode_tab s1 rip) AND I_TYPE in
               and_then
                 (if mode_word = I_BLOCK_SPECIAL
                  then and_then (do_sync s1) (\<lambda>(_, s2).
                         Done (if mounted rip s2 then s2 else invalidate (i_zone (inode_tab s2 rip) 0) s2))
                  else Done s1) (\<lambda>s3.
               and_then
                 (if (mode_word = I_CHAR_SPECIAL \<or> mode_word = I_BLOCK_SPECIAL) \<and> filp_count (filp_tab s3 f) = 1
                  then dev_close rip s3 else Done s3) (\<lambda>s4.
               and_then
                 (if i_pipe (inode_tab s4 rip)
                  then release rip (if filp_mode (filp_tab s4 f) AND R_BIT \<noteq> 0 then WRITE_CALL else READ_CALL) FS_NR_PROCS s4
                  else Done s4) (\<lambda>s5.
               let s6 = upd_filp f (\<lambda>x. x\<lparr>filp_count := filp_count x - 1\<rparr>) s5 in
               and_then (if filp_count (filp_tab s6 f) = 0 then put_inode (Some rip) s6 else Done s6) (\<lambda>s7.
                 Done (FS_OK, set_filp_slot (fp s7) fd None s7)))))))"

definition do_lseek :: "fs \<Rightarrow> (int \<times> fs) outcome" where
  "do_lseek s =
     (let (fo, s1) = get_filp (m_i1 (request s)) s in
      case fo of
        None \<Rightarrow> Done (err_code s1, s1)
      | Some f \<Rightarrow>
          (case filp_ino (filp_tab s1 f) of
             None \<Rightarrow> Stuck
           | Some rip \<Rightarrow>
               let whence = m_i2 (request s1); offset = m_l1 (request s1);
                   pos = (if whence = 0 then offset
                          else if whence = 1 then as_long (filp_pos (filp_tab s1 f) + offset)
                          else as_long (i_size (inode_tab s1 rip) + offset))
               in if i_pipe (inode_tab s1 rip) then Done (ESPIPE, s1)
                  else if whence \<noteq> 0 \<and> whence \<noteq> 1 \<and> whence \<noteq> 2 then Done (FS_EINVAL, s1)
                  else if pos < 0 \<or> pos > MAX_FILE_POS then Done (FS_EINVAL, s1)
                  else let s2 = (if pos \<noteq> filp_pos (filp_tab s1 f) then upd_inode rip (\<lambda>x. x\<lparr>i_seek := True\<rparr>) s1 else s1);
                           s3 = upd_filp f (\<lambda>x. x\<lparr>filp_pos := pos\<rparr>) s2
                       in Done (FS_OK, s3\<lparr>out_msg := (out_msg s3)\<lparr>o_l1 := pos\<rparr>\<rparr>)))"

subsubsection \<open>Links (link.c)\<close>

definition do_link :: "fs \<Rightarrow> (int \<times> fs) outcome" where
  "do_link s =
     (let (r0, s0) = fetch_name (m_p1 (request s)) (m_i1 (request s)) M1 s in
      if r0 \<noteq> FS_OK then Done (err_code s0, s0)
      else and_then (eat_path s0) (\<lambda>(ro, s1).
        case ro of
          None \<Rightarrow> Done (err_code s1, s1)
        | Some rip \<Rightarrow>
            let r = (if i_nlinks (inode_tab s1 rip) = LINK_MAX then EMLINK
                     else if is_dir s1 rip \<and> \<not> super_user s1 then FS_EPERM else FS_OK) in
            if r \<noteq> FS_OK then and_then (put_inode (Some rip) s1) (\<lambda>s2. Done (r, s2))
            else let (r1, s2) = fetch_name (m_p2 (request s1)) (m_i2 (request s1)) M1 s1 in
              if r1 \<noteq> FS_OK then and_then (put_inode (Some rip) s2) (\<lambda>s3. Done (err_code s3, s3))
              else and_then (last_dir s2) (\<lambda>(ip, str, s3).
                and_then
                  (case ip of
                     None \<Rightarrow> Done (err_code s3, s3)
                   | Some d \<Rightarrow>
                       and_then (advance ip str s3) (\<lambda>(new_ip, s4).
                         if new_ip = None then Done (if err_code s4 = ENOENT then FS_OK else err_code s4, s4)
                         else and_then (put_inode new_ip s4) (\<lambda>s5. Done (EEXIST, s5))))
                  (\<lambda>(r2, s5).
                     and_then
                       (if r2 \<noteq> FS_OK then Done (r2, s5)
                        else case ip of
                          None \<Rightarrow> Stuck
                        | Some d \<Rightarrow>
                            if i_dev (inode_tab s5 rip) \<noteq> i_dev (inode_tab s5 d) then Done (EXDEV, s5)
                            else and_then (search_dir d str (i_num (inode_tab s5 rip)) ENTER s5) (\<lambda>(r3, _, s6). Done (r3, s6)))
                       (\<lambda>(r4, s6).
                          let s7 = (if r4 = FS_OK then upd_inode rip (\<lambda>x. x\<lparr>i_nlinks := i_nlinks x + 1, i_dirt := True\<rparr>) s6 else s6) in
                          and_then (put_inode (Some rip) s7) (\<lambda>s8. and_then (put_inode ip s8) (\<lambda>s9. Done (r4, s9))))))))"

text \<open>The two branches of \<open>do_unlink\<close>.\<close>

definition unlink_file :: "nat \<Rightarrow> nat \<Rightarrow> u8 list \<Rightarrow> fs \<Rightarrow> (int \<times> fs) outcome" where
  "unlink_file rldirp rip str s =
     (if is_dir s rip \<and> \<not> super_user s then Done (FS_EPERM, s)
      else and_then (search_dir rldirp str 0 DELETE s) (\<lambda>(r, _, s1). Done (r, s1)))"

definition remove_dir :: "nat \<Rightarrow> nat \<Rightarrow> u8 list \<Rightarrow> fs \<Rightarrow> (int \<times> fs) outcome" where
  "remove_dir rldirp rip str s =
     and_then (search_dir rip [] 0 LOOK_UP s) (\<lambda>(e, _, s1).
       let r = (if is_dir s rip then FS_OK else ENOTDIR);
           r1 = (if e = FS_OK then ENOTEMPTY else r);
           r2 = (if c_string (user_path s1) = [SLASH] then FS_EPERM else r1);
           r3 = (if c_string str = [DOT] \<or> c_string str = [DOT, DOT] then FS_EPERM else r2);
           r4 = (if list_ex (\<lambda>p. fp_workdir (fproc_tab s1 p) = Some rip \<or> fp_rootdir (fproc_tab s1 p) = Some rip)
                      [INIT_PROC + 1..FS_NR_PROCS - 1] then EBUSY else r3)
       in if r4 \<noteq> FS_OK then Done (r4, s1)
          else and_then (search_dir rldirp str 0 DELETE s1) (\<lambda>(r5, _, s2).
            if r5 \<noteq> FS_OK then Done (r5, s2)
            else let old_mode = i_mode (inode_tab s rip); old_uid = i_uid (inode_tab s rip);
                     s3 = upd_inode rip (\<lambda>x. x\<lparr>i_mode := i_mode x OR S_IRWXU, i_uid := fp_effuid (caller s2)\<rparr>) s2 in
              and_then (search_dir rip [DOT] 0 DELETE s3) (\<lambda>(r6, _, s4).
              let s5 = (if r6 = FS_OK then upd_inode rip (\<lambda>x. x\<lparr>i_nlinks := i_nlinks x - 1\<rparr>) s4 else s4) in
              and_then (search_dir rip [DOT, DOT] 0 DELETE s5) (\<lambda>(r7, _, s6).
              let s7 = (if r7 = FS_OK then upd_inode rldirp (\<lambda>x. x\<lparr>i_nlinks := i_nlinks x - 1\<rparr>) s6 else s6);
                  s8 = upd_inode rldirp (\<lambda>x. x\<lparr>i_dirt := True\<rparr>) (upd_inode rip (\<lambda>x. x\<lparr>i_dirt := True\<rparr>) s7);
                  s9 = upd_inode rip (\<lambda>x. x\<lparr>i_mode := old_mode, i_uid := old_uid\<rparr>) s8
              in Done (if r7 \<noteq> FS_OK then r7 else r6, s9)))))"

definition do_unlink :: "fs \<Rightarrow> (int \<times> fs) outcome" where
  "do_unlink s =
     (let (r0, s0) = fetch_name (m3_p1 (request s)) (m_i1 (request s)) M3 s in
      if r0 \<noteq> FS_OK then Done (err_code s0, s0)
      else and_then (last_dir s0) (\<lambda>(lo, str, s1).
        case lo of
          None \<Rightarrow> Done (err_code s1, s1)
        | Some rldirp \<Rightarrow>
            and_then (advance (Some rldirp) str s1) (\<lambda>(ro, s2).
              case ro of
                None \<Rightarrow> and_then (put_inode (Some rldirp) s2) (\<lambda>s3. Done (err_code s2, s3))
              | Some rip \<Rightarrow>
                  let old_mode = i_mode (inode_tab s2 rip) in
                  and_then (if fs_call s2 = UNLINK then unlink_file rldirp rip str s2 else remove_dir rldirp rip str s2) (\<lambda>(r, s3).
                    let s4 = (if r = FS_OK then upd_inode rip (\<lambda>x. x\<lparr>i_nlinks := i_nlinks x - 1, i_dirt := True\<rparr>) s3 else s3);
                        s5 = upd_inode rip (\<lambda>x. x\<lparr>i_mode := old_mode\<rparr>) s4
                    in and_then (put_inode (Some rip) s5) (\<lambda>s6.
                       and_then (put_inode (Some rldirp) s6) (\<lambda>s7. Done (r, s7)))))))"

text \<open>
  \<open>do_rename\<close>: the checks, the change of the directories, and the frame around them. The old name and its last
  component are copied with \<open>strcpy\<close>, which needs a terminator.
\<close>

definition rename_checks :: "u8 list \<Rightarrow> nat \<Rightarrow> nat \<Rightarrow> nat \<Rightarrow> nat option \<Rightarrow> fs \<Rightarrow> (int \<times> fs) outcome" where
  "rename_checks old_name old_dirp old_ip new_dirp new_ip s =
     (let r1 = (if take (length old_name) (user_path s) = old_name then FS_EINVAL else FS_OK);
          r2 = (if old_name = [DOT] \<or> old_name = [DOT, DOT] then FS_EINVAL else r1);
          r3 = (if i_dev (inode_tab s old_dirp) \<noteq> i_dev (inode_tab s new_dirp) then EXDEV else r2)
      in and_then (forbidden old_dirp (W_BIT OR X_BIT) False s) (\<lambda>f1.
         and_then (forbidden new_dirp (W_BIT OR X_BIT) False s) (\<lambda>f2.
           let r4 = (if f1 \<noteq> FS_OK \<or> f2 \<noteq> FS_OK then FS_EACCES else r3) in
           case new_ip of
             None \<Rightarrow> Done (r4, s)
           | Some ni \<Rightarrow>
               let r5 = (if is_dir s old_ip \<and> \<not> is_dir s ni then ENOTDIR else r4);
                   r6 = (if \<not> is_dir s old_ip \<and> is_dir s ni then EISDIR else r5);
                   r7 = (if i_num (inode_tab s old_ip) = i_num (inode_tab s ni) then SAME else r6)
               in if is_dir s ni
                  then and_then (search_dir ni [] 0 LOOK_UP s) (\<lambda>(e, _, s1). Done (if e = FS_OK then ENOTEMPTY else r7, s1))
                  else Done (r7, s))))"

definition rename_entries :: "u8 list \<Rightarrow> u8 list \<Rightarrow> nat \<Rightarrow> nat \<Rightarrow> nat \<Rightarrow> nat option \<Rightarrow> fs \<Rightarrow> (int \<times> fs) outcome" where
  "rename_entries old_str str old_dirp old_ip new_dirp new_ip s =
     (let numb = i_num (inode_tab s old_ip); odir = is_dir s old_ip in
      and_then
        (case new_ip of
           None \<Rightarrow>
             and_then (search_dir new_dirp str numb ENTER s) (\<lambda>(r, _, s1).
               Done (r, if r = FS_OK \<and> odir then upd_inode new_dirp (\<lambda>x. x\<lparr>i_nlinks := i_nlinks x + 1, i_dirt := True\<rparr>) s1 else s1))
         | Some ni \<Rightarrow>
             and_then (search_dir new_dirp str 0 DELETE s) (\<lambda>(_, _, s1).
             and_then (search_dir new_dirp str numb ENTER s1) (\<lambda>(_, _, s2).
               Done (FS_OK, upd_inode ni (\<lambda>x. x\<lparr>i_nlinks := i_nlinks x - (if odir then 2 else 1), i_dirt := True\<rparr>) s2))))
        (\<lambda>(r, s3).
           if r \<noteq> FS_OK then Done (r, s3)
           else and_then
                  (if odir
                   then let s4 = upd_inode old_dirp (\<lambda>x. x\<lparr>i_nlinks := i_nlinks x - 1, i_dirt := True\<rparr>) s3 in
                     and_then (search_dir old_ip [DOT, DOT] 0 DELETE s4) (\<lambda>(_, _, s5).
                     and_then (search_dir old_ip dot2 (i_num (inode_tab s4 new_dirp)) ENTER s5) (\<lambda>(_, _, s6). Done s6))
                   else Done s3)
                  (\<lambda>s7. and_then (search_dir old_dirp old_str 0 DELETE s7) (\<lambda>(_, _, s8).
                     Done (FS_OK, upd_inode new_dirp (\<lambda>x. x\<lparr>i_update := CTIME OR MTIME\<rparr>)
                       (upd_inode old_dirp (\<lambda>x. x\<lparr>i_update := CTIME OR MTIME\<rparr>) s8))))))"

definition do_rename :: "fs \<Rightarrow> (int \<times> fs) outcome" where
  "do_rename s =
     (let (r0, s0) = fetch_name (m_p1 (request s)) (m_i1 (request s)) M1 s in
      if r0 \<noteq> FS_OK then Done (err_code s0, s0)
      else and_then (last_dir s0) (\<lambda>(od, old_str, s1).
        case od of
          None \<Rightarrow> Done (err_code s1, s1)
        | Some old_dirp \<Rightarrow>
            and_then (advance od old_str s1) (\<lambda>(old_ip, s2).
              let r1 = (if old_ip = None then err_code s2 else FS_OK); old_name = c_string (user_path s2) in
              if 0 \<notin> set (user_path s2) \<or> 0 \<notin> set old_str then Stuck
              else
                let (r2, s3) = fetch_name (m_p2 (request s2)) (m_i2 (request s2)) M1 s2;
                    r3 = (if r2 \<noteq> FS_OK then err_code s3 else r1)
                in and_then (last_dir s3) (\<lambda>(new_dirp, str0, s4).
                   let r4 = (if new_dirp = None then err_code s4 else r3); str = (if str0 = [] then old_str else str0) in
                   and_then (advance new_dirp str s4) (\<lambda>(new_ip, s5).
                   and_then
                     (if r4 \<noteq> FS_OK then Done (r4, s5)
                      else case (old_ip, new_dirp) of
                        (Some oi, Some nd) \<Rightarrow>
                          and_then (rename_checks old_name old_dirp oi nd new_ip s5) (\<lambda>(r5, s6).
                            if r5 \<noteq> FS_OK then Done (r5, s6)
                            else rename_entries (c_string old_str) str old_dirp oi nd new_ip s6)
                      | _ \<Rightarrow> Stuck)
                     (\<lambda>(r6, s7).
                        and_then (put_inode (Some old_dirp) s7) (\<lambda>s8.
                        and_then (put_inode old_ip s8) (\<lambda>s9.
                        and_then (put_inode new_dirp s9) (\<lambda>s10.
                        and_then (put_inode new_ip s10) (\<lambda>s11.
                          Done (if r6 = SAME then FS_OK else r6, s11)))))))))))"

end
