(* ===== verification/FS_Main.thy ===== *)
theory FS_Main
  imports FS_Calls
begin

unbundle bit_operations_syntax

section \<open>FS: the other calls, booting and the main loop (src/src/fs/misc.c, pipe.c, stadir.c, protect.c, time.c, mount.c, main.c)\<close>

text \<open>
  The calls that do not create or remove files, mounting, the initialisation with the branches for the Lisa,
  and one turn of the main loop. The message that \<open>receive\<close> delivers is an argument of the turn.
\<close>

subsection \<open>Definitions\<close>

abbreviation (input) FS_DEV_RAM :: u16 where "FS_DEV_RAM \<equiv> 0x100"
abbreviation (input) FS_DEV_HD0 :: u16 where "FS_DEV_HD0 \<equiv> 0x300"
abbreviation (input) SUPER_MAGIC :: u16 where "SUPER_MAGIC \<equiv> 0x137F"

subsubsection \<open>File descriptors and processes (misc.c)\<close>

definition do_dup :: "fs \<Rightarrow> (int \<times> fs) outcome" where
  "do_dup s =
     (let fd = m_i1 (request s); rfd = fd AND NOT 0x40; (fo, s1) = get_filp rfd s in
      case fo of
        None \<Rightarrow> Done (err_code s1, s1)
      | Some f \<Rightarrow>
          let fd2 = m_i2 (request s1) in
          and_then
            (if fd = rfd
             then let (r, k, _, s2) = get_fd 0 0 s1 in Done (if r \<noteq> FS_OK then Some r else None, set_fd2 k s2)
             else if fd2 < 0 \<or> fd2 \<ge> OPEN_MAX then Done (Some EBADF, s1)
             else if rfd = fd2 then Done (Some fd2, s1)
             else and_then (do_close (set_fd fd2 s1)) (\<lambda>(_, s2). Done (None, s2)))
            (\<lambda>(ret, s3).
               case ret of
                 Some r \<Rightarrow> Done (r, s3)
               | None \<Rightarrow>
                   let k = m_i2 (request s3)
                   in Done (k, set_filp_slot (fp s3) k (Some f) (upd_filp f (\<lambda>x. x\<lparr>filp_count := filp_count x + 1\<rparr>) s3))))"

definition do_fcntl :: "fs \<Rightarrow> (int \<times> fs) outcome" where
  "do_fcntl s =
     (let (fo, s1) = get_filp (m_i1 (request s)) s in
      case fo of
        None \<Rightarrow> Done (err_code s1, s1)
      | Some f \<Rightarrow>
          let req = m_i2 (request s1); arg = m_i3 (request s1) in
          if req = 0 \<and> 0 \<le> arg \<and> arg < OPEN_MAX
          then let (r, k, _, s2) = get_fd arg 0 s1
               in if r \<noteq> FS_OK then Done (r, s2)
                  else Done (k, set_filp_slot (fp s2) k (Some f) (upd_filp f (\<lambda>x. x\<lparr>filp_count := filp_count x + 1\<rparr>) s2))
          else if req = 3 then Done (filp_flags (filp_tab s1 f), s1)
          else if req = 4
          then let fl = O_NONBLOCK OR O_APPEND
               in Done (FS_OK, upd_filp f (\<lambda>x. x\<lparr>filp_flags := (filp_flags x AND NOT fl) OR (arg AND fl)\<rparr>) s1)
          else Done (FS_EINVAL, s1))"

definition inherit_filp :: "int \<Rightarrow> int \<Rightarrow> fs \<Rightarrow> fs" where
  "inherit_filp child k s =
     (case fp_filp (fproc_tab s child) k of
        None \<Rightarrow> s
      | Some f \<Rightarrow> upd_filp f (\<lambda>x. x\<lparr>filp_count := filp_count x + 1\<rparr>) s)"

definition do_fork_fs :: "fs \<Rightarrow> (int \<times> fs) outcome" where
  "do_fork_fs s =
     (if who s \<noteq> MM_PROC then Done (FS_ERROR, s)
      else let parent = m_i1 (request s); child = m_i2 (request s); pid = m_i3 (request s) in
        if \<not> is_proc parent \<or> \<not> is_proc child then Stuck
        else let s1 = s\<lparr>fproc_tab := (fproc_tab s)(child := fproc_tab s parent)\<rparr>;
                 s2 = fold (inherit_filp child) [0..OPEN_MAX - 1] s1;
                 s3 = upd_fproc child (\<lambda>r. r\<lparr>fp_pid := pid, fp_pgrp := (if parent = INIT_PROC then pid else fp_pgrp r)\<rparr>) s2
             in case (fp_rootdir (fproc_tab s3 child), fp_workdir (fproc_tab s3 child)) of
                  (Some rd, Some wd) \<Rightarrow> Done (FS_OK, dup_inode wd (dup_inode rd s3))
                | _ \<Rightarrow> Stuck)"

definition cancel_io :: "int \<Rightarrow> fs \<Rightarrow> fs outcome" where
  "cancel_io proc_nr s =
     (let r = fproc_tab s proc_nr; fild = drop_bit 8 (fp_fd r) AND 0xFF in
      if fild \<ge> OPEN_MAX then Panic ''unpause err 2''
      else case fp_filp r fild of
        None \<Rightarrow> Stuck
      | Some f \<Rightarrow>
          (case filp_ino (filp_tab s f) of
             None \<Rightarrow> Stuck
           | Some ip \<Rightarrow>
               let maj = major_of (i_zone (inode_tab s ip) 0)
               in if maj = 0 \<or> maj \<ge> max_major then Stuck
                  else and_then (rw_dev (answers s) (Some proc_nr) s) (\<lambda>(a, s1). Done s1)))"

definition do_unpause :: "fs \<Rightarrow> (int \<times> fs) outcome" where
  "do_unpause s =
     (if who s > MM_PROC then Done (FS_EPERM, s)
      else let proc_nr = m_i1 (request s) in
        if \<not> is_proc proc_nr then Panic ''unpause err 1''
        else let r = fproc_tab s proc_nr; task = - fp_task r in
          if \<not> fp_suspended r \<or> task = XPIPE then Done (FS_OK, s)
          else and_then (if task = XOPEN then Done s else cancel_io proc_nr s) (\<lambda>s1.
                 Done (FS_OK, reply proc_nr FS_EINTR (upd_fproc proc_nr (\<lambda>r. r\<lparr>fp_suspended := False\<rparr>) s1))))"

definition close_one :: "int \<Rightarrow> fs \<Rightarrow> fs outcome" where
  "close_one k s = and_then (do_close (set_fd k s)) (\<lambda>(_, s1). Done s1)"

definition leave_tty :: "fs \<Rightarrow> fs outcome" where
  "leave_tty s = (if fp_pid (caller s) = fp_pgrp (caller s) \<and> fs_tty (caller s) \<noteq> 0 then tty_exit s else Done s)"

definition stop_waiting :: "int \<Rightarrow> fs \<Rightarrow> fs outcome" where
  "stop_waiting exitee s =
     (if fp_suspended (caller s)
      then let task = - fp_task (caller s);
               s1 = (if task = XPIPE \<or> task = XOPEN then s\<lparr>susp_count := susp_count s - 1\<rparr> else s)
           in and_then (do_unpause (set_fd exitee s1)) (\<lambda>(_, s2).
                Done (upd_fproc exitee (\<lambda>r. r\<lparr>fp_suspended := False\<rparr>) s2))
      else Done s)"

definition do_exit_fs :: "fs \<Rightarrow> (int \<times> fs) outcome" where
  "do_exit_fs s =
     (if who s \<noteq> MM_PROC then Done (FS_ERROR, s)
      else let exitee = m_i1 (request s) in
        if \<not> is_proc exitee then Stuck
        else and_then (leave_tty (s\<lparr>fp := exitee\<rparr>)) (\<lambda>s1.
             and_then (stop_waiting exitee s1) (\<lambda>s2.
             and_then (seq_all close_one [0..OPEN_MAX - 1] s2) (\<lambda>s3.
             and_then (put_inode (fp_rootdir (caller s3)) s3) (\<lambda>s4.
             and_then (put_inode (fp_workdir (caller s4)) s4) (\<lambda>s5.
               Done (FS_OK, upd_fproc exitee (\<lambda>r. r\<lparr>fp_rootdir := None, fp_workdir := None\<rparr>) s5)))))))"

definition do_set :: "fs \<Rightarrow> (int \<times> fs) outcome" where
  "do_set s =
     (if who s \<noteq> MM_PROC then Done (FS_ERROR, s)
      else let slot1 = m_i1 (request s); a = m_i2 (request s); b = m_i3 (request s) in
        if \<not> is_proc slot1 then Stuck
        else if fs_call s = SETUID_CALL
        then Done (FS_OK, upd_fproc slot1 (\<lambda>r. r\<lparr>fp_realuid := word_of_int a, fp_effuid := word_of_int b\<rparr>) s)
        else if fs_call s = SETGID_CALL
        then Done (FS_OK, upd_fproc slot1 (\<lambda>r. r\<lparr>fp_effgid := word_of_int b, fp_realgid := word_of_int a\<rparr>) s)
        else Done (FS_OK, s))"

definition do_revive :: "fs \<Rightarrow> (int \<times> fs) outcome" where
  "do_revive s =
     (if who s > 0 then Done (FS_EPERM, s)
      else and_then (revive (m_i1 (request s)) (m_i2 (request s)) s) (\<lambda>s1. Done (FS_OK, s1\<lparr>dont_reply := True\<rparr>)))"

subsubsection \<open>Pipes (pipe.c)\<close>

definition do_pipe :: "fs \<Rightarrow> (int \<times> fs) outcome" where
  "do_pipe s =
     (let p = fp s; (r0, k0, fo0, s0) = get_fd 0 R_BIT s in
      case fo0 of
        None \<Rightarrow> Done (r0, s0)
      | Some f0 \<Rightarrow>
          let s1 = upd_filp f0 (\<lambda>x. x\<lparr>filp_count := 1\<rparr>) (set_filp_slot p k0 (Some f0) s0);
              (r1, k1, fo1, s2) = get_fd 0 W_BIT s1 in
          case fo1 of
            None \<Rightarrow> Done (r1, upd_filp f0 (\<lambda>x. x\<lparr>filp_count := 0\<rparr>) (set_filp_slot p k0 None s2))
          | Some f1 \<Rightarrow>
              let s3 = upd_filp f1 (\<lambda>x. x\<lparr>filp_count := 1\<rparr>) (set_filp_slot p k1 (Some f1) s2) in
              (case fp_workdir (fproc_tab s3 p) of
                 None \<Rightarrow> Stuck
               | Some wd \<Rightarrow>
                   and_then (alloc_inode (i_dev (inode_tab s3 wd)) I_REGULAR s3) (\<lambda>(ro, s4).
                     case ro of
                       None \<Rightarrow>
                         Done (err_code s4,
                           upd_filp f1 (\<lambda>x. x\<lparr>filp_count := 0\<rparr>) (set_filp_slot p k1 None
                             (upd_filp f0 (\<lambda>x. x\<lparr>filp_count := 0\<rparr>) (set_filp_slot p k0 None s4))))
                     | Some rip \<Rightarrow>
                         let s5 = upd_inode rip (\<lambda>x. x\<lparr>i_pipe := True, i_count := i_count x + 1\<rparr>) s4;
                             s6 = upd_filp f1 (\<lambda>x. x\<lparr>filp_ino := Some rip\<rparr>) (upd_filp f0 (\<lambda>x. x\<lparr>filp_ino := Some rip\<rparr>) s5)
                         in and_then (rw_inode rip WRITING s6) (\<lambda>s7.
                              Done (FS_OK, s7\<lparr>out_msg := (out_msg s7)\<lparr>o_i1 := k0, o_i2 := k1\<rparr>\<rparr>)))))"

subsubsection \<open>Directories and status (stadir.c)\<close>

definition change :: "(fproc \<Rightarrow> nat option) \<Rightarrow> (nat option \<Rightarrow> fproc \<Rightarrow> fproc) \<Rightarrow> u32 \<Rightarrow> int \<Rightarrow> fs \<Rightarrow> (int \<times> fs) outcome" where
  "change iip set_iip name_ptr len s =
     (let (r, s1) = fetch_name name_ptr len M3 s in
      if r \<noteq> FS_OK then Done (err_code s1, s1)
      else and_then (eat_path s1) (\<lambda>(ro, s2).
        case ro of
          None \<Rightarrow> Done (err_code s2, s2)
        | Some rip \<Rightarrow>
            and_then (if \<not> is_dir s2 rip then Done ENOTDIR else forbidden rip X_BIT False s2) (\<lambda>r1.
              if r1 \<noteq> FS_OK then and_then (put_inode (Some rip) s2) (\<lambda>s3. Done (r1, s3))
              else and_then (put_inode (iip (caller s2)) s2) (\<lambda>s3. Done (FS_OK, upd_fproc (fp s3) (set_iip (Some rip)) s3)))))"

definition do_chdir :: "fs \<Rightarrow> (int \<times> fs) outcome" where
  "do_chdir s =
     (if who s = MM_PROC
      then let slot1 = m_i1 (request s); cd_flag = m_i2 (request s) in
        if \<not> is_proc slot1 then Stuck
        else and_then (put_inode (fp_workdir (caller s)) s) (\<lambda>s1.
          let wd = (if cd_flag \<noteq> 0 then fp_rootdir (caller s1) else fp_workdir (fproc_tab s1 slot1));
              uid = (if cd_flag \<noteq> 0 then 0 else fp_effuid (fproc_tab s1 slot1))
          in case wd of
               None \<Rightarrow> Stuck
             | Some w \<Rightarrow> Done (FS_OK, upd_fproc (fp s1) (\<lambda>r. r\<lparr>fp_workdir := wd, fp_effuid := uid\<rparr>) (dup_inode w s1)))
      else change fp_workdir (\<lambda>v r. r\<lparr>fp_workdir := v\<rparr>) (m3_p1 (request s)) (m_i1 (request s)) s)"

definition do_chroot :: "fs \<Rightarrow> (int \<times> fs) outcome" where
  "do_chroot s =
     (if \<not> super_user s then Done (FS_EPERM, s)
      else change fp_rootdir (\<lambda>v r. r\<lparr>fp_rootdir := v\<rparr>) (m3_p1 (request s)) (m_i1 (request s)) s)"

text \<open>The \<open>struct stat\<close> of \<open>stat_inode\<close>: seven words and four longs.\<close>

definition stat_bytes :: "inode \<Rightarrow> int \<Rightarrow> u8 list" where
  "stat_bytes x sz =
     map (set_long 13 (word_of_int (i_ctime x)) (set_long 11 (word_of_int (i_mtime x)) (set_long 9 (word_of_int (i_atime x))
       (set_long 7 (word_of_int sz) (set_int 6 (i_zone x 0) (set_int 5 (ucast (i_gid x)) (set_int 4 (i_uid x)
       (set_int 3 (ucast (i_nlinks x)) (set_int 2 (i_mode x) (set_int 1 (i_num x) (set_int 0 (i_dev x) (\<lambda>_. 0)))))))))))) [0..<30]"

definition stat_inode :: "nat \<Rightarrow> nat option \<Rightarrow> u32 \<Rightarrow> fs \<Rightarrow> (int \<times> fs) outcome" where
  "stat_inode rip fil_ptr user_addr s =
     and_then (if i_update (inode_tab s rip) \<noteq> 0 then update_times rip s else Done s) (\<lambda>s1.
       let x = inode_tab s1 rip;
           sz = (case fil_ptr of
                   None \<Rightarrow> i_size x
                 | Some f \<Rightarrow> if i_pipe x \<and> filp_mode (filp_tab s1 f) = R_BIT then as_long (i_size x - filp_pos (filp_tab s1 f)) else i_size x)
       in Done (to_user Data_space (who s1) user_addr (stat_bytes x sz) s1))"

definition do_stat :: "fs \<Rightarrow> (int \<times> fs) outcome" where
  "do_stat s =
     (let (r, s1) = fetch_name (m_p1 (request s)) (m_i1 (request s)) M1 s in
      if r \<noteq> FS_OK then Done (err_code s1, s1)
      else and_then (eat_path s1) (\<lambda>(ro, s2).
        case ro of
          None \<Rightarrow> Done (err_code s2, s2)
        | Some rip \<Rightarrow>
            and_then (stat_inode rip None (m_p2 (request s2)) s2) (\<lambda>(r1, s3).
            and_then (put_inode (Some rip) s3) (\<lambda>s4. Done (r1, s4)))))"

definition do_fstat :: "fs \<Rightarrow> (int \<times> fs) outcome" where
  "do_fstat s =
     (let (fo, s1) = get_filp (m_i1 (request s)) s in
      case fo of
        None \<Rightarrow> Done (err_code s1, s1)
      | Some f \<Rightarrow>
          (case filp_ino (filp_tab s1 f) of
             None \<Rightarrow> Stuck
           | Some rip \<Rightarrow> stat_inode rip (Some f) (m_p1 (request s1)) s1))"

subsubsection \<open>Protection (protect.c)\<close>

definition do_chmod :: "fs \<Rightarrow> (int \<times> fs) outcome" where
  "do_chmod s =
     (let (r, s1) = fetch_name (m3_p1 (request s)) (m_i1 (request s)) M3 s in
      if r \<noteq> FS_OK then Done (err_code s1, s1)
      else and_then (eat_path s1) (\<lambda>(ro, s2).
        case ro of
          None \<Rightarrow> Done (err_code s2, s2)
        | Some rip \<Rightarrow>
            and_then (if i_uid (inode_tab s2 rip) \<noteq> fp_effuid (caller s2) \<and> \<not> super_user s2 then Done FS_EPERM
                      else read_only rip s2) (\<lambda>r1.
              let s3 = (if r1 \<noteq> FS_OK then s2
                        else upd_inode rip (\<lambda>x. x\<lparr>i_mode := (i_mode x AND NOT ALL_MODES) OR (word_of_int (m_i2 (request s2)) AND ALL_MODES),
                                              i_dirt := True\<rparr>) s2)
              in and_then (put_inode (Some rip) s3) (\<lambda>s4. Done (r1, s4)))))"

definition do_chown :: "fs \<Rightarrow> (int \<times> fs) outcome" where
  "do_chown s =
     (if \<not> super_user s then Done (FS_EPERM, s)
      else let (r, s1) = fetch_name (m_p1 (request s)) (m_i1 (request s)) M1 s in
        if r \<noteq> FS_OK then Done (err_code s1, s1)
        else and_then (eat_path s1) (\<lambda>(ro, s2).
          case ro of
            None \<Rightarrow> Done (err_code s2, s2)
          | Some rip \<Rightarrow>
              and_then (read_only rip s2) (\<lambda>r1.
                let s3 = (if r1 \<noteq> FS_OK then s2
                          else upd_inode rip (\<lambda>x. x\<lparr>i_uid := word_of_int (m_i2 (request s2)), i_gid := word_of_int (m_i3 (request s2)),
                                                i_dirt := True\<rparr>) s2)
                in and_then (put_inode (Some rip) s3) (\<lambda>s4. Done (r1, s4)))))"

definition do_umask :: "fs \<Rightarrow> (int \<times> fs) outcome" where
  "do_umask s =
     Done (sint (NOT (fp_umask (caller s))),
       upd_fproc (fp s) (\<lambda>r. r\<lparr>fp_umask := NOT (word_of_int (m_i1 (request s)) AND RWX_MODES)\<rparr>) s)"

definition do_access :: "fs \<Rightarrow> (int \<times> fs) outcome" where
  "do_access s =
     (let (r, s1) = fetch_name (m3_p1 (request s)) (m_i1 (request s)) M3 s in
      if r \<noteq> FS_OK then Done (err_code s1, s1)
      else and_then (eat_path s1) (\<lambda>(ro, s2).
        case ro of
          None \<Rightarrow> Done (err_code s2, s2)
        | Some rip \<Rightarrow>
            and_then (forbidden rip (word_of_int (m_i2 (request s2))) True s2) (\<lambda>r1.
            and_then (put_inode (Some rip) s2) (\<lambda>s3. Done (r1, s3)))))"

subsubsection \<open>Time (time.c)\<close>

definition do_utime :: "fs \<Rightarrow> (int \<times> fs) outcome" where
  "do_utime s =
     (let (r, s1) = fetch_name (m2_p1 (request s)) (m_i1 (request s)) M1 s in
      if r \<noteq> FS_OK then Done (err_code s1, s1)
      else and_then (eat_path s1) (\<lambda>(ro, s2).
        case ro of
          None \<Rightarrow> Done (err_code s2, s2)
        | Some rip \<Rightarrow>
            and_then (read_only rip s2) (\<lambda>ro1.
              let r1 = (if ro1 \<noteq> FS_OK then EROFS
                        else if i_uid (inode_tab s2 rip) \<noteq> fp_effuid (caller s2) \<and> \<not> super_user s2 then FS_EPERM else FS_OK);
                  s3 = (if r1 = FS_OK then upd_inode rip (\<lambda>x. x\<lparr>i_mtime := m_l2 (request s2), i_dirt := True\<rparr>) s2 else s2)
              in and_then (put_inode (Some rip) s3) (\<lambda>s4. Done (r1, s4)))))"

definition do_time :: "fs \<Rightarrow> (int \<times> fs) outcome" where
  "do_time s = and_then (clock_time s) (\<lambda>(t, s1). Done (FS_OK, s1\<lparr>out_msg := (out_msg s1)\<lparr>o_l1 := t\<rparr>\<rparr>))"

definition do_stime :: "fs \<Rightarrow> (int \<times> fs) outcome" where
  "do_stime s = Done (if \<not> super_user s then (FS_EPERM, s) else (FS_OK, s\<lparr>now := m_l1 (request s)\<rparr>))"

definition do_tims :: "fs \<Rightarrow> (int \<times> fs) outcome" where
  "do_tims s = Done (FS_OK, s\<lparr>out_msg := (out_msg s)\<lparr>o_t := proc_times s (who s)\<rparr>\<rparr>)"

definition no_sys_fs :: "fs \<Rightarrow> (int \<times> fs) outcome" where
  "no_sys_fs s = Done (FS_EINVAL, s)"

subsubsection \<open>Mounting (mount.c)\<close>

definition name_to_dev :: "fs \<Rightarrow> (u16 \<times> fs) outcome" where
  "name_to_dev s =
     and_then (eat_path s) (\<lambda>(ro, s1).
       case ro of
         None \<Rightarrow> Done (NO_DEV, s1)
       | Some rip \<Rightarrow>
           if i_mode (inode_tab s1 rip) AND I_TYPE \<noteq> I_BLOCK_SPECIAL
           then and_then (put_inode (Some rip) (s1\<lparr>err_code := ENOTBLK\<rparr>)) (\<lambda>s2. Done (NO_DEV, s2))
           else and_then (put_inode (Some rip) s1) (\<lambda>s2. Done (i_zone (inode_tab s1 rip) 0, s2)))"

abbreviation drop_super :: "nat \<Rightarrow> fs \<Rightarrow> fs" where
  "drop_super sp \<equiv> upd_super sp (\<lambda>x. x\<lparr>s_dev := NO_DEV\<rparr>)"

text \<open>The second half of \<open>do_mount\<close>, from the inode that is mounted on to the end.\<close>

definition mount_on :: "u16 \<Rightarrow> nat \<Rightarrow> nat \<Rightarrow> fs \<Rightarrow> (int \<times> fs) outcome" where
  "mount_on dev sp rip s =
     (let x = inode_tab s rip;
          ty = i_mode x AND I_TYPE;
          r = (if ty = I_BLOCK_SPECIAL \<or> ty = I_CHAR_SPECIAL then ENOTDIR else if i_count x > 1 then EBUSY else FS_OK) in
      and_then
        (if r \<noteq> FS_OK then Done (None, r, s)
         else and_then (get_inode dev ROOT_INODE s) (\<lambda>(ro, s1).
           Done (ro, case ro of None \<Rightarrow> err_code s1 | Some ip \<Rightarrow> if i_mode (inode_tab s1 ip) = 0 then FS_EINVAL else FS_OK, s1)))
        (\<lambda>(ro, r1, s1).
           and_then
             (if r1 \<noteq> FS_OK then Done (r1, s1)
              else and_then (load_bit_maps dev s1) (\<lambda>(l, s2). Done (if l \<noteq> FS_OK then ENFILE else FS_OK, s2)))
             (\<lambda>(r2, s2).
                let r3 = (if r2 = FS_OK \<and> is_dir s2 rip \<and> (case ro of None \<Rightarrow> True | Some ip \<Rightarrow> \<not> is_dir s2 ip) then ENOTDIR else r2) in
                if r3 \<noteq> FS_OK
                then and_then (put_inode (Some rip) s2) (\<lambda>s3.
                     and_then (put_inode ro s3) (\<lambda>s4.
                     and_then (if r1 = FS_OK then unload_bit_maps dev s4 else Done (FS_OK, s4)) (\<lambda>(_, s5).
                     and_then (do_sync s5) (\<lambda>(_, s6). Done (r3, drop_super sp (invalidate dev s6))))))
                else Done (FS_OK, upd_super sp (\<lambda>y. y\<lparr>s_imount := Some rip, s_isup := ro,
                            s_rd_only := (m_i3 (request s2) AND 0xFF \<noteq> 0)\<rparr>)
                       (upd_inode rip (\<lambda>y. y\<lparr>i_mount := True\<rparr>) s2)))))"

definition do_mount :: "fs \<Rightarrow> (int \<times> fs) outcome" where
  "do_mount s =
     (if \<not> super_user s then Done (FS_EPERM, s)
      else let (r, s0) = fetch_name (m_p1 (request s)) (m_i1 (request s)) M1 s in
        if r \<noteq> FS_OK then Done (err_code s0, s0)
        else and_then (name_to_dev s0) (\<lambda>(dev, s1).
          if dev = NO_DEV then Done (err_code s1, s1)
          else if list_ex (\<lambda>xp. s_dev (super_tab s1 xp) = dev) [0..<NR_SUPERS] then Done (EBUSY, s1)
          else case find (\<lambda>xp. s_dev (super_tab s1 xp) = NO_DEV) (rev [0..<NR_SUPERS]) of
            None \<Rightarrow> Done (ENFILE, s1)
          | Some sp \<Rightarrow>
              and_then (rw_super sp READING (upd_super sp (\<lambda>x. x\<lparr>s_dev := dev\<rparr>) s1)) (\<lambda>s2.
                let s3 = upd_super sp (\<lambda>x. x\<lparr>s_dev := dev\<rparr>) s2; x = super_tab s3 sp in
                if s_magic x \<noteq> SUPER_MAGIC \<or> s_ninodes x < 1 \<or> s_nzones x < 1 \<or> s_imap_blocks x < 1 \<or> s_zmap_blocks x < 1
                then Done (FS_EINVAL, drop_super sp s3)
                else let (r1, s4) = fetch_name (m_p2 (request s3)) (m_i2 (request s3)) M1 s3 in
                  if r1 \<noteq> FS_OK then Done (err_code s4, drop_super sp s4)
                  else and_then (eat_path s4) (\<lambda>(ro, s5).
                    case ro of
                      None \<Rightarrow> Done (err_code s5, drop_super sp s5)
                    | Some rip \<Rightarrow> mount_on dev sp rip s5))))"

definition do_umount :: "fs \<Rightarrow> (int \<times> fs) outcome" where
  "do_umount s =
     (if \<not> super_user s then Done (FS_EPERM, s)
      else let (r, s0) = fetch_name (m3_p1 (request s)) (m_i1 (request s)) M3 s in
        if r \<noteq> FS_OK then Done (err_code s0, s0)
        else and_then (name_to_dev s0) (\<lambda>(dev, s1).
          if dev = NO_DEV then Done (err_code s1, s1)
          else if (\<Sum>i \<leftarrow> [0..<NR_INODES]. if i_count (inode_tab s1 i) > 0 \<and> i_dev (inode_tab s1 i) = dev
                                          then i_count (inode_tab s1 i) else 0) > 1
          then Done (EBUSY, s1)
          else
            let spo = find (\<lambda>sp. s_dev (super_tab s1 sp) = dev) [0..<NR_SUPERS] in
            and_then
              (if spo = None then Done s1
               else and_then (unload_bit_maps dev s1) (\<lambda>(u, s2). if u \<noteq> FS_OK then Panic ''do_umount'' else Done s2)) (\<lambda>s3.
            and_then (do_sync s3) (\<lambda>(_, s4).
              let s5 = invalidate dev s4 in
              case spo of
                None \<Rightarrow> Done (FS_EINVAL, s5)
              | Some sp \<Rightarrow>
                  (case s_imount (super_tab s5 sp) of
                     None \<Rightarrow> Stuck
                   | Some mi \<Rightarrow>
                       and_then (put_inode (Some mi) (upd_inode mi (\<lambda>x. x\<lparr>i_mount := False\<rparr>) s5)) (\<lambda>s6.
                       and_then (put_inode (s_isup (super_tab s6 sp)) s6) (\<lambda>s7.
                         Done (FS_OK, upd_super sp (\<lambda>x. x\<lparr>s_imount := None, s_dev := NO_DEV\<rparr>) s7))))))))"

subsubsection \<open>Booting (main.c)\<close>

definition get_boot_parameters :: "fs \<Rightarrow> fs" where
  "get_boot_parameters s = (case kernel_boot s of None \<Rightarrow> s | Some d \<Rightarrow> s\<lparr>root_dev := d\<rparr>)"

text \<open>
  \<open>load_ram\<close> on the Lisa: the boot block has loaded the RAM disk, or the root is on the ProFile; nothing is
  copied. \<open>report_ram\<close> is its end, behind the label \<open>got_root_dev\<close>.
\<close>

definition report_ram :: "int \<Rightarrow> fs \<Rightarrow> fs outcome" where
  "report_ram cnt s =
     (let init_org = data_org s 2; init_text_clicks = data_org s 3; init_data_clicks = data_org s 4;
          ram_clicks = word_of_int (cnt * 4) :: u16
      in if cnt > 16384 then Panic ''RAM disk is too big. # blocks = ''
         else Done (s\<lparr>sent := sent s @
                [FS_brk2 init_text_clicks init_data_clicks (init_org + init_text_clicks + init_data_clicks + ram_clicks) init_org,
                 FS_ram_size cnt]\<rparr>))"

definition load_ram :: "fs \<Rightarrow> (u16 \<times> fs) outcome" where
  "load_ram s =
     (let from_image = (data_org s 5 \<noteq> 0);
          s1 = (if from_image then s else s\<lparr>root_dev := FS_DEV_HD0\<rparr>);
          super_dev = (if from_image then FS_DEV_RAM else root_dev s1);
          cnt = (if from_image then sint (data_org s 5) else 0)
      in and_then (report_ram cnt s1) (\<lambda>s2. Done (super_dev, s2)))"

definition load_super :: "u16 \<Rightarrow> fs \<Rightarrow> fs outcome" where
  "load_super super_dev s =
     (let s1 = fold drop_super [0..<NR_SUPERS] s;
          s2 = upd_super 0 (\<lambda>x. x\<lparr>s_dev := super_dev\<rparr>) s1
      in and_then (rw_super 0 READING s2) (\<lambda>s3.
         and_then (get_inode super_dev ROOT_INODE s3) (\<lambda>(ro, s4).
           case ro of
             None \<Rightarrow> Stuck
           | Some rip \<Rightarrow>
               if \<not> is_dir s4 rip \<or> i_nlinks (inode_tab s4 rip) < 3 \<or> s_magic (super_tab s4 0) \<noteq> SUPER_MAGIC
               then Panic ''Root file system corrupted.  Possibly wrong diskette.''
               else let s5 = upd_super 0 (\<lambda>x. x\<lparr>s_imount := Some rip, s_isup := Some rip, s_rd_only := False\<rparr>) (dup_inode rip s4)
                    in and_then (load_bit_maps super_dev s5) (\<lambda>(r, s6).
                         if r \<noteq> FS_OK then Panic ''init: can't load root bit maps'' else Done s6))))"

definition init_fproc :: "int \<Rightarrow> fs \<Rightarrow> fs outcome" where
  "init_fproc i s =
     and_then (get_inode (root_dev s) ROOT_INODE (s\<lparr>fp := i\<rparr>)) (\<lambda>(ro, s1).
       case ro of
         None \<Rightarrow> Stuck
       | Some rip \<Rightarrow>
           Done (upd_fproc i (\<lambda>r. r\<lparr>fp_rootdir := ro, fp_workdir := ro, fp_realuid := 0, fp_effuid := 0, fp_realgid := 0,
             fp_effgid := 0, fp_umask := NOT 0\<rparr>) (dup_inode rip s1)))"

definition fs_init :: "fs \<Rightarrow> fs outcome" where
  "fs_init s =
     and_then (load_ram (get_boot_parameters (buf_pool s))) (\<lambda>(d, s1).
     and_then (load_super d s1) (seq_all init_fproc [0, 2]))"

subsubsection \<open>The main loop (main.c, table.c)\<close>

definition call_vector :: "(fs \<Rightarrow> (int \<times> fs) outcome) list" where
  "call_vector =
     [no_sys_fs, do_exit_fs, do_fork_fs, do_read, do_write, do_open, do_close, no_sys_fs, do_creat, do_link,
      do_unlink, no_sys_fs, do_chdir, do_time, do_mknod, do_chmod, do_chown, no_sys_fs, do_stat, do_lseek,
      no_sys_fs, do_mount, do_umount, do_set, no_sys_fs, do_stime, no_sys_fs, no_sys_fs, do_fstat, no_sys_fs,
      do_utime, no_sys_fs, no_sys_fs, do_access, no_sys_fs, no_sys_fs, do_sync, no_sys_fs, do_rename, do_mkdir,
      do_unlink, do_dup, do_pipe, do_tims, no_sys_fs, no_sys_fs, do_set, no_sys_fs, no_sys_fs, no_sys_fs,
      no_sys_fs, no_sys_fs, no_sys_fs, no_sys_fs, do_ioctl, do_fcntl, no_sys_fs, no_sys_fs, no_sys_fs, no_sys_fs,
      do_umask, do_chroot, no_sys_fs, no_sys_fs, no_sys_fs, do_unpause, no_sys_fs, do_revive, no_sys_fs, no_sys_fs]"

definition get_work_fs :: "int \<Rightarrow> int \<Rightarrow> fs_in \<Rightarrow> fs \<Rightarrow> fs outcome" where
  "get_work_fs source mtype msg s =
     (if reviving s \<noteq> 0
      then case find (\<lambda>p. fp_revived (fproc_tab s p)) [0..FS_NR_PROCS - 1] of
             None \<Rightarrow> Panic ''get_work couldn't revive anyone''
           | Some p \<Rightarrow>
               let r = fproc_tab s p in
               Done ((upd_fproc p (\<lambda>r. r\<lparr>fp_suspended := False, fp_revived := False\<rparr>) s)
                 \<lparr>who := p, fs_call := fp_fd r AND 0xFF, reviving := reviving s - 1,
                  request := (request s)\<lparr>m_i1 := drop_bit 8 (fp_fd r) AND 0xFF, m_p1 := fp_buffer r, m_i2 := fp_nbytes r\<rparr>\<rparr>)
      else Done (s\<lparr>request := msg, who := source, fs_call := mtype\<rparr>))"

definition fs_turn :: "int \<Rightarrow> int \<Rightarrow> fs_in \<Rightarrow> fs \<Rightarrow> fs outcome" where
  "fs_turn source mtype msg s =
     and_then (get_work_fs source mtype msg s) (\<lambda>s1.
       let s2 = s1\<lparr>fp := who s1, super_user := (fp_effuid (fproc_tab s1 (who s1)) = 0), dont_reply := False\<rparr> in
       and_then (if fs_call s2 < 0 \<or> fs_call s2 \<ge> 70 then Done (EBADCALL, s2) else (call_vector ! nat (fs_call s2)) s2) (\<lambda>(error, s3).
         if dont_reply s3 then Done s3
         else let s4 = reply (who s3) error s3 in if rdahed_inode s4 \<noteq> None then read_ahead s4 else Done s4))"

end
