(* ===== verification/FS_Frame.thy ===== *)
theory FS_Frame
  imports FS_Main
begin

unbundle bit_operations_syntax

section \<open>FS: what leaves the file descriptors alone\<close>

text \<open>
  The view \<open>fdv\<close> of the state has the descriptor tables of all processes, the counts of the \<open>filp\<close> slots, the
  current process and the request. \<open>ens V g m\<close> says that the outcome \<open>m\<close> has the view \<open>V\<close> when it is \<open>Done\<close>. The
  collection \<open>ens_rules\<close> decomposes the code of FS; one frame lemma for each function that leaves the view alone,
  from the requests to devices to the system calls.
\<close>

definition fdv :: "fs \<Rightarrow> (int \<Rightarrow> int \<Rightarrow> nat option) \<times> (nat \<Rightarrow> int) \<times> int \<times> fs_in" where
  "fdv s = (\<lambda>p. fp_filp (fproc_tab s p), \<lambda>f. filp_count (filp_tab s f), fp s, request s)"

lemma fdv_upd [simp]:
  "fdv (upd_buf b g s) = fdv s" "fdv (upd_inode i h s) = fdv s" "fdv (upd_super sp j s) = fdv s"
  "(\<And>x. filp_count (l x) = filp_count x) \<Longrightarrow> fdv (upd_filp f l s) = fdv s"
  "(\<And>x. fp_filp (k x) = fp_filp x) \<Longrightarrow> fdv (upd_fproc p k s) = fdv s"
  by (auto simp: fdv_def fs_upd fun_eq_iff)

lemma fdv_fields [simp]:
  "fdv (s\<lparr>buf_hash := a1\<rparr>) = fdv s" "fdv (s\<lparr>front := a2\<rparr>) = fdv s" "fdv (s\<lparr>rear := a2\<rparr>) = fdv s" "fdv (s\<lparr>buf_tab := a0\<rparr>) = fdv s"
  "fdv (s\<lparr>bufs_in_use := a3\<rparr>) = fdv s" "fdv (s\<lparr>err_code := a3\<rparr>) = fdv s" "fdv (s\<lparr>rdwt_err := a3\<rparr>) = fdv s"
  "fdv (s\<lparr>answers := a4\<rparr>) = fdv s" "fdv (s\<lparr>disk := a5\<rparr>) = fdv s" "fdv (s\<lparr>sent := a6\<rparr>) = fdv s" "fdv (s\<lparr>dont_reply := a7\<rparr>) = fdv s"
  "fdv (s\<lparr>susp_count := a3\<rparr>) = fdv s" "fdv (s\<lparr>reviving := a3\<rparr>) = fdv s" "fdv (s\<lparr>user_path := a8\<rparr>) = fdv s"
  "fdv (s\<lparr>user_mem := a9\<rparr>) = fdv s" "fdv (s\<lparr>out_msg := b1\<rparr>) = fdv s" "fdv (s\<lparr>now := a3\<rparr>) = fdv s" "fdv (s\<lparr>root_dev := b2\<rparr>) = fdv s"
  "fdv (s\<lparr>rdahed_inode := a2\<rparr>) = fdv s" "fdv (s\<lparr>rdahedpos := a3\<rparr>) = fdv s" "fdv (s\<lparr>inode_tab := b3\<rparr>) = fdv s"
  by (simp_all add: fdv_def)

definition ens :: "((int \<Rightarrow> int \<Rightarrow> nat option) \<times> (nat \<Rightarrow> int) \<times> int \<times> fs_in) \<Rightarrow> ('a \<Rightarrow> fs) \<Rightarrow> 'a outcome \<Rightarrow> bool" where
  "ens V g m \<longleftrightarrow> (\<forall>y. m = Done y \<longrightarrow> fdv (g y) = V)"

abbreviation third :: "'a \<times> 'b \<times> 'c \<Rightarrow> 'c" where "third x \<equiv> snd (snd x)"
abbreviation fourth :: "'a \<times> 'b \<times> 'c \<times> 'd \<Rightarrow> 'd" where "fourth x \<equiv> snd (snd (snd x))"

named_theorems ens_rules \<open>what leaves the file descriptors alone\<close>

lemma ens_Done [ens_rules]: "fdv (g y) = V \<Longrightarrow> ens V g (Done y)"
  by (simp add: ens_def)

lemma ens_fail [ens_rules]: "ens V g Stuck" "ens V g (Panic x)"
  by (simp_all add: ens_def)

lemma ens_if [ens_rules]: "(b \<Longrightarrow> ens V g m) \<Longrightarrow> (\<not> b \<Longrightarrow> ens V g n) \<Longrightarrow> ens V g (if b then m else n)"
  by simp

lemma ens_Let [ens_rules]: "(\<And>x. x = e \<Longrightarrow> ens V g (f x)) \<Longrightarrow> ens V g (let x = e in f x)"
  by simp

lemma ens_option [ens_rules]: "(e = None \<Longrightarrow> ens V g m) \<Longrightarrow> (\<And>x. e = Some x \<Longrightarrow> ens V g (f x)) \<Longrightarrow> ens V g (case e of None \<Rightarrow> m | Some x \<Rightarrow> f x)"
  by (simp split: option.split)

lemma ens_rw [ens_rules]: "(e = READING \<Longrightarrow> ens V g m) \<Longrightarrow> (e = WRITING \<Longrightarrow> ens V g n) \<Longrightarrow> ens V g (case e of READING \<Rightarrow> m | WRITING \<Rightarrow> n)"
  by (simp split: rw.split)

lemma ens_bind1 [ens_rules]: "ens V (\<lambda>t. t) m \<Longrightarrow> (\<And>t. fdv t = V \<Longrightarrow> ens V g (f t)) \<Longrightarrow> ens V g (and_then m f)"
  by (cases m) (auto simp: ens_def)

lemma ens_bind2 [ens_rules]: "ens V snd m \<Longrightarrow> (\<And>a t. fdv t = V \<Longrightarrow> ens V g (f a t)) \<Longrightarrow> ens V g (and_then m (\<lambda>(a, t). f a t))"
  by (cases m) (auto simp: ens_def)

lemma ens_bind3 [ens_rules]:
  "ens V third m \<Longrightarrow> (\<And>a b t. fdv t = V \<Longrightarrow> ens V g (f a b t)) \<Longrightarrow> ens V g (and_then m (\<lambda>(a, b, t). f a b t))"
  by (cases m) (auto simp: ens_def)

lemma ens_bind4 [ens_rules]:
  "ens V fourth m \<Longrightarrow> (\<And>a b c t. fdv t = V \<Longrightarrow> ens V g (f a b c t)) \<Longrightarrow> ens V g (and_then m (\<lambda>(a, b, c, t). f a b c t))"
  by (cases m) (auto simp: ens_def)

lemma ens_get: "(\<And>x. ens V g (f x)) \<Longrightarrow> ens V g (and_then (m :: 'x outcome) f)"
  by (cases m) (auto simp: ens_def)

lemmas ens_get_value [ens_rules] = ens_get [where 'x = nat] ens_get [where 'x = int] ens_get [where 'x = bool]
  ens_get [where 'x = "nat option"] ens_get [where 'x = u16] ens_get [where 'x = "nat \<times> nat \<times> int"]

lemma ens_get_dev [ens_rules]:
  "(\<And>x y z. ens V g (f x y z)) \<Longrightarrow> ens V g (and_then (m :: (nat \<times> nat \<times> int) outcome) (\<lambda>(x, y, z). f x y z))"
  by (cases m) (auto simp: ens_def)

lemma ens_seq_all [ens_rules]: "fdv s = V \<Longrightarrow> (\<And>x u. x \<in> set xs \<Longrightarrow> fdv u = V \<Longrightarrow> ens V (\<lambda>t. t) (f x u)) \<Longrightarrow> ens V (\<lambda>t. t) (seq_all f xs s)"
  by (induction xs arbitrary: s) (auto intro!: ens_rules)

lemma fdv_reply [simp]: "fdv (reply w r s) = fdv s" "fdv (suspend t s) = fdv s" "fdv (store_block u b d s) = fdv s"
  by (simp_all add: reply_def suspend_def store_block_def Let_def)

lemma ens_revive [ens_rules]: "fdv s = V \<Longrightarrow> ens V (\<lambda>t. t) (revive p b s)"
  unfolding revive_def by (intro ens_rules) simp_all

lemma ens_rw_dev [ens_rules]: "fdv s = V \<Longrightarrow> ens V snd (rw_dev as c s)"
proof (induction as arbitrary: s)
  case (Cons a as)
  then show ?case by (cases a) (auto intro!: ens_rules)
qed (auto intro!: ens_rules)

lemma fdv_transfer [simp]: "fdv (transfer rw u b bp a s) = fdv s"
  by (auto simp: transfer_def split: rw.splits dev_answer.splits option.splits)

lemma ens_dev_io [ens_rules]: "fdv s = V \<Longrightarrow> ens V snd (dev_io rw d b bp s)"
  unfolding dev_io_def by (intro ens_rules) simp_all

lemma fdv_serve_one: "fdv (snd (serve_one rw u a bp s)) = fdv s"
  by (simp add: serve_one_def Let_def split: option.splits)

lemma fdv_serve_vector: "fdv (snd (serve_vector rw u as bps s)) = fdv s"
proof (induction bps arbitrary: as s)
  case (Cons bp bps)
  then show ?case using fdv_serve_one [of rw u _ bp s] by (auto simp: Let_def split: prod.split) (metis snd_conv)+
qed simp

lemma fdv_answer_vector: "fdv (snd (answer_vector rw u a bps s)) = fdv s"
  by (simp add: answer_vector_def fdv_serve_vector split: option.splits dev_answer.splits)

lemma ens_answer_vector [ens_rules]:
  "fdv s = V \<Longrightarrow> (\<And>ns t. fdv t = V \<Longrightarrow> ens V g (f ns t)) \<Longrightarrow> ens V g (let (ns, t) = answer_vector rw u a bps s in f ns t)"
  using fdv_answer_vector [of rw u a bps s] by (auto split: prod.split)

lemma ens_dev_io_scattered [ens_rules]: "fdv s = V \<Longrightarrow> ens V snd (dev_io_scattered rw d bps s)"
  unfolding dev_io_scattered_def by (intro ens_rules) simp_all

lemma ens_rw_block [ens_rules]: "fdv s = V \<Longrightarrow> ens V (\<lambda>t. t) (rw_block bp rw s)"
  unfolding rw_block_def by (intro ens_rules) simp_all

lemma fdv_relink [simp]: "fdv (relink bp ty s) = fdv s"
  by (simp add: relink_def lru_remove_def lru_push_front_def lru_push_rear_def Let_def split: option.splits)

lemma ens_put_block [ens_rules]: "fdv s = V \<Longrightarrow> ens V (\<lambda>t. t) (put_block bo ty s)"
  unfolding put_block_def by (intro ens_rules) simp_all

lemma ens_harvest [ens_rules]: "fdv s = V \<Longrightarrow> ens V (\<lambda>t. t) (harvest rw d x s)"
  unfolding harvest_def by (cases x) (auto intro!: ens_rules split: rw.split)

lemma ens_rw_scattered [ens_rules]: "fdv s = V \<Longrightarrow> ens V (\<lambda>t. t) (rw_scattered d q rw s)"
  unfolding rw_scattered_def by (intro ens_rules) simp_all

lemma ens_flushall [ens_rules]: "fdv s = V \<Longrightarrow> ens V (\<lambda>t. t) (flushall d s)"
  unfolding flushall_def by (intro ens_rules) simp_all

lemma ens_hash_remove [ens_rules]: "fdv s = V \<Longrightarrow> ens V (\<lambda>t. t) (hash_remove bp s)"
  unfolding hash_remove_def by (auto intro!: ens_rules split: option.split)

lemma ens_get_block [ens_rules]: "fdv s = V \<Longrightarrow> ens V snd (get_block d b mode s)"
  unfolding get_block_def flush_victim_def fill_block_def by (intro ens_rules) (simp_all add: hash_insert_def Let_def)

lemma fdv_more [simp]: "fdv (zero_block bp s) = fdv s" "fdv (invalidate d s) = fdv s" "fdv (free_bit m n s) = fdv s"
  "fdv (wipe_inode i s) = fdv s" "fdv (set_zone i k z s) = fdv s" "fdv (dup_inode i s) = fdv s"
  by (auto simp: zero_block_def invalidate_def free_bit_def wipe_inode_def set_zone_def dup_inode_def Let_def split: option.split)

lemma ens_alloc_loop [ens_rules]: "fdv s = V \<Longrightarrow> ens V snd (alloc_loop n m bits bb b w s)"
  by (induction n arbitrary: b w s) (auto intro!: ens_rules simp: Let_def split: option.split prod.split)

lemma ens_alloc_bit [ens_rules]: "fdv s = V \<Longrightarrow> ens V snd (alloc_bit m a b c s)"
  unfolding alloc_bit_def by (intro ens_rules)

lemma ens_alloc_zone [ens_rules]: "fdv s = V \<Longrightarrow> ens V snd (alloc_zone d z s)"
  unfolding alloc_zone_def by (intro ens_rules) simp_all

lemma ens_free_zone [ens_rules]: "fdv s = V \<Longrightarrow> ens V (\<lambda>t. t) (free_zone d z s)"
  unfolding free_zone_def by (intro ens_rules) simp_all

lemma ens_load_map [ens_rules]:
  "fdv s = V \<Longrightarrow> (\<And>i bp u. fdv (enter i bp u) = fdv u) \<Longrightarrow> ens V (\<lambda>t. t) (load_map d b i n enter s)"
  by (induction n arbitrary: i s) (auto intro!: ens_rules)

lemma ens_load_bit_maps [ens_rules]: "fdv s = V \<Longrightarrow> ens V snd (load_bit_maps d s)"
  unfolding load_bit_maps_def or_first_def by (intro ens_rules) simp_all

lemma ens_unload_bit_maps [ens_rules]: "fdv s = V \<Longrightarrow> ens V snd (unload_bit_maps d s)"
  unfolding unload_bit_maps_def by (intro ens_rules) simp_all

lemma ens_rw_super [ens_rules]: "fdv s = V \<Longrightarrow> ens V (\<lambda>t. t) (rw_super sp rw s)"
  unfolding rw_super_def by (intro ens_rules) simp_all

lemma ens_ind_entry [ens_rules]: "fdv s = V \<Longrightarrow> ens V snd (ind_entry d b i s)"
  unfolding ind_entry_def by (intro ens_rules) simp_all

lemma ens_read_map [ens_rules]: "fdv s = V \<Longrightarrow> ens V snd (read_map i p s)"
  unfolding read_map_def by (auto intro!: ens_rules split: option.split)

lemma ens_write_map [ens_rules]: "fdv s = V \<Longrightarrow> ens V snd (write_map i p z s)"
  unfolding write_map_def enter_zone_def find_single_def by (intro ens_rules) simp_all

lemma ens_clear_zone [ens_rules]: "fdv s = V \<Longrightarrow> ens V (\<lambda>t. t) (clear_zone i p f s)"
  unfolding clear_zone_def zero_one_def by (intro ens_rules) simp_all

lemma ens_new_block [ens_rules]: "fdv s = V \<Longrightarrow> ens V snd (new_block i p s)"
  unfolding new_block_def by (intro ens_rules) simp_all

lemma ens_truncate [ens_rules]: "fdv s = V \<Longrightarrow> ens V (\<lambda>t. t) (truncate i s)"
  unfolding truncate_def free_data_zone_def free_indirect_def by (intro ens_rules) simp_all

lemma ens_clock_time [ens_rules]: "fdv s = V \<Longrightarrow> ens V snd (clock_time s)"
  unfolding clock_time_def by (intro ens_rules) simp_all

lemma ens_update_times [ens_rules]: "fdv s = V \<Longrightarrow> ens V (\<lambda>t. t) (update_times i s)"
  unfolding update_times_def by (intro ens_rules) simp_all

lemma ens_rw_inode [ens_rules]: "fdv s = V \<Longrightarrow> ens V (\<lambda>t. t) (rw_inode i rw s)"
  unfolding rw_inode_def by (intro ens_rules) simp_all

lemma ens_get_inode [ens_rules]: "fdv s = V \<Longrightarrow> ens V snd (get_inode d n s)"
  unfolding get_inode_def by (intro ens_rules) simp_all

lemma ens_put_inode [ens_rules]: "fdv s = V \<Longrightarrow> ens V (\<lambda>t. t) (put_inode i s)"
  unfolding put_inode_def discard_inode_def free_inode_def by (intro ens_rules) simp_all

lemma ens_alloc_inode [ens_rules]: "fdv s = V \<Longrightarrow> ens V snd (alloc_inode d b s)"
  unfolding alloc_inode_def by (intro ens_rules) simp_all

lemma fdv_to_user: "fdv (snd (to_user seg u v d s)) = fdv s"
  by (simp add: to_user_def Let_def)

lemma ens_to_user [ens_rules]:
  "fdv s = V \<Longrightarrow> (\<And>r t. fdv t = V \<Longrightarrow> ens V g (f r t)) \<Longrightarrow> ens V g (let (r, t) = to_user seg u v d s in f r t)"
  using fdv_to_user [of seg u v d s] by (auto split: prod.split)

lemma fdv_fetch_name: "fdv (snd (fetch_name p n fl s)) = fdv s"
  by (simp add: fetch_name_def from_user_def Let_def)

lemma ens_fetch_name [ens_rules]:
  "fdv s = V \<Longrightarrow> (\<And>r t. fdv t = V \<Longrightarrow> ens V g (f r t)) \<Longrightarrow> ens V g (let (r, t) = fetch_name p n fl s in f r t)"
  using fdv_fetch_name [of p n fl s] by (auto split: prod.split)

lemma ens_from_user [ens_rules]:
  "(\<And>r bs. ens V g (f r bs)) \<Longrightarrow> ens V g (let (r, bs) = from_user seg u v n s in f r bs)"
  by (auto split: prod.split)

lemma fdv_get_filp: "fdv (snd (get_filp k s)) = fdv s"
  by (simp add: get_filp_def)

lemma ens_get_filp [ens_rules]:
  "fdv s = V \<Longrightarrow> (\<And>fo t. fdv t = V \<Longrightarrow> ens V g (f fo t)) \<Longrightarrow> ens V g (let (fo, t) = get_filp k s in f fo t)"
  using fdv_get_filp [of k s] by (auto split: prod.split)

lemma ens_take_entry [ens_rules]: "fdv s = V \<Longrightarrow> ens V snd (take_entry d fl bp k s)"
  unfolding take_entry_def by (intro ens_rules) simp_all

definition dstate :: "dir_search \<Rightarrow> fs" where
  "dstate r = (case r of Hit n s \<Rightarrow> s | Space b k n s \<Rightarrow> s | Through n s \<Rightarrow> s)"

lemma ens_search_blocks: "fdv s = V \<Longrightarrow> ens V dstate (search_blocks d str fl old ps n s)"
  by (induction ps arbitrary: n s) (auto intro!: ens_rules simp: dstate_def split: prod.split slot_hit.split)

lemma ens_fill_entry [ens_rules]: "fdv s = V \<Longrightarrow> ens V (\<lambda>t. t) (fill_entry d str n bp k o1 o2 s)"
  unfolding fill_entry_def by (intro ens_rules) simp_all

lemma ens_bind_dir [ens_rules]:
  "ens V dstate m \<Longrightarrow> (\<And>y. fdv (dstate y) = V \<Longrightarrow> ens V g (f y)) \<Longrightarrow> ens V g (and_then m f)"
  by (cases m) (auto simp: ens_def)

lemma ens_dir_case [ens_rules]:
  "fdv (dstate y) = V \<Longrightarrow> (\<And>n t. fdv t = V \<Longrightarrow> ens V g (f1 n t)) \<Longrightarrow> (\<And>b k n t. fdv t = V \<Longrightarrow> ens V g (f2 b k n t)) \<Longrightarrow>
   (\<And>n t. fdv t = V \<Longrightarrow> ens V g (f3 n t)) \<Longrightarrow>
   ens V g (case y of Hit n t \<Rightarrow> f1 n t | Space b k n t \<Rightarrow> f2 b k n t | Through n t \<Rightarrow> f3 n t)"
  by (cases y) (simp_all add: dstate_def)

lemma ens_search_dir [ens_rules]: "fdv s = V \<Longrightarrow> ens V third (search_dir d str n fl s)"
  unfolding search_dir_def by (intro ens_rules ens_search_blocks) simp_all

lemma ens_mount_down [ens_rules]: "fdv s = V \<Longrightarrow> ens V snd (mount_down n ro s)"
proof (induction n arbitrary: ro s)
  case 0
  then show ?case by (cases ro) (auto intro!: ens_rules)
next
  case (Suc n)
  then show ?case by (cases ro) (auto intro!: ens_rules split: option.split)
qed

lemma ens_advance_up: "fdv s = V \<Longrightarrow> ens V snd (advance_up n d str s)"
proof (induction n arbitrary: d s)
  case 0
  then show ?case by (subst advance_up.simps) (intro ens_rules; auto intro!: ens_rules split: option.split)
next
  case (Suc n)
  then show ?case by (subst advance_up.simps) (intro ens_rules; auto intro!: ens_rules split: option.split)
qed

lemma ens_advance [ens_rules]: "fdv s = V \<Longrightarrow> ens V snd (advance d str s)"
  unfolding advance_def by (rule ens_advance_up)

lemma ens_walk_path [ens_rules]: "fdv s = V \<Longrightarrow> ens V third (walk_path rip path s)"
proof (induction rip path s rule: walk_path.induct)
  case (1 rip path s)
  show ?case
  proof (cases "get_name path")
    case (Done x)
    obtain str r where x: "x = (str, r)" by (cases x)
    show ?thesis
    proof (cases r)
      case None
      then show ?thesis using Done x 1(2) by (subst walk_path.simps) (auto intro!: ens_rules)
    next
      case (Some p)
      have IH: "hd p \<noteq> 0 \<Longrightarrow> advance (Some rip) str s = Done (Some ip, s1) \<Longrightarrow> put_inode (Some rip) s1 = Done s2 \<Longrightarrow>
          fdv s2 = V \<Longrightarrow> ens V third (walk_path ip p s2)" for ip s1 s2
        using 1(1) [OF Done x [symmetric] Some, of "(Some ip, s1)" "Some ip" s1 s2 ip] by simp
      have a: "ens V snd (advance (Some rip) str s)" using 1(2) by (rule ens_advance)
      show ?thesis
      proof (cases "hd p = 0")
        case True
        then show ?thesis using Done x Some 1(2) by (subst walk_path.simps) (auto intro!: ens_rules)
      next
        case False
        have "ens V third (and_then (put_inode (Some rip) s1) (\<lambda>s2. case io of None \<Rightarrow> Done (None, str, s2) | Some ip \<Rightarrow> walk_path ip p s2))"
          if "advance (Some rip) str s = Done (io, s1)" for io s1
        proof -
          have "fdv s1 = V" using a that by (simp add: ens_def)
          then have "ens V (\<lambda>t. t) (put_inode (Some rip) s1)" by (rule ens_put_inode)
          then show ?thesis using IH [OF False, of _ s1] that
            by (cases "put_inode (Some rip) s1"; cases io) (auto simp: ens_def)
        qed
        then show ?thesis using Done x Some False
          by (subst walk_path.simps) (cases "advance (Some rip) str s"; auto intro: ens_fail)
      qed
    qed
  qed (subst walk_path.simps, simp add: ens_fail)+
qed

lemma ens_last_dir [ens_rules]: "fdv s = V \<Longrightarrow> ens V third (last_dir s)"
  unfolding last_dir_def by (intro ens_rules) simp_all

lemma ens_eat_path [ens_rules]: "fdv s = V \<Longrightarrow> ens V snd (eat_path s)"
  unfolding eat_path_def by (intro ens_rules) simp_all

lemma fdv_fold: "(\<And>x u. fdv (f x u) = fdv u) \<Longrightarrow> fdv (fold f xs s) = fdv s"
  by (induction xs arbitrary: s) auto

lemma fdv_char_transfer [simp]: "fdv (char_transfer rw u p n q b a s) = fdv s"
  by (auto simp: char_transfer_def set_medium_byte_def Let_def fdv_fold split: rw.split option.split dev_answer.split)

lemma ens_dev_io_char [ens_rules]: "fdv s = V \<Longrightarrow> ens V snd (dev_io_char rw d p n q b s)"
  unfolding dev_io_char_def by (intro ens_rules) simp_all

lemma ens_prefetch [ens_rules]: "fdv s = V \<Longrightarrow> ens V snd (prefetch rip d bs bpt lim sz ex left mt pos ah q s)"
proof (induction "unat left + (if ah then 0 else unat bpt + 7)" arbitrary: left mt pos ah q s rule: less_induct)
  case less
  let ?l = "if left \<noteq> 0 then left - 1 else bpt + 6" and ?ah = "ah \<or> left = 0"
  have IH: "ens V snd (prefetch rip d bs bpt lim sz ex ?l mt' pos' ?ah q' s')"
    if "fdv s' = V" "\<not> (left = 0 \<and> ah)" for mt' pos' q' s'
    by (rule less(1)) (use that in \<open>auto simp: unat_pred_less unat_add_6\<close>)
  show ?case
    by (subst prefetch.simps, unfold Let_def) (intro ens_rules IH; use less(2) in \<open>auto intro: ens_rules\<close>)
qed

lemma ens_rahead [ens_rules]: "fdv s = V \<Longrightarrow> ens V snd (rahead rip b p n s)"
  unfolding rahead_def by (intro ens_rules) simp_all

lemma ens_read_ahead [ens_rules]: "fdv s = V \<Longrightarrow> ens V (\<lambda>t. t) (read_ahead s)"
  unfolding read_ahead_def by (intro ens_rules) simp_all

lemma ens_chunk_buf [ens_rules]: "fdv s = V \<Longrightarrow> ens V snd (chunk_buf rip p off n left rw s)"
  unfolding chunk_buf_def chunk_block_def by (intro ens_rules) simp_all

lemma ens_rw_chunk [ens_rules]: "fdv s = V \<Longrightarrow> ens V snd (rw_chunk rip p off n left rw b seg u s)"
  unfolding rw_chunk_def by (intro ens_rules) simp_all

lemma ens_release [ens_rules]: "fdv s = V \<Longrightarrow> ens V (\<lambda>t. t) (release ip c n s)"
proof -
  have "fdv s = V \<Longrightarrow> ens V (\<lambda>t. t) (release_loop ip c ps n s)" for ps
    by (induction ps arbitrary: n s) (auto intro!: ens_rules)
  then show "fdv s = V \<Longrightarrow> ens V (\<lambda>t. t) (release ip c n s)" by (simp add: release_def)
qed

lemma ens_pipe_check [ens_rules]: "fdv s = V \<Longrightarrow> ens V snd (pipe_check rip rw fl n p s)"
  unfolding pipe_check_def by (intro ens_rules) simp_all

lemma ens_rw_loop [ens_rules]: "fdv s = V \<Longrightarrow> ens V fourth (rw_loop rip rw bs fsz seg u r p b n c s)"
proof (induction "nat n" arbitrary: r p b n c s rule: less_induct)
  case less
  let ?ch = "if rw = READING \<or> bs then min (min n (1024 - p mod 1024)) (fsz - p) else min n (1024 - p mod 1024)"
  have IH: "ens V fourth (rw_loop rip rw bs fsz seg u r' p' b' (n - ?ch) c' s')"
    if "fdv s' = V" "\<not> n \<le> 0" "\<not> ((rw = READING \<or> bs) \<and> p \<ge> fsz)" for r' p' b' c' s'
  proof (rule less(1) [OF _ that(1)])
    have "0 < 1024 - p mod 1024" by simp
    then show "nat (n - ?ch) < nat n" using that by (auto simp: min_def)
  qed
  show ?case
    by (subst rw_loop.simps, unfold Let_def) (intro ens_rules IH; (assumption | simp only: snd_conv less(2) not_False_eq_True))
qed

lemma fdv_finish_rw: "fdv (snd (finish_rw f rip rw fsz r c p s)) = fdv s"
  by (simp add: finish_rw_def Let_def split: rw.split option.split prod.split)

lemma ens_rw_blocks [ens_rules]: "fdv s = V \<Longrightarrow> ens V snd (rw_blocks f rip rw fsz seg u s)"
  unfolding rw_blocks_def by (intro ens_rules) (simp_all add: fdv_finish_rw)

lemma fdv_tty_exit: "fdv (fold (\<lambda>p. upd_fproc p (\<lambda>r. if fs_tty r = d then r\<lparr>fs_tty := 0\<rparr> else r)) ps s) = fdv s"
  by (rule fdv_fold) simp

lemma ens_dev_open [ens_rules]: "fdv s = V \<Longrightarrow> ens V snd (dev_open rip s)"
  unfolding dev_open_def tty_open_def by (intro ens_rules) simp_all

lemma ens_dev_close [ens_rules]: "fdv s = V \<Longrightarrow> ens V (\<lambda>t. t) (dev_close rip s)"
  unfolding dev_close_def by (intro ens_rules)

lemma ens_tty_exit [ens_rules]: "fdv s = V \<Longrightarrow> ens V (\<lambda>t. t) (tty_exit s)"
  unfolding tty_exit_def by (intro ens_rules) (simp_all add: fdv_tty_exit)

lemma ens_do_sync [ens_rules]: "fdv s = V \<Longrightarrow> ens V snd (do_sync s)"
  unfolding do_sync_def sync_inode_def sync_super_def sync_block_def by (intro ens_rules) simp_all

lemma ens_new_node [ens_rules]: "fdv s = V \<Longrightarrow> ens V snd (new_node b z n s)"
  unfolding new_node_def by (intro ens_rules) simp_all

lemma ens_pipe_open [ens_rules]: "fdv s = V \<Longrightarrow> ens V snd (pipe_open rip b fl s)"
  unfolding pipe_open_def by (intro ens_rules) simp_all

lemma ens_open_existing [ens_rules]: "fdv s = V \<Longrightarrow> ens V snd (open_existing rip b fl s)"
  unfolding open_existing_def by (intro ens_rules) simp_all

lemma ens_do_mknod [ens_rules]: "fdv s = V \<Longrightarrow> ens V snd (do_mknod s)"
  unfolding do_mknod_def by (intro ens_rules) simp_all

lemma ens_do_mkdir [ens_rules]: "fdv s = V \<Longrightarrow> ens V snd (do_mkdir s)"
  unfolding do_mkdir_def by (intro ens_rules) simp_all

lemma ens_do_lseek [ens_rules]: "fdv s = V \<Longrightarrow> ens V snd (do_lseek s)"
  unfolding do_lseek_def by (intro ens_rules) simp_all

lemma ens_do_link [ens_rules]: "fdv s = V \<Longrightarrow> ens V snd (do_link s)"
  unfolding do_link_def by (intro ens_rules) simp_all

lemma ens_unlink_file [ens_rules]: "fdv s = V \<Longrightarrow> ens V snd (unlink_file d rip str s)"
  unfolding unlink_file_def by (intro ens_rules) simp_all

lemma ens_remove_dir [ens_rules]: "fdv s = V \<Longrightarrow> ens V snd (remove_dir d rip str s)"
  unfolding remove_dir_def by (intro ens_rules) simp_all

lemma ens_do_unlink [ens_rules]: "fdv s = V \<Longrightarrow> ens V snd (do_unlink s)"
  unfolding do_unlink_def by (intro ens_rules) simp_all

lemma ens_rename_checks [ens_rules]: "fdv s = V \<Longrightarrow> ens V snd (rename_checks n od oi nd ni s)"
  unfolding rename_checks_def by (intro ens_rules) simp_all

lemma ens_rename_entries [ens_rules]: "fdv s = V \<Longrightarrow> ens V snd (rename_entries a b od oi nd ni s)"
  unfolding rename_entries_def by (intro ens_rules) simp_all

lemma ens_do_rename [ens_rules]: "fdv s = V \<Longrightarrow> ens V snd (do_rename s)"
  unfolding do_rename_def prod.case by (intro ens_rules) simp_all

lemma ens_do_unpause [ens_rules]: "fdv s = V \<Longrightarrow> ens V snd (do_unpause s)"
  unfolding do_unpause_def cancel_io_def by (intro ens_rules) simp_all

lemma ens_do_set [ens_rules]: "fdv s = V \<Longrightarrow> ens V snd (do_set s)"
  unfolding do_set_def by (intro ens_rules) simp_all

lemma ens_do_revive [ens_rules]: "fdv s = V \<Longrightarrow> ens V snd (do_revive s)"
  unfolding do_revive_def by (intro ens_rules) simp_all

lemma ens_change [ens_rules]: "fdv s = V \<Longrightarrow> (\<And>v x. fp_filp (g v x) = fp_filp x) \<Longrightarrow> ens V snd (change h g p n s)"
  unfolding change_def by (intro ens_rules) simp_all

lemma ens_do_chdir [ens_rules]: "fdv s = V \<Longrightarrow> ens V snd (do_chdir s)"
  unfolding do_chdir_def by (intro ens_rules) simp_all

lemma ens_do_chroot [ens_rules]: "fdv s = V \<Longrightarrow> ens V snd (do_chroot s)"
  unfolding do_chroot_def by (intro ens_rules) simp_all

lemma ens_stat_inode [ens_rules]: "fdv s = V \<Longrightarrow> ens V snd (stat_inode rip f a s)"
  unfolding stat_inode_def by (intro ens_rules) (simp_all add: fdv_to_user)

lemma ens_do_stat [ens_rules]: "fdv s = V \<Longrightarrow> ens V snd (do_stat s)"
  unfolding do_stat_def by (intro ens_rules) simp_all

lemma ens_do_fstat [ens_rules]: "fdv s = V \<Longrightarrow> ens V snd (do_fstat s)"
  unfolding do_fstat_def by (intro ens_rules) simp_all

lemma ens_do_chmod [ens_rules]: "fdv s = V \<Longrightarrow> ens V snd (do_chmod s)"
  unfolding do_chmod_def by (intro ens_rules) simp_all

lemma ens_do_chown [ens_rules]: "fdv s = V \<Longrightarrow> ens V snd (do_chown s)"
  unfolding do_chown_def by (intro ens_rules) simp_all

lemma ens_do_umask [ens_rules]: "fdv s = V \<Longrightarrow> ens V snd (do_umask s)"
  unfolding do_umask_def by (intro ens_rules) simp_all

lemma ens_do_access [ens_rules]: "fdv s = V \<Longrightarrow> ens V snd (do_access s)"
  unfolding do_access_def by (intro ens_rules) simp_all

lemma ens_do_utime [ens_rules]: "fdv s = V \<Longrightarrow> ens V snd (do_utime s)"
  unfolding do_utime_def by (intro ens_rules) simp_all

lemma ens_times [ens_rules]: "fdv s = V \<Longrightarrow> ens V snd (do_time s)" "fdv s = V \<Longrightarrow> ens V snd (do_stime s)"
  "fdv s = V \<Longrightarrow> ens V snd (do_tims s)" "fdv s = V \<Longrightarrow> ens V snd (no_sys_fs s)"
  by (auto simp: do_time_def do_stime_def do_tims_def no_sys_fs_def intro!: ens_rules)

lemma ens_name_to_dev [ens_rules]: "fdv s = V \<Longrightarrow> ens V snd (name_to_dev s)"
  unfolding name_to_dev_def by (intro ens_rules) simp_all

lemma ens_mount_on [ens_rules]: "fdv s = V \<Longrightarrow> ens V snd (mount_on d sp rip s)"
  unfolding mount_on_def by (intro ens_rules) simp_all

lemma ens_do_mount [ens_rules]: "fdv s = V \<Longrightarrow> ens V snd (do_mount s)"
  unfolding do_mount_def by (intro ens_rules) simp_all

lemma ens_do_umount [ens_rules]: "fdv s = V \<Longrightarrow> ens V snd (do_umount s)"
  unfolding do_umount_def by (intro ens_rules) simp_all

lemma ens_do_ioctl [ens_rules]: "fdv s = V \<Longrightarrow> ens V snd (do_ioctl s)"
  unfolding do_ioctl_def by (rule ens_get_filp, assumption, intro ens_rules) (auto intro!: ens_rules split: prod.split)

end
