(* ===== verification/FS_Table.thy ===== *)
theory FS_Table
  imports FS_Frame
begin

unbundle bit_operations_syntax

section \<open>FS: the file descriptors of all processes\<close>

text \<open>
  The invariant that ties the descriptor tables to the counts in \<open>filp\<close>, kept by every call that changes them
  (open, creat, close, dup, fcntl, pipe, fork, exit) and so by every turn of the main loop.
\<close>

text \<open>The invariant, on the descriptor tables \<open>T\<close> and the counts \<open>C\<close>.\<close>

definition holders :: "(int \<Rightarrow> int \<Rightarrow> nat option) \<Rightarrow> nat \<Rightarrow> (int \<times> int) set" where
  "holders T f = {(p, k). is_proc p \<and> 0 \<le> k \<and> k < OPEN_MAX \<and> T p k = Some f}"

definition fd_tab :: "(int \<Rightarrow> int \<Rightarrow> nat option) \<Rightarrow> (nat \<Rightarrow> int) \<Rightarrow> bool" where
  "fd_tab T C \<longleftrightarrow> (\<forall>f < NR_FILPS. C f = int (card (holders T f))) \<and>
     (\<forall>p k f. is_proc p \<longrightarrow> 0 \<le> k \<longrightarrow> k < OPEN_MAX \<longrightarrow> T p k = Some f \<longrightarrow> f < NR_FILPS)"

definition fd_ok :: "fs \<Rightarrow> bool" where
  "fd_ok s \<longleftrightarrow> fd_tab (fst (fdv s)) (fst (snd (fdv s)))"

lemma finite_holders [simp]: "finite (holders T f)"
proof -
  have "holders T f \<subseteq> {0..31} \<times> {0..19}" by (auto simp: holders_def)
  then show ?thesis by (rule finite_subset) simp
qed

lemma holders_set:
  assumes "is_proc p" and "0 \<le> k" and "k < OPEN_MAX"
  shows "holders (T(p := (T p)(k := v))) f = (if v = Some f then insert (p, k) (holders T f) else holders T f - {(p, k)})"
  using assms by (auto simp: holders_def split: if_splits)

lemma fd_tab_enter:
  assumes "fd_tab T C" and "is_proc p" and "0 \<le> k" and "k < OPEN_MAX" and "T p k = None" and "f < NR_FILPS"
  shows "fd_tab (T(p := (T p)(k := Some f))) (C(f := C f + 1))"
proof -
  have "(p, k) \<notin> holders T g" for g using assms(5) by (simp add: holders_def)
  then show ?thesis using assms by (auto simp: fd_tab_def holders_set split: if_splits)
qed

lemma fd_tab_drop:
  assumes "fd_tab T C" and "is_proc p" and "0 \<le> k" and "k < OPEN_MAX" and "T p k = Some f"
  shows "fd_tab (T(p := (T p)(k := None))) (C(f := C f - 1))"
proof -
  have m: "(p, k) \<in> holders T g \<longleftrightarrow> g = f" for g using assms by (auto simp: holders_def)
  then have "card (holders T f) > 0" by (auto simp: card_gt_0_iff)
  then show ?thesis using assms m by (auto simp: fd_tab_def holders_set of_nat_diff split: if_splits)
qed

lemma fdv_count: "fdv (upd_filp f l s) = (fst (fdv s), (fst (snd (fdv s)))(f := filp_count (l (filp_tab s f))), snd (snd (fdv s)))"
  by (auto simp: fdv_def fs_upd fun_eq_iff)

lemma fdv_slot: "fdv (set_filp_slot p k fo s) = ((fst (fdv s))(p := (fst (fdv s) p)(k := fo)), snd (fdv s))"
  by (auto simp: fdv_def set_filp_slot_def fs_upd fun_eq_iff)

lemma fdv_set_fd: "fdv (set_fd k s) = (fst (fdv s), fst (snd (fdv s)), fp s, (request s)\<lparr>m_i1 := k\<rparr>)"
  "fdv (set_fd2 k s) = (fst (fdv s), fst (snd (fdv s)), fp s, (request s)\<lparr>m_i2 := k\<rparr>)"
  by (simp_all add: fdv_def set_fd_def set_fd2_def)

lemma fdv_parts: "fdv t = (T, C, p, q) \<Longrightarrow> fp_filp (fproc_tab t i) = T i \<and> filp_count (filp_tab t f) = C f \<and> fp t = p \<and> request t = q"
  by (auto simp: fdv_def)

lemma ensD:
  "ens V (\<lambda>t. t) m \<Longrightarrow> m = Done t \<Longrightarrow> fdv t = V" "ens V snd n \<Longrightarrow> n = Done (a, t) \<Longrightarrow> fdv t = V"
  "ens V third o3 \<Longrightarrow> o3 = Done (a, b, t) \<Longrightarrow> fdv t = V"
  by (simp_all add: ens_def)

text \<open>\<open>do_close\<close> empties the slot of the descriptor and counts one user less, or finds nothing to close.\<close>

definition closed :: "(int \<Rightarrow> int \<Rightarrow> nat option) \<times> (nat \<Rightarrow> int) \<times> int \<times> fs_in \<Rightarrow> (int \<Rightarrow> int \<Rightarrow> nat option) \<times> (nat \<Rightarrow> int) \<times> int \<times> fs_in" where
  "closed V = (case V of (T, C, p, q) \<Rightarrow>
     let k = m_i1 q in
     if k < 0 \<or> k \<ge> OPEN_MAX then V
     else case T p k of None \<Rightarrow> V | Some f \<Rightarrow> (T(p := (T p)(k := None)), C(f := C f - 1), p, q))"

lemma do_close_fdv:
  assumes "do_close s = Done (r, t)"
  shows "fdv t = closed (fdv s)"
proof -
  define T C p q where V: "T = fst (fdv s)" "C = fst (snd (fdv s))" "p = fp s" "q = request s"
  have v: "fdv s = (T, C, p, q)" by (simp add: V fdv_def)
  note pv = fdv_parts [OF v]
  define s1 where s1: "s1 = s\<lparr>err_code := EBADF\<rparr>"
  have v1: "fdv s1 = (T, C, p, q)" using v by (simp add: s1)
  show ?thesis
  proof (cases "m_i1 q < 0 \<or> m_i1 q \<ge> OPEN_MAX \<or> T p (m_i1 q) = None")
    case True
    then have "t = s1" using assms pv by (auto simp: do_close_def get_filp_def s1 Let_def split: if_splits)
    then show ?thesis using True v v1 by (auto simp: closed_def Let_def)
  next
    case False
    then obtain f where f: "T p (m_i1 q) = Some f" by auto
    obtain rip where rip: "filp_ino (filp_tab s1 f) = Some rip"
      using assms f False pv by (auto simp: do_close_def get_filp_def s1 Let_def split: option.splits)
    let ?m = "i_mode (inode_tab s1 rip) AND I_TYPE"
    obtain s3 s4 s5 s7 where st:
      "(if ?m = I_BLOCK_SPECIAL then and_then (do_sync s1) (\<lambda>(_, s2). Done (if mounted rip s2 then s2 else invalidate (i_zone (inode_tab s2 rip) 0) s2))
        else Done s1) = Done s3"
      "(if (?m = I_CHAR_SPECIAL \<or> ?m = I_BLOCK_SPECIAL) \<and> filp_count (filp_tab s3 f) = 1 then dev_close rip s3 else Done s3) = Done s4"
      "(if i_pipe (inode_tab s4 rip) then release rip (if filp_mode (filp_tab s4 f) AND R_BIT \<noteq> 0 then WRITE_CALL else READ_CALL) FS_NR_PROCS s4
        else Done s4) = Done s5"
      "(if filp_count (filp_tab (upd_filp f (\<lambda>x. x\<lparr>filp_count := filp_count x - 1\<rparr>) s5) f) = 0
        then put_inode (Some rip) (upd_filp f (\<lambda>x. x\<lparr>filp_count := filp_count x - 1\<rparr>) s5)
        else Done (upd_filp f (\<lambda>x. x\<lparr>filp_count := filp_count x - 1\<rparr>) s5)) = Done s7"
      "t = set_filp_slot (fp s7) (m_i1 q) None s7"
      using assms f False pv rip unfolding do_close_def get_filp_def s1 [symmetric] Let_def
      by (auto simp: outcome_simps)
    have "fdv s3 = (T, C, p, q)" by (rule ensD(1) [OF _ st(1)], intro ens_rules) (use v1 in simp_all)
    then have "fdv s4 = (T, C, p, q)" by (intro ensD(1) [OF _ st(2)] ens_rules)
    then have v5: "fdv s5 = (T, C, p, q)" by (intro ensD(1) [OF _ st(3)] ens_rules)
    then have "fdv (upd_filp f (\<lambda>x. x\<lparr>filp_count := filp_count x - 1\<rparr>) s5) = (T, C(f := C f - 1), p, q)"
      using fdv_parts [OF v5] by (simp add: fdv_count)
    then have v7: "fdv s7 = (T, C(f := C f - 1), p, q)" by (intro ensD(1) [OF _ st(4)] ens_rules)
    then have "fdv t = (T(p := (T p)(m_i1 q := None)), C(f := C f - 1), p, q)"
      using st(5) fdv_parts [OF v7] by (simp add: fdv_slot)
    then show ?thesis using v f False by (simp add: closed_def Let_def)
  qed
qed

lemma closed_ok: "fd_tab T C \<Longrightarrow> is_proc p \<Longrightarrow> closed (T, C, p, q) = (T', C', p', q') \<Longrightarrow> fd_tab T' C' \<and> p' = p \<and> q' = q"
  by (auto simp: closed_def Let_def fd_tab_drop split: if_splits option.splits)

lemma fd_ok_iff: "fdv s = (T, C, p, q) \<Longrightarrow> fd_ok s \<longleftrightarrow> fd_tab T C"
  by (simp add: fd_ok_def)

definition fd_kept :: "(int \<times> fs) outcome \<Rightarrow> bool" where
  "fd_kept m \<longleftrightarrow> (\<forall>r t. m = Done (r, t) \<longrightarrow> fd_ok t)"

lemma fd_kept_fail [simp]: "fd_kept Stuck" "fd_kept (Panic x)"
  by (simp_all add: fd_kept_def)

lemma fd_kept_Done [simp]: "fd_kept (Done (r, t)) \<longleftrightarrow> fd_ok t"
  by (simp add: fd_kept_def)

lemma fd_kept_ens: "ens V snd m \<Longrightarrow> V = (T, C, p, q) \<Longrightarrow> fd_tab T C \<Longrightarrow> fd_kept m"
  by (auto simp: fd_kept_def ens_def fd_ok_def)

lemma fd_kept_same: "fd_ok s \<Longrightarrow> ens (fdv s) snd m \<Longrightarrow> fd_kept m"
  by (auto simp: fd_kept_def ens_def fd_ok_def)

lemma fd_kept_bind:
  "ens V (\<lambda>t. t) m \<Longrightarrow> (\<And>t. fdv t = V \<Longrightarrow> fd_kept (f t)) \<Longrightarrow> fd_kept (and_then m f)"
  "ens V snd n \<Longrightarrow> (\<And>a t. fdv t = V \<Longrightarrow> fd_kept (g a t)) \<Longrightarrow> fd_kept (and_then n (\<lambda>(a, t). g a t))"
  by (cases m; auto simp: fd_kept_def ens_def) (cases n; auto simp: fd_kept_def ens_def)

lemma get_fd_fdv:
  assumes "get_fd start bits s = (r, k, fo, t)"
  shows "fdv t = fdv s \<and> (r = FS_OK \<longleftrightarrow> fo \<noteq> None)"
    and "fo = Some f \<Longrightarrow> start \<le> k \<and> k < OPEN_MAX \<and> f < NR_FILPS \<and> fp_filp (caller s) k = None \<and> filp_count (filp_tab s f) = 0"
  using assms by (auto simp: get_fd_def find_Some_iff split: option.splits)

lemma fd_ok_claim:
  assumes "fdv s = (T, C, p, q)" and "fd_tab T C" and "is_proc p" and "T p k = None" and "0 \<le> k" and "k < OPEN_MAX"
    and "f < NR_FILPS" and "\<And>x. filp_count (l x) = c" and "C f + 1 = c"
  shows "fdv (upd_filp f l (set_filp_slot p k (Some f) s)) = (T(p := (T p)(k := Some f)), C(f := c), p, q)"
    and "fd_tab (T(p := (T p)(k := Some f))) (C(f := c))"
proof -
  show "fdv (upd_filp f l (set_filp_slot p k (Some f) s)) = (T(p := (T p)(k := Some f)), C(f := c), p, q)"
    using assms(1) by (simp add: fdv_count fdv_slot assms(8))
  show "fd_tab (T(p := (T p)(k := Some f))) (C(f := c))"
    using fd_tab_enter [OF assms(2,3,5,6,4,7)] assms(9) by simp
qed

lemma common_open_ok:
  assumes "fd_ok s" and "is_proc (fp s)"
  shows "fd_kept (common_open oflags omode s)"
proof -
  obtain T C p q where v: "fdv s = (T, C, p, q)" by (metis prod_cases4)
  note pv = fdv_parts [OF v]
  have tab: "fd_tab T C" using assms(1) v by (simp add: fd_ok_def)
  obtain r k fo s0 where g: "get_fd 0 (mode_map oflags) s = (r, k, fo, s0)" by (metis prod_cases4)
  have v0: "fdv s0 = (T, C, p, q)" using get_fd_fdv(1) [OF g] v by simp
  let ?s1 = "set_fd k s0" and ?V = "(T, C, p, q\<lparr>m_i1 := k\<rparr>)"
  have v1: "fdv ?s1 = ?V" using fdv_parts [OF v0] v0 by (simp add: fdv_set_fd)
  show ?thesis
  proof (cases fo)
    case None
    then show ?thesis using tab v1 by (simp add: common_open_def g Let_def fd_ok_def)
  next
    case (Some f)
    note gf = get_fd_fdv(2) [OF g Some]
    have fin: "fd_kept (Done (claim_fd f rip oflags t))" if "fdv t = ?V" for t rip
    proof -
      have "m_i1 (request t) = k" "fp t = p" using fdv_parts [OF that] by simp_all
      then show ?thesis
        using fd_ok_claim [OF that tab, of k f "\<lambda>x. x\<lparr>filp_count := 1, filp_ino := Some rip, filp_flags := oflags\<rparr>" 1] gf pv assms(2)
        by (simp add: claim_fd_def fd_ok_def)
    qed
    have undo: "fd_kept (and_then (put_inode (Some rip) u) (\<lambda>s4. Done (a, s4)))" if "fdv u = ?V" for u rip a
      by (rule fd_kept_ens [OF _ refl tab], intro ens_rules) (use that in simp_all)
    have rest: "fd_kept (and_then (if exist then open_existing rip b oflags t else Done (r1, t)) (\<lambda>(r2, s3).
        if r2 \<noteq> FS_OK then and_then (put_inode (Some rip) s3) (\<lambda>s4. Done (r2, s4)) else Done (claim_fd f rip oflags s3)))"
      if "fdv t = ?V" for t exist rip b r1
    proof (rule fd_kept_bind(2) [where V = ?V])
      show "ens ?V snd (if exist then open_existing rip b oflags t else Done (r1, t))" using that by (intro ens_rules) simp_all
      fix a u assume u: "fdv u = ?V"
      show "fd_kept (if a \<noteq> FS_OK then and_then (put_inode (Some rip) u) (\<lambda>s4. Done (a, s4)) else Done (claim_fd f rip oflags u))"
        using fin [OF u] undo [OF u] by simp
    qed
    show ?thesis
    proof (cases "oflags AND O_CREAT = 0")
      case True
      have "ens ?V snd (eat_path ?s1)" by (intro ens_rules v1)
      then show ?thesis using True rest [where exist = True, unfolded if_True] tab
        by (cases "eat_path ?s1") (auto simp: common_open_def g Some Let_def ens_def fd_ok_def split: option.split)
    next
      case False
      let ?m = "new_node (I_REGULAR OR (omode AND ALL_MODES AND fp_umask (caller ?s1))) NO_ZONE 0 ?s1"
      have "ens ?V snd ?m" by (intro ens_rules v1)
      then show ?thesis using False rest [where exist = True, unfolded if_True] fin undo tab
        by (cases ?m) (auto simp: common_open_def g Some Let_def ens_def fd_ok_def split: option.split)
    qed
  qed
qed

lemma fd_ok_eq: "fdv t = fdv s \<Longrightarrow> fd_ok t = fd_ok s \<and> fp t = fp s \<and> request t = request s"
  by (simp add: fd_ok_def) (simp add: fdv_def)

lemma do_open_ok:
  assumes "fd_ok s" and "is_proc (fp s)"
  shows "fd_kept (do_open s)" and "fd_kept (do_creat s)"
proof -
  have "fd_ok t \<and> is_proc (fp t)" if "fetch_name a n fl s = (r, t)" for a n fl r t
    using fdv_fetch_name [of a n fl s] fd_ok_eq [of t s] assms that by simp
  then show "fd_kept (do_open s)" "fd_kept (do_creat s)"
    by (auto simp: do_open_def do_creat_def Let_def common_open_ok split: prod.split)
qed

lemma get_filp_fdv:
  assumes "get_filp k s = (fo, t)"
  shows "fdv t = fdv s" and "fo = Some f \<Longrightarrow> 0 \<le> k \<and> k < OPEN_MAX \<and> fp_filp (caller s) k = Some f"
  using assms by (auto simp: get_filp_def split: if_splits)

lemma dup_entry:
  assumes v: "fdv s = (T, C, p, q)" and "fd_tab T C" and "is_proc p" and "T p k = None" and "0 \<le> k" and "k < OPEN_MAX"
    and "T p j = Some f" and "0 \<le> j" and "j < OPEN_MAX"
  shows "fd_ok (set_filp_slot p k (Some f) (upd_filp f (\<lambda>x. x\<lparr>filp_count := filp_count x + 1\<rparr>) s))"
proof -
  have "f < NR_FILPS" using assms by (auto simp: fd_tab_def)
  then show ?thesis using fd_tab_enter [OF assms(2,3,5,6,4)] fdv_parts [OF v] v by (simp add: fd_ok_def fdv_slot fdv_count)
qed

lemma do_fcntl_ok:
  assumes "fd_ok s" and "is_proc (fp s)"
  shows "fd_kept (do_fcntl s)"
proof -
  obtain T C p q where v: "fdv s = (T, C, p, q)" by (metis prod_cases4)
  have tab: "fd_tab T C" using assms(1) v by (simp add: fd_ok_def)
  obtain fo s1 where g: "get_filp (m_i1 q) s = (fo, s1)" by (metis prod.exhaust)
  have v1: "fdv s1 = (T, C, p, q)" using get_filp_fdv(1) [OF g] v by simp
  note pv = fdv_parts [OF v] fdv_parts [OF v1]
  obtain r k f2 s2 where d: "get_fd (m_i3 q) 0 s1 = (r, k, f2, s2)" by (metis prod_cases4)
  have v2: "fdv s2 = (T, C, p, q)" using get_fd_fdv(1) [OF d] v1 by simp
  have dup: "fd_ok (set_filp_slot (fp s2) k (Some f) (upd_filp f (\<lambda>x. x\<lparr>filp_count := filp_count x + 1\<rparr>) s2))"
    if fo: "fo = Some f" "r = FS_OK" "0 \<le> m_i3 q" for f
  proof -
    obtain f3 where "f2 = Some f3" using get_fd_fdv(1) [OF d] fo(2) by auto
    note get_fd_fdv(2) [OF d this]
    then show ?thesis using dup_entry [OF v2 tab, of k "m_i1 q" f] get_filp_fdv(2) [OF g fo(1)] fo(3) pv fdv_parts [OF v2] assms(2) by simp
  qed
  show ?thesis using v1 v2 tab g d pv dup
    by (auto simp: do_fcntl_def Let_def fd_ok_iff split: option.split)
qed

lemma do_dup_ok:
  assumes "fd_ok s" and "is_proc (fp s)"
  shows "fd_kept (do_dup s)"
proof -
  obtain T C p q where v: "fdv s = (T, C, p, q)" by (metis prod_cases4)
  have tab: "fd_tab T C" using assms(1) v by (simp add: fd_ok_def)
  let ?fd = "m_i1 q" let ?rfd = "?fd AND NOT 0x40"
  obtain fo s1 where g: "get_filp ?rfd s = (fo, s1)" by (metis prod.exhaust)
  have v1: "fdv s1 = (T, C, p, q)" using get_filp_fdv(1) [OF g] v by simp
  note pv = fdv_parts [OF v] fdv_parts [OF v1]
  have p: "is_proc p" using assms(2) pv by simp
  have fin: "fd_ok (set_filp_slot (fp t) (m_i2 (request t)) (Some f) (upd_filp f (\<lambda>x. x\<lparr>filp_count := filp_count x + 1\<rparr>) t))"
    if "fdv t = (T', C', p, q')" "fd_tab T' C'" "T' p (m_i2 q') = None" "0 \<le> m_i2 q'" "m_i2 q' < OPEN_MAX" "T' p ?rfd = Some f" "fo = Some f"
    for t T' C' q' f
    using dup_entry [OF that(1,2) p that(3-6)] get_filp_fdv(2) [OF g that(7)] fdv_parts [OF that(1)] by simp
  show ?thesis
  proof (cases fo)
    case None
    then show ?thesis using v1 tab g pv by (simp add: do_dup_def Let_def fd_ok_iff)
  next
    case (Some f)
    note gf = get_filp_fdv(2) [OF g Some]
    consider "?fd = ?rfd" | "?fd \<noteq> ?rfd" "m_i2 q < 0 \<or> m_i2 q \<ge> OPEN_MAX \<or> ?rfd = m_i2 q" | "?fd \<noteq> ?rfd" "0 \<le> m_i2 q" "m_i2 q < OPEN_MAX" "?rfd \<noteq> m_i2 q"
      by linarith
    then show ?thesis
    proof cases
      case 1
      obtain r k f2 s2 where d: "get_fd 0 0 s1 = (r, k, f2, s2)" by (metis prod_cases4)
      have v2: "fdv s2 = (T, C, p, q)" using get_fd_fdv(1) [OF d] v1 by simp
      have v3: "fdv (set_fd2 k s2) = (T, C, p, q\<lparr>m_i2 := k\<rparr>)" using v2 fdv_parts [OF v2] by (simp add: fdv_set_fd)
      show ?thesis
      proof (cases f2)
        case None
        then show ?thesis using get_fd_fdv(1) [OF d] v3 tab 1 g d pv Some by (simp add: do_dup_def Let_def fd_ok_iff)
      next
        case (Some f3)
        then show ?thesis using get_fd_fdv(1) [OF d] get_fd_fdv(2) [OF d Some] fin [OF v3 tab] 1 g d pv \<open>fo = Some f\<close> gf
          by (simp add: do_dup_def Let_def)
      qed
    next
      case 2
      then show ?thesis using v1 tab g pv Some by (auto simp: do_dup_def Let_def fd_ok_iff)
    next
      case 3
      let ?q = "q\<lparr>m_i1 := m_i2 q\<rparr>"
      have v2: "fdv (set_fd (m_i2 q) s1) = (T, C, p, ?q)" using v1 pv by (simp add: fdv_set_fd)
      obtain T' C' where cl: "closed (T, C, p, ?q) = (T', C', p, ?q)" "fd_tab T' C'" "T' p (m_i2 q) = None" "T' p ?rfd = T p ?rfd"
        using 3 tab p fd_tab_drop [OF tab p, of "m_i2 q"] by (cases "T p (m_i2 q)") (auto simp: closed_def Let_def)
      have "fd_ok (set_filp_slot (fp t) (m_i2 (request t)) (Some f) (upd_filp f (\<lambda>x. x\<lparr>filp_count := filp_count x + 1\<rparr>) t))"
        if "do_close (set_fd (m_i2 q) s1) = Done (r, t)" for r t
        using fin [of t T' C' ?q f] do_close_fdv [OF that] v2 cl 3 gf pv Some by simp
      then show ?thesis using 3 g pv Some
        by (cases "do_close (set_fd (m_i2 q) s1)") (auto simp: do_dup_def Let_def)
    qed
  qed
qed

lemma fd_ok_unclaim:
  assumes "fdv s = (T, C, p, q)" and "fd_tab T C" and "is_proc p" and "T p k = Some f" and "0 \<le> k" and "k < OPEN_MAX" and "C f = 1"
  shows "fdv (upd_filp f (\<lambda>x. x\<lparr>filp_count := 0\<rparr>) (set_filp_slot p k None s)) = (T(p := (T p)(k := None)), C(f := 0), p, q)"
    and "fd_tab (T(p := (T p)(k := None))) (C(f := 0))"
  using assms(1) fd_tab_drop [OF assms(2,3,5,6,4)] assms(7) by (simp_all add: fdv_count fdv_slot)

lemma fd_ok_out_msg [simp]: "fd_ok (s\<lparr>out_msg := x\<rparr>) = fd_ok s"
  by (simp add: fd_ok_def)

lemma do_pipe_ok:
  assumes "fd_ok s" and "is_proc (fp s)"
  shows "fd_kept (do_pipe s)"
proof -
  obtain T C p q where v: "fdv s = (T, C, p, q)" by (metis prod_cases4)
  have tab: "fd_tab T C" using assms(1) v by (simp add: fd_ok_def)
  note pv = fdv_parts [OF v]
  have p: "is_proc p" using assms(2) pv by simp
  obtain r0 k0 fo0 s0 where g0: "get_fd 0 R_BIT s = (r0, k0, fo0, s0)" by (metis prod_cases4)
  have v0: "fdv s0 = (T, C, p, q)" using get_fd_fdv(1) [OF g0] v by simp
  show ?thesis
  proof (cases fo0)
    case None
    then show ?thesis using v0 tab g0 by (simp add: do_pipe_def Let_def fd_ok_iff)
  next
    case (Some f0)
    note h0 = get_fd_fdv(2) [OF g0 Some]
    let ?l1 = "\<lambda>x. x\<lparr>filp_count := 1\<rparr>" and ?l0 = "\<lambda>x. x\<lparr>filp_count := 0\<rparr>"
    let ?s1 = "upd_filp f0 ?l1 (set_filp_slot p k0 (Some f0) s0)"
    define T1 C1 where d1: "T1 = T(p := (T p)(k0 := Some f0))" "C1 = C(f0 := 1)"
    have v1: "fdv ?s1 = (T1, C1, p, q)" and tab1: "fd_tab T1 C1"
      using fd_ok_claim [OF v0 tab p, of k0 f0 ?l1 1] h0 pv unfolding d1 by simp_all
    obtain r1 k1 fo1 s2 where g1: "get_fd 0 W_BIT ?s1 = (r1, k1, fo1, s2)" by (metis prod_cases4)
    have v2: "fdv s2 = (T1, C1, p, q)" using get_fd_fdv(1) [OF g1] v1 by simp
    have e1: "T1 p k0 = Some f0" "C1 f0 = 1" by (simp_all add: d1)
    show ?thesis
    proof (cases fo1)
      case None
      then show ?thesis using fd_ok_unclaim [OF v2 tab1 p e1(1) _ _ e1(2)] h0 \<open>fo0 = Some f0\<close> g0 g1 pv
        by (simp add: do_pipe_def Let_def fd_ok_iff)
    next
      case (Some f1)
      note h1 = get_fd_fdv(2) [OF g1 Some]
      have new: "T1 p k1 = None" "C1 f1 = 0" using h1 fdv_parts [OF v1] by auto
      let ?s3 = "upd_filp f1 ?l1 (set_filp_slot p k1 (Some f1) s2)"
      define T2 C2 where d2: "T2 = T1(p := (T1 p)(k1 := Some f1))" "C2 = C1(f1 := 1)"
      have v3: "fdv ?s3 = (T2, C2, p, q)" and tab2: "fd_tab T2 C2"
        using fd_ok_claim [OF v2 tab1 p new(1), of f1 ?l1 1] h1 new unfolding d2 by simp_all
      have e2: "T2 p k0 = Some f0" "C2 f0 = 1" "T2 p k1 = Some f1" "C2 f1 = 1" "k0 \<noteq> k1" "f0 \<noteq> f1" using new e1 by (auto simp: d2)
      have undo: "fd_ok (upd_filp f1 ?l0 (set_filp_slot p k1 None (upd_filp f0 ?l0 (set_filp_slot p k0 None t))))"
        if "fdv t = (T2, C2, p, q)" for t
      proof -
        note u = fd_ok_unclaim [OF that tab2 p e2(1) _ _ e2(2)]
        show ?thesis using fd_ok_unclaim [OF u p, of k1 f1] h0 h1 e2 by (simp add: fd_ok_iff)
      qed
      have a: "fdv t = (T2, C2, p, q)" if "alloc_inode d b ?s3 = Done (ro, t)" for d b ro t
        by (rule ensD(2) [OF _ that], intro ens_rules v3)
      have w: "fd_ok t" if "fdv u = (T2, C2, p, q)" "rw_inode i rw u = Done t" for i rw u t
      proof -
        have "ens (T2, C2, p, q) (\<lambda>t. t) (rw_inode i rw u)" by (intro ens_rules that(1))
        then show ?thesis using ensD(1) [OF _ that(2)] tab2 by (simp add: fd_ok_iff)
      qed
      show ?thesis
      proof (cases "fp_workdir (fproc_tab ?s3 p)")
        case None
        then show ?thesis using \<open>fo0 = Some f0\<close> Some g0 g1 pv by (simp add: do_pipe_def Let_def)
      next
        case (Some wd)
        have "fd_kept (do_pipe s)" if "alloc_inode (i_dev (inode_tab ?s3 wd)) I_REGULAR ?s3 = m" for m
        proof (cases m)
          case (Done x)
          obtain ro s4 where x: "x = (ro, s4)" by (metis prod.exhaust)
          have v4: "fdv s4 = (T2, C2, p, q)" using a that Done x by blast
          have "fd_ok t" if "rw_inode i WRITING (upd_filp f1 (\<lambda>x. x\<lparr>filp_ino := Some i\<rparr>) (upd_filp f0 (\<lambda>x. x\<lparr>filp_ino := Some i\<rparr>)
              (upd_inode i (\<lambda>x. x\<lparr>i_pipe := True, i_count := i_count x + 1\<rparr>) s4))) = Done t" for i t
            by (rule w [OF _ that]) (use v4 in simp)
          then show ?thesis using that Done x undo [OF v4] \<open>fo0 = Some f0\<close> \<open>fo1 = Some f1\<close> Some g0 g1 pv
            by (cases ro) (auto simp: do_pipe_def Let_def fd_kept_def outcome_simps)
        qed (use \<open>fo0 = Some f0\<close> \<open>fo1 = Some f1\<close> Some g0 g1 pv that in \<open>simp_all add: do_pipe_def Let_def\<close>)
        then show ?thesis by blast
      qed
    qed
  qed
qed

lemma inherit_fdv:
  assumes "distinct ks" and "fdv s = (T, C, p, q)"
  shows "fdv (fold (inherit_filp c) ks s) = (T, \<lambda>f. C f + int (card {k \<in> set ks. T c k = Some f}), p, q)"
  using assms
proof (induction ks arbitrary: s C)
  case (Cons k ks)
  let ?C = "case T c k of None \<Rightarrow> C | Some f \<Rightarrow> C(f := C f + 1)"
  have "fdv (inherit_filp c k s) = (T, ?C, p, q)"
    using fdv_parts [OF Cons.prems(2)] Cons.prems(2) by (auto simp: inherit_filp_def fdv_count split: option.split)
  note IH = Cons.IH [OF _ this]
  have "{k' \<in> set (k # ks). T c k' = Some f} = (if T c k = Some f then insert k {k' \<in> set ks. T c k' = Some f} else {k' \<in> set ks. T c k' = Some f})" for f
    by auto
  then show ?case using IH Cons.prems(1) by (auto simp: fun_eq_iff split: option.split)
qed simp

lemma fd_tab_copy:
  assumes "fd_tab T C" and "is_proc p" and "is_proc c" and "\<And>k. 0 \<le> k \<Longrightarrow> k < OPEN_MAX \<Longrightarrow> T c k = None"
  shows "fd_tab (T(c := T p)) (\<lambda>f. C f + int (card {k \<in> {0..OPEN_MAX - 1}. T p k = Some f}))"
proof -
  have h: "holders (T(c := T p)) f = holders T f \<union> Pair c ` {k \<in> {0..OPEN_MAX - 1}. T p k = Some f}" for f
    using assms(2-4) by (auto simp: holders_def split: if_splits)
  have "holders T f \<inter> Pair c ` {k \<in> {0..OPEN_MAX - 1}. T p k = Some f} = {}" for f
    using assms(4) by (auto simp: holders_def)
  then have "card (holders (T(c := T p)) f) = card (holders T f) + card {k \<in> {0..OPEN_MAX - 1}. T p k = Some f}" for f
    unfolding h by (subst card_Un_disjoint [OF finite_holders finite_imageI [OF finite_subset [of _ "{0..OPEN_MAX - 1}"]]]) (auto simp: card_image inj_on_def)
  then show ?thesis using assms(1,2) by (auto simp: fd_tab_def split: if_splits)
qed

lemma do_fork_fs_ok:
  assumes "fd_ok s" and "\<And>k. 0 \<le> k \<Longrightarrow> k < OPEN_MAX \<Longrightarrow> fp_filp (fproc_tab s (m_i2 (request s))) k = None"
  shows "fd_kept (do_fork_fs s)"
proof -
  obtain T C p q where v: "fdv s = (T, C, p, q)" by (metis prod_cases4)
  have tab: "fd_tab T C" using assms(1) v by (simp add: fd_ok_def)
  note pv = fdv_parts [OF v]
  let ?c = "m_i2 q" and ?p = "m_i1 q"
  let ?s1 = "s\<lparr>fproc_tab := (fproc_tab s)(?c := fproc_tab s ?p)\<rparr>"
  have "fdv ?s1 = (T(?c := T ?p), C, p, q)" using v by (auto simp: fdv_def fun_eq_iff)
  note v2 = inherit_fdv [OF _ this, of "[0..OPEN_MAX - 1]" ?c]
  have "fd_tab (T(?c := T ?p)) (\<lambda>f. C f + int (card {k \<in> {0..OPEN_MAX - 1}. T ?p k = Some f}))" if "is_proc ?p" "is_proc ?c"
    using fd_tab_copy [OF tab that] assms(2) pv by simp
  then show ?thesis using v2 assms(1) pv by (auto simp: do_fork_fs_def Let_def fd_ok_def fd_kept_def split: option.splits)
qed

lemma close_one_ok:
  assumes v: "fdv s = (T, C, p, q)" and "fd_tab T C" and "is_proc p" and "close_one k s = Done t" and "0 \<le> k" and "k < OPEN_MAX"
  shows "\<exists>T' C' q'. fdv t = (T', C', p, q') \<and> fd_tab T' C' \<and> T' p k = None \<and> (\<forall>j. T p j = None \<longrightarrow> T' p j = None)"
proof -
  obtain r where c: "do_close (set_fd k s) = Done (r, t)" using assms(4) by (auto simp: close_one_def outcome_simps)
  have "fdv (set_fd k s) = (T, C, p, q\<lparr>m_i1 := k\<rparr>)" using fdv_parts [OF v] v by (simp add: fdv_set_fd)
  then show ?thesis using do_close_fdv [OF c] fd_tab_drop [OF assms(2,3,5,6)] assms(2,5,6)
    by (auto simp: closed_def Let_def split: option.splits)
qed

lemma close_all_ok:
  assumes "fdv s = (T, C, p, q)" and "fd_tab T C" and "is_proc p" and "seq_all close_one ks s = Done t" and "set ks \<subseteq> {0..OPEN_MAX - 1}"
  shows "\<exists>T' C' q'. fdv t = (T', C', p, q') \<and> fd_tab T' C' \<and> (\<forall>k \<in> set ks. T' p k = None) \<and> (\<forall>j. T p j = None \<longrightarrow> T' p j = None)"
  using assms
proof (induction ks arbitrary: s T C q)
  case (Cons k ks)
  obtain u where u: "close_one k s = Done u" "seq_all close_one ks u = Done t" using Cons.prems(4) by (auto simp: outcome_simps)
  obtain T1 C1 q1 where v1: "fdv u = (T1, C1, p, q1)" "fd_tab T1 C1" "T1 p k = None" "\<forall>j. T p j = None \<longrightarrow> T1 p j = None"
    using close_one_ok [OF Cons.prems(1-3) u(1)] Cons.prems(5) by auto
  show ?case using Cons.IH [OF v1(1,2) Cons.prems(3) u(2)] Cons.prems(5) v1(3,4) by (auto; metis)
qed auto

lemma ens_leave_tty: "fdv s = V \<Longrightarrow> ens V (\<lambda>t. t) (leave_tty s)"
  unfolding leave_tty_def by (intro ens_rules)

lemma ens_stop_waiting:
  assumes "fdv s = V" and "m_i1 (request s) = e"
  shows "ens V (\<lambda>t. t) (stop_waiting e s)"
proof -
  have "(request s)\<lparr>m_i1 := e\<rparr> = request s" using assms(2) by (cases "request s") simp
  then have "fdv (set_fd e (if b then s\<lparr>susp_count := n\<rparr> else s)) = V" for b n
    using assms(1) by (auto simp: fdv_def set_fd_def)
  then show ?thesis unfolding stop_waiting_def using assms(1) by (intro ens_rules) simp_all
qed

lemma do_exit_fs_ok:
  assumes "fd_ok s" and "do_exit_fs s = Done (r, t)"
  shows "fd_ok t" and "who s = MM_PROC \<Longrightarrow> 0 \<le> k \<Longrightarrow> k < OPEN_MAX \<Longrightarrow> fp_filp (fproc_tab t (m_i1 (request s))) k = None"
proof -
  have "fd_ok t \<and> (who s = MM_PROC \<longrightarrow> (\<forall>k \<in> {0..OPEN_MAX - 1}. fp_filp (fproc_tab t (m_i1 (request s))) k = None))"
  proof (cases "who s = MM_PROC")
    case False
    then show ?thesis using assms by (simp add: do_exit_fs_def)
  next
    case True
    obtain T C p q where v: "fdv s = (T, C, p, q)" by (metis prod_cases4)
    have tab: "fd_tab T C" using assms(1) v by (simp add: fd_ok_def)
    let ?e = "m_i1 q" let ?V = "(T, C, ?e, q)"
    have e: "m_i1 (request s) = ?e" using fdv_parts [OF v] by simp
    obtain s1 s2 s6 s7 s8 where st: "is_proc ?e" "leave_tty (s\<lparr>fp := ?e\<rparr>) = Done s1" "stop_waiting ?e s1 = Done s2"
      "seq_all close_one [0..OPEN_MAX - 1] s2 = Done s6" "put_inode (fp_rootdir (caller s6)) s6 = Done s7"
      "put_inode (fp_workdir (caller s7)) s7 = Done s8" "t = upd_fproc ?e (\<lambda>r. r\<lparr>fp_rootdir := None, fp_workdir := None\<rparr>) s8"
      using assms(2) True e by (auto simp: do_exit_fs_def Let_def outcome_simps split: if_splits)
    have "fdv (s\<lparr>fp := ?e\<rparr>) = ?V" using v by (simp add: fdv_def)
    then have v1: "fdv s1 = ?V" by (intro ensD(1) [OF _ st(2)] ens_leave_tty)
    have "fdv s2 = ?V" using fdv_parts [OF v1] by (intro ensD(1) [OF _ st(3)] ens_stop_waiting v1) simp_all
    then obtain T' C' q' where v6: "fdv s6 = (T', C', ?e, q')" "fd_tab T' C'" "\<forall>k \<in> {0..OPEN_MAX - 1}. T' ?e k = None"
      using close_all_ok [OF _ tab st(1,4)] by auto
    have "fdv s7 = (T', C', ?e, q')" by (rule ensD(1) [OF _ st(5)], intro ens_rules v6(1))
    then have "fdv s8 = (T', C', ?e, q')" by (intro ensD(1) [OF _ st(6)] ens_rules)
    then have "fdv t = (T', C', ?e, q')" using st(7) by simp
    then show ?thesis using v6 e fdv_parts [of t] by (auto simp: fd_ok_iff)
  qed
  then show "fd_ok t" and "who s = MM_PROC \<Longrightarrow> 0 \<le> k \<Longrightarrow> k < OPEN_MAX \<Longrightarrow> fp_filp (fproc_tab t (m_i1 (request s))) k = None" by auto
qed

lemma ens_rw_file: "fdv s = V \<Longrightarrow> ens V snd (rw_file rw seg u s)"
  unfolding rw_file_def by (intro ens_rules) (simp_all add: fdv_finish_rw)

lemma read_write_ok: "fd_ok s \<Longrightarrow> fd_kept (read_write rw s)"
  unfolding read_write_def Let_def
  by (auto intro!: fd_kept_ens [OF ens_rw_file [OF refl]] simp: fdv_def fd_ok_def)

subsection \<open>Runs of the file system\<close>

abbreviation (input) FORK_CALL :: int where "FORK_CALL \<equiv> 2"
abbreviation (input) REVIVE_CALL :: int where "REVIVE_CALL \<equiv> 67"

text \<open>MM forks into a slot whose last process has exited, which leaves it no open descriptor (\<open>do_exit_fs_ok\<close>).\<close>

definition fork_clean :: "int \<Rightarrow> int \<Rightarrow> fs_in \<Rightarrow> fs \<Rightarrow> bool" where
  "fork_clean source mtype msg s =
     (case get_work_fs source mtype msg s of
        Done s1 \<Rightarrow> fs_call s1 = FORK_CALL \<longrightarrow> list_all (\<lambda>k. fp_filp (fproc_tab s1 (m_i2 (request s1))) k = None) [0..OPEN_MAX - 1]
      | _ \<Rightarrow> True)"

inductive fs_step :: "fs \<Rightarrow> fs \<Rightarrow> bool" where
  serve: "fs_turn source mtype msg s = Done t \<Longrightarrow> is_proc source \<or> mtype = REVIVE_CALL \<Longrightarrow> fork_clean source mtype msg s \<Longrightarrow> fs_step s t"

lemma other_calls_ok:
  "list_all (\<lambda>h. \<forall>s. fd_ok s \<and> is_proc (fp s) \<longrightarrow> fd_kept (h s)) (call_vector[2 := no_sys_fs])"
proof -
  have c: "fd_kept (do_close s)" if "fd_ok s" "is_proc (fp s)" for s
  proof -
    obtain T C p q where v: "fdv s = (T, C, p, q)" by (metis prod_cases4)
    then show ?thesis using that closed_ok [of T C p q] fdv_parts [OF v]
      by (auto simp: fd_kept_def fd_ok_def dest!: do_close_fdv) (metis fst_conv prod_cases4 snd_conv)
  qed
  show ?thesis
    unfolding call_vector_def do_read_def do_write_def
    by (auto simp: c do_open_ok do_fcntl_ok do_dup_ok do_pipe_ok read_write_ok fd_kept_def [of "do_exit_fs _"] dest: do_exit_fs_ok(1)
        intro: fd_kept_same ens_rules)
qed

lemma get_work_fs_fdv:
  assumes "get_work_fs source mtype msg s = Done t"
  shows "fd_ok t = fd_ok s" and "is_proc source \<Longrightarrow> is_proc (who t)" and "mtype = REVIVE_CALL \<Longrightarrow> is_proc (who t) \<or> fs_call t = REVIVE_CALL"
proof -
  have p: "is_proc p" if "find P [0..FS_NR_PROCS - 1] = Some p" for P p
    using that by (auto simp: find_Some_iff)
  have "(\<lambda>i. fp_filp (if i = p then (fproc_tab s p)\<lparr>fp_suspended := False, fp_revived := False\<rparr> else fproc_tab s i)) = (\<lambda>i. fp_filp (fproc_tab s i))" for p
    by (simp add: fun_eq_iff)
  then show "fd_ok t = fd_ok s" using assms
    by (auto simp: get_work_fs_def Let_def fd_ok_def fdv_def fs_upd split: if_splits option.splits)
  show "is_proc source \<Longrightarrow> is_proc (who t)" and "mtype = REVIVE_CALL \<Longrightarrow> is_proc (who t) \<or> fs_call t = REVIVE_CALL"
    using assms p by (auto simp: get_work_fs_def Let_def split: if_splits option.splits)
qed

lemma length_call_vector: "length call_vector = 70"
  by (simp add: call_vector_def)

lemma fs_step_ok: "fs_step s t \<Longrightarrow> fd_ok s \<Longrightarrow> fd_ok t"
proof (induction rule: fs_step.induct)
  case (serve source mtype msg s t)
  obtain s1 where w: "get_work_fs source mtype msg s = Done s1" using serve(1) by (auto simp: fs_turn_def outcome_simps)
  let ?s2 = "s1\<lparr>fp := who s1, super_user := (fp_effuid (fproc_tab s1 (who s1)) = 0), dont_reply := False\<rparr>"
  note gw = get_work_fs_fdv [OF w]
  have ok2: "fd_ok ?s2" using gw(1) serve(4) by (simp add: fd_ok_def fdv_def)
  let ?m = "if fs_call ?s2 < 0 \<or> fs_call ?s2 \<ge> 70 then Done (EBADCALL, ?s2) else (call_vector ! nat (fs_call ?s2)) ?s2"
  have kept: "fd_kept ?m"
  proof (cases "fs_call s1 < 0 \<or> fs_call s1 \<ge> 70")
    case False
    consider "fs_call s1 = FORK_CALL" | "fs_call s1 = REVIVE_CALL" | "fs_call s1 \<noteq> FORK_CALL" "is_proc (who s1)" using gw(2,3) serve(2) by auto
    then show ?thesis
    proof cases
      case 1
      then have "fp_filp (fproc_tab s1 (m_i2 (request s1))) k = None" if "0 \<le> k" "k < OPEN_MAX" for k
        using serve(3) w that by (simp add: fork_clean_def list_all_iff)
      then show ?thesis using do_fork_fs_ok [OF ok2] 1 by (simp add: call_vector_def)
    next
      case 2
      then show ?thesis using fd_kept_same [OF ok2 ens_do_revive [OF refl]] by (simp add: call_vector_def)
    next
      case 3
      have "call_vector ! nat (fs_call s1) = call_vector[2 := no_sys_fs] ! nat (fs_call s1)" using 3(1) False by (simp add: nth_list_update_neq)
      also have "\<dots> \<in> set (call_vector[2 := no_sys_fs])" using False by (intro nth_mem) (simp add: length_call_vector nat_less_iff)
      finally have "fd_kept ((call_vector ! nat (fs_call s1)) ?s2)" using other_calls_ok ok2 3(2) by (simp add: list_all_iff)
      then show ?thesis using False by simp
    qed
  qed (use ok2 in simp)
  obtain e s3 where m: "?m = Done (e, s3)" and t: "(if dont_reply s3 then Done s3 else let s4 = reply (who s3) e s3 in if rdahed_inode s4 \<noteq> None then read_ahead s4 else Done s4) = Done t"
    using serve(1) w unfolding fs_turn_def Let_def by (auto simp: outcome_simps simp del: if_split)
  have "fd_ok s3" using kept m by (simp add: fd_kept_def)
  moreover have "fdv t = fdv s3" by (rule ensD(1) [OF _ t], intro ens_rules) simp_all
  ultimately show ?case by (simp add: fd_ok_def)
qed

lemma fs_run_ok: "fs_step\<^sup>*\<^sup>* s t \<Longrightarrow> fd_ok s \<Longrightarrow> fd_ok t"
  by (induction rule: rtranclp_induct) (auto intro: fs_step_ok)

lemma ens_load_ram: "fdv s = V \<Longrightarrow> ens V snd (load_ram s)"
  unfolding load_ram_def report_ram_def by (intro ens_rules) simp_all

lemma fdv_drop_super: "fdv (fold drop_super xs s) = fdv s"
  by (rule fdv_fold) simp

lemma ens_load_super: "fdv s = V \<Longrightarrow> ens V (\<lambda>t. t) (load_super d s)"
  unfolding load_super_def by (intro ens_rules) (simp_all add: fdv_drop_super)

lemma init_fproc_ok: "fd_ok s \<Longrightarrow> init_fproc i s = Done t \<Longrightarrow> fd_ok t"
proof -
  assume s: "fd_ok s" and t: "init_fproc i s = Done t"
  have "ens (fdv (s\<lparr>fp := i\<rparr>)) (\<lambda>t. t) (init_fproc i s)" unfolding init_fproc_def by (intro ens_rules) simp_all
  then have "fdv t = fdv (s\<lparr>fp := i\<rparr>)" using t by (simp add: ens_def)
  then show "fd_ok t" using s by (simp add: fd_ok_def fdv_def)
qed

text \<open>The boot: the tables are empty, and reading the root file system opens nothing.\<close>

lemma fs_init_ok:
  assumes "\<And>p k. fp_filp (fproc_tab s p) k = None" and "\<And>f. filp_count (filp_tab s f) = 0" and "fs_init s = Done t"
  shows "fd_ok t"
proof -
  have "fdv (get_boot_parameters (buf_pool s)) = fdv s"
    by (simp add: get_boot_parameters_def buf_pool_def fdv_def Let_def split: option.split)
  moreover have "fd_ok s" using assms(1,2) by (simp add: fd_ok_def fdv_def fd_tab_def holders_def)
  ultimately have ok: "fd_ok (get_boot_parameters (buf_pool s))" by (simp add: fd_ok_def)
  obtain d s1 s2 s3 where st: "load_ram (get_boot_parameters (buf_pool s)) = Done (d, s1)" "load_super d s1 = Done s2"
    "init_fproc 0 s2 = Done s3" "init_fproc 2 s3 = Done t"
    using assms(3) by (auto simp: fs_init_def outcome_simps)
  have "fdv s1 = fdv (get_boot_parameters (buf_pool s))" by (rule ensD(2) [OF ens_load_ram [OF refl] st(1)])
  moreover have "fdv s2 = fdv s1" by (rule ensD(1) [OF ens_load_super [OF refl] st(2)])
  ultimately have "fd_ok s2" using ok by (simp add: fd_ok_def)
  then show ?thesis using init_fproc_ok st(3,4) by blast
qed

text \<open>
  C4. After any sequence of turns of the main loop of FS, whatever the calls, the answers of the devices and
  the contents of the disks, the count of each slot of \<open>filp\<close> is the number of descriptors of all processes that
  refer to it, and no descriptor refers to a slot that is free: the sharing by \<open>dup\<close>, \<open>fcntl\<close> and \<open>fork\<close> is
  counted, and \<open>close\<close> and \<open>exit\<close> give up exactly what they held. The messages come from processes, or are
  \<open>REVIVE\<close> messages of a task, and MM forks only into slots that have no open descriptors.
\<close>

theorem fd_counts_consistent:
  assumes "fs_step\<^sup>*\<^sup>* s t" and "fd_ok s"
  shows "(\<forall>f. f < NR_FILPS \<longrightarrow> filp_count (filp_tab t f) =
            int (card {(p, k). is_proc p \<and> 0 \<le> k \<and> k < OPEN_MAX \<and> fp_filp (fproc_tab t p) k = Some f}))
       \<and> (\<forall>p k f. is_proc p \<longrightarrow> 0 \<le> k \<longrightarrow> k < OPEN_MAX \<longrightarrow> fp_filp (fproc_tab t p) k = Some f \<longrightarrow>
            f < NR_FILPS \<and> filp_count (filp_tab t f) > 0)"
proof -
  have ok: "fd_tab (\<lambda>p. fp_filp (fproc_tab t p)) (\<lambda>f. filp_count (filp_tab t f))"
    using fs_run_ok [OF assms] by (simp add: fd_ok_def fdv_def)
  have "filp_count (filp_tab t f) > 0" if "is_proc p" "0 \<le> k" "k < OPEN_MAX" "fp_filp (fproc_tab t p) k = Some f" for p k f
  proof -
    have "(p, k) \<in> holders (\<lambda>p. fp_filp (fproc_tab t p)) f" using that by (simp add: holders_def)
    then have "card (holders (\<lambda>p. fp_filp (fproc_tab t p)) f) > 0" by (auto simp: card_gt_0_iff)
    moreover have "f < NR_FILPS" using ok that by (auto simp: fd_tab_def)
    ultimately show ?thesis using ok by (simp add: fd_tab_def)
  qed
  then show ?thesis using ok by (simp add: fd_tab_def holders_def)
qed

text \<open>Process 5 duplicates its descriptor 0.\<close>

definition demo_open :: fs where
  "demo_open = demo_fs\<lparr>fproc_tab := (fproc_tab demo_fs)(5 := (fproc_tab demo_fs 5)\<lparr>fp_filp := [0 \<mapsto> 3]\<rparr>),
     filp_tab := (filp_tab demo_fs)(3 := (filp_tab demo_fs 3)\<lparr>filp_count := 1, filp_ino := Some 7\<rparr>)\<rparr>"

definition demo_dup :: fs where
  "demo_dup = (case fs_turn 5 41 (request demo_fs) demo_open of Done t \<Rightarrow> t | _ \<Rightarrow> demo_open)"

lemma demo_open_ok: "fd_ok demo_open"
proof -
  have h: "holders (fst (fdv demo_open)) f = (if f = 3 then {(5, 0)} else {})" for f
    by (auto simp: holders_def demo_open_def demo_fs_def fdv_def split: if_splits)
  show ?thesis unfolding fd_ok_def fd_tab_def h by (auto simp: demo_open_def demo_fs_def fdv_def split: if_splits)
qed

lemma demo_dup_turn: "fs_turn 5 41 (request demo_fs) demo_open = Done demo_dup"
  "fp_filp (fproc_tab demo_dup 5) 1 = Some 3"
  by (simp_all add: demo_dup_def fs_turn_def get_work_fs_def demo_open_def demo_fs_def Let_def call_vector_def do_dup_def
    get_filp_def get_fd_def upto.simps upt_rec numeral_eq_Suc set_fd2_def set_filp_slot_def fs_upd FS_State.reply_def)

lemma demo_dup_run: "fs_step\<^sup>*\<^sup>* demo_open demo_dup"
  by (rule r_into_rtranclp, rule fs_step.serve [OF demo_dup_turn(1)]) (simp_all add: fork_clean_def get_work_fs_def demo_open_def demo_fs_def)

theorem fd_counts_consistent_witness:
  "fs_step\<^sup>*\<^sup>* demo_open demo_dup \<and> fd_ok demo_open \<and> fp_filp (fproc_tab demo_dup 5) 1 = Some 3
   \<and> filp_count (filp_tab demo_dup 3) = int (card {(p, k). is_proc p \<and> 0 \<le> k \<and> k < OPEN_MAX \<and> fp_filp (fproc_tab demo_dup p) k = Some 3})"
  using fd_counts_consistent [OF demo_dup_run demo_open_ok] demo_dup_run demo_open_ok demo_dup_turn(2)
  by simp

end
