(* ===== verification/FS_Contents.thy ===== *)
theory FS_Contents
  imports FS_Main
begin

unbundle bit_operations_syntax

section \<open>FS: what a read returns\<close>

text \<open>
  The proof that \<open>do_read\<close> returns the bytes of a file. It goes up through the layers of \<open>read.c\<close>: the buffers that \<open>rahead\<close>
  takes for the blocks ahead (\<open>queued\<close>, \<open>waiting\<close>), the scattered request that fills them (\<open>loaded\<close>, \<open>arrived\<close>), the one buffer that
  \<open>rw_chunk\<close> copies from, the loop over the chunks and the end of \<open>read_write\<close>. The contents of a file are \<open>fbyte\<close>, the byte at a
  position as the zone tree and the blocks (cache over disk, \<open>view\<close>) give it.
\<close>

subsection \<open>Buffers for the blocks ahead\<close>

lemma get_block_cached:
  assumes "cache_ok s" and "dev \<noteq> NO_DEV" and "\<not> uncached dev b s"
  shows "get_block dev b mode s = get_block dev b NORMAL s"
  using assms(1)
proof (cases rule: get_block_cases [where dev = dev and block = b and mode = mode])
  case (hit i)
  show ?thesis using assms(1)
  proof (cases rule: get_block_cases [where dev = dev and block = b and mode = NORMAL])
    case hit2: (hit j)
    have "uniq s" using cache_ok_parts [OF assms(1)] by simp
    from this [unfolded uniq_def, rule_format, of i j] have "i = j" using hit(1-4) hit2(2-4) by simp
    then show ?thesis using hit hit2 by simp
  qed (use assms in auto)
qed (use assms in auto)

lemma get_hit:
  assumes "cache_inv s" and "has_room (users s)" and "disk_dev dev" and "\<not> uncached dev b s"
  obtains h s1 t where "get_block dev b mode s = Done (h, s1)" "b_dev (buf_tab s1 h) = dev" "b_data (buf_tab s1 h) = view s (dev, b)"
    "put_block (Some h) ty s1 = Done t" "mild {} s t"
proof -
  have nd: "dev \<noteq> NO_DEV" using assms(3) by (rule disk_dev_not_no_dev)
  obtain h s1 t where g: "get_block dev b NORMAL s = Done (h, s1)" "b_data (buf_tab s1 h) = view s (dev, b)"
    "put_block (Some h) ty s1 = Done t" "mild {(dev, b)} s t"
    using get_put_mild [OF assms(1-3)] by blast
  have "mild {} s t" using g(4) assms(4) by (auto simp: mild_def)
  moreover have "b_dev (buf_tab s1 h) = dev"
  proof -
    obtain h' s1' where "get_block dev b NORMAL s = Done (h', s1')" "got dev b NORMAL {} s h' s1'"
      using get_new [OF assms(1-3)] by metis
    then show ?thesis using g(1) by (simp add: got_def)
  qed
  moreover have "get_block dev b mode s = Done (h, s1)"
    using get_block_cached [OF _ nd assms(4), of mode] assms(1) g(1) by (simp add: cache_inv_def)
  ultimately show thesis using that g(2,3) by blast
qed

definition queued :: "fs \<Rightarrow> nat \<Rightarrow> fs \<Rightarrow> bool" where
  "queued s h t \<longleftrightarrow> h < NR_BUFS \<and> users s h = 0 \<and> b_dev (buf_tab t h) = NO_DEV \<and> cache_inv t \<and> rest t = rest s \<and>
     (\<forall>k. disk_dev (fst k) \<longrightarrow> view t k = view s k) \<and> users t = (users s)(h := 1) \<and>
     (\<forall>d c. d \<noteq> NO_DEV \<longrightarrow> uncached d c s \<longrightarrow> uncached d c t) \<and>
     (\<forall>i < NR_BUFS. b_count (buf_tab s i) \<noteq> 0 \<longrightarrow> b_dev (buf_tab t i) = b_dev (buf_tab s i) \<and> b_blocknr (buf_tab t i) = b_blocknr (buf_tab s i))"

lemma get_miss:
  assumes "cache_inv s" and "has_room (users s)" and "disk_dev dev" and "uncached dev b s"
  obtains h s1 where "get_block dev b PREFETCH s = Done (h, s1)" "queued s h s1" "b_blocknr (buf_tab s1 h) = b"
proof -
  have nd: "dev \<noteq> NO_DEV" using assms(3) by (rule disk_dev_not_no_dev)
  have ok: "cache_ok s" "\<forall>i < NR_BUFS. b_count (buf_tab s i) \<noteq> 255" using assms(1) by (auto simp: cache_inv_def)
  obtain h t where g: "get_block dev b PREFETCH s = Done (h, t)" "got dev b PREFETCH {} s h t" "cache_ok t" "h < NR_BUFS"
    "users t = (users s)(h := users s h + 1)" "b_count (buf_tab t h) \<noteq> 0" "b_blocknr (buf_tab t h) = b"
    "\<forall>i < NR_BUFS. b_count (buf_tab t i) \<noteq> 255" "answers t = []"
    using get_new [OF assms(1-3)] by blast
  note un = get_block_uncached [OF ok(1) g(1)]
  have "uncached dev b t" using un nd assms(4) by blast
  then have nt: "b_dev (buf_tab t h) = NO_DEV"
    using get_block_ok(4) [OF ok(1) _ g(1) ok(2)] assms(3) g(4,7) by (auto simp: uncached_def)
  have "users s h = 0" using get_block_miss(2) [OF ok(1) g(1) assms(3) nt] by (simp add: users_def)
  moreover have "cache_inv t" using g nt by (auto simp: cache_inv_def got_def coherent_def)
  ultimately have "queued s h t" using g nt un by (auto simp: queued_def got_def)
  then show thesis using that g by blast
qed

definition waiting :: "u16 \<Rightarrow> nat list \<Rightarrow> fs \<Rightarrow> bool" where
  "waiting dev q s \<longleftrightarrow> distinct q \<and> inj_on (\<lambda>i. b_blocknr (buf_tab s i)) (set q) \<and>
     (\<forall>i \<in> set q. i < NR_BUFS \<and> users s i = 1 \<and> b_dev (buf_tab s i) = NO_DEV \<and> uncached dev (b_blocknr (buf_tab s i)) s)"

abbreviation blocks_of :: "fs \<Rightarrow> nat list \<Rightarrow> u16 set" where
  "blocks_of s q \<equiv> (\<lambda>i. b_blocknr (buf_tab s i)) ` set q"

lemma users_0: "users s i = 0 \<longleftrightarrow> b_count (buf_tab s i) = 0"
  by (simp add: users_def unat_eq_zero)

lemma waiting_mild:
  assumes "waiting dev q s" and "mild B s t" and "dev \<noteq> NO_DEV" and "\<forall>b \<in> blocks_of s q. (dev, b) \<notin> B"
  shows "waiting dev q t" and "\<forall>i \<in> set q. b_blocknr (buf_tab t i) = b_blocknr (buf_tab s i)"
proof -
  have i: "b_count (buf_tab s i) \<noteq> 0 \<and> i < NR_BUFS" if "i \<in> set q" for i using that assms(1) users_0 [of s i] by (auto simp: waiting_def)
  show n: "\<forall>i \<in> set q. b_blocknr (buf_tab t i) = b_blocknr (buf_tab s i)" using i assms(2) by (auto simp: mild_def)
  have u: "users t = users s" using assms(2) by (simp add: mild_def steady_def)
  have "inj_on (\<lambda>i. b_blocknr (buf_tab t i)) (set q)" using assms(1) n by (auto simp: waiting_def inj_on_def)
  then show "waiting dev q t" using assms i n u by (auto simp: waiting_def mild_def)
qed

lemma waiting_queued:
  assumes "waiting dev q s" and "queued s h t" and "b_blocknr (buf_tab t h) = b" and "uncached dev b s" and "dev \<noteq> NO_DEV" and "b \<notin> blocks_of s q"
  shows "waiting dev (q @ [h]) t" and "\<forall>i \<in> set q. b_blocknr (buf_tab t i) = b_blocknr (buf_tab s i)"
proof -
  have i: "b_count (buf_tab s i) \<noteq> 0 \<and> i < NR_BUFS \<and> i \<noteq> h" if "i \<in> set q" for i
    using that assms(1,2) users_0 [of s i] by (auto simp: waiting_def queued_def)
  show n: "\<forall>i \<in> set q. b_blocknr (buf_tab t i) = b_blocknr (buf_tab s i)" using i assms(2) by (auto simp: queued_def)
  have "inj_on (\<lambda>i. b_blocknr (buf_tab t i)) (set (q @ [h]))" using assms(1,3,6) n by (auto simp: waiting_def inj_on_def image_iff)
  moreover have "distinct (q @ [h])" using assms(1) i by (auto simp: waiting_def)
  ultimately show "waiting dev (q @ [h]) t" using assms i n by (auto simp: waiting_def queued_def)
qed

subsection \<open>Reading ahead\<close>

text \<open>
  \<open>fblock\<close> is the block of a file at a position, 0 in a hole. \<open>file_sound\<close>: the blocks of a file are apart from each
  other and from its indirect blocks, and the size is one the zone tree can have.
\<close>

definition fblock :: "(u16 \<times> u16 \<Rightarrow> block_data) \<Rightarrow> int \<Rightarrow> inode \<Rightarrow> int \<Rightarrow> u16" where
  "fblock V scale x p =
     (let z = zone_at V scale x (zone_index scale p)
      in if z = NO_ZONE then NO_BLOCK else zone_block scale z + word_of_int (block_in_zone scale p))"

definition file_sound :: "(u16 \<times> u16 \<Rightarrow> block_data) \<Rightarrow> int \<Rightarrow> inode \<Rightarrow> bool" where
  "file_sound V scale x \<longleftrightarrow> disk_dev (i_dev x) \<and> 0 \<le> i_size x \<and> i_size x + 1024 \<le> MAX_FILE_POS \<and> zone_index scale (i_size x) < MAX_ZONES \<and>
     (\<forall>j k. 0 \<le> j \<longrightarrow> 0 \<le> k \<longrightarrow> 1024 * j < i_size x \<longrightarrow> 1024 * k < i_size x \<longrightarrow> fblock V scale x (1024 * j) \<noteq> NO_BLOCK \<longrightarrow>
        (i_dev x, fblock V scale x (1024 * j)) \<notin> file_meta V scale x \<and> (fblock V scale x (1024 * j) = fblock V scale x (1024 * k) \<longrightarrow> j = k))"

lemma view_file_cong:
  assumes "\<And>b. V (i_dev x, b) = W (i_dev x, b)"
  shows "fblock V scale x = fblock W scale x" and "file_meta V scale x = file_meta W scale x"
proof -
  have l: "leaf_zone V scale x = leaf_zone W scale x" by (simp add: leaf_zone_def fun_eq_iff assms)
  then show "fblock V scale x = fblock W scale x" by (simp add: fblock_def zone_at_def fun_eq_iff assms)
  show "file_meta V scale x = file_meta W scale x" by (simp add: file_meta_def l)
qed

lemma zone_index_bounds:
  assumes "0 \<le> p" and "p \<le> n"
  shows "0 \<le> zone_index scale p" and "zone_index scale p \<le> zone_index scale n"
proof -
  have "0 \<le> p div 1024" "p div 1024 \<le> n div 1024" using assms by (simp_all add: zdiv_mono1)
  then show "0 \<le> zone_index scale p" "zone_index scale p \<le> zone_index scale n"
    by (simp_all add: zone_index_def block_pos_def drop_bit_eq_div zdiv_mono1 pos_imp_zdiv_nonneg_iff)
qed

definition ahead_ok :: "u16 \<Rightarrow> (u16 \<times> u16 \<Rightarrow> block_data) \<Rightarrow> fs \<Rightarrow> nat list \<Rightarrow> fs \<Rightarrow> bool" where
  "ahead_ok dev V R q s \<longleftrightarrow> cache_inv s \<and> rest s = R \<and> (\<forall>k. disk_dev (fst k) \<longrightarrow> view s k = V k) \<and> waiting dev q s \<and>
     (\<forall>i < NR_BUFS. users s i < 254)"

lemma room_left:
  assumes "ahead_ok dev V R q s" and "bufs_in_use s < int NR_BUFS"
  shows "has_room (users s)"
proof -
  have "card (in_use s) < NR_BUFS" using assms by (simp add: ahead_ok_def cache_inv_def cache_ok_def cache_but_def)
  then have "in_use s \<noteq> {..<NR_BUFS}" by (metis card_lessThan less_irrefl)
  then obtain i where "i < NR_BUFS" "i \<notin> in_use s" by (auto simp: in_use_def)
  then show ?thesis using assms(1) users_0 [of s i] by (auto simp: has_room_def ahead_ok_def in_use_def)
qed

lemma ahead_mild:
  assumes "ahead_ok dev V R q s" and "mild B s t" and "dev \<noteq> NO_DEV" and "\<forall>b \<in> blocks_of s q. (dev, b) \<notin> B"
  shows "ahead_ok dev V R q t" and "blocks_of t q = blocks_of s q" and "users t = users s"
    and "\<forall>i \<in> set q. b_blocknr (buf_tab t i) = b_blocknr (buf_tab s i)"
proof -
  note w = waiting_mild [OF _ assms(2-4)]
  show "ahead_ok dev V R q t" using assms(1,2) w(1) by (auto simp: ahead_ok_def mild_def steady_def)
  show n: "\<forall>i \<in> set q. b_blocknr (buf_tab t i) = b_blocknr (buf_tab s i)" using assms(1) w(2) by (simp add: ahead_ok_def)
  then show "blocks_of t q = blocks_of s q" by (auto simp: image_iff)
  show "users t = users s" using assms(2) by (simp add: mild_def steady_def)
qed

lemma ahead_queued:
  assumes "ahead_ok dev V R q s" and "queued s h t" and "b_blocknr (buf_tab t h) = b" and "uncached dev b s" and "dev \<noteq> NO_DEV" and "b \<notin> blocks_of s q"
  shows "ahead_ok dev V R (q @ [h]) t" and "blocks_of t (q @ [h]) = insert b (blocks_of s q)"
    and "\<forall>i \<in> set q. b_blocknr (buf_tab t i) = b_blocknr (buf_tab s i)"
proof -
  note w = waiting_queued [OF _ assms(2-6)]
  show "ahead_ok dev V R (q @ [h]) t" using assms(1,2) w(1) by (auto simp: ahead_ok_def queued_def)
  show n: "\<forall>i \<in> set q. b_blocknr (buf_tab t i) = b_blocknr (buf_tab s i)" using assms(1) w(2) by (simp add: ahead_ok_def)
  then show "blocks_of t (q @ [h]) = insert b (blocks_of s q)" using assms(3) by (auto simp: image_iff)
qed

text \<open>What the loop of \<open>rahead\<close> keeps: the queue holds buffers for blocks of the file before the position.\<close>

definition grows :: "nat list \<Rightarrow> fs \<Rightarrow> nat list \<Rightarrow> fs \<Rightarrow> bool" where
  "grows q s q' t \<longleftrightarrow> set q \<subseteq> set q' \<and> (\<forall>i. i \<notin> set q' \<longrightarrow> users t i = users s i) \<and> (\<forall>i \<in> set q' - set q. users s i = 0) \<and>
     (\<forall>i \<in> set q. b_blocknr (buf_tab t i) = b_blocknr (buf_tab s i))"

lemma grows_ahead_trans: "grows q s q' t \<Longrightarrow> grows q' t q'' u \<Longrightarrow> grows q s q'' u"
  unfolding grows_def by (auto; metis)

definition early :: "(u16 \<times> u16 \<Rightarrow> block_data) \<Rightarrow> int \<Rightarrow> inode \<Rightarrow> int \<Rightarrow> u16 set \<Rightarrow> bool" where
  "early V scale x j B \<longleftrightarrow> (\<forall>b \<in> B. \<exists>k. 0 \<le> k \<and> k < j \<and> 1024 * k < i_size x \<and> b = fblock V scale x (1024 * k) \<and> b \<noteq> NO_BLOCK)"

lemma early_not_meta:
  "file_sound V scale x \<Longrightarrow> early V scale x j B \<Longrightarrow> b \<in> B \<Longrightarrow> (i_dev x, b) \<notin> file_meta V scale x"
  unfolding early_def file_sound_def by (metis (no_types, lifting))

lemma early_new:
  assumes "file_sound V scale x" and "early V scale x j B" and "0 \<le> j" and "1024 * j < i_size x" and "fblock V scale x (1024 * j) \<noteq> NO_BLOCK"
  shows "fblock V scale x (1024 * j) \<notin> B"
proof
  assume "fblock V scale x (1024 * j) \<in> B"
  then obtain k where "0 \<le> k" "k < j" "1024 * k < i_size x" "fblock V scale x (1024 * j) = fblock V scale x (1024 * k)"
    using assms(2) unfolding early_def by blast
  then show False using assms(1,3-5) unfolding file_sound_def by (metis (no_types, lifting) less_irrefl)
qed

lemma early_Suc: "early V scale x j B \<Longrightarrow> early V scale x (j + 1) B"
  unfolding early_def by (metis add_strict_increasing less_imp_le zero_less_one zless_add1_eq)

lemma early_insert:
  "early V scale x j B \<Longrightarrow> 0 \<le> j \<Longrightarrow> 1024 * j < i_size x \<Longrightarrow> fblock V scale x (1024 * j) \<noteq> NO_BLOCK \<Longrightarrow>
    early V scale x (j + 1) (insert (fblock V scale x (1024 * j)) B)"
  using early_Suc [of V scale x j B] by (auto simp: early_def)

lemma read_map_ahead:
  assumes a: "ahead_ok dev V R q s" and r: "has_room (users s)" and x: "inode_tab R rip = x" "scale_factor rip R = Done scale" "i_dev x = dev"
    and fs: "file_sound V scale x" and p: "0 \<le> p" "p < i_size x" and e: "early V scale x j (blocks_of s q)"
  obtains s1 where "read_map rip p s = Done (fblock V scale x p, s1)" "ahead_ok dev V R q s1" "blocks_of s1 q = blocks_of s q"
    "grows q s q s1" "has_room (users s1)"
proof -
  have R: "rest s = R" "cache_inv s" and V: "\<And>k. disk_dev (fst k) \<Longrightarrow> view s k = V k" using a by (auto simp: ahead_ok_def)
  have xs: "inode_tab s rip = x" using x(1) R(1) by (auto simp: rest_def)
  have sc: "scale_factor rip s = Done scale" using x(2) R(1) by (auto simp: scale_factor_def get_super_def rest_def)
  have dd: "disk_dev dev" using fs x(3) by (simp add: file_sound_def)
  have zi: "0 \<le> zone_index scale p" "zone_index scale p < MAX_ZONES"
    using zone_index_bounds [OF p(1), of "i_size x" scale] p(2) fs by (simp_all add: file_sound_def)
  have c: "fblock (view s) scale x = fblock V scale x" "file_meta (view s) scale x = file_meta V scale x"
    using V dd x(3) by (auto intro!: view_file_cong)
  obtain t where t: "read_map rip p s = Done (fblock V scale x p, t)" "mild (file_meta V scale x) s t"
    using read_map_mild [OF R(2) r _ sc zi] dd x(3) c by (auto simp: xs fblock_def [symmetric])
  have "\<forall>b \<in> blocks_of s q. (dev, b) \<notin> file_meta V scale x" using early_not_meta [OF fs e] x(3) by blast
  note m = ahead_mild [OF a t(2) disk_dev_not_no_dev [OF dd] this]
  show thesis using that [OF t(1) m(1,2)] m(3,4) r by (auto simp: grows_def)
qed

lemma prefetch_spec:
  assumes x: "inode_tab R rip = x" "scale_factor rip R = Done scale" "i_dev x = dev" and fs: "file_sound V scale x"
    and "ahead_ok dev V R q s" and "early V scale x j (blocks_of s q)" and "0 \<le> j"
  shows "\<exists>q' t. prefetch rip dev False bpt (int NR_BUFS - 2) (i_size x) ex left mt (1024 * j) ah q s = Done (q', t) \<and>
    ahead_ok dev V R q' t \<and> grows q s q' t"
  using assms(5-7)
proof (induction "unat left + (if ah then 0 else unat bpt + 7)" arbitrary: left mt j ah q s rule: less_induct)
  case less
  define l a where la: "l = (if left \<noteq> 0 then left - 1 else bpt + 6)" "a = (ah \<or> left = 0)"
  let ?b = "fblock V scale x (1024 * j)"
  have dd: "disk_dev dev" "dev \<noteq> NO_DEV" using fs x(3) disk_dev_not_no_dev by (auto simp: file_sound_def)
  have stop: "\<exists>q' t. Done (q, s) = Done (q', t) \<and> ahead_ok dev V R q' t \<and> grows q s q' t" using less(2) by (simp add: grows_def)
  show ?case
  proof (cases "1024 * j \<ge> i_size x \<or> bufs_in_use s \<ge> int NR_BUFS - 2 \<or> (left = 0 \<and> (ah \<or> i_seek (inode_tab s rip) \<or> \<not> ex))")
    case True
    then show ?thesis using stop by (subst prefetch.simps) auto
  next
    case go: False
    have IH: "\<exists>q'' t. prefetch rip dev False bpt (int NR_BUFS - 2) (i_size x) ex l mt' (1024 * (j + 1)) a q' u = Done (q'', t) \<and>
        ahead_ok dev V R q'' t \<and> grows q s q'' t"
      if "ahead_ok dev V R q' u" "early V scale x (j + 1) (blocks_of u q')" "grows q s q' u" for mt' q' u
    proof -
      have "unat l + (if a then 0 else unat bpt + 7) < unat left + (if ah then 0 else unat bpt + 7)"
        using go unat_pred_less [of left] unat_add_6 [of bpt] by (auto simp: la)
      from less(1) [OF this that(1,2)] less(4) grows_ahead_trans [OF that(3)] show ?thesis by fastforce
    qed
    have pos: "as_long (1024 * j + 1024) = 1024 * (j + 1)"
      using go less(4) fs by (subst as_long_small) (auto simp: file_sound_def)
    obtain s1 where s1: "read_map rip (1024 * j) s = Done (?b, s1)" "ahead_ok dev V R q s1" "blocks_of s1 q = blocks_of s q"
      "grows q s q s1" "has_room (users s1)"
      using read_map_ahead [OF less(2) room_left [OF less(2)] x fs _ _ less(3), of "1024 * j"] go less(4) by auto
    have e1: "early V scale x (j + 1) (blocks_of s1 q)" using early_Suc [OF less(3)] s1(3) by simp
    note I1 = IH [OF s1(2) e1 s1(4)]
    let ?P = "prefetch rip dev False bpt (int NR_BUFS - 2) (i_size x) ex"
    let ?m = "if \<not> a \<and> ?b div bpt > mt then ?b div bpt else mt"
    have eq: "?P left mt (1024 * j) ah q s =
        (if a \<and> ?b div bpt \<noteq> mt then ?P l ?m (1024 * (j + 1)) a q s1
         else if ?b \<noteq> NO_BLOCK
         then and_then (get_block dev ?b PREFETCH s1) (\<lambda>(bp, s2).
              if b_dev (buf_tab s2 bp) = NO_DEV then ?P l ?m (1024 * (j + 1)) a (q @ [bp]) s2
              else and_then (put_block (Some bp) FULL_DATA_BLOCK s2) (?P l ?m (1024 * (j + 1)) a q))
         else ?P l ?m (1024 * (j + 1)) a q s1)"
      using go by (subst prefetch.simps) (simp only: s1(1) pos Let_def and_then.simps prod.case if_False simp_thms de_Morgan_disj la)
    show ?thesis
    proof (cases "?b = NO_BLOCK")
      case True
      then show ?thesis unfolding eq using I1 by (cases a) (simp_all del: distrib_left_numeral)
    next
      case False
      have i1: "cache_inv s1" using s1(2) by (simp add: ahead_ok_def)
      show ?thesis
      proof (cases "uncached dev ?b s1")
        case True
        obtain h s2 where h: "get_block dev ?b PREFETCH s1 = Done (h, s2)" "queued s1 h s2" "b_blocknr (buf_tab s2 h) = ?b"
          using get_miss [OF i1 s1(5) dd(1) True] by blast
        have nb: "?b \<notin> blocks_of s1 q" using early_new [OF fs less(3)] go less(4) False s1(3) by auto
        note w = ahead_queued [OF s1(2) h(2,3) True dd(2) nb]
        have "early V scale x (j + 1) (blocks_of s2 (q @ [h]))"
          using early_insert [OF less(3)] go less(4) False w(2) s1(3) by auto
        moreover have "grows q s (q @ [h]) s2"
          by (rule grows_ahead_trans [OF s1(4)]) (use h(2) w(3) in \<open>auto simp: grows_def queued_def\<close>)
        ultimately have I2: "\<exists>q'' t. prefetch rip dev False bpt (int NR_BUFS - 2) (i_size x) ex l mt' (1024 * (j + 1)) a (q @ [h]) s2 = Done (q'', t) \<and>
            ahead_ok dev V R q'' t \<and> grows q s q'' t" for mt' using IH [OF w(1)] by blast
        have "b_dev (buf_tab s2 h) = NO_DEV" using h(2) by (simp add: queued_def)
        then show ?thesis unfolding eq using I1 I2 False h(1) by (cases a) (simp_all del: distrib_left_numeral)
      next
        case hit: False
        obtain h s2 t where h: "get_block dev ?b PREFETCH s1 = Done (h, s2)" "b_dev (buf_tab s2 h) = dev"
          "put_block (Some h) FULL_DATA_BLOCK s2 = Done t" "mild {} s1 t"
          using get_hit [OF i1 s1(5) dd(1) hit] by metis
        note w = ahead_mild [OF s1(2) h(4) dd(2)]
        have "grows q s q t" by (rule grows_ahead_trans [OF s1(4)]) (use w(3,4) in \<open>simp add: grows_def\<close>)
        then have I2: "\<exists>q'' t'. prefetch rip dev False bpt (int NR_BUFS - 2) (i_size x) ex l mt' (1024 * (j + 1)) a q t = Done (q'', t') \<and>
            ahead_ok dev V R q'' t' \<and> grows q s q'' t'" for mt' using IH [of q t] w(1,2) e1 by auto
        show ?thesis unfolding eq using I1 I2 False h dd(2) by (cases a) (simp_all del: distrib_left_numeral)
      qed
    qed
  qed
qed

definition loaded :: "int \<times> nat \<Rightarrow> nat list \<Rightarrow> fs \<Rightarrow> fs" where
  "loaded u q s = s\<lparr>buf_tab := (\<lambda>i. if i \<in> set q then (buf_tab s i)\<lparr>b_data := disk s u (b_blocknr (buf_tab s i))\<rparr> else buf_tab s i)\<rparr>"

lemma serve_vector_loaded: "serve_vector READING u [] q s = (map (\<lambda>_. 0) q, loaded u q s)"
proof (induction q arbitrary: s)
  case Nil
  then show ?case by (cases s) (simp add: loaded_def)
next
  case (Cons i q)
  let ?s = "upd_buf i (\<lambda>x. x\<lparr>b_data := disk s u (b_blocknr (buf_tab s i))\<rparr>) s"
  have "loaded u q ?s = loaded u (i # q) s" by (auto simp: loaded_def fs_upd fun_eq_iff)
  then show ?case using Cons [of ?s] by (simp add: serve_one_def transfer_def Let_def fs_upd)
qed

lemma loaded_fields [simp]:
  "b_dev (buf_tab (loaded u q s) i) = b_dev (buf_tab s i)" "b_blocknr (buf_tab (loaded u q s) i) = b_blocknr (buf_tab s i)"
  "b_count (buf_tab (loaded u q s) i) = b_count (buf_tab s i)" "b_dirt (buf_tab (loaded u q s) i) = b_dirt (buf_tab s i)"
  "b_data (buf_tab (loaded u q s) i) = (if i \<in> set q then disk s u (b_blocknr (buf_tab s i)) else b_data (buf_tab s i))"
  "disk (loaded u q s) = disk s" "rest (loaded u q s) = rest s" "answers (loaded u q s) = answers s" "unit_of d (loaded u q s) = unit_of d s"
  "users (loaded u q s) = users s" "uncached d c (loaded u q s) = uncached d c s"
  by (auto simp: loaded_def rest_def unit_of_def users_def uncached_def fun_eq_iff)

text \<open>The buffers of the queue hold the blocks, but nobody can find them yet.\<close>

definition arrived :: "u16 \<Rightarrow> (u16 \<times> u16 \<Rightarrow> block_data) \<Rightarrow> fs \<Rightarrow> nat list \<Rightarrow> fs \<Rightarrow> bool" where
  "arrived dev V R q s \<longleftrightarrow> ahead_ok dev V R q s \<and> (\<forall>i \<in> set q. b_data (buf_tab s i) = V (dev, b_blocknr (buf_tab s i)))"

lemma loaded_arrived:
  assumes "ahead_ok dev V R q s" and "disk_dev dev"
  shows "arrived dev V R q (loaded (unit_of dev s) q s)"
proof -
  let ?t = "loaded (unit_of dev s) q s"
  have s: "cache_ok s" "coherent {} s" "waiting dev q s" and V: "\<And>k. disk_dev (fst k) \<Longrightarrow> view s k = V k"
    using assms(1) by (auto simp: ahead_ok_def cache_inv_def)
  have nd: "b_dev (buf_tab s i) = NO_DEV" if "i \<in> set q" for i using that s(3) by (simp add: waiting_def)
  have "shape_le s ?t" by (auto simp: shape_le_def loaded_def)
  then have "cache_ok ?t" using s(1) cache_ok_shape by blast
  moreover have "coherent {} ?t" using s(2) nd by (auto simp: coherent_def)
  moreover have "view ?t k = view s k" if "disk_dev (fst k)" for k
  proof (cases k)
    case (Pair d b)
    have "d \<noteq> NO_DEV" using that Pair disk_dev_not_no_dev by auto
    then have "cached d b s = Some i \<Longrightarrow> b_data (buf_tab ?t i) = b_data (buf_tab s i)" for i
      using nd by (auto simp: cached_def find_Some_iff)
    moreover have "cached d b ?t = cached d b s" by (simp add: cached_def)
    ultimately show ?thesis by (simp add: view_def Pair split: option.split)
  qed
  moreover have "waiting dev q ?t" using s(3) by (simp add: waiting_def)
  moreover have "disk s (unit_of dev s) (b_blocknr (buf_tab s i)) = V (dev, b_blocknr (buf_tab s i))" if "i \<in> set q" for i
    using V [of "(dev, b_blocknr (buf_tab s i))"] assms(2) that s(3) by (simp add: waiting_def view_uncached)
  ultimately show ?thesis using assms(1) V by (simp add: arrived_def ahead_ok_def cache_inv_def)
qed

lemma arrived_perm: "set p = set q \<Longrightarrow> distinct p \<Longrightarrow> arrived dev V R q s \<Longrightarrow> arrived dev V R p s"
  by (simp add: arrived_def ahead_ok_def waiting_def)

text \<open>One buffer gets its device and is released.\<close>

lemma named_ok:
  assumes a: "arrived dev V R (i # q) s" and d: "disk_dev dev"
  defines "s' \<equiv> upd_buf i (\<lambda>x. x\<lparr>b_dev := dev\<rparr>) s"
  shows "ahead_ok dev V R q s'" and "arrived dev V R q s'" and "holds_block s' i (dev, b_blocknr (buf_tab s i))" and "users s' = users s"
proof -
  let ?b = "b_blocknr (buf_tab s i)"
  have s: "cache_ok s" "coherent {} s" "waiting dev (i # q) s" and V: "\<And>k. disk_dev (fst k) \<Longrightarrow> view s k = V k"
    using a by (auto simp: arrived_def ahead_ok_def cache_inv_def)
  have i: "i < NR_BUFS" "users s i = 1" "b_dev (buf_tab s i) = NO_DEV" "uncached dev ?b s" using s(3) by (auto simp: waiting_def)
  have data: "b_data (buf_tab s i) = V (dev, ?b)" using a by (simp add: arrived_def)
  have f: "b_dev (buf_tab s' j) = (if j = i then dev else b_dev (buf_tab s j))" "b_blocknr (buf_tab s' j) = b_blocknr (buf_tab s j)"
    "b_count (buf_tab s' j) = b_count (buf_tab s j)" "b_data (buf_tab s' j) = b_data (buf_tab s j)" "b_dirt (buf_tab s' j) = b_dirt (buf_tab s j)"
    "disk s' = disk s" "rest s' = rest s" "nexts s' = nexts s" "prevs s' = prevs s" "hashes s' = hashes s" "front s' = front s" "rear s' = rear s"
    "buf_hash s' = buf_hash s" "bufs_in_use s' = bufs_in_use s" "answers s' = answers s" "unit_of e s' = unit_of e s" for j e
    by (auto simp: s'_def fs_upd rest_def unit_of_def fun_eq_iff)
  have u: "users s' = users s" by (simp add: users_def f fun_eq_iff)
  then show "users s' = users s" .
  have ud: "uniq s" "devs_ok s" using cache_ok_parts [OF s(1)] by simp_all
  have us: "uniq s'" using ud(1) i(4) by (auto simp: uniq_def f uncached_def)
  have "devs_ok s'" using ud(2) d by (simp add: devs_ok_def f)
  then have "cache_ok s'" using s(1) us by (simp add: cache_ok_def cache_but_def dll_def hash_rep_def in_use_def f)
  moreover have "coherent {} s'" using s(2) data V [of "(dev, ?b)"] d view_uncached [OF i(4)] by (auto simp: coherent_def f)
  moreover have v: "view s' k = V k" if k: "disk_dev (fst k)" for k
  proof (cases rule: cached_cases [where s = s and dev = "fst k" and b = "snd k"])
    case (yes j)
    then have "j \<noteq> i" using i(3) k disk_dev_not_no_dev by auto
    then show ?thesis using yes V [OF k] view_cached [OF us, of "fst k" j "snd k"] view_cached [OF ud(1), of "fst k" j "snd k"] k disk_dev_not_no_dev
      by (cases k) (auto simp: f)
  next
    case no
    show ?thesis
    proof (cases "k = (dev, ?b)")
      case True
      then show ?thesis using view_cached [OF us disk_dev_not_no_dev [OF d] i(1), of ?b] data by (simp add: f)
    next
      case False
      then have "uncached (fst k) (snd k) s'" using no by (cases k) (auto simp: uncached_def f)
      then show ?thesis using no V [OF k] view_uncached [of "fst k" "snd k" s] view_uncached [of "fst k" "snd k" s'] by (simp add: f)
    qed
  qed
  moreover have w: "waiting dev q s'"
  proof -
    have "uncached dev (b_blocknr (buf_tab s j)) s'" if "j \<in> set q" for j
      using s(3) that by (auto simp: waiting_def uncached_def f inj_on_def)
    then show ?thesis using s(3) by (auto simp: waiting_def f u)
  qed
  ultimately show "ahead_ok dev V R q s'" using a u by (simp add: ahead_ok_def arrived_def cache_inv_def f)
  then show "arrived dev V R q s'" using a by (simp add: arrived_def f)
  show "holds_block s' i (dev, ?b)" using i users_0 [of s i] by (simp add: holds_block_def f)
qed

lemma harvest_one:
  assumes a: "arrived dev V R (i # q) s" and d: "disk_dev dev"
  shows "\<exists>t. harvest READING dev (i, 0) s = Done t \<and> arrived dev V R q t \<and> users t = (users s)(i := 0)"
proof -
  let ?s = "upd_buf i (\<lambda>x. x\<lparr>b_dev := dev\<rparr>) s"
  note n = named_ok [OF a d]
  have iv: "cache_inv ?s" and w: "waiting dev q ?s" using n(1) by (simp_all add: ahead_ok_def)
  obtain t where t: "put_block (Some i) PARTIAL_DATA_BLOCK ?s = Done t" "cache_inv t" "keeps ?s t" "users t = (users ?s)(i := users ?s i - 1)"
    using put_held [OF iv n(3)] by blast
  have i: "i < NR_BUFS" "b_count (buf_tab ?s i) \<noteq> 0" "i \<notin> set q" "users s i = 1"
    using n(3) a by (auto simp: holds_block_def arrived_def ahead_ok_def waiting_def)
  have f: "b_data (buf_tab t j) = b_data (buf_tab ?s j) \<and> b_dev (buf_tab t j) = b_dev (buf_tab ?s j) \<and> b_blocknr (buf_tab t j) = b_blocknr (buf_tab ?s j)"
    if "j \<in> set q" for j
    using put_block_served [of ?s "{}" i PARTIAL_DATA_BLOCK] iv i t(1) that by (auto simp: cache_inv_def)
  have ut: "users t = (users s)(i := 0)" using t(4) n(4) i(4) by simp
  have "waiting dev q t"
  proof -
    have "uncached dev (b_blocknr (buf_tab t j)) t" if "j \<in> set q" for j
      using put_block_uncached [OF i(2) t(1) disk_dev_not_no_dev [OF d]] w f that by (simp add: waiting_def)
    moreover have "inj_on (\<lambda>j. b_blocknr (buf_tab t j)) (set q)" using w f by (auto simp: waiting_def inj_on_def)
    ultimately show ?thesis using w f ut n(4) i(3) by (auto simp: waiting_def)
  qed
  then have "ahead_ok dev V R q t" using n(1) t ut n(4) by (auto simp: ahead_ok_def keeps_def)
  then have "arrived dev V R q t" using n(2) f by (simp add: arrived_def)
  then show ?thesis using t(1) ut by (simp add: harvest_def)
qed

lemma harvest_all:
  assumes "arrived dev V R q s" and "disk_dev dev"
  shows "\<exists>t. seq_all (harvest READING dev) (zip q (map (\<lambda>_. 0) q)) s = Done t \<and> ahead_ok dev V R [] t \<and>
    users t = (\<lambda>i. if i \<in> set q then 0 else users s i)"
  using assms(1)
proof (induction q arbitrary: s)
  case Nil
  then show ?case by (simp add: arrived_def)
next
  case (Cons i q)
  obtain u where u: "harvest READING dev (i, 0) s = Done u" "arrived dev V R q u" "users u = (users s)(i := 0)"
    using harvest_one [OF Cons.prems assms(2)] by blast
  from Cons.IH [OF u(2)] u(1,3) show ?case by (auto simp: fun_eq_iff)
qed

lemma rw_scattered_reads:
  assumes a: "ahead_ok dev V R q s" and d: "disk_dev dev" and "q \<noteq> []"
  shows "\<exists>t. rw_scattered dev q READING s = Done t \<and> ahead_ok dev V R [] t \<and> users t = (\<lambda>i. if i \<in> set q then 0 else users s i)"
proof -
  let ?p = "shell_sort (\<lambda>i. b_blocknr (buf_tab s i)) q"
  have w: "waiting dev q s" "answers s = []" using a by (auto simp: ahead_ok_def cache_inv_def)
  have "set q \<subseteq> {..<NR_BUFS}" "distinct q" using w(1) by (auto simp: waiting_def)
  then have len: "length q \<le> NR_BUFS" using card_mono [of "{..<NR_BUFS}" "set q"] distinct_card [of q] by simp
  have m: "mset ?p = mset q" by (rule shell_sort_sorts)
  then have p: "set ?p = set q" "distinct ?p" using \<open>distinct q\<close> by (auto dest: mset_eq_setD mset_eq_imp_distinct_iff)
  have "ahead_ok dev V R ?p s" using a p by (simp add: ahead_ok_def waiting_def)
  then have "arrived dev V R ?p (loaded (unit_of dev s) ?p s)" using d by (rule loaded_arrived)
  from harvest_all [OF this d] obtain t where t: "seq_all (harvest READING dev) (zip ?p (map (\<lambda>_. 0) ?p)) (loaded (unit_of dev s) ?p s) = Done t"
    "ahead_ok dev V R [] t" "users t = (\<lambda>i. if i \<in> set ?p then 0 else users (loaded (unit_of dev s) ?p s) i)" by blast
  have "dev_io_scattered READING dev ?p s = Done (map (\<lambda>_. 0) ?p, loaded (unit_of dev s) ?p s)"
    using w(2) d by (simp add: dev_io_scattered_def find_dev_disk answer_vector_def rep_status_def answers_idem serve_vector_loaded)
  then have "rw_scattered dev q READING s = Done t" using t(1) len assms(3) by (simp add: rw_scattered_def Let_def)
  then show ?thesis using t p(1) by (simp add: fun_eq_iff)
qed

lemma fblock_aligned: "fblock V scale x (1024 * (p div 1024)) = fblock V scale x p"
  by (simp add: fblock_def zone_index_def block_in_zone_def block_pos_def Let_def)

text \<open>\<open>rahead\<close> gives the block that was asked for, whatever else it reads.\<close>

lemma rahead_spec:
  assumes iv: "cache_inv s" and r: "has_room (users s)" and sc: "scale_factor rip s = Done scale"
    and fs: "file_sound (view s) scale (inode_tab s rip)" and ty: "i_mode (inode_tab s rip) AND I_TYPE \<noteq> I_BLOCK_SPECIAL"
    and p: "0 \<le> p" "p < i_size (inode_tab s rip)" and b: "fblock (view s) scale (inode_tab s rip) p = b" "b \<noteq> NO_BLOCK"
  shows "\<exists>h t. rahead rip b p left s = Done (h, t) \<and> cache_inv t \<and> holds_block t h (i_dev (inode_tab s rip), b) \<and>
    b_data (buf_tab t h) = view s (i_dev (inode_tab s rip), b) \<and> (\<forall>k. disk_dev (fst k) \<longrightarrow> view t k = view s k) \<and>
    users t = (users s)(h := users s h + 1) \<and> rest t = rest s"
proof -
  let ?x = "inode_tab s rip" let ?dev = "i_dev ?x"
  have d: "disk_dev ?dev" using fs by (simp add: file_sound_def)
  note nd = disk_dev_not_no_dev [OF d]
  have get: "\<exists>h t. get_block ?dev b NORMAL u = Done (h, t) \<and> cache_inv t \<and> holds_block t h (?dev, b) \<and> b_data (buf_tab t h) = view u (?dev, b) \<and>
      (\<forall>k. disk_dev (fst k) \<longrightarrow> view t k = view u k) \<and> users t = (users u)(h := users u h + 1) \<and> rest t = rest u"
    if "cache_inv u" "users u = users s" for u
    using blocks.get_law [of u "(?dev, b)"] that d r by auto
  show ?thesis
  proof (cases "uncached ?dev b s")
    case False
    have "cache_ok s" using iv by (simp add: cache_inv_def)
    then have "get_block ?dev b PREFETCH s = get_block ?dev b NORMAL s" using nd False by (rule get_block_cached)
    moreover obtain h t where g: "get_block ?dev b NORMAL s = Done (h, t)" "cache_inv t" "holds_block t h (?dev, b)" "b_data (buf_tab t h) = view s (?dev, b)"
      "\<forall>k. disk_dev (fst k) \<longrightarrow> view t k = view s k" "users t = (users s)(h := users s h + 1)" "rest t = rest s"
      using get [OF iv refl] by blast
    ultimately have "rahead rip b p left s = Done (h, t)" using ty nd by (simp add: rahead_def Let_def holds_block_def)
    then show ?thesis using g by blast
  next
    case True
    obtain h s1 where h: "get_block ?dev b PREFETCH s = Done (h, s1)" "queued s h s1" "b_blocknr (buf_tab s1 h) = b"
      using get_miss [OF iv r d True] by blast
    have q: "b_dev (buf_tab s1 h) = NO_DEV" "users s1 = (users s)(h := 1)" "users s h = 0" using h(2) by (auto simp: queued_def)
    have a0: "ahead_ok ?dev (view s) (rest s) [] s" using iv r by (auto simp: ahead_ok_def waiting_def has_room_def)
    note a1 = ahead_queued [OF a0 h(2,3) True nd, simplified]
    have j: "0 \<le> p div 1024" "1024 * (p div 1024) < i_size ?x" using p by simp_all
    have e: "early (view s) scale ?x (p div 1024 + 1) (blocks_of s1 [h])"
      using j b h(3) fblock_aligned [of "view s" scale ?x p] by (auto simp: early_def intro!: exI [of _ "p div 1024"])
    have R: "inode_tab (rest s) rip = ?x" "scale_factor rip (rest s) = Done scale" using sc by (simp_all add: rest_def scale_factor_def get_super_def)
    have pf: "\<exists>q' t. prefetch rip ?dev False bpt (int NR_BUFS - 2) (i_size ?x) ex l mt (1024 * (p div 1024 + 1)) False [h] s1 = Done (q', t) \<and>
        ahead_ok ?dev (view s) (rest s) q' t \<and> grows [h] s1 q' t" for bpt ex l mt
      using prefetch_spec [OF R refl fs a1(1) e] j(1) by simp
    have fin: "\<exists>h2 t. and_then (rw_scattered ?dev q' READING u) (get_block ?dev b NORMAL) = Done (h2, t) \<and> cache_inv t \<and>
        holds_block t h2 (?dev, b) \<and> b_data (buf_tab t h2) = view s (?dev, b) \<and> (\<forall>k. disk_dev (fst k) \<longrightarrow> view t k = view s k) \<and>
        users t = (users s)(h2 := users s h2 + 1) \<and> rest t = rest s"
      if u: "ahead_ok ?dev (view s) (rest s) q' u" "grows [h] s1 q' u" for q' u
    proof -
      have hq: "h \<in> set q'" using u(2) by (simp add: grows_def)
      obtain v where v: "rw_scattered ?dev q' READING u = Done v" "ahead_ok ?dev (view s) (rest s) [] v"
        "users v = (\<lambda>i. if i \<in> set q' then 0 else users u i)" using rw_scattered_reads [OF u(1) d] hq by fastforce
      have "users v = users s" using v(3) u(2) q hq by (auto simp: grows_def fun_eq_iff split: if_splits)
      then show ?thesis using get [of v] v d by (auto simp: ahead_ok_def)
    qed
    have pos: "as_long (p - uint (word_of_int (p mod 1024) :: u16) + 1024) = 1024 * (p div 1024 + 1)"
    proof -
      have "uint (word_of_int (p mod 1024) :: u16) = p mod 1024" by (simp add: uint_word_of_int mod_pos_pos_trivial)
      then have "p - uint (word_of_int (p mod 1024) :: u16) + 1024 = 1024 * (p div 1024 + 1)" by (simp add: minus_mod_eq_mult_div)
      moreover have "1024 * (p div 1024 + 1) \<le> MAX_FILE_POS" using j fs by (simp add: file_sound_def)
      ultimately show ?thesis using j by (simp add: as_long_small)
    qed
    define bpt ex l mt where "bpt = guess_track False (i_size ?x)"
      and "ex = (((word_of_int (p mod 1024) :: u16) + left) mod 1024 = 0)"
      and "l = ((word_of_int (p mod 1024) :: u16) + left + 1023) div 1024 - 1" and "mt = b div bpt"
    obtain q' u where u: "prefetch rip ?dev False bpt (int NR_BUFS - 2) (i_size ?x) ex l mt (1024 * (p div 1024 + 1)) False [h] s1 = Done (q', u)"
      "ahead_ok ?dev (view s) (rest s) q' u" "grows [h] s1 q' u" using pf by blast
    have "rahead rip b p left s = and_then (rw_scattered ?dev q' READING u) (get_block ?dev b NORMAL)"
      using u(1) h(1,3) q(1) ty unfolding rahead_def Let_def pos bpt_def ex_def l_def mt_def by simp
    then show ?thesis using fin [OF u(2,3)] by simp
  qed
qed

subsection \<open>Reading one chunk\<close>

lemma uncached_dev:
  obtains e where "disk_dev e" "uncached e b s"
proof -
  let ?D = "map (\<lambda>m. 0x100 + of_nat m :: u16) [0..<31]"
  have d: "distinct ?D" "list_all disk_dev ?D" by code_simp+
  have "\<not> set ?D \<subseteq> (\<lambda>i. b_dev (buf_tab s i)) ` {..<NR_BUFS}"
  proof
    assume "set ?D \<subseteq> (\<lambda>i. b_dev (buf_tab s i)) ` {..<NR_BUFS}"
    then have "card (set ?D) \<le> card ((\<lambda>i. b_dev (buf_tab s i)) ` {..<NR_BUFS})" by (rule card_mono [rotated]) simp
    also have "\<dots> \<le> NR_BUFS" using card_image_le [of "{..<NR_BUFS}"] by simp
    finally show False using distinct_card [OF d(1)] by simp
  qed
  then obtain e where "e \<in> set ?D" "e \<notin> (\<lambda>i. b_dev (buf_tab s i)) ` {..<NR_BUFS}" by blast
  then have "disk_dev e" "uncached e b s" using d(2) by (auto simp only: list_all_iff uncached_def)
  then show thesis by (rule that)
qed

text \<open>A scratch buffer is what a prefetch of an unknown device would give.\<close>

lemma get_scratch:
  assumes "cache_inv s" and "has_room (users s)"
  obtains h s1 where "get_block NO_DEV b NORMAL s = Done (h, s1)" "queued s h s1"
proof -
  obtain e where e: "disk_dev e" "uncached e b s" using uncached_dev .
  note ne = disk_dev_not_no_dev [OF e(1)]
  have "hash_rep {} s" using assms(1) by (simp add: cache_inv_def cache_ok_def cache_but_def)
  then have "hash_search e b s = Done None"
    by (rule hash_search_cases [where dev = e and block = b]) (use e(2) ne in \<open>auto simp: uncached_def\<close>)
  moreover have "hash_search NO_DEV b s = Done None" by (simp add: hash_search_def)
  moreover have "fill_block NO_DEV b NORMAL = fill_block e b PREFETCH" by (simp add: fill_block_def fun_eq_iff)
  ultimately have "get_block NO_DEV b NORMAL s = get_block e b PREFETCH s" by (simp add: get_block_def)
  then show thesis using get_miss [OF assms e] that by metis
qed

lemma users_inv [simp]:
  "cache_inv (s\<lparr>user_mem := m\<rparr>) = cache_inv s" "view (s\<lparr>user_mem := m\<rparr>) = view s" "users (s\<lparr>user_mem := m\<rparr>) = users s"
  "holds_block (s\<lparr>user_mem := m\<rparr>) = holds_block s" "rest (s\<lparr>user_mem := m\<rparr>) = (rest s)\<lparr>user_mem := m\<rparr>"
proof -
  have "cache_ok (s\<lparr>user_mem := m\<rparr>) = cache_ok s"
    by (simp add: cache_ok_def cache_but_def dll_def hash_rep_def uniq_def devs_ok_def in_use_def)
  then show "cache_inv (s\<lparr>user_mem := m\<rparr>) = cache_inv s" by (simp add: cache_inv_def coherent_def unit_of_def)
  show "view (s\<lparr>user_mem := m\<rparr>) = view s" by (simp add: fun_eq_iff view_def cached_def unit_of_def cong: option.case_cong)
qed (simp_all add: fun_eq_iff users_def holds_block_def rest_def)

lemma zero_scratch:
  assumes q: "queued s h t"
  shows "cache_inv (zero_block h t)" and "holds_block (zero_block h t) h (NO_DEV, b_blocknr (buf_tab t h))"
    and "disk_dev (fst k) \<Longrightarrow> view (zero_block h t) k = view s k" and "users (zero_block h t) = (users s)(h := 1)"
    and "rest (zero_block h t) = rest s" and "j < BLOCK_SIZE \<Longrightarrow> b_data (buf_tab (zero_block h t) h) j = 0"
proof -
  let ?d = "\<lambda>k. if k < BLOCK_SIZE then 0 else b_data (buf_tab t h) k"
  have z: "zero_block h t = fill h ?d t" by (simp add: zero_block_def fill_def fs_upd)
  have t: "cache_inv t" "b_dev (buf_tab t h) = NO_DEV" "h < NR_BUFS" "users t = (users s)(h := 1)" "rest t = rest s"
    "\<And>k. disk_dev (fst k) \<Longrightarrow> view t k = view s k" using q by (auto simp: queued_def)
  have u: "users (zero_block h t) = users t" by (simp add: z users_def fun_eq_iff)
  have "coherent {} (fill h ?d t)" using t(1,2) by (auto simp: cache_inv_def coherent_def)
  then show "cache_inv (zero_block h t)" using t(1) by (simp add: z cache_inv_def fill_ok)
  show "users (zero_block h t) = (users s)(h := 1)" using u t(4) by simp
  then have "b_count (buf_tab t h) \<noteq> 0" using t(4) users_0 [of t h] by simp
  then show "holds_block (zero_block h t) h (NO_DEV, b_blocknr (buf_tab t h))" using t(2,3) by (simp add: z holds_block_def)
  show "rest (zero_block h t) = rest s" using t(5) by (simp add: z)
  show "j < BLOCK_SIZE \<Longrightarrow> b_data (buf_tab (zero_block h t) h) j = 0" by (simp add: z)
  assume k: "disk_dev (fst k)"
  have "cached (fst k) (snd k) (fill h ?d t) = cached (fst k) (snd k) t" by (simp add: cached_def)
  moreover have "cached (fst k) (snd k) t \<noteq> Some h" using t(2) disk_dev_not_no_dev [OF k] by (auto simp: cached_def find_Some_iff)
  ultimately show "view (zero_block h t) k = view s k" using t(6) [OF k] by (auto simp: z view_def split: option.splits)
qed

text \<open>The byte of a file at a position, and the memory of a process after bytes have been stored in it.\<close>

definition fbyte :: "(u16 \<times> u16 \<Rightarrow> block_data) \<Rightarrow> int \<Rightarrow> inode \<Rightarrow> int \<Rightarrow> u8" where
  "fbyte V scale x p =
     (let b = fblock V scale x p in if b = NO_BLOCK then 0 else V (i_dev x, b) (nat (p mod 1024)))"

definition fbytes :: "(u16 \<times> u16 \<Rightarrow> block_data) \<Rightarrow> int \<Rightarrow> inode \<Rightarrow> int \<Rightarrow> nat \<Rightarrow> u8 list" where
  "fbytes V scale x p n = map (\<lambda>k. fbyte V scale x (p + int k)) [0..<n]"

definition store_user :: "int \<Rightarrow> int \<Rightarrow> u32 \<Rightarrow> u8 list \<Rightarrow> (int \<Rightarrow> int \<Rightarrow> int \<Rightarrow> u8) \<Rightarrow> int \<Rightarrow> int \<Rightarrow> int \<Rightarrow> u8" where
  "store_user seg u vir data m =
     m(u := (m u)(seg := fold (\<lambda>k mm. mm(uint (vir + of_nat k) := data ! k)) [0..<length data] (m u seg)))"

lemma to_user_ok:
  "copy_result s seg u (uint vir) (int (length data)) = FS_OK \<Longrightarrow> to_user seg u vir data s = (FS_OK, s\<lparr>user_mem := store_user seg u vir data (user_mem s)\<rparr>)"
  by (simp add: to_user_def store_user_def Let_def)

lemma store_user_append:
  "store_user seg u a (d @ e) m = store_user seg u (a + of_nat (length d)) e (store_user seg u a d m)"
proof -
  have "fold (\<lambda>k mm. mm(uint (a + of_nat k) := (d @ e) ! k)) [0..<length d + length e] M =
      fold (\<lambda>k mm. mm(uint (a + of_nat (length d) + of_nat k) := e ! k)) [0..<length e]
        (fold (\<lambda>k mm. mm(uint (a + of_nat k) := d ! k)) [0..<length d] M)" for M :: "int \<Rightarrow> u8"
  proof -
    have u: "[0..<length d + length e] = [0..<length d] @ map (\<lambda>k. length d + k) [0..<length e]"
      using upt_add_eq_append [of 0 "length d" "length e"] map_add_upt [of "length d" "length e"] by (simp add: add.commute)
    have "fold (\<lambda>k mm. mm(uint (a + of_nat k) := (d @ e) ! k)) [0..<length d] M = fold (\<lambda>k mm. mm(uint (a + of_nat k) := d ! k)) [0..<length d] M"
      by (rule fold_cong) (simp_all add: nth_append)
    then show ?thesis unfolding u fold_append fold_map comp_def by (simp add: nth_append_length_plus add.assoc)
  qed
  then show ?thesis by (simp add: store_user_def)
qed

lemma fbytes_block:
  assumes "0 \<le> p" and "nat (p mod 1024) + n \<le> 1024"
  shows "fbytes V scale x p n = (let b = fblock V scale x p in
    map (\<lambda>j. if b = NO_BLOCK then 0 else V (i_dev x, b) j) [nat (p mod 1024)..<nat (p mod 1024) + n])"
proof -
  have "fbyte V scale x (p + int k) = (let b = fblock V scale x p in if b = NO_BLOCK then 0 else V (i_dev x, b) (nat (p mod 1024) + k))" if "k < n" for k
  proof -
    have m: "p mod 1024 + int k < 1024" using assms that by linarith
    have q: "(p + int k) div 1024 = p div 1024" using m by (simp add: div_add1_eq [of p] div_pos_pos_trivial mod_pos_pos_trivial)
    then have b: "fblock V scale x (p + int k) = fblock V scale x p"
      using fblock_aligned [of V scale x p] fblock_aligned [of V scale x "p + int k"] by simp
    have "(p + int k) mod 1024 = p mod 1024 + int k" using q div_mult_mod_eq [of p 1024] div_mult_mod_eq [of "p + int k" 1024] by linarith
    then show ?thesis by (simp add: fbyte_def b nat_add_distrib Let_def)
  qed
  then show ?thesis unfolding fbytes_def Let_def by (intro nth_equalityI) simp_all
qed

lemma file_sound_cong:
  assumes "\<And>b. V (i_dev x, b) = W (i_dev x, b)"
  shows "file_sound V scale x = file_sound W scale x"
  using view_file_cong [of V x W scale] assms by (simp add: file_sound_def)

text \<open>What a read leaves of the state: the cache serves as before, and only the memory of the process has changed.\<close>

definition after_read :: "fs \<Rightarrow> (int \<Rightarrow> int \<Rightarrow> int \<Rightarrow> u8) \<Rightarrow> fs \<Rightarrow> bool" where
  "after_read s m t \<longleftrightarrow> cache_inv t \<and> users t = users s \<and> (\<forall>k. disk_dev (fst k) \<longrightarrow> view t k = view s k) \<and> rest t = (rest s)\<lparr>user_mem := m\<rparr>"

lemma chunk_buf_reads:
  assumes iv: "cache_inv s" and r: "has_room (users s)" and sc: "scale_factor rip s = Done scale"
    and fs: "file_sound (view s) scale (inode_tab s rip)" and ty: "i_mode (inode_tab s rip) AND I_TYPE \<noteq> I_BLOCK_SPECIAL"
    and p: "0 \<le> p" "p < i_size (inode_tab s rip)"
  shows "\<exists>h t. chunk_buf rip p off n left READING s = Done (Some h, t) \<and> cache_inv t \<and> (\<exists>k. holds_block t h k) \<and>
    (\<forall>j < BLOCK_SIZE. b_data (buf_tab t h) j = (let b = fblock (view s) scale (inode_tab s rip) p in
       if b = NO_BLOCK then 0 else view s (i_dev (inode_tab s rip), b) j)) \<and>
    (\<forall>k. disk_dev (fst k) \<longrightarrow> view t k = view s k) \<and> users t = (users s)(h := users s h + 1) \<and> rest t = rest s"
proof -
  let ?x = "inode_tab s rip" let ?b = "fblock (view s) scale ?x p"
  have d: "disk_dev (i_dev ?x)" using fs by (simp add: file_sound_def)
  have zi: "0 \<le> zone_index scale p" "zone_index scale p < MAX_ZONES"
    using zone_index_bounds [OF p(1), of "i_size ?x" scale] p(2) fs by (simp_all add: file_sound_def)
  obtain s1 where s1: "read_map rip p s = Done (?b, s1)" "steady s s1"
    using read_map_spec [OF iv r d sc zi] by (auto simp: fblock_def)
  have st: "cache_inv s1" "users s1 = users s" "rest s1 = rest s" "\<And>k. disk_dev (fst k) \<Longrightarrow> view s1 k = view s k"
    using s1(2) by (auto simp: steady_def)
  have x1: "inode_tab s1 rip = ?x" using rest_fields(1) [OF st(3)] by simp
  have cb: "chunk_block rip p s = Done (?b, i_dev ?x, s1)" using s1(1) ty x1 by (simp add: chunk_block_def)
  show ?thesis
  proof (cases "?b = NO_BLOCK")
    case True
    obtain h s2 where h: "get_block NO_DEV NO_BLOCK NORMAL s1 = Done (h, s2)" "queued s1 h s2" using get_scratch st(1,2) r by metis
    note z = zero_scratch [OF h(2)]
    have "chunk_buf rip p off n left READING s = Done (Some h, zero_block h s2)" using cb True ty x1 h(1) by (simp add: chunk_buf_def Let_def)
    moreover have "users s h = 0" using h(2) st(2) by (simp add: queued_def)
    ultimately show ?thesis using z st True by (auto simp: Let_def)
  next
    case False
    have v: "view s1 (i_dev ?x, b) = view s (i_dev ?x, b)" for b using st(4) d by simp
    have "file_sound (view s1) scale ?x" using fs file_sound_cong [of "view s1" ?x "view s"] v by blast
    moreover have "fblock (view s1) scale ?x p = ?b" using view_file_cong(1) [of "view s1" ?x "view s"] v by simp
    moreover have "scale_factor rip s1 = Done scale" using sc scale_factor_rest [OF st(3)] by simp
    ultimately obtain h t where h: "rahead rip ?b p left s1 = Done (h, t)" "cache_inv t" "holds_block t h (i_dev ?x, ?b)"
      "b_data (buf_tab t h) = view s1 (i_dev ?x, ?b)" "\<forall>k. disk_dev (fst k) \<longrightarrow> view t k = view s1 k"
      "users t = (users s1)(h := users s1 h + 1)" "rest t = rest s1"
      using rahead_spec [of s1 rip scale p ?b left] st(1,2) r ty p False x1 by (simp only:) blast
    have "chunk_buf rip p off n left READING s = Done (Some h, t)" using cb False ty x1 h(1) by (simp add: chunk_buf_def Let_def)
    then show ?thesis using h(2-) st v False by (intro exI [of _ h] exI [of _ t]) (auto simp: Let_def)
  qed
qed

lemma rw_chunk_reads:
  assumes iv: "cache_inv s" and r: "has_room (users s)" and sc: "scale_factor rip s = Done scale"
    and fs: "file_sound (view s) scale (inode_tab s rip)" and ty: "i_mode (inode_tab s rip) AND I_TYPE \<noteq> I_BLOCK_SPECIAL"
    and p: "0 \<le> p" "p < i_size (inode_tab s rip)" and n: "nat (p mod 1024) + n \<le> 1024"
    and cp: "copy_result s seg u (uint buff) (int n) = FS_OK"
  shows "\<exists>t. rw_chunk rip p (nat (p mod 1024)) n left READING buff seg u s = Done (FS_OK, t) \<and>
    after_read s (store_user seg u buff (fbytes (view s) scale (inode_tab s rip) p n) (user_mem s)) t"
proof -
  let ?x = "inode_tab s rip" let ?off = "nat (p mod 1024)"
  obtain h t k where h: "chunk_buf rip p ?off n left READING s = Done (Some h, t)" "cache_inv t" "holds_block t h k"
    "\<forall>j < BLOCK_SIZE. b_data (buf_tab t h) j = (let b = fblock (view s) scale ?x p in if b = NO_BLOCK then 0 else view s (i_dev ?x, b) j)"
    "\<forall>k. disk_dev (fst k) \<longrightarrow> view t k = view s k" "users t = (users s)(h := users s h + 1)" "rest t = rest s"
    using chunk_buf_reads [OF iv r sc fs ty p] by blast
  let ?data = "map (b_data (buf_tab t h)) [?off..<?off + n]"
  have data: "?data = fbytes (view s) scale ?x p n"
    using h(4) n unfolding fbytes_block [OF p(1) n] Let_def by (intro map_cong) auto
  have m: "user_mem t = user_mem s" "copy_result t = copy_result s"
    using arg_cong [OF h(7), of user_mem] arg_cong [OF h(7), of copy_result] by (simp_all add: rest_def)
  let ?s2 = "t\<lparr>user_mem := store_user seg u buff ?data (user_mem s)\<rparr>"
  have tu: "to_user seg u buff ?data t = (FS_OK, ?s2)" using to_user_ok [of t seg u buff ?data] cp m by simp
  obtain v where v: "put_block (Some h) (if ?off + n = BLOCK_SIZE then FULL_DATA_BLOCK else PARTIAL_DATA_BLOCK) ?s2 = Done v"
    "cache_inv v" "keeps ?s2 v" "users v = (users ?s2)(h := users ?s2 h - 1)"
    using put_held [of ?s2 h k] h(2,3) by auto
  have "rw_chunk rip p ?off n left READING buff seg u s = Done (FS_OK, v)"
    using h(1) tu v(1) by (simp add: rw_chunk_def Let_def)
  moreover have "after_read s (store_user seg u buff (fbytes (view s) scale ?x p n) (user_mem s)) v"
    using v(2-4) h(5-7) data by (auto simp: after_read_def keeps_def fun_eq_iff)
  ultimately show ?thesis by blast
qed

subsection \<open>The loop over the chunks and the call\<close>

lemma after_read_trans: "after_read s m t \<Longrightarrow> after_read t m' u \<Longrightarrow> after_read s m' u"
  by (simp add: after_read_def)

lemma after_read_fields:
  assumes "after_read s m t"
  shows "inode_tab t = inode_tab s" "super_tab t = super_tab s" "user_mem t = m" "copy_result t = copy_result s" "rdwt_err t = rdwt_err s"
    "scale_factor rip t = scale_factor rip s" "cache_inv t" "users t = users s" "filp_tab t = filp_tab s"
proof -
  have r: "rest t = (rest s)\<lparr>user_mem := m\<rparr>" using assms by (simp add: after_read_def)
  show "inode_tab t = inode_tab s" "super_tab t = super_tab s" "user_mem t = m" "copy_result t = copy_result s" "rdwt_err t = rdwt_err s"
    "filp_tab t = filp_tab s"
    using arg_cong [OF r, of inode_tab] arg_cong [OF r, of super_tab] arg_cong [OF r, of user_mem] arg_cong [OF r, of copy_result]
      arg_cong [OF r, of rdwt_err] arg_cong [OF r, of filp_tab] by (simp_all add: rest_def)
  then show "scale_factor rip t = scale_factor rip s" by (simp add: scale_factor_def get_super_def)
  show "cache_inv t" "users t = users s" using assms by (simp_all add: after_read_def)
qed

lemma after_read_file:
  assumes "after_read s m t" and "disk_dev (i_dev x)"
  shows "file_sound (view t) scale x = file_sound (view s) scale x" and "fbytes (view t) scale x p n = fbytes (view s) scale x p n"
proof -
  have v: "view t (i_dev x, b) = view s (i_dev x, b)" for b using assms by (simp add: after_read_def)
  show "file_sound (view t) scale x = file_sound (view s) scale x" using v by (rule file_sound_cong)
  have "fblock (view t) scale x = fblock (view s) scale x" using v by (rule view_file_cong(1))
  then show "fbytes (view t) scale x p n = fbytes (view s) scale x p n" by (simp add: fbytes_def fbyte_def v Let_def)
qed

lemma fbytes_append: "fbytes V scale x p (a + b) = fbytes V scale x p a @ fbytes V scale x (p + int a) b"
proof -
  have "[0..<a + b] = [0..<a] @ map (\<lambda>k. a + k) [0..<b]"
    using upt_add_eq_append [of 0 a b] map_add_upt [of a b] by (simp add: add.commute)
  then show ?thesis by (simp add: fbytes_def add.assoc)
qed

lemma length_fbytes [simp]: "length (fbytes V scale x p n) = n"
  by (simp add: fbytes_def)

definition reads :: "int \<Rightarrow> int \<Rightarrow> int \<Rightarrow> nat" where
  "reads fsz p n = nat (min n (fsz - p))"

lemma rw_loop_reads:
  assumes "cache_inv s" and "has_room (users s)" and "scale_factor rip s = Done scale"
    and "file_sound (view s) scale (inode_tab s rip)" and "i_mode (inode_tab s rip) AND I_TYPE \<noteq> I_BLOCK_SPECIAL"
    and "0 \<le> p" and "rdwt_err s = FS_OK"
    and "\<forall>k m. 0 \<le> k \<longrightarrow> k + m \<le> n \<longrightarrow> copy_result s seg u (uint (buff + word_of_int k)) m = FS_OK"
    and "N = reads (i_size (inode_tab s rip)) p n"
  shows "\<exists>t. rw_loop rip READING False (i_size (inode_tab s rip)) seg u FS_OK p buff n c s = Done (FS_OK, c + int N, p + int N, t) \<and>
    after_read s (store_user seg u buff (fbytes (view s) scale (inode_tab s rip) p N) (user_mem s)) t"
  using assms
proof (induction "nat n" arbitrary: p buff n c s N rule: less_induct)
  case less
  let ?x = "inode_tab s rip" let ?off = "p mod 1024"
  define ch where ch_def: "ch = min (min n (1024 - ?off)) (i_size ?x - p)"
  show ?case
  proof (cases "n \<le> 0 \<or> p \<ge> i_size ?x")
    case True
    then have N: "N = 0" using less.prems(9) by (auto simp: reads_def)
    have "after_read s (user_mem s) s" using less.prems(1) by (simp add: after_read_def rest_def)
    moreover have "rw_loop rip READING False (i_size ?x) seg u FS_OK p buff n c s = Done (FS_OK, c, p, s)"
      using True by (subst rw_loop.simps) (auto simp: Let_def)
    ultimately show ?thesis using N by (simp add: fbytes_def store_user_def)
  next
    case False
    have ch: "0 < ch" "ch \<le> n" "?off + ch \<le> 1024" "p + ch \<le> i_size ?x" "int (nat ch) = ch" using False by (auto simp: min_def ch_def)
    have n1: "nat ?off + nat ch \<le> 1024" using ch(1,3) by linarith
    have c1: "copy_result s seg u (uint buff) (int (nat ch)) = FS_OK" using less.prems(8) [rule_format, of 0 ch] ch(1,2) by simp
    have "p < i_size ?x" using False by simp
    from rw_chunk_reads [OF less.prems(1-6) this n1 c1] obtain s1 where s1: "rw_chunk rip p (nat ?off) (nat ch) (word_of_int n) READING buff seg u s = Done (FS_OK, s1)"
      "after_read s (store_user seg u buff (fbytes (view s) scale ?x p (nat ch)) (user_mem s)) s1"
      by blast
    note f = after_read_fields [OF s1(2)]
    have d: "disk_dev (i_dev ?x)" using less.prems(4) by (simp add: file_sound_def)
    note af = after_read_file [OF s1(2) d]
    let ?N = "reads (i_size ?x) (p + ch) (n - ch)"
    have cp: "\<forall>k m. 0 \<le> k \<longrightarrow> k + m \<le> n - ch \<longrightarrow> copy_result s1 seg u (uint (buff + word_of_int ch + word_of_int k)) m = FS_OK"
    proof (intro allI impI)
      fix k m :: int assume "0 \<le> k" "k + m \<le> n - ch"
      then have "copy_result s seg u (uint (buff + word_of_int (ch + k))) m = FS_OK" using less.prems(8) [rule_format, of "ch + k" m] ch(1) by simp
      then show "copy_result s1 seg u (uint (buff + word_of_int ch + word_of_int k)) m = FS_OK" by (simp add: f(4) add.assoc)
    qed
    have "\<exists>t. rw_loop rip READING False (i_size ?x) seg u FS_OK (p + ch) (buff + word_of_int ch) (n - ch) (c + ch) s1 =
        Done (FS_OK, c + ch + int ?N, p + ch + int ?N, t) \<and>
        after_read s1 (store_user seg u (buff + word_of_int ch) (fbytes (view s1) scale ?x (p + ch) ?N) (user_mem s1)) t"
      using less.hyps [of "n - ch" s1 "p + ch" "buff + word_of_int ch" ?N "c + ch"] less.prems ch cp f af by simp
    then obtain t where t: "rw_loop rip READING False (i_size ?x) seg u FS_OK (p + ch) (buff + word_of_int ch) (n - ch) (c + ch) s1 =
        Done (FS_OK, c + ch + int ?N, p + ch + int ?N, t)"
      "after_read s1 (store_user seg u (buff + word_of_int ch) (fbytes (view s) scale ?x (p + ch) ?N) (user_mem s1)) t"
      using af(2) by auto
    have N: "N = nat ch + ?N" "int (nat ch) = ch" using less.prems(9) ch by (auto simp: reads_def nat_add_distrib [symmetric] min_def)
    have wd: "(word_of_int ch :: u32) = of_nat (nat ch)" using ch(1) by (metis of_int_of_nat_eq N(2))
    have "rw_loop rip READING False (i_size ?x) seg u FS_OK p buff n c s = Done (FS_OK, c + int N, p + int N, t)"
    proof -
      have "\<not> p + ch > MAX_FILE_POS" using ch(4) less.prems(4) by (auto simp: file_sound_def)
      then show ?thesis using False s1(1) t(1) f(5) less.prems(7) N by (subst rw_loop.simps) (simp add: Let_def ch_def [symmetric])
    qed
    moreover have "store_user seg u buff (fbytes (view s) scale ?x p N) (user_mem s) =
        store_user seg u (buff + word_of_int ch) (fbytes (view s) scale ?x (p + ch) ?N) (user_mem s1)"
      unfolding N(1) fbytes_append store_user_append length_fbytes wd ch(5) f(3) ..
    ultimately show ?thesis using after_read_trans [OF s1(2) t(2)] by auto
  qed
qed

definition cache_part :: "fs \<Rightarrow> _" where
  "cache_part s = (buf_tab s, buf_hash s, front s, rear s, bufs_in_use s, disk s, answers s)"

lemma cache_part_cong:
  assumes "cache_part t = cache_part s"
  shows "users t = users s" and "cache_inv s \<Longrightarrow> cache_inv t" and "disk_dev (fst k) \<Longrightarrow> view t k = view s k"
proof -
  have f: "buf_tab t = buf_tab s" "buf_hash t = buf_hash s" "front t = front s" "rear t = rear s" "bufs_in_use t = bufs_in_use s"
    "disk t = disk s" "answers t = answers s" using assms by (simp_all add: cache_part_def)
  show "users t = users s" by (simp add: users_def f fun_eq_iff)
  show "disk_dev (fst k) \<Longrightarrow> view t k = view s k" using view_cong [of t s "fst k" "snd k"] by (simp add: f)
  assume iv: "cache_inv s"
  then have ok: "cache_ok s" "coherent {} s" by (simp_all add: cache_inv_def)
  have "cache_ok t" using ok(1) by (simp add: cache_ok_def cache_but_def dll_def hash_rep_def uniq_def devs_ok_def in_use_def f)
  moreover have "coherent {} t" using coherent_cong [OF ok(2), of t] cache_ok_parts [OF ok(1)] by (simp add: f)
  ultimately show "cache_inv t" using iv by (simp add: cache_inv_def f)
qed

lemma cache_part_upd [simp]:
  "cache_part (upd_inode i f s) = cache_part s" "cache_part (upd_filp j g s) = cache_part s" "cache_part (s\<lparr>err_code := e\<rparr>) = cache_part s"
  "cache_part (s\<lparr>rdwt_err := e\<rparr>) = cache_part s" "cache_part (s\<lparr>rdahed_inode := ro, rdahedpos := e\<rparr>) = cache_part s"
  by (simp_all add: cache_part_def fs_upd)

text \<open>The end of a read of a regular file.\<close>

lemma finish_read:
  assumes "i_mode (inode_tab s rip) AND I_TYPE = I_REGULAR" and "\<not> i_pipe (inode_tab s rip)" and "rdwt_err s = FS_OK"
  shows "\<exists>t. finish_rw f rip READING fsz FS_OK c p s = (c, t) \<and> cache_part t = cache_part s \<and> user_mem t = user_mem s \<and> filp_pos (filp_tab t f) = p"
  using assms by (simp add: finish_rw_def Let_def fs_upd cache_part_def)

text \<open>
  C1. Reading a regular file returns its contents. A \<open>read\<close> of \<open>nbytes\<close> bytes at position \<open>p\<close> copies to the caller
  exactly the bytes \<open>p\<close>, \<open>p + 1\<close>, \<dots> of the file, up to its end, and returns their number; holes read as zeros; the
  position moves on. The bytes are those of the blocks that the zone tree of the file names, as the cache and the disk
  hold them, whatever is in the cache and however many blocks are read ahead, and no content of any block changes.
  The disks answer, the file is sound (its blocks are apart from each other and from its indirect blocks) and the
  buffer of the caller is in its memory.
\<close>

theorem do_read_returns_contents:
  assumes "cache_inv s" and "has_room (users s)" and "who s \<noteq> MM_PROC"
    and "0 \<le> m_i1 (request s)" and "m_i1 (request s) < OPEN_MAX" and "fp_filp (caller s) (m_i1 (request s)) = Some f"
    and "filp_mode (filp_tab s f) AND R_BIT \<noteq> 0" and "filp_ino (filp_tab s f) = Some rip"
    and "i_mode (inode_tab s rip) AND I_TYPE = I_REGULAR" and "\<not> i_pipe (inode_tab s rip)"
    and "filp_pos (filp_tab s f) = p" and "0 \<le> p" and "p \<le> MAX_FILE_POS" and "m_i2 (request s) = n" and "0 < n"
    and "scale_factor rip s = Done scale" and "file_sound (view s) scale (inode_tab s rip)"
    and "\<forall>k m. 0 \<le> k \<longrightarrow> k + m \<le> n \<longrightarrow> copy_result s Data_space (who s) (uint (m_p1 (request s) + word_of_int k)) m = FS_OK"
  shows "\<exists>t. do_read s = Done (int (reads (i_size (inode_tab s rip)) p n), t) \<and>
    user_mem t = store_user Data_space (who s) (m_p1 (request s))
      (fbytes (view s) scale (inode_tab s rip) p (reads (i_size (inode_tab s rip)) p n)) (user_mem s) \<and>
    filp_pos (filp_tab t f) = p + int (reads (i_size (inode_tab s rip)) p n) \<and>
    cache_inv t \<and> users t = users s \<and> (\<forall>k. disk_dev (fst k) \<longrightarrow> view t k = view s k)"
proof -
  let ?x = "inode_tab s rip" let ?N = "reads (i_size ?x) p n"
  let ?s = "s\<lparr>err_code := EBADF, rdwt_err := FS_OK\<rparr>"
  note cp = cache_part_cong [of ?s s, simplified]
  have d: "disk_dev (i_dev ?x)" using assms(17) by (simp add: file_sound_def)
  have v: "view ?s (i_dev ?x, b) = view s (i_dev ?x, b)" for b using cp(3) [of "(i_dev ?x, b)"] d by simp
  have fs: "file_sound (view ?s) scale (inode_tab ?s rip)" using assms(17) file_sound_cong [of "view ?s" ?x "view s"] v by simp
  have fb: "fbytes (view ?s) scale ?x p m = fbytes (view s) scale ?x p m" for m
    using view_file_cong(1) [of "view ?s" ?x "view s"] v by (simp add: fbytes_def fbyte_def Let_def)
  have sc: "scale_factor rip ?s = Done scale" using assms(16) by (simp add: scale_factor_def get_super_def)
  obtain t where t: "rw_loop rip READING False (i_size ?x) Data_space (who s) FS_OK p (m_p1 (request s)) n 0 ?s = Done (FS_OK, int ?N, p + int ?N, t)"
    "after_read ?s (store_user Data_space (who s) (m_p1 (request s)) (fbytes (view s) scale ?x p ?N) (user_mem s)) t"
    using rw_loop_reads [of ?s rip scale p n Data_space "who s" "m_p1 (request s)" ?N 0] cp(1,2) assms(1,2,9,12,18) fs sc fb by auto
  note f = after_read_fields [OF t(2)]
  obtain u where u: "finish_rw f rip READING (i_size ?x) FS_OK (int ?N) (p + int ?N) t = (int ?N, u)" "cache_part u = cache_part t"
    "user_mem u = user_mem t" "filp_pos (filp_tab u f) = p + int ?N"
    using finish_read [of t rip f "i_size ?x" "int ?N" "p + int ?N"] f(1,5) assms(9,10) by auto
  have "do_read s = Done (int ?N, u)"
    using assms(3-15) t(1) u(1)
    by (simp add: do_read_def read_write_def rw_file_def get_filp_def rw_blocks_def Let_def)
  moreover have "view u k = view s k" if "disk_dev (fst k)" for k
    using cache_part_cong(3) [OF u(2) that] t(2) cp(3) [OF that] that by (cases k) (simp add: after_read_def)
  ultimately show ?thesis using u(3,4) f(3,7,8) cache_part_cong(1,2) [OF u(2)] cp(1) by auto
qed

text \<open>Process 5 reads ten bytes at the start of the file above, which has five bytes in block 18.\<close>

definition demo_reader :: fs where
  "demo_reader = upd_inode 2 (\<lambda>x. x\<lparr>i_mode := I_REGULAR, i_size := 5\<rparr>)
     (upd_filp 3 (\<lambda>f. f\<lparr>filp_mode := 4, filp_count := 1, filp_ino := Some 2\<rparr>) demo_file)
     \<lparr>fproc_tab := (fproc_tab demo_fs)(5 := (fproc_tab demo_fs 5)\<lparr>fp_filp := (\<lambda>_. None)(0 := Some 3)\<rparr>), fp := 5, who := 5,
      request := (request demo_fs)\<lparr>m_i2 := 10, m_p1 := 100\<rparr>\<rparr>"

lemma demo_reader_cache: "cache_part demo_reader = cache_part demo_file"
  by (simp add: demo_reader_def cache_part_def fs_upd)

lemma demo_reader_facts:
  "cache_inv demo_reader" "has_room (users demo_reader)" "scale_factor 2 demo_reader = Done 0"
  "file_sound (view demo_reader) 0 (inode_tab demo_reader 2)"
  "fbytes (view demo_reader) 0 (inode_tab demo_reader 2) 0 5 = [18, 18, 18, 18, 18]"
proof -
  note cp = cache_part_cong [OF demo_reader_cache]
  show "cache_inv demo_reader" "has_room (users demo_reader)" using cp(1,2) demo_file_ok by simp_all
  show "scale_factor 2 demo_reader = Done 0"
    using demo_file_ok(4) by (simp add: scale_factor_def get_super_def demo_reader_def fs_upd)
  have x: "inode_tab demo_reader 2 = (inode_tab demo_file 2)\<lparr>i_mode := I_REGULAR, i_size := 5\<rparr>" by (simp add: demo_reader_def fs_upd)
  have xs: "i_dev (inode_tab demo_reader 2) = 0x300" "i_size (inode_tab demo_reader 2) = 5"
    "i_zone (inode_tab demo_reader 2) = (\<lambda>_. NO_ZONE)(0 := 18, 7 := 20)"
    by (simp_all add: x demo_file_def fs_upd)
  have l: "leaf_zone V 0 (inode_tab demo_reader 2) n = (if n < 519 then 20 else NO_ZONE)" for V n by (simp add: leaf_zone_def xs)
  have b: "fblock V 0 (inode_tab demo_reader 2) p = 18" if "0 \<le> p" "p < 1024" for V p
    using that by (simp add: fblock_def zone_at_def xs zone_index_def block_pos_def block_in_zone_def zone_block_def)
  have "(0x300, 18) \<notin> file_meta V 0 (inode_tab demo_reader 2)" for V by (auto simp: file_meta_def xs l zone_block_def split: if_splits)
  then show "file_sound (view demo_reader) 0 (inode_tab demo_reader 2)"
    unfolding file_sound_def xs using b by (auto simp: zone_index_def block_pos_def disk_dev_def major_of_def)
  have "cached 0x300 18 demo_file = None"
    by (simp add: uncached_iff uncached_def demo_file_def fs_upd buf_pool_def demo_fs_def no_buf_def)
  then have "view demo_reader (0x300, 18) j = 18" for j
    using cp(3) [of "(0x300, 18)"] by (simp add: disk_dev_def major_of_def view_def demo_file_def fs_upd buf_pool_def demo_fs_def)
  then show "fbytes (view demo_reader) 0 (inode_tab demo_reader 2) 0 5 = [18, 18, 18, 18, 18]"
    using b by (simp add: fbytes_def upt_rec fbyte_def xs)
qed

theorem do_read_returns_contents_witness:
  "\<exists>t. do_read demo_reader = Done (5, t) \<and> filp_pos (filp_tab t 3) = 5 \<and> user_mem t 5 Data_space 104 = 18 \<and> user_mem t 5 Data_space 105 = 0"
proof -
  have e: "who demo_reader = 5" "request demo_reader = (request demo_fs)\<lparr>m_i2 := 10, m_p1 := 100\<rparr>" "fp_filp (caller demo_reader) 0 = Some 3"
    "filp_tab demo_reader 3 = \<lparr>filp_mode = 4, filp_flags = 0, filp_count = 1, filp_ino = Some 2, filp_pos = 0\<rparr>"
    "i_mode (inode_tab demo_reader 2) = I_REGULAR" "i_size (inode_tab demo_reader 2) = 5" "\<not> i_pipe (inode_tab demo_reader 2)"
    "copy_result demo_reader = (\<lambda>_ _ _ _. 0)" "user_mem demo_reader = (\<lambda>_ _ _. 0)"
    by (simp_all add: demo_reader_def demo_file_def fs_upd buf_pool_def demo_fs_def)
  show ?thesis
    using do_read_returns_contents [of demo_reader 3 2 0 10 0] demo_reader_facts e
    by (auto simp: reads_def store_user_def demo_fs_def upt_rec)
qed

end
