(* ===== verification/Spec2Isabelle.thy ===== *)
theory Spec2Isabelle
  imports Minix_Prelude MM_Alloc Kernel_Clock Lisa_MMU Lisa_Kbd Lib_Sort MM_Calls FS_Table FS_Contents
begin

text \<open>
  \<^bold>\<open>MINIX 1.5 for the Apple Lisa: a verification development.\<close>

  \<^bold>\<open>The program.\<close> The repository is a port of MINIX 1.5 to the Apple Lisa: a 68000 with 16-bit \<open>int\<close>s and 32-bit
  \<open>long\<close>s, compiled with \<open>MACHINE = LISA\<close>. It is a set of processes that talk by messages. The kernel
  (\<open>src/src/kernel\<close>) schedules them, passes the messages, turns interrupts into messages and holds the system
  task and the clock task, which act on requests of the servers; \<open>lisa/lisammu.c\<close> sets up the memory management
  unit at every process switch, and the terminal task (\<open>tty.c\<close>, \<open>lisa/lisacons.c\<close>, \<open>lisa/lisavdu.c\<close>) reads the keyboard and
  writes the screen. The memory manager MM (\<open>src/src/mm\<close>) owns the memory and the process tree:
  fork, exit, wait, exec, brk, signals, ptrace. The file system FS (\<open>src/src/fs\<close>) owns the disks.

  \<^bold>\<open>Conventions.\<close> Structs are records, tables functions from slot numbers, pointers into a table are slot
  numbers (\<open>None\<close> is the null pointer), globals are fields of one state record for each program. A function of
  the source is one definition of the same name that takes the state and returns the new one. Code that may
  fail returns an \<open>outcome\<close>: \<open>Done\<close> with the result, \<open>Panic\<close> where the source calls \<open>panic\<close>, \<open>Stuck\<close> where
  the behaviour of the source is undefined (a null pointer is followed, an index leaves its table) or a loop
  does not end. \<open>and_then\<close> composes them. Machine integers are words of their width where they wrap.

  \<^bold>\<open>Theories.\<close>
  \<^item> \<open>Minix_Prelude\<close>: outcomes, chains of linked slots with the loops that walk them, lemmas on words.
  \<^item> \<open>MM_Alloc\<close> (\<open>mm/alloc.c\<close>): the hole list. The abstract view is a sorted list of separated holes; locale
    \<open>click_allocator\<close> is the interface that MM uses, interpreted on the code as \<open>hole_alloc\<close>.
  \<^item> \<open>Kernel_Proc\<close>, \<open>Kernel_IPC\<close> (\<open>kernel/proc.c\<close>): ready queues and scheduling; messages, deadlock detection,
    interrupts and signals. Locale \<open>class_queues\<close>, interpreted as \<open>rdy\<close>, is the interface of the scheduler.
    \<open>kernel_run_safe\<close> is the invariant of the kernel for every sequence of calls and interrupts.
  \<^item> \<open>Kernel_System\<close> (\<open>kernel/system.c\<close>, \<open>stshadow.c\<close>): the handlers of the system task.
  \<^item> \<open>Kernel_Clock\<close> (\<open>kernel/clock.c\<close>): alarms, time, quantum, the tick, which rings
    the alarms that are due and no other. Times do not wrap in the model.
  \<^item> \<open>Lisa_MMU\<close> (\<open>kernel/lisa/lisammu.c\<close>): the segment registers that a process switch leaves behind.
  \<^item> \<open>Lisa_Font\<close>, \<open>Lisa_Vdu\<close> (\<open>kernel/stfnt.c\<close>, \<open>lisa/lisavdu.c\<close>): the font and the screen, byte by byte of video memory. The
    abstract view is a terminal of 40 rows of 90 characters; for text the driver refines it, for every byte it stays
    inside of the screen, up to the bytes for which it hangs or overruns its buffer.
  \<^item> \<open>Kernel_TTY\<close> (\<open>kernel/tty.c\<close>, \<open>lisa/lisacons.c\<close>): the terminal task with the console. The abstract view of the input ring is the
    list \<open>inq\<close>; locale \<open>line_queue\<close>, interpreted as \<open>line\<close>, is the interface of line editing: a reader gets the edited line.
    The state stays well-formed in every run.
  \<^item> \<open>Lisa_Kbd\<close> (\<open>kernel/lisa/lisakbd.c\<close>): the byte stream of the keyboard controller, keys and their repetition, the real-time clock.
    The state stays in order however interrupts and requests are interleaved; a clock reading becomes the time of day
    that \<open>gmtime\<close> turns back into the reading.
  \<^item> \<open>Lib_Number\<close> (\<open>lib/ansi/ctype.c\<close>, \<open>strtol.c\<close>, \<open>strtoul.c\<close>, \<open>atol.c\<close>, \<open>atoi.c\<close>, \<open>lib/other/itoa.c\<close>, \<open>printk.c\<close>): numbers and text. \<open>strtol\<close> meets
    a reference definition, and reads what \<open>printk\<close> prints.
  \<^item> \<open>Lib_Sort\<close> (\<open>lib/ansi/qsort.c\<close>, \<open>bsearch.c\<close>, \<open>strcmp.c\<close>): sorting and searching. Locale \<open>comparison\<close> is what they need of the comparison
    function, interpreted on \<open>strcmp\<close> as \<open>str\<close>. The distances between pointers have 16 bits, as in the source: arrays of less than 32 KB are sorted.
  \<^item> \<open>Lib_Time\<close> (\<open>lib/ansi/ctime.c\<close>): the calendar; \<open>mktime\<close> and \<open>localtime\<close> are inverse.
  \<^item> \<open>MM_Proc\<close>, \<open>MM_Main\<close>, \<open>MM_Table\<close>, \<open>MM_Calls\<close> (the rest of \<open>mm\<close>): the process table, each system call, the
    main loop; the calls run the handlers of \<open>Kernel_System\<close> and the allocator. \<open>MM_Table\<close> holds the invariant of
    the table over every run, \<open>MM_Calls\<close> what the calls do.
  \<^item> \<open>FS_State\<close>: the tables of FS, its environment (disks, answers of the tasks, memory of the users) and the
    requests to the tasks (\<open>fs/device.c\<close>, parts of \<open>pipe.c\<close> and \<open>main.c\<close>).
  \<^item> \<open>FS_Cache\<close>, \<open>FS_Cache_Inv\<close>, \<open>FS_Cache_View\<close> (\<open>fs/cache.c\<close>): the block cache; its invariant under every sequence of
    operations of its clients (the relation \<open>cache_step\<close>, read-ahead included) and any failure of the disks; the proof that it is transparent. Locale \<open>block_store\<close>, interpreted as \<open>blocks\<close>,
    is the interface for the clients of the cache.
  \<^item> \<open>FS_Super\<close> (\<open>fs/super.c\<close>): super blocks, bit maps, zones.
  \<^item> \<open>FS_File\<close> (parts of \<open>fs/read.c\<close>, \<open>write.c\<close>, \<open>link.c\<close>): the zone tree of a file.
  \<^item> \<open>FS_Inode\<close> (\<open>fs/inode.c\<close>, \<open>filedes.c\<close>, parts of \<open>protect.c\<close>, \<open>time.c\<close>): the inode table, file descriptors, permissions.
  \<^item> \<open>FS_Path\<close> (\<open>fs/path.c\<close>): names, directories, mounted file systems.
  \<^item> \<open>FS_Read\<close> (\<open>fs/read.c\<close>, \<open>write.c\<close>, \<open>pipe.c\<close>): reading, writing, read ahead, pipes, suspending and reviving.
  \<^item> \<open>FS_Calls\<close> (\<open>fs/open.c\<close>, \<open>link.c\<close>, \<open>stadir.c\<close>, \<open>mount.c\<close>, \<open>protect.c\<close>, \<open>misc.c\<close>, \<open>time.c\<close>, \<open>device.c\<close>): the other system calls.
  \<^item> \<open>FS_Main\<close> (\<open>fs/main.c\<close>, \<open>table.c\<close>): start-up and the main loop, \<open>fs_turn\<close>.
  \<^item> \<open>FS_Frame\<close>: which calls leave the descriptors and the reference counts alone. \<open>FS_Table\<close>: the counts of the \<open>filp\<close>
    table agree with the descriptors of all processes, after any run of the main loop.
  \<^item> \<open>FS_Contents\<close>: a \<open>read\<close> returns the bytes of the file.

  \<^bold>\<open>Bounds and fuel.\<close> The walks along chains take the size of the table as fuel, which the invariants show to be
  enough (\<open>NR_HOLES\<close>, all process slots, \<open>NR_BUFS\<close>); a chain that is longer has a cycle, and the walk is \<open>Stuck\<close>.
  The search for a free process id tries 64 candidates: the table has fewer slots. \<open>cleanup\<close> recurses twice at
  most. Crossing mount points in \<open>path.c\<close> takes \<open>NR_SUPERS\<close> steps at most, one for each file system.
  A tab moves the cursor 30 times at most or never stops; an escape sequence has 21 bytes at most. Erasing a line takes as
  many steps as the queue has characters, a read from the terminal as many as bytes are wanted. A number has 11 digits at
  most (\<open>MAXDIG\<close>). \<open>qsort\<close>, \<open>bsearch\<close>, \<open>printk\<close> and \<open>gmtime\<close> are total, with proofs of termination. The nested
  interrupts during \<open>unhold\<close> and the answers of the disk tasks are finite scripts that the theorems quantify over.

  \<^bold>\<open>Not modelled.\<close> The disk drivers (\<open>lisafloppy.c\<close>, \<open>lisapro.c\<close>), the start-up and the assembly code act on hardware registers that
  nothing in the repository defines; the Atari and PC drivers are not compiled. The rest of the
  libraries and the commands run above the system-call interface. Of FS,
  \<open>askdev\<close>, \<open>fastload\<close> and \<open>lastused\<close> of \<open>main.c\<close> are not compiled into the Lisa system.
\<close>

end
